(* ===== verification/Prelude.thy ===== *)
theory Prelude
  imports Main "HOL-Library.Word"
begin

text \<open>
  Shared by every theory of the development: the fold combinators of \<^verbatim>\<open>hmpc/iter/\<close>, the
  arithmetic of \<^verbatim>\<open>detail::div_ceil\<close>, and the value of a stream of limbs.

  The integers of hmpc are arrays of limbs, least significant limb first.  A stream of limbs is a
  function \<open>nat \<Rightarrow> 'a word\<close> (what \<^verbatim>\<open>extended_read\<close> answers for each index), and
  \<open>limbs_val f n\<close> is the integer its first \<open>n\<close> limbs denote.  The lemmas on
  \<open>limbs_val\<close> carry every functional property of the arithmetic: bounds, uniqueness of the
  limbs, the limbs of a given integer, sign extension and the bits of a value.

  \<open>carry_fold\<close> collects the equations that turn a fold which writes the limbs of a result one
  after the other into the list of these limbs.
\<close>

named_theorems carry_fold \<open>folds that write the limbs of a result in order\<close>

section \<open>The loops of hmpc/iter\<close>

text \<open>
  \<^verbatim>\<open>scan_range\<close> folds a function over the indices of a range, handing each call the value the
  call before returned; \<^verbatim>\<open>for_range\<close> runs a function for its effect only, which is a fold over
  the state; the reverse variants run through the indices downwards.
\<close>

definition scan_range_from :: "nat \<Rightarrow> nat \<Rightarrow> (nat \<Rightarrow> 's \<Rightarrow> 's) \<Rightarrow> 's \<Rightarrow> 's" where
  "scan_range_from lo hi f initial = fold f [lo..<hi] initial"

definition scan_range :: "nat \<Rightarrow> (nat \<Rightarrow> 's \<Rightarrow> 's) \<Rightarrow> 's \<Rightarrow> 's" where
  "scan_range v f initial = fold f [0..<v] initial"

definition scan_reverse_range :: "nat \<Rightarrow> (nat \<Rightarrow> 's \<Rightarrow> 's) \<Rightarrow> 's \<Rightarrow> 's" where
  "scan_reverse_range v f initial = fold (\<lambda>i. f (v - i - 1)) [0..<v] initial"

definition for_range :: "nat \<Rightarrow> (nat \<Rightarrow> 's \<Rightarrow> 's) \<Rightarrow> 's \<Rightarrow> 's" where
  "for_range v f state = fold f [0..<v] state"

definition for_range_from :: "nat \<Rightarrow> nat \<Rightarrow> (nat \<Rightarrow> 's \<Rightarrow> 's) \<Rightarrow> 's \<Rightarrow> 's" where
  "for_range_from lo hi f state = fold f [lo..<hi] state"

definition for_reverse_range :: "nat \<Rightarrow> (nat \<Rightarrow> 's \<Rightarrow> 's) \<Rightarrow> 's \<Rightarrow> 's" where
  "for_reverse_range v f state = fold (\<lambda>i. f (v - i - 1)) [0..<v] state"

lemma scan_range_0 [simp]: "scan_range 0 f s = s"
  by (simp add: scan_range_def)

lemma scan_range_Suc [simp]: "scan_range (Suc n) f s = f n (scan_range n f s)"
  by (simp add: scan_range_def)

lemma for_range_0 [simp]: "for_range 0 f s = s"
  by (simp add: for_range_def)

lemma for_range_Suc [simp]: "for_range (Suc n) f s = f n (for_range n f s)"
  by (simp add: for_range_def)

lemma scan_range_from_same [simp]: "scan_range_from n n f s = s"
  by (simp add: scan_range_from_def)

lemma scan_range_from_Suc [simp]:
  "a \<le> n \<Longrightarrow> scan_range_from a (Suc n) f s = f n (scan_range_from a n f s)"
  by (simp add: scan_range_from_def)

lemma for_range_from_same [simp]: "for_range_from n n f s = s"
  by (simp add: for_range_from_def)

lemma for_range_from_Suc [simp]:
  "a \<le> n \<Longrightarrow> for_range_from a (Suc n) f s = f n (for_range_from a n f s)"
  by (simp add: for_range_from_def)

lemma fold_reverse_upt: "fold (\<lambda>i. f (n - i - 1)) [0..<n] s = fold f (rev [0..<n]) s"
proof -
  have "rev [0..<n] = map (\<lambda>i. n - i - 1) [0..<n]"
    by (rule nth_equalityI) (auto simp: rev_nth)
  then show ?thesis by (simp add: fold_map comp_def)
qed

lemma scan_reverse_range_0 [simp]: "scan_reverse_range 0 f s = s"
  by (simp add: scan_reverse_range_def)

lemma scan_reverse_range_Suc [simp]:
  "scan_reverse_range (Suc n) f s = scan_reverse_range n f (f n s)"
  by (simp only: scan_reverse_range_def fold_reverse_upt) simp

lemma for_reverse_range_0 [simp]: "for_reverse_range 0 f s = s"
  by (simp add: for_reverse_range_def)

lemma for_reverse_range_Suc [simp]:
  "for_reverse_range (Suc n) f s = for_reverse_range n f (f n s)"
  by (simp only: for_reverse_range_def fold_reverse_upt) simp

text \<open>Two loops over the same range with pointwise related bodies end in related states.\<close>

lemma scan_range_rel:
  assumes "R 0 s t"
    and "\<And>i s t. i < n \<Longrightarrow> R i s t \<Longrightarrow> R (Suc i) (f i s) (g i t)"
  shows "R n (scan_range n f s) (scan_range n g t)"
  using assms by (induction n) auto

lemma scan_range_inv:
  assumes "P 0 s" and "\<And>i s. i < n \<Longrightarrow> P i s \<Longrightarrow> P (Suc i) (f i s)"
  shows "P n (scan_range n f s)"
  using assms by (induction n) auto

lemma scan_range_from_inv:
  assumes "a \<le> n" and "P a s" and "\<And>i s. a \<le> i \<Longrightarrow> i < n \<Longrightarrow> P i s \<Longrightarrow> P (Suc i) (f i s)"
  shows "P n (scan_range_from a n f s)"
  using assms
proof (induction n)
  case 0
  then show ?case by simp
next
  case (Suc n)
  then show ?case by (cases "a = Suc n") auto
qed

lemma for_range_inv:
  assumes "P 0 s" and "\<And>i s. i < n \<Longrightarrow> P i s \<Longrightarrow> P (Suc i) (f i s)"
  shows "P n (for_range n f s)"
  using assms by (induction n) auto

section \<open>Division rounding up\<close>

text \<open>\<^verbatim>\<open>detail::div_ceil\<close>: the number of limbs that hold a number of bits.\<close>

definition div_ceil :: "nat \<Rightarrow> nat \<Rightarrow> nat" where
  "div_ceil numerator denominator = (numerator + denominator - 1) div denominator"

lemma div_ceil_0 [simp]: "div_ceil 0 d = 0"
  by (cases d) (simp_all add: div_ceil_def)

lemma div_ceil_cases:
  assumes "0 < d"
  shows "div_ceil n d = (if n mod d = 0 then n div d else Suc (n div d))"
proof -
  obtain q r where n: "n = q * d + r" and r: "r < d"
    using assms by (metis div_mult_mod_eq mod_less_divisor)
  show ?thesis
  proof (cases "r = 0")
    case True
    have "(q * d + d - 1) div d = q"
      using assms by (intro div_nat_eqI) (auto simp: algebra_simps)
    with True n r assms show ?thesis by (simp add: div_ceil_def)
  next
    case False
    have "(q * d + r + d - 1) div d = Suc q"
      using assms False r by (intro div_nat_eqI) (auto simp: algebra_simps)
    with False n r assms show ?thesis by (simp add: div_ceil_def)
  qed
qed

lemma div_ceil_le_mult:
  assumes "0 < d"
  shows "n \<le> d * div_ceil n d"
proof -
  have "n = d * (n div d) + n mod d" and "n mod d < d" using assms by simp_all
  then have "n mod d = 0 \<Longrightarrow> n \<le> d * (n div d)" and "n \<le> d + d * (n div d)" by linarith+
  then show ?thesis using assms by (simp add: div_ceil_cases)
qed

lemma div_ceil_mult [simp]: "0 < d \<Longrightarrow> div_ceil (n * d) d = n" "0 < d \<Longrightarrow> div_ceil (d * n) d = n"
  by (simp_all add: div_ceil_cases)

lemma div_ceil_pos_iff: "0 < d \<Longrightarrow> 0 < div_ceil n d \<longleftrightarrow> 0 < n"
  by (cases "n = 0") (auto simp: div_ceil_cases dest: div_eq_0_iff [THEN iffD1])

lemma div_ceil_upper:
  assumes "0 < n" and "0 < d"
  shows "d * (div_ceil n d - 1) < n"
proof -
  have n: "d * (n div d) + n mod d = n" by simp
  show ?thesis
  proof (cases "n mod d = 0")
    case True
    with n assms show ?thesis by (simp add: div_ceil_cases diff_mult_distrib2)
  next
    case False
    with n have "d * (n div d) < n" by linarith
    with False assms show ?thesis by (simp add: div_ceil_cases)
  qed
qed

lemma div_ceil_mono: "m \<le> n \<Longrightarrow> div_ceil m d \<le> div_ceil n d"
  by (simp add: div_ceil_def div_le_mono)

section \<open>Congruences\<close>

text \<open>Replacing one summand or factor by a congruent one, in the form the proofs use it.\<close>

lemma mod_add_cong1: "a mod p = b mod p \<Longrightarrow> (a + c) mod p = (b + c) mod (p :: int)"
  by (metis mod_add_left_eq)

lemma mod_add_cong2: "a mod p = b mod p \<Longrightarrow> (c + a) mod p = (c + b) mod (p :: int)"
  by (metis mod_add_right_eq)

lemma mod_add_mult_cong: "a mod p = b mod p \<Longrightarrow> (c + a * d) mod p = (c + b * d) mod (p :: int)"
  by (rule mod_add_cong2) (metis mod_mult_left_eq)

lemma mod_mult_cong2: "a mod p = b mod p \<Longrightarrow> (c * a) mod p = (c * b) mod (p :: int)"
  by (metis mod_mult_right_eq)

section \<open>The value of a stream of limbs\<close>

fun limbs_val :: "(nat \<Rightarrow> 'a::len word) \<Rightarrow> nat \<Rightarrow> int" where
  "limbs_val f 0 = 0"
| "limbs_val f (Suc n) = limbs_val f n + uint (f n) * 2 ^ (LENGTH('a) * n)"

lemma limbs_val_cong: "(\<And>i. i < n \<Longrightarrow> f i = g i) \<Longrightarrow> limbs_val f n = limbs_val g n"
  by (induction n) auto

lemma limbs_val_nonneg [simp]: "0 \<le> limbs_val f n"
  by (induction n) auto

lemma limbs_val_less: "limbs_val (f :: nat \<Rightarrow> 'a::len word) n < 2 ^ (LENGTH('a) * n)"
proof (induction n)
  case 0
  then show ?case by simp
next
  case (Suc n)
  let ?P = "2 ^ (LENGTH('a) * n) :: int"
  have "uint (f n) + 1 \<le> 2 ^ LENGTH('a)"
    using uint_lt2p [of "f n"] by linarith
  then have "(uint (f n) + 1) * ?P \<le> 2 ^ LENGTH('a) * ?P"
    by (rule mult_right_mono) simp
  with Suc show ?case by (simp add: algebra_simps power_add)
qed

lemma limbs_val_mod_self [simp]:
  "limbs_val (f :: nat \<Rightarrow> 'a::len word) n mod 2 ^ (LENGTH('a) * n) = limbs_val f n"
  using limbs_val_less [of f n] by simp

lemma limbs_val_add:
  "limbs_val (f :: nat \<Rightarrow> 'a::len word) (m + n)
   = limbs_val f m + 2 ^ (LENGTH('a) * m) * limbs_val (\<lambda>i. f (m + i)) n"
  by (induction n) (auto simp: algebra_simps power_add)

lemma limbs_val_mod:
  assumes "m \<le> n"
  shows "limbs_val (f :: nat \<Rightarrow> 'a::len word) n mod 2 ^ (LENGTH('a) * m) = limbs_val f m"
proof -
  obtain k where "n = m + k" using assms le_Suc_ex by blast
  then show ?thesis by (simp add: limbs_val_add)
qed

lemma limbs_val_div:
  assumes "m \<le> n"
  shows "limbs_val (f :: nat \<Rightarrow> 'a::len word) n div 2 ^ (LENGTH('a) * m)
    = limbs_val (\<lambda>i. f (m + i)) (n - m)"
proof -
  obtain k where k: "n = m + k" using assms le_Suc_ex by blast
  show ?thesis
    using limbs_val_less [of f m] by (simp add: k limbs_val_add div_pos_pos_trivial)
qed

lemma limbs_val_Suc_shift:
  "limbs_val (f :: nat \<Rightarrow> 'a::len word) (Suc n)
   = uint (f 0) + 2 ^ LENGTH('a) * limbs_val (\<lambda>i. f (Suc i)) n"
  using limbs_val_add [of f 1 n] by simp

lemma limbs_val_zero: "(\<And>i. i < n \<Longrightarrow> f i = 0) \<Longrightarrow> limbs_val f n = 0"
  by (induction n) auto

lemma limbs_val_zero_iff: "limbs_val f n = 0 \<longleftrightarrow> (\<forall>i<n. f i = 0)"
proof
  show "limbs_val f n = 0 \<Longrightarrow> \<forall>i<n. f i = 0"
  proof (induction n)
    case (Suc n)
    have "0 \<le> uint (f n) * 2 ^ (LENGTH('a) * n)" by simp
    with Suc.prems have "limbs_val f n = 0" and "uint (f n) * 2 ^ (LENGTH('a) * n) = 0"
      using limbs_val_nonneg [of f n] by (simp_all add: add_nonneg_eq_0_iff)
    with Suc.IH show ?case by (auto simp: less_Suc_eq uint_0_iff)
  qed simp
qed (auto intro: limbs_val_zero)

lemma limbs_val_ones:
  assumes "\<And>i. i < n \<Longrightarrow> f i = - 1"
  shows "limbs_val (f :: nat \<Rightarrow> 'a::len word) n = 2 ^ (LENGTH('a) * n) - 1"
  using assms
  by (induction n) (auto simp: unsigned_minus_1_eq_mask mask_eq_exp_minus_1 algebra_simps power_add)

text \<open>The limb of an integer at an index, and its inverse role to \<open>limbs_val\<close>.\<close>

definition limb_of :: "int \<Rightarrow> nat \<Rightarrow> 'a::len word" where
  "limb_of x i = word_of_int (x div 2 ^ (LENGTH('a) * i))"

lemma uint_limb_of: "uint (limb_of x i :: 'a::len word)
   = (x div 2 ^ (LENGTH('a) * i)) mod 2 ^ LENGTH('a)"
  by (simp add: limb_of_def uint_word_of_int)

lemma limbs_val_limb_of:
  "limbs_val (limb_of x :: nat \<Rightarrow> 'a::len word) n = x mod 2 ^ (LENGTH('a) * n)"
proof (induction n)
  case (Suc n)
  have "x mod (2 ^ (LENGTH('a) * n) * 2 ^ LENGTH('a))
    = 2 ^ (LENGTH('a) * n) * (x div 2 ^ (LENGTH('a) * n) mod 2 ^ LENGTH('a))
      + x mod 2 ^ (LENGTH('a) * n)"
    by (rule zmod_zmult2_eq) simp
  with Suc show ?case by (simp add: uint_limb_of power_add mult.commute add.commute)
qed simp

lemma limb_of_limbs_val:
  assumes "i < n"
  shows "limb_of (limbs_val f n) i = (f i :: 'a::len word)"
proof -
  have "limbs_val f n div 2 ^ (LENGTH('a) * i) = limbs_val (\<lambda>j. f (i + j)) (n - i)"
    using assms by (simp add: limbs_val_div)
  also have "n - i = Suc (n - i - 1)" using assms by simp
  finally have "limbs_val f n div 2 ^ (LENGTH('a) * i) mod 2 ^ LENGTH('a) = uint (f i)"
    using uint_lt2p [of "f i"] by (simp only: limbs_val_Suc_shift) simp
  then have "uint (limb_of (limbs_val f n) i :: 'a word) = uint (f i)"
    by (simp only: uint_limb_of)
  then show ?thesis by (simp only: word_uint_eq_iff)
qed

lemma limbs_val_inject:
  assumes "limbs_val f n = limbs_val g n" and "i < n"
  shows "f i = (g i :: 'a::len word)"
  using assms limb_of_limbs_val [of i n f] limb_of_limbs_val [of i n g] by simp

lemma limbs_val_eq_iff: "limbs_val f n = limbs_val g n \<longleftrightarrow> (\<forall>i<n. f i = g i)"
  by (auto intro: limbs_val_inject limbs_val_cong)

lemma limb_of_mod:
  assumes "i < n"
  shows "limb_of (x mod 2 ^ (LENGTH('a) * n)) i = (limb_of x i :: 'a::len word)"
  using limb_of_limbs_val [OF assms, of "limb_of x"] by (simp add: limbs_val_limb_of)

text \<open>Beyond its last limb an integer is read as its sign mask: two's complement sign extension.\<close>

lemma limbs_val_extend:
  assumes "\<And>i. n \<le> i \<Longrightarrow> f i = (if s then - 1 else 0 :: 'a::len word)"
  shows "limbs_val f k = (limbs_val f n - (if s then 2 ^ (LENGTH('a) * n) else 0)) mod 2 ^ (LENGTH('a) * k)"
proof (cases "k \<le> n")
  case True
  then have "(2::int) ^ (LENGTH('a) * k) dvd 2 ^ (LENGTH('a) * n)"
    by (simp add: le_imp_power_dvd)
  then show ?thesis
    using limbs_val_mod [OF True, of f] by (auto simp: mod_diff_right_eq [symmetric] dvd_eq_mod_eq_0)
next
  case False
  then obtain m where k: "k = n + m" by (metis le_Suc_ex nat_le_linear)
  let ?N = "2 ^ (LENGTH('a) * n) :: int" and ?M = "2 ^ (LENGTH('a) * m) :: int"
  have K: "(2::int) ^ (LENGTH('a) * k) = ?N * ?M" by (simp add: k algebra_simps power_add)
  show ?thesis
  proof (cases s)
    case True
    have "limbs_val (\<lambda>i. f (n + i)) m = ?M - 1"
      using assms True by (intro limbs_val_ones) simp
    then have v: "limbs_val f k = limbs_val f n - ?N + ?N * ?M"
      by (simp only: k limbs_val_add right_diff_distrib mult_1_right)
    then have "limbs_val f k mod (?N * ?M) = (limbs_val f n - ?N) mod (?N * ?M)"
      by simp
    with True K show ?thesis using limbs_val_mod_self [of f k] by simp
  next
    case False
    have "limbs_val (\<lambda>i. f (n + i)) m = 0"
      using assms False by (intro limbs_val_zero) simp
    then have "limbs_val f k = limbs_val f n" by (simp add: k limbs_val_add)
    with False show ?thesis using limbs_val_mod_self [of f k] by simp
  qed
qed

text \<open>The bits of a value are the bits of its limbs.\<close>

lemma bit_limbs_val:
  "bit (limbs_val (f :: nat \<Rightarrow> 'a::len word) n) k
   \<longleftrightarrow> k < LENGTH('a) * n \<and> bit (f (k div LENGTH('a))) (k mod LENGTH('a))"
proof (cases "k < LENGTH('a) * n")
  case False
  have "\<not> bit (take_bit (LENGTH('a) * n) (limbs_val f n)) k"
    using False by (simp add: bit_take_bit_iff)
  with False show ?thesis by (simp add: take_bit_eq_mod)
next
  case True
  define i where "i = k div LENGTH('a)"
  define j where "j = k mod LENGTH('a)"
  have k: "k = LENGTH('a) * i + j" and j: "j < LENGTH('a)"
    by (simp_all add: i_def j_def)
  have i: "i < n"
    using True by (simp add: i_def less_mult_imp_div_less mult.commute)
  have "bit (limbs_val f n) k = bit (limbs_val f n div 2 ^ (LENGTH('a) * i)) j"
    by (simp add: k bit_drop_bit_eq flip: drop_bit_eq_div)
  also have "\<dots> = bit (word_of_int (limbs_val f n div 2 ^ (LENGTH('a) * i)) :: 'a word) j"
    using j by (simp add: bit_word_of_int_iff)
  also have "\<dots> = bit (f i) j"
    using limb_of_limbs_val [OF i, of f] by (simp add: limb_of_def)
  finally show ?thesis using True by (simp add: i_def j_def)
qed

text \<open>Reading a list of limbs at an index, and zero beyond its end.\<close>

definition nth_limb :: "'a::len word list \<Rightarrow> nat \<Rightarrow> 'a word" where
  "nth_limb xs i = (if i < length xs then xs ! i else 0)"

definition limbs_int :: "'a::len word list \<Rightarrow> int" where
  "limbs_int xs = limbs_val (nth_limb xs) (length xs)"

lemma limbs_int_Nil [simp]: "limbs_int [] = 0"
  by (simp add: limbs_int_def)

lemma limbs_int_Cons [simp]:
  "limbs_int (x # xs :: 'a::len word list) = uint x + 2 ^ LENGTH('a) * limbs_int xs"
  by (simp only: limbs_int_def list.size add_Suc_right add_0_right limbs_val_Suc_shift)
    (simp add: nth_limb_def cong: limbs_val_cong)

lemma limbs_int_nonneg [simp]: "0 \<le> limbs_int xs"
  by (simp add: limbs_int_def)

lemma limbs_int_less: "limbs_int (xs :: 'a::len word list) < 2 ^ (LENGTH('a) * length xs)"
  by (simp add: limbs_int_def limbs_val_less)

lemma limbs_int_nth: "limbs_int xs = limbs_val ((!) xs) (length xs)"
  unfolding limbs_int_def by (rule limbs_val_cong) (simp add: nth_limb_def)

lemma limbs_int_map: "limbs_int (map f [0..<n]) = limbs_val f n"
  unfolding limbs_int_nth by (simp, rule limbs_val_cong) simp

lemma limbs_val_nth_limb:
  "limbs_val (nth_limb (xs :: 'a::len word list)) k = limbs_int xs mod 2 ^ (LENGTH('a) * k)"
  using limbs_val_extend [of "length xs" "nth_limb xs" False k]
  by (simp add: nth_limb_def limbs_int_def)

lemma limbs_int_inject:
  "length xs = length ys \<Longrightarrow> limbs_int xs = limbs_int ys \<Longrightarrow> xs = (ys :: 'a::len word list)"
  by (rule nth_equalityI) (auto simp: limbs_int_nth limbs_val_eq_iff)

section \<open>Folds that write a list of limbs\<close>

text \<open>
  The state of a scan that carries a value from limb to limb: \<open>carry_seq k c i\<close> is the carry
  that reaches index \<open>i\<close>.
\<close>

primrec carry_seq :: "(nat \<Rightarrow> 'c \<Rightarrow> 'c) \<Rightarrow> 'c \<Rightarrow> nat \<Rightarrow> 'c" where
  "carry_seq k c 0 = c"
| "carry_seq k c (Suc i) = k i (carry_seq k c i)"

lemma carry_seq_scan: "carry_seq k c n = scan_range n k c"
  by (induction n) auto

lemma list_update_write_prefix:
  assumes "n < length xs"
  shows "(map f [0..<n] @ drop n xs)[n := f n] = map f [0..<Suc n] @ drop (Suc n) xs"
  using assms by (simp add: list_update_append flip: Cons_nth_drop_Suc)

end
