(* ===== verification/Interfaces.thy ===== *)
theory Interfaces
  imports Prelude
begin

text \<open>
  The interface of the integer types with a modulus: \<^verbatim>\<open>uint\<close> computes modulo a power of two, \<^verbatim>\<open>mod\<close> modulo
  any odd number. A type with \<open>add\<close>, \<open>sub\<close> and \<open>mul\<close> provides the laws of the locale \<open>modular\<close> for the integers \<open>val\<close>
  of its \<open>valid\<close> objects; the laws of a ring and the correctness of binary exponentiation follow here, once.
\<close>

locale modular =
  fixes valid :: "'t \<Rightarrow> bool" and val :: "'t \<Rightarrow> int" and modulus :: int
    and add :: "'t \<Rightarrow> 't \<Rightarrow> 't" and sub :: "'t \<Rightarrow> 't \<Rightarrow> 't" and mul :: "'t \<Rightarrow> 't \<Rightarrow> 't"
  assumes val_range: "valid x \<Longrightarrow> 0 \<le> val x \<and> val x < modulus"
    and add_law: "valid x \<Longrightarrow> valid y \<Longrightarrow> valid (add x y) \<and> val (add x y) = (val x + val y) mod modulus"
    and sub_law: "valid x \<Longrightarrow> valid y \<Longrightarrow> valid (sub x y) \<and> val (sub x y) = (val x - val y) mod modulus"
    and mul_law: "valid x \<Longrightarrow> valid y \<Longrightarrow> valid (mul x y) \<and> val (mul x y) = (val x * val y) mod modulus"
begin

lemmas laws = add_law sub_law mul_law

lemma val_mod: "valid x \<Longrightarrow> val x mod modulus = val x"
  using val_range [of x] by simp

lemma add_commute: "valid x \<Longrightarrow> valid y \<Longrightarrow> val (add x y) = val (add y x)"
  by (simp add: laws add.commute)

lemma add_assoc: "valid x \<Longrightarrow> valid y \<Longrightarrow> valid z \<Longrightarrow> val (add (add x y) z) = val (add x (add y z))"
  by (simp add: laws mod_simps add.assoc)

lemma mul_commute: "valid x \<Longrightarrow> valid y \<Longrightarrow> val (mul x y) = val (mul y x)"
  by (simp add: laws mult.commute)

lemma mul_assoc: "valid x \<Longrightarrow> valid y \<Longrightarrow> valid z \<Longrightarrow> val (mul (mul x y) z) = val (mul x (mul y z))"
  by (simp add: laws mod_simps mult.assoc)

lemma distrib: "valid x \<Longrightarrow> valid y \<Longrightarrow> valid z \<Longrightarrow> val (mul x (add y z)) = val (add (mul x y) (mul x z))"
  by (simp add: laws mod_simps distrib_left)

lemma sub_add: "valid x \<Longrightarrow> valid y \<Longrightarrow> val (add (sub x y) y) = val x"
  by (simp add: laws mod_simps val_mod)

text \<open>The loop of binary exponentiation, from the least significant bit on.\<close>

lemma square_multiply:
  assumes "valid r" and "valid v"
  shows "case for_range k (\<lambda>i (r, v). (if bit e i then mul r v else r, mul v v)) (r, v) of (r', v') \<Rightarrow>
    valid r' \<and> valid v' \<and> val r' = (val r * val v ^ take_bit k e) mod modulus \<and> val v' = val v ^ 2 ^ k mod modulus"
proof (induction k)
  case 0
  then show ?case using assms by (simp add: val_mod)
next
  case (Suc k)
  obtain r' v' where s: "for_range k (\<lambda>i (r, v). (if bit e i then mul r v else r, mul v v)) (r, v) = (r', v')"
    by (rule prod.exhaust)
  then have ih: "valid r'" "valid v'" "val r' = (val r * val v ^ take_bit k e) mod modulus" "val v' = val v ^ 2 ^ k mod modulus"
    using Suc by simp_all
  have e: "take_bit (Suc k) e = take_bit k e + of_bool (bit e k) * 2 ^ k"
    by (simp add: take_bit_Suc_from_most)
  have "val (if bit e k then mul r' v' else r') = (val r * val v ^ take_bit (Suc k) e) mod modulus"
    using ih by (simp add: mul_law e power_add mod_simps mult.assoc)
  moreover have "val (mul v' v') = val v ^ 2 ^ Suc k mod modulus"
    using ih by (simp add: mul_law mod_simps flip: power_add mult_2)
  ultimately show ?case using ih by (simp add: s mul_law)
qed

end

locale modular_power = modular +
  fixes one :: 't
  assumes one_law: "valid x \<Longrightarrow> valid one \<and> val one = 1 mod modulus"
begin

lemma power_loop:
  assumes "valid v"
  shows "case for_range k (\<lambda>i (r, v). (if bit e i then mul r v else r, mul v v)) (one, v) of (r', v') \<Rightarrow>
    valid r' \<and> valid v' \<and> val r' = val v ^ take_bit k e mod modulus \<and> val v' = val v ^ 2 ^ k mod modulus"
  using square_multiply [of one v k e] one_law [OF assms] assms by (simp add: mod_simps split: prod.splits)

end

end
