(* ===== verification/Limb.thy ===== *)
theory Limb
  imports Prelude
begin

unbundle bit_operations_syntax

text \<open>
  The limbs: \<^verbatim>\<open>hmpc/core/uint.hpp\<close>, \<^verbatim>\<open>hmpc/core/limb_traits.hpp\<close> and the compile-time
  constants of \<^verbatim>\<open>hmpc/constant.hpp\<close>.

  \<^item> \<^verbatim>\<open>uint<Underlying>\<close> for an unsigned integer of \<open>w\<close> bits is \<open>'a word\<close> with
    \<open>LENGTH('a) = w\<close>; its wrapping operators are those of the word.
  \<^item> \<^verbatim>\<open>hmpc::bit = uint<bool>\<close> has operators of its own on a \<^verbatim>\<open>bool\<close>.  They are the
    functions \<open>ubool_*\<close>; that they are arithmetic modulo 2 is proved, and the rest of the model
    writes a bit as a word of length 1.  \<^verbatim>\<open>hmpc::size\<close> is a word of length 64.
  \<^item> \<^verbatim>\<open>constant<T, V>\<close> and a plain \<^verbatim>\<open>T\<close> are the two constructors of \<open>'a arg\<close>: every function
    template that dispatches with \<^verbatim>\<open>is_constant\<close> is a function on \<open>'a arg\<close>.
  \<^item> What SYCL computes in device code (\<^verbatim>\<open>sycl::mul_hi\<close>, \<^verbatim>\<open>sycl::select\<close>) is not part of the
    repository: a value of \<open>'w eval\<close> says whether code runs under \<^verbatim>\<open>if consteval\<close> or with
    given device functions, and \<open>sycl_ok\<close> is what the SYCL specification promises of them.
\<close>

section \<open>Bits\<close>

type_synonym hbit = "1 word"
type_synonym hsize = "64 word"

definition bool_cast :: "hbit \<Rightarrow> bool" where
  "bool_cast b \<longleftrightarrow> b \<noteq> 0"

definition ubool_add :: "bool \<Rightarrow> bool \<Rightarrow> bool" where
  "ubool_add a b \<longleftrightarrow> a \<noteq> b"

definition ubool_subtract :: "bool \<Rightarrow> bool \<Rightarrow> bool" where
  "ubool_subtract a b = ubool_add a b"

definition ubool_multiply :: "bool \<Rightarrow> bool \<Rightarrow> bool" where
  "ubool_multiply a b \<longleftrightarrow> a \<and> b"

definition ubool_divide :: "bool \<Rightarrow> bool \<Rightarrow> bool option" where
  "ubool_divide a b = (if b then Some a else None)"

definition ubool_and :: "bool \<Rightarrow> bool \<Rightarrow> bool" where
  "ubool_and a b = ubool_multiply a b"

definition ubool_or :: "bool \<Rightarrow> bool \<Rightarrow> bool" where
  "ubool_or a b \<longleftrightarrow> a \<or> b"

definition ubool_xor :: "bool \<Rightarrow> bool \<Rightarrow> bool" where
  "ubool_xor a b = ubool_add a b"

definition ubool_not :: "bool \<Rightarrow> bool" where
  "ubool_not a \<longleftrightarrow> \<not> a"

definition ubool_compl :: "bool \<Rightarrow> bool" where
  "ubool_compl a = ubool_not a"

definition ubool_negate :: "bool \<Rightarrow> bool" where
  "ubool_negate a = a"

definition ubool_from :: "'a::len word \<Rightarrow> bool" where
  "ubool_from w \<longleftrightarrow> w AND 1 \<noteq> 0"

lemmas ubool_defs = ubool_add_def ubool_subtract_def ubool_multiply_def ubool_divide_def
  ubool_and_def ubool_or_def ubool_xor_def ubool_not_def ubool_compl_def ubool_negate_def

lemma hbit_cases: "b = 0 \<or> b = (1 :: hbit)"
proof -
  have "uint b < 2" using uint_lt2p [of b] by simp
  then have "uint b = 0 \<or> uint b = 1" using uint_ge_0 [of b] by linarith
  then show ?thesis by (auto simp: word_uint_eq_iff)
qed

lemma hbit_neq_0 [simp]: "b \<noteq> 0 \<longleftrightarrow> b = (1 :: hbit)"
  using hbit_cases [of b] by auto

lemma hbit_of_bool: "b = of_bool (b = (1 :: hbit))"
  using hbit_cases [of b] by auto

lemma hbit_exhaust:
  obtains "b = (0 :: hbit)" | "b = 1"
  using hbit_cases by blast

lemma hbit_of_bool_eq_1 [simp]: "(of_bool P :: hbit) = 1 \<longleftrightarrow> P"
  by simp

lemma hbit_of_bool_or: "of_bool P OR of_bool Q = (of_bool (P \<or> Q) :: hbit)"
  by (cases P; cases Q) simp_all

lemma hbit_of_bool_and: "of_bool P AND of_bool Q = (of_bool (P \<and> Q) :: hbit)"
  by (cases P; cases Q) simp_all

lemma hbit_of_bool_xor: "of_bool P XOR of_bool Q = (of_bool (P \<noteq> Q) :: hbit)"
  by (cases P; cases Q) simp_all

lemma hbit_of_bool_not: "NOT (of_bool P) = (of_bool (\<not> P) :: hbit)"
  by (cases P) simp_all

lemma hbit_minus: "- b = (b :: hbit)"
  by (cases b rule: hbit_exhaust) simp_all

lemma bool_cast_of_bool [simp]: "bool_cast (of_bool P) = P"
  by (simp add: bool_cast_def)

lemma bool_cast_iff: "bool_cast b \<longleftrightarrow> b = 1"
  by (simp add: bool_cast_def)

lemma uint_ucast_hbit: "uint (ucast w :: hbit) = of_bool (odd w)"
proof -
  have "uint (ucast w :: hbit) = uint w mod 2"
    by (simp add: unsigned_ucast_eq take_bit_eq_mod)
  also have "\<dots> = of_bool (odd w)"
    using bit_uint_iff [of w 0] by (simp add: mod_2_eq_odd bit_0)
  finally show ?thesis .
qed

lemma ucast_hbit: "(ucast w :: hbit) = of_bool (odd w)"
  by (rule word_uint_eqI) (simp add: uint_ucast_hbit)

lemma ubool_from_ucast: "of_bool (ubool_from w) = (ucast w :: hbit)"
  by (simp add: ubool_from_def ucast_hbit and_one_eq odd_iff_mod_2_eq_one)

section \<open>Limbs and their traits\<close>

definition uint_divide :: "'a::len word \<Rightarrow> 'a word \<Rightarrow> 'a word option" where
  "uint_divide a b = (if b = 0 then None else Some (a div b))"

definition limb_max :: "'a::len word" where
  "limb_max = NOT 0"

definition value_from :: "'b::len word \<Rightarrow> 'a::len word" where
  "value_from b = ucast b"

definition mask_from :: "hbit \<Rightarrow> 'a::len word" where
  "mask_from b = - value_from b"

lemma limb_max_eq [simp]: "limb_max = (- 1)"
  by (simp add: limb_max_def)

lemma value_from_same [simp]: "value_from w = w"
  by (simp add: value_from_def)

lemma value_from_of_bool [simp]: "value_from (of_bool P :: hbit) = of_bool P"
  by (simp add: value_from_def)

lemma value_from_0 [simp]: "value_from 0 = 0"
  by (simp add: value_from_def)

lemma value_from_1 [simp]: "value_from (1 :: hbit) = 1"
  by (simp add: value_from_def)

lemma uint_value_from_bit: "uint (value_from (b :: hbit) :: 'a::len word) = uint b"
  by (cases b rule: hbit_exhaust) simp_all

lemma mask_from_0 [simp]: "mask_from 0 = 0"
  by (simp add: mask_from_def)

lemma mask_from_1 [simp]: "mask_from 1 = - 1"
  by (simp add: mask_from_def)

lemma mask_from_of_bool: "mask_from (of_bool P) = (if P then - 1 else 0)"
  by simp

lemma mask_from_eq: "mask_from b = (if b = 1 then - 1 else 0)"
  by (cases b rule: hbit_exhaust) simp_all

section \<open>Compile-time constants\<close>

datatype 'a arg = Const (dynamic_value: 'a) | Dyn (dynamic_value: 'a)

definition is_constant :: "'a arg \<Rightarrow> bool" where
  "is_constant a = (case a of Const _ \<Rightarrow> True | Dyn _ \<Rightarrow> False)"

lemma dynamic_value_map_arg [simp]: "dynamic_value (map_arg f a) = f (dynamic_value a)"
  by (cases a) simp_all

section \<open>Constant evaluation and device code\<close>

datatype 'w eval =
    Consteval
  | Runtime (mul_hi: "'w \<Rightarrow> 'w \<Rightarrow> 'w") (sycl_select: "'w \<Rightarrow> 'w \<Rightarrow> hbit \<Rightarrow> 'w")

definition sycl_ok :: "'a::len word eval \<Rightarrow> bool" where
  "sycl_ok E = (case E of Consteval \<Rightarrow> True
     | Runtime hi sel \<Rightarrow>
         (\<forall>x y. uint (hi x y) = (uint x * uint y) div 2 ^ LENGTH('a))
       \<and> (\<forall>x y. sel x y 0 = x \<and> sel x y 1 = y))"

lemma sycl_ok_Consteval [simp]: "sycl_ok Consteval"
  by (simp add: sycl_ok_def)

text \<open>The device functions as the SYCL specification describes them, as concrete functions.\<close>

definition sycl_device :: "'a::len word eval" where
  "sycl_device = Runtime (\<lambda>x y. word_of_int ((uint x * uint y) div 2 ^ LENGTH('a)))
     (\<lambda>x y c. if bool_cast c then y else x)"

lemma div_exp_less:
  assumes "0 \<le> a" "a < 2 ^ n" "0 \<le> b" "b < (2::int) ^ n"
  shows "a * b div 2 ^ n < 2 ^ n"
proof -
  have "a * b \<le> a * 2 ^ n" using assms by (intro mult_left_mono) auto
  then have "a * b div 2 ^ n \<le> a * 2 ^ n div 2 ^ n" by (rule zdiv_mono1) simp
  with assms show ?thesis by simp
qed

lemma sycl_ok_device: "sycl_ok sycl_device"
proof -
  have "(uint x * uint y) div 2 ^ LENGTH('a) mod 2 ^ LENGTH('a) = (uint x * uint y) div 2 ^ LENGTH('a)"
    for x y :: "'a::len word"
    by (intro mod_pos_pos_trivial div_exp_less)
      (simp_all add: pos_imp_zdiv_nonneg_iff uint_lt2p)
  then show ?thesis
    by (simp add: sycl_ok_def sycl_device_def uint_word_of_int bool_cast_def)
qed

end
