(* ===== verification/Core.thy ===== *)
theory Core
  imports Limb
begin

text \<open>
  The operations on single limbs: the files of \<^verbatim>\<open>hmpc/core/\<close>.  Each function template there
  returns a constant, one of its arguments or a computed value, depending on which arguments are
  compile-time constants and on their values.  Here each is a function on \<open>'a word arg\<close> with
  one equation per combination, in the order of the \<^verbatim>\<open>if constexpr\<close> chain.  The simp rules
  \<open>dynamic_value (\<dots>) = \<dots>\<close> say that constant folding never changes a value; everything above
  this theory rests on them.

  The shift amounts and bit positions are template arguments, and the code checks their ranges with
  \<^verbatim>\<open>static_assert\<close>; here they are naturals and the callers stay within these ranges.
\<close>

section \<open>Bitwise operations\<close>

fun core_bit_and :: "'a::len word arg \<Rightarrow> 'a word arg \<Rightarrow> 'a word arg" where
  "core_bit_and (Const l) (Const r) = Const (l AND r)"
| "core_bit_and (Const l) (Dyn r) =
     (if l = 0 then Const 0 else if l = limb_max then Dyn r else Dyn (l AND r))"
| "core_bit_and (Dyn l) (Const r) =
     (if r = 0 then Const 0 else if r = limb_max then Dyn l else Dyn (l AND r))"
| "core_bit_and (Dyn l) (Dyn r) = Dyn (l AND r)"

fun core_bit_or :: "'a::len word arg \<Rightarrow> 'a word arg \<Rightarrow> 'a word arg" where
  "core_bit_or (Const l) (Const r) = Const (l OR r)"
| "core_bit_or (Const l) (Dyn r) =
     (if l = 0 then Dyn r else if l = limb_max then Const limb_max else Dyn (l OR r))"
| "core_bit_or (Dyn l) (Const r) =
     (if r = 0 then Dyn l else if r = limb_max then Const limb_max else Dyn (l OR r))"
| "core_bit_or (Dyn l) (Dyn r) = Dyn (l OR r)"

fun core_bit_xor :: "'a::len word arg \<Rightarrow> 'a word arg \<Rightarrow> 'a word arg" where
  "core_bit_xor (Const l) (Const r) = Const (l XOR r)"
| "core_bit_xor (Const l) (Dyn r) =
     (if l = 0 then Dyn r else if l = limb_max then Dyn (NOT r) else Dyn (l XOR r))"
| "core_bit_xor (Dyn l) (Const r) =
     (if r = 0 then Dyn l else if r = limb_max then Dyn (NOT l) else Dyn (l XOR r))"
| "core_bit_xor (Dyn l) (Dyn r) = Dyn (l XOR r)"

definition core_bit_not :: "'a::len word arg \<Rightarrow> 'a word arg" where
  "core_bit_not value = map_arg (\<lambda>v. NOT v) value"

lemma dyn_bit_and [simp]:
  "dynamic_value (core_bit_and l r) = dynamic_value l AND dynamic_value r"
  by (cases l; cases r) auto

lemma dyn_bit_or [simp]:
  "dynamic_value (core_bit_or l r) = dynamic_value l OR dynamic_value r"
  by (cases l; cases r) auto

lemma dyn_bit_xor [simp]:
  "dynamic_value (core_bit_xor l r) = dynamic_value l XOR dynamic_value r"
  by (cases l; cases r) auto

lemma dyn_bit_not [simp]: "dynamic_value (core_bit_not v) = NOT (dynamic_value v)"
  by (simp add: core_bit_not_def)

section \<open>Comparisons\<close>

fun core_equal_to :: "'a::len word arg \<Rightarrow> 'a word arg \<Rightarrow> hbit arg" where
  "core_equal_to (Const l) (Const r) = Const (of_bool (l = r))"
| "core_equal_to l r = Dyn (of_bool (dynamic_value l = dynamic_value r))"

fun core_not_equal_to :: "'a::len word arg \<Rightarrow> 'a word arg \<Rightarrow> hbit arg" where
  "core_not_equal_to (Const l) (Const r) = Const (of_bool (l \<noteq> r))"
| "core_not_equal_to l r = Dyn (of_bool (dynamic_value l \<noteq> dynamic_value r))"

fun core_greater :: "'a::len word arg \<Rightarrow> 'a word arg \<Rightarrow> hbit arg" where
  "core_greater (Const l) (Const r) = Const (of_bool (l > r))"
| "core_greater (Const l) (Dyn r) = (if l = 0 then Const 0 else Dyn (of_bool (l > r)))"
| "core_greater (Dyn l) (Const r) = (if r = limb_max then Const 0 else Dyn (of_bool (l > r)))"
| "core_greater (Dyn l) (Dyn r) = Dyn (of_bool (l > r))"

fun core_less :: "'a::len word arg \<Rightarrow> 'a word arg \<Rightarrow> hbit arg" where
  "core_less (Const l) (Const r) = Const (of_bool (l < r))"
| "core_less (Const l) (Dyn r) = (if l = limb_max then Const 0 else Dyn (of_bool (l < r)))"
| "core_less (Dyn l) (Const r) = (if r = 0 then Const 0 else Dyn (of_bool (l < r)))"
| "core_less (Dyn l) (Dyn r) = Dyn (of_bool (l < r))"

fun core_greater_equal :: "'a::len word arg \<Rightarrow> 'a word arg \<Rightarrow> hbit arg" where
  "core_greater_equal (Const l) (Const r) = Const (of_bool (l \<ge> r))"
| "core_greater_equal (Const l) (Dyn r) = (if l = limb_max then Const 1 else Dyn (of_bool (l \<ge> r)))"
| "core_greater_equal (Dyn l) (Const r) = (if r = 0 then Const 1 else Dyn (of_bool (l \<ge> r)))"
| "core_greater_equal (Dyn l) (Dyn r) = Dyn (of_bool (l \<ge> r))"

fun core_less_equal :: "'a::len word arg \<Rightarrow> 'a word arg \<Rightarrow> hbit arg" where
  "core_less_equal (Const l) (Const r) = Const (of_bool (l \<le> r))"
| "core_less_equal (Const l) (Dyn r) = (if l = 0 then Const 1 else Dyn (of_bool (l \<le> r)))"
| "core_less_equal (Dyn l) (Const r) = (if r = limb_max then Const 1 else Dyn (of_bool (l \<le> r)))"
| "core_less_equal (Dyn l) (Dyn r) = Dyn (of_bool (l \<le> r))"

lemma not_limb_max_less [simp]: "\<not> (- 1 :: 'a::len word) < x"
  using word_order.extremum [of x] by (simp add: not_less)

lemma limb_max_le_iff: "(- 1 :: 'a::len word) \<le> x \<longleftrightarrow> x = - 1"
  by (simp add: word_order.extremum_unique)

lemma dyn_equal_to [simp]:
  "dynamic_value (core_equal_to l r) = of_bool (dynamic_value l = dynamic_value r)"
  by (cases l; cases r) auto

lemma dyn_not_equal_to [simp]:
  "dynamic_value (core_not_equal_to l r) = of_bool (dynamic_value l \<noteq> dynamic_value r)"
  by (cases l; cases r) auto

lemma dyn_greater [simp]:
  "dynamic_value (core_greater l r) = of_bool (dynamic_value l > dynamic_value r)"
  by (cases l; cases r) (auto simp: word_not_simps)

lemma dyn_less [simp]:
  "dynamic_value (core_less l r) = of_bool (dynamic_value l < dynamic_value r)"
  by (cases l; cases r) (auto simp: word_not_simps)

lemma dyn_greater_equal [simp]:
  "dynamic_value (core_greater_equal l r) = of_bool (dynamic_value l \<ge> dynamic_value r)"
  by (cases l; cases r) auto

lemma dyn_less_equal [simp]:
  "dynamic_value (core_less_equal l r) = of_bool (dynamic_value l \<le> dynamic_value r)"
  by (cases l; cases r) auto

section \<open>Choosing between two values\<close>

text \<open>
  The branch of \<^verbatim>\<open>select\<close> that masks with \<open>false xor (mask and (false xor true))\<close>: the only
  one for bits and sizes, and the one of constant evaluation for limbs.
\<close>

definition select_masked :: "'a::len word arg \<Rightarrow> 'a word arg \<Rightarrow> hbit \<Rightarrow> 'a word arg" where
  "select_masked false_value true_value choice =
     core_bit_xor false_value
       (core_bit_and (Dyn (mask_from choice)) (core_bit_xor false_value true_value))"

fun core_select_bits :: "'a::len word arg \<Rightarrow> 'a word arg \<Rightarrow> hbit arg \<Rightarrow> 'a word arg" where
  "core_select_bits false_value true_value (Const c) = (if bool_cast c then true_value else false_value)"
| "core_select_bits false_value true_value (Dyn c) = select_masked false_value true_value c"

fun select_device :: "'a::len word eval \<Rightarrow> 'a word arg \<Rightarrow> 'a word arg \<Rightarrow> hbit \<Rightarrow> 'a word arg" where
  "select_device Consteval false_value true_value choice = select_masked false_value true_value choice"
| "select_device (Runtime hi sel) false_value true_value choice =
     Dyn (sel (dynamic_value false_value) (dynamic_value true_value) choice)"

fun core_select :: "'a::len word eval \<Rightarrow> 'a word arg \<Rightarrow> 'a word arg \<Rightarrow> hbit arg \<Rightarrow> 'a word arg" where
  "core_select E false_value true_value (Const c) = (if bool_cast c then true_value else false_value)"
| "core_select E (Const f) (Const t) (Dyn c) =
     (if f = t then Const f else select_device E (Const f) (Const t) c)"
| "core_select E false_value true_value (Dyn c) = select_device E false_value true_value c"

lemma dyn_select_masked [simp]:
  "dynamic_value (select_masked f t c) = (if c = 1 then dynamic_value t else dynamic_value f)"
  by (auto simp: select_masked_def mask_from_eq xor.assoc [symmetric])

lemma dyn_select_bits [simp]:
  "dynamic_value (core_select_bits f t c)
   = (if dynamic_value c = 1 then dynamic_value t else dynamic_value f)"
  by (cases c) (auto simp: bool_cast_def)

lemma dyn_select_device:
  "sycl_ok E \<Longrightarrow>
   dynamic_value (select_device E f t c) = (if c = 1 then dynamic_value t else dynamic_value f)"
  by (cases E; cases c rule: hbit_exhaust) (auto simp: sycl_ok_def)

lemma dyn_select:
  "sycl_ok E \<Longrightarrow> dynamic_value (core_select E f t c)
   = (if dynamic_value c = 1 then dynamic_value t else dynamic_value f)"
  by (cases c; cases f; cases t) (auto simp: bool_cast_def dyn_select_device)

fun core_min :: "'a::len word arg \<Rightarrow> 'a word arg \<Rightarrow> 'a word arg" where
  "core_min (Const l) (Const r) = Const (min l r)"
| "core_min (Const l) (Dyn r) = (if l = 0 then Const 0 else Dyn (min l r))"
| "core_min (Dyn l) (Const r) = (if r = 0 then Const 0 else Dyn (min l r))"
| "core_min (Dyn l) (Dyn r) = Dyn (min l r)"

lemma dyn_min [simp]:
  "dynamic_value (core_min l r) = min (dynamic_value l) (dynamic_value r)"
  by (cases l; cases r) (auto simp: min_def)

section \<open>Addition with carry\<close>

datatype 'w add_result = AddResult (add_sum: "'w arg") (add_carry: "hbit arg")

fun core_add :: "'a::len word arg \<Rightarrow> 'a word arg \<Rightarrow> 'a word arg" where
  "core_add (Const l) (Const r) = Const (l + r)"
| "core_add (Const l) (Dyn r) = (if l = 0 then Dyn r else Dyn (l + r))"
| "core_add (Dyn l) (Const r) = (if r = 0 then Dyn l else Dyn (l + r))"
| "core_add (Dyn l) (Dyn r) = Dyn (l + r)"

definition add_overflow :: "'a::len word \<Rightarrow> 'a word \<Rightarrow> 'a word add_result" where
  "add_overflow left right = (let tmp = left + right in AddResult (Dyn tmp) (Dyn (of_bool (left > tmp))))"

text \<open>The right operand is a limb of the same type or a bit.\<close>

fun core_extended_add :: "'a::len word arg \<Rightarrow> 'b::len word arg \<Rightarrow> 'a word add_result" where
  "core_extended_add (Const l) (Const r) =
     (let tmp = l + value_from r in AddResult (Const tmp) (Const (of_bool (l > tmp))))"
| "core_extended_add (Const l) (Dyn r) =
     (if l = 0 then AddResult (Dyn (value_from r)) (Const 0) else add_overflow l (value_from r))"
| "core_extended_add (Dyn l) (Const r) =
     (if r = 0 then AddResult (Dyn l) (Const 0) else add_overflow l (value_from r))"
| "core_extended_add (Dyn l) (Dyn r) = add_overflow l (value_from r)"

definition add_overflow_carry :: "'a::len word \<Rightarrow> 'a word \<Rightarrow> hbit \<Rightarrow> 'a word add_result" where
  "add_overflow_carry left right carry =
     (let tmp_left = left + value_from carry;
          tmp_right = right + tmp_left
      in AddResult (Dyn tmp_right) (Dyn (of_bool (left > tmp_left) OR of_bool (right > tmp_right))))"

definition extended_add_twice ::
    "'a::len word arg \<Rightarrow> 'b::len word arg \<Rightarrow> 'c::len word arg \<Rightarrow> 'a word add_result" where
  "extended_add_twice first second third =
     (let tmp = core_extended_add first second;
          res = core_extended_add (add_sum tmp) third
      in AddResult (add_sum res) (core_bit_or (add_carry tmp) (add_carry res)))"

fun core_extended_add_carry ::
    "'a::len word arg \<Rightarrow> 'a word arg \<Rightarrow> hbit arg \<Rightarrow> 'a word add_result" where
  "core_extended_add_carry (Const l) (Const r) (Const c) =
     (let tmp_left = l + value_from c;
          tmp_right = r + tmp_left
      in AddResult (Const tmp_right) (Const (of_bool (l > tmp_left) OR of_bool (r > tmp_right))))"
| "core_extended_add_carry (Const l) (Const r) (Dyn c) = extended_add_twice (Const l) (Const r) (Dyn c)"
| "core_extended_add_carry (Const l) (Dyn r) (Const c) = extended_add_twice (Const l) (Const c) (Dyn r)"
| "core_extended_add_carry (Dyn l) (Const r) (Const c) = extended_add_twice (Const r) (Const c) (Dyn l)"
| "core_extended_add_carry (Const l) (Dyn r) (Dyn c) =
     (if l = 0 then core_extended_add (Dyn r) (Dyn c) else add_overflow_carry l r c)"
| "core_extended_add_carry (Dyn l) (Const r) (Dyn c) =
     (if r = 0 then core_extended_add (Dyn l) (Dyn c) else add_overflow_carry l r c)"
| "core_extended_add_carry (Dyn l) (Dyn r) (Const c) =
     (if c = 0 then core_extended_add (Dyn r) (Dyn l) else add_overflow_carry l r c)"
| "core_extended_add_carry (Dyn l) (Dyn r) (Dyn c) = add_overflow_carry l r c"

text \<open>What an addition of limbs promises: sum and carry together are the exact sum.\<close>

definition add_exact :: "'a::len word add_result \<Rightarrow> int \<Rightarrow> bool" where
  "add_exact res x \<longleftrightarrow>
     uint (dynamic_value (add_sum res)) + 2 ^ LENGTH('a) * uint (dynamic_value (add_carry res)) = x"

lemma uint_add_carry:
  "uint (l + r :: 'a::len word) + 2 ^ LENGTH('a) * of_bool (l > l + r) = uint l + uint r"
proof -
  have "l > l + r \<longleftrightarrow> \<not> uint l + uint r < 2 ^ LENGTH('a)"
    using uint_lt2p [of r] uint_ge_0 [of r] by (auto simp: word_less_def uint_plus_if')
  then show ?thesis by (simp add: uint_plus_if')
qed

lemma add_exact_overflow: "add_exact (add_overflow l r) (uint l + uint r)"
  using uint_add_carry [of l r]
  by (auto simp: add_exact_def add_overflow_def Let_def)

lemma uint_value_from:
  "LENGTH('b) \<le> LENGTH('a) \<Longrightarrow> uint (value_from (w :: 'b::len word) :: 'a::len word) = uint w"
  by (simp add: value_from_def unsigned_ucast_eq take_bit_int_eq_self_iff
      order_less_le_trans [OF uint_lt2p])

lemma add_exact_extended_add:
  assumes "LENGTH('b) \<le> LENGTH('a)"
  shows "add_exact (core_extended_add (l :: 'a::len word arg) (r :: 'b::len word arg))
    (uint (dynamic_value l) + uint (dynamic_value r))"
proof -
  have r: "uint (value_from x :: 'a word) = uint (x :: 'b word)" for x
    using assms by (rule uint_value_from)
  have o: "add_exact (add_overflow x (value_from y)) (uint x + uint (y :: 'b word))"
    for x :: "'a word" and y
    using add_exact_overflow [of x "value_from y"] by (simp add: r)
  show ?thesis
    using o uint_add_carry [of "dynamic_value l" "value_from (dynamic_value r)"]
    by (cases l; cases r) (auto simp: add_exact_def Let_def r)
qed

lemma uint_bit_cases: "uint (b :: hbit) = 0 \<or> uint b = 1"
  by (cases b rule: hbit_exhaust) simp_all

lemma add_exact_carry_or:
  fixes s :: "'a::len word" and c d :: hbit
  assumes "uint s' + 2 ^ LENGTH('a) * uint c = x" and "uint s + 2 ^ LENGTH('a) * uint d = uint s' + y"
    and "x + y < 2 * 2 ^ LENGTH('a)"
  shows "uint s + 2 ^ LENGTH('a) * uint (c OR d) = x + y"
proof -
  have eq: "uint s + 2 ^ LENGTH('a) * (uint c + uint d) = x + y"
    using assms(1,2) by (simp add: algebra_simps)
  moreover have "uint c + uint d \<noteq> 2"
  proof
    assume "uint c + uint d = 2"
    with eq have "x + y = uint s + 2 ^ LENGTH('a) * 2" by simp
    with assms(3) show False using uint_ge_0 [of s] by linarith
  qed
  then have "uint (c OR d) = uint c + uint d"
    by (cases c rule: hbit_exhaust; cases d rule: hbit_exhaust) simp_all
  ultimately show ?thesis by simp
qed

lemma add_exact_overflow_carry: "add_exact (add_overflow_carry l r c) (uint l + uint r + uint c)"
proof -
  let ?t = "l + value_from c"
  have "uint ?t + 2 ^ LENGTH('a) * uint (of_bool (l > ?t) :: hbit) = uint l + uint c"
    using uint_add_carry [of l "value_from c"]
    by (cases "l > ?t") (simp_all add: uint_value_from_bit)
  moreover have "uint (r + ?t) + 2 ^ LENGTH('a) * uint (of_bool (r > r + ?t) :: hbit) = uint ?t + uint r"
    using uint_add_carry [of r ?t] by (cases "r > r + ?t") simp_all
  moreover have "uint l + uint c + uint r < 2 * 2 ^ LENGTH('a)"
    using uint_lt2p [of l] uint_lt2p [of r] uint_bit_cases [of c] by linarith
  ultimately have "uint (r + ?t)
      + 2 ^ LENGTH('a) * uint (of_bool (l > ?t) OR of_bool (r > r + ?t) :: hbit) = uint l + uint c + uint r"
    by (rule add_exact_carry_or)
  then show ?thesis by (simp add: add_exact_def add_overflow_carry_def Let_def)
qed

lemma add_exact_twice:
  assumes "LENGTH('b) \<le> LENGTH('a)" and "LENGTH('c) \<le> LENGTH('a)"
    and "uint (dynamic_value x) + uint (dynamic_value y) + uint (dynamic_value z) < 2 * 2 ^ LENGTH('a)"
  shows "add_exact (extended_add_twice (x :: 'a::len word arg) (y :: 'b::len word arg) (z :: 'c::len word arg))
    (uint (dynamic_value x) + uint (dynamic_value y) + uint (dynamic_value z))"
  using add_exact_carry_or
      [OF add_exact_extended_add [OF assms(1), of x y, unfolded add_exact_def]
          add_exact_extended_add [OF assms(2), of "add_sum (core_extended_add x y)" z, unfolded add_exact_def]
          assms(3)]
  by (simp add: add_exact_def extended_add_twice_def Let_def)

lemma add_exact_carry:
  "add_exact (core_extended_add_carry (l :: 'a::len word arg) r c)
    (uint (dynamic_value l) + uint (dynamic_value r) + uint (dynamic_value c))"
proof -
  have b: "uint x + uint y + uint (z :: hbit) < 2 * 2 ^ LENGTH('a)" for x y :: "'a word" and z
    using uint_lt2p [of x] uint_lt2p [of y] uint_bit_cases [of z] by linarith
  have L: "LENGTH(1) \<le> LENGTH('a)" using len_gt_0 [where 'a = 'a] by (simp add: Suc_le_eq)
  note t = add_exact_twice [where 'a = 'a and 'b = 'a and 'c = 1, of "Const _" "Const _" "Dyn _"]
  show ?thesis
  proof (cases "(l, r, c)" rule: core_extended_add_carry.cases)
    case (1 x y z)
    then show ?thesis
      using add_exact_overflow_carry [of x y z] by (simp add: add_exact_def add_overflow_carry_def Let_def)
  next
    case (2 x y z)
    then show ?thesis
      using add_exact_twice [of "Const x" "Const y" "Dyn z"] b [of x y z] L by simp
  next
    case (3 x y z)
    then show ?thesis
      using add_exact_twice [of "Const x" "Const z" "Dyn y"] b [of x y z] L by (simp add: add_ac)
  next
    case (4 x y z)
    then show ?thesis
      using add_exact_twice [of "Const y" "Const z" "Dyn x"] b [of x y z] L by (simp add: add_ac)
  next
    case (5 x y z)
    then show ?thesis
      using add_exact_extended_add [of "Dyn y" "Dyn z", OF L] add_exact_overflow_carry [of x y z] by auto
  next
    case (6 x y z)
    then show ?thesis
      using add_exact_extended_add [of "Dyn x" "Dyn z", OF L] add_exact_overflow_carry [of x y z] by auto
  next
    case (7 x y z)
    then show ?thesis
      using add_exact_extended_add [of "Dyn y" "Dyn x"] add_exact_overflow_carry [of x y z]
      by (auto simp: add_ac)
  next
    case (8 x y z)
    then show ?thesis using add_exact_overflow_carry [of x y z] by simp
  qed
qed

lemma dyn_add [simp]:
  "dynamic_value (core_add l r) = dynamic_value l + dynamic_value r"
  by (cases l; cases r) auto

end
