(* ===== verification/Core_Mul.thy ===== *)
theory Core_Mul
  imports Core
begin

text \<open>
  Subtraction with borrow, multiplication into two limbs and the clamped division of two limbs by
  one: \<^verbatim>\<open>subtract.hpp\<close>, \<^verbatim>\<open>multiply.hpp\<close> and \<^verbatim>\<open>divide.hpp\<close> of \<^verbatim>\<open>hmpc/core/\<close>.  As in
  \<open>Core\<close>, one equation per combination of constant arguments, and one exactness lemma per
  operation: difference and borrow, or lower and upper limb, hold the exact integer result.
\<close>

section \<open>Subtraction with borrow\<close>

datatype 'w sub_result = SubResult (sub_difference: "'w arg") (sub_borrow: "hbit arg")

definition sub_underflow :: "'a::len word \<Rightarrow> 'a word \<Rightarrow> 'a word sub_result" where
  "sub_underflow left right = (let tmp = left - right in SubResult (Dyn tmp) (Dyn (of_bool (left < tmp))))"

text \<open>The right operand is a limb of the same type or a bit.\<close>

fun core_subtract :: "'a::len word arg \<Rightarrow> 'b::len word arg \<Rightarrow> 'a word sub_result" where
  "core_subtract (Const l) (Const r) =
     (let tmp_left = l - value_from r in SubResult (Const tmp_left) (Const (of_bool (l < tmp_left))))"
| "core_subtract (Dyn l) (Const r) =
     (if r = 0 then SubResult (Dyn l) (Const 0) else sub_underflow l (value_from r))"
| "core_subtract (Const l) (Dyn r) = sub_underflow l (value_from r)"
| "core_subtract (Dyn l) (Dyn r) = sub_underflow l (value_from r)"

definition sub_underflow_borrow :: "'a::len word \<Rightarrow> 'a word \<Rightarrow> hbit \<Rightarrow> 'a word sub_result" where
  "sub_underflow_borrow left right borrow =
     (let tmp_right = right + value_from borrow;
          tmp_left = left - tmp_right
      in SubResult (Dyn tmp_left) (Dyn (of_bool (left < tmp_left) OR of_bool (right > tmp_right))))"

fun core_subtract_borrow ::
    "'a::len word arg \<Rightarrow> 'a word arg \<Rightarrow> hbit arg \<Rightarrow> 'a word sub_result" where
  "core_subtract_borrow (Const l) (Const r) (Const b) =
     (let tmp_right = r + value_from b;
          tmp_left = l - tmp_right
      in SubResult (Const tmp_left) (Const (of_bool (l < tmp_left) OR of_bool (r > tmp_right))))"
| "core_subtract_borrow (Const l) (Const r) (Dyn b) =
     (let tmp = core_subtract (Const l) (Const r);
          res = core_subtract (sub_difference tmp) (Dyn b)
      in SubResult (sub_difference res) (core_bit_or (sub_borrow tmp) (sub_borrow res)))"
| "core_subtract_borrow (Const l) (Dyn r) (Const b) =
     (if bool_cast b
      then if l > 0 then core_subtract (Const (l - value_from b)) (Dyn r)
           else SubResult (Dyn (limb_max - r)) (Const 1)
      else core_subtract (Const l) (Dyn r))"
| "core_subtract_borrow (Dyn l) (Const r) (Const b) =
     (if bool_cast b
      then if r = limb_max then SubResult (Dyn l) (Const 1)
           else core_subtract (Dyn l) (Const (r + value_from b))
      else core_subtract (Dyn l) (Const r))"
| "core_subtract_borrow (Dyn l) (Const r) (Dyn b) =
     (if r = 0 then core_subtract (Dyn l) (Dyn b) else sub_underflow_borrow l r b)"
| "core_subtract_borrow (Dyn l) (Dyn r) (Const b) =
     (if b = 0 then core_subtract (Dyn l) (Dyn r) else sub_underflow_borrow l r b)"
| "core_subtract_borrow (Const l) (Dyn r) (Dyn b) = sub_underflow_borrow l r b"
| "core_subtract_borrow (Dyn l) (Dyn r) (Dyn b) = sub_underflow_borrow l r b"

definition sub_exact :: "'a::len word sub_result \<Rightarrow> int \<Rightarrow> bool" where
  "sub_exact res x \<longleftrightarrow>
     uint (dynamic_value (sub_difference res)) - 2 ^ LENGTH('a) * uint (dynamic_value (sub_borrow res)) = x"

lemma sub_borrow_iff: "l < l - r \<longleftrightarrow> uint l < uint (r :: 'a::len word)"
  using uint_lt2p [of l] uint_lt2p [of r] uint_ge_0 [of l] uint_ge_0 [of r]
  by (auto simp: word_less_def uint_sub_if')

lemma uint_sub_borrow:
  "uint (l - r :: 'a::len word) - 2 ^ LENGTH('a) * of_bool (l < l - r) = uint l - uint r"
  by (simp add: sub_borrow_iff) (simp add: uint_sub_if')

lemma sub_exact_underflow: "sub_exact (sub_underflow l r) (uint l - uint r)"
  using uint_sub_borrow [of l r]
  by (cases "l < l - r") (simp_all add: sub_exact_def sub_underflow_def)

lemma sub_exact_subtract:
  assumes "LENGTH('b) \<le> LENGTH('a)"
  shows "sub_exact (core_subtract (l :: 'a::len word arg) (r :: 'b::len word arg))
    (uint (dynamic_value l) - uint (dynamic_value r))"
proof -
  have r: "uint (value_from x :: 'a word) = uint (x :: 'b word)" for x
    using assms by (rule uint_value_from)
  have u: "sub_exact (sub_underflow x (value_from y)) (uint x - uint (y :: 'b word))"
    for x :: "'a word" and y
    using sub_exact_underflow [of x "value_from y"] by (simp add: r)
  show ?thesis
    using u uint_sub_borrow [of "dynamic_value l" "value_from (dynamic_value r)"]
    by (cases l; cases r) (auto simp: sub_exact_def Let_def r)
qed

lemma sub_exact_underflow_borrow:
  "sub_exact (sub_underflow_borrow l (r :: 'a::len word) b) (uint l - (uint r + uint b))"
proof -
  let ?t = "r + value_from b"
  have t: "uint ?t + 2 ^ LENGTH('a) * of_bool (r > ?t) = uint r + uint b"
    using uint_add_carry [of r "value_from b"] by (simp add: uint_value_from_bit)
  have d: "uint (l - ?t) - 2 ^ LENGTH('a) * of_bool (l < l - ?t) = uint l - uint ?t"
    by (rule uint_sub_borrow)
  show ?thesis
  proof (cases "r > ?t")
    case True
    with t have "uint ?t + 2 ^ LENGTH('a) = uint r + uint b" by simp
    with uint_lt2p [of r] uint_bit_cases [of b] have "uint ?t = 0"
      using uint_ge_0 [of ?t] by linarith
    with t d True show ?thesis
      by (cases "l < l - ?t") (auto simp: sub_exact_def sub_underflow_borrow_def Let_def sub_borrow_iff)
  next
    case False
    with t d show ?thesis
      by (cases "l < l - ?t") (auto simp: sub_exact_def sub_underflow_borrow_def Let_def)
  qed
qed

lemma sub_exact_borrow_or:
  fixes s :: "'a::len word" and c d :: hbit
  assumes "uint s' - 2 ^ LENGTH('a) * uint c = x" and "uint s - 2 ^ LENGTH('a) * uint d = uint s' - y"
    and "- (2 ^ LENGTH('a)) \<le> x - y"
  shows "uint s - 2 ^ LENGTH('a) * uint (c OR d) = x - y"
proof -
  have eq: "uint s - 2 ^ LENGTH('a) * (uint c + uint d) = x - y"
    using assms(1,2) by (simp add: algebra_simps)
  moreover have "uint c + uint d \<noteq> 2"
  proof
    assume "uint c + uint d = 2"
    with eq have "x - y = uint s - 2 ^ LENGTH('a) * 2" by simp
    with assms(3) uint_lt2p [of s] show False by linarith
  qed
  then have "uint (c OR d) = uint c + uint d"
    by (cases c rule: hbit_exhaust; cases d rule: hbit_exhaust) simp_all
  ultimately show ?thesis by simp
qed

lemma uint_sub_one: "x \<noteq> 0 \<Longrightarrow> uint (x - 1 :: 'a::len word) = uint x - 1"
proof -
  assume "x \<noteq> 0"
  then have "uint x \<noteq> 0" by (simp add: uint_0_iff)
  then have "1 \<le> uint x" using uint_ge_0 [of x] by linarith
  then show ?thesis by (simp add: uint_sub_if')
qed

lemma uint_minus_one: "uint (- 1 :: 'a::len word) = 2 ^ LENGTH('a) - 1"
  by (simp add: unsigned_minus_1_eq_mask mask_eq_exp_minus_1)

lemma uint_add_one: "x \<noteq> - 1 \<Longrightarrow> uint (x + 1 :: 'a::len word) = uint x + 1"
proof -
  assume "x \<noteq> - 1"
  then have "uint x \<noteq> 2 ^ LENGTH('a) - 1" by (metis uint_minus_one word_uint_eq_iff)
  with uint_lt2p [of x] have "uint x + 1 < 2 ^ LENGTH('a)" by linarith
  then show "uint (x + 1) = uint x + 1" by (simp add: uint_plus_if')
qed

lemma uint_max_minus: "uint (- 1 - x :: 'a::len word) = 2 ^ LENGTH('a) - 1 - uint x"
  using uint_lt2p [of x] by (simp add: uint_sub_if' uint_minus_one)

lemma sub_exact_borrow:
  "sub_exact (core_subtract_borrow (l :: 'a::len word arg) r b)
    (uint (dynamic_value l) - (uint (dynamic_value r) + uint (dynamic_value b)))"
proof -
  have L: "LENGTH(1) \<le> LENGTH('a)" using len_gt_0 [where 'a = 'a] by (simp add: Suc_le_eq)
  have lb: "- (2 ^ LENGTH('a)) \<le> uint x - uint y - uint (z :: hbit)" for x y :: "'a word" and z
    using uint_lt2p [of y] uint_ge_0 [of x] uint_bit_cases [of z] by linarith
  show ?thesis
  proof (cases "(l, r, b)" rule: core_subtract_borrow.cases)
    case (1 x y z)
    then show ?thesis
      using sub_exact_underflow_borrow [of x y z]
      by (simp add: sub_exact_def sub_underflow_borrow_def Let_def)
  next
    case (2 x y z)
    then show ?thesis
      using sub_exact_borrow_or
          [OF sub_exact_subtract [of "Const x" "Const y", unfolded sub_exact_def]
              sub_exact_subtract [OF L, of "sub_difference (core_subtract (Const x) (Const y))" "Dyn z",
                unfolded sub_exact_def]] lb [of x y z]
      by (simp add: sub_exact_def Let_def algebra_simps)
  next
    case (3 x y z)
    show ?thesis
    proof (cases "z = 1 \<and> x > 0")
      case True
      then show ?thesis
        using 3 sub_exact_subtract [of "Const (x - 1)" "Dyn y"]
        by (simp add: bool_cast_def uint_sub_one word_neq_0_conv [symmetric] algebra_simps)
    next
      case False
      then show ?thesis
        using 3 sub_exact_subtract [of "Const x" "Dyn y"] hbit_cases [of z]
        by (auto simp: bool_cast_def sub_exact_def uint_max_minus word_neq_0_conv [symmetric]
            simp del: word_neq_0_conv)
    qed
  next
    case (4 x y z)
    then show ?thesis
      using sub_exact_subtract [of "Dyn x" "Const (y + 1)"] sub_exact_subtract [of "Dyn x" "Const y"]
        hbit_cases [of z]
      by (auto simp: bool_cast_def sub_exact_def uint_minus_one uint_add_one)
  next
    case (5 x y z)
    then show ?thesis
      using sub_exact_subtract [of "Dyn x" "Dyn z", OF L] sub_exact_underflow_borrow [of x y z]
      by auto
  next
    case (6 x y z)
    then show ?thesis
      using sub_exact_subtract [of "Dyn x" "Dyn y"] sub_exact_underflow_borrow [of x y z]
      by auto
  next
    case (7 x y z)
    then show ?thesis using sub_exact_underflow_borrow [of x y z] by simp
  next
    case (8 x y z)
    then show ?thesis using sub_exact_underflow_borrow [of x y z] by simp
  qed
qed

section \<open>Multiplication into two limbs\<close>

datatype 'w multiply_result = MultiplyResult (mul_lower: "'w arg") (mul_upper: "'w arg")

fun core_multiply :: "'a::len word arg \<Rightarrow> 'a word arg \<Rightarrow> 'a word arg" where
  "core_multiply (Const l) (Const r) = Const (l * r)"
| "core_multiply (Const l) (Dyn r) =
     (if l = 0 then Const 0 else if l = 1 then Dyn r else Dyn (l * r))"
| "core_multiply (Dyn l) (Const r) =
     (if r = 0 then Const 0 else if r = 1 then Dyn l else Dyn (l * r))"
| "core_multiply (Dyn l) (Dyn r) = Dyn (l * r)"

text \<open>
  \<^verbatim>\<open>extended_limb_type\<close> is the integer type of twice the width: \<open>'a bit0\<close> is the type of
  that length.
\<close>

definition extended_product :: "'a::len word \<Rightarrow> 'a word \<Rightarrow> 'a word \<times> 'a word" where
  "extended_product left right =
     (let extended_left = ucast left :: 'a bit0 word;
          extended_right = ucast right :: 'a bit0 word;
          extended_result = extended_left * extended_right
      in (ucast extended_result, ucast (drop_bit LENGTH('a) extended_result)))"

fun multiply_device :: "'a::len word eval \<Rightarrow> 'a word \<Rightarrow> 'a word \<Rightarrow> 'a word multiply_result" where
  "multiply_device Consteval left right =
     (case extended_product left right of (lower, upper) \<Rightarrow> MultiplyResult (Dyn lower) (Dyn upper))"
| "multiply_device (Runtime hi sel) left right =
     MultiplyResult (Dyn (left * right)) (Dyn (hi left right))"

fun core_extended_multiply ::
    "'a::len word eval \<Rightarrow> 'a word arg \<Rightarrow> 'a word arg \<Rightarrow> 'a word multiply_result" where
  "core_extended_multiply E (Const l) (Const r) =
     (case extended_product l r of (lower, upper) \<Rightarrow> MultiplyResult (Const lower) (Const upper))"
| "core_extended_multiply E (Const l) (Dyn r) =
     (if l = 0 then MultiplyResult (Const 0) (Const 0)
      else if l = 1 then MultiplyResult (Dyn r) (Const 0)
      else multiply_device E l r)"
| "core_extended_multiply E (Dyn l) (Const r) =
     (if r = 0 then MultiplyResult (Const 0) (Const 0)
      else if r = 1 then MultiplyResult (Dyn l) (Const 0)
      else multiply_device E l r)"
| "core_extended_multiply E (Dyn l) (Dyn r) = multiply_device E l r"

definition core_extended_multiply_add ::
    "'a::len word eval \<Rightarrow> 'a word arg \<Rightarrow> 'a word arg \<Rightarrow> 'a word arg \<Rightarrow> 'a word arg
     \<Rightarrow> 'a word multiply_result" where
  "core_extended_multiply_add E left right summand other_summand =
     (let product = core_extended_multiply E left right;
          first = core_extended_add (mul_lower product) summand;
          second = core_extended_add (add_sum first) other_summand
      in MultiplyResult (add_sum second)
           (core_add (core_add (mul_upper product) (map_arg value_from (add_carry first)))
             (map_arg value_from (add_carry second))))"

definition core_multiply_add ::
    "'a::len word arg \<Rightarrow> 'a word arg \<Rightarrow> 'a word arg \<Rightarrow> 'a word arg \<Rightarrow> 'a word arg" where
  "core_multiply_add left right summand other_summand =
     core_add (core_multiply left right) (core_add summand other_summand)"

definition mul_exact :: "'a::len word multiply_result \<Rightarrow> int \<Rightarrow> bool" where
  "mul_exact res x \<longleftrightarrow>
     uint (dynamic_value (mul_lower res)) + 2 ^ LENGTH('a) * uint (dynamic_value (mul_upper res)) = x"

lemma dyn_multiply [simp]:
  "dynamic_value (core_multiply l r) = dynamic_value l * dynamic_value r"
  by (cases l; cases r) auto

lemma dyn_multiply_add [simp]:
  "dynamic_value (core_multiply_add l r s t)
   = dynamic_value l * dynamic_value r + (dynamic_value s + dynamic_value t)"
  by (simp add: core_multiply_add_def)

lemma uint_product_less: "uint (l :: 'a word) * uint (r :: 'a::len word) \<le> (2 ^ LENGTH('a) - 1) * (2 ^ LENGTH('a) - 1)"
  by (intro mult_mono) (simp_all add: zle_diff1_eq uint_lt2p)

lemma extended_product_exact:
  "(case extended_product l r of (lower, upper) \<Rightarrow>
      lower = l * r \<and> uint upper = (uint l * uint (r :: 'a::len word)) div 2 ^ LENGTH('a))"
proof -
  have b: "uint l * uint r < 2 ^ (2 * LENGTH('a))"
  proof -
    have "uint l * uint r < 2 ^ LENGTH('a) * 2 ^ LENGTH('a)"
      by (intro mult_strict_mono) (simp_all add: uint_lt2p)
    then show ?thesis by (simp add: mult_2 power_add)
  qed
  have u: "uint (ucast x :: 'a bit0 word) = uint (x :: 'a word)" for x
    by (simp add: unsigned_ucast_eq take_bit_int_eq_self_iff order_less_le_trans [OF uint_lt2p])
  have p: "uint ((ucast l :: 'a bit0 word) * ucast r) = uint l * uint r"
    using b by (simp add: uint_word_ariths u)
  have "uint (ucast ((ucast l :: 'a bit0 word) * ucast r) :: 'a word) = uint (l * r)"
    by (simp only: unsigned_ucast_eq p) (simp add: uint_word_ariths take_bit_eq_mod)
  then have lo: "ucast ((ucast l :: 'a bit0 word) * ucast r) = l * r"
    by (simp only: word_uint_eq_iff)
  have "(uint l * uint r) div 2 ^ LENGTH('a) < 2 ^ LENGTH('a)"
    by (intro div_exp_less) (simp_all add: uint_lt2p)
  moreover have "uint (drop_bit LENGTH('a) ((ucast l :: 'a bit0 word) * ucast r))
      = (uint l * uint r) div 2 ^ LENGTH('a)"
    using b by (simp add: unsigned_drop_bit_eq p take_bit_int_eq_self) (simp add: drop_bit_eq_div)
  ultimately have "uint (ucast (drop_bit LENGTH('a) ((ucast l :: 'a bit0 word) * ucast r)) :: 'a word)
      = (uint l * uint r) div 2 ^ LENGTH('a)"
    by (simp only: unsigned_ucast_eq) (simp add: take_bit_int_eq_self_iff pos_imp_zdiv_nonneg_iff)
  with lo show ?thesis by (simp add: extended_product_def Let_def)
qed

lemma mul_exact_device:
  assumes "sycl_ok E"
  shows "mul_exact (multiply_device E l r) (uint l * uint (r :: 'a::len word))"
proof (cases E)
  case Consteval
  then show ?thesis
    using extended_product_exact [of l r]
    by (simp add: mul_exact_def uint_word_ariths split: prod.splits)
next
  case (Runtime hi sel)
  with assms show ?thesis
    by (simp add: mul_exact_def sycl_ok_def uint_word_ariths)
qed

lemma mul_exact_extended_multiply:
  assumes "sycl_ok E"
  shows "mul_exact (core_extended_multiply E l r)
    (uint (dynamic_value l) * uint (dynamic_value (r :: 'a::len word arg)))"
  using extended_product_exact [of "dynamic_value l" "dynamic_value r"] mul_exact_device [OF assms]
  by (cases l; cases r) (auto simp: mul_exact_def uint_word_ariths split: prod.splits)

text \<open>
  The sum of a product of limbs and two limbs fits into two limbs: the carries are never lost.
\<close>

lemma mul_exact_extended_multiply_add:
  assumes "sycl_ok E"
  shows "mul_exact (core_extended_multiply_add E l r s t)
    (uint (dynamic_value l) * uint (dynamic_value r) + uint (dynamic_value s)
      + uint (dynamic_value (t :: 'a::len word arg)))"
proof -
  let ?B = "2 ^ LENGTH('a) :: int"
  define P where "P = core_extended_multiply E l r"
  define F where "F = core_extended_add (mul_lower P) s"
  define S where "S = core_extended_add (add_sum F) t"
  let ?u = "uint (dynamic_value (mul_upper P))" and ?c = "uint (dynamic_value (add_carry F))"
    and ?d = "uint (dynamic_value (add_carry S))"
  let ?x = "uint (dynamic_value l) * uint (dynamic_value r) + uint (dynamic_value s) + uint (dynamic_value t)"
  have p: "uint (dynamic_value (mul_lower P)) + ?B * ?u = uint (dynamic_value l) * uint (dynamic_value r)"
    using mul_exact_extended_multiply [OF assms, of l r] by (simp add: mul_exact_def P_def)
  have f: "uint (dynamic_value (add_sum F)) + ?B * ?c = uint (dynamic_value (mul_lower P)) + uint (dynamic_value s)"
    using add_exact_extended_add [of "mul_lower P" s] by (simp add: add_exact_def F_def)
  have s: "uint (dynamic_value (add_sum S)) + ?B * ?d = uint (dynamic_value (add_sum F)) + uint (dynamic_value t)"
    using add_exact_extended_add [of "add_sum F" t] by (simp add: add_exact_def S_def)
  from p f s have x: "?x = uint (dynamic_value (add_sum S)) + ?B * (?u + ?c + ?d)"
    by (simp add: algebra_simps)
  have "?x \<le> (?B - 1) * (?B - 1) + (?B - 1) + (?B - 1)"
    using uint_product_less [of "dynamic_value l" "dynamic_value r"]
      uint_lt2p [of "dynamic_value s"] uint_lt2p [of "dynamic_value t"] by linarith
  also have "\<dots> < ?B * ?B" by (simp add: algebra_simps)
  finally have "?B * (?u + ?c + ?d) < ?B * ?B"
    using x uint_ge_0 [of "dynamic_value (add_sum S)"] by linarith
  then have lt: "?u + ?c + ?d < ?B" by simp
  moreover from lt have "?u + ?c < ?B" using uint_ge_0 [of "dynamic_value (add_carry S)"] by linarith
  ultimately have "uint (dynamic_value (mul_upper P) + value_from (dynamic_value (add_carry F))
      + value_from (dynamic_value (add_carry S))) = ?u + ?c + ?d"
    by (simp add: uint_plus_if' uint_value_from_bit)
  with x show ?thesis
    by (simp add: mul_exact_def core_extended_multiply_add_def Let_def P_def F_def S_def)
qed

section \<open>Division of two limbs by one\<close>

text \<open>
  \<^verbatim>\<open>clamped_divide\<close> runs at compile time only; the division of a limb type by zero is rejected
  by an assertion.
\<close>

definition core_clamped_divide :: "'a::len word \<Rightarrow> 'a word \<Rightarrow> 'a word \<Rightarrow> 'a word option" where
  "core_clamped_divide lower_numerator upper_numerator denominator =
     (let numerator = ucast lower_numerator OR push_bit LENGTH('a) (ucast upper_numerator :: 'a bit0 word)
      in case uint_divide numerator (ucast denominator) of
           None \<Rightarrow> None
         | Some q \<Rightarrow> if q > ucast (limb_max :: 'a word) then Some limb_max else Some (ucast q))"

lemma uint_ucast_extended [simp]: "uint (ucast x :: 'a bit0 word) = uint (x :: 'a::len word)"
  by (simp add: unsigned_ucast_eq take_bit_int_eq_self_iff order_less_le_trans [OF uint_lt2p])

lemma uint_combine_limbs:
  "uint (ucast lo OR push_bit LENGTH('a) (ucast hi :: 'a bit0 word))
   = uint (lo :: 'a word) + 2 ^ LENGTH('a) * uint (hi :: 'a::len word)"
proof -
  have b: "2 ^ LENGTH('a) * uint hi + uint lo < 2 ^ (2 * LENGTH('a))"
  proof -
    have "2 ^ LENGTH('a) * (uint hi + 1) \<le> 2 ^ LENGTH('a) * (2 ^ LENGTH('a) :: int)"
      using uint_lt2p [of hi] by (intro mult_left_mono) (linarith, simp)
    with uint_lt2p [of lo] have "2 ^ LENGTH('a) * uint hi + uint lo < 2 ^ LENGTH('a) * 2 ^ LENGTH('a)"
      by (simp only: distrib_left mult_1_right)
    then show ?thesis by (simp add: mult_2 power_add)
  qed
  have "uint (push_bit LENGTH('a) (ucast hi :: 'a bit0 word)) = push_bit LENGTH('a) (uint hi)"
  proof -
    have "push_bit LENGTH('a) (uint hi) < 2 ^ (2 * LENGTH('a))"
      using b uint_ge_0 [of lo] by (simp only: push_bit_eq_mult mult.commute [of "uint hi"])
    then show ?thesis
      by (simp add: unsigned_push_bit_eq take_bit_int_eq_self_iff)
  qed
  then have "uint (ucast lo OR push_bit LENGTH('a) (ucast hi :: 'a bit0 word))
      = uint lo OR push_bit LENGTH('a) (uint hi)"
    by (simp add: unsigned_or_eq)
  also have "\<dots> = uint lo + push_bit LENGTH('a) (uint hi)"
  proof (rule disjunctive_add [symmetric])
    show "\<not> bit (uint lo) n \<or> \<not> bit (push_bit LENGTH('a) (uint hi)) n" for n
      by (auto simp: bit_push_bit_iff bit_uint_iff dest: bit_imp_le_length)
  qed
  finally show ?thesis by (simp add: push_bit_eq_mult algebra_simps)
qed

lemma core_clamped_divide_eq:
  assumes "d \<noteq> (0 :: 'a::len word)"
  shows "\<exists>q. core_clamped_divide lo hi d = Some q
    \<and> uint q = min ((uint lo + 2 ^ LENGTH('a) * uint hi) div uint d) (2 ^ LENGTH('a) - 1)"
proof -
  let ?n = "ucast lo OR push_bit LENGTH('a) (ucast hi :: 'a bit0 word)"
  let ?q = "?n div ucast d"
  have d: "(ucast d :: 'a bit0 word) \<noteq> 0"
    using assms by (metis uint_0_iff uint_ucast_extended)
  have q: "uint ?q = (uint lo + 2 ^ LENGTH('a) * uint hi) div uint d"
    by (simp add: uint_div uint_combine_limbs)
  show ?thesis
  proof (cases "?q > ucast (limb_max :: 'a word)")
    case True
    then have "2 ^ LENGTH('a) - 1 < uint ?q"
      by (simp add: word_less_def uint_minus_one)
    with True d q show ?thesis
      by (simp add: core_clamped_divide_def uint_divide_def Let_def uint_minus_one)
  next
    case False
    then have le: "uint ?q \<le> 2 ^ LENGTH('a) - 1"
      by (simp add: not_less word_le_def uint_minus_one)
    then have "uint (ucast ?q :: 'a word) = uint ?q"
      by (simp add: unsigned_ucast_eq take_bit_int_eq_self_iff)
    with False d q le show ?thesis
      by (simp add: core_clamped_divide_def uint_divide_def Let_def)
  qed
qed

section \<open>Properties\<close>

text \<open>The operations on limbs with carry are exact: sum and carry, difference and borrow, and the two
  halves of a product with two summands together are the exact result, for every combination of
  compile-time constants and runtime operands, on the host and on a device.\<close>

theorem core_carry_arithmetic_exact:
  assumes "sycl_ok E"
  shows "uint (dynamic_value (add_sum (core_extended_add_carry l r c)))
      + 2 ^ LENGTH('a) * uint (dynamic_value (add_carry (core_extended_add_carry l r c)))
      = uint (dynamic_value l) + uint (dynamic_value r) + uint (dynamic_value c)
    \<and> uint (dynamic_value (sub_difference (core_subtract_borrow l r c)))
      - 2 ^ LENGTH('a) * uint (dynamic_value (sub_borrow (core_subtract_borrow l r c)))
      = uint (dynamic_value l) - (uint (dynamic_value r) + uint (dynamic_value c))
    \<and> uint (dynamic_value (mul_lower (core_extended_multiply_add E l r s t)))
      + 2 ^ LENGTH('a) * uint (dynamic_value (mul_upper (core_extended_multiply_add E l r s t)))
      = uint (dynamic_value l) * uint (dynamic_value r) + uint (dynamic_value s) + uint (dynamic_value (t :: 'a::len word arg))"
  using add_exact_carry [of l r c] sub_exact_borrow [of l r c] mul_exact_extended_multiply_add [OF assms, of l r s t]
  unfolding add_exact_def sub_exact_def mul_exact_def by blast

theorem core_carry_arithmetic_exact_witness:
  "uint (dynamic_value (mul_lower (core_extended_multiply_add sycl_device (Dyn (255 :: 8 word)) (Const 255) (Dyn 255) (Dyn 255))))
   + 256 * uint (dynamic_value (mul_upper (core_extended_multiply_add sycl_device (Dyn (255 :: 8 word)) (Const 255) (Dyn 255) (Dyn 255)))) = 65535"
  using core_carry_arithmetic_exact [OF sycl_ok_device, of "Dyn (255 :: 8 word)" "Const 255" "Const 0" "Dyn 255" "Dyn 255"]
  by simp

text \<open>The clamped division of two limbs by one, the quotient estimate of long division, never fails for a
  divisor that is not zero, and is the quotient, or the greatest limb where the quotient is no limb.\<close>

theorem core_clamped_divide_correct:
  assumes "d \<noteq> (0 :: 'a::len word)"
  shows "\<exists>q. core_clamped_divide lo hi d = Some q
    \<and> uint q = min ((uint lo + 2 ^ LENGTH('a) * uint hi) div uint d) (2 ^ LENGTH('a) - 1)"
  by (rule core_clamped_divide_eq [OF assms])

theorem core_clamped_divide_correct_witness:
  "\<exists>q. core_clamped_divide (7 :: 8 word) 3 5 = Some q \<and> uint q = 155"
  using core_clamped_divide_correct [of "5 :: 8 word" 7 3] by simp

end
