(* ===== verification/Core_Bits.thy ===== *)
theory Core_Bits
  imports Core_Mul
begin

text \<open>
  Shifts, masks, sign extension and bit positions of single limbs: \<^verbatim>\<open>shift_left\<close>,
  \<^verbatim>\<open>combined_shift_left\<close>, \<^verbatim>\<open>mask_inside\<close>, \<^verbatim>\<open>mask_outside\<close>, \<^verbatim>\<open>is_normal\<close>,
  \<^verbatim>\<open>extend_sign\<close>, \<^verbatim>\<open>extract_bit\<close>, \<^verbatim>\<open>set_bit\<close>, \<^verbatim>\<open>bit_width\<close>, \<^verbatim>\<open>countr_zero\<close>
  and \<^verbatim>\<open>has_single_bit\<close> of \<^verbatim>\<open>hmpc/core/\<close>.  The lemmas describe each result by its bits.
\<close>

section \<open>Shifts\<close>

definition core_shift_left :: "'a::len word arg \<Rightarrow> nat \<Rightarrow> 'a word arg" where
  "core_shift_left value shift = map_arg (push_bit shift) value"

definition core_shift_right :: "'a::len word arg \<Rightarrow> nat \<Rightarrow> 'a word arg" where
  "core_shift_right value shift = map_arg (drop_bit shift) value"

definition core_combined_shift_left :: "'a::len word arg \<Rightarrow> 'a word arg \<Rightarrow> nat \<Rightarrow> 'a word arg" where
  "core_combined_shift_left lower upper shift =
     (let complementary_shift = LENGTH('a) - shift
      in core_bit_or (core_shift_left upper shift) (core_shift_right lower complementary_shift))"

definition core_combined_shift_right :: "'a::len word arg \<Rightarrow> 'a word arg \<Rightarrow> nat \<Rightarrow> 'a word arg" where
  "core_combined_shift_right lower upper shift =
     (let complementary_shift = LENGTH('a) - shift
      in core_bit_or (core_shift_left upper complementary_shift) (core_shift_right lower shift))"

lemma dyn_shift_left [simp]: "dynamic_value (core_shift_left v s) = push_bit s (dynamic_value v)"
  by (simp add: core_shift_left_def)

lemma dyn_shift_right [simp]: "dynamic_value (core_shift_right v s) = drop_bit s (dynamic_value v)"
  by (simp add: core_shift_right_def)

lemma bit_combined_shift_left:
  assumes "0 < s" "s < LENGTH('a)" "j < LENGTH('a)"
  shows "bit (dynamic_value (core_combined_shift_left lo hi s :: 'a::len word arg)) j
    \<longleftrightarrow> (if j < s then bit (dynamic_value lo) (LENGTH('a) - s + j) else bit (dynamic_value hi) (j - s))"
  using assms
  by (auto simp: core_combined_shift_left_def Let_def bit_or_iff bit_push_bit_iff bit_drop_bit_eq
      dest: bit_imp_le_length)

lemma bit_combined_shift_right:
  assumes "0 < s" "s < LENGTH('a)" "j < LENGTH('a)"
  shows "bit (dynamic_value (core_combined_shift_right lo hi s :: 'a::len word arg)) j
    \<longleftrightarrow> (if j + s < LENGTH('a) then bit (dynamic_value lo) (j + s)
         else bit (dynamic_value hi) (j + s - LENGTH('a)))"
  using assms
  by (auto simp: core_combined_shift_right_def Let_def bit_or_iff bit_push_bit_iff bit_drop_bit_eq
      add.commute dest: bit_imp_le_length)

section \<open>Masks and normal limbs\<close>

definition core_mask_inside :: "'a::len word arg \<Rightarrow> nat \<Rightarrow> 'a word arg" where
  "core_mask_inside value b =
     (if b = 0 then Const 0
      else if b = LENGTH('a) then value
      else core_bit_and value (Const (push_bit b 1 - 1)))"

definition core_mask_outside :: "'a::len word arg \<Rightarrow> nat \<Rightarrow> 'a word arg" where
  "core_mask_outside value b =
     (if b = 0 then value
      else if b = LENGTH('a) then Const 0
      else core_bit_and value (Const (NOT (push_bit b 1 - 1))))"

text \<open>
  The three overloads of \<^verbatim>\<open>is_normal\<close>: without sign, with a sign mask, with a sign bit.  The
  fourth, for constant evaluation with a position that is an ordinary value, computes the first.
\<close>

definition core_is_normal :: "'a::len word arg \<Rightarrow> nat \<Rightarrow> hbit arg" where
  "core_is_normal value b =
     (if b = LENGTH('a) then Const 1 else core_equal_to (core_mask_inside value b) value)"

definition core_is_normal_mask :: "'a::len word arg \<Rightarrow> 'a word arg \<Rightarrow> nat \<Rightarrow> hbit arg" where
  "core_is_normal_mask value sign_mask b =
     (if b = LENGTH('a) then Const 1
      else core_equal_to (core_mask_outside value b) (core_mask_outside sign_mask b))"

definition core_is_normal_sign :: "'a::len word arg \<Rightarrow> hbit arg \<Rightarrow> nat \<Rightarrow> hbit arg" where
  "core_is_normal_sign value sign b = core_is_normal_mask value (map_arg mask_from sign) b"

definition core_extend_sign :: "'a::len word arg \<Rightarrow> 'a word arg \<Rightarrow> nat \<Rightarrow> 'a word arg" where
  "core_extend_sign value sign_mask b =
     (if b = 0 then sign_mask
      else if b = LENGTH('a) then value
      else core_bit_or (core_mask_outside sign_mask b) value)"

definition core_extend_sign_bit :: "'a::len word arg \<Rightarrow> hbit arg \<Rightarrow> nat \<Rightarrow> 'a word arg" where
  "core_extend_sign_bit value sign b = core_extend_sign value (map_arg mask_from sign) b"

lemma exp_minus_one_mask: "(2 ^ b - 1 :: 'a::len word) = mask b"
  by (simp add: mask_eq_exp_minus_1)

lemma bit_exp_word: "bit (2 ^ b :: 'a::len word) j \<longleftrightarrow> j = b \<and> b < LENGTH('a)"
  by (auto simp: bit_exp_iff)

lemma dyn_mask_inside [simp]:
  assumes "b \<le> LENGTH('a)"
  shows "dynamic_value (core_mask_inside v b) = take_bit b (dynamic_value v :: 'a::len word)"
  using assms
  by (auto simp: core_mask_inside_def exp_minus_one_mask take_bit_eq_mask le_less
      take_bit_word_eq_self)

lemma dyn_mask_outside:
  assumes "b \<le> LENGTH('a)"
  shows "dynamic_value (core_mask_outside v b) = dynamic_value v AND NOT (mask b :: 'a::len word)"
proof -
  have "NOT (mask LENGTH('a) :: 'a word) = 0"
    by (rule bit_word_eqI) (simp add: bit_simps)
  with assms show ?thesis
    by (auto simp: core_mask_outside_def exp_minus_one_mask le_less)
qed

lemma bit_mask_outside:
  "b \<le> LENGTH('a) \<Longrightarrow> bit (dynamic_value (core_mask_outside v b) :: 'a::len word) j
   \<longleftrightarrow> bit (dynamic_value v) j \<and> b \<le> j"
  by (auto simp: dyn_mask_outside bit_and_iff bit_not_iff bit_mask_iff dest: bit_imp_le_length)

lemma bit_extend_sign:
  assumes "b \<le> LENGTH('a)" and "0 < b"
  shows "bit (dynamic_value (core_extend_sign v m b) :: 'a::len word) j
    \<longleftrightarrow> bit (dynamic_value v) j \<or> bit (dynamic_value m) j \<and> b \<le> j"
  using assms
  by (auto simp: core_extend_sign_def bit_or_iff bit_mask_outside dest: bit_imp_le_length)

lemma dyn_is_normal:
  assumes "b \<le> LENGTH('a)"
  shows "dynamic_value (core_is_normal v b) = of_bool (take_bit b (dynamic_value v :: 'a::len word) = dynamic_value v)"
  using assms by (auto simp: core_is_normal_def take_bit_word_eq_self)

lemma dyn_is_normal_mask:
  assumes "b \<le> LENGTH('a)"
  shows "dynamic_value (core_is_normal_mask v m b) =
    of_bool (\<forall>j. b \<le> j \<longrightarrow> j < LENGTH('a) \<longrightarrow> bit (dynamic_value v :: 'a::len word) j = bit (dynamic_value m) j)"
proof (cases "b = LENGTH('a)")
  case True
  then show ?thesis by (simp add: core_is_normal_mask_def)
next
  case False
  have "dynamic_value (core_mask_outside v b) = dynamic_value (core_mask_outside m b)
    \<longleftrightarrow> (\<forall>j. b \<le> j \<longrightarrow> j < LENGTH('a) \<longrightarrow> bit (dynamic_value v) j = bit (dynamic_value m) j)"
    by (auto simp: bit_eq_iff bit_mask_outside [OF assms] dest: bit_imp_le_length)
  with False show ?thesis by (simp add: core_is_normal_mask_def)
qed

section \<open>Single bits\<close>

definition core_is_set :: "'a::len word arg \<Rightarrow> hbit arg" where
  "core_is_set value = map_arg (\<lambda>v. of_bool (v \<noteq> 0)) value"

definition core_extract_bit :: "'a::len word arg \<Rightarrow> nat \<Rightarrow> hbit arg" where
  "core_extract_bit value b =
     (if b = 0 then map_arg ucast value
      else core_is_set (core_bit_and value (core_shift_left (Const 1) b)))"

definition core_set_bit :: "'a::len word arg \<Rightarrow> hbit arg \<Rightarrow> nat \<Rightarrow> 'a word arg" where
  "core_set_bit value bit_value b =
     (let clear_mask = core_bit_not (core_shift_left (Const 1) b);
          mask = core_shift_left (map_arg value_from bit_value) b
      in core_bit_or (core_bit_and value clear_mask) mask)"

lemma dyn_extract_bit [simp]:
  assumes "b < LENGTH('a)"
  shows "dynamic_value (core_extract_bit v b) = of_bool (bit (dynamic_value v :: 'a::len word) b)"
proof (cases "b = 0")
  case True
  then show ?thesis by (simp add: core_extract_bit_def ucast_hbit bit_0)
next
  case False
  have "dynamic_value v AND push_bit b 1 = 0 \<longleftrightarrow> \<not> bit (dynamic_value v) b"
  proof
    assume "dynamic_value v AND push_bit b 1 = 0"
    then have "\<not> bit (dynamic_value v AND push_bit b 1) b" by simp
    with assms show "\<not> bit (dynamic_value v) b" by (simp add: bit_and_iff bit_exp_word)
  next
    assume "\<not> bit (dynamic_value v) b"
    then show "dynamic_value v AND push_bit b 1 = 0"
      by (intro bit_word_eqI) (auto simp: bit_and_iff bit_exp_word)
  qed
  with False show ?thesis by (simp add: core_extract_bit_def core_is_set_def)
qed

lemma bit_set_bit:
  assumes "b < LENGTH('a)" and "j < LENGTH('a)"
  shows "bit (dynamic_value (core_set_bit v x b) :: 'a::len word) j
    \<longleftrightarrow> (if j = b then dynamic_value x = 1 else bit (dynamic_value v) j)"
proof -
  have "bit (push_bit b (value_from (dynamic_value x) :: 'a word)) j \<longleftrightarrow> j = b \<and> dynamic_value x = 1"
    using assms by (cases "dynamic_value x" rule: hbit_exhaust) (auto simp: bit_exp_word)
  moreover have "bit (NOT (push_bit b 1 :: 'a word)) j \<longleftrightarrow> j \<noteq> b"
    using assms by (auto simp: bit_not_iff bit_exp_word)
  ultimately show ?thesis
    by (auto simp: core_set_bit_def Let_def bit_or_iff bit_and_iff)
qed

section \<open>Bit width, trailing zeros, powers of two\<close>

text \<open>
  The functions of the C++ header \<^verbatim>\<open><bit>\<close> on the value of an unsigned integer, and their use
  on limbs.  Their results are sizes.
\<close>

fun std_bit_width :: "nat \<Rightarrow> nat" where
  "std_bit_width n = (if n = 0 then 0 else Suc (std_bit_width (n div 2)))"

declare std_bit_width.simps [simp del]

definition std_countr_zero :: "'a::len word \<Rightarrow> nat" where
  "std_countr_zero w = length (takeWhile (\<lambda>i. \<not> bit w i) [0..<LENGTH('a)])"

definition std_has_single_bit :: "'a::len word \<Rightarrow> bool" where
  "std_has_single_bit w \<longleftrightarrow> w \<noteq> 0 \<and> w AND (w - 1) = 0"

definition core_bit_width :: "'a::len word arg \<Rightarrow> hsize arg" where
  "core_bit_width value = map_arg (\<lambda>v. of_nat (std_bit_width (unat v))) value"

definition core_countr_zero :: "'a::len word arg \<Rightarrow> hsize arg" where
  "core_countr_zero value = map_arg (\<lambda>v. of_nat (std_countr_zero v)) value"

definition core_has_single_bit :: "'a::len word arg \<Rightarrow> hbit arg" where
  "core_has_single_bit value = map_arg (\<lambda>v. of_bool (std_has_single_bit v)) value"

lemma std_bit_width_0 [simp]: "std_bit_width 0 = 0"
  by (simp add: std_bit_width.simps)

lemma std_bit_width_pos: "0 < n \<Longrightarrow> std_bit_width n = Suc (std_bit_width (n div 2))"
  by (subst std_bit_width.simps) simp

lemma std_bit_width_eq_0_iff [simp]: "std_bit_width n = 0 \<longleftrightarrow> n = 0"
  by (subst std_bit_width.simps) simp

lemma std_bit_width_bounds:
  "0 < n \<Longrightarrow> 2 ^ (std_bit_width n - 1) \<le> n \<and> n < 2 ^ std_bit_width n"
proof (induction n rule: std_bit_width.induct)
  case (1 n)
  show ?case
  proof (cases "n div 2 = 0")
    case True
    with "1.prems" have "n = 1" by simp
    then show ?thesis by (simp add: std_bit_width_pos)
  next
    case False
    let ?w = "std_bit_width (n div 2)"
    from False "1" have b: "2 ^ (?w - 1) \<le> n div 2" "n div 2 < 2 ^ ?w" by simp_all
    have w: "std_bit_width n = Suc ?w" using "1.prems" by (rule std_bit_width_pos)
    from False obtain k where k: "?w = Suc k" by (cases ?w) auto
    have "2 ^ ?w \<le> n" using b(1) k by simp
    moreover have "n < 2 ^ Suc ?w" using b(2) by simp
    ultimately show ?thesis by (simp only: w diff_Suc_1)
  qed
qed

lemma std_bit_width_less: "n < 2 ^ std_bit_width n"
  using std_bit_width_bounds [of n] by (cases "n = 0") simp_all

lemma std_bit_width_le_iff: "std_bit_width n \<le> k \<longleftrightarrow> n < 2 ^ k"
proof
  assume "std_bit_width n \<le> k"
  then have "(2::nat) ^ std_bit_width n \<le> 2 ^ k" by simp
  with std_bit_width_less [of n] show "n < 2 ^ k" by linarith
next
  assume lt: "n < 2 ^ k"
  show "std_bit_width n \<le> k"
  proof (cases "n = 0")
    case False
    then have "2 ^ (std_bit_width n - 1) < (2::nat) ^ k"
      using std_bit_width_bounds [of n] lt by linarith
    then have "std_bit_width n - 1 < k" by simp
    then show ?thesis by simp
  qed simp
qed

lemma std_bit_width_limb: "std_bit_width (unat (w :: 'a::len word)) \<le> LENGTH('a)"
  by (simp add: std_bit_width_le_iff)

lemma std_bit_width_eqI: "2 ^ k \<le> n \<Longrightarrow> n < 2 ^ Suc k \<Longrightarrow> std_bit_width n = Suc k"
  by (metis antisym_conv not_less not_less_eq_eq std_bit_width_le_iff)

lemma std_countr_zero_le: "std_countr_zero (w :: 'a::len word) \<le> LENGTH('a)"
  unfolding std_countr_zero_def by (metis diff_zero length_takeWhile_le length_upt)

lemma takeWhile_upt_nth:
  assumes "i < length (takeWhile P [0..<n])"
  shows "P i" and "i < n"
proof -
  have "i < n" using assms length_takeWhile_le [of P "[0..<n]"] by simp
  then have "[0..<n] ! i = i" by simp
  with assms show "P i" by (metis nth_mem set_takeWhileD takeWhile_nth)
  show "i < n" by fact
qed

lemma std_countr_zero_below:
  "j < std_countr_zero w \<Longrightarrow> \<not> bit (w :: 'a::len word) j"
  unfolding std_countr_zero_def by (rule takeWhile_upt_nth(1))

lemma std_countr_zero_bit:
  assumes "std_countr_zero (w :: 'a::len word) < LENGTH('a)"
  shows "bit w (std_countr_zero w)"
proof -
  let ?n = "std_countr_zero w"
  have "\<not> (\<lambda>i. \<not> bit w i) ([0..<LENGTH('a)] ! ?n)"
    using assms unfolding std_countr_zero_def by (intro nth_length_takeWhile) simp
  with assms show ?thesis by simp
qed

lemma std_countr_zero_full_iff: "std_countr_zero (w :: 'a::len word) = LENGTH('a) \<longleftrightarrow> w = 0"
proof
  assume "std_countr_zero w = LENGTH('a)"
  then show "w = 0" using std_countr_zero_below [of _ w] by (intro bit_word_eqI) simp
next
  assume "w = 0"
  then show "std_countr_zero w = LENGTH('a)"
    using std_countr_zero_bit [of w] std_countr_zero_le [of w] by (auto simp: le_less)
qed

lemma bit_minus_1_and:
  "w AND (w - 1) = 0 \<longleftrightarrow> (\<forall>i j. bit (w :: 'a::len word) i \<longrightarrow> bit w j \<longrightarrow> i = j)"
  if "w \<noteq> 0"
proof -
  let ?n = "std_countr_zero w"
  have n: "?n < LENGTH('a)"
    using that std_countr_zero_full_iff [of w] std_countr_zero_le [of w] by simp
  then have bn: "bit w ?n" by (rule std_countr_zero_bit)
  have low: "\<not> bit w j" if "j < ?n" for j using that by (rule std_countr_zero_below)
  define v where "v = w XOR 2 ^ ?n"
  have one: "bit (2 ^ ?n :: 'a word) j \<longleftrightarrow> j = ?n" for j
    using n by (auto simp: bit_exp_word)
  have v: "bit v j \<longleftrightarrow> bit w j \<and> j \<noteq> ?n" for j
    using bn by (auto simp: v_def bit_xor_iff one)
  have w: "w = v + 2 ^ ?n"
  proof -
    have "v OR 2 ^ ?n = w"
      by (rule bit_word_eqI) (use bn in \<open>auto simp: bit_or_iff v one\<close>)
    moreover have "v + 2 ^ ?n = v OR 2 ^ ?n"
      by (intro disjunctive_add) (auto simp: v one)
    ultimately show ?thesis by simp
  qed
  have "w - 1 = v + mask ?n"
    by (subst w) (simp add: mask_eq_exp_minus_1)
  also have "\<dots> = v OR mask ?n"
    using low by (intro disjunctive_add) (auto simp: v bit_mask_iff)
  finally have "w AND (w - 1) = v"
    using low by (intro bit_word_eqI) (auto simp: bit_and_iff bit_or_iff v bit_mask_iff)
  also have "v = 0 \<longleftrightarrow> (\<forall>j. bit w j \<longrightarrow> j = ?n)"
    using v by (metis bit_0_eq bot_apply bot_bool_def bit_word_eqI)
  also have "\<dots> \<longleftrightarrow> (\<forall>i j. bit w i \<longrightarrow> bit w j \<longrightarrow> i = j)"
    using bn by blast
  finally show ?thesis .
qed

lemma std_has_single_bit_iff: "std_has_single_bit w \<longleftrightarrow> (\<exists>!i. bit (w :: 'a::len word) i)"
proof (cases "w = 0")
  case True
  then show ?thesis by (auto simp: std_has_single_bit_def)
next
  case False
  then have "\<exists>i. bit w i" by (auto simp: bit_eq_iff)
  with False show ?thesis by (auto simp: std_has_single_bit_def bit_minus_1_and)
qed

end
