(* ===== verification/Span.thy ===== *)
theory Span
  imports Core_Bits
begin

text \<open>
  Views of integers as arrays of limbs: \<^verbatim>\<open>bit_span\<close>, \<^verbatim>\<open>bit_array\<close>,
  \<^verbatim>\<open>bit_span_metadata\<close>, \<^verbatim>\<open>constant_bit_span\<close>, \<^verbatim>\<open>masked_bit_span\<close>,
  \<^verbatim>\<open>select_bit_span\<close>, \<^verbatim>\<open>size_limb_span\<close> and \<^verbatim>\<open>limb_span\<close> of \<^verbatim>\<open>hmpc/core/\<close>.

  \<^item> A \<^verbatim>\<open>bit_span\<close> with the memory it points to is the record \<open>'w bit_span\<close>: its size in bits,
    its signedness and its normalization are template arguments in the code, the limbs are the array.
  \<^item> The C++ concept \<^verbatim>\<open>read_only_bit_span\<close> accepts any of the view types; \<open>'w rspan\<close> has one
    constructor for each of them, and \<open>extended_read\<close> is one function with an equation per type.
  \<^item> The locale \<open>limb_source\<close> is the contract of \<^verbatim>\<open>extended_read\<close>: beyond the limbs of a view
    the sign mask is read.  It is all that the loops of \<^verbatim>\<open>hmpc/core/num/\<close> need; the view types are
    an interpretation of it.
  \<^item> \<open>span_int\<close> is the integer the first \<open>bit_size\<close> bits of a span denote, \<open>span_ok\<close> says that
    a span is well formed, and, if its type is normal, that its last limb has no stray bits.
\<close>

section \<open>Signedness and normalization\<close>

datatype signedness = Without_sign | With_sign

definition is_signed :: "signedness \<Rightarrow> bool" where
  "is_signed s \<longleftrightarrow> s = With_sign"

definition is_unsigned :: "signedness \<Rightarrow> bool" where
  "is_unsigned s \<longleftrightarrow> s = Without_sign"

definition common_signedness :: "signedness \<Rightarrow> signedness \<Rightarrow> signedness" where
  "common_signedness left right = (if is_signed left \<or> is_signed right then With_sign else Without_sign)"

datatype normalization = Normal | Unnormal

definition common_normal :: "normalization \<Rightarrow> normalization \<Rightarrow> normalization" where
  "common_normal m n = (if m = Normal \<and> n = Normal then Normal else Unnormal)"

lemma is_unsigned_iff: "is_unsigned s \<longleftrightarrow> \<not> is_signed s"
  by (cases s) (simp_all add: is_signed_def is_unsigned_def)

lemma is_signed_simps [simp]: "is_signed With_sign" "\<not> is_signed Without_sign"
  by (simp_all add: is_signed_def)

section \<open>Spans over an array of limbs\<close>

record 'w bit_span =
  bit_size :: nat
  signedness :: signedness
  normal_type :: normalization
  data :: "'w list"

definition limb_size_for :: "'a::len itself \<Rightarrow> nat \<Rightarrow> nat" where
  "limb_size_for T bits = div_ceil bits LENGTH('a)"

definition limb_size :: "'a::len word bit_span \<Rightarrow> nat" where
  "limb_size b = limb_size_for TYPE('a) (bit_size b)"

definition last_limb_bit_size_for :: "'a::len itself \<Rightarrow> nat \<Rightarrow> nat" where
  "last_limb_bit_size_for T bits =
     bits mod LENGTH('a) + (if bits mod LENGTH('a) = 0 \<and> bits \<noteq> 0 then 1 else 0) * LENGTH('a)"

definition last_limb_bit_size :: "'a::len word bit_span \<Rightarrow> nat" where
  "last_limb_bit_size b = last_limb_bit_size_for TYPE('a) (bit_size b)"

definition span_sign :: "'a::len word bit_span \<Rightarrow> hbit arg" where
  "span_sign b =
     (if is_signed (signedness b)
      then core_extract_bit (Dyn (data b ! (limb_size b - 1))) ((bit_size b - 1) mod LENGTH('a))
      else Const 0)"

definition span_sign_mask :: "'a::len word bit_span \<Rightarrow> 'a word arg" where
  "span_sign_mask b =
     (if is_signed (signedness b)
      then map_arg mask_from
             (core_extract_bit (Dyn (data b ! (limb_size b - 1))) ((bit_size b - 1) mod LENGTH('a)))
      else Const 0)"

definition span_read :: "'a::len word bit_span \<Rightarrow> nat \<Rightarrow> normalization \<Rightarrow> 'a word" where
  "span_read b index other =
     (if bit_size b mod LENGTH('a) \<noteq> 0 \<and> index = limb_size b - 1
      then if normal_type b = Normal then data b ! index
           else if other = Normal
             then if is_signed (signedness b)
               then dynamic_value
                 (core_extend_sign (Dyn (data b ! index)) (span_sign_mask b) (last_limb_bit_size b))
               else dynamic_value (core_mask_inside (Dyn (data b ! index)) (last_limb_bit_size b))
             else data b ! index
      else data b ! index)"

definition span_extended_read :: "'a::len word bit_span \<Rightarrow> nat \<Rightarrow> normalization \<Rightarrow> 'a word arg" where
  "span_extended_read b index other =
     (if index < limb_size b then Dyn (span_read b index other) else span_sign_mask b)"

definition written_limb ::
    "'a::len word bit_span \<Rightarrow> nat \<Rightarrow> 'a word arg \<Rightarrow> normalization \<Rightarrow> 'a word" where
  "written_limb b index value other =
     (if index = limb_size b - 1
      then if normal_type b = Normal \<and> other = Unnormal then dynamic_value value
           else if other = Normal
             then if is_signed (signedness b)
               then (let sign = core_extract_bit value ((bit_size b - 1) mod LENGTH('a))
                     in dynamic_value (core_extend_sign_bit value sign (last_limb_bit_size b)))
               else dynamic_value (core_mask_inside value (last_limb_bit_size b))
             else dynamic_value value
      else dynamic_value value)"

definition span_write ::
    "'a::len word bit_span \<Rightarrow> nat \<Rightarrow> 'a word arg \<Rightarrow> normalization \<Rightarrow> 'a word bit_span" where
  "span_write b index value other = b\<lparr>data := (data b)[index := written_limb b index value other]\<rparr>"

text \<open>A \<^verbatim>\<open>bit_array\<close> is the storage itself; a nullspan has no bits.\<close>

definition bit_array :: "nat \<Rightarrow> signedness \<Rightarrow> normalization \<Rightarrow> 'a::len word list \<Rightarrow> 'a word bit_span" where
  "bit_array bits sig nrm limbs =
     \<lparr>bit_size = bits, signedness = sig, normal_type = nrm, data = limbs\<rparr>"

definition nullspan :: "'a::len word bit_span" where
  "nullspan = bit_array 0 Without_sign Unnormal []"

definition first_bits :: "'a::len word bit_span \<Rightarrow> nat \<Rightarrow> 'a word bit_span" where
  "first_bits b subspan_length =
     b\<lparr>bit_size := subspan_length,
       data := take (limb_size_for TYPE('a) subspan_length) (data b)\<rparr>"

definition first_limbs :: "'a::len word bit_span \<Rightarrow> nat \<Rightarrow> 'a word bit_span" where
  "first_limbs b subspan_length =
     (if subspan_length * LENGTH('a) < bit_size b
      then b\<lparr>bit_size := subspan_length * LENGTH('a), data := take subspan_length (data b)\<rparr>
      else b)"

definition last_limbs :: "'a::len word bit_span \<Rightarrow> nat \<Rightarrow> 'a word bit_span" where
  "last_limbs b subspan_length =
     (if subspan_length = 0 then b\<lparr>bit_size := 0, data := []\<rparr>
      else let offset = limb_size b - subspan_length
        in b\<lparr>bit_size := bit_size b - offset * LENGTH('a), data := drop offset (data b)\<rparr>)"

definition subspan_from :: "'a::len word bit_span \<Rightarrow> nat \<Rightarrow> 'a word bit_span" where
  "subspan_from b offset =
     (if offset * LENGTH('a) < bit_size b
      then b\<lparr>bit_size := bit_size b - offset * LENGTH('a), data := drop offset (data b)\<rparr>
      else b\<lparr>bit_size := 0, data := []\<rparr>)"

definition subspan :: "'a::len word bit_span \<Rightarrow> nat \<Rightarrow> nat \<Rightarrow> 'a word bit_span" where
  "subspan b offset subspan_length =
     (if subspan_length = 0 then b\<lparr>bit_size := 0, data := []\<rparr>
      else if subspan_length * LENGTH('a) < bit_size b - offset * LENGTH('a)
        then b\<lparr>bit_size := subspan_length * LENGTH('a), data := take subspan_length (drop offset (data b))\<rparr>
        else b\<lparr>bit_size := bit_size b - offset * LENGTH('a), data := drop offset (data b)\<rparr>)"

section \<open>Every type of view that can be read\<close>

datatype 'w rspan =
    Bits "'w bit_span"
  | Constant_limbs "'w list"
  | Masked "'w rspan" hbit
  | Selected "'w rspan" "'w rspan" hbit
  | Size_limbs nat hsize
  | Limb_span "'w list"

fun rspan_limb_size :: "'a::len word rspan \<Rightarrow> nat" where
  "rspan_limb_size (Bits b) = limb_size b"
| "rspan_limb_size (Constant_limbs limbs) = length limbs"
| "rspan_limb_size (Masked s m) = rspan_limb_size s"
| "rspan_limb_size (Selected f t c) = max (rspan_limb_size f) (rspan_limb_size t)"
| "rspan_limb_size (Size_limbs bits v) = limb_size_for TYPE('a) bits"
| "rspan_limb_size (Limb_span limbs) = length limbs"

fun constant_bit_size :: "'a::len word list \<Rightarrow> nat" where
  "constant_bit_size [] = 0"
| "constant_bit_size [x] = std_bit_width (unat x)"
| "constant_bit_size (x # y # xs) = LENGTH('a) + constant_bit_size (y # xs)"

fun rspan_bit_size :: "'a::len word rspan \<Rightarrow> nat" where
  "rspan_bit_size (Bits b) = bit_size b"
| "rspan_bit_size (Constant_limbs limbs) = constant_bit_size limbs"
| "rspan_bit_size (Masked s m) = rspan_bit_size s"
| "rspan_bit_size (Selected f t c) = max (rspan_bit_size f) (rspan_bit_size t)"
| "rspan_bit_size (Size_limbs bits v) = bits"
| "rspan_bit_size (Limb_span limbs) = length limbs * LENGTH('a)"

fun rspan_signedness :: "'w rspan \<Rightarrow> signedness" where
  "rspan_signedness (Bits b) = signedness b"
| "rspan_signedness (Constant_limbs limbs) = Without_sign"
| "rspan_signedness (Masked s m) = rspan_signedness s"
| "rspan_signedness (Selected f t c) = common_signedness (rspan_signedness f) (rspan_signedness t)"
| "rspan_signedness (Size_limbs bits v) = Without_sign"
| "rspan_signedness (Limb_span limbs) = Without_sign"

fun rspan_normal_type :: "'w rspan \<Rightarrow> normalization" where
  "rspan_normal_type (Bits b) = normal_type b"
| "rspan_normal_type (Constant_limbs limbs) = Normal"
| "rspan_normal_type (Masked s m) = rspan_normal_type s"
| "rspan_normal_type (Selected f t c) = common_normal (rspan_normal_type f) (rspan_normal_type t)"
| "rspan_normal_type (Size_limbs bits v) = Unnormal"
| "rspan_normal_type (Limb_span limbs) = Unnormal"

fun rspan_sign :: "'a::len word rspan \<Rightarrow> hbit arg" where
  "rspan_sign (Bits b) = span_sign b"
| "rspan_sign (Constant_limbs limbs) = Const 0"
| "rspan_sign (Masked s m) = core_select_bits (Const 0) (rspan_sign s) (Dyn m)"
| "rspan_sign (Selected f t c) = core_select_bits (rspan_sign f) (rspan_sign t) (Dyn c)"
| "rspan_sign (Size_limbs bits v) = Const 0"
| "rspan_sign (Limb_span limbs) = Const 0"

fun rspan_sign_mask :: "'a::len word eval \<Rightarrow> 'a word rspan \<Rightarrow> 'a word arg" where
  "rspan_sign_mask E (Bits b) = span_sign_mask b"
| "rspan_sign_mask E (Constant_limbs limbs) = Const 0"
| "rspan_sign_mask E (Masked s m) = core_select E (Const 0) (rspan_sign_mask E s) (Dyn m)"
| "rspan_sign_mask E (Selected f t c) = core_select E (rspan_sign_mask E f) (rspan_sign_mask E t) (Dyn c)"
| "rspan_sign_mask E (Size_limbs bits v) = Const 0"
| "rspan_sign_mask E (Limb_span limbs) = Const 0"

text \<open>One definition per view type and member function; the recursive functions after them dispatch on the type.\<close>

definition constant_read :: "'a::len word list \<Rightarrow> nat \<Rightarrow> 'a word arg" where
  [simp]: "constant_read limbs i = Const (limbs ! i)"

definition constant_extended_read :: "'a::len word list \<Rightarrow> nat \<Rightarrow> 'a word arg" where
  [simp]: "constant_extended_read limbs i = (if i < length limbs then constant_read limbs i else Const 0)"

definition masked_read :: "'a::len word eval \<Rightarrow> 'a word arg \<Rightarrow> hbit \<Rightarrow> 'a word arg" where
  [simp]: "masked_read E inner m = core_select E (Const 0) inner (Dyn m)"

definition select_read :: "'a::len word eval \<Rightarrow> 'a word arg \<Rightarrow> 'a word arg \<Rightarrow> hbit \<Rightarrow> 'a word arg" where
  [simp]: "select_read E false_limb true_limb choice =
     Dyn (dynamic_value (core_select E false_limb true_limb (Dyn choice)))"

definition select_extended_read ::
    "'a::len word eval \<Rightarrow> 'a word arg \<Rightarrow> 'a word arg \<Rightarrow> hbit \<Rightarrow> 'a word arg" where
  [simp]: "select_extended_read E false_limb true_limb choice = core_select E false_limb true_limb (Dyn choice)"

definition size_read :: "hsize \<Rightarrow> nat \<Rightarrow> 'a::len word arg" where
  [simp]: "size_read value i = Dyn (ucast (drop_bit (i * LENGTH('a)) value))"

definition size_extended_read :: "nat \<Rightarrow> hsize \<Rightarrow> nat \<Rightarrow> 'a::len word arg" where
  [simp]: "size_extended_read bits value i =
     (if i < limb_size_for TYPE('a) bits then size_read value i else Const 0)"

definition limb_read :: "'a::len word list \<Rightarrow> nat \<Rightarrow> 'a word arg" where
  [simp]: "limb_read limbs i = Dyn (limbs ! i)"

definition limb_extended_read :: "'a::len word list \<Rightarrow> nat \<Rightarrow> 'a word arg" where
  [simp]: "limb_extended_read limbs i = (if i < length limbs then limb_read limbs i else Const 0)"

fun extended_read :: "'a::len word eval \<Rightarrow> 'a word rspan \<Rightarrow> nat \<Rightarrow> normalization \<Rightarrow> 'a word arg" where
  "extended_read E (Bits b) i n = span_extended_read b i n"
| "extended_read E (Constant_limbs limbs) i n = constant_extended_read limbs i"
| "extended_read E (Masked s m) i n = masked_read E (extended_read E s i n) m"
| "extended_read E (Selected f t c) i n =
     select_extended_read E (extended_read E f i n) (extended_read E t i n) c"
| "extended_read E (Size_limbs bits v) i n = size_extended_read bits v i"
| "extended_read E (Limb_span limbs) i n = limb_extended_read limbs i"

fun rspan_read :: "'a::len word eval \<Rightarrow> 'a word rspan \<Rightarrow> nat \<Rightarrow> normalization \<Rightarrow> 'a word arg" where
  "rspan_read E (Bits b) i n = Dyn (span_read b i n)"
| "rspan_read E (Constant_limbs limbs) i n = constant_read limbs i"
| "rspan_read E (Masked s m) i n = masked_read E (rspan_read E s i n) m"
| "rspan_read E (Selected f t c) i n = select_read E (extended_read E f i n) (extended_read E t i n) c"
| "rspan_read E (Size_limbs bits v) i n = size_read v i"
| "rspan_read E (Limb_span limbs) i n = limb_read limbs i"

text \<open>The defaults of the last template argument: each view is read as its own type says.\<close>

definition get :: "'a::len word eval \<Rightarrow> 'a word rspan \<Rightarrow> nat \<Rightarrow> 'a word arg" where
  "get E s i = extended_read E s i (rspan_normal_type s)"

definition get_limb :: "'a::len word eval \<Rightarrow> 'a word rspan \<Rightarrow> nat \<Rightarrow> 'a word arg" where
  "get_limb E s i = rspan_read E s i (rspan_normal_type s)"

definition put :: "'a::len word bit_span \<Rightarrow> nat \<Rightarrow> 'a word arg \<Rightarrow> 'a word bit_span" where
  "put b i v = span_write b i v (normal_type b)"

section \<open>The contract of extended_read\<close>

locale limb_source =
  fixes valid :: "'s \<Rightarrow> bool"
    and rd :: "'s \<Rightarrow> nat \<Rightarrow> 'a::len word"
    and size_of :: "'s \<Rightarrow> nat"
    and negative :: "'s \<Rightarrow> bool"
  assumes beyond: "valid s \<Longrightarrow> size_of s \<le> i \<Longrightarrow> rd s i = (if negative s then - 1 else 0)"
begin

definition int_of :: "'s \<Rightarrow> int" where
  "int_of s = limbs_val (rd s) (size_of s) - (if negative s then 2 ^ (LENGTH('a) * size_of s) else 0)"

lemma limbs: "valid s \<Longrightarrow> limbs_val (rd s) k = int_of s mod 2 ^ (LENGTH('a) * k)"
  unfolding int_of_def using limbs_val_extend [of "size_of s" "rd s" "negative s" k] beyond by simp

lemma limb: "valid s \<Longrightarrow> rd s i = limb_of (int_of s) i"
proof -
  assume v: "valid s"
  have "rd s i = limb_of (limbs_val (rd s) (Suc i)) i" by (simp only: limb_of_limbs_val lessI)
  also have "\<dots> = limb_of (int_of s) i" by (simp only: limbs [OF v] limb_of_mod lessI)
  finally show ?thesis .
qed

lemma bit_int_of: "valid s \<Longrightarrow> bit (int_of s) (LENGTH('a) * i + j) \<longleftrightarrow> bit (rd s i) j" if "j < LENGTH('a)"
  using that by (simp add: limb limb_of_def bit_word_of_int_iff bit_drop_bit_eq add.commute
      flip: drop_bit_eq_div)

lemma int_of_bounds:
  "- (2 ^ (LENGTH('a) * size_of s)) \<le> int_of s" "int_of s < 2 ^ (LENGTH('a) * size_of s)"
proof -
  let ?V = "limbs_val (rd s) (size_of s)" and ?P = "2 ^ (LENGTH('a) * size_of s) :: int"
  have "0 \<le> ?V" "?V < ?P" "0 < ?P" by (simp_all add: limbs_val_less)
  then have "- ?P \<le> ?V - (if negative s then ?P else 0)" "?V - (if negative s then ?P else 0) < ?P"
    by (simp_all, linarith+)
  then show "- (2 ^ (LENGTH('a) * size_of s)) \<le> int_of s" "int_of s < 2 ^ (LENGTH('a) * size_of s)"
    unfolding int_of_def .
qed

text \<open>The limbs determine the integer, however many of them the views store.\<close>

lemma int_of_eqI:
  assumes "valid s" and "valid t" and "\<And>i. rd s i = rd t i"
  shows "int_of s = int_of t"
proof -
  define k where "k = Suc (max (size_of s) (size_of t))"
  let ?P = "2 ^ (LENGTH('a) * k) :: int"
  have half: "2 * 2 ^ (LENGTH('a) * size_of u) \<le> ?P" if "size_of u < k" for u
  proof -
    have "LENGTH('a) * Suc (size_of u) \<le> LENGTH('a) * k" using that by (intro mult_le_mono2) simp
    then have "Suc (LENGTH('a) * size_of u) \<le> LENGTH('a) * k"
      using len_gt_0 [where 'a = 'a] unfolding mult_Suc_right by linarith
    then have "(2::int) ^ Suc (LENGTH('a) * size_of u) \<le> ?P" by (rule power_increasing) simp
    then show ?thesis by simp
  qed
  have "int_of s mod ?P = int_of t mod ?P"
    using limbs [OF assms(1), of k] limbs [OF assms(2), of k] assms(3) by (simp cong: limbs_val_cong)
  then obtain q where q: "int_of s - int_of t = ?P * q"
    by (metis mod_eq_dvd_iff dvdE)
  moreover have "- ?P < int_of s - int_of t" "int_of s - int_of t < ?P"
  proof -
    have "2 * 2 ^ (LENGTH('a) * size_of s) \<le> ?P" "2 * 2 ^ (LENGTH('a) * size_of t) \<le> ?P"
      by (rule half, simp add: k_def)+
    then show "- ?P < int_of s - int_of t" "int_of s - int_of t < ?P"
      using int_of_bounds [of s] int_of_bounds [of t] by linarith+
  qed
  ultimately have "- 1 < q" "q < 1"
    using mult_less_cancel_left_pos [of ?P "- 1" q] mult_less_cancel_left_pos [of ?P q 1] by simp_all
  then have "q = 0" by simp
  with q show ?thesis by simp
qed

lemma int_of_nonneg: "\<not> negative s \<Longrightarrow> 0 \<le> int_of s"
  by (simp add: int_of_def)

lemma int_of_neg: "negative s \<Longrightarrow> int_of s < 0"
  using limbs_val_less [of "rd s" "size_of s"] by (simp add: int_of_def)

end

text \<open>
  The views of hmpc as sources of limbs, under any evaluation that satisfies the SYCL
  specification and for either normalization the reader asks for.
\<close>

definition view_valid :: "'a::len word eval \<times> 'a word rspan \<times> normalization \<Rightarrow> bool" where
  "view_valid = (\<lambda>(E, s, n). sycl_ok E)"

definition view_rd :: "'a::len word eval \<times> 'a word rspan \<times> normalization \<Rightarrow> nat \<Rightarrow> 'a word" where
  "view_rd = (\<lambda>(E, s, n) i. dynamic_value (extended_read E s i n))"

definition view_size :: "'a::len word eval \<times> 'a word rspan \<times> normalization \<Rightarrow> nat" where
  "view_size = (\<lambda>(E, s, n). rspan_limb_size s)"

definition view_negative :: "'a::len word eval \<times> 'a word rspan \<times> normalization \<Rightarrow> bool" where
  "view_negative = (\<lambda>(E, s, n). dynamic_value (rspan_sign s) = 1)"

lemma view_apply:
  "view_valid (E, s, n) = sycl_ok E"
  "view_rd (E, s, n) = (\<lambda>i. dynamic_value (extended_read E s i n))"
  "view_size (E, s, n) = rspan_limb_size s"
  "view_negative (E, s, n) = (dynamic_value (rspan_sign s) = 1)"
  by (simp_all add: view_valid_def view_rd_def view_size_def view_negative_def)

lemma dyn_span_sign_mask: "dynamic_value (span_sign_mask b) = mask_from (dynamic_value (span_sign b))"
  by (simp add: span_sign_def span_sign_mask_def)

lemma dyn_rspan_sign_mask:
  "sycl_ok E \<Longrightarrow> dynamic_value (rspan_sign_mask E s) = mask_from (dynamic_value (rspan_sign s))"
  by (induction s) (simp_all add: dyn_span_sign_mask dyn_select)

lemma extended_read_beyond:
  "sycl_ok E \<Longrightarrow> rspan_limb_size s \<le> i \<Longrightarrow>
   dynamic_value (extended_read E s i n) = mask_from (dynamic_value (rspan_sign s))"
  by (induction s) (simp_all add: dyn_select span_extended_read_def dyn_span_sign_mask)

interpretation view: limb_source view_valid view_rd view_size view_negative
  by unfold_locales
    (auto simp: view_valid_def view_rd_def view_size_def view_negative_def extended_read_beyond
      mask_from_eq)

text \<open>\<^verbatim>\<open>read\<close> and \<^verbatim>\<open>extended_read\<close> agree inside a view.\<close>

lemma dyn_rspan_read:
  "sycl_ok E \<Longrightarrow> i < rspan_limb_size s \<Longrightarrow>
   dynamic_value (rspan_read E s i n) = dynamic_value (extended_read E s i n)"
  by (induction s) (simp_all add: dyn_select span_extended_read_def)

text \<open>The integer a view is read as.\<close>

definition stream_int :: "'a::len word eval \<Rightarrow> 'a word rspan \<Rightarrow> normalization \<Rightarrow> int" where
  "stream_int E s n = limbs_val (\<lambda>i. dynamic_value (extended_read E s i n)) (rspan_limb_size s)
     - (if dynamic_value (rspan_sign s) = 1 then 2 ^ (LENGTH('a) * rspan_limb_size s) else 0)"

definition get_int :: "'a::len word eval \<Rightarrow> 'a word rspan \<Rightarrow> int" where
  "get_int E s = stream_int E s (rspan_normal_type s)"

lemma view_int_of: "view.int_of (E, s, n) = stream_int E s n"
  by (simp only: view.int_of_def)
    (simp add: stream_int_def view_rd_def view_size_def view_negative_def)

lemma limbs_val_extended_read:
  "sycl_ok E \<Longrightarrow> limbs_val (\<lambda>i. dynamic_value (extended_read E (s :: 'a::len word rspan) i n)) k
   = stream_int E s n mod 2 ^ (LENGTH('a) * k)"
  using view.limbs [of "(E, s, n)" k] by (simp add: view_int_of view_apply)

lemma limbs_val_get:
  "sycl_ok E \<Longrightarrow> limbs_val (\<lambda>i. dynamic_value (get E (s :: 'a::len word rspan) i)) k
   = get_int E s mod 2 ^ (LENGTH('a) * k)"
  unfolding get_def get_int_def by (rule limbs_val_extended_read)

lemma get_limb_of:
  "sycl_ok E \<Longrightarrow> dynamic_value (extended_read E s i n) = limb_of (stream_int E s n) i"
  using view.limb [of "(E, s, n)" i] by (simp add: view_int_of view_apply)

lemma stream_int_eqI:
  assumes "sycl_ok E"
    and "\<And>i. dynamic_value (extended_read E s i n) = dynamic_value (extended_read E t i m)"
  shows "stream_int E s n = stream_int E t m"
  using view.int_of_eqI [of "(E, s, n)" "(E, t, m)"] assms by (simp add: view_int_of view_apply)

lemma stream_int_nonneg: "dynamic_value (rspan_sign s) \<noteq> 1 \<Longrightarrow> 0 \<le> stream_int E s n"
  by (simp add: stream_int_def)

lemma stream_int_neg: "dynamic_value (rspan_sign s) = 1 \<Longrightarrow> stream_int E s n < 0"
  using view.int_of_neg [of "(E, s, n)"]
  by (simp only: view_int_of) (simp add: view_negative_def)

lemma rspan_sign_unsigned:
  "is_unsigned (rspan_signedness s) \<Longrightarrow> dynamic_value (rspan_sign s) = 0"
  by (induction s)
    (auto simp: span_sign_def is_unsigned_iff common_signedness_def split: if_splits)

lemma get_limb_of' [simp]:
  "sycl_ok E \<Longrightarrow> dynamic_value (get E s i) = limb_of (get_int E s) i"
  unfolding get_def get_int_def by (rule get_limb_of)

lemma stream_int_unsigned_nonneg:
  "is_unsigned (rspan_signedness s) \<Longrightarrow> 0 \<le> stream_int E s n"
  by (rule stream_int_nonneg) (simp add: rspan_sign_unsigned)

lemma get_int_unsigned_nonneg:
  "is_unsigned (rspan_signedness s) \<Longrightarrow> 0 \<le> get_int E s"
  unfolding get_int_def by (rule stream_int_unsigned_nonneg)

section \<open>Well-formed spans and the integers they denote\<close>

text \<open>Reduction of an integer to the bits of a span: what a result of this type can hold.\<close>

definition wrap :: "'w bit_span \<Rightarrow> int \<Rightarrow> int" where
  "wrap b x = (if is_signed (signedness b) then signed_take_bit (bit_size b - 1) x
    else take_bit (bit_size b) x)"

definition span_int :: "'a::len word bit_span \<Rightarrow> int" where
  "span_int b = wrap b (limbs_int (data b))"

definition in_range :: "'w bit_span \<Rightarrow> int \<Rightarrow> bool" where
  "in_range b x \<longleftrightarrow>
     (if is_signed (signedness b) then - (2 ^ (bit_size b - 1)) \<le> x \<and> x < 2 ^ (bit_size b - 1)
      else 0 \<le> x \<and> x < 2 ^ bit_size b)"

text \<open>No stray bits: the limbs are those of the integer, in two's complement.\<close>

definition span_normal :: "'a::len word bit_span \<Rightarrow> bool" where
  "span_normal b \<longleftrightarrow> limbs_int (data b) = span_int b mod 2 ^ (LENGTH('a) * limb_size b)"

definition span_shape :: "'a::len word bit_span \<Rightarrow> bool" where
  "span_shape b \<longleftrightarrow> length (data b) = limb_size b
     \<and> (is_signed (signedness b) \<longrightarrow> 0 < bit_size b)"

definition span_ok :: "'a::len word bit_span \<Rightarrow> bool" where
  "span_ok b \<longleftrightarrow> span_shape b \<and> (normal_type b = Normal \<longrightarrow> span_normal b)"

lemma wrap_eq_self: "in_range b x \<Longrightarrow> (is_signed (signedness b) \<Longrightarrow> 0 < bit_size b) \<Longrightarrow> wrap b x = x"
  by (auto simp: wrap_def in_range_def take_bit_int_eq_self signed_take_bit_int_eq_self split: if_splits)

lemma in_range_wrap: "in_range b (wrap b x)"
  by (auto simp: wrap_def in_range_def signed_take_bit_int_greater_eq_minus_exp
      signed_take_bit_int_less_exp)

lemma span_int_in_range: "in_range b (span_int b)"
  by (simp add: span_int_def in_range_wrap)

lemma wrap_cong:
  assumes "x mod 2 ^ n = y mod 2 ^ n" and "bit_size b \<le> n" and "is_signed (signedness b) \<Longrightarrow> 0 < bit_size b"
  shows "wrap b x = wrap b y"
proof -
  have "take_bit n x = take_bit n y" using assms(1) by (simp add: take_bit_eq_mod)
  then have t: "take_bit m x = take_bit m y" if "m \<le> n" for m
    using that by (metis min.absorb1 take_bit_take_bit)
  show ?thesis
  proof (cases "is_signed (signedness b)")
    case True
    with assms have "Suc (bit_size b - 1) \<le> n" by simp
    then have "take_bit (Suc (bit_size b - 1)) x = take_bit (Suc (bit_size b - 1)) y" by (rule t)
    then show ?thesis using True
      by (simp add: wrap_def signed_take_bit_eq_iff_take_bit_eq)
  next
    case False
    with t assms show ?thesis by (simp add: wrap_def)
  qed
qed

lemma bit_size_le_limbs: "bit_size b \<le> LENGTH('a) * limb_size (b :: 'a::len word bit_span)"
  by (simp add: limb_size_def limb_size_for_def div_ceil_le_mult)

lemma wrap_mod_limbs:
  assumes "is_signed (signedness b) \<Longrightarrow> 0 < bit_size b"
  shows "wrap b (x mod 2 ^ (LENGTH('a) * limb_size (b :: 'a::len word bit_span))) = wrap b x"
  by (rule wrap_cong [where n = "LENGTH('a) * limb_size b"]) (simp_all add: bit_size_le_limbs assms)

end
