(* ===== verification/Span_Write.thy ===== *)
theory Span_Write
  imports Span
begin

text \<open>
  What the loops of \<^verbatim>\<open>hmpc/core/num/\<close> leave in the memory of their result.

  Such a loop runs over the limbs of the result, computes a limb (and a carry) from what it reads,
  and writes it.  \<open>scan_put\<close> gives the memory after the loop, \<open>span_int_written\<close> the integer it
  denotes, \<open>span_ok_written\<close> that the result is well formed again, and \<open>get_int_Bits\<close> what a
  later reader of a well-formed span gets.
\<close>

section \<open>Well-formed spans are read as the integer they denote\<close>

lemma limb_size_update [simp]:
  "limb_size (b\<lparr>data := d\<rparr>) = limb_size (b :: 'a::len word bit_span)"
  by (simp add: limb_size_def)

lemma last_limb_bit_size_update [simp]:
  "last_limb_bit_size (b\<lparr>data := d\<rparr>) = last_limb_bit_size (b :: 'a::len word bit_span)"
  by (simp add: last_limb_bit_size_def)

lemma wrap_update [simp]: "wrap (b\<lparr>data := d\<rparr>) = wrap b"
  by (simp add: wrap_def fun_eq_iff)

lemma in_range_update [simp]: "in_range (b\<lparr>data := d\<rparr>) = in_range b"
  by (simp add: in_range_def fun_eq_iff)

lemma written_limb_update [simp]: "written_limb (b\<lparr>data := d\<rparr>) = written_limb b"
  by (simp add: written_limb_def fun_eq_iff)

lemma limb_size_pos: "0 < bit_size b \<Longrightarrow> 0 < limb_size (b :: 'a::len word bit_span)"
  by (simp add: limb_size_def limb_size_for_def div_ceil_pos_iff)

lemma last_bit_split:
  assumes "0 < bit_size (b :: 'a::len word bit_span)"
  shows "bit_size b = LENGTH('a) * (limb_size b - 1) + last_limb_bit_size b"
    and "0 < last_limb_bit_size b" and "last_limb_bit_size b \<le> LENGTH('a)"
    and "(bit_size b - 1) div LENGTH('a) = limb_size b - 1"
    and "(bit_size b - 1) mod LENGTH('a) = last_limb_bit_size b - 1"
proof -
  let ?L = "LENGTH('a)" and ?s = "bit_size b"
  have e: "?s = ?L * (?s div ?L) + ?s mod ?L" by simp
  have s0: "?s mod ?L = 0 \<Longrightarrow> 0 < ?s div ?L" using assms by (auto simp: div_greater_zero_iff dvd_imp_le)
  show s: "?s = ?L * (limb_size b - 1) + last_limb_bit_size b"
    using e s0 assms
    by (cases "?s mod ?L = 0")
      (auto simp: limb_size_def limb_size_for_def last_limb_bit_size_def last_limb_bit_size_for_def
        div_ceil_cases diff_mult_distrib2)
  show p: "0 < last_limb_bit_size b" and l: "last_limb_bit_size b \<le> ?L"
    using assms by (auto simp: last_limb_bit_size_def last_limb_bit_size_for_def)
  have s1: "?s - 1 = ?L * (limb_size b - 1) + (last_limb_bit_size b - 1)"
    using s p by linarith
  have lt: "last_limb_bit_size b - 1 < ?L" using p l by linarith
  show "(?s - 1) div ?L = limb_size b - 1" "(?s - 1) mod ?L = last_limb_bit_size b - 1"
    unfolding s1 using lt by simp_all
qed

lemma bit_limbs_int:
  "bit (limbs_int (xs :: 'a::len word list)) k
   \<longleftrightarrow> k < LENGTH('a) * length xs \<and> bit (xs ! (k div LENGTH('a))) (k mod LENGTH('a))"
  by (simp add: limbs_int_nth bit_limbs_val)

lemma span_sign_bit:
  assumes "span_shape b"
  shows "dynamic_value (span_sign b) = 1 \<longleftrightarrow> is_signed (signedness b) \<and> bit (limbs_int (data b)) (bit_size b - 1)"
proof (cases "is_signed (signedness b)")
  case True
  then have p: "0 < bit_size b" and len: "length (data b) = limb_size b"
    using assms by (simp_all add: span_shape_def)
  have "bit_size b - 1 < LENGTH('a) * limb_size b"
    using bit_size_le_limbs [of b] p by linarith
  with True p len show ?thesis
    using last_bit_split(4) [OF p] by (simp add: span_sign_def bit_limbs_int)
qed (simp add: span_sign_def)

lemma bit_top_nonneg: "0 \<le> x \<Longrightarrow> x < 2 ^ n \<Longrightarrow> \<not> bit (x :: int) n"
  using bit_take_bit_iff [of n x n] by (simp add: take_bit_int_eq_self)

lemma in_range_bit:
  assumes "in_range b x" and "is_signed (signedness b)" and "0 < bit_size b"
  shows "bit x (bit_size b - 1) \<longleftrightarrow> x < 0"
proof -
  have r: "- (2 ^ (bit_size b - 1)) \<le> x" "x < 2 ^ (bit_size b - 1)"
    using assms by (simp_all add: in_range_def)
  show ?thesis
  proof (cases "x < 0")
    case False
    then show ?thesis using bit_top_nonneg [of x "bit_size b - 1"] r(2) by simp
  next
    case True
    with r(1) have "\<not> bit (NOT x) (bit_size b - 1)"
      by (intro bit_top_nonneg) (simp_all add: not_int_def)
    with True show ?thesis by (simp add: bit_not_int_iff)
  qed
qed

lemma in_range_limbs:
  assumes "in_range (b :: 'a::len word bit_span) x" and "is_signed (signedness b) \<Longrightarrow> 0 < bit_size b"
  shows "x mod 2 ^ (LENGTH('a) * limb_size b) = x + (if x < 0 then 2 ^ (LENGTH('a) * limb_size b) else 0)"
proof -
  let ?P = "2 ^ (LENGTH('a) * limb_size b) :: int"
  have le: "(2::int) ^ bit_size b \<le> ?P" "(2::int) ^ (bit_size b - 1) \<le> ?P"
    by (rule power_increasing, use bit_size_le_limbs [of b] in linarith, simp)+
  have "- ?P \<le> x \<and> x < ?P"
  proof (cases "is_signed (signedness b)")
    case True
    then have "- (2 ^ (bit_size b - 1)) \<le> x" "x < 2 ^ (bit_size b - 1)"
      using assms(1) by (simp_all add: in_range_def)
    with le(2) show ?thesis by linarith
  next
    case False
    then have "0 \<le> x" "x < 2 ^ bit_size b" using assms(1) by (simp_all add: in_range_def)
    with le(1) show ?thesis by linarith
  qed
  then show ?thesis
    using mod_pos_pos_trivial [of x ?P] mod_pos_pos_trivial [of "x + ?P" ?P]
    by (cases "x < 0") simp_all
qed

lemma get_Bits:
  "get E (Bits b) i = (if i < limb_size b then Dyn (data b ! i) else span_sign_mask b)"
  by (simp add: get_def span_extended_read_def span_read_def)

lemma get_int_Bits:
  assumes "span_shape b" and "span_normal b"
  shows "get_int E (Bits b) = span_int b"
proof -
  let ?P = "2 ^ (LENGTH('a) * limb_size b) :: int"
  have len: "length (data b) = limb_size b" and p: "is_signed (signedness b) \<Longrightarrow> 0 < bit_size b"
    using assms(1) by (simp_all add: span_shape_def)
  have v: "limbs_val (\<lambda>i. dynamic_value (extended_read E (Bits b) i (normal_type b))) (limb_size b)
    = limbs_int (data b)"
    using get_Bits [of E b] by (auto simp: limbs_int_nth len get_def intro: limbs_val_cong)
  have "limbs_int (data b) = span_int b + (if span_int b < 0 then ?P else 0)"
    using assms(2) in_range_limbs [OF span_int_in_range p] by (simp add: span_normal_def)
  moreover have "dynamic_value (span_sign b) = 1 \<longleftrightarrow> span_int b < 0"
  proof (cases "is_signed (signedness b)")
    case True
    have "bit (limbs_int (data b)) (bit_size b - 1) \<longleftrightarrow> bit (span_int b) (bit_size b - 1)"
      using True p by (simp add: span_int_def wrap_def bit_signed_take_bit_iff)
    then show ?thesis
      using True p in_range_bit [OF span_int_in_range, of b] by (simp add: span_sign_bit [OF assms(1)])
  next
    case False
    then show ?thesis using span_int_in_range [of b] by (simp add: span_sign_def in_range_def)
  qed
  ultimately show ?thesis unfolding get_int_def stream_int_def rspan_normal_type.simps rspan_limb_size.simps v
    by simp
qed

lemma get_int_span_ok:
  assumes "span_ok b" and "normal_type b = Normal"
  shows "get_int E (Bits b) = span_int b"
  using assms get_int_Bits [of b E] by (simp add: span_ok_def)

section \<open>The result of a loop that writes every limb\<close>

definition span_written ::
    "'a::len word bit_span \<Rightarrow> (nat \<Rightarrow> 'a word arg) \<Rightarrow> normalization \<Rightarrow> 'a word bit_span" where
  "span_written b v n = b\<lparr>data := map (\<lambda>i. written_limb b i (v i) n) [0..<limb_size b]\<rparr>"

lemma scan_write:
  assumes "length (data b) = limb_size b" and "n \<le> limb_size b"
    and "\<And>i d c. i < n \<Longrightarrow> length d = limb_size b \<Longrightarrow> (\<forall>j<limb_size b. i \<le> j \<longrightarrow> d ! j = data b ! j)
      \<Longrightarrow> step i (b\<lparr>data := d\<rparr>, c) = (span_write (b\<lparr>data := d\<rparr>) i (f i c) m, k i c)"
  shows "scan_range n step (b, c)
    = (b\<lparr>data := map (\<lambda>i. written_limb b i (f i (carry_seq k c i)) m) [0..<n] @ drop n (data b)\<rparr>,
       carry_seq k c n)"
  using assms(2,3)
proof (induction n)
  case (Suc n)
  let ?w = "\<lambda>i. written_limb b i (f i (carry_seq k c i)) m"
  let ?d = "map ?w [0..<n] @ drop n (data b)"
  have n: "n < length (data b)" using Suc.prems(1) assms(1) by simp
  then have w: "?d[n := ?w n] = map ?w [0..<Suc n] @ drop (Suc n) (data b)"
    by (rule list_update_write_prefix)
  have "length ?d = limb_size b" "\<forall>j<limb_size b. n \<le> j \<longrightarrow> ?d ! j = data b ! j"
    using n assms(1) by (auto simp: nth_append)
  then have "step n (b\<lparr>data := ?d\<rparr>, carry_seq k c n)
    = (span_write (b\<lparr>data := ?d\<rparr>) n (f n (carry_seq k c n)) m, k n (carry_seq k c n))"
    by (intro Suc.prems(2)) simp_all
  moreover have "scan_range n step (b, c) = (b\<lparr>data := ?d\<rparr>, carry_seq k c n)"
    using Suc by simp
  ultimately have "scan_range (Suc n) step (b, c) = (b\<lparr>data := ?d[n := ?w n]\<rparr>, carry_seq k c (Suc n))"
    by (simp add: span_write_def)
  then show ?case unfolding w .
qed simp

lemma scan_put_ahead:
  assumes "length (data b) = limb_size b"
    and "\<And>i d c. i < limb_size b \<Longrightarrow> length d = limb_size b \<Longrightarrow> (\<forall>j<limb_size b. i \<le> j \<longrightarrow> d ! j = data b ! j)
      \<Longrightarrow> step i (b\<lparr>data := d\<rparr>, c) = (put (b\<lparr>data := d\<rparr>) i (f i c), k i c)"
  shows "scan_range (limb_size b) step (b, c)
    = (span_written b (\<lambda>i. f i (carry_seq k c i)) (normal_type b), carry_seq k c (limb_size b))"
  using scan_write [OF assms(1) order_refl, of step f "normal_type b" k c] assms
  by (simp add: put_def span_written_def)

lemma scan_put_in_place:
  assumes "length (data b) = limb_size b"
    and "\<And>i d c. i < limb_size b \<Longrightarrow> d ! i = data b ! i
      \<Longrightarrow> step i (b\<lparr>data := d\<rparr>, c) = (put (b\<lparr>data := d\<rparr>) i (f i c), k i c)"
  shows "scan_range (limb_size b) step (b, c)
    = (span_written b (\<lambda>i. f i (carry_seq k c i)) (normal_type b), carry_seq k c (limb_size b))"
  using assms by (intro scan_put_ahead) simp_all

lemma scan_put:
  assumes "length (data b) = limb_size b"
    and "\<And>i r c. i < limb_size b \<Longrightarrow> step i (r, c) = (put r i (f i c), k i c)"
  shows "scan_range (limb_size b) step (b, c)
    = (span_written b (\<lambda>i. f i (carry_seq k c i)) (normal_type b), carry_seq k c (limb_size b))"
  using assms by (intro scan_put_in_place) simp_all

text \<open>The same without a value carried from limb to limb.\<close>

lemma for_put_ahead:
  assumes "length (data b) = limb_size b"
    and "\<And>i d. i < limb_size b \<Longrightarrow> length d = limb_size b \<Longrightarrow> (\<forall>j<limb_size b. i \<le> j \<longrightarrow> d ! j = data b ! j)
      \<Longrightarrow> step i (b\<lparr>data := d\<rparr>) = put (b\<lparr>data := d\<rparr>) i (f i)"
  shows "for_range (limb_size b) step b = span_written b f (normal_type b)"
proof -
  have "scan_range n (\<lambda>i (r, c). (step i r, ())) (b, ()) = (for_range n step b, ())" for n
    by (induction n) simp_all
  with scan_put_ahead [OF assms(1), of "\<lambda>i (r, c). (step i r, ())" "\<lambda>i _. f i" "\<lambda>_ _. ()" "()"] assms(2)
  show ?thesis by simp
qed

lemma for_put_in_place:
  assumes "length (data b) = limb_size b"
    and "\<And>i d. i < limb_size b \<Longrightarrow> d ! i = data b ! i
      \<Longrightarrow> step i (b\<lparr>data := d\<rparr>) = put (b\<lparr>data := d\<rparr>) i (f i)"
  shows "for_range (limb_size b) step b = span_written b f (normal_type b)"
  using assms by (intro for_put_ahead) simp_all

lemma for_put:
  assumes "length (data b) = limb_size b"
    and "\<And>i r. i < limb_size b \<Longrightarrow> step i r = put r i (f i)"
  shows "for_range (limb_size b) step b = span_written b f (normal_type b)"
  using assms by (intro for_put_in_place) simp_all

text \<open>A loop that runs downwards may still read the limbs below the one it writes.\<close>

lemma for_reverse_put:
  assumes "length (data b) = limb_size b"
    and "\<And>i d. i < limb_size b \<Longrightarrow> length d = limb_size b \<Longrightarrow> (\<forall>j\<le>i. d ! j = data b ! j)
      \<Longrightarrow> step i (b\<lparr>data := d\<rparr>) = put (b\<lparr>data := d\<rparr>) i (f i)"
  shows "for_reverse_range (limb_size b) step b = span_written b f (normal_type b)"
proof -
  let ?w = "\<lambda>i. written_limb b i (f i) (normal_type b)"
  have "for_reverse_range n step (b\<lparr>data := take n (data b) @ map ?w [n..<limb_size b]\<rparr>)
    = b\<lparr>data := map ?w [0..<limb_size b]\<rparr>" if "n \<le> limb_size b" for n
    using that
  proof (induction n)
    case (Suc n)
    let ?d = "take (Suc n) (data b) @ map ?w [Suc n..<limb_size b]"
    have n: "n < length (data b)" "n < limb_size b" using Suc.prems assms(1) by simp_all
    have "length ?d = limb_size b" "\<forall>j\<le>n. ?d ! j = data b ! j" using n assms(1) by (auto simp: nth_append)
    then have "step n (b\<lparr>data := ?d\<rparr>) = put (b\<lparr>data := ?d\<rparr>) n (f n)"
      using n by (intro assms(2)) simp_all
    also have "\<dots> = b\<lparr>data := take n (data b) @ map ?w [n..<limb_size b]\<rparr>"
      using n by (simp add: put_def span_write_def take_Suc_conv_app_nth list_update_append upt_conv_Cons)
    finally show ?case using Suc by simp
  qed simp
  from this [OF order_refl] show ?thesis using assms(1) by (simp add: span_written_def)
qed

lemma span_written_sel [simp]:
  "bit_size (span_written b v n) = bit_size b"
  "signedness (span_written b v n) = signedness b"
  "normal_type (span_written b v n) = normal_type b"
  "limb_size (span_written b v n) = limb_size b"
  "length (data (span_written b v n)) = limb_size b"
  by (simp_all add: span_written_def)

lemma span_shape_written: "span_shape b \<Longrightarrow> span_shape (span_written b v n)"
  by (simp add: span_shape_def)

text \<open>Normalization only touches the bits beyond the size of the span.\<close>

lemma bit_written_limb:
  assumes "i < limb_size (b :: 'a::len word bit_span)" and "j < LENGTH('a)"
    and "i = limb_size b - 1 \<Longrightarrow> j < last_limb_bit_size b"
  shows "bit (written_limb b i v n) j \<longleftrightarrow> bit (dynamic_value v) j"
proof (cases "i = limb_size b - 1")
  case True
  have p: "0 < bit_size b" using assms(1) by (cases "bit_size b = 0") (auto simp: limb_size_def limb_size_for_def)
  note sp = last_bit_split [OF p]
  have "bit_size b - 1 < bit_size b" using p by simp
  then show ?thesis
    using True assms sp(2,3)
    by (auto simp: written_limb_def Let_def core_extend_sign_bit_def bit_extend_sign bit_take_bit_iff)
qed (simp add: written_limb_def)

lemma limb_size_0_iff: "limb_size (b :: 'a::len word bit_span) = 0 \<longleftrightarrow> bit_size b = 0"
proof
  show "limb_size b = 0 \<Longrightarrow> bit_size b = 0" using limb_size_pos [of b] by (cases "bit_size b") auto
  show "bit_size b = 0 \<Longrightarrow> limb_size b = 0" by (simp add: limb_size_def limb_size_for_def)
qed

lemma bit_index:
  assumes "k < bit_size (b :: 'a::len word bit_span)"
  shows "k div LENGTH('a) < limb_size b"
    and "k div LENGTH('a) = limb_size b - 1 \<Longrightarrow> k mod LENGTH('a) < last_limb_bit_size b"
proof -
  have p: "0 < bit_size b" using assms by simp
  have e: "k = LENGTH('a) * (k div LENGTH('a)) + k mod LENGTH('a)" by simp
  show "k div LENGTH('a) < limb_size b"
    using assms bit_size_le_limbs [of b] by (intro less_mult_imp_div_less) (simp add: mult.commute)
  show "k mod LENGTH('a) < last_limb_bit_size b" if "k div LENGTH('a) = limb_size b - 1"
  proof -
    have "k = LENGTH('a) * (limb_size b - 1) + k mod LENGTH('a)" using e that by simp
    then show ?thesis using assms last_bit_split(1) [OF p] by linarith
  qed
qed

lemma take_bit_written:
  "take_bit (bit_size b) (limbs_int (data (span_written b v n)))
   = take_bit (bit_size b) (limbs_val (\<lambda>i. dynamic_value (v i)) (limb_size (b :: 'a::len word bit_span)))"
proof (rule bit_eqI)
  fix k
  have d: "limbs_int (data (span_written b v n)) = limbs_val (\<lambda>i. written_limb b i (v i) n) (limb_size b)"
    by (simp add: span_written_def limbs_int_map)
  show "bit (take_bit (bit_size b) (limbs_int (data (span_written b v n)))) k
    = bit (take_bit (bit_size b) (limbs_val (\<lambda>i. dynamic_value (v i)) (limb_size b))) k"
    using bit_index [of k b] bit_written_limb [of "k div LENGTH('a)" b "k mod LENGTH('a)"]
    by (auto simp: bit_take_bit_iff bit_limbs_val d)
qed

lemma span_int_written:
  assumes "is_signed (signedness b) \<Longrightarrow> 0 < bit_size b"
  shows "span_int (span_written b v n)
    = wrap b (limbs_val (\<lambda>i. dynamic_value (v i)) (limb_size (b :: 'a::len word bit_span)))"
proof -
  have "wrap (span_written b v n) = wrap b" by (simp add: wrap_def fun_eq_iff)
  moreover have "wrap b (limbs_int (data (span_written b v n)))
    = wrap b (limbs_val (\<lambda>i. dynamic_value (v i)) (limb_size b))"
    using take_bit_written [of b v n] assms
    by (intro wrap_cong [of _ "bit_size b"]) (simp_all add: take_bit_eq_mod)
  ultimately show ?thesis by (simp add: span_int_def)
qed

text \<open>When the limbs are those of an integer, the result is this integer in the type of the result.\<close>

lemma span_int_written_mod:
  assumes "is_signed (signedness b) \<Longrightarrow> 0 < bit_size b"
    and "limbs_val (\<lambda>i. dynamic_value (v i)) (limb_size b) mod 2 ^ (LENGTH('a) * limb_size b)
      = x mod 2 ^ (LENGTH('a) * limb_size (b :: 'a::len word bit_span))"
  shows "span_int (span_written b v n) = wrap b x"
proof -
  have "wrap b (limbs_val (\<lambda>i. dynamic_value (v i)) (limb_size b)) = wrap b x"
    using assms by (intro wrap_cong [of _ "LENGTH('a) * limb_size b"]) (simp_all add: bit_size_le_limbs)
  then show ?thesis by (simp add: span_int_written assms(1))
qed

text \<open>
  The result of an unsigned type is normal whatever was written; the result of a signed type is
  normal when the written limbs are those of an integer the type holds.
\<close>

lemma written_unsigned_normal:
  assumes "is_unsigned (signedness b)" and "n = Normal"
  shows "limbs_int (data (span_written b v n)) = take_bit (bit_size b) (limbs_int (data (span_written b v n)))"
proof (rule bit_eqI)
  fix k
  let ?x = "limbs_int (data (span_written b v n))"
  have "\<not> bit ?x k" if "bit_size b \<le> k"
  proof (cases "k < LENGTH('a) * limb_size b")
    case True
    then have "limb_size b \<noteq> 0" by (cases "limb_size b") simp_all
    then have p: "0 < bit_size b" using limb_size_0_iff [of b] by simp
    have e: "k = LENGTH('a) * (k div LENGTH('a)) + k mod LENGTH('a)" by simp
    have lt: "k div LENGTH('a) < limb_size b" using True by (simp add: less_mult_imp_div_less mult.commute)
    have m: "k mod LENGTH('a) < LENGTH('a)" by simp
    have "k div LENGTH('a) = limb_size b - 1"
    proof (rule ccontr)
      assume "k div LENGTH('a) \<noteq> limb_size b - 1"
      with lt have "Suc (k div LENGTH('a)) \<le> limb_size b - 1" by linarith
      then have "LENGTH('a) * Suc (k div LENGTH('a)) \<le> LENGTH('a) * (limb_size b - 1)" by (rule mult_le_mono2)
      then show False
        using that last_bit_split(1,2) [OF p] e m by (simp only: mult_Suc_right)
    qed
    moreover from this have "last_limb_bit_size b \<le> k mod LENGTH('a)"
      using that e last_bit_split(1) [OF p] by simp
    moreover have "written_limb b (limb_size b - 1) x n = take_bit (last_limb_bit_size b) (dynamic_value x)" for x
      using assms last_bit_split(3) [OF p] by (simp add: written_limb_def is_unsigned_iff)
    ultimately show ?thesis using lt
      by (simp add: span_written_def limbs_int_map bit_limbs_val bit_take_bit_iff)
  qed (simp add: span_written_def limbs_int_map bit_limbs_val)
  then show "bit ?x k = bit (take_bit (bit_size b) ?x) k"
    by (cases "bit_size b \<le> k") (auto simp: bit_take_bit_iff)
qed

lemma span_ok_written_unsigned:
  assumes "is_unsigned (signedness b)"
  shows "span_ok (span_written b v (normal_type b))"
proof -
  have "span_normal (span_written b v (normal_type b))" if n: "normal_type b = Normal"
  proof -
    let ?x = "limbs_int (data (span_written b v Normal))"
    have "span_int (span_written b v Normal) = ?x"
      using written_unsigned_normal [OF assms refl, of v] assms
      by (simp add: span_int_def wrap_def is_unsigned_iff)
    moreover have "?x mod 2 ^ (LENGTH('a) * limb_size b) = ?x"
      using limbs_int_less [of "data (span_written b v Normal)"] by simp
    ultimately show ?thesis by (simp add: span_normal_def n)
  qed
  with assms show ?thesis by (simp add: span_ok_def span_shape_def is_unsigned_iff)
qed

lemma written_signed_id:
  assumes "is_signed (signedness b)" and "0 < bit_size b" and "in_range b x"
    and "limbs_val (\<lambda>i. dynamic_value (v i)) (limb_size b) = x mod 2 ^ (LENGTH('a) * limb_size b)"
    and "i < limb_size (b :: 'a::len word bit_span)"
  shows "written_limb b i (v i) n = dynamic_value (v i)"
proof (cases "i = limb_size b - 1")
  case True
  note sp = last_bit_split [OF assms(2)]
  let ?w = "dynamic_value (v i)"
  have bits: "bit ?w j \<longleftrightarrow> bit x (LENGTH('a) * i + j)" if "j < LENGTH('a)" for j
  proof -
    have lt: "LENGTH('a) * i + j < LENGTH('a) * limb_size b"
    proof -
      have "LENGTH('a) * i + j < LENGTH('a) * Suc i" using that by simp
      also have "\<dots> \<le> LENGTH('a) * limb_size b" using assms(5) by (intro mult_le_mono2) simp
      finally show ?thesis .
    qed
    have "bit ?w j \<longleftrightarrow> bit (limbs_val (\<lambda>i. dynamic_value (v i)) (limb_size b)) (LENGTH('a) * i + j)"
      using lt that by (simp add: bit_limbs_val)
    also have "\<dots> \<longleftrightarrow> bit x (LENGTH('a) * i + j)"
      unfolding assms(4) using lt by (simp add: bit_take_bit_iff flip: take_bit_eq_mod)
    finally show ?thesis .
  qed
  have top: "bit x k \<longleftrightarrow> bit x (bit_size b - 1)" if "bit_size b - 1 \<le> k" for k
  proof -
    have "signed_take_bit (bit_size b - 1) x = x"
      using assms(1,3) by (intro signed_take_bit_int_eq_self) (simp_all add: in_range_def)
    then have "bit x k \<longleftrightarrow> bit x (min k (bit_size b - 1))" 
      using bit_signed_take_bit_iff [of "bit_size b - 1" x k] by (simp add: min.commute)
    with that show ?thesis by (simp add: min_def)
  qed
  have e: "LENGTH('a) * i + (last_limb_bit_size b - 1) = bit_size b - 1"
    using sp(1,2) True by simp
  have lst: "last_limb_bit_size b - 1 < LENGTH('a)" using sp(2,3) by linarith
  have sign: "bit ?w (last_limb_bit_size b - 1) \<longleftrightarrow> bit x (bit_size b - 1)"
    using bits [OF lst] e by simp
  have high: "bit ?w j" if "bit x (bit_size b - 1)" "last_limb_bit_size b \<le> j" "j < LENGTH('a)" for j
    using bits [OF that(3)] top [of "LENGTH('a) * i + j"] that e by simp
  let ?sign = "core_extract_bit (v i) (last_limb_bit_size b - 1)"
  have "dynamic_value (core_extend_sign_bit (v i) ?sign (last_limb_bit_size b)) = ?w"
  proof (rule bit_word_eqI)
    fix j assume j: "j < LENGTH('a)"
    have m: "bit (mask_from (dynamic_value ?sign) :: 'a word) j \<longleftrightarrow> bit x (bit_size b - 1)"
      using lst sign j by (simp add: mask_from_eq)
    show "bit (dynamic_value (core_extend_sign_bit (v i) ?sign (last_limb_bit_size b))) j = bit ?w j"
      using high [OF _ _ j] unfolding core_extend_sign_bit_def bit_extend_sign [OF sp(3,2)]
        dynamic_value_map_arg m by blast
  qed
  then show ?thesis
    using sp(5) True assms(1) by (simp add: written_limb_def Let_def)
qed (simp add: written_limb_def)

lemma span_ok_written_signed:
  assumes "is_signed (signedness b)" and "0 < bit_size b" and "in_range b x"
    and "limbs_val (\<lambda>i. dynamic_value (v i)) (limb_size b) = x mod 2 ^ (LENGTH('a) * limb_size b)"
  shows "span_ok (span_written (b :: 'a::len word bit_span) v n)"
proof -
  have "limbs_int (data (span_written b v n)) = x mod 2 ^ (LENGTH('a) * limb_size b)"
    using written_signed_id [OF assms] assms(4)
    by (simp add: span_written_def limbs_int_map cong: limbs_val_cong)
  moreover have "span_int (span_written b v n) = x"
    using assms span_int_written_mod [of b v x n] by (simp add: wrap_eq_self)
  ultimately show ?thesis
    using assms(2) by (simp add: span_ok_def span_shape_def span_normal_def)
qed

text \<open>One rule for both signednesses.\<close>

lemma span_ok_written:
  assumes "is_signed (signedness b) \<Longrightarrow> 0 < bit_size b \<and> in_range b x"
    and "limbs_val (\<lambda>i. dynamic_value (v i)) (limb_size b) = x mod 2 ^ (LENGTH('a) * limb_size b)"
  shows "span_ok (span_written (b :: 'a::len word bit_span) v (normal_type b))"
  using assms span_ok_written_signed [of b x v "normal_type b"] span_ok_written_unsigned [of b v]
  by (cases "is_signed (signedness b)") (simp_all add: is_unsigned_iff)

section \<open>Storing an integer\<close>

text \<open>
  The specification of every operation with a result: \<open>store b x\<close> is the memory \<open>b\<close> after the
  integer \<open>x\<close> has been written to it, limb after limb.  The functional theorems on
  \<^verbatim>\<open>hmpc/core/num/\<close> are equations \<open>operation b \<dots> = store b x\<close>.
\<close>

definition store :: "'a::len word bit_span \<Rightarrow> int \<Rightarrow> 'a word bit_span" where
  "store b x = span_written b (\<lambda>i. Dyn (limb_of x i)) (normal_type b)"

lemma written_limb_dyn:
  assumes "dynamic_value v = dynamic_value w" and "i < limb_size (b :: 'a::len word bit_span)"
  shows "written_limb b i v n = written_limb b i w n"
proof (cases "i = limb_size b - 1")
  case True
  have p: "0 < bit_size b" using assms(2) limb_size_0_iff [of b] by (cases "bit_size b") auto
  note sp = last_bit_split [OF p]
  have lt: "last_limb_bit_size b - 1 < LENGTH('a)" using sp(2,3) by linarith
  have "dynamic_value (core_extend_sign_bit v (core_extract_bit v (last_limb_bit_size b - 1)) (last_limb_bit_size b))
    = dynamic_value (core_extend_sign_bit w (core_extract_bit w (last_limb_bit_size b - 1)) (last_limb_bit_size b))"
    unfolding core_extend_sign_bit_def
    by (rule bit_word_eqI)
      (simp only: bit_extend_sign [OF sp(3,2)] dynamic_value_map_arg dyn_extract_bit [OF lt] assms(1))
  moreover have "dynamic_value (core_mask_inside v (last_limb_bit_size b))
    = dynamic_value (core_mask_inside w (last_limb_bit_size b))"
    using sp(3) assms(1) by simp
  ultimately show ?thesis
    unfolding written_limb_def Let_def sp(5) assms(1) by simp
qed (simp add: written_limb_def assms(1))

lemma store_limbI:
  assumes "\<And>i. i < limb_size b \<Longrightarrow> dynamic_value (v i) = limb_of x i"
  shows "span_written b v (normal_type b) = store (b :: 'a::len word bit_span) x"
  using written_limb_dyn [of "v _" "Dyn (limb_of x _)" _ b "normal_type b"] assms
  by (simp add: store_def span_written_def)

lemma store_valI:
  assumes "limbs_val (\<lambda>i. dynamic_value (v i)) (limb_size b) = x mod 2 ^ (LENGTH('a) * limb_size b)"
  shows "span_written b v (normal_type b) = store (b :: 'a::len word bit_span) x"
proof (rule store_limbI)
  fix i assume i: "i < limb_size b"
  show "dynamic_value (v i) = limb_of x i"
    using limb_of_limbs_val [OF i, of "\<lambda>i. dynamic_value (v i)"] limb_of_mod [OF i, of x, where 'a = 'a] assms
    by simp
qed

lemma store_sel [simp]:
  "bit_size (store b x) = bit_size b"
  "signedness (store b x) = signedness b"
  "normal_type (store b x) = normal_type b"
  "limb_size (store b x) = limb_size b"
  "length (data (store b x)) = limb_size b"
  by (simp_all add: store_def)

lemma store_cong:
  "x mod 2 ^ (LENGTH('a) * limb_size b) = y mod 2 ^ (LENGTH('a) * limb_size b)
   \<Longrightarrow> store (b :: 'a::len word bit_span) x = store b y"
  unfolding store_def [of b x] by (rule store_valI) (simp add: limbs_val_limb_of)

lemma store_mod [simp]:
  "store (b :: 'a::len word bit_span) (x mod 2 ^ (LENGTH('a) * limb_size b)) = store b x"
  by (rule store_cong) simp

lemma store_data [simp]: "store (b\<lparr>data := d\<rparr>) x = store b x"
  by (simp add: store_def span_written_def)

lemma store_store [simp]: "store (store b y) x = store b x"
  by (simp add: store_def [of b y] span_written_def)

lemma span_shape_store: "span_shape b \<Longrightarrow> span_shape (store b x)"
  by (simp add: span_shape_def)

lemma span_int_store:
  assumes "span_shape b"
  shows "span_int (store b x) = wrap b x"
  unfolding store_def
  by (rule span_int_written_mod) (use assms in \<open>simp_all add: span_shape_def limbs_val_limb_of\<close>)

lemma span_ok_store:
  assumes "span_shape b" and "is_signed (signedness b) \<Longrightarrow> in_range b x"
  shows "span_ok (store b x)"
  unfolding store_def
  by (rule span_ok_written [where x = x]) (use assms in \<open>simp_all add: span_shape_def limbs_val_limb_of\<close>)

lemma span_int_store_eq:
  "span_shape b \<Longrightarrow> in_range b x \<Longrightarrow> span_int (store b x) = x"
  by (simp add: span_int_store wrap_eq_self span_shape_def)

text \<open>Reading back what was stored.\<close>

lemma span_normal_store:
  assumes "span_shape b" and "in_range b x"
  shows "span_normal (store (b :: 'a::len word bit_span) x)"
proof (cases "is_signed (signedness b) \<or> normal_type b = Normal")
  case True
  then show ?thesis
  proof
    assume s: "is_signed (signedness b)"
    then have p: "0 < bit_size b" using assms(1) by (simp add: span_shape_def)
    have "limbs_int (data (store b x)) = x mod 2 ^ (LENGTH('a) * limb_size b)"
      using written_signed_id [OF s p assms(2), of "\<lambda>i. Dyn (limb_of x i)"]
      by (simp add: store_def span_written_def limbs_int_map limbs_val_limb_of cong: limbs_val_cong)
    then show ?thesis by (simp add: span_normal_def span_int_store_eq [OF assms])
  next
    assume "normal_type b = Normal"
    with span_ok_store [OF assms(1)] assms(2) show ?thesis by (simp add: span_ok_def)
  qed
next
  case False
  then have "normal_type b = Unnormal" by (cases "normal_type b") simp_all
  with False have "written_limb b i v Unnormal = dynamic_value v" for i v
    by (simp add: written_limb_def)
  then have "limbs_int (data (store b x)) = x mod 2 ^ (LENGTH('a) * limb_size b)"
    using \<open>normal_type b = Unnormal\<close>
    by (simp add: store_def span_written_def limbs_int_map limbs_val_limb_of)
  then show ?thesis by (simp add: span_normal_def span_int_store_eq [OF assms])
qed

lemma get_int_store:
  "span_shape b \<Longrightarrow> in_range b x \<Longrightarrow> get_int E (Bits (store b x)) = x"
  using get_int_Bits [of "store b x" E]
  by (simp add: span_shape_store span_normal_store span_int_store_eq)

text \<open>A span that is not normalized holds every limb of the integer.\<close>

lemma get_int_mod:
  assumes "length (data b) = limb_size (b :: 'a::len word bit_span)"
  shows "get_int E (Bits b) mod 2 ^ (LENGTH('a) * limb_size b) = limbs_int (data b)"
proof -
  have "limbs_val (\<lambda>i. dynamic_value (extended_read E (Bits b) i (normal_type b))) (limb_size b)
    = limbs_int (data b)"
    using get_Bits [of E b] by (auto simp: limbs_int_nth assms get_def intro: limbs_val_cong)
  then have "get_int E (Bits b) = limbs_int (data b)
      - (if dynamic_value (span_sign b) = 1 then 2 ^ (LENGTH('a) * limb_size b) else 0)"
    by (simp add: get_int_def stream_int_def del: extended_read.simps)
  then have "get_int E (Bits b) mod 2 ^ (LENGTH('a) * limb_size b)
      = limbs_int (data b) mod 2 ^ (LENGTH('a) * limb_size b)"
    using minus_mod_self2 [of "limbs_int (data b)" "2 ^ (LENGTH('a) * limb_size b)"]
    by (cases "dynamic_value (span_sign b) = 1") simp_all
  with limbs_int_less [of "data b"] show ?thesis by (simp add: assms)
qed

lemma limbs_int_store_unnormal:
  assumes "normal_type b = Unnormal"
  shows "limbs_int (data (store b x)) = x mod 2 ^ (LENGTH('a) * limb_size (b :: 'a::len word bit_span))"
proof -
  have "written_limb b i v Unnormal = dynamic_value v" for i v
    using assms by (simp add: written_limb_def)
  then show ?thesis
    by (simp add: store_def span_written_def limbs_int_map limbs_val_limb_of assms)
qed

lemma get_int_store_unnormal:
  assumes "normal_type b = Unnormal"
  shows "get_int E (Bits (store b x)) mod 2 ^ (LENGTH('a) * limb_size b)
    = x mod 2 ^ (LENGTH('a) * limb_size (b :: 'a::len word bit_span))"
  using get_int_mod [of "store b x" E] by (simp add: limbs_int_store_unnormal assms)

lemma get_int_store_raw:
  assumes "normal_type b = Unnormal" and "is_unsigned (signedness b)"
  shows "get_int E (Bits (store b x)) = x mod 2 ^ (LENGTH('a) * limb_size (b :: 'a::len word bit_span))"
proof -
  have "0 \<le> get_int E (Bits (store b x))"
    by (rule get_int_unsigned_nonneg) (simp add: assms)
  moreover have "get_int E (Bits (store b x)) < 2 ^ (LENGTH('a) * limb_size b)"
    using limbs_val_less [of "\<lambda>i. dynamic_value (extended_read E (Bits (store b x)) i (normal_type b))" "limb_size b"]
    by (simp add: get_int_def stream_int_def span_sign_def assms(2) [unfolded is_unsigned_iff] del: extended_read.simps)
  ultimately show ?thesis using get_int_store_unnormal [OF assms(1), of E x] by simp
qed

section \<open>The integer a view denotes\<close>

text \<open>
  \<open>rspan_int\<close> is the integer a view stands for, without a reader; \<open>rspan_ok\<close> says that the spans in
  it have no stray bits.  A reader of such a view gets the limbs of this integer.
\<close>

fun rspan_int :: "'a::len word rspan \<Rightarrow> int" where
  "rspan_int (Bits b) = span_int b"
| "rspan_int (Constant_limbs limbs) = limbs_int limbs"
| "rspan_int (Masked s m) = (if m = 1 then rspan_int s else 0)"
| "rspan_int (Selected f t c) = (if c = 1 then rspan_int t else rspan_int f)"
| "rspan_int (Size_limbs bits v) = uint v mod 2 ^ (LENGTH('a) * limb_size_for TYPE('a) bits)"
| "rspan_int (Limb_span limbs) = limbs_int limbs"

fun rspan_ok :: "'a::len word rspan \<Rightarrow> bool" where
  "rspan_ok (Bits b) \<longleftrightarrow> span_shape b \<and> span_normal b"
| "rspan_ok (Constant_limbs limbs) \<longleftrightarrow> True"
| "rspan_ok (Masked s m) \<longleftrightarrow> rspan_ok s"
| "rspan_ok (Selected f t c) \<longleftrightarrow> rspan_ok f \<and> rspan_ok t"
| "rspan_ok (Size_limbs bits v) \<longleftrightarrow> True"
| "rspan_ok (Limb_span limbs) \<longleftrightarrow> True"

lemma span_read_normal:
  assumes "span_shape b" and "span_normal b" and "i < limb_size (b :: 'a::len word bit_span)"
  shows "span_read b i n = data b ! i"
proof (cases "normal_type b = Normal \<or> n = Unnormal \<or> i \<noteq> limb_size b - 1")
  case True
  then show ?thesis by (auto simp: span_read_def)
next
  case False
  then have n: "n = Normal" "normal_type b \<noteq> Normal" "i = limb_size b - 1" by (cases n; simp)+
  have len: "length (data b) = limb_size b" using assms(1) by (simp add: span_shape_def)
  have p: "0 < bit_size b" using assms(3) limb_size_0_iff [of b] by (cases "bit_size b") auto
  show ?thesis
  proof (cases "is_signed (signedness b)")
    case True
    have "limbs_val (\<lambda>i. dynamic_value (Dyn (data b ! i))) (limb_size b)
      = span_int b mod 2 ^ (LENGTH('a) * limb_size b)"
      using assms(2) by (simp add: span_normal_def limbs_int_nth len)
    from written_signed_id [OF True p span_int_in_range this assms(3), of Normal]
    have "written_limb b i (Dyn (data b ! i)) Normal = data b ! i" by simp
    then show ?thesis
      using True n by (simp add: span_read_def written_limb_def Let_def span_sign_mask_def core_extend_sign_bit_def)
  next
    case False
    have "take_bit (last_limb_bit_size b) (data b ! i) = data b ! i"
    proof (rule bit_word_eqI)
      fix j assume j: "j < LENGTH('a)"
      have "\<not> bit (data b ! i) j" if "last_limb_bit_size b \<le> j"
      proof -
        let ?k = "LENGTH('a) * i + j"
        have k: "bit_size b \<le> ?k" using last_bit_split(1) [OF p] that unfolding n(3) by linarith
        have s: "limbs_int (data b) = take_bit (LENGTH('a) * limb_size b) (take_bit (bit_size b) (limbs_int (data b)))"
          using assms(2) False by (simp add: span_normal_def span_int_def wrap_def take_bit_eq_mod)
        have "\<not> bit (limbs_int (data b)) ?k" by (subst s) (use k in \<open>simp add: bit_take_bit_iff\<close>)
        moreover have "?k < LENGTH('a) * limb_size b"
        proof -
          have "?k < LENGTH('a) * Suc i" using j by simp
          also have "\<dots> \<le> LENGTH('a) * limb_size b" using assms(3) by (intro mult_le_mono2) simp
          finally show ?thesis .
        qed
        ultimately show ?thesis using j by (simp add: bit_limbs_int len)
      qed
      then show "bit (take_bit (last_limb_bit_size b) (data b ! i)) j = bit (data b ! i) j"
        by (cases "last_limb_bit_size b \<le> j") (auto simp: bit_take_bit_iff)
    qed
    with False n show ?thesis using last_bit_split(3) [OF p] by (simp add: span_read_def)
  qed
qed

lemma stream_int_Bits:
  assumes "sycl_ok E" and "span_shape b" and "span_normal b"
  shows "stream_int E (Bits b) n = span_int b"
proof -
  have "stream_int E (Bits b) n = stream_int E (Bits b) (normal_type b)"
    by (rule stream_int_eqI) (simp_all add: assms span_extended_read_def span_read_normal)
  also have "\<dots> = span_int b" using get_int_Bits [OF assms(2,3)] by (simp add: get_int_def)
  finally show ?thesis .
qed

lemma stream_int_rspan_int:
  "sycl_ok E \<Longrightarrow> rspan_ok s \<Longrightarrow> stream_int E (s :: 'a::len word rspan) n = rspan_int s"
proof (induction s arbitrary: n)
  case (Bits b)
  then show ?case by (simp add: stream_int_Bits)
next
  case (Constant_limbs limbs)
  have "limbs_val (\<lambda>i. dynamic_value (extended_read E (Constant_limbs limbs) i n)) (length limbs) = limbs_int limbs"
    unfolding limbs_int_nth by (rule limbs_val_cong) simp
  then show ?case by (simp add: stream_int_def del: extended_read.simps)
next
  case (Masked s m)
  show ?case
  proof (cases "m = 1")
    case True
    have "stream_int E (Masked s m) n = stream_int E s n"
      by (rule stream_int_eqI) (simp_all add: Masked dyn_select True)
    with Masked True show ?thesis by simp
  next
    case False
    have "stream_int E (Masked s m) n = stream_int E (Constant_limbs []) n"
      by (rule stream_int_eqI) (simp_all add: Masked dyn_select False)
    with False show ?thesis by (simp add: stream_int_def)
  qed
next
  case (Selected f t c)
  have "stream_int E (Selected f t c) n = stream_int E (if c = 1 then t else f) n"
    by (rule stream_int_eqI) (simp_all add: Selected dyn_select)
  with Selected show ?case by simp
next
  case (Size_limbs bits v)
  have "limbs_val (\<lambda>i. dynamic_value (extended_read E (Size_limbs bits v) i n)) (limb_size_for TYPE('a) bits)
    = limbs_val (limb_of (uint v) :: nat \<Rightarrow> 'a word) (limb_size_for TYPE('a) bits)"
    by (rule limbs_val_cong) (simp, rule bit_word_eqI, auto simp: limb_of_def bit_word_of_int_iff
        bit_ucast_iff bit_drop_bit_eq bit_uint_iff mult.commute add.commute dest: bit_imp_le_length
        simp flip: drop_bit_eq_div)
  then show ?case by (simp add: stream_int_def limbs_val_limb_of del: extended_read.simps)
next
  case (Limb_span limbs)
  have "limbs_val (\<lambda>i. dynamic_value (extended_read E (Limb_span limbs) i n)) (length limbs) = limbs_int limbs"
    unfolding limbs_int_nth by (rule limbs_val_cong) simp
  then show ?case by (simp add: stream_int_def del: extended_read.simps)
qed

lemma get_int_rspan_int:
  "sycl_ok E \<Longrightarrow> rspan_ok s \<Longrightarrow> get_int E s = rspan_int s"
  unfolding get_int_def by (rule stream_int_rspan_int)

text \<open>A span whose size is a whole number of limbs.\<close>

lemma get_int_full:
  assumes "is_unsigned (signedness b)" and "bit_size b = LENGTH('a) * limb_size b"
    and "length (data b) = limb_size (b :: 'a::len word bit_span)"
  shows "span_shape b" "span_normal b" "span_int b = limbs_int (data b)"
proof -
  show "span_shape b" using assms by (simp add: span_shape_def is_unsigned_iff)
  show i: "span_int b = limbs_int (data b)"
    using assms limbs_int_less [of "data b"]
    by (simp add: span_int_def wrap_def is_unsigned_iff take_bit_int_eq_self)
  show "span_normal b" unfolding span_normal_def i using limbs_int_less [of "data b"] assms(3) by simp
qed

text \<open>Sample operands for evaluation: unsigned integers of whole 8-bit limbs.\<close>

definition sample :: "8 word list \<Rightarrow> 8 word bit_span" where
  "sample limbs = bit_array (8 * length limbs) Without_sign Normal limbs"

lemma sample_ok [simp]:
  "span_shape (sample limbs)" "span_normal (sample limbs)" "span_int (sample limbs) = limbs_int limbs"
  "limb_size (sample limbs) = length limbs" "length (data (sample limbs)) = length limbs"
  "bit_size (sample limbs) = 8 * length limbs" "signedness (sample limbs) = Without_sign"
  "normal_type (sample limbs) = Normal"
proof -
  have 8: "8 = LENGTH(8)" by simp
  show s: "bit_size (sample limbs) = 8 * length limbs" "signedness (sample limbs) = Without_sign"
    "normal_type (sample limbs) = Normal"
    by (simp_all add: sample_def bit_array_def)
  have l: "limb_size (sample limbs) = length limbs"
    unfolding limb_size_def limb_size_for_def s by (subst 8, simp only: div_ceil_mult len_gt_0)
  have d: "data (sample limbs) = limbs" by (simp add: sample_def bit_array_def)
  show "limb_size (sample limbs) = length limbs" "length (data (sample limbs)) = length limbs"
    by (simp_all add: l d)
  show "span_shape (sample limbs)" "span_normal (sample limbs)" "span_int (sample limbs) = limbs_int limbs"
    using get_int_full [of "sample limbs"] s l d by (simp_all add: is_unsigned_def)
qed

section \<open>Chains of carries\<close>

text \<open>
  A loop whose steps satisfy \<open>limb + B * new_carry = summands + carry\<close> satisfies the same
  equation as a whole.
\<close>

lemma mod_sum: "(a mod p + b mod p + c) mod p = (a + b + c) mod (p :: int)"
  by (metis mod_add_eq mod_add_left_eq)

lemma mod_difference: "(a mod p - b mod p - c) mod p = (a - b - c) mod (p :: int)"
  by (metis mod_diff_eq mod_diff_left_eq)

lemma chain_step:
  fixes V :: int
  assumes "P * (s + B * D) = P * (l + \<sigma> * r + C)" and "V + P * C = L + \<sigma> * R + C0"
  shows "V + s * P + P * B * D = L + l * P + \<sigma> * (R + r * P) + C0"
  using assms by algebra

lemma limbs_val_chain:
  assumes "\<And>i. i < n \<Longrightarrow> uint (s i) + 2 ^ LENGTH('a) * C (Suc i)
      = uint (l i :: 'a word) + \<sigma> * uint (r i :: 'a word) + C i"
  shows "limbs_val (s :: nat \<Rightarrow> 'a::len word) n + 2 ^ (LENGTH('a) * n) * C n
    = limbs_val l n + \<sigma> * limbs_val r n + C 0"
  using assms
proof (induction n)
  case (Suc n)
  let ?P = "2 ^ (LENGTH('a) * n) :: int"
  have P: "2 ^ (LENGTH('a) * Suc n) = ?P * (2 ^ LENGTH('a) :: int)" by (simp add: power_add mult.commute)
  have "?P * (uint (s n) + 2 ^ LENGTH('a) * C (Suc n)) = ?P * (uint (l n) + \<sigma> * uint (r n) + C n)"
    using Suc.prems [of n] by simp
  moreover have "limbs_val s n + ?P * C n = limbs_val l n + \<sigma> * limbs_val r n + C 0"
    using Suc by simp
  ultimately show ?case unfolding P limbs_val.simps by (rule chain_step)
qed simp

end
