(* ===== verification/Num_Arith.thy ===== *)
theory Num_Arith
  imports Span_Write
begin

text \<open>
  Addition, subtraction, negation, the bitwise operations, selection and copying of
  \<^verbatim>\<open>hmpc/core/num/\<close>.

  Each operation is the loop of the code over the limbs of the result (and, for \<^verbatim>\<open>add\<close> and
  \<^verbatim>\<open>subtract\<close>, a carry from limb to limb).  Each is proved to store the integer it should: for
  results of any size and signedness, for operands of any view type and size, and for both carries.
  The \<open>_assign\<close> variants have the result as their left operand, the way the compound assignments of
  \<^verbatim>\<open>hmpc/ints/uint.hpp\<close> and the modular addition of \<^verbatim>\<open>hmpc/ints/mod.hpp\<close> call them;
  they are proved to agree with the ones that read their operands from elsewhere.
\<close>

section \<open>The operations\<close>

definition num_add ::
    "'a::len word eval \<Rightarrow> 'a word bit_span \<Rightarrow> 'a word rspan \<Rightarrow> 'a word rspan \<Rightarrow> hbit arg
     \<Rightarrow> 'a word bit_span \<times> hbit arg" where
  "num_add E result left right carry =
     scan_range (limb_size result)
       (\<lambda>i (result, carry).
          let res = core_extended_add_carry (get E left i) (get E right i) carry
          in (put result i (add_sum res), add_carry res))
       (result, carry)"

definition num_subtract ::
    "'a::len word eval \<Rightarrow> 'a word bit_span \<Rightarrow> 'a word rspan \<Rightarrow> 'a word rspan \<Rightarrow> hbit arg
     \<Rightarrow> 'a word bit_span \<times> hbit arg" where
  "num_subtract E result left right borrow =
     scan_range (limb_size result)
       (\<lambda>i (result, borrow).
          let res = core_subtract_borrow (get E left i) (get E right i) borrow
          in (put result i (sub_difference res), sub_borrow res))
       (result, borrow)"

definition num_bit_and ::
    "'a::len word eval \<Rightarrow> 'a word bit_span \<Rightarrow> 'a word rspan \<Rightarrow> 'a word rspan \<Rightarrow> 'a word bit_span" where
  "num_bit_and E result left right =
     for_range (limb_size result)
       (\<lambda>i result. put result i (core_bit_and (get E left i) (get E right i))) result"

definition num_bit_or ::
    "'a::len word eval \<Rightarrow> 'a word bit_span \<Rightarrow> 'a word rspan \<Rightarrow> 'a word rspan \<Rightarrow> 'a word bit_span" where
  "num_bit_or E result left right =
     for_range (limb_size result)
       (\<lambda>i result. put result i (core_bit_or (get E left i) (get E right i))) result"

definition num_bit_xor ::
    "'a::len word eval \<Rightarrow> 'a word bit_span \<Rightarrow> 'a word rspan \<Rightarrow> 'a word rspan \<Rightarrow> 'a word bit_span" where
  "num_bit_xor E result left right =
     for_range (limb_size result)
       (\<lambda>i result. put result i (core_bit_xor (get E left i) (get E right i))) result"

definition num_bit_not ::
    "'a::len word eval \<Rightarrow> 'a word bit_span \<Rightarrow> 'a word rspan \<Rightarrow> 'a word bit_span" where
  "num_bit_not E result value =
     for_range (limb_size result) (\<lambda>i result. put result i (core_bit_not (get E value i))) result"

definition num_bit_copy ::
    "'a::len word eval \<Rightarrow> 'a word bit_span \<Rightarrow> 'a word rspan \<Rightarrow> 'a word bit_span" where
  "num_bit_copy E result value =
     for_range (limb_size result) (\<lambda>i result. put result i (get E value i)) result"

definition num_select ::
    "'a::len word eval \<Rightarrow> 'a word bit_span \<Rightarrow> 'a word rspan \<Rightarrow> 'a word rspan \<Rightarrow> hbit arg
     \<Rightarrow> 'a word bit_span" where
  "num_select E result false_value true_value choice =
     for_range (limb_size result)
       (\<lambda>i result. put result i (core_select E (get E false_value i) (get E true_value i) choice)) result"

text \<open>\<open>garbage\<close> is the memory of a local array, which the code does not initialize.\<close>

definition num_negate ::
    "'a::len word eval \<Rightarrow> 'a word list \<Rightarrow> 'a word bit_span \<Rightarrow> 'a word rspan \<Rightarrow> 'a word bit_span" where
  "num_negate E garbage result value =
     (let intermediate_result = num_bit_not E
            (bit_array (bit_size result) (signedness result) Unnormal garbage) value
      in fst (num_add E result (Bits intermediate_result) (Bits nullspan) (Const 1)))"

section \<open>The result as left operand\<close>

definition num_add_assign ::
    "'a::len word eval \<Rightarrow> 'a word bit_span \<Rightarrow> 'a word rspan \<Rightarrow> hbit arg \<Rightarrow> 'a word bit_span \<times> hbit arg" where
  "num_add_assign E result right carry =
     scan_range (limb_size result)
       (\<lambda>i (result, carry).
          let res = core_extended_add_carry (get E (Bits result) i) (get E right i) carry
          in (put result i (add_sum res), add_carry res))
       (result, carry)"

definition num_subtract_assign ::
    "'a::len word eval \<Rightarrow> 'a word bit_span \<Rightarrow> 'a word rspan \<Rightarrow> hbit arg \<Rightarrow> 'a word bit_span \<times> hbit arg" where
  "num_subtract_assign E result right borrow =
     scan_range (limb_size result)
       (\<lambda>i (result, borrow).
          let res = core_subtract_borrow (get E (Bits result) i) (get E right i) borrow
          in (put result i (sub_difference res), sub_borrow res))
       (result, borrow)"

definition num_select_assign ::
    "'a::len word eval \<Rightarrow> 'a word bit_span \<Rightarrow> 'a word rspan \<Rightarrow> hbit arg \<Rightarrow> 'a word bit_span" where
  "num_select_assign E result true_value choice =
     for_range (limb_size result)
       (\<lambda>i result. put result i (core_select E (get E (Bits result) i) (get E true_value i) choice)) result"

section \<open>What addition and subtraction store\<close>

abbreviation modulus_of :: "'a::len word bit_span \<Rightarrow> int" where
  "modulus_of b \<equiv> 2 ^ (LENGTH('a) * limb_size b)"

lemma num_add_eq:
  assumes "sycl_ok E" and "length (data b) = limb_size (b :: 'a::len word bit_span)"
  shows "fst (num_add E b l r c) = store b (get_int E l + get_int E r + uint (dynamic_value c))"
    and "uint (dynamic_value (snd (num_add E b l r c)))
      = (get_int E l mod modulus_of b + get_int E r mod modulus_of b + uint (dynamic_value c)) div modulus_of b"
proof -
  let ?res = "\<lambda>i c. core_extended_add_carry (get E l i) (get E r i) c"
  let ?c = "carry_seq (\<lambda>i c. add_carry (?res i c)) c"
  let ?v = "\<lambda>i. add_sum (?res i (?c i))"
  have run: "num_add E b l r c = (span_written b ?v (normal_type b), ?c (limb_size b))"
    unfolding num_add_def using assms(2)
    by (intro scan_put [where f = "\<lambda>i c. add_sum (?res i c)"]) (simp_all add: Let_def)
  have "limbs_val (\<lambda>i. dynamic_value (?v i)) (limb_size b) + modulus_of b * uint (dynamic_value (?c (limb_size b)))
    = limbs_val (\<lambda>i. dynamic_value (get E l i)) (limb_size b)
      + 1 * limbs_val (\<lambda>i. dynamic_value (get E r i)) (limb_size b) + uint (dynamic_value (?c 0))"
    by (rule limbs_val_chain) (use add_exact_carry in \<open>simp add: add_exact_def\<close>)
  then have sum: "limbs_val (\<lambda>i. dynamic_value (?v i)) (limb_size b)
      + modulus_of b * uint (dynamic_value (?c (limb_size b)))
    = get_int E l mod modulus_of b + get_int E r mod modulus_of b + uint (dynamic_value c)"
    by (simp add: limbs_val_get [OF assms(1)])
  have "limbs_val (\<lambda>i. dynamic_value (?v i)) (limb_size b)
    = (get_int E l mod modulus_of b + get_int E r mod modulus_of b + uint (dynamic_value c)) mod modulus_of b"
    unfolding sum [symmetric] by (simp add: mod_mult_self2)
  also have "\<dots> = (get_int E l + get_int E r + uint (dynamic_value c)) mod modulus_of b"
    by (rule mod_sum)
  finally show "fst (num_add E b l r c) = store b (get_int E l + get_int E r + uint (dynamic_value c))"
    unfolding run fst_conv by (rule store_valI)
  show "uint (dynamic_value (snd (num_add E b l r c)))
      = (get_int E l mod modulus_of b + get_int E r mod modulus_of b + uint (dynamic_value c)) div modulus_of b"
    unfolding run snd_conv sum [symmetric]
    using limbs_val_less [of "\<lambda>i. dynamic_value (?v i)" "limb_size b"] by (simp add: div_pos_pos_trivial)
qed

lemma num_subtract_eq:
  assumes "sycl_ok E" and "length (data b) = limb_size (b :: 'a::len word bit_span)"
  shows "fst (num_subtract E b l r c) = store b (get_int E l - get_int E r - uint (dynamic_value c))"
    and "uint (dynamic_value (snd (num_subtract E b l r c)))
      = - ((get_int E l mod modulus_of b - get_int E r mod modulus_of b - uint (dynamic_value c)) div modulus_of b)"
proof -
  let ?res = "\<lambda>i c. core_subtract_borrow (get E l i) (get E r i) c"
  let ?c = "carry_seq (\<lambda>i c. sub_borrow (?res i c)) c"
  let ?v = "\<lambda>i. sub_difference (?res i (?c i))"
  have run: "num_subtract E b l r c = (span_written b ?v (normal_type b), ?c (limb_size b))"
    unfolding num_subtract_def using assms(2)
    by (intro scan_put [where f = "\<lambda>i c. sub_difference (?res i c)"]) (simp_all add: Let_def)
  have step: "uint (dynamic_value (sub_difference (?res i c))) + 2 ^ LENGTH('a) * - uint (dynamic_value (sub_borrow (?res i c)))
    = uint (dynamic_value (get E l i)) + - 1 * uint (dynamic_value (get E r i)) + - uint (dynamic_value c)" for i c
    using sub_exact_borrow [of "get E l i" "get E r i" c] by (simp add: sub_exact_def)
  have "limbs_val (\<lambda>i. dynamic_value (?v i)) (limb_size b)
      + modulus_of b * - uint (dynamic_value (?c (limb_size b)))
    = limbs_val (\<lambda>i. dynamic_value (get E l i)) (limb_size b)
      + - 1 * limbs_val (\<lambda>i. dynamic_value (get E r i)) (limb_size b) + - uint (dynamic_value (?c 0))"
    by (rule limbs_val_chain) (simp only: carry_seq.simps step)
  then have diff: "limbs_val (\<lambda>i. dynamic_value (?v i)) (limb_size b)
      + modulus_of b * - uint (dynamic_value (?c (limb_size b)))
    = get_int E l mod modulus_of b - get_int E r mod modulus_of b - uint (dynamic_value c)"
    by (simp add: limbs_val_get [OF assms(1)])
  have "limbs_val (\<lambda>i. dynamic_value (?v i)) (limb_size b)
    = (get_int E l mod modulus_of b - get_int E r mod modulus_of b - uint (dynamic_value c)) mod modulus_of b"
    unfolding diff [symmetric] mod_mult_self2 by simp
  also have "\<dots> = (get_int E l - get_int E r - uint (dynamic_value c)) mod modulus_of b"
    by (rule mod_difference)
  finally show "fst (num_subtract E b l r c) = store b (get_int E l - get_int E r - uint (dynamic_value c))"
    unfolding run fst_conv by (rule store_valI)
  have "(limbs_val (\<lambda>i. dynamic_value (?v i)) (limb_size b)
      + modulus_of b * - uint (dynamic_value (?c (limb_size b)))) div modulus_of b
    = - uint (dynamic_value (?c (limb_size b)))"
    using limbs_val_less [of "\<lambda>i. dynamic_value (?v i)" "limb_size b"]
    unfolding div_mult_self2 [OF power_not_zero [OF zero_neq_numeral [symmetric]]]
    by (simp add: div_pos_pos_trivial)
  then show "uint (dynamic_value (snd (num_subtract E b l r c)))
      = - ((get_int E l mod modulus_of b - get_int E r mod modulus_of b - uint (dynamic_value c)) div modulus_of b)"
    unfolding run snd_conv diff by simp
qed

section \<open>What the limb-wise operations store\<close>

lemma limb_of_and: "limb_of (x AND y) i = (limb_of x i AND limb_of y i :: 'a::len word)"
  and limb_of_or: "limb_of (x OR y) i = (limb_of x i OR limb_of y i :: 'a::len word)"
  and limb_of_xor: "limb_of (x XOR y) i = (limb_of x i XOR limb_of y i :: 'a::len word)"
  and limb_of_not: "limb_of (NOT x) i = (NOT (limb_of x i) :: 'a::len word)"
  by (rule bit_word_eqI,
      simp add: limb_of_def bit_word_of_int_iff bit_and_iff bit_or_iff bit_xor_iff bit_not_iff bit_drop_bit_eq
        flip: drop_bit_eq_div)+

lemma num_bitwise_eq:
  assumes "sycl_ok E" and "length (data b) = limb_size (b :: 'a::len word bit_span)"
  shows "num_bit_and E b l r = store b (get_int E l AND get_int E r)"
    and "num_bit_or E b l r = store b (get_int E l OR get_int E r)"
    and "num_bit_xor E b l r = store b (get_int E l XOR get_int E r)"
    and "num_bit_not E b l = store b (NOT (get_int E l))"
    and "num_bit_copy E b l = store b (get_int E l)"
  unfolding num_bit_and_def num_bit_or_def num_bit_xor_def num_bit_not_def num_bit_copy_def
    for_put [OF assms(2) refl]
  by (rule store_limbI, simp add: assms(1) limb_of_and limb_of_or limb_of_xor limb_of_not)+

lemma num_select_eq:
  assumes "sycl_ok E" and "length (data b) = limb_size (b :: 'a::len word bit_span)"
  shows "num_select E b f t c = store b (if dynamic_value c = 1 then get_int E t else get_int E f)"
  unfolding num_select_def for_put [OF assms(2) refl]
  by (rule store_limbI) (simp add: assms(1) dyn_select)

lemma get_int_nullspan [simp]: "get_int E (Bits nullspan) = 0"
  by (simp add: get_int_def stream_int_def nullspan_def bit_array_def span_sign_def limb_size_def limb_size_for_def)

lemma num_negate_eq:
  assumes "sycl_ok E" and "length (data b) = limb_size (b :: 'a::len word bit_span)"
    and "length garbage = limb_size b"
  shows "num_negate E garbage b v = store b (- get_int E v)"
proof -
  let ?a = "bit_array (bit_size b) (signedness b) Unnormal garbage"
  let ?i = "num_bit_not E ?a v"
  have s: "limb_size ?a = limb_size b" "length (data ?a) = limb_size ?a"
    by (simp_all add: bit_array_def limb_size_def assms(3) [unfolded limb_size_def])
  have i: "?i = store ?a (NOT (get_int E v))" by (rule num_bitwise_eq(4) [OF assms(1) s(2)])
  have "normal_type ?a = Unnormal" by (simp add: bit_array_def)
  from get_int_store_unnormal [OF this, of E "NOT (get_int E v)"]
  have "get_int E (Bits ?i) mod modulus_of b = NOT (get_int E v) mod modulus_of b"
    by (simp only: i s(1))
  then have "(get_int E (Bits ?i) + 1) mod modulus_of b = (NOT (get_int E v) + 1) mod modulus_of b"
    by (metis mod_add_left_eq)
  then have "store b (get_int E (Bits ?i) + 1) = store b (- get_int E v)"
    by (intro store_cong) (simp add: not_int_def)
  then show ?thesis
    by (simp add: num_negate_def num_add_eq(1) [OF assms(1,2)])
qed

section \<open>The in-place operations\<close>

text \<open>
  A limb of the result is read before it is written, and never read again: working in place gives
  what reading an untouched copy of the left operand gives.
\<close>

lemma num_add_assign_eq:
  assumes "length (data b) = limb_size (b :: 'a::len word bit_span)"
  shows "num_add_assign E b r c = num_add E b (Bits b) r c"
proof -
  let ?res = "\<lambda>i c. core_extended_add_carry (get E (Bits b) i) (get E r i) c"
  have "num_add_assign E b r c
    = (span_written b (\<lambda>i. add_sum (?res i (carry_seq (\<lambda>i c. add_carry (?res i c)) c i))) (normal_type b),
       carry_seq (\<lambda>i c. add_carry (?res i c)) c (limb_size b))"
    unfolding num_add_assign_def using assms
    by (intro scan_put_in_place [where f = "\<lambda>i c. add_sum (?res i c)"]) (simp_all add: Let_def get_Bits)
  moreover have "num_add E b (Bits b) r c
    = (span_written b (\<lambda>i. add_sum (?res i (carry_seq (\<lambda>i c. add_carry (?res i c)) c i))) (normal_type b),
       carry_seq (\<lambda>i c. add_carry (?res i c)) c (limb_size b))"
    unfolding num_add_def using assms
    by (intro scan_put [where f = "\<lambda>i c. add_sum (?res i c)"]) (simp_all add: Let_def)
  ultimately show ?thesis by simp
qed

lemma num_subtract_assign_eq:
  assumes "length (data b) = limb_size (b :: 'a::len word bit_span)"
  shows "num_subtract_assign E b r c = num_subtract E b (Bits b) r c"
proof -
  let ?res = "\<lambda>i c. core_subtract_borrow (get E (Bits b) i) (get E r i) c"
  have "num_subtract_assign E b r c
    = (span_written b (\<lambda>i. sub_difference (?res i (carry_seq (\<lambda>i c. sub_borrow (?res i c)) c i))) (normal_type b),
       carry_seq (\<lambda>i c. sub_borrow (?res i c)) c (limb_size b))"
    unfolding num_subtract_assign_def using assms
    by (intro scan_put_in_place [where f = "\<lambda>i c. sub_difference (?res i c)"]) (simp_all add: Let_def get_Bits)
  moreover have "num_subtract E b (Bits b) r c
    = (span_written b (\<lambda>i. sub_difference (?res i (carry_seq (\<lambda>i c. sub_borrow (?res i c)) c i))) (normal_type b),
       carry_seq (\<lambda>i c. sub_borrow (?res i c)) c (limb_size b))"
    unfolding num_subtract_def using assms
    by (intro scan_put [where f = "\<lambda>i c. sub_difference (?res i c)"]) (simp_all add: Let_def)
  ultimately show ?thesis by simp
qed

lemma num_select_assign_eq:
  assumes "length (data b) = limb_size (b :: 'a::len word bit_span)"
  shows "num_select_assign E b t c = num_select E b (Bits b) t c"
  unfolding num_select_def for_put [OF assms refl] num_select_assign_def using assms
  by (intro for_put_in_place) (simp_all add: get_Bits)

section \<open>Properties\<close>

lemma store_facts:
  assumes "span_shape b"
  shows "span_int (store b x) = wrap b x"
    and "in_range b x \<Longrightarrow> span_int (store b x) = x \<and> span_ok (store b x)"
    and "is_unsigned (signedness b) \<Longrightarrow> span_ok (store b x)"
proof -
  show "span_int (store b x) = wrap b x" by (rule span_int_store [OF assms])
  show "in_range b x \<Longrightarrow> span_int (store b x) = x \<and> span_ok (store b x)"
    using assms by (simp add: span_int_store_eq span_ok_store)
  show "is_unsigned (signedness b) \<Longrightarrow> span_ok (store b x)"
    by (rule span_ok_store [OF assms]) (simp add: is_unsigned_iff)
qed

text \<open>Addition stores the sum of the two operands and the carry, reduced to the type of the result;
  when the type can hold the sum the result denotes it and has no stray bits, an unsigned result never
  has any; the carry that is returned is the quotient by the size of the result's limbs, for any
  signedness and size of the operands and of the result, on the host and on a device.\<close>

theorem num_add_correct:
  assumes "sycl_ok E" and "span_shape b" and "rspan_ok l" and "rspan_ok r"
  shows "span_int (fst (num_add E b l r c)) = wrap b (rspan_int l + rspan_int r + uint (dynamic_value c))
    \<and> (in_range b (rspan_int l + rspan_int r + uint (dynamic_value c))
        \<longrightarrow> span_int (fst (num_add E b l r c)) = rspan_int l + rspan_int r + uint (dynamic_value c)
          \<and> span_ok (fst (num_add E b l r c)))
    \<and> (is_unsigned (signedness b) \<longrightarrow> span_ok (fst (num_add E b l r c)))
    \<and> uint (dynamic_value (snd (num_add E b l r c)))
      = (rspan_int l mod modulus_of b + rspan_int r mod modulus_of b + uint (dynamic_value c)) div modulus_of b"
proof -
  have "length (data b) = limb_size b" using assms(2) by (simp add: span_shape_def)
  note eq = num_add_eq [OF assms(1) this, of l r c, unfolded get_int_rspan_int [OF assms(1,3)] get_int_rspan_int [OF assms(1,4)]]
  show ?thesis unfolding eq using store_facts [OF assms(2)] by simp
qed

theorem num_add_correct_witness:
  "span_int (fst (num_add sycl_device (sample [0, 0]) (Bits (sample [255, 255])) (Masked (Bits (sample [2])) 1) (Const 0))) = 1
   \<and> dynamic_value (snd (num_add sycl_device (sample [0, 0]) (Bits (sample [255, 255])) (Masked (Bits (sample [2])) 1) (Const 0))) = 1"
  using num_add_correct [OF sycl_ok_device, of "sample [0, 0]" "Bits (sample [255, 255])" "Masked (Bits (sample [2])) 1" "Const 0"]
  by (simp add: wrap_def word_uint_eq_iff take_bit_eq_mod)

text \<open>Subtraction stores the difference of the two operands and the borrow, reduced to the type of the
  result, and returns the borrow; between unsigned operands that fit the limbs of the result the
  returned borrow is set exactly if the difference is negative.\<close>

theorem num_subtract_correct:
  assumes "sycl_ok E" and "span_shape b" and "rspan_ok l" and "rspan_ok r"
  shows "span_int (fst (num_subtract E b l r c)) = wrap b (rspan_int l - rspan_int r - uint (dynamic_value c))
    \<and> (in_range b (rspan_int l - rspan_int r - uint (dynamic_value c))
        \<longrightarrow> span_int (fst (num_subtract E b l r c)) = rspan_int l - rspan_int r - uint (dynamic_value c)
          \<and> span_ok (fst (num_subtract E b l r c)))
    \<and> (is_unsigned (signedness b) \<longrightarrow> span_ok (fst (num_subtract E b l r c)))
    \<and> uint (dynamic_value (snd (num_subtract E b l r c)))
      = - ((rspan_int l mod modulus_of b - rspan_int r mod modulus_of b - uint (dynamic_value c)) div modulus_of b)
    \<and> (0 \<le> rspan_int l \<and> rspan_int l < modulus_of b \<and> 0 \<le> rspan_int r \<and> rspan_int r < modulus_of b
        \<longrightarrow> dynamic_value (snd (num_subtract E b l r c))
          = of_bool (rspan_int l - rspan_int r - uint (dynamic_value c) < 0))"
proof -
  let ?x = "rspan_int l - rspan_int r - uint (dynamic_value c)" and ?b = "snd (num_subtract E b l r c)"
  have "length (data b) = limb_size b" using assms(2) by (simp add: span_shape_def)
  note eq = num_subtract_eq [OF assms(1) this, of l r c, unfolded get_int_rspan_int [OF assms(1,3)] get_int_rspan_int [OF assms(1,4)]]
  have borrow: "dynamic_value ?b = of_bool (?x < 0)"
    if "0 \<le> rspan_int l" "rspan_int l < modulus_of b" "0 \<le> rspan_int r" "rspan_int r < modulus_of b"
  proof -
    have "uint (dynamic_value ?b) = - (?x div modulus_of b)" using eq(2) that by simp
    moreover have "?x div modulus_of b < 0 \<longleftrightarrow> ?x < 0" by (simp add: pos_imp_zdiv_neg_iff)
    moreover have "\<not> ?x < 0 \<Longrightarrow> ?x div modulus_of b = 0"
      using that uint_bit_cases [of "dynamic_value c"] by (intro div_pos_pos_trivial) auto
    ultimately show ?thesis
      using uint_bit_cases [of "dynamic_value ?b"] by (cases "?x < 0") (auto simp: word_uint_eq_iff)
  qed
  then show ?thesis unfolding eq(1) using store_facts [OF assms(2)] eq(2) by simp
qed

theorem num_subtract_correct_witness:
  "span_int (fst (num_subtract sycl_device (sample [0, 0]) (Bits (sample [1, 2])) (Bits (sample [3])) (Const 1))) = 509
   \<and> dynamic_value (snd (num_subtract sycl_device (sample [0, 0]) (Bits (sample [1, 2])) (Bits (sample [3])) (Const 1))) = 0"
  using num_subtract_correct [OF sycl_ok_device, of "sample [0, 0]" "Bits (sample [1, 2])" "Bits (sample [3])" "Const 1"]
  by (simp add: wrap_def take_bit_eq_mod)

text \<open>The bitwise operations, negation, copying and selection store the bitwise combination, the
  negation, the operand and the selected operand, as two's complement integers in the type of the
  result; negation does so whatever its uninitialized local array holds.\<close>

theorem num_limbwise_correct:
  assumes "sycl_ok E" and "span_shape (b :: 'a::len word bit_span)" and "rspan_ok l" and "rspan_ok r"
    and "length garbage = limb_size b"
  shows "span_int (num_bit_and E b l r) = wrap b (rspan_int l AND rspan_int r)
    \<and> span_int (num_bit_or E b l r) = wrap b (rspan_int l OR rspan_int r)
    \<and> span_int (num_bit_xor E b l r) = wrap b (rspan_int l XOR rspan_int r)
    \<and> span_int (num_bit_not E b l) = wrap b (NOT (rspan_int l))
    \<and> span_int (num_bit_copy E b l) = wrap b (rspan_int l)
    \<and> span_int (num_negate E garbage b l) = wrap b (- rspan_int l)
    \<and> span_int (num_select E b l r c) = wrap b (if dynamic_value c = 1 then rspan_int r else rspan_int l)"
proof -
  have len: "length (data b) = limb_size b" using assms(2) by (simp add: span_shape_def)
  note eq = num_bitwise_eq [OF assms(1) len] num_negate_eq [OF assms(1) len assms(5)] num_select_eq [OF assms(1) len]
    get_int_rspan_int [OF assms(1,3)] get_int_rspan_int [OF assms(1,4)]
  show ?thesis unfolding eq by (simp add: span_int_store [OF assms(2)])
qed

theorem num_limbwise_correct_witness:
  "span_int (num_negate sycl_device [7, 9] (sample [0, 0]) (Bits (sample [1]))) = 65535
   \<and> span_int (num_bit_xor sycl_device (sample [0, 0]) (Bits (sample [1])) (Bits (sample [3, 1]))) = 258"
  using num_limbwise_correct [OF sycl_ok_device, of "sample [0, 0]" "Bits (sample [1])" "Bits (sample [3, 1])" "[7, 9]" "Const 0"]
  by (simp add: wrap_def take_bit_eq_mod)

text \<open>Addition, subtraction and selection may have the result itself as their left operand: working in
  place gives the same memory and the same carry as reading the operand from an untouched copy.\<close>

theorem num_assign_equivalent:
  assumes "length (data b) = limb_size (b :: 'a::len word bit_span)"
  shows "num_add_assign E b r c = num_add E b (Bits b) r c
    \<and> num_subtract_assign E b r c = num_subtract E b (Bits b) r c
    \<and> num_select_assign E b r c = num_select E b (Bits b) r c"
  by (simp add: num_add_assign_eq num_subtract_assign_eq num_select_assign_eq assms)

theorem num_assign_equivalent_witness:
  "num_add_assign Consteval (sample [255, 3]) (Bits (sample [1])) (Const 0)
   = num_add Consteval (sample [255, 3]) (Bits (sample [255, 3])) (Bits (sample [1])) (Const 0)"
  using num_assign_equivalent [of "sample [255, 3]" Consteval "Bits (sample [1])" "Const 0"] by simp

end
