(* ===== verification/Num_Compare.thy ===== *)
theory Num_Compare
  imports Num_Arith
begin

text \<open>
  The comparisons of \<^verbatim>\<open>hmpc/core/num/compare.hpp\<close>.

  The macros \<^verbatim>\<open>HMPC_COMPARE_EQUAL\<close> and \<^verbatim>\<open>HMPC_COMPARE\<close> are the functions \<open>hmpc_compare_equal\<close>
  and \<open>hmpc_compare\<close>, their macro arguments are the arguments of these functions.  The comparison
  runs from the last limb to the first and remembers in a bit whether the result is determined; it is
  proved to be the comparison of the integers, for views of any size and signedness.  For equality
  this needs the condition \<open>comparable\<close>, and the last section shows what happens without it.
\<close>

section \<open>The comparisons\<close>

definition hmpc_compare_equal ::
    "('a::len word arg \<Rightarrow> 'a word arg \<Rightarrow> hbit arg) \<Rightarrow> (hbit arg \<Rightarrow> hbit arg \<Rightarrow> hbit arg) \<Rightarrow> hbit
     \<Rightarrow> (hbit arg \<Rightarrow> hbit arg \<Rightarrow> hbit arg) \<Rightarrow> 'a word eval \<Rightarrow> 'a word rspan \<Rightarrow> 'a word rspan \<Rightarrow> hbit" where
  "hmpc_compare_equal name sign_name default_result join E left right =
     (let limbs = max (rspan_limb_size left) (rspan_limb_size right);
          initial_result =
            (if rspan_signedness left \<noteq> rspan_signedness right
                \<and> rspan_bit_size left = rspan_bit_size right \<and> rspan_bit_size left mod LENGTH('a) = 0
             then sign_name (rspan_sign left) (rspan_sign right)
             else Const default_result)
      in dynamic_value (scan_range limbs
           (\<lambda>i result. join result (name (extended_read E left i Normal) (extended_read E right i Normal)))
           initial_result))"

definition num_equal_to :: "'a::len word eval \<Rightarrow> 'a word rspan \<Rightarrow> 'a word rspan \<Rightarrow> hbit" where
  "num_equal_to = hmpc_compare_equal core_equal_to core_equal_to 1 core_bit_and"

definition num_not_equal_to :: "'a::len word eval \<Rightarrow> 'a word rspan \<Rightarrow> 'a word rspan \<Rightarrow> hbit" where
  "num_not_equal_to = hmpc_compare_equal core_not_equal_to core_not_equal_to 0 core_bit_or"

datatype compare_result = CompareResult (compare_result: "hbit arg") (compare_determined: "hbit arg")

definition compare_step ::
    "('a::len word arg \<Rightarrow> 'a word arg \<Rightarrow> hbit arg) \<Rightarrow> 'a word arg \<Rightarrow> 'a word arg
     \<Rightarrow> compare_result \<Rightarrow> compare_result" where
  "compare_step name x y result =
     (let not_equal = core_not_equal_to x y;
          now_determined = core_bit_or (compare_determined result) not_equal
      in CompareResult
           (core_select_bits (compare_result result) (name x y)
              (core_bit_and (core_bit_not (compare_determined result)) not_equal))
           now_determined)"

definition hmpc_compare ::
    "('a::len word arg \<Rightarrow> 'a word arg \<Rightarrow> hbit arg) \<Rightarrow> (hbit arg \<Rightarrow> hbit arg \<Rightarrow> hbit arg) \<Rightarrow> hbit
     \<Rightarrow> 'a word eval \<Rightarrow> 'a word rspan \<Rightarrow> 'a word rspan \<Rightarrow> hbit" where
  "hmpc_compare name negative_name default_result E left right =
     (let limbs = max (rspan_limb_size left) (rspan_limb_size right);
          initial_result =
            (if is_unsigned (rspan_signedness left) \<and> is_unsigned (rspan_signedness right)
             then CompareResult (Const default_result) (Const 0)
             else CompareResult (negative_name (rspan_sign left) (rspan_sign right))
                    (core_not_equal_to (rspan_sign left) (rspan_sign right)))
      in dynamic_value (compare_result (scan_reverse_range limbs
           (\<lambda>i. compare_step name (extended_read E left i Normal) (extended_read E right i Normal))
           initial_result)))"

definition num_greater :: "'a::len word eval \<Rightarrow> 'a word rspan \<Rightarrow> 'a word rspan \<Rightarrow> hbit" where
  "num_greater = hmpc_compare core_greater core_less 0"

definition num_less :: "'a::len word eval \<Rightarrow> 'a word rspan \<Rightarrow> 'a word rspan \<Rightarrow> hbit" where
  "num_less = hmpc_compare core_less core_greater 0"

definition num_greater_equal :: "'a::len word eval \<Rightarrow> 'a word rspan \<Rightarrow> 'a word rspan \<Rightarrow> hbit" where
  "num_greater_equal = hmpc_compare core_greater_equal core_less_equal 1"

definition num_less_equal :: "'a::len word eval \<Rightarrow> 'a word rspan \<Rightarrow> 'a word rspan \<Rightarrow> hbit" where
  "num_less_equal = hmpc_compare core_less_equal core_greater_equal 1"

section \<open>Order\<close>

lemma limbs_val_less_top:
  assumes "uint (f n :: 'a::len word) < uint (g n :: 'a word)"
  shows "limbs_val f (Suc n) < limbs_val g (Suc n)"
proof -
  let ?P = "2 ^ (LENGTH('a) * n) :: int"
  have "(uint (f n) + 1) * ?P \<le> uint (g n) * ?P" using assms by (intro mult_right_mono) simp_all
  then have "limbs_val f n + uint (f n) * ?P < uint (g n) * ?P"
    using limbs_val_less [of f n] by (simp add: distrib_right)
  then show ?thesis using limbs_val_nonneg [of g n] unfolding limbs_val.simps by linarith
qed

text \<open>
  A comparison that has seen the limbs from \<open>n\<close> on: if it is determined it keeps its result,
  otherwise the first \<open>n\<close> limbs decide.
\<close>

lemma dyn_compare_step:
  "dynamic_value (compare_determined (compare_step name x y s))
     = of_bool (dynamic_value (compare_determined s) = 1 \<or> dynamic_value x \<noteq> dynamic_value y)"
  "dynamic_value (compare_result (compare_step name x y s))
     = (if dynamic_value (compare_determined s) = 1 \<or> dynamic_value x = dynamic_value y
        then dynamic_value (compare_result s) else dynamic_value (name x y))"
  by (cases "dynamic_value (compare_determined s)" rule: hbit_exhaust;
      simp add: compare_step_def Let_def)+

lemma compare_scan:
  fixes x y :: "nat \<Rightarrow> 'a::len word arg"
  defines "X \<equiv> \<lambda>n. limbs_val (\<lambda>i. dynamic_value (x i)) n" and "Y \<equiv> \<lambda>n. limbs_val (\<lambda>i. dynamic_value (y i)) n"
  assumes "\<And>a b. dynamic_value a \<noteq> dynamic_value b
    \<Longrightarrow> dynamic_value (name a b) = of_bool (if up then uint (dynamic_value a) < uint (dynamic_value b)
          else uint (dynamic_value b) < uint (dynamic_value a))"
  shows "dynamic_value (compare_result (scan_reverse_range n (\<lambda>i. compare_step name (x i) (y i)) s))
    = (if dynamic_value (compare_determined s) = 1 \<or> X n = Y n then dynamic_value (compare_result s)
       else of_bool (if up then X n < Y n else Y n < X n))"
proof (induction n arbitrary: s)
  case 0
  then show ?case by (simp add: X_def Y_def)
next
  case (Suc n)
  let ?x = "dynamic_value (x n)" and ?y = "dynamic_value (y n)"
  have X: "X (Suc n) = X n + uint ?x * 2 ^ (LENGTH('a) * n)" and Y: "Y (Suc n) = Y n + uint ?y * 2 ^ (LENGTH('a) * n)"
    by (simp_all add: X_def Y_def)
  show ?case
  proof (cases "?x = ?y")
    case True
    then show ?thesis by (simp add: Suc dyn_compare_step X Y)
  next
    case False
    then have ne: "uint ?x < uint ?y \<or> uint ?y < uint ?x" by (metis linorder_neqE word_uint_eq_iff)
    have lt: "uint ?x < uint ?y \<Longrightarrow> X (Suc n) < Y (Suc n)" "uint ?y < uint ?x \<Longrightarrow> Y (Suc n) < X (Suc n)"
      unfolding X_def Y_def by (rule limbs_val_less_top, assumption)+
    have "X (Suc n) < Y (Suc n) \<longleftrightarrow> uint ?x < uint ?y" "Y (Suc n) < X (Suc n) \<longleftrightarrow> uint ?y < uint ?x"
      "X (Suc n) \<noteq> Y (Suc n)"
      using ne lt by linarith+
    with False show ?thesis by (simp add: Suc dyn_compare_step assms(3))
  qed
qed

section \<open>Equality\<close>

lemma compare_equal_scan:
  fixes x y :: "nat \<Rightarrow> 'a::len word arg"
  shows "dynamic_value (scan_range n (\<lambda>i s. core_bit_and s (core_equal_to (x i) (y i))) s)
    = of_bool (dynamic_value s = 1 \<and> limbs_val (\<lambda>i. dynamic_value (x i)) n = limbs_val (\<lambda>i. dynamic_value (y i)) n)"
  and "dynamic_value (scan_range n (\<lambda>i s. core_bit_or s (core_not_equal_to (x i) (y i))) s)
    = of_bool (dynamic_value s = 1 \<or> limbs_val (\<lambda>i. dynamic_value (x i)) n \<noteq> limbs_val (\<lambda>i. dynamic_value (y i)) n)"
proof -
  have "(\<forall>i<Suc n. P i) \<longleftrightarrow> (\<forall>i<n. P i) \<and> P n" for P and n :: nat by (auto simp: less_Suc_eq)
  note limbs_val_eq_iff [simp] this [simp] limbs_val.simps [simp del]
  show "dynamic_value (scan_range n (\<lambda>i s. core_bit_and s (core_equal_to (x i) (y i))) s)
    = of_bool (dynamic_value s = 1 \<and> limbs_val (\<lambda>i. dynamic_value (x i)) n = limbs_val (\<lambda>i. dynamic_value (y i)) n)"
    by (induction n) (cases "dynamic_value s" rule: hbit_exhaust; simp add: hbit_of_bool_and)+
  show "dynamic_value (scan_range n (\<lambda>i s. core_bit_or s (core_not_equal_to (x i) (y i))) s)
    = of_bool (dynamic_value s = 1 \<or> limbs_val (\<lambda>i. dynamic_value (x i)) n \<noteq> limbs_val (\<lambda>i. dynamic_value (y i)) n)"
    by (induction n) (cases "dynamic_value s" rule: hbit_exhaust; simp add: hbit_of_bool_or)+
qed

section \<open>The comparisons of the integers\<close>

lemma rspan_sign_iff:
  "sycl_ok (E :: 'a::len word eval) \<Longrightarrow> rspan_ok (s :: 'a word rspan) \<Longrightarrow> dynamic_value (rspan_sign s) = of_bool (rspan_int s < 0)"
  using stream_int_neg [of s E Normal] stream_int_nonneg [of s E Normal]
  by (cases "dynamic_value (rspan_sign s)" rule: hbit_exhaust) (auto simp: stream_int_rspan_int)

lemma rspan_int_mod:
  assumes "sycl_ok (E :: 'a::len word eval)" and "rspan_ok s" and "rspan_limb_size s \<le> k"
  shows "rspan_int s mod 2 ^ (LENGTH('a) * k)
    = rspan_int (s :: 'a word rspan) + (if rspan_int s < 0 then 2 ^ (LENGTH('a) * k) else 0)"
proof -
  let ?P = "2 ^ (LENGTH('a) * k) :: int"
  have "(2::int) ^ (LENGTH('a) * rspan_limb_size s) \<le> ?P"
    using assms(3) by (intro power_increasing mult_le_mono2) simp_all
  moreover have "- (2 ^ (LENGTH('a) * rspan_limb_size s)) \<le> rspan_int s"
      "rspan_int s < 2 ^ (LENGTH('a) * rspan_limb_size s)"
    using view.int_of_bounds [of "(E, s, Normal)"] stream_int_rspan_int [OF assms(1,2)]
    by (simp_all add: view_int_of view_apply)
  ultimately have "- ?P \<le> rspan_int s" "rspan_int s < ?P" by linarith+
  then show ?thesis
    using mod_pos_pos_trivial [of "rspan_int s" ?P] mod_pos_pos_trivial [of "rspan_int s + ?P" ?P]
    by (cases "rspan_int s < 0") simp_all
qed

lemma compare_correct:
  assumes "sycl_ok E" and "rspan_ok l" and "rspan_ok (r :: 'a::len word rspan)"
    and name: "\<And>a b. dynamic_value a \<noteq> dynamic_value b
      \<Longrightarrow> dynamic_value (name a b) = of_bool (if up then uint (dynamic_value a) < uint (dynamic_value (b :: 'a word arg))
            else uint (dynamic_value b) < uint (dynamic_value a))"
    and neg: "\<And>a b. dynamic_value (negative_name a b)
      = (if dynamic_value a = dynamic_value b then d
         else of_bool (if up then dynamic_value a = 1 else dynamic_value b = 1))"
  shows "hmpc_compare name negative_name d E l r
    = (if rspan_int l = rspan_int r then d
       else of_bool (if up then rspan_int l < rspan_int r else rspan_int r < rspan_int l))"
proof -
  let ?k = "max (rspan_limb_size l) (rspan_limb_size r)"
  let ?X = "rspan_int l mod 2 ^ (LENGTH('a) * ?k)" and ?Y = "rspan_int r mod 2 ^ (LENGTH('a) * ?k)"
  let ?init = "if is_unsigned (rspan_signedness l) \<and> is_unsigned (rspan_signedness r)
    then CompareResult (Const d) (Const 0)
    else CompareResult (negative_name (rspan_sign l) (rspan_sign r)) (core_not_equal_to (rspan_sign l) (rspan_sign r))"
  have X: "limbs_val (\<lambda>i. dynamic_value (extended_read E l i Normal)) ?k = ?X"
    and Y: "limbs_val (\<lambda>i. dynamic_value (extended_read E r i Normal)) ?k = ?Y"
    using assms(1-3) by (simp_all add: limbs_val_extended_read stream_int_rspan_int)
  have run: "hmpc_compare name negative_name d E l r
    = (if dynamic_value (compare_determined ?init) = 1 \<or> ?X = ?Y then dynamic_value (compare_result ?init)
       else of_bool (if up then ?X < ?Y else ?Y < ?X))"
    unfolding hmpc_compare_def Let_def
    using compare_scan [where name = name and up = up and n = ?k and s = ?init and x = "\<lambda>i. extended_read E l i Normal" and y = "\<lambda>i. extended_read E r i Normal", OF name]
    unfolding X Y by simp
  have signs: "dynamic_value (rspan_sign l) = of_bool (rspan_int l < 0)" "dynamic_value (rspan_sign r) = of_bool (rspan_int r < 0)"
    using assms(1-3) by (simp_all add: rspan_sign_iff)
  have init: "dynamic_value (compare_determined ?init) = of_bool ((rspan_int l < 0) \<noteq> (rspan_int r < 0))
    \<and> dynamic_value (compare_result ?init)
      = (if (rspan_int l < 0) = (rspan_int r < 0) then d else of_bool (if up then rspan_int l < 0 else rspan_int r < 0))"
  proof (cases "is_unsigned (rspan_signedness l) \<and> is_unsigned (rspan_signedness r)")
    case True
    then have "\<not> rspan_int l < 0" "\<not> rspan_int r < 0"
      using signs rspan_sign_unsigned [of l] rspan_sign_unsigned [of r] by simp_all
    with True show ?thesis by simp
  next
    case False
    then show ?thesis by (auto simp: neg signs)
  qed
  show ?thesis
    unfolding run init [THEN conjunct1] init [THEN conjunct2]
    using rspan_int_mod [OF assms(1,2), of ?k] rspan_int_mod [OF assms(1,3), of ?k]
    by (cases "rspan_int l < 0"; cases "rspan_int r < 0"; cases up) simp_all
qed

lemma negative_names:
  fixes a b :: "hbit arg"
  shows "dynamic_value (core_greater a b) = (if dynamic_value a = dynamic_value b then 0
      else of_bool (if True then dynamic_value a = 1 else dynamic_value b = 1))"
    and "dynamic_value (core_less a b) = (if dynamic_value a = dynamic_value b then 0
      else of_bool (if False then dynamic_value a = 1 else dynamic_value b = 1))"
    and "dynamic_value (core_greater_equal a b) = (if dynamic_value a = dynamic_value b then 1
      else of_bool (if True then dynamic_value a = 1 else dynamic_value b = 1))"
    and "dynamic_value (core_less_equal a b) = (if dynamic_value a = dynamic_value b then 1
      else of_bool (if False then dynamic_value a = 1 else dynamic_value b = 1))"
  by (cases "dynamic_value a" rule: hbit_exhaust; cases "dynamic_value b" rule: hbit_exhaust; simp)+

lemma num_order_eq:
  assumes "sycl_ok (E :: 'a::len word eval)" and "rspan_ok l" and "rspan_ok r"
  shows "num_less E l r = of_bool (rspan_int l < rspan_int r)"
    and "num_greater E l r = of_bool (rspan_int l > rspan_int r)"
    and "num_less_equal E l r = of_bool (rspan_int l \<le> rspan_int r)"
    and "num_greater_equal E l r = of_bool (rspan_int l \<ge> rspan_int r)"
proof -
  have le: "x \<noteq> y \<Longrightarrow> x \<le> y \<longleftrightarrow> uint x < uint y" for x y :: "'a word"
    by (auto simp: word_le_def word_uint_eq_iff)
  show "num_less E l r = of_bool (rspan_int l < rspan_int r)"
    unfolding num_less_def
    by (subst compare_correct [OF assms _ negative_names(1)]) (simp_all add: word_less_def)
  show "num_greater E l r = of_bool (rspan_int l > rspan_int r)"
    unfolding num_greater_def
    by (subst compare_correct [OF assms _ negative_names(2)]) (simp_all add: word_less_def)
  show "num_less_equal E l r = of_bool (rspan_int l \<le> rspan_int r)"
    unfolding num_less_equal_def
    by (subst compare_correct [OF assms _ negative_names(3)]) (auto simp: le)
  show "num_greater_equal E l r = of_bool (rspan_int l \<ge> rspan_int r)"
    unfolding num_greater_equal_def
    by (subst compare_correct [OF assms _ negative_names(4)]) (auto simp: le)
qed

text \<open>
  \<open>in_type s x\<close>: the type of the view can hold the integer.  \<open>comparable\<close>: equality compares
  the limbs only, so the limbs must tell the integers apart.  They do not, when an unsigned view
  fills its last limb and a signed view of another size has no more limbs than it.
\<close>

definition in_type :: "'a::len word rspan \<Rightarrow> int \<Rightarrow> bool" where
  "in_type s x \<longleftrightarrow>
     (if is_signed (rspan_signedness s)
      then 0 < rspan_bit_size s \<and> - (2 ^ (rspan_bit_size s - 1)) \<le> x \<and> x < 2 ^ (rspan_bit_size s - 1)
      else 0 \<le> x \<and> x < 2 ^ rspan_bit_size s)"

definition ambiguous :: "'a::len word rspan \<Rightarrow> 'a word rspan \<Rightarrow> bool" where
  "ambiguous u s \<longleftrightarrow> is_unsigned (rspan_signedness u) \<and> is_signed (rspan_signedness s)
     \<and> rspan_bit_size u mod LENGTH('a) = 0 \<and> rspan_bit_size u \<noteq> rspan_bit_size s
     \<and> rspan_limb_size s \<le> rspan_limb_size u"

definition comparable :: "'a::len word rspan \<Rightarrow> 'a word rspan \<Rightarrow> bool" where
  "comparable l r \<longleftrightarrow> \<not> ambiguous l r \<and> \<not> ambiguous r l"

lemma mixed_limbs_differ:
  assumes "sycl_ok (E :: 'a::len word eval)" and "rspan_ok (u :: 'a word rspan)" and "rspan_ok (s :: 'a word rspan)"
    and "in_type u (rspan_int u)" and "in_type s (rspan_int s)"
    and "\<not> rspan_int u < 0" and "rspan_int s < 0"
    and "rspan_limb_size u = div_ceil (rspan_bit_size u) LENGTH('a)"
    and "rspan_limb_size s = div_ceil (rspan_bit_size s) LENGTH('a)"
    and "is_signed (rspan_signedness u)
      \<or> (rspan_bit_size u mod LENGTH('a) \<noteq> 0 \<or> rspan_limb_size u < rspan_limb_size s)"
  shows "rspan_int u mod 2 ^ (LENGTH('a) * max (rspan_limb_size u) (rspan_limb_size s))
    \<noteq> rspan_int s mod 2 ^ (LENGTH('a) * max (rspan_limb_size u) (rspan_limb_size s))"
proof -
  let ?L = "LENGTH('a)" and ?k = "max (rspan_limb_size u) (rspan_limb_size s)"
  have L: "0 < ?L" by simp
  have sb: "rspan_bit_size s \<le> ?L * rspan_limb_size s" and ub: "rspan_bit_size u \<le> ?L * rspan_limb_size u"
    by (simp_all add: assms(8,9) div_ceil_le_mult)
  have km: "?L * rspan_limb_size s \<le> ?L * ?k" "?L * rspan_limb_size u \<le> ?L * ?k" by simp_all
  have ss: "is_signed (rspan_signedness s)"
    using assms(5,7) by (auto simp: in_type_def split: if_splits)
  then have s1: "- (2 ^ (rspan_bit_size s - 1)) \<le> rspan_int s" "0 < rspan_bit_size s"
    using assms(5) by (simp_all add: in_type_def)
  have k0: "0 < ?L * ?k" using s1(2) sb km(1) by linarith
  have "(2::int) ^ (rspan_bit_size s - 1) \<le> 2 ^ (?L * ?k - 1)"
    by (rule power_increasing) (use sb km(1) in linarith, simp)
  with s1 have lo: "- (2 ^ (?L * ?k - 1)) \<le> rspan_int s" by linarith
  have "rspan_int u < 2 ^ (?L * ?k - 1)"
  proof (cases "is_signed (rspan_signedness u)")
    case True
    then have "rspan_int u < 2 ^ (rspan_bit_size u - 1)" using assms(4) by (simp add: in_type_def)
    moreover have "(2::int) ^ (rspan_bit_size u - 1) \<le> 2 ^ (?L * ?k - 1)"
      by (rule power_increasing) (use ub km(2) in linarith, simp)
    ultimately show ?thesis by linarith
  next
    case False
    then have "rspan_int u < 2 ^ rspan_bit_size u" using assms(4) by (simp add: in_type_def)
    moreover have "(2::int) ^ rspan_bit_size u \<le> 2 ^ (?L * ?k - 1)"
    proof (rule power_increasing)
      show "rspan_bit_size u \<le> ?L * ?k - 1"
      proof (cases "rspan_limb_size u < rspan_limb_size s")
        case True
        then have "?L * Suc (rspan_limb_size u) \<le> ?L * ?k" by (intro mult_le_mono2) simp
        then show ?thesis using ub L unfolding mult_Suc_right by linarith
      next
        case not_less: False
        with False assms(10) have "rspan_bit_size u mod ?L \<noteq> 0" by simp
        then have "rspan_bit_size u \<noteq> ?L * ?k" by (metis mod_mult_self1_is_0)
        with ub km(2) show ?thesis by linarith
      qed
    qed simp
    ultimately show ?thesis by linarith
  qed
  moreover have "(2::int) ^ (?L * ?k) = 2 * 2 ^ (?L * ?k - 1)"
    using k0 by (metis power_Suc Suc_diff_1)
  ultimately show ?thesis
    using rspan_int_mod [OF assms(1,2), of ?k] rspan_int_mod [OF assms(1,3), of ?k] assms(6,7) lo by simp
qed

text \<open>The limbs of the views in the development are as many as their bits need.\<close>

definition limbs_fit :: "'a::len word rspan \<Rightarrow> bool" where
  "limbs_fit s \<longleftrightarrow> rspan_limb_size s = div_ceil (rspan_bit_size s) LENGTH('a)"

definition good_view :: "'a::len word rspan \<Rightarrow> bool" where
  "good_view s \<longleftrightarrow> rspan_ok s \<and> limbs_fit s \<and> in_type s (rspan_int s)"

lemma good_view_Bits: "span_shape b \<Longrightarrow> span_normal b \<Longrightarrow> good_view (Bits b)"
  using span_int_in_range [of b]
  by (auto simp: good_view_def limbs_fit_def in_type_def in_range_def limb_size_def limb_size_for_def span_shape_def)

lemma limbs_decide_equality:
  assumes "sycl_ok (E :: 'a::len word eval)" and "good_view (l :: 'a word rspan)" and "good_view (r :: 'a word rspan)"
    and "comparable l r"
    and "\<not> (rspan_signedness l \<noteq> rspan_signedness r \<and> rspan_bit_size l = rspan_bit_size r
        \<and> rspan_bit_size l mod LENGTH('a) = 0)
      \<or> (rspan_int l < 0 \<longleftrightarrow> rspan_int r < 0)"
  shows "rspan_int l mod 2 ^ (LENGTH('a) * max (rspan_limb_size l) (rspan_limb_size r))
      = rspan_int r mod 2 ^ (LENGTH('a) * max (rspan_limb_size l) (rspan_limb_size r))
    \<longleftrightarrow> rspan_int l = rspan_int r"
proof -
  let ?k = "max (rspan_limb_size l) (rspan_limb_size r)"
  have ok: "rspan_ok l" "rspan_ok r" "in_type l (rspan_int l)" "in_type r (rspan_int r)"
    "rspan_limb_size l = div_ceil (rspan_bit_size l) LENGTH('a)"
    "rspan_limb_size r = div_ceil (rspan_bit_size r) LENGTH('a)"
    using assms(2,3) by (simp_all add: good_view_def limbs_fit_def)
  have neg: "in_type s x \<Longrightarrow> x < 0 \<Longrightarrow> is_signed (rspan_signedness s)" for s :: "'a word rspan" and x
    by (auto simp: in_type_def split: if_splits)
  have uns: "\<not> is_signed x \<Longrightarrow> is_signed y \<Longrightarrow> x \<noteq> y" for x y by auto
  consider "rspan_int l < 0 \<longleftrightarrow> rspan_int r < 0" | "\<not> rspan_int l < 0" "rspan_int r < 0"
    | "rspan_int l < 0" "\<not> rspan_int r < 0" by blast
  then show ?thesis
  proof cases
    case 1
    then show ?thesis
      using rspan_int_mod [OF assms(1) ok(1), of ?k] rspan_int_mod [OF assms(1) ok(2), of ?k]
      by (cases "rspan_int l < 0") simp_all
  next
    case 2
    have "is_signed (rspan_signedness l) \<or> rspan_bit_size l mod LENGTH('a) \<noteq> 0 \<or> rspan_limb_size l < rspan_limb_size r"
      using assms(4,5) 2 neg [OF ok(4)] uns [of "rspan_signedness l" "rspan_signedness r"]
      by (auto simp: comparable_def ambiguous_def is_unsigned_iff not_le)
    from mixed_limbs_differ [OF assms(1) ok(1,2,3,4) 2 ok(5,6) this] 2 show ?thesis by auto
  next
    case 3
    have "is_signed (rspan_signedness r) \<or> rspan_bit_size r mod LENGTH('a) \<noteq> 0 \<or> rspan_limb_size r < rspan_limb_size l"
      using assms(4,5) 3 neg [OF ok(3)] uns [of "rspan_signedness r" "rspan_signedness l"]
      by (auto simp: comparable_def ambiguous_def is_unsigned_iff not_le)
    from mixed_limbs_differ [OF assms(1) ok(2,1,4,3) 3(2,1) ok(6,5) this] 3 show ?thesis
      by (auto simp: max.commute)
  qed
qed

lemma num_equality_eq:
  assumes "sycl_ok (E :: 'a::len word eval)" and "good_view l" and "good_view r" and "comparable l r"
  shows "num_equal_to E l r = of_bool (rspan_int l = rspan_int r)"
    and "num_not_equal_to E l r = of_bool (rspan_int l \<noteq> rspan_int r)"
proof -
  let ?k = "max (rspan_limb_size l) (rspan_limb_size r)"
  let ?signs = "rspan_signedness l \<noteq> rspan_signedness r \<and> rspan_bit_size l = rspan_bit_size r
    \<and> rspan_bit_size l mod LENGTH('a) = 0"
  have ok: "rspan_ok l" "rspan_ok r" using assms(2,3) by (simp_all add: good_view_def)
  have signs: "dynamic_value (rspan_sign l) = of_bool (rspan_int l < 0)" "dynamic_value (rspan_sign r) = of_bool (rspan_int r < 0)"
    using assms(1) ok by (simp_all add: rspan_sign_iff)
  have X: "limbs_val (\<lambda>i. dynamic_value (extended_read E l i Normal)) ?k = rspan_int l mod 2 ^ (LENGTH('a) * ?k)"
    and Y: "limbs_val (\<lambda>i. dynamic_value (extended_read E r i Normal)) ?k = rspan_int r mod 2 ^ (LENGTH('a) * ?k)"
    using assms(1) ok by (simp_all add: limbs_val_extended_read stream_int_rspan_int)
  have d: "?signs \<and> (rspan_int l < 0) \<noteq> (rspan_int r < 0)
      \<or> (rspan_int l mod 2 ^ (LENGTH('a) * ?k) = rspan_int r mod 2 ^ (LENGTH('a) * ?k) \<longleftrightarrow> rspan_int l = rspan_int r)"
    using limbs_decide_equality [OF assms] by blast
  have ne: "(rspan_int l < 0) \<noteq> (rspan_int r < 0) \<Longrightarrow> rspan_int l \<noteq> rspan_int r" by auto
  show "num_equal_to E l r = of_bool (rspan_int l = rspan_int r)"
    unfolding num_equal_to_def hmpc_compare_equal_def Let_def compare_equal_scan X Y
    using d ne by (auto simp: signs)
  show "num_not_equal_to E l r = of_bool (rspan_int l \<noteq> rspan_int r)"
    unfolding num_not_equal_to_def hmpc_compare_equal_def Let_def compare_equal_scan X Y
    using d ne by (auto simp: signs)
qed

section \<open>Properties\<close>

text \<open>The four order comparisons compare the integers the views denote, for any two views: different
  sizes, different signedness, different kinds of views, on the host and on a device.\<close>

theorem num_order_correct:
  assumes "sycl_ok E" and "rspan_ok l" and "rspan_ok r"
  shows "num_less E l r = of_bool (rspan_int l < rspan_int r)
    \<and> num_greater E l r = of_bool (rspan_int l > rspan_int r)
    \<and> num_less_equal E l r = of_bool (rspan_int l \<le> rspan_int r)
    \<and> num_greater_equal E l r = of_bool (rspan_int l \<ge> rspan_int r)"
  by (intro conjI num_order_eq assms)

theorem num_order_correct_witness:
  "num_less sycl_device (Bits (sample [0, 1])) (Bits (sample [255])) = 0
   \<and> num_greater_equal sycl_device (Bits (sample [0, 1])) (Bits (sample [255])) = 1"
  using num_order_correct [OF sycl_ok_device, of "Bits (sample [0, 1])" "Bits (sample [255])"] by simp

text \<open>Equality and inequality compare the integers of two well-formed views, except when an unsigned view
  fills its last limb and a signed view of another size has no more limbs than it.\<close>

theorem num_equality_correct:
  assumes "sycl_ok E" and "good_view l" and "good_view r" and "comparable l r"
  shows "num_equal_to E l r = of_bool (rspan_int l = rspan_int r)
    \<and> num_not_equal_to E l r = of_bool (rspan_int l \<noteq> rspan_int r)"
  by (intro conjI num_equality_eq assms)

lemma good_sample: "good_view (Bits (sample limbs))"
  by (simp add: good_view_Bits)

lemma comparable_sample: "comparable (Bits (sample x)) (Bits (sample y))"
  by (simp add: comparable_def ambiguous_def)

theorem num_equality_correct_witness:
  "num_equal_to sycl_device (Bits (sample [7, 1, 0])) (Bits (sample [7, 1])) = 1
   \<and> num_not_equal_to sycl_device (Bits (sample [7, 1, 0])) (Bits (sample [7])) = 1"
  using num_equality_correct [OF sycl_ok_device good_sample good_sample comparable_sample, of "[7, 1, 0]" "[7, 1]"]
    num_equality_correct [OF sycl_ok_device good_sample good_sample comparable_sample, of "[7, 1, 0]" "[7]"]
  by simp

text \<open>The exception is real: the unsigned 8-bit integer 255 and the signed 4-bit integer -1, both well
  formed, compare as equal.\<close>

theorem num_equal_to_mixed_signedness:
  "\<exists>(u :: 8 word bit_span) (s :: 8 word bit_span).
     span_ok u \<and> span_ok s \<and> normal_type u = Normal \<and> normal_type s = Normal
     \<and> span_int u = 255 \<and> span_int s = - 1
     \<and> num_equal_to Consteval (Bits u) (Bits s) = 1"
proof (intro exI conjI)
  let ?u = "bit_array 8 Without_sign Normal [255] :: 8 word bit_span"
  let ?s = "bit_array 4 With_sign Normal [255] :: 8 word bit_span"
  show "span_ok ?u" "span_ok ?s" "normal_type ?u = Normal" "normal_type ?s = Normal"
    "span_int ?u = 255" "span_int ?s = - 1" "num_equal_to Consteval (Bits ?u) (Bits ?s) = 1"
    by code_simp+
qed

end
