(* ===== verification/Num_Shift.thy ===== *)
theory Num_Shift
  imports Num_Arith
begin

text \<open>
  The shifts of \<^verbatim>\<open>hmpc/core/num/shift_left.hpp\<close> and \<^verbatim>\<open>hmpc/core/num/shift_right.hpp\<close>: a shift
  by whole limbs and by bits within a limb, multiplication and (flooring) division by a power of two.

  The left shift runs from the last limb down and the right shift from the first limb up, so that
  \<^verbatim>\<open>operator<<=\<close> and \<^verbatim>\<open>operator>>=\<close> may have the value itself as the result; the \<open>_assign\<close>
  variants are those calls, and they are proved to shift the value the result had before.
\<close>

section \<open>The operations\<close>

definition shift_left_step ::
    "'a::len word eval \<Rightarrow> nat \<Rightarrow> 'a word rspan \<Rightarrow> nat \<Rightarrow> 'a word bit_span \<Rightarrow> 'a word bit_span" where
  "shift_left_step E shift value i result =
     (let limb_shift = shift div LENGTH('a);
          bit_shift = shift mod LENGTH('a)
      in if i < limb_shift then span_write result i (Const 0) Unnormal
         else
           let current_index = i - limb_shift;
               current = get E value current_index
           in if bit_shift = 0 then put result i current
              else
                let previous = (if i - limb_shift > 0 then get E value (current_index - 1) else Const 0)
                in put result i (core_combined_shift_left previous current bit_shift))"

definition num_shift_left ::
    "'a::len word eval \<Rightarrow> 'a word bit_span \<Rightarrow> 'a word rspan \<Rightarrow> nat \<Rightarrow> 'a word bit_span" where
  "num_shift_left E result value shift =
     for_reverse_range (limb_size result) (shift_left_step E shift value) result"

definition num_shift_left_assign ::
    "'a::len word eval \<Rightarrow> 'a word bit_span \<Rightarrow> nat \<Rightarrow> 'a word bit_span" where
  "num_shift_left_assign E result shift =
     for_reverse_range (limb_size result) (\<lambda>i result. shift_left_step E shift (Bits result) i result) result"

definition shift_right_step ::
    "'a::len word eval \<Rightarrow> nat \<Rightarrow> 'a word rspan \<Rightarrow> nat \<Rightarrow> 'a word bit_span \<Rightarrow> 'a word bit_span" where
  "shift_right_step E shift value i result =
     (let limb_shift = shift div LENGTH('a);
          bit_shift = shift mod LENGTH('a);
          current_index = i + limb_shift;
          current = extended_read E value current_index Normal
      in if bit_shift = 0 then put result i current
         else
           let following = extended_read E value (current_index + 1) Normal
           in put result i (core_combined_shift_right current following bit_shift))"

definition num_shift_right ::
    "'a::len word eval \<Rightarrow> 'a word bit_span \<Rightarrow> 'a word rspan \<Rightarrow> nat \<Rightarrow> 'a word bit_span" where
  "num_shift_right E result value shift =
     for_range (limb_size result) (shift_right_step E shift value) result"

definition num_shift_right_assign ::
    "'a::len word eval \<Rightarrow> 'a word bit_span \<Rightarrow> nat \<Rightarrow> 'a word bit_span" where
  "num_shift_right_assign E result shift =
     for_range (limb_size result) (\<lambda>i result. shift_right_step E shift (Bits result) i result) result"

section \<open>The limbs of a shifted integer\<close>

lemma bit_limb_of:
  "bit (limb_of x i :: 'a::len word) j \<longleftrightarrow> j < LENGTH('a) \<and> bit x (LENGTH('a) * i + j)"
  by (simp add: limb_of_def bit_word_of_int_iff bit_drop_bit_eq add.commute flip: drop_bit_eq_div)

text \<open>The limb the left shift writes, as one value.\<close>

definition shift_left_limb :: "'a::len word eval \<Rightarrow> nat \<Rightarrow> 'a word rspan \<Rightarrow> nat \<Rightarrow> 'a word arg" where
  "shift_left_limb E shift value i =
     (if i < shift div LENGTH('a) then Const 0
      else if shift mod LENGTH('a) = 0 then get E value (i - shift div LENGTH('a))
      else core_combined_shift_left
             (if i - shift div LENGTH('a) > 0 then get E value (i - shift div LENGTH('a) - 1) else Const 0)
             (get E value (i - shift div LENGTH('a))) (shift mod LENGTH('a)))"

definition shift_right_limb :: "'a::len word eval \<Rightarrow> nat \<Rightarrow> 'a word rspan \<Rightarrow> nat \<Rightarrow> 'a word arg" where
  "shift_right_limb E shift value i =
     (if shift mod LENGTH('a) = 0 then extended_read E value (i + shift div LENGTH('a)) Normal
      else core_combined_shift_right (extended_read E value (i + shift div LENGTH('a)) Normal)
             (extended_read E value (i + shift div LENGTH('a) + 1) Normal) (shift mod LENGTH('a)))"

lemma written_limb_zero:
  assumes "i < limb_size (b :: 'a::len word bit_span)"
  shows "written_limb b i (Const 0) n = 0"
proof (cases "i = limb_size b - 1")
  case True
  have p: "0 < bit_size b" using assms limb_size_0_iff [of b] by (cases "bit_size b") auto
  have lt: "last_limb_bit_size b - 1 < LENGTH('a)" using last_bit_split(2,3) [OF p] by linarith
  have "dynamic_value (core_extract_bit (Const (0 :: 'a word)) (last_limb_bit_size b - 1)) = 0"
    unfolding dyn_extract_bit [OF lt] by simp
  then have "dynamic_value (core_extend_sign_bit (Const 0) (core_extract_bit (Const (0 :: 'a word)) (last_limb_bit_size b - 1)) (last_limb_bit_size b)) = (0 :: 'a word)"
    unfolding core_extend_sign_bit_def
    by (intro bit_word_eqI) (simp add: bit_extend_sign [OF last_bit_split(3,2) [OF p]] del: One_nat_def)
  then show ?thesis
    unfolding written_limb_def Let_def last_bit_split(5) [OF p]
    using last_bit_split(3) [OF p] by simp
qed (simp add: written_limb_def)

lemma shift_left_step_put:
  assumes "i < limb_size (r :: 'a::len word bit_span)"
  shows "shift_left_step E shift value i r = put r i (shift_left_limb E shift value i)"
proof -
  have "span_write r i (Const 0) Unnormal = put r i (Const 0)"
    using assms by (simp add: put_def span_write_def written_limb_zero)
  then show ?thesis by (auto simp: shift_left_step_def shift_left_limb_def Let_def)
qed

lemma shift_right_step_put: "shift_right_step E shift value i r = put r i (shift_right_limb E shift value i)"
  by (simp add: shift_right_step_def shift_right_limb_def Let_def)

lemma shift_left_limb_of:
  assumes "sycl_ok (E :: 'a::len word eval)"
  shows "dynamic_value (shift_left_limb E shift value i) = limb_of (get_int E value * 2 ^ shift) i"
proof (rule bit_word_eqI)
  let ?L = "LENGTH('a)" and ?q = "shift div LENGTH('a)" and ?r = "shift mod LENGTH('a)"
  fix j assume j: "j < ?L"
  have s: "shift = ?L * ?q + ?r" and r: "?r < ?L" by simp_all
  have p: "get_int E value * 2 ^ shift = push_bit shift (get_int E value)" by (simp add: push_bit_eq_mult)
  have R: "bit (limb_of (get_int E value * 2 ^ shift) i :: 'a word) j
    \<longleftrightarrow> shift \<le> ?L * i + j \<and> bit (get_int E value) (?L * i + j - shift)"
    using j by (simp add: bit_limb_of p bit_push_bit_iff)
  show "bit (dynamic_value (shift_left_limb E shift value i)) j
    = bit (limb_of (get_int E value * 2 ^ shift) i :: 'a word) j"
  proof (cases "i < ?q")
    case True
    then have "?L * Suc i \<le> ?L * ?q" by (intro mult_le_mono2) simp
    then have "\<not> shift \<le> ?L * i + j" using s j unfolding mult_Suc_right by linarith
    with True show ?thesis unfolding R by (simp add: shift_left_limb_def)
  next
    case False
    then obtain k where k: "i = ?q + k" by (metis le_Suc_ex not_less)
    have i: "?L * i + j = ?L * ?q + (?L * k + j)" by (subst k) (simp add: distrib_left)
    then have R': "bit (limb_of (get_int E value * 2 ^ shift) i :: 'a word) j
      \<longleftrightarrow> ?r \<le> ?L * k + j \<and> bit (get_int E value) (?L * k + j - ?r)"
    proof -
      have "shift \<le> ?L * i + j \<longleftrightarrow> ?r \<le> ?L * k + j" "?L * i + j - shift = ?L * k + j - ?r"
        using s i by linarith+
      then show ?thesis unfolding R by simp
    qed
    show ?thesis
    proof (cases "?r = 0")
      case True
      then show ?thesis unfolding R' using False k j by (simp add: shift_left_limb_def assms bit_limb_of)
    next
      case r0: False
      note sh = bit_combined_shift_left [OF _ r j, of "if k > 0 then get E value (k - 1) else Const 0" "get E value k"]
      have "dynamic_value (shift_left_limb E shift value i)
        = dynamic_value (core_combined_shift_left (if k > 0 then get E value (k - 1) else Const 0) (get E value k) ?r)"
        using False r0 k by (simp add: shift_left_limb_def)
      then have L: "bit (dynamic_value (shift_left_limb E shift value i)) j
        \<longleftrightarrow> (if j < ?r then k > 0 \<and> bit (get_int E value) (?L * (k - 1) + (?L - ?r + j))
             else bit (get_int E value) (?L * k + (j - ?r)))"
        using sh r0 j r assms by (cases k) (auto simp: bit_limb_of)
      show ?thesis
      proof (cases "j < ?r")
        case True
        show ?thesis
        proof (cases k)
          case 0
          with True show ?thesis unfolding L R' by simp
        next
          case (Suc m)
          then have "?L * k + j - ?r = ?L * (k - 1) + (?L - ?r + j)" "?r \<le> ?L * k + j"
            using r unfolding Suc mult_Suc_right diff_Suc_1 by linarith+
          with True Suc show ?thesis unfolding L R' by simp
        qed
      next
        case False
        then have "?L * k + j - ?r = ?L * k + (j - ?r)" by simp
        with False show ?thesis unfolding L R' by simp
      qed
    qed
  qed
qed

lemma shift_right_limb_of:
  assumes "sycl_ok (E :: 'a::len word eval)"
  shows "dynamic_value (shift_right_limb E shift value i) = limb_of (stream_int E value Normal div 2 ^ shift) i"
proof (rule bit_word_eqI)
  let ?L = "LENGTH('a)" and ?q = "shift div LENGTH('a)" and ?r = "shift mod LENGTH('a)"
  let ?x = "stream_int E value Normal"
  fix j assume j: "j < ?L"
  have s: "shift = ?L * ?q + ?r" and r: "?r < ?L" by simp_all
  have "bit (limb_of (?x div 2 ^ shift) i :: 'a word) j \<longleftrightarrow> bit ?x (shift + (?L * i + j))"
    using j by (simp add: bit_limb_of bit_drop_bit_eq flip: drop_bit_eq_div)
  also have "shift + (?L * i + j) = ?L * (i + ?q) + (j + ?r)" by (subst s) (simp add: distrib_left)
  finally have R: "bit (limb_of (?x div 2 ^ shift) i :: 'a word) j \<longleftrightarrow> bit ?x (?L * (i + ?q) + (j + ?r))" .
  show "bit (dynamic_value (shift_right_limb E shift value i)) j = bit (limb_of (?x div 2 ^ shift) i :: 'a word) j"
  proof (cases "?r = 0")
    case True
    then show ?thesis unfolding R using j by (simp add: shift_right_limb_def get_limb_of assms bit_limb_of)
  next
    case False
    show ?thesis
    proof (cases "j + ?r < ?L")
      case True
      with False j r show ?thesis unfolding R
        by (simp add: shift_right_limb_def bit_combined_shift_right get_limb_of assms bit_limb_of)
    next
      case ge: False
      then have "?L * (i + ?q) + (j + ?r) = ?L * (i + ?q + 1) + (j + ?r - ?L)" by simp
      moreover have "j + ?r - ?L < ?L" using j r by linarith
      ultimately show ?thesis unfolding R using False ge j r
        by (simp add: shift_right_limb_def bit_combined_shift_right get_limb_of assms bit_limb_of
            del: mult_Suc_right)
    qed
  qed
qed

section \<open>What the shifts store\<close>

lemma num_shift_left_eq:
  assumes "sycl_ok E" and "length (data b) = limb_size (b :: 'a::len word bit_span)"
  shows "num_shift_left E b v shift = store b (get_int E v * 2 ^ shift)"
proof -
  have "num_shift_left E b v shift = span_written b (shift_left_limb E shift v) (normal_type b)"
    unfolding num_shift_left_def using assms(2)
    by (intro for_reverse_put) (simp_all add: shift_left_step_put)
  also have "\<dots> = store b (get_int E v * 2 ^ shift)"
    by (rule store_limbI) (simp add: shift_left_limb_of assms(1))
  finally show ?thesis .
qed

lemma num_shift_right_eq:
  assumes "sycl_ok E" and "length (data b) = limb_size (b :: 'a::len word bit_span)"
  shows "num_shift_right E b v shift = store b (stream_int E v Normal div 2 ^ shift)"
proof -
  have "num_shift_right E b v shift = span_written b (shift_right_limb E shift v) (normal_type b)"
    unfolding num_shift_right_def using assms(2) by (intro for_put) (simp_all add: shift_right_step_put)
  also have "\<dots> = store b (stream_int E v Normal div 2 ^ shift)"
    by (rule store_limbI) (simp add: shift_right_limb_of assms(1))
  finally show ?thesis .
qed

lemma num_shift_left_assign_eq:
  assumes "length (data b) = limb_size (b :: 'a::len word bit_span)"
  shows "num_shift_left_assign E b shift = num_shift_left E b (Bits b) shift"
proof -
  have "shift_left_limb E shift (Bits (b\<lparr>data := d\<rparr>)) i = shift_left_limb E shift (Bits b) i"
    if "\<forall>j\<le>i. d ! j = data b ! j" "i < limb_size b" for i d
    using that by (auto simp: shift_left_limb_def get_Bits)
  then have "num_shift_left_assign E b shift = span_written b (shift_left_limb E shift (Bits b)) (normal_type b)"
    unfolding num_shift_left_assign_def using assms
    by (intro for_reverse_put) (simp_all add: shift_left_step_put)
  moreover have "num_shift_left E b (Bits b) shift = span_written b (shift_left_limb E shift (Bits b)) (normal_type b)"
    unfolding num_shift_left_def using assms
    by (intro for_reverse_put) (simp_all add: shift_left_step_put)
  ultimately show ?thesis by simp
qed

lemma num_shift_right_assign_eq:
  assumes "length (data b) = limb_size (b :: 'a::len word bit_span)"
  shows "num_shift_right_assign E b shift = num_shift_right E b (Bits b) shift"
proof -
  have "shift_right_limb E shift (Bits (b\<lparr>data := d\<rparr>)) i = shift_right_limb E shift (Bits b) i"
    if "\<forall>j<limb_size b. i \<le> j \<longrightarrow> d ! j = data b ! j" "i < limb_size b" for i d
  proof -
    have "d ! (limb_size b - 1) = data b ! (limb_size b - 1)" using that by simp
    then have m: "span_sign_mask (b\<lparr>data := d\<rparr>) = span_sign_mask b" by (simp add: span_sign_mask_def)
    have "extended_read E (Bits (b\<lparr>data := d\<rparr>)) j n = extended_read E (Bits b) j n" if "i \<le> j" for j n
      using \<open>\<forall>j<limb_size b. i \<le> j \<longrightarrow> d ! j = data b ! j\<close> that m
      by (auto simp: span_extended_read_def span_read_def)
    then show ?thesis by (simp add: shift_right_limb_def del: extended_read.simps)
  qed
  then have "num_shift_right_assign E b shift = span_written b (shift_right_limb E shift (Bits b)) (normal_type b)"
    unfolding num_shift_right_assign_def using assms
    by (intro for_put_ahead) (simp_all add: shift_right_step_put)
  moreover have "num_shift_right E b (Bits b) shift = span_written b (shift_right_limb E shift (Bits b)) (normal_type b)"
    unfolding num_shift_right_def using assms by (intro for_put) (simp_all add: shift_right_step_put)
  ultimately show ?thesis by simp
qed

section \<open>Properties\<close>

text \<open>The left shift stores the operand times a power of two, reduced to the type of the result; the right
  shift stores the operand divided by a power of two, rounded down, for signed operands too.\<close>

theorem num_shift_correct:
  assumes "sycl_ok E" and "span_shape b" and "rspan_ok v"
  shows "span_int (num_shift_left E b v shift) = wrap b (rspan_int v * 2 ^ shift)
    \<and> span_int (num_shift_right E b v shift) = wrap b (rspan_int v div 2 ^ shift)
    \<and> (in_range b (rspan_int v div 2 ^ shift) \<longrightarrow>
        span_int (num_shift_right E b v shift) = rspan_int v div 2 ^ shift \<and> span_ok (num_shift_right E b v shift))"
proof -
  have len: "length (data b) = limb_size b" using assms(2) by (simp add: span_shape_def)
  note eq = num_shift_left_eq [OF assms(1) len] num_shift_right_eq [OF assms(1) len]
    get_int_rspan_int [OF assms(1,3)] stream_int_rspan_int [OF assms(1,3)]
  show ?thesis unfolding eq using store_facts [OF assms(2)] by simp
qed

theorem num_shift_correct_witness:
  "span_int (num_shift_left sycl_device (sample [0, 0]) (Bits (sample [129])) 9) = 512
   \<and> span_int (num_shift_right sycl_device (sample [0]) (Bits (sample [0, 2, 3])) 9) = 129"
  using num_shift_correct [OF sycl_ok_device, of "sample [0, 0]" "Bits (sample [129])" 9]
    num_shift_correct [OF sycl_ok_device, of "sample [0]" "Bits (sample [0, 2, 3])" 9]
  by (simp add: wrap_def take_bit_eq_mod)

text \<open>Both shifts may work in place: the order in which they visit the limbs never reads a limb that was
  already overwritten.\<close>

theorem num_shift_assign_equivalent:
  assumes "length (data b) = limb_size b"
  shows "num_shift_left_assign E b shift = num_shift_left E b (Bits b) shift
    \<and> num_shift_right_assign E b shift = num_shift_right E b (Bits b) shift"
  by (simp add: num_shift_left_assign_eq num_shift_right_assign_eq assms)

theorem num_shift_assign_equivalent_witness:
  "num_shift_left_assign Consteval (sample [1, 2, 3]) 11 = num_shift_left Consteval (sample [1, 2, 3]) (Bits (sample [1, 2, 3])) 11"
  using num_shift_assign_equivalent [of "sample [1, 2, 3]" Consteval 11] by simp

end
