(* ===== verification/Num_Multiply.thy ===== *)
theory Num_Multiply
  imports Num_Compare Num_Shift
begin

text \<open>
  Multiplication, \<^verbatim>\<open>hmpc/core/num/multiply.hpp\<close>: the schoolbook method into a local array, which is
  then copied to the result and filled with zeros.

  The state of the two nested loops is the local array and the carry.  \<open>multiply_inner_inv\<close> is the
  invariant of the inner loop, \<open>multiply_row_value\<close> what one row adds to the local array, and
  \<open>num_multiply_eq\<close> that the result stores the product, modulo the size of the result.  The local
  array is not initialized; the proof shows which of its limbs are read before they are written, and
  that there are such limbs exactly when the right operand has no limbs (last section).
\<close>

section \<open>The operation\<close>

definition multiply_step ::
    "'a::len word eval \<Rightarrow> 'a word rspan \<Rightarrow> 'a word rspan \<Rightarrow> nat \<Rightarrow> nat \<Rightarrow> nat
     \<Rightarrow> 'a word bit_span \<times> 'a word arg \<Rightarrow> 'a word bit_span \<times> 'a word arg" where
  "multiply_step E left right result_limb_size i j = (\<lambda>(intermediate, carry).
     let left_value = get_limb E left j;
         right_value = get_limb E right i;
         k = i + j;
         current = (if i = 0 then Const 0 else get_limb E (Bits intermediate) k)
     in if k + 1 < result_limb_size
        then let product = core_extended_multiply_add E left_value right_value current carry
             in (put intermediate k (mul_lower product), mul_upper product)
        else (put intermediate k (core_multiply_add left_value right_value current carry), Const 0))"

definition multiply_row ::
    "'a::len word eval \<Rightarrow> 'a word rspan \<Rightarrow> 'a word rspan \<Rightarrow> nat \<Rightarrow> nat \<Rightarrow> 'a word bit_span \<Rightarrow> 'a word bit_span" where
  "multiply_row E left right result_limb_size i intermediate =
     (let left_overlap = min (limb_size intermediate - i) (rspan_limb_size left);
          (intermediate, carry) =
            scan_range left_overlap (multiply_step E left right result_limb_size i) (intermediate, Const 0)
      in if limb_size intermediate > rspan_limb_size left + i
         then put intermediate (i + rspan_limb_size left) carry
         else intermediate)"

definition num_multiply ::
    "'a::len word eval \<Rightarrow> 'a word list \<Rightarrow> 'a word bit_span \<Rightarrow> 'a word rspan \<Rightarrow> 'a word rspan
     \<Rightarrow> 'a word bit_span" where
  "num_multiply E garbage result left right =
     (let intermediate = bit_array (min (bit_size result) (rspan_bit_size left + rspan_bit_size right))
            (signedness result) Unnormal garbage;
          right_overlap = min (limb_size intermediate) (rspan_limb_size right);
          intermediate = for_range right_overlap (multiply_row E left right (limb_size result)) intermediate;
          result = for_range (limb_size intermediate)
            (\<lambda>i result. put result i (get_limb E (Bits intermediate) i)) result
      in for_range_from (limb_size intermediate) (limb_size result)
           (\<lambda>i result. span_write result i (Const 0) Unnormal) result)"

section \<open>The inner loop\<close>

lemma get_limb_Bits [simp]: "get_limb E (Bits b) i = Dyn (data b ! i)"
  by (cases "normal_type b") (simp_all add: get_limb_def span_read_def)

lemma get_limb_of_int:
  "sycl_ok E \<Longrightarrow> i < rspan_limb_size s \<Longrightarrow> dynamic_value (get_limb E s i) = limb_of (get_int E s) i"
  by (simp add: get_limb_def dyn_rspan_read get_limb_of get_int_def)

lemma put_unnormal:
  "normal_type b = Unnormal \<Longrightarrow> put b i v = b\<lparr>data := (data b)[i := dynamic_value v]\<rparr>"
  by (simp add: put_def span_write_def written_limb_def)

text \<open>What a row leaves alone, and what it computes, modulo the size of the local array.\<close>

definition multiply_inner_inv ::
    "'a::len word eval \<Rightarrow> 'a word rspan \<Rightarrow> 'a word rspan \<Rightarrow> nat \<Rightarrow> 'a word bit_span \<Rightarrow> nat
     \<Rightarrow> 'a word bit_span \<times> 'a word arg \<Rightarrow> bool" where
  "multiply_inner_inv E left right i b j = (\<lambda>(b', c).
     (\<exists>d. b' = b\<lparr>data := d\<rparr> \<and> length d = length (data b)
        \<and> (\<forall>k. \<not> (i \<le> k \<and> k < i + j) \<longrightarrow> d ! k = data b ! k)
        \<and> (limbs_val (\<lambda>k. d ! (i + k)) j + 2 ^ (LENGTH('a) * j) * uint (dynamic_value c))
            mod 2 ^ (LENGTH('a) * (limb_size b - i))
          = (limbs_val (\<lambda>k. if i = 0 then 0 else data b ! (i + k)) j
             + limbs_val (limb_of (get_int E left) :: nat \<Rightarrow> 'a word) j * uint (limb_of (get_int E right) i :: 'a word))
            mod 2 ^ (LENGTH('a) * (limb_size b - i))))"

lemma mod_add_step:
  fixes v :: int
  assumes "(v + P * c) mod M = w mod M" and "(P * (l + B * u)) mod M = (P * (x + c)) mod M"
  shows "(v + l * P + P * B * u) mod M = (w + P * x) mod M"
proof -
  have "(v + l * P + P * B * u) mod M = (v + P * (l + B * u)) mod M" by (simp add: algebra_simps)
  also have "\<dots> = (v + P * (x + c)) mod M" using assms(2) by (metis mod_add_right_eq)
  also have "\<dots> = ((v + P * c) + P * x) mod M" by (simp add: algebra_simps)
  also have "\<dots> = (w + P * x) mod M" using assms(1) by (metis mod_add_left_eq)
  finally show ?thesis .
qed

lemma multiply_step_inv:
  assumes "sycl_ok (E :: 'a::len word eval)" and "normal_type b = Unnormal"
    and "length (data b) = limb_size b" and "i < rspan_limb_size right" and "j < rspan_limb_size left"
    and "i + j < limb_size (b :: 'a word bit_span)" and "limb_size b \<le> n"
    and "multiply_inner_inv E left right i b j s"
  shows "multiply_inner_inv E left right i b (Suc j) (multiply_step E left right n i j s)"
proof -
  let ?L = "LENGTH('a)" and ?M = "2 ^ (LENGTH('a) * (limb_size b - i)) :: int"
  let ?P = "2 ^ (LENGTH('a) * j) :: int" and ?B = "2 ^ LENGTH('a) :: int"
  let ?l = "limb_of (get_int E left) :: nat \<Rightarrow> 'a word" and ?r = "limb_of (get_int E right) i :: 'a word"
  let ?cur = "\<lambda>k. if i = 0 then 0 else data b ! (i + k)"
  obtain b' c where s: "s = (b', c)" by (rule prod.exhaust)
  obtain d where d: "b' = b\<lparr>data := d\<rparr>" "length d = length (data b)"
    "\<And>k. \<not> (i \<le> k \<and> k < i + j) \<Longrightarrow> d ! k = data b ! k"
    and inv: "(limbs_val (\<lambda>k. d ! (i + k)) j + ?P * uint (dynamic_value c)) mod ?M
      = (limbs_val ?cur j + limbs_val ?l j * uint ?r) mod ?M"
    using assms(8) unfolding multiply_inner_inv_def s prod.case by blast
  let ?lv = "get_limb E left j" and ?rv = "get_limb E right i"
  let ?current = "if i = 0 then Const 0 else get_limb E (Bits b') (i + j)"
  have vals: "dynamic_value ?lv = ?l j" "dynamic_value ?rv = ?r"
    using assms(1,4,5) by (simp_all add: get_limb_of_int)
  have cur: "dynamic_value ?current = ?cur j" using d(3) [of "i + j"] by (simp add: d(1))
  obtain lo hi where step: "multiply_step E left right n i j s = (put b' (i + j) lo, hi)"
    and eq: "(?P * (uint (dynamic_value lo) + ?B * uint (dynamic_value hi))) mod ?M
      = (?P * (uint (?l j) * uint ?r + uint (?cur j) + uint (dynamic_value c))) mod ?M"
  proof (cases "i + j + 1 < n")
    case True
    let ?p = "core_extended_multiply_add E ?lv ?rv ?current c"
    have "multiply_step E left right n i j s = (put b' (i + j) (mul_lower ?p), mul_upper ?p)"
      using True by (simp add: multiply_step_def s Let_def)
    moreover have "uint (dynamic_value (mul_lower ?p)) + ?B * uint (dynamic_value (mul_upper ?p))
      = uint (?l j) * uint ?r + uint (?cur j) + uint (dynamic_value c)"
      using mul_exact_extended_multiply_add [OF assms(1), of ?lv ?rv ?current c]
      unfolding mul_exact_def vals cur .
    ultimately show ?thesis using that by metis
  next
    case False
    let ?p = "core_multiply_add ?lv ?rv ?current c"
    let ?v = "uint (?l j) * uint ?r + uint (?cur j) + uint (dynamic_value c)"
    have n: "limb_size b - i = Suc j" using False assms(6,7) by linarith
    have M: "?M = ?P * ?B" unfolding n by (simp add: power_add mult.commute)
    have "uint (dynamic_value ?p) = ?v mod ?B"
      unfolding dyn_multiply_add vals cur
      by (simp add: uint_word_ariths mod_simps add.assoc)
    then have "?P * uint (dynamic_value ?p) = (?P * ?v) mod ?M"
      unfolding M by (simp only: mult_mod_right)
    then have "(?P * (uint (dynamic_value ?p) + ?B * uint (0 :: 'a word))) mod ?M = (?P * ?v) mod ?M"
      by simp
    moreover have "multiply_step E left right n i j s = (put b' (i + j) ?p, Const 0)"
      using False by (simp add: multiply_step_def s Let_def)
    ultimately show ?thesis using that by simp
  qed
  let ?d = "d[i + j := dynamic_value lo]"
  have b'': "put b' (i + j) lo = b\<lparr>data := ?d\<rparr>"
    using assms(2) by (simp add: d(1) put_unnormal)
  have ij: "i + j < length d" using assms(3,6) d(2) by simp
  have "limbs_val (\<lambda>k. ?d ! (i + k)) j = limbs_val (\<lambda>k. d ! (i + k)) j"
    by (rule limbs_val_cong) simp
  moreover have "?d ! (i + j) = dynamic_value lo" using ij by simp
  ultimately have v: "limbs_val (\<lambda>k. ?d ! (i + k)) (Suc j) + 2 ^ (?L * Suc j) * uint (dynamic_value hi)
    = limbs_val (\<lambda>k. d ! (i + k)) j + uint (dynamic_value lo) * ?P + ?P * ?B * uint (dynamic_value hi)"
    by (simp add: power_add mult.commute)
  have "(limbs_val (\<lambda>k. ?d ! (i + k)) (Suc j) + 2 ^ (?L * Suc j) * uint (dynamic_value hi)) mod ?M
    = (limbs_val ?cur j + limbs_val ?l j * uint ?r + ?P * (uint (?l j) * uint ?r + uint (?cur j))) mod ?M"
    unfolding v by (rule mod_add_step [OF inv eq])
  also have "limbs_val ?cur j + limbs_val ?l j * uint ?r + ?P * (uint (?l j) * uint ?r + uint (?cur j))
    = limbs_val ?cur (Suc j) + limbs_val ?l (Suc j) * uint ?r"
    by (simp add: algebra_simps)
  finally show ?thesis
    unfolding multiply_inner_inv_def step prod.case b''
    using d(2,3) by (intro exI [of _ ?d]) (auto simp: nth_list_update)
qed

section \<open>A row\<close>

lemma multiply_inner_run:
  assumes "sycl_ok (E :: 'a::len word eval)" and "normal_type b = Unnormal"
    and "length (data b) = limb_size b" and "i < rspan_limb_size right" and "i < limb_size (b :: 'a word bit_span)"
    and "limb_size b \<le> n" and "m \<le> min (limb_size b - i) (rspan_limb_size left)"
  shows "multiply_inner_inv E left right i b m (scan_range m (multiply_step E left right n i) (b, Const 0))"
  using assms(7)
proof (induction m)
  case 0
  show ?case by (simp add: multiply_inner_inv_def) (rule exI [of _ "data b"], simp)
next
  case (Suc m)
  then have "m < rspan_limb_size left" "i + m < limb_size b" unfolding min.bounded_iff by linarith+
  from multiply_step_inv [OF assms(1-4) this assms(6)] Suc show ?case by simp
qed

text \<open>The value of the local array before row \<open>i\<close>: the limbs the rows before have written.\<close>

definition row_value :: "'a::len word bit_span \<Rightarrow> nat \<Rightarrow> nat \<Rightarrow> int" where
  "row_value b left_limb_size i =
     (if i = 0 then 0 else limbs_val ((!) (data b)) (min (limb_size b) (i + left_limb_size)))"

lemma multiply_row_value:
  assumes "sycl_ok (E :: 'a::len word eval)" and "normal_type b = Unnormal"
    and "length (data b) = limb_size b" and "i < rspan_limb_size right" and "i < limb_size (b :: 'a word bit_span)"
    and "limb_size b \<le> n"
  shows "\<exists>d. multiply_row E left right n i b = b\<lparr>data := d\<rparr> \<and> length d = limb_size b
    \<and> row_value (b\<lparr>data := d\<rparr>) (rspan_limb_size left) (Suc i) mod modulus_of b
      = (row_value b (rspan_limb_size left) i
         + limbs_val (limb_of (get_int E left) :: nat \<Rightarrow> 'a word) (rspan_limb_size left)
           * uint (limb_of (get_int E right) i :: 'a word) * 2 ^ (LENGTH('a) * i)) mod modulus_of b"
proof -
  let ?L = "LENGTH('a)" and ?N = "limb_size b" and ?ll = "rspan_limb_size left"
  let ?lo = "min (?N - i) ?ll"
  let ?l = "limb_of (get_int E left) :: nat \<Rightarrow> 'a word" and ?r = "uint (limb_of (get_int E right) i :: 'a word)"
  let ?cur = "\<lambda>k. if i = 0 then 0 else data b ! (i + k)"
  let ?M = "2 ^ (?L * (?N - i)) :: int" and ?I = "2 ^ (?L * i) :: int"
  obtain b' c where run: "scan_range ?lo (multiply_step E left right n i) (b, Const 0) = (b', c)"
    by (rule prod.exhaust)
  obtain d where d: "b' = b\<lparr>data := d\<rparr>" "length d = length (data b)"
    "\<And>k. \<not> (i \<le> k \<and> k < i + ?lo) \<Longrightarrow> d ! k = data b ! k"
    and inv: "(limbs_val (\<lambda>k. d ! (i + k)) ?lo + 2 ^ (?L * ?lo) * uint (dynamic_value c)) mod ?M
      = (limbs_val ?cur ?lo + limbs_val ?l ?lo * ?r) mod ?M"
    using multiply_inner_run [OF assms order_refl, of left]
    unfolding multiply_inner_inv_def run prod.case by blast
  have P: "modulus_of b = ?I * ?M"
    using assms(5) by (simp flip: power_add distrib_left)
  have low: "limbs_val ((!) d) i = limbs_val ((!) (data b)) i"
    by (rule limbs_val_cong) (simp add: d(3))
  have R: "row_value b ?ll i = (if i = 0 then 0 else limbs_val ((!) (data b)) i) + ?I * limbs_val ?cur ?lo"
  proof (cases "i = 0")
    case True
    then show ?thesis by (simp add: row_value_def limbs_val_zero)
  next
    case False
    have "min ?N (i + ?ll) = i + ?lo" using assms(5) by linarith
    with False show ?thesis by (simp add: row_value_def limbs_val_add)
  qed
  define v where "v = limbs_val ?cur ?lo + limbs_val ?l ?ll * ?r"
  have goal: "(limbs_val ((!) d) i + ?I * x) mod modulus_of b = (row_value b ?ll i + limbs_val ?l ?ll * ?r * ?I) mod modulus_of b"
    if "x mod ?M = v mod ?M" for x
  proof -
    have "(?I * x) mod modulus_of b = (?I * v) mod modulus_of b"
      unfolding P using that by (simp flip: mult_mod_right)
    then have "(limbs_val ((!) d) i + ?I * x) mod modulus_of b = (limbs_val ((!) d) i + ?I * v) mod modulus_of b"
      by (metis mod_add_right_eq)
    moreover have "limbs_val ((!) d) i + ?I * v = row_value b ?ll i + limbs_val ?l ?ll * ?r * ?I"
      unfolding R low v_def by (cases "i = 0") (simp_all add: algebra_simps)
    ultimately show ?thesis by simp
  qed
  show ?thesis
  proof (cases "?N > ?ll + i")
    case True
    then have lo: "?lo = ?ll" by linarith
    let ?d = "d[i + ?ll := dynamic_value c]"
    have "multiply_row E left right n i b = b\<lparr>data := ?d\<rparr>"
      unfolding multiply_row_def Let_def run prod.case d(1) using True assms(2) by (simp add: put_unnormal)
    moreover have "row_value (b\<lparr>data := ?d\<rparr>) ?ll (Suc i) = limbs_val ((!) d) i
        + ?I * (limbs_val (\<lambda>k. d ! (i + k)) ?ll + 2 ^ (?L * ?ll) * uint (dynamic_value c))"
    proof -
      have "min ?N (Suc i + ?ll) = i + Suc ?ll" using True by simp
      moreover have "limbs_val ((!) ?d) i = limbs_val ((!) d) i" by (rule limbs_val_cong) simp
      moreover have "limbs_val (\<lambda>k. ?d ! (i + k)) ?ll = limbs_val (\<lambda>k. d ! (i + k)) ?ll"
        by (rule limbs_val_cong) simp
      moreover have "?d ! (i + ?ll) = dynamic_value c" using True assms(3) d(2) by simp
      ultimately show ?thesis
        by (simp add: row_value_def limbs_val_add [of _ i "Suc ?ll"] algebra_simps del: add_Suc_right)
    qed
    moreover have "(limbs_val (\<lambda>k. d ! (i + k)) ?ll + 2 ^ (?L * ?ll) * uint (dynamic_value c)) mod ?M = v mod ?M"
      using inv unfolding lo v_def .
    ultimately show ?thesis
      using goal d(2) assms(3) by (intro exI [of _ ?d]) simp
  next
    case False
    then have lo: "?lo = ?N - i" by linarith
    have "multiply_row E left right n i b = b\<lparr>data := d\<rparr>"
      unfolding multiply_row_def Let_def run prod.case d(1) using False by simp
    moreover have "row_value (b\<lparr>data := d\<rparr>) ?ll (Suc i) = limbs_val ((!) d) i + ?I * limbs_val (\<lambda>k. d ! (i + k)) ?lo"
    proof -
      have m: "min ?N (Suc i + ?ll) = i + ?lo" using False assms(5) by linarith
      have "limbs_val ((!) d) (min ?N (Suc i + ?ll)) = limbs_val ((!) d) i + ?I * limbs_val (\<lambda>k. d ! (i + k)) ?lo"
        unfolding m by (rule limbs_val_add)
      then show ?thesis unfolding row_value_def by simp
    qed
    moreover have "limbs_val (\<lambda>k. d ! (i + k)) ?lo mod ?M = v mod ?M"
    proof -
      have "limbs_val ?l ?lo = limbs_val ?l ?ll mod ?M"
        unfolding lo using limbs_val_mod [of "?N - i" ?ll ?l] False assms(5) by simp
      then have "v mod ?M = (limbs_val ?cur ?lo + limbs_val ?l ?lo * ?r) mod ?M"
        unfolding v_def by (intro mod_add_mult_cong) simp
      with inv show ?thesis unfolding lo by simp
    qed
    ultimately show ?thesis
      using goal d(2) assms(3) by (intro exI [of _ d]) simp
  qed
qed

section \<open>The product\<close>

lemma multiply_rows:
  assumes "sycl_ok (E :: 'a::len word eval)" and "normal_type b = Unnormal"
    and "length (data b) = limb_size b" and "limb_size (b :: 'a word bit_span) \<le> n"
    and "m \<le> limb_size b" and "m \<le> rspan_limb_size right"
  shows "\<exists>d. for_range m (multiply_row E left right n) b = b\<lparr>data := d\<rparr> \<and> length d = limb_size b
    \<and> row_value (b\<lparr>data := d\<rparr>) (rspan_limb_size left) m mod modulus_of b
      = (limbs_val (limb_of (get_int E left) :: nat \<Rightarrow> 'a word) (rspan_limb_size left)
         * limbs_val (limb_of (get_int E right) :: nat \<Rightarrow> 'a word) m) mod modulus_of b"
  using assms(5,6)
proof (induction m)
  case 0
  show ?case using assms(3) by (intro exI [of _ "data b"]) (simp add: row_value_def)
next
  case (Suc m)
  let ?l = "limbs_val (limb_of (get_int E left) :: nat \<Rightarrow> 'a word) (rspan_limb_size left)"
  let ?r = "limbs_val (limb_of (get_int E right) :: nat \<Rightarrow> 'a word)"
  obtain d where d: "for_range m (multiply_row E left right n) b = b\<lparr>data := d\<rparr>" "length d = limb_size b"
    "row_value (b\<lparr>data := d\<rparr>) (rspan_limb_size left) m mod modulus_of b = (?l * ?r m) mod modulus_of b"
    using Suc by auto
  let ?b = "b\<lparr>data := d\<rparr>"
  obtain d' where d': "multiply_row E left right n m ?b = b\<lparr>data := d'\<rparr>" "length d' = limb_size b"
    "row_value (b\<lparr>data := d'\<rparr>) (rspan_limb_size left) (Suc m) mod modulus_of b
      = (row_value ?b (rspan_limb_size left) m + ?l * uint (limb_of (get_int E right) m :: 'a word) * 2 ^ (LENGTH('a) * m))
        mod modulus_of b"
    using multiply_row_value [OF assms(1), of ?b m right n left] Suc.prems d(2) assms(2,4) by auto
  have "row_value (b\<lparr>data := d'\<rparr>) (rspan_limb_size left) (Suc m) mod modulus_of b
    = (?l * ?r m + ?l * uint (limb_of (get_int E right) m :: 'a word) * 2 ^ (LENGTH('a) * m)) mod modulus_of b"
    unfolding d'(3) by (rule mod_add_cong1 [OF d(3)])
  also have "?l * ?r m + ?l * uint (limb_of (get_int E right) m :: 'a word) * 2 ^ (LENGTH('a) * m) = ?l * ?r (Suc m)"
    by (simp add: algebra_simps)
  finally show ?case using d(1) d'(1,2) by auto
qed

text \<open>Copying the local array to the result and filling with zeros.\<close>

lemma for_range_split: "m \<le> n \<Longrightarrow> for_range_from m n f (for_range m f s) = for_range n f s"
proof -
  assume "m \<le> n"
  then obtain k where "n = m + k" using le_Suc_ex by blast
  then show ?thesis by (simp add: for_range_def for_range_from_def upt_add_eq_append [of 0 m k])
qed

lemma limb_size_for_range_put [simp]: "limb_size (for_range k (\<lambda>i r. put r i (v i)) b) = limb_size b"
  by (induction k) (simp_all add: put_def span_write_def)

lemma copy_and_fill:
  assumes "length (data b) = limb_size (b :: 'a::len word bit_span)" and "m \<le> limb_size b"
  shows "for_range_from m (limb_size b) (\<lambda>i r. span_write r i (Const 0) Unnormal)
      (for_range m (\<lambda>i r. put r i (v i)) b)
    = span_written b (\<lambda>i. if i < m then v i else Const 0) (normal_type b)"
proof -
  let ?f = "\<lambda>i r. put r i (if i < m then v i else Const 0)"
  have "for_range m (\<lambda>i r. put r i (v i)) b = for_range m ?f b"
    unfolding for_range_def by (rule fold_cong) simp_all
  moreover have "limb_size (for_range k ?f b) = limb_size b" for k by simp
  moreover have "for_range_from m (limb_size b) (\<lambda>i r. span_write r i (Const 0) Unnormal) r
      = for_range_from m (limb_size b) ?f r" if "limb_size r = limb_size b" for r
  proof -
    have "for_range_from m k (\<lambda>i r. span_write r i (Const 0) Unnormal) r = for_range_from m k ?f r
        \<and> limb_size (for_range_from m k ?f r) = limb_size b" if "m \<le> k" "k \<le> limb_size b" for k
      using that
    proof (induction k)
      case 0
      then show ?case using \<open>limb_size r = limb_size b\<close> by simp
    next
      case (Suc k)
      show ?case
      proof (cases "m = Suc k")
        case True
        then show ?thesis using \<open>limb_size r = limb_size b\<close> by simp
      next
        case False
        then have "m \<le> k" "k < limb_size b" using Suc.prems by simp_all
        with Suc show ?thesis
          by (simp add: put_def span_write_def written_limb_zero)
      qed
    qed
    from this [OF assms(2) order_refl] show ?thesis by simp
  qed
  ultimately show ?thesis
    using for_range_split [OF assms(2), of ?f b] for_put [OF assms(1), of ?f "\<lambda>i. if i < m then v i else Const 0"]
    by simp
qed

lemma limb_size_bit_array:
  "limb_size (bit_array bits sig nrm d :: 'a::len word bit_span) = limb_size_for TYPE('a) bits"
  by (simp add: limb_size_def bit_array_def)

lemma limb_size_for_add:
  "limb_size_for TYPE('a::len) (m + n) \<le> limb_size_for TYPE('a) m + limb_size_for TYPE('a) n"
proof -
  have "m + n \<le> (limb_size_for TYPE('a) m + limb_size_for TYPE('a) n) * LENGTH('a)"
    using div_ceil_le_mult [of "LENGTH('a)" m] div_ceil_le_mult [of "LENGTH('a)" n]
    unfolding limb_size_for_def distrib_right by (simp only: mult.commute [of "div_ceil _ _"]) simp
  from div_ceil_mono [OF this, of "LENGTH('a)"] show ?thesis by (simp add: limb_size_for_def)
qed

lemma nat_lt_of_int_pow: "x < (2::int) ^ m \<Longrightarrow> m \<le> n \<Longrightarrow> x < 2 ^ n"
  by (rule order_less_le_trans [of _ "2 ^ m"]) (simp_all add: power_increasing)

text \<open>
  The local array holds the product modulo its size, as soon as the right operand has a limb (or the
  local array has none).
\<close>

lemma num_multiply_intermediate:
  assumes "sycl_ok (E :: 'a::len word eval)" and "normal_type a = Unnormal" and "length (data a) = limb_size (a :: 'a word bit_span)"
    and "limb_size a \<le> n" and "limb_size a \<le> rspan_limb_size l + rspan_limb_size r"
    and "0 < rspan_limb_size r \<or> limb_size a = 0"
    and "0 \<le> get_int E l" "get_int E l < 2 ^ (LENGTH('a) * rspan_limb_size l)"
    and "0 \<le> get_int E r" "get_int E r < 2 ^ (LENGTH('a) * rspan_limb_size r)"
  shows "\<exists>d. for_range (min (limb_size a) (rspan_limb_size r)) (multiply_row E l r n) a = a\<lparr>data := d\<rparr>
    \<and> length d = limb_size a \<and> limbs_val ((!) d) (limb_size a) = (get_int E l * get_int E r) mod modulus_of a"
proof -
  let ?m = "min (limb_size a) (rspan_limb_size r)" and ?L = "LENGTH('a)"
  obtain d where d: "for_range ?m (multiply_row E l r n) a = a\<lparr>data := d\<rparr>" "length d = limb_size a"
    "row_value (a\<lparr>data := d\<rparr>) (rspan_limb_size l) ?m mod modulus_of a
      = (limbs_val (limb_of (get_int E l) :: nat \<Rightarrow> 'a word) (rspan_limb_size l)
         * limbs_val (limb_of (get_int E r) :: nat \<Rightarrow> 'a word) ?m) mod modulus_of a"
    using multiply_rows [OF assms(1-4), of ?m r l] by auto
  have l: "limbs_val (limb_of (get_int E l) :: nat \<Rightarrow> 'a word) (rspan_limb_size l) = get_int E l"
    using assms(7,8) by (simp add: limbs_val_limb_of)
  have r: "limbs_val (limb_of (get_int E r) :: nat \<Rightarrow> 'a word) ?m mod modulus_of a = get_int E r mod modulus_of a"
  proof (cases "limb_size a \<le> rspan_limb_size r")
    case True
    then show ?thesis by (simp add: limbs_val_limb_of min_absorb1)
  next
    case False
    then show ?thesis using assms(9,10) by (simp add: limbs_val_limb_of min_absorb2)
  qed
  have v: "row_value (a\<lparr>data := d\<rparr>) (rspan_limb_size l) ?m = limbs_val ((!) d) (limb_size a)"
  proof (cases "limb_size a = 0")
    case False
    then have "?m \<noteq> 0" "min (limb_size a) (?m + rspan_limb_size l) = limb_size a"
      using assms(5,6) by linarith+
    then show ?thesis unfolding row_value_def by (simp only: if_False limb_size_update) simp
  qed (simp add: row_value_def)
  have "limbs_val ((!) d) (limb_size a) mod modulus_of a = (get_int E l * get_int E r) mod modulus_of a"
    using d(3) r unfolding v l by (metis mod_mult_right_eq)
  then show ?thesis using d(1,2) by auto
qed

text \<open>If no limb is filled up with zeros, the operands may have stray bits above their size.\<close>

lemma num_multiply_general:
  assumes "sycl_ok (E :: 'a::len word eval)" and "length (data b) = limb_size (b :: 'a word bit_span)"
    and "length garbage = limb_size_for TYPE('a) (min (bit_size b) (rspan_bit_size l + rspan_bit_size r))"
    and "limbs_fit l" and "limbs_fit r"
    and "0 \<le> get_int E l" "get_int E l < 2 ^ (LENGTH('a) * rspan_limb_size l)"
    and "0 \<le> get_int E r" "get_int E r < 2 ^ (LENGTH('a) * rspan_limb_size r)"
    and "0 < rspan_bit_size r \<or> min (bit_size b) (rspan_bit_size l) = 0"
    and "get_int E l < 2 ^ rspan_bit_size l \<and> get_int E r < 2 ^ rspan_bit_size r
      \<or> bit_size b \<le> rspan_bit_size l + rspan_bit_size r"
  shows "num_multiply E garbage b l r = store b (get_int E l * get_int E r)"
proof -
  let ?L = "LENGTH('a)" and ?x = "get_int E l * get_int E r"
  let ?bits = "min (bit_size b) (rspan_bit_size l + rspan_bit_size r)"
  let ?a = "bit_array ?bits (signedness b) Unnormal garbage :: 'a word bit_span"
  let ?n = "limb_size_for TYPE('a) ?bits"
  have a: "normal_type ?a = Unnormal" "length (data ?a) = limb_size ?a" "limb_size ?a = ?n"
    using assms(3) by (simp_all add: limb_size_bit_array) (simp_all add: bit_array_def)
  have n: "?n \<le> limb_size b"
    by (simp add: limb_size_def limb_size_for_def div_ceil_mono)
  have ls: "rspan_limb_size l = limb_size_for TYPE('a) (rspan_bit_size l)" "rspan_limb_size r = limb_size_for TYPE('a) (rspan_bit_size r)"
    using assms(4,5) by (simp_all add: limbs_fit_def limb_size_for_def)
  have "?n \<le> limb_size_for TYPE('a) (rspan_bit_size l + rspan_bit_size r)"
    by (simp add: limb_size_for_def div_ceil_mono)
  then have n2: "?n \<le> rspan_limb_size l + rspan_limb_size r"
    using limb_size_for_add [of "rspan_bit_size l" "rspan_bit_size r", where 'a = 'a] ls by linarith
  have n3: "0 < rspan_limb_size r \<or> ?n = 0"
    using assms(10) ls div_ceil_pos_iff [of ?L "rspan_bit_size r"]
    by (auto simp: limb_size_for_def)
  obtain d where d: "for_range (min ?n (rspan_limb_size r)) (multiply_row E l r (limb_size b)) ?a = ?a\<lparr>data := d\<rparr>"
    "length d = ?n" "limbs_val ((!) d) ?n = ?x mod 2 ^ (?L * ?n)"
    using num_multiply_intermediate [OF assms(1) a(1,2), of "limb_size b" l r] n n2 n3 assms(6-9)
    unfolding a(3) by auto
  have "num_multiply E garbage b l r
    = span_written b (\<lambda>i. if i < ?n then Dyn (d ! i) else Const 0) (normal_type b)"
    using copy_and_fill [OF assms(2) n, of "\<lambda>i. Dyn (d ! i)"]
    by (simp add: num_multiply_def Let_def d(1) a(3))
  also have "\<dots> = store b ?x"
  proof (rule store_limbI)
    fix i assume i: "i < limb_size b"
    show "dynamic_value (if i < ?n then Dyn (d ! i) else Const 0) = limb_of ?x i"
    proof (cases "i < ?n")
      case True
      then show ?thesis
        using limb_of_limbs_val [of i ?n "(!) d"] limb_of_mod [of i ?n ?x, where 'a = 'a] by (simp add: d(3))
    next
      case False
      then have bits: "rspan_bit_size l + rspan_bit_size r < bit_size b"
        using i by (auto simp: limb_size_def min_def split: if_splits)
      then have "?bits = rspan_bit_size l + rspan_bit_size r" by simp
      moreover have "?x < 2 ^ (rspan_bit_size l + rspan_bit_size r)"
        using assms(6,8,11) bits by (simp add: power_add mult_strict_mono')
      ultimately have "?x < 2 ^ (?L * i)"
      proof -
        assume b: "?bits = rspan_bit_size l + rspan_bit_size r" and x: "?x < 2 ^ (rspan_bit_size l + rspan_bit_size r)"
        have "?bits \<le> ?L * ?n" by (simp add: limb_size_for_def div_ceil_le_mult)
        also have "\<dots> \<le> ?L * i" using False by simp
        finally show ?thesis using x unfolding b by (rule nat_lt_of_int_pow [rotated])
      qed
      then have "?x div 2 ^ (?L * i) = 0" using assms(6,8) by (simp add: div_pos_pos_trivial)
      with False show ?thesis by (simp add: limb_of_def)
    qed
  qed
  finally show ?thesis .
qed

lemma num_multiply_eq:
  assumes "sycl_ok (E :: 'a::len word eval)" and "length (data b) = limb_size (b :: 'a word bit_span)"
    and "length garbage = limb_size_for TYPE('a) (min (bit_size b) (rspan_bit_size l + rspan_bit_size r))"
    and "limbs_fit l" and "limbs_fit r"
    and "0 \<le> get_int E l" "get_int E l < 2 ^ rspan_bit_size l"
    and "0 \<le> get_int E r" "get_int E r < 2 ^ rspan_bit_size r"
    and "0 < rspan_bit_size r \<or> min (bit_size b) (rspan_bit_size l) = 0"
  shows "num_multiply E garbage b l r = store b (get_int E l * get_int E r)"
proof -
  have "get_int E l < 2 ^ (LENGTH('a) * rspan_limb_size l)" "get_int E r < 2 ^ (LENGTH('a) * rspan_limb_size r)"
    using assms(4,5) by (intro nat_lt_of_int_pow [OF assms(7)] nat_lt_of_int_pow [OF assms(9)];
      simp add: limbs_fit_def div_ceil_le_mult)+
  then show ?thesis using assms by (intro num_multiply_general) auto
qed

text \<open>Without a limb of the right operand no row is computed: the result is a copy of the local array.\<close>

lemma num_multiply_null:
  assumes "span_shape (b :: 'a::len word bit_span)" and "is_unsigned (signedness b)"
    and "rspan_bit_size r = 0" and "rspan_limb_size r = 0"
    and "length garbage = limb_size_for TYPE('a) (min (bit_size b) (rspan_bit_size l))"
  shows "span_int (num_multiply E garbage b l r) = limbs_int garbage mod 2 ^ bit_size b"
proof -
  let ?a = "bit_array (min (bit_size b) (rspan_bit_size l)) (signedness b) Unnormal garbage :: 'a word bit_span"
  let ?n = "limb_size_for TYPE('a) (min (bit_size b) (rspan_bit_size l))"
  have len: "length (data b) = limb_size b" using assms(1) by (simp add: span_shape_def)
  have a: "limb_size ?a = ?n" "data ?a = garbage" by (simp_all add: limb_size_bit_array) (simp add: bit_array_def)
  have n: "?n \<le> limb_size b" by (simp add: limb_size_def limb_size_for_def div_ceil_mono)
  have "num_multiply E garbage b l r
    = span_written b (\<lambda>i. if i < ?n then Dyn (garbage ! i) else Const 0) (normal_type b)"
    using copy_and_fill [OF len n, of "\<lambda>i. Dyn (garbage ! i)"]
    by (simp add: num_multiply_def Let_def a assms(3,4))
  also have "\<dots> = store b (limbs_int garbage)"
  proof (rule store_limbI)
    fix i
    have "limb_of (limbs_int garbage) i = garbage ! i" if "i < ?n"
      using limb_of_limbs_val [of i ?n "(!) garbage"] that assms(5) by (simp add: limbs_int_nth)
    moreover have "limb_of (limbs_int garbage) i = (0 :: 'a word)" if "\<not> i < ?n"
    proof -
      have "limbs_int garbage < 2 ^ (LENGTH('a) * ?n)" using limbs_int_less [of garbage] assms(5) by simp
      also have "\<dots> \<le> 2 ^ (LENGTH('a) * i)" using that by (intro power_increasing mult_le_mono2) simp_all
      finally have "limbs_int garbage div 2 ^ (LENGTH('a) * i) = 0" by (simp add: limbs_int_nth div_pos_pos_trivial)
      then show ?thesis by (simp add: limb_of_def)
    qed
    ultimately show "dynamic_value (if i < ?n then Dyn (garbage ! i) else Const 0) = limb_of (limbs_int garbage) i" by simp
  qed
  finally show ?thesis
    using span_int_store [OF assms(1)] assms(2) by (simp add: wrap_def is_unsigned_iff take_bit_eq_mod)
qed

section \<open>Properties\<close>

text \<open>C2: Multiplication of unsigned views stores the product, reduced to the type of the result, whatever the
  uninitialized local array holds, for operands and results of any size, if the right operand has a bit
  (or no limb is computed).\<close>

theorem num_multiply_correct:
  assumes "sycl_ok (E :: 'a::len word eval)" and "span_shape (b :: 'a word bit_span)" and "is_unsigned (signedness b)"
    and "good_view l" and "good_view r"
    and "is_unsigned (rspan_signedness l)" and "is_unsigned (rspan_signedness r)"
    and "length garbage = limb_size_for TYPE('a) (min (bit_size b) (rspan_bit_size l + rspan_bit_size r))"
    and "0 < rspan_bit_size r \<or> min (bit_size b) (rspan_bit_size l) = 0"
  shows "span_int (num_multiply E garbage b l r) = (rspan_int l * rspan_int r) mod 2 ^ bit_size b
    \<and> span_ok (num_multiply E garbage b l r)"
proof -
  have len: "length (data b) = limb_size b" using assms(2) by (simp add: span_shape_def)
  have ok: "rspan_ok l" "rspan_ok r" "limbs_fit l" "limbs_fit r"
    "0 \<le> rspan_int l" "rspan_int l < 2 ^ rspan_bit_size l" "0 \<le> rspan_int r" "rspan_int r < 2 ^ rspan_bit_size r"
    using assms(4-7) by (simp_all add: good_view_def in_type_def is_unsigned_iff)
  note i = get_int_rspan_int [OF assms(1) ok(1)] get_int_rspan_int [OF assms(1) ok(2)]
  have "num_multiply E garbage b l r = store b (rspan_int l * rspan_int r)"
    using num_multiply_eq [OF assms(1) len assms(8) ok(3,4)] ok assms(9) unfolding i by simp
  then show ?thesis
    using store_facts [OF assms(2)] assms(3) by (simp add: wrap_def is_unsigned_iff take_bit_eq_mod)
qed

theorem num_multiply_correct_witness:
  "span_int (num_multiply sycl_device [3, 1, 4] (sample [0, 0, 0]) (Bits (sample [255, 255])) (Bits (sample [255]))) = 16711425"
  using num_multiply_correct [OF sycl_ok_device, of "sample [0, 0, 0]" "Bits (sample [255, 255])" "Bits (sample [255])" "[3, 1, 4]"]
  by (simp add: good_sample is_unsigned_def limb_size_for_def div_ceil_def)

text \<open>C36: The condition on the right operand is needed. Times an operand without bits, at run time, the result is the
  contents of the uninitialized local array, reduced to the type of the result, for every left operand and every result type: no limb of the array is ever
  written. So every number that fits into the array is a possible result, where the product is 0. (In a constant expression the compiler
  would reject the read; the multiplication of big integers never gets there, since its result has no bits then.)\<close>

theorem num_multiply_reads_uninitialized:
  assumes "span_shape (b :: 'a::len word bit_span)" and "is_unsigned (signedness b)"
    and "rspan_bit_size r = 0" and "rspan_limb_size r = 0"
  shows "(\<forall>garbage. length garbage = limb_size_for TYPE('a) (min (bit_size b) (rspan_bit_size l))
        \<longrightarrow> span_int (num_multiply (Runtime hi sel) garbage b l r) = limbs_int garbage mod 2 ^ bit_size b)
    \<and> (\<forall>x. 0 \<le> x \<and> x < 2 ^ min (bit_size b) (rspan_bit_size l)
        \<longrightarrow> (\<exists>garbage. length garbage = limb_size_for TYPE('a) (min (bit_size b) (rspan_bit_size l))
              \<and> span_int (num_multiply (Runtime hi sel) garbage b l r) = x))"
proof (intro conjI allI impI)
  let ?m = "min (bit_size b) (rspan_bit_size l)"
  let ?n = "limb_size_for TYPE('a) ?m"
  note null = num_multiply_null [OF assms, where E = "Runtime hi sel" and l = l]
  show "length garbage = ?n \<Longrightarrow> span_int (num_multiply (Runtime hi sel) garbage b l r) = limbs_int garbage mod 2 ^ bit_size b" for garbage
    by (rule null)
  fix x :: int assume x: "0 \<le> x \<and> x < 2 ^ ?m"
  let ?g = "map (limb_of x) [0..<?n] :: 'a word list"
  have "(2 :: int) ^ ?m \<le> 2 ^ (LENGTH('a) * ?n)" "(2 :: int) ^ ?m \<le> 2 ^ bit_size b"
    by (intro power_increasing; simp add: limb_size_for_def div_ceil_le_mult)+
  then have fits: "x < 2 ^ (LENGTH('a) * ?n)" "x < 2 ^ bit_size b" using x by linarith+
  have "limbs_int ?g = limbs_val (limb_of x :: nat \<Rightarrow> 'a word) ?n" by (rule limbs_int_map)
  then have "limbs_int ?g = x" using x fits(1) by (simp add: limbs_val_limb_of)
  moreover have "length ?g = ?n" by simp
  ultimately show "\<exists>garbage. length garbage = ?n \<and> span_int (num_multiply (Runtime hi sel) garbage b l r) = x"
    using null [of ?g] fits(2) x by (intro exI [of _ ?g]) simp
qed

lemma num_multiply_reads_uninitialized_witness:
  "span_int (num_multiply sycl_device [42] (sample [0]) (Bits (sample [7])) (Bits nullspan)) = 42"
proof -
  have "rspan_bit_size (Bits (nullspan :: 8 word bit_span)) = 0" "rspan_limb_size (Bits (nullspan :: 8 word bit_span)) = 0"
    by (simp_all add: nullspan_def bit_array_def limb_size_def limb_size_for_def)
  then show ?thesis
    unfolding sycl_device_def
    using num_multiply_reads_uninitialized [of "sample [0]" "Bits nullspan" "Bits (sample [7])"]
    by (auto simp: is_unsigned_def limb_size_for_def div_ceil_def)
qed

end
