(* ===== verification/Num_Bits.thy ===== *)
theory Num_Bits
  imports Num_Shift Num_Compare
begin

text \<open>
  Bits of a view: \<^verbatim>\<open>bit_width\<close>, \<^verbatim>\<open>extract_bit\<close>, \<^verbatim>\<open>set_bit\<close>, \<^verbatim>\<open>is_normal\<close> and
  \<^verbatim>\<open>has_single_bit\<close> of \<^verbatim>\<open>hmpc/core/num/\<close>.

  Widths are \<^verbatim>\<open>hmpc::size\<close> values, words of length 64; the theorems assume that the bits of a view
  can be counted in one.  \<open>num_has_single_bit\<close> and \<open>num_is_normal\<close> are modelled as they are
  written; the last section shows for which views they answer what their names say, and gives a view
  for which they do not.
\<close>

section \<open>The operations\<close>

definition num_bit_width :: "'a::len word eval \<Rightarrow> 'a word rspan \<Rightarrow> hsize" where
  "num_bit_width E value =
     (let width = scan_reverse_range (rspan_limb_size value)
            (\<lambda>i previous.
               let width = core_bit_width (core_bit_xor (rspan_sign_mask E value) (rspan_read E value i Normal));
                   previously_undetermined = core_equal_to previous (Const 0);
                   now_determined = core_not_equal_to width (Const 0)
               in core_select_bits previous (Dyn (dynamic_value width + of_nat (i * LENGTH('a))))
                    (core_bit_and previously_undetermined now_determined))
            (Const 0)
      in if is_signed (rspan_signedness value)
         then dynamic_value width + ucast (dynamic_value (rspan_sign value))
         else dynamic_value width)"

definition num_extract_bit :: "'a::len word eval \<Rightarrow> 'a word rspan \<Rightarrow> nat \<Rightarrow> hbit" where
  "num_extract_bit E value b =
     dynamic_value (core_extract_bit (get E value (b div LENGTH('a))) (b mod LENGTH('a)))"

definition num_set_bit :: "'a::len word bit_span \<Rightarrow> hbit arg \<Rightarrow> nat \<Rightarrow> 'a word bit_span" where
  "num_set_bit result value b =
     (let limb = b div LENGTH('a)
      in span_write result limb
           (core_set_bit (Dyn (span_read result limb (normal_type result))) value (b mod LENGTH('a))) Unnormal)"

definition num_is_normal :: "'a::len word eval \<Rightarrow> 'a word rspan \<Rightarrow> 'a word arg \<Rightarrow> nat \<Rightarrow> hbit arg" where
  "num_is_normal E value sign_mask b =
     (let normal_limb = b div LENGTH('a);
          normal_bit = b mod LENGTH('a)
            + (if b mod LENGTH('a) = 0 \<and> b \<noteq> 0 then 1 else 0) * LENGTH('a)
      in scan_range_from normal_limb (rspan_limb_size value)
           (\<lambda>i normal.
              if i = normal_limb
              then core_bit_and normal (core_is_normal_mask (get_limb E value i) sign_mask normal_bit)
              else core_bit_and normal (core_is_normal_mask (get_limb E value i) sign_mask 0))
           (core_equal_to sign_mask (rspan_sign_mask E value)))"

definition num_has_single_bit :: "'a::len word eval \<Rightarrow> 'a word rspan \<Rightarrow> hbit" where
  "num_has_single_bit E value =
     dynamic_value (core_equal_to
       (scan_range (rspan_limb_size value)
          (\<lambda>i previous.
             let single_bit = core_has_single_bit (rspan_read E value i Normal)
             in core_add previous (map_arg ucast single_bit))
          (Const (0 :: hsize)))
       (Const 1))"

section \<open>Widths\<close>

lemma std_bit_width_shift:
  assumes "0 < n" and "m < 2 ^ k"
  shows "std_bit_width (m + n * 2 ^ k) = std_bit_width n + k"
proof -
  let ?w = "std_bit_width n"
  have b: "2 ^ (?w - 1) \<le> n" "n < 2 ^ ?w" using std_bit_width_bounds [OF assms(1)] by simp_all
  have w: "0 < ?w" using assms(1) std_bit_width_eq_0_iff [of n] by linarith
  have "2 ^ (?w - 1) * 2 ^ k \<le> n * 2 ^ k" using b(1) by simp
  moreover have "(2::nat) ^ (?w + k - 1) = 2 ^ (?w - 1) * 2 ^ k"
    using w by (subst power_add [symmetric]) simp
  ultimately have lo: "2 ^ (?w + k - 1) \<le> m + n * 2 ^ k" by linarith
  have "Suc n * 2 ^ k \<le> 2 ^ ?w * 2 ^ k" using b(2) by (intro mult_right_mono) simp_all
  then have hi: "m + n * 2 ^ k < 2 ^ (?w + k)"
    using assms(2) by (simp add: power_add)
  have s: "?w + k = Suc (?w + k - 1)" using w by simp
  show ?thesis using std_bit_width_eqI [OF lo] hi s by metis
qed

lemma nat_limbs_val_Suc:
  "nat (limbs_val f (Suc n)) = nat (limbs_val f n) + unat (f n) * 2 ^ (LENGTH('a) * n)"
  for f :: "nat \<Rightarrow> 'a::len word"
  by (simp add: nat_add_distrib nat_mult_distrib nat_power_eq)

lemma std_bit_width_limbs_val:
  "std_bit_width (nat (limbs_val f (Suc n)))
   = (if f n = 0 then std_bit_width (nat (limbs_val f n)) else std_bit_width (unat (f n)) + LENGTH('a) * n)"
  for f :: "nat \<Rightarrow> 'a::len word"
proof (cases "f n = 0")
  case False
  then have "0 < unat (f n)" by (simp add: unat_gt_0)
  moreover have "nat (limbs_val f n) < 2 ^ (LENGTH('a) * n)"
    using limbs_val_less [of f n] by (simp add: nat_less_iff)
  ultimately show ?thesis using False by (simp only: nat_limbs_val_Suc std_bit_width_shift if_False)
qed (simp add: nat_limbs_val_Suc del: limbs_val.simps)

lemma std_bit_width_limbs_le:
  "std_bit_width (nat (limbs_val f n)) \<le> LENGTH('a) * n" for f :: "nat \<Rightarrow> 'a::len word"
  using limbs_val_less [of f n] by (simp add: std_bit_width_le_iff nat_less_iff)

lemma of_nat_hsize_0_iff: "n < 2 ^ 64 \<Longrightarrow> (of_nat n :: hsize) = 0 \<longleftrightarrow> n = 0"
proof -
  assume n: "n < 2 ^ 64"
  have "uint (of_nat n :: hsize) = int n mod 2 ^ 64" by (simp add: unsigned_of_nat take_bit_eq_mod zmod_int)
  also have "\<dots> = int n" using n by simp
  finally show ?thesis by (simp flip: uint_0_iff)
qed

definition bit_width_step :: "'a::len word arg \<Rightarrow> nat \<Rightarrow> hsize arg \<Rightarrow> hsize arg" where
  "bit_width_step limb i previous =
     (let width = core_bit_width limb
      in core_select_bits previous (Dyn (dynamic_value width + of_nat (i * LENGTH('a))))
           (core_bit_and (core_equal_to previous (Const 0)) (core_not_equal_to width (Const 0))))"

lemma bit_width_scan:
  fixes f :: "nat \<Rightarrow> 'a::len word arg"
  assumes "LENGTH('a) * n < 2 ^ 64"
  shows "dynamic_value (scan_reverse_range n (\<lambda>i. bit_width_step (f i) i) p)
    = (if dynamic_value p \<noteq> 0 then dynamic_value p
       else of_nat (std_bit_width (nat (limbs_val (\<lambda>i. dynamic_value (f i)) n))))"
  using assms
proof (induction n arbitrary: p)
  case 0
  then show ?case by simp
next
  case (Suc n)
  let ?w = "std_bit_width (unat (dynamic_value (f n)))"
  have lt: "LENGTH('a) * n < 2 ^ 64" "?w < 2 ^ 64" "?w + n * LENGTH('a) < 2 ^ 64"
    using Suc.prems std_bit_width_limb [of "dynamic_value (f n)"] by (simp_all add: mult.commute)
  have w0: "(of_nat ?w :: hsize) = 0 \<longleftrightarrow> dynamic_value (f n) = 0"
    using of_nat_hsize_0_iff [OF lt(2)] by (simp add: unat_eq_0)
  have s0: "dynamic_value (f n) \<noteq> 0 \<Longrightarrow> (of_nat ?w + of_nat (n * LENGTH('a)) :: hsize) \<noteq> 0"
    using of_nat_hsize_0_iff [OF lt(3)] unfolding of_nat_add by (simp add: unat_eq_0)
  have step: "dynamic_value (bit_width_step (f n) n p)
    = (if dynamic_value p \<noteq> 0 \<or> dynamic_value (f n) = 0 then dynamic_value p
       else of_nat ?w + of_nat (n * LENGTH('a)))"
    by (simp add: bit_width_step_def core_bit_width_def Let_def w0 hbit_of_bool_and del: of_nat_mult)
  show ?case
    unfolding scan_reverse_range_Suc Suc.IH [OF lt(1)] step std_bit_width_limbs_val
    using s0 by (simp add: mult.commute)
qed

lemma limb_of_range:
  assumes "0 \<le> x" and "x < 2 ^ (LENGTH('a) * n)"
  shows "limbs_val (limb_of x :: nat \<Rightarrow> 'a::len word) n = x"
  using assms by (simp add: limbs_val_limb_of)

lemma rspan_int_bounds:
  assumes "sycl_ok (E :: 'a::len word eval)" and "rspan_ok (s :: 'a word rspan)"
  shows "- (2 ^ (LENGTH('a) * rspan_limb_size s)) \<le> rspan_int s"
    and "rspan_int s < 2 ^ (LENGTH('a) * rspan_limb_size s)"
  using view.int_of_bounds [of "(E, s, Normal)"] stream_int_rspan_int [OF assms]
  by (simp_all add: view_int_of view_apply)

lemma num_bit_width_eq:
  assumes "sycl_ok (E :: 'a::len word eval)" and "rspan_ok (v :: 'a word rspan)"
    and "LENGTH('a) * rspan_limb_size v < 2 ^ 64"
  shows "num_bit_width E v =
    of_nat (if rspan_int v < 0 then Suc (std_bit_width (nat (- rspan_int v - 1))) else std_bit_width (nat (rspan_int v)))"
proof -
  let ?n = "rspan_limb_size v" and ?x = "rspan_int v"
  let ?f = "\<lambda>i. core_bit_xor (rspan_sign_mask E v) (rspan_read E v i Normal)"
  let ?y = "if ?x < 0 then NOT ?x else ?x"
  have sign: "dynamic_value (rspan_sign v) = of_bool (?x < 0)" by (rule rspan_sign_iff [OF assms(1,2)])
  have f: "dynamic_value (?f i) = limb_of ?y i" if "i < ?n" for i
  proof -
    have "dynamic_value (rspan_read E v i Normal) = limb_of ?x i"
      using assms that by (simp add: dyn_rspan_read get_limb_of stream_int_rspan_int)
    then show ?thesis
      by (cases "?x < 0") (simp_all add: dyn_rspan_sign_mask [OF assms(1)] sign limb_of_not)
  qed
  have "0 \<le> ?y" "?y < 2 ^ (LENGTH('a) * ?n)"
    using rspan_int_bounds [OF assms(1,2)] by (auto simp: not_int_def)
  then have y: "limbs_val (\<lambda>i. dynamic_value (?f i)) ?n = ?y"
    using f limb_of_range [of ?y ?n, where 'a = 'a] by (simp cong: limbs_val_cong)
  have "dynamic_value (scan_reverse_range ?n (\<lambda>i. bit_width_step (?f i) i) (Const 0)) = of_nat (std_bit_width (nat ?y))"
    using bit_width_scan [OF assms(3), of ?f "Const 0"] y by simp
  moreover have "scan_reverse_range ?n (\<lambda>i previous.
        let width = core_bit_width (core_bit_xor (rspan_sign_mask E v) (rspan_read E v i Normal));
            previously_undetermined = core_equal_to previous (Const 0);
            now_determined = core_not_equal_to width (Const 0)
        in core_select_bits previous (Dyn (dynamic_value width + of_nat (i * LENGTH('a))))
             (core_bit_and previously_undetermined now_determined)) (Const 0)
      = scan_reverse_range ?n (\<lambda>i. bit_width_step (?f i) i) (Const 0)"
    unfolding bit_width_step_def Let_def by (rule refl)
  moreover have "\<not> is_signed (rspan_signedness v) \<Longrightarrow> \<not> ?x < 0"
    using sign rspan_sign_unsigned [of v] by (simp add: is_unsigned_iff)
  ultimately show ?thesis
    by (auto simp: num_bit_width_def Let_def sign not_int_def)
qed

section \<open>Single bits\<close>

lemma num_extract_bit_eq:
  assumes "sycl_ok E" and "rspan_ok v"
  shows "num_extract_bit E v b = of_bool (bit (rspan_int v) b)"
  by (simp add: num_extract_bit_def assms get_int_rspan_int bit_limb_of)

text \<open>Setting a bit of a span sets this bit of the integer it denotes and no other.\<close>

lemma num_set_bit_bits:
  assumes "k < bit_size b" and "length (data b) = limb_size (b :: 'a::len word bit_span)"
  shows "bit (limbs_int (data (num_set_bit b v k))) j
    \<longleftrightarrow> (if j = k then dynamic_value v = 1 else bit (limbs_int (data b)) j)"
proof -
  let ?L = "LENGTH('a)"
  have i: "k div ?L < limb_size b" by (rule bit_index [OF assms(1)])
  have m: "k mod ?L < ?L" "j mod ?L < ?L" by simp_all
  have rd: "span_read b (k div ?L) (normal_type b) = data b ! (k div ?L)"
    by (cases "normal_type b") (simp_all add: span_read_def)
  have d: "data (num_set_bit b v k)
    = (data b)[k div ?L := dynamic_value (core_set_bit (Dyn (data b ! (k div ?L))) v (k mod ?L))]"
    unfolding num_set_bit_def Let_def span_write_def written_limb_def rd by simp
  have klt: "k < ?L * limb_size b" using assms(1) bit_size_le_limbs [of b] by linarith
  show ?thesis
  proof (cases "j div ?L = k div ?L")
    case True
    have "j = k \<longleftrightarrow> j mod ?L = k mod ?L"
      using True by (metis div_mult_mod_eq)
    then show ?thesis
      unfolding bit_limbs_int d using True i m assms(2) klt bit_set_bit [OF m, of "Dyn (data b ! (k div ?L))" v]
      by auto
  next
    case False
    then have "j \<noteq> k" by auto
    with False show ?thesis unfolding bit_limbs_int d by simp
  qed
qed

lemma num_set_bit_eq:
  assumes "k < bit_size b" and "span_shape b" and "is_unsigned (signedness b)" and "dynamic_value v = of_bool p"
  shows "span_int (num_set_bit b v k) = (if p then set_bit k (span_int b) else unset_bit k (span_int b))"
proof (rule bit_eqI)
  fix j
  have len: "length (data b) = limb_size b" using assms(2) by (simp add: span_shape_def)
  have sel: "signedness (num_set_bit b v k) = signedness b" "bit_size (num_set_bit b v k) = bit_size b"
    by (simp_all add: num_set_bit_def Let_def span_write_def)
  show "bit (span_int (num_set_bit b v k)) j = bit (if p then set_bit k (span_int b) else unset_bit k (span_int b)) j"
    using assms(1,3)
    by (auto simp: span_int_def wrap_def sel is_unsigned_iff bit_take_bit_iff num_set_bit_bits [OF assms(1) len]
        assms(4) bit_set_bit_iff bit_unset_bit_iff)
qed

section \<open>Checks that read limb by limb\<close>

text \<open>
  \<open>num_is_normal\<close> asks that all bits of the view from \<open>b\<close> on are the sign; it checks this for
  every limb but one: when \<open>b\<close> is the first bit of a limb other than the first, this limb is not
  looked at.
\<close>

lemma is_normal_scan:
  fixes f :: "nat \<Rightarrow> hbit arg"
  assumes "a \<le> n"
  shows "dynamic_value (scan_range_from a n (\<lambda>i s. core_bit_and s (f i)) s) = 1
    \<longleftrightarrow> dynamic_value s = 1 \<and> (\<forall>i. a \<le> i \<longrightarrow> i < n \<longrightarrow> dynamic_value (f i) = 1)"
  using assms
proof (induction n)
  case 0
  then show ?case by simp
next
  case (Suc n)
  show ?case
  proof (cases "a = Suc n")
    case False
    then have le: "a \<le> n" using Suc.prems by simp
    have "x AND y = 1 \<longleftrightarrow> x = 1 \<and> y = 1" for x y :: hbit
      by (cases x rule: hbit_exhaust; cases y rule: hbit_exhaust) simp_all
    moreover have "(\<forall>i. a \<le> i \<longrightarrow> i < Suc n \<longrightarrow> P i) \<longleftrightarrow> (\<forall>i. a \<le> i \<longrightarrow> i < n \<longrightarrow> P i) \<and> P n" for P
      using le by (auto simp: less_Suc_eq)
    ultimately show ?thesis using Suc.IH [OF le] le by simp
  qed simp
qed

lemma num_is_normal_eq:
  assumes "sycl_ok (E :: 'a::len word eval)" and "b div LENGTH('a) \<le> rspan_limb_size v"
    and "rspan_ok (v :: 'a word rspan)" and "dynamic_value m = mask_from (dynamic_value (rspan_sign v))"
  shows "dynamic_value (num_is_normal E v m b) = 1
    \<longleftrightarrow> (\<forall>j. b \<le> j \<longrightarrow> j < LENGTH('a) * rspan_limb_size v
          \<longrightarrow> \<not> (b mod LENGTH('a) = 0 \<and> b \<noteq> 0 \<and> j div LENGTH('a) = b div LENGTH('a))
          \<longrightarrow> bit (rspan_int v) j = (rspan_int v < 0))"
proof -
  let ?L = "LENGTH('a)" and ?n = "rspan_limb_size v" and ?x = "rspan_int v"
  let ?q = "b div LENGTH('a)"
  let ?nb = "b mod ?L + (if b mod ?L = 0 \<and> b \<noteq> 0 then 1 else 0) * ?L"
  let ?f = "\<lambda>i. core_is_normal_mask (get_limb E v i) m (if i = ?q then ?nb else 0)"
  have sign: "dynamic_value (rspan_sign v) = of_bool (?x < 0)" by (rule rspan_sign_iff [OF assms(1,3)])
  have run: "num_is_normal E v m b
    = scan_range_from ?q ?n (\<lambda>i s. core_bit_and s (?f i)) (core_equal_to m (rspan_sign_mask E v))"
    unfolding num_is_normal_def Let_def by (intro arg_cong2 [where f = "scan_range_from ?q ?n"] ext) simp_all
  have nb: "?nb \<le> ?L" by simp
  have limb: "bit (dynamic_value (get_limb E v i)) j \<longleftrightarrow> bit ?x (?L * i + j)" if "i < ?n" "j < ?L" for i j
    using that assms(1,3)
    by (simp add: get_limb_def dyn_rspan_read get_limb_of stream_int_rspan_int bit_limb_of)
  have f: "dynamic_value (?f i) = 1 \<longleftrightarrow>
      (\<forall>j<?L. (i = ?q \<longrightarrow> ?nb \<le> j) \<longrightarrow> bit ?x (?L * i + j) = (?x < 0))" if "i < ?n" for i
  proof -
    have mb: "j < ?L \<Longrightarrow> bit (dynamic_value m) j \<longleftrightarrow> ?x < 0" for j
      unfolding assms(4) sign by (simp add: mask_from_eq)
    have "(if i = ?q then ?nb else 0) \<le> ?L" using nb by simp
    from dyn_is_normal_mask [OF this, of "get_limb E v i" m]
    show ?thesis using limb [OF that] mb by (auto split: if_splits)
  qed
  have "dynamic_value (core_equal_to m (rspan_sign_mask E v)) = 1"
    by (simp add: assms(4) dyn_rspan_sign_mask [OF assms(1)])
  then have L: "dynamic_value (num_is_normal E v m b) = 1 \<longleftrightarrow>
      (\<forall>i j. ?q \<le> i \<longrightarrow> i < ?n \<longrightarrow> j < ?L \<longrightarrow> (i = ?q \<longrightarrow> ?nb \<le> j) \<longrightarrow> bit ?x (?L * i + j) = (?x < 0))"
    unfolding run is_normal_scan [OF assms(2)] using f by auto
  have idx: "?L * i + j < ?L * ?n \<longleftrightarrow> i < ?n" if "j < ?L" for i j
  proof
    assume "?L * i + j < ?L * ?n"
    then have "?L * i < ?L * ?n" by linarith
    then show "i < ?n" by simp
  next
    assume "i < ?n"
    then have "?L * Suc i \<le> ?L * ?n" by (intro mult_le_mono2) simp
    with that show "?L * i + j < ?L * ?n" unfolding mult_Suc_right by linarith
  qed
  have bs: "b = ?L * ?q + b mod ?L" and bm: "b mod ?L < ?L" by simp_all
  have cond: "?q \<le> i \<and> (i = ?q \<longrightarrow> ?nb \<le> j) \<longleftrightarrow> b \<le> ?L * i + j \<and> \<not> (b mod ?L = 0 \<and> b \<noteq> 0 \<and> i = ?q)"
    if "j < ?L" for i j
  proof -
    consider "i < ?q" | "i = ?q" | "?q < i" by linarith
    then show ?thesis
    proof cases
      case 1
      then have "?L * Suc i \<le> ?L * ?q" by (intro mult_le_mono2) simp
      then have "\<not> b \<le> ?L * i + j" using that bs unfolding mult_Suc_right by linarith
      with 1 show ?thesis by simp
    next
      case 2
      have "b \<le> ?L * i + j \<longleftrightarrow> b mod ?L \<le> j" using bs unfolding 2 by linarith
      with 2 that show ?thesis by auto
    next
      case 3
      then have "?L * Suc ?q \<le> ?L * i" by (intro mult_le_mono2) simp
      then have "b \<le> ?L * i + j" using bs bm unfolding mult_Suc_right by linarith
      with 3 show ?thesis by simp
    qed
  qed
  show ?thesis
  proof
    assume l: "dynamic_value (num_is_normal E v m b) = 1"
    show "\<forall>j. b \<le> j \<longrightarrow> j < ?L * ?n \<longrightarrow> \<not> (b mod ?L = 0 \<and> b \<noteq> 0 \<and> j div ?L = ?q) \<longrightarrow> bit ?x j = (?x < 0)"
    proof (intro allI impI)
      fix j assume j: "b \<le> j" "j < ?L * ?n" "\<not> (b mod ?L = 0 \<and> b \<noteq> 0 \<and> j div ?L = ?q)"
      have m: "j mod ?L < ?L" by simp
      have c: "?q \<le> j div ?L \<and> (j div ?L = ?q \<longrightarrow> ?nb \<le> j mod ?L)"
        using cond [OF m, of "j div ?L"] j(1,3) unfolding mult_div_mod_eq by blast
      have i: "j div ?L < ?n" using idx [OF m, of "j div ?L"] j(2) unfolding mult_div_mod_eq by blast
      have "bit ?x (?L * (j div ?L) + j mod ?L) = (?x < 0)" using l [unfolded L] c i m by blast
      then show "bit ?x j = (?x < 0)" unfolding mult_div_mod_eq .
    qed
  next
    assume r: "\<forall>j. b \<le> j \<longrightarrow> j < ?L * ?n \<longrightarrow> \<not> (b mod ?L = 0 \<and> b \<noteq> 0 \<and> j div ?L = ?q) \<longrightarrow> bit ?x j = (?x < 0)"
    show "dynamic_value (num_is_normal E v m b) = 1"
      unfolding L
    proof (intro allI impI)
      fix i j assume a: "?q \<le> i" "i < ?n" "j < ?L" "i = ?q \<longrightarrow> ?nb \<le> j"
      have d: "(?L * i + j) div ?L = i" using a(3) by simp
      have "b \<le> ?L * i + j \<and> \<not> (b mod ?L = 0 \<and> b \<noteq> 0 \<and> i = ?q)"
        by (rule iffD1 [OF cond [OF a(3)] conjI [OF a(1,4)]])
      moreover have "?L * i + j < ?L * ?n" using idx [OF a(3), of i] a(2) by blast
      ultimately show "bit ?x (?L * i + j) = (?x < 0)" using r [rule_format, of "?L * i + j"] unfolding d by blast
    qed
  qed
qed

text \<open>\<open>num_has_single_bit\<close> counts the limbs with a single bit.\<close>

lemma has_single_bit_scan:
  "dynamic_value (scan_range n (\<lambda>i previous. core_add previous (map_arg ucast (core_has_single_bit (f i)))) (Const (0 :: hsize)))
   = of_nat (card {i. i < n \<and> std_has_single_bit (dynamic_value (f i))})"
proof (induction n)
  case (Suc n)
  have "{i. i < Suc n \<and> std_has_single_bit (dynamic_value (f i))}
    = (if std_has_single_bit (dynamic_value (f n))
       then insert n {i. i < n \<and> std_has_single_bit (dynamic_value (f i))}
       else {i. i < n \<and> std_has_single_bit (dynamic_value (f i))})"
    by (auto simp: less_Suc_eq)
  with Suc show ?case by (simp add: core_has_single_bit_def)
qed simp

lemma card_Collect_1: "card {x. P x} = 1 \<longleftrightarrow> (\<exists>!x. P x)"
proof
  assume "card {x. P x} = 1"
  then obtain x where "{x. P x} = {x}" by (rule card_1_singletonE)
  then have "P y \<longleftrightarrow> y = x" for y by (simp add: set_eq_iff)
  then show "\<exists>!x. P x" by simp
next
  assume "\<exists>!x. P x"
  then obtain x where "{x. P x} = {x}" by auto
  then show "card {x. P x} = 1" by simp
qed

lemma num_has_single_bit_eq:
  assumes "sycl_ok (E :: 'a::len word eval)" and "rspan_ok (v :: 'a word rspan)" and "rspan_limb_size v < 2 ^ 64"
  shows "num_has_single_bit E v = 1
    \<longleftrightarrow> (\<exists>!i. i < rspan_limb_size v \<and> std_has_single_bit (limb_of (rspan_int v) i :: 'a word))"
proof -
  let ?n = "rspan_limb_size v"
  let ?S = "{i. i < ?n \<and> std_has_single_bit (limb_of (rspan_int v) i :: 'a word)}"
  have rd: "dynamic_value (rspan_read E v i Normal) = limb_of (rspan_int v) i" if "i < ?n" for i
    using that assms(1,2) by (simp add: dyn_rspan_read get_limb_of stream_int_rspan_int)
  have "{i. i < ?n \<and> std_has_single_bit (dynamic_value (rspan_read E v i Normal))} = ?S"
    by (rule Collect_cong) (use rd in auto)
  then have r: "num_has_single_bit E v = of_bool ((of_nat (card ?S) :: hsize) = 1)"
    by (simp only: num_has_single_bit_def Let_def has_single_bit_scan dyn_equal_to arg.sel)
  have "card ?S \<le> card {..<?n}" by (rule card_mono) auto
  then have c: "card ?S < 2 ^ 64" using assms(3) by simp
  have "(of_nat (card ?S) :: hsize) = 1 \<longleftrightarrow> card ?S = 1"
  proof -
    have "uint (of_nat (card ?S) :: hsize) = int (card ?S) mod 2 ^ 64" by (simp add: unsigned_of_nat take_bit_eq_mod zmod_int)
    also have "\<dots> = int (card ?S)" using c by simp
    finally show ?thesis by (simp add: word_uint_eq_iff)
  qed
  moreover have "card ?S = 1 \<longleftrightarrow> (\<exists>!i. i < ?n \<and> std_has_single_bit (limb_of (rspan_int v) i :: 'a word))"
    by (rule card_Collect_1)
  ultimately show ?thesis by (simp add: r)
qed

section \<open>Properties\<close>

text \<open>The bit width of a view is the least number of bits that hold its integer: of the absolute part, and
  one more for a negative integer.\<close>

theorem num_bit_width_correct:
  assumes "sycl_ok (E :: 'a::len word eval)" and "rspan_ok (v :: 'a word rspan)"
    and "LENGTH('a) * rspan_limb_size v < 2 ^ 64 - 1"
  shows "(0 \<le> rspan_int v \<longrightarrow> (\<forall>k. unat (num_bit_width E v) \<le> k \<longleftrightarrow> rspan_int v < 2 ^ k))
    \<and> (rspan_int v < 0 \<longrightarrow> (\<forall>k. unat (num_bit_width E v) \<le> Suc k \<longleftrightarrow> - (2 ^ k) \<le> rspan_int v))"
proof -
  let ?x = "rspan_int v" and ?n = "LENGTH('a) * rspan_limb_size v"
  let ?w = "if ?x < 0 then Suc (std_bit_width (nat (- ?x - 1))) else std_bit_width (nat ?x)"
  have "std_bit_width (nat (if ?x < 0 then - ?x - 1 else ?x)) \<le> ?n"
    using rspan_int_bounds [OF assms(1,2)] by (simp add: std_bit_width_le_iff nat_less_iff)
  then have lt: "?w < 2 ^ 64" using assms(3) by (cases "?x < 0") simp_all
  have "unat (num_bit_width E v) = ?w"
    using num_bit_width_eq [OF assms(1,2)] assms(3) lt by (simp add: unat_of_nat take_bit_nat_eq_self)
  then show ?thesis
    by (auto simp: std_bit_width_le_iff nat_less_iff)
qed

theorem num_bit_width_correct_witness:
  "(\<forall>k. unat (num_bit_width sycl_device (Bits (sample [255, 3]))) \<le> k \<longleftrightarrow> (1023 :: int) < 2 ^ k)"
  using num_bit_width_correct [OF sycl_ok_device, of "Bits (sample [255, 3])"] by simp

text \<open>Extracting a bit reads the bit of the integer (its sign beyond the last limb); setting a bit of an
  unsigned span sets or clears exactly this bit of the integer it denotes.\<close>

theorem num_bit_access_correct:
  assumes "sycl_ok E" and "rspan_ok v" and "span_shape b" and "is_unsigned (signedness b)" and "k < bit_size b"
    and "dynamic_value x = of_bool p"
  shows "num_extract_bit E v j = of_bool (bit (rspan_int v) j)
    \<and> span_int (num_set_bit b x k) = (if p then set_bit k (span_int b) else unset_bit k (span_int b))"
  by (simp add: num_extract_bit_eq assms(1,2) num_set_bit_eq [OF assms(5,3,4,6)])

theorem num_bit_access_correct_witness:
  "num_extract_bit sycl_device (Bits (sample [0, 4])) 10 = 1 \<and> span_int (num_set_bit (sample [0, 4]) (Dyn 0) 10) = 0"
  using num_bit_access_correct [OF sycl_ok_device, of "Bits (sample [0, 4])" "sample [0, 4]" 10 "Dyn 0" False 10]
  by (simp add: is_unsigned_def bit_iff_odd unset_bit_eq)

text \<open>The normality check answers whether all bits from a given one on are the sign, with one exception: if
  the given bit is the first one of a limb after the first, the bits of this limb are not checked.\<close>

theorem num_is_normal_checks:
  assumes "sycl_ok (E :: 'a::len word eval)" and "b div LENGTH('a) \<le> rspan_limb_size v"
    and "rspan_ok (v :: 'a word rspan)" and "dynamic_value m = mask_from (dynamic_value (rspan_sign v))"
  shows "dynamic_value (num_is_normal E v m b) = 1
    \<longleftrightarrow> (\<forall>j. b \<le> j \<longrightarrow> j < LENGTH('a) * rspan_limb_size v
          \<longrightarrow> \<not> (b mod LENGTH('a) = 0 \<and> b \<noteq> 0 \<and> j div LENGTH('a) = b div LENGTH('a))
          \<longrightarrow> bit (rspan_int v) j = (rspan_int v < 0))"
  by (rule num_is_normal_eq [OF assms])

theorem num_is_normal_checks_witness:
  "dynamic_value (num_is_normal sycl_device (Bits (sample [7, 7])) (Const 0) 8) = 1"
proof -
  have "8 \<le> j \<Longrightarrow> j < 16 \<Longrightarrow> j div 8 = Suc 0" for j :: nat by presburger
  then show ?thesis
    using num_is_normal_checks [OF sycl_ok_device, of 8 "Bits (sample [7, 7])" "Const 0"]
    by (simp add: span_sign_def)
qed

text \<open>The test for a single bit answers whether exactly one limb has a single bit; so it accepts every
  power of two, and also an integer such as 259 that is none.\<close>

theorem num_has_single_bit_counts_limbs:
  "(\<forall>limbs. length limbs < 2 ^ 64 \<longrightarrow>
      (num_has_single_bit Consteval (Bits (sample limbs)) = 1
        \<longleftrightarrow> (\<exists>!i. i < length limbs \<and> std_has_single_bit (limb_of (limbs_int limbs) i :: 8 word))))
   \<and> limbs_int [3, 1 :: 8 word] = 259 \<and> num_has_single_bit Consteval (Bits (sample [3, 1])) = 1"
proof (intro conjI allI impI)
  fix limbs :: "8 word list"
  assume "length limbs < 2 ^ 64"
  then show "num_has_single_bit Consteval (Bits (sample limbs)) = 1
    \<longleftrightarrow> (\<exists>!i. i < length limbs \<and> std_has_single_bit (limb_of (limbs_int limbs) i :: 8 word))"
    using num_has_single_bit_eq [of Consteval "Bits (sample limbs)"] by simp
qed (simp, code_simp)

theorem num_has_single_bit_counts_limbs_witness:
  "num_has_single_bit Consteval (Bits (sample [3, 1])) = 1 \<and>
   (\<exists>!i. i < length [3, 1 :: 8 word] \<and> std_has_single_bit (limb_of (limbs_int [3, 1 :: 8 word]) i :: 8 word))"
  using num_has_single_bit_counts_limbs [THEN conjunct1, rule_format, of "[3, 1]"] num_has_single_bit_counts_limbs
  by simp

end
