(* ===== verification/Num_Montgomery.thy ===== *)
theory Num_Montgomery
  imports Num_Multiply Num_Bits
begin

text \<open>
  Montgomery reduction, \<^verbatim>\<open>hmpc/core/num/modulo.hpp\<close>.

  \<open>montgomery_round\<close> is one round of the outer loop: it adds a multiple of the modulus to \<open>T\<close> such that
  limb \<open>i\<close> becomes zero, and propagates the carry to the last limb of \<open>T\<close>.  The carry of this second
  loop is a limb at first and a bit from then on, hence the sum type.  \<open>rounds_value\<close> is the
  invariant of the rounds, and \<open>montgomery_reduce_correct\<close> the postcondition of the code's comment, under
  its precondition: the result is below the modulus and congruent to the value divided by \<open>R\<close>.
\<close>

section \<open>The operation\<close>

definition montgomery_multiply_step ::
    "'a::len word eval \<Rightarrow> 'a word rspan \<Rightarrow> 'a word arg \<Rightarrow> nat \<Rightarrow> nat
     \<Rightarrow> 'a word bit_span \<times> 'a word arg \<Rightarrow> 'a word bit_span \<times> 'a word arg" where
  "montgomery_multiply_step E modulus m i j = (\<lambda>(T, carry).
     let k = i + j;
         res = core_extended_multiply_add E m (get_limb E modulus j) (get_limb E (Bits T) k) carry
     in (put T k (mul_lower res), mul_upper res))"

definition montgomery_carry_step ::
    "'a::len word eval \<Rightarrow> nat \<Rightarrow> 'a word bit_span \<times> ('a word arg + hbit arg)
     \<Rightarrow> 'a word bit_span \<times> ('a word arg + hbit arg)" where
  "montgomery_carry_step E k = (\<lambda>(T, carry).
     let res = (case carry of
           Inl limb \<Rightarrow> core_extended_add (get_limb E (Bits T) k) limb
         | Inr b \<Rightarrow> core_extended_add (get_limb E (Bits T) k) b)
     in (put T k (add_sum res), Inr (add_carry res)))"

definition montgomery_round ::
    "'a::len word eval \<Rightarrow> 'a word rspan \<Rightarrow> 'a word \<Rightarrow> nat \<Rightarrow> 'a word bit_span \<Rightarrow> 'a word bit_span" where
  "montgomery_round E modulus inverse_modulus i T =
     (let p = rspan_limb_size modulus;
          m = core_multiply (get_limb E (Bits T) i) (Const inverse_modulus);
          (T, carry) = scan_range p (montgomery_multiply_step E modulus m i) (T, Const 0);
          (T, carry) = scan_range_from (i + p) (limb_size T) (montgomery_carry_step E) (T, Inl carry)
      in T)"

definition num_montgomery_reduce ::
    "'a::len word eval \<Rightarrow> 'a word bit_span \<Rightarrow> 'a word rspan \<Rightarrow> 'a word rspan \<Rightarrow> nat \<Rightarrow> 'a word
     \<Rightarrow> 'a word bit_span" where
  "num_montgomery_reduce E result value modulus auxiliary_power inverse_modulus =
     (let r = auxiliary_power;
          p = rspan_limb_size modulus;
          T_storage = bit_array (LENGTH('a) * (r + p + 1)) Without_sign Unnormal (replicate (r + p + 1) 0);
          T_storage = num_bit_copy E T_storage value;
          T_storage = for_range r (montgomery_round E modulus inverse_modulus) T_storage;
          S = subspan_from T_storage r
      in fst (num_subtract E result (Bits S)
               (Masked modulus (num_greater_equal E (Bits S) modulus)) (Const 0)))"

section \<open>Loops that add to a span in place\<close>

lemma in_place_chain:
  fixes b :: "'a::len word bit_span" and ev :: "nat \<Rightarrow> int"
  assumes "normal_type b = Unnormal" and "length (data b) = limb_size b" and "off + m \<le> limb_size b"
    and step: "\<And>j d c. j < m \<Longrightarrow> length d = limb_size b \<Longrightarrow> d ! (off + j) = data b ! (off + j) \<Longrightarrow>
      \<exists>lo hi. step j (b\<lparr>data := d\<rparr>, c) = (put (b\<lparr>data := d\<rparr>) (off + j) lo, hi)
        \<and> uint (dynamic_value lo) + 2 ^ LENGTH('a) * val hi = uint (data b ! (off + j)) + e j + val c"
    and "ev 0 = 0" and "\<And>j. ev (Suc j) = ev j + e j * 2 ^ (LENGTH('a) * j)"
  shows "\<exists>d c'. scan_range m step (b, c) = (b\<lparr>data := d\<rparr>, c') \<and> length d = limb_size b
    \<and> (\<forall>k. \<not> (off \<le> k \<and> k < off + m) \<longrightarrow> d ! k = data b ! k)
    \<and> limbs_val (\<lambda>k. d ! (off + k)) m + 2 ^ (LENGTH('a) * m) * val c'
      = limbs_val (\<lambda>k. data b ! (off + k)) m + ev m + val c"
  using assms(3) step
proof (induction m)
  case 0
  show ?case using assms(2,5) by (intro exI [of _ "data b"] exI [of _ c]) simp
next
  case (Suc m)
  let ?P = "2 ^ (LENGTH('a) * m) :: int" and ?B = "2 ^ LENGTH('a) :: int"
  obtain d c' where d: "scan_range m step (b, c) = (b\<lparr>data := d\<rparr>, c')" "length d = limb_size b"
    "\<And>k. \<not> (off \<le> k \<and> k < off + m) \<Longrightarrow> d ! k = data b ! k"
    "limbs_val (\<lambda>k. d ! (off + k)) m + ?P * val c' = limbs_val (\<lambda>k. data b ! (off + k)) m + ev m + val c"
    using Suc.IH Suc.prems by (metis (no_types, lifting) Suc_leD add_Suc_right less_SucI)
  obtain lo hi where s: "step m (b\<lparr>data := d\<rparr>, c') = (put (b\<lparr>data := d\<rparr>) (off + m) lo, hi)"
    "uint (dynamic_value lo) + ?B * val hi = uint (data b ! (off + m)) + e m + val c'"
    using Suc.prems(2) [of m d c'] d(2,3) by auto
  let ?d = "d[off + m := dynamic_value lo]"
  have "limbs_val (\<lambda>k. ?d ! (off + k)) m = limbs_val (\<lambda>k. d ! (off + k)) m"
    by (rule limbs_val_cong) simp
  moreover have "?d ! (off + m) = dynamic_value lo" using d(2) Suc.prems(1) by simp
  moreover have "?P * (uint (dynamic_value lo) + ?B * val hi) = ?P * (uint (data b ! (off + m)) + e m + val c')"
    using s(2) by simp
  ultimately have "limbs_val (\<lambda>k. ?d ! (off + k)) (Suc m) + 2 ^ (LENGTH('a) * Suc m) * val hi
      = limbs_val (\<lambda>k. data b ! (off + k)) (Suc m) + ev (Suc m) + val c"
    using d(4) by (simp add: assms(6) power_add algebra_simps)
  moreover have "scan_range (Suc m) step (b, c) = (b\<lparr>data := ?d\<rparr>, hi)"
    using assms(1) by (simp add: d(1) s(1) put_unnormal)
  ultimately show ?case
    using d(2,3) by (intro exI [of _ ?d] exI [of _ hi]) (auto simp: nth_list_update)
qed

lemma scan_range_from_offset: "scan_range_from a (a + m) f s = scan_range m (\<lambda>j. f (a + j)) s"
  by (induction m) simp_all

section \<open>A round\<close>

lemma chain_concat:
  fixes V :: int
  assumes "W + P * c = X + mN" and "Y + Q * e = Z + c"
  shows "V + I * W + I * P * Y + I * P * Q * e = V + I * X + I * P * Z + mN * I"
  using assms by algebra

lemma montgomery_round_value:
  assumes "sycl_ok (E :: 'a::len word eval)" and "normal_type T = Unnormal"
    and "length (data T) = limb_size (T :: 'a word bit_span)" and "i + rspan_limb_size N < limb_size T"
    and "0 \<le> get_int E N" and "get_int E N < 2 ^ (LENGTH('a) * rspan_limb_size N)"
  shows "\<exists>d. montgomery_round E N n' i T = T\<lparr>data := d\<rparr> \<and> length d = limb_size T
    \<and> limbs_int d = (limbs_int (data T) + uint (data T ! i * n') * get_int E N * 2 ^ (LENGTH('a) * i)) mod modulus_of T"
proof -
  let ?L = "LENGTH('a)" and ?p = "rspan_limb_size N" and ?n = "limb_size T"
  let ?m = "core_multiply (get_limb E (Bits T) i) (Const n')"
  let ?mv = "uint (data T ! i * n')"
  let ?N = "limb_of (get_int E N) :: nat \<Rightarrow> 'a word"
  define q where "q = ?n - (i + ?p)"
  have n: "?n = i + ?p + q" using assms(4) by (simp add: q_def)
  have mv: "uint (dynamic_value ?m) = ?mv" by simp
  have "\<exists>d c'. scan_range ?p (montgomery_multiply_step E N ?m i) (T, Const 0) = (T\<lparr>data := d\<rparr>, c') \<and> length d = limb_size T
    \<and> (\<forall>k. \<not> (i \<le> k \<and> k < i + ?p) \<longrightarrow> d ! k = data T ! k)
    \<and> limbs_val (\<lambda>k. d ! (i + k)) ?p + 2 ^ (?L * ?p) * uint (dynamic_value c')
      = limbs_val (\<lambda>k. data T ! (i + k)) ?p + ?mv * limbs_val ?N ?p + uint (dynamic_value (Const (0 :: 'a word)))"
  proof (rule in_place_chain [where e = "\<lambda>j. ?mv * uint (?N j)"])
    fix j d c assume j: "j < ?p" "length d = limb_size T" "d ! (i + j) = data T ! (i + j)"
    let ?res = "core_extended_multiply_add E ?m (get_limb E N j) (Dyn (d ! (i + j))) c"
    have "montgomery_multiply_step E N ?m i j (T\<lparr>data := d\<rparr>, c) = (put (T\<lparr>data := d\<rparr>) (i + j) (mul_lower ?res), mul_upper ?res)"
      by (simp add: montgomery_multiply_step_def Let_def)
    moreover have "uint (dynamic_value (mul_lower ?res)) + 2 ^ ?L * uint (dynamic_value (mul_upper ?res))
      = uint (data T ! (i + j)) + ?mv * uint (?N j) + uint (dynamic_value c)"
      using mul_exact_extended_multiply_add [OF assms(1), of ?m "get_limb E N j" "Dyn (d ! (i + j))" c] j
      unfolding mul_exact_def mv get_limb_of_int [OF assms(1) j(1)] by simp
    ultimately show "\<exists>lo hi. montgomery_multiply_step E N ?m i j (T\<lparr>data := d\<rparr>, c) = (put (T\<lparr>data := d\<rparr>) (i + j) lo, hi)
        \<and> uint (dynamic_value lo) + 2 ^ ?L * uint (dynamic_value hi)
          = uint (data T ! (i + j)) + ?mv * uint (?N j) + uint (dynamic_value c)" by metis
  qed (use assms(2,3) n in \<open>simp_all add: algebra_simps\<close>)
  then obtain d c' where d: "scan_range ?p (montgomery_multiply_step E N ?m i) (T, Const 0) = (T\<lparr>data := d\<rparr>, c')"
    "length d = limb_size T" "\<And>k. \<not> (i \<le> k \<and> k < i + ?p) \<Longrightarrow> d ! k = data T ! k"
    "limbs_val (\<lambda>k. d ! (i + k)) ?p + 2 ^ (?L * ?p) * uint (dynamic_value c')
      = limbs_val (\<lambda>k. data T ! (i + k)) ?p + ?mv * limbs_val ?N ?p"
    by auto
  let ?T = "T\<lparr>data := d\<rparr>"
  let ?val = "\<lambda>c :: 'a word arg + hbit arg. case c of Inl l \<Rightarrow> uint (dynamic_value l) | Inr b \<Rightarrow> uint (dynamic_value b)"
  have "\<exists>d' c''. scan_range q (\<lambda>j. montgomery_carry_step E (i + ?p + j)) (?T, Inl c') = (?T\<lparr>data := d'\<rparr>, c'') \<and> length d' = limb_size ?T
    \<and> (\<forall>k. \<not> (i + ?p \<le> k \<and> k < i + ?p + q) \<longrightarrow> d' ! k = data ?T ! k)
    \<and> limbs_val (\<lambda>k. d' ! (i + ?p + k)) q + 2 ^ (?L * q) * ?val c''
      = limbs_val (\<lambda>k. data ?T ! (i + ?p + k)) q + 0 + ?val (Inl c')"
  proof (rule in_place_chain [where e = "\<lambda>j. 0"])
    fix j d' and c :: "'a word arg + hbit arg"
    assume j: "j < q" "length d' = limb_size ?T" "d' ! (i + ?p + j) = data ?T ! (i + ?p + j)"
    let ?res = "case c of Inl l \<Rightarrow> core_extended_add (Dyn (d' ! (i + ?p + j))) l | Inr b \<Rightarrow> core_extended_add (Dyn (d' ! (i + ?p + j))) b"
    have "montgomery_carry_step E (i + ?p + j) (?T\<lparr>data := d'\<rparr>, c)
      = (put (?T\<lparr>data := d'\<rparr>) (i + ?p + j) (add_sum ?res), Inr (add_carry ?res))"
      by (cases c) (simp_all add: montgomery_carry_step_def Let_def)
    moreover have "uint (dynamic_value (add_sum ?res)) + 2 ^ ?L * ?val (Inr (add_carry ?res))
      = uint (data ?T ! (i + ?p + j)) + 0 + ?val c"
    proof (cases c)
      case (Inl l)
      then show ?thesis
        using add_exact_extended_add [of "Dyn (d' ! (i + ?p + j))" l] j(3) by (simp add: add_exact_def)
    next
      case (Inr b)
      have "LENGTH(1) \<le> ?L" using len_gt_0 [where 'a = 'a] by (simp add: Suc_le_eq)
      from add_exact_extended_add [OF this, of "Dyn (d' ! (i + ?p + j))" b] Inr j(3)
      show ?thesis by (simp add: add_exact_def)
    qed
    ultimately show "\<exists>lo hi. montgomery_carry_step E (i + ?p + j) (?T\<lparr>data := d'\<rparr>, c) = (put (?T\<lparr>data := d'\<rparr>) (i + ?p + j) lo, hi)
        \<and> uint (dynamic_value lo) + 2 ^ ?L * ?val hi = uint (data ?T ! (i + ?p + j)) + 0 + ?val c" by metis
  qed (use assms(2) d(2) n in simp_all)
  then obtain d' c'' where d': "scan_range q (\<lambda>j. montgomery_carry_step E (i + ?p + j)) (?T, Inl c') = (T\<lparr>data := d'\<rparr>, c'')"
    "length d' = limb_size T" "\<And>k. \<not> (i + ?p \<le> k \<and> k < i + ?p + q) \<Longrightarrow> d' ! k = d ! k"
    "limbs_val (\<lambda>k. d' ! (i + ?p + k)) q + 2 ^ (?L * q) * ?val c''
      = limbs_val (\<lambda>k. d ! (i + ?p + k)) q + uint (dynamic_value c')"
    by auto
  have "montgomery_round E N n' i T = T\<lparr>data := d'\<rparr>"
    unfolding montgomery_round_def Let_def d(1) prod.case limb_size_update
    using d'(1) scan_range_from_offset [of "i + ?p" q "montgomery_carry_step E" "(?T, Inl c')"] n by simp
  moreover have "limbs_int d' + modulus_of T * ?val c'' = limbs_int (data T) + ?mv * get_int E N * 2 ^ (?L * i)"
  proof -
    have split: "limbs_val f ?n = limbs_val f i + 2 ^ (?L * i) * limbs_val (\<lambda>k. f (i + k)) ?p
        + 2 ^ (?L * (i + ?p)) * limbs_val (\<lambda>k. f (i + ?p + k)) q" for f :: "nat \<Rightarrow> 'a word"
      unfolding n by (simp only: limbs_val_add)
    have low: "limbs_val ((!) d') i = limbs_val ((!) (data T)) i"
      by (rule limbs_val_cong) (simp add: d(3) d'(3))
    have mid: "limbs_val (\<lambda>k. d' ! (i + k)) ?p = limbs_val (\<lambda>k. d ! (i + k)) ?p"
      by (rule limbs_val_cong) (simp add: d'(3))
    have high: "limbs_val (\<lambda>k. data T ! (i + ?p + k)) q = limbs_val (\<lambda>k. d ! (i + ?p + k)) q"
      by (rule limbs_val_cong) (simp add: d(3))
    have N: "limbs_val ?N ?p = get_int E N" using assms(5,6) by (simp add: limbs_val_limb_of)
    have A: "(2::int) ^ (?L * (i + ?p)) = 2 ^ (?L * i) * 2 ^ (?L * ?p)"
      and B: "modulus_of T = 2 ^ (?L * i) * 2 ^ (?L * ?p) * 2 ^ (?L * q)"
      unfolding n by (simp_all add: power_add distrib_left)
    show ?thesis
      using d(4) d'(4) unfolding limbs_int_nth assms(3) d'(2) split low mid high N A B
      by (rule chain_concat)
  qed
  then have "limbs_int d' = (limbs_int (data T) + ?mv * get_int E N * 2 ^ (?L * i)) mod modulus_of T"
    using limbs_int_less [of d'] d'(2)
    by (metis mod_mult_self2 mod_pos_pos_trivial limbs_int_nonneg)
  ultimately show ?thesis using d'(2) by auto
qed

section \<open>The rounds\<close>

lemma rounds_value:
  assumes "sycl_ok (E :: 'a::len word eval)" and "normal_type T = Unnormal"
    and "length (data T) = limb_size (T :: 'a word bit_span)" and "r + rspan_limb_size N < limb_size T"
    and "0 \<le> get_int E N" and "get_int E N < 2 ^ (LENGTH('a) * rspan_limb_size N)"
    and inverse: "(get_int E N * uint n' + 1) mod 2 ^ LENGTH('a) = 0"
    and room: "limbs_int (data T) + get_int E N * 2 ^ (LENGTH('a) * r) \<le> modulus_of T"
    and "i \<le> r"
  shows "\<exists>d M. for_range i (montgomery_round E N n') T = T\<lparr>data := d\<rparr> \<and> length d = limb_size T
    \<and> 0 \<le> M \<and> M < 2 ^ (LENGTH('a) * i) \<and> limbs_int d = limbs_int (data T) + get_int E N * M
    \<and> limbs_int d mod 2 ^ (LENGTH('a) * i) = 0"
  using assms(9)
proof (induction i)
  case 0
  show ?case using assms(3) by (intro exI [of _ "data T"] exI [of _ 0]) simp
next
  case (Suc i)
  let ?L = "LENGTH('a)" and ?V = "limbs_int (data T)" and ?N = "get_int E N"
  let ?I = "2 ^ (LENGTH('a) * i) :: int" and ?B = "2 ^ LENGTH('a) :: int"
  obtain d M where d: "for_range i (montgomery_round E N n') T = T\<lparr>data := d\<rparr>" "length d = limb_size T"
    and M: "0 \<le> M" "M < ?I" "limbs_int d = ?V + ?N * M" "limbs_int d mod ?I = 0"
    using Suc by auto
  let ?m = "uint (d ! i * n')"
  have m: "0 \<le> ?m" "?m \<le> ?B - 1" using uint_lt2p [of "d ! i * n'"] by simp_all
  define M' where "M' = M + ?m * ?I"
  obtain d' where d': "montgomery_round E N n' i (T\<lparr>data := d\<rparr>) = T\<lparr>data := d'\<rparr>" "length d' = limb_size T"
    "limbs_int d' = (limbs_int d + ?m * ?N * ?I) mod modulus_of T"
    using montgomery_round_value [OF assms(1), of "T\<lparr>data := d\<rparr>" i N n'] assms(2,4,5,6) d(2) Suc.prems by auto
  have M': "0 \<le> M'" "M' < ?I * ?B"
  proof -
    show "0 \<le> M'" using M(1) m(1) by (simp add: M'_def)
    have "?m * ?I \<le> (?B - 1) * ?I" using m(2) by (intro mult_right_mono) simp_all
    with M(2) show "M' < ?I * ?B" by (simp add: M'_def algebra_simps)
  qed
  have v: "limbs_int d + ?m * ?N * ?I = ?V + ?N * M'" by (simp add: M(3) M'_def algebra_simps)
  have "?I * ?B \<le> 2 ^ (?L * r)"
    using Suc.prems by (simp flip: power_add mult_Suc_right add.commute add: power_increasing_iff)
  then have "?N * M' \<le> ?N * 2 ^ (?L * r)" using M'(2) assms(5) by (intro mult_left_mono) simp_all
  moreover have "?V + ?N * M' < modulus_of T"
  proof (cases "?N = 0")
    case True
    then show ?thesis using limbs_int_less [of "data T"] assms(3) by simp
  next
    case False
    then have "?N * M' < ?N * 2 ^ (?L * r)"
      using M'(2) \<open>?I * ?B \<le> 2 ^ (?L * r)\<close> assms(5) by (intro mult_strict_left_mono) simp_all
    then show ?thesis using room by linarith
  qed
  moreover have "0 \<le> ?V + ?N * M'" using M'(1) assms(5) by simp
  ultimately have d'v: "limbs_int d' = ?V + ?N * M'" unfolding d'(3) v by (simp add: mod_pos_pos_trivial)
  obtain q where q: "limbs_int d = ?I * q" using M(4) by (metis mod_0_imp_dvd dvdE)
  have "uint (d ! i) = q mod ?B"
  proof -
    have i: "i < length d" using Suc.prems assms(4) d(2) by simp
    have "limb_of (limbs_int d) i = d ! i" unfolding limbs_int_nth by (rule limb_of_limbs_val [OF i])
    then have "uint (d ! i) = limbs_int d div ?I mod ?B" by (metis uint_limb_of)
    then show ?thesis by (simp add: q)
  qed
  then have "?m mod ?B = (q * uint n') mod ?B" by (simp add: uint_word_ariths mod_simps)
  then have "(q + ?m * ?N) mod ?B = (q + (q * uint n') * ?N) mod ?B"
    by (rule mod_add_mult_cong)
  also have "\<dots> = (q * (?N * uint n' + 1)) mod ?B" by (simp add: algebra_simps)
  also have "\<dots> = 0" using inverse by (metis mod_mult_right_eq mult_zero_right mod_0)
  finally obtain t where t: "q + ?m * ?N = ?B * t" by (metis mod_0_imp_dvd dvdE)
  have "limbs_int d' = ?I * (q + ?m * ?N)" unfolding d'v v [symmetric] q by (simp add: algebra_simps)
  then have "limbs_int d' = ?I * ?B * t" unfolding t by simp
  then have "limbs_int d' mod (?I * ?B) = 0" by simp
  moreover have "2 ^ (?L * Suc i) = ?I * ?B" by (simp add: power_add mult.commute)
  ultimately show ?case
    using d(1) d'(1,2) d'v M' by (intro exI [of _ d'] exI [of _ M']) simp
qed

section \<open>The reduction\<close>

lemma limbs_int_drop: "limbs_int (drop r d) = limbs_int d div 2 ^ (LENGTH('a) * r)" for d :: "'a::len word list"
proof (cases "r \<le> length d")
  case True
  have "limbs_int d div 2 ^ (LENGTH('a) * r) = limbs_val (\<lambda>i. d ! (r + i)) (length d - r)"
    unfolding limbs_int_nth by (rule limbs_val_div [OF True])
  also have "\<dots> = limbs_int (drop r d)" unfolding limbs_int_nth by (auto intro: limbs_val_cong)
  finally show ?thesis by simp
next
  case False
  have "(2::int) ^ (LENGTH('a) * length d) \<le> 2 ^ (LENGTH('a) * r)"
    using False by (intro power_increasing mult_le_mono2) simp_all
  then have "limbs_int d < 2 ^ (LENGTH('a) * r)" using limbs_int_less [of d] by linarith
  with False show ?thesis by (simp add: div_pos_pos_trivial)
qed

lemma num_montgomery_reduce_eq:
  assumes "sycl_ok (E :: 'a::len word eval)" and "length (data b) = limb_size (b :: 'a word bit_span)"
    and "rspan_ok v" and "rspan_ok N"
    and "is_unsigned (rspan_signedness N)"
    and "0 \<le> rspan_int v" and "rspan_int v < 2 ^ (LENGTH('a) * r) * rspan_int N"
    and "(rspan_int N * uint n' + 1) mod 2 ^ LENGTH('a) = 0"
  shows "\<exists>x. num_montgomery_reduce E b v N r n' = store b x \<and> 0 \<le> x \<and> x < rspan_int N
    \<and> (x * 2 ^ (LENGTH('a) * r)) mod rspan_int N = rspan_int v mod rspan_int N"
proof -
  let ?L = "LENGTH('a)" and ?p = "rspan_limb_size N" and ?N = "rspan_int N" and ?V = "rspan_int v"
  let ?n = "r + ?p + 1" and ?R = "2 ^ (LENGTH('a) * r) :: int"
  let ?T0 = "bit_array (?L * ?n) Without_sign Unnormal (replicate ?n 0) :: 'a word bit_span"
  define T where "T = num_bit_copy E ?T0 v"
  have ls: "limb_size ?T0 = ?n"
    by (simp only: limb_size_bit_array limb_size_for_def div_ceil_mult len_gt_0)
  have T0: "normal_type ?T0 = Unnormal" "length (data ?T0) = limb_size ?T0"
    unfolding ls by (simp_all add: bit_array_def)
  have T: "T = store ?T0 ?V"
    unfolding T_def using num_bitwise_eq(5) [OF assms(1) T0(2), of v] by (simp add: get_int_rspan_int assms(1,3))
  have N: "get_int E N = ?N" by (simp add: get_int_rspan_int assms(1,4))
  have N0: "0 \<le> ?N" using get_int_unsigned_nonneg [OF assms(5), of E] N by simp
  have Np: "?N < 2 ^ (?L * ?p)" using rspan_int_bounds(2) [OF assms(1,4)] .
  have RN: "?R * ?N \<le> 2 ^ (?L * (r + ?p))"
    using Np N0 by (simp add: distrib_left power_add)
  have P: "modulus_of ?T0 = 2 ^ ?L * 2 ^ (?L * (r + ?p))" unfolding ls by (simp add: power_add distrib_left)
  have two: "2 * 2 ^ (?L * (r + ?p)) \<le> modulus_of ?T0"
    unfolding P using power_increasing [of 1 ?L "2::int"] len_gt_0 [where 'a = 'a]
    by (intro mult_right_mono) (simp_all add: Suc_le_eq)
  have Tv: "limbs_int (data T) = ?V"
    unfolding T limbs_int_store_unnormal [OF T0(1)] using assms(6,7) RN two
    by (intro mod_pos_pos_trivial) linarith+
  have Tsel: "normal_type T = Unnormal" "limb_size T = ?n" "length (data T) = limb_size T"
    "bit_size T = ?L * ?n" "signedness T = Without_sign"
  proof -
    show "normal_type T = Unnormal" "limb_size T = ?n" "length (data T) = limb_size T"
      using ls T0(1) unfolding T by (simp_all only: store_sel)
    show "bit_size T = ?L * ?n" "signedness T = Without_sign"
      unfolding T store_sel by (simp_all only: bit_array_def bit_span.simps)
  qed
  obtain d M where d: "for_range r (montgomery_round E N n') T = T\<lparr>data := d\<rparr>" "length d = ?n"
    and M: "0 \<le> M" "M < ?R" "limbs_int d = ?V + ?N * M" "limbs_int d mod ?R = 0"
  proof -
    have lt: "r + ?p < limb_size T" unfolding Tsel(2) by simp
    have "rspan_int v + ?N * ?R \<le> 2 * 2 ^ (?L * (r + ?p))"
      using assms(7) RN by (simp add: mult.commute)
    then have room: "limbs_int (data T) + get_int E N * ?R \<le> modulus_of T"
      using two unfolding Tv N Tsel(2) ls by linarith
    have "0 \<le> get_int E N" "get_int E N < 2 ^ (?L * ?p)" "(get_int E N * uint n' + 1) mod 2 ^ ?L = 0"
      unfolding N by (rule N0, rule Np, rule assms(8))
    from rounds_value [OF assms(1) Tsel(1,3) lt this room order_refl]
    show ?thesis unfolding Tsel(2) Tv N by (elim exE conjE) (rule that)
  qed
  define S where "S = subspan_from (T\<lparr>data := d\<rparr>) r"
  have Sd: "S = T\<lparr>bit_size := ?L * (?p + 1), data := drop r d\<rparr>"
  proof -
    have "?L * ?n = r * ?L + ?L * (?p + 1)" by (simp only: add.assoc distrib_left mult.commute [of r])
    then have "r * ?L < bit_size T" "bit_size T - r * ?L = ?L * (?p + 1)" unfolding Tsel(4) by simp_all
    then show ?thesis unfolding S_def subspan_from_def by simp
  qed
  have Sbits: "bit_size S = ?L * (?p + 1)" by (simp add: Sd)
  have Sls: "limb_size S = ?p + 1"
    unfolding limb_size_def limb_size_for_def Sbits by (simp only: div_ceil_mult len_gt_0)
  have Sfull: "span_shape S" "span_normal S" "span_int S = limbs_int (drop r d)"
  proof -
    have "is_unsigned (signedness S)" "data S = drop r d" by (simp_all add: Sd Tsel(5) is_unsigned_def)
    moreover have "length (data S) = limb_size S" unfolding Sls by (simp add: Sd d(2))
    ultimately show "span_shape S" "span_normal S" "span_int S = limbs_int (drop r d)"
      using get_int_full [of S] Sbits Sls by simp_all
  qed
  define s where "s = limbs_int d div ?R"
  have Sint: "rspan_int (Bits S) = s" using Sfull(3) by (simp add: limbs_int_drop s_def)
  have sR: "s * ?R = ?V + ?N * M" using M(3,4) by (simp add: s_def mod_eq_0_iff_dvd)
  have s0: "0 \<le> s" by (simp add: s_def pos_imp_zdiv_nonneg_iff)
  have s2: "s < 2 * ?N"
  proof -
    have "?N * M \<le> ?N * ?R" using M(2) N0 by (intro mult_left_mono) simp_all
    with assms(7) have "?V + ?N * M < 2 * ?N * ?R" by (simp add: algebra_simps)
    then have "s * ?R < (2 * ?N) * ?R" unfolding sR .
    then show ?thesis by (simp add: mult_less_cancel_right)
  qed
  let ?c = "num_greater_equal E (Bits S) N"
  have c: "?c = of_bool (?N \<le> s)"
    using num_order_eq(4) [OF assms(1), of "Bits S" N] Sfull(1,2) assms(4) Sint by simp
  let ?x = "if ?N \<le> s then s - ?N else s"
  have "num_montgomery_reduce E b v N r n' = fst (num_subtract E b (Bits S) (Masked N ?c) (Const 0))"
    unfolding num_montgomery_reduce_def Let_def T_def [symmetric] d(1) S_def [symmetric] by (rule refl)
  also have "\<dots> = store b (rspan_int (Bits S) - rspan_int (Masked N ?c))"
    using num_subtract_eq(1) [OF assms(1,2), of "Bits S" "Masked N ?c" "Const 0"] Sfull(1,2) assms(4)
      get_int_rspan_int [OF assms(1), of "Bits S"] get_int_rspan_int [OF assms(1), of "Masked N ?c"] by simp
  also have "rspan_int (Bits S) - rspan_int (Masked N ?c) = ?x"
    unfolding Sint by (simp add: c)
  finally have run: "num_montgomery_reduce E b v N r n' = store b ?x" .
  have "(?x * ?R) mod ?N = (s * ?R) mod ?N"
    by (simp add: left_diff_distrib mod_diff_right_eq [of _ "?N * _", symmetric] flip: mod_diff_right_eq)
  also have "\<dots> = ?V mod ?N" unfolding sR by simp
  finally show ?thesis using run s0 s2 by (intro exI [of _ ?x]) auto
qed

section \<open>Properties\<close>

text \<open>C1: Montgomery reduction: under the precondition of its comment (the value is below R times the modulus,
  and the modulus times the inverse modulus is -1 modulo the limb base), the result is an integer
  from 0 to below the modulus which, times R, is congruent to the value, as the postcondition says.\<close>

theorem num_montgomery_reduce_correct:
  assumes "sycl_ok (E :: 'a::len word eval)" and "span_shape (b :: 'a word bit_span)" and "is_unsigned (signedness b)"
    and "rspan_ok v" and "rspan_ok N" and "is_unsigned (rspan_signedness N)"
    and "rspan_int N \<le> 2 ^ bit_size b"
    and "0 \<le> rspan_int v" and "rspan_int v < 2 ^ (LENGTH('a) * r) * rspan_int N"
    and "(rspan_int N * uint n' + 1) mod 2 ^ LENGTH('a) = 0"
  shows "let x = span_int (num_montgomery_reduce E b v N r n') in
    0 \<le> x \<and> x < rspan_int N \<and> (x * 2 ^ (LENGTH('a) * r)) mod rspan_int N = rspan_int v mod rspan_int N
    \<and> span_ok (num_montgomery_reduce E b v N r n')"
proof -
  have len: "length (data b) = limb_size b" using assms(2) by (simp add: span_shape_def)
  obtain x where x: "num_montgomery_reduce E b v N r n' = store b x" "0 \<le> x" "x < rspan_int N"
    "(x * 2 ^ (LENGTH('a) * r)) mod rspan_int N = rspan_int v mod rspan_int N"
    using num_montgomery_reduce_eq [OF assms(1) len assms(4-6,8-10)] by blast
  have "in_range b x" using x(2,3) assms(3,7) by (simp add: in_range_def is_unsigned_iff)
  with store_facts(2) [OF assms(2) this] x show ?thesis by (simp add: Let_def)
qed

theorem num_montgomery_reduce_correct_witness:
  "let x = span_int (num_montgomery_reduce sycl_device (sample [0]) (Bits (sample [0, 100])) (Bits (sample [251])) 1 205)
   in 0 \<le> x \<and> x < 251 \<and> (x * 256) mod 251 = 25600 mod 251"
  using num_montgomery_reduce_correct [OF sycl_ok_device, of "sample [0]" "Bits (sample [0, 100])" "Bits (sample [251])" 1 205]
  by (simp add: is_unsigned_def Let_def)

end
