(* ===== verification/Compiletime.thy ===== *)
theory Compiletime
  imports Num_Bits Num_Multiply "HOL-Library.Monad_Syntax"
begin

text \<open>
  Arithmetic during compilation: \<^verbatim>\<open>compiletime_bit_span\<close>, \<^verbatim>\<open>compiletime_bit_array\<close> and the
  \<^verbatim>\<open>consteval\<close> overloads of \<^verbatim>\<open>hmpc/core/num/\<close>.

  \<^item> A compile-time span has its size at run time of the evaluation, is unsigned, and every access is
    checked: a failing \<^verbatim>\<open>HMPC_COMPILETIME_ASSERT\<close> is a compile error.  An operation here has
    an option as its result, and \<open>None\<close> is that error.
  \<^item> The code passes spans over memory that is also an operand (\<^verbatim>\<open>subtract(x, y, x)\<close>): an operand
    is a value of \<open>'w operand\<close>, which is another span or the memory of the result itself.
  \<^item> \<open>ct_ok b\<close> says that a span has no bits beyond its size, \<open>ct_int b\<close> is its integer.  Every
    operation is shown to return \<open>Some (store r x)\<close>, with the same specification \<open>store\<close> as
    the run-time operations: no assertion fails and the result is the integer it should be.
\<close>

section \<open>Assertions and loops\<close>

definition ct_assert :: "bool \<Rightarrow> unit option" where
  "ct_assert check = (if check then Some () else None)"

primrec ct_for :: "nat \<Rightarrow> (nat \<Rightarrow> 's \<Rightarrow> 's option) \<Rightarrow> 's \<Rightarrow> 's option" where
  "ct_for 0 f s = Some s"
| "ct_for (Suc n) f s = do { s \<leftarrow> ct_for n f s; f n s }"

primrec ct_for_reverse :: "nat \<Rightarrow> (nat \<Rightarrow> 's \<Rightarrow> 's option) \<Rightarrow> 's \<Rightarrow> 's option" where
  "ct_for_reverse 0 f s = Some s"
| "ct_for_reverse (Suc n) f s = do { s \<leftarrow> f n s; ct_for_reverse n f s }"

lemma ct_assert_True [simp]: "ct_assert True = Some ()"
  by (simp add: ct_assert_def)

lemma ct_assert_False [simp]: "ct_assert False = None"
  by (simp add: ct_assert_def)

lemma ct_for_inv:
  assumes "P 0 s" and "\<And>i s. i < n \<Longrightarrow> P i s \<Longrightarrow> f i s = Some (g i s) \<and> P (Suc i) (g i s)"
  shows "ct_for n f s = Some (for_range n g s) \<and> P n (for_range n g s)"
  using assms by (induction n) auto

section \<open>Reading and writing\<close>

definition ct_mask_inside :: "'a::len word \<Rightarrow> nat \<Rightarrow> 'a word option" where
  "ct_mask_inside value b = do {
     ct_assert (b \<le> LENGTH('a));
     if b = 0 then Some 0
     else if b = LENGTH('a) then Some value
     else Some (value AND (push_bit b 1 - 1)) }"

definition ct_is_normal :: "'a::len word \<Rightarrow> nat \<Rightarrow> bool option" where
  "ct_is_normal value b = do {
     ct_assert (b \<le> LENGTH('a));
     if b = LENGTH('a) then Some True
     else do { inside \<leftarrow> ct_mask_inside value b; Some (inside = value) } }"

definition ct_read :: "'a::len word bit_span \<Rightarrow> nat \<Rightarrow> normalization \<Rightarrow> 'a word option" where
  "ct_read b index other = do {
     ct_assert (index < limb_size b);
     if bit_size b mod LENGTH('a) \<noteq> 0 \<and> index = limb_size b - 1
     then if normal_type b = Normal
          then do { normal \<leftarrow> ct_is_normal (data b ! index) (last_limb_bit_size b);
                    ct_assert normal;
                    Some (data b ! index) }
          else if other = Normal then ct_mask_inside (data b ! index) (last_limb_bit_size b)
          else Some (data b ! index)
     else Some (data b ! index) }"

definition ct_extended_read :: "'a::len word bit_span \<Rightarrow> nat \<Rightarrow> normalization \<Rightarrow> 'a word option" where
  "ct_extended_read b index other = (if index < limb_size b then ct_read b index other else Some 0)"

definition ct_write :: "'a::len word bit_span \<Rightarrow> nat \<Rightarrow> 'a word \<Rightarrow> normalization \<Rightarrow> 'a word bit_span option" where
  "ct_write b index value other = do {
     ct_assert (index < limb_size b);
     if index = limb_size b - 1
     then if normal_type b = Normal \<and> other = Unnormal
          then do { normal \<leftarrow> ct_is_normal value (last_limb_bit_size b);
                    ct_assert normal;
                    Some (b\<lparr>data := (data b)[index := value]\<rparr>) }
          else if other = Normal
          then do { inside \<leftarrow> ct_mask_inside value (last_limb_bit_size b);
                    Some (b\<lparr>data := (data b)[index := inside]\<rparr>) }
          else Some (b\<lparr>data := (data b)[index := value]\<rparr>)
     else Some (b\<lparr>data := (data b)[index := value]\<rparr>) }"

text \<open>\<^verbatim>\<open>compiletime_bit_array\<close>: zeros, or the initial limbs that are given, if there is a limb at all.\<close>

definition ct_array :: "nat \<Rightarrow> normalization \<Rightarrow> 'a::len word list \<Rightarrow> 'a word bit_span" where
  "ct_array bits nrm args =
     (let n = limb_size_for TYPE('a) bits
      in bit_array bits Without_sign nrm (if n > 0 then args @ replicate (n - length args) 0 else []))"

definition ct_first_limbs :: "'a::len word bit_span \<Rightarrow> nat \<Rightarrow> 'a word bit_span" where
  "ct_first_limbs b subspan_length =
     (if subspan_length * LENGTH('a) < bit_size b
      then b\<lparr>bit_size := subspan_length * LENGTH('a), data := take subspan_length (data b)\<rparr>
      else b)"

definition ct_subspan :: "'a::len word bit_span \<Rightarrow> nat \<Rightarrow> 'a word bit_span" where
  "ct_subspan b offset =
     (if offset * LENGTH('a) < bit_size b
      then b\<lparr>bit_size := bit_size b - offset * LENGTH('a), data := drop offset (data b)\<rparr>
      else b\<lparr>bit_size := 0, data := []\<rparr>)"

text \<open>A subspan points into the memory of its span: writing to it writes to the span.\<close>

definition put_first_limbs :: "'w bit_span \<Rightarrow> 'w bit_span \<Rightarrow> 'w bit_span" where
  "put_first_limbs b sub = b\<lparr>data := data sub @ drop (length (data sub)) (data b)\<rparr>"

definition put_subspan :: "'w bit_span \<Rightarrow> nat \<Rightarrow> 'w bit_span \<Rightarrow> 'w bit_span" where
  "put_subspan b offset sub = b\<lparr>data := take offset (data b) @ data sub\<rparr>"

datatype 'w operand = Other "'w bit_span" | Own

fun load :: "'w bit_span \<Rightarrow> 'w operand \<Rightarrow> 'w bit_span" where
  "load result (Other b) = b"
| "load result Own = result"

section \<open>The operations\<close>

definition ct_bit_copy :: "'a::len word bit_span \<Rightarrow> 'a word operand \<Rightarrow> 'a word bit_span option" where
  "ct_bit_copy result value = ct_for (limb_size result) (\<lambda>i result. do {
     v \<leftarrow> ct_extended_read (load result value) i (normal_type (load result value));
     ct_write result i v (normal_type result) }) result"

definition ct_add ::
    "'a::len word bit_span \<Rightarrow> 'a word operand \<Rightarrow> 'a word operand \<Rightarrow> hbit \<Rightarrow> ('a word bit_span \<times> hbit) option" where
  "ct_add result left right carry = ct_for (limb_size result) (\<lambda>i (result, carry). do {
     x \<leftarrow> ct_extended_read (load result left) i (normal_type (load result left));
     y \<leftarrow> ct_extended_read (load result right) i (normal_type (load result right));
     let res = core_extended_add_carry (Dyn x) (Dyn y) (Dyn carry);
     result \<leftarrow> ct_write result i (dynamic_value (add_sum res)) (normal_type result);
     Some (result, dynamic_value (add_carry res)) }) (result, carry)"

definition ct_subtract ::
    "'a::len word bit_span \<Rightarrow> 'a word operand \<Rightarrow> 'a word operand \<Rightarrow> hbit \<Rightarrow> ('a word bit_span \<times> hbit) option" where
  "ct_subtract result left right borrow = ct_for (limb_size result) (\<lambda>i (result, borrow). do {
     x \<leftarrow> ct_extended_read (load result left) i (normal_type (load result left));
     y \<leftarrow> ct_extended_read (load result right) i (normal_type (load result right));
     let res = core_subtract_borrow (Dyn x) (Dyn y) (Dyn borrow);
     result \<leftarrow> ct_write result i (dynamic_value (sub_difference res)) (normal_type result);
     Some (result, dynamic_value (sub_borrow res)) }) (result, borrow)"

definition ct_shift_left :: "'a::len word bit_span \<Rightarrow> 'a word bit_span \<Rightarrow> nat \<Rightarrow> 'a word bit_span option" where
  "ct_shift_left result value shift = ct_for_reverse (limb_size result) (\<lambda>i result.
     let limb_shift = shift div LENGTH('a);
         bit_shift = shift mod LENGTH('a)
     in if i < limb_shift then ct_write result i 0 Unnormal
        else do {
          current \<leftarrow> ct_extended_read value (i - limb_shift) (normal_type value);
          if bit_shift = 0 then ct_write result i current (normal_type result)
          else do {
            previous \<leftarrow> (if i - limb_shift > 0
              then ct_extended_read value (i - limb_shift - 1) (normal_type value) else Some 0);
            ct_write result i
              (dynamic_value (core_combined_shift_left (Dyn previous) (Dyn current) bit_shift))
              (normal_type result) } }) result"

definition ct_shift_right :: "'a::len word bit_span \<Rightarrow> 'a word operand \<Rightarrow> nat \<Rightarrow> 'a word bit_span option" where
  "ct_shift_right result value shift = ct_for (limb_size result) (\<lambda>i result.
     let limb_shift = shift div LENGTH('a);
         bit_shift = shift mod LENGTH('a)
     in do {
          current \<leftarrow> ct_extended_read (load result value) (i + limb_shift) Normal;
          if bit_shift = 0 then ct_write result i current (normal_type result)
          else do {
            following \<leftarrow> ct_extended_read (load result value) (i + limb_shift + 1) Normal;
            ct_write result i
              (dynamic_value (core_combined_shift_right (Dyn current) (Dyn following) bit_shift))
              (normal_type result) } }) result"

text \<open>A comparison returns from its loop at the first limbs that differ.\<close>

fun ct_equal_loop :: "bool \<Rightarrow> 'a::len word bit_span \<Rightarrow> 'a word bit_span \<Rightarrow> nat list \<Rightarrow> hbit option" where
  "ct_equal_loop dflt left right [] = Some (of_bool dflt)"
| "ct_equal_loop dflt left right (i # is) = do {
     x \<leftarrow> ct_extended_read left i Normal;
     y \<leftarrow> ct_extended_read right i Normal;
     if x \<noteq> y then Some (of_bool (\<not> dflt)) else ct_equal_loop dflt left right is }"

definition ct_equal_to :: "'a::len word bit_span \<Rightarrow> 'a word bit_span \<Rightarrow> hbit option" where
  "ct_equal_to left right = ct_equal_loop True left right [0..<max (limb_size left) (limb_size right)]"

definition ct_not_equal_to :: "'a::len word bit_span \<Rightarrow> 'a word bit_span \<Rightarrow> hbit option" where
  "ct_not_equal_to left right = ct_equal_loop False left right [0..<max (limb_size left) (limb_size right)]"

fun ct_compare_loop ::
    "('a::len word \<Rightarrow> 'a word \<Rightarrow> bool) \<Rightarrow> bool \<Rightarrow> 'a word bit_span \<Rightarrow> 'a word bit_span \<Rightarrow> nat list \<Rightarrow> hbit option" where
  "ct_compare_loop op dflt left right [] = Some (of_bool dflt)"
| "ct_compare_loop op dflt left right (i # is) = do {
     x \<leftarrow> ct_extended_read left i Normal;
     y \<leftarrow> ct_extended_read right i Normal;
     if x \<noteq> y then Some (of_bool (op x y)) else ct_compare_loop op dflt left right is }"

definition ct_compare ::
    "('a::len word \<Rightarrow> 'a word \<Rightarrow> bool) \<Rightarrow> bool \<Rightarrow> 'a word bit_span \<Rightarrow> 'a word bit_span \<Rightarrow> hbit option" where
  "ct_compare op dflt left right =
     ct_compare_loop op dflt left right (rev [0..<max (limb_size left) (limb_size right)])"

definition ct_greater :: "'a::len word bit_span \<Rightarrow> 'a word bit_span \<Rightarrow> hbit option" where
  "ct_greater = ct_compare (>) False"

definition ct_less :: "'a::len word bit_span \<Rightarrow> 'a word bit_span \<Rightarrow> hbit option" where
  "ct_less = ct_compare (<) False"

definition ct_greater_equal :: "'a::len word bit_span \<Rightarrow> 'a word bit_span \<Rightarrow> hbit option" where
  "ct_greater_equal = ct_compare (\<ge>) True"

definition ct_less_equal :: "'a::len word bit_span \<Rightarrow> 'a word bit_span \<Rightarrow> hbit option" where
  "ct_less_equal = ct_compare (\<le>) True"

fun ct_bit_width_loop :: "'a::len word bit_span \<Rightarrow> nat list \<Rightarrow> nat option" where
  "ct_bit_width_loop value [] = Some 0"
| "ct_bit_width_loop value (i # is) = do {
     v \<leftarrow> ct_read value i (normal_type value);
     let width = std_bit_width (unat v);
     if width \<noteq> 0 then Some (width + i * LENGTH('a)) else ct_bit_width_loop value is }"

definition ct_bit_width :: "'a::len word bit_span \<Rightarrow> nat option" where
  "ct_bit_width value = ct_bit_width_loop value (rev [0..<limb_size value])"

fun ct_countr_zero_loop :: "'a::len word bit_span \<Rightarrow> nat list \<Rightarrow> nat option" where
  "ct_countr_zero_loop value [] = Some (bit_size value)"
| "ct_countr_zero_loop value (i # is) = do {
     v \<leftarrow> ct_read value i (normal_type value);
     let count = std_countr_zero v;
     if count \<noteq> LENGTH('a) then Some (min (i * LENGTH('a) + count) (bit_size value))
     else ct_countr_zero_loop value is }"

definition ct_countr_zero :: "'a::len word bit_span \<Rightarrow> nat option" where
  "ct_countr_zero value = ct_countr_zero_loop value [0..<limb_size value]"

definition ct_extract_bit_limb :: "'a::len word \<Rightarrow> nat \<Rightarrow> hbit option" where
  "ct_extract_bit_limb value b = do {
     ct_assert (b < LENGTH('a));
     if b = 0 then Some (ucast value)
     else Some (dynamic_value (core_is_set (core_bit_and (Dyn value) (core_shift_left (Const 1) b)))) }"

definition ct_extract_bit :: "'a::len word bit_span \<Rightarrow> nat \<Rightarrow> hbit option" where
  "ct_extract_bit value b = do {
     v \<leftarrow> ct_extended_read value (b div LENGTH('a)) (normal_type value);
     ct_extract_bit_limb v (b mod LENGTH('a)) }"

definition ct_multiply_step ::
    "'a::len word bit_span \<Rightarrow> 'a word bit_span \<Rightarrow> nat \<Rightarrow> nat \<Rightarrow> nat \<Rightarrow> 'a word bit_span \<times> 'a word
     \<Rightarrow> ('a word bit_span \<times> 'a word) option" where
  "ct_multiply_step left right result_limb_size i j = (\<lambda>(intermediate, carry). do {
     left_value \<leftarrow> ct_read left j (normal_type left);
     right_value \<leftarrow> ct_read right i (normal_type right);
     let k = i + j;
     current \<leftarrow> (if i = 0 then Some 0 else ct_read intermediate k (normal_type intermediate));
     if k + 1 < result_limb_size
     then do {
       let res = core_extended_multiply_add Consteval (Dyn left_value) (Dyn right_value) (Dyn current) (Dyn carry);
       intermediate \<leftarrow> ct_write intermediate k (dynamic_value (mul_lower res)) (normal_type intermediate);
       Some (intermediate, dynamic_value (mul_upper res)) }
     else do {
       ct_assert (k = result_limb_size - 1);
       intermediate \<leftarrow> ct_write intermediate k
         (dynamic_value (core_multiply_add (Dyn left_value) (Dyn right_value) (Dyn current) (Dyn carry)))
         (normal_type intermediate);
       Some (intermediate, 0) } })"

definition ct_multiply_row ::
    "'a::len word bit_span \<Rightarrow> 'a word bit_span \<Rightarrow> nat \<Rightarrow> nat \<Rightarrow> 'a word bit_span \<Rightarrow> 'a word bit_span option" where
  "ct_multiply_row left right result_limb_size i intermediate = do {
     ct_assert (limb_size intermediate \<ge> i);
     let left_overlap = min (limb_size intermediate - i) (limb_size left);
     (intermediate, carry) \<leftarrow>
       ct_for left_overlap (ct_multiply_step left right result_limb_size i) (intermediate, 0);
     if limb_size intermediate > limb_size left + i
     then ct_write intermediate (i + limb_size left) carry (normal_type intermediate)
     else Some intermediate }"

definition ct_multiply ::
    "'a::len word bit_span \<Rightarrow> 'a word bit_span \<Rightarrow> 'a word bit_span \<Rightarrow> 'a word bit_span option" where
  "ct_multiply result left right = do {
     let intermediate = ct_array (min (bit_size result) (bit_size left + bit_size right)) Unnormal [];
     let right_overlap = min (limb_size intermediate) (limb_size right);
     intermediate \<leftarrow> ct_for right_overlap (ct_multiply_row left right (limb_size result)) intermediate;
     result \<leftarrow> ct_for (limb_size intermediate) (\<lambda>i result. do {
       v \<leftarrow> ct_read intermediate i (normal_type intermediate);
       ct_write result i v (normal_type result) }) result;
     ct_for (limb_size result - limb_size intermediate)
       (\<lambda>j result. ct_write result (limb_size intermediate + j) 0 Unnormal) result }"

section \<open>Spans without stray bits\<close>

definition ct_int :: "'a::len word bit_span \<Rightarrow> int" where
  "ct_int b = limbs_int (data b)"

definition ct_dest :: "'a::len word bit_span \<Rightarrow> bool" where
  "ct_dest b \<longleftrightarrow> length (data b) = limb_size b \<and> is_unsigned (signedness b)"

definition ct_ok :: "'a::len word bit_span \<Rightarrow> bool" where
  "ct_ok b \<longleftrightarrow> ct_dest b \<and> ct_int b < 2 ^ bit_size b"

lemma ct_ok_dest: "ct_ok b \<Longrightarrow> ct_dest b"
  by (simp add: ct_ok_def)

lemma ct_destD: "ct_dest b \<Longrightarrow> length (data b) = limb_size b" "ct_dest b \<Longrightarrow> \<not> is_signed (signedness b)"
  by (simp_all add: ct_dest_def is_unsigned_iff)

lemma ct_int_nonneg [simp]: "0 \<le> ct_int b"
  by (simp add: ct_int_def)

lemma ct_ok_span: "ct_ok b \<Longrightarrow> span_shape b \<and> span_normal b \<and> span_int b = ct_int b"
proof -
  assume ok: "ct_ok b"
  then have "span_int b = ct_int b"
    by (simp add: ct_ok_def ct_dest_def span_int_def wrap_def is_unsigned_iff ct_int_def take_bit_int_eq_self)
  moreover have "ct_int b < 2 ^ (LENGTH('a) * limb_size b)"
    using ok limbs_int_less [of "data b"] by (simp add: ct_ok_def ct_dest_def ct_int_def)
  ultimately show ?thesis
    using ok by (simp add: ct_ok_def ct_dest_def span_shape_def span_normal_def is_unsigned_iff ct_int_def)
qed

lemma last_limb_bit_size_le: "last_limb_bit_size (b :: 'a::len word bit_span) \<le> LENGTH('a)"
proof (cases "bit_size b")
  case 0
  then show ?thesis by (simp add: last_limb_bit_size_def last_limb_bit_size_for_def)
next
  case (Suc n)
  then show ?thesis using last_bit_split(3) [of b] by simp
qed

lemma ct_mask_inside_eq: "n \<le> LENGTH('a) \<Longrightarrow> ct_mask_inside (v :: 'a::len word) n = Some (take_bit n v)"
  using dyn_mask_inside [of n "Dyn v"]
  by (auto simp: ct_mask_inside_def exp_minus_one_mask take_bit_eq_mask le_less take_bit_word_eq_self)

lemma ct_is_normal_eq:
  "n \<le> LENGTH('a) \<Longrightarrow> ct_is_normal (v :: 'a::len word) n = Some (take_bit n v = v)"
  by (simp add: ct_is_normal_def ct_mask_inside_eq take_bit_word_eq_self)

lemma ct_last_limb:
  assumes "ct_ok (b :: 'a::len word bit_span)" and "0 < limb_size b"
  shows "take_bit (last_limb_bit_size b) (data b ! (limb_size b - 1)) = data b ! (limb_size b - 1)"
proof (cases "bit_size b mod LENGTH('a) = 0")
  case True
  with assms(2) have "last_limb_bit_size b = LENGTH('a)"
    by (auto simp: last_limb_bit_size_def last_limb_bit_size_for_def limb_size_def limb_size_for_def)
  then show ?thesis by (simp add: take_bit_word_eq_self)
next
  case False
  let ?b = "b\<lparr>normal_type := Unnormal\<rparr>"
  have u [simp]: "limb_size ?b = limb_size b" "last_limb_bit_size ?b = last_limb_bit_size b"
    by (simp_all add: limb_size_def last_limb_bit_size_def)
  have "ct_ok ?b" using assms(1) by (simp add: ct_ok_def ct_dest_def ct_int_def)
  from ct_ok_span [OF this] have "span_shape ?b" "span_normal ?b" by simp_all
  then have "span_read ?b (limb_size b - 1) Normal = data b ! (limb_size b - 1)"
    using span_read_normal [of ?b "limb_size b - 1" Normal] assms(2) by simp
  with False assms(1) show ?thesis
    using dyn_mask_inside [of "last_limb_bit_size b" "Dyn (data b ! (limb_size b - 1))"] last_limb_bit_size_le [of b]
    by (simp add: span_read_def ct_ok_def ct_dest_def is_unsigned_iff)
qed

lemma ct_data_limb:
  assumes "ct_ok (b :: 'a::len word bit_span)" and "i < limb_size b"
  shows "data b ! i = limb_of (ct_int b) i"
  using assms limb_of_limbs_val [of i "length (data b)" "(!) (data b)"]
  by (simp add: ct_int_def limbs_int_nth ct_ok_def ct_dest_def)

lemma limb_of_beyond:
  assumes "ct_ok (b :: 'a::len word bit_span)" and "limb_size b \<le> i"
  shows "(limb_of (ct_int b) i :: 'a word) = 0"
proof -
  have "ct_int b < 2 ^ (LENGTH('a) * limb_size b)"
    using assms(1) limbs_int_less [of "data b"] by (simp add: ct_ok_def ct_dest_def ct_int_def)
  also have "\<dots> \<le> 2 ^ (LENGTH('a) * i)" using assms(2) by (simp add: power_increasing)
  finally show ?thesis by (simp add: limb_of_def div_pos_pos_trivial)
qed

text \<open>A limb is read if it still is the limb of the span, whatever was written to other limbs.\<close>

lemma ct_read_limb:
  assumes "ct_ok (b :: 'a::len word bit_span)" and "i < limb_size b" and "d ! i = data b ! i"
  shows "ct_read (b\<lparr>data := d\<rparr>) i n = Some (limb_of (ct_int b) i)"
  using assms ct_last_limb [of b]
  by (auto simp: ct_read_def ct_data_limb [symmetric] ct_is_normal_eq ct_mask_inside_eq last_limb_bit_size_le)

lemma ct_read_eq:
  "ct_ok (b :: 'a::len word bit_span) \<Longrightarrow> i < limb_size b \<Longrightarrow> ct_read b i n = Some (limb_of (ct_int b) i)"
  using ct_read_limb [of b i "data b"] by simp

lemma ct_extended_read_eq:
  "ct_ok (b :: 'a::len word bit_span) \<Longrightarrow> ct_extended_read b i n = Some (limb_of (ct_int b) i)"
  by (simp add: ct_extended_read_def ct_read_eq limb_of_beyond)

lemma ct_operand_read:
  assumes "ct_ok (load b v)" and "i < limb_size (b :: 'a::len word bit_span) \<Longrightarrow> d ! i = data b ! i"
  shows "ct_extended_read (load (b\<lparr>data := d\<rparr>) v) i n = Some (limb_of (ct_int (load b v)) i)"
  using assms ct_read_limb [of b i d]
  by (cases v) (simp_all add: ct_extended_read_def ct_read_eq limb_of_beyond)

lemma normal_type_load [simp]: "normal_type (load (b\<lparr>data := d\<rparr>) v) = normal_type (load b v)"
  by (cases v) simp_all

lemma ct_write_put:
  assumes "i < limb_size b" and "is_unsigned (signedness b)"
  shows "ct_write b i v (normal_type b) = Some (put b i (Dyn v))"
proof -
  have u: "\<not> is_signed (signedness b)" using assms(2) by (simp add: is_unsigned_iff)
  show ?thesis
    using assms(1) u
    by (cases "normal_type b")
      (simp_all add: ct_write_def put_def span_write_def written_limb_def ct_mask_inside_eq
        dyn_mask_inside last_limb_bit_size_le)
qed

lemma put_zero: "i < limb_size b \<Longrightarrow> put b i (Dyn 0) = b\<lparr>data := (data b)[i := 0]\<rparr>"
  using written_limb_dyn [of "Dyn 0" "Const 0" i b "normal_type b"] written_limb_zero [of i b]
  by (simp add: put_def span_write_def)

lemma ct_write_zero: "i < limb_size b \<Longrightarrow> ct_write b i 0 Unnormal = Some (put b i (Dyn 0))"
  by (simp add: ct_write_def ct_is_normal_eq last_limb_bit_size_le put_zero)

lemma ct_dest_update [simp]: "ct_dest (b\<lparr>data := d\<rparr>) \<longleftrightarrow> length d = limb_size b \<and> is_unsigned (signedness b)"
  by (simp add: ct_dest_def)

lemma ct_dest_store [simp]: "ct_dest b \<Longrightarrow> ct_dest (store b x)"
  by (simp add: ct_dest_def)

section \<open>Loops that write every limb of a result\<close>

lemma ct_scan_put_ahead:
  fixes b :: "'a::len word bit_span"
  assumes "ct_dest b"
    and "\<And>i d c. i < limb_size b \<Longrightarrow> length d = limb_size b \<Longrightarrow> (\<forall>j<limb_size b. i \<le> j \<longrightarrow> d ! j = data b ! j)
      \<Longrightarrow> step i (b\<lparr>data := d\<rparr>, c) = Some (put (b\<lparr>data := d\<rparr>) i (f i c), k i c)"
  shows "ct_for (limb_size b) step (b, c)
    = Some (span_written b (\<lambda>i. f i (carry_seq k c i)) (normal_type b), carry_seq k c (limb_size b))"
proof -
  let ?step = "\<lambda>i s. the (step i s)"
  note len = ct_destD(1) [OF assms(1)]
  let ?d = "\<lambda>n. map (\<lambda>i. written_limb b i (f i (carry_seq k c i)) (normal_type b)) [0..<n] @ drop n (data b)"
  have run: "scan_range n ?step (b, c) = (b\<lparr>data := ?d n\<rparr>, carry_seq k c n)" if "n \<le> limb_size b" for n
    by (rule scan_write [OF len that]) (use that assms(2) in \<open>simp add: put_def\<close>)
  have "ct_for n step (b, c) = Some (scan_range n ?step (b, c))" if "n \<le> limb_size b" for n
    using that
  proof (induction n)
    case (Suc n)
    then have "step n (b\<lparr>data := ?d n\<rparr>, carry_seq k c n)
      = Some (put (b\<lparr>data := ?d n\<rparr>) n (f n (carry_seq k c n)), k n (carry_seq k c n))"
      using len by (intro assms(2)) (auto simp: nth_append)
    with Suc run [of n] show ?case by simp
  qed simp
  from this [OF order_refl] show ?thesis
    using run [OF order_refl] len by (simp add: span_written_def)
qed

lemma ct_for_put_ahead:
  fixes b :: "'a::len word bit_span"
  assumes "ct_dest b"
    and "\<And>i d. i < limb_size b \<Longrightarrow> length d = limb_size b \<Longrightarrow> (\<forall>j<limb_size b. i \<le> j \<longrightarrow> d ! j = data b ! j)
      \<Longrightarrow> step i (b\<lparr>data := d\<rparr>) = Some (put (b\<lparr>data := d\<rparr>) i (f i))"
  shows "ct_for (limb_size b) step b = Some (span_written b f (normal_type b))"
proof -
  have "ct_for n (\<lambda>i (r, c). do { r \<leftarrow> step i r; Some (r, ()) }) (b, ()) = do { r \<leftarrow> ct_for n step b; Some (r, ()) }" for n
    by (induction n) (simp_all add: split_def Option.bind_assoc)
  moreover have "ct_for (limb_size b) (\<lambda>i (r, c). do { r \<leftarrow> step i r; Some (r, ()) }) (b, ())
    = Some (span_written b f (normal_type b), ())"
    using ct_scan_put_ahead [OF assms(1), of "\<lambda>i (r, c). do { r \<leftarrow> step i r; Some (r, ()) }" "\<lambda>i _. f i" "\<lambda>_ _. ()" "()"]
      assms(2) by simp
  ultimately show ?thesis by (cases "ct_for (limb_size b) step b") simp_all
qed

lemma ct_for_reverse_put:
  fixes b :: "'a::len word bit_span"
  assumes "ct_dest b"
    and "\<And>i d. i < limb_size b \<Longrightarrow> length d = limb_size b
      \<Longrightarrow> step i (b\<lparr>data := d\<rparr>) = Some (put (b\<lparr>data := d\<rparr>) i (f i))"
  shows "ct_for_reverse (limb_size b) step b = Some (span_written b f (normal_type b))"
proof -
  have "ct_for_reverse n step (b\<lparr>data := d\<rparr>) = Some (for_reverse_range n (\<lambda>i r. put r i (f i)) (b\<lparr>data := d\<rparr>))"
    if "n \<le> limb_size b" "length d = limb_size b" for n d
    using that
  proof (induction n arbitrary: d)
    case (Suc n)
    then show ?case using assms(2) [of n d] by (simp add: put_def span_write_def)
  qed simp
  from this [OF order_refl, of "data b"] show ?thesis
    using for_reverse_put [of b "\<lambda>i r. put r i (f i)" f] ct_destD(1) [OF assms(1)] by simp
qed

text \<open>A chain of sums or differences with a carry, limb by limb, stores the sum or difference.\<close>

lemma chain_stores:
  fixes b :: "'a::len word bit_span"
  assumes "\<And>i c. uint (dynamic_value (f i c)) + 2 ^ LENGTH('a) * (\<sigma> * uint (k i c))
      = uint (limb_of x i :: 'a word) + \<sigma> * uint (limb_of y i :: 'a word) + \<sigma> * uint (c :: hbit)"
  shows "span_written b (\<lambda>i. f i (carry_seq k c i)) (normal_type b) = store b (x + \<sigma> * y + \<sigma> * uint c)"
    and "\<sigma> * uint (carry_seq k c (limb_size b))
      = (x mod modulus_of b + \<sigma> * (y mod modulus_of b) + \<sigma> * uint c) div modulus_of b"
proof -
  let ?c = "carry_seq k c" and ?M = "modulus_of b"
  have chain: "limbs_val (\<lambda>i. dynamic_value (f i (?c i))) (limb_size b) + ?M * (\<sigma> * uint (?c (limb_size b)))
    = limbs_val (limb_of x :: nat \<Rightarrow> 'a word) (limb_size b)
      + \<sigma> * limbs_val (limb_of y :: nat \<Rightarrow> 'a word) (limb_size b) + \<sigma> * uint (?c 0)"
    by (rule limbs_val_chain) (simp only: carry_seq.simps assms)
  then have eq: "limbs_val (\<lambda>i. dynamic_value (f i (?c i))) (limb_size b) + ?M * (\<sigma> * uint (?c (limb_size b)))
    = x mod ?M + \<sigma> * (y mod ?M) + \<sigma> * uint c"
    by (simp add: limbs_val_limb_of)
  have "limbs_val (\<lambda>i. dynamic_value (f i (?c i))) (limb_size b) = (x mod ?M + \<sigma> * (y mod ?M) + \<sigma> * uint c) mod ?M"
    unfolding eq [symmetric] mod_mult_self2 by simp
  also have "\<dots> = (x + \<sigma> * y + \<sigma> * uint c) mod ?M"
    by (intro mod_add_cong mod_mult_cong) simp_all
  finally show "span_written b (\<lambda>i. f i (?c i)) (normal_type b) = store b (x + \<sigma> * y + \<sigma> * uint c)"
    by (rule store_valI)
  show "\<sigma> * uint (?c (limb_size b)) = (x mod ?M + \<sigma> * (y mod ?M) + \<sigma> * uint c) div ?M"
    unfolding eq [symmetric] div_mult_self2 [OF power_not_zero [OF zero_neq_numeral [symmetric]]]
    using limbs_val_less [of "\<lambda>i. dynamic_value (f i (?c i))" "limb_size b"] by (simp add: div_pos_pos_trivial)
qed

section \<open>What the operations store\<close>

lemma ct_bit_copy_eq:
  assumes "ct_dest r" and "ct_ok (load r v)"
  shows "ct_bit_copy r v = Some (store r (ct_int (load r v)))"
proof -
  have "ct_bit_copy r v = Some (span_written r (\<lambda>i. Dyn (limb_of (ct_int (load r v)) i)) (normal_type r))"
    unfolding ct_bit_copy_def using assms ct_destD(1) [OF assms(1)]
    by (intro ct_for_put_ahead)
      (simp_all add: ct_operand_read ct_write_put ct_write_put [of _ "_\<lparr>data := _\<rparr>", simplified] ct_dest_def)
  also have "\<dots> = Some (store r (ct_int (load r v)))" by (simp add: store_def)
  finally show ?thesis .
qed

lemmas ct_write_update = ct_write_put [of _ "_\<lparr>data := _\<rparr>", simplified]

lemma ct_add_eq:
  assumes "ct_dest (r :: 'a::len word bit_span)" and "ct_ok (load r v)" and "ct_ok (load r w)"
  shows "\<exists>c'. ct_add r v w c = Some (store r (ct_int (load r v) + ct_int (load r w) + uint c), c')
    \<and> uint c' = (ct_int (load r v) mod modulus_of r + ct_int (load r w) mod modulus_of r + uint c) div modulus_of r"
proof -
  let ?x = "ct_int (load r v)" and ?y = "ct_int (load r w)"
  let ?res = "\<lambda>i c. core_extended_add_carry (Dyn (limb_of ?x i :: 'a word)) (Dyn (limb_of ?y i)) (Dyn c)"
  let ?f = "\<lambda>i c. Dyn (dynamic_value (add_sum (?res i c)))" and ?k = "\<lambda>i c. dynamic_value (add_carry (?res i c))"
  have "ct_add r v w c = Some (span_written r (\<lambda>i. ?f i (carry_seq ?k c i)) (normal_type r), carry_seq ?k c (limb_size r))"
    unfolding ct_add_def using assms
    by (intro ct_scan_put_ahead [where f = ?f]) (simp_all add: ct_operand_read ct_write_update ct_dest_def Let_def)
  moreover have "uint (dynamic_value (?f i c)) + 2 ^ LENGTH('a) * (1 * uint (?k i c))
      = uint (limb_of ?x i :: 'a word) + 1 * uint (limb_of ?y i :: 'a word) + 1 * uint c" for i c
    using add_exact_carry [of "Dyn (limb_of ?x i :: 'a word)" "Dyn (limb_of ?y i)" "Dyn c"] by (simp add: add_exact_def)
  note chain_stores [OF this, where b = r and c = c]
  ultimately show ?thesis by simp
qed

lemma ct_subtract_eq:
  assumes "ct_dest (r :: 'a::len word bit_span)" and "ct_ok (load r v)" and "ct_ok (load r w)"
  shows "\<exists>c'. ct_subtract r v w c = Some (store r (ct_int (load r v) - ct_int (load r w) - uint c), c')
    \<and> - uint c' = (ct_int (load r v) mod modulus_of r - ct_int (load r w) mod modulus_of r - uint c) div modulus_of r"
proof -
  let ?x = "ct_int (load r v)" and ?y = "ct_int (load r w)"
  let ?res = "\<lambda>i c. core_subtract_borrow (Dyn (limb_of ?x i :: 'a word)) (Dyn (limb_of ?y i)) (Dyn c)"
  let ?f = "\<lambda>i c. Dyn (dynamic_value (sub_difference (?res i c)))" and ?k = "\<lambda>i c. dynamic_value (sub_borrow (?res i c))"
  have "ct_subtract r v w c
    = Some (span_written r (\<lambda>i. ?f i (carry_seq ?k c i)) (normal_type r), carry_seq ?k c (limb_size r))"
    unfolding ct_subtract_def using assms
    by (intro ct_scan_put_ahead [where f = ?f]) (simp_all add: ct_operand_read ct_write_update ct_dest_def Let_def)
  moreover have "uint (dynamic_value (?f i c)) + 2 ^ LENGTH('a) * (- 1 * uint (?k i c))
      = uint (limb_of ?x i :: 'a word) + - 1 * uint (limb_of ?y i :: 'a word) + - 1 * uint c" for i c
    using sub_exact_borrow [of "Dyn (limb_of ?x i :: 'a word)" "Dyn (limb_of ?y i)" "Dyn c"] by (simp add: sub_exact_def)
  note chain_stores [OF this, where b = r and c = c]
  ultimately show ?thesis by simp
qed

text \<open>The shifts write the limbs the run-time shifts write.\<close>

lemma get_Bits_ct:
  assumes "ct_ok b"
  shows "dynamic_value (get Consteval (Bits b) i) = limb_of (ct_int b) i" "get_int Consteval (Bits b) = ct_int b"
    "dynamic_value (extended_read Consteval (Bits b) i n) = limb_of (ct_int b) i"
    "stream_int Consteval (Bits b) n = ct_int b"
  using ct_ok_span [OF assms] get_int_Bits [of b Consteval] stream_int_Bits [of Consteval b n]
  by (simp_all add: get_limb_of del: extended_read.simps)

lemma ct_shift_left_eq:
  assumes "ct_dest r" and "ct_ok (v :: 'a::len word bit_span)"
  shows "ct_shift_left r v s = Some (store r (ct_int v * 2 ^ s))"
proof -
  let ?f = "\<lambda>i. Dyn (dynamic_value (shift_left_limb Consteval s (Bits v) i))"
  have cong: "dynamic_value (core_combined_shift_left x y k) = dynamic_value (core_combined_shift_left x' y' k)"
    if "dynamic_value x = dynamic_value x'" "dynamic_value y = dynamic_value y'"
    for x y x' y' :: "'a word arg" and k
    using that by (simp add: core_combined_shift_left_def)
  have "ct_shift_left r v s = Some (span_written r ?f (normal_type r))"
    unfolding ct_shift_left_def using assms
    by (intro ct_for_reverse_put)
      (auto simp: ct_extended_read_eq ct_write_update ct_write_zero ct_dest_def Let_def shift_left_limb_def
        get_Bits_ct intro!: arg_cong [where f = "\<lambda>x. put _ _ (Dyn x)"] cong)
  also have "\<dots> = Some (store r (ct_int v * 2 ^ s))"
    using shift_left_limb_of [of Consteval s "Bits v"] get_Bits_ct(2) [OF assms(2)]
    by (simp add: store_limbI)
  finally show ?thesis .
qed

lemma ct_shift_right_eq:
  assumes "ct_dest r" and "ct_ok (load (r :: 'a::len word bit_span) v)"
  shows "ct_shift_right r v s = Some (store r (ct_int (load r v) div 2 ^ s))"
proof -
  let ?v = "load r v"
  let ?f = "\<lambda>i. Dyn (dynamic_value (shift_right_limb Consteval s (Bits ?v) i))"
  have read: "ct_extended_read (load (r\<lparr>data := d\<rparr>) v) j Normal = Some (limb_of (ct_int ?v) j)"
    if "\<forall>j<limb_size r. i \<le> j \<longrightarrow> d ! j = data r ! j" "i \<le> j" for d i j
    using that assms(2) by (intro ct_operand_read) auto
  have cong: "dynamic_value (core_combined_shift_right x y k) = dynamic_value (core_combined_shift_right x' y' k)"
    if "dynamic_value x = dynamic_value x'" "dynamic_value y = dynamic_value y'"
    for x y x' y' :: "'a word arg" and k
    using that by (simp add: core_combined_shift_right_def)
  have "ct_shift_right r v s = Some (span_written r ?f (normal_type r))"
    unfolding ct_shift_right_def using assms
    by (intro ct_for_put_ahead)
      (auto simp: read ct_write_update ct_dest_def Let_def shift_right_limb_def
        get_Bits_ct simp del: extended_read.simps intro!: arg_cong [where f = "\<lambda>x. put _ _ (Dyn x)"] cong)
  also have "\<dots> = Some (store r (ct_int ?v div 2 ^ s))"
    using shift_right_limb_of [of Consteval s "Bits ?v"] get_Bits_ct(4) [OF assms(2)]
    by (simp add: store_limbI)
  finally show ?thesis .
qed

lemma limbs_val_ct:
  assumes "ct_ok b" and "limb_size b \<le> n"
  shows "limbs_val (limb_of (ct_int b) :: nat \<Rightarrow> 'a word) n = ct_int (b :: 'a::len word bit_span)"
proof -
  have "ct_int b < 2 ^ (LENGTH('a) * limb_size b)"
    using assms(1) limbs_int_less [of "data b"] by (simp add: ct_ok_def ct_dest_def ct_int_def)
  then have "ct_int b < 2 ^ (LENGTH('a) * n)" by (rule nat_lt_of_int_pow) (simp add: assms(2))
  then show ?thesis by (simp add: limbs_val_limb_of)
qed

lemma ct_compare_loop_eq:
  fixes l r :: "'a::len word bit_span"
  assumes "ct_ok l" and "ct_ok r" and op: "\<And>x y. x \<noteq> y \<Longrightarrow> op x y \<longleftrightarrow> (x < y) = s"
  shows "ct_compare_loop op dflt l r (rev [0..<n])
    = Some (of_bool (let x = limbs_val (limb_of (ct_int l) :: nat \<Rightarrow> 'a word) n;
                         y = limbs_val (limb_of (ct_int r) :: nat \<Rightarrow> 'a word) n
                     in if x = y then dflt else (x < y) = s))"
proof (induction n)
  case (Suc n)
  let ?x = "limb_of (ct_int l) :: nat \<Rightarrow> 'a word" and ?y = "limb_of (ct_int r) :: nat \<Rightarrow> 'a word"
  show ?case
  proof (cases "?x n = ?y n")
    case True
    then show ?thesis using Suc by (simp add: ct_extended_read_eq assms(1,2))
  next
    case False
    have "limbs_val ?x (Suc n) < limbs_val ?y (Suc n) \<longleftrightarrow> ?x n < ?y n"
      "limbs_val ?x (Suc n) \<noteq> limbs_val ?y (Suc n)"
      using False limbs_val_less_top [of ?x n ?y] limbs_val_less_top [of ?y n ?x]
      by (cases "?x n < ?y n"; force simp: word_less_def word_uint_eq_iff)+
    with False show ?thesis by (simp add: ct_extended_read_eq assms(1,2) op del: limbs_val.simps)
  qed
qed simp

lemma ct_compare_eq:
  assumes "ct_ok l" and "ct_ok (r :: 'a::len word bit_span)" and "\<And>x y. x \<noteq> y \<Longrightarrow> op x y \<longleftrightarrow> (x < y) = s"
  shows "ct_compare op dflt l r
    = Some (of_bool (if ct_int l = ct_int r then dflt else (ct_int l < ct_int r) = s))"
  using ct_compare_loop_eq [OF assms, where dflt = dflt and n = "max (limb_size l) (limb_size r)"] assms(1,2)
  by (simp add: ct_compare_def limbs_val_ct Let_def)

lemma ct_order_eq:
  assumes "ct_ok l" and "ct_ok (r :: 'a::len word bit_span)"
  shows "ct_less l r = Some (of_bool (ct_int l < ct_int r))"
    and "ct_greater l r = Some (of_bool (ct_int l > ct_int r))"
    and "ct_less_equal l r = Some (of_bool (ct_int l \<le> ct_int r))"
    and "ct_greater_equal l r = Some (of_bool (ct_int l \<ge> ct_int r))"
  unfolding ct_less_def ct_greater_def ct_less_equal_def ct_greater_equal_def
  by (subst ct_compare_eq [OF assms, where s = True] ct_compare_eq [OF assms, where s = False];
      force intro!: arg_cong [where f = of_bool])+

lemma ct_equal_loop_eq:
  fixes l r :: "'a::len word bit_span"
  assumes "ct_ok l" and "ct_ok r"
  shows "ct_equal_loop dflt l r is
    = Some (of_bool (if \<forall>i\<in>set is. (limb_of (ct_int l) i :: 'a word) = limb_of (ct_int r) i then dflt else \<not> dflt))"
  by (induction "is") (simp_all add: ct_extended_read_eq assms)

lemma ct_equality_eq:
  assumes "ct_ok l" and "ct_ok (r :: 'a::len word bit_span)"
  shows "ct_equal_to l r = Some (of_bool (ct_int l = ct_int r))"
    and "ct_not_equal_to l r = Some (of_bool (ct_int l \<noteq> ct_int r))"
proof -
  let ?n = "max (limb_size l) (limb_size r)"
  have "(\<forall>i\<in>set [0..<?n]. (limb_of (ct_int l) i :: 'a word) = limb_of (ct_int r) i)
    \<longleftrightarrow> limbs_val (limb_of (ct_int l) :: nat \<Rightarrow> 'a word) ?n = limbs_val (limb_of (ct_int r) :: nat \<Rightarrow> 'a word) ?n"
    unfolding limbs_val_eq_iff by auto
  then have eq: "(\<forall>i\<in>set [0..<?n]. (limb_of (ct_int l) i :: 'a word) = limb_of (ct_int r) i) \<longleftrightarrow> ct_int l = ct_int r"
    using assms by (simp add: limbs_val_ct)
  show "ct_equal_to l r = Some (of_bool (ct_int l = ct_int r))"
    "ct_not_equal_to l r = Some (of_bool (ct_int l \<noteq> ct_int r))"
    unfolding ct_equal_to_def ct_not_equal_to_def ct_equal_loop_eq [OF assms] eq by simp_all
qed

lemma ct_bit_width_eq:
  assumes "ct_ok (v :: 'a::len word bit_span)"
  shows "ct_bit_width v = Some (std_bit_width (nat (ct_int v)))"
proof -
  let ?x = "limb_of (ct_int v) :: nat \<Rightarrow> 'a word"
  have "ct_bit_width_loop v (rev [0..<n]) = Some (std_bit_width (nat (limbs_val ?x n)))" if "n \<le> limb_size v" for n
    using that
  proof (induction n)
    case (Suc n)
    then show ?case
      by (simp add: ct_read_eq assms Let_def mult.commute unat_eq_zero std_bit_width_limbs_val del: limbs_val.simps)
  qed simp
  from this [OF order_refl] show ?thesis using assms by (simp add: ct_bit_width_def limbs_val_ct)
qed

lemma ct_countr_zero_loop:
  assumes "ct_ok (v :: 'a::len word bit_span)" and "i \<le> limb_size v" and "\<And>j. j < LENGTH('a) * i \<Longrightarrow> \<not> bit (ct_int v) j"
  shows "\<exists>k. ct_countr_zero_loop v [i..<limb_size v] = Some k \<and> k \<le> bit_size v
    \<and> (\<forall>j<k. \<not> bit (ct_int v) j) \<and> (ct_int v \<noteq> 0 \<longrightarrow> bit (ct_int v) k)"
  using assms(2,3)
proof (induction "limb_size v - i" arbitrary: i)
  case 0
  have top: "\<not> bit (ct_int v) j" if "bit_size v \<le> j" for j
  proof (rule bit_top_nonneg)
    show "ct_int v < 2 ^ j" using assms(1) that nat_lt_of_int_pow [of "ct_int v" "bit_size v" j] by (simp add: ct_ok_def)
  qed simp
  have i: "i = limb_size v" using 0 by simp
  have "bit_size v \<le> LENGTH('a) * limb_size v" by (rule bit_size_le_limbs)
  then have none: "\<not> bit (ct_int v) j" for j using top [of j] 0(3) [of j] unfolding i by linarith
  then have "ct_int v = 0" by (intro bit_eqI) simp
  with none show ?case by (simp add: i)
next
  case (Suc n)
  let ?w = "limb_of (ct_int v) i :: 'a word"
  let ?z = "std_countr_zero ?w"
  have i: "i < limb_size v" using Suc.hyps(2) by simp
  have r: "[i..<limb_size v] = i # [Suc i..<limb_size v]" using i by (simp add: upt_conv_Cons)
  have w: "bit ?w j \<longleftrightarrow> j < LENGTH('a) \<and> bit (ct_int v) (LENGTH('a) * i + j)" for j by (rule bit_limb_of)
  have low: "\<not> bit (ct_int v) j" if "j < LENGTH('a) * i + ?z" for j
  proof (cases "j < LENGTH('a) * i")
    case False
    then obtain k where k: "j = LENGTH('a) * i + k" by (metis le_Suc_ex not_less)
    then have "k < ?z" "k < LENGTH('a)" using that std_countr_zero_le [of ?w] by simp_all
    with std_countr_zero_below [of k ?w] w [of k] k show ?thesis by simp
  qed (use Suc.prems in auto)
  show ?case
  proof (cases "?z = LENGTH('a)")
    case True
    then have "\<not> bit (ct_int v) j" if "j < LENGTH('a) * Suc i" for j using low [of j] that by (simp add: add.commute)
    with Suc.hyps(1) [of "Suc i"] Suc.hyps(2) i have "\<exists>k. ct_countr_zero_loop v [Suc i..<limb_size v] = Some k \<and> k \<le> bit_size v
      \<and> (\<forall>j<k. \<not> bit (ct_int v) j) \<and> (ct_int v \<noteq> 0 \<longrightarrow> bit (ct_int v) k)" by simp
    with True i show ?thesis by (simp add: r ct_read_eq assms(1) Let_def)
  next
    case False
    let ?k = "LENGTH('a) * i + ?z"
    have lt: "?z < LENGTH('a)" using False std_countr_zero_le [of ?w] by simp
    have b: "bit (ct_int v) ?k" using std_countr_zero_bit [OF lt] w [of ?z] by simp
    have "?k < bit_size v"
    proof (rule ccontr)
      assume "\<not> ?k < bit_size v"
      then have "ct_int v < 2 ^ ?k" using assms(1) nat_lt_of_int_pow [of "ct_int v" "bit_size v" ?k] by (simp add: ct_ok_def)
      with b show False by (simp add: bit_top_nonneg)
    qed
    with False b low i show ?thesis
      by (intro exI [of _ ?k]) (simp add: r ct_read_eq assms(1) Let_def mult.commute)
  qed
qed

lemma ct_countr_zero_eq:
  assumes "ct_ok (v :: 'a::len word bit_span)"
  shows "\<exists>k. ct_countr_zero v = Some k \<and> k \<le> bit_size v
    \<and> (\<forall>j<k. \<not> bit (ct_int v) j) \<and> (ct_int v \<noteq> 0 \<longrightarrow> bit (ct_int v) k)"
  using ct_countr_zero_loop [OF assms, of 0] by (simp add: ct_countr_zero_def)

lemma ct_extract_bit_eq:
  assumes "ct_ok (v :: 'a::len word bit_span)"
  shows "ct_extract_bit v k = Some (of_bool (bit (ct_int v) k))"
proof -
  have limb: "ct_extract_bit_limb w b = Some (of_bool (bit w b))" if "b < LENGTH('a)" for w :: "'a word" and b
    using dyn_extract_bit [of b "Dyn w"] that by (simp add: ct_extract_bit_limb_def core_extract_bit_def split: if_splits)
  show ?thesis
    by (simp add: ct_extract_bit_def ct_extended_read_eq assms limb bit_limb_of)
qed

section \<open>The product\<close>

lemma mul_exact_unique:
  assumes "mul_exact (p :: 'a::len word multiply_result) x" and "mul_exact q x"
  shows "dynamic_value (mul_lower p) = dynamic_value (mul_lower q)"
    and "dynamic_value (mul_upper p) = dynamic_value (mul_upper q)"
proof -
  have "uint (dynamic_value (mul_lower r)) = x mod 2 ^ LENGTH('a) \<and> uint (dynamic_value (mul_upper r)) = x div 2 ^ LENGTH('a)"
    if "mul_exact r x" for r :: "'a word multiply_result"
    using that by (auto simp: mul_exact_def uint_lt2p div_pos_pos_trivial mod_pos_pos_trivial)
  with assms show "dynamic_value (mul_lower p) = dynamic_value (mul_lower q)"
    "dynamic_value (mul_upper p) = dynamic_value (mul_upper q)"
    by (simp_all add: word_uint_eq_iff)
qed

definition raw_array :: "'a::len word bit_span \<Rightarrow> bool" where
  "raw_array b \<longleftrightarrow> normal_type b = Unnormal \<and> ct_dest b"

lemma raw_array_put: "raw_array b \<Longrightarrow> raw_array (put b i v) \<and> limb_size (put b i v) = limb_size b"
  by (simp add: raw_array_def put_unnormal ct_dest_def)

lemma ct_read_raw: "raw_array b \<Longrightarrow> i < limb_size b \<Longrightarrow> ct_read b i (normal_type b) = Some (data b ! i)"
  by (simp add: raw_array_def ct_read_def)

lemma ct_write_raw: "raw_array b \<Longrightarrow> i < limb_size b \<Longrightarrow> ct_write b i v (normal_type b) = Some (put b i (Dyn v))"
  using ct_write_put [of i b v] by (simp add: raw_array_def ct_dest_def)

lemma put_dyn: "raw_array b \<Longrightarrow> put b i (Dyn (dynamic_value v)) = put b i v"
  by (simp add: raw_array_def put_unnormal)

lemma get_limb_ct:
  "ct_ok v \<Longrightarrow> i < limb_size v \<Longrightarrow> dynamic_value (get_limb Consteval (Bits v) i) = limb_of (ct_int v) i"
  using ct_data_limb [of v i] by simp

lemma ct_multiply_step_eq:
  assumes "ct_ok (l :: 'a::len word bit_span)" and "ct_ok w" and "j < limb_size l" and "i < limb_size w"
    and "raw_array b" and "i + j < limb_size b" and "limb_size b \<le> n"
  shows "ct_multiply_step l w n i j (b, dynamic_value c)
    = Some (map_prod id dynamic_value (multiply_step Consteval (Bits l) (Bits w) n i j (b, c)))"
proof -
  have cong: "dynamic_value (mul_lower (core_extended_multiply_add Consteval p q s t))
      = dynamic_value (mul_lower (core_extended_multiply_add Consteval p' q' s' t'))
    \<and> dynamic_value (mul_upper (core_extended_multiply_add Consteval p q s t))
      = dynamic_value (mul_upper (core_extended_multiply_add Consteval p' q' s' t'))"
    if "dynamic_value p = dynamic_value p'" "dynamic_value q = dynamic_value q'" "dynamic_value s = dynamic_value s'"
      "dynamic_value t = dynamic_value t'" for p p' q q' s s' t t' :: "'a word arg"
    using that mul_exact_unique
      [OF mul_exact_extended_multiply_add [OF sycl_ok_Consteval, of p q s t]
        mul_exact_extended_multiply_add [OF sycl_ok_Consteval, of p' q' s' t', folded that]]
    by simp
  have n: "\<not> i + j + 1 < n \<Longrightarrow> i + j = n - 1" using assms(6,7) by linarith
  let ?x = "Dyn (limb_of (ct_int l) j :: 'a word)" and ?y = "Dyn (limb_of (ct_int w) i :: 'a word)"
  let ?z = "if i = 0 then 0 else data b ! (i + j)"
  let ?lv = "get_limb Consteval (Bits l) j" and ?rv = "get_limb Consteval (Bits w) i"
  let ?cur = "if i = 0 then Const 0 else get_limb Consteval (Bits b) (i + j)"
  have vals: "dynamic_value ?lv = dynamic_value ?x" "dynamic_value ?rv = dynamic_value ?y"
    "dynamic_value ?cur = dynamic_value (Dyn ?z)"
    using assms(1-4) get_limb_ct [of l j] get_limb_ct [of w i] by simp_all
  have reads: "ct_read l j (normal_type l) = Some (dynamic_value ?x)" "ct_read w i (normal_type w) = Some (dynamic_value ?y)"
    "(if i = 0 then Some 0 else ct_read b (i + j) (normal_type b)) = Some ?z"
    using assms by (simp_all add: ct_read_eq ct_read_raw)
  show ?thesis
  proof (cases "i + j + 1 < n")
    case True
    let ?p = "core_extended_multiply_add Consteval ?x ?y (Dyn ?z) (Dyn (dynamic_value c))"
    let ?q = "core_extended_multiply_add Consteval ?lv ?rv ?cur c"
    have pq: "dynamic_value (mul_lower ?p) = dynamic_value (mul_lower ?q)" "dynamic_value (mul_upper ?p) = dynamic_value (mul_upper ?q)"
      using cong [OF vals(1,2,3), of c "Dyn (dynamic_value c)"] by simp_all
    have "ct_multiply_step l w n i j (b, dynamic_value c)
      = Some (put b (i + j) (Dyn (dynamic_value (mul_lower ?p))), dynamic_value (mul_upper ?p))"
      unfolding ct_multiply_step_def Let_def prod.case reads Option.bind.bind_lunit
      using True assms(5,6) by (simp add: ct_write_raw)
    also have "\<dots> = Some (put b (i + j) (mul_lower ?q), dynamic_value (mul_upper ?q))"
      unfolding pq put_dyn [OF assms(5)] ..
    also have "\<dots> = Some (map_prod id dynamic_value (multiply_step Consteval (Bits l) (Bits w) n i j (b, c)))"
      unfolding multiply_step_def Let_def prod.case using True by simp
    finally show ?thesis .
  next
    case False
    let ?p = "core_multiply_add ?x ?y (Dyn ?z) (Dyn (dynamic_value c))" and ?q = "core_multiply_add ?lv ?rv ?cur c"
    have pq: "dynamic_value ?p = dynamic_value ?q" unfolding dyn_multiply_add vals by simp
    have "ct_multiply_step l w n i j (b, dynamic_value c) = Some (put b (i + j) (Dyn (dynamic_value ?p)), 0)"
      unfolding ct_multiply_step_def Let_def prod.case reads Option.bind.bind_lunit
      using False n assms(5,6) by (simp add: ct_write_raw)
    also have "\<dots> = Some (put b (i + j) ?q, 0)"
      unfolding pq put_dyn [OF assms(5)] ..
    also have "\<dots> = Some (map_prod id dynamic_value (multiply_step Consteval (Bits l) (Bits w) n i j (b, c)))"
      unfolding multiply_step_def Let_def prod.case using False by simp
    finally show ?thesis .
  qed
qed

lemma multiply_step_raw:
  "raw_array b \<Longrightarrow> raw_array (fst (multiply_step E l w n i j (b, c)))
     \<and> limb_size (fst (multiply_step E l w n i j (b, c))) = limb_size b"
  by (simp add: multiply_step_def Let_def raw_array_put)

lemma ct_multiply_inner:
  assumes "ct_ok (l :: 'a::len word bit_span)" and "ct_ok w" and "i < limb_size w"
    and "raw_array b" and "limb_size b \<le> n" and "m \<le> min (limb_size b - i) (limb_size l)"
  shows "ct_for m (ct_multiply_step l w n i) (b, 0)
      = Some (map_prod id dynamic_value (scan_range m (multiply_step Consteval (Bits l) (Bits w) n i) (b, Const 0)))
    \<and> raw_array (fst (scan_range m (multiply_step Consteval (Bits l) (Bits w) n i) (b, Const 0)))
    \<and> limb_size (fst (scan_range m (multiply_step Consteval (Bits l) (Bits w) n i) (b, Const 0))) = limb_size b"
  using assms(6)
proof (induction m)
  case 0
  then show ?case using assms(4) by simp
next
  case (Suc m)
  obtain b' c where s: "scan_range m (multiply_step Consteval (Bits l) (Bits w) n i) (b, Const 0) = (b', c)"
    by (rule prod.exhaust)
  with Suc have b': "raw_array b'" "limb_size b' = limb_size b" by simp_all
  have m: "m < limb_size l" "i + m < limb_size b'" using Suc.prems b'(2) unfolding min.bounded_iff by linarith+
  have "limb_size b' \<le> n" using assms(5) b'(2) by simp
  note step = ct_multiply_step_eq [OF assms(1,2) m(1) assms(3) b'(1) m(2) this, of c]
  show ?case using Suc s step multiply_step_raw [OF b'(1), of Consteval "Bits l" "Bits w" n i m c] b'(2) by (simp add: id_def)
qed

lemma ct_multiply_row_eq:
  assumes "ct_ok (l :: 'a::len word bit_span)" and "ct_ok w" and "i < limb_size w"
    and "raw_array b" and "limb_size b \<le> n" and "i < limb_size b"
  shows "ct_multiply_row l w n i b = Some (multiply_row Consteval (Bits l) (Bits w) n i b)
    \<and> raw_array (multiply_row Consteval (Bits l) (Bits w) n i b)
    \<and> limb_size (multiply_row Consteval (Bits l) (Bits w) n i b) = limb_size b"
proof -
  let ?m = "min (limb_size b - i) (limb_size l)"
  obtain b' c where s: "scan_range ?m (multiply_step Consteval (Bits l) (Bits w) n i) (b, Const 0) = (b', c)"
    by (rule prod.exhaust)
  then have b': "ct_for ?m (ct_multiply_step l w n i) (b, 0) = Some (b', dynamic_value c)"
    "raw_array b'" "limb_size b' = limb_size b"
    using ct_multiply_inner [OF assms(1-5) order_refl] by simp_all
  show ?thesis
    using assms(6) b' s
    by (auto simp: ct_multiply_row_def multiply_row_def Let_def ct_write_raw raw_array_put put_dyn less_imp_le)
qed

lemma ct_write_loop:
  assumes "ct_dest r" and "m \<le> limb_size r"
  shows "ct_for m (\<lambda>i r. ct_write r i (v i) (normal_type r)) r = Some (for_range m (\<lambda>i r. put r i (Dyn (v i))) r)"
  using ct_for_inv [of "\<lambda>i s. ct_dest s \<and> limb_size s = limb_size r" r m
      "\<lambda>i r. ct_write r i (v i) (normal_type r)" "\<lambda>i r. put r i (Dyn (v i))"] assms
  by (auto simp: ct_write_put ct_dest_def put_def span_write_def)

lemma ct_fill_loop:
  assumes "length (data r) = limb_size r" and "m + k \<le> limb_size r"
  shows "ct_for k (\<lambda>j r. ct_write r (m + j) 0 Unnormal) r
    = Some (for_range_from m (m + k) (\<lambda>i r. span_write r i (Const 0) Unnormal) r)
   \<and> limb_size (for_range_from m (m + k) (\<lambda>i r. span_write r i (Const 0) Unnormal) r) = limb_size r"
  using assms(2)
proof (induction k)
  case (Suc k)
  let ?r = "for_range_from m (m + k) (\<lambda>i r. span_write r i (Const 0) Unnormal) r"
  have "m + k < limb_size ?r" using Suc by simp
  then have "ct_write ?r (m + k) 0 Unnormal = Some (span_write ?r (m + k) (Const 0) Unnormal)"
    using put_zero [of "m + k" ?r] by (simp add: ct_write_zero span_write_def written_limb_zero)
  then show ?case using Suc by (simp add: span_write_def)
qed simp

text \<open>The compile-time product runs like the run-time product with a zeroed local array.\<close>

lemma ct_multiply_refines:
  assumes "ct_dest r" and "ct_ok (l :: 'a::len word bit_span)" and "ct_ok w"
  shows "ct_multiply r l w = Some (num_multiply Consteval
    (replicate (limb_size_for TYPE('a) (min (bit_size r) (bit_size l + bit_size w))) 0) r (Bits l) (Bits w))"
proof -
  let ?bits = "min (bit_size r) (bit_size l + bit_size w)"
  let ?a = "ct_array ?bits Unnormal [] :: 'a word bit_span"
  have sig: "signedness r = Without_sign"
    using assms(1) by (cases "signedness r") (simp_all add: ct_dest_def is_unsigned_def)
  have a: "?a = bit_array ?bits (signedness r) Unnormal (replicate (limb_size_for TYPE('a) ?bits) 0)"
    by (simp add: ct_array_def Let_def sig)
  have raw: "raw_array ?a"
    unfolding a by (simp add: raw_array_def ct_dest_def limb_size_bit_array) (simp add: bit_array_def sig is_unsigned_def)
  have n: "limb_size ?a \<le> limb_size r"
    by (simp add: a limb_size_bit_array) (simp add: limb_size_def limb_size_for_def div_ceil_mono)
  let ?m = "min (limb_size ?a) (limb_size w)"
  let ?i = "for_range ?m (multiply_row Consteval (Bits l) (Bits w) (limb_size r)) ?a"
  have rows: "ct_for ?m (ct_multiply_row l w (limb_size r)) ?a = Some ?i \<and> raw_array ?i \<and> limb_size ?i = limb_size ?a"
    using ct_for_inv [of "\<lambda>i s. raw_array s \<and> limb_size s = limb_size ?a" ?a ?m
        "ct_multiply_row l w (limb_size r)" "multiply_row Consteval (Bits l) (Bits w) (limb_size r)"]
      ct_multiply_row_eq [OF assms(2,3)] raw n by simp
  then have i: "limb_size ?i = limb_size ?a" "raw_array ?i" by simp_all
  let ?c = "for_range (limb_size ?i) (\<lambda>k r. put r k (Dyn (data ?i ! k))) r"
  have "ct_for (limb_size ?i) (\<lambda>k r. do { v \<leftarrow> ct_read ?i k (normal_type ?i); ct_write r k v (normal_type r) }) r
    = ct_for (limb_size ?i) (\<lambda>k r. ct_write r k (data ?i ! k) (normal_type r)) r"
  proof -
    have "ct_for k (\<lambda>k r. do { v \<leftarrow> ct_read ?i k (normal_type ?i); ct_write r k v (normal_type r) }) r
      = ct_for k (\<lambda>k r. ct_write r k (data ?i ! k) (normal_type r)) r" if "k \<le> limb_size ?i" for k
      using that by (induction k) (simp_all add: ct_read_raw [OF i(2)])
    then show ?thesis by simp
  qed
  also have "\<dots> = Some ?c" using n i(1) by (intro ct_write_loop assms(1)) simp
  finally have copy: "ct_for (limb_size ?i) (\<lambda>k r. do { v \<leftarrow> ct_read ?i k (normal_type ?i); ct_write r k v (normal_type r) }) r
    = Some ?c" .
  have c: "limb_size ?c = limb_size r" "length (data ?c) = limb_size r"
  proof -
    have "limb_size (for_range k (\<lambda>k r. put r k (Dyn (data ?i ! k))) r) = limb_size r
      \<and> length (data (for_range k (\<lambda>k r. put r k (Dyn (data ?i ! k))) r)) = limb_size r" for k
      using ct_destD(1) [OF assms(1)] by (induction k) (simp_all add: put_def span_write_def)
    then show "limb_size ?c = limb_size r" "length (data ?c) = limb_size r" by blast+
  qed
  have m: "limb_size ?i + (limb_size r - limb_size ?i) = limb_size r" using n i(1) by simp
  have fill: "ct_for (limb_size r - limb_size ?i) (\<lambda>j r. ct_write r (limb_size ?i + j) 0 Unnormal) ?c
    = Some (for_range_from (limb_size ?i) (limb_size r) (\<lambda>i r. span_write r i (Const 0) Unnormal) ?c)"
  proof -
    have "length (data ?c) = limb_size ?c" "limb_size ?i + (limb_size r - limb_size ?i) \<le> limb_size ?c"
      unfolding c m by (rule refl, rule order_refl)
    from ct_fill_loop [OF this] show ?thesis unfolding m by (rule conjunct1)
  qed
  have num: "num_multiply Consteval (replicate (limb_size_for TYPE('a) ?bits) 0) r (Bits l) (Bits w)
    = for_range_from (limb_size ?i) (limb_size r) (\<lambda>i r. span_write r i (Const 0) Unnormal) ?c"
    unfolding num_multiply_def Let_def rspan_bit_size.simps rspan_limb_size.simps a [symmetric] get_limb_Bits c(1) ..
  show ?thesis
    unfolding num ct_multiply_def Let_def rows [THEN conjunct1] Option.bind.bind_lunit copy c(1) fill ..
qed

lemma ct_multiply_eq:
  assumes "ct_dest r" and "ct_ok (l :: 'a::len word bit_span)" and "ct_ok w"
  shows "ct_multiply r l w = Some (store r (ct_int l * ct_int w))"
proof -
  let ?g = "replicate (limb_size_for TYPE('a) (min (bit_size r) (bit_size l + bit_size w))) (0 :: 'a word)"
  note len = ct_destD(1) [OF assms(1)]
  have "num_multiply Consteval ?g r (Bits l) (Bits w) = store r (ct_int l * ct_int w)"
  proof (cases "bit_size w = 0")
    case False
    have fit: "limbs_fit (Bits l)" "limbs_fit (Bits w)"
      using good_view_Bits [of l] good_view_Bits [of w] ct_ok_span [OF assms(2)] ct_ok_span [OF assms(3)]
      by (simp_all add: good_view_def)
    show ?thesis
      using num_multiply_eq [OF sycl_ok_Consteval len _ fit, of ?g] assms(2,3) False
      by (simp add: get_Bits_ct ct_ok_def)
  next
    case True
    then have "ct_int w < 1" using assms(3) by (simp add: ct_ok_def)
    then have w0: "ct_int w = 0" using ct_int_nonneg [of w] by linarith
    have w: "limb_size w = 0" "ct_int w = 0" using True limb_size_0_iff [of w] w0 by simp_all
    let ?n = "limb_size_for TYPE('a) (min (bit_size r) (bit_size l + bit_size w))"
    have n: "?n \<le> limb_size r" by (simp add: limb_size_def limb_size_for_def div_ceil_mono)
    have a: "data (bit_array k s nrm ?g) = ?g" for k s nrm by (simp add: bit_array_def)
    have "num_multiply Consteval ?g r (Bits l) (Bits w)
      = span_written r (\<lambda>i. if i < ?n then Dyn (?g ! i) else Const 0) (normal_type r)"
      unfolding num_multiply_def Let_def rspan_limb_size.simps rspan_bit_size.simps w min_0R for_range_0
        get_limb_Bits limb_size_bit_array a limb_size_for_range_put by (rule copy_and_fill [OF len n])
    also have "\<dots> = store r 0" by (rule store_limbI) (simp add: limb_of_def)
    finally show ?thesis using w by simp
  qed
  then show ?thesis by (simp only: ct_multiply_refines [OF assms])
qed

section \<open>Compile time and run time\<close>

text \<open>C33: The compile-time operations refine the run-time ones: on normal unsigned spans every assertion of
  the compile-time code holds, and it computes the limbs and the carry that the run-time overload of the
  same name computes, also when an operand is the result itself.\<close>

theorem ct_refines_runtime:
  assumes "sycl_ok E" and "ct_dest (r :: 'a::len word bit_span)" and "ct_ok (load r v)" and "ct_ok (load r w)"
  shows "ct_bit_copy r v = Some (num_bit_copy E r (Bits (load r v)))
    \<and> ct_add r v w c = Some (map_prod id dynamic_value (num_add E r (Bits (load r v)) (Bits (load r w)) (Dyn c)))
    \<and> ct_subtract r v w c = Some (map_prod id dynamic_value (num_subtract E r (Bits (load r v)) (Bits (load r w)) (Dyn c)))
    \<and> ct_shift_left r (load r w) s = Some (num_shift_left E r (Bits (load r w)) s)
    \<and> ct_shift_right r v s = Some (num_shift_right E r (Bits (load r v)) s)"
proof -
  note len = ct_destD(1) [OF assms(2)]
  have int: "get_int E (Bits (load r v)) = ct_int (load r v)" "get_int E (Bits (load r w)) = ct_int (load r w)"
    using ct_ok_span [OF assms(3)] ct_ok_span [OF assms(4)] by (simp_all add: get_int_Bits)
  have int3: "stream_int E (Bits (load r v)) Normal = ct_int (load r v)"
    using ct_ok_span [OF assms(3)] stream_int_Bits [of E "load r v" Normal] assms(1) by simp
  obtain a s where add: "ct_add r v w c = Some (store r (ct_int (load r v) + ct_int (load r w) + uint c), a)"
      "uint a = (ct_int (load r v) mod modulus_of r + ct_int (load r w) mod modulus_of r + uint c) div modulus_of r"
    and sub: "ct_subtract r v w c = Some (store r (ct_int (load r v) - ct_int (load r w) - uint c), s)"
      "- uint s = (ct_int (load r v) mod modulus_of r - ct_int (load r w) mod modulus_of r - uint c) div modulus_of r"
    using ct_add_eq [OF assms(2-4)] ct_subtract_eq [OF assms(2-4)] by blast
  have "num_add E r (Bits (load r v)) (Bits (load r w)) (Dyn c)
      = (store r (ct_int (load r v) + ct_int (load r w) + uint c), snd (num_add E r (Bits (load r v)) (Bits (load r w)) (Dyn c)))"
    "num_subtract E r (Bits (load r v)) (Bits (load r w)) (Dyn c)
      = (store r (ct_int (load r v) - ct_int (load r w) - uint c), snd (num_subtract E r (Bits (load r v)) (Bits (load r w)) (Dyn c)))"
    by (simp_all add: prod_eq_iff num_add_eq num_subtract_eq assms(1) len int)
  moreover have "dynamic_value (snd (num_add E r (Bits (load r v)) (Bits (load r w)) (Dyn c))) = a"
    "dynamic_value (snd (num_subtract E r (Bits (load r v)) (Bits (load r w)) (Dyn c))) = s"
    using add(2) sub(2) by (simp_all add: word_uint_eq_iff num_add_eq num_subtract_eq assms(1) len int)
  ultimately show ?thesis
    using add(1) sub(1) ct_bit_copy_eq [OF assms(2,3)] ct_shift_left_eq [OF assms(2,4)] ct_shift_right_eq [OF assms(2,3)]
    by (metis (no_types, lifting) assms(1) id_apply int int3 len map_prod_simp num_bitwise_eq(5) num_shift_left_eq num_shift_right_eq)
qed

lemma sample_ct [simp]: "ct_ok (sample xs)" "ct_int (sample xs) = limbs_int xs" "ct_dest (sample xs)"
proof -
  show i: "ct_int (sample xs) = limbs_int xs" by (simp add: ct_int_def sample_def bit_array_def)
  have "limbs_int xs < 2 ^ (8 * length xs)" using limbs_int_less [of xs] by simp
  then show "ct_ok (sample xs)"
    by (simp add: ct_ok_def ct_dest_def i) (simp add: sample_def bit_array_def limb_size_def limb_size_for_def is_unsigned_def)
  then show "ct_dest (sample xs)" by (rule ct_ok_dest)
qed

lemma ct_refines_runtime_witness:
  "ct_add (sample [0xFF, 0x01]) Own (Other (sample [0x02])) 1
    = Some (map_prod id dynamic_value (num_add sycl_device (sample [0xFF, 0x01]) (Bits (sample [0xFF, 0x01])) (Bits (sample [0x02])) (Dyn 1)))"
  using ct_refines_runtime [OF sycl_ok_device, of "sample [0xFF, 0x01]" Own "Other (sample [0x02])" 1 0] by simp

text \<open>The compile-time comparisons, bit width, trailing zero count and bit extraction of normal unsigned
  spans never fail and return what they say of the integers.\<close>

theorem ct_queries_correct:
  assumes "ct_ok (l :: 'a::len word bit_span)" and "ct_ok r"
  shows "ct_less l r = Some (of_bool (ct_int l < ct_int r))
    \<and> ct_greater l r = Some (of_bool (ct_int l > ct_int r))
    \<and> ct_less_equal l r = Some (of_bool (ct_int l \<le> ct_int r))
    \<and> ct_greater_equal l r = Some (of_bool (ct_int l \<ge> ct_int r))
    \<and> ct_equal_to l r = Some (of_bool (ct_int l = ct_int r))
    \<and> ct_not_equal_to l r = Some (of_bool (ct_int l \<noteq> ct_int r))
    \<and> ct_bit_width l = Some (std_bit_width (nat (ct_int l)))
    \<and> ct_extract_bit l k = Some (of_bool (bit (ct_int l) k))
    \<and> (\<exists>z. ct_countr_zero l = Some z \<and> z \<le> bit_size l \<and> (\<forall>j<z. \<not> bit (ct_int l) j) \<and> (ct_int l \<noteq> 0 \<longrightarrow> bit (ct_int l) z))"
  using ct_order_eq [OF assms] ct_equality_eq [OF assms] ct_bit_width_eq [OF assms(1)] ct_extract_bit_eq [OF assms(1)]
    ct_countr_zero_eq [OF assms(1)] by simp

lemma ct_queries_correct_witness:
  "ct_less (sample [0x02, 0x01]) (sample [0x01, 0x02]) = Some 1 \<and> ct_bit_width (sample [0x02, 0x01]) = Some 9"
  using ct_queries_correct [of "sample [0x02, 0x01]" "sample [0x01, 0x02]" 0] by (simp add: std_bit_width.simps)

text \<open>Compile-time multiplication of normal unsigned spans never fails and stores the product reduced to
  the size of the result; unlike the run-time overload it starts from a cleared array, so an operand
  without bits is no exception.\<close>

theorem ct_multiply_correct:
  assumes "ct_dest r" and "ct_ok (l :: 'a::len word bit_span)" and "ct_ok w"
  shows "ct_multiply r l w = Some (store r (ct_int l * ct_int w))
    \<and> ct_multiply r l w = Some (num_multiply Consteval
        (replicate (limb_size_for TYPE('a) (min (bit_size r) (bit_size l + bit_size w))) 0) r (Bits l) (Bits w))"
  using ct_multiply_eq [OF assms] ct_multiply_refines [OF assms] by simp

lemma ct_multiply_correct_witness:
  "ct_multiply (sample [0, 0]) (sample [0xFF]) (sample [0xFE]) = Some (store (sample [0, 0]) 0xFD02)"
  using ct_multiply_correct [of "sample [0, 0]" "sample [0xFF]" "sample [0xFE]"] by simp

end
