(* ===== verification/Ct_Divide.thy ===== *)
theory Ct_Divide
  imports Compiletime
begin

text \<open>
  Long division during compilation: \<^verbatim>\<open>hmpc/core/num/divide.hpp\<close>.

  \<open>ct_divide_similar_sized\<close> divides by a normalized denominator (its top bit is the top bit of a
  limb) with one quotient limb, or two: the quotient limb is estimated from the top limbs and
  corrected at most twice.  \<open>ct_divide_normalized\<close> is long division, \<open>ct_divide\<close> shifts the operands
  so that the denominator is normalized.  The recursive functions are partial functions into an option: \<open>None\<close> is
  a failed assertion, or a recursion that does not end.  That they return \<open>Some\<close> is proved.
\<close>

section \<open>Parts of spans\<close>

lemma limbs_int_append:
  "limbs_int (xs @ ys :: 'a::len word list) = limbs_int xs + 2 ^ (LENGTH('a) * length xs) * limbs_int ys"
  by (induction xs) (simp_all add: algebra_simps power_add)

lemma int_div_less:
  assumes "0 < b" and "a < b * c"
  shows "a div b < (c :: int)"
proof (rule ccontr)
  assume "\<not> a div b < c"
  then have "b * c \<le> b * (a div b)" using assms(1) by simp
  moreover have "b * (a div b) + a mod b = a" "0 \<le> a mod b" using assms(1) by simp_all
  ultimately show False using assms(2) by linarith
qed

lemma ct_ok_store:
  assumes "ct_dest (r :: 'a::len word bit_span)" and "0 \<le> x" and "x < 2 ^ bit_size r"
  shows "ct_ok (store r x)" and "ct_int (store r x) = x"
proof -
  have shape: "span_shape r" using assms(1) by (simp add: ct_dest_def span_shape_def is_unsigned_iff)
  have range: "in_range r x" using assms by (simp add: in_range_def ct_dest_def is_unsigned_iff)
  have "limbs_int (data (store r x)) = x mod 2 ^ (LENGTH('a) * limb_size r)"
    using span_normal_store [OF shape range] span_int_store_eq [OF shape range]
    by (simp add: span_normal_def)
  also have "\<dots> = x"
    using nat_lt_of_int_pow [OF assms(3) bit_size_le_limbs] assms(2) by simp
  finally show "ct_int (store r x) = x" by (simp add: ct_int_def)
  then show "ct_ok (store r x)" using assms by (simp add: ct_ok_def)
qed

lemma ct_array_facts [simp]:
  "bit_size (ct_array k nrm xs) = k" "signedness (ct_array k nrm xs) = Without_sign"
  "normal_type (ct_array k nrm xs) = nrm"
  "limb_size (ct_array k nrm xs :: 'a::len word bit_span) = limb_size_for TYPE('a) k"
  by (simp_all add: ct_array_def Let_def bit_array_def limb_size_def)

lemma ct_array_dest [simp]: "ct_dest (ct_array k nrm [] :: 'a::len word bit_span)"
  by (simp add: ct_dest_def is_unsigned_def) (simp add: ct_array_def Let_def bit_array_def)

lemma ct_array_ok [simp]:
  "ct_ok (ct_array k nrm [] :: 'a::len word bit_span)" "ct_int (ct_array k nrm [] :: 'a word bit_span) = 0"
proof -
  have z: "limbs_int (replicate n (0 :: 'a word)) = 0" for n by (induction n) simp_all
  then show "ct_int (ct_array k nrm [] :: 'a word bit_span) = 0"
    by (simp add: ct_int_def ct_array_def Let_def bit_array_def)
  then show "ct_ok (ct_array k nrm [] :: 'a word bit_span)" by (simp add: ct_ok_def)
qed

lemma ct_nullspan [simp]: "ct_ok (nullspan :: 'a::len word bit_span)" "ct_int (nullspan :: 'a::len word bit_span) = 0"
  by (simp_all add: ct_ok_def ct_dest_def ct_int_def nullspan_def bit_array_def limb_size_def limb_size_for_def is_unsigned_def)

lemma store_nth:
  assumes "ct_dest b" and "i < limb_size (b :: 'a::len word bit_span)"
  shows "data (store b x) ! i
    = (if normal_type b = Normal \<and> i = limb_size b - 1 then take_bit (last_limb_bit_size b) (limb_of x i) else limb_of x i)"
  using assms ct_destD(2) [OF assms(1)]
  by (cases "normal_type b")
    (simp_all add: store_def span_written_def written_limb_def dyn_mask_inside last_limb_bit_size_le)

lemma ct_subspan_facts:
  assumes "ct_dest (b :: 'a::len word bit_span)"
  shows "ct_dest (ct_subspan b k)" and "limb_size (ct_subspan b k) = limb_size b - k"
    and "normal_type (ct_subspan b k) = normal_type b"
    and "k < limb_size b \<Longrightarrow> bit_size (ct_subspan b k) = bit_size b - k * LENGTH('a)"
    and "k < limb_size b \<Longrightarrow> last_limb_bit_size (ct_subspan b k) = last_limb_bit_size b"
proof -
  have iff: "k * LENGTH('a) < bit_size b \<longleftrightarrow> k < limb_size b"
  proof
    assume "k * LENGTH('a) < bit_size b"
    also have "bit_size b \<le> LENGTH('a) * limb_size b" by (rule bit_size_le_limbs)
    finally show "k < limb_size b" by (simp add: mult.commute)
  next
    assume k: "k < limb_size b"
    then have p: "0 < bit_size b" using limb_size_0_iff [of b] by (cases "bit_size b") auto
    have "LENGTH('a) * (limb_size b - 1) < bit_size b"
      using div_ceil_upper [OF p len_gt_0] by (simp add: limb_size_def limb_size_for_def)
    moreover have "k * LENGTH('a) \<le> LENGTH('a) * (limb_size b - 1)" using k by (simp add: mult.commute)
    ultimately show "k * LENGTH('a) < bit_size b" by linarith
  qed
  have size: "div_ceil (bit_size b - k * LENGTH('a)) LENGTH('a) = limb_size b - k" if "k < limb_size b"
  proof -
    define m where "m = bit_size b - k * LENGTH('a)"
    have m: "bit_size b = m + k * LENGTH('a)" using that iff by (simp add: m_def)
    have "div_ceil (m + k * LENGTH('a)) LENGTH('a) = div_ceil m LENGTH('a) + k"
      by (simp add: div_ceil_cases)
    then show ?thesis by (simp add: m limb_size_def limb_size_for_def)
  qed
  show ls: "limb_size (ct_subspan b k) = limb_size b - k"
  proof -
    have "bit_size (ct_subspan b k) = (if k < limb_size b then bit_size b - k * LENGTH('a) else 0)"
      using iff by (simp add: ct_subspan_def)
    then show ?thesis using size by (simp add: limb_size_def [of "ct_subspan b k"] limb_size_for_def)
  qed
  show "ct_dest (ct_subspan b k)"
    using assms iff ls unfolding ct_dest_def by (simp add: ls) (simp add: ct_subspan_def)
  show "normal_type (ct_subspan b k) = normal_type b" by (simp add: ct_subspan_def)
  show bs: "bit_size (ct_subspan b k) = bit_size b - k * LENGTH('a)" if "k < limb_size b"
    using that iff by (simp add: ct_subspan_def)
  show "last_limb_bit_size (ct_subspan b k) = last_limb_bit_size b" if "k < limb_size b"
  proof -
    have lt: "k * LENGTH('a) < bit_size b" using that iff by simp
    then have "(bit_size b - k * LENGTH('a)) mod LENGTH('a) = bit_size b mod LENGTH('a)"
      by (metis le_add_diff_inverse2 less_imp_le mod_mult_self1)
    then show ?thesis using lt by (simp add: last_limb_bit_size_def bs [OF that] last_limb_bit_size_for_def)
  qed
qed

lemma put_subspan_sel [simp]:
  "bit_size (put_subspan b k s) = bit_size b" "signedness (put_subspan b k s) = signedness b"
  "normal_type (put_subspan b k s) = normal_type b" "limb_size (put_subspan b k s) = limb_size (b :: 'a::len word bit_span)"
  by (simp_all add: put_subspan_def limb_size_def)

lemma put_first_limbs_sel [simp]:
  "bit_size (put_first_limbs b s) = bit_size b" "signedness (put_first_limbs b s) = signedness b"
  "normal_type (put_first_limbs b s) = normal_type b" "limb_size (put_first_limbs b s) = limb_size (b :: 'a::len word bit_span)"
  by (simp_all add: put_first_limbs_def limb_size_def)

lemma limb_of_split:
  assumes "0 \<le> lo" and "lo < 2 ^ (LENGTH('a) * k)"
  shows "(limb_of (lo + 2 ^ (LENGTH('a) * k) * hi) i :: 'a::len word) = (if i < k then limb_of lo i else limb_of hi (i - k))"
proof (cases "i < k")
  case True
  have "limb_of ((lo + 2 ^ (LENGTH('a) * k) * hi) mod 2 ^ (LENGTH('a) * k)) i
    = (limb_of (lo + 2 ^ (LENGTH('a) * k) * hi) i :: 'a word)" by (rule limb_of_mod [OF True])
  then show ?thesis using True assms by simp
next
  case False
  then obtain j where j: "i = k + j" using le_Suc_ex not_less by metis
  have "(lo + 2 ^ (LENGTH('a) * k) * hi) div 2 ^ (LENGTH('a) * i)
    = (lo + 2 ^ (LENGTH('a) * k) * hi) div 2 ^ (LENGTH('a) * k) div 2 ^ (LENGTH('a) * j)"
    by (simp add: j distrib_left power_add zdiv_zmult2_eq)
  also have "(lo + 2 ^ (LENGTH('a) * k) * hi) div 2 ^ (LENGTH('a) * k) = hi" using assms by simp
  finally show ?thesis using False by (simp add: limb_of_def j)
qed

text \<open>The upper part of a result, stored through a subspan.\<close>

lemma put_subspan_store:
  assumes "ct_dest (b :: 'a::len word bit_span)" and "take k (data c) = take k (data (store b lo))"
    and "0 \<le> lo" and "lo < 2 ^ (LENGTH('a) * k)"
    and "bit_size c = bit_size b" "signedness c = signedness b" "normal_type c = normal_type b"
  shows "put_subspan c k (store (ct_subspan b k) hi) = store b (lo + 2 ^ (LENGTH('a) * k) * hi)"
proof -
  note sub = ct_subspan_facts [OF assms(1), of k]
  have "take k (data (store b lo)) @ data (store (ct_subspan b k) hi) = data (store b (lo + 2 ^ (LENGTH('a) * k) * hi))"
  proof (rule nth_equalityI)
    show "length (take k (data (store b lo)) @ data (store (ct_subspan b k) hi))
      = length (data (store b (lo + 2 ^ (LENGTH('a) * k) * hi)))" by (simp add: sub(2))
    fix i assume "i < length (take k (data (store b lo)) @ data (store (ct_subspan b k) hi))"
    then have i: "i < limb_size b" by (simp add: sub(2) split: if_splits)
    show "(take k (data (store b lo)) @ data (store (ct_subspan b k) hi)) ! i
      = data (store b (lo + 2 ^ (LENGTH('a) * k) * hi)) ! i"
    proof (cases "i < k")
      case True
      with i show ?thesis by (simp add: nth_append store_nth assms(1) limb_of_split assms(3,4))
    next
      case False
      then have "k < limb_size b" "i - k < limb_size b - k" "(i - k = limb_size b - Suc k) = (i = limb_size b - 1)" using i by linarith+
      with False i show ?thesis
        by (simp add: nth_append store_nth assms(1) sub limb_of_split assms(3,4))
    qed
  qed
  then show ?thesis
    using assms(2,5-7) by (simp add: put_subspan_def bit_span.equality)
qed

lemma first_limbs_iff:
  "k * LENGTH('a) < bit_size b \<longleftrightarrow> k < limb_size (b :: 'a::len word bit_span)"
proof
  assume "k * LENGTH('a) < bit_size b"
  also have "bit_size b \<le> LENGTH('a) * limb_size b" by (rule bit_size_le_limbs)
  finally show "k < limb_size b" by (simp add: mult.commute)
next
  assume k: "k < limb_size b"
  then have p: "0 < bit_size b" using limb_size_0_iff [of b] by (cases "bit_size b") auto
  have "LENGTH('a) * (limb_size b - 1) < bit_size b"
    using div_ceil_upper [OF p len_gt_0] by (simp add: limb_size_def limb_size_for_def)
  moreover have "k * LENGTH('a) \<le> LENGTH('a) * (limb_size b - 1)" using k by (simp add: mult.commute)
  ultimately show "k * LENGTH('a) < bit_size b" by linarith
qed

lemma ct_first_limbs_facts:
  assumes "ct_dest (b :: 'a::len word bit_span)"
  shows "ct_dest (ct_first_limbs b k)" and "limb_size (ct_first_limbs b k) = min k (limb_size b)"
    and "normal_type (ct_first_limbs b k) = normal_type b"
    and "k < limb_size b \<Longrightarrow> last_limb_bit_size (ct_first_limbs b k) = (if k = 0 then 0 else LENGTH('a))"
    and "\<not> k < limb_size b \<Longrightarrow> ct_first_limbs b k = b"
proof -
  show ls: "limb_size (ct_first_limbs b k) = min k (limb_size b)"
  proof (cases "k < limb_size b")
    case True
    then have "bit_size (ct_first_limbs b k) = k * LENGTH('a)"
      by (simp add: ct_first_limbs_def first_limbs_iff)
    then show ?thesis using True by (simp add: limb_size_def [of "ct_first_limbs b k"] limb_size_for_def)
  next
    case False
    then show ?thesis by (simp add: ct_first_limbs_def first_limbs_iff)
  qed
  show "ct_dest (ct_first_limbs b k)"
    using assms ls unfolding ct_dest_def by (simp add: ls) (simp add: ct_first_limbs_def first_limbs_iff)
  show "normal_type (ct_first_limbs b k) = normal_type b" by (simp add: ct_first_limbs_def)
  show "last_limb_bit_size (ct_first_limbs b k) = (if k = 0 then 0 else LENGTH('a))" if "k < limb_size b"
    using that by (simp add: last_limb_bit_size_def last_limb_bit_size_for_def ct_first_limbs_def first_limbs_iff)
  show "ct_first_limbs b k = b" if "\<not> k < limb_size b"
    using that by (simp add: ct_first_limbs_def first_limbs_iff)
qed

text \<open>The lower part of a result, stored after the upper part.\<close>

lemma put_parts_store:
  assumes "ct_dest (b :: 'a::len word bit_span)" and "0 \<le> lo" and "lo < 2 ^ (LENGTH('a) * k)"
    and c_def: "c = put_subspan b k (store (ct_subspan b k) hi)"
  shows "put_first_limbs c (store (ct_first_limbs c k) lo) = store b (lo + 2 ^ (LENGTH('a) * k) * hi)"
    and "ct_dest c"
proof -
  note sub = ct_subspan_facts [OF assms(1), of k]
  have data: "data c = take k (data b) @ data (store (ct_subspan b k) hi)" by (simp add: c_def put_subspan_def)
  show dest: "ct_dest c" using assms(1) by (simp add: ct_dest_def data sub(2)) (simp add: c_def)
  have c: "bit_size c = bit_size b" "signedness c = signedness b" "normal_type c = normal_type b" "limb_size c = limb_size b"
    by (simp_all add: c_def)
  note fl = ct_first_limbs_facts [OF dest, of k]
  show "put_first_limbs c (store (ct_first_limbs c k) lo) = store b (lo + 2 ^ (LENGTH('a) * k) * hi)"
  proof (cases "k < limb_size b")
    case False
    have same: "store c lo = store b lo"
      using c by (simp add: store_def span_written_def written_limb_def last_limb_bit_size_def cong: map_cong)
    have "2 ^ (LENGTH('a) * limb_size b) dvd (2 ^ (LENGTH('a) * k) :: int)"
      using False by (simp add: le_imp_power_dvd)
    then have "store b (lo + 2 ^ (LENGTH('a) * k) * hi) = store b lo"
      by (intro store_cong) (simp add: mod_add_eq dvd_imp_mod_0 mod_mult_left_eq flip: mod_add_right_eq)
    moreover have "put_first_limbs c (store (ct_first_limbs c k) lo) = store c lo"
      using False ct_destD(1) [OF dest] by (simp add: fl(5) c put_first_limbs_def bit_span.equality)
    ultimately show ?thesis using same by simp
  next
    case True
    have "data (store (ct_first_limbs c k) lo) = take k (data (store b lo))"
    proof (rule nth_equalityI)
      show "length (data (store (ct_first_limbs c k) lo)) = length (take k (data (store b lo)))"
        by (simp add: fl(2) c)
      fix i assume "i < length (data (store (ct_first_limbs c k) lo))"
      then have i: "i < k" using True by (simp add: fl(2) c)
      then have "i \<noteq> limb_size b - 1" using True by linarith
      with i show "data (store (ct_first_limbs c k) lo) ! i = take k (data (store b lo)) ! i"
        using True by (simp add: store_nth fl c assms(1) take_bit_word_eq_self)
    qed
    then have "put_first_limbs c (store (ct_first_limbs c k) lo)
      = put_subspan (put_first_limbs c (store (ct_first_limbs c k) lo)) k (store (ct_subspan b k) hi)"
      using True ct_destD(1) [OF assms(1)] by (simp add: put_first_limbs_def put_subspan_def data)
    also have "\<dots> = store b (lo + 2 ^ (LENGTH('a) * k) * hi)"
      by (rule put_subspan_store [OF assms(1) _ assms(2,3)])
        (use \<open>data (store (ct_first_limbs c k) lo) = _\<close> True in \<open>simp_all add: put_first_limbs_def c\<close>)
    finally show ?thesis .
  qed
qed

text \<open>The parts of an operand.\<close>

lemma ct_subspan_ok:
  assumes "ct_ok (b :: 'a::len word bit_span)"
  shows "ct_ok (ct_subspan b k)" and "ct_int (ct_subspan b k) = ct_int b div 2 ^ (LENGTH('a) * k)"
proof -
  note dest = ct_ok_dest [OF assms]
  show i: "ct_int (ct_subspan b k) = ct_int b div 2 ^ (LENGTH('a) * k)"
  proof (cases "k < limb_size b")
    case True
    then have "k \<le> length (data b)" using ct_destD(1) [OF dest] by simp
    then have "limbs_int (data b) = limbs_int (take k (data b)) + 2 ^ (LENGTH('a) * k) * limbs_int (drop k (data b))"
      using limbs_int_append [of "take k (data b)" "drop k (data b)"] by (simp add: min_absorb2)
    moreover have "limbs_int (take k (data b)) < 2 ^ (LENGTH('a) * k)"
      using limbs_int_less [of "take k (data b)"] \<open>k \<le> length (data b)\<close> by (simp add: min_absorb2)
    ultimately show ?thesis using True by (simp add: ct_int_def ct_subspan_def first_limbs_iff)
  next
    case False
    have "ct_int b < 2 ^ (LENGTH('a) * k)"
      using assms False nat_lt_of_int_pow [of "ct_int b" "bit_size b" "LENGTH('a) * k"] bit_size_le_limbs [of b]
      by (simp add: ct_ok_def) (meson le_trans mult_le_mono2 not_less)
    then show ?thesis using False by (simp add: ct_int_def ct_subspan_def first_limbs_iff div_pos_pos_trivial)
  qed
  have "ct_int b div 2 ^ (LENGTH('a) * k) < 2 ^ bit_size (ct_subspan b k)"
  proof (cases "k < limb_size b")
    case True
    then have "LENGTH('a) * k \<le> bit_size b" using first_limbs_iff [of k b] by (simp add: mult.commute)
    then have "ct_int b < 2 ^ (LENGTH('a) * k) * 2 ^ (bit_size b - LENGTH('a) * k)"
      using assms by (simp add: ct_ok_def flip: power_add)
    then show ?thesis using True
      by (simp add: ct_subspan_facts(4) [OF dest] mult.commute [of k] int_div_less)
  next
    case False
    then show ?thesis using i by (simp add: ct_int_def ct_subspan_def first_limbs_iff)
  qed
  then show "ct_ok (ct_subspan b k)" using ct_subspan_facts(1) [OF dest] i by (simp add: ct_ok_def)
qed

lemma ct_first_limbs_ok:
  assumes "ct_ok (b :: 'a::len word bit_span)"
  shows "ct_ok (ct_first_limbs b k)" and "ct_int (ct_first_limbs b k) = ct_int b mod 2 ^ (LENGTH('a) * k)"
proof -
  note dest = ct_ok_dest [OF assms]
  have "ct_ok (ct_first_limbs b k) \<and> ct_int (ct_first_limbs b k) = ct_int b mod 2 ^ (LENGTH('a) * k)"
  proof (cases "k < limb_size b")
    case True
    then have k: "k \<le> length (data b)" using ct_destD(1) [OF dest] by simp
    then have "limbs_int (data b) = limbs_int (take k (data b)) + 2 ^ (LENGTH('a) * k) * limbs_int (drop k (data b))"
      using limbs_int_append [of "take k (data b)" "drop k (data b)"] by (simp add: min_absorb2)
    moreover have lt: "limbs_int (take k (data b)) < 2 ^ (LENGTH('a) * k)"
      using limbs_int_less [of "take k (data b)"] k by (simp add: min_absorb2)
    ultimately have "ct_int (ct_first_limbs b k) = ct_int b mod 2 ^ (LENGTH('a) * k)"
      using True by (simp add: ct_int_def ct_first_limbs_def first_limbs_iff)
    with lt True show ?thesis using ct_first_limbs_facts(1) [OF dest, of k]
      by (simp add: ct_ok_def) (simp add: ct_first_limbs_def first_limbs_iff mult.commute)
  next
    case False
    have "ct_int b < 2 ^ (LENGTH('a) * k)"
      using assms False nat_lt_of_int_pow [of "ct_int b" "bit_size b" "LENGTH('a) * k"] bit_size_le_limbs [of b]
      by (simp add: ct_ok_def) (meson le_trans mult_le_mono2 not_less)
    then show ?thesis using False assms ct_first_limbs_facts(5) [OF dest, of k] by simp
  qed
  then show "ct_ok (ct_first_limbs b k)" "ct_int (ct_first_limbs b k) = ct_int b mod 2 ^ (LENGTH('a) * k)" by simp_all
qed

section \<open>The division\<close>

text \<open>
  The quotient estimate is read and decremented through a span of the bits it first had.
\<close>

definition q_span :: "nat \<Rightarrow> 'a::len word \<Rightarrow> 'a word bit_span" where
  "q_span bits q = bit_array bits Without_sign Normal (if bits > 0 then [q] else [])"

definition ct_correct_estimate ::
    "nat \<Rightarrow> 'a::len word bit_span \<Rightarrow> 'a word bit_span \<Rightarrow> 'a word \<times> 'a word bit_span \<Rightarrow> ('a word \<times> 'a word bit_span) option" where
  "ct_correct_estimate bits numerator denominator = (\<lambda>(q, intermediate). do {
     too_large \<leftarrow> ct_greater intermediate numerator;
     if bool_cast too_large
     then do { (intermediate, _) \<leftarrow> ct_subtract intermediate Own (Other denominator) 0;
               Some (q - 1, intermediate) }
     else Some (q, intermediate) })"

partial_function (option) ct_divide_similar_sized ::
    "'a::len word bit_span \<Rightarrow> 'a word bit_span \<Rightarrow> 'a word operand \<Rightarrow> 'a word bit_span
     \<Rightarrow> ('a word bit_span \<times> 'a word bit_span) option" where
  "ct_divide_similar_sized quot remainder numerator_operand denominator = do {
     let numerator = load remainder numerator_operand;
     numerator_bit_size \<leftarrow> ct_bit_width numerator;
     denominator_bit_size \<leftarrow> ct_bit_width denominator;
     let numerator_limb_size = limb_size_for TYPE('a) numerator_bit_size;
     let denominator_limb_size = limb_size_for TYPE('a) denominator_bit_size;
     ct_assert (denominator_bit_size mod LENGTH('a) = 0);
     ct_assert (numerator_limb_size \<le> denominator_limb_size + 1);
     let intermediate = ct_array (denominator_bit_size + LENGTH('a)) Unnormal [];
     upper \<leftarrow> ct_bit_copy (ct_subspan intermediate 1) (Other denominator);
     let intermediate = put_subspan intermediate 1 upper;
     second_limb \<leftarrow> ct_greater_equal numerator intermediate;
     if bool_cast second_limb
     then do {
       (intermediate, _) \<leftarrow> ct_subtract intermediate (Other numerator) Own 0;
       (intermediate_quotient, remainder) \<leftarrow> ct_divide_similar_sized
         (ct_array (bit_size quot) Unnormal []) remainder (Other intermediate) denominator;
       lower \<leftarrow> ct_read intermediate_quotient 0 (normal_type intermediate_quotient);
       quot \<leftarrow> ct_write quot 0 lower (normal_type quot);
       (upper, _) \<leftarrow> ct_add (ct_subspan quot 1) (Other (ct_subspan intermediate_quotient 1)) (Other nullspan) 1;
       Some (put_subspan quot 1 upper, remainder) }
     else do {
       lower_limb \<leftarrow> ct_extended_read numerator (denominator_limb_size - 1) (normal_type numerator);
       upper_limb \<leftarrow> ct_extended_read numerator denominator_limb_size (normal_type numerator);
       top_limb \<leftarrow> ct_read denominator (denominator_limb_size - 1) (normal_type denominator);
       q \<leftarrow> core_clamped_divide lower_limb upper_limb top_limb;
       let q_bits = std_bit_width (unat q);
       intermediate \<leftarrow> ct_multiply intermediate denominator (q_span q_bits q);
       (q, intermediate) \<leftarrow> ct_correct_estimate q_bits numerator denominator (q, intermediate);
       (q, intermediate) \<leftarrow> ct_correct_estimate q_bits numerator denominator (q, intermediate);
       quot \<leftarrow> ct_bit_copy quot (Other (q_span q_bits q));
       (remainder, _) \<leftarrow> ct_subtract remainder numerator_operand (Other intermediate) 0;
       Some (quot, remainder) } }"

partial_function (option) ct_divide_normalized ::
    "'a::len word bit_span \<Rightarrow> 'a word bit_span \<Rightarrow> 'a word operand \<Rightarrow> 'a word bit_span
     \<Rightarrow> ('a word bit_span \<times> 'a word bit_span) option" where
  "ct_divide_normalized quot remainder numerator_operand denominator = do {
     let numerator = load remainder numerator_operand;
     numerator_bit_size \<leftarrow> ct_bit_width numerator;
     denominator_bit_size \<leftarrow> ct_bit_width denominator;
     let numerator_limb_size = limb_size_for TYPE('a) numerator_bit_size;
     let denominator_limb_size = limb_size_for TYPE('a) denominator_bit_size;
     ct_assert (denominator_bit_size mod LENGTH('a) = 0);
     if numerator_limb_size < denominator_limb_size
     then do {
       quot \<leftarrow> ct_bit_copy quot (Other nullspan);
       remainder \<leftarrow> ct_bit_copy remainder numerator_operand;
       Some (quot, remainder) }
     else if numerator_limb_size = denominator_limb_size
     then do {
       smaller \<leftarrow> ct_less numerator denominator;
       if bool_cast smaller
       then do {
         quot \<leftarrow> ct_bit_copy quot (Other nullspan);
         remainder \<leftarrow> ct_bit_copy remainder numerator_operand;
         Some (quot, remainder) }
       else do {
         quot \<leftarrow> ct_bit_copy quot (Other (bit_array 1 Without_sign Normal [1]));
         (remainder, _) \<leftarrow> ct_subtract remainder numerator_operand (Other denominator) 0;
         Some (quot, remainder) } }
     else if numerator_limb_size = denominator_limb_size + 1
     then ct_divide_similar_sized quot remainder numerator_operand denominator
     else do {
       ct_assert (numerator_limb_size > denominator_limb_size + 1);
       let k = numerator_limb_size - denominator_limb_size - 1;
       let intermediate = ct_array numerator_bit_size Unnormal [];
       (upper_quotient, upper) \<leftarrow> ct_divide_similar_sized (ct_subspan quot k) (ct_subspan intermediate k)
         (Other (ct_subspan numerator k)) denominator;
       let quot = put_subspan quot k upper_quotient;
       let intermediate = put_subspan intermediate k upper;
       lower \<leftarrow> ct_bit_copy (ct_first_limbs intermediate k) (Other (ct_first_limbs numerator k));
       let intermediate = put_first_limbs intermediate lower;
       (lower_quotient, remainder) \<leftarrow>
         ct_divide_normalized (ct_first_limbs quot k) remainder (Other intermediate) denominator;
       Some (put_first_limbs quot lower_quotient, remainder) } }"

definition ct_divide ::
    "'a::len word bit_span \<Rightarrow> 'a word bit_span \<Rightarrow> 'a word operand \<Rightarrow> 'a word bit_span
     \<Rightarrow> ('a word bit_span \<times> 'a word bit_span) option" where
  "ct_divide quot remainder numerator_operand denominator = do {
     let numerator = load remainder numerator_operand;
     numerator_bit_size \<leftarrow> ct_bit_width numerator;
     denominator_bit_size \<leftarrow> ct_bit_width denominator;
     ct_assert (denominator_bit_size \<noteq> 0);
     if denominator_bit_size mod LENGTH('a) = 0
     then ct_divide_normalized quot remainder numerator_operand denominator
     else do {
       let shift = LENGTH('a) - denominator_bit_size mod LENGTH('a);
       shifted_numerator \<leftarrow> ct_shift_left (ct_array (numerator_bit_size + shift) Unnormal []) numerator shift;
       shifted_denominator \<leftarrow> ct_shift_left (ct_array (denominator_bit_size + shift) Unnormal []) denominator shift;
       (quot, shifted_remainder) \<leftarrow> ct_divide_normalized quot
         (ct_array (bit_size remainder + shift) Unnormal []) (Other shifted_numerator) shifted_denominator;
       remainder \<leftarrow> ct_shift_right remainder (Other shifted_remainder) shift;
       Some (quot, remainder) } }"

section \<open>The quotient estimate\<close>

text \<open>The estimate from the top limbs is at least the quotient, and at most two more.\<close>

lemma estimate_bounds:
  fixes num den P B :: int
  assumes "0 < P" and "0 \<le> num" and "num < den * B" and "0 < den" and "B \<le> 2 * (den div P)" and "0 < B"
  defines "qh \<equiv> min (num div P div (den div P)) (B - 1)"
  shows "num div den \<le> qh" and "qh \<le> num div den + 2"
proof -
  let ?q = "num div den" and ?v = "den div P" and ?U = "num div P"
  have v: "0 < ?v" using assms(5,6) by linarith
  have q0: "0 \<le> ?q" using assms(2,4) by (simp add: pos_imp_zdiv_nonneg_iff)
  have qB: "?q < B" using assms(3,4) by (intro int_div_less) simp_all
  have qden: "?q * den \<le> num" using div_mult_mod_eq [of num den] assms(4) pos_mod_sign [of den num] by linarith
  have vP: "?v * P \<le> den" using div_mult_mod_eq [of den P] assms(1) pos_mod_sign [of P den] by linarith
  have "?q * ?v * P \<le> ?q * den" using mult_left_mono [OF vP q0] by (simp add: mult.assoc)
  with qden have "?q * ?v * P div P \<le> ?U" using assms(1) by (intro zdiv_mono1) linarith+
  then have "?q * ?v \<le> ?U" using assms(1) by simp
  then have "?q * ?v div ?v \<le> ?U div ?v" using v by (rule zdiv_mono1)
  then have "?q \<le> ?U div ?v" using v by simp
  with qB show "?q \<le> qh" by (simp add: qh_def)
  show "qh \<le> ?q + 2"
  proof (rule ccontr)
    assume "\<not> qh \<le> ?q + 2"
    then have qh: "?q + 3 \<le> qh" by simp
    have "qh * ?v \<le> ?U div ?v * ?v" using v by (intro mult_right_mono) (simp_all add: qh_def)
    also have "\<dots> \<le> ?U" using div_mult_mod_eq [of ?U ?v] v pos_mod_sign [of ?v ?U] by linarith
    finally have "qh * ?v * P \<le> ?U * P" using assms(1) by simp
    also have "\<dots> \<le> num" using div_mult_mod_eq [of num P] assms(1) pos_mod_sign [of P num] by linarith
    also have "num < (?q + 1) * den"
      using div_mult_mod_eq [of num den] assms(4) pos_mod_bound [of den num] unfolding distrib_right by linarith
    also have "\<dots> \<le> (?q + 1) * ((?v + 1) * P)"
    proof (rule mult_left_mono)
      show "den \<le> (?v + 1) * P"
        using div_mult_mod_eq [of den P] assms(1) pos_mod_bound [of P den] unfolding distrib_right by linarith
      show "0 \<le> ?q + 1" using q0 by simp
    qed
    finally have "(qh * ?v) * P < ((?q + 1) * (?v + 1)) * P" by (simp add: mult.assoc)
    then have "qh * ?v < (?q + 1) * (?v + 1)" by (simp only: mult_less_cancel_right_pos [OF assms(1)])
    moreover have "(?q + 3) * ?v \<le> qh * ?v" using qh v by (intro mult_right_mono) simp_all
    ultimately have "2 * ?v < ?q + 1" by (simp add: distrib_right distrib_left)
    moreover have "qh \<le> B - 1" by (simp add: qh_def)
    ultimately show False using qh assms(5) by linarith
  qed
qed

lemma q_span_ok:
  assumes "uint (q :: 'a::len word) < 2 ^ bits" and "bits \<le> LENGTH('a)"
  shows "ct_ok (q_span bits q)" and "ct_int (q_span bits q) = uint q"
proof -
  have "limb_size_for TYPE('a) bits = (if bits > 0 then 1 else 0)"
    using div_ceil_pos_iff [of "LENGTH('a)" bits] div_ceil_mono [OF assms(2), of "LENGTH('a)"]
      div_ceil_mult(1) [of "LENGTH('a)" 1]
    by (auto simp: limb_size_for_def le_Suc_eq)
  moreover have "uint q = 0" if "bits = 0"
  proof -
    have "uint q < 1" using assms(1) that by simp
    then show ?thesis using uint_ge_0 [of q] by linarith
  qed
  ultimately show "ct_ok (q_span bits q)" "ct_int (q_span bits q) = uint q"
    using assms(1)
    by (auto simp: ct_ok_def ct_dest_def ct_int_def q_span_def limb_size_bit_array) 
      (auto simp: bit_array_def is_unsigned_def)
qed

lemma bool_cast_simps [simp]: "bool_cast 1" "\<not> bool_cast 0"
  by (simp_all add: bool_cast_def)

lemma ct_correct_estimate_eq:
  assumes "ct_dest (b :: 'a::len word bit_span)" and "ct_ok num" and "ct_ok den"
    and "uint q * ct_int den < 2 ^ bit_size b"
  shows "ct_correct_estimate bits num den (q, store b (uint q * ct_int den))
    = Some (let q' = (if ct_int num < uint q * ct_int den then q - 1 else q) in (q', store b (uint q' * ct_int den)))"
proof -
  let ?i = "store b (uint q * ct_int den)"
  note i = ct_ok_store [OF assms(1) _ assms(4)]
  have i: "ct_ok ?i" "ct_int ?i = uint q * ct_int den" by (rule i, simp)+
  show ?thesis
  proof (cases "ct_int num < uint q * ct_int den")
    case True
    then have "q \<noteq> 0" using ct_int_nonneg [of num] not_less by fastforce
    then have "uint (q - 1) = uint q - 1" by (rule uint_sub_one)
    with True show ?thesis
      using ct_subtract_eq [of ?i Own "Other den" 0] i assms ct_order_eq(2) [OF i(1) assms(2)]
      by (auto simp: ct_correct_estimate_def left_diff_distrib)
  next
    case False
    then show ?thesis using i ct_order_eq(2) [OF i(1) assms(2)] by (simp add: ct_correct_estimate_def)
  qed
qed

section \<open>Dividing into one or two quotient limbs\<close>

definition ct_normalized :: "'a::len word bit_span \<Rightarrow> nat \<Rightarrow> bool" where
  "ct_normalized den d \<longleftrightarrow> ct_ok den \<and> 0 < d \<and> std_bit_width (nat (ct_int den)) = LENGTH('a) * d"

lemma ct_normalizedD:
  assumes "ct_normalized (den :: 'a::len word bit_span) d"
  shows "ct_ok den" and "0 < ct_int den" and "ct_int den < 2 ^ (LENGTH('a) * d)"
    and "2 ^ (LENGTH('a) * d) \<le> 2 * ct_int den" and "d \<le> limb_size den"
    and "ct_bit_width den = Some (LENGTH('a) * d)"
proof -
  let ?D = "LENGTH('a) * d"
  have w: "std_bit_width (nat (ct_int den)) = ?D" and d: "0 < d" and ok: "ct_ok den"
    using assms by (simp_all add: ct_normalized_def)
  show "ct_ok den" by (rule ok)
  show "ct_bit_width den = Some ?D" using ct_bit_width_eq [OF ok] w by simp
  have "0 < ?D" using d by simp
  then have n: "0 < nat (ct_int den)" using w std_bit_width_eq_0_iff [of "nat (ct_int den)"] by (metis gr0I less_irrefl)
  then show pos: "0 < ct_int den" by simp
  note b = std_bit_width_bounds [OF n, unfolded w]
  have "nat (ct_int den) < 2 ^ ?D" using b by simp
  then show lt: "ct_int den < 2 ^ ?D" by (simp add: nat_less_iff)
  have "int (2 ^ (?D - 1)) \<le> ct_int den" using b by (simp add: le_nat_iff)
  then have "2 * 2 ^ (?D - 1) \<le> 2 * ct_int den" by simp
  then show half: "2 ^ ?D \<le> 2 * ct_int den" 
    using power_Suc [of "2 :: int" "?D - 1"] unfolding Suc_diff_1 [OF \<open>0 < ?D\<close>] by linarith
  have "ct_int den < 2 ^ bit_size den" using ok by (simp add: ct_ok_def)
  then have "std_bit_width (nat (ct_int den)) \<le> bit_size den" by (simp add: std_bit_width_le_iff nat_less_iff)
  then have "?D \<le> LENGTH('a) * limb_size den" using w bit_size_le_limbs [of den] by linarith
  then show "d \<le> limb_size den" by simp
qed

lemma limb_size_for_mult: "limb_size_for TYPE('a::len) (LENGTH('a) * n) = n"
  by (simp add: limb_size_for_def)

lemma limb_size_for_width:
  assumes "x < 2 ^ (LENGTH('a) * n)"
  shows "limb_size_for TYPE('a::len) (std_bit_width (nat x)) \<le> n"
proof -
  have "std_bit_width (nat x) \<le> LENGTH('a) * n" using assms by (cases "0 \<le> x") (simp_all add: std_bit_width_le_iff nat_less_iff)
  from div_ceil_mono [OF this, of "LENGTH('a)"] show ?thesis by (simp add: limb_size_for_def)
qed

lemma store_same: "ct_ok b \<Longrightarrow> store b (ct_int b) = b"
proof -
  assume ok: "ct_ok b"
  have "data (store b (ct_int b)) = data b"
  proof (rule nth_equalityI)
    show "length (data (store b (ct_int b))) = length (data b)" using ct_destD(1) [OF ct_ok_dest [OF ok]] by simp
    fix i assume "i < length (data (store b (ct_int b)))"
    then have i: "i < limb_size b" by simp
    then show "data (store b (ct_int b)) ! i = data b ! i"
      using ct_last_limb [OF ok] by (auto simp: store_nth ct_ok_dest [OF ok] ct_data_limb [OF ok, symmetric])
  qed
  then show ?thesis by (simp add: bit_span.equality)
qed

lemma shifted_denominator:
  assumes "ct_normalized (den :: 'a::len word bit_span) d"
  defines "b \<equiv> ct_array (LENGTH('a) * d + LENGTH('a)) Unnormal [] :: 'a word bit_span"
  shows "ct_bit_copy (ct_subspan b 1) (Other den) = Some (store (ct_subspan b 1) (ct_int den))"
    and "put_subspan b 1 (store (ct_subspan b 1) (ct_int den)) = store b (2 ^ LENGTH('a) * ct_int den)"
    and "ct_ok (store b (2 ^ LENGTH('a) * ct_int den))"
    and "ct_int (store b (2 ^ LENGTH('a) * ct_int den)) = 2 ^ LENGTH('a) * ct_int den"
proof -
  note den = ct_normalizedD [OF assms(1)]
  have dest: "ct_dest b" by (simp add: b_def)
  show "ct_bit_copy (ct_subspan b 1) (Other den) = Some (store (ct_subspan b 1) (ct_int den))"
    using ct_bit_copy_eq [of "ct_subspan b 1" "Other den"] den(1) ct_subspan_facts(1) [OF dest] by simp
  have z: "store b 0 = b" using store_same [of b] by (simp add: b_def)
  show "put_subspan b 1 (store (ct_subspan b 1) (ct_int den)) = store b (2 ^ LENGTH('a) * ct_int den)"
    using put_subspan_store [OF dest, of 1 b 0 "ct_int den"] by (simp add: z)
  have "2 ^ LENGTH('a) * ct_int den < 2 ^ bit_size b"
    using den(3) by (simp add: b_def power_add mult.commute [of "2 ^ LENGTH('a)"])
  from ct_ok_store [OF dest _ this] den(2)
  show "ct_ok (store b (2 ^ LENGTH('a) * ct_int den))"
    "ct_int (store b (2 ^ LENGTH('a) * ct_int den)) = 2 ^ LENGTH('a) * ct_int den" by simp_all
qed

lemma top_limbs:
  assumes "ct_ok (num :: 'a::len word bit_span)" and "ct_int num < 2 ^ (LENGTH('a) * Suc d)" and "0 < d"
  shows "uint (limb_of (ct_int num) (d - 1) :: 'a word) + 2 ^ LENGTH('a) * uint (limb_of (ct_int num) d :: 'a word)
    = ct_int num div 2 ^ (LENGTH('a) * (d - 1))"
proof -
  let ?P = "2 ^ (LENGTH('a) * (d - 1)) :: int" and ?B = "2 ^ LENGTH('a) :: int"
  obtain e where d: "d = Suc e" using assms(3) by (cases d) auto
  let ?U = "ct_int num div ?P"
  have "2 ^ (LENGTH('a) * d) = ?P * ?B" by (simp add: d power_add mult.commute)
  then have hi: "ct_int num div 2 ^ (LENGTH('a) * d) = ?U div ?B" by (simp add: zdiv_zmult2_eq)
  have "ct_int num < ?P * (?B * ?B)" using assms(2) by (simp add: d power_add ac_simps)
  then have "?U < ?B * ?B" by (rule int_div_less [rotated]) simp
  then have "?U div ?B < ?B" by (rule int_div_less [rotated]) simp
  moreover have "0 \<le> ?U div ?B" by (simp add: pos_imp_zdiv_nonneg_iff)
  ultimately show ?thesis by (simp add: uint_limb_of hi del: One_nat_def)
qed

lemma estimate_corrected:
  assumes "uint (q :: 'a::len word) \<le> x div y + 2" and "x div y \<le> uint q" and "0 \<le> x" and "0 < y"
    and c: "\<And>p. c p = (if x < uint p * y then p - 1 else (p :: 'a word))"
  shows "uint (c (c q)) = x div y" and "uint (c q) \<le> uint q" and "uint (c (c q)) \<le> uint q"
proof -
  have gt: "x < k * y \<longleftrightarrow> x div y < k" for k
    using assms(4) by (metis int_div_less mult.commute div_mult_mod_eq not_less pos_mod_sign zdiv_mono1 nonzero_mult_div_cancel_right less_irrefl)
  have step: "uint (c p) = (if x div y < uint p then uint p - 1 else uint p)" for p
  proof (cases "x div y < uint p")
    case True
    moreover have "0 \<le> x div y" using assms(3,4) by (simp add: pos_imp_zdiv_nonneg_iff)
    ultimately have "p \<noteq> 0" by auto
    with True show ?thesis by (simp add: c gt uint_sub_one)
  qed (simp add: c gt)
  show "uint (c q) \<le> uint q" "uint (c (c q)) \<le> uint q" by (simp_all add: step)
  show "uint (c (c q)) = x div y" using assms(1,2) by (simp add: step)
qed

lemma ct_divide_one_limb:
  fixes den :: "'a::len word bit_span"
  assumes "ct_dest qt" and "ct_dest r" and "ct_ok (load r v)" and "ct_normalized den d"
    and "ct_int (load r v) < 2 ^ LENGTH('a) * ct_int den"
  shows "ct_divide_similar_sized qt r v den
    = Some (store qt (ct_int (load r v) div ct_int den), store r (ct_int (load r v) mod ct_int den))"
proof -
  let ?L = "LENGTH('a)" and ?n = "load r v" and ?b = "ct_array (LENGTH('a) * d + LENGTH('a)) Unnormal [] :: 'a word bit_span"
  let ?N = "ct_int ?n" and ?V = "ct_int den" and ?P = "2 ^ (LENGTH('a) * (d - 1)) :: int"
  note den = ct_normalizedD [OF assms(4)] and sh = shifted_denominator [OF assms(4)]
  have d: "0 < d" using assms(4) by (simp add: ct_normalized_def)
  have "2 ^ ?L * ?V < 2 ^ ?L * 2 ^ (?L * d)" using den(3) by simp
  with assms(5) have "?N < 2 ^ ?L * 2 ^ (?L * d)" by (rule less_trans)
  then have N: "?N < 2 ^ (?L * Suc d)" by (simp add: power_add)
  have limbs: "limb_size_for TYPE('a) (std_bit_width (nat ?N)) \<le> d + 1" using limb_size_for_width [OF N] by simp
  have top: "uint (limb_of ?V (d - 1) :: 'a word) = ?V div ?P" and half: "2 ^ ?L \<le> 2 * (?V div ?P)"
  proof -
    have p: "2 ^ (?L * d) = ?P * 2 ^ ?L" using d by (cases d) (simp_all add: power_add mult.commute)
    then have "?V < ?P * 2 ^ ?L" using den(3) by simp
    then have "?V div ?P < 2 ^ ?L" by (rule int_div_less [rotated]) simp
    then show "uint (limb_of ?V (d - 1) :: 'a word) = ?V div ?P" using den(2)
      by (simp add: uint_limb_of pos_imp_zdiv_nonneg_iff)
    have "2 * (2 ^ (?L - 1) * ?P) = 2 ^ (?L * d)"
      unfolding p by (simp add: power_Suc [symmetric] mult.assoc [symmetric] mult.commute [of ?P] del: power_Suc)
    then have "2 ^ (?L - 1) * ?P \<le> ?V" using den(4) by linarith
    then have "2 ^ (?L - 1) * ?P div ?P \<le> ?V div ?P" by (rule zdiv_mono1) simp
    then show "2 ^ ?L \<le> 2 * (?V div ?P)"
      using power_Suc [of "2 :: int" "?L - 1"] by simp
  qed
  have "limb_of ?V (d - 1) \<noteq> (0 :: 'a word)"
  proof
    assume "limb_of ?V (d - 1) = (0 :: 'a word)"
    then have "?V div ?P = 0" using top by simp
    with half show False by simp
  qed
  then obtain q where q: "core_clamped_divide (limb_of ?N (d - 1)) (limb_of ?N d) (limb_of ?V (d - 1) :: 'a word) = Some q"
    and uq: "uint q = min (?N div ?P div (?V div ?P)) (2 ^ ?L - 1)"
    using core_clamped_divide_eq [of "limb_of ?V (d - 1) :: 'a word" "limb_of ?N (d - 1)" "limb_of ?N d"]
      top_limbs [OF assms(3) N d] top by auto
  have "?N < ?V * 2 ^ ?L" using assms(5) by (simp add: mult.commute)
  note est = estimate_bounds [OF _ ct_int_nonneg this den(2) half, folded uq, simplified]
  define c where "c = (\<lambda>q :: 'a word. if ?N < uint q * ?V then q - 1 else q)"
  have c: "c p = (if ?N < uint p * ?V then p - 1 else p)" for p by (simp add: c_def)
  note corr = estimate_corrected [OF est(2,1) ct_int_nonneg den(2) c]
  let ?bits = "std_bit_width (unat q)"
  have bits: "?bits \<le> ?L" by (rule std_bit_width_limb)
  have q_bits: "uint p < 2 ^ ?bits" if "uint p \<le> uint q" for p :: "'a word"
  proof -
    have "int (unat q) < 2 ^ ?bits" using std_bit_width_less [of "unat q"] by (metis of_nat_less_iff of_nat_numeral of_nat_power)
    then show ?thesis using that by simp
  qed
  have room: "uint p * ?V < 2 ^ bit_size ?b" for p :: "'a word"
  proof -
    have "uint p * ?V < 2 ^ ?L * 2 ^ (?L * d)" using uint_lt2p [of p] den(2,3) by (intro mult_strict_mono) simp_all
    then show ?thesis by (simp add: power_add mult.commute)
  qed
  have mult: "ct_multiply (store ?b (2 ^ ?L * ?V)) den (q_span ?bits q) = Some (store ?b (uint q * ?V))"
    using ct_multiply_eq [of "store ?b (2 ^ ?L * ?V)" den "q_span ?bits q"] q_span_ok [OF q_bits [OF order_refl] bits] den(1)
    by (simp add: mult.commute)
  have e1: "ct_correct_estimate ?bits ?n den (q, store ?b (uint q * ?V)) = Some (c q, store ?b (uint (c q) * ?V))"
    and e2: "ct_correct_estimate ?bits ?n den (c q, store ?b (uint (c q) * ?V)) = Some (c (c q), store ?b (uint (c (c q)) * ?V))"
    by (simp_all only: ct_correct_estimate_eq [OF ct_array_dest assms(3) den(1) room] c [symmetric] Let_def)
  have copy: "ct_bit_copy qt (Other (q_span ?bits (c (c q)))) = Some (store qt (?N div ?V))"
    using ct_bit_copy_eq [OF assms(1), of "Other (q_span ?bits (c (c q)))"] q_span_ok [OF q_bits [OF corr(3)] bits] corr(1)
    by simp
  have nn: "0 \<le> uint (c (c q)) * ?V" using den(2) by simp
  obtain c' where sub: "ct_subtract r v (Other (store ?b (uint (c (c q)) * ?V))) 0 = Some (store r (?N mod ?V), c')"
    using ct_subtract_eq [OF assms(2,3), of "Other (store ?b (uint (c (c q)) * ?V))" 0]
      ct_ok_store [OF ct_array_dest nn room]
    by (auto simp: corr(1) minus_div_mult_eq_mod)
  have ge: "ct_greater_equal ?n (store ?b (2 ^ ?L * ?V)) = Some 0"
    using ct_order_eq(4) [OF assms(3) sh(3)] assms(5) by (simp add: sh(4))
  have rd: "ct_read den (d - 1) m = Some (limb_of ?V (d - 1))" for m
    using den(1,5) d by (intro ct_read_eq) simp_all
  show ?thesis
    by (subst ct_divide_similar_sized.simps)
      (simp add: Let_def ct_bit_width_eq assms(3) den(6) limb_size_for_mult limbs sh(1,2) ge ct_extended_read_eq rd q mult e1 e2
        copy sub del: One_nat_def)
qed

lemma ct_subspan_put: "i < k \<Longrightarrow> ct_subspan (put b i w) k = ct_subspan b k"
  by (simp add: ct_subspan_def put_def span_write_def)

text \<open>A second quotient limb, which is 1, is added above the first.\<close>

lemma put_second_limb:
  assumes "ct_dest (qt :: 'a::len word bit_span)" and "0 < limb_size qt" and "0 \<le> x" and "x < 2 ^ LENGTH('a)"
  shows "put_subspan (put qt 0 (Dyn (limb_of x 0))) 1 (store (ct_subspan qt 1) 1) = store qt (x + 2 ^ LENGTH('a))"
proof -
  let ?c = "put qt 0 (Dyn (limb_of x 0))"
  have "0 < length (data qt)" using assms(2) ct_destD(1) [OF assms(1)] by linarith
  then have "take 1 (data ?c) = [written_limb qt 0 (Dyn (limb_of x 0)) (normal_type qt)]"
    by (cases "data qt") (simp_all add: put_def span_write_def)
  moreover have "take 1 (data (store qt x)) = [written_limb qt 0 (Dyn (limb_of x 0)) (normal_type qt)]"
    using assms(2) by (simp add: store_def span_written_def take_map take_upt upt_conv_Cons)
  ultimately have "take 1 (data ?c) = take 1 (data (store qt x))" by simp
  from put_subspan_store [OF assms(1) this, of 1] assms(3,4) show ?thesis
    by (simp add: put_def span_write_def)
qed

lemma ct_divide_similar_sized_eq:
  fixes den :: "'a::len word bit_span"
  assumes "ct_dest qt" and "ct_dest r" and "ct_ok (load r v)" and "ct_normalized den d"
    and "ct_int (load r v) < 2 ^ (LENGTH('a) * Suc d)"
    and "2 ^ LENGTH('a) * ct_int den \<le> ct_int (load r v) \<Longrightarrow> 0 < limb_size qt"
  shows "ct_divide_similar_sized qt r v den
    = Some (store qt (ct_int (load r v) div ct_int den), store r (ct_int (load r v) mod ct_int den))"
proof (cases "ct_int (load r v) < 2 ^ LENGTH('a) * ct_int den")
  case True
  then show ?thesis by (rule ct_divide_one_limb [OF assms(1-4)])
next
  case False
  let ?L = "LENGTH('a)" and ?n = "load r v" and ?b = "ct_array (LENGTH('a) * d + LENGTH('a)) Unnormal [] :: 'a word bit_span"
  let ?N = "ct_int ?n" and ?V = "ct_int den"
  let ?M = "?N - 2 ^ ?L * ?V" and ?iq = "ct_array (bit_size qt) Unnormal [] :: 'a word bit_span"
  note den = ct_normalizedD [OF assms(4)] and sh = shifted_denominator [OF assms(4)]
  have qt: "0 < limb_size qt" using False assms(6) by simp
  have limbs: "limb_size_for TYPE('a) (std_bit_width (nat ?N)) \<le> d + 1"
    using limb_size_for_width [of ?N "Suc d"] assms(5) by simp
  have ge: "ct_greater_equal ?n (store ?b (2 ^ ?L * ?V)) = Some 1"
    using ct_order_eq(4) [OF assms(3) sh(3)] False by (simp add: sh(4))
  have "2 ^ ?L * 2 ^ (?L * d) \<le> 2 ^ ?L * (2 * ?V)" using den(4) by (rule mult_left_mono) simp
  moreover have "?N < 2 ^ ?L * 2 ^ (?L * d)" using assms(5) by (simp add: power_add)
  ultimately have M: "0 \<le> ?M" "?M < 2 ^ ?L * ?V" using False by linarith+
  have "2 ^ ?L * ?V < 2 ^ bit_size ?b"
    using den(3) by (simp add: power_add mult.commute [of "2 ^ ?L"])
  then have "?M < 2 ^ bit_size ?b" using M(2) by linarith
  note i = ct_ok_store [OF ct_array_dest M(1) this]
  obtain c where sub: "ct_subtract (store ?b (2 ^ ?L * ?V)) (Other ?n) Own 0 = Some (store ?b ?M, c)"
    using ct_subtract_eq [of "store ?b (2 ^ ?L * ?V)" "Other ?n" Own 0] sh(3,4) assms(3) ct_array_dest
    by auto
  let ?X = "?M div ?V"
  have X: "0 \<le> ?X" "?X < 2 ^ ?L"
    using M den(2) int_div_less [of ?V ?M "2 ^ ?L"] by (simp_all add: pos_imp_zdiv_nonneg_iff mult.commute)
  have rec: "ct_divide_similar_sized ?iq r (Other (store ?b ?M)) den = Some (store ?iq ?X, store r (?M mod ?V))"
    using ct_divide_one_limb [OF ct_array_dest assms(2) _ assms(4), of "Other (store ?b ?M)" "bit_size qt"] i M(2) by simp
  have "limb_size ?iq = limb_size qt" by (simp add: limb_size_def)
  then have lq: "0 < limb_size (store ?iq ?X)" using qt by simp
  have raw: "raw_array (store ?iq ?X)" by (simp add: raw_array_def)
  have rd: "ct_read (store ?iq ?X) 0 Unnormal = Some (limb_of ?X 0)"
    using ct_read_raw [OF raw lq] lq by (simp add: store_nth)
  have wr: "ct_write qt 0 (limb_of ?X 0) (normal_type qt) = Some (put qt 0 (Dyn (limb_of ?X 0)))"
    using qt assms(1) by (simp add: ct_write_put ct_dest_def)
  have up: "ct_ok (ct_subspan (store ?iq ?X) 1)" "ct_int (ct_subspan (store ?iq ?X) 1) = 0"
  proof -
    have "ct_ok (ct_subspan (store ?iq ?X) 1) \<and> ct_int (ct_subspan (store ?iq ?X) 1) = 0"
    proof (cases "?L < bit_size qt")
      case True
      then have "?X < 2 ^ bit_size ?iq" using nat_lt_of_int_pow [OF X(2), of "bit_size qt"] by simp
      from ct_ok_store [OF ct_array_dest X(1) this] ct_subspan_ok [of "store ?iq ?X" 1] X
      show ?thesis by (simp add: div_pos_pos_trivial)
    next
      case False
      then show ?thesis
        by (simp add: ct_subspan_def ct_ok_def ct_dest_def ct_int_def limb_size_def limb_size_for_def is_unsigned_def)
    qed
    then show "ct_ok (ct_subspan (store ?iq ?X) 1)" "ct_int (ct_subspan (store ?iq ?X) 1) = 0" by simp_all
  qed
  obtain c' where add: "ct_add (ct_subspan qt 1) (Other (ct_subspan (store ?iq ?X) 1)) (Other nullspan) 1
    = Some (store (ct_subspan qt 1) 1, c')"
    using ct_add_eq [OF ct_subspan_facts(1) [OF assms(1)], of 1 "Other (ct_subspan (store ?iq ?X) 1)" "Other nullspan" 1] up
    by auto
  have q: "?X + 2 ^ ?L = ?N div ?V" "?M mod ?V = ?N mod ?V"
  proof -
    have "?N = ?M + 2 ^ ?L * ?V" by simp
    then show "?X + 2 ^ ?L = ?N div ?V" using den(2) by (metis div_mult_self1 less_irrefl add.commute)
    show "?M mod ?V = ?N mod ?V" by (simp add: mod_diff_right_eq [symmetric])
  qed
  note second = put_second_limb [OF assms(1) qt X, unfolded q(1)]
  show ?thesis
    by (subst ct_divide_similar_sized.simps)
      (simp add: Let_def ct_bit_width_eq assms(3) den(6) limb_size_for_mult limbs sh(1,2) ge sub rec rd wr ct_subspan_put add
        second q(2) del: One_nat_def)
qed

text \<open>Without a limb for the quotient the second quotient limb has no place: the read of it fails.\<close>

lemma ct_divide_similar_sized_null:
  fixes den :: "'a::len word bit_span"
  assumes "ct_dest qt" and "ct_dest r" and "ct_ok (load r v)" and "ct_normalized den d"
    and "ct_int (load r v) < 2 ^ (LENGTH('a) * Suc d)"
    and "2 ^ LENGTH('a) * ct_int den \<le> ct_int (load r v)" and "limb_size qt = 0"
  shows "ct_divide_similar_sized qt r v den = None"
proof -
  let ?L = "LENGTH('a)" and ?n = "load r v" and ?b = "ct_array (LENGTH('a) * d + LENGTH('a)) Unnormal [] :: 'a word bit_span"
  let ?N = "ct_int ?n" and ?V = "ct_int den"
  let ?M = "?N - 2 ^ ?L * ?V" and ?iq = "ct_array (bit_size qt) Unnormal [] :: 'a word bit_span"
  note den = ct_normalizedD [OF assms(4)] and sh = shifted_denominator [OF assms(4)]
  have limbs: "limb_size_for TYPE('a) (std_bit_width (nat ?N)) \<le> d + 1"
    using limb_size_for_width [of ?N "Suc d"] assms(5) by simp
  have ge: "ct_greater_equal ?n (store ?b (2 ^ ?L * ?V)) = Some 1"
    using ct_order_eq(4) [OF assms(3) sh(3)] assms(6) by (simp add: sh(4))
  obtain c where sub: "ct_subtract (store ?b (2 ^ ?L * ?V)) (Other ?n) Own 0 = Some (store ?b ?M, c)"
    using ct_subtract_eq [of "store ?b (2 ^ ?L * ?V)" "Other ?n" Own 0] sh(3,4) assms(3) ct_array_dest
    by auto
  have "2 ^ ?L * 2 ^ (?L * d) \<le> 2 ^ ?L * (2 * ?V)" using den(4) by (rule mult_left_mono) simp
  moreover have "?N < 2 ^ ?L * 2 ^ (?L * d)" using assms(5) by (simp add: power_add)
  ultimately have M: "0 \<le> ?M" "?M < 2 ^ ?L * ?V" using assms(6) by linarith+
  have "2 ^ ?L * ?V < 2 ^ bit_size ?b"
    using den(3) by (simp add: power_add mult.commute [of "2 ^ ?L"])
  then have "?M < 2 ^ bit_size ?b" using M(2) by linarith
  note i = ct_ok_store [OF ct_array_dest M(1) this]
  have rec: "ct_divide_similar_sized ?iq r (Other (store ?b ?M)) den = Some (store ?iq (?M div ?V), store r (?M mod ?V))"
    using ct_divide_one_limb [OF ct_array_dest assms(2) _ assms(4), of "Other (store ?b ?M)" "bit_size qt"] i M(2) by simp
  have "limb_size (store ?iq (?M div ?V)) = 0" using assms(7) by (simp add: limb_size_def)
  then have rd: "ct_read (store ?iq (?M div ?V)) 0 Unnormal = None" by (simp add: ct_read_def)
  show ?thesis
    by (subst ct_divide_similar_sized.simps)
      (simp add: Let_def ct_bit_width_eq assms(3) den(6) limb_size_for_mult limbs sh(1,2) ge sub rec rd del: One_nat_def)
qed

section \<open>Long division\<close>

definition limb_count :: "'a::len itself \<Rightarrow> int \<Rightarrow> nat" where
  "limb_count T x = limb_size_for T (std_bit_width (nat x))"

lemma limb_count_le_iff:
  assumes "0 \<le> x"
  shows "limb_count TYPE('a::len) x \<le> n \<longleftrightarrow> x < 2 ^ (LENGTH('a) * n)"
proof
  assume "limb_count TYPE('a) x \<le> n"
  then have "LENGTH('a) * limb_count TYPE('a) x \<le> LENGTH('a) * n" by simp
  moreover have "std_bit_width (nat x) \<le> LENGTH('a) * limb_count TYPE('a) x"
    by (simp add: limb_count_def limb_size_for_def div_ceil_le_mult)
  ultimately have "std_bit_width (nat x) \<le> LENGTH('a) * n" by linarith
  then show "x < 2 ^ (LENGTH('a) * n)" using assms by (simp add: std_bit_width_le_iff nat_less_iff)
qed (simp add: limb_count_def limb_size_for_width)

lemma times_div_le_int: "0 < P \<Longrightarrow> P * (N div P) \<le> (N :: int)"
  using minus_mod_eq_mult_div [of N P] pos_mod_sign [of P N] by linarith

lemma split_division:
  fixes N V P :: int
  assumes "0 < V" and "0 < P"
  defines "M \<equiv> N mod P + P * ((N div P) mod V)"
  shows "N div V = M div V + P * (N div P div V)" and "N mod V = M mod V" and "M < P * V"
proof -
  have "P * (N div P) = P * ((N div P) mod V + V * (N div P div V))" by simp
  also have "\<dots> = P * ((N div P) mod V) + V * (P * (N div P div V))" by (simp only: distrib_left ac_simps)
  finally have "P * (N div P) = P * ((N div P) mod V) + V * (P * (N div P div V))" .
  moreover have "N = N mod P + P * (N div P)" by simp
  ultimately have N: "N = M + V * (P * (N div P div V))" unfolding M_def by linarith
  show "N div V = M div V + P * (N div P div V)" by (subst N) (use assms(1) in simp)
  show "N mod V = M mod V" by (subst N) simp
  have "N div P mod V + 1 \<le> V" using pos_mod_bound [OF assms(1), of "N div P"] by linarith
  then have "P * (N div P mod V + 1) \<le> P * V" using assms(2) by (intro mult_left_mono) simp_all
  moreover have "N mod P < P" using assms(2) by simp
  ultimately show "M < P * V" unfolding M_def distrib_left by linarith
qed

lemma q_span_one: "bit_array 1 Without_sign Normal [1] = q_span 1 (1 :: 'a::len word)"
  by (simp add: q_span_def)

lemma ct_divide_normalized_eq:
  fixes den :: "'a::len word bit_span"
  assumes "ct_dest qt" and "ct_dest r" and "ct_ok (load r v)" and "ct_normalized den d"
    and "ct_int (load r v) div ct_int den < 2 ^ (LENGTH('a) * limb_size qt) \<or> limb_size qt = 0"
  shows "ct_divide_normalized qt r v den
      = Some (store qt (ct_int (load r v) div ct_int den), store r (ct_int (load r v) mod ct_int den))
    \<or> ct_divide_normalized qt r v den = None
      \<and> \<not> ct_int (load r v) div ct_int den < 2 ^ (LENGTH('a) * limb_size qt)
      \<and> 2 ^ LENGTH('a) * ct_int den \<le> ct_int (load r v)"
  using assms(1,3,5)
proof (induction "limb_count TYPE('a) (ct_int (load r v))" arbitrary: qt v rule: less_induct)
  case less
  let ?L = "LENGTH('a)" and ?n = "load r v"
  let ?N = "ct_int ?n" and ?V = "ct_int den" and ?c = "limb_count TYPE('a) (ct_int (load r v))"
  note den = ct_normalizedD [OF assms(4)]
  have d: "0 < d" using assms(4) by (simp add: ct_normalized_def)
  have bits: "ct_bit_width ?n = Some (std_bit_width (nat ?N))" by (rule ct_bit_width_eq [OF less.prems(2)])
  note start = Let_def bits den(6) limb_size_for_mult limb_count_def [symmetric]
  have small: "?N div ?V = 0" "?N mod ?V = ?N" if "?N < ?V"
    using that by (simp_all add: div_pos_pos_trivial)
  obtain q0: "ct_bit_copy qt (Other nullspan) = Some (store qt 0)"
    using ct_bit_copy_eq [OF less.prems(1), of "Other nullspan"] by simp
  have rcopy: "ct_bit_copy r v = Some (store r ?N)" by (rule ct_bit_copy_eq [OF assms(2) less.prems(2)])
  consider "?c < d" | "?c = d" | "?c = d + 1" | "d + 1 < ?c" by linarith
  then show ?case
  proof cases
    case 1
    have "?c \<le> d - 1" using 1 by simp
    then have "?N < 2 ^ (?L * (d - 1))" by (simp add: limb_count_le_iff del: One_nat_def)
    also have "2 * 2 ^ (?L * (d - 1)) \<le> (2 :: int) ^ (?L * d)"
    proof -
      obtain e where e: "d = Suc e" using d by (cases d) auto
      have "Suc (?L * (d - 1)) \<le> ?L * d" using len_gt_0 [where 'a = 'a] unfolding e mult_Suc_right diff_Suc_1 by linarith
      then have "(2 :: int) ^ Suc (?L * (d - 1)) \<le> 2 ^ (?L * d)" by (rule power_increasing) simp
      then show ?thesis by simp
    qed
    then have "2 ^ (?L * (d - 1)) \<le> ?V" using den(4) by linarith
    finally have "?N < ?V" .
    then show ?thesis using 1
      by (subst (1 2) ct_divide_normalized.simps) (simp add: start small q0 rcopy del: One_nat_def)
  next
    case 2
    have N: "?N < 2 ^ (?L * d)" using 2 by (simp flip: limb_count_le_iff)
    show ?thesis
    proof (cases "?N < ?V")
      case True
      then show ?thesis using 2 ct_order_eq(1) [OF less.prems(2) den(1)]
        by (subst (1 2) ct_divide_normalized.simps) (simp add: start small q0 rcopy del: One_nat_def)
    next
      case False
      have "?N - ?V < ?V" "0 \<le> ?N - ?V" using False N den(4) by simp_all
      then have one: "?N div ?V = 1" "?N mod ?V = ?N - ?V"
        using int_div_pos_eq [of ?N ?V 1 "?N - ?V"] int_mod_pos_eq [of ?N ?V 1 "?N - ?V"] by simp_all
      have "1 < (2 :: int) ^ 1" by simp
      then have s: "ct_ok (q_span 1 (1 :: 'a word))" "ct_int (q_span 1 (1 :: 'a word)) = 1"
        using q_span_ok [of "1 :: 'a word" 1] len_gt_0 [where 'a = 'a] by (simp_all add: Suc_le_eq)
      have q1: "ct_bit_copy qt (Other (q_span 1 1)) = Some (store qt 1)"
        using ct_bit_copy_eq [OF less.prems(1), of "Other (q_span 1 1)"] s by simp
      obtain b where sub: "ct_subtract r v (Other den) 0 = Some (store r (?N - ?V), b)"
        using ct_subtract_eq [OF assms(2) less.prems(2), of "Other den" 0] den(1) by auto
      show ?thesis using 2 False ct_order_eq(1) [OF less.prems(2) den(1)]
        by (subst (1 2) ct_divide_normalized.simps) (simp add: start one q_span_one q1 sub del: One_nat_def)
    qed
  next
    case 3
    have N: "?N < 2 ^ (?L * Suc d)" using 3 limb_count_le_iff [of ?N "Suc d", where 'a = 'a] by simp
    have run: "ct_divide_normalized qt r v den = ct_divide_similar_sized qt r v den"
      using 3 by (subst ct_divide_normalized.simps) (simp add: start)
    show ?thesis
    proof (cases "2 ^ ?L * ?V \<le> ?N \<and> limb_size qt = 0")
      case True
      then have "?V * 1 \<le> ?V * 2 ^ ?L" using den(2) by (intro mult_left_mono) simp_all
      then have "?V \<le> ?N" using True by (simp add: mult.commute)
      then have "1 \<le> ?N div ?V" using den(2) zdiv_mono1 [of ?V ?N ?V] by simp
      with True ct_divide_similar_sized_null [OF less.prems(1) assms(2) less.prems(2) assms(4) N] show ?thesis
        by (simp add: run)
    next
      case False
      then show ?thesis
        using ct_divide_similar_sized_eq [OF less.prems(1) assms(2) less.prems(2) assms(4) N] by (simp add: run)
    qed
  next
    case 4
    define k where "k = ?c - d - 1"
    let ?P = "2 ^ (?L * k) :: int"
    have c: "?c = Suc d + k" using 4 by (simp add: k_def)
    let ?b = "ct_array (std_bit_width (nat ?N)) Unnormal [] :: 'a word bit_span"
    let ?H = "?N div ?P"
    let ?hq = "ct_subspan qt k" and ?hr = "ct_subspan ?b k" and ?hn = "ct_subspan ?n k"
    note hn = ct_subspan_ok [OF less.prems(2), of k] and ln = ct_first_limbs_ok [OF less.prems(2), of k]
    have "?N < 2 ^ (?L * (Suc d + k))" using c limb_count_le_iff [of ?N "Suc d + k", where 'a = 'a] by simp
    then have "?N < ?P * 2 ^ (?L * Suc d)" by (simp add: power_add distrib_left ac_simps)
    then have H: "?H < 2 ^ (?L * Suc d)" by (rule int_div_less [rotated]) simp
    note hq = ct_subspan_facts [OF less.prems(1), of k] and hb = ct_subspan_facts(1) [OF ct_array_dest]
    have run: "ct_divide_normalized qt r v den = do {
        (upper_quotient, upper) \<leftarrow> ct_divide_similar_sized ?hq ?hr (Other ?hn) den;
        let qt = put_subspan qt k upper_quotient;
        let intermediate = put_subspan ?b k upper;
        lower \<leftarrow> ct_bit_copy (ct_first_limbs intermediate k) (Other (ct_first_limbs ?n k));
        let intermediate = put_first_limbs intermediate lower;
        (lower_quotient, remainder) \<leftarrow> ct_divide_normalized (ct_first_limbs qt k) r (Other intermediate) den;
        Some (put_first_limbs qt lower_quotient, remainder) }"
      using 4 by (subst ct_divide_normalized.simps) (simp add: start k_def del: One_nat_def)
    show ?thesis
    proof (cases "2 ^ ?L * ?V \<le> ?H \<and> limb_size ?hq = 0")
      case True
      then have "ct_divide_similar_sized ?hq ?hr (Other ?hn) den = None"
        using ct_divide_similar_sized_null [OF hq(1) hb _ assms(4), where v = "Other ?hn"] hn H by simp
      then have none: "ct_divide_normalized qt r v den = None" by (simp add: run)
      have "limb_size qt \<le> k" using True hq(2) by simp
      then have "(2 :: int) ^ (?L * limb_size qt) \<le> ?P" by (simp add: power_increasing)
      moreover have "?P * ?V \<le> ?N"
      proof -
        have "?V * 1 \<le> ?V * 2 ^ ?L" using den(2) by (intro mult_left_mono) simp_all
        then have "?V \<le> ?H" using True by (simp add: mult.commute)
        then have "?P * ?V \<le> ?P * ?H" by (rule mult_left_mono) simp
        also have "\<dots> \<le> ?N" by (rule times_div_le_int) simp
        finally show ?thesis .
      qed
      then have "?P \<le> ?N div ?V" using den(2) zdiv_mono1 [of "?P * ?V" ?N ?V] by simp
      ultimately have "\<not> ?N div ?V < 2 ^ (?L * limb_size qt)" by linarith
      moreover have "2 ^ ?L * ?V \<le> ?N"
      proof -
        have "0 \<le> ?H" by (simp add: pos_imp_zdiv_nonneg_iff)
        then have "1 * ?H \<le> ?P * ?H" by (intro mult_right_mono) simp_all
        also have "\<dots> \<le> ?N" by (rule times_div_le_int) simp
        finally show ?thesis using True by simp
      qed
      ultimately show ?thesis using none by blast
    next
      case False
      define M where "M = ?N mod ?P + ?P * (?H mod ?V)"
      have P0: "0 < ?P" by simp
      note M = split_division [OF den(2) P0, of ?N, folded M_def]
      have M0: "0 \<le> M" using den(2) by (simp add: M_def)
      have top: "ct_divide_similar_sized ?hq ?hr (Other ?hn) den = Some (store ?hq (?H div ?V), store ?hr (?H mod ?V))"
        using ct_divide_similar_sized_eq [OF hq(1) hb _ assms(4), where v = "Other ?hn"] hn H False by auto
      let ?q1 = "put_subspan qt k (store ?hq (?H div ?V))" and ?b1 = "put_subspan ?b k (store ?hr (?H mod ?V))"
      have L0: "0 \<le> ?N mod ?P" "?N mod ?P < ?P" by simp_all
      note lb = put_parts_store [OF ct_array_dest L0 refl, where hi = "?H mod ?V", folded M_def]
      have copy: "ct_bit_copy (ct_first_limbs ?b1 k) (Other (ct_first_limbs ?n k))
        = Some (store (ct_first_limbs ?b1 k) (?N mod ?P))"
        using ct_bit_copy_eq [OF ct_first_limbs_facts(1) [OF lb(2)], where v = "Other (ct_first_limbs ?n k)"] ln by simp
      have "?P * (?H mod ?V) \<le> ?P * ?H" by (intro mult_left_mono zmod_le_nonneg_dividend) (simp_all add: pos_imp_zdiv_nonneg_iff)
      then have "M \<le> ?N mod ?P + ?P * ?H" unfolding M_def by linarith
      then have MN: "M \<le> ?N" by (simp only: mod_mult_div_eq)
      have "?N < 2 ^ std_bit_width (nat ?N)" using std_bit_width_less [of "nat ?N"] by (simp add: nat_less_iff)
      then have "M < 2 ^ bit_size ?b" using MN by simp
      note ib = ct_ok_store [OF ct_array_dest M0 this]
      have "?P * ?V < ?P * 2 ^ (?L * d)" using den(3) by (rule mult_strict_left_mono) simp
      also have "\<dots> = 2 ^ (?L * (k + d))" by (simp only: power_add distrib_left)
      finally have "M < 2 ^ (?L * (k + d))" using M(3) by linarith
      then have cM: "limb_count TYPE('a) M < ?c" using M0 c limb_count_le_iff [of M "k + d", where 'a = 'a] by simp
      let ?lq = "ct_first_limbs ?q1 k"
      have q1: "ct_dest ?q1" using put_parts_store(2) [OF less.prems(1) _ _ refl, of 0 k "?H div ?V"] by simp
      note lq = ct_first_limbs_facts(1,2) [OF q1, of k]
      have fit: "M div ?V < 2 ^ (?L * limb_size ?lq)" if "?N div ?V < 2 ^ (?L * limb_size qt)"
      proof (cases "k \<le> limb_size qt")
        case True
        have "M div ?V < ?P" using M(3) den(2) by (intro int_div_less) (simp_all add: mult.commute)
        then show ?thesis using True by (simp add: lq min_absorb1)
      next
        case False
        have "0 \<le> ?H div ?V" using den(2) by (simp add: pos_imp_zdiv_nonneg_iff)
        then have "M div ?V \<le> ?N div ?V" using M(1) by simp
        then show ?thesis using that False by (simp add: lq min_absorb2)
      qed
      have "M div ?V < 2 ^ (?L * limb_size ?lq) \<or> limb_size ?lq = 0"
        using less.prems(3) fit lq(2) by auto
      from less.hyps [of "Other (store ?b M)" ?lq] cM ib lq(1) this
      have rec: "ct_divide_normalized ?lq r (Other (store ?b M)) den = Some (store ?lq (M div ?V), store r (M mod ?V))
        \<or> ct_divide_normalized ?lq r (Other (store ?b M)) den = None \<and> \<not> M div ?V < 2 ^ (?L * limb_size ?lq)
          \<and> 2 ^ ?L * ?V \<le> M" by simp
      have Ql: "0 \<le> M div ?V" "M div ?V < ?P"
        using M0 M(3) den(2) by (simp_all add: pos_imp_zdiv_nonneg_iff int_div_less mult.commute)
      have merge: "put_first_limbs ?q1 (store ?lq (M div ?V)) = store qt (?N div ?V)"
        using put_parts_store(1) [OF less.prems(1) Ql refl] by (simp add: M(1))
      show ?thesis using rec fit MN
        by (auto simp: run top copy lb(1) merge M(2) Let_def)
    qed
  qed
qed

section \<open>Division\<close>

lemma std_bit_width_scale: "0 < x \<Longrightarrow> std_bit_width (nat (x * 2 ^ s)) = std_bit_width (nat x) + s"
  using std_bit_width_shift [of "nat x" 0 s] by (simp add: nat_mult_distrib nat_power_eq)

lemma shift_to_array:
  fixes s :: nat
  assumes "ct_ok (v :: 'a::len word bit_span)"
  defines "a \<equiv> ct_array (std_bit_width (nat (ct_int v)) + s) Unnormal [] :: 'a word bit_span"
  shows "ct_shift_left a v s = Some (store a (ct_int v * 2 ^ s))"
    and "ct_ok (store a (ct_int v * 2 ^ s))" and "ct_int (store a (ct_int v * 2 ^ s)) = ct_int v * 2 ^ s"
proof -
  have "ct_int v < 2 ^ std_bit_width (nat (ct_int v))"
    using std_bit_width_less [of "nat (ct_int v)"] by (simp add: nat_less_iff)
  then have "ct_int v * 2 ^ s < 2 ^ bit_size a" by (simp add: a_def power_add)
  then show "ct_ok (store a (ct_int v * 2 ^ s))" "ct_int (store a (ct_int v * 2 ^ s)) = ct_int v * 2 ^ s"
    using ct_ok_store [of a "ct_int v * 2 ^ s"] by (simp_all add: a_def)
  show "ct_shift_left a v s = Some (store a (ct_int v * 2 ^ s))"
    using ct_shift_left_eq [of a v s] assms(1) by (simp add: a_def)
qed

lemma ct_shift_right_null:
  assumes "limb_size (r :: 'a::len word bit_span) = 0" and "ct_dest r"
  shows "ct_shift_right r v s = Some (store r x)"
  using assms ct_destD(1) [OF assms(2)]
  by (simp add: ct_shift_right_def ct_for_def store_def span_written_def)

lemma ct_divide_eq:
  fixes den :: "'a::len word bit_span"
  assumes "ct_dest qt" and "ct_dest r" and "ct_ok (load r v)" and "ct_ok den" and "0 < ct_int den"
    and "ct_int (load r v) div ct_int den < 2 ^ (LENGTH('a) * limb_size qt) \<or> limb_size qt = 0"
    and "ct_int (load r v) mod ct_int den < 2 ^ bit_size r \<or> bit_size r = 0"
  shows "ct_divide qt r v den
      = Some (store qt (ct_int (load r v) div ct_int den), store r (ct_int (load r v) mod ct_int den))
    \<or> ct_divide qt r v den = None
      \<and> \<not> ct_int (load r v) div ct_int den < 2 ^ (LENGTH('a) * limb_size qt)
      \<and> 2 ^ LENGTH('a) * ct_int den \<le> ct_int (load r v)"
proof -
  let ?L = "LENGTH('a)" and ?n = "load r v" and ?N = "ct_int (load r v)" and ?V = "ct_int den"
  let ?D = "std_bit_width (nat ?V)"
  have D: "0 < ?D" using assms(5) by (simp add: zero_less_iff_neq_zero)
  have start: "ct_bit_width ?n = Some (std_bit_width (nat ?N))" "ct_bit_width den = Some ?D"
    by (rule ct_bit_width_eq [OF assms(3)], rule ct_bit_width_eq [OF assms(4)])
  show ?thesis
  proof (cases "?D mod ?L = 0")
    case True
    then obtain d where d: "?D = ?L * d" by (auto elim: dvdE simp: mod_eq_0_iff_dvd)
    then have "ct_normalized den d" using assms(4) D by (simp add: ct_normalized_def)
    from ct_divide_normalized_eq [OF assms(1-3) this assms(6)] show ?thesis
      using True D by (simp add: ct_divide_def start)
  next
    case False
    define s where "s = ?L - ?D mod ?L"
    let ?sn = "ct_array (std_bit_width (nat ?N) + s) Unnormal [] :: 'a word bit_span"
      and ?sd = "ct_array (?D + s) Unnormal [] :: 'a word bit_span"
      and ?sr = "ct_array (bit_size r + s) Unnormal [] :: 'a word bit_span"
    let ?w = "Other (store ?sn (?N * 2 ^ s))"
    note n = shift_to_array [OF assms(3), of s] and d = shift_to_array [OF assms(4), of s]
    have "?D mod ?L < ?L" "?L * (?D div ?L) + ?D mod ?L = ?D" by simp_all
    then have "?D + s = ?L * (?D div ?L) + ?L" unfolding s_def by linarith
    then have "?D + s = ?L * (?D div ?L + 1)" by simp
    then have norm: "ct_normalized (store ?sd (?V * 2 ^ s)) (?D div ?L + 1)"
      using assms(5) d(2,3) by (simp add: ct_normalized_def std_bit_width_scale)
    have quot: "?N * 2 ^ s div (?V * 2 ^ s) = ?N div ?V" by simp
    have rest: "?N * 2 ^ s mod (?V * 2 ^ s) = ?N mod ?V * 2 ^ s" by simp
    have run: "ct_divide qt r v den = do {
        (quot, shifted_remainder) \<leftarrow> ct_divide_normalized qt ?sr ?w (store ?sd (?V * 2 ^ s));
        remainder \<leftarrow> ct_shift_right r (Other shifted_remainder) s;
        Some (quot, remainder) }"
      using False D by (simp add: ct_divide_def Let_def start n(1) d(1) flip: s_def)
    have shift_back: "ct_shift_right r (Other (store ?sr (?N mod ?V * 2 ^ s))) s = Some (store r (?N mod ?V))"
    proof (cases "bit_size r = 0")
      case True
      then show ?thesis using assms(2) by (intro ct_shift_right_null) (simp_all add: limb_size_def limb_size_for_def)
    next
      case False
      then have "?N mod ?V * 2 ^ s < 2 ^ bit_size ?sr" using assms(7) by (simp add: power_add)
      moreover have "0 \<le> ?N mod ?V * 2 ^ s" using assms(5) by simp
      ultimately show ?thesis
        using ct_shift_right_eq [OF assms(2), where v = "Other (store ?sr (?N mod ?V * 2 ^ s))" and s = s]
          ct_ok_store [of ?sr "?N mod ?V * 2 ^ s"] by simp
    qed
    have "ct_ok (load ?sr ?w)" "ct_int (load ?sr ?w) = ?N * 2 ^ s" using n by simp_all
    from ct_divide_normalized_eq [OF assms(1) ct_array_dest this(1) norm] this(2) assms(6) d(3)
    show ?thesis by (auto simp: run quot rest shift_back)
  qed
qed

lemma ct_divide_some:
  assumes "ct_dest qt" and "ct_dest r" and "ct_ok (load r v)" and "ct_ok den" and "0 < ct_int den"
    and "ct_int (load r v) div ct_int den < 2 ^ (LENGTH('a::len) * limb_size (qt :: 'a word bit_span))
      \<or> ct_int (load r v) < 2 ^ LENGTH('a) * ct_int den \<and> limb_size qt = 0"
    and "ct_int (load r v) mod ct_int den < 2 ^ bit_size r \<or> bit_size r = 0"
  shows "ct_divide qt r v den
    = Some (store qt (ct_int (load r v) div ct_int den), store r (ct_int (load r v) mod ct_int den))"
  using ct_divide_eq [OF assms(1-5) _ assms(7)] assms(6) by (meson linorder_not_less)

text \<open>C31: Long division (\<^verbatim>\<open>hmpc::core::num::divide\<close>) of normal unsigned spans by a span that is not zero
  terminates without a failed assertion and stores the quotient and the remainder of the integers,
  if the quotient span has the limbs the quotient needs (or none, and the quotient is a single limb) and the remainder span has the bits the
  remainder needs (or none, when the remainder is not wanted). It makes no difference whether the
  remainder is stored over the numerator.\<close>

theorem ct_divide_correct:
  assumes "ct_dest qt" and "ct_dest r" and "ct_ok (load r v)" and "ct_ok den" and "0 < ct_int den"
    and "ct_int (load r v) div ct_int den < 2 ^ (LENGTH('a::len) * limb_size (qt :: 'a word bit_span))
      \<or> ct_int (load r v) < 2 ^ LENGTH('a) * ct_int den \<and> limb_size qt = 0"
    and "ct_int (load r v) mod ct_int den < 2 ^ bit_size r \<or> bit_size r = 0"
  shows "ct_divide qt r v den
    = Some (store qt (ct_int (load r v) div ct_int den), store r (ct_int (load r v) mod ct_int den))"
  using ct_divide_some [OF assms] .

lemma ct_divide_correct_witness:
  "ct_divide (ct_array 24 Normal []) (ct_array 16 Normal []) (Other (sample [0x01, 0xFF, 0xFE])) (sample [0x03, 0x02])
    = Some (store (ct_array 24 Normal []) (0xFEFF01 div 0x0203), store (ct_array 16 Normal []) (0xFEFF01 mod 0x0203))"
  using ct_divide_correct [of "ct_array 24 Normal [] :: 8 word bit_span" "ct_array 16 Normal []"
      "Other (sample [0x01, 0xFF, 0xFE])" "sample [0x03, 0x02]"]
  by (simp add: limb_size_for_def div_ceil_def)

text \<open>When the leading limbs of the numerator already need the second quotient limb, the first step of the long division fails.\<close>

lemma ct_divide_normalized_null:
  fixes den :: "'a::len word bit_span"
  assumes "ct_dest qt" and "ct_dest r" and "ct_ok (load r v)" and "ct_normalized den d" and "limb_size qt = 0"
    and "2 ^ (LENGTH('a) * Suc k) * ct_int den \<le> ct_int (load r v)"
    and "ct_int (load r v) < 2 ^ (LENGTH('a) * (Suc d + k))"
  shows "ct_divide_normalized qt r v den = None"
proof -
  let ?L = "LENGTH('a)" and ?n = "load r v" and ?N = "ct_int (load r v)" and ?V = "ct_int den" and ?P = "2 ^ (LENGTH('a) * k) :: int"
  note den = ct_normalizedD [OF assms(4)]
  have N0: "0 \<le> ?N" using assms(3) by (simp add: ct_ok_def)
  have bits: "ct_bit_width ?n = Some (std_bit_width (nat ?N))" by (rule ct_bit_width_eq [OF assms(3)])
  note start = Let_def bits den(6) limb_size_for_mult limb_count_def [symmetric]
  have step: "2 ^ ?L * ?V * ?P \<le> ?N" using assms(6) by (simp add: power_add ac_simps)
  have "(2 :: int) * 2 ^ (?L * (d + k)) \<le> 2 ^ ?L * 2 ^ (?L * (d + k))"
    using power_increasing [of 1 ?L "2 :: int"] by (intro mult_right_mono) simp_all
  also have "\<dots> = 2 ^ ?L * 2 ^ (?L * d) * ?P" by (simp add: power_add distrib_left)
  also have "\<dots> \<le> 2 ^ ?L * (2 * ?V) * ?P" using den(4) by (intro mult_right_mono mult_left_mono) simp_all
  finally have "2 ^ (?L * (d + k)) \<le> ?N" using step by simp
  then have count: "limb_count TYPE('a) ?N = Suc d + k"
    using limb_count_le_iff [OF N0, of "d + k", where 'a = 'a] limb_count_le_iff [OF N0, of "Suc d + k", where 'a = 'a] assms(7)
    by linarith
  show ?thesis
  proof (cases "k = 0")
    case True
    have "ct_divide_normalized qt r v den = ct_divide_similar_sized qt r v den"
      using count True by (subst ct_divide_normalized.simps) (simp add: start)
    then show ?thesis
      using ct_divide_similar_sized_null [OF assms(1-4) _ _ assms(5)] assms(6,7) True by simp
  next
    case False
    let ?b = "ct_array (std_bit_width (nat ?N)) Unnormal [] :: 'a word bit_span"
    let ?hq = "ct_subspan qt k" and ?hr = "ct_subspan ?b k" and ?hn = "ct_subspan ?n k"
    note hn = ct_subspan_ok [OF assms(3), of k] and hq = ct_subspan_facts [OF assms(1), of k] and hb = ct_subspan_facts(1) [OF ct_array_dest]
    have "?N < ?P * 2 ^ (?L * Suc d)" using assms(7) by (simp add: power_add distrib_left ac_simps)
    then have H: "?N div ?P < 2 ^ (?L * Suc d)" by (rule int_div_less [rotated]) simp
    have "2 ^ ?L * ?V * ?P div ?P \<le> ?N div ?P" using step by (rule zdiv_mono1) simp
    then have "2 ^ ?L * ?V \<le> ?N div ?P" by simp
    then have "ct_divide_similar_sized ?hq ?hr (Other ?hn) den = None"
      using ct_divide_similar_sized_null [OF hq(1) hb _ assms(4), where v = "Other ?hn"] hn hq(2) H assms(5) by simp
    then show ?thesis
      using count False by (subst ct_divide_normalized.simps) (simp add: start del: One_nat_def)
  qed
qed

lemma ct_divide_null:
  fixes den :: "'a::len word bit_span"
  assumes "ct_dest qt" and "ct_dest r" and "ct_ok (load r v)" and "ct_ok den" and "0 < ct_int den" and "limb_size qt = 0"
    and "2 ^ (LENGTH('a) * Suc k) * ct_int den \<le> ct_int (load r v)"
    and "ct_int (load r v) < 2 ^ (LENGTH('a) * Suc k + std_bit_width (nat (ct_int den)))"
  shows "ct_divide qt r v den = None"
proof -
  let ?L = "LENGTH('a)" and ?n = "load r v" and ?N = "ct_int (load r v)" and ?V = "ct_int den"
  let ?D = "std_bit_width (nat ?V)"
  have D: "0 < ?D" using assms(5) by (simp add: zero_less_iff_neq_zero)
  have start: "ct_bit_width ?n = Some (std_bit_width (nat ?N))" "ct_bit_width den = Some ?D"
    by (rule ct_bit_width_eq [OF assms(3)], rule ct_bit_width_eq [OF assms(4)])
  show ?thesis
  proof (cases "?D mod ?L = 0")
    case True
    then obtain d where d: "?D = ?L * d" by (auto elim: dvdE simp: mod_eq_0_iff_dvd)
    then have "ct_normalized den d" using assms(4) D by (simp add: ct_normalized_def)
    moreover have "?N < 2 ^ (?L * (Suc d + k))" using assms(8) by (simp add: d distrib_left ac_simps)
    ultimately have "ct_divide_normalized qt r v den = None"
      using ct_divide_normalized_null [OF assms(1-3) _ assms(6,7)] by simp
    then show ?thesis using True D by (simp add: ct_divide_def start)
  next
    case False
    define s where "s = ?L - ?D mod ?L"
    let ?sn = "ct_array (std_bit_width (nat ?N) + s) Unnormal [] :: 'a word bit_span"
      and ?sd = "ct_array (?D + s) Unnormal [] :: 'a word bit_span"
      and ?sr = "ct_array (bit_size r + s) Unnormal [] :: 'a word bit_span"
    let ?w = "Other (store ?sn (?N * 2 ^ s))"
    note n = shift_to_array [OF assms(3), of s] and d = shift_to_array [OF assms(4), of s]
    have "?D mod ?L < ?L" "?L * (?D div ?L) + ?D mod ?L = ?D" by simp_all
    then have "?D + s = ?L * (?D div ?L) + ?L" unfolding s_def by linarith
    then have size: "?D + s = ?L * (?D div ?L + 1)" by simp
    then have norm: "ct_normalized (store ?sd (?V * 2 ^ s)) (?D div ?L + 1)"
      using assms(5) d(2,3) by (simp add: ct_normalized_def std_bit_width_scale)
    have run: "ct_divide qt r v den = do {
        (quot, shifted_remainder) \<leftarrow> ct_divide_normalized qt ?sr ?w (store ?sd (?V * 2 ^ s));
        remainder \<leftarrow> ct_shift_right r (Other shifted_remainder) s;
        Some (quot, remainder) }"
      using False D by (simp add: ct_divide_def Let_def start n(1) d(1) flip: s_def)
    have w: "ct_ok (load ?sr ?w)" "ct_int (load ?sr ?w) = ?N * 2 ^ s" using n by simp_all
    have "2 ^ (?L * Suc k) * ?V * 2 ^ s \<le> ?N * 2 ^ s" using assms(7) by (rule mult_right_mono) simp
    then have lo: "2 ^ (?L * Suc k) * ct_int (store ?sd (?V * 2 ^ s)) \<le> ct_int (load ?sr ?w)" unfolding w(2) d(3) by (simp only: mult.assoc)
    have "?N * 2 ^ s < 2 ^ (?L * Suc k + ?D) * 2 ^ s" using assms(8) by (rule mult_strict_right_mono) simp
    also have "\<dots> = 2 ^ (?L * Suc k + (?D + s))" by (simp add: power_add)
    also have "\<dots> = 2 ^ (?L * (Suc (?D div ?L + 1) + k))" unfolding size by (simp add: algebra_simps)
    finally have hi: "ct_int (load ?sr ?w) < 2 ^ (?L * (Suc (?D div ?L + 1) + k))" by (simp only: w(2))
    show ?thesis
      using ct_divide_normalized_null [OF assms(1) ct_array_dest w(1) norm assms(6) lo hi] by (simp add: run)
  qed
qed

text \<open>C40: Division into a quotient span without limbs, which is how \<^verbatim>\<open>operator%\<close> of the big integers
  calls \<^verbatim>\<open>divide\<close>, fails whenever its first step needs a second quotient limb: the code then reads and writes the first limb of the
  quotient, which is out of range. For every numerator and denominator whose quotient is at least \<open>2 ^ (L * j)\<close>, with limbs of \<open>L\<close> bits and some positive \<open>j\<close>, while the numerator has
  at most \<open>L * j\<close> bits more than the denominator, the compiler rejects the division. A numerator with at most one limb more than the denominator is
  rejected exactly if the quotient does not fit into a limb.\<close>

theorem ct_divide_null_quotient_fails:
  fixes den :: "'a::len word bit_span"
  assumes "ct_dest qt" and "limb_size qt = 0" and "ct_dest r" and "ct_ok (load r v)" and "ct_ok den" and "0 < ct_int den"
    and "ct_int (load r v) mod ct_int den < 2 ^ bit_size r \<or> bit_size r = 0"
  shows "(0 < j \<and> 2 ^ (LENGTH('a) * j) * ct_int den \<le> ct_int (load r v)
        \<and> ct_int (load r v) < 2 ^ (LENGTH('a) * j + std_bit_width (nat (ct_int den)))
        \<longrightarrow> ct_divide qt r v den = None)
    \<and> (ct_int (load r v) < 2 ^ (LENGTH('a) + std_bit_width (nat (ct_int den)))
        \<longrightarrow> (ct_divide qt r v den = None \<longleftrightarrow> 2 ^ LENGTH('a) \<le> ct_int (load r v) div ct_int den))"
proof -
  have null: "0 < i \<Longrightarrow> 2 ^ (LENGTH('a) * i) * ct_int den \<le> ct_int (load r v)
      \<Longrightarrow> ct_int (load r v) < 2 ^ (LENGTH('a) * i + std_bit_width (nat (ct_int den))) \<Longrightarrow> ct_divide qt r v den = None" for i
    using ct_divide_null [OF assms(1,3-6,2), of "i - 1"] by simp
  have fit: "2 ^ LENGTH('a) \<le> ct_int (load r v) div ct_int den \<longleftrightarrow> 2 ^ LENGTH('a) * ct_int den \<le> ct_int (load r v)"
  proof
    assume "2 ^ LENGTH('a) \<le> ct_int (load r v) div ct_int den"
    then have "2 ^ LENGTH('a) * ct_int den \<le> ct_int (load r v) div ct_int den * ct_int den" using assms(6) by (intro mult_right_mono) simp_all
    also have "\<dots> \<le> ct_int (load r v)" using times_div_le_int [OF assms(6), of "ct_int (load r v)"] by (simp only: mult.commute)
    finally show "2 ^ LENGTH('a) * ct_int den \<le> ct_int (load r v)" .
  next
    assume "2 ^ LENGTH('a) * ct_int den \<le> ct_int (load r v)"
    from zdiv_mono1 [OF this assms(6)] show "2 ^ LENGTH('a) \<le> ct_int (load r v) div ct_int den" using assms(6) by simp
  qed
  have "ct_divide qt r v den = None \<Longrightarrow> 2 ^ LENGTH('a) * ct_int den \<le> ct_int (load r v)"
    using ct_divide_some [OF assms(1,3-6) _ assms(7)] assms(2) by (cases "ct_int (load r v) < 2 ^ LENGTH('a) * ct_int den") simp_all
  then show ?thesis using null null [of 1] by (auto simp: fit)
qed

lemma ct_divide_null_quotient_fails_witness:
  "ct_divide nullspan (ct_array 8 Normal []) (Other (sample [0xFF, 0xFF])) (sample [0x81]) = None"
proof -
  have "limb_size (nullspan :: 8 word bit_span) = 0" by (simp add: nullspan_def bit_array_def limb_size_def limb_size_for_def)
  then show ?thesis
    using ct_divide_null_quotient_fails [of nullspan "ct_array 8 Normal [] :: 8 word bit_span"
        "Other (sample [0xFF, 0xFF])" "sample [0x81]" 1] ct_ok_dest [OF ct_nullspan(1)]
    by (simp add: std_bit_width.simps)
qed

end
