(* ===== verification/Ct_Gcd.thy ===== *)
theory Ct_Gcd
  imports Ct_Divide
begin

text \<open>
  \<^verbatim>\<open>core/num/greatest_common_divisor.hpp\<close>: the binary algorithm for the greatest common divisor and the
  extended Euclidean algorithm on compile-time spans, with unsigned arithmetic only. Two storages that
  the code swaps are two components of the state that change places.

  Each loop body is shown to refine the same step on integers (\<open>conc\<close> is the concretisation); the invariants
  are stated on integers, and each loop is shown to return.
\<close>

section \<open>Definitions\<close>

subsection \<open>The binary algorithm\<close>

definition ct_gcd_step :: "'a::len word bit_span \<times> 'a word bit_span \<Rightarrow> ('a word bit_span \<times> 'a word bit_span) option" where
  "ct_gcd_step = (\<lambda>(u, v). do {
     smaller \<leftarrow> ct_less u v;
     let (u, v) = (if bool_cast smaller then (v, u) else (u, v));
     (u, _) \<leftarrow> ct_subtract u Own (Other v) 0;
     zeros \<leftarrow> ct_countr_zero u;
     u \<leftarrow> ct_shift_right u Own zeros;
     Some (u, v) })"

partial_function (option) ct_gcd_loop ::
    "'a::len word bit_span \<times> 'a word bit_span \<Rightarrow> ('a word bit_span \<times> 'a word bit_span) option" where
  "ct_gcd_loop uv = do {
     different \<leftarrow> ct_not_equal_to (fst uv) (snd uv);
     if bool_cast different then do { uv \<leftarrow> ct_gcd_step uv; ct_gcd_loop uv } else Some uv }"

definition ct_greatest_common_divisor ::
    "'a::len word bit_span \<Rightarrow> 'a word bit_span \<Rightarrow> 'a word bit_span \<Rightarrow> 'a word bit_span option" where
  "ct_greatest_common_divisor result left right = do {
     left_zero \<leftarrow> ct_equal_to left nullspan;
     if bool_cast left_zero then ct_bit_copy result (Other right)
     else do {
       right_zero \<leftarrow> ct_equal_to right nullspan;
       if bool_cast right_zero then ct_bit_copy result (Other left)
       else do {
         let width = max (bit_size left) (bit_size right);
         let u = ct_array width Normal [];
         let v = ct_array width Normal [];
         left_power_of_two \<leftarrow> ct_countr_zero left;
         right_power_of_two \<leftarrow> ct_countr_zero right;
         let common_power_of_two = min left_power_of_two right_power_of_two;
         u \<leftarrow> ct_shift_right u (Other left) left_power_of_two;
         v \<leftarrow> ct_shift_right v (Other right) right_power_of_two;
         (u, v) \<leftarrow> ct_gcd_loop (u, v);
         ct_shift_left result u common_power_of_two } } }"

subsection \<open>The extended Euclidean algorithm\<close>

record 'n euclid =
  e_old_r :: 'n
  e_r :: 'n
  e_old_s :: 'n
  e_s :: 'n
  e_old_t :: 'n
  e_t :: 'n
  e_q :: 'n
  e_tmp :: 'n
  e_iteration :: hbit

definition ct_euclid_step :: "'a::len word bit_span euclid \<Rightarrow> 'a word bit_span euclid option" where
  "ct_euclid_step e = do {
     (q, remainder) \<leftarrow> ct_divide (e_q e) (e_old_r e) Own (e_r e);
     tmp \<leftarrow> ct_multiply (e_tmp e) q (e_s e);
     (next_s, _) \<leftarrow> ct_add (e_old_s e) Own (Other tmp) 0;
     tmp \<leftarrow> ct_multiply tmp q (e_t e);
     (next_t, _) \<leftarrow> ct_add (e_old_t e) Own (Other tmp) 0;
     Some \<lparr>e_old_r = e_r e, e_r = remainder, e_old_s = e_s e, e_s = next_s, e_old_t = e_t e, e_t = next_t,
       e_q = q, e_tmp = tmp, e_iteration = of_bool (ubool_not (bool_cast (e_iteration e)))\<rparr> }"

partial_function (option) ct_euclid_loop :: "'a::len word bit_span euclid \<Rightarrow> 'a word bit_span euclid option" where
  "ct_euclid_loop e = do {
     nonzero \<leftarrow> ct_not_equal_to (e_r e) nullspan;
     if bool_cast nonzero then do { e \<leftarrow> ct_euclid_step e; ct_euclid_loop e } else Some e }"

definition ct_extended_euclidean ::
    "'a::len word bit_span \<Rightarrow> 'a word bit_span \<Rightarrow> 'a word bit_span \<Rightarrow> 'a word bit_span \<Rightarrow> 'a word bit_span
     \<Rightarrow> ('a word bit_span \<times> 'a word bit_span \<times> 'a word bit_span) option" where
  "ct_extended_euclidean result left_result right_result left right = do {
     let width = max (bit_size left) (bit_size right);
     let storage = ct_array width Unnormal;
     old_r \<leftarrow> ct_bit_copy (storage []) (Other left);
     r \<leftarrow> ct_bit_copy (storage []) (Other right);
     e \<leftarrow> ct_euclid_loop \<lparr>e_old_r = old_r, e_r = r, e_old_s = storage [1], e_s = storage [],
       e_old_t = storage [], e_t = storage [1], e_q = storage [], e_tmp = storage [], e_iteration = 0\<rparr>;
     e \<leftarrow> (if bool_cast (e_iteration e)
       then do { (old_s, _) \<leftarrow> ct_subtract (e_old_s e) (Other right) Own 0; Some (e\<lparr>e_old_s := old_s\<rparr>) }
       else do { (old_t, _) \<leftarrow> ct_subtract (e_old_t e) (Other left) Own 0; Some (e\<lparr>e_old_t := old_t\<rparr>) });
     result \<leftarrow> ct_bit_copy result (Other (e_old_r e));
     left_result \<leftarrow> ct_bit_copy left_result (Other (e_old_s e));
     right_result \<leftarrow> ct_bit_copy right_result (Other (e_old_t e));
     Some (result, left_result, right_result) }"

section \<open>Spans that hold integers\<close>

definition num_span :: "normalization \<Rightarrow> nat \<Rightarrow> int \<Rightarrow> 'a::len word bit_span" where
  "num_span nrm w x = store (ct_array w nrm []) x"

lemma num_span_shape [simp]:
  "ct_dest (num_span nrm w x)" "bit_size (num_span nrm w x) = w"
  "limb_size (num_span nrm w x :: 'a::len word bit_span) = limb_size_for TYPE('a) w"
  "store (num_span nrm w x :: 'a word bit_span) y = num_span nrm w y"
  by (simp_all add: num_span_def)

lemma num_span_ok:
  assumes "0 \<le> x" and "x < 2 ^ w"
  shows "ct_ok (num_span nrm w x :: 'a::len word bit_span)" and "ct_int (num_span nrm w x :: 'a word bit_span) = x"
  using ct_ok_store [of "ct_array w nrm [] :: 'a word bit_span" x] assms by (simp_all add: num_span_def)

lemma ct_array_num_span:
  "ct_array w nrm [] = (num_span nrm w 0 :: 'a::len word bit_span)"
  "0 < w \<Longrightarrow> ct_array w nrm [1] = (num_span nrm w 1 :: 'a word bit_span)"
proof -
  show "ct_array w nrm [] = (num_span nrm w 0 :: 'a word bit_span)"
    using store_same [of "ct_array w nrm [] :: 'a word bit_span"] by (simp add: num_span_def)
next
  assume w: "0 < w"
  let ?b = "ct_array w nrm [1] :: 'a word bit_span" and ?n = "limb_size_for TYPE('a) w"
  have z: "limbs_int (replicate n (0 :: 'a word)) = 0" for n by (induction n) simp_all
  have n: "0 < ?n" using w by (simp add: limb_size_for_def div_ceil_pos_iff)
  then have i: "ct_int ?b = 1"
    by (simp add: ct_int_def ct_array_def Let_def bit_array_def z)
  have "ct_dest ?b" using n
    by (simp add: ct_dest_def is_unsigned_def) (simp add: ct_array_def Let_def bit_array_def)
  then have ok: "ct_ok ?b" using w by (simp add: ct_ok_def i)
  have "?b = (ct_array w nrm [])\<lparr>data := data ?b\<rparr>" by (simp add: ct_array_def Let_def bit_array_def)
  then have "store ?b 1 = num_span nrm w 1" by (metis num_span_def store_data)
  then show "?b = num_span nrm w 1" using store_same [OF ok] by (simp add: i)
qed

lemma limb_size_for_bits: "w \<le> LENGTH('a::len) * limb_size_for TYPE('a) w"
  by (simp add: limb_size_for_def div_ceil_le_mult)

section \<open>The extended Euclidean algorithm\<close>

text \<open>The same step on integers, and the state of spans that holds a state of integers.\<close>

definition euclid_step :: "int euclid \<Rightarrow> int euclid" where
  "euclid_step e = (let q = e_old_r e div e_r e
     in \<lparr>e_old_r = e_r e, e_r = e_old_r e mod e_r e, e_old_s = e_s e, e_s = e_old_s e + q * e_s e,
         e_old_t = e_t e, e_t = e_old_t e + q * e_t e, e_q = q, e_tmp = q * e_t e,
         e_iteration = of_bool (ubool_not (bool_cast (e_iteration e)))\<rparr>)"

definition conc :: "nat \<Rightarrow> int euclid \<Rightarrow> 'a::len word bit_span euclid" where
  "conc w e = \<lparr>e_old_r = num_span Unnormal w (e_old_r e), e_r = num_span Unnormal w (e_r e),
     e_old_s = num_span Unnormal w (e_old_s e), e_s = num_span Unnormal w (e_s e),
     e_old_t = num_span Unnormal w (e_old_t e), e_t = num_span Unnormal w (e_t e),
     e_q = num_span Unnormal w (e_q e), e_tmp = num_span Unnormal w (e_tmp e), e_iteration = e_iteration e\<rparr>"

text \<open>The invariant: the linear combinations with the sign of the iteration, and the two identities that bound
  the coefficients. They are what makes unsigned arithmetic enough.\<close>

definition euclid_sign :: "int euclid \<Rightarrow> int" where
  "euclid_sign e = (if bool_cast (e_iteration e) then -1 else 1)"

definition euclid_inv :: "int \<Rightarrow> int \<Rightarrow> int euclid \<Rightarrow> bool" where
  "euclid_inv x y e \<longleftrightarrow>
     0 \<le> e_old_r e \<and> 0 \<le> e_r e \<and> 0 \<le> e_old_s e \<and> 0 \<le> e_s e \<and> 0 \<le> e_old_t e \<and> 0 \<le> e_t e
     \<and> e_old_r e \<le> max x y \<and> e_r e \<le> max x y
     \<and> gcd (e_old_r e) (e_r e) = gcd x y
     \<and> e_old_s e * e_r e + e_s e * e_old_r e = y \<and> e_old_t e * e_r e + e_t e * e_old_r e = x
     \<and> x * e_old_s e - y * e_old_t e = euclid_sign e * e_old_r e
     \<and> x * e_s e - y * e_t e = - euclid_sign e * e_r e
     \<and> e_s e \<le> y
     \<and> (if bool_cast (e_iteration e) then e_old_s e \<le> y \<and> e_t e \<le> x \<and> e_old_t e \<le> max 1 x
        else e_old_t e \<le> x \<and> e_old_s e \<le> max 1 y \<and> e_t e \<le> max 1 x)"

lemma euclid_invD:
  assumes "euclid_inv x y e"
  shows "0 \<le> e_old_r e" "0 \<le> e_r e" "0 \<le> e_old_s e" "0 \<le> e_s e" "0 \<le> e_old_t e" "0 \<le> e_t e"
    and "e_old_r e \<le> max x y" "e_r e \<le> max x y" "e_s e \<le> max 1 y" "e_t e \<le> max 1 x"
    and "e_old_s e \<le> max 1 y" "e_old_t e \<le> max 1 x"
    and "e_old_s e * e_r e + e_s e * e_old_r e = y" "e_old_t e * e_r e + e_t e * e_old_r e = x"
  using assms by (auto simp: euclid_inv_def split: if_splits)

lemma euclid_step_sel [simp]:
  "e_old_r (euclid_step e) = e_r e" "e_r (euclid_step e) = e_old_r e mod e_r e"
  "e_old_s (euclid_step e) = e_s e" "e_s (euclid_step e) = e_old_s e + e_old_r e div e_r e * e_s e"
  "e_old_t (euclid_step e) = e_t e" "e_t (euclid_step e) = e_old_t e + e_old_r e div e_r e * e_t e"
  "e_iteration (euclid_step e) = of_bool (ubool_not (bool_cast (e_iteration e)))"
  by (simp_all add: euclid_step_def Let_def)

lemma quotient_coefficient:
  fixes a b c d y :: int
  assumes "0 < b" and "0 \<le> a" and "0 \<le> c" and "0 \<le> d" and "c * b + d * a = y"
  shows "(c + a div b * d) * b + d * (a mod b) = y" and "0 \<le> c + a div b * d" and "c + a div b * d \<le> y"
    and "a div b * d \<le> y" and "0 \<le> a div b * d"
proof -
  have "(c + q * d) * b + d * r = c * b + d * (q * b + r)" for q r by (simp add: algebra_simps)
  from this [of "a div b" "a mod b"] show eq: "(c + a div b * d) * b + d * (a mod b) = y" using assms(5) by simp
  show q: "0 \<le> a div b * d" using assms by (simp add: pos_imp_zdiv_nonneg_iff)
  then show n: "0 \<le> c + a div b * d" using assms(3) by simp
  have "c + a div b * d \<le> (c + a div b * d) * b" using n assms(1) by (simp add: mult_le_cancel_left1)
  also have "\<dots> \<le> y" using eq assms(1,4) by (metis add_le_same_cancel1 le_add_same_cancel1 mult_nonneg_nonneg pos_mod_sign)
  finally show "c + a div b * d \<le> y" .
  then show "a div b * d \<le> y" using assms(3) by simp
qed

lemma euclid_step_inv:
  assumes "euclid_inv x y e" and "e_r e \<noteq> 0"
  shows "euclid_inv x y (euclid_step e)" and "0 \<le> e_r (euclid_step e)" and "e_r (euclid_step e) < e_r e"
proof -
  note D = euclid_invD [OF assms(1)]
  have b: "0 < e_r e" using D(2) assms(2) by simp
  note s = quotient_coefficient [OF b D(1) D(3) D(4) D(13)] and t = quotient_coefficient [OF b D(1) D(5) D(6) D(14)]
  show "0 \<le> e_r (euclid_step e)" "e_r (euclid_step e) < e_r e" using b by (simp_all add: euclid_step_def Let_def)
  have le: "e_old_r e mod e_r e \<le> max x y"
    using pos_mod_bound [OF b, of "e_old_r e"] D(8) by linarith
  have alg: "g * a + q * (- g * b) = g * (a - q * b)" for g a q b :: int by (simp add: algebra_simps)
  have comb: "x * (e_old_s e + e_old_r e div e_r e * e_s e) - y * (e_old_t e + e_old_r e div e_r e * e_t e)
      = euclid_sign e * (e_old_r e mod e_r e)"
  proof -
    have "x * (e_old_s e + e_old_r e div e_r e * e_s e) - y * (e_old_t e + e_old_r e div e_r e * e_t e)
      = (x * e_old_s e - y * e_old_t e) + e_old_r e div e_r e * (x * e_s e - y * e_t e)" by (simp add: algebra_simps)
    also have "\<dots> = euclid_sign e * e_old_r e + e_old_r e div e_r e * (- euclid_sign e * e_r e)"
      using assms(1) by (simp only: euclid_inv_def)
    also have "\<dots> = euclid_sign e * (e_old_r e - e_old_r e div e_r e * e_r e)"
      by (rule alg)
    also have "\<dots> = euclid_sign e * (e_old_r e mod e_r e)" by (simp add: minus_div_mult_eq_mod)
    finally show ?thesis .
  qed
  have sg: "euclid_sign (euclid_step e) = - euclid_sign e"
    by (simp add: euclid_sign_def ubool_not_def)
  have g: "gcd (e_r e) (e_old_r e mod e_r e) = gcd x y"
    using assms(1) by (simp add: euclid_inv_def gcd.commute flip: gcd_red_int)
  have eqs: "e_s e * (e_old_r e mod e_r e) + (e_old_s e + e_old_r e div e_r e * e_s e) * e_r e = y"
    "e_t e * (e_old_r e mod e_r e) + (e_old_t e + e_old_r e div e_r e * e_t e) * e_r e = x"
    using s(1) t(1) by (simp_all only: add.commute)
  have old: "x * e_s e - y * e_t e = - euclid_sign e * e_r e" "e_s e \<le> y" "bool_cast (e_iteration e) \<Longrightarrow> e_t e \<le> x"
    using assms(1) by (simp_all add: euclid_inv_def)
  show "euclid_inv x y (euclid_step e)"
    unfolding euclid_inv_def sg euclid_step_sel minus_minus eqs comb old(1) g
    using D(2,4,6,8-10) b le s(2,3) t(2,3) old(2,3) by (simp add: ubool_not_def le_max_iff_disj)
qed

text \<open>The loop body on spans is the step on integers: nothing overflows the storages.\<close>

lemma ct_euclid_step_refines:
  assumes inv: "euclid_inv x y e" and r: "e_r e \<noteq> 0" and w: "0 < w" "x < 2 ^ w" "y < 2 ^ w"
  shows "ct_euclid_step (conc w e :: 'a::len word bit_span euclid) = Some (conc w (euclid_step e))"
proof -
  note D = euclid_invD [OF inv]
  have b: "0 < e_r e" using D(2) r by simp
  note s = quotient_coefficient [OF b D(1) D(3) D(4) D(13)] and t = quotient_coefficient [OF b D(1) D(5) D(6) D(14)]
  let ?S = "num_span Unnormal w :: int \<Rightarrow> 'a word bit_span" and ?q = "e_old_r e div e_r e"
  have one: "1 < (2 :: int) ^ w" using w(1) by simp
  have bound: "e_old_r e < 2 ^ w" "e_r e < 2 ^ w" "e_s e < 2 ^ w" "e_t e < 2 ^ w" "e_old_s e < 2 ^ w" "e_old_t e < 2 ^ w"
    using D(7-12) w(2,3) one by linarith+
  have q0: "0 \<le> ?q" using b D(1) by (simp add: pos_imp_zdiv_nonneg_iff)
  have qw: "?q < 2 ^ w" using zdiv_mono2 [of "e_old_r e" 1 "e_r e"] b D(1) bound(1) by simp
  have qs: "?q * e_s e < 2 ^ w" "?q * e_t e < 2 ^ w" using s(4) t(4) w(2,3) by linarith+
  note ok = num_span_ok [where nrm = Unnormal and w = w and 'a = 'a]
  have wl: "(2 :: int) ^ w \<le> 2 ^ (LENGTH('a) * limb_size_for TYPE('a) w)"
    using limb_size_for_bits [of w, where 'a = 'a] by (rule power_increasing) simp
  have "e_old_r e mod e_r e < 2 ^ w" using pos_mod_bound [OF b, of "e_old_r e"] bound(2) by linarith
  then have div: "ct_divide (?S (e_q e)) (?S (e_old_r e)) Own (?S (e_r e)) = Some (?S ?q, ?S (e_old_r e mod e_r e))"
    using ct_divide_some [of "?S (e_q e)" "?S (e_old_r e)" Own "?S (e_r e)"] b D(1) bound(1,2) qw wl
    by (simp add: ok)
  have mul: "ct_multiply (?S z) (?S ?q) (?S (e_s e)) = Some (?S (?q * e_s e))"
    "ct_multiply (?S z) (?S ?q) (?S (e_t e)) = Some (?S (?q * e_t e))" for z
    using ct_multiply_eq [of "?S z" "?S ?q" "?S (e_s e)"] ct_multiply_eq [of "?S z" "?S ?q" "?S (e_t e)"]
      q0 qw D(4,6) bound(3,4) by (simp_all add: ok)
  obtain c1 where add1: "ct_add (?S (e_old_s e)) Own (Other (?S (?q * e_s e))) 0 = Some (?S (e_old_s e + ?q * e_s e), c1)"
    using ct_add_eq [of "?S (e_old_s e)" Own "Other (?S (?q * e_s e))" 0] D(3) bound(5) s(5) qs(1) by (auto simp: ok)
  obtain c2 where add2: "ct_add (?S (e_old_t e)) Own (Other (?S (?q * e_t e))) 0 = Some (?S (e_old_t e + ?q * e_t e), c2)"
    using ct_add_eq [of "?S (e_old_t e)" Own "Other (?S (?q * e_t e))" 0] D(5) bound(6) t(5) qs(2) by (auto simp: ok)
  show ?thesis
    by (simp add: ct_euclid_step_def conc_def euclid_step_def Let_def div mul add1 add2)
qed

lemma ct_euclid_loop_ends:
  assumes "euclid_inv x y e" and w: "0 < w" "x < 2 ^ w" "y < 2 ^ w"
  shows "\<exists>e'. ct_euclid_loop (conc w e :: 'a::len word bit_span euclid) = Some (conc w e') \<and> euclid_inv x y e' \<and> e_r e' = 0"
  using assms(1)
proof (induction "nat (e_r e)" arbitrary: e rule: less_induct)
  case less
  note D = euclid_invD [OF less.prems]
  have one: "1 < (2 :: int) ^ w" using w(1) by simp
  have "e_r e < 2 ^ w" using D(8) w(2,3) by linarith
  note ok = num_span_ok [OF D(2) this, where nrm = Unnormal and 'a = 'a]
  have test: "ct_not_equal_to (e_r (conc w e :: 'a word bit_span euclid)) nullspan = Some (of_bool (e_r e \<noteq> 0))"
    using ct_equality_eq(2) [OF ok(1) ct_nullspan(1)] by (simp add: conc_def ok)
  show ?case
  proof (cases "e_r e = 0")
    case True
    then show ?thesis using less.prems test by (subst ct_euclid_loop.simps) auto
  next
    case False
    note step = euclid_step_inv [OF less.prems False]
    have "nat (e_r (euclid_step e)) < nat (e_r e)" using step(2,3) by simp
    from less.hyps [OF this step(1)] show ?thesis
      using False test ct_euclid_step_refines [OF less.prems False w, where 'a = 'a]
      by (subst ct_euclid_loop.simps) auto
  qed
qed

text \<open>What the last subtraction makes of the coefficients.\<close>

lemma euclid_end:
  assumes "euclid_inv x y e" and "e_r e = 0" and "0 \<le> x" and "0 \<le> y"
  defines "s \<equiv> (if bool_cast (e_iteration e) then y - e_old_s e else e_old_s e)"
    and "t \<equiv> (if bool_cast (e_iteration e) then e_old_t e else x - e_old_t e)"
  shows "e_old_r e = gcd x y" and "0 \<le> s" and "s \<le> max 1 y" and "0 \<le> t" and "t \<le> max 1 x"
    and "y dvd x * s - gcd x y" and "x dvd y * t - gcd x y"
proof -
  note D = euclid_invD [OF assms(1)]
  have "gcd (e_old_r e) (e_r e) = gcd x y" using assms(1) by (simp only: euclid_inv_def)
  then show g: "e_old_r e = gcd x y" using D(1) assms(2) by simp
  have comb: "x * e_old_s e - y * e_old_t e = euclid_sign e * gcd x y"
    using assms(1) by (simp add: euclid_inv_def flip: g)
  show "0 \<le> s" "s \<le> max 1 y" "0 \<le> t" "t \<le> max 1 x"
    using assms(1,3,4) by (auto simp: s_def t_def euclid_inv_def)
  show "y dvd x * s - gcd x y"
  proof (cases "bool_cast (e_iteration e)")
    case True
    then have "x * s - gcd x y = y * (x - e_old_t e)" using comb by (simp add: s_def euclid_sign_def algebra_simps)
    then show ?thesis by simp
  next
    case False
    then have "x * s - gcd x y = y * e_old_t e" using comb by (simp add: s_def euclid_sign_def algebra_simps)
    then show ?thesis by simp
  qed
  show "x dvd y * t - gcd x y"
  proof (cases "bool_cast (e_iteration e)")
    case True
    then have "y * t - gcd x y = x * e_old_s e" using comb by (simp add: t_def euclid_sign_def algebra_simps)
    then show ?thesis by simp
  next
    case False
    then have "y * t - gcd x y = x * (y - e_old_s e)" using comb by (simp add: t_def euclid_sign_def algebra_simps)
    then show ?thesis by simp
  qed
qed

lemma ct_int_zero_size: "ct_ok b \<Longrightarrow> bit_size b = 0 \<Longrightarrow> ct_int b = 0"
  using ct_int_nonneg [of b] unfolding ct_ok_def by (simp del: ct_int_nonneg)

lemma num_span_0: "ct_array 0 nrm xs = num_span nrm 0 x"
  by (simp add: num_span_def store_def span_written_def ct_array_def Let_def bit_array_def limb_size_def limb_size_for_def)

definition bezout_result :: "'a::len word bit_span \<Rightarrow> 'a word bit_span \<Rightarrow> 'a word bit_span \<Rightarrow> int \<Rightarrow> int
    \<Rightarrow> ('a word bit_span \<times> 'a word bit_span \<times> 'a word bit_span) option \<Rightarrow> int \<Rightarrow> int \<Rightarrow> bool" where
  "bezout_result result left_result right_result x y r s t \<longleftrightarrow>
     r = Some (store result (gcd x y), store left_result s, store right_result t)
     \<and> 0 \<le> s \<and> s \<le> max 1 y \<and> y dvd x * s - gcd x y
     \<and> 0 \<le> t \<and> t \<le> max 1 x \<and> x dvd y * t - gcd x y"

lemma ct_extended_euclidean_eq:
  fixes left right :: "'a::len word bit_span"
  assumes dest: "ct_dest result" "ct_dest left_result" "ct_dest right_result" and ok: "ct_ok left" "ct_ok right"
  shows "\<exists>s t. bezout_result result left_result right_result (ct_int left) (ct_int right)
    (ct_extended_euclidean result left_result right_result left right) s t"
proof (cases "max (bit_size left) (bit_size right) = 0")
  case True
  then have zero: "ct_int left = 0" "ct_int right = 0" using ok by (simp_all add: ct_int_zero_size)
  let ?z = "num_span Unnormal 0 0 :: 'a word bit_span"
  have z: "ct_ok ?z" "ct_int ?z = 0" by (simp_all add: num_span_ok)
  have a: "ct_array 0 Unnormal xs = ?z" for xs by (rule num_span_0)
  have copy: "ct_bit_copy r (Other ?z) = Some (store r 0)" if "ct_dest r" for r
    using ct_bit_copy_eq [of r "Other ?z"] that z by simp
  have copy0: "ct_bit_copy ?z (Other b) = Some ?z" if "ct_ok b" for b
    using ct_bit_copy_eq [of ?z "Other b"] that num_span_0 [of Unnormal "[]"] by (metis load.simps(1) num_span_shape(1,4))
  obtain c where sub: "ct_subtract ?z (Other left) Own 0 = Some (?z, c)"
    using ct_subtract_eq [of ?z "Other left" Own 0] ok z zero by auto
  have loop: "ct_euclid_loop e = Some e" if "e_r e = ?z" for e :: "'a word bit_span euclid"
    using ct_equality_eq(2) [OF z(1) ct_nullspan(1)] z that by (subst ct_euclid_loop.simps) simp
  have "ct_extended_euclidean result left_result right_result left right
      = Some (store result 0, store left_result 0, store right_result 0)"
    using True by (simp add: ct_extended_euclidean_def Let_def a copy0 ok loop sub copy dest)
  then show ?thesis using zero by (auto simp: bezout_result_def intro!: exI [of _ 0])
next
  case False
  define w where "w = max (bit_size left) (bit_size right)"
  let ?x = "ct_int left" and ?y = "ct_int right" and ?S = "num_span Unnormal w :: int \<Rightarrow> 'a word bit_span"
  have w: "0 < w" using False unfolding w_def by linarith
  have "(2 :: int) ^ bit_size left \<le> 2 ^ w" "(2 :: int) ^ bit_size right \<le> 2 ^ w"
    by (rule power_increasing; simp add: w_def)+
  then have xy: "?x < 2 ^ w" "?y < 2 ^ w" using ok unfolding ct_ok_def by linarith+
  define e0 where "e0 = \<lparr>e_old_r = ?x, e_r = ?y, e_old_s = 1, e_s = 0, e_old_t = 0, e_t = 1, e_q = 0, e_tmp = 0, e_iteration = 0\<rparr>"
  have inv: "euclid_inv ?x ?y e0" by (simp add: euclid_inv_def e0_def euclid_sign_def bool_cast_def)
  obtain e where e: "ct_euclid_loop (conc w e0 :: 'a word bit_span euclid) = Some (conc w e)"
      "euclid_inv ?x ?y e" "e_r e = 0"
    using ct_euclid_loop_ends [OF inv w xy] by blast
  note D = euclid_invD [OF e(2)]
  have one: "1 < (2 :: int) ^ w" using w by simp
  have bound: "e_old_r e < 2 ^ w" "e_old_s e < 2 ^ w" "e_old_t e < 2 ^ w" using D(7,11,12) xy one by linarith+
  note num = num_span_ok [where nrm = Unnormal and w = w and 'a = 'a]
  define s where "s = (if bool_cast (e_iteration e) then ?y - e_old_s e else e_old_s e)"
  define t where "t = (if bool_cast (e_iteration e) then e_old_t e else ?x - e_old_t e)"
  note fin = euclid_end [OF e(2,3) ct_int_nonneg ct_int_nonneg, folded s_def t_def]
  obtain c1 c2 where sub: "ct_subtract (?S (e_old_s e)) (Other right) Own 0 = Some (?S (?y - e_old_s e), c1)"
      "ct_subtract (?S (e_old_t e)) (Other left) Own 0 = Some (?S (?x - e_old_t e), c2)"
    using ct_subtract_eq [of "?S (e_old_s e)" "Other right" Own 0] ct_subtract_eq [of "?S (e_old_t e)" "Other left" Own 0]
      D(3,5) bound ok by (auto simp: num)
  have init: "ct_bit_copy (ct_array w Unnormal []) (Other left) = Some (?S ?x)"
    "ct_bit_copy (ct_array w Unnormal []) (Other right) = Some (?S ?y)"
    using ct_bit_copy_eq [of "ct_array w Unnormal []" "Other left"] ct_bit_copy_eq [of "ct_array w Unnormal []" "Other right"]
      ok by (simp_all add: num_span_def)
  have c: "\<lparr>e_old_r = ?S ?x, e_r = ?S ?y, e_old_s = ?S 1, e_s = ?S 0, e_old_t = ?S 0, e_t = ?S 1, e_q = ?S 0, e_tmp = ?S 0,
      e_iteration = 0\<rparr> = conc w e0"
    by (simp add: conc_def e0_def)
  have "s < 2 ^ w" "t < 2 ^ w" using fin(3,5) xy one by linarith+
  then have copy: "ct_bit_copy result (Other (?S (e_old_r e))) = Some (store result (e_old_r e))"
    "ct_bit_copy left_result (Other (?S s)) = Some (store left_result s)"
    "ct_bit_copy right_result (Other (?S t)) = Some (store right_result t)"
    using ct_bit_copy_eq [of result "Other (?S (e_old_r e))"] ct_bit_copy_eq [of left_result "Other (?S s)"]
      ct_bit_copy_eq [of right_result "Other (?S t)"] dest D(1) bound(1) fin(2,4) by (simp_all add: num)
  have "ct_extended_euclidean result left_result right_result left right
      = Some (store result (e_old_r e), store left_result s, store right_result t)"
    using init copy w
    by (cases "bool_cast (e_iteration e)")
      (simp_all add: ct_extended_euclidean_def Let_def c e(1) sub ct_array_num_span s_def t_def conc_def [of w e] flip: w_def)
  then show ?thesis using fin by (auto simp: bezout_result_def)
qed

section \<open>The binary algorithm\<close>

lemma odd_part:
  fixes x :: int
  assumes "\<forall>j<k. \<not> bit x j" and "bit x k"
  shows "x = 2 ^ k * (x div 2 ^ k)" and "odd (x div 2 ^ k)"
proof -
  have "take_bit k x = 0" using assms(1) by (auto simp: bit_eq_iff bit_take_bit_iff)
  then have "2 ^ k dvd x" by (simp add: take_bit_eq_mod dvd_eq_mod_eq_0)
  then show "x = 2 ^ k * (x div 2 ^ k)" by simp
  show "odd (x div 2 ^ k)" using assms(2) by (simp add: bit_iff_odd)
qed

lemma gcd_odd_part: "odd v \<Longrightarrow> gcd (2 ^ k * u) v = gcd u (v :: int)"
  by (intro gcd_mult_left_left_cancel) (simp add: coprime_power_left_iff coprime_left_2_iff_odd)

lemma gcd_two_powers:
  fixes u v :: int
  assumes "odd u" and "odd v"
  shows "gcd (2 ^ a * u) (2 ^ b * v) = 2 ^ min a b * gcd u v"
proof -
  have le: "gcd (2 ^ a * u) (2 ^ b * v) = 2 ^ a * gcd u v" if "a \<le> b" "odd u" for a b and u v :: int
  proof -
    have "2 ^ b * v = 2 ^ a * (2 ^ (b - a) * v)" using that(1) by (simp flip: mult.assoc power_add)
    then have "gcd (2 ^ a * u) (2 ^ b * v) = 2 ^ a * gcd u (2 ^ (b - a) * v)"
      using gcd_mult_distrib_int [of "2 ^ a" u "2 ^ (b - a) * v"] by (simp only: power_abs abs_numeral)
    then show ?thesis using gcd_odd_part [OF that(2), of "b - a" v] by (simp add: gcd.commute)
  qed
  show ?thesis
    using le [of a b u v] le [of b a v u] assms by (cases "a \<le> b") (simp_all add: gcd.commute min_def)
qed

text \<open>The step on integers.\<close>

definition odd_part_of :: "int \<Rightarrow> int" where
  "odd_part_of x = x div 2 ^ (LEAST k. bit x k)"

definition gcd_step :: "int \<times> int \<Rightarrow> int \<times> int" where
  "gcd_step = (\<lambda>(u, v). let (u, v) = (if u < v then (v, u) else (u, v)) in (odd_part_of (u - v), v))"

lemma odd_part_of_eq:
  assumes "\<forall>j<k. \<not> bit x j" and "bit x k"
  shows "odd_part_of x = x div 2 ^ k"
proof -
  have "(LEAST k. bit x k) = k" using assms by (intro Least_equality) (auto simp: not_less [symmetric])
  then show ?thesis by (simp add: odd_part_of_def)
qed

lemma odd_part_of_facts:
  fixes x :: int
  assumes "0 < x"
  shows "odd (odd_part_of x)" and "0 < odd_part_of x" and "odd_part_of x \<le> x"
    and "odd v \<Longrightarrow> gcd (odd_part_of x) v = gcd x v"
proof -
  define k where "k = (LEAST k. bit x k)"
  have "\<exists>k. bit x k" using assms by (metis bit_0_eq bit_eqI bot_apply bot_bool_def order_less_irrefl)
  then have k: "bit x k" "\<forall>j<k. \<not> bit x j" unfolding k_def by (auto intro: LeastI_ex dest: not_less_Least)
  have o: "odd_part_of x = x div 2 ^ k" by (rule odd_part_of_eq [OF k(2,1)])
  note p = odd_part [OF k(2,1), folded o]
  show "odd (odd_part_of x)" by (rule p(2))
  show pos: "0 < odd_part_of x" using p(1) assms by (metis mult_pos_neg not_less_iff_gr_or_eq power_eq_0_iff zero_less_mult_pos zero_less_numeral zero_less_power)
  have "odd_part_of x * 1 \<le> odd_part_of x * 2 ^ k" using pos by (intro mult_left_mono) simp_all
  then show "odd_part_of x \<le> x" using p(1) by (simp add: mult.commute)
  show "odd v \<Longrightarrow> gcd (odd_part_of x) v = gcd x v" using gcd_odd_part [of v k "odd_part_of x"] p(1) by simp
qed

definition gcd_inv :: "int \<times> int \<Rightarrow> bool" where
  "gcd_inv uv \<longleftrightarrow> odd (fst uv) \<and> odd (snd uv) \<and> 0 < fst uv \<and> 0 < snd uv"

lemma gcd_step_inv:
  assumes "gcd_inv (u, v)" and "u \<noteq> v" and "gcd_step (u, v) = (u', v')"
  shows "gcd_inv (u', v')" and "gcd u' v' = gcd u v" and "u' + v' < u + v" and "u' \<le> max u v" and "v' \<le> max u v"
proof -
  have *: "gcd_inv (u', v') \<and> gcd u' v' = gcd u v \<and> u' + v' < u + v \<and> u' \<le> max u v \<and> v' \<le> max u v"
    if "v < u" "odd u" "odd v" "0 < v" "u' = odd_part_of (u - v)" "v' = v" for u v
  proof -
    note p = odd_part_of_facts(1-3) [of "u - v"] odd_part_of_facts(4) [of "u - v" v]
    have "0 < u - v" using that(1) by simp
    note p = p [OF this]
    have "gcd u' v' = gcd u v" using p(4) [OF that(3)] that(5,6) by (simp only: gcd_diff1)
    moreover have "u' + v' < u + v" "u' \<le> max u v" "v' \<le> max u v" using p(3) that by linarith+
    ultimately show ?thesis using p(1,2) that by (simp only: gcd_inv_def fst_conv snd_conv) simp
  qed
  have uv: "odd u" "odd v" "0 < u" "0 < v" using assms(1) by (simp_all add: gcd_inv_def)
  have "gcd_inv (u', v') \<and> gcd u' v' = gcd u v \<and> u' + v' < u + v \<and> u' \<le> max u v \<and> v' \<le> max u v"
  proof (cases "u < v")
    case True
    then have "u' = odd_part_of (v - u)" "v' = u" using assms(3) by (auto simp: gcd_step_def)
    from * [OF True uv(2,1,3) this] show ?thesis by (simp only: gcd.commute max.commute add.commute)
  next
    case False
    then have "u' = odd_part_of (u - v)" "v' = v" "v < u" using assms(2,3) by (auto simp: gcd_step_def)
    with * [of v u] uv show ?thesis by blast
  qed
  then show "gcd_inv (u', v')" "gcd u' v' = gcd u v" "u' + v' < u + v" "u' \<le> max u v" "v' \<le> max u v" by blast+
qed

text \<open>The body of the loop on spans refines it, and the loop ends with two equal numbers.\<close>

lemma ct_gcd_step_refines:
  assumes "gcd_inv (u, v)" and "u \<noteq> v" and "u < 2 ^ w" and "v < 2 ^ w"
  shows "ct_gcd_step (num_span Normal w u :: 'a::len word bit_span, num_span Normal w v)
    = Some (map_prod (num_span Normal w) (num_span Normal w) (gcd_step (u, v)))"
proof -
  let ?S = "num_span Normal w :: int \<Rightarrow> 'a word bit_span"
  note ok = num_span_ok [where nrm = Normal and w = w and 'a = 'a]
  have uv: "0 < u" "0 < v" using assms(1) by (simp_all add: gcd_inv_def)
  have step: "\<exists>x c z. ct_subtract (?S a) Own (Other (?S b)) 0 = Some (x, c) \<and> ct_countr_zero x = Some z
      \<and> ct_shift_right x Own z = Some (?S (odd_part_of (a - b)))" if "b < a" "0 < b" "a < 2 ^ w" for a b
  proof -
    have ab: "0 \<le> a" "a < 2 ^ w" "0 \<le> b" "b < 2 ^ w" using that by linarith+
    obtain c where sub: "ct_subtract (?S a) Own (Other (?S b)) 0 = Some (?S (a - b), c)"
      using ct_subtract_eq [of "?S a" Own "Other (?S b)" 0] ab by (auto simp: ok)
    have diff: "0 < a - b" "a - b < 2 ^ w" using that by linarith+
    note d = ok [of "a - b", OF less_imp_le [OF diff(1)] diff(2)]
    obtain z where z: "ct_countr_zero (?S (a - b)) = Some z" "\<forall>j<z. \<not> bit (a - b) j" "bit (a - b) z"
      using ct_countr_zero_eq [OF d(1)] d(2) diff by auto
    show ?thesis
      using ct_shift_right_eq [of "?S (a - b)" Own z] that by (simp add: sub z(1) ok odd_part_of_eq [OF z(2,3)])
  qed
  have less: "ct_less (?S u) (?S v) = Some (of_bool (u < v))"
    using ct_order_eq(1) [of "?S u" "?S v"] uv assms(3,4) by (simp add: ok)
  show ?thesis
    using step [of u v] step [of v u] uv assms(2-4)
    by (cases "u < v") (auto simp: ct_gcd_step_def gcd_step_def less)
qed

lemma ct_gcd_loop_ends:
  assumes "gcd_inv (u, v)" and "u < 2 ^ w" and "v < 2 ^ w"
  shows "ct_gcd_loop (num_span Normal w u :: 'a::len word bit_span, num_span Normal w v)
    = Some (num_span Normal w (gcd u v), num_span Normal w (gcd u v))"
  using assms
proof (induction "nat (u + v)" arbitrary: u v rule: less_induct)
  case less
  have uv: "0 < u" "0 < v" using less.prems(1) by (simp_all add: gcd_inv_def)
  let ?S = "num_span Normal w :: int \<Rightarrow> 'a word bit_span"
  note ok = num_span_ok [where nrm = Normal and w = w and 'a = 'a]
  have test: "ct_not_equal_to (?S u) (?S v) = Some (of_bool (u \<noteq> v))"
    using ct_equality_eq(2) [of "?S u" "?S v"] uv less.prems(2,3) by (simp add: ok)
  show ?case
  proof (cases "u = v")
    case True
    then show ?thesis using test uv by (subst ct_gcd_loop.simps) simp
  next
    case False
    obtain u' v' where n: "gcd_step (u, v) = (u', v')" by (cases "gcd_step (u, v)")
    note step = gcd_step_inv [OF less.prems(1) False n]
    have "nat (u' + v') < nat (u + v)" using step(3) uv by simp
    moreover have "u' < 2 ^ w" "v' < 2 ^ w" using step(4,5) less.prems(2,3) by linarith+
    ultimately have "ct_gcd_loop (?S u', ?S v') = Some (?S (gcd u v), ?S (gcd u v))"
      using less.hyps [of u' v'] step(1,2) by simp
    then show ?thesis
      using test False ct_gcd_step_refines [OF less.prems(1) False less.prems(2,3), where 'a = 'a]
      by (subst ct_gcd_loop.simps) (simp add: n)
  qed
qed

lemma ct_odd_part:
  assumes "ct_ok (b :: 'a::len word bit_span)" and "ct_int b \<noteq> 0" and "bit_size b \<le> w"
  shows "\<exists>k m. ct_countr_zero b = Some k \<and> ct_int b = 2 ^ k * m \<and> odd m \<and> 0 < m \<and> m < 2 ^ w
    \<and> ct_shift_right (num_span Normal w 0 :: 'a word bit_span) (Other b) k = Some (num_span Normal w m)"
proof -
  obtain k where k: "ct_countr_zero b = Some k" "\<forall>j<k. \<not> bit (ct_int b) j" "bit (ct_int b) k"
    using ct_countr_zero_eq [OF assms(1)] assms(2) by blast
  let ?m = "ct_int b div 2 ^ k"
  note p = odd_part [OF k(2,3)]
  have "?m \<noteq> 0" using p(2) by (intro notI) simp
  moreover have "0 \<le> ?m" by (simp add: pos_imp_zdiv_nonneg_iff)
  ultimately have m: "0 < ?m" by linarith
  have "(2 :: int) ^ bit_size b \<le> 2 ^ w" using assms(3) by (rule power_increasing) simp
  moreover have "?m * 1 \<le> ?m * 2 ^ k" using m by (intro mult_left_mono) simp_all
  moreover have "?m * 2 ^ k = ct_int b" using p(1) by (simp only: mult.commute)
  moreover have "ct_int b < 2 ^ bit_size b" using assms(1) by (simp add: ct_ok_def)
  ultimately have "?m < 2 ^ w" by linarith
  moreover have "ct_shift_right (num_span Normal w 0 :: 'a word bit_span) (Other b) k = Some (num_span Normal w ?m)"
    using ct_shift_right_eq [of "num_span Normal w 0 :: 'a word bit_span" "Other b" k] assms(1) by simp
  ultimately show ?thesis using k(1) p m by blast
qed

lemma ct_gcd_eq:
  assumes "ct_dest (result :: 'a::len word bit_span)" and "ct_ok left" and "ct_ok right"
  shows "ct_greatest_common_divisor result left right = Some (store result (gcd (ct_int left) (ct_int right)))"
proof -
  have zero: "ct_equal_to b nullspan = Some (of_bool (ct_int b = 0))" if "ct_ok b" for b :: "'a word bit_span"
    using ct_equality_eq(1) [OF that ct_nullspan(1)] by simp
  note copy = ct_bit_copy_eq [OF assms(1), of "Other left"] ct_bit_copy_eq [OF assms(1), of "Other right"]
  define w where "w = max (bit_size left) (bit_size right)"
  consider "ct_int left = 0" | "ct_int left \<noteq> 0" "ct_int right = 0" | "ct_int left \<noteq> 0" "ct_int right \<noteq> 0" by blast
  then show ?thesis
  proof cases
    case 1
    then show ?thesis using copy assms by (simp add: ct_greatest_common_divisor_def zero)
  next
    case 2
    then show ?thesis using copy assms by (simp add: ct_greatest_common_divisor_def zero)
  next
    case 3
    obtain a m where m: "ct_countr_zero left = Some a" "ct_int left = 2 ^ a * m" "odd m" "0 < m" "m < 2 ^ w"
        "ct_shift_right (num_span Normal w 0 :: 'a word bit_span) (Other left) a = Some (num_span Normal w m)"
      using ct_odd_part [of left w] assms(2) 3(1) w_def by auto
    obtain b n where n: "ct_countr_zero right = Some b" "ct_int right = 2 ^ b * n" "odd n" "0 < n" "n < 2 ^ w"
        "ct_shift_right (num_span Normal w 0 :: 'a word bit_span) (Other right) b = Some (num_span Normal w n)"
      using ct_odd_part [of right w] assms(3) 3(2) w_def by auto
    have g: "0 \<le> gcd m n" "gcd m n < 2 ^ w" using zdvd_imp_le [OF gcd_dvd1 m(4), of n] m(5) by simp_all
    note ok = num_span_ok [OF g, where nrm = Normal and 'a = 'a]
    have "ct_gcd_loop (num_span Normal w m :: 'a word bit_span, num_span Normal w n)
        = Some (num_span Normal w (gcd m n), num_span Normal w (gcd m n))"
      using m(3-5) n(3-5) by (intro ct_gcd_loop_ends) (simp_all add: gcd_inv_def)
    moreover have "ct_shift_left result (num_span Normal w (gcd m n)) (min a b) = Some (store result (gcd m n * 2 ^ min a b))"
      using ct_shift_left_eq [OF assms(1) ok(1)] by (simp add: ok(2))
    ultimately have "ct_greatest_common_divisor result left right = Some (store result (gcd m n * 2 ^ min a b))"
      using 3 assms m(1,6) n(1,6)
      by (simp add: ct_greatest_common_divisor_def zero Let_def ct_array_num_span(1) flip: w_def)
    then show ?thesis using gcd_two_powers [OF m(3) n(3), of a b] by (simp add: m(2) n(2) mult.commute)
  qed
qed

text \<open>The compile-time greatest common divisor returns for all normal unsigned spans, zero included,
  with no failed assertion, and stores the greatest common divisor of the two integers (reduced to the size of
  the result).\<close>

theorem ct_gcd_correct:
  assumes "ct_dest (result :: 'a::len word bit_span)" and "ct_ok left" and "ct_ok right"
  shows "ct_greatest_common_divisor result left right = Some (store result (gcd (ct_int left) (ct_int right)))"
  by (rule ct_gcd_eq [OF assms])

lemma store_sample: "length xs = length ys \<Longrightarrow> limbs_int ys = x \<Longrightarrow> store (sample xs) x = sample ys"
proof -
  assume "length xs = length ys" and x: "limbs_int ys = x"
  then have "(sample xs)\<lparr>data := ys\<rparr> = sample ys" by (simp add: sample_def bit_array_def)
  then have "store (sample xs) x = store (sample ys) x" by (metis store_data)
  then show ?thesis using store_same [of "sample ys"] x by simp
qed

lemma ct_gcd_correct_witness:
  "ct_greatest_common_divisor (sample [0]) (sample [0x0C]) (sample [0x12]) = Some (sample [6])"
proof -
  have "gcd 12 (18 :: int) = 6" by code_simp
  then show ?thesis
    using ct_gcd_correct [of "sample [0]" "sample [0x0C]" "sample [0x12]"] by (simp add: store_sample)
qed

text \<open>C32: The extended Euclidean algorithm on compile-time spans returns for all normal unsigned spans with no
  failed assertion. It stores the greatest common divisor \<open>g\<close> and, although it computes with unsigned numbers
  only, two coefficients that are not negative and not greater than the other operand (or 1):
  \<open>left * s\<close> is congruent to \<open>g\<close> modulo \<open>right\<close> and \<open>right * t\<close> is congruent to \<open>g\<close> modulo \<open>left\<close>.\<close>

theorem ct_extended_euclidean_correct:
  fixes left right :: "'a::len word bit_span"
  assumes "ct_dest result" and "ct_dest left_result" and "ct_dest right_result" and "ct_ok left" and "ct_ok right"
  shows "\<exists>s t. ct_extended_euclidean result left_result right_result left right
      = Some (store result (gcd (ct_int left) (ct_int right)), store left_result s, store right_result t)
    \<and> 0 \<le> s \<and> s \<le> max 1 (ct_int right) \<and> ct_int left * s mod ct_int right = gcd (ct_int left) (ct_int right) mod ct_int right
    \<and> 0 \<le> t \<and> t \<le> max 1 (ct_int left) \<and> ct_int right * t mod ct_int left = gcd (ct_int left) (ct_int right) mod ct_int left"
  using ct_extended_euclidean_eq [OF assms] by (simp add: bezout_result_def mod_eq_dvd_iff)

lemma ct_extended_euclidean_correct_witness:
  "\<exists>s t. ct_extended_euclidean (sample [0]) (sample [0]) nullspan (sample [3]) (sample [7])
      = Some (sample [1], store (sample [0]) s, store nullspan t) \<and> 0 \<le> s \<and> s \<le> 7 \<and> 3 * s mod 7 = 1"
proof -
  have g: "gcd 3 (7 :: int) = 1" by code_simp
  have "ct_dest (nullspan :: 8 word bit_span)" by (rule ct_ok_dest [OF ct_nullspan(1)])
  from ct_extended_euclidean_correct [of "sample [0]" "sample [0]" nullspan "sample [3]" "sample [7]", OF _ _ this]
  obtain s t where "ct_extended_euclidean (sample [0]) (sample [0]) nullspan (sample [3]) (sample [7])
      = Some (store (sample [0]) 1, store (sample [0]) s, store nullspan t)" "0 \<le> s" "s \<le> 7" "3 * s mod 7 = 1"
    by (auto simp: g)
  then show ?thesis by (intro exI [of _ s] exI [of _ t]) (simp add: store_sample)
qed

end
