(* ===== verification/Bigint.thy ===== *)
theory Bigint
  imports Num_Montgomery Ct_Gcd
begin

text \<open>
  The integer types: \<^verbatim>\<open>ints/num/*.hpp\<close>, \<^verbatim>\<open>ints/bigint.hpp\<close>, \<^verbatim>\<open>ints/uint.hpp\<close> and \<^verbatim>\<open>ints/numeric.hpp\<close>.

  An integer object is its data member, a bit array; its type (size, signedness, normalization) is part of the
  record. The functions of \<^verbatim>\<open>ints/num\<close> take objects and forward their spans; here they take the spans.
  A variable that the code declares without initializer is \<open>uninit\<close> with unknown contents \<open>g\<close>.
\<close>

section \<open>Forwarding: ints/num\<close>

definition ints_add where "ints_add E result left right carry = num_add E result left right carry"
definition ints_subtract where "ints_subtract E result left right borrow = num_subtract E result left right borrow"
definition ints_multiply where "ints_multiply E garbage result left right = num_multiply E garbage result left right"
definition ints_bit_and where "ints_bit_and E result left right = num_bit_and E result left right"
definition ints_bit_or where "ints_bit_or E result left right = num_bit_or E result left right"
definition ints_bit_xor where "ints_bit_xor E result left right = num_bit_xor E result left right"
definition ints_bit_not where "ints_bit_not E result v = num_bit_not E result v"
definition ints_bit_copy where "ints_bit_copy E result v = num_bit_copy E result v"
definition ints_negate where "ints_negate E garbage result v = num_negate E garbage result v"
definition ints_select where "ints_select E result false_value true_value choice = num_select E result false_value true_value choice"
definition ints_shift_left where "ints_shift_left E result v shift = num_shift_left E result v shift"
definition ints_shift_right where "ints_shift_right E result v shift = num_shift_right E result v shift"
definition ints_equal_to where "ints_equal_to E left right = num_equal_to E left right"
definition ints_not_equal_to where "ints_not_equal_to E left right = num_not_equal_to E left right"
definition ints_less where "ints_less E left right = num_less E left right"
definition ints_less_equal where "ints_less_equal E left right = num_less_equal E left right"
definition ints_greater where "ints_greater E left right = num_greater E left right"
definition ints_greater_equal where "ints_greater_equal E left right = num_greater_equal E left right"
definition ints_bit_width where "ints_bit_width E v = num_bit_width E v"
definition ints_has_single_bit where "ints_has_single_bit E v = num_has_single_bit E v"
definition ints_montgomery_reduce where
  "ints_montgomery_reduce E result v modulus auxiliary_power inverse_modulus = num_montgomery_reduce E result v modulus auxiliary_power inverse_modulus"
definition ints_divide where
  "ints_divide quot remainder numerator denominator = ct_divide quot remainder (Other numerator) denominator"
definition ints_greatest_common_divisor where
  "ints_greatest_common_divisor result left right = ct_greatest_common_divisor result left right"
definition ints_extended_euclidean where
  "ints_extended_euclidean result left_result right_result left right
   = ct_extended_euclidean result left_result right_result left right"

lemmas ints_defs = ints_add_def ints_subtract_def ints_multiply_def ints_bit_and_def ints_bit_or_def ints_bit_xor_def
  ints_bit_not_def ints_bit_copy_def ints_negate_def ints_select_def ints_shift_left_def ints_shift_right_def
  ints_equal_to_def ints_not_equal_to_def ints_less_def ints_less_equal_def ints_greater_def ints_greater_equal_def
  ints_bit_width_def ints_has_single_bit_def ints_montgomery_reduce_def ints_divide_def
  ints_greatest_common_divisor_def ints_extended_euclidean_def

section \<open>Big integers\<close>

definition memory :: "(nat \<Rightarrow> 'a::len word) \<Rightarrow> nat \<Rightarrow> 'a word list" where
  "memory g bits = map g [0..<limb_size_for TYPE('a) bits]"

definition uninit :: "nat \<Rightarrow> signedness \<Rightarrow> normalization \<Rightarrow> (nat \<Rightarrow> 'a::len word) \<Rightarrow> 'a word bit_span" where
  "uninit bits sg nrm g = bit_array bits sg nrm (memory g bits)"

text \<open>The type of the result of a binary operator, with its number of bits.\<close>

definition common_uninit ::
    "nat \<Rightarrow> (nat \<Rightarrow> 'a::len word) \<Rightarrow> 'a word bit_span \<Rightarrow> 'a word bit_span \<Rightarrow> 'a word bit_span" where
  "common_uninit bits g left right =
     uninit bits (common_signedness (signedness left) (signedness right)) (common_normal (normal_type left) (normal_type right)) g"

definition bigint_add ::
    "'a::len word eval \<Rightarrow> (nat \<Rightarrow> 'a word) \<Rightarrow> 'a word bit_span \<Rightarrow> 'a word bit_span \<Rightarrow> 'a word bit_span" where
  "bigint_add E g left right =
     (let bits = (if bit_size left = 0 then bit_size right
            else if bit_size right = 0 then bit_size left else max (bit_size left) (bit_size right) + 1)
      in fst (ints_add E (common_uninit bits g left right) (Bits left) (Bits right) (Const 0)))"

definition bigint_subtract ::
    "'a::len word eval \<Rightarrow> (nat \<Rightarrow> 'a word) \<Rightarrow> 'a word bit_span \<Rightarrow> 'a word bit_span \<Rightarrow> 'a word bit_span" where
  "bigint_subtract E g left right =
     (let bits = (if bit_size right = 0 then bit_size left else max (bit_size left) (bit_size right) + 1)
      in fst (ints_subtract E (uninit bits With_sign (common_normal (normal_type left) (normal_type right)) g)
           (Bits left) (Bits right) (Const 0)))"

text \<open>The product needs unsigned operands; \<open>h\<close> is the local array of the multiplication.\<close>

definition bigint_multiply ::
    "'a::len word eval \<Rightarrow> (nat \<Rightarrow> 'a word) \<Rightarrow> (nat \<Rightarrow> 'a word) \<Rightarrow> 'a word bit_span \<Rightarrow> 'a word bit_span \<Rightarrow> 'a word bit_span" where
  "bigint_multiply E g h left right =
     (let bits = (if bit_size left = 0 then 0 else if bit_size left = 1 then bit_size right
            else if bit_size right = 0 then 0 else if bit_size right = 1 then bit_size left
            else bit_size left + bit_size right)
      in ints_multiply E (memory h (min bits (bit_size left + bit_size right))) (common_uninit bits g left right)
           (Bits left) (Bits right))"

definition bigint_bit_and ::
    "'a::len word eval \<Rightarrow> (nat \<Rightarrow> 'a word) \<Rightarrow> 'a word bit_span \<Rightarrow> 'a word bit_span \<Rightarrow> 'a word bit_span" where
  "bigint_bit_and E g left right =
     ints_bit_and E (common_uninit (max (bit_size left) (bit_size right)) g left right) (Bits left) (Bits right)"

definition bigint_bit_or ::
    "'a::len word eval \<Rightarrow> (nat \<Rightarrow> 'a word) \<Rightarrow> 'a word bit_span \<Rightarrow> 'a word bit_span \<Rightarrow> 'a word bit_span" where
  "bigint_bit_or E g left right =
     ints_bit_or E (common_uninit (max (bit_size left) (bit_size right)) g left right) (Bits left) (Bits right)"

definition bigint_bit_xor ::
    "'a::len word eval \<Rightarrow> (nat \<Rightarrow> 'a word) \<Rightarrow> 'a word bit_span \<Rightarrow> 'a word bit_span \<Rightarrow> 'a word bit_span" where
  "bigint_bit_xor E g left right =
     ints_bit_xor E (common_uninit (max (bit_size left) (bit_size right)) g left right) (Bits left) (Bits right)"

definition bigint_shift_left ::
    "'a::len word eval \<Rightarrow> (nat \<Rightarrow> 'a word) \<Rightarrow> 'a word bit_span \<Rightarrow> nat \<Rightarrow> 'a word bit_span" where
  "bigint_shift_left E g v shift = ints_shift_left E
     (uninit (if bit_size v = 0 then 0 else bit_size v + shift) (signedness v) (normal_type v) g) (Bits v) shift"

definition bigint_shift_right ::
    "'a::len word eval \<Rightarrow> (nat \<Rightarrow> 'a word) \<Rightarrow> 'a word bit_span \<Rightarrow> nat \<Rightarrow> 'a word bit_span" where
  "bigint_shift_right E g v shift = ints_shift_right E
     (uninit (if bit_size v > shift then bit_size v - shift else 0) (signedness v) (normal_type v) g) (Bits v) shift"

definition bigint_compl :: "'a::len word eval \<Rightarrow> (nat \<Rightarrow> 'a word) \<Rightarrow> 'a word bit_span \<Rightarrow> 'a word bit_span" where
  "bigint_compl E g v = ints_bit_not E (uninit (bit_size v) (signedness v) (normal_type v) g) (Bits v)"

definition bigint_negate ::
    "'a::len word eval \<Rightarrow> (nat \<Rightarrow> 'a word) \<Rightarrow> (nat \<Rightarrow> 'a word) \<Rightarrow> 'a word bit_span \<Rightarrow> 'a word bit_span" where
  "bigint_negate E g h v =
     (let bits = bit_size v + (if is_unsigned (signedness v) then 1 else 0)
      in ints_negate E (memory h bits) (uninit bits With_sign (normal_type v) g) (Bits v))"

definition bigint_convert ::
    "'a::len word eval \<Rightarrow> (nat \<Rightarrow> 'a word) \<Rightarrow> nat \<Rightarrow> signedness \<Rightarrow> normalization \<Rightarrow> 'a word bit_span \<Rightarrow> 'a word bit_span" where
  "bigint_convert E g other_bits other_signedness other_normal v =
     ints_bit_copy E (uninit other_bits other_signedness other_normal g) (Bits v)"

definition bigint_compare ::
    "('a::len word eval \<Rightarrow> 'a word rspan \<Rightarrow> 'a word rspan \<Rightarrow> hbit) \<Rightarrow> 'a word eval \<Rightarrow> 'a word bit_span \<Rightarrow> 'a word bit_span \<Rightarrow> hbit" where
  "bigint_compare function E left right = function E (Bits left) (Bits right)"

definition bigint_divide :: "(nat \<Rightarrow> 'a::len word) \<Rightarrow> 'a word bit_span \<Rightarrow> 'a word bit_span \<Rightarrow> 'a word bit_span option" where
  "bigint_divide g left right = do {
     (result, _) \<leftarrow> ints_divide (uninit (bit_size left) (signedness left) (normal_type left) g) nullspan left right;
     Some result }"

definition bigint_modulo :: "(nat \<Rightarrow> 'a::len word) \<Rightarrow> 'a word bit_span \<Rightarrow> 'a word bit_span \<Rightarrow> 'a word bit_span option" where
  "bigint_modulo g left right = do {
     (_, result) \<leftarrow> ints_divide nullspan (uninit (bit_size right) (signedness left) (normal_type left) g) left right;
     Some result }"

definition bigint_zero :: "'a::len word bit_span" where
  "bigint_zero = bit_array 0 Without_sign Normal []"

definition bigint_one :: "'a::len word bit_span" where
  "bigint_one = bit_array 1 Without_sign Normal [1]"

section \<open>ints/numeric.hpp\<close>

text \<open>\<open>n\<close> and \<open>h\<close> are the two local variables of the negation.\<close>

definition bigint_abs ::
    "'a::len word eval \<Rightarrow> (nat \<Rightarrow> 'a word) \<Rightarrow> (nat \<Rightarrow> 'a word) \<Rightarrow> (nat \<Rightarrow> 'a word) \<Rightarrow> 'a word bit_span \<Rightarrow> 'a word bit_span" where
  "bigint_abs E g n h v =
     (if is_signed (signedness v)
      then let sign = span_sign v;
               negation = bigint_negate E n h v
           in ints_bit_copy E (uninit (bit_size v) Without_sign (normal_type v) g)
                (Selected (Bits v) (Bits negation) (dynamic_value sign))
      else v)"

definition bigint_divide_result ::
    "(nat \<Rightarrow> 'a::len word) \<Rightarrow> (nat \<Rightarrow> 'a word) \<Rightarrow> 'a word bit_span \<Rightarrow> 'a word bit_span
     \<Rightarrow> ('a word bit_span \<times> 'a word bit_span) option" where
  "bigint_divide_result g h left right =
     ints_divide (uninit (bit_size left) Without_sign (normal_type left) g)
       (uninit (bit_size right) Without_sign (normal_type left) h) left right"

definition bigint_gcd :: "(nat \<Rightarrow> 'a::len word) \<Rightarrow> 'a word bit_span \<Rightarrow> 'a word bit_span \<Rightarrow> 'a word bit_span option" where
  "bigint_gcd g left right = ints_greatest_common_divisor
     (uninit (max (bit_size left) (bit_size right)) Without_sign (normal_type left) g) left right"

definition invert_modulo ::
    "(nat \<Rightarrow> 'a::len word) \<Rightarrow> (nat \<Rightarrow> 'a word) \<Rightarrow> 'a word bit_span \<Rightarrow> 'a word bit_span \<Rightarrow> 'a word bit_span option" where
  "invert_modulo g h v modulus = do {
     (greatest_common_divisor, inv, _) \<leftarrow> ints_extended_euclidean
       (uninit (max (bit_size v) (bit_size modulus)) Without_sign (normal_type v) g)
       (uninit (bit_size modulus) Without_sign (normal_type v) h) nullspan v modulus;
     ct_assert (bool_cast (bigint_compare ints_equal_to Consteval greatest_common_divisor bigint_one));
     Some inv }"

section \<open>Well-formed integers\<close>

text \<open>The invariant of the integer types: the shape of the type, and no stray bits above the size. It is what
  the specifications of \<^verbatim>\<open>core/num\<close> ask of an operand, so it carries over from operation to operation.\<close>

definition bigint_ok :: "'a::len word bit_span \<Rightarrow> bool" where
  "bigint_ok b \<longleftrightarrow> span_shape b \<and> span_normal b"

lemma bigint_view [simp]: "rspan_ok (Bits b) = bigint_ok b"
  by (simp add: bigint_ok_def)

declare rspan_ok.simps(1) [simp del]

lemma uninit_sel [simp]:
  "bit_size (uninit bits sg nrm g) = bits" "signedness (uninit bits sg nrm g) = sg" "normal_type (uninit bits sg nrm g) = nrm"
  "limb_size (uninit bits sg nrm g :: 'a::len word bit_span) = limb_size_for TYPE('a) bits"
  "length (data (uninit bits sg nrm g :: 'a word bit_span)) = limb_size_for TYPE('a) bits"
  by (simp_all add: uninit_def bit_array_def memory_def limb_size_def)

lemma memory_length [simp]: "length (memory g bits :: 'a::len word list) = limb_size_for TYPE('a) bits"
  by (simp add: memory_def)

lemma uninit_shape: "(is_signed sg \<Longrightarrow> 0 < bits) \<Longrightarrow> span_shape (uninit bits sg nrm g)"
  by (simp add: span_shape_def)

lemma bigint_store:
  assumes "span_shape b" and "in_range b x"
  shows "bigint_ok (store b x)" and "span_int (store b x) = x"
  using assms by (simp_all add: bigint_ok_def span_shape_store span_normal_store span_int_store_eq)

lemma bigint_range:
  assumes "bigint_ok b"
  shows "is_unsigned (signedness b) \<Longrightarrow> 0 \<le> span_int b \<and> span_int b < 2 ^ bit_size b"
    and "is_signed (signedness b) \<Longrightarrow> - (2 ^ (bit_size b - 1)) \<le> span_int b \<and> span_int b < 2 ^ (bit_size b - 1) \<and> 0 < bit_size b"
  using span_int_in_range [of b] assms by (auto simp: bigint_ok_def span_shape_def in_range_def is_unsigned_iff)

text \<open>Unsigned integers are spans of the compile-time layer.\<close>

lemma bigint_ct:
  assumes "bigint_ok b" and "is_unsigned (signedness b)"
  shows "ct_ok b" and "ct_int b = span_int b"
proof -
  have l: "limbs_int (data b) = span_int b mod 2 ^ (LENGTH('a) * limb_size b)" and len: "length (data b) = limb_size b"
    using assms(1) by (simp_all add: bigint_ok_def span_normal_def span_shape_def)
  note r = bigint_range(1) [OF assms]
  have "(2 :: int) ^ bit_size b \<le> 2 ^ (LENGTH('a) * limb_size b)"
    using bit_size_le_limbs [of b] by (rule power_increasing) simp
  then have "span_int b < 2 ^ (LENGTH('a) * limb_size b)" using r by linarith
  then show i: "ct_int b = span_int b" using r l by (simp add: ct_int_def)
  show "ct_ok b" using r assms(2) len by (simp add: ct_ok_def ct_dest_def i)
qed

lemma uninit_dest [simp]: "ct_dest (uninit bits Without_sign nrm g)"
  by (simp add: ct_dest_def is_unsigned_def)

lemma common_signedness_same [simp]: "common_signedness s s = s"
  by (cases s) (simp_all add: common_signedness_def)

section \<open>Exact arithmetic\<close>

text \<open>The number of bits of every result is chosen such that nothing is lost.\<close>

lemma in_range_mono:
  assumes "in_range b x" and "signedness c = signedness b" and "bit_size b \<le> bit_size c"
  shows "in_range c x"
proof -
  have le: "(2 :: int) ^ bit_size b \<le> 2 ^ bit_size c" "(2 :: int) ^ (bit_size b - 1) \<le> 2 ^ (bit_size c - 1)"
    using assms(3) by (simp_all add: power_increasing)
  have "- (2 ^ (bit_size c - 1)) \<le> x \<and> x < 2 ^ (bit_size c - 1)" if "is_signed (signedness b)"
  proof -
    have "- (2 ^ (bit_size b - 1)) \<le> x" "x < 2 ^ (bit_size b - 1)" using assms(1) that by (simp_all add: in_range_def)
    then show ?thesis using le(2) by (intro conjI) linarith+
  qed
  moreover have "0 \<le> x \<and> x < 2 ^ bit_size c" if "\<not> is_signed (signedness b)"
  proof -
    have "0 \<le> x" "x < 2 ^ bit_size b" using assms(1) that by (simp_all add: in_range_def)
    then show ?thesis using le(1) by (intro conjI) linarith+
  qed
  ultimately show ?thesis using assms(2) by (simp add: in_range_def)
qed

lemma two_power_pred: "0 < n \<Longrightarrow> 2 * 2 ^ (n - 1) = (2 :: int) ^ n"
  by (cases n) simp_all

lemma in_range_add:
  assumes l: "in_range l x" and r: "in_range r y" and s: "signedness r = signedness l" "signedness c = signedness l"
    and bits: "bit_size c = max (bit_size l) (bit_size r) + 1" and p: "is_signed (signedness l) \<Longrightarrow> 0 < bit_size l"
  shows "in_range c (x + y)"
proof -
  define m where "m = max (bit_size l) (bit_size r)"
  define d where "d = \<lparr>bit_size = m, signedness = signedness l, normal_type = Normal, data = []\<rparr>"
  have "in_range d x" "in_range d y" using in_range_mono [OF l, of d] in_range_mono [OF r, of d] s by (simp_all add: d_def m_def)
  moreover have "0 < m" if "is_signed (signedness l)" using p [OF that] by (simp add: m_def)
  ultimately show ?thesis
    using two_power_pred [of m] bits s by (auto simp: in_range_def d_def simp flip: m_def split: if_splits)
qed

lemma in_range_negate:
  assumes "in_range r y" and "signedness r = sg" and "is_signed (signedness c)" "bit_size c = bit_size r + 1"
    and "is_signed sg \<Longrightarrow> 0 < bit_size r"
  shows "in_range c (- y)"
  using assms two_power_pred [of "bit_size r"] by (auto simp: in_range_def split: if_splits)

lemma common_uninit_sel [simp]:
  "bit_size (common_uninit bits g l r) = bits"
  "signedness (common_uninit bits g l r) = common_signedness (signedness l) (signedness r)"
  "normal_type (common_uninit bits g l r) = common_normal (normal_type l) (normal_type r)"
  "length (data (common_uninit bits g l r)) = limb_size (common_uninit bits g l r)"
  by (simp_all add: common_uninit_def)

lemma common_uninit_shape:
  "signedness l = signedness r \<Longrightarrow> (is_signed (signedness r) \<Longrightarrow> 0 < bits) \<Longrightarrow> span_shape (common_uninit bits g l r)"
  by (simp add: span_shape_def)

lemma bigint_get [simp]: "sycl_ok E \<Longrightarrow> bigint_ok b \<Longrightarrow> get_int E (Bits b) = span_int b"
  using get_int_rspan_int [of E "Bits b"] by simp

lemma bigint_signed_bits: "bigint_ok b \<Longrightarrow> is_signed (signedness b) \<Longrightarrow> 0 < bit_size b"
  by (simp add: bigint_ok_def span_shape_def)

lemma bigint_in_range: "bigint_ok b \<Longrightarrow> in_range b (span_int b)"
  by (simp add: span_int_in_range)

lemma bigint_no_bits:
  assumes "bigint_ok b" and "bit_size b = 0"
  shows "span_int b = 0" and "\<not> is_signed (signedness b)"
proof -
  show u: "\<not> is_signed (signedness b)" using bigint_signed_bits [OF assms(1)] assms(2) by auto
  have "0 \<le> span_int b" "span_int b < 2 ^ bit_size b" using bigint_range(1) [OF assms(1)] u by (simp_all add: is_unsigned_iff)
  then show "span_int b = 0" by (simp add: assms(2))
qed

definition add_bits :: "'w bit_span \<Rightarrow> 'w bit_span \<Rightarrow> nat" where
  "add_bits l r = (if bit_size l = 0 then bit_size r else if bit_size r = 0 then bit_size l else max (bit_size l) (bit_size r) + 1)"

lemma bigint_add_eq:
  assumes "sycl_ok E" and "bigint_ok l" and "bigint_ok r"
  shows "bigint_add E g l r = store (common_uninit (add_bits l r) g l r) (span_int l + span_int r)"
  using num_add_eq(1) [OF assms(1), of "common_uninit (add_bits l r) g l r" "Bits l" "Bits r" "Const 0"] assms
  by (simp add: bigint_add_def ints_defs Let_def flip: add_bits_def)

definition subtract_bits :: "'w bit_span \<Rightarrow> 'w bit_span \<Rightarrow> nat" where
  "subtract_bits l r = (if bit_size r = 0 then bit_size l else max (bit_size l) (bit_size r) + 1)"

lemma bigint_subtract_eq:
  assumes "sycl_ok E" and "bigint_ok l" and "bigint_ok r"
  shows "bigint_subtract E g l r
    = store (uninit (subtract_bits l r) With_sign (common_normal (normal_type l) (normal_type r)) g) (span_int l - span_int r)"
  using num_subtract_eq(1) [OF assms(1), of "uninit (subtract_bits l r) With_sign (common_normal (normal_type l) (normal_type r)) g"
      "Bits l" "Bits r" "Const 0"] assms
  by (simp add: bigint_subtract_def ints_defs Let_def flip: subtract_bits_def)

lemma bigint_add_exact:
  assumes "sycl_ok E" and l: "bigint_ok l" and r: "bigint_ok r" and s: "signedness l = signedness r"
  shows "bigint_ok (bigint_add E g l r)" and "span_int (bigint_add E g l r) = span_int l + span_int r"
proof -
  let ?b = "common_uninit (add_bits l r) g l r"
  have shape: "span_shape ?b"
    using bigint_signed_bits [OF r] s by (intro common_uninit_shape) (auto simp: add_bits_def)
  have "in_range ?b (span_int l + span_int r)"
  proof -
    consider "bit_size l = 0" | "bit_size r = 0" "bit_size l \<noteq> 0" | "bit_size l \<noteq> 0" "bit_size r \<noteq> 0" by blast
    then show ?thesis
    proof cases
      case 1
      then show ?thesis using bigint_no_bits [OF l 1] in_range_mono [OF bigint_in_range [OF r], of ?b] s by (simp add: add_bits_def)
    next
      case 2
      then show ?thesis using bigint_no_bits [OF r 2(1)] in_range_mono [OF bigint_in_range [OF l], of ?b] s by (simp add: add_bits_def)
    next
      case 3
      then show ?thesis using in_range_add [OF bigint_in_range [OF l] bigint_in_range [OF r], of ?b] s by (simp add: add_bits_def)
    qed
  qed
  from bigint_store [OF shape this] bigint_add_eq [OF assms(1-3)]
  show "bigint_ok (bigint_add E g l r)" "span_int (bigint_add E g l r) = span_int l + span_int r" by simp_all
qed

lemma bigint_subtract_exact:
  assumes "sycl_ok E" and l: "bigint_ok l" and r: "bigint_ok r" and s: "signedness l = signedness r" and n: "0 < bit_size r"
  shows "bigint_ok (bigint_subtract E g l r)" and "span_int (bigint_subtract E g l r) = span_int l - span_int r"
proof -
  let ?m = "max (bit_size l) (bit_size r)"
  let ?b = "uninit (?m + 1) With_sign (common_normal (normal_type l) (normal_type r)) g"
  have eq: "bigint_subtract E g l r = store ?b (span_int l - span_int r)"
    using bigint_subtract_eq [OF assms(1-3)] n by (simp add: subtract_bits_def)
  have shape: "span_shape ?b" by (rule uninit_shape) simp
  let ?d = "uninit ?m (signedness r) Normal g"
  have "in_range ?d (span_int l)" "in_range ?d (span_int r)"
    using in_range_mono [OF bigint_in_range [OF l], of ?d] in_range_mono [OF bigint_in_range [OF r], of ?d] s by simp_all
  moreover have "2 * 2 ^ (?m - 1) = (2 :: int) ^ ?m" using n by (intro two_power_pred) simp
  ultimately have "in_range ?b (span_int l - span_int r)" by (auto simp: in_range_def split: if_splits)
  from bigint_store [OF shape this] eq show "bigint_ok (bigint_subtract E g l r)" "span_int (bigint_subtract E g l r) = span_int l - span_int r"
    by simp_all
qed

lemma bigint_multiply_exact:
  assumes "sycl_ok E" and l: "bigint_ok l" "is_unsigned (signedness l)" and r: "bigint_ok r" "is_unsigned (signedness r)"
  shows "bigint_ok (bigint_multiply E g h l r)" and "span_int (bigint_multiply E g h l r) = span_int l * span_int r"
    and "is_unsigned (signedness (bigint_multiply E g h l r))"
proof -
  define bits where "bits = (if bit_size l = 0 then 0 else if bit_size l = 1 then bit_size r
    else if bit_size r = 0 then 0 else if bit_size r = 1 then bit_size l else bit_size l + bit_size r)"
  let ?b = "common_uninit bits g l r" and ?x = "span_int l" and ?y = "span_int r"
  have sig: "signedness l = Without_sign" "signedness r = Without_sign" using l(2) r(2) by (simp_all add: is_unsigned_def)
  note lr = bigint_range(1) [OF l] and rr = bigint_range(1) [OF r]
  have fit: "limbs_fit (Bits l)" "limbs_fit (Bits r)" by (simp_all add: limbs_fit_def limb_size_def limb_size_for_def)
  have eq: "bigint_multiply E g h l r = store ?b (?x * ?y)"
    using num_multiply_eq [OF assms(1), of ?b "memory h (min bits (bit_size l + bit_size r))" "Bits l" "Bits r"] fit l r lr rr assms(1)
    by (simp add: bigint_multiply_def ints_defs Let_def flip: bits_def) (simp add: bits_def)
  have "?x * ?y < 2 ^ bits"
  proof -
    consider "bit_size l = 0 \<or> bit_size r = 0" | "bit_size l = 1" "bit_size r \<noteq> 0" | "bit_size r = 1" "1 < bit_size l"
      | "1 < bit_size l" "1 < bit_size r" by linarith
    then show ?thesis
    proof cases
      case 1
      then show ?thesis using bigint_no_bits [OF l(1)] bigint_no_bits [OF r(1)] by auto
    next
      case 2
      then have "?x = 0 \<or> ?x = 1" using lr by auto
      then show ?thesis using 2 rr by (auto simp: bits_def)
    next
      case 3
      then have "?y = 0 \<or> ?y = 1" using rr by auto
      then show ?thesis using 3 lr by (auto simp: bits_def)
    next
      case 4
      have "?x * ?y < 2 ^ bit_size l * 2 ^ bit_size r" using lr rr by (intro mult_strict_mono) simp_all
      then show ?thesis using 4 by (simp add: bits_def power_add)
    qed
  qed
  then have range: "in_range ?b (?x * ?y)" using lr rr by (simp add: in_range_def sig)
  have shape: "span_shape ?b" by (rule common_uninit_shape) (simp_all add: sig)
  from bigint_store [OF shape range] show "bigint_ok (bigint_multiply E g h l r)" "span_int (bigint_multiply E g h l r) = ?x * ?y"
    by (simp_all add: eq)
  show "is_unsigned (signedness (bigint_multiply E g h l r))" by (simp add: eq sig is_unsigned_def)
qed

text \<open>Bitwise operations and shifts.\<close>

lemma wrap_bitwise:
  "wrap b (x AND y) = wrap b x AND wrap b y" "wrap b (x OR y) = wrap b x OR wrap b y" "wrap b (x XOR y) = wrap b x XOR wrap b y"
  by (auto simp: wrap_def bit_eq_iff bit_signed_take_bit_iff bit_take_bit_iff bit_and_iff bit_or_iff bit_xor_iff)

lemma bigint_bitwise_exact:
  assumes "sycl_ok E" and l: "bigint_ok l" and r: "bigint_ok r" and s: "signedness l = signedness r"
  shows "bigint_ok (bigint_bit_and E g l r) \<and> span_int (bigint_bit_and E g l r) = span_int l AND span_int r"
    and "bigint_ok (bigint_bit_or E g l r) \<and> span_int (bigint_bit_or E g l r) = span_int l OR span_int r"
    and "bigint_ok (bigint_bit_xor E g l r) \<and> span_int (bigint_bit_xor E g l r) = span_int l XOR span_int r"
proof -
  let ?b = "common_uninit (max (bit_size l) (bit_size r)) g l r"
  have shape: "span_shape ?b" using bigint_signed_bits [OF r] s by (intro common_uninit_shape) auto
  have "in_range ?b (span_int l)" "in_range ?b (span_int r)"
    using in_range_mono [OF bigint_in_range [OF l], of ?b] in_range_mono [OF bigint_in_range [OF r], of ?b] s by simp_all
  then have w: "wrap ?b (span_int l) = span_int l" "wrap ?b (span_int r) = span_int r"
    using wrap_eq_self [of ?b] shape unfolding span_shape_def by blast+
  have stored: "bigint_ok (store ?b x) \<and> span_int (store ?b x) = x" if "x = wrap ?b x" for x
    using bigint_store [OF shape] in_range_wrap [of ?b x] that by metis
  have eq: "bigint_bit_and E g l r = store ?b (span_int l AND span_int r)"
    "bigint_bit_or E g l r = store ?b (span_int l OR span_int r)"
    "bigint_bit_xor E g l r = store ?b (span_int l XOR span_int r)"
    using num_bitwise_eq(1-3) [OF assms(1), of ?b "Bits l" "Bits r"] assms
    by (simp_all add: bigint_bit_and_def bigint_bit_or_def bigint_bit_xor_def ints_defs)
  show "bigint_ok (bigint_bit_and E g l r) \<and> span_int (bigint_bit_and E g l r) = span_int l AND span_int r"
    "bigint_ok (bigint_bit_or E g l r) \<and> span_int (bigint_bit_or E g l r) = span_int l OR span_int r"
    "bigint_ok (bigint_bit_xor E g l r) \<and> span_int (bigint_bit_xor E g l r) = span_int l XOR span_int r"
    unfolding eq by (rule stored; simp add: wrap_bitwise w)+
qed

lemma bigint_shift_left_exact:
  assumes "sycl_ok E" and v: "bigint_ok v"
  shows "bigint_ok (bigint_shift_left E g v s)" and "span_int (bigint_shift_left E g v s) = span_int v * 2 ^ s"
    and "signedness (bigint_shift_left E g v s) = signedness v"
proof -
  let ?b = "uninit (if bit_size v = 0 then 0 else bit_size v + s) (signedness v) (normal_type v) g"
  have eq: "bigint_shift_left E g v s = store ?b (span_int v * 2 ^ s)"
    using num_shift_left_eq [OF assms(1), of ?b "Bits v"] assms by (simp add: bigint_shift_left_def ints_defs)
  have shape: "span_shape ?b" using bigint_signed_bits [OF v] by (intro uninit_shape) auto
  have "in_range ?b (span_int v * 2 ^ s)"
  proof (cases "bit_size v = 0")
    case True
    then show ?thesis using bigint_no_bits [OF v True] by (simp add: in_range_def)
  next
    case False
    then have p: "(2 :: int) ^ (bit_size v + s - 1) = 2 ^ (bit_size v - 1) * 2 ^ s" by (simp flip: power_add)
    have "- (2 ^ (bit_size v - 1)) * 2 ^ s \<le> span_int v * 2 ^ s \<and> span_int v * 2 ^ s < 2 ^ (bit_size v - 1) * 2 ^ s"
      if "is_signed (signedness v)"
      using bigint_range(2) [OF v that] by (intro conjI mult_right_mono mult_strict_right_mono) auto
    then show ?thesis using False bigint_in_range [OF v] p by (auto simp: in_range_def power_add)
  qed
  from bigint_store [OF shape this] show "bigint_ok (bigint_shift_left E g v s)"
    "span_int (bigint_shift_left E g v s) = span_int v * 2 ^ s" by (simp_all add: eq)
  show "signedness (bigint_shift_left E g v s) = signedness v" by (simp add: eq)
qed

lemma bigint_shift_right_exact:
  assumes "sycl_ok E" and v: "bigint_ok v" and s: "is_signed (signedness v) \<Longrightarrow> s < bit_size v"
  shows "bigint_ok (bigint_shift_right E g v s)" and "span_int (bigint_shift_right E g v s) = span_int v div 2 ^ s"
    and "signedness (bigint_shift_right E g v s) = signedness v"
    and "bit_size (bigint_shift_right E g v s) = bit_size v - s"
proof -
  let ?b = "uninit (if bit_size v > s then bit_size v - s else 0) (signedness v) (normal_type v) g"
  have eq: "bigint_shift_right E g v s = store ?b (span_int v div 2 ^ s)"
    using num_shift_right_eq [OF assms(1), of ?b "Bits v"] stream_int_rspan_int [OF assms(1), of "Bits v" Normal] v
    by (simp add: bigint_shift_right_def ints_defs)
  have shape: "span_shape ?b" using s by (intro uninit_shape) simp
  have "in_range ?b (span_int v div 2 ^ s)"
  proof (cases "is_signed (signedness v)")
    case True
    have "(2 :: int) ^ (bit_size v - 1) = 2 ^ (bit_size v - s - 1) * 2 ^ s" using s [OF True] by (simp flip: power_add)
    then have lo: "- (2 ^ (bit_size v - s - 1)) * 2 ^ s \<le> span_int v" and hi: "span_int v < 2 ^ (bit_size v - s - 1) * 2 ^ s"
      using bigint_range(2) [OF v True] by simp_all
    have "- (2 ^ (bit_size v - s - 1)) \<le> span_int v div 2 ^ s"
      using zdiv_mono1 [OF lo, of "2 ^ s"] nonzero_mult_div_cancel_right [of "2 ^ s" "- (2 ^ (bit_size v - s - 1)) :: int"]
      by (simp del: mult_minus_left)
    moreover have "span_int v div 2 ^ s < 2 ^ (bit_size v - s - 1)" using hi by (intro int_div_less) (simp_all add: mult.commute)
    ultimately show ?thesis using True s by (simp add: in_range_def)
  next
    case False
    then have r: "0 \<le> span_int v" "span_int v < 2 ^ bit_size v" using bigint_range(1) [OF v] by (simp_all add: is_unsigned_iff)
    show ?thesis
    proof (cases "s < bit_size v")
      case True
      then have "(2 :: int) ^ bit_size v = 2 ^ (bit_size v - s) * 2 ^ s" by (simp flip: power_add)
      then have "span_int v div 2 ^ s < 2 ^ (bit_size v - s)" using r(2) by (intro int_div_less) (simp_all add: mult.commute)
      then show ?thesis using False True r(1) by (simp add: in_range_def pos_imp_zdiv_nonneg_iff)
    next
      case beyond: False
      then have "(2 :: int) ^ bit_size v \<le> 2 ^ s" by (simp add: power_increasing)
      then have "span_int v < 2 ^ s" using r(2) by linarith
      then show ?thesis using False beyond r(1) by (simp add: in_range_def)
    qed
  qed
  from bigint_store [OF shape this] show "bigint_ok (bigint_shift_right E g v s)"
    "span_int (bigint_shift_right E g v s) = span_int v div 2 ^ s" by (simp_all add: eq)
  show "signedness (bigint_shift_right E g v s) = signedness v"
    "bit_size (bigint_shift_right E g v s) = bit_size v - s" by (simp_all add: eq)
qed

text \<open>Negation, conversion and the absolute value.\<close>

lemma bigint_negate_eq:
  assumes "sycl_ok E" and "bigint_ok v"
  defines "bits \<equiv> bit_size v + (if is_unsigned (signedness v) then 1 else 0)"
  shows "bigint_negate E g h v = store (uninit bits With_sign (normal_type v) g) (- span_int v)"
    and "span_shape (uninit bits With_sign (normal_type v) g)"
proof -
  show "bigint_negate E g h v = store (uninit bits With_sign (normal_type v) g) (- span_int v)"
    using num_negate_eq [OF assms(1), of "uninit bits With_sign (normal_type v) g" "memory h bits" "Bits v"] assms(1,2)
    by (simp add: bigint_negate_def ints_defs Let_def flip: bits_def)
  show "span_shape (uninit bits With_sign (normal_type v) g)"
    using bigint_signed_bits [OF assms(2)] by (intro uninit_shape) (auto simp: bits_def is_unsigned_iff)
qed

lemma bigint_negate_exact:
  assumes "sycl_ok E" and v: "bigint_ok v" and "span_int v \<noteq> - (2 ^ (bit_size v - 1)) \<or> is_unsigned (signedness v)"
  shows "bigint_ok (bigint_negate E g h v)" and "span_int (bigint_negate E g h v) = - span_int v"
proof -
  let ?b = "uninit (bit_size v + (if is_unsigned (signedness v) then 1 else 0)) With_sign (normal_type v) g"
  note eq = bigint_negate_eq [OF assms(1,2), of g]
  have "in_range ?b (- span_int v)"
    using assms(3) bigint_range [OF v] by (cases "is_unsigned (signedness v)") (auto simp: in_range_def is_unsigned_iff)
  from bigint_store [OF eq(2) this] show "bigint_ok (bigint_negate E g h v)" "span_int (bigint_negate E g h v) = - span_int v"
    by (simp_all add: eq(1))
qed

text \<open>What a signed type makes of an integer that it cannot hold. A normalized one keeps its invariant up to twice its range: the
  write extends the sign bit upwards, which completes the two's complement of the wrapped value.\<close>

lemma bit_written_signed:
  assumes "is_signed (signedness b)" and p: "0 < bit_size b" and "i < limb_size b" and last: "i = limb_size (b :: 'a::len word bit_span) - 1"
    and j: "j < LENGTH('a)"
  shows "bit (written_limb b i (Dyn (limb_of y i)) Normal) j
    \<longleftrightarrow> bit y (LENGTH('a) * i + j) \<or> bit y (bit_size b - 1) \<and> last_limb_bit_size b \<le> j"
proof -
  note sp = last_bit_split [OF p]
  have lt: "last_limb_bit_size b - 1 < LENGTH('a)" using sp(2,3) by linarith
  have e: "LENGTH('a) * i + (last_limb_bit_size b - 1) = bit_size b - 1" using sp(1,2) last by simp
  let ?v = "Dyn (limb_of y i) :: 'a word arg"
  let ?sign = "core_extract_bit ?v (last_limb_bit_size b - 1)"
  have "written_limb b i ?v Normal = dynamic_value (core_extend_sign_bit ?v ?sign (last_limb_bit_size b))"
    unfolding written_limb_def Let_def sp(5) using last assms(1) by simp
  moreover have "bit (mask_from (dynamic_value ?sign) :: 'a word) j \<longleftrightarrow> bit y (bit_size b - 1)"
    using lt e j by (simp add: mask_from_eq bit_limb_of)
  ultimately show ?thesis
    using j by (simp add: core_extend_sign_bit_def bit_extend_sign [OF sp(3,2)] bit_limb_of)
qed

lemma store_wrap:
  assumes "is_signed (signedness b)" and "normal_type b = Normal" and p: "0 < bit_size b" and "0 \<le> x" and "x < 2 ^ bit_size b"
  shows "store (b :: 'a::len word bit_span) x = store b (wrap b x)"
proof -
  note sp = last_bit_split [OF p]
  have wr: "bit (wrap b x) k \<longleftrightarrow> bit x (min k (bit_size b - 1))" for k
    using assms(1) by (simp add: wrap_def bit_signed_take_bit_iff min.commute)
  have above: "\<not> bit x k" if "bit_size b \<le> k" for k
    using assms(4,5) bit_take_bit_iff [of "bit_size b" x k] that by (simp add: take_bit_int_eq_self)
  have "written_limb b i (Dyn (limb_of x i)) Normal = written_limb b i (Dyn (limb_of (wrap b x) i)) Normal" if i: "i < limb_size b" for i
  proof (cases "i = limb_size b - 1")
    case False
    have "LENGTH('a) * Suc i \<le> LENGTH('a) * (limb_size b - 1)" using i False by (intro mult_le_mono2) simp
    then have "LENGTH('a) * i + j \<le> bit_size b - 1" if "j < LENGTH('a)" for j using sp(1,2) that by simp
    then have "min (LENGTH('a) * i + j) (bit_size b - 1) = LENGTH('a) * i + j" if "j < LENGTH('a)" for j using that by (intro min_absorb1) simp
    then have "limb_of x i = (limb_of (wrap b x) i :: 'a word)" by (intro bit_word_eqI) (simp add: bit_limb_of wr)
    then show ?thesis by simp
  next
    case True
    have k: "LENGTH('a) * i + j < bit_size b \<longleftrightarrow> j < last_limb_bit_size b" for j using sp(1) True by simp
    note ext = bit_written_signed [OF assms(1) p i True]
    show ?thesis
    proof (rule bit_word_eqI)
      fix j assume j: "j < LENGTH('a)"
      show "bit (written_limb b i (Dyn (limb_of x i)) Normal) j = bit (written_limb b i (Dyn (limb_of (wrap b x) i)) Normal) j"
        using above [of "LENGTH('a) * i + j"] k [of j] by (simp add: ext [OF j] wr) (auto simp: min_def)
    qed
  qed
  then show ?thesis by (simp add: store_def span_written_def assms(2))
qed

lemma bigint_store_signed:
  assumes "span_shape b" and "is_signed (signedness b)" and "normal_type b = Normal" and "- (2 ^ (bit_size b - 1)) \<le> x" and "x < 2 ^ bit_size b"
  shows "bigint_ok (store b x)"
proof -
  have p: "0 < bit_size b" using assms(1,2) by (simp add: span_shape_def)
  show ?thesis
  proof (cases "0 \<le> x")
    case True
    from store_wrap [OF assms(2,3) p True assms(5)] show ?thesis using bigint_store(1) [OF assms(1) in_range_wrap] by simp
  next
    case False
    then have "in_range b x" using assms(2,4) zero_le_power [of "2 :: int" "bit_size b - 1"] by (simp add: in_range_def)
    then show ?thesis by (rule bigint_store(1) [OF assms(1)])
  qed
qed

lemma wrap_signed:
  assumes "is_signed (signedness b)" and "bit_size b = Suc m"
  shows "- (2 ^ m) \<le> x \<Longrightarrow> x < 2 ^ m \<Longrightarrow> wrap b x = x"
    and "2 ^ m \<le> x \<Longrightarrow> x < 3 * 2 ^ m \<Longrightarrow> wrap b x = x - 2 ^ Suc m"
    and "- (3 * 2 ^ m) \<le> x \<Longrightarrow> x < - (2 ^ m) \<Longrightarrow> wrap b x = x + 2 ^ Suc m"
proof -
  have self: "- (2 ^ m) \<le> y \<Longrightarrow> y < 2 ^ m \<Longrightarrow> wrap b y = y" for y
    using assms by (intro wrap_eq_self) (simp_all add: in_range_def)
  have "(x - 2 ^ Suc m) mod 2 ^ Suc m = x mod 2 ^ Suc m" "(x + 2 ^ Suc m) mod 2 ^ Suc m = x mod 2 ^ Suc m" by simp_all
  then have "wrap b (x - 2 ^ Suc m) = wrap b x" "wrap b (x + 2 ^ Suc m) = wrap b x"
    using assms by (intro wrap_cong [where n = "Suc m"]; simp)+
  then show "- (2 ^ m) \<le> x \<Longrightarrow> x < 2 ^ m \<Longrightarrow> wrap b x = x"
    "2 ^ m \<le> x \<Longrightarrow> x < 3 * 2 ^ m \<Longrightarrow> wrap b x = x - 2 ^ Suc m"
    "- (3 * 2 ^ m) \<le> x \<Longrightarrow> x < - (2 ^ m) \<Longrightarrow> wrap b x = x + 2 ^ Suc m"
    using self [of x] self [of "x - 2 ^ Suc m"] self [of "x + 2 ^ Suc m"] by simp_all
qed

text \<open>An integer whose sign bit is clear in the type is stored with all its bits, also those above the size.\<close>

lemma store_sign_clear:
  assumes "is_signed (signedness b)" and p: "0 < bit_size b" and "\<not> bit x (bit_size b - 1)"
  shows "limbs_int (data (store b x)) = x mod 2 ^ (LENGTH('a) * limb_size (b :: 'a::len word bit_span))"
proof -
  have "written_limb b i (Dyn (limb_of x i)) (normal_type b) = limb_of x i" if i: "i < limb_size b" for i
  proof (cases "i = limb_size b - 1 \<and> normal_type b = Normal")
    case True
    then show ?thesis
      using bit_written_signed [OF assms(1) p i] assms(3) by (intro bit_word_eqI) (simp add: bit_limb_of)
  next
    case False
    then show ?thesis by (cases "normal_type b") (auto simp: written_limb_def)
  qed
  then show ?thesis
    by (simp add: store_def span_written_def limbs_int_map limbs_val_limb_of cong: limbs_val_cong)
qed

lemma bigint_store_stray:
  assumes "is_signed (signedness b)" and m: "bit_size b = Suc m" and "- (2 ^ Suc m) \<le> x" and "x < - (2 ^ m)"
    and "span_shape b" and "\<not> LENGTH('a) dvd Suc m"
  shows "\<not> bigint_ok (store (b :: 'a::len word bit_span) x)"
proof
  let ?M = "2 ^ (LENGTH('a) * limb_size b) :: int"
  assume ok: "bigint_ok (store b x)"
  have "(x + 2 ^ Suc m) mod 2 ^ Suc m = x mod 2 ^ Suc m" by (rule mod_add_self2)
  moreover have "(x + 2 ^ Suc m) mod 2 ^ Suc m = x + 2 ^ Suc m" using assms(3,4) by (intro mod_pos_pos_trivial) simp_all
  ultimately have "take_bit (Suc m) x = x + 2 ^ Suc m" by (simp add: take_bit_eq_mod)
  moreover have "\<not> bit (x + 2 ^ Suc m) m"
    using bit_take_bit_iff [of m "x + 2 ^ Suc m" m] assms(3,4) by (simp add: take_bit_int_eq_self)
  ultimately have clear: "\<not> bit x m" using bit_take_bit_iff [of "Suc m" x m] by simp
  have "limbs_int (data (store b x)) = x mod ?M" using store_sign_clear [OF assms(1)] m clear by simp
  moreover have "span_int (store b x) = x + 2 ^ Suc m"
    using wrap_signed(3) [OF assms(1) m, of x] assms(3,4) zero_le_power [of "2 :: int" m] by (simp add: span_int_store [OF assms(5)])
  ultimately have "x mod ?M = (x + 2 ^ Suc m) mod ?M" using ok by (simp add: bigint_ok_def span_normal_def)
  then have "?M dvd 2 ^ Suc m" using mod_eq_dvd_iff [of "x + 2 ^ Suc m" ?M x] by simp
  then have "?M \<le> 2 ^ Suc m" by (rule zdvd_imp_le) simp
  then have "LENGTH('a) * limb_size b \<le> Suc m" by (rule power_le_imp_le_exp [rotated]) simp
  moreover have "Suc m \<le> LENGTH('a) * limb_size b" using bit_size_le_limbs [of b] m by simp
  ultimately have "LENGTH('a) dvd Suc m" by (metis dvd_triv_left order_antisym)
  with assms(6) show False by blast
qed

text \<open>A difference with an integer without bits: the type gets a sign, but no bit for it.\<close>

lemma bigint_subtract_null:
  assumes "sycl_ok E" and l: "bigint_ok l" "is_unsigned (signedness l)" "0 < bit_size l" and r: "bigint_ok r" "bit_size r = 0"
  shows "span_int (bigint_subtract E g l r) = (if span_int l < 2 ^ (bit_size l - 1) then span_int l else span_int l - 2 ^ bit_size l)"
    and "normal_type l = Normal \<Longrightarrow> normal_type r = Normal \<Longrightarrow> bigint_ok (bigint_subtract E g l r)"
proof -
  let ?b = "uninit (bit_size l) With_sign (common_normal (normal_type l) (normal_type r)) g"
  have eq: "bigint_subtract E g l r = store ?b (span_int l)"
    using bigint_subtract_eq [OF assms(1) l(1) r(1)] r bigint_no_bits(1) [OF r] by (simp add: subtract_bits_def)
  obtain m where m: "bit_size l = Suc m" using l(3) by (cases "bit_size l") simp_all
  have shape: "span_shape ?b" using l(3) by (intro uninit_shape)
  note range = bigint_range(1) [OF l(1,2)]
  have pos: "(0 :: int) \<le> 2 ^ m" by simp
  have "span_int l < 3 * 2 ^ m" "- (2 ^ m) \<le> span_int l" using range pos m by (simp_all only: power_Suc) linarith+
  then show "span_int (bigint_subtract E g l r) = (if span_int l < 2 ^ (bit_size l - 1) then span_int l else span_int l - 2 ^ bit_size l)"
    unfolding eq span_int_store [OF shape] using wrap_signed [of ?b m "span_int l"] m by simp
  show "bigint_ok (bigint_subtract E g l r)" if "normal_type l = Normal" "normal_type r = Normal"
  proof -
    have "(0 :: int) \<le> 2 ^ (bit_size l - 1)" by simp
    then have "- (2 ^ (bit_size l - 1)) \<le> span_int l" using range by linarith
    then show ?thesis using bigint_store_signed [OF shape, of "span_int l"] range that by (simp add: eq common_normal_def)
  qed
qed

lemma bigint_no_signed_bits:
  assumes "is_signed (signedness b)" and "bit_size b = 0"
  shows "\<not> bigint_ok b"
  using assms by (simp add: bigint_ok_def span_shape_def)

text \<open>A signed integer that is shifted right by all its bits: the result has no bits, its value is 0 and no longer -1.\<close>

lemma bigint_shift_right_beyond:
  assumes "sycl_ok E" and v: "bigint_ok v" "is_signed (signedness v)" and "bit_size v \<le> s"
  shows "\<not> bigint_ok (bigint_shift_right E g v s)" and "span_int (bigint_shift_right E g v s) = 0"
    and "span_int v div 2 ^ s = (if span_int v < 0 then - 1 else 0)"
proof -
  let ?b = "uninit 0 (signedness v) (normal_type v) g"
  have eq: "bigint_shift_right E g v s = store ?b (span_int v div 2 ^ s)"
    using num_shift_right_eq [OF assms(1), of ?b "Bits v"] stream_int_rspan_int [OF assms(1), of "Bits v" Normal] v(1) assms(4)
    by (simp add: bigint_shift_right_def ints_defs)
  show "\<not> bigint_ok (bigint_shift_right E g v s)" unfolding eq using v(2) by (intro bigint_no_signed_bits) simp_all
  have "length (data (store ?b (span_int v div 2 ^ s))) = 0" by (simp add: limb_size_for_def)
  then have "data (store ?b (span_int v div 2 ^ s)) = []" by (simp only: length_0_conv)
  then show "span_int (bigint_shift_right E g v s) = 0" unfolding eq span_int_def by (simp add: wrap_def)
  have "(2 :: int) ^ (bit_size v - 1) \<le> 2 ^ s" using assms(4) by (intro power_increasing) simp_all
  then have range: "- (2 ^ s) \<le> span_int v" "span_int v < 2 ^ s" using bigint_range(2) [OF v] by linarith+
  have "(span_int v + 2 ^ s) div 2 ^ s = span_int v div 2 ^ s + 1" by (rule div_add_self2) simp
  moreover have "(span_int v + 2 ^ s) div 2 ^ s = 0" if "span_int v < 0" using that range by (intro div_pos_pos_trivial) simp_all
  moreover have "span_int v div 2 ^ s = 0" if "0 \<le> span_int v" using that range by (intro div_pos_pos_trivial) simp_all
  ultimately show "span_int v div 2 ^ s = (if span_int v < 0 then - 1 else 0)" by (cases "span_int v < 0") simp_all
qed

text \<open>The negation of the least signed integer is the integer itself.\<close>

lemma bigint_negate_least:
  assumes "sycl_ok E" and v: "bigint_ok v" "is_signed (signedness v)" and "span_int v = - (2 ^ (bit_size v - 1))"
  shows "span_int (bigint_negate E g h v) = span_int v"
    and "normal_type v = Normal \<Longrightarrow> bigint_ok (bigint_negate E g h v)"
proof -
  let ?b = "uninit (bit_size v) With_sign (normal_type v) g"
  have eq: "bigint_negate E g h v = store ?b (2 ^ (bit_size v - 1))" and shape: "span_shape ?b"
    using bigint_negate_eq [OF assms(1) v(1), of g] v(2) assms(4) by (simp_all add: is_unsigned_iff)
  obtain m where m: "bit_size v = Suc m" using bigint_signed_bits [OF v] by (cases "bit_size v") simp_all
  show "span_int (bigint_negate E g h v) = span_int v"
    unfolding eq span_int_store [OF shape] using wrap_signed(2) [of ?b m "2 ^ m"] m assms(4) by simp
  show "bigint_ok (bigint_negate E g h v)" if "normal_type v = Normal"
    using bigint_store_signed [OF shape, of "2 ^ m"] that m zero_le_power [of "2 :: int" m] by (simp add: eq)
qed

lemma bigint_store_wrap:
  assumes "span_shape b" and "normal_type b = Normal" and "is_signed (signedness b) \<Longrightarrow> in_range b x"
  shows "bigint_ok (store b x)" and "span_int (store b x) = wrap b x"
  using span_ok_store [OF assms(1,3)] assms(1,2) span_int_store [OF assms(1)] by (simp_all add: bigint_ok_def span_ok_def)

lemma bigint_compl_wraps:
  assumes "sycl_ok E" and v: "bigint_ok v" and "normal_type v = Normal"
  shows "bigint_ok (bigint_compl E g v)" and "span_int (bigint_compl E g v) = wrap v (NOT (span_int v))"
proof -
  let ?b = "uninit (bit_size v) (signedness v) (normal_type v) g"
  have eq: "bigint_compl E g v = store ?b (NOT (span_int v))"
    using num_bitwise_eq(4) [OF assms(1), of ?b "Bits v"] assms by (simp add: bigint_compl_def ints_defs)
  have shape: "span_shape ?b" using bigint_signed_bits [OF v] by (intro uninit_shape) auto
  have "in_range ?b (NOT (span_int v))" if "is_signed (signedness v)"
    using bigint_range(2) [OF v that] that by (auto simp: in_range_def not_int_def)
  from bigint_store_wrap [OF shape _ this] assms(3)
  show "bigint_ok (bigint_compl E g v)" "span_int (bigint_compl E g v) = wrap v (NOT (span_int v))"
    by (simp_all add: eq wrap_def)
qed

lemma bigint_convert_wraps:
  assumes "sycl_ok E" and v: "bigint_ok v" and "is_signed sg \<Longrightarrow> 0 < bits"
  shows "in_range (uninit bits sg nrm g) (span_int v) \<Longrightarrow> bigint_ok (bigint_convert E g bits sg nrm v)"
    and "in_range (uninit bits sg nrm g) (span_int v) \<Longrightarrow> span_int (bigint_convert E g bits sg nrm v) = span_int v"
    and "is_unsigned sg \<Longrightarrow> nrm = Normal \<Longrightarrow> bigint_ok (bigint_convert E g bits sg nrm v)"
    and "is_unsigned sg \<Longrightarrow> span_int (bigint_convert E g bits sg nrm v) = span_int v mod 2 ^ bits"
proof -
  let ?b = "uninit bits sg nrm g"
  have eq: "bigint_convert E g bits sg nrm v = store ?b (span_int v)"
    using num_bitwise_eq(5) [OF assms(1), of ?b "Bits v"] assms by (simp add: bigint_convert_def ints_defs)
  have shape: "span_shape ?b" using assms(3) by (rule uninit_shape)
  show "in_range ?b (span_int v) \<Longrightarrow> bigint_ok (bigint_convert E g bits sg nrm v)"
    "in_range ?b (span_int v) \<Longrightarrow> span_int (bigint_convert E g bits sg nrm v) = span_int v"
    using bigint_store [OF shape] by (simp_all add: eq)
  show "is_unsigned sg \<Longrightarrow> nrm = Normal \<Longrightarrow> bigint_ok (bigint_convert E g bits sg nrm v)"
    using bigint_store_wrap(1) [OF shape, of "span_int v"] unfolding eq by (simp add: is_unsigned_iff)
  show "is_unsigned sg \<Longrightarrow> span_int (bigint_convert E g bits sg nrm v) = span_int v mod 2 ^ bits"
    using span_int_store [OF shape] by (simp add: eq wrap_def is_unsigned_iff take_bit_eq_mod)
qed

lemma get_int_store_bits:
  assumes "span_shape b"
  shows "get_int E (Bits (store b x)) mod 2 ^ bit_size b = x mod 2 ^ bit_size (b :: 'a::len word bit_span)"
proof -
  have "(2 :: int) ^ bit_size b dvd 2 ^ (LENGTH('a) * limb_size b)" using bit_size_le_limbs [of b] by (rule le_imp_power_dvd)
  then have "get_int E (Bits (store b x)) mod 2 ^ bit_size b = limbs_int (data (store b x)) mod 2 ^ bit_size b"
    using get_int_mod [of "store b x" E] mod_mod_cancel [of "2 ^ bit_size b" "2 ^ (LENGTH('a) * limb_size b)" "get_int E (Bits (store b x))"]
    by simp
  moreover have "take_bit (bit_size b) (wrap b y) = take_bit (bit_size b) y" for y
    using assms by (cases "bit_size b") (simp_all add: wrap_def take_bit_signed_take_bit)
  moreover have "wrap b (limbs_int (data (store b x))) = wrap b x"
    using span_int_store [OF assms, of x] unfolding span_int_def wrap_def store_sel by simp
  ultimately show ?thesis unfolding take_bit_eq_mod by metis
qed

text \<open>The absolute value is exact also for the least signed integer, whose negation is not.\<close>

lemma bigint_abs_exact:
  assumes "sycl_ok E" and v: "bigint_ok v" and "normal_type v = Normal"
  shows "bigint_ok (bigint_abs E g n h v)" and "span_int (bigint_abs E g n h v) = \<bar>span_int v\<bar>"
    and "is_unsigned (signedness (bigint_abs E g n h v))"
proof -
  have "bigint_ok (bigint_abs E g n h v) \<and> span_int (bigint_abs E g n h v) = \<bar>span_int v\<bar>
    \<and> is_unsigned (signedness (bigint_abs E g n h v))"
  proof (cases "is_signed (signedness v)")
    case False
    then show ?thesis using v bigint_range(1) [OF v] by (simp add: bigint_abs_def is_unsigned_iff)
  next
    case True
    let ?neg = "bigint_negate E n h v" and ?b = "uninit (bit_size v) Without_sign (normal_type v) g"
    let ?c = "dynamic_value (span_sign v)"
    note r = bigint_range(2) [OF v True]
    have sign: "?c = of_bool (span_int v < 0)"
      using rspan_sign_iff [OF assms(1), of "Bits v"] v by simp
    have len: "length (data ?b) = limb_size ?b" by simp
    let ?x = "get_int E (Selected (Bits v) (Bits ?neg) ?c)"
    have eq: "bigint_abs E g n h v = store ?b ?x"
      using num_bitwise_eq(5) [OF assms(1) len] True by (simp add: bigint_abs_def ints_defs Let_def)
    note neg = bigint_negate_eq [OF assms(1) v, of n]
    let ?nb = "uninit (bit_size v + (if is_unsigned (signedness v) then 1 else 0)) With_sign (normal_type v) n"
    have "?x = get_int E (if ?c = 1 then Bits ?neg else Bits v)"
      unfolding get_int_def
      by (rule trans, rule stream_int_eqI [where t = "if ?c = 1 then Bits ?neg else Bits v"])
        (simp_all add: dyn_select assms(1,3) neg(1) common_normal_def)
    moreover have "get_int E (Bits ?neg) mod 2 ^ bit_size v = - span_int v mod 2 ^ bit_size v"
      using get_int_store_bits [OF neg(2), of E "- span_int v"] True by (simp add: neg(1) is_unsigned_iff)
    ultimately have "?x mod 2 ^ bit_size v = \<bar>span_int v\<bar> mod 2 ^ bit_size v"
      using v assms(1) by (simp add: sign abs_if)
    moreover have "\<bar>span_int v\<bar> < 2 ^ bit_size v" using r two_power_pred [of "bit_size v"] by (simp add: abs_if)
    ultimately have w: "wrap ?b ?x = \<bar>span_int v\<bar>" by (simp add: wrap_def take_bit_eq_mod)
    have "span_shape ?b" by (rule uninit_shape) simp
    from bigint_store_wrap [OF this, of ?x] show ?thesis
      unfolding eq by (simp add: assms(3) w [unfolded assms(3)] is_unsigned_def)
  qed
  then show "bigint_ok (bigint_abs E g n h v)" "span_int (bigint_abs E g n h v) = \<bar>span_int v\<bar>"
    "is_unsigned (signedness (bigint_abs E g n h v))" by blast+
qed

text \<open>Comparison, division and inversion.\<close>

lemma bigint_compare_exact:
  assumes "sycl_ok E" and l: "bigint_ok l" and r: "bigint_ok r" and s: "signedness l = signedness r"
  shows "bigint_compare ints_less E l r = of_bool (span_int l < span_int r)"
    and "bigint_compare ints_less_equal E l r = of_bool (span_int l \<le> span_int r)"
    and "bigint_compare ints_greater E l r = of_bool (span_int l > span_int r)"
    and "bigint_compare ints_greater_equal E l r = of_bool (span_int l \<ge> span_int r)"
    and "bigint_compare ints_equal_to E l r = of_bool (span_int l = span_int r)"
    and "bigint_compare ints_not_equal_to E l r = of_bool (span_int l \<noteq> span_int r)"
proof -
  have "good_view (Bits l)" "good_view (Bits r)" using l r by (simp_all add: good_view_Bits bigint_ok_def)
  moreover have "comparable (Bits l) (Bits r)" using s by (simp add: comparable_def ambiguous_def is_unsigned_iff)
  ultimately show "bigint_compare ints_equal_to E l r = of_bool (span_int l = span_int r)"
    "bigint_compare ints_not_equal_to E l r = of_bool (span_int l \<noteq> span_int r)"
    using num_equality_eq [OF assms(1), of "Bits l" "Bits r"] by (simp_all add: bigint_compare_def ints_defs)
  show "bigint_compare ints_less E l r = of_bool (span_int l < span_int r)"
    "bigint_compare ints_less_equal E l r = of_bool (span_int l \<le> span_int r)"
    "bigint_compare ints_greater E l r = of_bool (span_int l > span_int r)"
    "bigint_compare ints_greater_equal E l r = of_bool (span_int l \<ge> span_int r)"
    using num_order_eq [OF assms(1), of "Bits l" "Bits r"] l r by (simp_all add: bigint_compare_def ints_defs)
qed

lemma nullspan_dest [simp]: "ct_dest (nullspan :: 'a::len word bit_span)" "bit_size (nullspan :: 'a word bit_span) = 0"
  "limb_size (nullspan :: 'a word bit_span) = 0"
proof -
  show "ct_dest (nullspan :: 'a word bit_span)" by (rule ct_ok_dest [OF ct_nullspan(1)])
  show s: "bit_size (nullspan :: 'a word bit_span) = 0" by (simp add: nullspan_def bit_array_def)
  show "limb_size (nullspan :: 'a word bit_span) = 0" by (simp add: limb_size_def s limb_size_for_def)
qed

lemma store_null: "store (nullspan :: 'a::len word bit_span) x = nullspan"
proof -
  have "data (store (nullspan :: 'a word bit_span) x) = []" by (metis length_0_conv nullspan_dest(3) store_sel(5))
  then show ?thesis by (simp add: store_def span_written_def nullspan_def bit_array_def)
qed

lemma unsigned_store:
  assumes "0 \<le> x" and "x < 2 ^ bits"
  shows "bigint_ok (store (uninit bits Without_sign nrm g) x)" and "span_int (store (uninit bits Without_sign nrm g) x) = x"
  using bigint_store [OF uninit_shape, of Without_sign bits nrm g x] assms by (simp_all add: in_range_def)

lemma unsigned_size: "bigint_ok v \<Longrightarrow> is_unsigned (signedness v) \<Longrightarrow> signedness v = Without_sign"
  by (simp add: is_unsigned_def)

lemma bigint_divide_exact:
  assumes l: "bigint_ok l" "is_unsigned (signedness l)" and r: "bigint_ok r" "is_unsigned (signedness r)" and "0 < span_int r"
  shows "\<exists>q. bigint_divide g l r = Some q \<and> bigint_ok q \<and> span_int q = span_int l div span_int r"
proof -
  let ?b = "uninit (bit_size l) Without_sign (normal_type l) g"
  note lr = bigint_range(1) [OF l] and lc = bigint_ct [OF l] and rc = bigint_ct [OF r]
  have q: "0 \<le> span_int l div span_int r" "span_int l div span_int r < 2 ^ bit_size l"
    using lr assms(5) zdiv_mono2 [of "span_int l" 1 "span_int r"] by (simp_all add: pos_imp_zdiv_nonneg_iff)
  have "(2 :: int) ^ bit_size l \<le> 2 ^ (LENGTH('a) * limb_size_for TYPE('a) (bit_size l))"
    using limb_size_for_bits by (rule power_increasing) simp
  then have "span_int l div span_int r < 2 ^ (LENGTH('a) * limb_size_for TYPE('a) (bit_size l))" using q(2) by linarith
  then have "ct_divide ?b nullspan (Other l) r = Some (store ?b (span_int l div span_int r), store nullspan (span_int l mod span_int r))"
    using ct_divide_some [of ?b nullspan "Other l" r] lc rc assms(5) by simp
  then show ?thesis
    using unsigned_store [OF q, of "normal_type l" g] l(2)
    by (simp add: bigint_divide_def ints_defs is_unsigned_def)
qed

lemma bigint_modulo_cases:
  fixes l r :: "'a::len word bit_span" and g :: "nat \<Rightarrow> 'a word"
  assumes l: "bigint_ok l" "is_unsigned (signedness l)" and r: "bigint_ok r" "is_unsigned (signedness r)" and "0 < span_int r"
  defines "m \<equiv> store (uninit (bit_size r) Without_sign (normal_type l) g) (span_int l mod span_int r)"
  shows "bigint_modulo g l r = Some m \<or> bigint_modulo g l r = None \<and> 2 ^ LENGTH('a) * span_int r \<le> span_int l"
    and "bigint_ok m" and "span_int m = span_int l mod span_int r"
proof -
  let ?b = "uninit (bit_size r) Without_sign (normal_type l) g"
  note rr = bigint_range(1) [OF r] and lc = bigint_ct [OF l] and rc = bigint_ct [OF r]
  have m: "0 \<le> span_int l mod span_int r" "span_int l mod span_int r < 2 ^ bit_size r"
    using rr assms(5) pos_mod_bound [OF assms(5), of "span_int l"] by (simp, linarith)
  show "bigint_ok m" "span_int m = span_int l mod span_int r" using unsigned_store [OF m] by (simp_all add: m_def)
  show "bigint_modulo g l r = Some m \<or> bigint_modulo g l r = None \<and> 2 ^ LENGTH('a) * span_int r \<le> span_int l"
    using ct_divide_eq [of nullspan ?b "Other l" r] lc rc assms(5) m(2) l(2)
    by (auto simp: bigint_modulo_def ints_defs is_unsigned_def m_def)
qed

lemma bigint_gcd_exact:
  assumes l: "bigint_ok l" "is_unsigned (signedness l)" and r: "bigint_ok r" "is_unsigned (signedness r)"
  shows "\<exists>d. bigint_gcd g l r = Some d \<and> bigint_ok d \<and> is_unsigned (signedness d) \<and> span_int d = gcd (span_int l) (span_int r)"
proof -
  let ?m = "max (bit_size l) (bit_size r)"
  note lr = bigint_range(1) [OF l] and rr = bigint_range(1) [OF r] and lc = bigint_ct [OF l] and rc = bigint_ct [OF r]
  have le: "(2 :: int) ^ bit_size l \<le> 2 ^ ?m" "(2 :: int) ^ bit_size r \<le> 2 ^ ?m" by (simp_all add: power_increasing)
  have "gcd (span_int l) (span_int r) \<le> span_int l \<or> gcd (span_int l) (span_int r) \<le> span_int r \<or> gcd (span_int l) (span_int r) = 0"
    using lr rr zdvd_imp_le [of "gcd (span_int l) (span_int r)" "span_int l"] zdvd_imp_le [of "gcd (span_int l) (span_int r)" "span_int r"]
    by (cases "span_int l = 0"; cases "span_int r = 0") auto
  then have "gcd (span_int l) (span_int r) < 2 ^ ?m" using lr rr le zero_less_power [of "2 :: int" ?m] by linarith
  note d = unsigned_store [OF _ this, of "normal_type l" g]
  show ?thesis
    using ct_gcd_eq [OF uninit_dest lc(1) rc(1)] lc(2) rc(2) d by (simp add: bigint_gcd_def ints_defs is_unsigned_def)
qed

lemma bigint_one [simp]:
  "bigint_ok (bigint_one :: 'a::len word bit_span)" "span_int (bigint_one :: 'a word bit_span) = 1"
  "signedness bigint_one = Without_sign" "bit_size bigint_one = 1" "normal_type bigint_one = Normal"
proof -
  show sel: "signedness bigint_one = Without_sign" "bit_size bigint_one = 1" "normal_type bigint_one = Normal"
    by (simp_all add: bigint_one_def bit_array_def)
  have d: "data (bigint_one :: 'a word bit_span) = [1]" by (simp add: bigint_one_def bit_array_def)
  have lim: "limb_size (bigint_one :: 'a word bit_span) = 1"
    by (simp add: limb_size_def sel limb_size_for_def div_ceil_def)
  show i: "span_int (bigint_one :: 'a word bit_span) = 1" by (simp add: span_int_def wrap_def sel d)
  show "bigint_ok (bigint_one :: 'a word bit_span)"
    using len_gt_0 [where 'a = 'a] by (simp add: bigint_ok_def span_shape_def span_normal_def sel d lim i)
qed

lemma invert_modulo_exact:
  assumes v: "bigint_ok v" "is_unsigned (signedness v)" and m: "bigint_ok m" "is_unsigned (signedness m)" and pos: "0 < span_int m"
  shows "gcd (span_int v) (span_int m) \<noteq> 1 \<Longrightarrow> invert_modulo g h v m = None"
    and "gcd (span_int v) (span_int m) = 1 \<Longrightarrow> \<exists>i. invert_modulo g h v m = Some i \<and> bigint_ok i \<and> is_unsigned (signedness i)
      \<and> bit_size i = bit_size m \<and> 0 \<le> span_int i \<and> span_int i \<le> span_int m
      \<and> (span_int v * span_int i) mod span_int m = 1 mod span_int m"
proof -
  let ?x = "span_int v" and ?y = "span_int m" and ?n = "max (bit_size v) (bit_size m)"
  let ?d = "uninit ?n Without_sign (normal_type v) g" and ?b = "uninit (bit_size m) Without_sign (normal_type v) h"
  note vr = bigint_range(1) [OF v] and mr = bigint_range(1) [OF m] and vc = bigint_ct [OF v] and mc = bigint_ct [OF m]
  obtain s t where e: "bezout_result ?d ?b nullspan ?x ?y (ct_extended_euclidean ?d ?b nullspan v m) s t"
    using ct_extended_euclidean_eq [of ?d ?b nullspan v m] vc mc by auto
  have le: "(2 :: int) ^ bit_size m \<le> 2 ^ ?n" by (simp add: power_increasing)
  have "gcd ?x ?y \<le> ?y" using zdvd_imp_le [of "gcd ?x ?y" ?y] pos by simp
  then have "gcd ?x ?y < 2 ^ ?n" using mr le by linarith
  note d = unsigned_store [OF _ this, of "normal_type v" g]
  have run: "invert_modulo g h v m
      = (if gcd ?x ?y = 1 then Some (store ?b s) else None)"
    using e d bigint_compare_exact(5) [OF sycl_ok_Consteval, of "store ?d (gcd ?x ?y)" bigint_one]
    by (auto simp: invert_modulo_def ints_defs bezout_result_def ct_assert_def)
  then show "gcd ?x ?y \<noteq> 1 \<Longrightarrow> invert_modulo g h v m = None" by simp
  assume g: "gcd ?x ?y = 1"
  have s: "0 \<le> s" "s \<le> ?y" "?y dvd ?x * s - 1" using e pos g by (simp_all add: bezout_result_def)
  then have "s < 2 ^ bit_size m" using mr by linarith
  from unsigned_store [OF s(1) this, of "normal_type v" h] s
  show "\<exists>i. invert_modulo g h v m = Some i \<and> bigint_ok i \<and> is_unsigned (signedness i)
      \<and> bit_size i = bit_size m \<and> 0 \<le> span_int i \<and> span_int i \<le> ?y \<and> (?x * span_int i) mod ?y = 1 mod ?y"
    by (simp add: run g is_unsigned_def mod_eq_dvd_iff)
qed

text \<open>Conversion keeps an integer exactly if the other type holds it.\<close>

lemma bigint_convert_iff:
  assumes "sycl_ok E" and v: "bigint_ok v" and "is_signed sg \<Longrightarrow> 0 < bits"
  shows "span_int (bigint_convert E g bits sg nrm v) = span_int v \<longleftrightarrow> in_range (uninit bits sg nrm g) (span_int v)"
proof -
  let ?b = "uninit bits sg nrm g"
  have "bigint_convert E g bits sg nrm v = store ?b (span_int v)"
    using num_bitwise_eq(5) [OF assms(1), of ?b "Bits v"] assms by (simp add: bigint_convert_def ints_defs)
  moreover have "span_shape ?b" using assms(3) by (rule uninit_shape)
  ultimately show ?thesis
    using in_range_wrap [of ?b "span_int v"] wrap_eq_self [of ?b "span_int v"] assms(3) by (auto simp: span_int_store)
qed

lemma bigint_compl_value:
  assumes "sycl_ok E" and v: "bigint_ok v"
  shows "span_int (bigint_compl E g v) = (if is_signed (signedness v) then - span_int v - 1 else 2 ^ bit_size v - 1 - span_int v)"
proof -
  let ?b = "uninit (bit_size v) (signedness v) (normal_type v) g"
  have eq: "bigint_compl E g v = store ?b (NOT (span_int v))"
    using num_bitwise_eq(4) [OF assms(1), of ?b "Bits v"] assms by (simp add: bigint_compl_def ints_defs)
  have shape: "span_shape ?b" using bigint_signed_bits [OF v] by (intro uninit_shape) auto
  have not: "NOT (span_int v) = - span_int v - 1" by (simp add: not_int_def)
  have "wrap ?b (- span_int v - 1) = (if is_signed (signedness v) then - span_int v - 1 else 2 ^ bit_size v - 1 - span_int v)"
  proof (cases "is_signed (signedness v)")
    case True
    then have "in_range ?b (- span_int v - 1)" using bigint_range(2) [OF v] by (auto simp: in_range_def)
    then show ?thesis using True shape by (simp add: wrap_eq_self span_shape_def)
  next
    case False
    then have "0 \<le> 2 ^ bit_size v - 1 - span_int v" "2 ^ bit_size v - 1 - span_int v < 2 ^ bit_size v"
      using bigint_range(1) [OF v] by (simp_all add: is_unsigned_iff)
    then have "(2 ^ bit_size v - 1 - span_int v) mod 2 ^ bit_size v = 2 ^ bit_size v - 1 - span_int v" by simp
    moreover have "(- span_int v - 1 + 2 ^ bit_size v) mod 2 ^ bit_size v = (- span_int v - 1) mod 2 ^ bit_size v" by (rule mod_add_self2)
    ultimately show ?thesis using False by (simp add: wrap_def take_bit_eq_mod algebra_simps)
  qed
  then show ?thesis by (simp add: eq span_int_store [OF shape] not)
qed

text \<open>Quotient and remainder together, and every result of the unsigned operators.\<close>

lemma bigint_divide_result_exact:
  assumes l: "bigint_ok l" "is_unsigned (signedness l)" and r: "bigint_ok r" "is_unsigned (signedness r)" and "0 < span_int r"
  shows "\<exists>q m. bigint_divide_result g h l r = Some (q, m) \<and> bigint_ok q \<and> bigint_ok m
    \<and> span_int q = span_int l div span_int r \<and> span_int m = span_int l mod span_int r"
proof -
  let ?b = "uninit (bit_size l) Without_sign (normal_type l) g" and ?c = "uninit (bit_size r) Without_sign (normal_type l) h"
  note lr = bigint_range(1) [OF l] and rr = bigint_range(1) [OF r] and lc = bigint_ct [OF l] and rc = bigint_ct [OF r]
  have q: "0 \<le> span_int l div span_int r" "span_int l div span_int r < 2 ^ bit_size l"
    using lr assms(5) zdiv_mono2 [of "span_int l" 1 "span_int r"] by (simp_all add: pos_imp_zdiv_nonneg_iff)
  have m: "0 \<le> span_int l mod span_int r" "span_int l mod span_int r < 2 ^ bit_size r"
    using rr assms(5) pos_mod_bound [OF assms(5), of "span_int l"] by (simp, linarith)
  have "(2 :: int) ^ bit_size l \<le> 2 ^ (LENGTH('a) * limb_size_for TYPE('a) (bit_size l))"
    using limb_size_for_bits by (rule power_increasing) simp
  then have "span_int l div span_int r < 2 ^ (LENGTH('a) * limb_size_for TYPE('a) (bit_size l))" using q(2) by linarith
  then have "bigint_divide_result g h l r = Some (store ?b (span_int l div span_int r), store ?c (span_int l mod span_int r))"
    using ct_divide_some [of ?b ?c "Other l" r] lc rc assms(5) m(2) by (simp add: bigint_divide_result_def ints_defs)
  then show ?thesis
    using unsigned_store [OF q, of "normal_type l" g] unsigned_store [OF m, of "normal_type l" h] by simp
qed

lemma bigint_unsigned_results_ok:
  assumes "sycl_ok E" and l: "bigint_ok l" "is_unsigned (signedness l)" and r: "bigint_ok r" "is_unsigned (signedness r)"
  shows "bigint_ok (bigint_multiply E g h l r)" and "bigint_gcd g l r = Some d \<Longrightarrow> bigint_ok d"
    and "0 < span_int r \<Longrightarrow> bigint_divide g l r = Some d \<Longrightarrow> bigint_ok d"
    and "0 < span_int r \<Longrightarrow> bigint_modulo g l r = Some d \<Longrightarrow> bigint_ok d"
    and "0 < span_int r \<Longrightarrow> bigint_divide_result g h l r = Some (d, e) \<Longrightarrow> bigint_ok d \<and> bigint_ok e"
  using bigint_multiply_exact(1) [OF assms] bigint_gcd_exact [OF l r, of g] bigint_divide_exact [OF l r, of g]
    bigint_modulo_cases(1,2) [OF l r, of g] bigint_divide_result_exact [OF l r, of g h] by auto

text \<open>Negation, right shift and difference for every operand.\<close>

lemma bigint_negate_all:
  assumes "sycl_ok E" and v: "bigint_ok v"
  defines "least \<equiv> is_signed (signedness v) \<and> span_int v = - (2 ^ (bit_size v - 1))"
  shows "span_int (bigint_negate E g h v) = (if least then span_int v else - span_int v)"
    and "\<not> least \<or> normal_type v = Normal \<Longrightarrow> bigint_ok (bigint_negate E g h v)"
  using bigint_negate_exact [OF assms(1,2), of g h] bigint_negate_least [OF assms(1,2), of g h]
  by (auto simp: least_def is_unsigned_iff)

lemma bigint_shift_right_all:
  fixes k :: nat
  assumes "sycl_ok E" and v: "bigint_ok v"
  defines "beyond \<equiv> is_signed (signedness v) \<and> bit_size v \<le> k"
  shows "span_int (bigint_shift_right E g v k) = (if beyond then 0 else span_int v div 2 ^ k)"
    and "bigint_ok (bigint_shift_right E g v k) \<longleftrightarrow> \<not> beyond"
  using bigint_shift_right_exact [OF assms(1,2), of k g] bigint_shift_right_beyond(1,2) [OF assms(1,2), of k g]
  by (cases beyond; auto simp: beyond_def not_le)+

lemma bigint_subtract_all:
  assumes "sycl_ok E" and l: "bigint_ok l" and r: "bigint_ok r" and s: "signedness l = signedness r"
  defines "upper \<equiv> bit_size r = 0 \<and> 2 ^ bit_size l \<le> 2 * span_int l"
  shows "span_int (bigint_subtract E g l r) = (if upper then span_int l - 2 ^ bit_size l else span_int l - span_int r)"
    and "0 < bit_size r \<or> 0 < bit_size l \<and> normal_type l = Normal \<and> normal_type r = Normal \<Longrightarrow> bigint_ok (bigint_subtract E g l r)"
proof -
  have "span_int (bigint_subtract E g l r) = (if upper then span_int l - 2 ^ bit_size l else span_int l - span_int r)
    \<and> (0 < bit_size r \<or> 0 < bit_size l \<and> normal_type l = Normal \<and> normal_type r = Normal \<longrightarrow> bigint_ok (bigint_subtract E g l r))"
  proof (cases "bit_size r = 0")
    case False
    then show ?thesis using bigint_subtract_exact [OF assms(1-4), of g] by (simp add: upper_def)
  next
    case True
    note null = bigint_no_bits [OF r True]
    have u: "is_unsigned (signedness l)" using null(2) s by (simp add: is_unsigned_iff)
    show ?thesis
    proof (cases "bit_size l")
      case 0
      let ?b = "uninit 0 With_sign (common_normal (normal_type l) (normal_type r)) g"
      have "bigint_subtract E g l r = store ?b 0"
        using bigint_subtract_eq [OF assms(1-3), of g] bigint_no_bits(1) [OF l 0] null(1) True 0 by (simp add: subtract_bits_def)
      moreover have "length (data (store ?b 0)) = 0" by (simp add: limb_size_for_def)
      then have "data (store ?b 0) = []" by (simp only: length_0_conv)
      then have "span_int (store ?b 0) = 0" unfolding span_int_def by (simp add: wrap_def)
      ultimately show ?thesis using 0 True bigint_no_bits(1) [OF l 0] null(1) by (simp add: upper_def)
    next
      case (Suc m)
      then show ?thesis
        using bigint_subtract_null [OF assms(1) l u _ r True, of g] True null(1) by (auto simp: upper_def)
    qed
  qed
  then show "span_int (bigint_subtract E g l r) = (if upper then span_int l - 2 ^ bit_size l else span_int l - span_int r)"
    "0 < bit_size r \<or> 0 < bit_size l \<and> normal_type l = Normal \<and> normal_type r = Normal \<Longrightarrow> bigint_ok (bigint_subtract E g l r)"
    by blast+
qed

text \<open>Operands of different signedness: the result has one bit less than it needs.\<close>

lemma bigint_mixed_range:
  assumes "bigint_ok l" and "bigint_ok r" and "signedness l \<noteq> signedness r"
  shows "0 \<le> span_int l \<and> span_int l < 2 ^ bit_size l \<and> - (2 ^ (bit_size r - 1)) \<le> span_int r \<and> span_int r < 2 ^ (bit_size r - 1)
    \<or> - (2 ^ (bit_size l - 1)) \<le> span_int l \<and> span_int l < 2 ^ (bit_size l - 1) \<and> 0 \<le> span_int r \<and> span_int r < 2 ^ bit_size r"
  using bigint_range [OF assms(1)] bigint_range [OF assms(2)] assms(3)
  by (cases "signedness l"; cases "signedness r") (simp_all add: is_unsigned_def)

lemma bigint_mixed_add:
  assumes "sycl_ok E" and l: "bigint_ok l" and r: "bigint_ok r" and "signedness l \<noteq> signedness r" and "0 < bit_size l" and "0 < bit_size r"
  defines "m \<equiv> max (bit_size l) (bit_size r)"
  shows "span_int (bigint_add E g l r)
    = (if span_int l + span_int r < 2 ^ m then span_int l + span_int r else span_int l + span_int r - 2 ^ Suc m)"
    and "normal_type l = Normal \<Longrightarrow> normal_type r = Normal \<Longrightarrow> bigint_ok (bigint_add E g l r)"
proof -
  let ?b = "common_uninit (Suc m) g l r" and ?x = "span_int l" and ?y = "span_int r"
  have sg: "is_signed (common_signedness (signedness l) (signedness r))"
    using assms(4) by (cases "signedness l"; cases "signedness r") (simp_all add: common_signedness_def is_signed_def)
  have shape: "span_shape ?b" by (simp add: common_uninit_def uninit_shape)
  have eq: "bigint_add E g l r = store ?b (?x + ?y)"
    using bigint_add_eq [OF assms(1-3)] assms(5,6) by (simp add: add_bits_def m_def)
  have le: "(2 :: int) ^ bit_size l \<le> 2 ^ m" "(2 :: int) ^ bit_size r \<le> 2 ^ m"
    "(2 :: int) ^ (bit_size l - 1) \<le> 2 ^ m" "(2 :: int) ^ (bit_size r - 1) \<le> 2 ^ m" by (simp_all add: m_def power_increasing)
  have "- (2 ^ m) \<le> ?x + ?y \<and> ?x + ?y < 2 * 2 ^ m"
    using bigint_mixed_range [OF l r assms(4)] le by linarith
  then have range: "- (2 ^ m) \<le> ?x + ?y" "?x + ?y < 2 * 2 ^ m" by blast+
  then show "span_int (bigint_add E g l r) = (if ?x + ?y < 2 ^ m then ?x + ?y else ?x + ?y - 2 ^ Suc m)"
    unfolding eq span_int_store [OF shape] using wrap_signed(1,2) [of ?b m "?x + ?y"] sg by simp
  show "bigint_ok (bigint_add E g l r)" if "normal_type l = Normal" "normal_type r = Normal"
    using bigint_store_signed [OF shape, of "?x + ?y"] range sg that by (simp add: eq common_normal_def)
qed

lemma bigint_mixed_subtract:
  fixes l r :: "'a::len word bit_span"
  assumes "sycl_ok E" and l: "bigint_ok l" and r: "bigint_ok r" and "signedness l \<noteq> signedness r" and "0 < bit_size r"
  defines "m \<equiv> max (bit_size l) (bit_size r)"
  shows "span_int (bigint_subtract E g l r)
    = (if span_int l - span_int r < - (2 ^ m) then span_int l - span_int r + 2 ^ Suc m
       else if span_int l - span_int r < 2 ^ m then span_int l - span_int r else span_int l - span_int r - 2 ^ Suc m)"
    and "span_int l - span_int r < - (2 ^ m) \<Longrightarrow> \<not> LENGTH('a) dvd Suc m \<Longrightarrow> \<not> bigint_ok (bigint_subtract E g l r)"
proof -
  let ?b = "uninit (Suc m) With_sign (common_normal (normal_type l) (normal_type r)) g" and ?x = "span_int l" and ?y = "span_int r"
  have shape: "span_shape ?b" by (simp add: uninit_shape)
  have eq: "bigint_subtract E g l r = store ?b (?x - ?y)"
    using bigint_subtract_eq [OF assms(1-3)] assms(5) by (simp add: subtract_bits_def m_def)
  have le: "(2 :: int) ^ bit_size l \<le> 2 ^ m" "(2 :: int) ^ bit_size r \<le> 2 ^ m"
    "(2 :: int) ^ (bit_size l - 1) \<le> 2 ^ m" "(2 :: int) ^ (bit_size r - 1) \<le> 2 ^ m" by (simp_all add: m_def power_increasing)
  have range: "- (2 * 2 ^ m) \<le> ?x - ?y \<and> ?x - ?y < 3 * 2 ^ m"
    using bigint_mixed_range [OF l r assms(4)] le by linarith
  moreover have "(0 :: int) \<le> 2 ^ m" by simp
  ultimately have "- (3 * 2 ^ m) \<le> ?x - ?y \<and> ?x - ?y < 3 * 2 ^ m" by linarith
  then show "span_int (bigint_subtract E g l r)
    = (if ?x - ?y < - (2 ^ m) then ?x - ?y + 2 ^ Suc m else if ?x - ?y < 2 ^ m then ?x - ?y else ?x - ?y - 2 ^ Suc m)"
    unfolding eq span_int_store [OF shape] using wrap_signed [of ?b m "?x - ?y"] by simp
  show "\<not> bigint_ok (bigint_subtract E g l r)" if "?x - ?y < - (2 ^ m)" "\<not> LENGTH('a) dvd Suc m"
    unfolding eq by (rule bigint_store_stray [OF _ _ _ that(1) shape that(2)]) (use range in simp_all)
qed

section \<open>Properties\<close>

text \<open>C8: The operators of the big integers keep the normal form, no stray bits above the size, whatever the uninitialized memory of
  the result was. For operands of one signedness these are sum, difference, the bitwise operators, the shifts, product, quotient, remainder, greatest
  common divisor, complement, absolute value, negation and conversion, with the conditions that the statement names: a difference with an
  integer without bits needs normalized types and a minuend with bits; a signed integer must not be shifted right by all its bits, and
  the statement says that this condition is exact; complement and absolute value need a normalized type, and so does the negation of the least
  signed integer; a conversion needs an integer that the other type holds, or an unsigned normalized type. The sum also keeps the
  normal form for operands of different signedness with normalized types. Not covered: differences and bitwise operators of
  different signedness, and conversion of an integer that does not fit to a signed type, which may leave stray bits.\<close>

theorem bigint_ok_preserved:
  assumes "sycl_ok E" and "bigint_ok l" and "bigint_ok r"
  shows "(signedness l = signedness r \<longrightarrow> bigint_ok (bigint_add E g l r)
        \<and> bigint_ok (bigint_bit_and E g l r) \<and> bigint_ok (bigint_bit_or E g l r) \<and> bigint_ok (bigint_bit_xor E g l r)
        \<and> (0 < bit_size r \<or> 0 < bit_size l \<and> normal_type l = Normal \<and> normal_type r = Normal \<longrightarrow> bigint_ok (bigint_subtract E g l r)))
    \<and> (signedness l \<noteq> signedness r \<and> 0 < bit_size l \<and> 0 < bit_size r \<and> normal_type l = Normal \<and> normal_type r = Normal
        \<longrightarrow> bigint_ok (bigint_add E g l r))
    \<and> (is_unsigned (signedness l) \<and> is_unsigned (signedness r) \<longrightarrow> bigint_ok (bigint_multiply E g h l r)
        \<and> (\<forall>d. bigint_gcd g l r = Some d \<longrightarrow> bigint_ok d)
        \<and> (\<forall>d. 0 < span_int r \<and> bigint_divide g l r = Some d \<longrightarrow> bigint_ok d)
        \<and> (\<forall>d. 0 < span_int r \<and> bigint_modulo g l r = Some d \<longrightarrow> bigint_ok d)
        \<and> (\<forall>q m. 0 < span_int r \<and> bigint_divide_result g n l r = Some (q, m) \<longrightarrow> bigint_ok q \<and> bigint_ok m))
    \<and> bigint_ok (bigint_shift_left E g l k)
    \<and> (bigint_ok (bigint_shift_right E g l k) \<longleftrightarrow> is_unsigned (signedness l) \<or> k < bit_size l)
    \<and> (is_unsigned (signedness l) \<or> span_int l \<noteq> - (2 ^ (bit_size l - 1)) \<or> normal_type l = Normal \<longrightarrow> bigint_ok (bigint_negate E g h l))
    \<and> (normal_type l = Normal \<longrightarrow> bigint_ok (bigint_compl E g l) \<and> bigint_ok (bigint_abs E g n h l))
    \<and> ((is_signed sg \<longrightarrow> 0 < bits) \<and> (in_range (uninit bits sg nrm g) (span_int l) \<or> is_unsigned sg \<and> nrm = Normal)
        \<longrightarrow> bigint_ok (bigint_convert E g bits sg nrm l))"
proof (intro conjI)
  show "signedness l = signedness r \<longrightarrow> bigint_ok (bigint_add E g l r)
        \<and> bigint_ok (bigint_bit_and E g l r) \<and> bigint_ok (bigint_bit_or E g l r) \<and> bigint_ok (bigint_bit_xor E g l r)
        \<and> (0 < bit_size r \<or> 0 < bit_size l \<and> normal_type l = Normal \<and> normal_type r = Normal \<longrightarrow> bigint_ok (bigint_subtract E g l r))"
    using bigint_add_exact(1) [OF assms] bigint_bitwise_exact [OF assms] bigint_subtract_all(2) [OF assms] by blast
  show "signedness l \<noteq> signedness r \<and> 0 < bit_size l \<and> 0 < bit_size r \<and> normal_type l = Normal \<and> normal_type r = Normal
        \<longrightarrow> bigint_ok (bigint_add E g l r)"
    using bigint_mixed_add(2) [OF assms] by blast
  show "is_unsigned (signedness l) \<and> is_unsigned (signedness r) \<longrightarrow> bigint_ok (bigint_multiply E g h l r)
        \<and> (\<forall>d. bigint_gcd g l r = Some d \<longrightarrow> bigint_ok d)
        \<and> (\<forall>d. 0 < span_int r \<and> bigint_divide g l r = Some d \<longrightarrow> bigint_ok d)
        \<and> (\<forall>d. 0 < span_int r \<and> bigint_modulo g l r = Some d \<longrightarrow> bigint_ok d)
        \<and> (\<forall>q m. 0 < span_int r \<and> bigint_divide_result g n l r = Some (q, m) \<longrightarrow> bigint_ok q \<and> bigint_ok m)"
  proof (intro impI)
    assume u: "is_unsigned (signedness l) \<and> is_unsigned (signedness r)"
    note ok = bigint_unsigned_results_ok [OF assms(1,2) _ assms(3), OF conjunct1 [OF u] conjunct2 [OF u]]
    show "bigint_ok (bigint_multiply E g h l r)
        \<and> (\<forall>d. bigint_gcd g l r = Some d \<longrightarrow> bigint_ok d)
        \<and> (\<forall>d. 0 < span_int r \<and> bigint_divide g l r = Some d \<longrightarrow> bigint_ok d)
        \<and> (\<forall>d. 0 < span_int r \<and> bigint_modulo g l r = Some d \<longrightarrow> bigint_ok d)
        \<and> (\<forall>q m. 0 < span_int r \<and> bigint_divide_result g n l r = Some (q, m) \<longrightarrow> bigint_ok q \<and> bigint_ok m)"
      using ok(1) ok(2-4) [of g] ok(5) [of g n] by simp
  qed
  show "bigint_ok (bigint_shift_left E g l k)" by (rule bigint_shift_left_exact(1) [OF assms(1,2)])
  show "bigint_ok (bigint_shift_right E g l k) \<longleftrightarrow> is_unsigned (signedness l) \<or> k < bit_size l"
    using bigint_shift_right_all(2) [OF assms(1,2), of g k] by (auto simp: is_unsigned_iff)
  show "is_unsigned (signedness l) \<or> span_int l \<noteq> - (2 ^ (bit_size l - 1)) \<or> normal_type l = Normal \<longrightarrow> bigint_ok (bigint_negate E g h l)"
    using bigint_negate_all(2) [OF assms(1,2), of g h] by (auto simp: is_unsigned_iff)
  show "normal_type l = Normal \<longrightarrow> bigint_ok (bigint_compl E g l) \<and> bigint_ok (bigint_abs E g n h l)"
    using bigint_compl_wraps(1) [OF assms(1,2)] bigint_abs_exact(1) [OF assms(1,2)] by blast
  show "(is_signed sg \<longrightarrow> 0 < bits) \<and> (in_range (uninit bits sg nrm g) (span_int l) \<or> is_unsigned sg \<and> nrm = Normal)
        \<longrightarrow> bigint_ok (bigint_convert E g bits sg nrm l)"
    using bigint_convert_wraps(1,3) [OF assms(1,2)] by blast
qed

lemma sample_bigint [simp]: "bigint_ok (sample xs)"
  by (simp add: bigint_ok_def)

lemma bigint_ok_preserved_witness:
  "bigint_ok (bigint_add sycl_device (\<lambda>_. 77) (sample [255, 255]) (sample [1]))
   \<and> bigint_ok (bigint_multiply sycl_device (\<lambda>_. 77) (\<lambda>i. of_nat i) (sample [255, 255]) (sample [1]))
   \<and> bigint_ok (bigint_negate sycl_device (\<lambda>_. 77) (\<lambda>i. of_nat i) (sample [255, 255]))
   \<and> bigint_ok (bigint_convert sycl_device (\<lambda>_. 77) 5 Without_sign Normal (sample [255, 255]))"
  using bigint_ok_preserved [OF sycl_ok_device, of "sample [255, 255]" "sample [1]" "\<lambda>_. 77" "\<lambda>i. of_nat i" "\<lambda>_. 0" 3 Without_sign 5 Normal]
  by (simp add: is_unsigned_def)

text \<open>C9: What the operators of the big integers compute from operands of one signedness. The sum, the bitwise operators, the left shift,
  the comparisons, the product, the quotient, the greatest common divisor (of unsigned operands) and the absolute value (of
  a normalized type) are those of the integers for every pair of operands. The remainder is, whenever the compiler accepts it, which it
  does if the quotient is a single limb. The other three have one exception each, and the theorem says what they give there: a difference with an integer
  without bits has no bit for the sign and loses \<open>2 ^ bit_size\<close> from half the range on, a signed integer that is shifted right by all its bits or more gives 0
  (also if it is negative), and the negation of the least signed integer is this integer. The complement is that of the operand's type.\<close>

theorem bigint_arithmetic_exact:
  fixes l r :: "'a::len word bit_span"
  assumes "sycl_ok E" and "bigint_ok l" and "bigint_ok r" and "signedness l = signedness r"
  shows "span_int (bigint_add E g l r) = span_int l + span_int r
    \<and> span_int (bigint_subtract E g l r)
        = (if bit_size r = 0 \<and> 2 ^ bit_size l \<le> 2 * span_int l then span_int l - 2 ^ bit_size l else span_int l - span_int r)
    \<and> (is_unsigned (signedness l) \<longrightarrow> span_int (bigint_multiply E g h l r) = span_int l * span_int r
        \<and> (\<exists>d. bigint_gcd g l r = Some d \<and> span_int d = gcd (span_int l) (span_int r)))
    \<and> (is_unsigned (signedness l) \<and> 0 < span_int r \<longrightarrow> (\<exists>q. bigint_divide g l r = Some q \<and> span_int q = span_int l div span_int r)
        \<and> (\<exists>q m. bigint_divide_result g n l r = Some (q, m)
            \<and> span_int q = span_int l div span_int r \<and> span_int m = span_int l mod span_int r)
        \<and> (\<forall>m. bigint_modulo g l r = Some m \<longrightarrow> span_int m = span_int l mod span_int r)
        \<and> (span_int l < 2 ^ LENGTH('a) * span_int r \<longrightarrow> (\<exists>m. bigint_modulo g l r = Some m)))
    \<and> span_int (bigint_bit_and E g l r) = span_int l AND span_int r
    \<and> span_int (bigint_bit_or E g l r) = span_int l OR span_int r
    \<and> span_int (bigint_bit_xor E g l r) = span_int l XOR span_int r
    \<and> span_int (bigint_compl E g l) = (if is_signed (signedness l) then - span_int l - 1 else 2 ^ bit_size l - 1 - span_int l)
    \<and> span_int (bigint_shift_left E g l k) = span_int l * 2 ^ k
    \<and> span_int (bigint_shift_right E g l k)
        = (if is_signed (signedness l) \<and> bit_size l \<le> k then 0 else span_int l div 2 ^ k)
    \<and> span_int (bigint_negate E g h l)
        = (if is_signed (signedness l) \<and> span_int l = - (2 ^ (bit_size l - 1)) then span_int l else - span_int l)
    \<and> (normal_type l = Normal \<longrightarrow> span_int (bigint_abs E g n h l) = \<bar>span_int l\<bar>)
    \<and> bigint_compare ints_less E l r = of_bool (span_int l < span_int r)
    \<and> bigint_compare ints_less_equal E l r = of_bool (span_int l \<le> span_int r)
    \<and> bigint_compare ints_equal_to E l r = of_bool (span_int l = span_int r)"
proof -
  have r: "is_unsigned (signedness l) \<Longrightarrow> is_unsigned (signedness r)" using assms(4) by simp
  note unsigned = bigint_multiply_exact(2) [OF assms(1,2) _ assms(3) r, of g h] bigint_gcd_exact [OF assms(2) _ assms(3) r, of g]
  note divided = bigint_divide_exact [OF assms(2) _ assms(3) r, of g] bigint_divide_result_exact [OF assms(2) _ assms(3) r, of g n]
  have modulo: "is_unsigned (signedness l) \<and> 0 < span_int r \<Longrightarrow>
      (\<forall>m. bigint_modulo g l r = Some m \<longrightarrow> span_int m = span_int l mod span_int r)
      \<and> (span_int l < 2 ^ LENGTH('a) * span_int r \<longrightarrow> (\<exists>m. bigint_modulo g l r = Some m))"
    using bigint_modulo_cases [OF assms(2) _ assms(3) r, of g] by fastforce
  show ?thesis
    unfolding bigint_add_exact(2) [OF assms] bigint_subtract_all(1) [OF assms] bigint_compl_value [OF assms(1,2)]
      bigint_shift_left_exact(2) [OF assms(1,2)] bigint_shift_right_all(1) [OF assms(1,2)] bigint_negate_all(1) [OF assms(1,2)]
      bigint_compare_exact [OF assms] bigint_bitwise_exact [OF assms, THEN conjunct2]
    using unsigned divided modulo bigint_abs_exact(2) [OF assms(1,2)] by blast
qed

lemma bigint_arithmetic_exact_witness:
  "span_int (bigint_subtract sycl_device (\<lambda>_. 77) (sample [1]) (sample [255, 255])) = - 65534
   \<and> span_int (bigint_multiply sycl_device (\<lambda>_. 77) (\<lambda>i. of_nat i) (sample [255, 255]) (sample [255])) = 16711425"
  using bigint_arithmetic_exact [OF sycl_ok_device, of "sample [1]" "sample [255, 255]" "\<lambda>_. 77" "\<lambda>_. 0" "\<lambda>_. 5" 3,
      THEN conjunct2, THEN conjunct1]
    bigint_arithmetic_exact [OF sycl_ok_device, of "sample [255, 255]" "sample [255]" "\<lambda>_. 77" "\<lambda>i. of_nat i" "\<lambda>_. 5" 3,
      THEN conjunct2, THEN conjunct2, THEN conjunct1]
  by (simp add: is_unsigned_def)

text \<open>C37: The result of a sum or difference of an unsigned and a signed integer with bits has one bit more than the
  larger operand, and it needs two: with \<open>m\<close> the larger of the two sizes the sum is \<open>2 ^ (m + 1)\<close> too small exactly if it is \<open>2 ^ m\<close>
  or more, for every pair of integers, and the differences are wrong by as much below \<open>- (2 ^ m)\<close> and from \<open>2 ^ m\<close> on. A difference below
  \<open>- (2 ^ m)\<close> also leaves stray bits above the size of the result, if the size does not fill the limbs. The difference of an unsigned
  integer and one without bits is signed but has no bit for the sign: it is \<open>2 ^ bit_size\<close> too small exactly if the integer has its top bit set.
\<close>

theorem bigint_mixed_signedness_overflows:
  fixes l r :: "'a::len word bit_span"
  assumes "sycl_ok E" and "bigint_ok l" and "is_unsigned (signedness l)" and "0 < bit_size l"
    and "bigint_ok r" and "is_signed (signedness r)" and "bigint_ok z" and "bit_size z = 0"
  defines "m \<equiv> max (bit_size l) (bit_size r)"
  shows "span_int (bigint_add E g l r) = span_int l + span_int r - (if span_int l + span_int r < 2 ^ m then 0 else 2 ^ Suc m)
    \<and> span_int (bigint_subtract E g l r) = span_int l - span_int r - (if span_int l - span_int r < 2 ^ m then 0 else 2 ^ Suc m)
    \<and> span_int (bigint_subtract E g r l) = span_int r - span_int l + (if - (2 ^ m) \<le> span_int r - span_int l then 0 else 2 ^ Suc m)
    \<and> (span_int r - span_int l < - (2 ^ m) \<and> \<not> LENGTH('a) dvd Suc m \<longrightarrow> \<not> bigint_ok (bigint_subtract E g r l))
    \<and> span_int (bigint_subtract E g l z) = span_int l - (if span_int l < 2 ^ (bit_size l - 1) then 0 else 2 ^ bit_size l)"
proof -
  have sg: "signedness l \<noteq> signedness r" using assms(3,6) by (auto simp: is_unsigned_iff)
  note rp = bigint_range(2) [OF assms(5,6)] and lp = bigint_range(1) [OF assms(2,3)]
  have le: "(2 :: int) ^ bit_size l \<le> 2 ^ m" "(2 :: int) ^ (bit_size r - 1) \<le> 2 ^ m" by (simp_all add: m_def power_increasing)
  have range: "- (2 ^ m) \<le> span_int l - span_int r" "span_int r - span_int l < 2 ^ m" using rp lp le by linarith+
  have r: "0 < bit_size r" using rp by blast
  note reverse = bigint_mixed_subtract [OF assms(1,5,2) sg [symmetric] assms(4), of g, unfolded max.commute [of "bit_size r"], folded m_def]
  show ?thesis
    using bigint_mixed_add(1) [OF assms(1,2,5) sg assms(4) r, of g, folded m_def] reverse
      bigint_mixed_subtract(1) [OF assms(1,2,5) sg r, of g, folded m_def] range bigint_subtract_null(1) [OF assms(1-4,7,8), of g]
    by simp
qed

lemma mixed_sample:
  "bigint_ok (bit_array 8 With_sign Normal [127 :: 8 word])" "span_int (bit_array 8 With_sign Normal [127 :: 8 word]) = 127"
  "bit_size (bit_array 8 With_sign Normal [127 :: 8 word]) = 8" "is_signed (signedness (bit_array 8 With_sign Normal [127 :: 8 word]))"
  "bigint_ok (bit_array 8 With_sign Normal [0x80 :: 8 word])" "span_int (bit_array 8 With_sign Normal [0x80 :: 8 word]) = - 128"
  "bit_size (bit_array 8 With_sign Normal [0x80 :: 8 word]) = 8" "is_signed (signedness (bit_array 8 With_sign Normal [0x80 :: 8 word]))"
  "bigint_ok (bigint_zero :: 8 word bit_span)" "bit_size (bigint_zero :: 8 word bit_span) = 0"
  by code_simp+

lemma bigint_mixed_signedness_overflows_witness:
  "span_int (bigint_add sycl_device (\<lambda>_. 77) (sample [255]) (bit_array 8 With_sign Normal [127])) = - 130
   \<and> span_int (bigint_subtract sycl_device (\<lambda>_. 77) (bit_array 8 With_sign Normal [0x80]) (sample [255])) = 129
   \<and> \<not> bigint_ok (bigint_subtract sycl_device (\<lambda>_. 77) (bit_array 8 With_sign Normal [0x80]) (sample [255]))
   \<and> span_int (bigint_subtract sycl_device (\<lambda>_. 77) (sample [255]) bigint_zero) = - 1"
  using bigint_mixed_signedness_overflows
      [OF sycl_ok_device, of "sample [255]" "bit_array 8 With_sign Normal [127]" bigint_zero "\<lambda>_. 77"]
    bigint_mixed_signedness_overflows
      [OF sycl_ok_device, of "sample [255]" "bit_array 8 With_sign Normal [0x80]" bigint_zero "\<lambda>_. 77"]
  by (simp add: is_unsigned_def mixed_sample)

text \<open>The absolute value of a signed integer is exact, also of the least one, whose negation is not; other
  negations are exact.\<close>

theorem bigint_abs_correct:
  assumes "sycl_ok E" and "bigint_ok v" and "normal_type v = Normal"
  shows "span_int (bigint_abs E g n h v) = \<bar>span_int v\<bar>
    \<and> (is_unsigned (signedness v) \<or> span_int v \<noteq> - (2 ^ (bit_size v - 1))
        \<longrightarrow> span_int (bigint_negate E g h v) = - span_int v)"
  using bigint_abs_exact [OF assms] bigint_negate_exact [OF assms(1,2), of g h] by auto

lemma bigint_abs_correct_witness:
  "span_int (bigint_abs sycl_device (\<lambda>_. 1) (\<lambda>_. 2) (\<lambda>_. 3) (bit_array 8 With_sign Normal [0x80 :: 8 word])) = 128"
proof -
  have b: "bigint_ok (bit_array 8 With_sign Normal [0x80 :: 8 word])" "span_int (bit_array 8 With_sign Normal [0x80 :: 8 word]) = - 128"
    "normal_type (bit_array 8 With_sign Normal [0x80 :: 8 word]) = Normal"
    by code_simp+
  from bigint_abs_correct [OF sycl_ok_device b(1,3), of "\<lambda>_. 1" "\<lambda>_. 2" "\<lambda>_. 3"] show ?thesis unfolding b(2) by simp
qed

text \<open>Division of unsigned big integers and the remainder fit together: when the compiler accepts the
  remainder, which it does if the quotient is a single limb, the two results give back the numerator, and
  the remainder is less than the denominator.\<close>

theorem bigint_divide_modulo_roundtrip:
  fixes l r :: "'a::len word bit_span"
  assumes "bigint_ok l" and "is_unsigned (signedness l)" and "bigint_ok r" and "is_unsigned (signedness r)" and "0 < span_int r"
  shows "(\<exists>q. bigint_divide g l r = Some q
      \<and> (\<forall>m. bigint_modulo h l r = Some m
          \<longrightarrow> span_int q * span_int r + span_int m = span_int l \<and> 0 \<le> span_int m \<and> span_int m < span_int r))
    \<and> (span_int l < 2 ^ LENGTH('a) * span_int r \<longrightarrow> (\<exists>m. bigint_modulo h l r = Some m))"
  using bigint_divide_exact [OF assms, of g] bigint_modulo_cases [OF assms, of h] assms(5) by auto

lemma bigint_divide_modulo_roundtrip_witness:
  "\<exists>q m. bigint_divide (\<lambda>_. 1) (sample [0x12, 0x34]) (sample [0x56]) = Some q
    \<and> bigint_modulo (\<lambda>_. 1) (sample [0x12, 0x34]) (sample [0x56]) = Some m
    \<and> span_int q * 0x56 + span_int m = 0x3412 \<and> span_int m < 0x56"
  using bigint_divide_modulo_roundtrip [of "sample [0x12, 0x34]" "sample [0x56]" "\<lambda>_. 1" "\<lambda>_. 1"]
  by (auto simp: is_unsigned_def)

text \<open>C10: Inversion modulo an unsigned big integer is rejected by the compiler exactly if there is no inverse,
  and otherwise gives an inverse.\<close>

theorem invert_modulo_correct:
  assumes "bigint_ok v" and "is_unsigned (signedness v)" and "bigint_ok m" and "is_unsigned (signedness m)" and "0 < span_int m"
  shows "(invert_modulo g h v m = None \<longleftrightarrow> gcd (span_int v) (span_int m) \<noteq> 1)
    \<and> (\<forall>i. invert_modulo g h v m = Some i
        \<longrightarrow> (span_int v * span_int i) mod span_int m = 1 mod span_int m \<and> 0 \<le> span_int i \<and> span_int i \<le> span_int m)"
  using invert_modulo_exact [OF assms, of g h] by (cases "gcd (span_int v) (span_int m) = 1") auto

lemma invert_modulo_correct_witness:
  "invert_modulo (\<lambda>_. 1) (\<lambda>_. 2) (sample [6]) (sample [9]) = None
   \<and> (\<exists>i. invert_modulo (\<lambda>_. 1) (\<lambda>_. 2) (sample [5]) (sample [9]) = Some i \<and> 5 * span_int i mod 9 = 1)"
proof -
  have g: "gcd 6 (9 :: int) = 3" "gcd 5 (9 :: int) = 1" by code_simp+
  have "invert_modulo (\<lambda>_. 1) (\<lambda>_. 2) (sample [6]) (sample [9]) = None"
    using invert_modulo_correct [of "sample [6]" "sample [9]" "\<lambda>_. 1" "\<lambda>_. 2"] by (simp add: is_unsigned_def g)
  moreover have "invert_modulo (\<lambda>_. 1) (\<lambda>_. 2) (sample [5]) (sample [9]) \<noteq> None
      \<and> (\<forall>i. invert_modulo (\<lambda>_. 1) (\<lambda>_. 2) (sample [5]) (sample [9]) = Some i \<longrightarrow> 5 * span_int i mod 9 = 1)"
    using invert_modulo_correct [of "sample [5]" "sample [9]" "\<lambda>_. 1" "\<lambda>_. 2"] by (simp add: is_unsigned_def g)
  ultimately show ?thesis by auto
qed

end
