(* ===== verification/Modint.thy ===== *)
theory Modint
  imports Interfaces Bigint
begin

text \<open>
  Integers modulo an odd number, \<^verbatim>\<open>ints/mod.hpp\<close>, with \<^verbatim>\<open>core/constant_bit_span.hpp\<close>.

  The type \<^verbatim>\<open>mod<Modulus>\<close> is the record of its static members, \<open>mod_constants\<close>, which the compiler computes
  (\<open>mod_type\<close>, \<open>None\<close> if it rejects the modulus); an object is its data member. The data is the
  Montgomery form: \<open>mod_val\<close>, the integer that the code's conversion gives, times \<open>R\<close>.
  The lemmas show every operation to be a \<open>store\<close> of the Montgomery form of the right integer; the interpretations of
  the locales \<open>modular\<close> and \<open>modular_power\<close> then give the laws of a ring and the powers.
\<close>

section \<open>Constant spans\<close>

definition constant_bit_span_from :: "'a::len word rspan \<Rightarrow> 'a word rspan option" where
  "constant_bit_span_from span = do {
     ct_assert (bool_cast (dynamic_value (core_bit_not (rspan_sign span))));
     let bits = unat (num_bit_width Consteval span);
     let limbs = limb_size_for TYPE('a) bits;
     Some (Constant_limbs (map (\<lambda>i. dynamic_value (get_limb Consteval span i)) [0..<limbs])) }"

definition constant_bit_span_of :: "'a::len word bit_span \<Rightarrow> 'a word rspan option" where
  "constant_bit_span_of v = constant_bit_span_from (Bits v)"

text \<open>\<open>bit_copy_to\<close> is the overload of \<^verbatim>\<open>ints::num::bit_copy\<close> that returns a new object.\<close>

definition bit_copy_to :: "'a::len word eval \<Rightarrow> 'a word bit_span \<Rightarrow> 'a word bit_span \<Rightarrow> 'a word bit_span" where
  "bit_copy_to E result v = ints_bit_copy E result (Bits v)"

section \<open>The type\<close>

record 'w mod_constants =
  mod_modulus :: "'w bit_span"
  mod_modulus_span :: "'w rspan"
  mod_half_modulus_span :: "'w rspan"
  mod_bit_size :: nat
  mod_inverse_modulus :: 'w
  mod_square :: "'w bit_span"
  mod_square_span :: "'w rspan"
  mod_cubed_span :: "'w rspan"

definition mod_inverse :: "(nat \<Rightarrow> 'a::len word) \<Rightarrow> 'a word bit_span \<Rightarrow> 'a word option" where
  "mod_inverse g M = do {
     let B = bit_array (LENGTH('a) + 1) Without_sign (normal_type M) [0, 1];
     inv \<leftarrow> invert_modulo g g M B;
     Some (- (data inv ! 0)) }"

definition mod_auxiliary :: "normalization \<Rightarrow> nat \<Rightarrow> 'a::len word bit_span" where
  "mod_auxiliary nrm n =
     span_write (bit_array (n * LENGTH('a) + 1) Without_sign nrm (replicate (n + 1) 0)) n (Const 1) Unnormal"

definition mod_cubed_auxiliary ::
    "(nat \<Rightarrow> 'a::len word) \<Rightarrow> 'a word bit_span \<Rightarrow> 'a word rspan \<Rightarrow> nat \<Rightarrow> 'a word \<Rightarrow> 'a word bit_span \<Rightarrow> 'a word bit_span" where
  "mod_cubed_auxiliary g result modulus_span limbs inverse_modulus square =
     (let intermediate_result = bigint_multiply Consteval g g square square
      in ints_montgomery_reduce Consteval result (Bits intermediate_result) modulus_span limbs inverse_modulus)"

definition mod_type :: "(nat \<Rightarrow> 'a::len word) \<Rightarrow> 'a word bit_span \<Rightarrow> 'a word mod_constants option" where
  "mod_type g M = do {
     modulus_span \<leftarrow> constant_bit_span_from (Bits M);
     half_modulus_span \<leftarrow> constant_bit_span_from (Bits (bigint_shift_right Consteval g M 1));
     ct_assert (is_unsigned (signedness M));
     ct_assert (bool_cast (bigint_compare ints_not_equal_to Consteval M bigint_zero));
     let bits = unat (ints_bit_width Consteval (Bits (bigint_subtract Consteval g M bigint_one)));
     let limbs = limb_size_for TYPE('a) bits;
     let unsigned_type = uninit bits Without_sign (normal_type M) g;
     inv \<leftarrow> mod_inverse g M;
     let auxiliary = mod_auxiliary (normal_type M) limbs;
     divisor \<leftarrow> bigint_gcd g auxiliary M;
     ct_assert (bool_cast (bigint_compare ints_equal_to Consteval divisor bigint_one));
     reduced \<leftarrow> bigint_modulo g auxiliary M;
     let reduced = bit_copy_to Consteval unsigned_type reduced;
     square \<leftarrow> bigint_modulo g (bigint_multiply Consteval g g reduced reduced) M;
     let square = bit_copy_to Consteval unsigned_type square;
     square_span \<leftarrow> constant_bit_span_from (Bits square);
     cubed_span \<leftarrow> constant_bit_span_from (Bits (mod_cubed_auxiliary g unsigned_type modulus_span limbs inv square));
     Some \<lparr>mod_modulus = M, mod_modulus_span = modulus_span, mod_half_modulus_span = half_modulus_span,
       mod_bit_size = bits, mod_inverse_modulus = inv, mod_square = square, mod_square_span = square_span,
       mod_cubed_span = cubed_span\<rparr> }"

definition mod_limb_size :: "'a::len word mod_constants \<Rightarrow> nat" where
  "mod_limb_size K = limb_size_for TYPE('a) (mod_bit_size K)"

text \<open>An object, declared without initializer.\<close>

definition mod_new :: "(nat \<Rightarrow> 'a::len word) \<Rightarrow> 'a word mod_constants \<Rightarrow> 'a word bit_span" where
  "mod_new g K = uninit (mod_bit_size K) Without_sign (normal_type (mod_modulus K)) g"

text \<open>Local arrays of limbs are not normalized.\<close>

definition mod_local :: "(nat \<Rightarrow> 'a::len word) \<Rightarrow> nat \<Rightarrow> 'a word bit_span" where
  "mod_local g bits = uninit bits Without_sign Unnormal g"

definition mod_reduce ::
    "'a::len word eval \<Rightarrow> 'a word mod_constants \<Rightarrow> 'a word bit_span \<Rightarrow> 'a word rspan \<Rightarrow> nat \<Rightarrow> 'a word bit_span" where
  "mod_reduce E K result v limbs = ints_montgomery_reduce E result v (mod_modulus_span K) limbs (mod_inverse_modulus K)"

section \<open>Operators\<close>

text \<open>The bodies of the operators, for a new result or for the left operand as the result.\<close>

definition mod_add_body ::
    "'a::len word eval \<Rightarrow> (nat \<Rightarrow> 'a word) \<Rightarrow> 'a word mod_constants \<Rightarrow> 'a word bit_span \<Rightarrow> 'a word bit_span \<Rightarrow> 'a word bit_span
     \<Rightarrow> 'a word bit_span" where
  "mod_add_body E g K result left right =
     (let sum = fst (ints_add E (mod_local g (mod_bit_size K + 1)) (Bits left) (Bits right) (Const 0))
      in if limb_size sum = mod_limb_size K
         then let (result, underflow) = ints_subtract E result (Bits sum) (mod_modulus_span K) (Const 0)
              in num_select_assign E result (Bits sum) underflow
         else let (difference, underflow) =
                    ints_subtract E (mod_local g (mod_bit_size K + 1)) (Bits sum) (mod_modulus_span K) (Const 0)
              in ints_select E result (Bits difference) (Bits sum) underflow)"

definition mod_subtract_body ::
    "'a::len word eval \<Rightarrow> (nat \<Rightarrow> 'a word) \<Rightarrow> 'a word mod_constants \<Rightarrow> 'a word bit_span \<Rightarrow> 'a word bit_span \<Rightarrow> 'a word bit_span
     \<Rightarrow> 'a word bit_span" where
  "mod_subtract_body E g K result left right =
     (let (difference, underflow) = ints_subtract E (mod_local g (mod_bit_size K)) (Bits left) (Bits right) (Const 0)
      in fst (ints_add E result (Bits difference) (Masked (mod_modulus_span K) (dynamic_value underflow)) (Const 0)))"

definition mod_multiply_body ::
    "'a::len word eval \<Rightarrow> (nat \<Rightarrow> 'a word) \<Rightarrow> 'a word mod_constants \<Rightarrow> 'a word bit_span \<Rightarrow> 'a word bit_span \<Rightarrow> 'a word bit_span
     \<Rightarrow> 'a word bit_span" where
  "mod_multiply_body E g K result left right =
     (let bits = mod_bit_size K + mod_bit_size K;
          product = ints_multiply E (memory g bits) (mod_local g bits) (Bits left) (Bits right)
      in mod_reduce E K result (Bits product) (mod_limb_size K))"

definition mod_operator where
  "mod_operator body E g K left right = body E g K (mod_new g K) left right"

definition mod_assign where
  "mod_assign body E g K left right = body E g K left left right"

abbreviation "mod_add \<equiv> mod_operator mod_add_body"
abbreviation "mod_subtract \<equiv> mod_operator mod_subtract_body"
abbreviation "mod_multiply \<equiv> mod_operator mod_multiply_body"

definition mod_compare ::
    "('a::len word eval \<Rightarrow> 'a word rspan \<Rightarrow> 'a word rspan \<Rightarrow> hbit) \<Rightarrow> 'a word eval \<Rightarrow> 'a word bit_span \<Rightarrow> 'a word bit_span \<Rightarrow> hbit" where
  "mod_compare function E left right = function E (Bits left) (Bits right)"

definition mod_negate ::
    "'a::len word eval \<Rightarrow> (nat \<Rightarrow> 'a word) \<Rightarrow> 'a word mod_constants \<Rightarrow> 'a word bit_span \<Rightarrow> 'a word bit_span" where
  "mod_negate E g K v = fst (ints_subtract E (mod_new g K)
     (Masked (mod_modulus_span K) (ints_not_equal_to E (Bits v) (Bits nullspan))) (Bits v) (Const 0))"

definition mod_invert ::
    "(nat \<Rightarrow> 'a::len word) \<Rightarrow> 'a word mod_constants \<Rightarrow> 'a word bit_span \<Rightarrow> 'a word bit_span option" where
  "mod_invert g K v = do {
     (divisor, inv, _) \<leftarrow> ints_extended_euclidean (mod_new g K) (mod_new g K) nullspan v (mod_modulus K);
     ct_assert (bool_cast (bigint_compare ints_equal_to Consteval divisor bigint_one));
     let bits = mod_bit_size K + mod_bit_size K;
     let product = ints_multiply Consteval (memory g (min bits (mod_bit_size K + rspan_bit_size (mod_cubed_span K))))
       (mod_local g bits) (Bits inv) (mod_cubed_span K);
     Some (mod_reduce Consteval K (mod_new g K) (Bits product) (mod_limb_size K)) }"

section \<open>Conversions\<close>

definition mod_to_unsigned ::
    "'a::len word eval \<Rightarrow> (nat \<Rightarrow> 'a word) \<Rightarrow> 'a word mod_constants \<Rightarrow> 'a word bit_span \<Rightarrow> 'a word bit_span" where
  "mod_to_unsigned E g K v = mod_reduce E K (mod_new g K) (Bits v) (mod_limb_size K)"

definition mod_to_signed ::
    "'a::len word eval \<Rightarrow> (nat \<Rightarrow> 'a word) \<Rightarrow> 'a word mod_constants \<Rightarrow> 'a word bit_span \<Rightarrow> 'a word bit_span" where
  "mod_to_signed E g K v =
     (let unsigned_result = mod_to_unsigned E g K v
      in fst (ints_subtract E (uninit (mod_bit_size K) With_sign (normal_type (mod_modulus K)) g) (Bits unsigned_result)
           (Masked (mod_modulus_span K) (ints_greater E (Bits unsigned_result) (mod_half_modulus_span K))) (Const 0)))"

section \<open>What a constant span stands for\<close>

definition represents :: "'a::len word rspan \<Rightarrow> int \<Rightarrow> bool" where
  "represents s x \<longleftrightarrow> rspan_ok s \<and> rspan_int s = x \<and> rspan_signedness s = Without_sign \<and> limbs_fit s
     \<and> rspan_bit_size s = std_bit_width (nat x)"

lemma constant_bit_size_eq: "xs = [] \<or> last xs \<noteq> 0 \<Longrightarrow> constant_bit_size xs = std_bit_width (nat (limbs_int xs))"
proof (induction xs rule: constant_bit_size.induct)
  case (3 x y xs)
  let ?h = "limbs_int (y # xs)"
  have "last (y # xs) \<noteq> 0" using 3(2) by simp
  then have ih: "constant_bit_size (y # xs) = std_bit_width (nat ?h)" using 3(1) by blast
  have "0 < ?h"
  proof -
    have "?h \<noteq> 0"
    proof
      assume "?h = 0"
      then have "\<forall>i < length (y # xs). (y # xs) ! i = 0" unfolding limbs_int_nth limbs_val_zero_iff .
      then have "last (y # xs) = 0" by (metis diff_Suc_1 last_conv_nth length_Cons lessI list.distinct(1))
      with \<open>last (y # xs) \<noteq> 0\<close> show False by simp
    qed
    then show ?thesis using limbs_int_nonneg [of "y # xs"] by linarith
  qed
  then have "std_bit_width (unat x + nat ?h * 2 ^ LENGTH('a)) = std_bit_width (nat ?h) + LENGTH('a)"
    using unsigned_less [of x] by (intro std_bit_width_shift) (simp_all add: zero_less_nat_eq del: limbs_int_Cons)
  moreover have "nat (limbs_int (x # y # xs)) = unat x + nat ?h * 2 ^ LENGTH('a)"
    using limbs_int_nonneg [of "y # xs"] limbs_int_Cons [of x "y # xs"]
    by (simp add: nat_add_distrib nat_mult_distrib nat_power_eq mult.commute del: limbs_int_Cons)
  ultimately show ?case using ih by simp
qed (simp_all add: std_bit_width.simps)

lemma limb_size_for_upper: "LENGTH('a::len) * limb_size_for TYPE('a) n < n + LENGTH('a)"
proof (cases "n = 0")
  case False
  have "limb_size_for TYPE('a) n \<noteq> 0" using False div_ceil_pos_iff [of "LENGTH('a)" n] by (simp add: limb_size_for_def)
  then have "LENGTH('a) * limb_size_for TYPE('a) n = LENGTH('a) * (limb_size_for TYPE('a) n - 1) + LENGTH('a)"
    by (cases "limb_size_for TYPE('a) n") simp_all
  then show ?thesis using div_ceil_upper [of n "LENGTH('a)"] False by (simp add: limb_size_for_def)
qed (simp add: limb_size_for_def)

lemma constant_bit_span_view:
  fixes s :: "'a::len word rspan"
  assumes "rspan_ok s" and "0 \<le> rspan_int s" and "LENGTH('a) * rspan_limb_size s < 2 ^ 64"
  shows "\<exists>t. constant_bit_span_from s = Some t \<and> represents t (rspan_int s)"
proof -
  let ?x = "rspan_int s" and ?L = "LENGTH('a)"
  note size = assms(3)
  have sign: "dynamic_value (rspan_sign s) = 0"
    using rspan_sign_iff [of Consteval s] assms by (simp add: not_less)
  define bits where "bits = std_bit_width (nat ?x)"
  define n where "n = limb_size_for TYPE('a) bits"
  have x: "?x < 2 ^ (?L * rspan_limb_size s)"
    using rspan_int_bounds(2) [OF sycl_ok_Consteval, of s] assms(1) by simp
  then have "nat ?x < 2 ^ (?L * rspan_limb_size s)" using assms(2) by (simp add: nat_less_iff)
  then have bits: "bits \<le> ?L * rspan_limb_size s" by (simp add: bits_def std_bit_width_le_iff)
  have w: "num_bit_width Consteval s = of_nat bits"
    using num_bit_width_eq [OF sycl_ok_Consteval, of s] assms(1,2) size by (simp add: bits_def not_less)
  have u: "unat (num_bit_width Consteval s) = bits"
    using bits size unfolding w by (simp add: unat_of_nat)
  have nle: "n \<le> rspan_limb_size s"
    using div_ceil_mono [OF bits, of ?L] by (simp add: n_def limb_size_for_def)
  define xs where "xs = map (limb_of ?x :: nat \<Rightarrow> 'a word) [0..<n]"
  have "dynamic_value (get_limb Consteval s i) = limb_of ?x i" if "i < n" for i
    using get_limb_of_int [of Consteval i s] that nle assms(1)
    by (simp add: get_int_rspan_int del: get_limb_Bits)
  then have run: "constant_bit_span_from s = Some (Constant_limbs xs)"
    using sign u by (simp add: constant_bit_span_from_def bool_cast_iff xs_def flip: n_def)
  have xn: "?x < 2 ^ (?L * n)"
  proof -
    have "nat ?x < 2 ^ bits" using std_bit_width_le_iff [of "nat ?x" bits] by (simp add: bits_def)
    then have "?x < 2 ^ bits" using assms(2) by (simp add: nat_less_iff)
    then show ?thesis by (rule nat_lt_of_int_pow) (simp add: n_def limb_size_for_bits)
  qed
  have val: "limbs_int xs = ?x"
    unfolding xs_def limbs_int_map using limb_of_range [OF assms(2) xn] by simp
  have last: "last xs \<noteq> 0" if "xs \<noteq> []"
  proof
    assume z: "last xs = 0"
    have n: "0 < n" using that by (simp add: xs_def)
    then obtain m where m: "n = Suc m" by (cases n) auto
    have "limb_of ?x m = (0 :: 'a word)" using z by (simp add: xs_def m)
    then have "limbs_val (limb_of ?x :: nat \<Rightarrow> 'a word) (Suc m) = limbs_val (limb_of ?x :: nat \<Rightarrow> 'a word) m" by simp
    then have "?x = limbs_val (limb_of ?x :: nat \<Rightarrow> 'a word) m" using limb_of_range [OF assms(2) xn] by (simp add: m)
    then have "?x < 2 ^ (?L * m)" using limbs_val_less [of "limb_of ?x :: nat \<Rightarrow> 'a word" m] by simp
    then have "bits \<le> ?L * m" using assms(2) by (simp add: bits_def std_bit_width_le_iff nat_less_iff)
    then have "n \<le> m" using div_ceil_mono [of bits "?L * m" ?L] by (simp add: n_def limb_size_for_def)
    then show False using m by simp
  qed
  have "constant_bit_size xs = bits" using constant_bit_size_eq [of xs] last val by (auto simp: bits_def)
  moreover have "length xs = n" by (simp add: xs_def)
  ultimately have "represents (Constant_limbs xs) ?x"
    using val by (simp add: represents_def limbs_fit_def bits_def n_def limb_size_for_def)
  then show ?thesis using run by blast
qed

lemma constant_bit_span:
  fixes v :: "'a::len word bit_span"
  assumes "bigint_ok v" and "0 \<le> span_int v" and "bit_size v + LENGTH('a) \<le> 2 ^ 64"
  shows "\<exists>s. constant_bit_span_from (Bits v) = Some s \<and> represents s (span_int v)"
  using constant_bit_span_view [of "Bits v"] limb_size_for_upper [of "bit_size v", where 'a = 'a] assms by (simp add: limb_size_def)

section \<open>Moduli and objects\<close>

definition mod_int :: "'a::len word mod_constants \<Rightarrow> int" where
  "mod_int K = span_int (mod_modulus K)"

definition mod_R :: "'a::len word mod_constants \<Rightarrow> int" where
  "mod_R K = 2 ^ (LENGTH('a) * mod_limb_size K)"

text \<open>What the compiler's computation of the constants establishes.\<close>

definition mod_sound :: "'a::len word mod_constants \<Rightarrow> bool" where
  "mod_sound K \<longleftrightarrow> bigint_ok (mod_modulus K) \<and> signedness (mod_modulus K) = Without_sign
     \<and> 0 < mod_int K \<and> mod_int K \<le> 2 ^ mod_bit_size K \<and> (0 < mod_bit_size K \<longrightarrow> 2 ^ (mod_bit_size K - 1) < mod_int K)
     \<and> (mod_int K * uint (mod_inverse_modulus K) + 1) mod 2 ^ LENGTH('a) = 0
     \<and> represents (mod_modulus_span K) (mod_int K) \<and> represents (mod_half_modulus_span K) (mod_int K div 2)
     \<and> bigint_ok (mod_square K) \<and> signedness (mod_square K) = Without_sign \<and> bit_size (mod_square K) = mod_bit_size K
     \<and> span_int (mod_square K) = mod_R K ^ 2 mod mod_int K
     \<and> represents (mod_square_span K) (mod_R K ^ 2 mod mod_int K)
     \<and> represents (mod_cubed_span K) (mod_R K ^ 3 mod mod_int K)"

text \<open>An object of the type: its data is an integer below the modulus, in Montgomery form.\<close>

definition mod_dest :: "'a::len word mod_constants \<Rightarrow> 'a word bit_span \<Rightarrow> bool" where
  "mod_dest K b \<longleftrightarrow> bit_size b = mod_bit_size K \<and> signedness b = Without_sign
     \<and> normal_type b = normal_type (mod_modulus K) \<and> length (data b) = limb_size b"

definition mod_ok :: "'a::len word mod_constants \<Rightarrow> 'a word bit_span \<Rightarrow> bool" where
  "mod_ok K x \<longleftrightarrow> mod_dest K x \<and> bigint_ok x \<and> span_int x < mod_int K"

definition mod_val :: "'a::len word mod_constants \<Rightarrow> 'a word bit_span \<Rightarrow> int" where
  "mod_val K x = span_int (mod_to_unsigned Consteval (\<lambda>_. 0) K x)"

lemma representsD:
  assumes "represents s x"
  shows "rspan_ok s" "rspan_int s = x" "rspan_signedness s = Without_sign" "limbs_fit s"
    "rspan_bit_size s = std_bit_width (nat x)" "is_unsigned (rspan_signedness s)" "0 \<le> x"
proof -
  show r: "rspan_ok s" "rspan_int s = x" "rspan_signedness s = Without_sign" "limbs_fit s"
    "rspan_bit_size s = std_bit_width (nat x)" "is_unsigned (rspan_signedness s)"
    using assms by (simp_all add: represents_def is_unsigned_def)
  show "0 \<le> x"
    using get_int_unsigned_nonneg [OF r(6), of Consteval] get_int_rspan_int [OF sycl_ok_Consteval r(1)] r(2) by simp
qed

lemma mod_soundD:
  assumes "mod_sound (K :: 'a::len word mod_constants)"
  shows "bigint_ok (mod_modulus K)" "signedness (mod_modulus K) = Without_sign" "0 < mod_int K"
    "mod_int K \<le> 2 ^ mod_bit_size K" "0 < mod_bit_size K \<Longrightarrow> 2 ^ (mod_bit_size K - 1) < mod_int K"
    "(mod_int K * uint (mod_inverse_modulus K) + 1) mod 2 ^ LENGTH('a) = 0"
    "represents (mod_modulus_span K) (mod_int K)" "represents (mod_half_modulus_span K) (mod_int K div 2)"
    "bigint_ok (mod_square K)" "signedness (mod_square K) = Without_sign" "bit_size (mod_square K) = mod_bit_size K"
    "span_int (mod_square K) = mod_R K ^ 2 mod mod_int K"
    "represents (mod_square_span K) (mod_R K ^ 2 mod mod_int K)"
    "represents (mod_cubed_span K) (mod_R K ^ 3 mod mod_int K)"
  using assms by (simp_all add: mod_sound_def)

lemma mod_new_dest [simp]: "mod_dest K (mod_new g K)"
  by (simp add: mod_dest_def mod_new_def)

lemma mod_okD:
  assumes "mod_ok K x"
  shows "mod_dest K x" "bigint_ok x" "0 \<le> span_int x" "span_int x < mod_int K" "signedness x = Without_sign"
    "bit_size x = mod_bit_size K" "limb_size x = mod_limb_size K"
proof -
  show x: "mod_dest K x" "bigint_ok x" "span_int x < mod_int K" using assms by (simp_all add: mod_ok_def)
  then show "signedness x = Without_sign" "bit_size x = mod_bit_size K" by (simp_all add: mod_dest_def)
  then show "0 \<le> span_int x" "limb_size x = mod_limb_size K"
    using bigint_range(1) [OF x(2)] by (simp_all add: is_unsigned_def limb_size_def mod_limb_size_def)
qed

lemma mod_store:
  assumes "mod_sound K" and "mod_dest K b" and "0 \<le> y" and "y < mod_int K"
  shows "mod_ok K (store b y)" and "span_int (store b y) = y"
proof -
  have shape: "span_shape b" using assms(2) by (simp add: mod_dest_def span_shape_def)
  have range: "in_range b y" using assms mod_soundD(4) [OF assms(1)] by (simp add: mod_dest_def in_range_def)
  from bigint_store [OF shape range] assms show "mod_ok K (store b y)" "span_int (store b y) = y"
    by (simp_all add: mod_ok_def mod_dest_def)
qed

lemma mod_dest_store: "mod_dest K b \<Longrightarrow> mod_dest K c \<Longrightarrow> store b y = store c y"
  by (rule bit_span.equality) (simp_all add: mod_dest_def store_def span_written_def limb_size_def written_limb_def last_limb_bit_size_def)

lemma mod_int_bits: "mod_sound K \<Longrightarrow> y < mod_int K \<Longrightarrow> y < 2 ^ mod_bit_size K"
  using mod_soundD(4) [of K] by linarith

lemma mod_R_bits: "2 ^ mod_bit_size K \<le> mod_R K" "0 < mod_R K"
  using power_increasing [OF limb_size_for_bits [of "mod_bit_size K"], of "2 :: int"] by (simp_all add: mod_R_def mod_limb_size_def)

lemma mod_reduce_eq:
  assumes "sycl_ok (E :: 'a::len word eval)" and "mod_sound K" and "mod_dest K b" and "rspan_ok v"
    and "0 \<le> rspan_int v" and "rspan_int v < 2 ^ (LENGTH('a) * r) * mod_int K"
  shows "\<exists>x. mod_reduce E K b v r = store b x \<and> 0 \<le> x \<and> x < mod_int K
    \<and> (x * 2 ^ (LENGTH('a) * r)) mod mod_int K = rspan_int v mod mod_int K"
proof -
  note s = mod_soundD [OF assms(2)] note m = representsD [OF s(7)]
  have "length (data b) = limb_size b" using assms(3) by (simp add: mod_dest_def)
  from num_montgomery_reduce_eq [OF assms(1) this assms(4) m(1,6) assms(5)] show ?thesis
    using assms(6) s(6) by (simp add: mod_reduce_def ints_defs m(2))
qed

section \<open>The Montgomery form\<close>

lemma odd_cancel:
  assumes "odd M" and "(x * 2 ^ n) mod M = (y * 2 ^ n) mod (M :: int)"
  shows "x mod M = y mod M"
proof -
  have "coprime M (2 ^ n)" using assms(1) by (simp add: coprime_right_2_iff_odd)
  moreover have "M dvd (x - y) * 2 ^ n" using assms(2) by (simp add: mod_eq_dvd_iff left_diff_distrib)
  ultimately show ?thesis by (simp add: mod_eq_dvd_iff coprime_dvd_mult_left_iff)
qed

lemma mod_odd:
  assumes "mod_sound (K :: 'a::len word mod_constants)"
  shows "odd (mod_int K)"
proof
  assume "even (mod_int K)"
  then have "even (mod_int K * uint (mod_inverse_modulus K))" by simp
  then have "odd ((mod_int K * uint (mod_inverse_modulus K) + 1) mod 2 ^ LENGTH('a))"
    using even_even_mod_4_iff by (simp add: even_mod_2_iff dvd_mod_iff)
  then show False using mod_soundD(6) [OF assms(1)] by simp
qed

lemma mod_cancel_R:
  assumes "mod_sound (K :: 'a::len word mod_constants)" and "(x * 2 ^ (LENGTH('a) * n)) mod mod_int K = (y * 2 ^ (LENGTH('a) * n)) mod mod_int K"
  shows "x mod mod_int K = y mod mod_int K"
  using odd_cancel [OF mod_odd [OF assms(1)] assms(2)] .

lemma mod_to_unsigned_eq:
  assumes "sycl_ok E" and "mod_sound K" and "mod_ok K x"
  shows "\<exists>y. mod_to_unsigned E g K x = store (mod_new g K) y \<and> 0 \<le> y \<and> y < mod_int K
    \<and> (y * mod_R K) mod mod_int K = span_int x"
proof -
  note x = mod_okD [OF assms(3)]
  have "mod_int K \<le> mod_R K * mod_int K" using mod_R_bits(2) [of K] mod_soundD(3) [OF assms(2)] by (simp add: mult_le_cancel_right1)
  then have "span_int x < mod_R K * mod_int K" using x(4) by linarith
  with mod_reduce_eq [OF assms(1,2) mod_new_dest, of "Bits x" "mod_limb_size K" g] x show ?thesis
    by (auto simp: mod_to_unsigned_def mod_R_def)
qed

lemma mod_val:
  assumes "mod_sound K" and "mod_ok K x"
  shows "0 \<le> mod_val K x" "mod_val K x < mod_int K" "(mod_val K x * mod_R K) mod mod_int K = span_int x"
  using mod_to_unsigned_eq [OF sycl_ok_Consteval assms, of "\<lambda>_. 0"] mod_store(2) [OF assms(1) mod_new_dest]
  by (auto simp: mod_val_def)

lemma mod_valI:
  assumes "mod_sound K" and "mod_dest K b" and "0 \<le> y" and "y < mod_int K" and "y mod mod_int K = (v * mod_R K) mod mod_int K"
  shows "mod_ok K (store b y) \<and> mod_val K (store b y) = v mod mod_int K"
proof -
  note s = mod_store [OF assms(1-4)]
  note m = mod_val [OF assms(1) s(1)]
  have "(mod_val K (store b y) * mod_R K) mod mod_int K = (v * mod_R K) mod mod_int K" using m(3) s(2) assms by simp
  then have "mod_val K (store b y) mod mod_int K = v mod mod_int K"
    unfolding mod_R_def by (rule mod_cancel_R [OF assms(1)])
  with m(1,2) s(1) show ?thesis by simp
qed


section \<open>The operators\<close>

lemma num_subtract_underflow:
  assumes "sycl_ok (E :: 'a::len word eval)" and "length (data b) = limb_size (b :: 'a word bit_span)"
    and "rspan_ok l" "rspan_int l = x" and "rspan_ok r" "rspan_int r = y"
    and "0 \<le> x" "x < modulus_of b" "0 \<le> y" "y < modulus_of b"
  shows "dynamic_value (snd (num_subtract E b l r (Const 0))) = of_bool (x < y)"
    and "fst (num_subtract E b l r (Const 0)) = store b (x - y)"
proof -
  note get = get_int_rspan_int [OF assms(1)]
  show "fst (num_subtract E b l r (Const 0)) = store b (x - y)"
    using num_subtract_eq(1) [OF assms(1,2), of l r "Const 0"] assms by (simp add: get)
  have "(x - y) div modulus_of b = - of_bool (x < y)"
    using assms(7-10) int_div_pos_eq [of "x - y" "modulus_of b" "- 1" "x - y + modulus_of b"]
    by (cases "x < y") (simp_all add: div_pos_pos_trivial)
  then have "uint (dynamic_value (snd (num_subtract E b l r (Const 0)))) = of_bool (x < y)"
    using num_subtract_eq(2) [OF assms(1,2), of l r "Const 0"] assms by (simp add: get)
  then show "dynamic_value (snd (num_subtract E b l r (Const 0))) = of_bool (x < y)"
    by (cases "x < y") (simp_all add: word_uint_eq_iff)
qed

lemma mod_local_sel [simp]:
  "bit_size (mod_local g n) = n" "signedness (mod_local g n) = Without_sign" "normal_type (mod_local g n) = Unnormal"
  "limb_size (mod_local g n :: 'a::len word bit_span) = limb_size_for TYPE('a) n"
  "length (data (mod_local g n :: 'a word bit_span)) = limb_size_for TYPE('a) n" "span_shape (mod_local g n)"
  unfolding mod_local_def by (simp, simp, simp, simp, simp, rule uninit_shape, simp)

lemma mod_local_store:
  assumes "0 \<le> x" and "x < 2 ^ n"
  shows "bigint_ok (store (mod_local g n) x)" and "span_int (store (mod_local g n) x) = x"
  using bigint_store [of "mod_local g n" x] assms by (simp_all add: in_range_def)

lemma power_limbs: "(2 :: int) ^ n \<le> 2 ^ (LENGTH('a::len) * limb_size_for TYPE('a) n)"
  using limb_size_for_bits by (rule power_increasing) simp

lemma mod_reduced_sum:
  fixes x y M :: int
  assumes "0 \<le> x" "x < M" "0 \<le> y" "y < M"
  shows "(if x + y < M then x + y else x + y - M) = (x + y) mod M" and "(x - y + (if x < y then M else 0)) = (x - y) mod M"
proof -
  have "(x + y - M) mod M = (x + y) mod M" "(x - y + M) mod M = (x - y) mod M" by simp_all
  moreover have "(x + y - M) mod M = x + y - M" if "\<not> x + y < M" using assms that by (intro mod_pos_pos_trivial) linarith+
  moreover have "(x - y + M) mod M = x - y + M" if "x < y" using assms that by (intro mod_pos_pos_trivial) linarith+
  ultimately show "(if x + y < M then x + y else x + y - M) = (x + y) mod M" "(x - y + (if x < y then M else 0)) = (x - y) mod M"
    using assms by simp_all
qed

lemma mod_add_body_eq:
  assumes "sycl_ok (E :: 'a::len word eval)" and "mod_sound K" and "mod_dest K b" and "mod_ok K x" and "mod_ok K y"
  shows "mod_add_body E g K b x y = store b ((span_int x + span_int y) mod mod_int K)"
proof -
  let ?M = "mod_int K" and ?n = "mod_bit_size K + 1" and ?s = "span_int x + span_int y"
  let ?loc = "mod_local g ?n :: 'a word bit_span"
  note x = mod_okD [OF assms(4)] and y = mod_okD [OF assms(5)]
  note m = representsD [OF mod_soundD(7) [OF assms(2)]] and M = mod_soundD(3,4) [OF assms(2)]
  have dest: "length (data b) = limb_size b" "limb_size b = mod_limb_size K"
    using assms(3) by (simp_all add: mod_dest_def limb_size_def mod_limb_size_def)
  have s: "0 \<le> ?s" "?s < 2 ^ ?n" using x y M by simp_all
  define sum where "sum = fst (ints_add E ?loc (Bits x) (Bits y) (Const 0))"
  have "sum = store ?loc ?s"
    using num_add_eq(1) [OF assms(1), of ?loc "Bits x" "Bits y" "Const 0"] x y assms(1) by (simp add: sum_def ints_defs)
  with mod_local_store [OF s, of g]
  have sum: "bigint_ok sum" "span_int sum = ?s" "limb_size sum = limb_size_for TYPE('a) ?n" by simp_all
  have sP: "?s < 2 ^ (LENGTH('a) * limb_size_for TYPE('a) ?n)" using s(2) power_limbs [of ?n, where 'a = 'a] by linarith
  have MP: "?M < 2 ^ (LENGTH('a) * limb_size_for TYPE('a) ?n)"
    using M zero_less_power [of "2 :: int" "mod_bit_size K"] power_limbs [of ?n, where 'a = 'a]
    by (simp only: power_add power_one_right)
  have r: "?s - ?M < ?M" using x y by linarith
  have "mod_add_body E g K b x y = store b (if ?s < ?M then ?s else ?s - ?M)"
  proof (cases "limb_size sum = mod_limb_size K")
    case True
    have P: "modulus_of b = 2 ^ (LENGTH('a) * limb_size_for TYPE('a) ?n)" using True sum(3) by (simp add: dest(2))
    note u = num_subtract_underflow [OF assms(1) dest(1), of "Bits sum" ?s "mod_modulus_span K" ?M, unfolded P]
    obtain d c where dc: "ints_subtract E b (Bits sum) (mod_modulus_span K) (Const 0) = (d, c)" by (rule prod.exhaust)
    then have d: "d = store b (?s - ?M)" and c: "dynamic_value c = of_bool (?s < ?M)"
      using u sum s(1) sP M(1) MP m by (simp_all add: ints_defs)
    have "mod_add_body E g K b x y = num_select_assign E d (Bits sum) c"
      unfolding mod_add_body_def Let_def sum_def [symmetric] using True dc by simp
    also have "\<dots> = store b (if ?s < ?M then ?s else get_int E (Bits d))"
      using num_select_assign_eq [of d E "Bits sum" c] num_select_eq [OF assms(1), of d "Bits d" "Bits sum" c] sum(1,2)
        get_int_rspan_int [OF assms(1), of "Bits sum"] by (simp add: d c)
    finally have eq: "mod_add_body E g K b x y = store b (if ?s < ?M then ?s else get_int E (Bits d))" .
    have "get_int E (Bits d) = ?s - ?M" if "\<not> ?s < ?M"
    proof -
      have "bigint_ok d" "span_int d = ?s - ?M"
        using mod_store [OF assms(2,3), of "?s - ?M"] that r by (simp_all add: d mod_ok_def)
      then show ?thesis using assms(1) by simp
    qed
    then show ?thesis by (cases "?s < ?M") (simp_all add: eq)
  next
    case False
    obtain d c where dc: "ints_subtract E ?loc (Bits sum) (mod_modulus_span K) (Const 0) = (d, c)" by (rule prod.exhaust)
    then have d: "d = store ?loc (?s - ?M)" and c: "dynamic_value c = of_bool (?s < ?M)"
      using num_subtract_underflow [OF assms(1), of ?loc "Bits sum" ?s "mod_modulus_span K" ?M] sum s(1) sP M(1) MP m
      by (simp_all add: ints_defs)
    have "mod_add_body E g K b x y = ints_select E b (Bits d) (Bits sum) c"
      unfolding mod_add_body_def Let_def sum_def [symmetric] using False dc by simp
    also have "\<dots> = store b (if ?s < ?M then ?s else get_int E (Bits d))"
      using num_select_eq [OF assms(1) dest(1), of "Bits d" "Bits sum" c] sum(1,2) get_int_rspan_int [OF assms(1), of "Bits sum"]
      by (simp add: c ints_defs)
    finally have eq: "mod_add_body E g K b x y = store b (if ?s < ?M then ?s else get_int E (Bits d))" .
    have "get_int E (Bits d) = ?s - ?M" if "\<not> ?s < ?M"
    proof -
      have "bigint_ok d" "span_int d = ?s - ?M"
        using mod_local_store [of "?s - ?M" ?n g] that s(2) M(1) by (simp_all add: d)
      then show ?thesis using assms(1) by simp
    qed
    then show ?thesis by (cases "?s < ?M") (simp_all add: eq)
  qed
  then show ?thesis using mod_reduced_sum(1) [OF x(3,4) y(3,4)] by simp
qed

lemma mod_subtract_body_eq:
  assumes "sycl_ok (E :: 'a::len word eval)" and "mod_sound K" and "mod_dest K b" and "mod_ok K x" and "mod_ok K y"
  shows "mod_subtract_body E g K b x y = store b ((span_int x - span_int y) mod mod_int K)"
proof -
  let ?M = "mod_int K" and ?n = "mod_bit_size K" and ?d = "span_int x - span_int y"
  let ?loc = "mod_local g ?n :: 'a word bit_span"
  note x = mod_okD [OF assms(4)] and y = mod_okD [OF assms(5)]
  note m = representsD [OF mod_soundD(7) [OF assms(2)]]
  have dest: "length (data b) = limb_size b" "limb_size b = limb_size_for TYPE('a) ?n"
    using assms(3) by (simp_all add: mod_dest_def limb_size_def)
  have P: "span_int x < modulus_of ?loc" "span_int y < modulus_of ?loc"
    unfolding mod_local_sel
    by (rule less_le_trans [OF mod_int_bits [OF assms(2) x(4)] power_limbs], rule less_le_trans [OF mod_int_bits [OF assms(2) y(4)] power_limbs])
  obtain d c where dc: "ints_subtract E ?loc (Bits x) (Bits y) (Const 0) = (d, c)" by (rule prod.exhaust)
  then have d: "d = store ?loc ?d" and c: "dynamic_value c = of_bool (span_int x < span_int y)"
    using num_subtract_underflow [OF assms(1), of ?loc "Bits x" "span_int x" "Bits y" "span_int y"] x y P by (simp_all add: ints_defs)
  have g: "get_int E (Bits d) = ?d mod modulus_of b"
    using get_int_store_raw [of ?loc E ?d] by (simp add: d dest(2) is_unsigned_def)
  have "mod_subtract_body E g K b x y = store b (?d mod modulus_of b + (if span_int x < span_int y then ?M else 0))"
    using num_add_eq(1) [OF assms(1) dest(1), of "Bits d" "Masked (mod_modulus_span K) (dynamic_value c)" "Const 0"] m
      get_int_rspan_int [OF assms(1), of "Masked (mod_modulus_span K) (dynamic_value c)"]
    unfolding mod_subtract_body_def Let_def dc prod.case by (simp add: ints_defs g c)
  also have "\<dots> = store b (?d + (if span_int x < span_int y then ?M else 0))"
    by (rule store_cong) (simp add: mod_simps)
  finally show ?thesis using mod_reduced_sum(2) [OF x(3,4) y(3,4)] by simp
qed

lemma mod_product:
  assumes "sycl_ok (E :: 'a::len word eval)" and "rspan_ok l" "limbs_fit l" "rspan_int l = x" "0 \<le> x" "x < 2 ^ rspan_bit_size l"
    and "rspan_ok r" "limbs_fit r" "rspan_int r = y" "0 \<le> y" "y < 2 ^ rspan_bit_size r" and "x * y < 2 ^ n"
    and "0 < rspan_bit_size r \<or> rspan_bit_size l = 0 \<or> n = 0"
  shows "bigint_ok (ints_multiply E (memory g (min n (rspan_bit_size l + rspan_bit_size r))) (mod_local g n) l r)"
    and "span_int (ints_multiply E (memory g (min n (rspan_bit_size l + rspan_bit_size r))) (mod_local g n) l r) = x * y"
proof -
  have "ints_multiply E (memory g (min n (rspan_bit_size l + rspan_bit_size r))) (mod_local g n) l r = store (mod_local g n) (x * y)"
    using num_multiply_eq [OF assms(1), of "mod_local g n" "memory g (min n (rspan_bit_size l + rspan_bit_size r))" l r] assms
    by (auto simp: ints_defs get_int_rspan_int)
  then show "bigint_ok (ints_multiply E (memory g (min n (rspan_bit_size l + rspan_bit_size r))) (mod_local g n) l r)"
    "span_int (ints_multiply E (memory g (min n (rspan_bit_size l + rspan_bit_size r))) (mod_local g n) l r) = x * y"
    using mod_local_store [of "x * y" n g] assms(5,10,12) by simp_all
qed


text \<open>Products that are reduced at once.\<close>

lemma mod_multiply_reduce:
  assumes "sycl_ok (E :: 'a::len word eval)" and "mod_sound K" and "mod_dest K b"
    and l: "rspan_ok l" "limbs_fit l" "0 \<le> rspan_int l" "rspan_int l < 2 ^ rspan_bit_size l"
    and r: "rspan_ok r" "limbs_fit r" "0 \<le> rspan_int r" "rspan_int r < 2 ^ rspan_bit_size r"
    and n: "rspan_int l * rspan_int r < 2 ^ n" "0 < rspan_bit_size r \<or> rspan_bit_size l = 0 \<or> n = 0"
    and "rspan_int l * rspan_int r < mod_R K * mod_int K" and m: "m = min n (rspan_bit_size l + rspan_bit_size r)"
  shows "\<exists>y. mod_reduce E K b (Bits (ints_multiply E (memory g m) (mod_local g n) l r)) (mod_limb_size K) = store b y
    \<and> 0 \<le> y \<and> y < mod_int K \<and> (y * mod_R K) mod mod_int K = (rspan_int l * rspan_int r) mod mod_int K"
  using mod_product [OF assms(1) l(1,2) refl l(3,4) r(1,2) refl r(3,4) n, of g]
    mod_reduce_eq [OF assms(1-3), of "Bits (ints_multiply E (memory g m) (mod_local g n) l r)" "mod_limb_size K"] assms(14) l(3) r(3)
  by (simp add: mod_R_def m)

lemma mod_okV:
  assumes "mod_ok K x"
  shows "rspan_ok (Bits x)" "limbs_fit (Bits x)" "0 \<le> rspan_int (Bits x)" "rspan_int (Bits x) < 2 ^ rspan_bit_size (Bits x)"
  using mod_okD [OF assms] bigint_range(1) [of x]
  by (simp_all add: limbs_fit_def limb_size_def limb_size_for_def is_unsigned_def)

lemma representsV:
  assumes "represents s x"
  shows "rspan_ok s" "limbs_fit s" "0 \<le> rspan_int s" "rspan_int s < 2 ^ rspan_bit_size s"
proof -
  note s = representsD [OF assms]
  show "rspan_ok s" "limbs_fit s" "0 \<le> rspan_int s" using s by simp_all
  have "nat x < 2 ^ std_bit_width (nat x)" by (rule std_bit_width_less)
  then show "rspan_int s < 2 ^ rspan_bit_size s" using s by (simp add: nat_less_iff)
qed

lemma mod_multiply_body_eq:
  assumes "sycl_ok E" and "mod_sound K" and "mod_dest K b" and "mod_ok K x" and "mod_ok K y"
  shows "\<exists>z. mod_multiply_body E g K b x y = store b z \<and> 0 \<le> z \<and> z < mod_int K
    \<and> (z * mod_R K) mod mod_int K = (span_int x * span_int y) mod mod_int K"
proof -
  note x = mod_okD [OF assms(4)] and y = mod_okD [OF assms(5)]
  let ?n = "mod_bit_size K + mod_bit_size K"
  have b: "span_int x < 2 ^ mod_bit_size K" "span_int y < 2 ^ mod_bit_size K"
    using mod_int_bits [OF assms(2)] x(4) y(4) by blast+
  have "span_int x * span_int y < 2 ^ mod_bit_size K * 2 ^ mod_bit_size K" by (rule mult_strict_mono') (use b x y in simp_all)
  then have p: "span_int x * span_int y < 2 ^ ?n" by (simp add: power_add)
  have "span_int x \<le> mod_R K" using b(1) mod_R_bits(1) [of K] by linarith
  then have "span_int x * span_int y \<le> mod_R K * span_int y" using y(3) by (rule mult_right_mono)
  also have "\<dots> < mod_R K * mod_int K" using y(4) mod_R_bits(2) [of K] by (rule mult_strict_left_mono)
  finally have R: "span_int x * span_int y < mod_R K * mod_int K" .
  show ?thesis
    using mod_multiply_reduce [OF assms(1-3) mod_okV [OF assms(4)] mod_okV [OF assms(5)], of ?n ?n g] p R x y
    by (auto simp: mod_multiply_body_def Let_def)
qed

text \<open>The laws of the ring, for every destination.\<close>

lemma mod_R_form:
  assumes "mod_sound K" and "mod_ok K x"
  shows "span_int x = (mod_val K x * mod_R K) mod mod_int K"
  using mod_val [OF assms] by simp

lemma mod_body_laws:
  assumes "sycl_ok E" and "mod_sound K" and "mod_dest K b" and "mod_ok K x" and "mod_ok K y"
  shows "mod_ok K (mod_add_body E g K b x y) \<and> mod_val K (mod_add_body E g K b x y) = (mod_val K x + mod_val K y) mod mod_int K"
    and "mod_ok K (mod_subtract_body E g K b x y) \<and> mod_val K (mod_subtract_body E g K b x y) = (mod_val K x - mod_val K y) mod mod_int K"
    and "mod_ok K (mod_multiply_body E g K b x y) \<and> mod_val K (mod_multiply_body E g K b x y) = (mod_val K x * mod_val K y) mod mod_int K"
proof -
  let ?M = "mod_int K" and ?R = "mod_R K"
  have M: "0 < ?M" by (rule mod_soundD(3) [OF assms(2)])
  note form = mod_R_form [OF assms(2,4)] mod_R_form [OF assms(2,5)]
  have "(span_int x + span_int y) mod ?M = ((mod_val K x + mod_val K y) * ?R) mod ?M"
    "(span_int x - span_int y) mod ?M = ((mod_val K x - mod_val K y) * ?R) mod ?M"
    unfolding form by (simp_all add: mod_simps distrib_right left_diff_distrib)
  with mod_valI [OF assms(2,3), of "(span_int x + span_int y) mod ?M"] mod_valI [OF assms(2,3), of "(span_int x - span_int y) mod ?M"] M
  show "mod_ok K (mod_add_body E g K b x y) \<and> mod_val K (mod_add_body E g K b x y) = (mod_val K x + mod_val K y) mod mod_int K"
    "mod_ok K (mod_subtract_body E g K b x y) \<and> mod_val K (mod_subtract_body E g K b x y) = (mod_val K x - mod_val K y) mod mod_int K"
    by (simp_all add: mod_add_body_eq [OF assms] mod_subtract_body_eq [OF assms])
  obtain z where z: "mod_multiply_body E g K b x y = store b z" "0 \<le> z" "z < ?M" "(z * ?R) mod ?M = (span_int x * span_int y) mod ?M"
    using mod_multiply_body_eq [OF assms] by blast
  have "(z * ?R) mod ?M = (mod_val K x * mod_val K y * ?R * ?R) mod ?M"
    unfolding z(4) unfolding form by (simp only: mod_mult_eq) (simp only: ac_simps)
  then have "z mod ?M = (mod_val K x * mod_val K y * ?R) mod ?M"
    unfolding mod_R_def by (rule mod_cancel_R [OF assms(2)])
  from mod_valI [OF assms(2,3) z(2,3) this]
  show "mod_ok K (mod_multiply_body E g K b x y) \<and> mod_val K (mod_multiply_body E g K b x y) = (mod_val K x * mod_val K y) mod mod_int K"
    by (simp add: z(1))
qed

lemma mod_negate_law:
  assumes "sycl_ok E" and "mod_sound K" and "mod_ok K x"
  shows "mod_ok K (mod_negate E g K x) \<and> mod_val K (mod_negate E g K x) = (- mod_val K x) mod mod_int K"
proof -
  let ?M = "mod_int K" and ?b = "mod_new g K" and ?x = "span_int x"
  note x = mod_okD [OF assms(3)] and m = representsD [OF mod_soundD(7) [OF assms(2)]]
  have null: "bigint_ok (nullspan :: 'a word bit_span)" "span_int (nullspan :: 'a word bit_span) = 0" "signedness (nullspan :: 'a word bit_span) = Without_sign"
  proof -
    show s: "signedness (nullspan :: 'a word bit_span) = Without_sign" by (simp add: nullspan_def bit_array_def)
    have "data (nullspan :: 'a word bit_span) = []" by (simp add: nullspan_def bit_array_def)
    then show "bigint_ok (nullspan :: 'a word bit_span)" "span_int (nullspan :: 'a word bit_span) = 0"
      by (simp_all add: bigint_ok_def span_shape_def span_normal_def span_int_def wrap_def s)
  qed
  have c: "ints_not_equal_to E (Bits x) (Bits nullspan) = of_bool (?x \<noteq> 0)"
    using bigint_compare_exact(6) [OF assms(1) x(2) null(1)] x(5) null by (simp add: bigint_compare_def)
  have "mod_negate E g K x = store ?b ((if ?x \<noteq> 0 then ?M else 0) - ?x)"
    using num_subtract_eq(1) [OF assms(1), of ?b "Masked (mod_modulus_span K) (of_bool (?x \<noteq> 0))" "Bits x" "Const 0"] x m assms(1)
      mod_new_dest [of K g] get_int_rspan_int [OF assms(1), of "Masked (mod_modulus_span K) (of_bool (?x \<noteq> 0))"]
    unfolding mod_negate_def c by (simp add: ints_defs mod_dest_def)
  moreover have "(if ?x \<noteq> 0 then ?M else 0) - ?x = (- ?x) mod ?M"
    using x(3,4) mod_pos_pos_trivial [of "?M - ?x" ?M] by (simp add: mod_diff_left_eq [symmetric])
  ultimately have eq: "mod_negate E g K x = store ?b ((- ?x) mod ?M)" by simp
  have "(- ?x) mod ?M = (- mod_val K x * mod_R K) mod ?M"
    unfolding mod_R_form [OF assms(2,3)] by (simp add: mod_simps)
  with mod_valI [OF assms(2) mod_new_dest, of "(- ?x) mod ?M" "- mod_val K x" g] mod_soundD(3) [OF assms(2)]
  show ?thesis by (simp add: eq)
qed

end
