(* ===== verification/Modint_Convert.thy ===== *)
theory Modint_Convert
  imports Modint
begin

text \<open>
  Construction of modular integers from unsigned, signed and other modular integers, and powers,
  \<^verbatim>\<open>ints/mod.hpp\<close>, with the lemmas on unsigned integers.

  The compiler computes with the remainder of big integers, which it rejects in rare cases (see
  \<open>Ct_Divide\<close>); the results of what depends on it are options. The lemmas
  state that what is accepted is right, and that integers of at most as many limbs as the modulus are accepted.
\<close>

section \<open>The operations\<close>

text \<open>The two overloads of \<^verbatim>\<open>from_unsigned_integer\<close>; \<open>this\<close> is the object under construction.\<close>

definition mod_from_small ::
    "'a::len word eval \<Rightarrow> (nat \<Rightarrow> 'a word) \<Rightarrow> 'a word mod_constants \<Rightarrow> 'a word bit_span \<Rightarrow> 'a word bit_span \<Rightarrow> 'a word bit_span" where
  "mod_from_small E g K this value =
     (let bits = bit_size value + mod_bit_size K;
          intermediate = ints_multiply E (memory g (min bits (bit_size value + rspan_bit_size (mod_square_span K))))
            (mod_local g bits) (Bits value) (mod_square_span K)
      in mod_reduce E K this (Bits intermediate) (mod_limb_size K))"

definition mod_other_span :: "(nat \<Rightarrow> 'a::len word) \<Rightarrow> 'a word mod_constants \<Rightarrow> nat \<Rightarrow> 'a word rspan option" where
  "mod_other_span g K n = do {
     other \<leftarrow> bigint_modulo g
       (bigint_multiply Consteval g g (mod_auxiliary (normal_type (mod_modulus K)) n) (mod_square K)) (mod_modulus K);
     constant_bit_span_of (bit_copy_to Consteval (mod_new g K) other) }"

definition mod_from_large ::
    "'a::len word eval \<Rightarrow> (nat \<Rightarrow> 'a word) \<Rightarrow> 'a word mod_constants \<Rightarrow> 'a word bit_span \<Rightarrow> 'a word bit_span
     \<Rightarrow> 'a word bit_span option" where
  "mod_from_large E g K this value = do {
     let limbs = limb_size value;
     let this = mod_reduce E K this (Bits value) limbs;
     let bits = mod_bit_size K + mod_bit_size K;
     other_span \<leftarrow> mod_other_span g K limbs;
     let intermediate = ints_multiply E (memory g (min bits (mod_bit_size K + rspan_bit_size other_span)))
       (mod_local g bits) (Bits this) other_span;
     Some (mod_reduce E K this (Bits intermediate) (mod_limb_size K)) }"

definition mod_from_unsigned ::
    "'a::len word eval \<Rightarrow> (nat \<Rightarrow> 'a word) \<Rightarrow> 'a word mod_constants \<Rightarrow> 'a word bit_span \<Rightarrow> 'a word bit_span
     \<Rightarrow> 'a word bit_span option" where
  "mod_from_unsigned E g K this value =
     (if bit_size value \<le> mod_limb_size K * LENGTH('a)
      then Some (mod_from_small E g K this value)
      else mod_from_large E g K this value)"


definition mod_from_random ::
    "'a::len word eval \<Rightarrow> (nat \<Rightarrow> 'a word) \<Rightarrow> 'a word mod_constants \<Rightarrow> 'a word bit_span \<Rightarrow> 'a word bit_span" where
  "mod_from_random E g K value = mod_reduce E K (mod_new g K) (Bits value) (max (mod_limb_size K) (limb_size value))"

text \<open>The least number that makes a multiple of the modulus of its sum with \<open>other\<close>.\<close>

definition mod_offset_to :: "(nat \<Rightarrow> 'a::len word) \<Rightarrow> 'a word mod_constants \<Rightarrow> 'a word bit_span \<Rightarrow> 'a word bit_span option" where
  "mod_offset_to g K other = do {
     reduced_other_modulus \<leftarrow> bigint_modulo g other (mod_modulus K);
     Some (if bool_cast (bigint_compare ints_equal_to Consteval reduced_other_modulus bigint_zero)
       then bigint_zero
       else bigint_subtract Consteval g (mod_modulus K) reduced_other_modulus) }"

definition mod_from_small_signed ::
    "'a::len word eval \<Rightarrow> (nat \<Rightarrow> 'a word) \<Rightarrow> 'a word mod_constants \<Rightarrow> 'a word bit_span \<Rightarrow> 'a word bit_span option" where
  "mod_from_small_signed E g K value =
     (let this = fst (num_add E (mod_new g K) (Masked (mod_modulus_span K) (dynamic_value (span_sign value))) (Bits value) (Const 0))
      in mod_from_unsigned E g K this this)"

text \<open>A number that is to be reduced: what \<open>add_span\<close> stands for is added, if \<open>choice\<close> is set.\<close>

definition mod_from_large_signed ::
    "'a::len word eval \<Rightarrow> (nat \<Rightarrow> 'a word) \<Rightarrow> 'a word mod_constants \<Rightarrow> 'a word bit_span \<Rightarrow> 'a word bit_span option" where
  "mod_from_large_signed E g K value = do {
     let largest_absolute_value = bigint_shift_left Consteval g bigint_one (bit_size value - 1);
     offset \<leftarrow> mod_offset_to g K largest_absolute_value;
     let next_modulus_multiple = bigint_add Consteval g largest_absolute_value offset;
     next_modulus_multiple_span \<leftarrow> constant_bit_span_of next_modulus_multiple;
     let max_value = bigint_subtract Consteval g next_modulus_multiple bigint_one;
     let normalized_integer_bit_size = unat (ints_bit_width Consteval (Bits max_value));
     let normalized_integer = fst (num_add E (mod_local g normalized_integer_bit_size)
       (Masked next_modulus_multiple_span (dynamic_value (span_sign value))) (Bits value) (Const 0));
     mod_from_unsigned E g K (mod_new g K) normalized_integer }"

definition mod_from_signed ::
    "'a::len word eval \<Rightarrow> (nat \<Rightarrow> 'a word) \<Rightarrow> 'a word mod_constants \<Rightarrow> 'a word bit_span \<Rightarrow> 'a word bit_span option" where
  "mod_from_signed E g K value =
     (if bit_size value < mod_bit_size K then mod_from_small_signed E g K value else mod_from_large_signed E g K value)"

definition mod_from_mod ::
    "'a::len word eval \<Rightarrow> (nat \<Rightarrow> 'a word) \<Rightarrow> 'a word mod_constants \<Rightarrow> 'a word mod_constants \<Rightarrow> 'a word bit_span
     \<Rightarrow> 'a word bit_span option" where
  "mod_from_mod E g K J value =
     (let integer_value = mod_to_unsigned E g J value;
          negative = ints_greater E (Bits integer_value) (mod_half_modulus_span J)
      in if bool_cast (bigint_compare ints_greater Consteval (mod_modulus K) (mod_modulus J))
         then do {
           let offset = bigint_subtract Consteval g (mod_modulus K) (mod_modulus J);
           offset_span \<leftarrow> constant_bit_span_of offset;
           let this = fst (ints_add E (mod_new g K) (Bits integer_value) (Masked offset_span negative) (Const 0));
           mod_from_unsigned E g K this this }
         else do {
           offset \<leftarrow> mod_offset_to g K (mod_modulus J);
           offset_span \<leftarrow> constant_bit_span_of offset;
           let max_value = bigint_subtract Consteval g (bigint_add Consteval g (mod_modulus J) offset) bigint_one;
           let normalized_integer_bit_size = unat (ints_bit_width Consteval (Bits max_value));
           let normalized_integer = fst (ints_add E (mod_local g normalized_integer_bit_size) (Bits integer_value)
             (Masked offset_span negative) (Const 0));
           mod_from_unsigned E g K (mod_new g K) normalized_integer })"

section \<open>Powers\<close>

definition mod_one :: "'a::len word eval \<Rightarrow> (nat \<Rightarrow> 'a word) \<Rightarrow> 'a word mod_constants \<Rightarrow> 'a word bit_span option" where
  "mod_one E g K = mod_from_unsigned E g K (mod_new g K) bigint_one"

definition mod_pow ::
    "'a::len word eval \<Rightarrow> (nat \<Rightarrow> 'a word) \<Rightarrow> 'a word mod_constants \<Rightarrow> 'a word bit_span \<Rightarrow> nat \<Rightarrow> 'a word bit_span option" where
  "mod_pow E g K value exponent =
     (if exponent = 0 then mod_one E g K
      else do {
        result \<leftarrow> mod_one E g K;
        let (result, value) = for_range (std_bit_width exponent - 1)
          (\<lambda>i (result, value).
             (if drop_bit i exponent AND 1 \<noteq> 0 then mod_assign mod_multiply_body E g K result value else result,
              mod_assign mod_multiply_body E g K value value))
          (result, value);
        Some (mod_multiply E g K value result) })"

definition mod_pow_integer ::
    "(nat \<Rightarrow> 'a::len word) \<Rightarrow> 'a word mod_constants \<Rightarrow> 'a word bit_span \<Rightarrow> 'a word bit_span \<Rightarrow> 'a word bit_span option" where
  "mod_pow_integer g K value exponent =
     (if bool_cast (bigint_compare ints_equal_to Consteval exponent bigint_zero) then mod_one Consteval g K
      else do {
        result \<leftarrow> mod_one Consteval g K;
        (result, value) \<leftarrow> ct_for (bit_size exponent)
          (\<lambda>i (result, value). do {
             b \<leftarrow> ct_extract_bit exponent i;
             Some (if bool_cast b then mod_assign mod_multiply_body Consteval g K result value else result,
               mod_assign mod_multiply_body Consteval g K value value) })
          (result, value);
        Some result })"

section \<open>Construction from integers\<close>

lemma mod_R_pow_form:
  assumes "mod_sound K" and "(z * mod_R K) mod mod_int K = (v * mod_R K ^ Suc n) mod mod_int K"
  shows "z mod mod_int K = (v * mod_R K ^ n) mod mod_int K"
proof -
  have "(z * mod_R K) mod mod_int K = (v * mod_R K ^ n * mod_R K) mod mod_int K" using assms(2) by (simp add: ac_simps)
  then show ?thesis unfolding mod_R_def by (rule mod_cancel_R [OF assms(1)])
qed

text \<open>A constant of the type is zero only if the modulus is one.\<close>

lemma mod_R_zero:
  assumes "mod_sound K" and "(2 ^ (LENGTH('a) * m)) mod mod_int K = 0"
  shows "mod_bit_size (K :: 'a::len word mod_constants) = 0"
proof -
  have "1 mod mod_int K = 0 mod mod_int K" using mod_cancel_R [OF assms(1), of 1 m 0] assms(2) by simp
  then have "mod_int K = 1" using mod_soundD(3) [OF assms(1)] by (cases "mod_int K = 1") simp_all
  then have "2 ^ (mod_bit_size K - 1) < (1 :: int)" if "0 < mod_bit_size K" using mod_soundD(5) [OF assms(1) that] by simp
  then show ?thesis using one_le_power [of "2 :: int" "mod_bit_size K - 1"] by (meson leD not_gr_zero one_le_numeral)
qed

lemma mod_constant_bits:
  assumes "mod_sound (K :: 'a::len word mod_constants)" and "represents s (mod_R K ^ n mod mod_int K)"
  shows "0 < rspan_bit_size s \<or> mod_bit_size K = 0"
proof (cases "mod_R K ^ n mod mod_int K = 0")
  case True
  then have "(2 ^ (LENGTH('a) * (mod_limb_size K * n))) mod mod_int K = 0" by (simp add: mod_R_def power_mult mult.assoc)
  then have "mod_bit_size K = 0" by (rule mod_R_zero [OF assms(1)])
  then show ?thesis by blast
next
  case False
  then have "0 < mod_R K ^ n mod mod_int K" using representsD(7) [OF assms(2)] by simp
  then show ?thesis using representsD(5) [OF assms(2)] by (simp add: zero_less_iff_neq_zero)
qed

lemma mod_from_small_law:
  assumes "sycl_ok (E :: 'a::len word eval)" and "mod_sound K" and "mod_dest K b" and v: "bigint_ok v" "is_unsigned (signedness v)"
    and s: "bit_size v \<le> mod_limb_size K * LENGTH('a)"
  shows "mod_ok K (mod_from_small E g K b v) \<and> mod_val K (mod_from_small E g K b v) = span_int v mod mod_int K"
proof -
  let ?M = "mod_int K" and ?R = "mod_R K" and ?n = "bit_size v + mod_bit_size K" and ?S = "mod_square_span K"
  let ?c = "mod_R K ^ 2 mod mod_int K"
  note sound = mod_soundD [OF assms(2)] and c = representsD [OF mod_soundD(13) [OF assms(2)]]
  have vr: "0 \<le> span_int v" "span_int v < 2 ^ bit_size v" using bigint_range(1) [OF v] by simp_all
  have vV: "rspan_ok (Bits v)" "limbs_fit (Bits v)" "0 \<le> rspan_int (Bits v)" "rspan_int (Bits v) < 2 ^ rspan_bit_size (Bits v)"
    using v vr by (simp_all add: limbs_fit_def limb_size_def limb_size_for_def)
  have cM: "0 \<le> ?c" "?c < ?M" using sound(3) by simp_all
  have "span_int v * ?c < 2 ^ bit_size v * 2 ^ mod_bit_size K"
    by (rule mult_strict_mono') (use vr cM mod_int_bits [OF assms(2) cM(2)] in simp_all)
  then have p: "span_int v * ?c < 2 ^ ?n" by (simp add: power_add)
  have "(2 :: int) ^ bit_size v \<le> 2 ^ (mod_limb_size K * LENGTH('a))" using s by (rule power_increasing) simp
  then have "(2 :: int) ^ bit_size v \<le> ?R" by (simp add: mod_R_def mult.commute)
  then have "span_int v * ?c \<le> ?R * ?c" using vr cM by (intro mult_right_mono) simp_all
  also have "\<dots> < ?R * ?M" using cM mod_R_bits(2) [of K] by (intro mult_strict_left_mono)
  finally have R: "span_int v * ?c < ?R * ?M" .
  have "0 < rspan_bit_size ?S \<or> bit_size v = 0"
    using mod_constant_bits [OF assms(2) sound(13)] s by (auto simp: mod_limb_size_def limb_size_for_def)
  then have nz: "0 < rspan_bit_size ?S \<or> rspan_bit_size (Bits v) = 0 \<or> ?n = 0" by auto
  have "rspan_int (Bits v) * rspan_int ?S = span_int v * ?c" by (simp only: c(2) rspan_int.simps)
  note run = mod_multiply_reduce [OF assms(1-3) vV representsV [OF sound(13)], unfolded this, OF p nz R refl, of g]
  have "mod_from_small E g K b v = mod_reduce E K b (Bits (ints_multiply E
      (memory g (min ?n (rspan_bit_size (Bits v) + rspan_bit_size ?S))) (mod_local g ?n) (Bits v) ?S)) (mod_limb_size K)"
    by (simp only: mod_from_small_def Let_def rspan_bit_size.simps)
  then obtain z where z: "mod_from_small E g K b v = store b z" "0 \<le> z" "z < ?M" "(z * ?R) mod ?M = (span_int v * ?c) mod ?M"
    using run by (elim exE conjE) (rule that, simp_all only:)
  have "(span_int v * ?c) mod ?M = (span_int v * ?R ^ Suc 1) mod ?M" by (simp add: mod_mult_right_eq power2_eq_square)
  with z(4) have "(z * ?R) mod ?M = (span_int v * ?R ^ Suc 1) mod ?M" by (rule trans)
  from mod_R_pow_form [OF assms(2) this] have "z mod ?M = (span_int v * ?R) mod ?M" unfolding power_one_right .
  from mod_valI [OF assms(2,3) z(2,3) this] show ?thesis by (simp add: z(1))
qed

lemma mod_auxiliary_ok:
  "bigint_ok (mod_auxiliary nrm n :: 'a::len word bit_span)" "signedness (mod_auxiliary nrm n :: 'a word bit_span) = Without_sign"
  "span_int (mod_auxiliary nrm n :: 'a word bit_span) = 2 ^ (LENGTH('a) * n)"
  "bit_size (mod_auxiliary nrm n :: 'a word bit_span) = n * LENGTH('a) + 1"
  "normal_type (mod_auxiliary nrm n :: 'a word bit_span) = nrm"
proof -
  let ?b = "bit_array (n * LENGTH('a) + 1) Without_sign nrm (replicate (n + 1) 0) :: 'a word bit_span"
  have sel: "bit_size (mod_auxiliary nrm n :: 'a word bit_span) = n * LENGTH('a) + 1"
    "signedness (mod_auxiliary nrm n :: 'a word bit_span) = Without_sign" "normal_type (mod_auxiliary nrm n :: 'a word bit_span) = nrm"
    by (simp_all add: mod_auxiliary_def span_write_def bit_array_def)
  then show "bit_size (mod_auxiliary nrm n :: 'a word bit_span) = n * LENGTH('a) + 1"
    "signedness (mod_auxiliary nrm n :: 'a word bit_span) = Without_sign" "normal_type (mod_auxiliary nrm n :: 'a word bit_span) = nrm"
    by simp_all
  have ls: "limb_size_for TYPE('a) (n * LENGTH('a) + 1) = Suc n"
  proof -
    have "limb_size_for TYPE('a) (n * LENGTH('a) + 1) \<le> Suc n"
      using div_ceil_mono [of "n * LENGTH('a) + 1" "Suc n * LENGTH('a)" "LENGTH('a)"] len_gt_0 [where 'a = 'a]
      by (simp add: limb_size_for_def Suc_le_eq del: mult_Suc)
    moreover have "n * LENGTH('a) + 1 \<le> LENGTH('a) * limb_size_for TYPE('a) (n * LENGTH('a) + 1)" by (rule limb_size_for_bits)
    then have "n < limb_size_for TYPE('a) (n * LENGTH('a) + 1)" by (simp add: mult.commute [of n] Suc_le_eq)
    ultimately show ?thesis by simp
  qed
  have "normal_type ?b = Normal \<or> normal_type ?b = Unnormal" by (cases "normal_type ?b") simp_all
  have "written_limb ?b n (Const 1) Unnormal = 1"
    by (simp add: written_limb_def)
  then have d: "data (mod_auxiliary nrm n :: 'a word bit_span) = replicate n 0 @ [1]"
    by (simp add: mod_auxiliary_def span_write_def) (simp add: bit_array_def list_update_append replicate_append_same [symmetric])
  have v: "limbs_int (replicate n 0 @ [1 :: 'a word]) = 2 ^ (LENGTH('a) * n)"
    by (induction n) (simp_all add: power_add)
  have "(1 :: int) * 2 ^ (LENGTH('a) * n) < 2 * 2 ^ (LENGTH('a) * n)" by (intro mult_strict_right_mono) simp_all
  then have lt: "(2 :: int) ^ (LENGTH('a) * n) < 2 ^ (n * LENGTH('a) + 1)" by (simp add: mult.commute)
  show i: "span_int (mod_auxiliary nrm n :: 'a word bit_span) = 2 ^ (LENGTH('a) * n)"
    using lt by (simp add: span_int_def wrap_def sel d v take_bit_int_eq_self)
  have "(2 :: int) ^ (n * LENGTH('a) + 1) \<le> 2 ^ (LENGTH('a) * Suc n)"
    using len_gt_0 [where 'a = 'a] by (intro power_increasing) (simp_all add: mult.commute Suc_le_eq)
  then have "(2 :: int) ^ (LENGTH('a) * n) < 2 ^ (LENGTH('a) * Suc n)" using lt by linarith
  moreover have "limb_size (mod_auxiliary nrm n :: 'a word bit_span) = Suc n" by (simp only: limb_size_def sel ls)
  ultimately show "bigint_ok (mod_auxiliary nrm n :: 'a word bit_span)"
    by (simp add: bigint_ok_def span_shape_def span_normal_def sel d v i del: mult_Suc_right)
qed


lemma bigint_modulo_some:
  assumes "bigint_ok l" "is_unsigned (signedness l)" "bigint_ok r" "is_unsigned (signedness r)" "0 < span_int r"
    and "bigint_modulo g l r = Some m"
  shows "bigint_ok m" "signedness m = Without_sign" "span_int m = span_int l mod span_int r" "bit_size m = bit_size r"
    "normal_type m = normal_type l"
  using bigint_modulo_cases [OF assms(1-5), of g] assms(6) by auto

text \<open>A copy to the unsigned type of the modulus.\<close>

lemma bit_copy_to_new:
  assumes "mod_sound K" and "bigint_ok v" and "0 \<le> span_int v" and "span_int v < mod_int K"
  shows "bit_copy_to Consteval (mod_new g K) v = store (mod_new g K) (span_int v)"
  using num_bitwise_eq(5) [OF sycl_ok_Consteval, of "mod_new g K" "Bits v"] assms(2) mod_new_dest [of K g]
  by (simp add: bit_copy_to_def ints_defs mod_dest_def)

lemma mod_other_span_some:
  assumes "mod_sound (K :: 'a::len word mod_constants)" and "mod_other_span g K n = Some s" and "mod_bit_size K + LENGTH('a) \<le> 2 ^ 64"
  shows "represents s ((2 ^ (LENGTH('a) * n) * mod_R K ^ 2) mod mod_int K)"
proof -
  note sound = mod_soundD [OF assms(1)]
  let ?p = "bigint_multiply Consteval g g (mod_auxiliary (normal_type (mod_modulus K)) n) (mod_square K)"
  have p: "bigint_ok ?p" "is_unsigned (signedness ?p)" "span_int ?p = 2 ^ (LENGTH('a) * n) * (mod_R K ^ 2 mod mod_int K)"
    using bigint_multiply_exact [OF sycl_ok_Consteval mod_auxiliary_ok(1) _ sound(9), of "normal_type (mod_modulus K)" n g g] sound(10,12)
    by (simp_all add: mod_auxiliary_ok is_unsigned_def)
  obtain m where m: "bigint_modulo g ?p (mod_modulus K) = Some m"
    and s: "constant_bit_span_of (bit_copy_to Consteval (mod_new g K) m) = Some s"
    using assms(2) by (auto simp: mod_other_span_def split: bind_splits)
  note m = bigint_modulo_some [OF p(1,2) sound(1) _ _ m]
  have u: "is_unsigned (signedness (mod_modulus K))" "0 < span_int (mod_modulus K)" using sound(2,3) by (simp_all add: is_unsigned_def mod_int_def)
  note m = m [OF u]
  let ?x = "(2 ^ (LENGTH('a) * n) * mod_R K ^ 2) mod mod_int K"
  have x: "span_int m = ?x" using m(3) by (simp add: p(3) mod_mult_right_eq flip: mod_int_def)
  have xM: "0 \<le> ?x" "?x < mod_int K" using sound(3) by simp_all
  have "bit_copy_to Consteval (mod_new g K) m = store (mod_new g K) ?x"
    using bit_copy_to_new [OF assms(1) m(1), of g] by (simp only: x xM simp_thms)
  with mod_store [OF assms(1) mod_new_dest xM, of g] constant_bit_span [of "store (mod_new g K) ?x"] s xM assms(3)
  show ?thesis by (auto simp: constant_bit_span_of_def mod_ok_def mod_dest_def)
qed

lemma mod_from_large_law:
  assumes "sycl_ok (E :: 'a::len word eval)" and "mod_sound K" and "mod_dest K b" and v: "bigint_ok v" "is_unsigned (signedness v)"
    and "mod_bit_size K + LENGTH('a) \<le> 2 ^ 64" and run: "mod_from_large E g K b v = Some r"
  shows "mod_ok K r \<and> mod_val K r = span_int v mod mod_int K"
proof -
  let ?M = "mod_int K" and ?R = "mod_R K" and ?n = "limb_size v" and ?R' = "2 ^ (LENGTH('a) * limb_size v) :: int"
  let ?k = "mod_bit_size K + mod_bit_size K"
  note sound = mod_soundD [OF assms(2)]
  have "span_int v < 2 ^ bit_size v" "0 \<le> span_int v" using bigint_range(1) [OF v] by simp_all
  moreover have "(2 :: int) ^ bit_size v \<le> ?R'" using bit_size_le_limbs [of v] by (rule power_increasing) simp
  moreover have "?R' * 1 \<le> ?R' * ?M" using sound(3) by (intro mult_left_mono) simp_all
  ultimately have "0 \<le> rspan_int (Bits v)" "rspan_int (Bits v) < ?R' * ?M" unfolding rspan_int.simps by linarith+
  from mod_reduce_eq [OF assms(1-3) _ this] obtain x where x: "mod_reduce E K b (Bits v) ?n = store b x" "0 \<le> x" "x < ?M"
    "(x * ?R') mod ?M = span_int v mod ?M" using v(1) by auto
  note okx = mod_store [OF assms(2,3) x(2,3)]
  obtain s where s: "mod_other_span g K ?n = Some s"
    and r: "r = mod_reduce E K (store b x) (Bits (ints_multiply E (memory g (min ?k (mod_bit_size K + rspan_bit_size s)))
      (mod_local g ?k) (Bits (store b x)) s)) (mod_limb_size K)"
    using run by (auto simp: mod_from_large_def Let_def x(1) split: bind_splits)
  note rep = mod_other_span_some [OF assms(2) s assms(6)]
  let ?c = "(?R' * ?R ^ 2) mod ?M"
  have c: "0 \<le> ?c" "?c < ?M" using sound(3) by simp_all
  have b: "x < 2 ^ mod_bit_size K" "?c < 2 ^ mod_bit_size K" using mod_int_bits [OF assms(2)] x(3) c(2) by blast+
  have "x * ?c < 2 ^ mod_bit_size K * 2 ^ mod_bit_size K" by (rule mult_strict_mono') (use b x c in simp_all)
  then have p: "x * ?c < 2 ^ ?k" by (simp add: power_add)
  have "x \<le> ?R" using b(1) mod_R_bits(1) [of K] by linarith
  then have "x * ?c \<le> ?R * ?c" using c(1) by (rule mult_right_mono)
  also have "\<dots> < ?R * ?M" using c(2) mod_R_bits(2) [of K] by (rule mult_strict_left_mono)
  finally have R: "x * ?c < ?R * ?M" .
  have nz: "0 < rspan_bit_size s \<or> rspan_bit_size (Bits (store b x)) = 0 \<or> ?k = 0"
  proof (cases "?c = 0")
    case True
    then have "(2 ^ (LENGTH('a) * (?n + mod_limb_size K * 2))) mod ?M = 0"
      by (simp add: mod_R_def power_mult power_add distrib_left mult.assoc)
    then have "mod_bit_size K = 0" by (rule mod_R_zero [OF assms(2)])
    then show ?thesis by simp
  next
    case False
    then have "0 < ?c" using c(1) by linarith
    then show ?thesis using representsD(5) [OF rep] by (simp add: zero_less_iff_neq_zero)
  qed
  have "rspan_int (Bits (store b x)) * rspan_int s = x * ?c" using okx(2) representsD(2) [OF rep] by simp
  note red = mod_multiply_reduce [OF assms(1,2) mod_okD(1) [OF okx(1)] mod_okV [OF okx(1)] representsV [OF rep], unfolded this, OF p nz R refl, of g]
  have "rspan_bit_size (Bits (store b x)) = mod_bit_size K" using mod_okD(6) [OF okx(1)] by simp
  from red [unfolded this, folded r] obtain z where z: "r = store (store b x) z" "0 \<le> z" "z < ?M" "(z * ?R) mod ?M = (x * ?c) mod ?M"
    by (elim exE conjE) (rule that, simp_all only:)
  have "(x * ?c) mod ?M = (x * ?R' * ?R ^ 2) mod ?M" by (simp add: mod_mult_right_eq mult.assoc)
  also have "\<dots> = ((x * ?R') mod ?M * ?R ^ 2) mod ?M" by (simp only: mod_mult_left_eq)
  also have "\<dots> = (span_int v * ?R ^ Suc 1) mod ?M" unfolding x(4) mod_mult_left_eq by (simp add: power2_eq_square)
  finally have "(z * ?R) mod ?M = (span_int v * ?R ^ Suc 1) mod ?M" using z(4) by (rule trans [rotated])
  from mod_R_pow_form [OF assms(2) this] have "z mod ?M = (span_int v * ?R) mod ?M" unfolding power_one_right .
  from mod_valI [OF assms(2) mod_okD(1) [OF okx(1)] z(2,3) this] show ?thesis unfolding z(1) .
qed

lemma mod_from_unsigned_law:
  assumes "sycl_ok (E :: 'a::len word eval)" and "mod_sound K" and "mod_dest K b" and v: "bigint_ok v" "is_unsigned (signedness v)"
    and "mod_bit_size K + LENGTH('a) \<le> 2 ^ 64"
  shows "mod_from_unsigned E g K b v = Some r \<Longrightarrow> mod_ok K r \<and> mod_val K r = span_int v mod mod_int K"
    and "bit_size v \<le> mod_limb_size K * LENGTH('a) \<Longrightarrow> \<exists>r. mod_from_unsigned E g K b v = Some r"
  using mod_from_small_law [OF assms(1-5), of g] mod_from_large_law [OF assms, of g r]
  by (auto simp: mod_from_unsigned_def split: if_splits)

end
