(* ===== verification/Modint_Type.thy ===== *)
theory Modint_Type
  imports Modint_Convert
begin

text \<open>
  The constants of a modular integer type: what the compiler computes for a modulus is right, and which moduli it
  rejects.
\<close>

section \<open>The constants of the type\<close>

text \<open>The number of bits of the type is the number that the largest residue needs.\<close>

lemma mod_bits:
  fixes g :: "nat \<Rightarrow> 'a::len word"
  assumes "bigint_ok (M :: 'a word bit_span)" and "signedness M = Without_sign" and "0 < span_int M"
    and "bit_size M + LENGTH('a) + 2 \<le> 2 ^ 64"
  defines "bits \<equiv> unat (ints_bit_width Consteval (Bits (bigint_subtract Consteval g M bigint_one)))"
  shows "bits = std_bit_width (nat (span_int M - 1))" and "bits \<le> bit_size M"
    and "span_int M \<le> 2 ^ bits" and "0 < bits \<Longrightarrow> 2 ^ (bits - 1) < span_int M"
proof -
  let ?d = "bigint_subtract Consteval g M bigint_one" and ?x = "nat (span_int M - 1)"
  have d: "bigint_ok ?d" "span_int ?d = span_int M - 1"
    using bigint_subtract_exact [OF sycl_ok_Consteval assms(1) bigint_one(1), of g] assms(2) by simp_all
  have lt: "span_int M < 2 ^ bit_size M" using bigint_range(1) [OF assms(1)] assms(2) by (simp add: is_unsigned_def)
  then have "?x < 2 ^ bit_size M" using assms(3) by (simp add: nat_less_iff)
  then have le: "std_bit_width ?x \<le> bit_size M" by (simp add: std_bit_width_le_iff)
  have "0 < bit_size M" using lt assms(3) by (cases "bit_size M") simp_all
  then have "bit_size ?d = bit_size M + 1" by (simp add: bigint_subtract_def ints_defs num_subtract_eq)
  then have "LENGTH('a) * limb_size ?d < 2 ^ 64"
    using limb_size_for_upper [of "bit_size ?d", where 'a = 'a] assms(4) by (simp add: limb_size_def)
  then have "ints_bit_width Consteval (Bits ?d) = of_nat (std_bit_width ?x)"
    using num_bit_width_eq [OF sycl_ok_Consteval, of "Bits ?d"] d assms(3) by (simp add: ints_defs)
  then show b: "bits = std_bit_width ?x" using le assms(4) by (simp add: bits_def unat_of_nat)
  then show "bits \<le> bit_size M" using le by simp
  have "?x < 2 ^ bits" unfolding b by (rule std_bit_width_less)
  then show "span_int M \<le> 2 ^ bits" using assms(3) by (simp add: nat_less_iff)
  assume "0 < bits"
  then have "0 < ?x" using b std_bit_width_eq_0_iff [of ?x] by linarith
  then have "2 ^ (bits - 1) \<le> ?x" using std_bit_width_bounds(1) [of ?x] by (simp add: b)
  then have "int (2 ^ (bits - 1)) \<le> span_int M - 1" using assms(3) by linarith
  then show "2 ^ (bits - 1) < span_int M" by simp
qed

lemma mod_inverse_cases:
  assumes "bigint_ok (M :: 'a::len word bit_span)" and "signedness M = Without_sign"
  shows "even (span_int M) \<Longrightarrow> mod_inverse g M = None"
    and "odd (span_int M) \<Longrightarrow> \<exists>i. mod_inverse g M = Some i \<and> (span_int M * uint i + 1) mod 2 ^ LENGTH('a) = 0"
proof -
  let ?B = "bit_array (LENGTH('a) + 1) Without_sign (normal_type M) [0, 1 :: 'a word]"
  have B: "mod_auxiliary (normal_type M) 1 = ?B"
    by (simp add: mod_auxiliary_def span_write_def bit_array_def written_limb_def)
  note b = mod_auxiliary_ok [of "normal_type M" 1, where 'a = 'a, unfolded B]
  have g: "gcd (span_int M) (2 ^ LENGTH('a)) = 1 \<longleftrightarrow> odd (span_int M)"
    using coprime_right_2_iff_odd [of "span_int M"] len_gt_0 [where 'a = 'a] by (simp add: coprime_iff_gcd_eq_1 [symmetric])
  have u: "is_unsigned (signedness M)" "is_unsigned (signedness ?B)" using assms(2) b(2) by (simp_all add: is_unsigned_def)
  have pos: "0 < span_int ?B" "span_int ?B = 2 ^ LENGTH('a)" using b(3) by simp_all
  note inv = invert_modulo_exact [OF assms(1) u(1) b(1) u(2) pos(1), of g g, unfolded pos(2) g]
  show "even (span_int M) \<Longrightarrow> mod_inverse g M = None" using inv(1) by (simp add: mod_inverse_def)
  assume "odd (span_int M)"
  then obtain v where v: "invert_modulo g g M ?B = Some v" "bigint_ok v" "bit_size v = LENGTH('a) + 1"
    "is_unsigned (signedness v)" "(span_int M * span_int v) mod 2 ^ LENGTH('a) = 1 mod 2 ^ LENGTH('a)"
    using inv(2) b(4) by auto
  have "limb_size v \<noteq> 0" using v(3) by (simp add: limb_size_0_iff)
  then have "uint (data v ! 0) = span_int v mod 2 ^ LENGTH('a)"
    using get_limb_of_int [OF sycl_ok_Consteval, of 0 "Bits v"] v(2) by (simp add: uint_limb_of)
  then have "uint (- (data v ! 0)) mod 2 ^ LENGTH('a) = (- span_int v) mod 2 ^ LENGTH('a)"
    by (simp add: uint_word_ariths(4) mod_simps)
  from mod_add_mult_cong [OF this, of 1 "span_int M"]
  have "(span_int M * uint (- (data v ! 0)) + 1) mod 2 ^ LENGTH('a) = (- (span_int M * span_int v) + 1) mod 2 ^ LENGTH('a)"
    by (simp only: mult_minus_left mult_minus_right mult.commute add.commute)
  also have "\<dots> = (- ((span_int M * span_int v) mod 2 ^ LENGTH('a)) + 1) mod 2 ^ LENGTH('a)" by (simp add: mod_simps)
  also have "\<dots> = 0" unfolding v(5) by (simp add: mod_simps)
  finally show "\<exists>i. mod_inverse g M = Some i \<and> (span_int M * uint i + 1) mod 2 ^ LENGTH('a) = 0"
    using v(1) by (simp add: mod_inverse_def)
qed


lemma mod_auxiliary_gcd:
  assumes "bigint_ok (M :: 'a::len word bit_span)" and "signedness M = Without_sign" and "odd (span_int M)"
  shows "\<exists>d. bigint_gcd g (mod_auxiliary nrm n) M = Some d \<and> bool_cast (bigint_compare ints_equal_to Consteval d bigint_one)"
proof -
  have "coprime (2 ^ (LENGTH('a) * n)) (span_int M)" using assms(3) by (simp add: coprime_left_2_iff_odd)
  then have g: "gcd (2 ^ (LENGTH('a) * n)) (span_int M) = 1" by (simp add: coprime_iff_gcd_eq_1)
  obtain d where d: "bigint_gcd g (mod_auxiliary nrm n) M = Some d" "bigint_ok d" "is_unsigned (signedness d)" "span_int d = 1"
    using bigint_gcd_exact [of "mod_auxiliary nrm n" M g] assms mod_auxiliary_ok [of nrm n, where 'a = 'a] g by (auto simp: is_unsigned_def)
  then show ?thesis
    using bigint_compare_exact(5) [OF sycl_ok_Consteval d(2) bigint_one(1)] by (auto simp: is_unsigned_def)
qed

lemma bigint_nonzero:
  assumes "bigint_ok (M :: 'a::len word bit_span)" and "signedness M = Without_sign"
  shows "bool_cast (bigint_compare ints_not_equal_to Consteval M bigint_zero) \<longleftrightarrow> span_int M \<noteq> 0"
    and "bool_cast (bigint_compare ints_equal_to Consteval M bigint_zero) \<longleftrightarrow> span_int M = 0"
    and "bigint_ok (bigint_zero :: 'a word bit_span)" and "span_int (bigint_zero :: 'a word bit_span) = 0"
    and "signedness (bigint_zero :: 'a word bit_span) = Without_sign"
proof -
  have z: "bigint_ok (bigint_zero :: 'a word bit_span) \<and> span_int (bigint_zero :: 'a word bit_span) = 0
    \<and> signedness (bigint_zero :: 'a word bit_span) = Without_sign"
    by (simp add: bigint_zero_def bit_array_def bigint_ok_def span_shape_def span_normal_def limb_size_def limb_size_for_def span_int_def wrap_def)
  then show "bigint_ok (bigint_zero :: 'a word bit_span)" "span_int (bigint_zero :: 'a word bit_span) = 0"
    "signedness (bigint_zero :: 'a word bit_span) = Without_sign" by simp_all
  show "bool_cast (bigint_compare ints_not_equal_to Consteval M bigint_zero) \<longleftrightarrow> span_int M \<noteq> 0"
    "bool_cast (bigint_compare ints_equal_to Consteval M bigint_zero) \<longleftrightarrow> span_int M = 0"
    using bigint_compare_exact(5,6) [OF sycl_ok_Consteval assms(1), of bigint_zero] assms(2) z by auto
qed

text \<open>The computation of the constants, with the two remainders that the compiler may reject.\<close>

lemma bit_copy_unsigned:
  assumes "bigint_ok v" and "0 \<le> span_int v" and "span_int v < 2 ^ bits"
  shows "bit_copy_to Consteval (uninit bits Without_sign nrm g) v = store (uninit bits Without_sign nrm g) (span_int v)"
  using num_bitwise_eq(5) [OF sycl_ok_Consteval, of "uninit bits Without_sign nrm g" "Bits v"] assms
  by (simp add: bit_copy_to_def ints_defs)

lemma power_limbs_upper:
  assumes "0 < M" and "0 < n \<Longrightarrow> 2 ^ (n - 1) < (M :: int)"
  shows "2 ^ (LENGTH('a::len) * limb_size_for TYPE('a) n) < 2 ^ LENGTH('a) * M"
proof (cases "0 < n")
  case True
  have "LENGTH('a) * limb_size_for TYPE('a) n \<le> LENGTH('a) + (n - 1)"
    using limb_size_for_upper [of n, where 'a = 'a] True by simp
  then have "(2 :: int) ^ (LENGTH('a) * limb_size_for TYPE('a) n) \<le> 2 ^ (LENGTH('a) + (n - 1))" by (rule power_increasing) simp
  also have "\<dots> = 2 ^ LENGTH('a) * 2 ^ (n - 1)" by (rule power_add)
  also have "\<dots> < 2 ^ LENGTH('a) * M" using assms(2) [OF True] by (intro mult_strict_left_mono) simp_all
  finally show ?thesis .
next
  case False
  have "1 \<le> M" "1 < (2 :: int) ^ LENGTH('a)" using assms(1) by simp_all
  then have "1 * 1 < 2 ^ LENGTH('a) * M" by (intro mult_less_le_imp_less) simp_all
  then show ?thesis using False by (simp add: limb_size_for_def)
qed

text \<open>The third power of \<open>R\<close> comes from a Montgomery reduction of the fourth.\<close>

lemma mod_cubed_eq:
  fixes M :: int and sq :: "'a::len word bit_span"
  assumes "odd M" and "represents ms M" and "(M * uint i + 1) mod 2 ^ LENGTH('a) = 0" and "M \<le> 2 ^ (LENGTH('a) * n)"
    and "bigint_ok sq" and "signedness sq = Without_sign" and "length (data u) = limb_size u"
    and "span_int sq = (2 ^ (LENGTH('a) * n)) ^ 2 mod M" and "0 < M"
  shows "mod_cubed_auxiliary g u ms n i sq = store u ((2 ^ (LENGTH('a) * n)) ^ 3 mod M)"
proof -
  let ?R = "2 ^ (LENGTH('a) * n) :: int" and ?s = "(2 ^ (LENGTH('a) * n)) ^ 2 mod M"
  let ?q = "bigint_multiply Consteval g g sq sq"
  note mr = representsD [OF assms(2)]
  have q: "bigint_ok ?q" "span_int ?q = ?s * ?s"
    using bigint_multiply_exact [OF sycl_ok_Consteval assms(5) _ assms(5), of g g] assms(6,8) by (simp_all add: is_unsigned_def)
  have s: "0 \<le> ?s" "?s < M" using assms(9) by simp_all
  have "?s * ?s \<le> ?R * ?s" using s assms(4) by (intro mult_right_mono) simp_all
  also have "\<dots> < ?R * M" using s(2) by (intro mult_strict_left_mono) simp_all
  finally obtain x where x: "mod_cubed_auxiliary g u ms n i sq = store u x" "0 \<le> x" "x < M" "(x * ?R) mod M = (?s * ?s) mod M"
    using num_montgomery_reduce_eq [OF sycl_ok_Consteval assms(7), of "Bits ?q" ms n i] mr q assms(3) s(1)
    by (auto simp: mod_cubed_auxiliary_def ints_defs Let_def)
  have "(?s * ?s) mod M = (?R ^ 3 * ?R) mod M" by (simp add: mod_mult_eq flip: power_add power_Suc2)
  with x(4) have "(x * ?R) mod M = (?R ^ 3 * ?R) mod M" by (rule trans)
  from odd_cancel [OF assms(1) this] have "x = ?R ^ 3 mod M" using x(2,3) by simp
  then show ?thesis by (simp add: x(1))
qed

lemma mod_type_eq:
  fixes M :: "'a::len word bit_span" and g :: "nat \<Rightarrow> 'a word"
  assumes "bigint_ok M" and "signedness M = Without_sign" and "bit_size M + LENGTH('a) + 2 \<le> 2 ^ 64"
  shows "even (span_int M) \<Longrightarrow> mod_type g M = None"
    and "odd (span_int M) \<Longrightarrow> mod_type g M = Some K \<Longrightarrow> mod_sound K \<and> mod_modulus K = M
      \<and> mod_bit_size K = std_bit_width (nat (span_int M - 1))"
    and "odd (span_int M) \<Longrightarrow> R = 2 ^ (LENGTH('a) * limb_size_for TYPE('a) (std_bit_width (nat (span_int M - 1)))) mod span_int M
      \<Longrightarrow> R * R < 2 ^ LENGTH('a) * span_int M \<Longrightarrow> \<exists>K. mod_type g M = Some K"
proof -
  let ?bits = "std_bit_width (nat (span_int M - 1))"
  let ?limbs = "limb_size_for TYPE('a) ?bits" and ?A = "mod_auxiliary (normal_type M) (limb_size_for TYPE('a) (std_bit_width (nat (span_int M - 1)))) :: 'a word bit_span"
  let ?u = "uninit ?bits Without_sign (normal_type M) g"
  have M0: "0 \<le> span_int M" using bigint_range(1) [OF assms(1)] assms(2) by (simp add: is_unsigned_def)
  show "even (span_int M) \<Longrightarrow> mod_type g M = None"
    by (simp only: mod_type_def Let_def mod_inverse_cases(1) [OF assms(1,2)] bind.simps bind_rzero)
  assume odd: "odd (span_int M)"
  then have pos: "0 < span_int M" using M0 by (cases "span_int M = 0") simp_all
  have u: "is_unsigned (signedness M)" using assms(2) by (simp add: is_unsigned_def)
  have size: "bit_size M + LENGTH('a) \<le> 2 ^ 64" using assms(3) by simp
  note bits = mod_bits [OF assms(1,2) pos assms(3), of g]
  obtain ms where ms: "constant_bit_span_from (Bits M) = Some ms" "represents ms (span_int M)"
    using constant_bit_span [OF assms(1) M0 size] by blast
  let ?h = "bigint_shift_right Consteval g M 1"
  have h: "bigint_ok ?h" "span_int ?h = span_int M div 2" "bit_size ?h \<le> bit_size M"
    using bigint_shift_right_exact [OF sycl_ok_Consteval assms(1), of 1 g] u by (simp_all add: is_unsigned_iff)
  then obtain hs where hs: "constant_bit_span_from (Bits ?h) = Some hs" "represents hs (span_int M div 2)"
    using constant_bit_span [of ?h] M0 size by auto
  obtain i where i: "mod_inverse g M = Some i" "(span_int M * uint i + 1) mod 2 ^ LENGTH('a) = 0"
    using mod_inverse_cases(2) [OF assms(1,2) odd, of g] by (elim exE conjE) (rule that)
  obtain d where d: "bigint_gcd g ?A M = Some d" "bool_cast (bigint_compare ints_equal_to Consteval d bigint_one)"
    using mod_auxiliary_gcd [OF assms(1,2) odd, of g "normal_type M" ?limbs] by (elim exE conjE) (rule that)
  have nz: "bool_cast (bigint_compare ints_not_equal_to Consteval M bigint_zero)" using bigint_nonzero(1) [OF assms(1,2)] pos by simp
  define T where "T = (\<lambda>square square_span cubed_span. \<lparr>mod_modulus = M, mod_modulus_span = ms, mod_half_modulus_span = hs,
    mod_bit_size = ?bits, mod_inverse_modulus = i, mod_square = square, mod_square_span = square_span, mod_cubed_span = cubed_span\<rparr>)"
  have run: "mod_type g M = do {
     reduced \<leftarrow> bigint_modulo g ?A M;
     let reduced = bit_copy_to Consteval ?u reduced;
     square \<leftarrow> bigint_modulo g (bigint_multiply Consteval g g reduced reduced) M;
     let square = bit_copy_to Consteval ?u square;
     square_span \<leftarrow> constant_bit_span_from (Bits square);
     cubed_span \<leftarrow> constant_bit_span_from (Bits (mod_cubed_auxiliary g ?u ms ?limbs i square));
     Some (T square square_span cubed_span) }"
    unfolding mod_type_def Let_def bits(1) T_def by (simp only: ms(1) hs(1) u nz i(1) d ct_assert_True bind.simps)
  let ?M = "span_int M" and ?R = "2 ^ (LENGTH('a) * ?limbs) :: int"
  have below: "x < 2 ^ ?bits" if "x < ?M" for x using bits(1,3) that by simp
  have RM: "?R < 2 ^ LENGTH('a) * ?M" using power_limbs_upper [OF pos, of ?bits, where 'a = 'a] bits(1,4) by simp
  note A = mod_auxiliary_ok [of "normal_type M" ?limbs, where 'a = 'a]
  have uA: "is_unsigned (signedness ?A)" using A(2) by (simp add: is_unsigned_def)
  obtain m where m: "bigint_modulo g ?A M = Some m" "bigint_ok m" "span_int m = ?R mod ?M"
    using bigint_modulo_cases [OF A(1) uA assms(1) u pos, of g] A(3) RM by auto
  let ?r = "?R mod ?M"
  have r: "0 \<le> ?r" "?r < ?M" using pos by simp_all
  let ?red = "store ?u ?r"
  have red: "bit_copy_to Consteval ?u m = ?red" using bit_copy_unsigned [OF m(2), of ?bits] m(3) r below [OF r(2)] by simp
  note redok = unsigned_store [OF r(1) below [OF r(2)], of "normal_type M" g]
  let ?p = "bigint_multiply Consteval g g ?red ?red"
  have p: "bigint_ok ?p" "is_unsigned (signedness ?p)" "span_int ?p = ?r * ?r"
    using bigint_multiply_exact [OF sycl_ok_Consteval redok(1) _ redok(1), of g g] redok by (simp_all add: is_unsigned_def)
  let ?s = "?R ^ 2 mod ?M"
  have s: "0 \<le> ?s" "?s < ?M" "span_int ?p mod ?M = ?s" using pos by (simp_all add: p(3) mod_mult_eq power2_eq_square)
  note sq = unsigned_store [OF s(1) below [OF s(2)], of "normal_type M" g]
  obtain ss where ss: "constant_bit_span_from (Bits (store ?u ?s)) = Some ss" "represents ss ?s"
    using constant_bit_span [of "store ?u ?s"] sq s(1) size bits(1,2) by auto
  have MR: "?M \<le> ?R" using bits(3) power_limbs [of ?bits, where 'a = 'a] unfolding bits(1) by linarith
  let ?x = "?R ^ 3 mod ?M"
  have x: "0 \<le> ?x" "?x < ?M" using pos by simp_all
  have cubed: "mod_cubed_auxiliary g ?u ms ?limbs i (store ?u ?s) = store ?u ?x"
    using mod_cubed_eq [OF odd ms(2) i(2) MR sq(1) _ _ sq(2) pos, of ?u g] by simp
  note xq = unsigned_store [OF x(1) below [OF x(2)], of "normal_type M" g]
  obtain cs where cs: "constant_bit_span_from (Bits (store ?u ?x)) = Some cs" "represents cs ?x"
    using constant_bit_span [of "store ?u ?x"] xq x(1) size bits(1,2) by auto
  have tail: "mod_type g M = do { square \<leftarrow> bigint_modulo g ?p M;
      let square = bit_copy_to Consteval ?u square;
      square_span \<leftarrow> constant_bit_span_from (Bits square);
      cubed_span \<leftarrow> constant_bit_span_from (Bits (mod_cubed_auxiliary g ?u ms ?limbs i square));
      Some (T square square_span cubed_span) }"
    by (simp only: run m(1) red bind.simps Let_def)
  have good: "mod_sound (T (store ?u ?s) ss cs)"
    using assms(1,2) pos bits ms(2) hs(2) i(2) sq ss(2) cs(2)
    by (simp add: mod_sound_def mod_int_def mod_R_def mod_limb_size_def T_def)
  have found: "mod_type g M = Some (T (store ?u ?s) ss cs)" if "bigint_modulo g ?p M = Some n" for n
  proof -
    note n = bigint_modulo_some [OF p(1,2) assms(1) u pos that, unfolded s(3)]
    have "bit_copy_to Consteval ?u n = store ?u ?s" using bit_copy_unsigned [OF n(1), of ?bits] n(3) s below [OF s(2)] by simp
    then show ?thesis
      by (simp only: tail that bind.simps Let_def ss(1) cubed cs(1))
  qed
  show "mod_sound K \<and> mod_modulus K = M \<and> mod_bit_size K = ?bits" if "mod_type g M = Some K"
  proof (cases "bigint_modulo g ?p M")
    case None
    then show ?thesis using that by (simp add: tail)
  next
    case (Some n)
    then have "K = T (store ?u ?s) ss cs" using found [OF Some] that by simp
    then show ?thesis using good by (simp add: T_def)
  qed
  show "\<exists>K. mod_type g M = Some K" if "R = ?R mod ?M" "R * R < 2 ^ LENGTH('a) * ?M"
    using bigint_modulo_cases(1) [OF p(1,2) assms(1) u pos, of g] found that by (auto simp: p(3))
qed

end
