(* ===== verification/Modint_Power.thy ===== *)
theory Modint_Power
  imports Modint_Type
begin

text \<open>
  Modular integers as a ring: the interpretations of the interface, with new results and in place, the two functions for
  powers, and inverses.
\<close>

section \<open>The interface\<close>

text \<open>A type that the compiler accepts is \<open>mod_sound\<close> and has a size; an object of it is valid if no stray bits
  or larger integers are in it.\<close>

definition mod_valid :: "'a::len word eval \<Rightarrow> 'a word mod_constants \<Rightarrow> 'a word bit_span \<Rightarrow> bool" where
  "mod_valid E K x \<longleftrightarrow> sycl_ok E \<and> mod_sound K \<and> mod_bit_size K + LENGTH('a) \<le> 2 ^ 64 \<and> mod_ok K x"

lemma mod_validD:
  assumes "mod_valid (E :: 'a::len word eval) K x"
  shows "sycl_ok E" "mod_sound K" "mod_bit_size K + LENGTH('a) \<le> 2 ^ 64" "mod_ok K x"
  using assms by (auto simp: mod_valid_def)

lemma mod_one_law:
  assumes "sycl_ok (E :: 'a::len word eval)" and "mod_sound K" and "mod_bit_size K + LENGTH('a) \<le> 2 ^ 64"
  shows "\<exists>r. mod_one E g K = Some r \<and> mod_ok K r \<and> mod_val K r = 1 mod mod_int K"
proof -
  have u: "is_unsigned (signedness (bigint_one :: 'a word bit_span))" by (simp add: is_unsigned_def)
  note sound = mod_soundD [OF assms(2)]
  have "\<exists>r. mod_one E g K = Some r"
  proof (cases "mod_bit_size K = 0")
    case False
    then have "1 \<le> mod_limb_size K * LENGTH('a)"
      using div_ceil_pos_iff [of "LENGTH('a)" "mod_bit_size K"] by (simp add: mod_limb_size_def limb_size_for_def Suc_le_eq)
    then show ?thesis
      using mod_from_unsigned_law(2) [OF assms(1,2) mod_new_dest bigint_one(1) u assms(3)] by (simp add: mod_one_def)
  next
    case True
    let ?p = "bigint_multiply Consteval g g (mod_auxiliary (normal_type (mod_modulus K)) (limb_size (bigint_one :: 'a word bit_span))) (mod_square K)"
    have one: "mod_int K = 1" using sound(3,4) True by simp
    have p: "bigint_ok ?p" "is_unsigned (signedness ?p)" "span_int ?p = 0"
      using bigint_multiply_exact [OF sycl_ok_Consteval mod_auxiliary_ok(1) _ sound(9), of "normal_type (mod_modulus K)" "limb_size (bigint_one :: 'a word bit_span)" g g]
        sound(10,12) by (simp_all add: mod_auxiliary_ok is_unsigned_def one)
    have um: "is_unsigned (signedness (mod_modulus K))" "0 < span_int (mod_modulus K)" using sound(2) one by (simp_all add: is_unsigned_def mod_int_def)
    obtain m where m: "bigint_modulo g ?p (mod_modulus K) = Some m" "bigint_ok m" "span_int m = 0"
      using bigint_modulo_cases [OF p(1,2) sound(1) um, of g] p(3) um(2) by (auto simp: mult_le_0_iff)
    have "bit_copy_to Consteval (mod_new g K) m = store (mod_new g K) 0"
      using bit_copy_to_new [OF assms(2) m(2), of g] m(3) one by simp
    moreover have "\<exists>s. constant_bit_span_of (store (mod_new g K) 0) = Some s"
      using constant_bit_span [of "store (mod_new g K) 0"] mod_store [OF assms(2) mod_new_dest, of 0 g] one assms(3)
      by (auto simp: constant_bit_span_of_def mod_ok_def mod_dest_def)
    ultimately show ?thesis
      using True m(1) by (auto simp: mod_one_def mod_from_unsigned_def mod_from_large_def Let_def mod_other_span_def mod_limb_size_def limb_size_for_def)
  qed
  then show ?thesis
    using mod_from_unsigned_law(1) [OF assms(1,2) mod_new_dest bigint_one(1) u assms(3)] by (auto simp: mod_one_def)
qed

text \<open>Modular integers provide the interface, with new results and in place.\<close>

interpretation mod_ring: modular_power "mod_valid E K" "mod_val K" "mod_int K"
    "mod_add E g K" "mod_subtract E g K" "mod_multiply E g K" "the (mod_one E g K)"
  for E :: "'a::len word eval" and g K
proof
  fix x y
  show "mod_valid E K x \<Longrightarrow> 0 \<le> mod_val K x \<and> mod_val K x < mod_int K"
    using mod_val [OF mod_validD(2,4)] by blast
  assume x: "mod_valid E K x"
  show "mod_valid E K (the (mod_one E g K)) \<and> mod_val K (the (mod_one E g K)) = 1 mod mod_int K"
    using mod_one_law [OF mod_validD(1-3) [OF x], of g] mod_validD [OF x] by (auto simp: mod_valid_def)
  assume y: "mod_valid E K y"
  show "mod_valid E K (mod_add E g K x y) \<and> mod_val K (mod_add E g K x y) = (mod_val K x + mod_val K y) mod mod_int K"
    "mod_valid E K (mod_subtract E g K x y) \<and> mod_val K (mod_subtract E g K x y) = (mod_val K x - mod_val K y) mod mod_int K"
    "mod_valid E K (mod_multiply E g K x y) \<and> mod_val K (mod_multiply E g K x y) = mod_val K x * mod_val K y mod mod_int K"
    using mod_body_laws [OF mod_validD(1,2) [OF x] mod_new_dest mod_validD(4) [OF x] mod_validD(4) [OF y]] mod_validD [OF x]
    by (simp_all add: mod_valid_def mod_operator_def)
qed

interpretation mod_assign_ring: modular_power "mod_valid E K" "mod_val K" "mod_int K"
    "mod_assign mod_add_body E g K" "mod_assign mod_subtract_body E g K" "mod_assign mod_multiply_body E g K" "the (mod_one E g K)"
  for E :: "'a::len word eval" and g K
proof
  fix x y
  show "mod_valid E K x \<Longrightarrow> 0 \<le> mod_val K x \<and> mod_val K x < mod_int K" by (rule mod_ring.val_range)
  assume x: "mod_valid E K x"
  show "mod_valid E K (the (mod_one E g K)) \<and> mod_val K (the (mod_one E g K)) = 1 mod mod_int K"
    by (rule mod_ring.one_law [OF x])
  assume y: "mod_valid E K y"
  show "mod_valid E K (mod_assign mod_add_body E g K x y) \<and> mod_val K (mod_assign mod_add_body E g K x y) = (mod_val K x + mod_val K y) mod mod_int K"
    "mod_valid E K (mod_assign mod_subtract_body E g K x y) \<and> mod_val K (mod_assign mod_subtract_body E g K x y) = (mod_val K x - mod_val K y) mod mod_int K"
    "mod_valid E K (mod_assign mod_multiply_body E g K x y) \<and> mod_val K (mod_assign mod_multiply_body E g K x y) = mod_val K x * mod_val K y mod mod_int K"
    using mod_body_laws [OF mod_validD(1,2) [OF x] mod_okD(1) [OF mod_validD(4) [OF x]] mod_validD(4) [OF x] mod_validD(4) [OF y]] mod_validD [OF x]
    by (simp_all add: mod_valid_def mod_assign_def)
qed

text \<open>Objects are their residues.\<close>

lemma mod_span_eq_iff:
  assumes "mod_sound K" and "mod_ok K x" and "mod_ok K y"
  shows "span_int x = span_int y \<longleftrightarrow> mod_val K x = mod_val K y"
proof
  assume "mod_val K x = mod_val K y"
  then show "span_int x = span_int y" using mod_val(3) [OF assms(1,2)] mod_val(3) [OF assms(1,3)] by simp
next
  assume "span_int x = span_int y"
  then have "mod_val K x mod mod_int K = mod_val K y mod mod_int K"
    using mod_R_form [OF assms(1,2)] mod_R_form [OF assms(1,3)] mod_cancel_R [OF assms(1), of "mod_val K x" "mod_limb_size K" "mod_val K y"]
    by (simp add: mod_R_def)
  then show "mod_val K x = mod_val K y" using mod_val [OF assms(1,2)] mod_val [OF assms(1,3)] by simp
qed

text \<open>The operators in place give the same objects as the operators with a new result.\<close>

lemma mod_assign_operator:
  assumes "mod_valid E K x" and "mod_valid E K y"
  shows "mod_assign mod_add_body E g K x y = mod_add E h K x y" "mod_assign mod_subtract_body E g K x y = mod_subtract E h K x y"
    "mod_assign mod_multiply_body E g K x y = mod_multiply E h K x y"
proof -
  have ok: "sycl_ok E" "mod_sound K" "mod_ok K x" "mod_ok K y" using assms by (simp_all add: mod_valid_def)
  note x = mod_okD(1) [OF ok(3)]
  have st: "store x z = store (mod_new h K) z" for z by (rule mod_dest_store [OF x mod_new_dest])
  show "mod_assign mod_add_body E g K x y = mod_add E h K x y" "mod_assign mod_subtract_body E g K x y = mod_subtract E h K x y"
    using mod_add_body_eq [OF ok(1,2) x ok(3,4), of g] mod_add_body_eq [OF ok(1,2) mod_new_dest ok(3,4), of h]
      mod_subtract_body_eq [OF ok(1,2) x ok(3,4), of g] mod_subtract_body_eq [OF ok(1,2) mod_new_dest ok(3,4), of h]
    by (simp_all add: mod_assign_def mod_operator_def st)
  obtain a where a: "mod_multiply_body E g K x x y = store x a" "0 \<le> a" "a < mod_int K"
    "(a * mod_R K) mod mod_int K = (span_int x * span_int y) mod mod_int K"
    using mod_multiply_body_eq [OF ok(1,2) x ok(3,4), of g] by blast
  obtain b where b: "mod_multiply_body E h K (mod_new h K) x y = store (mod_new h K) b" "0 \<le> b" "b < mod_int K"
    "(b * mod_R K) mod mod_int K = (span_int x * span_int y) mod mod_int K"
    using mod_multiply_body_eq [OF ok(1,2) mod_new_dest ok(3,4), of h] by blast
  have "a mod mod_int K = b mod mod_int K"
    using a(4) b(4) mod_cancel_R [OF ok(2), of a "mod_limb_size K" b] by (simp add: mod_R_def)
  then have "a = b" using a(2,3) b(2,3) by simp
  then show "mod_assign mod_multiply_body E g K x y = mod_multiply E h K x y"
    by (simp add: mod_assign_def mod_operator_def a(1) b(1) st)
qed


section \<open>Powers\<close>

lemma bit_test: "drop_bit i e AND 1 \<noteq> 0 \<longleftrightarrow> bit e i" for e :: nat
  by (simp add: and_one_eq bit_iff_odd_drop_bit odd_iff_mod_2_eq_one)

lemma mod_pow_law:
  assumes "mod_valid E K v"
  shows "\<exists>r. mod_pow E g K v e = Some r \<and> mod_valid E K r \<and> mod_val K r = mod_val K v ^ e mod mod_int K"
proof -
  obtain o1 where o1: "mod_one E g K = Some o1" "mod_valid E K o1" "mod_val K o1 = 1 mod mod_int K"
    using mod_one_law [OF mod_validD(1-3) [OF assms], of g] mod_ring.one_law [OF assms, of g] by auto
  show ?thesis
  proof (cases "e = 0")
    case True
    then show ?thesis using o1 by (simp add: mod_pow_def)
  next
    case False
    define k where "k = std_bit_width e - 1"
    let ?f = "\<lambda>i (result, value). (if bit e i then mod_assign mod_multiply_body E g K result value else result,
        mod_assign mod_multiply_body E g K value value)"
    obtain r w where s: "for_range k ?f (o1, v) = (r, w)" by (rule prod.exhaust)
    have loop: "mod_valid E K r" "mod_valid E K w" "mod_val K r = mod_val K v ^ take_bit k e mod mod_int K"
      "mod_val K w = mod_val K v ^ 2 ^ k mod mod_int K"
      using mod_assign_ring.square_multiply [OF o1(2) assms, of k e g] o1(3) by (simp_all add: s mod_simps)
    have run: "mod_pow E g K v e = Some (mod_multiply E g K w r)"
      unfolding mod_pow_def bit_test k_def [symmetric] using False o1(1) s by simp
    have "0 < std_bit_width e" using False std_bit_width_eq_0_iff [of e] by linarith
    then have "2 ^ k \<le> e" "e < 2 ^ Suc k" using std_bit_width_bounds [of e] False by (simp_all add: k_def)
    then have "e div 2 ^ k = 1" by (intro div_nat_eqI) simp_all
    then have "2 ^ k + take_bit k e = e" using mult_div_mod_eq [of "2 ^ k" e] by (simp add: take_bit_eq_mod)
    moreover have "mod_val K (mod_multiply E g K w r) = mod_val K v ^ (2 ^ k + take_bit k e) mod mod_int K"
      using mod_ring.mul_law [OF loop(2,1), of g] loop(3,4) by (simp add: power_add mod_mult_eq)
    ultimately show ?thesis using run mod_ring.mul_law [OF loop(2,1), of g] by simp
  qed
qed

lemma mod_pow_integer_law:
  assumes "mod_valid Consteval K v" and e: "bigint_ok e" "signedness e = Without_sign"
  shows "\<exists>r. mod_pow_integer g K v e = Some r \<and> mod_valid Consteval K r \<and> mod_val K r = mod_val K v ^ nat (span_int e) mod mod_int K"
proof -
  let ?x = "nat (span_int e)"
  have er: "0 \<le> span_int e" "span_int e < 2 ^ bit_size e" using bigint_range(1) [OF e(1)] e(2) by (simp_all add: is_unsigned_def)
  have ct: "ct_ok e" "ct_int e = span_int e" using bigint_ct [OF e(1)] e(2) by (simp_all add: is_unsigned_def)
  obtain o1 where o1: "mod_one Consteval g K = Some o1" "mod_valid Consteval K o1" "mod_val K o1 = 1 mod mod_int K"
    using mod_one_law [OF mod_validD(1-3) [OF assms(1)], of g] mod_ring.one_law [OF assms(1), of g] by auto
  show ?thesis
  proof (cases "span_int e = 0")
    case True
    then show ?thesis using o1 bigint_nonzero(2) [OF e] by (simp add: mod_pow_integer_def)
  next
    case False
    let ?f = "\<lambda>i (result, value). (if bit ?x i then mod_assign mod_multiply_body Consteval g K result value else result,
        mod_assign mod_multiply_body Consteval g K value value)"
    have "ct_for (bit_size e) (\<lambda>i (result, value). do {
             b \<leftarrow> ct_extract_bit e i;
             Some (if bool_cast b then mod_assign mod_multiply_body Consteval g K result value else result,
               mod_assign mod_multiply_body Consteval g K value value) }) (o1, v) = Some (for_range (bit_size e) ?f (o1, v)) \<and> True"
      by (rule ct_for_inv) (simp_all add: ct_extract_bit_eq [OF ct(1)] ct(2) bit_nat_iff er split: prod.split)
    moreover obtain r w where s: "for_range (bit_size e) ?f (o1, v) = (r, w)" by (rule prod.exhaust)
    ultimately have run: "mod_pow_integer g K v e = Some r"
      using False o1(1) bigint_nonzero(2) [OF e] by (simp add: mod_pow_integer_def)
    have "take_bit (bit_size e) ?x = ?x" using er by (simp add: take_bit_nat_eq_self nat_less_iff)
    then show ?thesis
      using mod_assign_ring.square_multiply [OF o1(2) assms(1), of "bit_size e" ?x g] o1(3) run by (simp add: s mod_simps)
  qed
qed

section \<open>Inverses\<close>

lemma mod_invert_law:
  assumes "mod_sound (K :: 'a::len word mod_constants)" and "mod_ok K v" and "1 < mod_int K"
  shows "mod_invert g K v = None \<longleftrightarrow> gcd (mod_val K v) (mod_int K) \<noteq> 1"
    and "mod_invert g K v = Some r \<Longrightarrow> mod_ok K r \<and> (mod_val K v * mod_val K r) mod mod_int K = 1"
proof -
  let ?M = "mod_int K" and ?x = "span_int v" and ?R = "mod_R K" and ?new = "mod_new g K"
  note sound = mod_soundD [OF assms(1)] and v = mod_okD [OF assms(2)] and form = mod_R_form [OF assms(1,2)]
  have um: "is_unsigned (signedness (mod_modulus K))" "0 < span_int (mod_modulus K)"
    using sound(2,3) by (simp_all add: is_unsigned_def mod_int_def)
  have uv: "is_unsigned (signedness v)" using v(5) by (simp add: is_unsigned_def)
  note vc = bigint_ct [OF v(2) uv] and mc = bigint_ct [OF sound(1) um(1), folded mod_int_def]
  have dest: "ct_dest ?new" by (simp add: mod_new_def)
  obtain s t where e: "bezout_result ?new ?new nullspan ?x ?M (ct_extended_euclidean ?new ?new nullspan v (mod_modulus K)) s t"
    using ct_extended_euclidean_eq [OF dest dest nullspan_dest(1) vc(1) mc(1)] vc(2) mc(2) by auto
  have s0: "0 \<le> s" "s \<le> ?M" "?M dvd ?x * s - gcd ?x ?M" using e assms(3) by (simp_all add: bezout_result_def)
  have pow: "?M < 2 ^ mod_bit_size K"
  proof -
    have "0 < mod_bit_size K" using assms(3) sound(4) by (cases "mod_bit_size K") simp_all
    then have "even ((2 :: int) ^ mod_bit_size K)" by simp
    moreover have "odd ?M" by (rule mod_odd [OF assms(1)])
    ultimately show ?thesis using sound(4) by (metis order_le_less)
  qed
  have "gcd ?x ?M \<le> ?M" using zdvd_imp_le [of "gcd ?x ?M" ?M] sound(3) by simp
  then have "gcd ?x ?M < 2 ^ mod_bit_size K" using pow by linarith
  note d = unsigned_store [OF _ this, of "normal_type (mod_modulus K)" g, folded mod_new_def]
  have check: "bool_cast (bigint_compare ints_equal_to Consteval (store ?new (gcd ?x ?M)) bigint_one) \<longleftrightarrow> gcd ?x ?M = 1"
    using bigint_compare_exact(5) [OF sycl_ok_Consteval, of "store ?new (gcd ?x ?M)" bigint_one] d by (simp add: mod_new_def)
  have "coprime ?M ?R" using mod_odd [OF assms(1)] by (simp add: mod_R_def coprime_right_2_iff_odd)
  then have "gcd (mod_val K v * ?R) ?M = gcd (mod_val K v) ?M" by (rule gcd_mult_left_right_cancel)
  then have gcd: "gcd ?x ?M = gcd (mod_val K v) ?M" unfolding form by (simp add: gcd_red_int [symmetric] gcd.commute)
  have run: "mod_invert g K v = (if gcd ?x ?M = 1
    then Some (mod_reduce Consteval K ?new (Bits (ints_multiply Consteval (memory g (min (mod_bit_size K + mod_bit_size K)
      (mod_bit_size K + rspan_bit_size (mod_cubed_span K)))) (mod_local g (mod_bit_size K + mod_bit_size K)) (Bits (store ?new s)) (mod_cubed_span K))) (mod_limb_size K))
    else None)"
    using e check by (auto simp: mod_invert_def ints_extended_euclidean_def bezout_result_def ct_assert_def Let_def)
  show "mod_invert g K v = None \<longleftrightarrow> gcd (mod_val K v) (mod_int K) \<noteq> 1"
    by (simp add: run gcd)
  show "mod_ok K r \<and> (mod_val K v * mod_val K r) mod mod_int K = 1" if res: "mod_invert g K v = Some r"
  proof -
    have one: "gcd ?x ?M = 1" using res run by (auto split: if_splits)
    then have inv: "(?x * s) mod ?M = 1" using s0(3) assms(3) by (simp add: mod_eq_dvd_iff [symmetric])
    then have "s \<noteq> ?M" by auto
    then have s: "0 \<le> s" "s < ?M" using s0 by simp_all
    note sok = mod_store [OF assms(1) mod_new_dest s, of g]
    let ?k = "mod_bit_size K + mod_bit_size K" and ?c = "?R ^ 3 mod ?M"
    have c: "0 \<le> ?c" "?c < ?M" using sound(3) by simp_all
    have b: "s < 2 ^ mod_bit_size K" "?c < 2 ^ mod_bit_size K" using mod_int_bits [OF assms(1)] s(2) c(2) by blast+
    have "s * ?c < 2 ^ mod_bit_size K * 2 ^ mod_bit_size K" by (rule mult_strict_mono') (use b s c in simp_all)
    then have p: "s * ?c < 2 ^ ?k" by (simp add: power_add)
    have "s \<le> ?R" using b(1) mod_R_bits(1) [of K] by linarith
    then have "s * ?c \<le> ?R * ?c" using c(1) by (rule mult_right_mono)
    also have "\<dots> < ?R * ?M" using c(2) mod_R_bits(2) [of K] by (rule mult_strict_left_mono)
    finally have R: "s * ?c < ?R * ?M" .
    have nz: "0 < rspan_bit_size (mod_cubed_span K) \<or> rspan_bit_size (Bits (store ?new s)) = 0 \<or> ?k = 0"
      using mod_constant_bits [OF assms(1) sound(14)] by auto
    have "rspan_int (Bits (store ?new s)) * rspan_int (mod_cubed_span K) = s * ?c"
      using sok(2) representsD(2) [OF sound(14)] by simp
    note red = mod_multiply_reduce [OF sycl_ok_Consteval assms(1) mod_new_dest mod_okV [OF sok(1)] representsV [OF sound(14)],
        unfolded this, OF p nz R refl, of g g]
    have "rspan_bit_size (Bits (store ?new s)) = mod_bit_size K" using mod_okD(6) [OF sok(1)] by simp
    note red = red [unfolded this]
    obtain z where z: "r = store ?new z" "0 \<le> z" "z < ?M" "(z * ?R) mod ?M = (s * ?c) mod ?M"
      using red res one by (auto simp: run)
    have "(s * ?c) mod ?M = (s * ?R ^ Suc 2) mod ?M" by (simp add: mod_mult_right_eq numeral_3_eq_3)
    with z(4) have "(z * ?R) mod ?M = (s * ?R ^ Suc 2) mod ?M" by (rule trans)
    from mod_R_pow_form [OF assms(1) this] have "z mod ?M = (s * ?R * ?R) mod ?M" by (simp add: power2_eq_square ac_simps)
    note r = mod_valI [OF assms(1) mod_new_dest z(2,3) this, of g, folded z(1)]
    have "(mod_val K v * mod_val K r) mod ?M = (mod_val K v * (s * ?R)) mod ?M" using r by (simp add: mod_mult_right_eq)
    also have "\<dots> = ((mod_val K v * ?R) mod ?M * s) mod ?M" by (simp only: mod_mult_left_eq) (simp only: ac_simps)
    also have "\<dots> = 1" using inv by (simp flip: form)
    finally show ?thesis using r by simp
  qed
qed

end
