(* ===== verification/Modint_Signed.thy ===== *)
theory Modint_Signed
  imports Modint_Power
begin

text \<open>
  Construction of modular integers from signed integers and from residues of another modulus, and the properties of modular
  integers.
\<close>

section \<open>Construction from signed and other modular integers\<close>

lemma get_masked:
  assumes "sycl_ok E" and "represents s x"
  shows "get_int E (Masked s (of_bool c)) = (if c then x else 0)"
  using get_int_rspan_int [OF assms(1), of "Masked s (of_bool c)"] representsD [OF assms(2)] by simp

lemma span_sign_dyn:
  assumes "bigint_ok v"
  shows "dynamic_value (span_sign v) = of_bool (span_int v < 0)"
  using rspan_sign_iff [OF sycl_ok_Consteval, of "Bits v"] assms by simp

lemma mod_to_unsigned_val:
  assumes "sycl_ok E" and "mod_sound K" and "mod_ok K x"
  shows "mod_ok K (mod_to_unsigned E g K x)" "bigint_ok (mod_to_unsigned E g K x)"
    "span_int (mod_to_unsigned E g K x) = mod_val K x" "signedness (mod_to_unsigned E g K x) = Without_sign"
proof -
  obtain y where y: "mod_to_unsigned E g K x = store (mod_new g K) y" "0 \<le> y" "y < mod_int K" "(y * mod_R K) mod mod_int K = span_int x"
    using mod_to_unsigned_eq [OF assms(1-3)] by blast
  note v = mod_val [OF assms(2,3)]
  have "y mod mod_int K = mod_val K x mod mod_int K"
    using mod_cancel_R [OF assms(2), of y "mod_limb_size K" "mod_val K x"] y(4) v(3) by (simp add: mod_R_def)
  then have yv: "y = mod_val K x" using y(2,3) v(1,2) by simp
  show ok: "mod_ok K (mod_to_unsigned E g K x)" and "span_int (mod_to_unsigned E g K x) = mod_val K x"
    using mod_store [OF assms(2) mod_new_dest y(2,3), of g] by (simp_all add: y(1) yv)
  from mod_okD [OF ok] show "bigint_ok (mod_to_unsigned E g K x)" "signedness (mod_to_unsigned E g K x) = Without_sign" by simp_all
qed

text \<open>The result of the conversion to a signed integer is the residue of least absolute value.\<close>

lemma mod_to_signed_law:
  assumes "sycl_ok E" and "mod_sound K" and "mod_ok K x" and "1 < mod_int K"
  shows "bigint_ok (mod_to_signed E g K x)"
    and "span_int (mod_to_signed E g K x) = (if 2 * mod_val K x < mod_int K then mod_val K x else mod_val K x - mod_int K)"
proof -
  let ?M = "mod_int K" and ?v = "mod_val K x" and ?b = "uninit (mod_bit_size K) With_sign (normal_type (mod_modulus K)) g"
  note sound = mod_soundD [OF assms(2)] note h = representsD [OF sound(8)]
  note v = mod_val [OF assms(2,3)] and u = mod_to_unsigned_val(2-4) [OF assms(1-3), of g]
  let ?u = "mod_to_unsigned E g K x"
  have c: "ints_greater E (Bits ?u) (mod_half_modulus_span K) = of_bool (?M div 2 < ?v)"
    using num_order_eq(2) [OF assms(1), of "Bits ?u" "mod_half_modulus_span K"] u h by (simp add: ints_defs)
  have eq: "mod_to_signed E g K x = store ?b (?v - (if ?M div 2 < ?v then ?M else 0))"
    using num_subtract_eq(1) [OF assms(1), of ?b "Bits ?u" "Masked (mod_modulus_span K) (of_bool (?M div 2 < ?v))" "Const 0"] u(1,2)
      get_masked [OF assms(1) sound(7)] assms(1)
    by (simp add: mod_to_signed_def Let_def c ints_subtract_def)
  have bits: "0 < mod_bit_size K" using assms(4) sound(4) by (cases "mod_bit_size K") simp_all
  then have "2 * 2 ^ (mod_bit_size K - 1) = (2 :: int) ^ mod_bit_size K" by (rule two_power_pred)
  moreover have "odd ?M" by (rule mod_odd [OF assms(2)])
  then have M: "?M = 2 * (?M div 2) + 1" by presburger
  ultimately have range: "in_range ?b (?v - (if ?M div 2 < ?v then ?M else 0))"
    using v(1,2) sound(4) by (auto simp: in_range_def)
  have less: "?M div 2 < ?v \<longleftrightarrow> \<not> 2 * ?v < ?M" using M by linarith
  from bigint_store [OF uninit_shape range] bits less
  show "bigint_ok (mod_to_signed E g K x)"
    "span_int (mod_to_signed E g K x) = (if 2 * ?v < ?M then ?v else ?v - ?M)" by (simp_all add: eq)
qed

lemma mod_from_small_signed_law:
  assumes "sycl_ok (E :: 'a::len word eval)" and "mod_sound K" and "mod_bit_size K + LENGTH('a) \<le> 2 ^ 64"
    and v: "bigint_ok v" "signedness v = With_sign" "bit_size v < mod_bit_size K"
  shows "\<exists>r. mod_from_small_signed E g K v = Some r \<and> mod_ok K r \<and> mod_val K r = span_int v mod mod_int K"
proof -
  let ?M = "mod_int K" and ?x = "span_int v" and ?new = "mod_new g K"
  note sound = mod_soundD [OF assms(2)]
  have r: "- (2 ^ (bit_size v - 1)) \<le> ?x" "?x < 2 ^ (bit_size v - 1)" using bigint_range(2) [OF v(1)] v(2) by simp_all
  have "(2 :: int) ^ (bit_size v - 1) \<le> 2 ^ (mod_bit_size K - 1)" using v(3) by (intro power_increasing) simp_all
  moreover have "2 ^ (mod_bit_size K - 1) < ?M" using sound(5) v(3) by simp
  ultimately have "- ?M < ?x" "?x < ?M" using r by linarith+
  then have y: "0 \<le> ?x + (if ?x < 0 then ?M else 0)" "?x + (if ?x < 0 then ?M else 0) < ?M" by simp_all
  have eq: "fst (num_add E ?new (Masked (mod_modulus_span K) (dynamic_value (span_sign v))) (Bits v) (Const 0))
    = store ?new (?x + (if ?x < 0 then ?M else 0))"
    using num_add_eq(1) [OF assms(1), of ?new "Masked (mod_modulus_span K) (of_bool (?x < 0))" "Bits v" "Const 0"]
      mod_new_dest [of K g] get_masked [OF assms(1) sound(7)] v(1) assms(1)
    by (simp add: span_sign_dyn [OF v(1)] mod_dest_def add.commute)
  note this' = mod_store [OF assms(2) mod_new_dest y, of g] note t = mod_okD [OF this'(1)]
  have u: "is_unsigned (signedness (store ?new (?x + (if ?x < 0 then ?M else 0))))" using t(5) by (simp add: is_unsigned_def)
  have bits: "bit_size (store ?new (?x + (if ?x < 0 then ?M else 0))) \<le> mod_limb_size K * LENGTH('a)"
    using limb_size_for_bits [of "mod_bit_size K", where 'a = 'a] unfolding t(6) by (simp add: mod_limb_size_def mult.commute)
  have "(?x + (if ?x < 0 then ?M else 0)) mod ?M = ?x mod ?M" by simp
  then show ?thesis
    using mod_from_unsigned_law [OF assms(1,2) t(1) t(2) u assms(3), of g] bits this'(2) by (auto simp: mod_from_small_signed_def Let_def eq)
qed


lemma in_range_wider:
  assumes "0 \<le> x" and "x < 2 ^ n" and "n < bit_size b"
  shows "in_range b x"
proof -
  have "(2 :: int) ^ n \<le> 2 ^ (bit_size b - 1)" "(2 :: int) ^ n \<le> 2 ^ bit_size b" using assms(3) by (simp_all add: power_increasing)
  moreover have "(0 :: int) \<le> 2 ^ (bit_size b - 1)" by simp
  ultimately have "x < 2 ^ (bit_size b - 1)" "x < 2 ^ bit_size b" "- (2 ^ (bit_size b - 1)) \<le> x" using assms(1,2) by linarith+
  then show ?thesis using assms(1) by (simp add: in_range_def)
qed

lemma bigint_sub_one:
  fixes n :: "'a::len word bit_span"
  assumes "bigint_ok n" and "0 < span_int n" and "bit_size n + 1 + LENGTH('a) \<le> 2 ^ 64"
  shows "unat (ints_bit_width Consteval (Bits (bigint_subtract Consteval g n bigint_one))) = std_bit_width (nat (span_int n - 1))"
proof -
  let ?b = "uninit (max (bit_size n) 1 + 1) With_sign (common_normal (normal_type n) Normal) g"
  let ?d = "bigint_subtract Consteval g n bigint_one"
  have eq: "?d = store ?b (span_int n - 1)"
    using num_subtract_eq(1) [OF sycl_ok_Consteval, of ?b "Bits n" "Bits bigint_one" "Const 0"] assms(1)
    by (simp add: bigint_subtract_def ints_defs)
  have "span_int n < 2 ^ bit_size n"
  proof (cases "is_signed (signedness n)")
    case True
    then have "span_int n < 2 ^ (bit_size n - 1)" using bigint_range(2) [OF assms(1)] by simp
    moreover have "(2 :: int) ^ (bit_size n - 1) \<le> 2 ^ bit_size n" by (rule power_increasing) simp_all
    ultimately show ?thesis by linarith
  next
    case False
    then show ?thesis using bigint_range(1) [OF assms(1)] by (simp add: is_unsigned_iff)
  qed
  then have lt: "span_int n - 1 < 2 ^ bit_size n" by linarith
  have pos: "0 < bit_size n" using assms(2) bigint_no_bits(1) [OF assms(1)] by (cases "bit_size n") auto
  have range: "in_range ?b (span_int n - 1)" using in_range_wider [OF _ lt, of ?b] assms(2) by simp
  have shape: "span_shape ?b" by (rule uninit_shape) simp
  from bigint_store [OF shape range] have d: "bigint_ok ?d" "span_int ?d = span_int n - 1" by (simp_all add: eq)
  have bits: "bit_size ?d = bit_size n + 1" using pos by (simp add: eq)
  have "LENGTH('a) * limb_size ?d < 2 ^ 64"
    using limb_size_for_upper [of "bit_size ?d", where 'a = 'a] assms(3) by (simp add: limb_size_def bits)
  then have w: "ints_bit_width Consteval (Bits ?d) = of_nat (std_bit_width (nat (span_int n - 1)))"
    using num_bit_width_eq [OF sycl_ok_Consteval, of "Bits ?d"] d assms(2) by (simp add: ints_defs)
  have "std_bit_width (nat (span_int n - 1)) \<le> bit_size n" using lt assms(2) by (simp add: std_bit_width_le_iff nat_less_iff)
  then show ?thesis using w assms(3) by (simp add: unat_of_nat)
qed

lemma mod_offset_some:
  assumes "mod_sound K" and v: "bigint_ok v" "signedness v = Without_sign" and "mod_offset_to g K v = Some f"
  shows "bigint_ok f" "span_int f = (- span_int v) mod mod_int K" "bit_size f \<le> bit_size (mod_modulus K) + 1"
    "bit_size f = 0 \<or> signedness f = With_sign" "bit_size f = 0 \<longrightarrow> signedness f = Without_sign"
    "normal_type (mod_modulus K) = Normal \<Longrightarrow> normal_type v = Normal \<Longrightarrow> normal_type f = Normal"
proof -
  let ?M = "mod_int K"
  note sound = mod_soundD [OF assms(1)]
  have um: "is_unsigned (signedness (mod_modulus K))" "0 < span_int (mod_modulus K)"
    using sound(2,3) by (simp_all add: is_unsigned_def mod_int_def)
  have uv: "is_unsigned (signedness v)" using v(2) by (simp add: is_unsigned_def)
  obtain m where m: "bigint_modulo g v (mod_modulus K) = Some m"
    and f: "f = (if bool_cast (bigint_compare ints_equal_to Consteval m bigint_zero) then bigint_zero
       else bigint_subtract Consteval g (mod_modulus K) m)"
    using assms(4) by (auto simp: mod_offset_to_def split: bind_splits)
  note mm = bigint_modulo_some [OF v(1) uv sound(1) um m]
  have z: "bool_cast (bigint_compare ints_equal_to Consteval m bigint_zero) \<longleftrightarrow> span_int m = 0"
    by (rule bigint_nonzero(2) [OF mm(1,2)])
  have bits: "0 < bit_size (mod_modulus K)" using um(2) bigint_no_bits(1) [OF sound(1)] by (cases "bit_size (mod_modulus K)") auto
  have fs: "bigint_ok (bigint_subtract Consteval g (mod_modulus K) m)"
    "span_int (bigint_subtract Consteval g (mod_modulus K) m) = ?M - span_int m"
    "bit_size (bigint_subtract Consteval g (mod_modulus K) m) = bit_size (mod_modulus K) + 1"
    "signedness (bigint_subtract Consteval g (mod_modulus K) m) = With_sign"
    "normal_type (bigint_subtract Consteval g (mod_modulus K) m) = common_normal (normal_type (mod_modulus K)) (normal_type m)"
    using bigint_subtract_exact [OF sycl_ok_Consteval sound(1) mm(1), of g] sound(2) mm(2,4) bits
      num_subtract_eq(1) [OF sycl_ok_Consteval, of "uninit (bit_size (mod_modulus K) + 1) With_sign
        (common_normal (normal_type (mod_modulus K)) (normal_type m)) g" "Bits (mod_modulus K)" "Bits m" "Const 0"]
    by (simp_all add: mod_int_def bigint_subtract_def ints_defs)
  have zero: "bit_size (bigint_zero :: 'a word bit_span) = 0" by (simp add: bigint_zero_def bit_array_def)
  show "bigint_ok f" "bit_size f \<le> bit_size (mod_modulus K) + 1" "bit_size f = 0 \<or> signedness f = With_sign"
    "bit_size f = 0 \<longrightarrow> signedness f = Without_sign"
    "normal_type (mod_modulus K) = Normal \<Longrightarrow> normal_type v = Normal \<Longrightarrow> normal_type f = Normal"
    using fs bigint_nonzero(3,5) [OF mm(1,2)] by (simp_all add: f zero bigint_zero_def bit_array_def mm(5) common_normal_def)
  have "(- span_int v) mod ?M = (- span_int m) mod ?M" by (simp add: mm(3) mod_simps flip: mod_int_def)
  also have "\<dots> = (if span_int m = 0 then 0 else ?M - span_int m)"
  proof (cases "span_int m = 0")
    case False
    have "0 \<le> span_int m" "span_int m < ?M" using sound(3) by (simp_all add: mm(3) flip: mod_int_def)
    then have "(?M - span_int m) mod ?M = ?M - span_int m" using False by (intro mod_pos_pos_trivial) linarith+
    then show ?thesis using False by simp
  qed simp
  finally show "span_int f = (- span_int v) mod ?M" using fs(2) bigint_nonzero(4) [OF mm(1,2)] by (simp add: f z)
qed

text \<open>A multiple of the modulus above \<open>X\<close>, and the reduction of what is below it.\<close>

lemma mod_from_local:
  assumes "sycl_ok (E :: 'a::len word eval)" and "mod_sound K" and "mod_bit_size K + LENGTH('a) \<le> 2 ^ 64"
    and "0 \<le> y" and "y < N" and run: "mod_from_unsigned E g K (mod_new g K) (store (mod_local g (std_bit_width (nat (N - 1)))) y) = Some r"
  shows "mod_ok K r \<and> mod_val K r = y mod mod_int K"
proof -
  let ?n = "std_bit_width (nat (N - 1))"
  have "nat (N - 1) < 2 ^ ?n" by (rule std_bit_width_less)
  then have "y < 2 ^ ?n" using assms(4,5) by (simp add: nat_less_iff)
  note y = mod_local_store [OF assms(4) this, of g]
  have "is_unsigned (signedness (store (mod_local g ?n) y))" by (simp add: is_unsigned_def)
  from mod_from_unsigned_law(1) [OF assms(1,2) mod_new_dest y(1) this assms(3) run] show ?thesis by (simp add: y(2))
qed

text \<open>The next multiple of the modulus above a number whose type has a bit to spare, as the code computes it.\<close>

lemma mod_next_multiple:
  fixes v :: "'a::len word bit_span"
  assumes "mod_sound K" and v: "bigint_ok v" "signedness v = Without_sign" "0 < span_int v" "span_int v \<le> 2 ^ (bit_size v - 1)"
    and "mod_offset_to g K v = Some f"
  defines "N \<equiv> span_int v + (- span_int v) mod mod_int K" and "n \<equiv> bigint_add Consteval g v f"
  shows "bigint_ok n" and "span_int n = N" and "bit_size n \<le> bit_size v + bit_size (mod_modulus K) + 2"
proof -
  note sound = mod_soundD [OF assms(1)] and f = mod_offset_some [OF assms(1) v(1,2) assms(6)]
  have f0: "0 \<le> span_int f" using sound(3) by (simp add: f(2))
  have xr: "0 < bit_size v" using v(3) bigint_no_bits(1) [OF v(1)] by (cases "bit_size v") auto
  have "bigint_ok n \<and> span_int n = N \<and> bit_size n \<le> bit_size v + bit_size (mod_modulus K) + 2"
  proof (cases "bit_size f = 0")
    case True
    then have "signedness f = Without_sign" using f(5) by simp
    then show ?thesis
      using bigint_add_exact [OF sycl_ok_Consteval v(1) f(1), of g] v(2) True
      by (simp add: n_def N_def f(2) [symmetric] bigint_add_def ints_defs Let_def num_add_eq)
  next
    case False
    let ?m = "max (bit_size v) (bit_size f)"
    let ?b = "common_uninit (?m + 1) g v f"
    have sg: "signedness f = With_sign" using f(4) False by simp
    have eq: "n = store ?b N"
      using num_add_eq(1) [OF sycl_ok_Consteval, of ?b "Bits v" "Bits f" "Const 0"] v(1) f(1) False xr
      by (simp add: n_def N_def f(2) bigint_add_def ints_defs Let_def)
    have "span_int f < 2 ^ (bit_size f - 1)" using bigint_range(2) [OF f(1)] sg by simp
    moreover have "(2 :: int) ^ (bit_size f - 1) \<le> 2 ^ (?m - 1)" "(2 :: int) ^ (bit_size v - 1) \<le> 2 ^ (?m - 1)"
      by (rule power_increasing; simp)+
    ultimately have "N < 2 * 2 ^ (?m - 1)" using v(4) unfolding N_def f(2) [symmetric] by linarith
    also have "2 * 2 ^ (?m - 1) = (2 :: int) ^ ?m" using xr by (intro two_power_pred) simp
    finally have "in_range ?b N" using v(3) f0 in_range_wider [of N ?m ?b] by (simp add: N_def f(2))
    moreover have "span_shape ?b" by (simp add: span_shape_def)
    ultimately show ?thesis using bigint_store [of ?b N] f(3) by (simp add: eq)
  qed
  then show "bigint_ok n" "span_int n = N" "bit_size n \<le> bit_size v + bit_size (mod_modulus K) + 2" by simp_all
qed

lemma mod_add_multiple: "N mod M = 0 \<Longrightarrow> (x + (if c then N else 0)) mod M = x mod (M :: int)"
  using mod_add_right_eq [of x N M] by (cases c) simp_all

lemma mod_from_large_signed_law:
  fixes v :: "'a::len word bit_span"
  assumes "sycl_ok E" and "mod_sound K" and "bit_size v + bit_size (mod_modulus K) + LENGTH('a) + 3 \<le> 2 ^ 64"
    and "mod_bit_size K + LENGTH('a) \<le> 2 ^ 64"
    and v: "bigint_ok v" "signedness v = With_sign" and run: "mod_from_large_signed E g K v = Some r"
  shows "mod_ok K r \<and> mod_val K r = span_int v mod mod_int K"
proof -
  let ?M = "mod_int K" and ?x = "span_int v" and ?X = "2 ^ (bit_size v - 1) :: int"
  let ?l = "bigint_shift_left Consteval g bigint_one (bit_size v - 1) :: 'a word bit_span"
  let ?N = "?X + (- ?X) mod ?M"
  note sound = mod_soundD [OF assms(2)]
  have xr: "- ?X \<le> ?x" "?x < ?X" "0 < bit_size v" using bigint_range(2) [OF v(1)] v(2) by simp_all
  have l: "bigint_ok ?l" "span_int ?l = ?X" "signedness ?l = Without_sign" "bit_size ?l = bit_size v"
    using bigint_shift_left_exact [OF sycl_ok_Consteval bigint_one(1), of g "bit_size v - 1"] xr(3)
      num_shift_left_eq [OF sycl_ok_Consteval, of "uninit (1 + (bit_size v - 1)) Without_sign Normal g" "Bits bigint_one" "bit_size v - 1"]
    by (simp_all add: bigint_shift_left_def ints_defs)
  obtain f where f: "mod_offset_to g K ?l = Some f" using run by (auto simp: mod_from_large_signed_def Let_def split: bind_splits)
  have "0 < span_int ?l" "span_int ?l \<le> 2 ^ (bit_size ?l - 1)" unfolding l(2,4) by simp_all
  note n = mod_next_multiple [OF assms(2) l(1,3) this f, unfolded l(2,4)]
  let ?n = "bigint_add Consteval g ?l f"
  have f0: "0 \<le> (- ?X) mod ?M" using sound(3) by simp
  have N: "?X \<le> ?N" "0 < ?N" using f0 zero_less_power [of "2 :: int" "bit_size v - 1"] by linarith+
  obtain s where s: "constant_bit_span_of ?n = Some s" "represents s ?N"
    using constant_bit_span [OF n(1)] N(2) n(2,3) assms(3) by (auto simp: constant_bit_span_of_def)
  have w: "unat (ints_bit_width Consteval (Bits (bigint_subtract Consteval g ?n bigint_one))) = std_bit_width (nat (?N - 1))"
    using bigint_sub_one [OF n(1), of g] N(2) n(2,3) assms(3) by simp
  let ?y = "?x + (if ?x < 0 then ?N else 0)" and ?b = "mod_local g (std_bit_width (nat (?N - 1))) :: 'a word bit_span"
  have "fst (num_add E ?b (Masked s (dynamic_value (span_sign v))) (Bits v) (Const 0)) = store ?b ?y"
    using num_add_eq(1) [OF assms(1), of ?b "Masked s (of_bool (?x < 0))" "Bits v" "Const 0"] get_masked [OF assms(1) s(2)] v(1) assms(1)
    by (simp add: span_sign_dyn [OF v(1)] add.commute)
  then have run': "mod_from_unsigned E g K (mod_new g K) (store ?b ?y) = Some r"
    using run unfolding mod_from_large_signed_def Let_def f bind.simps s(1) w by simp
  have y: "0 \<le> ?y" "?y < ?N" using xr N by auto
  have "?N mod ?M = 0" by (simp add: mod_add_right_eq)
  then have "?y mod ?M = ?x mod ?M" by (rule mod_add_multiple)
  with mod_from_local [OF assms(1,2,4) y run'] show ?thesis by simp
qed

text \<open>The sum of a modulus and its offset may need one more bit than its type has; the number of bits that the code computes
  from the wrapped sum is right all the same.\<close>

lemma width_wrapped:
  fixes N :: int
  assumes "2 ^ p < N" and "N < 2 ^ p + 2 ^ (p - 1)" and "0 < p"
  shows "Suc (std_bit_width (nat (2 ^ Suc p - N))) = std_bit_width (nat (N - 1))"
proof -
  have two: "2 * 2 ^ (p - 1) = (2 :: int) ^ p" using assms(3) by (rule two_power_pred)
  have "nat (2 ^ p) \<le> nat (N - 1)" "nat (N - 1) < nat (2 ^ Suc p)" using assms(1,2) two by simp_all
  then have "2 ^ p \<le> nat (N - 1)" "nat (N - 1) < 2 ^ Suc p" by (simp_all only: nat_power_eq nat_numeral zero_le_numeral)
  then have "std_bit_width (nat (N - 1)) = Suc p" by (intro std_bit_width_eqI) simp_all
  moreover have "nat (2 ^ (p - 1)) \<le> nat (2 ^ Suc p - N)" "nat (2 ^ Suc p - N) < nat (2 ^ p)"
    using assms(1,2) two by simp_all
  then have "2 ^ (p - 1) \<le> nat (2 ^ Suc p - N)" "nat (2 ^ Suc p - N) < 2 ^ Suc (p - 1)" using assms(3) by (simp_all only: nat_power_eq nat_numeral zero_le_numeral Suc_diff_1)
  then have "std_bit_width (nat (2 ^ Suc p - N)) = Suc (p - 1)" by (intro std_bit_width_eqI) simp_all
  ultimately show ?thesis using assms(3) by simp
qed

lemma bigint_sub_one_negative:
  fixes n :: "'a::len word bit_span"
  assumes "bigint_ok n" and "signedness n = With_sign" and "span_int n < 0" and "bit_size n + 1 + LENGTH('a) \<le> 2 ^ 64"
  shows "unat (ints_bit_width Consteval (Bits (bigint_subtract Consteval g n bigint_one))) = Suc (std_bit_width (nat (- span_int n)))"
proof -
  let ?b = "uninit (max (bit_size n) 1 + 1) With_sign (common_normal (normal_type n) Normal) g"
  let ?d = "bigint_subtract Consteval g n bigint_one"
  have eq: "?d = store ?b (span_int n - 1)"
    using num_subtract_eq(1) [OF sycl_ok_Consteval, of ?b "Bits n" "Bits bigint_one" "Const 0"] assms(1)
    by (simp add: bigint_subtract_def ints_defs)
  have r: "- (2 ^ (bit_size n - 1)) \<le> span_int n" "0 < bit_size n" using bigint_range(2) [OF assms(1)] assms(2) by simp_all
  have two: "2 * 2 ^ (bit_size n - 1) = (2 :: int) ^ bit_size n" using r(2) by (rule two_power_pred)
  have "1 \<le> (2 :: int) ^ (bit_size n - 1)" by simp
  then have "- (2 ^ bit_size n) \<le> span_int n - 1" using r(1) two by linarith
  moreover have "max (bit_size n) 1 = bit_size n" using r(2) by simp
  ultimately have range: "in_range ?b (span_int n - 1)" using assms(3) zero_less_power [of "2 :: int" "bit_size n"] by (simp add: in_range_def)
  have shape: "span_shape ?b" by (rule uninit_shape) simp
  from bigint_store [OF shape range] have d: "bigint_ok ?d" "span_int ?d = span_int n - 1" by (simp_all add: eq)
  have bits: "bit_size ?d = bit_size n + 1" using r(2) by (simp add: eq)
  have "LENGTH('a) * limb_size ?d < 2 ^ 64"
    using limb_size_for_upper [of "bit_size ?d", where 'a = 'a] assms(4) by (simp add: limb_size_def bits)
  then have w: "ints_bit_width Consteval (Bits ?d) = of_nat (Suc (std_bit_width (nat (- span_int n))))"
    using num_bit_width_eq [OF sycl_ok_Consteval, of "Bits ?d"] d assms(3) by (simp add: ints_defs)
  have "- span_int n < 2 ^ bit_size n" using r(1) two zero_less_power [of "2 :: int" "bit_size n - 1"] by linarith
  then have "std_bit_width (nat (- span_int n)) \<le> bit_size n" using assms(3) by (simp add: std_bit_width_le_iff nat_less_iff)
  then have "Suc (std_bit_width (nat (- span_int n))) < bit_size n + 1 + LENGTH('a)" using len_gt_0 [where 'a = 'a] by linarith
  then have "Suc (std_bit_width (nat (- span_int n))) < 2 ^ 64" using assms(4) by linarith
  then show ?thesis using w by (simp add: unat_of_nat del: of_nat_Suc)
qed

text \<open>A normalized signed span holds a number that is out of its range like the negative number it wraps to.\<close>

lemma store_negative:
  assumes "is_signed (signedness b)" and "normal_type b = Normal" and "0 < bit_size b" and "in_range b y" and "y < 0"
    and "x mod 2 ^ bit_size b = y mod 2 ^ bit_size b"
  shows "store b x = store (b :: 'a::len word bit_span) y"
proof -
  note sp = last_bit_split [OF assms(3)]
  have low: "bit x k \<longleftrightarrow> bit y k" if "k < bit_size b" for k
    using that arg_cong [OF assms(6) [folded take_bit_eq_mod], of "\<lambda>z. bit z k"] by (simp add: bit_take_bit_iff)
  have top: "bit y (bit_size b - 1)"
    using in_range_bit [of b y] assms(1,3,4,5) by simp
  have "written_limb b i (Dyn (limb_of x i)) Normal = written_limb b i (Dyn (limb_of y i)) Normal" if i: "i < limb_size b" for i
  proof (rule bit_word_eqI)
    fix j assume j: "j < LENGTH('a)"
    have val: "bit (written_limb b i (Dyn (limb_of z i)) Normal) j \<longleftrightarrow>
      bit z (LENGTH('a) * i + j) \<or> i = limb_size b - 1 \<and> last_limb_bit_size b \<le> j \<and> bit z (bit_size b - 1)" for z :: int
    proof (cases "i = limb_size b - 1")
      case True
      have lt: "last_limb_bit_size b - 1 < LENGTH('a)" using sp(2,3) by linarith
      have e: "LENGTH('a) * i + (last_limb_bit_size b - 1) = bit_size b - 1" using sp(1,2) True by simp
      have "bit (limb_of z i :: 'a word) (last_limb_bit_size b - 1) \<longleftrightarrow> bit z (bit_size b - 1)"
        using lt e by (simp add: bit_limb_of)
      then show ?thesis
        using True assms(1,2) sp(2,3,5) lt j
        by (simp add: written_limb_def Let_def core_extend_sign_bit_def bit_extend_sign bit_limb_of mask_from_eq)
    next
      case False
      then show ?thesis using j by (simp add: written_limb_def bit_limb_of)
    qed
    show "bit (written_limb b i (Dyn (limb_of x i)) Normal) j = bit (written_limb b i (Dyn (limb_of y i)) Normal) j"
    proof (cases "LENGTH('a) * i + j < bit_size b")
      case True
      then show ?thesis using low [OF True] low [of "bit_size b - 1"] assms(3) by (auto simp: val)
    next
      case False
      have last: "i = limb_size b - 1"
      proof (rule ccontr)
        assume "i \<noteq> limb_size b - 1"
        then have "Suc i \<le> limb_size b - 1" using i by simp
        then have "LENGTH('a) * Suc i \<le> LENGTH('a) * (limb_size b - 1)" by (rule mult_le_mono2)
        then show False using False j sp(1) by simp
      qed
      have "last_limb_bit_size b \<le> j" using False sp(1) unfolding last by linarith
      moreover have "bit x (bit_size b - 1)" using top low [of "bit_size b - 1"] assms(3) by simp
      ultimately show ?thesis unfolding val using top last by blast
    qed
  qed
  then show ?thesis by (simp add: store_def span_written_def assms(2))
qed

lemma mod_other_width:
  fixes v :: "'a::len word bit_span"
  assumes "mod_sound K" and v: "bigint_ok v" "signedness v = Without_sign" and "mod_int K \<le> span_int v"
    and "mod_offset_to g K v = Some f" and size: "bit_size v + bit_size (mod_modulus K) + LENGTH('a) + 3 \<le> 2 ^ 64"
    and normal: "normal_type v = Normal" "normal_type (mod_modulus K) = Normal"
  defines "N \<equiv> span_int v + (- span_int v) mod mod_int K" and "n \<equiv> bigint_add Consteval g v f"
  shows "unat (ints_bit_width Consteval (Bits (bigint_subtract Consteval g n bigint_one))) = std_bit_width (nat (N - 1))"
proof -
  let ?p = "bit_size v"
  note sound = mod_soundD [OF assms(1)] and f = mod_offset_some [OF assms(1) v(1,2) assms(5)]
  have f0: "0 \<le> span_int f" "span_int f < mod_int K" using sound(3) by (simp_all add: f(2))
  have v0: "0 < span_int v" using sound(3) assms(4) by linarith
  then have p: "0 < ?p" using bigint_no_bits(1) [OF v(1)] by (cases ?p) auto
  have vr: "span_int v < 2 ^ ?p" using bigint_range(1) [OF v(1)] v(2) by (simp add: is_unsigned_def)
  have N: "N = span_int v + span_int f" by (simp add: N_def f(2))
  show ?thesis
  proof (cases "bit_size f = 0")
    case True
    then have "signedness f = Without_sign" using f(5) by simp
    then have "bigint_ok n" "span_int n = N" "bit_size n = ?p"
      using bigint_add_exact [OF sycl_ok_Consteval v(1) f(1), of g] v(2) True p
        num_add_eq(1) [OF sycl_ok_Consteval, of "common_uninit ?p g v f" "Bits v" "Bits f" "Const 0"]
      by (simp_all add: n_def N bigint_add_def ints_defs Let_def)
    with bigint_sub_one [of n g] size v0 f0 show ?thesis by (simp add: N)
  next
    case False
    let ?m = "max ?p (bit_size f)"
    let ?b = "common_uninit (?m + 1) g v f"
    have sg: "signedness f = With_sign" using f(4) False by simp
    have eq: "n = store ?b N"
      using num_add_eq(1) [OF sycl_ok_Consteval, of ?b "Bits v" "Bits f" "Const 0"] v(1) f(1) False p
      by (simp add: n_def N bigint_add_def ints_defs Let_def)
    have shape: "span_shape ?b" by (simp add: span_shape_def)
    have sgb: "signedness ?b = With_sign" by (simp add: sg common_signedness_def)
    have fr: "span_int f < 2 ^ (bit_size f - 1)" using bigint_range(2) [OF f(1)] sg by simp
    have two: "2 * 2 ^ (bit_size f - 1) = (2 :: int) ^ bit_size f" using False by (intro two_power_pred) simp
    show ?thesis
    proof (cases "N < 2 ^ ?m")
      case True
      then have "in_range ?b N" using in_range_wider [of N ?m ?b] v0 f0 by (simp add: N)
      from bigint_store [OF shape this] bigint_sub_one [of n g] size f(3) v0 f0 show ?thesis by (simp add: eq N)
    next
      case over: False
      have le: "bit_size f \<le> ?p"
      proof (rule ccontr)
        assume *: "\<not> bit_size f \<le> ?p"
        then have "(2 :: int) ^ ?p \<le> 2 ^ (bit_size f - 1)" by (intro power_increasing) simp_all
        moreover have "?m = bit_size f" using * by simp
        ultimately show False using over vr fr two unfolding N by linarith
      qed
      then have m: "?m = ?p" by simp
      have "(2 :: int) ^ (bit_size f - 1) \<le> 2 ^ (?p - 1)" using le by (intro power_increasing) simp_all
      then have hi: "N < 2 ^ ?p + 2 ^ (?p - 1)" using vr fr unfolding N by linarith
      have two': "2 * 2 ^ (?p - 1) = (2 :: int) ^ ?p" using p by (rule two_power_pred)
      have "N \<noteq> 2 ^ ?p"
      proof
        assume *: "N = 2 ^ ?p"
        have "mod_int K dvd N" using mod_add_right_eq [of "span_int v" "- span_int v" "mod_int K"] by (simp add: N_def mod_eq_0_iff_dvd)
        then have "mod_int K dvd 2 ^ ?p" by (simp add: *)
        moreover have "coprime (mod_int K) (2 ^ ?p)" using mod_odd [OF assms(1)] by (simp add: coprime_right_2_iff_odd)
        ultimately have "is_unit (mod_int K)" using coprime_common_divisor [of "mod_int K" "2 ^ ?p" "mod_int K"] by simp
        then have "mod_int K = 1" using sound(3) by simp
        then show False using * vr f0 by (simp add: N)
      qed
      then have lo: "2 ^ ?p < N" using over m by simp
      let ?W = "N - 2 ^ Suc ?p"
      have range: "in_range ?b ?W" using lo hi two' sgb m by (simp add: in_range_def)
      have cong: "N mod 2 ^ bit_size ?b = ?W mod 2 ^ bit_size ?b" by (simp add: m mod_simps del: power_Suc)
      have W: "?W < 0" using hi two' zero_less_power [of "2 :: int" "?p - 1"] unfolding power_Suc by linarith
      have s: "is_signed (signedness ?b)" "normal_type ?b = Normal" "0 < bit_size ?b"
        using sgb normal(1) f(6) [OF normal(2,1)] by (simp_all add: common_normal_def)
      have n: "n = store ?b ?W" unfolding eq by (rule store_negative [OF s range W cong])
      from bigint_store [OF shape range] have nn: "bigint_ok n" "span_int n = ?W" by (simp_all only: n)
      have "signedness n = With_sign" "bit_size n + 1 + LENGTH('a) \<le> 2 ^ 64" using sgb size m by (simp_all add: n)
      then have "unat (ints_bit_width Consteval (Bits (bigint_subtract Consteval g n bigint_one))) = Suc (std_bit_width (nat (- ?W)))"
        using bigint_sub_one_negative [OF nn(1), of g] W unfolding nn(2) by blast
      also have "\<dots> = std_bit_width (nat (N - 1))" using width_wrapped [OF lo hi p] by simp
      finally show ?thesis .
    qed
  qed
qed

text \<open>The signed representative of the other residue is the number that is converted.\<close>

lemma mod_from_mod_law:
  fixes K J :: "'a::len word mod_constants"
  assumes "sycl_ok E" and "mod_sound K" and "mod_sound J" and "mod_ok J x"
    and size: "bit_size (mod_modulus J) + bit_size (mod_modulus K) + LENGTH('a) + 3 \<le> 2 ^ 64" "mod_bit_size K + LENGTH('a) \<le> 2 ^ 64"
    and normal: "normal_type (mod_modulus J) = Normal" "normal_type (mod_modulus K) = Normal"
  defines "c \<equiv> if 2 * mod_val J x < mod_int J then mod_val J x else mod_val J x - mod_int J"
  shows "mod_from_mod E g K J x = Some r \<Longrightarrow> mod_ok K r \<and> mod_val K r = c mod mod_int K"
    and "mod_int J < mod_int K \<Longrightarrow> \<exists>r. mod_from_mod E g K J x = Some r"
proof -
  let ?M = "mod_int K" and ?M' = "mod_int J" and ?v = "mod_val J x" and ?u = "mod_to_unsigned E g J x"
  note sound = mod_soundD [OF assms(2)] and soundJ = mod_soundD [OF assms(3)] note h = representsD [OF soundJ(8)]
  note v = mod_val [OF assms(3,4)]
  have u: "bigint_ok ?u" "span_int ?u = ?v" using mod_to_unsigned_val [OF assms(1,3,4)] by simp_all
  define neg where "neg \<longleftrightarrow> ?M' div 2 < ?v"
  have c: "ints_greater E (Bits ?u) (mod_half_modulus_span J) = of_bool neg"
    using num_order_eq(2) [OF assms(1), of "Bits ?u" "mod_half_modulus_span J"] u h by (simp add: ints_defs neg_def)
  have "?M' = 2 * (?M' div 2) + 1" using mod_odd [OF assms(3)] by presburger
  then have neg: "neg \<longleftrightarrow> \<not> 2 * ?v < ?M'" unfolding neg_def by linarith
  have branch: "bool_cast (bigint_compare ints_greater Consteval (mod_modulus K) (mod_modulus J)) \<longleftrightarrow> ?M' < ?M"
    using bigint_compare_exact(3) [OF sycl_ok_Consteval sound(1) soundJ(1)] sound(2) soundJ(2) by (simp add: mod_int_def)
  have "(mod_from_mod E g K J x = Some r \<longrightarrow> mod_ok K r \<and> mod_val K r = c mod mod_int K)
    \<and> (?M' < ?M \<longrightarrow> (\<exists>r. mod_from_mod E g K J x = Some r))"
  proof (cases "?M' < ?M")
    case True
    let ?d = "bigint_subtract Consteval g (mod_modulus K) (mod_modulus J)" and ?new = "mod_new g K"
    have "0 < bit_size (mod_modulus J)"
      using soundJ(3) bigint_no_bits(1) [OF soundJ(1)] by (cases "bit_size (mod_modulus J)") (auto simp: mod_int_def)
    then have d: "bigint_ok ?d" "span_int ?d = ?M - ?M'"
      using bigint_subtract_exact [OF sycl_ok_Consteval sound(1) soundJ(1), of g] sound(2) soundJ(2) by (simp_all add: mod_int_def)
    have "bit_size ?d = max (bit_size (mod_modulus K)) (bit_size (mod_modulus J)) + 1"
      using num_subtract_eq(1) [OF sycl_ok_Consteval, of "uninit (max (bit_size (mod_modulus K)) (bit_size (mod_modulus J)) + 1) With_sign
        (common_normal (normal_type (mod_modulus K)) (normal_type (mod_modulus J))) g" "Bits (mod_modulus K)" "Bits (mod_modulus J)" "Const 0"]
        \<open>0 < bit_size (mod_modulus J)\<close> by (simp add: bigint_subtract_def ints_defs Let_def)
    then have "bit_size ?d + LENGTH('a) \<le> 2 ^ 64"
      using size(1) max.cobounded1 [of "bit_size (mod_modulus K)" "bit_size (mod_modulus J)"] by (simp add: max_def split: if_splits)
    then obtain s where s: "constant_bit_span_of ?d = Some s" "represents s (?M - ?M')"
      using constant_bit_span [OF d(1)] d(2) True by (auto simp: constant_bit_span_of_def)
    let ?y = "?v + (if neg then ?M - ?M' else 0)"
    have y: "0 \<le> ?y" "?y < ?M" using v True by simp_all
    have eq: "fst (ints_add E ?new (Bits ?u) (Masked s (of_bool neg)) (Const 0)) = store ?new ?y"
      using num_add_eq(1) [OF assms(1), of ?new "Bits ?u" "Masked s (of_bool neg)" "Const 0"] get_masked [OF assms(1) s(2)] u assms(1)
        mod_new_dest [of K g] by (simp add: ints_defs mod_dest_def)
    note t = mod_store [OF assms(2) mod_new_dest y, of g] note t' = mod_okD [OF t(1)]
    have ut: "is_unsigned (signedness (store ?new ?y))" using t'(5) by (simp add: is_unsigned_def)
    have bits: "bit_size (store ?new ?y) \<le> mod_limb_size K * LENGTH('a)"
      using limb_size_for_bits [of "mod_bit_size K", where 'a = 'a] unfolding t'(6) by (simp add: mod_limb_size_def mult.commute)
    have run: "mod_from_mod E g K J x = mod_from_unsigned E g K (store ?new ?y) (store ?new ?y)"
      unfolding mod_from_mod_def Let_def c s(1) bind.simps eq using branch True by simp
    have "?y = c + (if neg then ?M else 0)" by (simp add: c_def neg)
    then have "?y mod ?M = c mod ?M" by simp
    then show ?thesis
      using mod_from_unsigned_law [OF assms(1,2) t'(1,2) ut size(2), of g] bits t(2) by (simp add: run)
  next
    case False
    have "mod_ok K r \<and> mod_val K r = c mod ?M" if res: "mod_from_mod E g K J x = Some r"
    proof -
      obtain f where f: "mod_offset_to g K (mod_modulus J) = Some f"
        using res branch False by (auto simp: mod_from_mod_def Let_def split: bind_splits)
      note fs = mod_offset_some [OF assms(2) soundJ(1,2) f, folded mod_int_def]
      let ?f = "(- ?M') mod ?M"
      have f0: "0 \<le> ?f" using sound(3) by simp
      obtain s where s: "constant_bit_span_of f = Some s" "represents s ?f"
        using constant_bit_span [OF fs(1)] fs(2,3) f0 size(1) by (auto simp: constant_bit_span_of_def)
      have "?M \<le> span_int (mod_modulus J)" using False by (simp add: mod_int_def)
      note w = mod_other_width [OF assms(2) soundJ(1,2) this f size(1) normal, folded mod_int_def]
      let ?N = "?M' + ?f" and ?b = "mod_local g (std_bit_width (nat (?M' + ?f - 1))) :: 'a word bit_span"
      let ?y = "?v + (if neg then ?f else 0)"
      have eq: "fst (ints_add E ?b (Bits ?u) (Masked s (of_bool neg)) (Const 0)) = store ?b ?y"
        using num_add_eq(1) [OF assms(1), of ?b "Bits ?u" "Masked s (of_bool neg)" "Const 0"] get_masked [OF assms(1) s(2)] u assms(1)
        by (simp add: ints_defs)
      have run: "mod_from_unsigned E g K (mod_new g K) (store ?b ?y) = Some r"
        using res unfolding mod_from_mod_def Let_def c f s(1) bind.simps w eq using branch False by simp
      have y: "0 \<le> ?y" "?y < ?N" using v f0 by auto
      have "?y mod ?M = (?v + (if neg then - ?M' else 0)) mod ?M" by (simp add: mod_add_right_eq)
      also have "?v + (if neg then - ?M' else 0) = c" by (simp add: c_def neg)
      finally show ?thesis using mod_from_local [OF assms(1,2) size(2) y run] by simp
    qed
    then show ?thesis using False by simp
  qed
  then show "mod_from_mod E g K J x = Some r \<Longrightarrow> mod_ok K r \<and> mod_val K r = c mod mod_int K"
    "?M' < ?M \<Longrightarrow> \<exists>r. mod_from_mod E g K J x = Some r" by simp_all
qed


text \<open>Signed integers of any size.\<close>

lemma mod_from_signed_law:
  fixes v :: "'a::len word bit_span"
  assumes "sycl_ok E" and "mod_sound K" and "bit_size v + bit_size (mod_modulus K) + LENGTH('a) + 3 \<le> 2 ^ 64"
    and "mod_bit_size K + LENGTH('a) \<le> 2 ^ 64" and v: "bigint_ok v" "signedness v = With_sign"
  shows "mod_from_signed E g K v = Some r \<Longrightarrow> mod_ok K r \<and> mod_val K r = span_int v mod mod_int K"
    and "bit_size v < mod_bit_size K \<Longrightarrow> \<exists>r. mod_from_signed E g K v = Some r"
  using mod_from_small_signed_law [OF assms(1,2,4) v, of g] mod_from_large_signed_law [OF assms(1-4) v, of g r]
  by (auto simp: mod_from_signed_def split: if_splits)

lemma mod_from_random_law:
  assumes "sycl_ok (E :: 'a::len word eval)" and "mod_sound K" and v: "bigint_ok v" "is_unsigned (signedness v)"
  shows "mod_ok K (mod_from_random E g K v)"
    and "(span_int (mod_from_random E g K v) * 2 ^ (LENGTH('a) * max (mod_limb_size K) (limb_size v))) mod mod_int K = span_int v mod mod_int K"
proof -
  let ?n = "max (mod_limb_size K) (limb_size v)"
  have "span_int v < 2 ^ bit_size v" "0 \<le> span_int v" using bigint_range(1) [OF v] by simp_all
  moreover have "bit_size v \<le> LENGTH('a) * ?n"
    by (rule order_trans [OF bit_size_le_limbs]) (simp add: mult_le_mono2)
  then have "(2 :: int) ^ bit_size v \<le> 2 ^ (LENGTH('a) * ?n)" by (rule power_increasing) simp
  moreover have "2 ^ (LENGTH('a) * ?n) * 1 \<le> 2 ^ (LENGTH('a) * ?n) * mod_int K" using mod_soundD(3) [OF assms(2)] by (intro mult_left_mono) simp_all
  ultimately have "0 \<le> rspan_int (Bits v)" "rspan_int (Bits v) < 2 ^ (LENGTH('a) * ?n) * mod_int K" unfolding rspan_int.simps by linarith+
  from mod_reduce_eq [OF assms(1,2) mod_new_dest _ this, of g] obtain x where x: "mod_from_random E g K v = store (mod_new g K) x"
    "0 \<le> x" "x < mod_int K" "(x * 2 ^ (LENGTH('a) * ?n)) mod mod_int K = span_int v mod mod_int K"
    using v(1) by (auto simp: mod_from_random_def)
  from mod_store [OF assms(2) mod_new_dest x(2,3), of g] x(4)
  show "mod_ok K (mod_from_random E g K v)"
    "(span_int (mod_from_random E g K v) * 2 ^ (LENGTH('a) * max (mod_limb_size K) (limb_size v))) mod mod_int K = span_int v mod mod_int K"
    by (simp_all add: x(1))
qed

section \<open>A sample type\<close>

lemma sample_mod:
  obtains K where "mod_type (\<lambda>_. 0) (sample [251]) = Some K" "mod_sound K" "mod_modulus K = sample [251]" "mod_int K = 251" "mod_bit_size K = 8"
proof -
  have w: "std_bit_width 250 = 8" by (simp add: std_bit_width.simps)
  have l: "limb_size_for TYPE(8) 8 = 1" by (simp add: limb_size_for_def div_ceil_def)
  have M: "bigint_ok (sample [251])" "signedness (sample [251]) = Without_sign" "bit_size (sample [251]) + LENGTH(8) + 2 \<le> 2 ^ 64"
    "span_int (sample [251]) = 251" by simp_all
  obtain K where K: "mod_type (\<lambda>_. 0) (sample [251]) = Some K"
    using mod_type_eq(3) [OF M(1-3), of 5 "\<lambda>_. 0"] by (auto simp: w l)
  have "mod_sound K" "mod_modulus K = sample [251]" "mod_bit_size K = 8"
    using mod_type_eq(2) [OF M(1-3) _ K] by (simp_all add: w)
  then show thesis using K by (intro that) (simp_all add: mod_int_def)
qed

lemma sample_residue:
  assumes "mod_sound K" "mod_int K = 251" "mod_bit_size K = 8"
  obtains x where "mod_from_unsigned sycl_device (\<lambda>_. 0) K (mod_new (\<lambda>_. 0) K) (sample [n]) = Some x" "mod_valid sycl_device K x"
    "mod_val K x = uint n mod 251"
proof -
  have s: "bit_size (sample [n]) \<le> mod_limb_size K * LENGTH(8)"
    using assms(3) by (simp add: mod_limb_size_def limb_size_for_def div_ceil_def)
  have u: "is_unsigned (signedness (sample [n]))" by (simp add: is_unsigned_def)
  have size: "mod_bit_size K + LENGTH(8) \<le> 2 ^ 64" using assms(3) by simp
  note law = mod_from_unsigned_law [OF sycl_ok_device assms(1) mod_new_dest sample_bigint u size]
  obtain x where x: "mod_from_unsigned sycl_device (\<lambda>_. 0) K (mod_new (\<lambda>_. 0) K) (sample [n]) = Some x" using law(2) s by blast
  with law(1) [OF x] show thesis using assms size by (intro that [of x]) (simp_all add: mod_valid_def sycl_ok_device)
qed

section \<open>Properties\<close>

text \<open>C13: A modulus: the compiler rejects an even one and accepts an odd one, if the square of the residue of \<open>R\<close> is
  small enough for the remainder (always, if the modulus has a single limb); what it computes then are the constants
  that the operations need.\<close>

theorem mod_type_correct:
  fixes M :: "'a::len word bit_span"
  assumes "bigint_ok M" and "signedness M = Without_sign" and "bit_size M + LENGTH('a) + 2 \<le> 2 ^ 64"
  defines "n \<equiv> std_bit_width (nat (span_int M - 1))"
  defines "R \<equiv> 2 ^ (LENGTH('a) * limb_size_for TYPE('a) n) mod span_int M"
  shows "(even (span_int M) \<longrightarrow> mod_type g M = None)
    \<and> (odd (span_int M) \<and> R * R < 2 ^ LENGTH('a) * span_int M \<longrightarrow> (\<exists>K. mod_type g M = Some K))
    \<and> (\<forall>K. mod_type g M = Some K \<longrightarrow> mod_modulus K = M \<and> mod_bit_size K = n
        \<and> (span_int M * uint (mod_inverse_modulus K) + 1) mod 2 ^ LENGTH('a) = 0
        \<and> span_int (mod_square K) = R ^ 2 mod span_int M \<and> rspan_int (mod_square_span K) = R ^ 2 mod span_int M
        \<and> rspan_int (mod_cubed_span K) = R ^ 3 mod span_int M \<and> rspan_int (mod_half_modulus_span K) = span_int M div 2)"
proof -
  have "odd (span_int M)" if "mod_type g M = Some K" for K using mod_type_eq(1) [OF assms(1-3), of g] that by auto
  then have sound: "mod_sound K \<and> mod_modulus K = M \<and> mod_bit_size K = n" if "mod_type g M = Some K" for K
    using mod_type_eq(2) [OF assms(1-3) _ that] that by (simp add: n_def)
  have "R = mod_R K mod span_int M" if "mod_type g M = Some K" for K
    using sound [OF that] by (simp add: R_def mod_R_def mod_limb_size_def)
  then have "(span_int M * uint (mod_inverse_modulus K) + 1) mod 2 ^ LENGTH('a) = 0
        \<and> span_int (mod_square K) = R ^ 2 mod span_int M \<and> rspan_int (mod_square_span K) = R ^ 2 mod span_int M
        \<and> rspan_int (mod_cubed_span K) = R ^ 3 mod span_int M \<and> rspan_int (mod_half_modulus_span K) = span_int M div 2"
    if K: "mod_type g M = Some K" for K
    using sound [OF K] mod_soundD(6,12) [of K] representsD(2) [OF mod_soundD(13), of K] representsD(2) [OF mod_soundD(14), of K]
      representsD(2) [OF mod_soundD(8), of K] K by (simp add: mod_int_def power_mod)
  moreover have "odd (span_int M) \<and> R * R < 2 ^ LENGTH('a) * span_int M \<longrightarrow> (\<exists>K. mod_type g M = Some K)"
    using mod_type_eq(3) [OF assms(1-3), of R g] by (simp add: R_def n_def)
  ultimately show ?thesis using mod_type_eq(1) [OF assms(1-3), of g] sound by blast
qed

lemma mod_type_correct_witness:
  "mod_type (\<lambda>_. 7) (sample [250]) = None
   \<and> (\<exists>K. mod_type (\<lambda>_. 7) (sample [251]) = Some K \<and> (251 * uint (mod_inverse_modulus K) + 1) mod 256 = 0
       \<and> span_int (mod_square K) = 25)"
proof -
  have w: "std_bit_width 250 = 8" by (simp add: std_bit_width.simps)
  have l: "limb_size_for TYPE(8) 8 = 1" by (simp add: limb_size_for_def div_ceil_def)
  have M: "bigint_ok (sample [m])" "signedness (sample [m]) = Without_sign" "bit_size (sample [m]) + LENGTH(8) + 2 \<le> 2 ^ 64" for m
    by simp_all
  have "mod_type (\<lambda>_. 7) (sample [250]) = None"
    using mod_type_correct [OF M, of 250 "\<lambda>_. 7"] by (simp only: sample_ok) simp
  moreover have "\<exists>K. mod_type (\<lambda>_. 7) (sample [251]) = Some K"
    using mod_type_correct [OF M, of 251 "\<lambda>_. 7", THEN conjunct2, THEN conjunct1] by (simp add: w l)
  moreover have "(251 * uint (mod_inverse_modulus K) + 1) mod 256 = 0 \<and> span_int (mod_square K) = 25"
    if "mod_type (\<lambda>_. 7) (sample [251]) = Some K" for K
    using mod_type_correct [OF M, of 251 "\<lambda>_. 7", THEN conjunct2, THEN conjunct2, rule_format, OF that] by (simp add: w l)
  ultimately show ?thesis by blast
qed


text \<open>C11: Modular integers are the ring of residues: the sum, difference, product and negation of valid objects are valid and
  stand for the sum, difference, product and negation modulo the modulus, whatever the memory of the result held; the operators that
  assign give the same objects; and objects are equal exactly if they stand for the same residue.\<close>

theorem mod_arithmetic_correct:
  assumes "mod_valid E K x" and "mod_valid E K y"
  shows "mod_valid E K (mod_add E g K x y) \<and> mod_val K (mod_add E g K x y) = (mod_val K x + mod_val K y) mod mod_int K
    \<and> mod_valid E K (mod_subtract E g K x y) \<and> mod_val K (mod_subtract E g K x y) = (mod_val K x - mod_val K y) mod mod_int K
    \<and> mod_valid E K (mod_multiply E g K x y) \<and> mod_val K (mod_multiply E g K x y) = mod_val K x * mod_val K y mod mod_int K
    \<and> mod_valid E K (mod_negate E g K x) \<and> mod_val K (mod_negate E g K x) = (- mod_val K x) mod mod_int K
    \<and> mod_assign mod_add_body E h K x y = mod_add E g K x y \<and> mod_assign mod_subtract_body E h K x y = mod_subtract E g K x y
    \<and> mod_assign mod_multiply_body E h K x y = mod_multiply E g K x y
    \<and> mod_compare ints_equal_to E x y = of_bool (mod_val K x = mod_val K y)"
proof -
  note xv = mod_validD [OF assms(1)] and yv = mod_validD [OF assms(2)]
  have neg: "mod_valid E K (mod_negate E g K x) \<and> mod_val K (mod_negate E g K x) = (- mod_val K x) mod mod_int K"
    using mod_negate_law [OF xv(1,2,4), of g] xv by (simp add: mod_valid_def)
  have "bigint_compare ints_equal_to E x y = of_bool (span_int x = span_int y)"
    using bigint_compare_exact(5) [OF xv(1) mod_okD(2) [OF xv(4)] mod_okD(2) [OF yv(4)]] mod_okD(5) [OF xv(4)] mod_okD(5) [OF yv(4)] by simp
  moreover note mod_span_eq_iff [OF xv(2,4) yv(4)]
  ultimately show ?thesis
    using mod_ring.laws [OF assms, of g] mod_assign_operator [OF assms, of h g] neg by (simp add: mod_compare_def bigint_compare_def)
qed

lemma mod_arithmetic_correct_witness:
  "\<exists>K x y. mod_type (\<lambda>_. 0) (sample [251]) = Some K \<and> mod_val K x = 200 \<and> mod_val K y = 100
    \<and> mod_val K (mod_add sycl_device (\<lambda>_. 9) K x y) = 49 \<and> mod_val K (mod_subtract sycl_device (\<lambda>_. 9) K y x) = 151
    \<and> mod_val K (mod_multiply sycl_device (\<lambda>_. 9) K x y) = 171 \<and> mod_val K (mod_negate sycl_device (\<lambda>_. 9) K x) = 51"
proof -
  obtain K where K: "mod_type (\<lambda>_. 0) (sample [251]) = Some K" "mod_sound K" "mod_modulus K = sample [251]" "mod_int K = 251" "mod_bit_size K = 8"
    by (rule sample_mod)
  obtain x where x: "mod_valid sycl_device K x" "mod_val K x = 200" using sample_residue [OF K(2,4,5), of 200] by auto
  obtain y where y: "mod_valid sycl_device K y" "mod_val K y = 100" using sample_residue [OF K(2,4,5), of 100] by auto
  show ?thesis
    using K(1) x(2) y(2) mod_arithmetic_correct [OF x(1) y(1), of "\<lambda>_. 9" "\<lambda>_. 9"] mod_arithmetic_correct [OF y(1) x(1), of "\<lambda>_. 9" "\<lambda>_. 9"]
    by (intro exI [of _ K] exI [of _ x] exI [of _ y]) (simp add: K(4))
qed

text \<open>C14: Unsigned integers and residues: an integer of at most as many bits as the limbs of the modulus have is accepted, every integer
  that is accepted becomes its residue, and the conversion back gives this residue. The constructor for random integers omits
  a factor: its data times a power of two is congruent to the integer.\<close>

theorem mod_unsigned_roundtrip:
  fixes v :: "'a::len word bit_span"
  assumes "sycl_ok E" and "mod_sound K" and "mod_bit_size K + LENGTH('a) \<le> 2 ^ 64" and "bigint_ok v" and "signedness v = Without_sign"
  shows "(bit_size v \<le> mod_limb_size K * LENGTH('a) \<longrightarrow> (\<exists>x. mod_from_unsigned E g K (mod_new g K) v = Some x))
    \<and> (\<forall>x. mod_from_unsigned E g K (mod_new g K) v = Some x
        \<longrightarrow> mod_valid E K x \<and> span_int (mod_to_unsigned E h K x) = span_int v mod mod_int K)
    \<and> mod_valid E K (mod_from_random E g K v)
    \<and> (span_int (mod_from_random E g K v) * 2 ^ (LENGTH('a) * max (mod_limb_size K) (limb_size v))) mod mod_int K = span_int v mod mod_int K"
proof -
  have u: "is_unsigned (signedness v)" using assms(5) by (simp add: is_unsigned_def)
  show ?thesis
    using mod_from_unsigned_law [OF assms(1,2) mod_new_dest assms(4) u assms(3), of g g] mod_from_random_law [OF assms(1,2,4) u, of g] assms(1-3)
      mod_to_unsigned_val(3) [OF assms(1,2)] by (auto simp: mod_valid_def)
qed

lemma mod_unsigned_roundtrip_witness:
  "\<exists>K x. mod_type (\<lambda>_. 0) (sample [251]) = Some K \<and> mod_from_unsigned sycl_device (\<lambda>_. 1) K (mod_new (\<lambda>_. 1) K) (sample [253]) = Some x
    \<and> span_int (mod_to_unsigned sycl_device (\<lambda>_. 2) K x) = 2"
proof -
  obtain K where K: "mod_type (\<lambda>_. 0) (sample [251]) = Some K" "mod_sound K" "mod_modulus K = sample [251]" "mod_int K = 251" "mod_bit_size K = 8"
    by (rule sample_mod)
  have l: "mod_limb_size K = 1" "mod_bit_size K + LENGTH(8) \<le> 2 ^ 64" by (simp_all add: mod_limb_size_def K(5) limb_size_for_def div_ceil_def)
  note t = mod_unsigned_roundtrip [OF sycl_ok_device K(2) l(2), of "sample [253]" "\<lambda>_. 1" "\<lambda>_. 2"]
  obtain x where x: "mod_from_unsigned sycl_device (\<lambda>_. 1) K (mod_new (\<lambda>_. 1) K) (sample [253]) = Some x" using t by (auto simp: l(1))
  then have "span_int (mod_to_unsigned sycl_device (\<lambda>_. 2) K x) = 253 mod 251" using t by (simp add: K(4))
  then show ?thesis using K(1) x by auto
qed


text \<open>C15: Signed integers and residues of another modulus: the conversion to a signed integer gives the representative of least
  absolute value; conversion from it (or any signed integer that is accepted) gives its residue; and a conversion between two moduli
  converts this representative. It is accepted if the new modulus is larger, and then the way back gives the
  old residue.\<close>

theorem mod_signed_roundtrip:
  fixes K J :: "'a::len word mod_constants"
  assumes "mod_valid E J x" and "mod_sound K" and "1 < mod_int J"
    and "2 * bit_size (mod_modulus J) + bit_size (mod_modulus K) + LENGTH('a) + 3 \<le> 2 ^ 64" and "mod_bit_size K + LENGTH('a) \<le> 2 ^ 64"
    and "normal_type (mod_modulus J) = Normal" and "normal_type (mod_modulus K) = Normal"
  defines "c \<equiv> if 2 * mod_val J x < mod_int J then mod_val J x else mod_val J x - mod_int J"
  shows "span_int (mod_to_signed E g J x) = c
    \<and> (\<forall>r. mod_from_signed E g J (mod_to_signed E g J x) = Some r \<longrightarrow> mod_val J r = mod_val J x)
    \<and> (\<forall>y. mod_from_mod E g K J x = Some y \<longrightarrow> mod_valid E K y \<and> mod_val K y = c mod mod_int K)
    \<and> (mod_int J < mod_int K \<longrightarrow> (\<exists>y. mod_from_mod E g K J x = Some y
         \<and> (\<forall>z. mod_from_mod E g J K y = Some z \<longrightarrow> mod_val J z = mod_val J x)))"
proof -
  let ?s = "mod_to_signed E g J x"
  note xv = mod_validD [OF assms(1)]
  note v = mod_val [OF xv(2,4)]
  note s = mod_to_signed_law [OF xv(1,2,4) assms(3), of g, folded c_def]
  have cJ: "c mod mod_int J = mod_val J x" using v(1,2) by (simp add: c_def)
  have st: "signedness ?s = With_sign" "bit_size ?s = mod_bit_size J"
    using num_subtract_eq(1) [OF xv(1), of "uninit (mod_bit_size J) With_sign (normal_type (mod_modulus J)) g"]
    by (simp_all add: mod_to_signed_def Let_def ints_defs)
  have bits: "mod_bit_size J \<le> bit_size (mod_modulus J)"
  proof (rule ccontr)
    assume "\<not> mod_bit_size J \<le> bit_size (mod_modulus J)"
    then have "(2 :: int) ^ bit_size (mod_modulus J) \<le> 2 ^ (mod_bit_size J - 1)" "0 < mod_bit_size J" by (simp_all add: power_increasing)
    moreover have "mod_int J < 2 ^ bit_size (mod_modulus J)"
      using bigint_range(1) [OF mod_soundD(1) [OF xv(2)]] mod_soundD(2) [OF xv(2)] by (simp add: mod_int_def is_unsigned_def)
    ultimately show False using mod_soundD(5) [OF xv(2)] by linarith
  qed
  have same: "mod_val J r = mod_val J x" if "mod_from_signed E g J ?s = Some r" for r
    using mod_from_signed_law(1) [OF xv(1,2) _ xv(3) s(1) st(1) that] st(2) bits assms(4) s(2) cJ by simp
  have size: "bit_size (mod_modulus J) + bit_size (mod_modulus K) + LENGTH('a) + 3 \<le> 2 ^ 64"
    "bit_size (mod_modulus K) + bit_size (mod_modulus J) + LENGTH('a) + 3 \<le> 2 ^ 64" using assms(4) by simp_all
  have conv: "mod_ok K y \<and> mod_val K y = c mod mod_int K" if "mod_from_mod E g K J x = Some y" for y
    using mod_from_mod_law(1) [OF xv(1) assms(2) xv(2,4) size(1) assms(5-7) that] by (simp add: c_def)
  moreover have "\<exists>y. mod_from_mod E g K J x = Some y \<and> (\<forall>z. mod_from_mod E g J K y = Some z \<longrightarrow> mod_val J z = mod_val J x)"
    if less: "mod_int J < mod_int K"
  proof -
    obtain y where y: "mod_from_mod E g K J x = Some y"
      using mod_from_mod_law(2) [OF xv(1) assms(2) xv(2,4) size(1) assms(5-7) less] by blast
    note yv = conv [OF y]
    have val: "mod_val K y = (if c < 0 then c + mod_int K else c)"
    proof (cases "c < 0")
      case True
      then have "(c + mod_int K) mod mod_int K = c + mod_int K" using v(1,2) less by (intro mod_pos_pos_trivial) (auto simp: c_def split: if_splits)
      then show ?thesis using yv True by simp
    next
      case False
      then have "c < mod_int K" using v less by (simp add: c_def split: if_splits)
      then show ?thesis using yv False by simp
    qed
    have "mod_val J z = mod_val J x" if "mod_from_mod E g J K y = Some z" for z
    proof -
      have "(if 2 * mod_val K y < mod_int K then mod_val K y else mod_val K y - mod_int K) = c"
        using val v(1,2) less by (auto simp: c_def split: if_splits)
      then show ?thesis
        using mod_from_mod_law(1) [OF xv(1,2) assms(2) _ size(2) xv(3) assms(7,6) that] yv cJ by simp
    qed
    then show ?thesis using y by blast
  qed
  ultimately show ?thesis using s(2) same xv assms(2,5) by (auto simp: mod_valid_def)
qed

lemma mod_signed_roundtrip_witness:
  "\<exists>K x. mod_type (\<lambda>_. 0) (sample [251]) = Some K \<and> mod_val K x = 200 \<and> span_int (mod_to_signed sycl_device (\<lambda>_. 3) K x) = - 51"
proof -
  obtain K where K: "mod_type (\<lambda>_. 0) (sample [251]) = Some K" "mod_sound K" "mod_modulus K = sample [251]" "mod_int K = 251" "mod_bit_size K = 8"
    by (rule sample_mod)
  obtain x where x: "mod_valid sycl_device K x" "mod_val K x = 200" using sample_residue [OF K(2,4,5), of 200] by auto
  have p: "1 < mod_int K" "2 * bit_size (mod_modulus K) + bit_size (mod_modulus K) + LENGTH(8) + 3 \<le> 2 ^ 64" "mod_bit_size K + LENGTH(8) \<le> 2 ^ 64"
    "normal_type (mod_modulus K) = Normal" by (simp_all add: K(3-5))
  show ?thesis
    using K(1) x(2) mod_signed_roundtrip [OF x(1) K(2) p(1-4) p(4), of "\<lambda>_. 3"]
    by (intro exI [of _ K] exI [of _ x]) (simp add: K(4))
qed

text \<open>C12: Powers and inverses: both functions for powers, for an exponent known to the compiler and for a big integer, always return
  the power of the residue (the power zero of any residue is one); inversion is rejected exactly if the residue is not
  coprime to the modulus, and otherwise gives the inverse.\<close>

theorem mod_power_inverse_correct:
  assumes "mod_valid E K x" and "1 < mod_int K" and "bigint_ok e" and "signedness e = Without_sign"
  shows "(\<exists>r. mod_pow E g K x n = Some r \<and> mod_valid E K r \<and> mod_val K r = mod_val K x ^ n mod mod_int K)
    \<and> (\<exists>r. mod_pow_integer g K x e = Some r \<and> mod_val K r = mod_val K x ^ nat (span_int e) mod mod_int K)
    \<and> (mod_invert g K x = None \<longleftrightarrow> gcd (mod_val K x) (mod_int K) \<noteq> 1)
    \<and> (\<forall>r. mod_invert g K x = Some r \<longrightarrow> mod_valid E K r \<and> mod_val K x * mod_val K r mod mod_int K = 1)"
proof -
  note xv = mod_validD [OF assms(1)]
  have ct: "mod_valid Consteval K x" using xv by (simp add: mod_valid_def)
  show ?thesis
    using mod_pow_law [OF assms(1), of g n] mod_pow_integer_law [OF ct assms(3,4), of g]
      mod_invert_law [OF xv(2,4) assms(2), of g] xv by (auto simp: mod_valid_def)
qed

lemma mod_power_inverse_correct_witness:
  "\<exists>K x p r. mod_type (\<lambda>_. 0) (sample [251]) = Some K \<and> mod_val K x = 10 \<and> mod_pow sycl_device (\<lambda>_. 3) K x 3 = Some p \<and> mod_val K p = 247
    \<and> mod_invert (\<lambda>_. 3) K x = Some r \<and> 10 * mod_val K r mod 251 = 1"
proof -
  obtain K where K: "mod_type (\<lambda>_. 0) (sample [251]) = Some K" "mod_sound K" "mod_modulus K = sample [251]" "mod_int K = 251" "mod_bit_size K = 8"
    by (rule sample_mod)
  obtain x where x: "mod_valid sycl_device K x" "mod_val K x = 10" using sample_residue [OF K(2,4,5), of 10] by auto
  have p: "1 < mod_int K" "signedness (sample [1]) = Without_sign" by (simp_all add: K(4))
  note t = mod_power_inverse_correct [OF x(1) p(1) sample_bigint p(2), of "\<lambda>_. 3" 3]
  have g: "gcd 10 (251 :: int) = 1" by code_simp
  then obtain r where r: "mod_invert (\<lambda>_. 3) K x = Some r" using t by (auto simp: x(2) K(4))
  then show ?thesis using K(1) x(2) t by (auto simp: K(4))
qed

end
