(* ===== verification/Chacha.thy ===== *)
theory Chacha
  imports Modint_Signed
begin

text \<open>
  The stream cipher of \<^verbatim>\<open>crypto/chacha.hpp\<close>: rounds, the parameters in the state, and the block function
  with its counter.

  An engine is its state of 16 words with the template arguments as the other fields of the record \<open>chacha\<close>. A \<^verbatim>\<open>limb_span\<close>
  into the state is the list of its words; written words are stored as they are, as in an unnormalized span of whole limbs
  (\<open>limb_array_of\<close>). The lemmas show that the rounds are a bijection of the states, that only the counter moves, and by how much;
  so a block depends on the parameters and the number of calls alone (\<open>chacha_block_at\<close>).
\<close>

section \<open>The rounds\<close>

type_synonym chacha_word = "32 word"

definition chacha_quarter_round ::
    "chacha_word \<times> chacha_word \<times> chacha_word \<times> chacha_word \<Rightarrow> chacha_word \<times> chacha_word \<times> chacha_word \<times> chacha_word" where
  "chacha_quarter_round = (\<lambda>(a, b, c, d).
     let a = a + b; d = d XOR a; d = word_rotl 16 d;
         c = c + d; b = b XOR c; b = word_rotl 12 b;
         a = a + b; d = d XOR a; d = word_rotl 8 d;
         c = c + d; b = b XOR c; b = word_rotl 7 b
     in (a, b, c, d))"

text \<open>A quarter round on four references into the state.\<close>

definition chacha_quarter_round_at :: "nat \<Rightarrow> nat \<Rightarrow> nat \<Rightarrow> nat \<Rightarrow> chacha_word list \<Rightarrow> chacha_word list" where
  "chacha_quarter_round_at i j k l state =
     (let (a, b, c, d) = chacha_quarter_round (state ! i, state ! j, state ! k, state ! l)
      in state[i := a, j := b, k := c, l := d])"

definition chacha_double_round :: "chacha_word list \<Rightarrow> chacha_word list" where
  "chacha_double_round state =
     (let state = for_range 4 (\<lambda>i. chacha_quarter_round_at (i + 4 * 0) (i + 4 * 1) (i + 4 * 2) (i + 4 * 3)) state;
          state = chacha_quarter_round_at 0 5 10 15 state;
          state = chacha_quarter_round_at 1 6 11 12 state;
          state = chacha_quarter_round_at 2 7 8 13 state
      in chacha_quarter_round_at 3 4 9 14 state)"

section \<open>The engine\<close>

record chacha_param =
  param_key :: "chacha_word list"
  param_nonce :: "chacha_word list"
  param_counter :: "chacha_word list"

record chacha =
  chacha_rounds :: nat
  chacha_nonce_size :: nat
  chacha_counter_size :: nat
  chacha_state :: "chacha_word list"

definition chacha_constants :: "chacha_word list" where
  "chacha_constants = [0x61707865, 0x3320646e, 0x79622d32, 0x6b206574]"

definition chacha_compiletime :: "nat \<Rightarrow> nat \<Rightarrow> nat \<Rightarrow> chacha" where
  "chacha_compiletime rounds nonce_size counter_size =
     \<lparr>chacha_rounds = rounds, chacha_nonce_size = nonce_size, chacha_counter_size = counter_size,
      chacha_state = chacha_constants @ replicate 12 0\<rparr>"

definition chacha_from :: "nat \<Rightarrow> nat \<Rightarrow> nat \<Rightarrow> chacha_param \<Rightarrow> chacha" where
  "chacha_from rounds nonce_size counter_size p =
     \<lparr>chacha_rounds = rounds, chacha_nonce_size = nonce_size, chacha_counter_size = counter_size,
      chacha_state = chacha_constants @ map (\<lambda>i. param_key p ! i) [0..<8]
        @ map (\<lambda>j. param_counter p ! j) [0..<counter_size] @ map (\<lambda>k. param_nonce p ! k) [0..<nonce_size]\<rparr>"

definition limb_subspan :: "'w list \<Rightarrow> nat \<Rightarrow> nat \<Rightarrow> 'w list" where
  "limb_subspan limbs offset subspan_length = take subspan_length (drop offset limbs)"

definition chacha_get_param :: "chacha \<Rightarrow> chacha_param" where
  "chacha_get_param c =
     \<lparr>param_key = limb_subspan (chacha_state c) 4 8,
      param_nonce = limb_subspan (chacha_state c) (4 + 8 + chacha_counter_size c) (chacha_nonce_size c),
      param_counter = limb_subspan (chacha_state c) (4 + 8) (chacha_counter_size c)\<rparr>"

definition chacha_set_param :: "chacha \<Rightarrow> chacha_param \<Rightarrow> chacha" where
  "chacha_set_param c p =
     (let state = for_range 8 (\<lambda>i state. state[i + 4 := param_key p ! i]) (chacha_state c);
          state = for_range (chacha_counter_size c) (\<lambda>i state. state[i + 4 + 8 := param_counter p ! i]) state;
          state = for_range (chacha_nonce_size c)
            (\<lambda>i state. state[i + 4 + 8 + chacha_counter_size c := param_nonce p ! i]) state
      in c\<lparr>chacha_state := state\<rparr>)"

definition limb_array_of :: "'a::len word list \<Rightarrow> 'a word bit_span" where
  "limb_array_of limbs = bit_array (length limbs * LENGTH('a)) Without_sign Unnormal limbs"

definition chacha_block :: "nat \<Rightarrow> chacha_word list \<Rightarrow> chacha_word list" where
  "chacha_block rounds state =
     (let result = for_range (rounds div 2) (\<lambda>_. chacha_double_round) state
      in for_range 16 (\<lambda>i result. result[i := result ! i + state ! i]) result)"

definition chacha_call :: "chacha_word eval \<Rightarrow> chacha \<Rightarrow> chacha_word list \<times> chacha" where
  "chacha_call E c =
     (let result = chacha_block (chacha_rounds c) (chacha_state c);
          counter = limb_subspan (chacha_state c) (4 + 8) (chacha_counter_size c);
          counter = data (fst (num_add_assign E (limb_array_of counter) (Bits nullspan) (Const 1)))
      in (result, c\<lparr>chacha_state := take (4 + 8) (chacha_state c) @ counter
            @ drop (4 + 8 + chacha_counter_size c) (chacha_state c)\<rparr>))"

section \<open>The rounds are injective\<close>

definition chacha_quarter_unround ::
    "chacha_word \<times> chacha_word \<times> chacha_word \<times> chacha_word \<Rightarrow> chacha_word \<times> chacha_word \<times> chacha_word \<times> chacha_word" where
  "chacha_quarter_unround = (\<lambda>(a, b, c, d).
     let b = word_rotr 7 b; b = b XOR c; c = c - d;
         d = word_rotr 8 d; d = d XOR a; a = a - b;
         b = word_rotr 12 b; b = b XOR c; c = c - d;
         d = word_rotr 16 d; d = d XOR a; a = a - b
     in (a, b, c, d))"

lemma chacha_quarter_unround: "chacha_quarter_unround (chacha_quarter_round x) = x"
  by (simp add: chacha_quarter_round_def chacha_quarter_unround_def Let_def xor.assoc split: prod.splits)

lemma inj_chacha_quarter_round: "inj chacha_quarter_round"
  by (rule inj_on_inverseI [where g = chacha_quarter_unround]) (simp add: chacha_quarter_unround)

lemma chacha_quarter_round_at_length [simp]: "length (chacha_quarter_round_at i j k l s) = length s"
  by (simp add: chacha_quarter_round_at_def split: prod.splits)

lemma chacha_quarter_round_at_inj:
  assumes "chacha_quarter_round_at i j k l s = chacha_quarter_round_at i j k l t" and "length s = length t"
    and "distinct [i, j, k, l]" and "\<forall>m \<in> {i, j, k, l}. m < length s"
  shows "s = t"
proof -
  obtain a b c d where S: "chacha_quarter_round (s ! i, s ! j, s ! k, s ! l) = (a, b, c, d)" by (rule prod_cases4)
  obtain a' b' c' d' where T: "chacha_quarter_round (t ! i, t ! j, t ! k, t ! l) = (a', b', c', d')" by (rule prod_cases4)
  have eq: "s[i := a, j := b, k := c, l := d] ! m = t[i := a', j := b', k := c', l := d'] ! m" for m
    using assms(1) by (simp add: chacha_quarter_round_at_def S T)
  have tuple: "(a, b, c, d) = (a', b', c', d')"
    using eq [of i] eq [of j] eq [of k] eq [of l] assms(2-4) by (simp add: nth_list_update)
  have four: "(s ! i, s ! j, s ! k, s ! l) = (t ! i, t ! j, t ! k, t ! l)"
    by (rule injD [OF inj_chacha_quarter_round]) (simp only: S T tuple)
  show ?thesis
  proof (rule nth_equalityI [OF assms(2)])
    fix m
    show "s ! m = t ! m" using eq [of m] four by (cases "m \<in> {i, j, k, l}") auto
  qed
qed

lemma chacha_quarter_round_at_inj_on:
  assumes "distinct [i, j, k, l]" and "\<forall>m \<in> {i, j, k, l}. m < n"
  shows "inj_on (chacha_quarter_round_at i j k l) {s. length s = n}"
  using chacha_quarter_round_at_inj [of i j k l] assms by (intro inj_onI) auto

lemma chacha_double_round_length [simp]: "length (chacha_double_round s) = length s"
  by (simp add: chacha_double_round_def Let_def eval_nat_numeral)

lemma inj_on_then:
  assumes "inj_on f {s. length s = n}" and "inj_on g {s. length s = n}" and "\<And>s. length (f s) = length s"
  shows "inj_on (\<lambda>s. g (f s)) {s. length s = n}"
  using assms unfolding inj_on_def by auto

lemma chacha_quarter_rounds_inj:
  assumes "\<forall>(i, j, k, l) \<in> set qs. distinct [i, j, k, l] \<and> (\<forall>m \<in> {i, j, k, l}. m < n)"
  shows "inj_on (fold (\<lambda>(i, j, k, l). chacha_quarter_round_at i j k l) qs) {s. length s = n}"
  using assms
proof (induction qs)
  case (Cons q qs)
  obtain i j k l where q: "q = (i, j, k, l)" by (rule prod_cases4)
  have "inj_on (\<lambda>s. fold (\<lambda>(i, j, k, l). chacha_quarter_round_at i j k l) qs (chacha_quarter_round_at i j k l s)) {s. length s = n}"
    by (rule inj_on_then [OF chacha_quarter_round_at_inj_on]) (use Cons q in auto)
  then show ?case by (simp add: q comp_def)
qed simp

lemma chacha_double_round_fold:
  "chacha_double_round = fold (\<lambda>(i, j, k, l). chacha_quarter_round_at i j k l)
     [(0, 4, 8, 12), (1, 5, 9, 13), (2, 6, 10, 14), (3, 7, 11, 15), (0, 5, 10, 15), (1, 6, 11, 12), (2, 7, 8, 13), (3, 4, 9, 14)]"
  by (rule ext) (simp add: chacha_double_round_def for_range_def upt_rec eval_nat_numeral)

lemma chacha_double_round_inj: "inj_on chacha_double_round {s. length s = 16}"
  unfolding chacha_double_round_fold by (rule chacha_quarter_rounds_inj) simp

lemma for_range_length:
  "(\<And>i s. length (f i s) = length s) \<Longrightarrow> length (for_range n f s) = length s"
  by (induction n) simp_all

lemma chacha_rounds_inj: "inj_on (for_range n (\<lambda>_. chacha_double_round)) {s. length s = 16}"
proof (induction n)
  case (Suc n)
  have "inj_on (\<lambda>s. chacha_double_round (for_range n (\<lambda>_. chacha_double_round) s)) {s. length s = 16}"
    by (rule inj_on_then [OF Suc chacha_double_round_inj]) (simp add: for_range_length)
  then show ?case by (simp add: fun_eq_iff cong: inj_on_cong)
qed (simp add: inj_on_def)

section \<open>Blocks\<close>

lemma for_range_update:
  "length r = m \<Longrightarrow> n \<le> m \<Longrightarrow> for_range n (\<lambda>i r. r[i := f i (r ! i)]) r = map (\<lambda>i. f i (r ! i)) [0..<n] @ drop n r"
proof (induction n)
  case (Suc n)
  then show ?case by (simp add: nth_append list_update_append Cons_nth_drop_Suc [symmetric])
qed simp

lemma chacha_block_eq:
  assumes "length s = 16"
  shows "chacha_block rounds s = map (\<lambda>i. for_range (rounds div 2) (\<lambda>_. chacha_double_round) s ! i + s ! i) [0..<16]"
  using assms for_range_update [of "for_range (rounds div 2) (\<lambda>_. chacha_double_round) s" 16 16 "\<lambda>i x. x + s ! i"]
  by (simp add: chacha_block_def for_range_length)


section \<open>Parameters and the counter\<close>

definition param_ok :: "chacha \<Rightarrow> chacha_param \<Rightarrow> bool" where
  "param_ok c p \<longleftrightarrow> length (param_key p) = 8 \<and> length (param_nonce p) = chacha_nonce_size c
     \<and> length (param_counter p) = chacha_counter_size c"

text \<open>The invariant of an engine: what the static assertions and the constructors establish.\<close>

definition chacha_ok :: "chacha \<Rightarrow> bool" where
  "chacha_ok c \<longleftrightarrow> 8 \<le> chacha_rounds c \<and> even (chacha_rounds c) \<and> 0 < chacha_counter_size c \<and> 0 < chacha_nonce_size c
     \<and> chacha_counter_size c + chacha_nonce_size c = 4 \<and> length (chacha_state c) = 16 \<and> take 4 (chacha_state c) = chacha_constants"

lemma chacha_okD:
  assumes "chacha_ok c"
  shows "length (chacha_state c) = 16" "take 4 (chacha_state c) = chacha_constants"
    "0 < chacha_counter_size c" "chacha_nonce_size c = 4 - chacha_counter_size c" "chacha_counter_size c < 4"
  using assms by (auto simp: chacha_ok_def)

lemma chacha_constants_length [simp]: "length chacha_constants = 4"
  by (simp add: chacha_constants_def)

lemma map_nth_length: "length xs = n \<Longrightarrow> map (\<lambda>i. xs ! i) [0..<n] = xs"
  using map_nth [of xs] by simp

lemma chacha_from_state:
  assumes "param_ok (chacha_from r n m p) p"
  shows "chacha_state (chacha_from r n m p) = chacha_constants @ param_key p @ param_counter p @ param_nonce p"
  using assms by (simp add: chacha_from_def param_ok_def map_nth_length)

lemma chacha_from_ok:
  assumes "8 \<le> r" and "even r" and "0 < m" and "0 < n" and "m + n = 4"
  shows "chacha_ok (chacha_from r n m p)"
  using assms by (simp add: chacha_ok_def chacha_from_def)

lemma chacha_compiletime_ok:
  assumes "8 \<le> r" and "even r" and "0 < m" and "0 < n" and "m + n = 4"
  shows "chacha_ok (chacha_compiletime r n m)"
  using assms by (simp add: chacha_ok_def chacha_compiletime_def)

lemma chacha_get_param_from:
  assumes "param_ok (chacha_from r n m p) p"
  shows "chacha_get_param (chacha_from r n m p) = p"
  using assms chacha_from_state [OF assms]
  by (cases p) (simp add: chacha_get_param_def limb_subspan_def param_ok_def chacha_from_def)

lemma chacha_get_param_ok: "chacha_ok c \<Longrightarrow> param_ok c (chacha_get_param c)"
  by (auto simp: chacha_ok_def param_ok_def chacha_get_param_def limb_subspan_def)

lemma drop_take_append: "take n (drop m xs) @ drop (m + n) xs = drop m xs"
  by (metis append_take_drop_id drop_drop add.commute)

lemma chacha_eqI:
  assumes "chacha_ok c" and "chacha_get_param c = p"
  shows "c = chacha_from (chacha_rounds c) (chacha_nonce_size c) (chacha_counter_size c) p"
proof -
  note ok = chacha_okD [OF assms(1)]
  have p: "param_ok c p" using chacha_get_param_ok assms by blast
  have "chacha_state c = take 4 (chacha_state c) @ take 8 (drop 4 (chacha_state c))
      @ take (chacha_counter_size c) (drop 12 (chacha_state c))
      @ take (chacha_nonce_size c) (drop (12 + chacha_counter_size c) (chacha_state c))"
    using ok drop_take_append [of "chacha_counter_size c" 12 "chacha_state c"] drop_take_append [of 8 4 "chacha_state c"]
      append_take_drop_id [of 4 "chacha_state c"] by simp
  also have "\<dots> = chacha_constants @ param_key p @ param_counter p @ param_nonce p"
    using ok(2) assms(2) by (auto simp: chacha_get_param_def limb_subspan_def)
  finally have "chacha_state c = chacha_constants @ param_key p @ param_counter p @ param_nonce p" .
  then show ?thesis using p by (cases c) (simp add: chacha_from_def param_ok_def map_nth_length)
qed

lemma for_range_write:
  "k + n \<le> length s \<Longrightarrow> for_range n (\<lambda>i s. s[i + k := f i]) s = take k s @ map f [0..<n] @ drop (k + n) s"
proof (induction n)
  case (Suc n)
  then show ?case by (simp add: list_update_append Cons_nth_drop_Suc [symmetric])
qed simp

lemma chacha_set_param_eq:
  assumes "chacha_ok c" and "param_ok c p"
  shows "chacha_set_param c p = chacha_from (chacha_rounds c) (chacha_nonce_size c) (chacha_counter_size c) p"
proof -
  note ok = chacha_okD [OF assms(1)]
  have "for_range (chacha_nonce_size c) (\<lambda>i s. s[i + 4 + 8 + chacha_counter_size c := param_nonce p ! i])
     (for_range (chacha_counter_size c) (\<lambda>i s. s[i + 4 + 8 := param_counter p ! i])
     (for_range 8 (\<lambda>i s. s[i + 4 := param_key p ! i]) (chacha_state c)))
    = chacha_constants @ param_key p @ param_counter p @ param_nonce p"
    using ok assms(2) for_range_write [of 4 8 "chacha_state c" "\<lambda>i. param_key p ! i"]
    by (simp add: for_range_write [where k = "12"] for_range_write [where k = "12 + _"] param_ok_def map_nth_length add.assoc)
  then show ?thesis using assms(2) by (simp add: chacha_set_param_def chacha_from_def param_ok_def map_nth_length)
qed

text \<open>The engine with its counter moved on by \<open>n\<close> blocks.\<close>

definition chacha_counter :: "chacha \<Rightarrow> int" where
  "chacha_counter c = limbs_int (param_counter (chacha_get_param c))"

definition counter_limbs :: "nat \<Rightarrow> int \<Rightarrow> chacha_word list" where
  "counter_limbs k x = map (limb_of x) [0..<k]"

definition chacha_at :: "chacha \<Rightarrow> int \<Rightarrow> chacha" where
  "chacha_at c x = chacha_from (chacha_rounds c) (chacha_nonce_size c) (chacha_counter_size c)
     ((chacha_get_param c)\<lparr>param_counter := counter_limbs (chacha_counter_size c) x\<rparr>)"

lemma limb_array_of_sel [simp]:
  "bit_size (limb_array_of xs) = length (xs :: 'a::len word list) * LENGTH('a)" "signedness (limb_array_of xs) = Without_sign"
  "normal_type (limb_array_of xs) = Unnormal" "data (limb_array_of xs) = xs" "limb_size (limb_array_of xs) = length xs"
  by (simp_all add: limb_array_of_def bit_array_def limb_size_def limb_size_for_def)

lemma limb_array_of_int: "span_ok (limb_array_of xs)" "span_int (limb_array_of xs) = limbs_int xs"
  "get_int E (Bits (limb_array_of xs)) = limbs_int xs"
  using get_int_full [of "limb_array_of xs"] get_int_Bits [of "limb_array_of xs" E] by (auto simp: is_unsigned_def span_ok_def)

lemma data_store_limb_array: "data (store (limb_array_of xs) x) = map (limb_of x) [0..<length xs]"
  by (simp add: store_def span_written_def written_limb_def)

lemma counter_limbs_length [simp]: "length (counter_limbs k x) = k"
  by (simp add: counter_limbs_def)

lemma limbs_int_counter_limbs: "limbs_int (counter_limbs k x) = x mod 2 ^ (32 * k)"
  by (simp add: counter_limbs_def limbs_int_map limbs_val_limb_of)

lemma counter_limbs_mod [simp]: "counter_limbs k (x mod 2 ^ (32 * k)) = counter_limbs k x"
  using limb_of_mod [where 'a = 32] by (simp add: counter_limbs_def)

lemma chacha_at_param:
  assumes "chacha_ok c"
  shows "chacha_ok (chacha_at c x)"
    "chacha_get_param (chacha_at c x) = (chacha_get_param c)\<lparr>param_counter := counter_limbs (chacha_counter_size c) x\<rparr>"
    "chacha_rounds (chacha_at c x) = chacha_rounds c" "chacha_nonce_size (chacha_at c x) = chacha_nonce_size c"
    "chacha_counter_size (chacha_at c x) = chacha_counter_size c"
proof -
  show "chacha_ok (chacha_at c x)" unfolding chacha_at_def by (rule chacha_from_ok) (use assms in \<open>simp_all add: chacha_ok_def\<close>)
  show "chacha_get_param (chacha_at c x) = (chacha_get_param c)\<lparr>param_counter := counter_limbs (chacha_counter_size c) x\<rparr>"
    unfolding chacha_at_def
    by (rule chacha_get_param_from) (use chacha_get_param_ok [OF assms] in \<open>simp add: param_ok_def chacha_from_def\<close>)
qed (simp_all add: chacha_at_def chacha_from_def)

lemma chacha_at_at: "chacha_ok c \<Longrightarrow> chacha_at (chacha_at c x) y = chacha_at c y"
  by (simp add: chacha_at_def [of "chacha_at c x"] chacha_at_param) (simp add: chacha_at_def)

lemma chacha_counter_at: "chacha_ok c \<Longrightarrow> chacha_counter (chacha_at c x) = x mod 2 ^ (32 * chacha_counter_size c)"
  by (simp add: chacha_counter_def chacha_at_param limbs_int_counter_limbs)

lemma chacha_call_eq:
  assumes "sycl_ok E" and "chacha_ok c"
  shows "chacha_call E c = (chacha_block (chacha_rounds c) (chacha_state c), chacha_at c (chacha_counter c + 1))"
proof -
  let ?xs = "limb_subspan (chacha_state c) 12 (chacha_counter_size c)"
  note ok = chacha_okD [OF assms(2)]
  have len: "length ?xs = chacha_counter_size c" using ok by (simp add: limb_subspan_def)
  have "fst (num_add_assign E (limb_array_of ?xs) (Bits nullspan) (Const 1)) = store (limb_array_of ?xs) (limbs_int ?xs + 1)"
    using num_add_assign_eq [of "limb_array_of ?xs" E "Bits nullspan" "Const 1"]
      num_add_eq(1) [OF assms(1), of "limb_array_of ?xs" "Bits (limb_array_of ?xs)" "Bits nullspan" "Const 1"]
    by (simp add: limb_array_of_int)
  then have counter: "data (fst (num_add_assign E (limb_array_of ?xs) (Bits nullspan) (Const 1)))
      = counter_limbs (chacha_counter_size c) (chacha_counter c + 1)"
    by (simp add: data_store_limb_array counter_limbs_def chacha_counter_def chacha_get_param_def len)
  let ?c = "c\<lparr>chacha_state := take 12 (chacha_state c) @ counter_limbs (chacha_counter_size c) (chacha_counter c + 1)
      @ drop (12 + chacha_counter_size c) (chacha_state c)\<rparr>"
  have "chacha_ok ?c" using ok assms(2) by (simp add: chacha_ok_def)
  moreover have "chacha_get_param ?c
      = (chacha_get_param c)\<lparr>param_counter := counter_limbs (chacha_counter_size c) (chacha_counter c + 1)\<rparr>"
    using ok by (simp add: chacha_get_param_def limb_subspan_def drop_take)
  ultimately have "?c = chacha_at c (chacha_counter c + 1)"
    unfolding chacha_at_def using chacha_eqI [of ?c] by simp
  then show ?thesis by (simp add: chacha_call_def counter)
qed

lemma chacha_call_iterate:
  assumes "sycl_ok E" and "chacha_ok c"
  shows "((\<lambda>c. snd (chacha_call E c)) ^^ n) c = chacha_at c (chacha_counter c + int n)"
proof (induction n)
  case 0
  have "counter_limbs (chacha_counter_size c) (chacha_counter c) = param_counter (chacha_get_param c)"
  proof (rule nth_equalityI)
    show "length (counter_limbs (chacha_counter_size c) (chacha_counter c)) = length (param_counter (chacha_get_param c))"
      using chacha_get_param_ok [OF assms(2)] by (simp add: param_ok_def)
    show "counter_limbs (chacha_counter_size c) (chacha_counter c) ! i = param_counter (chacha_get_param c) ! i"
      if "i < length (counter_limbs (chacha_counter_size c) (chacha_counter c))" for i
      using limb_of_limbs_val [of i "chacha_counter_size c" "\<lambda>i. param_counter (chacha_get_param c) ! i"] that chacha_get_param_ok [OF assms(2)]
      by (simp add: counter_limbs_def chacha_counter_def limbs_int_nth param_ok_def)
  qed
  then have "chacha_at c (chacha_counter c) = c"
    using chacha_eqI [OF assms(2) refl] by (simp add: chacha_at_def)
  then show ?case by simp
next
  case (Suc n)
  let ?x = "chacha_counter c + int n" and ?M = "(2::int) ^ (32 * chacha_counter_size c)"
  have "(?x mod ?M + 1) mod ?M = (?x + 1) mod ?M" by (simp add: mod_simps)
  then have "counter_limbs (chacha_counter_size c) (?x mod ?M + 1) = counter_limbs (chacha_counter_size c) (?x + 1)"
    by (metis counter_limbs_mod)
  then have "chacha_at c (?x mod ?M + 1) = chacha_at c (?x + 1)" by (simp add: chacha_at_def)
  then show ?case
    using chacha_call_eq [OF assms(1) chacha_at_param(1) [OF assms(2)], of ?x] assms(2)
    by (simp add: Suc chacha_at_at chacha_counter_at ac_simps)
qed

section \<open>Properties\<close>

text \<open>C16: The stream cipher: after \<open>n\<close> calls an engine still has its key and nonce, its counter is \<open>n\<close> more (wrapping around in its own
  words only), and the block it returns next is the sum of the state with the state after the rounds; setting the
  parameters again restarts it; and the rounds never map two states to the same one.\<close>

theorem chacha_blocks_correct:
  fixes n :: nat
  assumes "sycl_ok E" and "8 \<le> r" and "even r" and "0 < m" and "0 < k" and "m + k = 4"
    and "length (param_key p) = 8" and "length (param_nonce p) = m" and "length (param_counter p) = k"
  defines "c \<equiv> chacha_from r m k p"
    and "q \<equiv> p\<lparr>param_counter := counter_limbs k (limbs_int (param_counter p) + int n)\<rparr>"
  defines "S \<equiv> chacha_constants @ param_key q @ param_counter q @ param_nonce q"
    and "d \<equiv> ((\<lambda>c. snd (chacha_call E c)) ^^ n) c"
  shows "chacha_get_param d = q \<and> chacha_set_param d p = c
    \<and> fst (chacha_call E d) = map (\<lambda>i. for_range (r div 2) (\<lambda>_. chacha_double_round) S ! i + S ! i) [0..<16]
    \<and> inj_on (for_range (r div 2) (\<lambda>_. chacha_double_round)) {s. length s = 16}"
proof -
  have sel: "chacha_rounds c = r" "chacha_nonce_size c = m" "chacha_counter_size c = k" by (simp_all add: c_def chacha_from_def)
  have ok: "chacha_ok c" unfolding c_def by (rule chacha_from_ok) (use assms(2-6) in simp_all)
  have p: "param_ok c p" using assms(7-9) by (simp add: param_ok_def sel)
  then have get: "chacha_get_param c = p" unfolding c_def by (rule chacha_get_param_from)
  have d: "d = chacha_at c (limbs_int (param_counter p) + int n)"
    using chacha_call_iterate [OF assms(1) ok] by (simp add: d_def chacha_counter_def get)
  note at = chacha_at_param [OF ok, of "limbs_int (param_counter p) + int n", folded d]
  have q: "chacha_get_param d = q" using at(2) by (simp add: get q_def sel)
  have dq: "d = chacha_from r m k q" using chacha_eqI [OF at(1) q] at sel by simp
  have S: "chacha_state d = S" and len: "length S = 16"
    using chacha_from_state [of r m k q] p assms(6) by (auto simp: dq S_def q_def param_ok_def chacha_from_def sel)
  have "fst (chacha_call E d) = map (\<lambda>i. for_range (r div 2) (\<lambda>_. chacha_double_round) S ! i + S ! i) [0..<16]"
    using chacha_call_eq [OF assms(1) at(1)] chacha_block_eq [OF len, of r] at(3) by (simp add: S sel)
  moreover have "chacha_set_param d p = c"
    using chacha_set_param_eq [OF at(1), of p] p at by (simp add: param_ok_def sel) (simp add: c_def)
  ultimately show ?thesis using q chacha_rounds_inj by blast
qed

lemma chacha_blocks_correct_witness:
  "let p = \<lparr>param_key = replicate 8 7, param_nonce = [1, 2, 3], param_counter = [- 1]\<rparr> in
    chacha_get_param (snd (chacha_call sycl_device (chacha_from 20 3 1 p))) = p\<lparr>param_counter := [0]\<rparr>"
proof -
  let ?p = "\<lparr>param_key = replicate 8 7, param_nonce = [1, 2, 3], param_counter = [- 1]\<rparr> :: chacha_param"
  have c: "counter_limbs 1 (uint (- 1 :: 32 word) + 1) = [0]" by (simp add: counter_limbs_def limb_of_def)
  show ?thesis
    using chacha_blocks_correct [OF sycl_ok_device, of 20 3 1 ?p 1] c by simp
qed
end
