(* ===== verification/Generator.thy ===== *)
theory Generator
  imports Chacha
begin

text \<open>
  Random number generators over a block engine, \<^verbatim>\<open>random/number_generator.hpp\<close>.

  The class template takes any type with the members of the concept \<^verbatim>\<open>engine\<close>. Here the engine is a function
  that returns a block and the engine after it; the locale \<open>block_engine\<close> states what the generator relies on, and it is
  interpreted on the engine of the code, \<open>chacha_call\<close>. The abstract generator is a position in the stream of all words of all blocks
  (\<open>stream_word\<close>); the lemmas show that the generator with its buffered block refines it.
\<close>

section \<open>The generator\<close>

record ('s, 'w) number_generator =
  gen_engine :: 's
  gen_state :: "'w list"
  gen_index :: nat

definition generator_new :: "('s \<Rightarrow> 'w list \<times> 's) \<Rightarrow> 's \<Rightarrow> ('s, 'w) number_generator" where
  "generator_new engine e =
     (let (block, e) = engine e in \<lparr>gen_engine = e, gen_state = block, gen_index = 0\<rparr>)"

definition generator_next ::
    "('s \<Rightarrow> 'w list \<times> 's) \<Rightarrow> nat \<Rightarrow> ('s, 'w) number_generator \<Rightarrow> 'w \<times> ('s, 'w) number_generator" where
  "generator_next engine block_size gen =
     (let v = gen_state gen ! gen_index gen;
          gen = gen\<lparr>gen_index := gen_index gen + 1\<rparr>
      in (v, if gen_index gen = block_size then generator_new engine (gen_engine gen) else gen))"

text \<open>The limbs of a result are written one after the other by the function \<open>write\<close>, which is the one of its span.\<close>

definition generator_uniform ::
    "('s \<Rightarrow> 'w list \<times> 's) \<Rightarrow> nat \<Rightarrow> nat \<Rightarrow> (nat \<Rightarrow> 'w \<Rightarrow> 'r \<Rightarrow> 'r) \<Rightarrow> 'r \<Rightarrow> ('s, 'w) number_generator
     \<Rightarrow> 'r \<times> ('s, 'w) number_generator" where
  "generator_uniform engine block_size limbs write result gen =
     for_range limbs
       (\<lambda>i (result, gen). let (v, gen) = generator_next engine block_size gen in (write i v result, gen)) (result, gen)"

definition uniform_limbs ::
    "('s \<Rightarrow> 'a::len word list \<times> 's) \<Rightarrow> nat \<Rightarrow> 'a word list \<Rightarrow> ('s, 'a word) number_generator
     \<Rightarrow> 'a word list \<times> ('s, 'a word) number_generator" where
  "uniform_limbs engine block_size result gen =
     generator_uniform engine block_size (length result) (\<lambda>i v result. result[i := v]) result gen"

definition uniform_bits ::
    "('s \<Rightarrow> 'a::len word list \<times> 's) \<Rightarrow> nat \<Rightarrow> 'a word bit_span \<Rightarrow> ('s, 'a word) number_generator
     \<Rightarrow> 'a word bit_span \<times> ('s, 'a word) number_generator" where
  "uniform_bits engine block_size result gen =
     generator_uniform engine block_size (limb_size result) (\<lambda>i v result. span_write result i (Dyn v) Normal) result gen"

definition generator_get_param :: "('s \<Rightarrow> 'p) \<Rightarrow> ('s, 'w) number_generator \<Rightarrow> 'p" where
  "generator_get_param get_param gen = get_param (gen_engine gen)"

definition generator_set_param ::
    "('s \<Rightarrow> 'w list \<times> 's) \<Rightarrow> ('s \<Rightarrow> 'p \<Rightarrow> 's) \<Rightarrow> ('s, 'w) number_generator \<Rightarrow> 'p \<Rightarrow> ('s, 'w) number_generator" where
  "generator_set_param engine set_param gen p = generator_new engine (set_param (gen_engine gen) p)"

section \<open>The stream of an engine\<close>

definition stream_engine :: "('s \<Rightarrow> 'w list \<times> 's) \<Rightarrow> 's \<Rightarrow> nat \<Rightarrow> 's" where
  "stream_engine engine e n = ((\<lambda>e. snd (engine e)) ^^ n) e"

definition stream_word :: "('s \<Rightarrow> 'w list \<times> 's) \<Rightarrow> nat \<Rightarrow> 's \<Rightarrow> nat \<Rightarrow> 'w" where
  "stream_word engine block_size e i = fst (engine (stream_engine engine e (i div block_size))) ! (i mod block_size)"

text \<open>The generator that stands at position \<open>n\<close> of the stream.\<close>

definition generator_at :: "('s \<Rightarrow> 'w list \<times> 's) \<Rightarrow> nat \<Rightarrow> 's \<Rightarrow> nat \<Rightarrow> ('s, 'w) number_generator" where
  "generator_at engine block_size e n =
     (generator_new engine (stream_engine engine e (n div block_size)))\<lparr>gen_index := n mod block_size\<rparr>"

lemma stream_engine_Suc: "stream_engine engine e (Suc n) = snd (engine (stream_engine engine e n))"
  by (simp add: stream_engine_def)

lemma stream_engine_add: "stream_engine engine (stream_engine engine e m) n = stream_engine engine e (m + n)"
  by (simp add: stream_engine_def funpow_add add.commute [of m])

lemma generator_new_sel [simp]:
  "gen_engine (generator_new engine e) = snd (engine e)" "gen_state (generator_new engine e) = fst (engine e)"
  "gen_index (generator_new engine e) = 0"
  by (simp_all add: generator_new_def split: prod.split)

locale block_engine =
  fixes engine :: "'s \<Rightarrow> 'w list \<times> 's" and block_size :: nat and valid :: "'s \<Rightarrow> bool"
  assumes block_size: "0 < block_size"
    and block: "valid e \<Longrightarrow> length (fst (engine e)) = block_size \<and> valid (snd (engine e))"
begin

lemma stream_valid: "valid e \<Longrightarrow> valid (stream_engine engine e n)"
  by (induction n) (simp_all add: stream_engine_def block)

lemma new_at: "generator_new engine e = generator_at engine block_size e 0"
  by (simp add: generator_at_def stream_engine_def)

lemma next_at:
  "generator_next engine block_size (generator_at engine block_size e n)
   = (stream_word engine block_size e n, generator_at engine block_size e (Suc n))"
proof (cases "Suc (n mod block_size) = block_size")
  case True
  then have "Suc n mod block_size = 0" "Suc n div block_size = Suc (n div block_size)"
    using block_size by (simp_all add: mod_Suc div_Suc)
  then show ?thesis
    using True by (simp add: generator_next_def generator_at_def stream_word_def stream_engine_Suc Let_def)
next
  case False
  then have "Suc n mod block_size = Suc (n mod block_size)" "Suc n div block_size = n div block_size"
    by (simp_all add: mod_Suc div_Suc)
  then show ?thesis using False by (simp add: generator_next_def generator_at_def stream_word_def Let_def)
qed

lemma uniform_at:
  "generator_uniform engine block_size k write r (generator_at engine block_size e n)
   = (for_range k (\<lambda>i. write i (stream_word engine block_size e (n + i))) r, generator_at engine block_size e (n + k))"
  by (induction k) (simp_all add: generator_uniform_def next_at)

text \<open>The stream from a later block on.\<close>

lemma stream_shift: "stream_word engine block_size (stream_engine engine e m) i = stream_word engine block_size e (m * block_size + i)"
  using block_size by (simp add: stream_word_def stream_engine_add)

end

lemma for_range_list: "for_range (length r) (\<lambda>i r. r[i := f i]) r = map f [0..<length r]"
proof -
  have "for_range n (\<lambda>i r. r[i := f i]) r = map f [0..<n] @ drop n r" if "n \<le> length r" for n
    using that by (induction n) (simp_all add: list_update_append Cons_nth_drop_Suc [symmetric])
  then show ?thesis by simp
qed

lemma for_range_span_write:
  assumes "length (data b) = limb_size b"
  shows "for_range (limb_size b) (\<lambda>i r. span_write r i (f i) n) b = span_written b f n"
proof -
  have "scan_range k (\<lambda>i (r, c). (span_write r i (f i) n, ())) (b, ()) = (for_range k (\<lambda>i r. span_write r i (f i) n) b, ())" for k
    by (induction k) simp_all
  with scan_write [OF assms order_refl, of "\<lambda>i (r, c). (span_write r i (f i) n, ())" "\<lambda>i _. f i" n "\<lambda>_ _. ()" "()"]
  show ?thesis using assms by (simp add: span_written_def)
qed

section \<open>The generator of the code\<close>

interpretation chacha_engine: block_engine "chacha_call E" 16 "\<lambda>c. chacha_ok c \<and> sycl_ok E" for E
proof
  fix c
  assume "chacha_ok c \<and> sycl_ok E"
  then show "length (fst (chacha_call E c)) = 16 \<and> (chacha_ok (snd (chacha_call E c)) \<and> sycl_ok E)"
    using chacha_block_eq [of "chacha_state c" "chacha_rounds c"] chacha_at_param(1) [of c]
    by (simp add: chacha_call_eq chacha_okD(1))
qed simp

text \<open>The words of the stream of \<open>chacha\<close>: block \<open>i\<close> is the one for the counter plus \<open>i\<close>.\<close>

definition chacha_word_at :: "chacha \<Rightarrow> nat \<Rightarrow> chacha_word" where
  "chacha_word_at c i =
     chacha_block (chacha_rounds c) (chacha_state (chacha_at c (chacha_counter c + int (i div 16)))) ! (i mod 16)"

lemma stream_chacha:
  assumes "sycl_ok E" and "chacha_ok c"
  shows "stream_engine (chacha_call E) c n = chacha_at c (chacha_counter c + int n)"
    and "stream_word (chacha_call E) 16 c i = chacha_word_at c i"
proof -
  show *: "stream_engine (chacha_call E) c n = chacha_at c (chacha_counter c + int n)" for n
    unfolding stream_engine_def by (rule chacha_call_iterate [OF assms])
  show "stream_word (chacha_call E) 16 c i = chacha_word_at c i"
    using chacha_call_eq [OF assms(1) chacha_at_param(1) [OF assms(2)]] assms(2)
    by (simp add: stream_word_def * chacha_word_at_def chacha_at_param)
qed

lemma uniform_limbs_at:
  assumes "sycl_ok E" and "chacha_ok c"
  shows "uniform_limbs (chacha_call E) 16 r (generator_at (chacha_call E) 16 c n)
    = (map (\<lambda>i. chacha_word_at c (n + i)) [0..<length r], generator_at (chacha_call E) 16 c (n + length r))"
  by (simp add: uniform_limbs_def chacha_engine.uniform_at stream_chacha [OF assms] for_range_list)

lemma uniform_bits_at:
  assumes "sycl_ok E" and "chacha_ok c" and "length (data b) = limb_size b"
  shows "uniform_bits (chacha_call E) 16 b (generator_at (chacha_call E) 16 c n)
    = (span_written b (\<lambda>i. Dyn (chacha_word_at c (n + i))) Normal, generator_at (chacha_call E) 16 c (n + limb_size b))"
  by (simp add: uniform_bits_def chacha_engine.uniform_at stream_chacha [OF assms(1,2)] for_range_span_write [OF assms(3)])

section \<open>Properties\<close>

text \<open>C17: The random number generator refines its stream of words: a new generator stands at its beginning, every draw of any number of
  limbs gives the next words of the stream, and a draw ends where the next one begins, whether or not it crosses the
  buffered block; setting the parameters restarts the stream.\<close>

theorem generator_refines_stream:
  assumes "sycl_ok E" and "chacha_ok c" and "param_ok c p" and "length (data b) = limb_size b"
  defines "at \<equiv> generator_at (chacha_call E) 16 c"
  shows "generator_new (chacha_call E) c = at 0
    \<and> uniform_limbs (chacha_call E) 16 r (at n) = (map (\<lambda>i. chacha_word_at c (n + i)) [0..<length r], at (n + length r))
    \<and> uniform_bits (chacha_call E) 16 b (at n)
        = (span_written b (\<lambda>i. Dyn (chacha_word_at c (n + i))) Normal, at (n + limb_size b))
    \<and> generator_get_param chacha_get_param (at n) = (chacha_get_param c)
        \<lparr>param_counter := counter_limbs (chacha_counter_size c) (chacha_counter c + int (n div 16) + 1)\<rparr>
    \<and> generator_set_param (chacha_call E) chacha_set_param (at n) p
        = generator_new (chacha_call E) (chacha_from (chacha_rounds c) (chacha_nonce_size c) (chacha_counter_size c) p)"
proof -
  let ?d = "chacha_at c (chacha_counter c + int (Suc (n div 16)))"
  have e: "gen_engine (at n) = ?d"
    unfolding stream_chacha(1) [OF assms(1,2), symmetric] by (simp add: at_def generator_at_def stream_engine_Suc)
  note d = chacha_at_param [OF assms(2), of "chacha_counter c + int (Suc (n div 16))"]
  have "param_ok ?d p" using assms(3) d by (simp add: param_ok_def)
  then have "chacha_set_param (gen_engine (at n)) p
      = chacha_from (chacha_rounds c) (chacha_nonce_size c) (chacha_counter_size c) p"
    using chacha_set_param_eq [OF d(1)] d by (simp add: e)
  moreover have "chacha_get_param (gen_engine (at n))
      = (chacha_get_param c)\<lparr>param_counter := counter_limbs (chacha_counter_size c) (chacha_counter c + int (n div 16) + 1)\<rparr>"
    unfolding e d(2) by (simp add: ac_simps)
  ultimately show ?thesis
    using uniform_limbs_at [OF assms(1,2), of r n] uniform_bits_at [OF assms(1,2,4), of n] chacha_engine.new_at [of E c]
    by (simp add: at_def generator_get_param_def generator_set_param_def)
qed

lemma generator_refines_stream_witness:
  "fst (uniform_limbs (chacha_call sycl_device) 16 (replicate 20 0) (generator_new (chacha_call sycl_device) (chacha_compiletime 20 3 1)))
   = map (chacha_word_at (chacha_compiletime 20 3 1)) [0..<20]"
proof -
  let ?c = "chacha_compiletime 20 3 1" and ?p = "\<lparr>param_key = replicate 8 0, param_nonce = replicate 3 0, param_counter = [0]\<rparr>"
  have ok: "chacha_ok ?c" "param_ok ?c ?p" using chacha_compiletime_ok [of 20 1 3] by (simp_all add: param_ok_def chacha_compiletime_def)
  have d: "length (data (limb_array_of [0 :: 32 word])) = limb_size (limb_array_of [0 :: 32 word])" by simp
  show ?thesis using generator_refines_stream [OF sycl_ok_device ok d, of "replicate 20 0" 0] by simp
qed

end
