(* ===== verification/Samplers.thy ===== *)
theory Samplers
  imports Generator
begin

text \<open>
  Random integers: \<^verbatim>\<open>random/uniform.hpp\<close> and \<^verbatim>\<open>random/binomial.hpp\<close>, with the constants of
  \<^verbatim>\<open>rational.hpp\<close>.

  Every function takes words from a generator and returns the generator behind them. The lemmas give the
  integer of the result as a function of the words (\<open>drawn\<close>, the integer of the next words of the stream).
\<close>

section \<open>Uniform integers\<close>

definition random_uniform ::
    "('s \<Rightarrow> 'a::len word list \<times> 's) \<Rightarrow> nat \<Rightarrow> (nat \<Rightarrow> 'a word) \<Rightarrow> nat \<Rightarrow> signedness \<Rightarrow> ('s, 'a word) number_generator
     \<Rightarrow> 'a word bit_span \<times> ('s, 'a word) number_generator" where
  "random_uniform engine block_size g bits sg gen = uniform_bits engine block_size (uninit bits sg Normal g) gen"

definition drown_uniform ::
    "('s \<Rightarrow> 'a::len word list \<times> 's) \<Rightarrow> nat \<Rightarrow> (nat \<Rightarrow> 'a word) \<Rightarrow> 'a word bit_span \<Rightarrow> signedness \<Rightarrow> nat
     \<Rightarrow> ('s, 'a word) number_generator \<Rightarrow> ('a word bit_span \<times> ('s, 'a word) number_generator) option" where
  "drown_uniform engine block_size g bound sg security gen = do {
     ct_assert (bool_cast (bigint_compare ints_greater Consteval bound bigint_zero));
     let max_value = bigint_shift_left Consteval g (bigint_subtract Consteval g bound bigint_one) security;
     let bits = unat (ints_bit_width Consteval (Bits max_value)) + (if is_signed sg then 1 else 0);
     Some (uniform_bits engine block_size (uninit bits sg Normal g) gen) }"

definition uniform_mod ::
    "'a::len word eval \<Rightarrow> ('s \<Rightarrow> 'a word list \<times> 's) \<Rightarrow> nat \<Rightarrow> (nat \<Rightarrow> 'a word) \<Rightarrow> 'a word mod_constants \<Rightarrow> nat
     \<Rightarrow> ('s, 'a word) number_generator \<Rightarrow> ('a word bit_span \<times> ('s, 'a word) number_generator) option" where
  "uniform_mod E engine block_size g K security gen = do {
     (v, gen) \<leftarrow> drown_uniform engine block_size g (mod_modulus K) Without_sign security gen;
     Some (mod_from_random E g K v, gen) }"

section \<open>Binomial integers\<close>

definition binomial_step ::
    "'a::len word eval \<Rightarrow> 'a word bit_span \<Rightarrow> nat \<Rightarrow> nat \<Rightarrow> 'a word bit_span \<times> 'a word \<Rightarrow> 'a word bit_span \<times> 'a word" where
  "binomial_step E bits count i = (\<lambda>(result, current_limb).
     let b = Dyn (of_bool (ubool_from current_limb));
         result = (if i = 0 then fst (num_add E result (Bits nullspan) (Bits nullspan) b)
           else fst (num_add_assign E result (Bits nullspan) b))
     in (result,
         if i mod LENGTH('a) = LENGTH('a) - 1
         then if i div LENGTH('a) < limb_size bits - 1
              then dynamic_value (get_limb E (Bits bits) (i div LENGTH('a) + 1)) else current_limb
         else if i < count - 1 then drop_bit 1 current_limb else current_limb))"

definition random_binomial ::
    "'a::len word eval \<Rightarrow> ('s \<Rightarrow> 'a word list \<times> 's) \<Rightarrow> nat \<Rightarrow> (nat \<Rightarrow> 'a word) \<Rightarrow> nat \<Rightarrow> ('s, 'a word) number_generator
     \<Rightarrow> 'a word bit_span \<times> ('s, 'a word) number_generator" where
  "random_binomial E engine block_size g count gen =
     (let (bits, gen) = uniform_bits engine block_size (uninit count Without_sign Unnormal g) gen;
          result = uninit (std_bit_width count) Without_sign Unnormal g
      in (fst (scan_range count (binomial_step E bits count) (result, dynamic_value (get_limb E (Bits bits) 0))), gen))"

text \<open>A rational number of the compiler, in lowest terms.\<close>

definition rational_new :: "nat \<Rightarrow> nat \<Rightarrow> (nat \<times> nat) option" where
  "rational_new num den = do {
     ct_assert (den \<noteq> 0);
     Some (num div gcd num den, den div gcd num den) }"

definition rational_multiply :: "nat \<times> nat \<Rightarrow> nat \<times> nat \<Rightarrow> (nat \<times> nat) option" where
  "rational_multiply left right = rational_new (fst left * fst right) (snd left * snd right)"

definition rational_to_size :: "nat \<times> nat \<Rightarrow> nat" where
  "rational_to_size r = fst r div snd r"

definition centered_binomial ::
    "'a::len word eval \<Rightarrow> ('s \<Rightarrow> 'a word list \<times> 's) \<Rightarrow> nat \<Rightarrow> (nat \<Rightarrow> 'a word) \<Rightarrow> nat \<times> nat \<Rightarrow> ('s, 'a word) number_generator
     \<Rightarrow> ('a word bit_span \<times> ('s, 'a word) number_generator) option" where
  "centered_binomial E engine block_size g variance gen = do {
     double \<leftarrow> rational_multiply (2, 1) variance;
     ct_assert (snd double = 1);
     four \<leftarrow> rational_multiply (4, 1) variance;
     let bit_count = rational_to_size four;
     let mean = rational_to_size double;
     ct_assert (0 < bit_count);
     let (noncentered_binomial, gen) = random_binomial E engine block_size g bit_count gen;
     mean_span \<leftarrow> constant_bit_span_from (Size_limbs 64 (of_nat mean));
     Some (fst (ints_subtract E (uninit (std_bit_width mean + 1) With_sign Unnormal g)
       (Bits noncentered_binomial) mean_span (Const 0)), gen) }"

section \<open>The integer of a draw\<close>

definition drawn :: "chacha \<Rightarrow> nat \<Rightarrow> nat \<Rightarrow> int" where
  "drawn c n bits = limbs_val (\<lambda>i. chacha_word_at c (n + i)) (limb_size_for TYPE(32) bits) mod 2 ^ bits"

lemma written_unsigned:
  assumes "is_unsigned (signedness b)"
  shows "bigint_ok (span_written b v Normal)"
    and "span_int (span_written b v Normal) = limbs_val (\<lambda>i. dynamic_value (v i)) (limb_size b) mod 2 ^ bit_size b"
proof -
  let ?x = "limbs_int (data (span_written b v Normal))"
  have x: "span_int (span_written b v Normal) = ?x"
    using written_unsigned_normal [OF assms refl, of v] assms by (simp add: span_int_def wrap_def is_unsigned_iff)
  have "?x mod 2 ^ (LENGTH('a) * limb_size b) = ?x"
    using limbs_int_less [of "data (span_written b v Normal)"] by simp
  then have "span_normal (span_written b v Normal)" by (simp add: span_normal_def x)
  then show "bigint_ok (span_written b v Normal)"
    using assms by (simp add: bigint_ok_def span_shape_def is_unsigned_iff)
  show "span_int (span_written b v Normal) = limbs_val (\<lambda>i. dynamic_value (v i)) (limb_size b) mod 2 ^ bit_size b"
    using span_int_written [of b v Normal] assms by (simp add: is_unsigned_iff wrap_def take_bit_eq_mod)
qed

lemma random_uniform_unsigned:
  assumes "sycl_ok E" and "chacha_ok c"
  shows "\<exists>v. uniform_bits (chacha_call E) 16 (uninit bits Without_sign nrm g) (generator_at (chacha_call E) 16 c n)
      = (v, generator_at (chacha_call E) 16 c (n + limb_size_for TYPE(32) bits))
    \<and> bigint_ok v \<and> signedness v = Without_sign \<and> bit_size v = bits \<and> normal_type v = nrm \<and> span_int v = drawn c n bits"
  using uniform_bits_at [OF assms, of "uninit bits Without_sign nrm g" n]
    written_unsigned [of "uninit bits Without_sign nrm g" "\<lambda>i. Dyn (chacha_word_at c (n + i))"]
  by (auto simp: drawn_def is_unsigned_def)

section \<open>Uniform residues\<close>

lemma drown_bits:
  assumes "bigint_ok (B :: 'a::len word bit_span)" and "signedness B = Without_sign" and "0 < span_int B"
    and "bit_size B + s + LENGTH('a) + 2 \<le> 2 ^ 64"
  shows "unat (ints_bit_width Consteval (Bits (bigint_shift_left Consteval g (bigint_subtract Consteval g B bigint_one) s)))
      = std_bit_width (nat ((span_int B - 1) * 2 ^ s))"
    and "std_bit_width (nat ((span_int B - 1) * 2 ^ s)) \<le> bit_size B + s"
proof -
  let ?d = "bigint_subtract Consteval g B bigint_one" and ?x = "(span_int B - 1) * 2 ^ s"
  let ?m = "bigint_shift_left Consteval g ?d s"
  have d: "bigint_ok ?d" "span_int ?d = span_int B - 1"
    using bigint_subtract_exact [OF sycl_ok_Consteval assms(1) bigint_one(1), of g] assms(2) by simp_all
  have m: "bigint_ok ?m" "span_int ?m = ?x"
    using bigint_shift_left_exact [OF sycl_ok_Consteval d(1), of g s] d(2) by simp_all
  have lt: "span_int B < 2 ^ bit_size B" using bigint_range(1) [OF assms(1)] assms(2) by (simp add: is_unsigned_def)
  have "0 < bit_size B" using lt assms(3) by (cases "bit_size B") simp_all
  then have "bit_size ?d = bit_size B + 1" by (simp add: bigint_subtract_def ints_defs num_subtract_eq)
  then have bits: "bit_size ?m = bit_size B + 1 + s"
    using num_shift_left_eq [OF sycl_ok_Consteval, of "uninit (bit_size B + 1 + s) (signedness ?d) (normal_type ?d) g" "Bits ?d" s]
    by (simp add: bigint_shift_left_def ints_defs)
  have x0: "0 \<le> ?x" using assms(3) by simp
  have "?x < 2 ^ bit_size B * 2 ^ s" using lt by (intro mult_strict_right_mono) simp_all
  then have "nat ?x < 2 ^ (bit_size B + s)" using x0 by (simp add: nat_less_iff power_add)
  then show le: "std_bit_width (nat ?x) \<le> bit_size B + s" by (simp add: std_bit_width_le_iff)
  have "LENGTH('a) * limb_size ?m < 2 ^ 64"
    using limb_size_for_upper [of "bit_size ?m", where 'a = 'a] assms(4) bits by (simp add: limb_size_def)
  then have "ints_bit_width Consteval (Bits ?m) = of_nat (std_bit_width (nat ?x))"
    using num_bit_width_eq [OF sycl_ok_Consteval, of "Bits ?m"] m x0 by (simp add: ints_defs not_less)
  then show "unat (ints_bit_width Consteval (Bits ?m)) = std_bit_width (nat ?x)"
    using le assms(4) by (simp add: unat_of_nat)
qed

lemma drown_uniform_unsigned:
  assumes "sycl_ok E" and "chacha_ok c" and "bigint_ok B" and "signedness B = Without_sign" and "bit_size B + s + 32 + 2 \<le> 2 ^ 64"
  shows "span_int B = 0 \<Longrightarrow> drown_uniform (chacha_call E) 16 g B sg s gen = None"
    and "0 < span_int B \<Longrightarrow> \<exists>v. drown_uniform (chacha_call E) 16 g B Without_sign s (generator_at (chacha_call E) 16 c n)
        = Some (v, generator_at (chacha_call E) 16 c (n + limb_size_for TYPE(32) (std_bit_width (nat ((span_int B - 1) * 2 ^ s)))))
      \<and> bigint_ok v \<and> signedness v = Without_sign \<and> bit_size v = std_bit_width (nat ((span_int B - 1) * 2 ^ s))
      \<and> span_int v = drawn c n (std_bit_width (nat ((span_int B - 1) * 2 ^ s)))"
proof -
  have pos: "bool_cast (bigint_compare ints_greater Consteval B bigint_zero) \<longleftrightarrow> 0 < span_int B"
    using bigint_compare_exact(3) [OF sycl_ok_Consteval assms(3) bigint_nonzero(3) [OF assms(3,4)]]
      bigint_nonzero(4,5) [OF assms(3,4)] assms(4) by simp
  show "span_int B = 0 \<Longrightarrow> drown_uniform (chacha_call E) 16 g B sg s gen = None" using pos by (simp add: drown_uniform_def)
  assume p: "0 < span_int B"
  note b = drown_bits(1) [OF assms(3,4) p, of s g]
  show "\<exists>v. drown_uniform (chacha_call E) 16 g B Without_sign s (generator_at (chacha_call E) 16 c n)
        = Some (v, generator_at (chacha_call E) 16 c (n + limb_size_for TYPE(32) (std_bit_width (nat ((span_int B - 1) * 2 ^ s)))))
      \<and> bigint_ok v \<and> signedness v = Without_sign \<and> bit_size v = std_bit_width (nat ((span_int B - 1) * 2 ^ s))
      \<and> span_int v = drawn c n (std_bit_width (nat ((span_int B - 1) * 2 ^ s)))"
    using random_uniform_unsigned [OF assms(1,2), of "std_bit_width (nat ((span_int B - 1) * 2 ^ s))" Normal g n] p pos b(1) assms(5)
    by (auto simp: drown_uniform_def Let_def)
qed

lemma card_residue:
  assumes "0 < M" and "0 \<le> a" and "a < M" and "0 \<le> N"
  shows "int (card {v. 0 \<le> v \<and> v < N \<and> v mod M = a}) = (if a < N mod M then N div M + 1 else N div (M :: int))"
proof -
  define q m where "q = N div M" and "m = N mod M"
  let ?k = "if a < m then q + 1 else q"
  have N: "N = M * q + m" and m: "m < M" and m0: "0 \<le> m" using assms(1) by (simp_all add: q_def m_def)
  have k0: "0 \<le> ?k" using assms by (simp add: q_def pos_imp_zdiv_nonneg_iff)
  have "{v. 0 \<le> v \<and> v < N \<and> v mod M = a} = (\<lambda>q. M * q + a) ` {0..<?k}"
  proof (intro set_eqI iffI)
    fix v assume v: "v \<in> {v. 0 \<le> v \<and> v < N \<and> v mod M = a}"
    have e: "v = M * (v div M) + a" using v mult_div_mod_eq [of M v] by simp
    have "0 \<le> v div M" using v assms(1) by (simp add: pos_imp_zdiv_nonneg_iff)
    moreover have "v div M < ?k"
    proof (rule ccontr)
      assume "\<not> v div M < ?k"
      then have "M * ?k \<le> M * (v div M)" using assms(1) by simp
      then have "M * ?k + a \<le> v" using e by linarith
      moreover have "N \<le> M * ?k + a" unfolding N using assms(2) m by (auto simp: algebra_simps)
      ultimately show False using v by simp
    qed
    ultimately show "v \<in> (\<lambda>q. M * q + a) ` {0..<?k}" using e by force
  next
    fix v assume "v \<in> (\<lambda>q. M * q + a) ` {0..<?k}"
    then obtain p where "v = M * p + a" "p \<in> {0..<?k}" by blast
    then have p: "v = M * p + a" "0 \<le> p" "p < ?k" by simp_all
    have "M * (p + 1) \<le> M * ?k" using p(3) assms(1) by (intro mult_left_mono) simp_all
    then have le: "M * p + M \<le> (if a < m then M * q + M else M * q)" by (simp only: distrib_left mult_1_right if_distrib [of "(*) M"])
    have "v < N"
    proof (cases "a < m")
      case True
      with le have "M * p + M \<le> M * q + M" by (simp only: if_True)
      with True show ?thesis unfolding N p(1) by linarith
    next
      case False
      with le have "M * p + M \<le> M * q" by (simp only: if_False)
      with assms(3) m0 show ?thesis unfolding N p(1) by linarith
    qed
    then show "v \<in> {v. 0 \<le> v \<and> v < N \<and> v mod M = a}" using p assms by simp
  qed
  moreover have "inj_on (\<lambda>q. M * q + a) {0..<?k}" using assms(1) by (simp add: inj_on_def)
  ultimately have "card {v. 0 \<le> v \<and> v < N \<and> v mod M = a} = card {0..<?k}" by (simp add: card_image)
  then show ?thesis using k0 by (simp add: q_def m_def)
qed

text \<open>C18: Uniform residues: the residue of a draw is a valid object that depends on the drawn integer alone; the drawn integer has
  more values than \<open>2 ^ s\<close> times the largest residue; and of these values, every residue gets the same number, up to one.\<close>

theorem uniform_mod_correct:
  assumes "sycl_ok E" and "chacha_ok c" and "mod_sound K" and "bit_size (mod_modulus K) + s + 34 \<le> 2 ^ 64"
  defines "M \<equiv> mod_int K"
  defines "bits \<equiv> std_bit_width (nat ((M - 1) * 2 ^ s))"
  defines "l \<equiv> limb_size_for TYPE(32) bits"
  defines "R \<equiv> 2 ^ (32 * max (mod_limb_size K) l)"
  shows "(\<exists>x. uniform_mod E (chacha_call E) 16 g K s (generator_at (chacha_call E) 16 c n)
        = Some (x, generator_at (chacha_call E) 16 c (n + l))
      \<and> mod_ok K x \<and> span_int x * R mod M = drawn c n bits mod M)
    \<and> 0 \<le> drawn c n bits \<and> drawn c n bits < 2 ^ bits \<and> (M - 1) * 2 ^ s < 2 ^ bits
    \<and> (\<forall>r. 0 \<le> r \<and> r < M \<longrightarrow>
        int (card {v. 0 \<le> v \<and> v < 2 ^ bits \<and> r * R mod M = v mod M}) \<in> {2 ^ bits div M, 2 ^ bits div M + 1})"
proof -
  note sound = mod_soundD [OF assms(3)]
  obtain v where v: "drown_uniform (chacha_call E) 16 g (mod_modulus K) Without_sign s (generator_at (chacha_call E) 16 c n)
      = Some (v, generator_at (chacha_call E) 16 c (n + l))" "bigint_ok v" "signedness v = Without_sign"
      "bit_size v = bits" "span_int v = drawn c n bits"
    using drown_uniform_unsigned(2) [OF assms(1,2) sound(1,2), of s g n] assms(4) sound(3)
    by (auto simp: bits_def l_def M_def mod_int_def)
  have u: "is_unsigned (signedness v)" using v(3) by (simp add: is_unsigned_def)
  have "limb_size v = l" by (simp add: limb_size_def v(4) l_def)
  then have x: "mod_ok K (mod_from_random E g K v)" "span_int (mod_from_random E g K v) * R mod M = drawn c n bits mod M"
    using mod_from_random_law [OF assms(1,3) v(2) u, of g] by (simp_all add: v(5) R_def M_def)
  have "nat ((M - 1) * 2 ^ s) < 2 ^ bits" unfolding bits_def by (rule std_bit_width_less)
  then have "(M - 1) * 2 ^ s < 2 ^ bits" using sound(3) by (simp add: nat_less_iff M_def)
  moreover have "int (card {v. 0 \<le> v \<and> v < 2 ^ bits \<and> r * R mod M = v mod M}) \<in> {2 ^ bits div M, 2 ^ bits div M + 1}"
    if "0 \<le> r" "r < M" for r
    using card_residue [of M "r * R mod M" "2 ^ bits"] sound(3) by (simp add: M_def eq_commute [of "r * R mod mod_int K"])
  moreover have "0 \<le> drawn c n bits" "drawn c n bits < 2 ^ bits" by (simp_all add: drawn_def)
  ultimately show ?thesis using v(1) x by (auto simp: uniform_mod_def)
qed


text \<open>A modulus for evaluation.\<close>

definition sample32 :: "chacha_word \<Rightarrow> chacha_word bit_span" where
  "sample32 m = bit_array 32 Without_sign Normal [m]"

lemma sample32_ok [simp]:
  "bigint_ok (sample32 m)" "span_int (sample32 m) = uint m" "signedness (sample32 m) = Without_sign" "bit_size (sample32 m) = 32"
  "normal_type (sample32 m) = Normal"
proof -
  show s: "signedness (sample32 m) = Without_sign" "bit_size (sample32 m) = 32" "normal_type (sample32 m) = Normal"
    by (simp_all add: sample32_def bit_array_def)
  have l: "limb_size (sample32 m) = 1" by (simp add: limb_size_def s limb_size_for_def div_ceil_def)
  show "bigint_ok (sample32 m)" "span_int (sample32 m) = uint m"
    using get_int_full [of "sample32 m"] s l by (simp_all add: is_unsigned_def bigint_ok_def sample32_def bit_array_def)
qed

lemma sample32_mod:
  obtains K where "mod_type (\<lambda>_. 0) (sample32 17) = Some K" "mod_sound K" "mod_modulus K = sample32 17" "mod_int K = 17"
    "mod_bit_size K = 5"
proof -
  have w: "std_bit_width 16 = 5" by (simp add: std_bit_width.simps)
  have l: "limb_size_for TYPE(32) 5 = 1" by (simp add: limb_size_for_def div_ceil_def)
  have M: "bigint_ok (sample32 17)" "signedness (sample32 17) = Without_sign" "bit_size (sample32 17) + LENGTH(32) + 2 \<le> 2 ^ 64"
    by simp_all
  obtain K where K: "mod_type (\<lambda>_. 0) (sample32 17) = Some K"
    using mod_type_eq(3) [OF M, of 1 "\<lambda>_. 0"] by (auto simp: w l)
  have "mod_sound K" "mod_modulus K = sample32 17" "mod_bit_size K = 5"
    using mod_type_eq(2) [OF M _ K] by (simp_all add: w)
  then show thesis using K by (intro that) (simp_all add: mod_int_def)
qed

lemma uniform_mod_correct_witness:
  "\<exists>K x gen. mod_type (\<lambda>_. 0) (sample32 17) = Some K
    \<and> uniform_mod sycl_device (chacha_call sycl_device) 16 (\<lambda>_. 5) K 80
        (generator_at (chacha_call sycl_device) 16 (chacha_compiletime 20 3 1) 14) = Some (x, gen)
    \<and> span_int x < 17 \<and> gen = generator_at (chacha_call sycl_device) 16 (chacha_compiletime 20 3 1) 17"
proof -
  obtain K where K: "mod_type (\<lambda>_. 0) (sample32 17) = Some K" "mod_sound K" "mod_modulus K = sample32 17" "mod_int K = 17"
    "mod_bit_size K = 5" by (rule sample32_mod)
  have c: "chacha_ok (chacha_compiletime 20 3 1)" by (rule chacha_compiletime_ok) simp_all
  have size: "bit_size (mod_modulus K) + 80 + 34 \<le> 2 ^ 64" by (simp add: K(3))
  have w: "std_bit_width (nat ((mod_int K - 1) * 2 ^ 80)) = 85" by (simp add: K(4) std_bit_width.simps)
  have l: "limb_size_for TYPE(32) 85 = 3" by (simp add: limb_size_for_def div_ceil_def)
  show ?thesis
    using uniform_mod_correct [OF sycl_ok_device c K(2) size, of "\<lambda>_. 5" 14] K(1) mod_okD(4) [of K]
    unfolding w l by (auto simp: K(4))
qed

section \<open>Signed integers\<close>

lemma uint_signed_take_bit:
  "uint (d :: 'a::len word) = signed_take_bit k (uint d) mod 2 ^ LENGTH('a) \<longleftrightarrow> (\<forall>j < LENGTH('a). bit d j = bit d (min j k))"
proof -
  have *: "bit (uint d) j \<longleftrightarrow> j < LENGTH('a) \<and> bit d j" for j using bit_imp_le_length [of d j] by (auto simp: bit_uint_iff)
  have m: "min k j < LENGTH('a)" if "j < LENGTH('a)" for j using that by simp
  have "bit (signed_take_bit k (uint d) mod 2 ^ LENGTH('a)) j \<longleftrightarrow> j < LENGTH('a) \<and> bit d (min j k)" for j
    unfolding take_bit_eq_mod [symmetric] bit_take_bit_iff bit_signed_take_bit_iff * using m [of j] by (auto simp: min.commute)
  then show ?thesis unfolding bit_eq_iff [of "uint d"] * by auto
qed

text \<open>C34: Uniform signed integers of fewer bits than their limb has: if the sign bit of the drawn word is clear, the bits of the word above the
  size stay in the object, although its type is a normal one; the object is well formed exactly if none of them is set.\<close>

theorem random_uniform_signed_stray_bits:
  fixes gen :: "('s, 'a::len word) number_generator" and g :: "nat \<Rightarrow> 'a word" and engine :: "'s \<Rightarrow> 'a word list \<times> 's" and block_size :: nat
  assumes "0 < bits" and "bits < LENGTH('a)"
  defines "w \<equiv> gen_state gen ! gen_index gen"
  defines "r \<equiv> fst (random_uniform engine block_size g bits With_sign gen)"
  shows "data r = [if bit w (bits - 1) then w OR NOT (mask bits) else w]
    \<and> normal_type r = Normal \<and> (bigint_ok r \<longleftrightarrow> bit w (bits - 1) \<or> drop_bit bits w = 0)"
proof -
  let ?b = "uninit bits With_sign Normal g :: 'a word bit_span" and ?d = "if bit w (bits - 1) then w OR NOT (mask bits) else w"
  have l: "limb_size ?b = 1" using assms(1,2) by (simp add: limb_size_for_def div_ceil_cases)
  obtain x where x: "data ?b = [x]" using l by (auto simp: length_Suc_conv uninit_def bit_array_def memory_def limb_size_def)
  have lb: "last_limb_bit_size ?b = bits" using assms(1,2) by (simp add: last_limb_bit_size_def last_limb_bit_size_for_def)
  have "bit (dynamic_value (core_extend_sign_bit (Dyn w) (core_extract_bit (Dyn w) (bits - 1)) bits)) j = bit ?d j" if "j < LENGTH('a)" for j
    using that assms(1,2) unfolding core_extend_sign_bit_def
    by (subst bit_extend_sign) (auto simp: mask_from_eq bit_or_iff bit_not_iff bit_mask_iff)
  then have d: "dynamic_value (core_extend_sign_bit (Dyn w) (core_extract_bit (Dyn w) (bits - 1)) bits) = ?d" by (rule bit_word_eqI)
  have "r = span_write ?b 0 (Dyn w) Normal"
    using l by (simp add: r_def random_uniform_def uniform_bits_def generator_uniform_def generator_next_def w_def Let_def split: prod.splits)
  then have r: "r = ?b\<lparr>data := [?d]\<rparr>"
    using d l lb x assms(1,2) by (simp add: span_write_def written_limb_def Let_def del: uninit_sel(4))
  have "bigint_ok r \<longleftrightarrow> uint ?d = signed_take_bit (bits - 1) (uint ?d) mod 2 ^ LENGTH('a)"
    using l assms(1) by (simp add: r bigint_ok_def span_shape_def span_normal_def span_int_def wrap_def del: uninit_sel(4))
  also have "\<dots> \<longleftrightarrow> (\<forall>j < LENGTH('a). bit ?d j = bit ?d (min j (bits - 1)))"
    by (rule uint_signed_take_bit)
  also have "\<dots> \<longleftrightarrow> bit w (bits - 1) \<or> drop_bit bits w = 0"
  proof (cases "bit w (bits - 1)")
    case True
    then show ?thesis using assms(1,2) by (auto simp: bit_or_iff bit_not_iff bit_mask_iff min_def)
  next
    case False
    have "drop_bit bits w = 0 \<longleftrightarrow> (\<forall>j < LENGTH('a). bits \<le> j \<longrightarrow> \<not> bit w j)"
    proof
      assume z: "drop_bit bits w = 0"
      have "\<not> bit w j" if "bits \<le> j" for j
        using z that bit_drop_bit_eq [of bits w] by (auto simp: fun_eq_iff le_iff_add)
      then show "\<forall>j < LENGTH('a). bits \<le> j \<longrightarrow> \<not> bit w j" by blast
    next
      assume none: "\<forall>j < LENGTH('a). bits \<le> j \<longrightarrow> \<not> bit w j"
      show "drop_bit bits w = 0"
      proof (rule bit_word_eqI)
        fix j
        show "bit (drop_bit bits w) j = bit 0 j"
          using none bit_imp_le_length [of w "bits + j"] by (auto simp: bit_drop_bit_eq)
      qed
    qed
    with False show ?thesis using assms(1) by (auto simp: min_def)
  qed
  finally show ?thesis by (simp add: r)
qed

lemma random_uniform_signed_stray_bits_witness:
  "\<not> bigint_ok (fst (random_uniform (chacha_call sycl_device) 16 (\<lambda>_. 0) 8 With_sign
      \<lparr>gen_engine = chacha_compiletime 20 3 1, gen_state = replicate 16 256, gen_index = 0\<rparr>))"
proof -
  have "\<not> bit (256 :: 32 word) 7" "drop_bit 8 (256 :: 32 word) \<noteq> 0" by simp_all
  then show ?thesis
    using random_uniform_signed_stray_bits [of 8 "chacha_call sycl_device" 16 "\<lambda>_. 0"
      "\<lparr>gen_engine = chacha_compiletime 20 3 1, gen_state = replicate 16 256, gen_index = 0\<rparr>"] by simp
qed

section \<open>Binomial integers\<close>

definition ones :: "int \<Rightarrow> nat \<Rightarrow> nat" where
  "ones x n = card {i. i < n \<and> bit x i}"

lemma ones_Suc: "ones x (Suc n) = ones x n + of_bool (bit x n)"
proof -
  have "{i. i < Suc n \<and> bit x i} = (if bit x n then insert n {i. i < n \<and> bit x i} else {i. i < n \<and> bit x i})"
    by (auto simp: less_Suc_eq)
  then show ?thesis by (simp add: ones_def)
qed

lemma ones_0 [simp]: "ones x 0 = 0"
  by (simp add: ones_def)

lemma ones_le: "ones x n \<le> n"
  by (induction n) (simp_all add: ones_Suc)

lemma binomial_step_inv:
  fixes v b :: "'a::len word bit_span"
  assumes "sycl_ok E" and "bigint_ok v" and "bit_size v = count" and "is_unsigned (signedness v)" and i: "i < count"
    and b: "span_shape b" "is_unsigned (signedness b)" "count < 2 ^ bit_size b"
    and r: "0 < i \<Longrightarrow> r = store b (int (ones (span_int v) i))" "i = 0 \<Longrightarrow> r = b"
    and w: "w = drop_bit (i mod LENGTH('a)) (limb_of (span_int v) (i div LENGTH('a)))"
  shows "fst (binomial_step E v count i (r, w)) = store b (int (ones (span_int v) (Suc i)))"
    and "Suc i < count \<Longrightarrow> snd (binomial_step E v count i (r, w))
      = drop_bit (Suc i mod LENGTH('a)) (limb_of (span_int v) (Suc i div LENGTH('a)))"
proof -
  let ?V = "span_int v" and ?L = "LENGTH('a)"
  have m: "i mod ?L < ?L" and e: "?L * (i div ?L) + i mod ?L = i" by simp_all
  have bit: "ubool_from w \<longleftrightarrow> bit ?V i"
  proof -
    have "ubool_from w \<longleftrightarrow> bit w 0" by (simp add: ubool_from_def and_one_eq bit_0 odd_iff_mod_2_eq_one)
    also have "\<dots> \<longleftrightarrow> bit ?V i" using m e unfolding w by (simp add: bit_drop_bit_eq bit_limb_of del: bit_0)
    finally show ?thesis .
  qed
  show "fst (binomial_step E v count i (r, w)) = store b (int (ones ?V (Suc i)))"
  proof (cases "i = 0")
    case True
    then show ?thesis
      using num_add_eq(1) [OF assms(1), of b "Bits nullspan" "Bits nullspan" "Dyn (of_bool (ubool_from w))"] b(1) r(2)
      by (simp add: binomial_step_def Let_def ones_Suc bit span_shape_def)
  next
    case False
    have "int (ones ?V i) < 2 ^ bit_size b" using ones_le [of ?V i] i b(3) by (simp flip: of_nat_less_iff)
    then have "get_int E (Bits r) = int (ones ?V i)"
      using r(1) False b(1,2) by (simp add: get_int_store in_range_def is_unsigned_iff)
    then show ?thesis
      using num_add_assign_eq [of r E "Bits nullspan" "Dyn (of_bool (ubool_from w))"] r(1) False
        num_add_eq(1) [OF assms(1), of r "Bits r" "Bits nullspan" "Dyn (of_bool (ubool_from w))"]
      by (simp add: binomial_step_def Let_def ones_Suc bit)
  qed
  show "snd (binomial_step E v count i (r, w)) = drop_bit (Suc i mod ?L) (limb_of ?V (Suc i div ?L))" if s: "Suc i < count"
  proof (cases "i mod ?L = ?L - 1")
    case True
    then have n: "Suc i mod ?L = 0" "Suc i div ?L = Suc (i div ?L)" using len_gt_0 [where 'a = 'a] by (simp_all add: mod_Suc div_Suc)
    have "Suc i < ?L * limb_size v" using s bit_size_le_limbs [of v] assms(3) by simp
    then have "Suc (i div ?L) < limb_size v" unfolding n(2) [symmetric] by (simp add: less_mult_imp_div_less mult.commute)
    then show ?thesis
      using True n get_limb_of_int [OF assms(1), of "Suc (i div ?L)" "Bits v"] assms(1,2)
      by (simp add: binomial_step_def Let_def less_diff_conv del: get_limb_Bits)
  next
    case False
    then have n: "Suc i mod ?L = Suc (i mod ?L)" "Suc i div ?L = i div ?L"
      using mod_less_divisor [of ?L i] by (auto simp: mod_Suc div_Suc)
    then show ?thesis using False s by (simp add: binomial_step_def Let_def w drop_bit_drop_bit less_diff_conv)
  qed
qed

lemma random_binomial_eq:
  fixes n :: nat
  assumes "sycl_ok E" and "chacha_ok c" and "0 < count"
  defines "gen \<equiv> generator_at (chacha_call E) 16 c" and "V \<equiv> drawn c n count"
  shows "random_binomial E (chacha_call E) 16 g count (gen n)
    = (store (uninit (std_bit_width count) Without_sign Unnormal g) (int (ones V count)), gen (n + limb_size_for TYPE(32) count))"
proof -
  let ?b = "uninit (std_bit_width count) Without_sign Unnormal g"
  obtain v where v: "uniform_bits (chacha_call E) 16 (uninit count Without_sign Unnormal g) (gen n)
      = (v, gen (n + limb_size_for TYPE(32) count))" "bigint_ok v" "signedness v = Without_sign" "bit_size v = count" "span_int v = V"
    using random_uniform_unsigned [OF assms(1,2), of count Unnormal g n] by (auto simp: gen_def V_def)
  have u: "is_unsigned (signedness v)" "is_unsigned (signedness ?b)" using v(3) by (simp_all add: is_unsigned_def)
  have b: "span_shape ?b" "count < 2 ^ bit_size ?b"
    using std_bit_width_less [of count] uninit_shape [of Without_sign "std_bit_width count" Unnormal g] by simp_all
  let ?w0 = "dynamic_value (get_limb E (Bits v) 0)"
  have w0: "?w0 = limb_of V 0"
    using get_limb_of_int [OF assms(1), of 0 "Bits v"] v(2,4,5) assms(1,3) limb_size_pos [of v] by (simp del: get_limb_Bits)
  have "(i = 0 \<longrightarrow> fst s = ?b) \<and> (0 < i \<longrightarrow> fst s = store ?b (int (ones V i)))
      \<and> (i < count \<longrightarrow> snd s = drop_bit (i mod 32) (limb_of V (i div 32)))"
    if "i \<le> count" and s: "s = scan_range i (binomial_step E v count) (?b, ?w0)" for i s
    using that
  proof (induction i arbitrary: s)
    case 0
    then show ?case by (simp add: w0 del: get_limb_Bits)
  next
    case (Suc i)
    obtain r w where rw: "scan_range i (binomial_step E v count) (?b, ?w0) = (r, w)" by (rule prod.exhaust)
    have i: "i < count" using Suc.prems(1) by simp
    have ih: "i = 0 \<Longrightarrow> r = ?b" "0 < i \<Longrightarrow> r = store ?b (int (ones V i))" "w = drop_bit (i mod 32) (limb_of V (i div 32))"
      using Suc.IH [OF _ refl] i rw by simp_all
    note step = binomial_step_inv [OF assms(1) v(2,4) u(1) i b(1) u(2) b(2), of r w, unfolded v(5)]
    show ?case using step ih rw Suc.prems(2) by simp
  qed
  from this [OF order_refl refl] assms(3)
  have "fst (scan_range count (binomial_step E v count) (?b, ?w0)) = store ?b (int (ones V count))" by simp
  then show ?thesis by (simp add: random_binomial_def v(1))
qed

text \<open>Variances that the compiler accepts are halves of numbers.\<close>

lemma rational_times:
  assumes "rational_new num den = Some v"
  shows "\<exists>w. rational_multiply (m, 1) v = Some w \<and> (snd w = 1 \<longleftrightarrow> den dvd m * num) \<and> (den dvd m * num \<longrightarrow> rational_to_size w = m * num div den)"
proof -
  define G a b where "G = gcd num den" and "a = num div G" and "b = den div G"
  have d: "den \<noteq> 0" and v: "v = (a, b)"
    using assms by (auto simp: rational_new_def ct_assert_def a_def b_def G_def split: bind_splits if_splits)
  have e: "num = a * G" "den = b * G" by (simp_all add: a_def b_def G_def)
  have G: "0 < G" using d by (simp add: G_def)
  have b: "0 < b" using d e(2) by (cases b) simp_all
  have dvd: "den dvd m * num \<longleftrightarrow> b dvd m * a" using G unfolding e by (simp flip: mult.assoc)
  have q: "m * num div den = m * a div b" using G unfolding e by (simp flip: mult.assoc)
  let ?w = "(m * a div gcd (m * a) b, b div gcd (m * a) b)"
  have "rational_multiply (m, 1) v = Some ?w" using b by (simp add: v rational_multiply_def rational_new_def)
  moreover have "snd ?w = 1 \<longleftrightarrow> b dvd m * a"
  proof
    assume "snd ?w = 1"
    moreover have "b = gcd (m * a) b * (b div gcd (m * a) b)" by simp
    ultimately have "b = gcd (m * a) b" by simp
    then show "b dvd m * a" using gcd_dvd1 [of "m * a" b] by simp
  next
    assume "b dvd m * a"
    then show "snd ?w = 1" using b by (simp add: gcd_proj2_if_dvd)
  qed
  moreover have "rational_to_size ?w = m * a div b" if "b dvd m * a"
    using that b by (simp add: rational_to_size_def gcd_proj2_if_dvd)
  ultimately show ?thesis unfolding dvd q by blast
qed

text \<open>Binomial integers: a draw of \<open>count\<close> bits gives the number of ones among them, in an unsigned integer that can hold
  \<open>count\<close>. A centered draw is rejected unless twice its variance, the mean, is a number; then it gives the number of ones
  among twice as many bits as the mean, less the mean, in a signed integer that holds all these values.\<close>

theorem binomial_correct:
  fixes n :: nat and g :: "nat \<Rightarrow> chacha_word"
  assumes "sycl_ok E" and "chacha_ok c" and "0 < count" and "rational_new num den = Some variance"
    and "0 < num" and "2 * num div den < 2 ^ 63"
  defines "gen \<equiv> generator_at (chacha_call E) 16 c" and "mean \<equiv> 2 * num div den"
  shows "(\<exists>x. random_binomial E (chacha_call E) 16 g count (gen n) = (x, gen (n + limb_size_for TYPE(32) count))
      \<and> bigint_ok x \<and> bit_size x = std_bit_width count \<and> span_int x = int (ones (drawn c n count) count))
    \<and> (\<not> den dvd 2 * num \<longrightarrow> centered_binomial E (chacha_call E) 16 g variance (gen n) = None)
    \<and> (den dvd 2 * num \<longrightarrow> (\<exists>y. centered_binomial E (chacha_call E) 16 g variance (gen n)
          = Some (y, gen (n + limb_size_for TYPE(32) (2 * mean)))
        \<and> bigint_ok y \<and> bit_size y = std_bit_width mean + 1 \<and> signedness y = With_sign
        \<and> span_int y = int (ones (drawn c n (2 * mean)) (2 * mean)) - int mean))"
proof (intro conjI impI)
  let ?b = "\<lambda>k. uninit (std_bit_width k) Without_sign Unnormal g :: chacha_word bit_span"
  have stored: "bigint_ok (store (?b k) (int (ones V k))) \<and> span_int (store (?b k) (int (ones V k))) = int (ones V k)" for k V
  proof -
    have "int (ones V k) < 2 ^ std_bit_width k"
      using ones_le [of V k] std_bit_width_less [of k] by (simp flip: of_nat_less_iff)
    then have "in_range (?b k) (int (ones V k))" by (simp add: in_range_def)
    moreover have "span_shape (?b k)" by (rule uninit_shape) simp
    ultimately show ?thesis using bigint_store by blast
  qed
  show "\<exists>x. random_binomial E (chacha_call E) 16 g count (gen n) = (x, gen (n + limb_size_for TYPE(32) count))
      \<and> bigint_ok x \<and> bit_size x = std_bit_width count \<and> span_int x = int (ones (drawn c n count) count)"
    using random_binomial_eq [OF assms(1-3), where n = n and g = g] stored [of count] by (simp add: gen_def)
  obtain w where w: "rational_multiply (2, 1) variance = Some w" "snd w = 1 \<longleftrightarrow> den dvd 2 * num"
      "den dvd 2 * num \<longrightarrow> rational_to_size w = mean"
    using rational_times [OF assms(4), of 2] by (auto simp: mean_def)
  show "centered_binomial E (chacha_call E) 16 g variance (gen n) = None" if "\<not> den dvd 2 * num"
    using w that by (simp add: centered_binomial_def)
  assume d: "den dvd 2 * num"
  then have "den dvd 4 * num" "4 * num div den = 2 * mean"
    using dvd_mult [OF d, of 2] div_mult_swap [OF d, of 2] by (simp_all add: mean_def)
  then obtain f where f: "rational_multiply (4, 1) variance = Some f" "rational_to_size f = 2 * mean"
    using rational_times [OF assms(4), of 4] by auto
  have "0 < den" using assms(4) by (cases "den = 0") (simp_all add: rational_new_def)
  then have "0 < mean" using d assms(5) by (simp add: mean_def div_greater_zero_iff dvd_imp_le)
  let ?v = "Size_limbs 64 (of_nat mean) :: chacha_word rspan"
  have "rspan_int ?v = int mean" using assms(6) by (simp add: limb_size_for_def div_ceil_def mean_def unat_of_nat uint_nat)
  moreover have "LENGTH(32) * rspan_limb_size ?v < 2 ^ 64" by (simp add: limb_size_for_def div_ceil_def)
  ultimately obtain t where t: "constant_bit_span_from ?v = Some t" "represents t (int mean)"
    using constant_bit_span_view [of ?v] by auto
  let ?x = "store (uninit (std_bit_width (2 * mean)) Without_sign Unnormal g) (int (ones (drawn c n (2 * mean)) (2 * mean)))"
  let ?r = "uninit (std_bit_width mean + 1) With_sign Unnormal g :: chacha_word bit_span"
  let ?y = "store ?r (int (ones (drawn c n (2 * mean)) (2 * mean)) - int mean)"
  have "fst (ints_subtract E ?r (Bits ?x) t (Const 0)) = ?y"
    using num_subtract_eq(1) [OF assms(1), of ?r "Bits ?x" t "Const 0"] stored [of "2 * mean"] representsD(1,2) [OF t(2)] assms(1)
    by (simp add: ints_defs get_int_rspan_int)
  moreover have "in_range ?r (int (ones (drawn c n (2 * mean)) (2 * mean)) - int mean)"
  proof -
    have "int mean < 2 ^ std_bit_width mean" using std_bit_width_less [of mean] by (simp flip: of_nat_less_iff)
    moreover have "int (ones (drawn c n (2 * mean)) (2 * mean)) \<le> 2 * int mean" using ones_le [of "drawn c n (2 * mean)" "2 * mean"] by linarith
    ultimately have "- (2 ^ std_bit_width mean) \<le> int (ones (drawn c n (2 * mean)) (2 * mean)) - int mean
      \<and> int (ones (drawn c n (2 * mean)) (2 * mean)) - int mean < 2 ^ std_bit_width mean" by linarith
    then show ?thesis by (simp add: in_range_def)
  qed
  then have "bigint_ok ?y \<and> span_int ?y = int (ones (drawn c n (2 * mean)) (2 * mean)) - int mean"
    using bigint_store [of ?r] by (simp add: uninit_shape)
  ultimately show "\<exists>y. centered_binomial E (chacha_call E) 16 g variance (gen n) = Some (y, gen (n + limb_size_for TYPE(32) (2 * mean)))
        \<and> bigint_ok y \<and> bit_size y = std_bit_width mean + 1 \<and> signedness y = With_sign
        \<and> span_int y = int (ones (drawn c n (2 * mean)) (2 * mean)) - int mean"
    using w d f t(1) \<open>0 < mean\<close> random_binomial_eq [OF assms(1,2), where count = "2 * mean" and n = n and g = g]
    by (intro exI [of _ ?y]) (simp add: centered_binomial_def gen_def Let_def)
qed

lemma binomial_correct_witness:
  "\<exists>y. centered_binomial sycl_device (chacha_call sycl_device) 16 (\<lambda>_. 3) (21, 2)
        (generator_at (chacha_call sycl_device) 16 (chacha_compiletime 20 3 1) 15)
      = Some (y, generator_at (chacha_call sycl_device) 16 (chacha_compiletime 20 3 1) 17)
    \<and> bit_size y = 6 \<and> - 21 \<le> span_int y \<and> span_int y \<le> 21"
proof -
  have c: "chacha_ok (chacha_compiletime 20 3 1)" by (rule chacha_compiletime_ok) simp_all
  have g: "gcd 42 (4 :: nat) = 2" by code_simp
  have v: "rational_new 42 4 = Some (21, 2)" by (simp add: rational_new_def g)
  have l: "limb_size_for TYPE(32) 42 = 2" by (simp add: limb_size_for_def div_ceil_def)
  have w: "std_bit_width 21 = 5" by (simp add: std_bit_width.simps)
  have "int (ones V 42) \<le> 42" for V using ones_le [of V 42] by simp
  then show ?thesis
    using binomial_correct [OF sycl_ok_device c zero_less_one v, where n = 15 and g = "\<lambda>_. 3"] by (auto simp: l w)
qed

end
