(* ===== verification/Shape_Index.thy ===== *)
theory Shape_Index
  imports Limb
begin

text \<open>
  Shapes of tensors and indices into them: \<^verbatim>\<open>core/mdsize.hpp\<close>, \<^verbatim>\<open>shape.hpp\<close> and
  \<^verbatim>\<open>index.hpp\<close>.

  An extent is a template argument that the compiler knows, the placeholder (a dimension without extent, for broadcasting), or
  a value of run time. The source writes all three as one number: 0 is the placeholder and \<open>2 ^ 64 - 1\<close> the dynamic extent, so
  a \<open>Static\<close> extent stands for any other number. A failed static assertion on shapes is the value \<open>None\<close>; the device assertions
  that an index is below its extent, and a linear index below the size of the shape, are the conditions \<open>index_ok\<close> and
  \<open>k < shape_size s\<close> of the lemmas (both imply that the extents are positive); a release build does not check them.
  Extents, sizes and linear indices are \<open>hmpc::size\<close>, a machine word of 64 bits: products and sums wrap around, for constants
  and for values of run time alike. The size of a shape is the product of the extents modulo \<open>2 ^ 64\<close>. Tuples and linear indices correspond
  one to one exactly if the product itself is below \<open>2 ^ 64\<close>; the code does not check that.
\<close>

section \<open>Shapes\<close>

datatype extent = Placeholder | Static (extent_value: hsize) | Dynamic (extent_value: hsize)
  where "extent_value Placeholder = 0"

type_synonym shape = "extent list"

definition has_placeholder :: "shape \<Rightarrow> bool" where
  "has_placeholder s \<longleftrightarrow> Placeholder \<in> set s"

definition shape_size :: "shape \<Rightarrow> hsize" where
  "shape_size s = scan_range (length s)
     (\<lambda>i accumulated. case s ! i of Placeholder \<Rightarrow> accumulated | Static n \<Rightarrow> accumulated * n | Dynamic n \<Rightarrow> accumulated * n) 1"

definition static_size :: "shape \<Rightarrow> hsize" where
  "static_size s =
     (if s = [] then 1
      else for_range (length s) (\<lambda>i e_size. case s ! i of Static n \<Rightarrow> e_size * n | _ \<Rightarrow> e_size) 1)"

fun common_extent :: "extent \<Rightarrow> extent \<Rightarrow> extent option" where
  "common_extent (Dynamic m) (Dynamic n) = (if m = n then Some (Dynamic m) else None)"
| "common_extent left (Dynamic n) = (if left = Placeholder then Some (Dynamic n) else None)"
| "common_extent (Dynamic m) right = (if right = Placeholder then Some (Dynamic m) else None)"
| "common_extent Placeholder right = Some right"
| "common_extent left Placeholder = Some left"
| "common_extent (Static m) (Static n) = (if m = n then Some (Static m) else None)"

definition common_shape :: "shape \<Rightarrow> shape \<Rightarrow> shape option" where
  "common_shape left right =
     (if left = [] then Some right
      else if right = [] then Some left
      else if length left \<noteq> length right then None
      else those (map (\<lambda>i. common_extent (left ! i) (right ! i)) [0..<length left]))"

text \<open>A dimension may be counted from the end by a negative number.\<close>

definition dimension :: "nat \<Rightarrow> int \<Rightarrow> nat option" where
  "dimension rank dim =
     (if dim < 0 then if - dim \<le> int rank then Some (nat (int rank + dim)) else None
      else if dim < int rank then Some (nat dim) else None)"

definition shape_unsqueeze :: "shape \<Rightarrow> int \<Rightarrow> extent \<Rightarrow> shape option" where
  "shape_unsqueeze s dim e =
     (case dimension (length s + 1) dim of None \<Rightarrow> None
      | Some pos \<Rightarrow> Some (map (\<lambda>i. s ! i) [0..<pos] @ [e] @ map (\<lambda>j. s ! j) [pos..<length s]))"

definition shape_squeeze :: "shape \<Rightarrow> int \<Rightarrow> shape option" where
  "shape_squeeze s dim =
     (case dimension (length s) dim of None \<Rightarrow> None
      | Some pos \<Rightarrow> Some (map (\<lambda>i. s ! i) [0..<pos] @ map (\<lambda>j. s ! j) [pos + 1..<length s]))"

text \<open>The elements of a tensor of vectors have the size of the vectors as their last dimension.\<close>

definition element_shape :: "hsize option \<Rightarrow> shape \<Rightarrow> shape" where
  "element_shape vector_size s =
     (case vector_size of None \<Rightarrow> s | Some n \<Rightarrow> map (\<lambda>i. s ! i) [0..<length s] @ [Static n])"

section \<open>Indices\<close>

definition to_linear_index :: "hsize list \<Rightarrow> shape \<Rightarrow> hsize" where
  "to_linear_index index s =
     (if s = [] then 0
      else scan_range (length s)
        (\<lambda>i linear_index. case s ! i of Placeholder \<Rightarrow> linear_index
          | e \<Rightarrow> linear_index * extent_value e + index ! i) 0)"

text \<open>\<open>g\<close> is the uninitialized memory of the index; the component of a placeholder is the constant 0.\<close>

definition from_linear_index :: "(nat \<Rightarrow> hsize) \<Rightarrow> hsize \<Rightarrow> shape \<Rightarrow> hsize list" where
  "from_linear_index g k s =
     (if s = [] then []
      else fst (scan_reverse_range (length s)
        (\<lambda>i (index, rest). case s ! i of Placeholder \<Rightarrow> (index, rest)
          | e \<Rightarrow> (index[i := rest mod extent_value e], rest div extent_value e))
        (map (\<lambda>i. if s ! i = Placeholder then 0 else g i) [0..<length s], k)))"

definition index_unsqueeze :: "hsize list \<Rightarrow> int \<Rightarrow> hsize list option" where
  "index_unsqueeze index dim =
     (case dimension (length index) dim of None \<Rightarrow> None
      | Some pos \<Rightarrow> Some (map (\<lambda>i. index ! i) [0..<pos] @ map (\<lambda>j. index ! j) [pos + 1..<length index]))"

definition unsqueeze_for_element_index :: "bool \<Rightarrow> hsize list \<Rightarrow> int \<Rightarrow> hsize list option" where
  "unsqueeze_for_element_index vector index dim =
     (let rank = length index - (if vector then 1 else 0)
      in case dimension rank dim of None \<Rightarrow> None
         | Some pos \<Rightarrow> Some (map (\<lambda>i. index ! i) [0..<pos] @ map (\<lambda>j. index ! j) [pos + 1..<rank]
             @ (if vector then [index ! rank] else [])))"

section \<open>The linear index\<close>

text \<open>The extent that counts: a placeholder contributes nothing.\<close>

definition weight :: "extent \<Rightarrow> hsize" where
  "weight e = (case e of Placeholder \<Rightarrow> 1 | _ \<Rightarrow> extent_value e)"

definition index_ok :: "hsize list \<Rightarrow> shape \<Rightarrow> bool" where
  "index_ok index s \<longleftrightarrow> length index = length s
     \<and> (\<forall>i < length s. if s ! i = Placeholder then index ! i = 0 else index ! i < extent_value (s ! i))"

lemma weight_simps [simp]: "weight Placeholder = 1" "weight (Static n) = n" "weight (Dynamic n) = n"
  by (simp_all add: weight_def)

lemma scan_range_shape: "scan_range (length s) (\<lambda>i a. f (s ! i) a) z = fold f s z"
proof -
  have "scan_range n (\<lambda>i a. f (s ! i) a) z = fold f (take n s) z" if "n \<le> length s" for n
    using that by (induction n) (simp_all add: take_Suc_conv_app_nth)
  then show ?thesis by simp
qed

lemma shape_size_eq: "shape_size s = prod_list (map weight s)"
proof -
  have "fold (\<lambda>e a. case e of Placeholder \<Rightarrow> a | Static n \<Rightarrow> a * n | Dynamic n \<Rightarrow> a * n) s z = z * prod_list (map weight s)" for z
    by (induction s arbitrary: z) (simp_all add: mult.assoc split: extent.split)
  then show ?thesis unfolding shape_size_def by (subst scan_range_shape) simp
qed

text \<open>The loops over a shape, one dimension at the end after the other, on numbers that do not wrap around.\<close>

definition prefix_linear :: "hsize list \<Rightarrow> shape \<Rightarrow> nat \<Rightarrow> nat" where
  "prefix_linear index s n = fold (\<lambda>k l. l * unat (weight (s ! k)) + unat (index ! k)) [0..<n] 0"

lemma prefix_linear_simps [simp]:
  "prefix_linear index s 0 = 0"
  "prefix_linear index s (Suc n) = prefix_linear index s n * unat (weight (s ! n)) + unat (index ! n)"
  by (simp_all add: prefix_linear_def)

text \<open>The number of elements: the product of the extents as numbers.\<close>

definition extent_product :: "shape \<Rightarrow> nat" where
  "extent_product s = prod_list (map (\<lambda>e. unat (weight e)) s)"

lemma extent_product_simps [simp]:
  "extent_product [] = 1" "extent_product (e # s) = unat (weight e) * extent_product s"
  by (simp_all add: extent_product_def)

lemma shape_size_count: "shape_size s = of_nat (extent_product s)"
  unfolding shape_size_eq by (induction s) simp_all

lemma unat_shape_size: "unat (shape_size s) = extent_product s mod 2 ^ 64"
  by (simp add: shape_size_count unat_of_nat)

definition prefix_size :: "shape \<Rightarrow> nat \<Rightarrow> nat" where
  "prefix_size s n = extent_product (take n s)"

lemma prefix_size_simps [simp]:
  "prefix_size s 0 = 1" "n < length s \<Longrightarrow> prefix_size s (Suc n) = prefix_size s n * unat (weight (s ! n))"
  by (simp_all add: prefix_size_def extent_product_def take_Suc_conv_app_nth)

lemma prefix_size_all: "prefix_size s (length s) = extent_product s"
  by (simp add: prefix_size_def)

lemma index_okD:
  assumes "index_ok index s" and "i < length s"
  shows "index ! i < weight (s ! i)" and "s ! i = Placeholder \<Longrightarrow> index ! i = 0"
  using assms by (auto simp: index_ok_def weight_def split: extent.splits if_splits)

text \<open>The linear index is the row-major number of the element, modulo \<open>2 ^ 64\<close>.\<close>

lemma to_linear_index_eq:
  assumes "index_ok index s"
  shows "to_linear_index index s = of_nat (prefix_linear index s (length s))"
proof (cases "s = []")
  case False
  have "scan_range n (\<lambda>i l. case s ! i of Placeholder \<Rightarrow> l | e \<Rightarrow> l * extent_value e + index ! i) 0 = of_nat (prefix_linear index s n)"
    if "n \<le> length s" for n
    using that index_okD(2) [OF assms] by (induction n) (simp_all split: extent.split)
  then show ?thesis using False by (simp add: to_linear_index_def)
qed (simp add: to_linear_index_def)

lemma prefix_linear_less:
  assumes "index_ok index s" and "n \<le> length s"
  shows "prefix_linear index s n < prefix_size s n"
  using assms(2)
proof (induction n)
  case (Suc n)
  then have "prefix_linear index s n + 1 \<le> prefix_size s n" by simp
  then have "(prefix_linear index s n + 1) * unat (weight (s ! n)) \<le> prefix_size s n * unat (weight (s ! n))" by (rule mult_right_mono) simp
  moreover have "unat (index ! n) < unat (weight (s ! n))" using index_okD(1) [OF assms(1), of n] Suc.prems by (simp add: word_less_nat_alt)
  ultimately show ?case using Suc.prems by simp
qed simp

lemma unat_to_linear_index:
  assumes "index_ok index s" and "extent_product s < 2 ^ 64"
  shows "unat (to_linear_index index s) = prefix_linear index s (length s)"
proof -
  have "prefix_linear index s (length s) < 2 ^ 64"
    using prefix_linear_less [OF assms(1) order_refl] assms(2) by (simp add: prefix_size_all)
  then show ?thesis by (simp add: to_linear_index_eq [OF assms(1)] unat_of_nat)
qed

text \<open>The loop from the last dimension to the first: what is left of the number is the linear index of the dimensions before.\<close>

definition from_linear_loop :: "shape \<Rightarrow> nat \<Rightarrow> hsize list \<Rightarrow> hsize \<Rightarrow> hsize list" where
  "from_linear_loop s n index k = fst (scan_reverse_range n
     (\<lambda>i (index, rest). case s ! i of Placeholder \<Rightarrow> (index, rest)
       | e \<Rightarrow> (index[i := rest mod extent_value e], rest div extent_value e)) (index, k))"

lemma from_linear_loop_simps [simp]:
  "from_linear_loop s 0 index k = index"
  "from_linear_loop s (Suc n) index k = (if s ! n = Placeholder then from_linear_loop s n index k
     else from_linear_loop s n (index[n := k mod extent_value (s ! n)]) (k div extent_value (s ! n)))"
  by (simp_all add: from_linear_loop_def split: extent.split)

lemma from_linear_loop_length [simp]: "length (from_linear_loop s n index k) = length index"
  by (induction n arbitrary: index k) simp_all

lemma from_linear_loop_after: "n \<le> i \<Longrightarrow> from_linear_loop s n index k ! i = index ! i"
  by (induction n arbitrary: index k) simp_all

lemma from_linear_loop_correct:
  assumes "n \<le> length s" and "length index = length s" and "\<And>i. i < n \<Longrightarrow> s ! i = Placeholder \<Longrightarrow> index ! i = 0"
    and "unat k < prefix_size s n"
  shows "prefix_linear (from_linear_loop s n index k) s n = unat k
    \<and> (\<forall>i < n. if s ! i = Placeholder then from_linear_loop s n index k ! i = 0
        else from_linear_loop s n index k ! i < extent_value (s ! i))"
  using assms
proof (induction n arbitrary: index k)
  case (Suc n)
  show ?case
  proof (cases "s ! n = Placeholder")
    case True
    then show ?thesis using Suc by (simp add: All_less_Suc from_linear_loop_after)
  next
    case False
    let ?e = "extent_value (s ! n)" and ?r = "from_linear_loop s n (index[n := k mod extent_value (s ! n)]) (k div extent_value (s ! n))"
    have w: "weight (s ! n) = ?e" using False by (simp add: weight_def split: extent.split)
    have k: "unat k < prefix_size s n * unat ?e" using Suc.prems by (simp add: w)
    then have e: "0 < ?e" by (cases "?e = 0") (simp_all add: word_gt_0)
    have "unat (k div ?e) < prefix_size s n" using k by (simp add: unat_div less_mult_imp_div_less)
    then have "prefix_linear ?r s n = unat (k div ?e) \<and> (\<forall>i < n. if s ! i = Placeholder then ?r ! i = 0 else ?r ! i < extent_value (s ! i))"
      using Suc.prems by (intro Suc.IH) (auto simp: nth_list_update)
    moreover have "?r ! n = k mod ?e" using Suc.prems by (simp add: from_linear_loop_after)
    ultimately show ?thesis using False e by (simp add: w All_less_Suc unat_div unat_mod word_mod_less_divisor)
  qed
qed simp

lemma from_linear_index_loop:
  "from_linear_index g k s = from_linear_loop s (length s) (map (\<lambda>i. if s ! i = Placeholder then 0 else g i) [0..<length s]) k"
  by (simp add: from_linear_index_def from_linear_loop_def)

lemma from_linear_index_ok:
  assumes "k < shape_size s" and "extent_product s < 2 ^ 64"
  shows "index_ok (from_linear_index g k s) s" and "to_linear_index (from_linear_index g k s) s = k"
proof -
  let ?z = "map (\<lambda>i. if s ! i = Placeholder then 0 else g i) [0..<length s]"
  have k: "unat k < extent_product s" using assms by (simp add: word_less_nat_alt unat_shape_size)
  have c: "prefix_linear (from_linear_loop s (length s) ?z k) s (length s) = unat k
    \<and> (\<forall>i < length s. if s ! i = Placeholder then from_linear_loop s (length s) ?z k ! i = 0
        else from_linear_loop s (length s) ?z k ! i < extent_value (s ! i))"
    using k by (intro from_linear_loop_correct) (simp_all add: prefix_size_all)
  then show ok: "index_ok (from_linear_index g k s) s" by (simp add: index_ok_def from_linear_index_loop)
  show "to_linear_index (from_linear_index g k s) s = k"
    using c by (simp only: to_linear_index_eq [OF ok]) (simp only: from_linear_index_loop, simp)
qed

text \<open>Two tuples with the same linear index are the same: the digits of a number are unique.\<close>

lemma prefix_linear_inj:
  assumes "index_ok a s" and "index_ok b s" and "n \<le> length s" and "prefix_linear a s n = prefix_linear b s n"
  shows "\<forall>i < n. a ! i = b ! i"
  using assms(3,4)
proof (induction n)
  case (Suc n)
  let ?w = "unat (weight (s ! n))"
  have a: "unat (a ! n) < ?w" and b: "unat (b ! n) < ?w"
    using index_okD(1) assms(1,2) Suc.prems by (auto simp: word_less_nat_alt)
  have eq: "prefix_linear a s n * ?w + unat (a ! n) = prefix_linear b s n * ?w + unat (b ! n)" using Suc.prems by simp
  have "(prefix_linear a s n * ?w + unat (a ! n)) mod ?w = unat (a ! n)" using a by simp
  moreover have "(prefix_linear b s n * ?w + unat (b ! n)) mod ?w = unat (b ! n)" using b by simp
  ultimately have u: "unat (a ! n) = unat (b ! n)" using eq by simp
  then have d: "a ! n = b ! n" by (simp add: word_unat_eq_iff)
  have "prefix_linear a s n = prefix_linear b s n" using u eq a by auto
  then show ?case using Suc d by (simp add: All_less_Suc)
qed simp

lemma to_linear_index_inj:
  assumes "index_ok a s" and "index_ok b s" and "extent_product s < 2 ^ 64" and "to_linear_index a s = to_linear_index b s"
  shows "a = b"
proof (rule nth_equalityI)
  have "prefix_linear a s (length s) = prefix_linear b s (length s)"
    using assms(4) unat_to_linear_index [OF assms(1,3)] unat_to_linear_index [OF assms(2,3)] by simp
  then show "a ! i = b ! i" if "i < length a" for i
    using prefix_linear_inj [OF assms(1,2) order_refl] assms that by (simp add: index_ok_def)
  show "length a = length b" using assms by (simp add: index_ok_def)
qed

lemma to_linear_index_less:
  assumes "index_ok index s" and "extent_product s < 2 ^ 64"
  shows "to_linear_index index s < shape_size s"
  using prefix_linear_less [OF assms(1) order_refl] assms(2)
  by (simp add: word_less_nat_alt unat_to_linear_index [OF assms] unat_shape_size prefix_size_all)

text \<open>There are as many tuples as the product of the extents says, so the bound cannot be dropped.\<close>

lemma index_ok_Cons:
  "index_ok index (e # s) \<longleftrightarrow> (\<exists>x xs. index = x # xs \<and> x < weight e \<and> index_ok xs s)"
  by (cases index) (auto simp: index_ok_def All_less_Suc2 weight_def split: extent.split)

lemma unat_hsize: "unat (x :: hsize) < 2 ^ 64"
  using unsigned_less [where ?'a = nat, of x] by simp

lemma card_below: "card {x :: hsize. x < w} = unat w" "finite {x :: hsize. x < w}"
proof -
  have "unat ` {x :: hsize. x < w} = {..<unat w}"
  proof (intro equalityI subsetI)
    fix n assume n: "n \<in> {..<unat w}"
    then have "n < 2 ^ 64" using unat_hsize [of w] by simp
    then have "unat (of_nat n :: hsize) = n" by (simp add: unat_of_nat)
    then show "n \<in> unat ` {x :: hsize. x < w}" using n by (intro image_eqI [of _ _ "of_nat n"]) (simp_all add: word_less_nat_alt)
  qed (auto simp: word_less_nat_alt)
  moreover have "inj_on unat {x :: hsize. x < w}" by (auto simp: inj_on_def word_unat_eq_iff)
  ultimately show "card {x :: hsize. x < w} = unat w" by (metis card_image card_lessThan)
qed simp

lemma card_index_ok: "finite {index. index_ok index s} \<and> card {index. index_ok index s} = extent_product s"
proof (induction s)
  case Nil
  have "{index. index_ok index []} = {[]}" by (auto simp: index_ok_def)
  then show ?case by simp
next
  case (Cons e s)
  have "{index. index_ok index (e # s)} = (\<lambda>(x, xs). x # xs) ` ({x. x < weight e} \<times> {xs. index_ok xs s})"
    by (auto simp: index_ok_Cons)
  moreover have "inj_on (\<lambda>(x, xs). x # xs) A" for A :: "(hsize \<times> hsize list) set" by (auto simp: inj_on_def)
  ultimately show ?case using Cons by (simp add: card_image card_cartesian_product card_below)
qed

lemma linear_index_bijective:
  "extent_product s < 2 ^ 64
    \<longleftrightarrow> bij_betw (\<lambda>index. to_linear_index index s) {index. index_ok index s} {k. k < shape_size s}"
proof
  assume fits: "extent_product s < 2 ^ 64"
  show "bij_betw (\<lambda>index. to_linear_index index s) {index. index_ok index s} {k. k < shape_size s}"
  proof (rule bij_betw_byWitness [where f' = "\<lambda>k. from_linear_index (\<lambda>_. 0) k s"])
    show "\<forall>index \<in> {index. index_ok index s}. from_linear_index (\<lambda>_. 0) (to_linear_index index s) s = index"
      using to_linear_index_less [OF _ fits] from_linear_index_ok [OF _ fits] to_linear_index_inj [OF _ _ fits] by auto
  qed (use to_linear_index_less [OF _ fits] from_linear_index_ok [OF _ fits] in auto)
next
  assume "bij_betw (\<lambda>index. to_linear_index index s) {index. index_ok index s} {k. k < shape_size s}"
  from bij_betw_same_card [OF this] have "extent_product s = unat (shape_size s)" by (simp add: card_index_ok card_below)
  then show "extent_product s < 2 ^ 64" using unat_hsize [of "shape_size s"] by simp
qed

text \<open>C27: Sizes and linear indices on 64 bits. The size of a shape is the product of its extents modulo \<open>2 ^ 64\<close>, and
  \<^verbatim>\<open>to_linear_index\<close> numbers the indices inside the shape one to one by the numbers below its size exactly if
  the product of the extents is below \<open>2 ^ 64\<close>. In such a shape an index has its row-major number as linear index, \<^verbatim>\<open>from_linear_index\<close> gives
  the index back, whatever the fresh memory of the index holds, and every number below the size is the linear index of exactly the
  index that it returns, which is inside the shape. In a larger shape, which the code does not reject, elements collide or the
  size does not count them.
\<close>

theorem linear_index_roundtrip:
  "unat (shape_size s) = extent_product s mod 2 ^ 64
    \<and> (extent_product s < 2 ^ 64
        \<longleftrightarrow> bij_betw (\<lambda>index. to_linear_index index s) {index. index_ok index s} {k. k < shape_size s})
    \<and> (extent_product s < 2 ^ 64 \<and> index_ok index s \<longrightarrow> to_linear_index index s < shape_size s
        \<and> unat (to_linear_index index s) = prefix_linear index s (length s)
        \<and> from_linear_index g (to_linear_index index s) s = index)
    \<and> (extent_product s < 2 ^ 64 \<and> k < shape_size s
        \<longrightarrow> index_ok (from_linear_index g k s) s \<and> to_linear_index (from_linear_index g k s) s = k)"
  using to_linear_index_less [of index s] from_linear_index_ok [of _ s g] to_linear_index_inj [of _ s index]
    unat_to_linear_index [of index s] unat_shape_size [of s] linear_index_bijective [of s] by blast

lemma linear_index_roundtrip_witness:
  "unat (to_linear_index [1, 0, 2] [Static 2, Placeholder, Dynamic 3]) = 5
   \<and> from_linear_index (\<lambda>i. 9) (to_linear_index [1, 0, 2] [Static 2, Placeholder, Dynamic 3]) [Static 2, Placeholder, Dynamic 3] = [1, 0, 2]
   \<and> to_linear_index (from_linear_index (\<lambda>i. 9) 4 [Static 2, Placeholder, Dynamic 3]) [Static 2, Placeholder, Dynamic 3] = 4
   \<and> \<not> bij_betw (\<lambda>index. to_linear_index index [Dynamic (2 ^ 33), Dynamic (2 ^ 33)])
         {index. index_ok index [Dynamic (2 ^ 33), Dynamic (2 ^ 33)]} {k. k < shape_size [Dynamic (2 ^ 33), Dynamic (2 ^ 33)]}"
proof -
  have size: "shape_size [Static 2, Placeholder, Dynamic 3] = 6" by (simp add: shape_size_eq)
  have ok: "index_ok [1, 0, 2] [Static 2, Placeholder, Dynamic 3]" by (simp add: index_ok_def All_less_Suc nth_Cons')
  have row: "prefix_linear [1, 0, 2] [Static 2, Placeholder, Dynamic 3] (length [Static 2, Placeholder, Dynamic 3]) = 5" by simp
  have large: "\<not> extent_product [Dynamic (2 ^ 33), Dynamic (2 ^ 33)] < 2 ^ 64" by simp
  show ?thesis
    using linear_index_roundtrip [of "[Static 2, Placeholder, Dynamic 3]" "[1, 0, 2]" "\<lambda>i. 9" 4]
      linear_index_roundtrip [of "[Dynamic (2 ^ 33), Dynamic (2 ^ 33)]" "[]" "\<lambda>i. 9" 0] size ok row large
    by simp
qed

text \<open>
  Dimensions without extent do not move the elements: an index with a component 0 put in for a placeholder has the same linear
  index in the shape with the placeholder, and the squeezed shape and index give the original back. So a tensor and its
  unsqueezed view read the same memory.
\<close>

lemma unsqueeze_eq:
  assumes "dimension (length s + 1) dim = Some p"
  shows "shape_unsqueeze s dim e = Some (take p s @ e # drop p s)" and "p \<le> length s"
proof -
  show p: "p \<le> length s" using assms by (auto simp: dimension_def split: if_splits)
  have "map ((!) s) [0..<p] = take p s" "map ((!) s) [p..<length s] = drop p s"
    using p by (auto intro: nth_equalityI)
  then show "shape_unsqueeze s dim e = Some (take p s @ e # drop p s)" using assms by (simp add: shape_unsqueeze_def)
qed

lemma map_around:
  assumes "p < length xs"
  shows "map ((!) xs) [0..<p] @ map ((!) xs) [p + 1..<length xs] = take p xs @ drop (p + 1) xs"
  using assms by (intro nth_equalityI) (auto simp: nth_append)

lemma index_unsqueeze_eq:
  assumes "dimension (length xs) dim = Some p"
  shows "index_unsqueeze xs dim = Some (take p xs @ drop (p + 1) xs)" "p < length xs"
proof -
  show p: "p < length xs" using assms by (auto simp: dimension_def split: if_splits)
  show "index_unsqueeze xs dim = Some (take p xs @ drop (p + 1) xs)"
    using assms map_around [OF p] by (simp add: index_unsqueeze_def)
qed

lemma shape_squeeze_eq:
  assumes "dimension (length xs) dim = Some p"
  shows "shape_squeeze xs dim = Some (take p xs @ drop (p + 1) xs)" "p < length xs"
proof -
  show p: "p < length xs" using assms by (auto simp: dimension_def split: if_splits)
  show "shape_squeeze xs dim = Some (take p xs @ drop (p + 1) xs)"
    using assms map_around [OF p] by (simp add: shape_squeeze_def)
qed

lemma prefix_linear_take_drop:
  assumes "p < length index" and "length index = length s" and "s ! p = Placeholder" and "index ! p = 0"
    and "n \<le> length s"
  shows "prefix_linear index s n = (if n \<le> p then prefix_linear (take p index @ drop (p + 1) index) (take p s @ drop (p + 1) s) n
      else prefix_linear (take p index @ drop (p + 1) index) (take p s @ drop (p + 1) s) (n - 1))"
  using assms(5)
proof (induction n)
  case (Suc n)
  let ?i = "take p index @ drop (p + 1) index" and ?s = "take p s @ drop (p + 1) s"
  consider "n < p" | "n = p" | m where "n = Suc m" "p \<le> m" by (metis Suc_pred' less_Suc_eq_le linorder_neqE_nat not_less0 gr_implies_not0 neq0_conv)
  then show ?case
  proof cases
    case 1
    then have "?i ! n = index ! n" "?s ! n = s ! n" using assms Suc.prems by (simp_all add: nth_append)
    then show ?thesis using 1 Suc by simp
  next
    case 2
    then show ?thesis using Suc assms by simp
  next
    case 3
    then have "?i ! m = index ! n" "?s ! m = s ! n" using assms Suc.prems by (simp_all add: nth_append)
    then show ?thesis using 3 Suc by simp
  qed
qed simp

lemma index_ok_squeeze:
  assumes "index_ok index s" and "p < length s"
  shows "index_ok (take p index @ drop (p + 1) index) (take p s @ drop (p + 1) s)"
  using assms by (auto simp: index_ok_def nth_append)

text \<open>C28: Squeezing a dimension without extent leaves every element where it is: the index without the component of that
  dimension (\<^verbatim>\<open>unsqueeze(index, dim, force)\<close>, which an unsqueezed expression uses to index its operand) is inside the squeezed
  shape and has the linear index that the full index has in the full shape, and both shapes have the same size. Unsqueezing a
  shape and squeezing it at the same dimension gives the shape back.
\<close>

theorem squeeze_keeps_linear_index:
  assumes "dimension (length s) dim = Some p" and "s ! p = Placeholder" and "index_ok index s"
  shows "\<exists>s' index'. shape_squeeze s dim = Some s' \<and> index_unsqueeze index dim = Some index'
    \<and> index_ok index' s' \<and> to_linear_index index' s' = to_linear_index index s \<and> shape_size s' = shape_size s
    \<and> (s' = take p s @ drop (p + 1) s) \<and> shape_unsqueeze s' dim Placeholder = Some s"
proof -
  let ?i = "take p index @ drop (p + 1) index" and ?s = "take p s @ drop (p + 1) s"
  have len: "length index = length s" using assms(3) by (simp add: index_ok_def)
  note sq = shape_squeeze_eq [OF assms(1)] and ix = index_unsqueeze_eq [OF assms(1) [folded len]]
  have ok: "index_ok ?i ?s" by (rule index_ok_squeeze [OF assms(3) sq(2)])
  have zero: "index ! p = 0" using index_okD(2) [OF assms(3) sq(2) assms(2)] .
  have ls: "length ?s = length s - 1" using sq(2) by simp
  have lin: "to_linear_index ?i ?s = to_linear_index index s"
    using prefix_linear_take_drop [OF ix(2) len assms(2) zero order_refl] sq(2)
    by (simp only: to_linear_index_eq [OF ok] to_linear_index_eq [OF assms(3)] ls) simp
  have whole: "s = take p s @ Placeholder # drop (p + 1) s" using id_take_nth_drop [OF sq(2)] assms(2) by simp
  have size: "shape_size ?s = shape_size s" by (subst (3) whole) (simp add: shape_size_eq)
  have "length ?s + 1 = length s" using sq(2) by simp
  then have "dimension (length ?s + 1) dim = Some p" using assms(1) by (simp only:)
  from unsqueeze_eq(1) [OF this, of Placeholder] have "shape_unsqueeze ?s dim Placeholder = Some s"
    using whole sq(2) by simp
  then show ?thesis using sq(1) ix(1) ok lin size by blast
qed

lemma squeeze_keeps_linear_index_witness:
  "\<exists>s' index'. shape_squeeze [Static 2, Placeholder, Dynamic 3] (-2) = Some s' \<and> index_unsqueeze [1, 0, 2] (-2) = Some index'
    \<and> index_ok index' s' \<and> to_linear_index index' s' = to_linear_index [1, 0, 2] [Static 2, Placeholder, Dynamic 3]
    \<and> shape_size s' = shape_size [Static 2, Placeholder, Dynamic 3]
    \<and> s' = take 1 [Static 2, Placeholder, Dynamic 3] @ drop (1 + 1) [Static 2, Placeholder, Dynamic 3]
    \<and> shape_unsqueeze s' (-2) Placeholder = Some [Static 2, Placeholder, Dynamic 3]"
proof (rule squeeze_keeps_linear_index)
  show "dimension (length [Static 2, Placeholder, Dynamic 3]) (-2) = Some 1" by (simp add: dimension_def)
  show "[Static 2, Placeholder, Dynamic 3] ! 1 = Placeholder" by simp
  show "index_ok [1, 0, 2] [Static 2, Placeholder, Dynamic 3]" by (simp add: index_ok_def All_less_Suc nth_Cons')
qed

end
