(* ===== verification/Cipher.thy ===== *)
theory Cipher
  imports Samplers Shape_Index
begin

text \<open>
  The stream cipher of \<^verbatim>\<open>crypto/cipher.hpp\<close> over a random number generator, and the converting spans of
  \<^verbatim>\<open>core/converting_limb_span.hpp\<close> through which the generator fills limbs of another size. A converted limb is
  written in parts, the least significant part first. Decryption is encryption again, and the lemmas show why it gives the
  plaintext back: the mask is a function of the position in the stream only (\<open>stream_mask\<close>).
\<close>

section \<open>Converting spans\<close>

text \<open>The limbs of the type \<open>'v\<close> are seen in a span of limbs of the type \<open>'a\<close>, of the same or of a smaller size.\<close>

definition converting_limb_size :: "'v::len itself \<Rightarrow> 'a::len itself \<Rightarrow> nat \<Rightarrow> nat" where
  "converting_limb_size V A inner_limb_size =
     (if LENGTH('v) = LENGTH('a) then inner_limb_size else limb_size_for V (inner_limb_size * LENGTH('a)))"

definition converting_write :: "nat \<Rightarrow> 'v::len word \<Rightarrow> 'a::len word list \<Rightarrow> 'a word list" where
  "converting_write i v inner =
     (if LENGTH('v) = LENGTH('a) then inner[i := ucast v]
      else
        let ratio = LENGTH('v) div LENGTH('a);
            begin_index = i * ratio;
            full_end_index = begin_index + ratio;
            end_index = (if full_end_index < length inner then full_end_index else length inner)
        in fst (scan_range_from begin_index end_index
             (\<lambda>i (inner, v). (inner[i := ucast v], drop_bit LENGTH('a) v)) (inner, v)))"

definition converting_extended_read :: "'a::len word list \<Rightarrow> nat \<Rightarrow> 'v::len word" where
  "converting_extended_read inner i =
     (if i < converting_limb_size TYPE('v) TYPE('a) (length inner)
      then if LENGTH('v) = LENGTH('a) then ucast (dynamic_value (limb_extended_read inner i))
        else
          let ratio = LENGTH('v) div LENGTH('a);
              begin_index = i * ratio;
              end_index = length inner
          in scan_range_from begin_index end_index
               (\<lambda>i v. ucast (dynamic_value (limb_extended_read inner i)) OR push_bit LENGTH('a) v) 0
      else 0)"

section \<open>The cipher\<close>

definition cipher_new :: "('s \<Rightarrow> 'v list \<times> 's) \<Rightarrow> ('p \<Rightarrow> 's) \<Rightarrow> 'p \<Rightarrow> ('s, 'v) number_generator" where
  "cipher_new engine from p = generator_new engine (from p)"

definition cipher_enc ::
    "'a::len word eval \<Rightarrow> ('s \<Rightarrow> 'v::len word list \<times> 's) \<Rightarrow> nat \<Rightarrow> (nat \<Rightarrow> 'a word) \<Rightarrow> 'a word bit_span \<Rightarrow> 'a word rspan
     \<Rightarrow> ('s, 'v word) number_generator \<Rightarrow> ('a word bit_span \<times> ('s, 'v word) number_generator) option" where
  "cipher_enc E engine block_size g result plaintext gen = do {
     ct_assert (limb_size result = rspan_limb_size plaintext);
     let (mask, gen) = generator_uniform engine block_size (converting_limb_size TYPE('v) TYPE('a) (limb_size result))
       converting_write (map g [0..<limb_size result]) gen;
     Some (num_bit_xor E result plaintext (Limb_span mask), gen) }"

definition cipher_dec ::
    "'a::len word eval \<Rightarrow> ('s \<Rightarrow> 'v::len word list \<times> 's) \<Rightarrow> nat \<Rightarrow> (nat \<Rightarrow> 'a word) \<Rightarrow> 'a word bit_span \<Rightarrow> 'a word rspan
     \<Rightarrow> ('s, 'v word) number_generator \<Rightarrow> ('a word bit_span \<times> ('s, 'v word) number_generator) option" where
  "cipher_dec E engine block_size g result ciphertext gen = cipher_enc E engine block_size g result ciphertext gen"

definition cipher_get_param :: "('s \<Rightarrow> 'p) \<Rightarrow> ('s, 'v) number_generator \<Rightarrow> 'p" where
  "cipher_get_param get_param gen = generator_get_param get_param gen"

definition cipher_set_param ::
    "('s \<Rightarrow> 'v list \<times> 's) \<Rightarrow> ('s \<Rightarrow> 'p \<Rightarrow> 's) \<Rightarrow> ('s, 'v) number_generator \<Rightarrow> 'p \<Rightarrow> ('s, 'v) number_generator" where
  "cipher_set_param engine set_param gen p = generator_set_param engine set_param gen p"

section \<open>The mask\<close>

text \<open>Limb \<open>j\<close> of a span that a converting span has filled with the words \<open>w\<close>.\<close>

definition converted :: "(nat \<Rightarrow> 'v::len word) \<Rightarrow> nat \<Rightarrow> 'a::len word" where
  "converted w j = (let ratio = LENGTH('v) div LENGTH('a)
     in ucast (drop_bit (LENGTH('a) * (j mod ratio)) (w (j div ratio))))"

lemma converting_parts:
  assumes "b + k \<le> length xs"
  shows "scan_range_from b (b + k) (\<lambda>i (inner, v). (inner[i := ucast v], drop_bit LENGTH('a) v)) (xs :: 'a::len word list, v :: 'v::len word)
    = (take b xs @ map (\<lambda>j. ucast (drop_bit (LENGTH('a) * j) v)) [0..<k] @ drop (b + k) xs, drop_bit (LENGTH('a) * k) v)"
  using assms
proof (induction k)
  case (Suc k)
  then show ?case
    by (simp add: list_update_append Cons_nth_drop_Suc [symmetric] add.commute [of _ "LENGTH('a) * k"])
qed simp

lemma div_eq_block: "j div r = i \<longleftrightarrow> i * r \<le> j \<and> j < i * r + r" if "0 < r" for i j r :: nat
proof
  assume "j div r = i"
  then show "i * r \<le> j \<and> j < i * r + r" using mod_less_divisor [OF that, of j] div_mult_mod_eq [of j r] by auto
next
  assume "i * r \<le> j \<and> j < i * r + r"
  then show "j div r = i" by (intro div_nat_eqI) (simp_all add: mult.commute)
qed

lemma converting_write_nth:
  assumes "LENGTH('v) = ratio * LENGTH('a)" and "0 < ratio" and "j < length xs"
  shows "converting_write i (v :: 'v::len word) (xs :: 'a::len word list) ! j
    = (if j div ratio = i then ucast (drop_bit (LENGTH('a) * (j mod ratio)) v) else xs ! j)"
proof -
  have r: "LENGTH('v) div LENGTH('a) = ratio" using assms(1) by simp
  consider "ratio = 1" | "i * ratio \<le> length xs" "ratio \<noteq> 1" | "length xs < i * ratio" "ratio \<noteq> 1" by linarith
  then show "converting_write i v xs ! j = (if j div ratio = i then ucast (drop_bit (LENGTH('a) * (j mod ratio)) v) else xs ! j)"
  proof cases
    case 1
    then show ?thesis using assms by (simp add: converting_write_def nth_list_update)
  next
    case 2
    let ?b = "i * ratio" and ?k = "min ratio (length xs - i * ratio)"
    have e: "(if ?b + ratio < length xs then ?b + ratio else length xs) = ?b + ?k" using 2 by auto
    have le: "?b + ?k \<le> length xs" using 2 by simp
    have ne: "LENGTH('v) \<noteq> LENGTH('a)" using assms(1) 2 by simp
    have w: "converting_write i v xs = take ?b xs @ map (\<lambda>j. ucast (drop_bit (LENGTH('a) * j) v)) [0..<?k] @ drop (?b + ?k) xs"
      using ne by (simp only: converting_write_def r Let_def e converting_parts [OF le] fst_conv if_False)
    have "j div ratio = i \<longleftrightarrow> ?b \<le> j \<and> j < ?b + ratio"
      by (rule div_eq_block [OF assms(2)])
    moreover have "j mod ratio = j - ?b" if "j div ratio = i" using that by (simp add: minus_div_mult_eq_mod [symmetric])
    ultimately show ?thesis using assms(3) 2 by (auto simp: w nth_append min_def)
  next
    case 3
    have "j div ratio < i" using 3 assms(3) by (simp add: less_mult_imp_div_less)
    moreover have "converting_write i v xs = xs"
      using 3 assms(1) by (simp add: converting_write_def r Let_def scan_range_from_def)
    ultimately show ?thesis by simp
  qed
qed

lemma length_converting_write [simp]: "length (converting_write i (v :: 'v::len word) (xs :: 'a::len word list)) = length xs"
proof -
  have "length (fst (fold (\<lambda>i (inner, v). (inner[i := ucast v], drop_bit LENGTH('a) v)) is (ys :: 'a word list, v :: 'v word))) = length ys"
    for "is" ys v by (induction "is" arbitrary: ys v) simp_all
  then show ?thesis by (simp add: converting_write_def scan_range_from_def Let_def)
qed

lemma for_converting_write:
  assumes "LENGTH('v) = ratio * LENGTH('a)" and "0 < ratio"
  shows "for_range (converting_limb_size TYPE('v) TYPE('a) (length xs)) (\<lambda>i. converting_write i (w i :: 'v::len word)) (xs :: 'a::len word list)
    = map (converted w) [0..<length xs]"
proof -
  let ?n = "converting_limb_size TYPE('v) TYPE('a) (length xs)"
  have r: "LENGTH('v) div LENGTH('a) = ratio" using assms(1) by simp
  have run: "length (for_range k (\<lambda>i. converting_write i (w i)) xs) = length xs
    \<and> (\<forall>j < length xs. for_range k (\<lambda>i. converting_write i (w i)) xs ! j = (if j div ratio < k then converted w j else xs ! j))" for k
    by (induction k) (auto simp: converting_write_nth [OF assms] converted_def r less_Suc_eq)
  have "j div ratio < ?n" if "j < length xs" for j
  proof (cases "ratio = 1")
    case False
    then have "?n = (length xs * LENGTH('a) + ratio * LENGTH('a) - 1) div (ratio * LENGTH('a))"
      using assms(1) by (simp add: converting_limb_size_def limb_size_for_def div_ceil_def)
    moreover have "j div ratio * (ratio * LENGTH('a)) + ratio * LENGTH('a) \<le> length xs * LENGTH('a) + ratio * LENGTH('a) - 1"
    proof -
      have "j div ratio * ratio < length xs" using that by (meson div_times_less_eq_dividend le_less_trans)
      then have "j div ratio * ratio * LENGTH('a) < length xs * LENGTH('a)" by simp
      then have "j div ratio * (ratio * LENGTH('a)) < length xs * LENGTH('a)" by (simp only: mult.assoc)
      then show ?thesis by linarith
    qed
    then have "(j div ratio * (ratio * LENGTH('a)) + ratio * LENGTH('a)) div (ratio * LENGTH('a))
        \<le> (length xs * LENGTH('a) + ratio * LENGTH('a) - 1) div (ratio * LENGTH('a))" by (rule div_le_mono)
    ultimately show ?thesis using assms(2) by simp
  qed (use that assms(1) in \<open>simp add: converting_limb_size_def\<close>)
  then show ?thesis using run [of ?n] by (intro nth_equalityI) auto
qed

text \<open>The mask of a cipher at a position of the stream, for limbs that are not larger than the words of the engine.\<close>

definition stream_mask :: "chacha \<Rightarrow> nat \<Rightarrow> nat \<Rightarrow> 'a::len word list" where
  "stream_mask c n k = map (converted (\<lambda>i. chacha_word_at c (n + i))) [0..<k]"

lemma length_stream_mask [simp]: "length (stream_mask c n k) = k"
  by (simp add: stream_mask_def)

lemma cipher_enc_at:
  assumes "sycl_ok F" and "chacha_ok c" and "32 = ratio * LENGTH('a::len)" and "limb_size result = rspan_limb_size plaintext"
  shows "cipher_enc E (chacha_call F) 16 g result (plaintext :: 'a word rspan) (generator_at (chacha_call F) 16 c n)
    = Some (num_bit_xor E result plaintext (Limb_span (stream_mask c n (limb_size result))),
        generator_at (chacha_call F) 16 c (n + converting_limb_size TYPE(32) TYPE('a) (limb_size result)))"
proof -
  have "0 < ratio" using assms(3) by (cases ratio) simp_all
  then show ?thesis
    using for_converting_write [of ratio "map g [0..<limb_size result]" "\<lambda>i. chacha_word_at c (n + i)"] assms(3,4)
    by (simp add: cipher_enc_def ct_assert_def chacha_engine.uniform_at stream_chacha [OF assms(1,2)] stream_mask_def)
qed

section \<open>Encryption and decryption\<close>

lemma get_int_Limb_span: "get_int E (Limb_span limbs) = limbs_int (limbs :: 'a::len word list)"
  by (simp add: get_int_def stream_int_def limbs_int_nth) (rule limbs_val_cong, simp)

text \<open>Twice the mask is the plaintext.\<close>

lemma enc_dec_limbs:
  assumes "sycl_ok E" and "sycl_ok F" and "span_shape (b :: 'a::len word bit_span)" and "length r = limb_size b" and "length m = limb_size b"
  shows "num_bit_xor E b (Limb_span (data (num_bit_xor F (limb_array_of r) plaintext (Limb_span m)))) (Limb_span m)
    = store b (get_int F plaintext)"
proof -
  have len: "length (data b) = limb_size b" using assms(3) by (simp add: span_shape_def)
  have lr: "length (data (limb_array_of r)) = limb_size (limb_array_of r)" by simp
  let ?x = "get_int F plaintext" and ?m = "limbs_int m"
  have c: "limbs_int (data (store (limb_array_of r) (?x XOR ?m))) = (?x XOR ?m) mod 2 ^ (LENGTH('a) * limb_size b)"
    using limbs_int_store_unnormal [of "limb_array_of r" "?x XOR ?m"] assms(4) by simp
  have "num_bit_xor E b (Limb_span (data (num_bit_xor F (limb_array_of r) plaintext (Limb_span m)))) (Limb_span m)
      = store b (((?x XOR ?m) mod 2 ^ (LENGTH('a) * limb_size b)) XOR ?m)"
    by (simp add: num_bitwise_eq(3) [OF assms(1) len] num_bitwise_eq(3) [OF assms(2) lr] get_int_Limb_span c)
  also have "\<dots> = store b ?x"
    by (rule store_cong, simp add: bit_eq_iff bit_take_bit_iff bit_xor_iff flip: take_bit_eq_mod, blast)
  finally show ?thesis .
qed

text \<open>C19: Decryption gives back the plaintext. A cipher for any key and nonce, at any position of its stream and for limbs of any
  size that divides the words of the engine, encrypts an integer of any size and signedness, whatever is in its
  local memory, and stands further on in the stream by the words it has used; another cipher at the same position, on another
  device, decrypts the limbs to the same integer, in its normal form, and arrives at the same position, so the next pair of
  calls works again. A new cipher stands at position 0.\<close>

theorem cipher_roundtrip:
  assumes "sycl_ok E" and "sycl_ok F" and "sycl_ok E'" and "sycl_ok F'" and "chacha_ok c" and "32 = ratio * LENGTH('a)"
    and "bigint_ok p" and "span_shape b" and "bit_size b = bit_size p" and "signedness b = signedness p" and "length r = limb_size p"
  shows "\<exists>m x y. m = n + converting_limb_size TYPE(32) TYPE('a) (limb_size p)
    \<and> cipher_enc E (chacha_call E') 16 g (limb_array_of r) (Bits (p :: 'a::len word bit_span)) (generator_at (chacha_call E') 16 c n)
        = Some (x, generator_at (chacha_call E') 16 c m)
    \<and> cipher_dec F (chacha_call F') 16 h b (Limb_span (data x)) (generator_at (chacha_call F') 16 c n)
        = Some (y, generator_at (chacha_call F') 16 c m)
    \<and> span_int y = span_int p \<and> bigint_ok y
    \<and> cipher_new (chacha_call E') (\<lambda>_. c) q = generator_at (chacha_call E') 16 c 0"
proof -
  have size: "limb_size b = limb_size p" using assms(9) by (simp add: limb_size_def)
  let ?m = "stream_mask c n (limb_size p) :: 'a word list"
  let ?x = "num_bit_xor E (limb_array_of r) (Bits p) (Limb_span ?m)"
  have "length (data (limb_array_of r)) = limb_size (limb_array_of r)" by simp
  from num_bitwise_eq(3) [OF assms(1) this, of "Bits p" "Limb_span ?m"] have lx: "length (data ?x) = limb_size p"
    using assms(11) by simp
  have enc: "cipher_enc E (chacha_call E') 16 g (limb_array_of r) (Bits p) (generator_at (chacha_call E') 16 c n)
      = Some (?x, generator_at (chacha_call E') 16 c (n + converting_limb_size TYPE(32) TYPE('a) (limb_size p)))"
    using cipher_enc_at [OF assms(3,5,6), of "limb_array_of r" "Bits p" E g n] assms(11) by simp
  have dec: "cipher_dec F (chacha_call F') 16 h b (Limb_span (data ?x)) (generator_at (chacha_call F') 16 c n)
      = Some (num_bit_xor F b (Limb_span (data ?x)) (Limb_span ?m), generator_at (chacha_call F') 16 c (n + converting_limb_size TYPE(32) TYPE('a) (limb_size p)))"
    using cipher_enc_at [OF assms(4,5,6), of b "Limb_span (data ?x)" F h n] lx size by (simp add: cipher_dec_def)
  have y: "num_bit_xor F b (Limb_span (data ?x)) (Limb_span ?m) = store b (span_int p)"
    using enc_dec_limbs [OF assms(2,1,8), of r ?m "Bits p"] assms(7,11) size by (simp add: bigint_get [OF assms(1)])
  have range: "in_range b (span_int p)" using span_int_in_range [of p] unfolding in_range_def assms(9,10) .
  have "bigint_ok (store b (span_int p))" using span_shape_store [OF assms(8)] span_normal_store [OF assms(8) range] by (simp add: bigint_ok_def)
  then show ?thesis
    using enc dec span_int_store_eq [OF assms(8) range] chacha_engine.new_at [of E' c] by (auto simp: y cipher_new_def)
qed

lemma cipher_roundtrip_witness:
  "\<exists>x y gen. cipher_enc sycl_device (chacha_call sycl_device) 16 (\<lambda>_. 7) (limb_array_of [1, 2]) (Bits (sample [1, 255]))
      (generator_at (chacha_call sycl_device) 16 (chacha_compiletime 20 3 1) 15) = Some (x, gen)
    \<and> cipher_dec Consteval (chacha_call Consteval) 16 (\<lambda>_. 9) (sample [0, 0]) (Limb_span (data x))
      (generator_at (chacha_call Consteval) 16 (chacha_compiletime 20 3 1) 15)
      = Some (y, generator_at (chacha_call Consteval) 16 (chacha_compiletime 20 3 1) 16)
    \<and> span_int y = 65281"
proof -
  let ?c = "chacha_compiletime 20 3 1"
  have ok: "chacha_ok ?c" using chacha_compiletime_ok [of 20 1 3] by simp
  have c: "sycl_ok (Consteval :: 8 word eval)" "sycl_ok (Consteval :: 32 word eval)" by simp_all
  have l: "converting_limb_size TYPE(32) TYPE(8) (Suc (Suc 0)) = 1" by (simp add: converting_limb_size_def limb_size_for_def div_ceil_def)
  have "(32 :: nat) = 4 * LENGTH(8)" by simp
  from cipher_roundtrip [OF sycl_ok_device c(1) sycl_ok_device c(2) ok this, of "sample [1, 255]" "sample [0, 0]" "[1, 2]" 15 "\<lambda>_. 7" "\<lambda>_. 9" "()"]
  show ?thesis by (auto simp: l)
qed

text \<open>
  Reading through a converting span is not the inverse of writing through it: the first limb read becomes the most significant
  part, and every limb up to the end of the span is folded in. The program only writes through these spans.
\<close>

lemma converting_read_is_reversed:
  "converting_write 0 (0x0403 :: 16 word) [0, 0] = [3, 4 :: 8 word]"
  "converting_extended_read [3, 4 :: 8 word] 0 = (0x0304 :: 16 word)"
  by code_simp+

end
