(* ===== verification/Expr_Random.thy ===== *)
theory Expr_Random
  imports Cipher
begin

text \<open>
  Random numbers and ciphers of the elements of tensors. Three parts of the program make one generator per element
  or batch from one key: the queue gives every element of an expression a generator (\<^verbatim>\<open>comp/queue.hpp\<close>), a generator
  expression may be indexed by an offset (\<^verbatim>\<open>expr/random/number_generator.hpp\<close>), and a cipher expression starts a cipher for every
  batch of elements (\<^verbatim>\<open>expr/crypto/cipher.hpp\<close>). They differ in where the index goes: into the counter of the engine, or into
  its nonce. The lemmas give the position in the stream of the engine (\<open>generator_at\<close>) that each one starts at.
\<close>

section \<open>An index as limbs\<close>

text \<open>\<^verbatim>\<open>bit_copy(counter, size_limb_span{index})\<close> into a local array; \<open>hmpc::size\<close> has 64 bits.\<close>

definition index_limbs :: "chacha_word eval \<Rightarrow> chacha_word list \<Rightarrow> hsize \<Rightarrow> chacha_word list" where
  "index_limbs E limbs index = data (num_bit_copy E (limb_array_of limbs) (Size_limbs 64 index))"

definition copy_limbs :: "chacha_word eval \<Rightarrow> chacha_word list \<Rightarrow> chacha_word list \<Rightarrow> chacha_word list" where
  "copy_limbs E limbs source = data (num_bit_copy E (limb_array_of limbs) (Limb_span source))"

section \<open>Cipher storage\<close>

record cipher_storage =
  cipher_key :: "chacha_word list"
  cipher_nonce :: "chacha_word list"

definition cipher_storage_new ::
    "chacha_word eval \<Rightarrow> (nat \<Rightarrow> chacha_word) \<Rightarrow> nat \<Rightarrow> chacha_word list \<Rightarrow> chacha_word list \<Rightarrow> cipher_storage" where
  "cipher_storage_new E g nonce_size key nonce =
     \<lparr>cipher_key = copy_limbs E (map g [0..<8]) key, cipher_nonce = copy_limbs E (map g [0..<nonce_size]) nonce\<rparr>"

definition storage_cipher ::
    "chacha_word eval \<Rightarrow> (nat \<Rightarrow> chacha_word) \<Rightarrow> nat \<Rightarrow> nat \<Rightarrow> nat \<Rightarrow> cipher_storage \<Rightarrow> hsize \<Rightarrow> (chacha, chacha_word) number_generator" where
  "storage_cipher E g rounds nonce_size counter_size storage index =
     cipher_new (chacha_call E) (chacha_from rounds nonce_size counter_size)
       \<lparr>param_key = cipher_key storage, param_nonce = cipher_nonce storage,
        param_counter = index_limbs E (map g [0..<counter_size]) index\<rparr>"

section \<open>Generators of the elements\<close>

record generator_storage =
  storage_key :: "chacha_word list"
  storage_size :: hsize
  storage_offset :: hsize

definition generator_expression :: "chacha_word list \<Rightarrow> hsize list \<Rightarrow> shape \<Rightarrow> chacha_word list \<times> hsize" where
  "generator_expression key offset_index offset_shape = (key, to_linear_index offset_index offset_shape)"

definition generator_storage_new ::
    "chacha_word eval \<Rightarrow> (nat \<Rightarrow> chacha_word) \<Rightarrow> chacha_word list \<times> hsize \<Rightarrow> shape \<Rightarrow> generator_storage" where
  "generator_storage_new E g rng s =
     \<lparr>storage_key = copy_limbs E (map g [0..<8]) (fst rng), storage_size = shape_size s, storage_offset = snd rng\<rparr>"

text \<open>The sum and the product are computed in \<open>hmpc::size\<close>. The value \<open>None\<close> is the failed device assertion
  \<^verbatim>\<open>index < size\<close>: a build without assertions does not check it, and goes on with the nonce of another element and offset.\<close>

definition storage_generator ::
    "chacha_word eval \<Rightarrow> (nat \<Rightarrow> chacha_word) \<Rightarrow> nat \<Rightarrow> nat \<Rightarrow> nat \<Rightarrow> generator_storage \<Rightarrow> hsize
     \<Rightarrow> (chacha, chacha_word) number_generator option" where
  "storage_generator E g rounds nonce_size counter_size storage index =
     (if index < storage_size storage then
        let nonce = index_limbs E (map g [0..<nonce_size])
              (index + storage_size storage * storage_offset storage)
        in Some (generator_new (chacha_call E) (chacha_from rounds nonce_size counter_size
             \<lparr>param_key = storage_key storage, param_nonce = nonce, param_counter = replicate counter_size 0\<rparr>))
      else None)"

section \<open>The queue\<close>

text \<open>The state of the queue's generators: a key, and a nonce that every executed expression moves on.\<close>

record queue_rng =
  queue_key :: "chacha_word list"
  queue_nonce :: "chacha_word list"

definition queue_new :: "nat \<Rightarrow> chacha_word list \<Rightarrow> queue_rng" where
  "queue_new nonce_size key = \<lparr>queue_key = key, queue_nonce = replicate nonce_size 0\<rparr>"

definition capability_params ::
    "chacha_word eval \<Rightarrow> nat \<Rightarrow> queue_rng \<Rightarrow> hsize \<Rightarrow> chacha_param" where
  "capability_params E counter_size rng_data index =
     (let counter = index_limbs E (replicate counter_size 0) index
      in \<lparr>param_key = queue_key rng_data, param_nonce = queue_nonce rng_data, param_counter = counter\<rparr>)"

definition element_generator ::
    "chacha_word eval \<Rightarrow> nat \<Rightarrow> nat \<Rightarrow> nat \<Rightarrow> queue_rng \<Rightarrow> hsize \<Rightarrow> (chacha, chacha_word) number_generator" where
  "element_generator E rounds nonce_size counter_size rng_data index =
     generator_new (chacha_call E) (chacha_from rounds nonce_size counter_size (capability_params E counter_size rng_data index))"

definition add_capability_data :: "chacha_word eval \<Rightarrow> queue_rng \<Rightarrow> hsize \<Rightarrow> queue_rng \<times> queue_rng" where
  "add_capability_data E rng s_size =
     (rng, rng\<lparr>queue_nonce :=
       data (fst (num_add_assign E (limb_array_of (queue_nonce rng)) (Size_limbs 64 s_size) (Const 0)))\<rparr>)"

section \<open>Where each generator starts\<close>

lemma limb_of_limbs_int: "i < length xs \<Longrightarrow> limb_of (limbs_int xs) i = xs ! i"
  unfolding limbs_int_nth by (rule limb_of_limbs_val)

lemma copy_limbs_eq:
  assumes "sycl_ok E" and "length limbs = length source"
  shows "copy_limbs E limbs source = source"
proof -
  have "length (data (limb_array_of limbs)) = limb_size (limb_array_of limbs)" by simp
  from num_bitwise_eq(5) [OF assms(1) this, of "Limb_span source"] have
    "copy_limbs E limbs source = map (limb_of (limbs_int source)) [0..<length source]"
    by (simp add: copy_limbs_def get_int_Limb_span data_store_limb_array assms(2))
  also have "\<dots> = source" by (rule nth_equalityI) (simp_all add: limb_of_limbs_int)
  finally show ?thesis .
qed

lemma index_limbs_eq:
  assumes "sycl_ok E"
  shows "index_limbs E limbs index = counter_limbs (length limbs) (uint index)"
proof -
  have "length (data (limb_array_of limbs)) = limb_size (limb_array_of limbs)" by simp
  moreover have "get_int E (Size_limbs 64 index :: chacha_word rspan) = uint index"
    using uint_lt2p [of index] by (simp add: get_int_rspan_int [OF assms] limb_size_for_def div_ceil_def)
  ultimately show ?thesis
    using num_bitwise_eq(5) [OF assms, of "limb_array_of limbs" "Size_limbs 64 index"]
    by (simp add: index_limbs_def data_store_limb_array counter_limbs_def)
qed

text \<open>The engine for a key and a nonce with the counter 0, and the generator that starts at a later block of it.\<close>

definition keyed_engine :: "nat \<Rightarrow> nat \<Rightarrow> nat \<Rightarrow> chacha_word list \<Rightarrow> chacha_word list \<Rightarrow> chacha" where
  "keyed_engine rounds nonce_size counter_size key nonce =
     chacha_from rounds nonce_size counter_size \<lparr>param_key = key, param_nonce = nonce, param_counter = replicate counter_size 0\<rparr>"

definition engine_sizes :: "nat \<Rightarrow> nat \<Rightarrow> nat \<Rightarrow> bool" where
  "engine_sizes rounds nonce_size counter_size \<longleftrightarrow> 8 \<le> rounds \<and> even rounds \<and> 0 < nonce_size \<and> 0 < counter_size
     \<and> counter_size + nonce_size = 4"

lemma limbs_int_zeros: "limbs_int (replicate k (0 :: 32 word)) = 0"
proof -
  have "(\<And>i. i < n \<Longrightarrow> f i = 0) \<Longrightarrow> limbs_val f n = 0" for f :: "nat \<Rightarrow> 32 word" and n by (induction n) simp_all
  then show ?thesis by (simp add: limbs_int_nth)
qed

lemma keyed_engine:
  assumes "engine_sizes r n k" and "length key = 8" and "length nonce = n"
  shows "chacha_ok (keyed_engine r n k key nonce)" and "chacha_counter (keyed_engine r n k key nonce) = 0"
    and "chacha_get_param (keyed_engine r n k key nonce) = \<lparr>param_key = key, param_nonce = nonce, param_counter = replicate k 0\<rparr>"
    and "chacha_at (keyed_engine r n k key nonce) x
      = chacha_from r n k \<lparr>param_key = key, param_nonce = nonce, param_counter = counter_limbs k x\<rparr>"
proof -
  let ?p = "\<lparr>param_key = key, param_nonce = nonce, param_counter = replicate k 0\<rparr>"
  have sel: "chacha_rounds (keyed_engine r n k key nonce) = r" "chacha_nonce_size (keyed_engine r n k key nonce) = n"
    "chacha_counter_size (keyed_engine r n k key nonce) = k" by (simp_all add: keyed_engine_def chacha_from_def)
  have "param_ok (chacha_from r n k ?p) ?p" using assms by (simp add: param_ok_def chacha_from_def)
  then show get: "chacha_get_param (keyed_engine r n k key nonce) = ?p" unfolding keyed_engine_def by (rule chacha_get_param_from)
  show "chacha_ok (keyed_engine r n k key nonce)"
    unfolding keyed_engine_def by (rule chacha_from_ok) (use assms(1) in \<open>simp_all add: engine_sizes_def\<close>)
  show "chacha_counter (keyed_engine r n k key nonce) = 0" by (simp add: chacha_counter_def get limbs_int_zeros)
  show "chacha_at (keyed_engine r n k key nonce) x
      = chacha_from r n k \<lparr>param_key = key, param_nonce = nonce, param_counter = counter_limbs k x\<rparr>"
    by (simp add: chacha_at_def get sel)
qed

lemma generator_counter:
  assumes "sycl_ok E" and "engine_sizes r n k" and "length key = 8" and "length nonce = n"
  shows "generator_new (chacha_call E) (chacha_from r n k \<lparr>param_key = key, param_nonce = nonce, param_counter = counter_limbs k (int i)\<rparr>)
    = generator_at (chacha_call E) 16 (keyed_engine r n k key nonce) (16 * i)"
  using stream_chacha(1) [OF assms(1) keyed_engine(1) [OF assms(2-4)], of i] keyed_engine(2,4) [OF assms(2-4)]
    chacha_engine.new_at [of E "chacha_at (keyed_engine r n k key nonce) (int i)"]
  by (simp add: generator_at_def stream_engine_def)

lemma storage_cipher_at:
  assumes "sycl_ok E" and "engine_sizes r n k" and "length key = 8" and "length nonce = n" and "i < 2 ^ 64"
  shows "storage_cipher E g r n k (cipher_storage_new E g n key nonce) (of_nat i)
    = generator_at (chacha_call E) 16 (keyed_engine r n k key nonce) (16 * i)"
proof -
  have "uint (of_nat i :: hsize) = int i" using assms(5) by (simp add: unsigned_of_nat take_bit_eq_mod)
  then show ?thesis
    using generator_counter [OF assms(1-4), of i] assms(3,4)
    by (simp add: storage_cipher_def cipher_new_def cipher_storage_new_def copy_limbs_eq [OF assms(1)] index_limbs_eq [OF assms(1)])
qed

lemma element_generator_at:
  assumes "sycl_ok E" and "engine_sizes r n k" and "length (queue_key q) = 8" and "length (queue_nonce q) = n" and "i < 2 ^ 64"
  shows "element_generator E r n k q (of_nat i)
    = generator_at (chacha_call E) 16 (keyed_engine r n k (queue_key q) (queue_nonce q)) (16 * i)"
proof -
  have "uint (of_nat i :: hsize) = int i" using assms(5) by (simp add: unsigned_of_nat take_bit_eq_mod)
  then show ?thesis
    using generator_counter [OF assms(1-4), of i]
    by (simp add: element_generator_def capability_params_def index_limbs_eq [OF assms(1)])
qed

section \<open>Which words the generators share\<close>

text \<open>A counter as a nonce: the nonces of different indices differ, and then no block of one generator is made from the state of a block of another.\<close>

text \<open>The number that the nonce of an element counts.\<close>

definition storage_position :: "shape \<Rightarrow> hsize \<Rightarrow> hsize \<Rightarrow> nat" where
  "storage_position s j i = unat i + unat (shape_size s) * unat j"

lemma storage_generator_at:
  assumes "sycl_ok E" and "engine_sizes r n k" and "length key = 8" and "i < shape_size s"
    and "storage_position s j i < 2 ^ 64"
  shows "storage_generator E g r n k (generator_storage_new E g (key, j) s) i
    = Some (generator_at (chacha_call E) 16 (keyed_engine r n k key (counter_limbs n (int (storage_position s j i)))) 0)"
proof -
  have "i + shape_size s * j = of_nat (storage_position s j i)" by (simp add: storage_position_def)
  then have "uint (i + shape_size s * j) = int (storage_position s j i)"
    using assms(5) by (simp add: unsigned_of_nat take_bit_eq_mod)
  moreover have "length key = 8 \<Longrightarrow> copy_limbs E (map g [0..<8]) key = key" by (simp add: copy_limbs_eq [OF assms(1)])
  moreover have "counter_limbs k 0 = replicate k 0" by (intro nth_equalityI) (simp_all add: counter_limbs_def limb_of_def)
  ultimately show ?thesis
    using generator_counter [OF assms(1,2), of key "counter_limbs n (int (storage_position s j i))" 0] assms(3,4)
    by (simp add: storage_generator_def generator_storage_new_def index_limbs_eq [OF assms(1)] Let_def)
qed

lemma keyed_states_differ:
  assumes "engine_sizes r n k" and "length key = 8" and "length nonce = n" and "length nonce' = n" and "nonce \<noteq> nonce'"
  shows "chacha_state (chacha_at (keyed_engine r n k key nonce) x) \<noteq> chacha_state (chacha_at (keyed_engine r n k key nonce') y)"
proof -
  have "chacha_state (chacha_at (keyed_engine r n k key m) x) = chacha_constants @ key @ counter_limbs k x @ m" if "length m = n" for m x
  proof -
    let ?p = "\<lparr>param_key = key, param_nonce = m, param_counter = counter_limbs k x\<rparr>"
    have "param_ok (chacha_from r n k ?p) ?p" using assms that by (simp add: param_ok_def chacha_from_def)
    from chacha_from_state [OF this] show ?thesis using keyed_engine(4) [OF assms(1,2) that] by simp
  qed
  then show ?thesis using assms(3-5) by simp
qed

lemma counter_limbs_inj:
  assumes "counter_limbs n (int a) = counter_limbs n (int b)" and "a < 2 ^ (32 * n)" and "b < 2 ^ (32 * n)"
  shows "a = b"
proof -
  have "int a mod 2 ^ (32 * n) = int b mod 2 ^ (32 * n)" using assms(1) limbs_int_counter_limbs by metis
  moreover have "int a < 2 ^ (32 * n)" "int b < 2 ^ (32 * n)" using assms(2,3) by (metis of_nat_less_iff of_nat_power of_nat_numeral)+
  ultimately show ?thesis by simp
qed

lemma offset_index_inj:
  assumes "i < s" and "i' < s" and "i + s * j = i' + s * (j' :: nat)"
  shows "i = i' \<and> j = j'"
proof -
  have "(i + s * j) mod s = i" "(i' + s * j') mod s = i'" "(i + s * j) div s = j" "(i' + s * j') div s = j'" using assms(1,2) by simp_all
  then show ?thesis using assms(3) by metis
qed

text \<open>C26: Generators that are indexed by their nonce never share a block. An element of a shape at one offset and another element or
  another offset get engines whose state is different at every position of their streams, so that the blocks of the two are
  made from different inputs, as long as the indices fit into the nonce; every generator starts at the beginning
  of its stream, and an index outside the shape fails the device assertion (where assertions are compiled in).\<close>

theorem storage_generators_disjoint:
  assumes "sycl_ok E" and "engine_sizes r n k" and "length key = 8" and "i < shape_size s" and "i' < shape_size s"
    and "(i, j) \<noteq> (i', j')" and "unat i + unat (shape_size s) * unat j < 2 ^ 64" and "unat i' + unat (shape_size s) * unat j' < 2 ^ 64"
    and "unat i + unat (shape_size s) * unat j < 2 ^ (32 * n)" and "unat i' + unat (shape_size s) * unat j' < 2 ^ (32 * n)"
  shows "\<exists>c d. storage_generator E g r n k (generator_storage_new E g (key, j) s) i = Some (generator_at (chacha_call E) 16 c 0)
    \<and> storage_generator E g r n k (generator_storage_new E g (key, j') s) i' = Some (generator_at (chacha_call E) 16 d 0)
    \<and> (\<forall>x y. chacha_state (stream_engine (chacha_call E) c x) \<noteq> chacha_state (stream_engine (chacha_call E) d y))
    \<and> storage_generator E g r n k (generator_storage_new E g (key, j) s) (shape_size s) = None"
proof -
  let ?c = "\<lambda>x. keyed_engine r n k key (counter_limbs n (int x))"
  let ?p = "storage_position s j i" and ?q = "storage_position s j' i'"
  note below = assms(7-10) [folded storage_position_def]
  have ok: "chacha_ok (?c x)" for x by (rule keyed_engine(1) [OF assms(2,3)]) simp
  have "unat i < unat (shape_size s)" "unat i' < unat (shape_size s)" using assms(4,5) by (simp_all add: word_less_nat_alt)
  then have "?p \<noteq> ?q"
    using offset_index_inj [of "unat i" "unat (shape_size s)" "unat i'" "unat j" "unat j'"] assms(6)
    by (auto simp: storage_position_def word_unat_eq_iff)
  then have "counter_limbs n (int ?p) \<noteq> counter_limbs n (int ?q)" using counter_limbs_inj [OF _ below(3,4)] by blast
  then have "chacha_state (stream_engine (chacha_call E) (?c ?p) x) \<noteq> chacha_state (stream_engine (chacha_call E) (?c ?q) y)" for x y
    unfolding stream_chacha(1) [OF assms(1) ok] by (intro keyed_states_differ [OF assms(2,3)]) simp_all
  moreover have "storage_generator E g r n k (generator_storage_new E g (key, j) s) (shape_size s) = None"
    by (simp add: storage_generator_def generator_storage_new_def)
  ultimately show ?thesis
    using storage_generator_at [OF assms(1,2,3,4) below(1)] storage_generator_at [OF assms(1,2,3,5) below(2)] by blast
qed

lemma storage_generators_disjoint_witness:
  "\<exists>c d. storage_generator sycl_device (\<lambda>_. 7) 20 3 1 (generator_storage_new sycl_device (\<lambda>_. 7) (replicate 8 5, 0) [Static 2]) 1
      = Some (generator_at (chacha_call sycl_device) 16 c 0)
    \<and> storage_generator sycl_device (\<lambda>_. 7) 20 3 1 (generator_storage_new sycl_device (\<lambda>_. 7) (replicate 8 5, 1) [Static 2]) 0
      = Some (generator_at (chacha_call sycl_device) 16 d 0)
    \<and> chacha_state (stream_engine (chacha_call sycl_device) c 3) \<noteq> chacha_state (stream_engine (chacha_call sycl_device) d 4)"
proof -
  have size: "shape_size [Static 2] = 2" by (simp add: shape_size_eq)
  have sizes: "engine_sizes 20 3 1" by (simp add: engine_sizes_def)
  have "(1 :: hsize) < 2" by simp
  then show ?thesis
    using storage_generators_disjoint [OF sycl_ok_device sizes, of "replicate 8 5" 1 "[Static 2]" 0 0 1 "\<lambda>_. 7"] by (auto simp: size)
qed

text \<open>C38: Generators that are indexed by their counter overlap. The queue gives element \<open>i\<close> of an expression the generator that starts at
  block \<open>i\<close> of one stream, so the words that an element draws after its first block are the words that the next element draws
  first: elements that need more than 16 words are not independent of each other.\<close>

theorem queue_generators_overlap:
  assumes "sycl_ok E" and "engine_sizes r n k" and "length (queue_key q) = 8" and "length (queue_nonce q) = n" and "i + 1 < 2 ^ 64"
    and "length a = 16 + length b"
  shows "drop 16 (fst (uniform_limbs (chacha_call E) 16 a (element_generator E r n k q (of_nat i))))
    = fst (uniform_limbs (chacha_call E) 16 b (element_generator E r n k q (of_nat (i + 1))))"
proof -
  have ok: "chacha_ok (keyed_engine r n k (queue_key q) (queue_nonce q))" by (rule keyed_engine(1) [OF assms(2-4)])
  have "i < 2 ^ 64" using assms(5) by simp
  note at = element_generator_at [OF assms(1-4) this] element_generator_at [OF assms(1-5)]
  show ?thesis
    unfolding at uniform_limbs_at [OF assms(1) ok] by (rule nth_equalityI) (simp_all add: assms(6) ac_simps)
qed

lemma queue_generators_overlap_witness:
  "drop 16 (fst (uniform_limbs (chacha_call sycl_device) 16 (replicate 20 0) (element_generator sycl_device 20 3 1 (queue_new 3 (replicate 8 5)) 0)))
   = fst (uniform_limbs (chacha_call sycl_device) 16 (replicate 4 0) (element_generator sycl_device 20 3 1 (queue_new 3 (replicate 8 5)) 1))"
  using queue_generators_overlap [OF sycl_ok_device, of 20 3 1 "queue_new 3 (replicate 8 5)" 0 "replicate 20 0" "replicate 4 0"]
  by (simp add: engine_sizes_def queue_new_def)

text \<open>The nonce that an executed expression leaves: the next expression has another one.\<close>

lemma add_capability_data_eq:
  assumes "sycl_ok E"
  shows "add_capability_data E q z = (q, q\<lparr>queue_nonce := counter_limbs (length (queue_nonce q)) (limbs_int (queue_nonce q) + uint z)\<rparr>)"
proof -
  have "get_int E (Size_limbs 64 z :: chacha_word rspan) = uint z"
    using uint_lt2p [of z] by (simp add: get_int_rspan_int [OF assms] limb_size_for_def div_ceil_def)
  then have "fst (num_add_assign E (limb_array_of (queue_nonce q)) (Size_limbs 64 z) (Const 0))
      = store (limb_array_of (queue_nonce q)) (limbs_int (queue_nonce q) + uint z)"
    using num_add_assign_eq [of "limb_array_of (queue_nonce q)" E "Size_limbs 64 z" "Const 0"]
      num_add_eq(1) [OF assms, of "limb_array_of (queue_nonce q)" "Bits (limb_array_of (queue_nonce q))" "Size_limbs 64 z" "Const 0"]
    by (simp add: limb_array_of_int)
  then show ?thesis by (simp add: add_capability_data_def data_store_limb_array counter_limbs_def)
qed

lemma queue_nonces_differ:
  assumes "sycl_ok E" and "length (queue_nonce q) = n" and "z \<noteq> 0" and "limbs_int (queue_nonce q) + uint z < 2 ^ (32 * n)"
  shows "queue_nonce (snd (add_capability_data E q z)) \<noteq> queue_nonce q"
proof
  assume "queue_nonce (snd (add_capability_data E q z)) = queue_nonce q"
  then have "(limbs_int (queue_nonce q) + uint z) mod 2 ^ (32 * n) = limbs_int (queue_nonce q)"
    using limbs_int_counter_limbs [of n "limbs_int (queue_nonce q) + uint z"] assms(2) by (simp add: add_capability_data_eq [OF assms(1)])
  moreover have "0 \<le> limbs_int (queue_nonce q) + uint z" by (simp add: limbs_int_nth)
  ultimately have "uint z = 0" using assms(4) by simp
  then show False using assms(3) by (simp add: unsigned_eq_0_iff)
qed

end
