(* ===== verification/Kernel.thy ===== *)
theory Kernel
  imports Prelude "HOL-Library.Multiset"
begin

text \<open>
  The parallel execution of kernels: a device runs the work items of a \<^verbatim>\<open>parallel_for\<close> in any order and interleaves
  their loads and stores. A work item is a program of loads and stores to one shared memory, where a load continues with
  the value that it reads; an access outside the memory has no step, so a work item that makes one is stuck. The locale
  \<open>race_free\<close> is the contract of a kernel whose work items use disjoint parts of the memory: every execution of such a kernel
  ends, never gets stuck, and leaves the memory that running one work item after the other leaves. Accesses to other memory,
  which no work item of the kernel writes, are values of the program.
\<close>

section \<open>Work items\<close>

datatype 'v program =
    Done
  | Load nat "'v \<Rightarrow> 'v program"
  | Store nat 'v "'v program"

text \<open>A work item run alone; a memory is a list, and an access outside of it has no value.\<close>

primrec run :: "'v program \<Rightarrow> 'v list \<Rightarrow> 'v list option" where
  "run Done memory = Some memory"
| "run (Load a f) memory = (if a < length memory then run (f (memory ! a)) memory else None)"
| "run (Store a v p) memory = (if a < length memory then run p (memory[a := v]) else None)"

primrec run_all :: "'v program list \<Rightarrow> 'v list \<Rightarrow> 'v list option" where
  "run_all [] memory = Some memory"
| "run_all (p # ps) memory = (case run p memory of None \<Rightarrow> None | Some memory \<Rightarrow> run_all ps memory)"

primrec stores :: "(nat \<times> 'v) list \<Rightarrow> 'v program" where
  "stores [] = Done"
| "stores (w # ws) = Store (fst w) (snd w) (stores ws)"

lemma run_stores:
  "fst ` set ws \<subseteq> {..<length m} \<Longrightarrow> run (stores ws) m = Some (fold (\<lambda>w m. m[fst w := snd w]) ws m)"
  by (induction ws arbitrary: m) simp_all

lemma length_writes [simp]: "length (fold (\<lambda>w m. m[fst w := snd w]) ws m) = length m"
  by (induction ws arbitrary: m) simp_all

lemma fold_writes:
  assumes "hi \<le> length m" and "a < length m"
  shows "fold (\<lambda>w m. m[fst w := snd w]) (map (\<lambda>a. (a, f a)) [lo..<hi]) m ! a = (if lo \<le> a \<and> a < hi then f a else m ! a)"
proof (cases "lo \<le> hi")
  case True
  from this assms(1) show ?thesis
    by (induction hi rule: dec_induct) (use assms(2) in \<open>auto simp: less_Suc_eq\<close>)
qed auto

section \<open>Interleaved execution\<close>

type_synonym 'v kernel_state = "'v list \<times> 'v program list"

inductive kernel_step :: "'v kernel_state \<Rightarrow> 'v kernel_state \<Rightarrow> bool" where
  load: "i < length ps \<Longrightarrow> ps ! i = Load a f \<Longrightarrow> a < length m \<Longrightarrow> kernel_step (m, ps) (m, ps[i := f (m ! a)])"
| store: "i < length ps \<Longrightarrow> ps ! i = Store a v p \<Longrightarrow> a < length m \<Longrightarrow> kernel_step (m, ps) (m[a := v], ps[i := p])"

inductive_cases kernel_stepE: "kernel_step (m, ps) s"

definition finished :: "'v kernel_state \<Rightarrow> bool" where
  "finished s \<longleftrightarrow> (\<forall>p \<in> set (snd s). p = Done)"

definition stuck :: "'v kernel_state \<Rightarrow> bool" where
  "stuck s \<longleftrightarrow> \<not> finished s \<and> (\<nexists>s'. kernel_step s s')"

text \<open>A work item that is about to access memory that does not exist.\<close>

definition faulting :: "'v list \<Rightarrow> 'v program \<Rightarrow> bool" where
  "faulting m p \<longleftrightarrow> (case p of Done \<Rightarrow> False | Load a f \<Rightarrow> length m \<le> a | Store a v p \<Rightarrow> length m \<le> a)"

lemma kernel_step_length: "kernel_step s s' \<Longrightarrow> length (fst s') = length (fst s) \<and> length (snd s') = length (snd s)"
  by (induction rule: kernel_step.induct) simp_all

lemma kernel_steps_length: "kernel_step\<^sup>*\<^sup>* s s' \<Longrightarrow> length (fst s') = length (fst s) \<and> length (snd s') = length (snd s)"
  by (induction rule: rtranclp_induct) (simp_all add: kernel_step_length)

lemma progress: "i < length ps \<Longrightarrow> ps ! i \<noteq> Done \<Longrightarrow> \<not> faulting m (ps ! i) \<Longrightarrow> \<exists>s. kernel_step (m, ps) s"
  using kernel_step.load [of i ps _ _ m] kernel_step.store [of i ps _ _ _ m]
  by (cases "ps ! i") (simp_all add: faulting_def not_le, metis+)

subsection \<open>Every execution ends\<close>

text \<open>A program only continues with its subprograms, and these are well-founded though a load has one for every value.\<close>

definition subprogram :: "('v program \<times> 'v program) set" where
  "subprogram = {(q, p). (\<exists>a f v. p = Load a f \<and> q = f v) \<or> (\<exists>a v. p = Store a v q)}"

lemma wf_subprogram: "wf subprogram"
proof (rule wfUNIVI)
  fix P :: "'v program \<Rightarrow> bool" and p
  assume "\<forall>p. (\<forall>q. (q, p) \<in> subprogram \<longrightarrow> P q) \<longrightarrow> P p"
  then have *: "(\<And>q. (q, p) \<in> subprogram \<Longrightarrow> P q) \<Longrightarrow> P p" for p by blast
  show "P p"
  proof (induction p)
    case Done
    show ?case by (rule *) (simp add: subprogram_def)
  next
    case (Load a f)
    show ?case by (rule *) (use Load in \<open>auto simp: subprogram_def\<close>)
  next
    case (Store a v p)
    show ?case by (rule *) (use Store in \<open>auto simp: subprogram_def\<close>)
  qed
qed

lemma kernel_step_mult: "kernel_step s s' \<Longrightarrow> (mset (snd s'), mset (snd s)) \<in> mult subprogram"
proof -
  have one: "(mset (ps[i := q]), mset ps) \<in> mult subprogram" if "i < length ps" "(q, ps ! i) \<in> subprogram" for ps i and q :: "'a program"
  proof -
    have "mset ps = (mset ps - {#ps ! i#}) + {#ps ! i#}" using that(1) by simp
    moreover have "(mset ps - {#ps ! i#} + {#q#}, mset ps - {#ps ! i#} + {#ps ! i#}) \<in> mult subprogram"
      by (rule one_step_implies_mult) (use that(2) in auto)
    ultimately show ?thesis using that(1) by (simp add: mset_update)
  qed
  assume "kernel_step s s'"
  then show ?thesis
  proof (induction rule: kernel_step.induct)
    case (load i ps a f m)
    then have "(f (m ! a), ps ! i) \<in> subprogram" by (auto simp: subprogram_def)
    then show ?case using one load(1) by simp
  next
    case (store i ps a v p m)
    then have "(p, ps ! i) \<in> subprogram" by (auto simp: subprogram_def)
    then show ?case using one store(1) by simp
  qed
qed

lemma wf_kernel_step: "wf {(s', s). kernel_step s s'}"
proof -
  have "{(s', s). kernel_step s s'} \<subseteq> inv_image (mult subprogram) (\<lambda>s. mset (snd s))" using kernel_step_mult by auto
  then show ?thesis using wf_mult [OF wf_subprogram] wf_inv_image wf_subset by blast
qed

lemma execution_ends: "\<exists>s'. kernel_step\<^sup>*\<^sup>* s s' \<and> (\<nexists>s''. kernel_step s' s'')"
proof (induction s rule: wf_induct_rule [OF wf_kernel_step])
  case (1 s)
  show ?case
  proof (cases "\<exists>s'. kernel_step s s'")
    case True
    then obtain s' where "kernel_step s s'" by blast
    with 1 [of s'] show ?thesis by (auto intro: converse_rtranclp_into_rtranclp)
  qed (use rtranclp.rtrancl_refl [of kernel_step s] in blast)
qed

lemma no_infinite_execution: "\<nexists>f. \<forall>i. kernel_step (f i) (f (Suc i))"
  using wf_kernel_step unfolding wf_iff_no_infinite_down_chain by blast

text \<open>A work item that has a write outside of the memory left never finishes, so every execution gets stuck.\<close>

lemma write_outside:
  assumes "kernel_step\<^sup>*\<^sup>* (m0, ps) s" and "b < length ps" and "ps ! b = stores ws" and "\<exists>w \<in> set ws. length m0 \<le> fst w"
  shows "\<exists>ws. snd s ! b = stores ws \<and> (\<exists>w \<in> set ws. length m0 \<le> fst w)"
  using assms(1)
proof (induction rule: rtranclp_induct)
  case base
  show ?case using assms(3,4) by auto
next
  case (step s s')
  obtain m qs where s: "s = (m, qs)" by (rule prod.exhaust)
  have len: "length m = length m0" "length qs = length ps" using kernel_steps_length [OF step(1)] by (simp_all add: s)
  from step(3) obtain ws where ws: "qs ! b = stores ws" "\<exists>w \<in> set ws. length m0 \<le> fst w" by (auto simp: s)
  from step(2) have "kernel_step (m, qs) s'" by (simp add: s)
  then show ?case
  proof cases
    case (load i a f)
    then have "i \<noteq> b" using ws(1) by (cases ws) auto
    then show ?thesis using load(1) ws by auto
  next
    case (store i a v p)
    show ?thesis
    proof (cases "i = b")
      case True
      then show ?thesis using store ws len assms(2) by (cases ws) auto
    qed (use store(1) ws in auto)
  qed
qed

lemma write_outside_stuck:
  assumes "b < length ps" and "ps ! b = stores ws" and "\<exists>w \<in> set ws. length m0 \<le> fst w"
  shows "(\<forall>s. kernel_step\<^sup>*\<^sup>* (m0, ps) s \<longrightarrow> \<not> finished s) \<and> (\<exists>s. kernel_step\<^sup>*\<^sup>* (m0, ps) s \<and> stuck s)"
proof -
  have never: "\<not> finished s" if s: "kernel_step\<^sup>*\<^sup>* (m0, ps) s" for s
  proof -
    obtain ws' where "snd s ! b = stores ws'" "\<exists>w \<in> set ws'. length m0 \<le> fst w" using write_outside [OF s assms] by blast
    then have "snd s ! b \<noteq> Done" by (cases ws') auto
    moreover have "b < length (snd s)" using kernel_steps_length [OF s] assms(1) by simp
    ultimately show ?thesis by (auto simp: finished_def)
  qed
  obtain s where "kernel_step\<^sup>*\<^sup>* (m0, ps) s" "\<nexists>s'. kernel_step s s'" using execution_ends by blast
  then show ?thesis using never unfolding stuck_def by blast
qed

section \<open>Disjoint work items\<close>

text \<open>All accesses of a program are in a set of addresses.\<close>

primrec within :: "nat set \<Rightarrow> 'v program \<Rightarrow> bool" where
  "within A Done = True"
| "within A (Load a f) = (a \<in> A \<and> (\<forall>v. within A (f v)))"
| "within A (Store a v p) = (a \<in> A \<and> within A p)"

lemma within_stores: "within A (stores ws) \<longleftrightarrow> fst ` set ws \<subseteq> A"
  by (induction ws) auto

text \<open>A program within a set reads and writes this part of the memory only.\<close>

lemma run_within:
  assumes "within A p" and "A \<subseteq> {..<length m}" and "length m' = length m" and "\<And>a. a \<in> A \<Longrightarrow> m' ! a = m ! a"
  shows "\<exists>n n'. run p m = Some n \<and> run p m' = Some n' \<and> length n = length m \<and> length n' = length m
    \<and> (\<forall>a \<in> A. n' ! a = n ! a) \<and> (\<forall>a. a \<notin> A \<longrightarrow> n ! a = m ! a)"
  using assms
proof (induction p arbitrary: m m')
  case (Load a f)
  then have a: "a < length m" "m' ! a = m ! a" by auto
  then show ?case using Load.IH [of "f (m ! a)" m m'] Load.prems by auto
next
  case (Store a v p)
  then have a: "a < length m" by auto
  have "\<And>b. b \<in> A \<Longrightarrow> m'[a := v] ! b = m[a := v] ! b" using Store.prems a by (auto simp: nth_list_update)
  then obtain n n' where n: "run p (m[a := v]) = Some n" "run p (m'[a := v]) = Some n'" "length n = length m" "length n' = length m"
      "\<forall>b \<in> A. n' ! b = n ! b" "\<forall>b. b \<notin> A \<longrightarrow> n ! b = m[a := v] ! b"
    using Store.IH [of "m[a := v]" "m'[a := v]"] Store.prems by auto
  have "n ! b = m ! b" if "b \<notin> A" for b
  proof -
    have "b \<noteq> a" using that Store.prems(1) by auto
    then show ?thesis using n(6) that by simp
  qed
  then show ?case using n a Store.prems(3) by auto
qed simp

lemmas run_frame = run_within [OF _ _ refl refl]

definition work_items :: "nat \<Rightarrow> (nat \<Rightarrow> 'v program) \<Rightarrow> 'v program list" where
  "work_items n item = map item [0..<n]"

lemma run_all_append: "run_all (ps @ qs) m = (case run_all ps m of None \<Rightarrow> None | Some n \<Rightarrow> run_all qs n)"
  by (induction ps arbitrary: m) (simp_all split: option.split)

lemma work_items_Suc: "run_all (work_items (Suc n) item) m = (case run_all (work_items n item) m of None \<Rightarrow> None | Some m \<Rightarrow> run (item n) m)"
  by (simp add: work_items_def run_all_append split: option.split)

lemma work_items_sel [simp]: "length (work_items n item) = n" "i < n \<Longrightarrow> work_items n item ! i = item i"
  by (simp_all add: work_items_def)

locale race_free =
  fixes ok :: "'c \<Rightarrow> bool" and items :: "'c \<Rightarrow> nat" and memory_size :: "'c \<Rightarrow> nat"
    and item :: "'c \<Rightarrow> nat \<Rightarrow> 'v program" and foot :: "'c \<Rightarrow> nat \<Rightarrow> nat set"
  assumes inside: "ok c \<Longrightarrow> i < items c \<Longrightarrow> foot c i \<subseteq> {..<memory_size c}"
    and accesses: "ok c \<Longrightarrow> i < items c \<Longrightarrow> within (foot c i) (item c i)"
    and disjoint: "ok c \<Longrightarrow> i < items c \<Longrightarrow> j < items c \<Longrightarrow> i \<noteq> j \<Longrightarrow> foot c i \<inter> foot c j = {}"
begin

text \<open>What a work item does alone is what it does in any memory that agrees on its own part.\<close>

lemma item_run:
  assumes "ok c" and "i < items c" and "length m = memory_size c"
  obtains n where "run (item c i) m = Some n" and "length n = memory_size c" and "\<And>a. a \<notin> foot c i \<Longrightarrow> n ! a = m ! a"
  using run_frame [OF accesses [OF assms(1,2)], of m] inside [OF assms(1,2)] assms(3) by auto

lemma sequential:
  assumes "ok c" and "length m = memory_size c" and "k \<le> items c"
  shows "\<exists>n. run_all (work_items k (item c)) m = Some n \<and> length n = memory_size c
    \<and> (\<forall>i < k. \<forall>a \<in> foot c i. n ! a = the (run (item c i) m) ! a)
    \<and> (\<forall>a. (\<forall>i < k. a \<notin> foot c i) \<longrightarrow> n ! a = m ! a)"
  using assms(3)
proof (induction k)
  case 0
  then show ?case by (simp add: assms(2) work_items_def)
next
  case (Suc k)
  then obtain n where n: "run_all (work_items k (item c)) m = Some n" "length n = memory_size c"
    "\<forall>i < k. \<forall>a \<in> foot c i. n ! a = the (run (item c i) m) ! a" "\<forall>a. (\<forall>i < k. a \<notin> foot c i) \<longrightarrow> n ! a = m ! a" by auto
  have k: "k < items c" using Suc.prems by simp
  have other: "a \<notin> foot c i" if "a \<in> foot c k" "i < k" for a i using disjoint [OF assms(1) k, of i] that k by auto
  then have "\<And>a. a \<in> foot c k \<Longrightarrow> n ! a = m ! a" using n(4) by auto
  then obtain r r' where r: "run (item c k) m = Some r" "run (item c k) n = Some r'" "length r' = memory_size c"
      "\<forall>a \<in> foot c k. r' ! a = r ! a" "\<forall>a. a \<notin> foot c k \<longrightarrow> r ! a = m ! a"
    using run_within [OF accesses [OF assms(1) k], of m n] inside [OF assms(1) k] assms(2) n(2) by auto
  have keep: "r' ! a = n ! a" if "a \<notin> foot c k" for a
    using item_run [OF assms(1) k n(2)] r(2) that by (metis option.inject)
  have "r' ! a = the (run (item c i) m) ! a" if "i < Suc k" "a \<in> foot c i" for i a
  proof (cases "i = k")
    case False
    then have "a \<notin> foot c k" using that other by auto
    then show ?thesis using keep n(3) False that by auto
  qed (use r that in simp)
  moreover have "r' ! a = m ! a" if "\<forall>i < Suc k. a \<notin> foot c i" for a using that keep n(4) by auto
  ultimately show ?case using n(1) r(2,3) by (simp add: work_items_Suc)
qed

definition inv :: "'c \<Rightarrow> 'v list \<Rightarrow> 'v kernel_state \<Rightarrow> bool" where
  "inv c m0 s \<longleftrightarrow> length (fst s) = memory_size c \<and> length (snd s) = items c
    \<and> (\<forall>i < items c. within (foot c i) (snd s ! i) \<and> (\<forall>a \<in> foot c i. the (run (snd s ! i) (fst s)) ! a = the (run (item c i) m0) ! a))
    \<and> (\<forall>a. (\<forall>i < items c. a \<notin> foot c i) \<longrightarrow> fst s ! a = m0 ! a)"

lemma inv_start: "ok c \<Longrightarrow> length m0 = memory_size c \<Longrightarrow> inv c m0 (m0, work_items (items c) (item c))"
  by (simp add: inv_def accesses)

text \<open>One work item moves on: its own result stays the same and no other work item sees the change.\<close>

lemma inv_move:
  assumes "ok c" and "inv c m0 (m, ps)" and "i < items c" and "length m' = length m" and "\<And>a. a \<notin> foot c i \<Longrightarrow> m' ! a = m ! a"
    and "within (foot c i) q" and "run q m' = run (ps ! i) m"
  shows "inv c m0 (m', ps[i := q])"
proof -
  have len: "length m = memory_size c" "length ps = items c" using assms(2) by (simp_all add: inv_def)
  have w: "within (foot c j) (ps ! j)" "\<And>a. a \<in> foot c j \<Longrightarrow> the (run (ps ! j) m) ! a = the (run (item c j) m0) ! a"
    if "j < items c" for j using assms(2) that by (simp_all add: inv_def)
  have "the (run (ps[i := q] ! j) m') ! a = the (run (item c j) m0) ! a" if j: "j < items c" and a: "a \<in> foot c j" for j a
  proof (cases "j = i")
    case False
    have "\<And>a. a \<in> foot c j \<Longrightarrow> m' ! a = m ! a" using disjoint [OF assms(1,3) j] False assms(5) by auto
    from run_within [OF w(1) [OF j] _ assms(4) this] obtain n n' where
      "run (ps ! j) m = Some n" "run (ps ! j) m' = Some n'" "\<forall>a \<in> foot c j. n' ! a = n ! a"
      using inside [OF assms(1) j] len(1) by auto
    then show ?thesis using w(2) [OF j a] a False by simp
  qed (use w(2) [OF j a] assms(7) len j in simp)
  moreover have "within (foot c j) (ps[i := q] ! j)" if "j < items c" for j
    using w(1) [OF that] assms(6) that len by (cases "j = i") simp_all
  moreover have "m' ! a = m0 ! a" if "\<forall>i < items c. a \<notin> foot c i" for a
    using assms(2,3,5) that by (simp add: inv_def)
  ultimately show ?thesis using len assms(4) by (simp add: inv_def)
qed

lemma inv_step:
  assumes "ok c" and "inv c m0 s" and "kernel_step s s'"
  shows "inv c m0 s'"
proof -
  obtain m ps where s: "s = (m, ps)" by (rule prod.exhaust)
  have len: "length ps = items c" using assms(2) by (simp add: s inv_def)
  have w: "within (foot c i) (ps ! i)" if "i < items c" for i using assms(2) that by (simp add: s inv_def)
  from assms(3) have "kernel_step (m, ps) s'" by (simp add: s)
  then show ?thesis
  proof cases
    case (load i a f)
    then have i: "i < items c" using len by simp
    show ?thesis unfolding load(1)
      by (rule inv_move [OF assms(1) assms(2) [unfolded s] i]) (use w [OF i] load in simp_all)
  next
    case (store i a v p)
    then have i: "i < items c" using len by simp
    show ?thesis unfolding store(1)
      by (rule inv_move [OF assms(1) assms(2) [unfolded s] i]) (use w [OF i] store in \<open>auto simp: nth_list_update\<close>)
  qed
qed

lemma inv_reachable:
  assumes "ok c" and "length m0 = memory_size c" and "kernel_step\<^sup>*\<^sup>* (m0, work_items (items c) (item c)) s"
  shows "inv c m0 s"
  using assms(3)
proof (induction rule: rtranclp_induct)
  case base
  show ?case using inv_start assms(1,2) .
next
  case (step s s')
  then show ?case using inv_step [OF assms(1)] by blast
qed

lemma inv_not_faulting:
  assumes "ok c" and "inv c m0 (m, ps)" and "i < items c"
  shows "\<not> faulting m (ps ! i)"
proof -
  have "within (foot c i) (ps ! i)" "length m = memory_size c" using assms(2,3) by (simp_all add: inv_def)
  then show ?thesis using inside [OF assms(1,3)] by (cases "ps ! i") (auto simp: faulting_def)
qed

lemma inv_not_stuck:
  assumes "ok c" and "inv c m0 s"
  shows "\<not> stuck s"
proof
  assume "stuck s"
  then obtain i where i: "i < length (snd s)" "snd s ! i \<noteq> Done" by (auto simp: stuck_def finished_def in_set_conv_nth)
  have "length (snd s) = items c" using assms(2) by (simp add: inv_def)
  then have "\<not> faulting (fst s) (snd s ! i)"
    using inv_not_faulting [OF assms(1), of m0 "fst s" "snd s" i] assms(2) i by simp
  from progress [OF i this] have "\<exists>s'. kernel_step s s'" by (simp only: prod.collapse)
  then show False using \<open>stuck s\<close> by (simp add: stuck_def)
qed

lemma inv_finished:
  assumes "ok c" and "length m0 = memory_size c" and "inv c m0 s" and "finished s"
  shows "run_all (work_items (items c) (item c)) m0 = Some (fst s)"
proof -
  obtain n where n: "run_all (work_items (items c) (item c)) m0 = Some n" "length n = memory_size c"
      "\<forall>i < items c. \<forall>a \<in> foot c i. n ! a = the (run (item c i) m0) ! a"
      "\<forall>a. (\<forall>i < items c. a \<notin> foot c i) \<longrightarrow> n ! a = m0 ! a"
    using sequential [OF assms(1,2) order_refl] by auto
  have "snd s ! i = Done" if "i < items c" for i using assms(3,4) that nth_mem [of i "snd s"] by (simp add: finished_def inv_def)
  then have "fst s ! a = the (run (item c i) m0) ! a" if "i < items c" "a \<in> foot c i" for i a
    using assms(3) that by (simp add: inv_def)
  then have "fst s ! a = n ! a" for a
    using n(3,4) assms(3) by (cases "\<exists>i < items c. a \<in> foot c i") (auto simp: inv_def)
  then have "fst s = n" using n(2) assms(3) by (intro nth_equalityI) (simp_all add: inv_def)
  then show ?thesis using n(1) by simp
qed

text \<open>Where the memory ends: each part as its own work item leaves it.\<close>

lemma final_memory:
  assumes "ok c" and "length m0 = memory_size c" and "kernel_step\<^sup>*\<^sup>* (m0, work_items (items c) (item c)) s" and "finished s"
  shows "length (fst s) = memory_size c"
    and "i < items c \<Longrightarrow> a \<in> foot c i \<Longrightarrow> fst s ! a = the (run (item c i) m0) ! a"
    and "(\<And>i. i < items c \<Longrightarrow> a \<notin> foot c i) \<Longrightarrow> fst s ! a = m0 ! a"
  using sequential [OF assms(1,2) order_refl] inv_finished [OF assms(1,2) inv_reachable [OF assms(1-3)] assms(4)] by auto

text \<open>The contract: from every reachable state the execution can only end in the memory of the sequential run.\<close>

theorem every_execution:
  assumes "ok c" and "length m0 = memory_size c" and "kernel_step\<^sup>*\<^sup>* (m0, work_items (items c) (item c)) s"
  shows "\<not> stuck s" and "i < items c \<Longrightarrow> \<not> faulting (fst s) (snd s ! i)"
    and "finished s \<Longrightarrow> run_all (work_items (items c) (item c)) m0 = Some (fst s)"
    and "\<exists>s'. kernel_step\<^sup>*\<^sup>* s s' \<and> finished s'"
proof -
  have reach: "inv c m0 s'" if "kernel_step\<^sup>*\<^sup>* s s'" for s'
    using inv_reachable [OF assms(1,2)] assms(3) that by (meson rtranclp_trans)
  note inv = reach [OF rtranclp.rtrancl_refl]
  show "\<not> stuck s" by (rule inv_not_stuck [OF assms(1) inv])
  show "i < items c \<Longrightarrow> \<not> faulting (fst s) (snd s ! i)" using inv_not_faulting [OF assms(1), of m0 "fst s" "snd s"] inv by simp
  show "finished s \<Longrightarrow> run_all (work_items (items c) (item c)) m0 = Some (fst s)" by (rule inv_finished [OF assms(1,2) inv])
  obtain s' where "kernel_step\<^sup>*\<^sup>* s s'" "\<nexists>s''. kernel_step s' s''" using execution_ends by blast
  then show "\<exists>s'. kernel_step\<^sup>*\<^sup>* s s' \<and> finished s'" using inv_not_stuck [OF assms(1) reach] unfolding stuck_def by blast
qed

end

text \<open>The common case: every address has one work item that may use it, and each work item uses its own addresses.\<close>

definition owner_computes :: "nat \<Rightarrow> nat \<Rightarrow> (nat \<Rightarrow> nat) \<Rightarrow> (nat \<Rightarrow> 'v program) \<Rightarrow> bool" where
  "owner_computes n memory_size owner item \<longleftrightarrow> (\<forall>i < n. within {a. a < memory_size \<and> owner a = i} (item i))"

interpretation owned: race_free "\<lambda>(n, memory_size, owner, item). owner_computes n memory_size owner item"
    "\<lambda>(n, memory_size, owner, item). n" "\<lambda>(n, memory_size, owner, item). memory_size"
    "\<lambda>(n, memory_size, owner, item). item" "\<lambda>(n, memory_size, owner, item) i. {a. a < memory_size \<and> owner a = i}"
  by unfold_locales (auto simp: owner_computes_def)

section \<open>Kernels in order\<close>

text \<open>Kernels that use the same memory run one after the other, each with an interleaving of its own.\<close>

inductive queue_run :: "'v program list list \<Rightarrow> 'v list \<Rightarrow> 'v list \<Rightarrow> bool" where
  idle: "queue_run [] m m"
| kernel: "kernel_step\<^sup>*\<^sup>* (m, ps) s \<Longrightarrow> finished s \<Longrightarrow> queue_run kernels (fst s) m' \<Longrightarrow> queue_run (ps # kernels) m m'"

inductive_simps queue_run_simps [simp]: "queue_run [] m m'" "queue_run (ps # kernels) m m'"

lemma queue_run_append: "queue_run (xs @ ys) m m' \<longleftrightarrow> (\<exists>n. queue_run xs m n \<and> queue_run ys n m')"
  by (induction xs arbitrary: m) auto

text \<open>A kernel with owners: its executions, and the value that each address ends with.\<close>

lemma owned_kernel:
  assumes "owner_computes n z owner item" and "length m = z"
  shows "\<exists>m'. queue_run [work_items n item] m m'"
    and "queue_run [work_items n item] m m' \<Longrightarrow> length m' = z
      \<and> (\<forall>a < z. owner a < n \<longrightarrow> m' ! a = the (run (item (owner a)) m) ! a) \<and> (\<forall>a < z. n \<le> owner a \<longrightarrow> m' ! a = m ! a)"
    and "kernel_step\<^sup>*\<^sup>* (m, work_items n item) s \<Longrightarrow> \<not> stuck s"
proof -
  note run = owned.every_execution [of "(n, z, owner, item)", simplified, OF assms]
    and final = owned.final_memory [of "(n, z, owner, item)", simplified, OF assms]
  show "\<exists>m'. queue_run [work_items n item] m m'" using run(4) [OF rtranclp.rtrancl_refl] by auto
  show "\<not> stuck s" if "kernel_step\<^sup>*\<^sup>* (m, work_items n item) s" by (rule run(1) [OF that])
  show "length m' = z \<and> (\<forall>a < z. owner a < n \<longrightarrow> m' ! a = the (run (item (owner a)) m) ! a) \<and> (\<forall>a < z. n \<le> owner a \<longrightarrow> m' ! a = m ! a)"
    if "queue_run [work_items n item] m m'"
  proof -
    from that obtain s where s: "kernel_step\<^sup>*\<^sup>* (m, work_items n item) s" "finished s" "fst s = m'" by auto
    show ?thesis using final(1) [OF s(1,2)] final(2) [OF s(1,2)] final(3) [OF s(1,2)] s(3) by auto
  qed
qed

text \<open>What a list of kernels guarantees of the memory: no execution of a kernel gets stuck, and every one that finishes leaves the
  next kernels a memory for which they guarantee it. As no execution is infinite, the kernels do end.\<close>

definition kernel_wp :: "'v program list \<Rightarrow> 'v list \<Rightarrow> ('v list \<Rightarrow> bool) \<Rightarrow> bool" where
  "kernel_wp ps m P \<longleftrightarrow> (\<forall>s. kernel_step\<^sup>*\<^sup>* (m, ps) s \<longrightarrow> \<not> stuck s \<and> (finished s \<longrightarrow> P (fst s)))"

primrec queue_wp :: "'v program list list \<Rightarrow> 'v list \<Rightarrow> ('v list \<Rightarrow> bool) \<Rightarrow> bool" where
  "queue_wp [] m P = P m"
| "queue_wp (ps # kernels) m P = kernel_wp ps m (\<lambda>m. queue_wp kernels m P)"

lemma kernel_wp_mono: "kernel_wp ps m P \<Longrightarrow> (\<And>m'. P m' \<Longrightarrow> Q m') \<Longrightarrow> kernel_wp ps m Q"
  by (auto simp: kernel_wp_def)

lemma queue_wp_mono: "queue_wp ks m P \<Longrightarrow> (\<And>m'. P m' \<Longrightarrow> Q m') \<Longrightarrow> queue_wp ks m Q"
  by (induction ks arbitrary: m) (auto elim: kernel_wp_mono)

lemma queue_wp_append: "queue_wp (xs @ ys) m P = queue_wp xs m (\<lambda>m. queue_wp ys m P)"
  by (induction xs arbitrary: m) simp_all

lemma queue_wp_run: "queue_wp ks m P \<Longrightarrow> queue_run ks m m' \<Longrightarrow> P m'"
  by (induction ks arbitrary: m) (auto simp: kernel_wp_def)

lemma queue_wp_ends: "queue_wp ks m P \<Longrightarrow> \<exists>m'. queue_run ks m m' \<and> P m'"
proof (induction ks arbitrary: m)
  case (Cons ps ks)
  obtain s where s: "kernel_step\<^sup>*\<^sup>* (m, ps) s" "\<nexists>s'. kernel_step s s'" using execution_ends by blast
  then have "finished s" "queue_wp ks (fst s) P" using Cons.prems unfolding queue_wp.simps kernel_wp_def stuck_def by blast+
  then obtain m' where "queue_run ks (fst s) m'" "P m'" using Cons.IH [of "fst s"] by blast
  then show ?case using queue_run.kernel [OF s(1) \<open>finished s\<close>] by blast
qed simp

lemma kernel_wpI:
  assumes "\<And>s. kernel_step\<^sup>*\<^sup>* (m, ps) s \<Longrightarrow> \<not> stuck s" and "\<And>m'. queue_run [ps] m m' \<Longrightarrow> P m'"
  shows "kernel_wp ps m P"
  using assms by (auto simp: kernel_wp_def)

end
