(* ===== verification/Expr_Cipher.thy ===== *)
theory Expr_Cipher
  imports Expr_Random Kernel
begin

text \<open>
  The kernels that encrypt and decrypt tensors (\<^verbatim>\<open>expr/crypto/cipher.hpp\<close>). A work item handles one batch: the fewest elements whose
  limbs fill whole blocks of the engine, so that each work item can start its own cipher at a block of the one stream. What a
  work item stores is a list of writes. The lemmas show that the batches, in every order of execution, store what one
  cipher gives that encrypts the elements one after the other; that every execution ends; and that decryption, which
  writes the elements of the last batch without asking whether they exist, is right for whole batches only.
\<close>

section \<open>Batches\<close>

text \<open>The number of limbs of an element is \<open>ls\<close>; a block has 16 words.\<close>

definition batch_size :: "nat \<Rightarrow> nat" where
  "batch_size ls = lcm 16 ls"

definition elements_per_batch :: "nat \<Rightarrow> nat" where
  "elements_per_batch ls = batch_size ls div ls"

definition blocks_per_batch :: "nat \<Rightarrow> nat" where
  "blocks_per_batch ls = batch_size ls div 16"

definition batch_count :: "nat \<Rightarrow> nat \<Rightarrow> nat" where
  "batch_count ls total_limbs = div_ceil total_limbs (batch_size ls)"

section \<open>The kernels\<close>

text \<open>\<open>inner\<close> is the value of the inner expression at an index.\<close>

definition enc_writes ::
    "chacha_word eval \<Rightarrow> (nat \<Rightarrow> chacha_word) \<Rightarrow> nat \<Rightarrow> nat \<Rightarrow> nat \<Rightarrow> cipher_storage \<Rightarrow> nat \<Rightarrow> nat
     \<Rightarrow> (nat \<Rightarrow> chacha_word bit_span) \<Rightarrow> nat \<Rightarrow> (nat \<times> chacha_word) list" where
  "enc_writes E g rounds nonce_size counter_size storage ls element_count inner b =
     (let cipher = storage_cipher E g rounds nonce_size counter_size storage (of_nat (b * blocks_per_batch ls))
      in fst (for_range (elements_per_batch ls)
           (\<lambda>e (writes, cipher).
              let i = b * elements_per_batch ls + e
              in if i < element_count
                 then let element = inner i;
                          (encrypted_limbs, cipher) =
                            the (cipher_enc E (chacha_call E) 16 g (limb_array_of (map g [0..<ls])) (Bits element) cipher)
                      in (for_range ls (\<lambda>j writes. writes @ [(i * ls + j, data encrypted_limbs ! j)]) writes, cipher)
                 else (writes, cipher))
           ([], cipher)))"

definition dec_writes ::
    "chacha_word eval \<Rightarrow> (nat \<Rightarrow> chacha_word) \<Rightarrow> nat \<Rightarrow> nat \<Rightarrow> nat \<Rightarrow> cipher_storage \<Rightarrow> nat \<Rightarrow> chacha_word bit_span
     \<Rightarrow> (nat \<Rightarrow> chacha_word) \<Rightarrow> nat \<Rightarrow> (nat \<times> chacha_word bit_span) list" where
  "dec_writes E g rounds nonce_size counter_size storage ls element inner b =
     (let cipher = storage_cipher E g rounds nonce_size counter_size storage (of_nat (b * blocks_per_batch ls))
      in fst (for_range (elements_per_batch ls)
           (\<lambda>e (writes, cipher).
              let i = b * elements_per_batch ls + e;
                  encrypted_limbs = for_range ls (\<lambda>l limbs. limbs[l := inner (i * ls + l)]) (map g [0..<ls]);
                  (element, cipher) =
                    the (cipher_dec E (chacha_call E) 16 g element (Limb_span encrypted_limbs) cipher)
              in (writes @ [(i, element)], cipher))
           ([], cipher)))"

definition enc_kernel ::
    "chacha_word eval \<Rightarrow> (nat \<Rightarrow> chacha_word) \<Rightarrow> nat \<Rightarrow> nat \<Rightarrow> nat \<Rightarrow> chacha_word list \<Rightarrow> chacha_word list \<Rightarrow> nat \<Rightarrow> nat
     \<Rightarrow> (nat \<Rightarrow> chacha_word bit_span) \<Rightarrow> chacha_word program list" where
  "enc_kernel E g rounds nonce_size counter_size key nonce ls element_count inner =
     (let total_limbs = element_count * ls;
          storage = cipher_storage_new E g nonce_size key nonce
      in work_items (batch_count ls total_limbs)
           (\<lambda>b. stores (enc_writes E g rounds nonce_size counter_size storage ls element_count inner b)))"

text \<open>An element of the result is a local variable of its type, \<open>element\<close> with any memory; \<open>total_limbs\<close> is the size of the
  inner shape, whose last dimension are the limbs.\<close>

definition dec_kernel ::
    "chacha_word eval \<Rightarrow> (nat \<Rightarrow> chacha_word) \<Rightarrow> nat \<Rightarrow> nat \<Rightarrow> nat \<Rightarrow> chacha_word list \<Rightarrow> chacha_word list \<Rightarrow> nat
     \<Rightarrow> chacha_word bit_span \<Rightarrow> nat \<Rightarrow> (nat \<Rightarrow> chacha_word) \<Rightarrow> chacha_word bit_span program list" where
  "dec_kernel E g rounds nonce_size counter_size key nonce ls element total_limbs inner =
     (let storage = cipher_storage_new E g nonce_size key nonce
      in work_items (batch_count ls total_limbs)
           (\<lambda>b. stores (dec_writes E g rounds nonce_size counter_size storage ls element inner b)))"

section \<open>One cipher for all elements\<close>

text \<open>The reference: a cipher with the counter 0 encrypts the elements in order.\<close>

definition enc_sequence ::
    "chacha_word eval \<Rightarrow> (nat \<Rightarrow> chacha_word) \<Rightarrow> chacha \<Rightarrow> nat \<Rightarrow> nat \<Rightarrow> (nat \<Rightarrow> chacha_word bit_span) \<Rightarrow> chacha_word list" where
  "enc_sequence E g c ls element_count inner = fst (for_range element_count
     (\<lambda>i (limbs, cipher). let (x, cipher) = the (cipher_enc E (chacha_call E) 16 g (limb_array_of (map g [0..<ls])) (Bits (inner i)) cipher)
        in (limbs @ data x, cipher))
     ([], cipher_new (chacha_call E) (\<lambda>_. c) ()))"

text \<open>The word at a position of the ciphertext.\<close>

definition cipher_word :: "chacha \<Rightarrow> nat \<Rightarrow> (nat \<Rightarrow> chacha_word bit_span) \<Rightarrow> nat \<Rightarrow> chacha_word" where
  "cipher_word c ls inner a = limb_of (span_int (inner (a div ls))) (a mod ls) XOR chacha_word_at c a"

lemma converting_same: "converting_limb_size TYPE(32) TYPE(32) n = n"
  by (simp add: converting_limb_size_def)

lemma stream_mask_same: "stream_mask c n k = map (\<lambda>j. chacha_word_at c (n + j)) [0..<k]"
  by (simp add: stream_mask_def converted_def)

lemma cipher_limbs:
  assumes "sycl_ok E" and "bigint_ok (inner i)" and "length r = ls"
  shows "data (num_bit_xor E (limb_array_of r) (Bits (inner i)) (Limb_span (stream_mask c (i * ls) ls)))
    = map (\<lambda>j. cipher_word c ls inner (i * ls + j)) [0..<ls]"
proof -
  let ?r = "limb_array_of r" and ?m = "stream_mask c (i * ls) ls :: chacha_word list"
  have "length (data ?r) = limb_size ?r" by simp
  from num_bitwise_eq(3) [OF assms(1) this]
  have "num_bit_xor E ?r (Bits (inner i)) (Limb_span ?m) = store ?r (span_int (inner i) XOR limbs_int ?m)"
    by (simp add: get_int_Limb_span bigint_get [OF assms(1,2)])
  then show ?thesis
    using limb_of_limbs_int [of _ ?m] assms(3) by (simp add: data_store_limb_array limb_of_xor cipher_word_def stream_mask_same)
qed

lemma cipher_enc_element:
  assumes "sycl_ok E" and "chacha_ok c" and "bigint_ok (inner i)" and "limb_size (inner i) = ls"
  shows "\<exists>x. cipher_enc E (chacha_call E) 16 g (limb_array_of (map g [0..<ls])) (Bits (inner i)) (generator_at (chacha_call E) 16 c (i * ls))
      = Some (x, generator_at (chacha_call E) 16 c ((i + 1) * ls))
    \<and> data x = map (\<lambda>j. cipher_word c ls inner (i * ls + j)) [0..<ls]"
proof -
  let ?r = "limb_array_of (map g [0..<ls])" and ?m = "stream_mask c (i * ls) ls :: chacha_word list"
  have one: "(32 :: nat) = 1 * LENGTH(32)" by simp
  have "data (num_bit_xor E ?r (Bits (inner i)) (Limb_span ?m)) = map (\<lambda>j. cipher_word c ls inner (i * ls + j)) [0..<ls]"
    by (rule cipher_limbs) (simp_all add: assms(1,3))
  then show ?thesis
    using cipher_enc_at [OF assms(1,2) one, of ?r "Bits (inner i)" E g "i * ls"] assms(4) by (simp add: converting_same add.commute)
qed

lemma enc_sequence_eq:
  assumes "sycl_ok E" and "chacha_ok c" and "\<And>i. i < element_count \<Longrightarrow> bigint_ok (inner i) \<and> limb_size (inner i) = ls"
  shows "enc_sequence E g c ls element_count inner = map (cipher_word c ls inner) [0..<element_count * ls]"
proof -
  let ?step = "\<lambda>i (limbs, cipher). let (x, cipher) = the (cipher_enc E (chacha_call E) 16 g (limb_array_of (map g [0..<ls])) (Bits (inner i)) cipher)
        in (limbs @ data x, cipher)"
  have "for_range k ?step ([], generator_at (chacha_call E) 16 c 0)
      = (map (cipher_word c ls inner) [0..<k * ls], generator_at (chacha_call E) 16 c (k * ls))" if "k \<le> element_count" for k
    using that
  proof (induction k)
    case (Suc k)
    have up: "map (cipher_word c ls inner) [0..<k * ls] @ map (\<lambda>j. cipher_word c ls inner (k * ls + j)) [0..<ls] = map (cipher_word c ls inner) [0..<Suc k * ls]"
      by (rule nth_equalityI) (auto simp: nth_append)
    show ?case using Suc cipher_enc_element [OF assms(1,2), of inner k ls g] assms(3) [of k] up by auto
  qed simp
  then show ?thesis by (simp add: enc_sequence_def cipher_new_def chacha_engine.new_at)
qed

section \<open>What a work item writes\<close>

lemma batch_simps:
  assumes "0 < ls"
  shows "elements_per_batch ls * ls = batch_size ls" and "blocks_per_batch ls * 16 = batch_size ls"
    and "0 < batch_size ls" and "0 < elements_per_batch ls"
proof -
  show e: "elements_per_batch ls * ls = batch_size ls" "blocks_per_batch ls * 16 = batch_size ls"
    by (simp_all add: elements_per_batch_def blocks_per_batch_def batch_size_def)
  show b: "0 < batch_size ls" using assms by (simp add: batch_size_def lcm_pos_nat)
  show "0 < elements_per_batch ls" using e(1) b by (cases "elements_per_batch ls") simp_all
qed

lemma batch_index:
  assumes "0 < ls" and "b < batch_count ls n"
  shows "b * batch_size ls < n"
proof -
  let ?B = "batch_size ls"
  have B: "0 < ?B" by (rule batch_simps(3) [OF assms(1)])
  have "Suc b \<le> (n + ?B - 1) div ?B" using assms(2) by (simp add: batch_count_def div_ceil_def)
  then have "Suc b * ?B \<le> n + ?B - 1" using B by (simp only: less_eq_div_iff_mult_less_eq)
  then show ?thesis using B by simp
qed

lemma batch_of:
  assumes "0 < ls" and "a < n"
  shows "a div batch_size ls < batch_count ls n"
proof -
  let ?B = "batch_size ls"
  have B: "0 < ?B" by (rule batch_simps(3) [OF assms(1)])
  have "a div ?B * ?B < n" using assms(2) by (meson div_times_less_eq_dividend le_less_trans)
  then have "Suc (a div ?B) * ?B \<le> n + ?B - 1" using B by simp
  then have "Suc (a div ?B) \<le> (n + ?B - 1) div ?B" using B by (simp only: less_eq_div_iff_mult_less_eq)
  then show ?thesis by (simp add: batch_count_def div_ceil_def)
qed

text \<open>The cipher of a batch stands where the one cipher for all elements stands before the first element of the batch.\<close>

lemma batch_cipher:
  assumes "sycl_ok E" and "engine_sizes r n k" and "length key = 8" and "length nonce = n" and "0 < ls"
    and "b < batch_count ls t" and "t \<le> 2 ^ 64"
  shows "storage_cipher E g r n k (cipher_storage_new E g n key nonce) (of_nat (b * blocks_per_batch ls))
    = generator_at (chacha_call E) 16 (keyed_engine r n k key nonce) (b * elements_per_batch ls * ls)"
proof -
  have "b * blocks_per_batch ls * 16 < t" using batch_index [OF assms(5,6)] batch_simps(2) [OF assms(5)] by (simp add: mult.assoc)
  then have "b * blocks_per_batch ls < 2 ^ 64" using assms(7) by simp
  from storage_cipher_at [OF assms(1-4) this, of g]
  have "storage_cipher E g r n k (cipher_storage_new E g n key nonce) (of_nat (b * blocks_per_batch ls))
      = generator_at (chacha_call E) 16 (keyed_engine r n k key nonce) (16 * (b * blocks_per_batch ls))" .
  moreover have "16 * (b * blocks_per_batch ls) = b * (blocks_per_batch ls * 16)" by simp
  moreover have "b * (elements_per_batch ls * ls) = b * elements_per_batch ls * ls" by simp
  ultimately show ?thesis by (simp only: batch_simps(1,2) [OF assms(5)])
qed

lemma write_loop: "for_range n (\<lambda>j ws. ws @ [(z + j, f j)]) ws = ws @ map (\<lambda>j. (z + j, f j)) [0..<n]"
  by (induction n) simp_all

lemma enc_writes_eq:
  assumes "sycl_ok E" and "engine_sizes r n k" and "length key = 8" and "length nonce = n" and "0 < ls"
    and "\<And>i. i < element_count \<Longrightarrow> bigint_ok (inner i) \<and> limb_size (inner i) = ls"
    and "b < batch_count ls (element_count * ls)" and "element_count * ls \<le> 2 ^ 64"
  shows "enc_writes E g r n k (cipher_storage_new E g n key nonce) ls element_count inner b
    = map (\<lambda>a. (a, cipher_word (keyed_engine r n k key nonce) ls inner a))
        [b * batch_size ls..<min ((b + 1) * batch_size ls) (element_count * ls)]"
proof -
  let ?c = "keyed_engine r n k key nonce" and ?P = "elements_per_batch ls"
  let ?step = "\<lambda>e (writes, cipher).
              let i = b * elements_per_batch ls + e
              in if i < element_count
                 then let element = inner i;
                          (encrypted_limbs, cipher) =
                            the (cipher_enc E (chacha_call E) 16 g (limb_array_of (map g [0..<ls])) (Bits element) cipher)
                      in (for_range ls (\<lambda>j writes. writes @ [(i * ls + j, data encrypted_limbs ! j)]) writes, cipher)
                 else (writes, cipher)"
  let ?w = "\<lambda>lo hi. map (\<lambda>a. (a, cipher_word ?c ls inner a)) [lo..<hi]"
  note B = batch_simps [OF assms(5)]
  have c: "chacha_ok ?c" by (rule keyed_engine(1) [OF assms(2-4)])
  have "b * ?P * ls < element_count * ls" using batch_index [OF assms(5,7)] B(1) by (simp add: mult.assoc)
  then have lt: "b * ?P < element_count" using assms(5) by simp
  have "for_range e ?step ([], generator_at (chacha_call E) 16 ?c (b * ?P * ls))
      = (?w (b * ?P * ls) (min (b * ?P + e) element_count * ls), generator_at (chacha_call E) 16 ?c (min (b * ?P + e) element_count * ls))"
    for e
  proof (induction e)
    case 0
    then show ?case using lt by simp
  next
    case (Suc e)
    let ?i = "b * ?P + e"
    show ?case
    proof (cases "?i < element_count")
      case True
      then obtain x where x: "cipher_enc E (chacha_call E) 16 g (limb_array_of (map g [0..<ls])) (Bits (inner ?i)) (generator_at (chacha_call E) 16 ?c (?i * ls))
          = Some (x, generator_at (chacha_call E) 16 ?c ((?i + 1) * ls))" "data x = map (\<lambda>j. cipher_word ?c ls inner (?i * ls + j)) [0..<ls]"
        using cipher_enc_element [OF assms(1) c, of inner ?i ls g] assms(6) by blast
      have m: "min ?i element_count = ?i" "min (b * ?P + Suc e) element_count = ?i + 1" using True by simp_all
      have "map (\<lambda>j. (?i * ls + j, cipher_word ?c ls inner (?i * ls + j))) [0..<ls] = ?w (?i * ls) ((?i + 1) * ls)"
        by (rule nth_equalityI) simp_all
      moreover have "?w (b * ?P * ls) (?i * ls) @ ?w (?i * ls) ((?i + 1) * ls) = ?w (b * ?P * ls) ((?i + 1) * ls)"
      proof -
        have "[b * ?P * ls..<?i * ls + ls] = [b * ?P * ls..<?i * ls] @ [?i * ls..<?i * ls + ls]" by (rule upt_add_eq_append) simp
        moreover have "?i * ls + ls = (?i + 1) * ls" by simp
        ultimately show ?thesis by (simp only: map_append)
      qed
      moreover have "for_range ls (\<lambda>j writes. writes @ [(?i * ls + j, data x ! j)]) ws
          = ws @ map (\<lambda>j. (?i * ls + j, cipher_word ?c ls inner (?i * ls + j))) [0..<ls]" for ws
        unfolding write_loop by (simp add: x(2))
      ultimately show ?thesis using Suc x(1) True unfolding m by (simp add: Let_def)
    next
      case False
      then show ?thesis using Suc by simp
    qed
  qed
  from this [of ?P] have "enc_writes E g r n k (cipher_storage_new E g n key nonce) ls element_count inner b
      = ?w (b * ?P * ls) (min (b * ?P + ?P) element_count * ls)"
    by (simp only: enc_writes_def Let_def batch_cipher [OF assms(1-5,7,8)] fst_conv)
  moreover have "min (b * ?P + ?P) element_count * ls = min ((b + 1) * batch_size ls) (element_count * ls)"
  proof -
    have "min x y * ls = min (x * ls) (y * ls)" for x y using assms(5) by (simp add: min_def)
    then show ?thesis by (simp add: B(1) [symmetric] add_mult_distrib mult.assoc add.commute)
  qed
  ultimately show ?thesis by (simp only: B(1) mult.assoc)
qed

section \<open>Encryption in parallel\<close>

definition enc_ok ::
    "chacha_word eval \<Rightarrow> nat \<Rightarrow> nat \<Rightarrow> nat \<Rightarrow> chacha_word list \<Rightarrow> chacha_word list \<Rightarrow> nat \<Rightarrow> nat \<Rightarrow> (nat \<Rightarrow> chacha_word bit_span) \<Rightarrow> bool" where
  "enc_ok E r n k key nonce ls element_count inner \<longleftrightarrow> sycl_ok E \<and> engine_sizes r n k \<and> length key = 8 \<and> length nonce = n \<and> 0 < ls
     \<and> element_count * ls \<le> 2 ^ 64 \<and> (\<forall>i < element_count. bigint_ok (inner i) \<and> limb_size (inner i) = ls)"

lemma enc_okD:
  assumes "enc_ok E r n k key nonce ls element_count inner"
  shows "sycl_ok E" "engine_sizes r n k" "length key = 8" "length nonce = n" "0 < ls" "element_count * ls \<le> 2 ^ 64"
    "\<And>i. i < element_count \<Longrightarrow> bigint_ok (inner i) \<and> limb_size (inner i) = ls"
  using assms by (simp_all add: enc_ok_def)

lemma enc_writes_ok:
  assumes "enc_ok E r n k key nonce ls element_count inner" and "b < batch_count ls (element_count * ls)"
  shows "enc_writes E g r n k (cipher_storage_new E g n key nonce) ls element_count inner b
    = map (\<lambda>a. (a, cipher_word (keyed_engine r n k key nonce) ls inner a))
        [b * batch_size ls..<min ((b + 1) * batch_size ls) (element_count * ls)]"
  by (rule enc_writes_eq [OF enc_okD(1-5) [OF assms(1)] _ assms(2) enc_okD(6) [OF assms(1)]])
    (rule enc_okD(7) [OF assms(1)])

lemma batches_disjoint: "(i :: nat) < j \<Longrightarrow> (i + 1) * B \<le> j * B"
  by (rule mult_le_mono1) simp

interpretation enc_batches: race_free
    "\<lambda>(ls, element_count, inner). enc_ok E r n k key nonce ls element_count inner"
    "\<lambda>(ls, element_count, inner). batch_count ls (element_count * ls)" "\<lambda>(ls, element_count, inner). element_count * ls"
    "\<lambda>(ls, element_count, inner) b. stores (enc_writes E g r n k (cipher_storage_new E g n key nonce) ls element_count inner b)"
    "\<lambda>(ls, element_count, inner) b. {b * batch_size ls..<min ((b + 1) * batch_size ls) (element_count * ls)}"
  for E g r n k key nonce
proof
  fix c :: "nat \<times> nat \<times> (nat \<Rightarrow> chacha_word bit_span)" and i j
  obtain ls element_count inner where c: "c = (ls, element_count, inner)" by (rule prod_cases3)
  assume ok: "case c of (ls, element_count, inner) \<Rightarrow> enc_ok E r n k key nonce ls element_count inner"
    and i: "i < (case c of (ls, element_count, inner) \<Rightarrow> batch_count ls (element_count * ls))"
  show "(case c of (ls, element_count, inner) \<Rightarrow> \<lambda>b. {b * batch_size ls..<min ((b + 1) * batch_size ls) (element_count * ls)}) i
      \<subseteq> {..<case c of (ls, element_count, inner) \<Rightarrow> element_count * ls}" by (auto simp: c)
  show "within ((case c of (ls, element_count, inner) \<Rightarrow> \<lambda>b. {b * batch_size ls..<min ((b + 1) * batch_size ls) (element_count * ls)}) i)
      ((case c of (ls, element_count, inner) \<Rightarrow> \<lambda>b. stores (enc_writes E g r n k (cipher_storage_new E g n key nonce) ls element_count inner b)) i)"
    using ok i enc_writes_ok [of E r n k key nonce ls element_count inner i g] by (auto simp: c within_stores)
  assume "i \<noteq> j"
  then have "i < j \<or> j < i" by linarith
  then show "(case c of (ls, element_count, inner) \<Rightarrow> \<lambda>b. {b * batch_size ls..<min ((b + 1) * batch_size ls) (element_count * ls)}) i
      \<inter> (case c of (ls, element_count, inner) \<Rightarrow> \<lambda>b. {b * batch_size ls..<min ((b + 1) * batch_size ls) (element_count * ls)}) j = {}"
    using batches_disjoint [of i j "batch_size ls"] batches_disjoint [of j i "batch_size ls"] by (auto simp: c)
qed

lemma enc_kernel_final:
  assumes "enc_ok E r n k key nonce ls element_count inner" and "length m0 = element_count * ls"
    and "kernel_step\<^sup>*\<^sup>* (m0, enc_kernel E g r n k key nonce ls element_count inner) s" and "finished s"
  shows "fst s = map (cipher_word (keyed_engine r n k key nonce) ls inner) [0..<element_count * ls]"
proof (rule nth_equalityI)
  let ?N = "element_count * ls" and ?B = "batch_size ls"
  note fin = enc_batches.final_memory [of E r n k key nonce "(ls, element_count, inner)" m0 g s, simplified,
      folded enc_kernel_def [of E g r n k key nonce ls element_count inner, unfolded Let_def], OF assms(1,2,3,4)]
  show len: "length (fst s) = length (map (cipher_word (keyed_engine r n k key nonce) ls inner) [0..<?N])" using fin(1) by simp
  fix a assume "a < length (fst s)"
  then have a: "a < ?N" using len by simp
  let ?b = "a div ?B"
  have b: "?b < batch_count ls ?N" by (rule batch_of [OF enc_okD(5) [OF assms(1)] a])
  have in_b: "?b * ?B \<le> a" "a < (?b + 1) * ?B"
    using batch_simps(3) [OF enc_okD(5) [OF assms(1)]] dividend_less_div_times [of ?B a] by (simp_all add: mult.commute)
  let ?ws = "enc_writes E g r n k (cipher_storage_new E g n key nonce) ls element_count inner ?b"
  have "run (stores ?ws) m0 = Some (fold (\<lambda>w m. m[fst w := snd w]) ?ws m0)"
    by (rule run_stores) (use enc_writes_ok [OF assms(1) b] assms(2) in auto)
  then have "fst s ! a = fold (\<lambda>w m. m[fst w := snd w]) ?ws m0 ! a" using fin(2) [OF b] in_b a by simp
  also have "\<dots> = cipher_word (keyed_engine r n k key nonce) ls inner a"
    unfolding enc_writes_ok [OF assms(1) b] using fold_writes [of "min ((?b + 1) * ?B) ?N" m0 a] assms(2) in_b a by simp
  finally show "fst s ! a = map (cipher_word (keyed_engine r n k key nonce) ls inner) [0..<?N] ! a" using a by simp
qed

lemma enc_kernel_ends:
  assumes "enc_ok E r n k key nonce ls element_count inner" and "length m0 = element_count * ls"
  shows "\<exists>s. kernel_step\<^sup>*\<^sup>* (m0, enc_kernel E g r n k key nonce ls element_count inner) s \<and> finished s"
  using enc_batches.every_execution(4) [of E r n k key nonce "(ls, element_count, inner)" m0 g, simplified,
      folded enc_kernel_def [of E g r n k key nonce ls element_count inner, unfolded Let_def], OF assms rtranclp.rtrancl_refl] by blast

section \<open>Decryption in parallel\<close>

definition dec_element ::
    "chacha_word eval \<Rightarrow> chacha \<Rightarrow> nat \<Rightarrow> chacha_word bit_span \<Rightarrow> (nat \<Rightarrow> chacha_word) \<Rightarrow> nat \<Rightarrow> chacha_word bit_span" where
  "dec_element E c ls element inner i =
     num_bit_xor E element (Limb_span (map (\<lambda>l. inner (i * ls + l)) [0..<ls])) (Limb_span (stream_mask c (i * ls) ls))"

definition dec_ok ::
    "chacha_word eval \<Rightarrow> nat \<Rightarrow> nat \<Rightarrow> nat \<Rightarrow> chacha_word list \<Rightarrow> chacha_word list \<Rightarrow> nat \<Rightarrow> chacha_word bit_span \<Rightarrow> nat \<Rightarrow> bool" where
  "dec_ok E r n k key nonce ls element element_count \<longleftrightarrow> sycl_ok E \<and> engine_sizes r n k \<and> length key = 8 \<and> length nonce = n \<and> 0 < ls
     \<and> element_count * ls \<le> 2 ^ 64 \<and> limb_size element = ls"

lemma dec_okD:
  assumes "dec_ok E r n k key nonce ls element element_count"
  shows "sycl_ok E" "engine_sizes r n k" "length key = 8" "length nonce = n" "0 < ls" "element_count * ls \<le> 2 ^ 64"
    "limb_size element = ls"
  using assms by (simp_all add: dec_ok_def)

lemma for_range_fill: "length limbs = n \<Longrightarrow> for_range n (\<lambda>l limbs. limbs[l := f l]) limbs = map f [0..<n]"
  using for_range_list [of limbs f] by simp

lemma dec_writes_eq:
  assumes "dec_ok E r n k key nonce ls element element_count" and "b < batch_count ls (element_count * ls)"
  shows "dec_writes E g r n k (cipher_storage_new E g n key nonce) ls element inner b
    = map (\<lambda>i. (i, dec_element E (keyed_engine r n k key nonce) ls element inner i))
        [b * elements_per_batch ls..<(b + 1) * elements_per_batch ls]"
proof -
  let ?c = "keyed_engine r n k key nonce" and ?P = "elements_per_batch ls"
  note ok = dec_okD [OF assms(1)]
  let ?step = "\<lambda>e (writes, cipher).
              let i = b * elements_per_batch ls + e;
                  encrypted_limbs = for_range ls (\<lambda>l limbs. limbs[l := inner (i * ls + l)]) (map g [0..<ls]);
                  (element, cipher) =
                    the (cipher_dec E (chacha_call E) 16 g element (Limb_span encrypted_limbs) cipher)
              in (writes @ [(i, element)], cipher)"
  let ?w = "\<lambda>lo hi. map (\<lambda>i. (i, dec_element E ?c ls element inner i)) [lo..<hi]"
  have c: "chacha_ok ?c" by (rule keyed_engine(1) [OF ok(2-4)])
  have one: "(32 :: nat) = 1 * LENGTH(32)" by simp
  have dec: "cipher_dec E (chacha_call E) 16 g element (Limb_span (map (\<lambda>l. inner (i * ls + l)) [0..<ls])) (generator_at (chacha_call E) 16 ?c (i * ls))
      = Some (dec_element E ?c ls element inner i, generator_at (chacha_call E) 16 ?c ((i + 1) * ls))" for i
    using cipher_enc_at [OF ok(1) c one, of element "Limb_span (map (\<lambda>l. inner (i * ls + l)) [0..<ls])" E g "i * ls"] ok(7)
    by (simp add: cipher_dec_def dec_element_def converting_same add.commute)
  have "for_range e ?step ([], generator_at (chacha_call E) 16 ?c (b * ?P * ls))
      = (?w (b * ?P) (b * ?P + e), generator_at (chacha_call E) 16 ?c ((b * ?P + e) * ls))" for e
    by (induction e) (simp_all add: Let_def for_range_fill dec [simplified])
  from this [of ?P] show ?thesis
    by (simp only: dec_writes_def Let_def batch_cipher [OF ok(1-5) assms(2) ok(6)] fst_conv)
      (simp add: add.commute)
qed

text \<open>The elements of a batch exist all of them if the batches are whole.\<close>

lemma batch_elements:
  assumes "0 < ls" and "b < batch_count ls (element_count * ls)"
  shows "b * elements_per_batch ls < element_count"
proof -
  have "b * elements_per_batch ls * ls < element_count * ls"
    using batch_index [OF assms] batch_simps(1) [OF assms(1)] by (simp add: mult.assoc)
  then show ?thesis using assms(1) by simp
qed

lemma whole_batches:
  assumes "0 < ls" and "b < batch_count ls (element_count * ls)" and "elements_per_batch ls dvd element_count"
  shows "(b + 1) * elements_per_batch ls \<le> element_count"
proof -
  obtain q where q: "element_count = elements_per_batch ls * q" using assms(3) by (rule dvdE)
  then have "b < q" using batch_elements [OF assms(1,2)] by (simp add: mult.commute)
  then have "(b + 1) * elements_per_batch ls \<le> q * elements_per_batch ls" by (intro mult_le_mono1) simp
  then show ?thesis by (simp add: q mult.commute)
qed

interpretation dec_batches: race_free
    "\<lambda>(ls, element, element_count, inner). dec_ok E r n k key nonce ls element element_count \<and> elements_per_batch ls dvd element_count"
    "\<lambda>(ls, element, element_count, inner). batch_count ls (element_count * ls)" "\<lambda>(ls, element, element_count, inner). element_count"
    "\<lambda>(ls, element, element_count, inner) b. stores (dec_writes E g r n k (cipher_storage_new E g n key nonce) ls element inner b)"
    "\<lambda>(ls, element, element_count, inner) b. {b * elements_per_batch ls..<(b + 1) * elements_per_batch ls}"
  for E g r n k key nonce
proof
  fix c :: "nat \<times> chacha_word bit_span \<times> nat \<times> (nat \<Rightarrow> chacha_word)" and i j
  obtain ls element element_count inner where c: "c = (ls, element, element_count, inner)" by (rule prod_cases4)
  assume ok: "case c of (ls, element, element_count, inner) \<Rightarrow> dec_ok E r n k key nonce ls element element_count \<and> elements_per_batch ls dvd element_count"
    and i: "i < (case c of (ls, element, element_count, inner) \<Rightarrow> batch_count ls (element_count * ls))"
  have le: "(i + 1) * elements_per_batch ls \<le> element_count"
    by (rule whole_batches) (use ok i dec_okD(5) [of E r n k key nonce ls element element_count] in \<open>simp_all add: c\<close>)
  show "(case c of (ls, element, element_count, inner) \<Rightarrow> \<lambda>b. {b * elements_per_batch ls..<(b + 1) * elements_per_batch ls}) i
      \<subseteq> {..<case c of (ls, element, element_count, inner) \<Rightarrow> element_count}" using le by (auto simp: c)
  show "within ((case c of (ls, element, element_count, inner) \<Rightarrow> \<lambda>b. {b * elements_per_batch ls..<(b + 1) * elements_per_batch ls}) i)
      ((case c of (ls, element, element_count, inner) \<Rightarrow> \<lambda>b. stores (dec_writes E g r n k (cipher_storage_new E g n key nonce) ls element inner b)) i)"
    using ok i dec_writes_eq [of E r n k key nonce ls element element_count i g inner] by (auto simp: c within_stores)
  assume "i \<noteq> j"
  then have "i < j \<or> j < i" by linarith
  then show "(case c of (ls, element, element_count, inner) \<Rightarrow> \<lambda>b. {b * elements_per_batch ls..<(b + 1) * elements_per_batch ls}) i
      \<inter> (case c of (ls, element, element_count, inner) \<Rightarrow> \<lambda>b. {b * elements_per_batch ls..<(b + 1) * elements_per_batch ls}) j = {}"
    using batches_disjoint [of i j "elements_per_batch ls"] batches_disjoint [of j i "elements_per_batch ls"] by (auto simp: c)
qed

lemma dec_kernel_final:
  assumes "dec_ok E r n k key nonce ls element element_count" and "elements_per_batch ls dvd element_count" and "length m0 = element_count"
    and "kernel_step\<^sup>*\<^sup>* (m0, dec_kernel E g r n k key nonce ls element (element_count * ls) inner) s" and "finished s"
  shows "fst s = map (dec_element E (keyed_engine r n k key nonce) ls element inner) [0..<element_count]"
proof (rule nth_equalityI)
  let ?P = "elements_per_batch ls" and ?N = "element_count * ls"
  note ls = dec_okD(5) [OF assms(1)]
  note fin = dec_batches.final_memory [of E r n k key nonce "(ls, element, element_count, inner)" m0 g s, simplified,
      folded dec_kernel_def [of E g r n k key nonce ls element ?N inner, unfolded Let_def]]
  have fin1: "length (fst s) = element_count"
    and fin2: "\<And>b i. b < batch_count ls ?N \<Longrightarrow> i \<in> {b * ?P..<?P + b * ?P}
      \<Longrightarrow> fst s ! i = the (run (stores (dec_writes E g r n k (cipher_storage_new E g n key nonce) ls element inner b)) m0) ! i"
    using fin(1,2) assms by auto
  show len: "length (fst s) = length (map (dec_element E (keyed_engine r n k key nonce) ls element inner) [0..<element_count])"
    using fin1 by simp
  fix i assume "i < length (fst s)"
  then have i: "i < element_count" using len by simp
  let ?b = "i div ?P"
  have P: "0 < ?P" by (rule batch_simps(4) [OF ls])
  have "i * ls div batch_size ls = ?b" using ls by (simp add: batch_simps(1) [OF ls, symmetric])
  then have b: "?b < batch_count ls ?N" using batch_of [OF ls, of "i * ls" ?N] i ls by simp
  have in_b: "?b * ?P \<le> i" "i < (?b + 1) * ?P" using dividend_less_div_times [OF P, of i] by (simp_all add: mult.commute)
  have le: "(?b + 1) * ?P \<le> element_count" by (rule whole_batches [OF ls b assms(2)])
  let ?ws = "dec_writes E g r n k (cipher_storage_new E g n key nonce) ls element inner ?b"
  note ws = dec_writes_eq [OF assms(1) b, of g inner]
  have "run (stores ?ws) m0 = Some (fold (\<lambda>w m. m[fst w := snd w]) ?ws m0)"
    by (rule run_stores) (use le assms(3) in \<open>auto simp: ws\<close>)
  then have "fst s ! i = fold (\<lambda>w m. m[fst w := snd w]) ?ws m0 ! i" using fin2 [OF b, of i] in_b by simp
  also have "\<dots> = dec_element E (keyed_engine r n k key nonce) ls element inner i"
    unfolding ws using fold_writes [OF le [folded assms(3)], of i] in_b i assms(3) by simp
  finally show "fst s ! i = map (dec_element E (keyed_engine r n k key nonce) ls element inner) [0..<element_count] ! i"
    using i by simp
qed

lemma dec_element_plain:
  fixes E F :: "chacha_word eval"
  assumes "sycl_ok E" and "sycl_ok F" and "span_shape element" and "limb_size element = ls" and "bigint_ok (plain i)" and "limb_size (plain i) = ls"
    and "\<And>l. l < ls \<Longrightarrow> inner (i * ls + l) = cipher_word c ls plain (i * ls + l)"
  shows "dec_element E c ls element inner i = store element (span_int (plain i))"
proof -
  have "map (\<lambda>l. inner (i * ls + l)) [0..<ls]
      = data (num_bit_xor F (limb_array_of (replicate ls (0 :: chacha_word))) (Bits (plain i)) (Limb_span (stream_mask c (i * ls) ls)))"
    using cipher_limbs [of F plain i "replicate ls (0 :: chacha_word)" ls c] assms(2,5,7) by simp
  then show ?thesis
    using enc_dec_limbs [OF assms(1,2,3), of "replicate ls (0 :: chacha_word)" "stream_mask c (i * ls) ls" "Bits (plain i)"] assms(4)
    by (simp add: dec_element_def bigint_get [OF assms(2,5)])
qed

section \<open>Properties\<close>

text \<open>C20: Parallel encryption is safe and ends. However the work items of the batches are interleaved, no execution is infinite, no
  work item ever accesses memory outside the result, the kernel never gets stuck and can always be finished, and a finished
  execution has stored what one cipher stores that encrypts all elements in order: the batches use disjoint parts of the
  stream, and the whole of it up to the last element.\<close>

theorem enc_kernel_correct:
  fixes g :: "nat \<Rightarrow> chacha_word"
  assumes "enc_ok E r n k key nonce ls element_count inner" and "length m0 = element_count * ls"
  defines "start \<equiv> (m0, enc_kernel E g r n k key nonce ls element_count inner)"
  shows "(\<nexists>f. f 0 = start \<and> (\<forall>i. kernel_step (f i) (f (Suc i))))
    \<and> (\<forall>s. kernel_step\<^sup>*\<^sup>* start s \<longrightarrow> \<not> stuck s \<and> (\<forall>p \<in> set (snd s). \<not> faulting (fst s) p)
      \<and> (\<exists>t. kernel_step\<^sup>*\<^sup>* s t \<and> finished t)
      \<and> (finished s \<longrightarrow> fst s = enc_sequence E h (keyed_engine r n k key nonce) ls element_count inner))"
proof (intro conjI allI impI)
  show "\<nexists>f. f 0 = start \<and> (\<forall>i. kernel_step (f i) (f (Suc i)))" using no_infinite_execution by blast
  note enc = enc_batches.every_execution [of E r n k key nonce "(ls, element_count, inner)" m0 g, simplified,
      folded enc_kernel_def [of E g r n k key nonce ls element_count inner, unfolded Let_def], OF assms(1,2)]
  fix s assume s: "kernel_step\<^sup>*\<^sup>* start s"
  note s' = s [unfolded start_def]
  show "\<not> stuck s" by (rule enc(1) [OF s'])
  have "length (snd s) = batch_count ls (element_count * ls)" using kernel_steps_length [OF s'] by (simp add: enc_kernel_def Let_def)
  then show "\<forall>p \<in> set (snd s). \<not> faulting (fst s) p" using enc(2) [OF s'] by (auto simp: in_set_conv_nth)
  show "\<exists>t. kernel_step\<^sup>*\<^sup>* s t \<and> finished t" using enc(4) [OF s'] by (cases s) auto
  note ok = enc_okD [OF assms(1)]
  show "finished s \<Longrightarrow> fst s = enc_sequence E h (keyed_engine r n k key nonce) ls element_count inner"
    using enc_kernel_final [OF assms(1,2) s'] enc_sequence_eq [OF ok(1) keyed_engine(1) [OF ok(2-4)] ok(7)] by simp
qed

definition sample_element :: "nat \<Rightarrow> chacha_word bit_span" where
  "sample_element i = \<lparr>bit_size = 40, signedness = Without_sign, normal_type = Normal, data = [of_nat i, 1]\<rparr>"

lemma sample_element: "bigint_ok (sample_element i)" "limb_size (sample_element i) = 2" "span_int (sample_element i) = uint (of_nat i :: 32 word) + 2 ^ 32"
proof -
  let ?x = "uint (of_nat i :: 32 word) + 2 ^ 32"
  have v: "limbs_int [of_nat i, 1 :: 32 word] = ?x" by (simp add: limbs_int_nth numeral_2_eq_2)
  have "?x < 2 ^ 33" using uint_lt2p [of "of_nat i :: 32 word"] by simp
  then have m: "take_bit 40 ?x = ?x" "?x mod 2 ^ 64 = ?x" by (simp_all add: take_bit_eq_mod)
  show l: "limb_size (sample_element i) = 2" by (simp add: sample_element_def limb_size_def limb_size_for_def div_ceil_def)
  show "span_int (sample_element i) = ?x"
    using m(1) v by (simp add: sample_element_def span_int_def wrap_def is_signed_def)
  then show "bigint_ok (sample_element i)"
    using v l m(2) by (simp add: sample_element_def bigint_ok_def span_shape_def span_normal_def is_signed_def)
qed

lemma enc_kernel_correct_witness:
  "\<exists>t. kernel_step\<^sup>*\<^sup>* (replicate 6 0, enc_kernel sycl_device (\<lambda>_. 7) 20 3 1 (replicate 8 5) [1, 2, 3] 2 3 sample_element) t \<and> finished t"
proof -
  have ok: "enc_ok sycl_device 20 3 1 (replicate 8 5) [1, 2, 3] 2 3 sample_element" by (simp add: enc_ok_def engine_sizes_def sample_element sycl_ok_device)
  show ?thesis using enc_kernel_correct [OF ok, of "replicate 6 0" "\<lambda>_. 7" "\<lambda>_. 0"] by simp
qed

text \<open>C21: Encrypting and decrypting a tensor. If the number of elements is a multiple of the elements of a batch, then every
  execution of the decryption kernel on the result of any finished execution of the encryption kernel ends without an access outside
  the memory, and the finished elements have the integers of the plaintext, whatever their memory held.\<close>

theorem cipher_kernels_roundtrip:
  assumes "enc_ok E r n k key nonce ls element_count plain" and "length m0 = element_count * ls"
    and "kernel_step\<^sup>*\<^sup>* (m0, enc_kernel E g r n k key nonce ls element_count plain) s" and "finished s"
    and "sycl_ok F" and "elements_per_batch ls dvd element_count" and "length e0 = element_count" and "span_shape element"
    and "\<And>i. i < element_count \<Longrightarrow> bit_size element = bit_size (plain i) \<and> signedness element = signedness (plain i)"
    and "limb_size element = ls"
    and "kernel_step\<^sup>*\<^sup>* (e0, dec_kernel F h r n k key nonce ls element (element_count * ls) (\<lambda>a. fst s ! a)) t"
  shows "\<not> stuck t \<and> (\<exists>u. kernel_step\<^sup>*\<^sup>* t u \<and> finished u)
    \<and> (finished t \<longrightarrow> map span_int (fst t) = map (\<lambda>i. span_int (plain i)) [0..<element_count])"
proof (intro conjI impI)
  note ok = enc_okD [OF assms(1)]
  have dec_ok: "dec_ok F r n k key nonce ls element element_count" using ok assms(5,10) by (simp add: dec_ok_def)
  note dec = dec_batches.every_execution [of F r n k key nonce "(ls, element, element_count, \<lambda>a. fst s ! a)" e0 h, simplified,
      folded dec_kernel_def [of F h r n k key nonce ls element "element_count * ls" "\<lambda>a. fst s ! a", unfolded Let_def], OF _ _ assms(11)]
  have pre: "dec_ok F r n k key nonce ls element element_count \<and> elements_per_batch ls dvd element_count" using dec_ok assms(6) by blast
  show "\<not> stuck t" by (rule dec(1)) (use pre assms(7) in simp_all)
  show "\<exists>u. kernel_step\<^sup>*\<^sup>* t u \<and> finished u" using dec(4) pre assms(7) by (cases t) auto
  assume "finished t"
  then have t: "fst t = map (dec_element F (keyed_engine r n k key nonce) ls element (\<lambda>a. fst s ! a)) [0..<element_count]"
    by (rule dec_kernel_final [OF dec_ok assms(6,7,11)])
  have s: "fst s = map (cipher_word (keyed_engine r n k key nonce) ls plain) [0..<element_count * ls]"
    by (rule enc_kernel_final [OF assms(1-4)])
  have "span_int (dec_element F (keyed_engine r n k key nonce) ls element (\<lambda>a. fst s ! a) i) = span_int (plain i)" if i: "i < element_count" for i
  proof -
    have "(i + 1) * ls \<le> element_count * ls" by (rule mult_le_mono1) (use i in simp)
    then have "i * ls + l < element_count * ls" if "l < ls" for l using that by simp
    then have "dec_element F (keyed_engine r n k key nonce) ls element (\<lambda>a. fst s ! a) i = store element (span_int (plain i))"
      using ok(7) [OF i] assms(10) by (intro dec_element_plain [OF assms(5) ok(1) assms(8)]) (simp_all add: s)
    moreover have "in_range element (span_int (plain i))"
      using span_int_in_range [of "plain i"] unfolding in_range_def conjunct1 [OF assms(9) [OF i]] conjunct2 [OF assms(9) [OF i]] .
    ultimately show ?thesis using span_int_store_eq [OF assms(8)] by simp
  qed
  then show "map span_int (fst t) = map (\<lambda>i. span_int (plain i)) [0..<element_count]" by (simp add: t)
qed

lemma cipher_kernels_roundtrip_witness:
  "\<exists>s t. kernel_step\<^sup>*\<^sup>* (replicate 16 0, enc_kernel sycl_device (\<lambda>_. 7) 20 3 1 (replicate 8 5) [1, 2, 3] 2 8 sample_element) s \<and> finished s
    \<and> kernel_step\<^sup>*\<^sup>* (replicate 8 (sample_element 0),
        dec_kernel sycl_device (\<lambda>_. 7) 20 3 1 (replicate 8 5) [1, 2, 3] 2 (sample_element 9) (8 * 2) (\<lambda>a. fst s ! a)) t \<and> finished t
    \<and> map span_int (fst t) = map (\<lambda>i. span_int (sample_element i)) [0..<8]"
proof -
  have ok: "enc_ok sycl_device 20 3 1 (replicate 8 5) [1, 2, 3] 2 8 sample_element" by (simp add: enc_ok_def engine_sizes_def sample_element sycl_ok_device)
  have len: "length (replicate 16 (0 :: chacha_word)) = 8 * 2" "length (replicate 8 (sample_element 0)) = 8" by simp_all
  obtain s where s: "kernel_step\<^sup>*\<^sup>* (replicate 16 0, enc_kernel sycl_device (\<lambda>_. 7) 20 3 1 (replicate 8 5) [1, 2, 3] 2 8 sample_element) s" "finished s"
    using enc_kernel_ends [OF ok len(1), of "\<lambda>_. 7"] by blast
  have P: "elements_per_batch 2 dvd 8" by (simp add: elements_per_batch_def batch_size_def lcm_nat_def)
  have shape: "span_shape (sample_element 9)" using sample_element(1) by (simp add: bigint_ok_def)
  have sizes: "bit_size (sample_element 9) = bit_size (sample_element i) \<and> signedness (sample_element 9) = signedness (sample_element i)" for i
    by (simp add: sample_element_def)
  note rt = cipher_kernels_roundtrip [OF ok len(1) s sycl_ok_device P len(2) shape sizes sample_element(2)]
  from rt [OF rtranclp.rtrancl_refl, of "\<lambda>_. 7"] obtain t where
    t: "kernel_step\<^sup>*\<^sup>* (replicate 8 (sample_element 0),
        dec_kernel sycl_device (\<lambda>_. 7) 20 3 1 (replicate 8 5) [1, 2, 3] 2 (sample_element 9) (8 * 2) (\<lambda>a. fst s ! a)) t" "finished t"
    by blast
  show ?thesis using rt [OF t(1)] s t by blast
qed

text \<open>C39: The decryption kernel has no guard for the last batch: unless the number of elements is a multiple of the elements of
  a batch, no execution of it finishes, because the last work item writes an element that does not exist.\<close>

theorem dec_kernel_faults:
  fixes g :: "nat \<Rightarrow> chacha_word" and inner :: "nat \<Rightarrow> chacha_word"
  assumes "dec_ok E r n k key nonce ls element element_count" and "\<not> elements_per_batch ls dvd element_count" and "length m0 = element_count"
  defines "start \<equiv> (m0, dec_kernel E g r n k key nonce ls element (element_count * ls) inner)"
  shows "(\<forall>s. kernel_step\<^sup>*\<^sup>* start s \<longrightarrow> \<not> finished s) \<and> (\<exists>s. kernel_step\<^sup>*\<^sup>* start s \<and> stuck s)"
proof -
  let ?P = "elements_per_batch ls" and ?N = "element_count * ls"
  let ?b = "element_count div ?P"
  note ls = dec_okD(5) [OF assms(1)]
  have P: "0 < ?P" by (rule batch_simps(4) [OF ls])
  have pos: "0 < element_count" using assms(2) by (cases element_count) simp_all
  have "element_count mod ?P \<noteq> 0" using assms(2) by (simp add: mod_eq_0_iff_dvd)
  then have last: "?b * ?P < element_count" "element_count < (?b + 1) * ?P"
    using div_mult_mod_eq [of element_count ?P] dividend_less_div_times [OF P, of element_count] by (linarith, simp add: mult.commute)
  have "?b * ?P * ls < ?N" using last(1) ls by simp
  then have "?b * ?P * ls div batch_size ls < batch_count ls ?N" by (rule batch_of [OF ls])
  then have b: "?b < batch_count ls ?N" using batch_simps(3) [OF ls] by (simp add: mult.assoc batch_simps(1) [OF ls])
  have "(element_count, dec_element E (keyed_engine r n k key nonce) ls element inner element_count)
      \<in> set (dec_writes E g r n k (cipher_storage_new E g n key nonce) ls element inner ?b)"
    unfolding dec_writes_eq [OF assms(1) b] using last by auto
  then have "\<exists>w \<in> set (dec_writes E g r n k (cipher_storage_new E g n key nonce) ls element inner ?b). length m0 \<le> fst w"
    using assms(3) by force
  then show ?thesis
    unfolding start_def by (intro write_outside_stuck [where b = ?b]) (simp_all add: dec_kernel_def Let_def b)
qed

lemma dec_kernel_faults_witness:
  "\<exists>s. kernel_step\<^sup>*\<^sup>* (replicate 3 (sample_element 0), dec_kernel sycl_device (\<lambda>_. 7) 20 3 1 (replicate 8 5) [1, 2, 3] 2 (sample_element 9) (3 * 2) (\<lambda>_. 1)) s
    \<and> stuck s"
proof -
  have ok: "dec_ok sycl_device 20 3 1 (replicate 8 5) [1, 2, 3] 2 (sample_element 9) 3" by (simp add: dec_ok_def engine_sizes_def sample_element sycl_ok_device)
  have P: "\<not> elements_per_batch 2 dvd 3" by (simp add: elements_per_batch_def batch_size_def lcm_nat_def)
  show ?thesis using dec_kernel_faults [OF ok P, of "replicate 3 (sample_element 0)" "\<lambda>_. 7" "\<lambda>_. 1"] by simp
qed

end
