(* ===== verification/Bit_Reverse.thy ===== *)
theory Bit_Reverse
  imports Core_Bits
begin

unbundle bit_operations_syntax

text \<open>
  The reversal of the lowest bits of a 32-bit number (\<^verbatim>\<open>detail/utility.hpp\<close>): one overload for each power of two, which swaps
  neighbouring groups of bits of growing size, and one for the other sizes, which reverses the next larger power of two. The
  lemmas show each to be the reversal of the bits as a number, \<open>brv\<close>, whose recursion the transforms use.
\<close>

section \<open>The overloads\<close>

definition bit_reverse_2 :: "32 word \<Rightarrow> 32 word" where
  "bit_reverse_2 v = drop_bit 1 v OR push_bit 1 (v AND 0x1)"

definition bit_reverse_4 :: "32 word \<Rightarrow> 32 word" where
  "bit_reverse_4 v =
     (let v = (drop_bit 1 v AND 0x5) OR push_bit 1 (v AND 0x5)
      in drop_bit 2 v OR push_bit 2 (v AND 0x3))"

definition bit_reverse_8 :: "32 word \<Rightarrow> 32 word" where
  "bit_reverse_8 v =
     (let v = (drop_bit 1 v AND 0x55) OR push_bit 1 (v AND 0x55);
          v = (drop_bit 2 v AND 0x33) OR push_bit 2 (v AND 0x33)
      in drop_bit 4 v OR push_bit 4 (v AND 0xf))"

definition bit_reverse_16 :: "32 word \<Rightarrow> 32 word" where
  "bit_reverse_16 v =
     (let v = (drop_bit 1 v AND 0x5555) OR push_bit 1 (v AND 0x5555);
          v = (drop_bit 2 v AND 0x3333) OR push_bit 2 (v AND 0x3333);
          v = (drop_bit 4 v AND 0xf0f) OR push_bit 4 (v AND 0xf0f)
      in drop_bit 8 v OR push_bit 8 (v AND 0xff))"

definition bit_reverse_32 :: "32 word \<Rightarrow> 32 word" where
  "bit_reverse_32 v =
     (let v = (drop_bit 1 v AND 0x55555555) OR push_bit 1 (v AND 0x55555555);
          v = (drop_bit 2 v AND 0x33333333) OR push_bit 2 (v AND 0x33333333);
          v = (drop_bit 4 v AND 0xf0f0f0f) OR push_bit 4 (v AND 0xf0f0f0f);
          v = (drop_bit 8 v AND 0xff00ff) OR push_bit 8 (v AND 0xff00ff)
      in drop_bit 16 v OR push_bit 16 v)"

text \<open>The overloads for powers of two check that the number has no more bits; sizes without an overload are rejected.\<close>

definition bit_reverse_power :: "nat \<Rightarrow> 32 word \<Rightarrow> 32 word option" where
  "bit_reverse_power n v =
     (if n = 32 then Some (bit_reverse_32 v)
      else if 2 ^ n \<le> unat v then None
      else if n = 2 then Some (bit_reverse_2 v)
      else if n = 4 then Some (bit_reverse_4 v)
      else if n = 8 then Some (bit_reverse_8 v)
      else if n = 16 then Some (bit_reverse_16 v)
      else None)"

text \<open>The generic overload: the next power of two, then the lowest positions are shifted out.\<close>

definition bit_ceil :: "nat \<Rightarrow> nat" where
  "bit_ceil n = (if n \<le> 1 then 1 else 2 ^ std_bit_width (n - 1))"

definition bit_reverse :: "32 word \<Rightarrow> nat \<Rightarrow> 32 word option" where
  "bit_reverse v n =
     (if n \<in> {2, 4, 8, 16, 32} then bit_reverse_power n v
      else if 32 \<le> n then None
      else
        let next_power_of_two = bit_ceil n
        in if n = next_power_of_two then None
           else map_option (drop_bit (next_power_of_two - n)) (bit_reverse_power next_power_of_two v))"

text \<open>Each bit of a result, for one position after the other.\<close>

lemmas bit_reverse_bits = bit_or_iff bit_and_iff bit_drop_bit_eq bit_push_bit_iff

lemma bit_positions: "(\<forall>i < 32. P i) \<longleftrightarrow> (\<forall>i \<in> set (upt 0 32). P i)"
  by auto

lemma bit_reverse_bit:
  fixes v :: "32 word"
  shows "\<forall>i < 32. bit (bit_reverse_32 v) i = bit v (31 - i)"
    and "(\<And>j. 16 \<le> j \<Longrightarrow> \<not> bit v j) \<Longrightarrow> \<forall>i < 32. bit (bit_reverse_16 v) i \<longleftrightarrow> i < 16 \<and> bit v (15 - i)"
    and "(\<And>j. 8 \<le> j \<Longrightarrow> \<not> bit v j) \<Longrightarrow> \<forall>i < 32. bit (bit_reverse_8 v) i \<longleftrightarrow> i < 8 \<and> bit v (7 - i)"
    and "(\<And>j. 4 \<le> j \<Longrightarrow> \<not> bit v j) \<Longrightarrow> \<forall>i < 32. bit (bit_reverse_4 v) i \<longleftrightarrow> i < 4 \<and> bit v (3 - i)"
    and "(\<And>j. 2 \<le> j \<Longrightarrow> \<not> bit v j) \<Longrightarrow> \<forall>i < 32. bit (bit_reverse_2 v) i \<longleftrightarrow> i < 2 \<and> bit v (1 - i)"
  unfolding bit_positions bit_reverse_32_def bit_reverse_16_def bit_reverse_8_def bit_reverse_4_def bit_reverse_2_def Let_def
  by (simp_all add: upt_rec bit_reverse_bits del: push_bit_Suc drop_bit_Suc, simp_all add: numeral_eq_Suc)

text \<open>All overloads at once: reversing moves bit \<open>i\<close> to \<open>n - 1 - i\<close>.\<close>

lemma not_bit_above: "unat (v :: 32 word) < 2 ^ n \<Longrightarrow> n \<le> j \<Longrightarrow> \<not> bit v j"
proof
  assume v: "unat v < 2 ^ n" "n \<le> j" and "bit v j"
  then have "bit (unat v) j" by (simp add: bit_unsigned_iff)
  then have "2 ^ j \<le> unat v" by (metis bit_iff_odd div_less even_zero not_less)
  moreover have "(2 :: nat) ^ n \<le> 2 ^ j" by (rule power_increasing [OF v(2)]) simp
  ultimately show False using v(1) by linarith
qed

lemma bit_reverse_power_bit:
  assumes "n \<in> {2, 4, 8, 16, 32}" and "unat v < 2 ^ n"
  shows "\<exists>w. bit_reverse_power n v = Some w \<and> (\<forall>i < 32. bit w i \<longleftrightarrow> i < n \<and> bit v (n - 1 - i))"
proof -
  note above = not_bit_above [OF assms(2)]
  consider "n = 2" | "n = 4" | "n = 8" | "n = 16" | "n = 32" using assms(1) by blast
  then show ?thesis
  proof cases
    case 1
    then have "\<forall>i < 32. bit (bit_reverse_2 v) i \<longleftrightarrow> i < 2 \<and> bit v (1 - i)" by (intro bit_reverse_bit(5)) (use above in simp)
    then show ?thesis using 1 assms(2) by (simp add: bit_reverse_power_def)
  next
    case 2
    then have "\<forall>i < 32. bit (bit_reverse_4 v) i \<longleftrightarrow> i < 4 \<and> bit v (3 - i)" by (intro bit_reverse_bit(4)) (use above in simp)
    then show ?thesis using 2 assms(2) by (simp add: bit_reverse_power_def)
  next
    case 3
    then have "\<forall>i < 32. bit (bit_reverse_8 v) i \<longleftrightarrow> i < 8 \<and> bit v (7 - i)" by (intro bit_reverse_bit(3)) (use above in simp)
    then show ?thesis using 3 assms(2) by (simp add: bit_reverse_power_def)
  next
    case 4
    then have "\<forall>i < 32. bit (bit_reverse_16 v) i \<longleftrightarrow> i < 16 \<and> bit v (15 - i)" by (intro bit_reverse_bit(2)) (use above in simp)
    then show ?thesis using 4 assms(2) by (simp add: bit_reverse_power_def)
  next
    case 5
    then show ?thesis using bit_reverse_bit(1) [of v] by (simp add: bit_reverse_power_def)
  qed
qed

lemma bit_ceil_small:
  assumes "2 \<le> n" and "n < 32" and "n \<notin> {2, 4, 8, 16}"
  shows "bit_ceil n \<in> {4, 8, 16, 32}" and "n < bit_ceil n"
proof -
  let ?w = "std_bit_width (n - 1)"
  have c: "bit_ceil n = 2 ^ ?w" using assms(1) by (simp add: bit_ceil_def)
  have "n - 1 < 2 ^ ?w" by (rule std_bit_width_less)
  then have le: "n \<le> 2 ^ ?w" by simp
  have "?w \<le> 5" using assms(2) by (simp add: std_bit_width_le_iff)
  moreover have "\<not> ?w \<le> 1" using assms(1,3) unfolding std_bit_width_le_iff by auto
  ultimately have "?w \<in> {2, 3, 4, 5}" by auto
  then show "bit_ceil n \<in> {4, 8, 16, 32}" unfolding c by auto
  then show "n < bit_ceil n" using le assms(2,3) unfolding c by (metis insert_iff empty_iff le_neq_implies_less order_less_irrefl)
qed

lemma bit_of_nat_32: "bit (of_nat y :: 32 word) i \<longleftrightarrow> i < 32 \<and> bit y i"
  by transfer (simp add: bit_take_bit_iff bit_of_nat_iff_bit)

lemma bit_reverse_bits_eq:
  assumes "2 \<le> n" and "n \<le> 32" and "unat v < 2 ^ n"
  shows "\<exists>w. bit_reverse v n = Some w \<and> (\<forall>i < 32. bit w i \<longleftrightarrow> i < n \<and> bit v (n - 1 - i))"
proof (cases "n \<in> {2, 4, 8, 16, 32}")
  case True
  then show ?thesis using bit_reverse_power_bit [OF True assms(3)] by (auto simp: bit_reverse_def)
next
  case False
  let ?m = "bit_ceil n"
  have n: "n < 32" "n \<notin> {2, 4, 8, 16}" using False assms(2) by auto
  note m = bit_ceil_small [OF assms(1) n]
  have "(2 :: nat) ^ n \<le> 2 ^ ?m" using m(2) by (intro power_increasing) simp_all
  then have "unat v < 2 ^ ?m" using assms(3) by linarith
  then obtain w where w: "bit_reverse_power ?m v = Some w" "\<forall>i < 32. bit w i \<longleftrightarrow> i < ?m \<and> bit v (?m - 1 - i)"
    using bit_reverse_power_bit [of ?m v] m(1) by auto
  have "bit (drop_bit (?m - n) w) i \<longleftrightarrow> i < n \<and> bit v (n - 1 - i)" if "i < 32" for i
  proof (cases "?m - n + i < 32")
    case True
    have "?m - 1 - (?m - n + i) = n - 1 - i" using m(2) by simp
    then show ?thesis using w(2) True m(2) by (auto simp: bit_drop_bit_eq)
  next
    case False
    then have "\<not> i < n" using m by auto
    then show ?thesis using False using bit_imp_le_length [of w "?m - n + i"] by (auto simp: bit_drop_bit_eq)
  qed
  moreover have "bit_reverse v n = Some (drop_bit (?m - n) w)" using n m(2) w(1) False by (simp add: bit_reverse_def Let_def)
  ultimately show ?thesis by blast
qed

section \<open>The reversal of a number\<close>

fun brv :: "nat \<Rightarrow> nat \<Rightarrow> nat" where
  "brv 0 x = 0"
| "brv (Suc k) x = x mod 2 * 2 ^ k + brv k (x div 2)"

lemma brv_less: "brv k x < 2 ^ k"
proof (induction k x rule: brv.induct)
  case (2 k x)
  have "x mod 2 * 2 ^ k \<le> 1 * 2 ^ k" by (intro mult_le_mono1) simp
  then show ?case using 2 unfolding brv.simps power_Suc by linarith
qed simp

lemma bit_high_low:
  assumes "y < 2 ^ k"
  shows "bit (m * 2 ^ k + y :: nat) i \<longleftrightarrow> (if i < k then bit y i else bit m (i - k))"
proof (cases "i < k")
  case True
  then have "(2 :: nat) ^ k = 2 ^ (k - i) * 2 ^ i" by (simp flip: power_add)
  then have "m * 2 ^ k + y = y + m * 2 ^ (k - i) * 2 ^ i" by simp
  then have "(m * 2 ^ k + y) div 2 ^ i = y div 2 ^ i + m * 2 ^ (k - i)" by (simp only: div_mult_self1 power_not_zero) simp
  then show ?thesis using True by (simp add: bit_iff_odd)
next
  case False
  then have "(2 :: nat) ^ i = 2 ^ k * 2 ^ (i - k)" by (simp flip: power_add)
  then have "(m * 2 ^ k + y) div 2 ^ i = (m * 2 ^ k + y) div 2 ^ k div 2 ^ (i - k)" by (simp only: div_mult2_eq)
  then show ?thesis using False assms by (simp add: bit_iff_odd)
qed

lemma bit_brv: "bit (brv k x) i \<longleftrightarrow> i < k \<and> bit x (k - 1 - i)"
proof (induction k arbitrary: x i)
  case (Suc k)
  have "bit (brv (Suc k) x) i \<longleftrightarrow> (if i < k then bit (brv k (x div 2)) i else bit (x mod 2) (i - k))"
    unfolding brv.simps by (rule bit_high_low [OF brv_less])
  moreover have "bit (x mod 2) (i - k) \<longleftrightarrow> i = k \<and> bit x 0" if "\<not> i < k"
    using that by (cases "i - k") (auto simp: bit_0 bit_Suc)
  moreover have "bit (x div 2) (k - 1 - i) \<longleftrightarrow> bit x (k - i)" if "i < k"
  proof -
    have "k - i = Suc (k - 1 - i)" using that by simp
    then show ?thesis by (simp only: bit_Suc)
  qed
  ultimately show ?case using Suc.IH by auto
qed simp

lemma bit_reverse_eq:
  assumes "2 \<le> n" and "n \<le> 32" and "x < 2 ^ n"
  shows "bit_reverse (of_nat x) n = Some (of_nat (brv n x))"
proof -
  have "x < 2 ^ 32" using assms(3) power_increasing [OF assms(2), of "2 :: nat"] by linarith
  then have u: "unat (of_nat x :: 32 word) = x" by (simp add: unat_of_nat)
  then obtain w where w: "bit_reverse (of_nat x) n = Some w" "\<forall>i < 32. bit w i \<longleftrightarrow> i < n \<and> bit (of_nat x :: 32 word) (n - 1 - i)"
    using bit_reverse_bits_eq [OF assms(1,2), of "of_nat x"] assms(3) by auto
  have "w = of_nat (brv n x)"
    by (rule bit_word_eqI) (use w(2) assms(2) in \<open>auto simp: bit_brv bit_of_nat_32\<close>)
  then show ?thesis using w(1) by simp
qed

text \<open>Reversing twice, and the recursions that the transforms use.\<close>

lemma brv_brv: "x < 2 ^ k \<Longrightarrow> brv k (brv k x) = x"
proof (rule bit_eqI)
  fix i
  assume x: "x < 2 ^ k"
  have "\<not> bit x i" if "k \<le> i"
  proof
    assume "bit x i"
    then have "2 ^ i \<le> x" by (metis bit_iff_odd div_less even_zero not_less)
    then show False using x power_increasing [OF that, of "2 :: nat"] by linarith
  qed
  then show "bit (brv k (brv k x)) i = bit x i" by (cases "i < k") (auto simp: bit_brv)
qed

lemma brv_zero [simp]: "brv k 0 = 0"
  by (induction k) simp_all

lemma brv_double:
  assumes "x < 2 ^ k"
  shows "brv (Suc k) x = 2 * brv k x"
  using assms
proof (induction k arbitrary: x)
  case (Suc k)
  then have "brv (Suc k) (x div 2) = 2 * brv k (x div 2)" by (intro Suc.IH) simp
  then show ?case by simp
qed simp

lemma brv_top:
  assumes "x < 2 ^ k"
  shows "brv (Suc k) (2 ^ k + x) = Suc (2 * brv k x)"
  using assms
proof (induction k arbitrary: x)
  case (Suc k)
  have "(2 ^ Suc k + x) div 2 = 2 ^ k + x div 2" "(2 ^ Suc k + x) mod 2 = x mod 2" by simp_all
  moreover have "brv (Suc k) (2 ^ k + x div 2) = Suc (2 * brv k (x div 2))" using Suc.prems by (intro Suc.IH) simp
  ultimately show ?case by simp
qed simp

end
