(* ===== verification/Ntt.thy ===== *)
theory Ntt
  imports Kernel Bit_Reverse Interfaces
begin

text \<open>
  The kernels of the number theoretic transform (\<^verbatim>\<open>expr/number_theoretic_transform.hpp\<close>), for vectors of \<open>2 ^ k\<close> elements and any
  number \<open>es\<close> of vectors (\<open>element_size\<close>). The elements are of any type with the operators in a record; the table of roots is
  computed on the host. A transform is a list of kernels on one memory: the scratch buffer first, in which the elements
  of one position of all vectors are neighbours, and the result after it. The first kernel reads the inner
  expression (\<open>inner\<close>, a function of the linear index) and writes the scratch buffer, the next ones work in place, and the last one
  writes the result. The lemmas give the effect of each kernel, whatever the interleaving of its work items.
\<close>

section \<open>The table of roots\<close>

record 'e element_ops =
  op_add :: "'e \<Rightarrow> 'e \<Rightarrow> 'e"
  op_sub :: "'e \<Rightarrow> 'e \<Rightarrow> 'e"
  op_mul :: "'e \<Rightarrow> 'e \<Rightarrow> 'e"
  op_mul_assign :: "'e \<Rightarrow> 'e \<Rightarrow> 'e"

text \<open>\<open>g\<close> is the fresh memory of the tensor; a number that \<^verbatim>\<open>bit_reverse\<close> rejects is a failed assertion.\<close>

definition roots_step :: "'e element_ops \<Rightarrow> bool \<Rightarrow> nat \<Rightarrow> 'e \<Rightarrow> 'e \<Rightarrow> nat \<Rightarrow> ('e \<times> 'e list) option \<Rightarrow> ('e \<times> 'e list) option" where
  "roots_step R inverse_transform k root normalization i st =
     (case st of None \<Rightarrow> None
      | Some (pow, roots) \<Rightarrow>
        let pow = op_mul_assign R pow root
        in case bit_reverse (of_nat i) k of None \<Rightarrow> None
           | Some j \<Rightarrow> if inverse_transform \<and> j = 1 then Some (pow, roots[unat j := op_mul R pow normalization])
               else Some (pow, roots[unat j := pow]))"

definition get_roots :: "'e element_ops \<Rightarrow> bool \<Rightarrow> nat \<Rightarrow> 'e \<Rightarrow> 'e \<Rightarrow> 'e \<Rightarrow> (nat \<Rightarrow> 'e) \<Rightarrow> 'e list option" where
  "get_roots R inverse_transform k root one normalization g =
     (if 32 < k + 1 then None
      else
        let roots = map g [0..<2 ^ k];
            roots = roots[0 := if inverse_transform then normalization else one]
        in case bit_reverse 1 k of None \<Rightarrow> None
           | Some j \<Rightarrow> map_option snd (scan_range_from 2 (2 ^ k) (roots_step R inverse_transform k root normalization)
               (Some (root, roots[unat j := root]))))"

section \<open>The kernels\<close>

definition forward_first :: "'e element_ops \<Rightarrow> nat \<Rightarrow> nat \<Rightarrow> 'e list \<Rightarrow> (nat \<Rightarrow> 'e) \<Rightarrow> nat \<Rightarrow> 'e program" where
  "forward_first R k es roots inner work =
     (let i = work div (2 ^ k div 2);
          tid = work mod (2 ^ k div 2);
          step = 2 ^ k div 2;
          psi = roots ! 1;
          index = tid + i * 2 ^ k;
          index_step = tid + step + i * 2 ^ k;
          write_index = i + tid * es;
          write_index_step = i + (tid + step) * es;
          u = inner index;
          v = inner index_step;
          v = op_mul_assign R v psi
      in Store write_index (op_add R u v) (Store write_index_step (op_sub R u v) Done))"

definition forward_inner :: "'e element_ops \<Rightarrow> nat \<Rightarrow> nat \<Rightarrow> 'e list \<Rightarrow> nat \<Rightarrow> nat \<Rightarrow> 'e program" where
  "forward_inner R k es roots iteration work =
     (let tid = work div es;
          i = work mod es;
          len = 2 ^ iteration;
          step = 2 ^ k div len div 2;
          psi_step = tid div step;
          target_idx = psi_step * step * 2 + tid mod step;
          step_group = len + psi_step;
          psi = roots ! step_group;
          index = i + target_idx * es;
          index_step = i + (target_idx + step) * es
      in Load index (\<lambda>u. Load index_step (\<lambda>v.
           let v = op_mul_assign R v psi
           in Store index (op_add R u v) (Store index_step (op_sub R u v) Done))))"

definition forward_last :: "'e element_ops \<Rightarrow> nat \<Rightarrow> nat \<Rightarrow> 'e list \<Rightarrow> nat \<Rightarrow> 'e program" where
  "forward_last R k es roots work =
     (let tid = work div es;
          i = work mod es;
          len = 2 ^ k div 2;
          step = 1;
          target_idx = 2 * tid;
          step_group = len + tid;
          psi = roots ! step_group;
          index = i + target_idx * es;
          index_step = i + (target_idx + step) * es;
          write_index = target_idx + i * 2 ^ k;
          write_index_step = target_idx + step + i * 2 ^ k;
          tensor = 2 ^ k * es
      in Load index (\<lambda>u. Load index_step (\<lambda>v.
           let v = op_mul_assign R v psi
           in Store (tensor + write_index) (op_add R u v) (Store (tensor + write_index_step) (op_sub R u v) Done))))"

definition inverse_first :: "'e element_ops \<Rightarrow> nat \<Rightarrow> nat \<Rightarrow> 'e list \<Rightarrow> (nat \<Rightarrow> 'e) \<Rightarrow> nat \<Rightarrow> 'e program" where
  "inverse_first R k es roots inner work =
     (let i = work div (2 ^ k div 2);
          tid = work mod (2 ^ k div 2);
          len = 2 ^ k div 2;
          step = 1;
          target_idx = 2 * tid;
          step_group = len + tid;
          psi = roots ! step_group;
          index = target_idx + i * 2 ^ k;
          index_step = target_idx + step + i * 2 ^ k;
          write_index = i + target_idx * es;
          write_index_step = i + (target_idx + step) * es;
          u = inner index;
          v = inner index_step
      in Store write_index (op_add R u v) (Store write_index_step (op_mul R (op_sub R u v) psi) Done))"

definition inverse_inner :: "'e element_ops \<Rightarrow> nat \<Rightarrow> nat \<Rightarrow> 'e list \<Rightarrow> nat \<Rightarrow> nat \<Rightarrow> 'e program" where
  "inverse_inner R k es roots iteration work =
     (let tid = work div es;
          i = work mod es;
          len = 2 ^ k div 2 ^ (iteration + 1);
          step = 2 ^ k div len div 2;
          psi_step = tid div step;
          target_idx = psi_step * step * 2 + tid mod step;
          step_group = len + psi_step;
          psi = roots ! step_group;
          index = i + target_idx * es;
          index_step = i + (target_idx + step) * es
      in Load index (\<lambda>u. Load index_step (\<lambda>v.
           Store index (op_add R u v) (Store index_step (op_mul R (op_sub R u v) psi) Done))))"

definition inverse_last :: "'e element_ops \<Rightarrow> nat \<Rightarrow> nat \<Rightarrow> 'e list \<Rightarrow> nat \<Rightarrow> 'e program" where
  "inverse_last R k es roots work =
     (let tid = work div es;
          i = work mod es;
          step = 2 ^ k div 2;
          psi = roots ! 1;
          index = i + tid * es;
          index_step = i + (tid + step) * es;
          write_index = tid + i * 2 ^ k;
          write_index_step = tid + step + i * 2 ^ k;
          tensor = 2 ^ k * es
      in Load index (\<lambda>u. Load index_step (\<lambda>v.
           Store (tensor + write_index) (op_mul R (op_add R u v) (roots ! 0))
             (Store (tensor + write_index_step) (op_mul R (op_sub R u v) psi) Done))))"

text \<open>The loop over the iterations in between runs from 1; it asserts that this is not after its end.\<close>

definition forward_kernels :: "'e element_ops \<Rightarrow> nat \<Rightarrow> nat \<Rightarrow> 'e list \<Rightarrow> (nat \<Rightarrow> 'e) \<Rightarrow> 'e program list list" where
  "forward_kernels R k es roots inner =
     work_items (es * 2 ^ k div 2) (forward_first R k es roots inner)
     # map (\<lambda>iteration. work_items (2 ^ k div 2 * es) (forward_inner R k es roots iteration)) [1..<k - 1]
     @ [work_items (2 ^ k div 2 * es) (forward_last R k es roots)]"

definition inverse_kernels :: "'e element_ops \<Rightarrow> nat \<Rightarrow> nat \<Rightarrow> 'e list \<Rightarrow> (nat \<Rightarrow> 'e) \<Rightarrow> 'e program list list" where
  "inverse_kernels R k es roots inner =
     work_items (es * 2 ^ k div 2) (inverse_first R k es roots inner)
     # map (\<lambda>iteration. work_items (2 ^ k div 2 * es) (inverse_inner R k es roots iteration)) [1..<k - 1]
     @ [work_items (2 ^ k div 2 * es) (inverse_last R k es roots)]"

section \<open>Indices\<close>

text \<open>A position belongs to the work item that transforms it: blocks of \<open>2 * step\<close> positions, paired over the distance \<open>step\<close>.\<close>

definition target :: "nat \<Rightarrow> nat \<Rightarrow> nat" where
  "target s tid = tid div s * s * 2 + tid mod s"

definition pair_of :: "nat \<Rightarrow> nat \<Rightarrow> nat" where
  "pair_of s p = p div (2 * s) * s + p mod s"

lemma target_parts:
  assumes "0 < s"
  shows "target s tid div (2 * s) = tid div s" "target s tid mod (2 * s) = tid mod s"
    "(target s tid + s) div (2 * s) = tid div s" "(target s tid + s) mod (2 * s) = tid mod s + s"
proof -
  have t: "target s tid = tid mod s + tid div s * (2 * s)" by (simp add: target_def)
  have m: "tid mod s < s" using assms by simp
  show "target s tid div (2 * s) = tid div s" "target s tid mod (2 * s) = tid mod s"
    unfolding t using m by simp_all
  have t': "target s tid + s = (tid mod s + s) + tid div s * (2 * s)" by (simp add: target_def)
  show "(target s tid + s) div (2 * s) = tid div s" "(target s tid + s) mod (2 * s) = tid mod s + s"
    unfolding t' using m by simp_all
qed

lemma pair_of_target:
  assumes "0 < s"
  shows "pair_of s (target s tid) = tid" "pair_of s (target s tid + s) = tid"
proof -
  have "target s tid mod s = tid mod s" "(target s tid + s) mod s = tid mod s" by (simp_all add: target_def mod_add_left_eq [symmetric])
  then show "pair_of s (target s tid) = tid" "pair_of s (target s tid + s) = tid"
    by (simp_all add: pair_of_def target_parts [OF assms])
qed

lemma target_pair_of:
  assumes "0 < s"
  shows "p = (if p mod (2 * s) < s then target s (pair_of s p) else target s (pair_of s p) + s)"
proof -
  let ?r = "p mod (2 * s)"
  have ps: "p mod s = ?r mod s" by (simp add: mod_mod_cancel)
  have lt: "p mod s < s" using assms by simp
  have t: "target s (pair_of s p) = p div (2 * s) * (2 * s) + p mod s"
    using lt by (simp add: target_def pair_of_def)
  have "?r < 2 * s" using assms by simp
  then have r: "p mod s = (if ?r < s then ?r else ?r - s)" unfolding ps by (simp add: le_mod_geq)
  have p: "p div (2 * s) * (2 * s) + ?r = p" by (rule div_mult_mod_eq)
  show ?thesis
  proof (cases "?r < s")
    case True
    then have "p mod s = ?r" using r by (simp only: if_True)
    then show ?thesis using True p by (simp only: t if_True)
  next
    case False
    then have "p mod s = ?r - s" using r by (simp only: if_False)
    then have "target s (pair_of s p) + s = p" using False p unfolding t by linarith
    then show ?thesis using False by (simp only: if_False)
  qed
qed

lemma pair_of_less:
  assumes "0 < s" and "2 * s dvd n" and "p < n"
  shows "pair_of s p < n div 2"
proof -
  obtain q where n: "n = 2 * s * q" using assms(2) by (rule dvdE)
  have "p < q * (2 * s)" using assms(3) by (simp add: n ac_simps)
  then have "p div (2 * s) < q" by (rule less_mult_imp_div_less)
  then have "(p div (2 * s) + 1) * s \<le> q * s" by (intro mult_le_mono1) simp
  moreover have "p mod s < s" using assms(1) by simp
  ultimately have "pair_of s p < q * s" unfolding pair_of_def by (simp add: add_mult_distrib)
  moreover have "n div 2 = q * s" by (simp add: n)
  ultimately show ?thesis by simp
qed

lemma target_less:
  assumes "0 < s" and "2 * s dvd n" and "tid < n div 2"
  shows "target s tid + s < n"
proof -
  obtain q where n: "n = 2 * s * q" using assms(2) by (rule dvdE)
  have half: "n div 2 = q * s" by (simp add: n)
  then have "tid div s < q" using assms(3) by (simp only: less_mult_imp_div_less)
  then have "(tid div s + 1) * (2 * s) \<le> q * (2 * s)" by (intro mult_le_mono1) simp
  moreover have "tid mod s < s" using assms(1) by simp
  moreover have "target s tid + s = tid div s * (2 * s) + tid mod s + s" by (simp add: target_def)
  moreover have "n = q * (2 * s)" by (simp add: n)
  ultimately show ?thesis by (simp only: add_mult_distrib)
qed

lemma all_positions:
  assumes "0 < s" and "2 * s dvd n" and "\<And>tid. tid < n div 2 \<Longrightarrow> P (target s tid) \<and> P (target s tid + s)" and "p < n"
  shows "P p"
  using target_pair_of [OF assms(1), of p] assms(3) [OF pair_of_less [OF assms(1,2,4)]] by (metis (full_types))

section \<open>The three forms of a kernel\<close>

lemma target_bounds:
  assumes "0 < s" and "2 * s dvd 2 ^ k" and "tid < 2 ^ k div 2"
  shows "target s tid < 2 ^ k" "target s tid + s < 2 ^ k"
  using target_less [OF assms] by simp_all

text \<open>Two loads and two stores.\<close>

definition butterfly :: "nat \<Rightarrow> nat \<Rightarrow> nat \<Rightarrow> nat \<Rightarrow> ('e \<Rightarrow> 'e \<Rightarrow> 'e \<times> 'e) \<Rightarrow> 'e program" where
  "butterfly a b c d F = Load a (\<lambda>u. Load b (\<lambda>v. Store c (fst (F u v)) (Store d (snd (F u v)) Done)))"

lemma run_butterfly:
  assumes "a < length m" and "b < length m" and "c < length m" and "d < length m"
  shows "run (butterfly a b c d F) m = Some (m[c := fst (F (m ! a) (m ! b)), d := snd (F (m ! a) (m ! b))])"
  using assms by (simp add: butterfly_def)

lemma within_butterfly: "within A (butterfly a b c d F) \<longleftrightarrow> a \<in> A \<and> b \<in> A \<and> c \<in> A \<and> d \<in> A"
  by (auto simp: butterfly_def)

text \<open>Addresses in the scratch buffer and in the result.\<close>

lemma scratch_address:
  assumes "i < es" and "p < n"
  shows "(i + p * es) mod es = i" "(i + p * es) div es = p" "i + p * es < n * (es :: nat)"
proof -
  show "(i + p * es) mod es = i" "(i + p * es) div es = p" using assms(1) by simp_all
  have "(p + 1) * es \<le> n * es" by (intro mult_le_mono1) (use assms(2) in simp)
  then show "i + p * es < n * es" using assms(1) by simp
qed

lemma tensor_address:
  assumes "i < es" and "p < n"
  shows "(p + i * n) mod n = p" "(p + i * n) div n = i" "p + i * n < n * (es :: nat)"
  using scratch_address [OF assms(2,1)] by (simp_all add: mult.commute)

lemma work_parts:
  assumes "0 < es" and "work < 2 ^ k div 2 * (es :: nat)"
  shows "work mod es < es" "work div es < 2 ^ k div 2"
  using assms by (simp_all add: less_mult_imp_div_less)

lemma work_address:
  assumes "i < es" and "tid < h"
  shows "(tid * es + i) mod es = i" "(tid * es + i) div es = tid" "tid * es + i < h * (es :: nat)"
  using scratch_address [OF assms] assms(1) by (simp_all add: add.commute)

text \<open>In place: the owner of an address of the scratch buffer, and nobody for the result.\<close>

lemma inplace_kernel:
  fixes k es s :: nat and F :: "nat \<Rightarrow> nat \<Rightarrow> 'e \<Rightarrow> 'e \<Rightarrow> 'e \<times> 'e"
  defines "item \<equiv> \<lambda>work. butterfly (work mod es + target s (work div es) * es) (work mod es + (target s (work div es) + s) * es)
      (work mod es + target s (work div es) * es) (work mod es + (target s (work div es) + s) * es) (F (work mod es) (work div es))"
  assumes es: "0 < es" and s: "0 < s" and dvd: "2 * s dvd 2 ^ k" and m: "length m = 2 * (2 ^ k * es)"
  shows "\<exists>m'. queue_run [work_items (2 ^ k div 2 * es) item] m m'"
    and "kernel_step\<^sup>*\<^sup>* (m, work_items (2 ^ k div 2 * es) item) t \<Longrightarrow> \<not> stuck t"
    and "queue_run [work_items (2 ^ k div 2 * es) item] m m' \<Longrightarrow> length m' = length m
      \<and> (\<forall>i < es. \<forall>tid < 2 ^ k div 2.
          (m' ! (i + target s tid * es), m' ! (i + (target s tid + s) * es)) = F i tid (m ! (i + target s tid * es)) (m ! (i + (target s tid + s) * es)))"
proof -
  let ?n = "2 ^ k :: nat" and ?z = "2 * (2 ^ k * es)"
  define owner where "owner x = (if x < ?n * es then pair_of s (x div es) * es + x mod es else ?n * es)" for x
  have own: "owner (i + target s tid * es) = tid * es + i \<and> owner (i + (target s tid + s) * es) = tid * es + i
      \<and> i + target s tid * es < ?z \<and> i + (target s tid + s) * es < ?z \<and> i + target s tid * es \<noteq> i + (target s tid + s) * es"
    if "i < es" "tid < ?n div 2" for i tid
    using scratch_address [OF that(1) target_bounds(1) [OF s dvd that(2)]] scratch_address [OF that(1) target_bounds(2) [OF s dvd that(2)]] s es
    by (simp add: owner_def pair_of_target [OF s])
  have oc: "owner_computes (?n div 2 * es) ?z owner item"
    unfolding owner_computes_def item_def within_butterfly
    using own [OF work_parts [OF es]] by (auto simp del: add_mult_distrib)
  show "\<exists>m'. queue_run [work_items (?n div 2 * es) item] m m'" by (rule owned_kernel(1) [OF oc m])
  show "\<not> stuck t" if "kernel_step\<^sup>*\<^sup>* (m, work_items (?n div 2 * es) item) t" by (rule owned_kernel(3) [OF oc m that])
  show "length m' = length m \<and> (\<forall>i < es. \<forall>tid < ?n div 2.
      (m' ! (i + target s tid * es), m' ! (i + (target s tid + s) * es)) = F i tid (m ! (i + target s tid * es)) (m ! (i + (target s tid + s) * es)))"
    if r: "queue_run [work_items (?n div 2 * es) item] m m'"
  proof (intro conjI allI impI)
    note fin = owned_kernel(2) [OF oc m r]
    show "length m' = length m" using fin m by simp
    fix i tid assume i: "i < es" and tid: "tid < ?n div 2"
    let ?a = "i + target s tid * es" and ?b = "i + (target s tid + s) * es"
    note o = own [OF i tid]
    note w = work_address [OF i tid] and lt = work_address(3) [OF i tid]
    have "run (item (tid * es + i)) m = Some (m[?a := fst (F i tid (m ! ?a) (m ! ?b)), ?b := snd (F i tid (m ! ?a) (m ! ?b))])"
      unfolding item_def w(1,2) by (rule run_butterfly) (use o m in simp_all)
    moreover have "m' ! ?a = the (run (item (tid * es + i)) m) ! ?a" "m' ! ?b = the (run (item (tid * es + i)) m) ! ?b"
      using fin o lt by metis+
    ultimately show "(m' ! ?a, m' ! ?b) = F i tid (m ! ?a) (m ! ?b)" using o m by (simp add: nth_list_update)
  qed
qed

text \<open>From the inner expression to the scratch buffer, with the work items in the order of the result.\<close>

lemma first_kernel:
  fixes k es s :: nat and F :: "nat \<Rightarrow> nat \<Rightarrow> 'e \<times> 'e"
  defines "item \<equiv> \<lambda>work. stores
      [(work div (2 ^ k div 2) + target s (work mod (2 ^ k div 2)) * es, fst (F (work div (2 ^ k div 2)) (work mod (2 ^ k div 2)))),
       (work div (2 ^ k div 2) + (target s (work mod (2 ^ k div 2)) + s) * es, snd (F (work div (2 ^ k div 2)) (work mod (2 ^ k div 2))))]"
  assumes es: "0 < es" and s: "0 < s" and dvd: "2 * s dvd 2 ^ k" and k: "0 < k" and m: "length m = 2 * (2 ^ k * es)"
  shows "\<exists>m'. queue_run [work_items (es * 2 ^ k div 2) item] m m'"
    and "kernel_step\<^sup>*\<^sup>* (m, work_items (es * 2 ^ k div 2) item) t \<Longrightarrow> \<not> stuck t"
    and "queue_run [work_items (es * 2 ^ k div 2) item] m m' \<Longrightarrow> length m' = length m
      \<and> (\<forall>i < es. \<forall>tid < 2 ^ k div 2. (m' ! (i + target s tid * es), m' ! (i + (target s tid + s) * es)) = F i tid)"
proof -
  let ?n = "2 ^ k :: nat" and ?z = "2 * (2 ^ k * es)"
  let ?h = "?n div 2"
  have items: "es * ?n div 2 = es * ?h" using k by (cases k) simp_all
  have h: "0 < ?h" using k by (cases k) simp_all
  define owner where "owner x = (if x < ?n * es then x mod es * ?h + pair_of s (x div es) else ?n * es)" for x
  have own: "owner (i + target s tid * es) = i * ?h + tid \<and> owner (i + (target s tid + s) * es) = i * ?h + tid
      \<and> i + target s tid * es < ?z \<and> i + (target s tid + s) * es < ?z \<and> i + target s tid * es \<noteq> i + (target s tid + s) * es"
    if "i < es" "tid < ?h" for i tid
    using scratch_address [OF that(1) target_bounds(1) [OF s dvd that(2)]] scratch_address [OF that(1) target_bounds(2) [OF s dvd that(2)]] s es
    by (simp add: owner_def pair_of_target [OF s])
  have parts: "work div ?h < es" "work mod ?h < ?h" if "work < es * ?h" for work
    using that h by (simp_all add: less_mult_imp_div_less)
  have oc: "owner_computes (es * ?h) ?z owner item"
    unfolding owner_computes_def item_def within_stores using own [OF parts] by (auto simp: div_mult_mod_eq simp del: add_mult_distrib)
  show "\<exists>m'. queue_run [work_items (es * ?n div 2) item] m m'" unfolding items by (rule owned_kernel(1) [OF oc m])
  show "\<not> stuck t" if "kernel_step\<^sup>*\<^sup>* (m, work_items (es * ?n div 2) item) t" by (rule owned_kernel(3) [OF oc m that [unfolded items]])
  show "length m' = length m \<and> (\<forall>i < es. \<forall>tid < ?h. (m' ! (i + target s tid * es), m' ! (i + (target s tid + s) * es)) = F i tid)"
    if r: "queue_run [work_items (es * ?n div 2) item] m m'"
  proof (intro conjI allI impI)
    note fin = owned_kernel(2) [OF oc m r [unfolded items]]
    show "length m' = length m" using fin m by simp
    fix i tid assume i: "i < es" and tid: "tid < ?h"
    let ?a = "i + target s tid * es" and ?b = "i + (target s tid + s) * es"
    note o = own [OF i tid] and w = work_address [OF tid i]
    have "run (item (i * ?h + tid)) m = Some (m[?a := fst (F i tid), ?b := snd (F i tid)])"
      unfolding item_def w(1,2) using o m by (simp add: run_stores)
    moreover have "m' ! ?a = the (run (item (i * ?h + tid)) m) ! ?a" "m' ! ?b = the (run (item (i * ?h + tid)) m) ! ?b"
      using fin o w(3) by metis+
    ultimately show "(m' ! ?a, m' ! ?b) = F i tid" using o m by (simp add: nth_list_update)
  qed
qed

text \<open>From the scratch buffer to the result.\<close>

lemma last_kernel:
  fixes k es s :: nat and F :: "nat \<Rightarrow> nat \<Rightarrow> 'e \<Rightarrow> 'e \<Rightarrow> 'e \<times> 'e"
  defines "item \<equiv> \<lambda>work. butterfly (work mod es + target s (work div es) * es) (work mod es + (target s (work div es) + s) * es)
      (2 ^ k * es + (target s (work div es) + work mod es * 2 ^ k)) (2 ^ k * es + (target s (work div es) + s + work mod es * 2 ^ k))
      (F (work mod es) (work div es))"
  assumes es: "0 < es" and s: "0 < s" and dvd: "2 * s dvd 2 ^ k" and m: "length m = 2 * (2 ^ k * es)"
  shows "\<exists>m'. queue_run [work_items (2 ^ k div 2 * es) item] m m'"
    and "kernel_step\<^sup>*\<^sup>* (m, work_items (2 ^ k div 2 * es) item) t \<Longrightarrow> \<not> stuck t"
    and "queue_run [work_items (2 ^ k div 2 * es) item] m m' \<Longrightarrow> length m' = length m
      \<and> (\<forall>i < es. \<forall>tid < 2 ^ k div 2.
          (m' ! (2 ^ k * es + (target s tid + i * 2 ^ k)), m' ! (2 ^ k * es + (target s tid + s + i * 2 ^ k)))
          = F i tid (m ! (i + target s tid * es)) (m ! (i + (target s tid + s) * es)))"
proof -
  let ?n = "2 ^ k :: nat" and ?z = "2 * (2 ^ k * es)"
  define owner where "owner x = (if x < ?n * es then pair_of s (x div es) * es + x mod es
      else pair_of s ((x - ?n * es) mod ?n) * es + (x - ?n * es) div ?n)" for x
  have own: "owner (i + target s tid * es) = tid * es + i \<and> owner (i + (target s tid + s) * es) = tid * es + i
      \<and> i + target s tid * es < ?z \<and> i + (target s tid + s) * es < ?z"
    if "i < es" "tid < ?n div 2" for i tid
    using scratch_address [OF that(1) target_bounds(1) [OF s dvd that(2)]] scratch_address [OF that(1) target_bounds(2) [OF s dvd that(2)]] s es
    by (simp add: owner_def pair_of_target [OF s])
  have own': "owner (?n * es + (target s tid + i * ?n)) = tid * es + i \<and> owner (?n * es + (target s tid + s + i * ?n)) = tid * es + i
      \<and> ?n * es + (target s tid + i * ?n) < ?z \<and> ?n * es + (target s tid + s + i * ?n) < ?z
      \<and> ?n * es + (target s tid + i * ?n) \<noteq> ?n * es + (target s tid + s + i * ?n)"
    if "i < es" "tid < ?n div 2" for i tid
    using tensor_address [OF that(1) target_bounds(1) [OF s dvd that(2)]] tensor_address [OF that(1) target_bounds(2) [OF s dvd that(2)]] s
    by (simp add: owner_def pair_of_target [OF s] mult.commute [of es] add.assoc)
  have oc: "owner_computes (?n div 2 * es) ?z owner item"
    unfolding owner_computes_def item_def within_butterfly
    using own [OF work_parts [OF es]] own' [OF work_parts [OF es]] by (auto simp del: add_mult_distrib)
  show "\<exists>m'. queue_run [work_items (?n div 2 * es) item] m m'" by (rule owned_kernel(1) [OF oc m])
  show "\<not> stuck t" if "kernel_step\<^sup>*\<^sup>* (m, work_items (?n div 2 * es) item) t" by (rule owned_kernel(3) [OF oc m that])
  show "length m' = length m \<and> (\<forall>i < es. \<forall>tid < ?n div 2.
      (m' ! (?n * es + (target s tid + i * ?n)), m' ! (?n * es + (target s tid + s + i * ?n)))
      = F i tid (m ! (i + target s tid * es)) (m ! (i + (target s tid + s) * es)))"
    if r: "queue_run [work_items (?n div 2 * es) item] m m'"
  proof (intro conjI allI impI)
    note fin = owned_kernel(2) [OF oc m r]
    show "length m' = length m" using fin m by simp
    fix i tid assume i: "i < es" and tid: "tid < ?n div 2"
    let ?a = "i + target s tid * es" and ?b = "i + (target s tid + s) * es"
    let ?c = "?n * es + (target s tid + i * ?n)" and ?d = "?n * es + (target s tid + s + i * ?n)"
    note o = own [OF i tid] own' [OF i tid] and w = work_address [OF i tid]
    have "run (item (tid * es + i)) m = Some (m[?c := fst (F i tid (m ! ?a) (m ! ?b)), ?d := snd (F i tid (m ! ?a) (m ! ?b))])"
      unfolding item_def w(1,2) by (rule run_butterfly) (use o m in simp_all)
    moreover have "m' ! ?c = the (run (item (tid * es + i)) m) ! ?c" "m' ! ?d = the (run (item (tid * es + i)) m) ! ?d"
      using fin o w(3) by metis+
    ultimately show "(m' ! ?c, m' ! ?d) = F i tid (m ! ?a) (m ! ?b)" using o m by (simp add: nth_list_update)
  qed
qed

end
