(* ===== verification/Ntt_Math.thy ===== *)
theory Ntt_Math
  imports Bit_Reverse
begin

text \<open>
  What the number theoretic transform computes, on integers modulo \<open>q\<close>. A stage combines positions at a distance \<open>s\<close> with the
  weights \<open>w\<close>, which the program has in its table of roots. Number the blocks of all stages like the nodes of a binary heap: the
  vector is node 1, and the halves of node \<open>m\<close> are the nodes \<open>2 * m\<close> and \<open>2 * m + 1\<close>. The forward stages reduce a polynomial
  modulo smaller and smaller polynomials \<open>X ^ s - node w m\<close>, down to its values at the points \<open>node w (n + p)\<close>; the inverse
  stages undo them one by one, up to a factor of 2.
\<close>

definition forward_stage :: "nat \<Rightarrow> nat \<Rightarrow> (nat \<Rightarrow> int) \<Rightarrow> (nat \<Rightarrow> int) \<Rightarrow> nat \<Rightarrow> int" where
  "forward_stage s len w f p =
     (let psi = w (len + p div (2 * s))
      in if p mod (2 * s) < s then f p + f (p + s) * psi else f (p - s) - f p * psi)"

definition inverse_stage :: "nat \<Rightarrow> nat \<Rightarrow> (nat \<Rightarrow> int) \<Rightarrow> (nat \<Rightarrow> int) \<Rightarrow> nat \<Rightarrow> int" where
  "inverse_stage s len w f p =
     (let psi = w (len + p div (2 * s))
      in if p mod (2 * s) < s then f p + f (p + s) else (f (p - s) - f p) * psi)"

definition node :: "(nat \<Rightarrow> int) \<Rightarrow> nat \<Rightarrow> int" where
  "node w m = (if m \<le> 1 then - 1 else if even m then w (m div 2) else - w (m div 2))"

text \<open>The weights are square roots of the nodes.\<close>

definition square_roots :: "int \<Rightarrow> nat \<Rightarrow> (nat \<Rightarrow> int) \<Rightarrow> bool" where
  "square_roots q n w \<longleftrightarrow> (\<forall>m. 0 < m \<longrightarrow> m < n \<longrightarrow> w m ^ 2 mod q = node w m mod q)"

definition inverse_weights :: "int \<Rightarrow> (nat \<Rightarrow> int) \<Rightarrow> (nat \<Rightarrow> int) \<Rightarrow> bool" where
  "inverse_weights q w w' \<longleftrightarrow> (\<forall>m. 0 < m \<longrightarrow> w m * w' m mod q = 1 mod q)"

section \<open>Sums modulo a number\<close>

lemma mod_sumI:
  assumes "\<And>j. j \<in> A \<Longrightarrow> f j mod q = g j mod (q :: int)"
  shows "sum f A mod q = sum g A mod q"
  using assms mod_sum_eq [of f q A] mod_sum_eq [of g q A] by (metis (mono_tags, lifting) sum.cong)

lemma mod_powerI: "x mod q = y mod q \<Longrightarrow> x ^ n mod q = y ^ n mod (q :: int)"
  by (metis power_mod)

lemma mod_addI: "a mod q = b mod q \<Longrightarrow> c mod q = d mod q \<Longrightarrow> (a + c) mod q = (b + d) mod (q :: int)"
  by (metis mod_add_eq)

lemma mod_diffI: "a mod q = b mod q \<Longrightarrow> c mod q = d mod q \<Longrightarrow> (a - c) mod q = (b - d) mod (q :: int)"
  by (metis mod_diff_eq)

lemma mod_multI: "a mod q = b mod q \<Longrightarrow> c mod q = d mod q \<Longrightarrow> (a * c) mod q = (b * d) mod (q :: int)"
  by (metis mod_mult_eq)

lemma polynomial_mod:
  assumes "x mod q = y mod (q :: int)"
  shows "(\<Sum>j < n. c j * x ^ j) mod q = (\<Sum>j < n. c j * y ^ j) mod q"
  by (rule mod_sumI, rule mod_multI [OF refl mod_powerI [OF assms]])

lemma sum_even_odd: "(\<Sum>j < 2 * n. f j) = (\<Sum>j < n. f (2 * j) + f (2 * j + 1 :: nat) :: int)"
  by (induction n) simp_all

section \<open>Forward\<close>

lemma forward_stage_parts:
  assumes "r < s"
  shows "forward_stage s len w f (p * (2 * s) + r) = f (p * (2 * s) + r) + f (p * (2 * s) + (s + r)) * w (len + p)"
    and "forward_stage s len w f (p * (2 * s) + (s + r)) = f (p * (2 * s) + r) - f (p * (2 * s) + (s + r)) * w (len + p)"
proof -
  have "(p * (2 * s) + r) mod (2 * s) = r" "(p * (2 * s) + r) div (2 * s) = p"
    "(p * (2 * s) + (s + r)) mod (2 * s) = s + r" "(p * (2 * s) + (s + r)) div (2 * s) = p" using assms by simp_all
  moreover have "p * (2 * s) + (s + r) - s = p * (2 * s) + r" by simp
  ultimately show "forward_stage s len w f (p * (2 * s) + r) = f (p * (2 * s) + r) + f (p * (2 * s) + (s + r)) * w (len + p)"
    and "forward_stage s len w f (p * (2 * s) + (s + r)) = f (p * (2 * s) + r) - f (p * (2 * s) + (s + r)) * w (len + p)"
    using assms by (simp_all only: forward_stage_def Let_def if_True) (simp_all add: ac_simps)
qed

lemma node_half: "node w (2 ^ Suc t + p) = (if even p then w (2 ^ t + p div 2) else - w (2 ^ t + p div 2))"
proof -
  have "1 < (2 :: nat) ^ Suc t" by (rule one_less_power) simp_all
  then have "\<not> 2 ^ Suc t + p \<le> 1" by linarith
  moreover have "(2 ^ Suc t + p) div 2 = 2 ^ t + p div 2" "even (2 ^ Suc t + p) = even p" by simp_all
  ultimately show ?thesis by (simp only: node_def if_False)
qed

definition forward_stages :: "nat \<Rightarrow> (nat \<Rightarrow> int) \<Rightarrow> nat \<Rightarrow> (nat \<Rightarrow> int) \<Rightarrow> nat \<Rightarrow> int" where
  "forward_stages k w t a = fold (\<lambda>t. forward_stage (2 ^ (k - 1 - t)) (2 ^ t) w) [0..<t] a"

lemma forward_stages_simps [simp]:
  "forward_stages k w 0 a = a" "forward_stages k w (Suc t) a = forward_stage (2 ^ (k - 1 - t)) (2 ^ t) w (forward_stages k w t a)"
  by (simp_all add: forward_stages_def)

text \<open>After \<open>t\<close> stages, block \<open>p\<close> holds the coefficients of the polynomial modulo \<open>X ^ (2 ^ (k - t)) - node w (2 ^ t + p)\<close>.\<close>

lemma forward_stages_mod:
  assumes "square_roots q (2 ^ k) w" and "t \<le> k" and "p < 2 ^ t" and "r < 2 ^ (k - t)"
  shows "forward_stages k w t a (p * 2 ^ (k - t) + r) mod q = (\<Sum>j < 2 ^ t. a (j * 2 ^ (k - t) + r) * node w (2 ^ t + p) ^ j) mod q"
  using assms(2-4)
proof (induction t arbitrary: p r)
  case (Suc t)
  let ?s = "2 ^ (k - Suc t) :: nat" and ?p = "p div 2" and ?x = "node w (2 ^ Suc t + p)" and ?f = "forward_stages k w t a"
  let ?z = "node w (2 ^ t + ?p)" and ?psi = "w (2 ^ t + ?p)"
  have s: "2 ^ (k - t) = 2 * ?s" "k - 1 - t = k - Suc t" using Suc.prems(1) by (simp_all add: Suc_diff_Suc [symmetric] flip: power_Suc)
  have p: "?p < 2 ^ t" using Suc.prems(2) by simp
  have "?psi ^ 2 mod q = ?z mod q"
  proof -
    have "2 ^ t + ?p < 2 ^ Suc t" using p by simp
    also have "2 ^ Suc t \<le> (2 :: nat) ^ k" using Suc.prems(1) by (intro power_increasing) simp_all
    finally show ?thesis using assms(1) by (simp add: square_roots_def)
  qed
  moreover have x: "?x = (if even p then ?psi else - ?psi)"
    by (rule node_half)
  ultimately have sq: "?x ^ 2 mod q = ?z mod q" by simp
  have lo: "?f (?p * (2 * ?s) + r) mod q = (\<Sum>j < 2 ^ t. a (j * (2 * ?s) + r) * (?x ^ 2) ^ j) mod q"
    using Suc.IH [of ?p r] Suc.prems p polynomial_mod [OF sq] by (simp add: s(1))
  have hi: "?f (?p * (2 * ?s) + (?s + r)) mod q = (\<Sum>j < 2 ^ t. a (j * (2 * ?s) + (?s + r)) * (?x ^ 2) ^ j) mod q"
    using Suc.IH [of ?p "?s + r"] Suc.prems p polynomial_mod [OF sq] by (simp add: s(1))
  have val: "forward_stages k w (Suc t) a (p * ?s + r) = ?f (?p * (2 * ?s) + r) + ?f (?p * (2 * ?s) + (?s + r)) * ?x"
  proof (cases "even p")
    case True
    then have e: "p * ?s + r = ?p * (2 * ?s) + r" by auto
    show ?thesis by (simp only: e forward_stages_simps s(2) x True if_True forward_stage_parts(1) [OF Suc.prems(3)])
  next
    case False
    then obtain c where c: "p = 2 * c + 1" by (rule oddE)
    then have e: "p * ?s + r = ?p * (2 * ?s) + (?s + r)" by (simp add: add_mult_distrib)
    have "?f (?p * (2 * ?s) + r) - ?f (?p * (2 * ?s) + (?s + r)) * ?psi = ?f (?p * (2 * ?s) + r) + ?f (?p * (2 * ?s) + (?s + r)) * - ?psi" by simp
    then show ?thesis by (simp only: e forward_stages_simps s(2) x False if_False forward_stage_parts(2) [OF Suc.prems(3)])
  qed
  let ?lo = "\<Sum>j < 2 ^ t. a (j * (2 * ?s) + r) * (?x ^ 2) ^ j" and ?hi = "\<Sum>j < 2 ^ t. a (j * (2 * ?s) + (?s + r)) * (?x ^ 2) ^ j"
  have split: "?lo + ?hi * ?x = (\<Sum>j < 2 ^ Suc t. a (j * ?s + r) * ?x ^ j)"
  proof -
    have "?lo + ?hi * ?x = (\<Sum>j < 2 ^ t. a (2 * j * ?s + r) * ?x ^ (2 * j) + a ((2 * j + 1) * ?s + r) * ?x ^ (2 * j + 1))"
    proof -
      have "a (j * (2 * ?s) + r) * (?x ^ 2) ^ j = a (2 * j * ?s + r) * ?x ^ (2 * j)" for j
        by (simp add: power_mult [symmetric] ac_simps)
      moreover have "a (j * (2 * ?s) + (?s + r)) * (?x ^ 2) ^ j * ?x = a ((2 * j + 1) * ?s + r) * ?x ^ (2 * j + 1)" for j
        by (simp add: power_mult [symmetric] ac_simps add_mult_distrib)
      ultimately show ?thesis by (simp only: sum_distrib_right sum.distrib)
    qed
    then show ?thesis by (simp only: sum_even_odd power_Suc)
  qed
  have "forward_stages k w (Suc t) a (p * ?s + r) mod q = (?lo + ?hi * ?x) mod q"
    unfolding val by (intro mod_addI mod_multI lo hi refl)
  then show ?case unfolding split .
qed simp

text \<open>All points are roots of \<open>X ^ n + 1\<close>.\<close>

lemma node_power:
  assumes "square_roots q (2 ^ k) w" and "t \<le> k" and "p < 2 ^ t"
  shows "node w (2 ^ t + p) ^ 2 ^ t mod q = (- 1) mod q"
  using assms(2,3)
proof (induction t arbitrary: p)
  case 0
  then show ?case by (simp add: node_def)
next
  case (Suc t)
  let ?p = "p div 2"
  have p: "?p < 2 ^ t" using Suc.prems by simp
  have "2 ^ t + ?p < 2 ^ Suc t" using p by simp
  also have "2 ^ Suc t \<le> (2 :: nat) ^ k" using Suc.prems(1) by (intro power_increasing) simp_all
  finally have "w (2 ^ t + ?p) ^ 2 mod q = node w (2 ^ t + ?p) mod q" using assms(1) by (simp add: square_roots_def)
  then have "node w (2 ^ Suc t + p) ^ 2 mod q = node w (2 ^ t + ?p) mod q" unfolding node_half by simp
  then have "(node w (2 ^ Suc t + p) ^ 2) ^ 2 ^ t mod q = node w (2 ^ t + ?p) ^ 2 ^ t mod q" by (rule mod_powerI)
  then show ?case using Suc.IH [OF _ p] Suc.prems(1) by (simp add: power_mult)
qed

section \<open>Back\<close>

lemma inverse_stage_parts:
  assumes "r < s"
  shows "inverse_stage s len w f (p * (2 * s) + r) = f (p * (2 * s) + r) + f (p * (2 * s) + (s + r))"
    and "inverse_stage s len w f (p * (2 * s) + (s + r)) = (f (p * (2 * s) + r) - f (p * (2 * s) + (s + r))) * w (len + p)"
proof -
  have "(p * (2 * s) + r) mod (2 * s) = r" "(p * (2 * s) + r) div (2 * s) = p"
    "(p * (2 * s) + (s + r)) mod (2 * s) = s + r" "(p * (2 * s) + (s + r)) div (2 * s) = p" using assms by simp_all
  moreover have "p * (2 * s) + (s + r) - s = p * (2 * s) + r" by simp
  ultimately show "inverse_stage s len w f (p * (2 * s) + r) = f (p * (2 * s) + r) + f (p * (2 * s) + (s + r))"
    and "inverse_stage s len w f (p * (2 * s) + (s + r)) = (f (p * (2 * s) + r) - f (p * (2 * s) + (s + r))) * w (len + p)"
    using assms by (simp_all only: inverse_stage_def Let_def if_True) (simp_all add: ac_simps)
qed

lemma position_cases:
  assumes "0 < (s :: nat)"
  obtains b r where "r < s" and "p = b * (2 * s) + r \<or> p = b * (2 * s) + (s + r)"
proof (cases "p mod (2 * s) < s")
  case True
  moreover have "p = p div (2 * s) * (2 * s) + p mod (2 * s)" by (rule div_mult_mod_eq [symmetric])
  ultimately show ?thesis using that by blast
next
  case False
  have "p mod (2 * s) < 2 * s" using assms by simp
  then have "p mod (2 * s) - s < s" using False by linarith
  moreover have "p = p div (2 * s) * (2 * s) + (s + (p mod (2 * s) - s))"
    using False div_mult_mod_eq [of p "2 * s"] by linarith
  ultimately show ?thesis using that by blast
qed

lemma inverse_forward_stage:
  assumes "inverse_weights q w w'" and "0 < s" and "0 < len"
  shows "inverse_stage s len w' (forward_stage s len w f) p mod q = 2 * f p mod q"
proof -
  obtain b r where r: "r < s" and p: "p = b * (2 * s) + r \<or> p = b * (2 * s) + (s + r)" by (rule position_cases [OF assms(2)])
  have w: "w (len + b) * w' (len + b) mod q = 1 mod q" using assms(1,3) by (simp add: inverse_weights_def)
  from p show ?thesis
  proof
    assume "p = b * (2 * s) + r"
    then show ?thesis by (simp only: inverse_stage_parts(1) [OF r] forward_stage_parts [OF r]) simp
  next
    assume p: "p = b * (2 * s) + (s + r)"
    let ?v = "f (b * (2 * s) + (s + r))"
    have "inverse_stage s len w' (forward_stage s len w f) p = 2 * ?v * (w (len + b) * w' (len + b))"
      by (simp only: p inverse_stage_parts(2) [OF r] forward_stage_parts [OF r]) (simp add: algebra_simps)
    also have "\<dots> mod q = 2 * ?v * 1 mod q" by (rule mod_multI [OF refl w])
    finally show ?thesis by (simp add: p)
  qed
qed

lemma forward_inverse_stage:
  assumes "inverse_weights q w w'" and "0 < s" and "0 < len"
  shows "forward_stage s len w (inverse_stage s len w' f) p mod q = 2 * f p mod q"
proof -
  obtain b r where r: "r < s" and p: "p = b * (2 * s) + r \<or> p = b * (2 * s) + (s + r)" by (rule position_cases [OF assms(2)])
  have w: "w (len + b) * w' (len + b) mod q = 1 mod q" using assms(1,3) by (simp add: inverse_weights_def)
  let ?u = "f (b * (2 * s) + r)" and ?v = "f (b * (2 * s) + (s + r))"
  from p show ?thesis
  proof
    assume p: "p = b * (2 * s) + r"
    have "forward_stage s len w (inverse_stage s len w' f) p = ?u + ?v + (?u - ?v) * (w (len + b) * w' (len + b))"
      by (simp only: p inverse_stage_parts [OF r] forward_stage_parts(1) [OF r]) (simp add: algebra_simps)
    also have "\<dots> mod q = (?u + ?v + (?u - ?v) * 1) mod q" by (intro mod_addI mod_multI refl w)
    finally show ?thesis by (simp add: p)
  next
    assume p: "p = b * (2 * s) + (s + r)"
    have "forward_stage s len w (inverse_stage s len w' f) p = ?u + ?v - (?u - ?v) * (w (len + b) * w' (len + b))"
      by (simp only: p inverse_stage_parts [OF r] forward_stage_parts(2) [OF r]) (simp add: algebra_simps)
    also have "\<dots> mod q = (?u + ?v - (?u - ?v) * 1) mod q" by (intro mod_diffI mod_multI refl w)
    finally show ?thesis by (simp add: p)
  qed
qed

lemma stage_mod:
  assumes "\<And>p. f p mod q = g p mod q"
  shows "forward_stage s len w f p mod q = forward_stage s len w g p mod q"
    and "inverse_stage s len w f p mod q = inverse_stage s len w g p mod q"
  unfolding forward_stage_def inverse_stage_def Let_def
  using assms by (auto intro!: mod_addI mod_diffI mod_multI)

lemma stage_scale:
  "forward_stage s len w (\<lambda>p. c * f p) p = c * forward_stage s len w f p"
  "inverse_stage s len w (\<lambda>p. c * f p) p = c * inverse_stage s len w f p"
  by (simp_all add: forward_stage_def inverse_stage_def Let_def algebra_simps)

definition inverse_stages :: "nat \<Rightarrow> (nat \<Rightarrow> int) \<Rightarrow> nat \<Rightarrow> (nat \<Rightarrow> int) \<Rightarrow> nat \<Rightarrow> int" where
  "inverse_stages k w t a = fold (\<lambda>t. inverse_stage (2 ^ (k - 1 - t)) (2 ^ t) w) (rev [0..<t]) a"

lemma inverse_stages_simps [simp]:
  "inverse_stages k w 0 a = a" "inverse_stages k w (Suc t) a = inverse_stages k w t (inverse_stage (2 ^ (k - 1 - t)) (2 ^ t) w a)"
  by (simp_all add: inverse_stages_def)

lemma inverse_stages_mod:
  assumes "\<And>p. f p mod q = g p mod q"
  shows "inverse_stages k w t f p mod q = inverse_stages k w t g p mod q"
  using assms
proof (induction t arbitrary: f g p)
  case (Suc t)
  show ?case unfolding inverse_stages_simps by (rule Suc.IH, rule stage_mod(2), rule Suc.prems)
qed simp

lemma inverse_stages_scale: "inverse_stages k w t (\<lambda>p. c * f p) p = c * inverse_stages k w t f p"
proof (induction t arbitrary: f)
  case (Suc t)
  have "inverse_stage (2 ^ (k - 1 - t)) (2 ^ t) w (\<lambda>p. c * f p) = (\<lambda>p. c * inverse_stage (2 ^ (k - 1 - t)) (2 ^ t) w f p)"
    by (rule ext) (rule stage_scale)
  then show ?case using Suc by simp
qed simp

theorem inverse_forward_stages:
  assumes "inverse_weights q w w'"
  shows "inverse_stages k w' t (forward_stages k w t a) p mod q = 2 ^ t * a p mod q"
proof (induction t)
  case (Suc t)
  have "inverse_stages k w' (Suc t) (forward_stages k w (Suc t) a) p mod q = inverse_stages k w' t (\<lambda>p. 2 * forward_stages k w t a p) p mod q"
    unfolding inverse_stages_simps forward_stages_simps
    by (rule inverse_stages_mod, rule inverse_forward_stage [OF assms]) simp_all
  also have "\<dots> = 2 * (2 ^ t * a p) mod q" unfolding inverse_stages_scale by (rule mod_multI [OF refl Suc])
  finally show ?case by (simp only: power_Suc mult.assoc)
qed simp

theorem forward_inverse_stages:
  assumes "inverse_weights q w w'"
  shows "forward_stages k w t (inverse_stages k w' t a) p mod q = 2 ^ t * a p mod q"
proof (induction t arbitrary: a p)
  case (Suc t)
  let ?s = "2 ^ (k - 1 - t) :: nat" and ?i = "inverse_stage (2 ^ (k - 1 - t)) (2 ^ t) w' a"
  have "forward_stages k w (Suc t) (inverse_stages k w' (Suc t) a) p mod q = forward_stage ?s (2 ^ t) w (\<lambda>p. 2 ^ t * ?i p) p mod q"
    unfolding inverse_stages_simps forward_stages_simps by (rule stage_mod(1), rule Suc)
  also have "\<dots> = 2 ^ t * (2 * a p) mod q" unfolding stage_scale by (rule mod_multI [OF refl forward_inverse_stage [OF assms]]) simp_all
  finally show ?case by (simp add: ac_simps)
qed simp

section \<open>Powers of a root as weights\<close>

definition root_weights :: "nat \<Rightarrow> int \<Rightarrow> nat \<Rightarrow> int" where
  "root_weights k phi j = phi ^ brv k j"

lemma brv_one: "brv (Suc k) 1 = 2 ^ k"
  by simp

lemma square_roots_root:
  assumes "phi ^ 2 ^ k mod q = (- 1) mod q" and "0 < k"
  shows "square_roots q (2 ^ k) (root_weights k phi)"
  unfolding square_roots_def
proof (intro allI impI)
  fix m :: nat
  assume m: "0 < m" "m < 2 ^ k"
  obtain l where k: "k = Suc l" using assms(2) by (cases k) simp_all
  show "root_weights k phi m ^ 2 mod q = node (root_weights k phi) m mod q"
  proof (cases "m = 1")
    case True
    have "root_weights k phi m ^ 2 = phi ^ 2 ^ k" by (simp add: True k root_weights_def power_mult [symmetric] mult.commute)
    then show ?thesis using assms(1) by (simp add: True node_def)
  next
    case False
    have x: "m div 2 < 2 ^ l" using m(2) by (simp add: k)
    have "2 * brv k m = m mod 2 * 2 ^ k + brv k (m div 2)" using brv_double [OF x] by (simp add: k)
    then have "root_weights k phi m ^ 2 = phi ^ (m mod 2 * 2 ^ k) * root_weights k phi (m div 2)"
      unfolding root_weights_def by (simp only: power_mult [symmetric] power_add [symmetric] mult.commute [of _ 2])
    also have "\<dots> mod q = (if even m then 1 else - 1) * root_weights k phi (m div 2) mod q"
      using assms(1) by (intro mod_multI refl) (auto simp: odd_iff_mod_2_eq_one)
    finally show ?thesis using False m(1) by (simp add: node_def)
  qed
qed

lemma root_points:
  assumes "phi ^ 2 ^ k mod q = (- 1) mod q" and "0 < k" and "p < 2 ^ k"
  shows "node (root_weights k phi) (2 ^ k + p) mod q = phi ^ (2 * brv k p + 1) mod q"
proof -
  obtain l where k: "k = Suc l" using assms(2) by (cases k) simp_all
  have x: "p div 2 < 2 ^ l" using assms(3) by (simp add: k)
  have e: "2 * brv k p + 1 = p mod 2 * 2 ^ k + brv k (2 ^ l + p div 2)" using brv_top [OF x] by (simp add: k)
  have "phi ^ (2 * brv k p + 1) = phi ^ (p mod 2 * 2 ^ k) * root_weights k phi (2 ^ l + p div 2)"
    unfolding e root_weights_def by (simp add: power_add)
  also have "\<dots> mod q = (if even p then 1 else - 1) * root_weights k phi (2 ^ l + p div 2) mod q"
    using assms(1) by (intro mod_multI refl) (auto simp: odd_iff_mod_2_eq_one)
  also have "(if even p then 1 else - 1) * root_weights k phi (2 ^ l + p div 2) = node (root_weights k phi) (2 ^ k + p)"
    using node_half [of "root_weights k phi" l p] by (simp add: k)
  finally show ?thesis by simp
qed

lemma inverse_weights_root:
  assumes "phi * phi' mod q = 1 mod q"
  shows "inverse_weights q (root_weights k phi) (root_weights k phi')"
  using mod_powerI [OF assms] by (simp add: inverse_weights_def root_weights_def power_mult_distrib)

section \<open>Products of polynomials\<close>

text \<open>The coefficients of a product modulo \<open>X ^ n + 1\<close>.\<close>

definition negacyclic :: "nat \<Rightarrow> (nat \<Rightarrow> int) \<Rightarrow> (nat \<Rightarrow> int) \<Rightarrow> nat \<Rightarrow> int" where
  "negacyclic n a b l = (\<Sum>i < n. a i * (if i \<le> l then b (l - i) else - b (n + l - i)))"

lemma negacyclic_value:
  assumes "x ^ n mod q = (- 1) mod (q :: int)"
  shows "(\<Sum>l < n. negacyclic n a b l * x ^ l) mod q = (\<Sum>i < n. a i * x ^ i) * (\<Sum>j < n. b j * x ^ j) mod q"
proof -
  have row: "(\<Sum>l < n. (if i \<le> l then b (l - i) else - b (n + l - i)) * x ^ l) mod q = (\<Sum>j < n. b j * x ^ (i + j)) mod q"
    if i: "i < n" for i
  proof -
    let ?f = "\<lambda>l. (if i \<le> l then b (l - i) else - b (n + l - i)) * x ^ l"
    have to: "(i + (n + l - i) mod n) mod n = l" "(n + l - i) mod n < n" if "l < n" for l
    proof -
      have "(i + (n + l - i) mod n) mod n = (i + (n + l - i)) mod n" by (rule mod_add_right_eq)
      also have "i + (n + l - i) = l + n" using i by simp
      finally show "(i + (n + l - i) mod n) mod n = l" using that by simp
      show "(n + l - i) mod n < n" using i by simp
    qed
    have "inj_on (\<lambda>j. (i + j) mod n) {..<n}"
    proof (rule inj_onI)
      fix j j' assume j: "j \<in> {..<n}" "j' \<in> {..<n}" "(i + j) mod n = (i + j') mod n"
      have "(i + j) mod n = (if i + j < n then i + j else i + j - n)" if "j < n" for j
        using i that by (simp add: le_mod_geq)
      then show "j = j'" using j i by (simp split: if_splits)
    qed
    moreover have "(\<lambda>j. (i + j) mod n) ` {..<n} = {..<n}"
    proof (intro equalityI subsetI)
      show "l \<in> {..<n} \<Longrightarrow> l \<in> (\<lambda>j. (i + j) mod n) ` {..<n}" for l using to [of l] by (auto intro!: image_eqI [where x = "(n + l - i) mod n"])
    qed (use i in auto)
    ultimately have "(\<Sum>l < n. ?f l) = (\<Sum>j < n. ?f ((i + j) mod n))"
      using sum.reindex [of "\<lambda>j. (i + j) mod n" "{..<n}" ?f] by (simp only: comp_def)
    moreover have "?f ((i + j) mod n) mod q = b j * x ^ (i + j) mod q" if j: "j < n" for j
    proof (cases "i + j < n")
      case False
      then have m: "(i + j) mod n = i + j - n" using i j by (simp add: le_mod_geq)
      have "x ^ (i + j) = x ^ n * x ^ (i + j - n)" using False by (simp flip: power_add)
      then have "b j * x ^ (i + j) mod q = b j * ((- 1) * x ^ (i + j - n)) mod q" using assms by (simp only:) (intro mod_multI refl; simp)
      moreover have "\<not> i \<le> i + j - n" "n + (i + j - n) - i = j" using False i j by simp_all
      ultimately show ?thesis by (simp add: m)
    qed simp
    ultimately show ?thesis by (simp only:) (rule mod_sumI, simp)
  qed
  have "(\<Sum>l < n. negacyclic n a b l * x ^ l) = (\<Sum>l < n. \<Sum>i < n. a i * ((if i \<le> l then b (l - i) else - b (n + l - i)) * x ^ l))"
    by (simp only: negacyclic_def sum_distrib_right mult.assoc)
  also have "\<dots> = (\<Sum>i < n. \<Sum>l < n. a i * ((if i \<le> l then b (l - i) else - b (n + l - i)) * x ^ l))" by (rule sum.swap)
  also have "\<dots> = (\<Sum>i < n. a i * (\<Sum>l < n. (if i \<le> l then b (l - i) else - b (n + l - i)) * x ^ l))" by (simp only: sum_distrib_left)
  finally have "(\<Sum>l < n. negacyclic n a b l * x ^ l) mod q = (\<Sum>i < n. a i * (\<Sum>j < n. b j * x ^ (i + j))) mod q"
    by (simp only:) (rule mod_sumI, rule mod_multI [OF refl], rule row, simp)
  also have "(\<Sum>i < n. a i * (\<Sum>j < n. b j * x ^ (i + j))) = (\<Sum>i < n. a i * x ^ i) * (\<Sum>j < n. b j * x ^ j)"
  proof -
    have "a i * (\<Sum>j < n. b j * x ^ (i + j)) = a i * x ^ i * (\<Sum>j < n. b j * x ^ j)" for i
      by (simp add: sum_distrib_left power_add ac_simps)
    then show ?thesis by (simp only: sum_distrib_right)
  qed
  finally show ?thesis .
qed

end
