(* ===== verification/Ntt_Transform.thy ===== *)
theory Ntt_Transform
  imports Ntt Ntt_Math
begin

text \<open>
  The transforms compute the stages of \<^verbatim>\<open>Ntt_Math\<close>, on the values of any element type that provides the laws of the locale \<open>transform\<close>:
  the contents of the table of roots, one lemma per kernel, and the whole transforms. All of it holds for every
  interleaving of the work items of each kernel.
\<close>

section \<open>Stages on pairs\<close>

lemma forward_stage_target:
  assumes "0 < s"
  shows "forward_stage s len w f (target s tid) = f (target s tid) + f (target s tid + s) * w (len + tid div s)"
    and "forward_stage s len w f (target s tid + s) = f (target s tid) - f (target s tid + s) * w (len + tid div s)"
  using assms by (simp_all add: forward_stage_def target_parts)

lemma inverse_stage_target:
  assumes "0 < s"
  shows "inverse_stage s len w f (target s tid) = f (target s tid) + f (target s tid + s)"
    and "inverse_stage s len w f (target s tid + s) = (f (target s tid) - f (target s tid + s)) * w (len + tid div s)"
  using assms by (simp_all add: inverse_stage_def target_parts)

text \<open>The indices of the program are those of \<open>target\<close>.\<close>

lemma target_half: "tid < h \<Longrightarrow> target h tid = tid"
  by (simp add: target_def)

lemma target_one: "target 1 tid = 2 * tid"
  by (simp add: target_def)

lemma step_size:
  assumes "t < k"
  shows "(2 :: nat) ^ k div 2 ^ t div 2 = 2 ^ (k - 1 - t)" "(2 :: nat) ^ k div 2 ^ (t + 1) = 2 ^ (k - 1 - t)"
    "2 * 2 ^ (k - 1 - t) dvd (2 :: nat) ^ k"
proof -
  obtain d where k: "k = t + Suc d" using less_imp_Suc_add [OF assms] by auto
  show "(2 :: nat) ^ k div 2 ^ t div 2 = 2 ^ (k - 1 - t)" "(2 :: nat) ^ k div 2 ^ (t + 1) = 2 ^ (k - 1 - t)"
    "2 * 2 ^ (k - 1 - t) dvd (2 :: nat) ^ k"
    by (simp_all add: k power_add)
qed

section \<open>Elements\<close>

locale transform = modular valid val modulus "op_add R" "op_sub R" "op_mul R"
  for R :: "'e element_ops" and valid :: "'e \<Rightarrow> bool" and val :: "'e \<Rightarrow> int" and modulus :: int +
  assumes mul_assign_law: "valid x \<Longrightarrow> valid y \<Longrightarrow> valid (op_mul_assign R x y) \<and> val (op_mul_assign R x y) = (val x * val y) mod modulus"
begin

definition elem :: "'e \<Rightarrow> int \<Rightarrow> bool" where
  "elem x a \<longleftrightarrow> valid x \<and> val x = a mod modulus"

lemma elem_add: "elem x a \<Longrightarrow> elem y b \<Longrightarrow> elem (op_add R x y) (a + b)"
  by (simp add: elem_def add_law mod_simps)

lemma elem_sub: "elem x a \<Longrightarrow> elem y b \<Longrightarrow> elem (op_sub R x y) (a - b)"
  by (simp add: elem_def sub_law mod_simps)

lemma elem_mul: "elem x a \<Longrightarrow> elem y b \<Longrightarrow> elem (op_mul R x y) (a * b)"
  by (simp add: elem_def mul_law mod_simps)

lemma elem_mul_assign: "elem x a \<Longrightarrow> elem y b \<Longrightarrow> elem (op_mul_assign R x y) (a * b)"
  by (simp add: elem_def mul_assign_law mod_simps)

lemmas elems = elem_add elem_sub elem_mul elem_mul_assign

lemma elem_mod: "elem x a \<Longrightarrow> a mod modulus = b mod modulus \<Longrightarrow> elem x b"
  by (simp add: elem_def)

lemma elem_val: "valid x \<Longrightarrow> elem x (val x)"
  by (simp add: elem_def val_mod)

text \<open>The parts of the memory for \<open>es\<close> vectors of \<open>2 ^ k\<close> elements each, and the inner expression.\<close>

definition scratch_holds :: "nat \<Rightarrow> nat \<Rightarrow> 'e list \<Rightarrow> (nat \<Rightarrow> nat \<Rightarrow> int) \<Rightarrow> bool" where
  "scratch_holds k es m f \<longleftrightarrow> length m = 2 * (2 ^ k * es) \<and> (\<forall>i < es. \<forall>p < 2 ^ k. elem (m ! (i + p * es)) (f i p))"

definition result_holds :: "nat \<Rightarrow> nat \<Rightarrow> 'e list \<Rightarrow> (nat \<Rightarrow> nat \<Rightarrow> int) \<Rightarrow> bool" where
  "result_holds k es m f \<longleftrightarrow> length m = 2 * (2 ^ k * es) \<and> (\<forall>i < es. \<forall>p < 2 ^ k. elem (m ! (2 ^ k * es + (p + i * 2 ^ k))) (f i p))"

definition inner_holds :: "nat \<Rightarrow> nat \<Rightarrow> (nat \<Rightarrow> 'e) \<Rightarrow> (nat \<Rightarrow> nat \<Rightarrow> int) \<Rightarrow> bool" where
  "inner_holds k es inner f \<longleftrightarrow> (\<forall>i < es. \<forall>p < 2 ^ k. elem (inner (p + i * 2 ^ k)) (f i p))"

definition roots_hold :: "nat \<Rightarrow> 'e list \<Rightarrow> (nat \<Rightarrow> int) \<Rightarrow> bool" where
  "roots_hold k roots w \<longleftrightarrow> (\<forall>m. 0 < m \<longrightarrow> m < 2 ^ k \<longrightarrow> elem (roots ! m) (w m))"

text \<open>Pairs of positions are all positions.\<close>

lemma scratch_pairs:
  assumes "0 < s" and "2 * s dvd 2 ^ k" and "length m = 2 * (2 ^ k * es)"
    and "\<And>i tid. i < es \<Longrightarrow> tid < 2 ^ k div 2 \<Longrightarrow> elem (m ! (i + target s tid * es)) (f i (target s tid))
      \<and> elem (m ! (i + (target s tid + s) * es)) (f i (target s tid + s))"
  shows "scratch_holds k es m f"
  unfolding scratch_holds_def
proof (intro conjI allI impI assms(3))
  fix i p :: nat
  assume i: "i < es" and p: "p < 2 ^ k"
  show "elem (m ! (i + p * es)) (f i p)"
    by (rule all_positions [OF assms(1,2) assms(4) [OF i] p])
qed

lemma result_pairs:
  assumes "0 < s" and "2 * s dvd 2 ^ k" and "length m = 2 * (2 ^ k * es)"
    and "\<And>i tid. i < es \<Longrightarrow> tid < 2 ^ k div 2 \<Longrightarrow> elem (m ! (2 ^ k * es + (target s tid + i * 2 ^ k))) (f i (target s tid))
      \<and> elem (m ! (2 ^ k * es + (target s tid + s + i * 2 ^ k))) (f i (target s tid + s))"
  shows "result_holds k es m f"
  unfolding result_holds_def
proof (intro conjI allI impI assms(3))
  fix i p :: nat
  assume i: "i < es" and p: "p < 2 ^ k"
  show "elem (m ! (2 ^ k * es + (p + i * 2 ^ k))) (f i p)"
    by (rule all_positions [OF assms(1,2) assms(4) [OF i] p])
qed

end

section \<open>One kernel\<close>

context transform begin

lemma forward_pair:
  assumes "0 < s" and "elem u (f (target s tid))" and "elem v (f (target s tid + s))" and "elem psi (w (len + tid div s))"
  shows "elem (op_add R u (op_mul_assign R v psi)) (forward_stage s len w f (target s tid))"
    and "elem (op_sub R u (op_mul_assign R v psi)) (forward_stage s len w f (target s tid + s))"
  using assms by (simp_all add: forward_stage_target elems)

lemma inverse_pair:
  assumes "0 < s" and "elem u (f (target s tid))" and "elem v (f (target s tid + s))" and "elem psi (w (len + tid div s))"
  shows "elem (op_add R u v) (inverse_stage s len w f (target s tid))"
    and "elem (op_mul R (op_sub R u v) psi) (inverse_stage s len w f (target s tid + s))"
  using assms by (simp_all add: inverse_stage_target elems)

lemma step_group:
  assumes "t < k" and "tid < 2 ^ k div 2"
  shows "0 < (2 :: nat) ^ t + tid div 2 ^ (k - 1 - t)" "2 ^ t + tid div 2 ^ (k - 1 - t) < (2 :: nat) ^ k"
proof -
  have "(2 :: nat) ^ k div 2 = 2 ^ t * 2 ^ (k - 1 - t)" using assms(1) by (cases k) (simp_all flip: power_add)
  then have "tid div 2 ^ (k - 1 - t) < 2 ^ t" using assms(2) by (simp only: less_mult_imp_div_less)
  moreover have "2 ^ Suc t \<le> (2 :: nat) ^ k" using assms(1) by (intro power_increasing) simp_all
  ultimately show "2 ^ t + tid div 2 ^ (k - 1 - t) < (2 :: nat) ^ k" unfolding power_Suc by linarith
qed simp

lemma psi_elem:
  assumes "roots_hold k roots w" and "t < k" and "tid < 2 ^ k div 2"
  shows "elem (roots ! (2 ^ t + tid div 2 ^ (k - 1 - t))) (w (2 ^ t + tid div 2 ^ (k - 1 - t)))"
  using assms(1) step_group [OF assms(2,3)] by (simp only: roots_hold_def)

text \<open>The three forms: a function \<open>F\<close> of a pair of elements that computes a function \<open>G\<close> of the positions.\<close>

definition computes_pair :: "nat \<Rightarrow> nat \<Rightarrow> nat \<Rightarrow> (nat \<Rightarrow> nat \<Rightarrow> int) \<Rightarrow> (nat \<Rightarrow> 'e \<Rightarrow> 'e \<Rightarrow> 'e \<times> 'e) \<Rightarrow> (nat \<Rightarrow> nat \<Rightarrow> int) \<Rightarrow> bool" where
  "computes_pair k es s f F G \<longleftrightarrow> (\<forall>i tid u v. i < es \<longrightarrow> tid < 2 ^ k div 2 \<longrightarrow> elem u (f i (target s tid)) \<longrightarrow> elem v (f i (target s tid + s))
     \<longrightarrow> elem (fst (F tid u v)) (G i (target s tid)) \<and> elem (snd (F tid u v)) (G i (target s tid + s)))"

lemma inplace_wp:
  assumes es: "0 < es" and s: "0 < s" and d: "2 * s dvd 2 ^ k" and f: "scratch_holds k es m f" and pair: "computes_pair k es s f F G"
    and item: "item = (\<lambda>work. butterfly (work mod es + target s (work div es) * es) (work mod es + (target s (work div es) + s) * es)
      (work mod es + target s (work div es) * es) (work mod es + (target s (work div es) + s) * es) (F (work div es)))"
  shows "kernel_wp (work_items (2 ^ k div 2 * es) item) m (\<lambda>m'. scratch_holds k es m' G)"
proof (rule kernel_wpI)
  have m: "length m = 2 * (2 ^ k * es)" using f by (simp add: scratch_holds_def)
  note run = inplace_kernel [where F = "\<lambda>i. F", OF es s d m, folded item]
  show "\<not> stuck st" if "kernel_step\<^sup>*\<^sup>* (m, work_items (2 ^ k div 2 * es) item) st" for st by (rule run(2) [OF that])
  fix m' assume "queue_run [work_items (2 ^ k div 2 * es) item] m m'"
  note r = run(3) [OF this]
  show "scratch_holds k es m' G"
  proof (rule scratch_pairs [OF s d])
    show "length m' = 2 * (2 ^ k * es)" using r m by simp
    fix i tid assume i: "i < es" and tid: "tid < (2 :: nat) ^ k div 2"
    have "elem (m ! (i + target s tid * es)) (f i (target s tid))" "elem (m ! (i + (target s tid + s) * es)) (f i (target s tid + s))"
      using f i target_bounds [OF s d tid] by (simp_all only: scratch_holds_def)
    then show "elem (m' ! (i + target s tid * es)) (G i (target s tid)) \<and> elem (m' ! (i + (target s tid + s) * es)) (G i (target s tid + s))"
      using r i tid pair unfolding computes_pair_def by (metis fst_conv snd_conv)
  qed
qed

lemma first_wp:
  assumes es: "0 < es" and s: "0 < s" and d: "2 * s dvd 2 ^ k" and k: "0 < k" and m: "length m = 2 * (2 ^ k * es)"
    and f: "inner_holds k es inner f" and pair: "computes_pair k es s f F G"
    and item: "\<And>work. work mod (2 ^ k div 2) < 2 ^ k div 2 \<Longrightarrow> item work = (let i = work div (2 ^ k div 2); tid = work mod (2 ^ k div 2);
        uv = F tid (inner (target s tid + i * 2 ^ k)) (inner (target s tid + s + i * 2 ^ k))
      in Store (i + target s tid * es) (fst uv) (Store (i + (target s tid + s) * es) (snd uv) Done))"
  shows "kernel_wp (work_items (es * 2 ^ k div 2) item) m (\<lambda>m'. scratch_holds k es m' G)"
proof (rule kernel_wpI)
  define F' where "F' i tid = F tid (inner (target s tid + i * 2 ^ k)) (inner (target s tid + s + i * 2 ^ k))" for i tid
  have h: "0 < (2 :: nat) ^ k div 2" using k by (cases k) simp_all
  have "item = (\<lambda>work. stores
      [(work div (2 ^ k div 2) + target s (work mod (2 ^ k div 2)) * es, fst (F' (work div (2 ^ k div 2)) (work mod (2 ^ k div 2)))),
       (work div (2 ^ k div 2) + (target s (work mod (2 ^ k div 2)) + s) * es, snd (F' (work div (2 ^ k div 2)) (work mod (2 ^ k div 2))))])"
    by (rule ext) (simp only: item [OF mod_less_divisor [OF h]] Let_def F'_def stores.simps fst_conv snd_conv)
  note run = first_kernel [where F = F', OF es s d k m, folded this]
  show "\<not> stuck st" if "kernel_step\<^sup>*\<^sup>* (m, work_items (es * 2 ^ k div 2) item) st" for st by (rule run(2) [OF that])
  fix m' assume "queue_run [work_items (es * 2 ^ k div 2) item] m m'"
  note r = run(3) [OF this]
  show "scratch_holds k es m' G"
  proof (rule scratch_pairs [OF s d])
    show "length m' = 2 * (2 ^ k * es)" using r m by simp
    fix i tid assume i: "i < es" and tid: "tid < (2 :: nat) ^ k div 2"
    have "elem (inner (target s tid + i * 2 ^ k)) (f i (target s tid))" "elem (inner (target s tid + s + i * 2 ^ k)) (f i (target s tid + s))"
      using f i target_bounds [OF s d tid] by (simp_all only: inner_holds_def)
    then show "elem (m' ! (i + target s tid * es)) (G i (target s tid)) \<and> elem (m' ! (i + (target s tid + s) * es)) (G i (target s tid + s))"
      using r i tid pair unfolding computes_pair_def F'_def by (metis fst_conv snd_conv)
  qed
qed

lemma last_wp:
  assumes es: "0 < es" and s: "0 < s" and d: "2 * s dvd 2 ^ k" and f: "scratch_holds k es m f" and pair: "computes_pair k es s f F G"
    and item: "\<And>work. work div es < 2 ^ k div 2 \<Longrightarrow> item work = butterfly (work mod es + target s (work div es) * es) (work mod es + (target s (work div es) + s) * es)
      (2 ^ k * es + (target s (work div es) + work mod es * 2 ^ k)) (2 ^ k * es + (target s (work div es) + s + work mod es * 2 ^ k))
      (F (work div es))"
  shows "kernel_wp (work_items (2 ^ k div 2 * es) item) m (\<lambda>m'. result_holds k es m' G)"
proof (rule kernel_wpI)
  define item' where "item' work = butterfly (work mod es + target s (work div es) * es) (work mod es + (target s (work div es) + s) * es)
      (2 ^ k * es + (target s (work div es) + work mod es * 2 ^ k)) (2 ^ k * es + (target s (work div es) + s + work mod es * 2 ^ k))
      (F (work div es))" for work
  have m: "length m = 2 * (2 ^ k * es)" using f by (simp add: scratch_holds_def)
  have items: "work_items (2 ^ k div 2 * es) item = work_items (2 ^ k div 2 * es) item'"
    unfolding work_items_def by (rule map_cong [OF refl]) (simp only: item item'_def atLeastLessThan_upt [symmetric] atLeastLessThan_iff less_mult_imp_div_less)
  have "item' = (\<lambda>work. butterfly (work mod es + target s (work div es) * es) (work mod es + (target s (work div es) + s) * es)
      (2 ^ k * es + (target s (work div es) + work mod es * 2 ^ k)) (2 ^ k * es + (target s (work div es) + s + work mod es * 2 ^ k))
      (F (work div es)))" by (rule ext) (rule item'_def)
  note run = last_kernel [where F = "\<lambda>i. F", OF es s d m, folded this]
  show "\<not> stuck st" if "kernel_step\<^sup>*\<^sup>* (m, work_items (2 ^ k div 2 * es) item) st" for st by (rule run(2) [OF that [unfolded items]])
  fix m' assume "queue_run [work_items (2 ^ k div 2 * es) item] m m'"
  note r = run(3) [OF this [unfolded items]]
  show "result_holds k es m' G"
  proof (rule result_pairs [OF s d])
    show "length m' = 2 * (2 ^ k * es)" using r m by simp
    fix i tid assume i: "i < es" and tid: "tid < (2 :: nat) ^ k div 2"
    have "elem (m ! (i + target s tid * es)) (f i (target s tid))" "elem (m ! (i + (target s tid + s) * es)) (f i (target s tid + s))"
      using f i target_bounds [OF s d tid] by (simp_all only: scratch_holds_def)
    then show "elem (m' ! (2 ^ k * es + (target s tid + i * 2 ^ k))) (G i (target s tid))
      \<and> elem (m' ! (2 ^ k * es + (target s tid + s + i * 2 ^ k))) (G i (target s tid + s))"
      using r i tid pair unfolding computes_pair_def by (metis fst_conv snd_conv)
  qed
qed

end

section \<open>The kernels of the program\<close>

context transform begin

abbreviation forward_pairs :: "'e list \<Rightarrow> nat \<Rightarrow> nat \<Rightarrow> nat \<Rightarrow> 'e \<Rightarrow> 'e \<Rightarrow> 'e \<times> 'e" where
  "forward_pairs roots len s tid u v \<equiv> (let v = op_mul_assign R v (roots ! (len + tid div s)) in (op_add R u v, op_sub R u v))"

abbreviation inverse_pairs :: "'e list \<Rightarrow> nat \<Rightarrow> nat \<Rightarrow> nat \<Rightarrow> 'e \<Rightarrow> 'e \<Rightarrow> 'e \<times> 'e" where
  "inverse_pairs roots len s tid u v \<equiv> (op_add R u v, op_mul R (op_sub R u v) (roots ! (len + tid div s)))"

lemma forward_computes:
  assumes "roots_hold k roots w" and "t < k"
  shows "computes_pair k es (2 ^ (k - 1 - t)) f (forward_pairs roots (2 ^ t) (2 ^ (k - 1 - t))) (\<lambda>i. forward_stage (2 ^ (k - 1 - t)) (2 ^ t) w (f i))"
  unfolding computes_pair_def Let_def fst_conv snd_conv
  by (intro allI impI conjI; rule forward_pair; (rule psi_elem [OF assms] zero_less_power | assumption)?) simp_all

lemma inverse_computes:
  assumes "roots_hold k roots w" and "t < k"
  shows "computes_pair k es (2 ^ (k - 1 - t)) f (inverse_pairs roots (2 ^ t) (2 ^ (k - 1 - t))) (\<lambda>i. inverse_stage (2 ^ (k - 1 - t)) (2 ^ t) w (f i))"
  unfolding computes_pair_def fst_conv snd_conv
  by (intro allI impI conjI; rule inverse_pair; (rule psi_elem [OF assms] zero_less_power | assumption)?) simp_all

lemma forward_first_wp:
  assumes "0 < es" and "0 < k" and "roots_hold k roots w" and "inner_holds k es inner f" and "length m = 2 * (2 ^ k * es)"
  shows "kernel_wp (work_items (es * 2 ^ k div 2) (forward_first R k es roots inner)) m
    (\<lambda>m'. scratch_holds k es m' (\<lambda>i. forward_stage (2 ^ (k - 1 - 0)) (2 ^ 0) w (f i)))"
proof (rule first_wp [OF assms(1) _ step_size(3) [OF assms(2)] assms(2,5,4) forward_computes [OF assms(3,2)]])
  have h: "(2 :: nat) ^ (k - 1 - 0) = 2 ^ k div 2" using step_size(1) [OF assms(2)] by simp
  fix work assume w: "work mod (2 ^ k div 2) < (2 :: nat) ^ k div 2"
  then show "forward_first R k es roots inner work = (let i = work div (2 ^ k div 2); tid = work mod (2 ^ k div 2);
        uv = forward_pairs roots (2 ^ 0) (2 ^ (k - 1 - 0)) tid (inner (target (2 ^ (k - 1 - 0)) tid + i * 2 ^ k)) (inner (target (2 ^ (k - 1 - 0)) tid + 2 ^ (k - 1 - 0) + i * 2 ^ k))
      in Store (i + target (2 ^ (k - 1 - 0)) tid * es) (fst uv) (Store (i + (target (2 ^ (k - 1 - 0)) tid + 2 ^ (k - 1 - 0)) * es) (snd uv) Done))"
    unfolding h by (simp add: forward_first_def Let_def target_half)
qed simp

lemma forward_inner_wp:
  assumes "0 < es" and "t < k" and "roots_hold k roots w" and "scratch_holds k es m f"
  shows "kernel_wp (work_items (2 ^ k div 2 * es) (forward_inner R k es roots t)) m
    (\<lambda>m'. scratch_holds k es m' (\<lambda>i. forward_stage (2 ^ (k - 1 - t)) (2 ^ t) w (f i)))"
  by (rule inplace_wp [OF assms(1) _ step_size(3) [OF assms(2)] assms(4) forward_computes [OF assms(3,2)]], simp)
    (rule ext, simp only: forward_inner_def butterfly_def Let_def step_size(1) [OF assms(2)] target_def fst_conv snd_conv)

lemma forward_last_wp:
  assumes "0 < es" and "0 < k" and "roots_hold k roots w" and "scratch_holds k es m f"
  shows "kernel_wp (work_items (2 ^ k div 2 * es) (forward_last R k es roots)) m
    (\<lambda>m'. result_holds k es m' (\<lambda>i. forward_stage (2 ^ (k - 1 - (k - 1))) (2 ^ (k - 1)) w (f i)))"
proof (rule last_wp [OF assms(1) _ step_size(3) assms(4) forward_computes [OF assms(3)]])
  have h: "(2 :: nat) ^ (k - 1) = 2 ^ k div 2" using step_size(1) [OF assms(2)] by simp
  show "forward_last R k es roots work = butterfly (work mod es + target (2 ^ (k - 1 - (k - 1))) (work div es) * es)
      (work mod es + (target (2 ^ (k - 1 - (k - 1))) (work div es) + 2 ^ (k - 1 - (k - 1))) * es)
      (2 ^ k * es + (target (2 ^ (k - 1 - (k - 1))) (work div es) + work mod es * 2 ^ k))
      (2 ^ k * es + (target (2 ^ (k - 1 - (k - 1))) (work div es) + 2 ^ (k - 1 - (k - 1)) + work mod es * 2 ^ k))
      (forward_pairs roots (2 ^ (k - 1)) (2 ^ (k - 1 - (k - 1))) (work div es))" for work
    unfolding h by (simp only: forward_last_def butterfly_def Let_def diff_self_eq_0 power_0 target_one div_by_1 fst_conv snd_conv)
qed (use assms(2) in simp_all)

end

section \<open>The kernels of the inverse transform\<close>

context transform begin

lemma inverse_first_wp:
  assumes "0 < es" and "0 < k" and "roots_hold k roots w" and "inner_holds k es inner f" and "length m = 2 * (2 ^ k * es)"
  shows "kernel_wp (work_items (es * 2 ^ k div 2) (inverse_first R k es roots inner)) m
    (\<lambda>m'. scratch_holds k es m' (\<lambda>i. inverse_stage (2 ^ (k - 1 - (k - 1))) (2 ^ (k - 1)) w (f i)))"
proof (rule first_wp [OF assms(1) _ step_size(3) assms(2,5,4) inverse_computes [OF assms(3)]])
  have h: "(2 :: nat) ^ (k - 1) = 2 ^ k div 2" using step_size(1) [OF assms(2)] by simp
  fix work
  show "inverse_first R k es roots inner work = (let i = work div (2 ^ k div 2); tid = work mod (2 ^ k div 2);
        uv = inverse_pairs roots (2 ^ (k - 1)) (2 ^ (k - 1 - (k - 1))) tid (inner (target (2 ^ (k - 1 - (k - 1))) tid + i * 2 ^ k))
          (inner (target (2 ^ (k - 1 - (k - 1))) tid + 2 ^ (k - 1 - (k - 1)) + i * 2 ^ k))
      in Store (i + target (2 ^ (k - 1 - (k - 1))) tid * es) (fst uv) (Store (i + (target (2 ^ (k - 1 - (k - 1))) tid + 2 ^ (k - 1 - (k - 1))) * es) (snd uv) Done))"
    unfolding h by (simp only: inverse_first_def Let_def diff_self_eq_0 power_0 target_one div_by_1 fst_conv snd_conv)
qed (use assms(2) in simp_all)

lemma inverse_inner_wp:
  assumes "0 < es" and "it < k" and "roots_hold k roots w" and "scratch_holds k es m f"
  shows "kernel_wp (work_items (2 ^ k div 2 * es) (inverse_inner R k es roots it)) m
    (\<lambda>m'. scratch_holds k es m' (\<lambda>i. inverse_stage (2 ^ (k - 1 - (k - 1 - it))) (2 ^ (k - 1 - it)) w (f i)))"
proof -
  have t: "k - 1 - it < k" using assms(2) by simp
  show ?thesis
    by (rule inplace_wp [OF assms(1) _ step_size(3) [OF t] assms(4) inverse_computes [OF assms(3) t]], simp)
      (rule ext, simp only: inverse_inner_def butterfly_def Let_def step_size(2) [OF assms(2)] step_size(1) [OF t] target_def fst_conv snd_conv)
qed

text \<open>The last one multiplies with a normalization; the first two entries of the table have the factor already.\<close>

lemma inverse_last_wp:
  assumes "0 < es" and "0 < k" and "elem (roots ! 0) c" and "elem (roots ! 1) (w 1 * c)" and "scratch_holds k es m f"
  shows "kernel_wp (work_items (2 ^ k div 2 * es) (inverse_last R k es roots)) m
    (\<lambda>m'. result_holds k es m' (\<lambda>i p. c * inverse_stage (2 ^ (k - 1 - 0)) (2 ^ 0) w (f i) p))"
proof (rule last_wp [where F = "\<lambda>tid u v. (op_mul R (op_add R u v) (roots ! 0), op_mul R (op_sub R u v) (roots ! 1))", OF assms(1) _ step_size(3) [OF assms(2)] assms(5)])
  have h: "(2 :: nat) ^ (k - 1 - 0) = 2 ^ k div 2" using step_size(1) [OF assms(2)] by simp
  show "computes_pair k es (2 ^ (k - 1 - 0)) f (\<lambda>tid u v. (op_mul R (op_add R u v) (roots ! 0), op_mul R (op_sub R u v) (roots ! 1)))
      (\<lambda>i p. c * inverse_stage (2 ^ (k - 1 - 0)) (2 ^ 0) w (f i) p)"
    unfolding computes_pair_def fst_conv snd_conv
  proof (intro allI impI)
    fix i tid u v
    let ?s = "2 ^ (k - 1 - 0) :: nat"
    assume tid: "tid < (2 :: nat) ^ k div 2" and uv: "elem u (f i (target ?s tid))" "elem v (f i (target ?s tid + ?s))"
    have "tid div ?s = 0" using tid unfolding h by simp
    then have "inverse_stage ?s (2 ^ 0) w (f i) (target ?s tid) = f i (target ?s tid) + f i (target ?s tid + ?s)"
      "inverse_stage ?s (2 ^ 0) w (f i) (target ?s tid + ?s) = (f i (target ?s tid) - f i (target ?s tid + ?s)) * w 1"
      by (simp_all add: inverse_stage_target)
    moreover have "elem (op_mul R (op_add R u v) (roots ! 0)) ((f i (target ?s tid) + f i (target ?s tid + ?s)) * c)"
      "elem (op_mul R (op_sub R u v) (roots ! 1)) ((f i (target ?s tid) - f i (target ?s tid + ?s)) * (w 1 * c))"
      by (rule elem_mul [OF elem_add [OF uv] assms(3)], rule elem_mul [OF elem_sub [OF uv] assms(4)])
    ultimately show "elem (op_mul R (op_add R u v) (roots ! 0)) (c * inverse_stage ?s (2 ^ 0) w (f i) (target ?s tid))
      \<and> elem (op_mul R (op_sub R u v) (roots ! 1)) (c * inverse_stage ?s (2 ^ 0) w (f i) (target ?s tid + ?s))"
      by (simp add: mult.commute [of c] mult.assoc)
  qed
  show "inverse_last R k es roots work = butterfly (work mod es + target (2 ^ (k - 1 - 0)) (work div es) * es)
      (work mod es + (target (2 ^ (k - 1 - 0)) (work div es) + 2 ^ (k - 1 - 0)) * es)
      (2 ^ k * es + (target (2 ^ (k - 1 - 0)) (work div es) + work mod es * 2 ^ k))
      (2 ^ k * es + (target (2 ^ (k - 1 - 0)) (work div es) + 2 ^ (k - 1 - 0) + work mod es * 2 ^ k))
      ((\<lambda>tid u v. (op_mul R (op_add R u v) (roots ! 0), op_mul R (op_sub R u v) (roots ! 1))) (work div es))"
    if "work div es < 2 ^ k div 2" for work
    unfolding h using that by (simp add: inverse_last_def butterfly_def Let_def target_half)
qed simp

end

section \<open>The transforms\<close>

context transform begin

lemma inner_chain:
  assumes "\<And>t m f. t \<in> set ts \<Longrightarrow> scratch_holds k es m f \<Longrightarrow> kernel_wp (K t) m (\<lambda>m'. scratch_holds k es m' (\<lambda>i. S t (f i)))"
    and "scratch_holds k es m f"
  shows "queue_wp (map K ts) m (\<lambda>m'. scratch_holds k es m' (\<lambda>i. fold S ts (f i)))"
  using assms
proof (induction ts arbitrary: m f)
  case (Cons t ts)
  have "kernel_wp (K t) m (\<lambda>m'. scratch_holds k es m' (\<lambda>i. S t (f i)))" using Cons.prems by simp
  then show ?case
    by (simp add: comp_def) (rule kernel_wp_mono, assumption, rule Cons.IH, simp_all add: Cons.prems(1))
qed simp

lemma upt_ends:
  assumes "2 \<le> k"
  shows "[0..<k] = 0 # [1..<k - 1] @ [k - 1]"
proof -
  have "[0..<k] = 0 # [1..<k]" using assms by (simp add: upt_conv_Cons)
  moreover have "[1..<k] = [1..<k - 1] @ [k - 1]" using assms upt_Suc_append [of 1 "k - 1"] by simp
  ultimately show ?thesis by simp
qed

lemma forward_wp:
  assumes "0 < es" and "2 \<le> k" and "roots_hold k roots w" and "inner_holds k es inner f" and "length m = 2 * (2 ^ k * es)"
  shows "queue_wp (forward_kernels R k es roots inner) m (\<lambda>m'. result_holds k es m' (\<lambda>i. forward_stages k w k (f i)))"
proof -
  let ?S = "\<lambda>t. forward_stage (2 ^ (k - 1 - t)) (2 ^ t) w"
  have k: "0 < k" using assms(2) by simp
  have "queue_wp (map (\<lambda>t. work_items (2 ^ k div 2 * es) (forward_inner R k es roots t)) [1..<k - 1] @ [work_items (2 ^ k div 2 * es) (forward_last R k es roots)])
      m' (\<lambda>m'. result_holds k es m' (\<lambda>i. ?S (k - 1) (fold ?S [1..<k - 1] (h i))))"
    if "scratch_holds k es m' h" for m' h
    unfolding queue_wp_append
  proof (rule queue_wp_mono [OF inner_chain [where S = ?S, OF _ that]])
    show "kernel_wp (work_items (2 ^ k div 2 * es) (forward_inner R k es roots t)) m (\<lambda>m'. scratch_holds k es m' (\<lambda>i. ?S t (h i)))"
      if "t \<in> set [1..<k - 1]" "scratch_holds k es m h" for t m h
      by (rule forward_inner_wp [OF assms(1) _ assms(3) that(2)]) (use that(1) in auto)
  qed (use forward_last_wp [OF assms(1) k assms(3)] in simp)
  then show ?thesis
    unfolding forward_kernels_def queue_wp.simps forward_stages_def upt_ends [OF assms(2)]
    by (intro kernel_wp_mono [OF forward_first_wp [OF assms(1) k assms(3-5)]]) simp
qed

end

context transform begin

lemma inverse_stage_cong:
  assumes "\<And>m. len \<le> m \<Longrightarrow> w m = w' m"
  shows "inverse_stage s len w f = inverse_stage s len w' f"
  by (rule ext) (simp add: inverse_stage_def assms)

lemma rev_upt_map: "rev [0..<k] = map (\<lambda>it. k - 1 - it) [0..<k]"
  by (rule nth_equalityI) (simp_all add: rev_nth)

lemma inverse_stages_iterations:
  assumes "2 \<le> k"
  shows "inverse_stages k w k a = inverse_stage (2 ^ (k - 1 - 0)) (2 ^ 0) w
    (fold (\<lambda>it. inverse_stage (2 ^ (k - 1 - (k - 1 - it))) (2 ^ (k - 1 - it)) w) [1..<k - 1]
      (inverse_stage (2 ^ (k - 1 - (k - 1))) (2 ^ (k - 1)) w a))"
  unfolding inverse_stages_def rev_upt_map
  unfolding fold_map comp_def upt_ends [OF assms]
  by (simp only: fold_simps fold_append comp_apply diff_self_eq_0 diff_zero)

lemma inverse_wp:
  assumes "0 < es" and "2 \<le> k" and "roots_hold k roots (w(1 := w 1 * c))" and "elem (roots ! 0) c"
    and "inner_holds k es inner f" and "length m = 2 * (2 ^ k * es)"
  shows "queue_wp (inverse_kernels R k es roots inner) m (\<lambda>m'. result_holds k es m' (\<lambda>i p. c * inverse_stages k w k (f i) p))"
proof -
  let ?w = "w(1 := w 1 * c)"
  let ?S = "\<lambda>it. inverse_stage (2 ^ (k - 1 - (k - 1 - it))) (2 ^ (k - 1 - it)) w"
  have k: "0 < k" using assms(2) by simp
  have one: "elem (roots ! 1) (w 1 * c)" using assms(3) [unfolded roots_hold_def, rule_format, of 1] one_less_power [of "2 :: nat" k] k by simp
  have weights: "inverse_stage s (2 ^ (k - 1 - it)) ?w h = inverse_stage s (2 ^ (k - 1 - it)) w h" if "it < k - 1" for s it h
  proof (rule inverse_stage_cong)
    fix m assume "(2 :: nat) ^ (k - 1 - it) \<le> m"
    moreover have "1 < (2 :: nat) ^ (k - 1 - it)" using that by (intro one_less_power) simp_all
    ultimately show "?w m = w m" by simp
  qed
  have inner: "kernel_wp (work_items (2 ^ k div 2 * es) (inverse_inner R k es roots it)) m (\<lambda>m'. scratch_holds k es m' (\<lambda>i. ?S it (h i)))"
    if "it \<in> set [1..<k - 1]" "scratch_holds k es m h" for it m h
  proof -
    have it: "it < k" "it < k - 1" using that(1) by auto
    show ?thesis using inverse_inner_wp [OF assms(1) it(1) assms(3) that(2)] unfolding weights [OF it(2)] .
  qed
  have "queue_wp (map (\<lambda>it. work_items (2 ^ k div 2 * es) (inverse_inner R k es roots it)) [1..<k - 1] @ [work_items (2 ^ k div 2 * es) (inverse_last R k es roots)])
      m' (\<lambda>m'. result_holds k es m' (\<lambda>i p. c * inverse_stage (2 ^ (k - 1 - 0)) (2 ^ 0) w (fold ?S [1..<k - 1] (h i)) p))"
    if "scratch_holds k es m' h" for m' h
    unfolding queue_wp_append
    by (rule queue_wp_mono [OF inner_chain [where S = ?S, OF inner that]]) (use inverse_last_wp [where w = w, OF assms(1) k assms(4) one] in simp_all)
  then show ?thesis
    unfolding inverse_kernels_def queue_wp.simps inverse_stages_iterations [OF assms(2)]
    using kernel_wp_mono [OF inverse_first_wp [OF assms(1) k assms(3,5,6)]] weights [of 0] assms(2) by simp
qed

end

section \<open>The table of roots\<close>

lemma brv_word:
  assumes "2 \<le> k" and "k \<le> 31" and "i < 2 ^ k"
  shows "bit_reverse (of_nat i) k = Some (of_nat (brv k i) :: 32 word)" "unat (of_nat (brv k i) :: 32 word) = brv k i"
    "(of_nat (brv k i) :: 32 word) = 1 \<longleftrightarrow> brv k i = 1"
proof -
  show "bit_reverse (of_nat i) k = Some (of_nat (brv k i))" using assms by (intro bit_reverse_eq) simp_all
  have "brv k i < 2 ^ k" by (rule brv_less)
  also have "(2 :: nat) ^ k \<le> 2 ^ 31" using assms(2) by (intro power_increasing) simp_all
  finally show u: "unat (of_nat (brv k i) :: 32 word) = brv k i" by (simp add: unat_of_nat)
  show "(of_nat (brv k i) :: 32 word) = 1 \<longleftrightarrow> brv k i = 1"
    using u unsigned_1 by (simp add: word_unat_eq_iff)
qed

lemma brv_eq_0: "l < 2 ^ k \<Longrightarrow> brv k l = 0 \<longleftrightarrow> l = 0"
  using brv_brv [of l k] by auto

lemma brv_inject: "l < 2 ^ k \<Longrightarrow> l' < 2 ^ k \<Longrightarrow> brv k l = brv k l' \<longleftrightarrow> l = l'"
  using brv_brv by metis

context transform begin

lemma get_roots_hold:
  assumes k: "2 \<le> k" "k \<le> 31" and elems: "elem root phi" "elem one 1" "elem norm c"
  shows "\<exists>roots. get_roots R inverse_transform k root one norm g = Some roots \<and> length roots = 2 ^ k
    \<and> elem (roots ! 0) (if inverse_transform then c else 1)
    \<and> (\<forall>m. 0 < m \<longrightarrow> m < 2 ^ k \<longrightarrow> elem (roots ! m) (root_weights k phi m * (if inverse_transform \<and> m = 1 then c else 1)))"
proof -
  let ?entry = "\<lambda>l. phi ^ l * (if inverse_transform \<and> brv k l = 1 then c else 1)"
  define P where "P i st \<longleftrightarrow> (\<exists>pow rs. st = Some (pow, rs) \<and> elem pow (phi ^ (i - 1)) \<and> length rs = 2 ^ k
    \<and> elem (rs ! 0) (if inverse_transform then c else 1) \<and> (\<forall>l. 0 < l \<longrightarrow> l < i \<longrightarrow> elem (rs ! brv k l) (?entry l)))" for i st
  have n: "2 \<le> (2 :: nat) ^ k" using power_increasing [of 1 k "2 :: nat"] k by simp
  have bits: "2 ^ k = 2 * (2 :: nat) ^ (k - 1)" "1 < (2 :: nat) ^ (k - 1)"
    using k one_less_power [of "2 :: nat" "k - 1"] by (simp_all flip: power_Suc)
  have b1: "brv k 1 = 2 ^ (k - 1)" using k brv_one [of "k - 1"] by simp
  define rs0 where "rs0 = (map g [0..<2 ^ k])[0 := if inverse_transform then norm else one, 2 ^ (k - 1) := root]"
  have base: "P 2 (Some (root, rs0))"
  proof -
    have rs0: "rs0 ! 0 = (if inverse_transform then norm else one)" "rs0 ! brv k 1 = root" "length rs0 = 2 ^ k"
      unfolding rs0_def b1 using bits by simp_all
    have entries: "elem (rs0 ! brv k l) (?entry l)" if "0 < l" "l < 2" for l
    proof -
      have l: "l = 1" using that by simp
      show ?thesis unfolding l rs0(2) unfolding b1 using elems(1) k(1) by simp
    qed
    have "elem (rs0 ! 0) (if inverse_transform then c else 1)" unfolding rs0(1) using elems by simp
    then show ?thesis unfolding P_def
      by (intro exI [of _ root] exI [of _ rs0] conjI allI impI refl entries rs0(3)) (use elems(1) in simp_all)
  qed
  have step: "P (Suc i) (roots_step R inverse_transform k root norm i st)" if i: "2 \<le> i" "i < 2 ^ k" and "P i st" for i st
  proof -
    obtain pow rs where st: "st = Some (pow, rs)" and pow: "elem pow (phi ^ (i - 1))" and rs: "length rs = 2 ^ k"
      "elem (rs ! 0) (if inverse_transform then c else 1)" "\<And>l. 0 < l \<Longrightarrow> l < i \<Longrightarrow> elem (rs ! brv k l) (?entry l)"
      using \<open>P i st\<close> unfolding P_def by blast
    let ?pow = "op_mul_assign R pow root" and ?j = "brv k i"
    have pow': "elem ?pow (phi ^ i)" using elem_mul_assign [OF pow elems(1)] i(1) by (cases i) (simp_all add: mult.commute)
    define v where "v = (if inverse_transform \<and> ?j = 1 then op_mul R ?pow norm else ?pow)"
    have v: "elem v (?entry i)" using pow' elem_mul [OF pow' elems(3)] by (simp add: v_def)
    have run: "roots_step R inverse_transform k root norm i st = Some (?pow, rs[?j := v])"
      using brv_word [OF k i(2)] by (simp add: roots_step_def st Let_def v_def)
    have j: "?j < 2 ^ k" "?j \<noteq> 0" using brv_less [of k i] brv_eq_0 [OF i(2)] i(1) by simp_all
    have "elem (rs[?j := v] ! brv k l) (?entry l)" if l: "0 < l" "l < Suc i" for l
    proof (cases "l = i")
      case True
      then show ?thesis using v rs(1) j(1) by simp
    next
      case False
      then have "brv k l \<noteq> ?j" using brv_inject [of l k i] l i(2) by simp
      then show ?thesis using rs(3) [of l] l False by simp
    qed
    moreover have "rs[?j := v] ! 0 = rs ! 0" using j(2) by simp
    ultimately show ?thesis using pow' rs(1,2) unfolding run P_def by simp
  qed
  have "P (2 ^ k) (scan_range_from 2 (2 ^ k) (roots_step R inverse_transform k root norm) (Some (root, rs0)))"
    by (rule scan_range_from_inv [OF n]) (use base step in simp_all)
  then obtain pow rs where fin: "scan_range_from 2 (2 ^ k) (roots_step R inverse_transform k root norm) (Some (root, rs0)) = Some (pow, rs)"
    and rs: "length rs = 2 ^ k" "elem (rs ! 0) (if inverse_transform then c else 1)" "\<And>l. 0 < l \<Longrightarrow> l < 2 ^ k \<Longrightarrow> elem (rs ! brv k l) (?entry l)"
    unfolding P_def by blast
  have "get_roots R inverse_transform k root one norm g = Some rs"
    using brv_word [OF k, of 1] n k fin unfolding get_roots_def Let_def by (simp add: b1 [unfolded One_nat_def] rs0_def)
  moreover have "elem (rs ! m) (root_weights k phi m * (if inverse_transform \<and> m = 1 then c else 1))" if m: "0 < m" "m < 2 ^ k" for m
  proof -
    have "0 < brv k m" "brv k m < 2 ^ k" "brv k (brv k m) = m" using m brv_less brv_brv brv_eq_0 [OF m(2)] by simp_all
    then show ?thesis using rs(3) [of "brv k m"] by (simp only: root_weights_def)
  qed
  ultimately show ?thesis using rs(1,2) by blast
qed

end

section \<open>The whole transforms\<close>

text \<open>The value of the polynomial with the coefficients \<open>a\<close> that the forward transform has at position \<open>p\<close>.\<close>

definition ntt_value :: "nat \<Rightarrow> int \<Rightarrow> (nat \<Rightarrow> int) \<Rightarrow> nat \<Rightarrow> int" where
  "ntt_value k phi a p = (\<Sum>j < 2 ^ k. a j * phi ^ ((2 * brv k p + 1) * j))"

text \<open>The two operators: the table of roots, and the kernels that use it.\<close>

definition ntt_forward :: "'e element_ops \<Rightarrow> nat \<Rightarrow> nat \<Rightarrow> 'e \<Rightarrow> 'e \<Rightarrow> 'e \<Rightarrow> (nat \<Rightarrow> 'e) \<Rightarrow> (nat \<Rightarrow> 'e) \<Rightarrow> 'e program list list option" where
  "ntt_forward R k es root one normalization g inner =
     map_option (\<lambda>roots. forward_kernels R k es roots inner) (get_roots R False k root one normalization g)"

definition ntt_inverse :: "'e element_ops \<Rightarrow> nat \<Rightarrow> nat \<Rightarrow> 'e \<Rightarrow> 'e \<Rightarrow> 'e \<Rightarrow> (nat \<Rightarrow> 'e) \<Rightarrow> (nat \<Rightarrow> 'e) \<Rightarrow> 'e program list list option" where
  "ntt_inverse R k es root one normalization g inner =
     map_option (\<lambda>roots. inverse_kernels R k es roots inner) (get_roots R True k root one normalization g)"

lemma ntt_value_stages:
  assumes "phi ^ 2 ^ k mod q = (- 1) mod q" and "0 < k" and "p < 2 ^ k"
  shows "forward_stages k (root_weights k phi) k a p mod q = ntt_value k phi a p mod q"
proof -
  have "forward_stages k (root_weights k phi) k a (p * 2 ^ (k - k) + 0) mod q
      = (\<Sum>j < 2 ^ k. a (j * 2 ^ (k - k) + 0) * node (root_weights k phi) (2 ^ k + p) ^ j) mod q"
    by (rule forward_stages_mod [OF square_roots_root [OF assms(1,2)] order_refl assms(3)]) simp
  also have "\<dots> = (\<Sum>j < 2 ^ k. a j * (phi ^ (2 * brv k p + 1)) ^ j) mod q"
    using polynomial_mod [OF root_points [OF assms]] by simp
  finally show ?thesis by (simp only: ntt_value_def power_mult [symmetric]) simp
qed

lemma ntt_value_product:
  assumes "phi ^ 2 ^ k mod q = (- 1) mod q"
  shows "ntt_value k phi (negacyclic (2 ^ k) a b) p mod q = ntt_value k phi a p * ntt_value k phi b p mod q"
proof -
  let ?x = "phi ^ (2 * brv k p + 1)"
  have "?x ^ 2 ^ k = (phi ^ 2 ^ k) ^ (2 * brv k p + 1)" by (simp only: power_mult [symmetric] mult.commute)
  also have "\<dots> mod q = (- 1) ^ (2 * brv k p + 1) mod q" by (rule mod_powerI [OF assms])
  finally have "?x ^ 2 ^ k mod q = (- 1) mod q" by simp
  from negacyclic_value [OF this, of a b] show ?thesis by (simp only: ntt_value_def power_mult)
qed

context transform begin

lemma inner_holds_mod:
  assumes "inner_holds k es inner f" and "\<And>i p. i < es \<Longrightarrow> p < 2 ^ k \<Longrightarrow> f i p mod modulus = f' i p mod modulus"
  shows "inner_holds k es inner f'"
  using assms unfolding inner_holds_def by (blast intro: elem_mod)

lemma result_holds_mod:
  assumes "result_holds k es m f" and "\<And>i p. i < es \<Longrightarrow> p < 2 ^ k \<Longrightarrow> f i p mod modulus = f' i p mod modulus"
  shows "result_holds k es m f'"
  using assms unfolding result_holds_def by (blast intro: elem_mod)

lemma inner_of_result: "result_holds k es m f \<Longrightarrow> inner_holds k es (\<lambda>x. m ! (2 ^ k * es + x)) f"
  by (simp add: result_holds_def inner_holds_def)

theorem ntt_forward_law:
  assumes "0 < es" and k: "2 \<le> k" "k \<le> 31" and "elem root phi" "elem one 1" "elem norm c" and phi: "phi ^ 2 ^ k mod modulus = (- 1) mod modulus"
    and "inner_holds k es inner a" and "length m = 2 * (2 ^ k * es)"
  shows "\<exists>ks. ntt_forward R k es root one norm g inner = Some ks
    \<and> queue_wp ks m (\<lambda>m'. result_holds k es m' (\<lambda>i. ntt_value k phi (a i)))"
proof -
  obtain roots where roots: "get_roots R False k root one norm g = Some roots" "roots_hold k roots (root_weights k phi)"
    using get_roots_hold [OF k assms(4-6), of False g] by (auto simp: roots_hold_def)
  have "queue_wp (forward_kernels R k es roots inner) m (\<lambda>m'. result_holds k es m' (\<lambda>i. ntt_value k phi (a i)))"
    by (rule queue_wp_mono [OF forward_wp [OF assms(1) k(1) roots(2) assms(8,9)]], rule result_holds_mod, assumption)
      (rule ntt_value_stages [OF phi], use k(1) in simp_all)
  then show ?thesis using roots(1) by (simp add: ntt_forward_def)
qed

lemma ntt_inverse_law:
  assumes "0 < es" and k: "2 \<le> k" "k \<le> 31" and "elem root phi" "elem one 1" "elem norm c"
    and "inner_holds k es inner f" and "length m = 2 * (2 ^ k * es)"
  shows "\<exists>ks. ntt_inverse R k es root one norm g inner = Some ks
    \<and> queue_wp ks m (\<lambda>m'. result_holds k es m' (\<lambda>i p. c * inverse_stages k (root_weights k phi) k (f i) p))"
proof -
  obtain roots where roots: "get_roots R True k root one norm g = Some roots" "elem (roots ! 0) c"
      "\<And>m. 0 < m \<Longrightarrow> m < 2 ^ k \<Longrightarrow> elem (roots ! m) (root_weights k phi m * (if m = 1 then c else 1))"
    using get_roots_hold [OF k assms(4-6), of True g] by auto
  let ?w = "root_weights k phi"
  have "roots_hold k roots (?w(1 := ?w 1 * c))"
    using roots(3) unfolding roots_hold_def fun_upd_def by (metis mult.right_neutral)
  then show ?thesis using inverse_wp [OF assms(1) k(1) _ roots(2) assms(7,8)] roots(1) by (simp add: ntt_inverse_def)
qed

text \<open>Back: the inverse transform of the values is the polynomial, and that of products of values is the product modulo \<open>X ^ n + 1\<close>.\<close>

theorem ntt_inverse_values:
  assumes "0 < es" and k: "2 \<le> k" "k \<le> 31" and "elem root phi'" "elem one 1" "elem norm c" and phi: "phi ^ 2 ^ k mod modulus = (- 1) mod modulus"
    and inv: "phi * phi' mod modulus = 1 mod modulus" "c * 2 ^ k mod modulus = 1 mod modulus"
    and "inner_holds k es inner (\<lambda>i. ntt_value k phi (a i))" and "length m = 2 * (2 ^ k * es)"
  shows "\<exists>ks. ntt_inverse R k es root one norm g inner = Some ks \<and> queue_wp ks m (\<lambda>m'. result_holds k es m' a)"
proof -
  have k0: "0 < k" using k(1) by simp
  have "inner_holds k es inner (\<lambda>i. forward_stages k (root_weights k phi) k (a i))"
    by (rule inner_holds_mod [OF assms(10)]) (rule ntt_value_stages [OF phi k0, symmetric])
  from ntt_inverse_law [OF assms(1-6) this assms(11)] obtain ks where ks: "ntt_inverse R k es root one norm g inner = Some ks"
      "queue_wp ks m (\<lambda>m'. result_holds k es m' (\<lambda>i p. c * inverse_stages k (root_weights k phi') k (forward_stages k (root_weights k phi) k (a i)) p))"
    by blast
  have coeff: "c * inverse_stages k (root_weights k phi') k (forward_stages k (root_weights k phi) k (a i)) p mod modulus = a i p mod modulus" for i p
  proof -
    have "c * inverse_stages k (root_weights k phi') k (forward_stages k (root_weights k phi) k (a i)) p mod modulus = c * (2 ^ k * a i p) mod modulus"
      by (rule mod_multI [OF refl inverse_forward_stages [OF inverse_weights_root [OF inv(1)]]])
    also have "\<dots> = (c * 2 ^ k) * a i p mod modulus" by (simp add: mult.assoc)
    also have "\<dots> = 1 * a i p mod modulus" by (rule mod_multI [OF inv(2) refl])
    finally show ?thesis by simp
  qed
  have "queue_wp ks m (\<lambda>m'. result_holds k es m' a)"
    by (rule queue_wp_mono [OF ks(2)], rule result_holds_mod, assumption, rule coeff)
  then show ?thesis using ks(1) by simp
qed

theorem ntt_inverse_products:
  assumes "0 < es" and k: "2 \<le> k" "k \<le> 31" and "elem root phi'" "elem one 1" "elem norm c" and phi: "phi ^ 2 ^ k mod modulus = (- 1) mod modulus"
    and inv: "phi * phi' mod modulus = 1 mod modulus" "c * 2 ^ k mod modulus = 1 mod modulus"
    and "inner_holds k es inner (\<lambda>i p. ntt_value k phi (a i) p * ntt_value k phi (b i) p)" and "length m = 2 * (2 ^ k * es)"
  shows "\<exists>ks. ntt_inverse R k es root one norm g inner = Some ks \<and> queue_wp ks m (\<lambda>m'. result_holds k es m' (\<lambda>i. negacyclic (2 ^ k) (a i) (b i)))"
  by (rule ntt_inverse_values [OF assms(1-9) inner_holds_mod [OF assms(10)] assms(11)]) (rule ntt_value_product [OF phi, symmetric])

end

end
