(* ===== verification/Ntt_Mod.thy ===== *)
theory Ntt_Mod
  imports Ntt_Transform Modint_Signed Samplers
begin

text \<open>
  The transforms on modular integers: the interpretation of \<open>transform\<close>, the constants that the compiler computes for a
  transform, and the search for a root of unity (\<^verbatim>\<open>ints/num/theory/root_of_unity.hpp\<close>).
\<close>

section \<open>Modular integers as elements\<close>

definition mod_ops :: "'a::len word eval \<Rightarrow> (nat \<Rightarrow> 'a word) \<Rightarrow> 'a word mod_constants \<Rightarrow> 'a word bit_span element_ops" where
  "mod_ops E g K = \<lparr>op_add = mod_add E g K, op_sub = mod_subtract E g K, op_mul = mod_multiply E g K,
     op_mul_assign = mod_assign mod_multiply_body E g K\<rparr>"

interpretation mod_transform: transform "mod_ops E g K" "mod_valid E K" "mod_val K" "mod_int K"
  for E :: "'a::len word eval" and g K
proof
  fix x y
  show "mod_valid E K x \<Longrightarrow> 0 \<le> mod_val K x \<and> mod_val K x < mod_int K" by (rule mod_ring.val_range)
  assume v: "mod_valid E K x" "mod_valid E K y"
  show "mod_valid E K (op_add (mod_ops E g K) x y) \<and> mod_val K (op_add (mod_ops E g K) x y) = (mod_val K x + mod_val K y) mod mod_int K"
    "mod_valid E K (op_sub (mod_ops E g K) x y) \<and> mod_val K (op_sub (mod_ops E g K) x y) = (mod_val K x - mod_val K y) mod mod_int K"
    "mod_valid E K (op_mul (mod_ops E g K) x y) \<and> mod_val K (op_mul (mod_ops E g K) x y) = mod_val K x * mod_val K y mod mod_int K"
    "mod_valid E K (op_mul_assign (mod_ops E g K) x y) \<and> mod_val K (op_mul_assign (mod_ops E g K) x y) = mod_val K x * mod_val K y mod mod_int K"
    using mod_ring.laws [OF v, of g] mod_assign_ring.mul_law [OF v, of g] by (simp_all add: mod_ops_def)
qed

section \<open>Constants\<close>

text \<open>\<^verbatim>\<open>integer_traits<mod>\<close>: the one is the constant of the type, copied; the largest integer is the modulus less 1.\<close>

definition mod_traits_one :: "(nat \<Rightarrow> 'a::len word) \<Rightarrow> 'a word mod_constants \<Rightarrow> 'a word bit_span option" where
  "mod_traits_one g K = do {
     reduced \<leftarrow> bigint_modulo g (mod_auxiliary (normal_type (mod_modulus K)) (mod_limb_size K)) (mod_modulus K);
     span \<leftarrow> constant_bit_span_from (Bits (bit_copy_to Consteval (mod_new g K) reduced));
     Some (ints_bit_copy Consteval (mod_new g K) span) }"

definition mod_max_unsigned :: "(nat \<Rightarrow> 'a::len word) \<Rightarrow> 'a word mod_constants \<Rightarrow> 'a word bit_span" where
  "mod_max_unsigned g K = bigint_convert Consteval g (mod_bit_size K) Without_sign (normal_type (mod_modulus K))
     (bigint_abs Consteval g g g (bigint_subtract Consteval g (mod_modulus K) bigint_one))"

lemma mod_R_less: "mod_sound (K :: 'a::len word mod_constants) \<Longrightarrow> mod_R K < 2 ^ LENGTH('a) * mod_int K"
proof (cases "mod_bit_size K = 0")
  case True
  assume K: "mod_sound K"
  have "mod_R K = 1" using True by (simp add: mod_R_def mod_limb_size_def limb_size_for_def)
  moreover have "1 < (2 :: int) ^ LENGTH('a)" by (intro one_less_power) simp_all
  moreover have "2 ^ LENGTH('a) * 1 \<le> 2 ^ LENGTH('a) * mod_int K" using mod_soundD(3) [OF K] by (intro mult_left_mono) simp_all
  ultimately show ?thesis by linarith
next
  case False
  assume K: "mod_sound K"
  have "LENGTH('a) * mod_limb_size K \<le> LENGTH('a) + (mod_bit_size K - 1)"
    using limb_size_for_upper [of "mod_bit_size K", where 'a = 'a] False by (simp add: mod_limb_size_def)
  then have "mod_R K \<le> 2 ^ (LENGTH('a) + (mod_bit_size K - 1))" unfolding mod_R_def by (rule power_increasing) simp
  also have "\<dots> < 2 ^ LENGTH('a) * mod_int K" unfolding power_add
    by (rule mult_strict_left_mono) (use mod_soundD(5) [OF K] False in simp_all)
  finally show ?thesis .
qed

lemma mod_traits_one_law:
  assumes "mod_sound (K :: 'a::len word mod_constants)" and "mod_bit_size K + LENGTH('a) \<le> 2 ^ 64"
  shows "\<exists>r. mod_traits_one g K = Some r \<and> mod_ok K r \<and> mod_val K r = 1 mod mod_int K"
proof -
  note sound = mod_soundD [OF assms(1)]
  let ?a = "mod_auxiliary (normal_type (mod_modulus K)) (mod_limb_size K) :: 'a word bit_span" and ?r = "mod_R K mod mod_int K"
  have a: "bigint_ok ?a" "is_unsigned (signedness ?a)" "span_int ?a = mod_R K" by (simp_all add: mod_auxiliary_ok is_unsigned_def mod_R_def)
  have um: "is_unsigned (signedness (mod_modulus K))" "0 < span_int (mod_modulus K)" using sound(2,3) by (simp_all add: is_unsigned_def mod_int_def)
  obtain m where m: "bigint_modulo g ?a (mod_modulus K) = Some m" "bigint_ok m" "span_int m = ?r"
    using bigint_modulo_cases [OF a(1,2) sound(1) um, of g] mod_R_less [OF assms(1)] by (auto simp: a(3) mod_int_def)
  have r: "0 \<le> ?r" "?r < mod_int K" using sound(3) by simp_all
  have "bit_copy_to Consteval (mod_new g K) m = store (mod_new g K) ?r"
    using bit_copy_to_new [OF assms(1) m(2), of g] by (simp only: m(3) r simp_thms)
  moreover obtain s where s: "constant_bit_span_from (Bits (store (mod_new g K) ?r)) = Some s" "represents s ?r"
    using mod_store [OF assms(1) mod_new_dest r, of g] constant_bit_span [of "store (mod_new g K) ?r"] r assms(2)
    by (auto simp: mod_ok_def mod_dest_def)
  moreover have "ints_bit_copy Consteval (mod_new g K) s = store (mod_new g K) ?r"
    using num_bitwise_eq(5) [OF sycl_ok_Consteval, of "mod_new g K" s] mod_new_dest [of K g] get_int_rspan_int [OF sycl_ok_Consteval representsD(1) [OF s(2)]]
    by (simp add: ints_defs mod_dest_def representsD(2) [OF s(2)])
  ultimately have "mod_traits_one g K = Some (store (mod_new g K) ?r)" using m(1) by (simp add: mod_traits_one_def)
  then show ?thesis using mod_valI [OF assms(1) mod_new_dest r, of 1 g] by simp
qed

lemma mod_max_unsigned_law:
  assumes "mod_sound K" and "normal_type (mod_modulus K) = Normal"
  shows "bigint_ok (mod_max_unsigned g K)" "span_int (mod_max_unsigned g K) = mod_int K - 1"
    "signedness (mod_max_unsigned g K) = Without_sign" "bit_size (mod_max_unsigned g K) = mod_bit_size K"
proof -
  note sound = mod_soundD [OF assms(1)]
  let ?d = "bigint_subtract Consteval g (mod_modulus K) bigint_one" and ?b = "uninit (mod_bit_size K) Without_sign (normal_type (mod_modulus K)) g"
  have d: "bigint_ok ?d" "span_int ?d = mod_int K - 1"
    using bigint_subtract_exact [OF sycl_ok_Consteval sound(1) bigint_one(1), of g] sound(2) by (simp_all add: mod_int_def)
  have "normal_type ?d = Normal" using assms(2) by (simp add: bigint_subtract_def ints_defs Let_def num_subtract_eq common_normal_def)
  note a = bigint_abs_exact [OF sycl_ok_Consteval d(1) this, of g g g]
  have val: "span_int (bigint_abs Consteval g g g ?d) = mod_int K - 1" using a(2) d(2) sound(3) by simp
  have eq: "mod_max_unsigned g K = store (mod_new g K) (mod_int K - 1)"
    using num_bitwise_eq(5) [OF sycl_ok_Consteval, of ?b "Bits (bigint_abs Consteval g g g ?d)"] a(1) val
    by (simp add: mod_max_unsigned_def bigint_convert_def ints_defs mod_new_def)
  have "0 \<le> mod_int K - 1" "mod_int K - 1 < mod_int K" using sound(3) by simp_all
  note st = mod_store [OF assms(1) mod_new_dest this, of g, folded eq]
  show "bigint_ok (mod_max_unsigned g K)" "span_int (mod_max_unsigned g K) = mod_int K - 1"
    "signedness (mod_max_unsigned g K) = Without_sign" "bit_size (mod_max_unsigned g K) = mod_bit_size K"
    using st mod_okD [OF st(1)] by simp_all
qed

end
