(* ===== verification/Root_Of_Unity.thy ===== *)
theory Root_Of_Unity
  imports Ntt_Mod
begin

text \<open>
  The search for a root of unity (\<^verbatim>\<open>ints/num/theory/root_of_unity.hpp\<close>): random residues are raised to a power until one has the order
  that is asked for. The loop may run forever, so it is a partial function, and its result \<open>None\<close> means that it does;
  \<open>Some None\<close> is a program that the compiler rejects. The lemmas show which draws end the loop and what it returns.
\<close>

section \<open>The search\<close>

definition is_root_of_unity :: "(nat \<Rightarrow> 'a::len word) \<Rightarrow> 'a word mod_constants \<Rightarrow> 'a word bit_span \<Rightarrow> nat \<Rightarrow> bool option" where
  "is_root_of_unity g K v degree = do {
     ct_assert (std_has_single_bit (of_nat degree :: 64 word));
     half \<leftarrow> mod_pow Consteval g K v (degree div 2);
     one \<leftarrow> mod_traits_one g K;
     full \<leftarrow> mod_pow Consteval g K v degree;
     Some (bool_cast (mod_compare ints_not_equal_to Consteval half one AND mod_compare ints_equal_to Consteval full one)) }"

text \<open>A draw, which is reduced if it is too large; and what the loop makes of it: a root, or another round.\<close>

definition root_candidate ::
    "('s \<Rightarrow> 'a::len word list \<times> 's) \<Rightarrow> nat \<Rightarrow> 'a word mod_constants \<Rightarrow> 'a word bit_span \<Rightarrow> 'a word bit_span \<Rightarrow> ('s, 'a word) number_generator
     \<Rightarrow> 'a word bit_span \<times> ('s, 'a word) number_generator" where
  "root_candidate engine block_size K largest x gen =
     (let (x, gen) = uniform_bits engine block_size x gen
      in (if bool_cast (ints_greater Consteval (Bits x) (Bits largest))
          then fst (ints_subtract Consteval x (Bits x) (Bits (mod_modulus K)) (Const 0)) else x, gen))"

definition root_attempt ::
    "(nat \<Rightarrow> 'a::len word) \<Rightarrow> 'a word mod_constants \<Rightarrow> 'a word bit_span \<Rightarrow> nat \<Rightarrow> 'a word bit_span \<Rightarrow> 'a word bit_span option option" where
  "root_attempt g K exponent degree x =
     (if bool_cast (mod_compare ints_not_equal_to Consteval x (mod_new (\<lambda>_. 0) K))
      then do {
        r \<leftarrow> mod_pow_integer g K x exponent;
        ok \<leftarrow> is_root_of_unity g K r degree;
        Some (if ok then Some r else None) }
      else Some None)"

text \<open>A loop \<^verbatim>\<open>while (true)\<close>: its body returns a result, or the variables of the next round.\<close>

partial_function (option) forever :: "('s \<Rightarrow> 'r + 's) \<Rightarrow> 's \<Rightarrow> 'r option" where
  [code]: "forever body s = (case body s of Inl r \<Rightarrow> Some r | Inr s' \<Rightarrow> forever body s')"

definition root_round ::
    "('s \<Rightarrow> 'a::len word list \<times> 's) \<Rightarrow> nat \<Rightarrow> (nat \<Rightarrow> 'a word) \<Rightarrow> 'a word mod_constants \<Rightarrow> 'a word bit_span \<Rightarrow> 'a word bit_span \<Rightarrow> nat
     \<Rightarrow> 'a word bit_span \<times> ('s, 'a word) number_generator \<Rightarrow> 'a word bit_span option + 'a word bit_span \<times> ('s, 'a word) number_generator" where
  "root_round engine block_size g K largest exponent degree = (\<lambda>(x, gen).
     let (x, gen) = root_candidate engine block_size K largest x gen
     in case root_attempt g K exponent degree x of
          None \<Rightarrow> Inl None
        | Some (Some r) \<Rightarrow> Inl (Some r)
        | Some None \<Rightarrow> Inr (x, gen))"

definition root_of_unity ::
    "('s \<Rightarrow> 'a::len word list \<times> 's) \<Rightarrow> nat \<Rightarrow> (nat \<Rightarrow> 'a word) \<Rightarrow> 'a word mod_constants \<Rightarrow> nat \<Rightarrow> ('s, 'a word) number_generator
     \<Rightarrow> 'a word bit_span option option" where
  "root_of_unity engine block_size g K degree gen =
     (let largest = mod_max_unsigned g K
      in case bigint_divide_result g g largest (bit_array (std_bit_width degree) Without_sign Normal [of_nat degree]) of
           None \<Rightarrow> Some None
         | Some (exponent, remainder) \<Rightarrow>
             if bool_cast (bigint_compare ints_equal_to Consteval remainder bigint_zero)
             then forever (root_round engine block_size g K largest exponent degree) (mod_new g K, gen)
             else Some None)"

section \<open>One round\<close>

lemma mod_compare_val:
  assumes "mod_valid Consteval K x" and "mod_valid Consteval K y"
  shows "mod_compare ints_equal_to Consteval x y = of_bool (mod_val K x = mod_val K y)"
    and "mod_compare ints_not_equal_to Consteval x y = of_bool (mod_val K x \<noteq> mod_val K y)"
proof -
  note x = mod_validD [OF assms(1)] and y = mod_validD [OF assms(2)]
  note cmp = bigint_compare_exact(5,6) [OF sycl_ok_Consteval mod_okD(2) [OF x(4)] mod_okD(2) [OF y(4)]]
  show "mod_compare ints_equal_to Consteval x y = of_bool (mod_val K x = mod_val K y)"
    "mod_compare ints_not_equal_to Consteval x y = of_bool (mod_val K x \<noteq> mod_val K y)"
    using cmp mod_okD(5) [OF x(4)] mod_okD(5) [OF y(4)] mod_span_eq_iff [OF x(2,4) y(4)] by (simp_all add: mod_compare_def bigint_compare_def)
qed

lemma single_bit_power: "j < 64 \<Longrightarrow> std_has_single_bit (of_nat (2 ^ j) :: 64 word)"
  unfolding std_has_single_bit_iff by (auto simp: bit_exp_iff)

lemma is_root_of_unity_law:
  assumes "mod_valid Consteval K v" and "j < 64"
  shows "is_root_of_unity g K v (2 ^ j) = Some (mod_val K v ^ (2 ^ j div 2) mod mod_int K \<noteq> 1 mod mod_int K \<and> mod_val K v ^ 2 ^ j mod mod_int K = 1 mod mod_int K)"
proof -
  note v = mod_validD [OF assms(1)]
  obtain h where h: "mod_pow Consteval g K v (2 ^ j div 2) = Some h" "mod_valid Consteval K h" "mod_val K h = mod_val K v ^ (2 ^ j div 2) mod mod_int K"
    using mod_pow_law [OF assms(1)] by blast
  obtain f where f: "mod_pow Consteval g K v (2 ^ j) = Some f" "mod_valid Consteval K f" "mod_val K f = mod_val K v ^ 2 ^ j mod mod_int K"
    using mod_pow_law [OF assms(1)] by blast
  obtain o1 where o1: "mod_traits_one g K = Some o1" "mod_ok K o1" "mod_val K o1 = 1 mod mod_int K"
    using mod_traits_one_law [OF v(2,3)] by blast
  have o: "mod_valid Consteval K o1" using o1(2) v by (simp add: mod_valid_def)
  show ?thesis
    using single_bit_power [OF assms(2)] h f o1 mod_compare_val [OF h(2) o] mod_compare_val [OF f(2) o]
    by (simp add: is_root_of_unity_def ct_assert_def hbit_of_bool_and bool_cast_def)
qed

section \<open>The loop\<close>

text \<open>The residue of a draw, at its position in the stream of the generator, and whether it ends the loop.\<close>

definition root_draw :: "chacha \<Rightarrow> chacha_word mod_constants \<Rightarrow> nat \<Rightarrow> int" where
  "root_draw c K i = mod_val K (store (mod_new (\<lambda>_. 0) K)
     (let v = drawn c (mod_limb_size K * i) (mod_bit_size K) in if mod_int K \<le> v then v - mod_int K else v))"

definition primitive :: "int \<Rightarrow> nat \<Rightarrow> int \<Rightarrow> bool" where
  "primitive q degree r \<longleftrightarrow> r ^ (degree div 2) mod q \<noteq> 1 mod q \<and> r ^ degree mod q = 1 mod q"

lemma primitive_mod: "primitive q degree (r mod q) = primitive q degree r"
  by (simp add: primitive_def power_mod)

definition root_at :: "chacha \<Rightarrow> chacha_word mod_constants \<Rightarrow> nat \<Rightarrow> nat \<Rightarrow> int" where
  "root_at c K degree i = root_draw c K i ^ nat ((mod_int K - 1) div int degree) mod mod_int K"

lemma root_candidate_law:
  fixes K :: "chacha_word mod_constants"
  assumes "chacha_ok c" and K: "mod_sound K" "normal_type (mod_modulus K) = Normal" "mod_bit_size K + 32 \<le> 2 ^ 64" and x: "mod_dest K x"
  shows "\<exists>y. root_candidate (chacha_call Consteval) 16 K (mod_max_unsigned g K) x (generator_at (chacha_call Consteval) 16 c (mod_limb_size K * i))
      = (y, generator_at (chacha_call Consteval) 16 c (mod_limb_size K * Suc i))
    \<and> mod_valid Consteval K y \<and> mod_val K y = root_draw c K i"
proof -
  note sound = mod_soundD [OF K(1)] and mx = mod_max_unsigned_law [OF K(1,2), of g]
  let ?n = "mod_limb_size K * i" and ?q = "mod_int K"
  let ?v = "drawn c ?n (mod_bit_size K)" and ?w = "span_written x (\<lambda>i. Dyn (chacha_word_at c (?n + i))) Normal"
  define cand where "cand = (if ?q \<le> ?v then ?v - ?q else ?v)"
  have x': "bit_size x = mod_bit_size K" "signedness x = Without_sign" "normal_type x = normal_type (mod_modulus K)" "length (data x) = limb_size x" "limb_size x = mod_limb_size K"
    using x by (simp_all add: mod_dest_def limb_size_def mod_limb_size_def)
  have w: "mod_dest K ?w" "bigint_ok ?w" "span_int ?w = ?v" "signedness ?w = Without_sign"
    using written_unsigned [of x "\<lambda>i. Dyn (chacha_word_at c (?n + i))"] x' by (simp_all add: mod_dest_def is_unsigned_def drawn_def mod_limb_size_def)
  have vr: "0 \<le> ?v" "?v < 2 ^ mod_bit_size K" using bigint_range(1) [OF w(2)] w x' by (simp_all add: is_unsigned_def)
  have range: "0 \<le> cand" "cand < ?q"
  proof -
    have "?v < 2 * ?q"
    proof (cases "mod_bit_size K = 0")
      case False
      then have "(2 :: int) ^ mod_bit_size K = 2 * 2 ^ (mod_bit_size K - 1)" by (simp flip: power_Suc)
      then show ?thesis using vr(2) sound(5) False by linarith
    qed (use vr(2) sound(3) in simp)
    then show "0 \<le> cand" "cand < ?q" using vr(1) by (simp_all add: cand_def)
  qed
  have greater: "bool_cast (ints_greater Consteval (Bits ?w) (Bits (mod_max_unsigned g K))) \<longleftrightarrow> ?q \<le> ?v"
    using bigint_compare_exact(3) [OF sycl_ok_Consteval w(2) mx(1)] w(3,4) mx(2,3) by (auto simp: bigint_compare_def bool_cast_def)
  define y where "y = (if ?q \<le> ?v then fst (ints_subtract Consteval ?w (Bits ?w) (Bits (mod_modulus K)) (Const 0)) else ?w)"
  have y: "mod_ok K y" "span_int y = cand"
  proof -
    have "mod_ok K y \<and> span_int y = cand"
    proof (cases "?q \<le> ?v")
      case True
      have "fst (ints_subtract Consteval ?w (Bits ?w) (Bits (mod_modulus K)) (Const 0)) = store ?w (?v - ?q)"
        using num_subtract_eq(1) [OF sycl_ok_Consteval, of ?w "Bits ?w" "Bits (mod_modulus K)" "Const 0"] w sound(1)
        by (simp add: ints_defs mod_dest_def mod_int_def)
      then show ?thesis using mod_store [OF K(1) w(1) range] True by (simp add: y_def cand_def)
    next
      case False
      then show ?thesis using w by (simp add: y_def cand_def mod_ok_def)
    qed
    then show "mod_ok K y" "span_int y = cand" by simp_all
  qed
  have "mod_val K y = mod_val K (store (mod_new (\<lambda>_. 0) K) cand)"
    using mod_span_eq_iff [OF K(1) y(1) mod_store(1) [OF K(1) mod_new_dest range]] y(2) mod_store(2) [OF K(1) mod_new_dest range] by simp
  then have "mod_val K y = root_draw c K i" by (simp add: root_draw_def cand_def Let_def)
  moreover have "root_candidate (chacha_call Consteval) 16 K (mod_max_unsigned g K) x (generator_at (chacha_call Consteval) 16 c ?n)
      = (y, generator_at (chacha_call Consteval) 16 c (mod_limb_size K * Suc i))"
    using uniform_bits_at [OF sycl_ok_Consteval assms(1) x'(4), of ?n] greater x'(5)
    by (simp add: root_candidate_def y_def add.commute)
  ultimately show ?thesis using y(1) K by (auto simp: mod_valid_def sycl_ok_Consteval)
qed

lemma mod_zero_law:
  assumes "mod_sound (K :: 'a::len word mod_constants)"
  shows "mod_ok K (mod_new (\<lambda>_. 0) K)" and "mod_val K (mod_new (\<lambda>_. 0) K) = 0"
proof -
  let ?z = "mod_new (\<lambda>_. 0) K"
  have "limbs_val (\<lambda>_. 0 :: 'a word) n = 0" for n by (induction n) simp_all
  then have "limbs_int (data ?z) = 0" by (simp add: mod_new_def uninit_def bit_array_def memory_def limbs_int_map)
  then have "span_int ?z = 0" "span_normal ?z" by (simp_all add: span_int_def span_normal_def wrap_def)
  moreover have "span_shape ?z" using mod_new_dest [of K "\<lambda>_. 0"] by (simp add: mod_dest_def span_shape_def)
  ultimately show ok: "mod_ok K ?z" using mod_soundD(3) [OF assms] by (simp add: mod_ok_def bigint_ok_def)
  have "mod_val K ?z mod mod_int K = 0 mod mod_int K"
    using mod_cancel_R [OF assms, of "mod_val K ?z" "mod_limb_size K" 0] mod_val(3) [OF assms ok] \<open>span_int ?z = 0\<close> by (simp add: mod_R_def)
  then show "mod_val K ?z = 0" using mod_val(1,2) [OF assms ok] by simp
qed

lemma root_attempt_law:
  assumes y: "mod_valid Consteval K y" and e: "bigint_ok e" "signedness e = Without_sign" "0 < span_int e" and j: "j < 64" and q: "1 < mod_int K"
  defines "r \<equiv> mod_val K y ^ nat (span_int e) mod mod_int K"
  shows "primitive (mod_int K) (2 ^ j) r \<Longrightarrow> \<exists>z. root_attempt g K e (2 ^ j) y = Some (Some z) \<and> mod_valid Consteval K z \<and> mod_val K z = r"
    and "\<not> primitive (mod_int K) (2 ^ j) r \<Longrightarrow> root_attempt g K e (2 ^ j) y = Some None"
proof -
  note v = mod_validD [OF y]
  have z: "mod_valid Consteval K (mod_new (\<lambda>_. 0) K)" "mod_val K (mod_new (\<lambda>_. 0) K) = 0"
    using mod_zero_law [OF v(2)] v by (simp_all add: mod_valid_def)
  obtain p where p: "mod_pow_integer g K y e = Some p" "mod_valid Consteval K p" "mod_val K p = r"
    using mod_pow_integer_law [OF y e(1,2), of g] by (auto simp: r_def)
  have run: "root_attempt g K e (2 ^ j) y = (if mod_val K y \<noteq> 0 then Some (if primitive (mod_int K) (2 ^ j) r then Some p else None) else Some None)"
    using mod_compare_val(2) [OF y z(1)] z(2) p is_root_of_unity_law [OF p(2) j, of g]
    by (simp add: root_attempt_def primitive_def bool_cast_def)
  have zero: "mod_val K y \<noteq> 0" if "primitive (mod_int K) (2 ^ j) r"
  proof
    assume "mod_val K y = 0"
    moreover have "0 < nat (span_int e)" using e(3) by simp
    ultimately have "r = 0" by (simp add: r_def zero_power)
    moreover have "(0 :: int) ^ 2 ^ j = 0" by (simp add: zero_power)
    ultimately show False using that q by (simp add: primitive_def zero_power)
  qed
  show "primitive (mod_int K) (2 ^ j) r \<Longrightarrow> \<exists>z. root_attempt g K e (2 ^ j) y = Some (Some z) \<and> mod_valid Consteval K z \<and> mod_val K z = r"
    using run zero p by simp
  show "\<not> primitive (mod_int K) (2 ^ j) r \<Longrightarrow> root_attempt g K e (2 ^ j) y = Some None" using run by simp
qed

text \<open>Whether the \<open>i\<close>-th draw ends the loop; the loop goes on from one position of the generator to the next.\<close>

definition root_found :: "chacha \<Rightarrow> chacha_word mod_constants \<Rightarrow> nat \<Rightarrow> nat \<Rightarrow> bool" where
  "root_found c K degree i \<longleftrightarrow> primitive (mod_int K) degree (root_at c K degree i)"

definition loop_input :: "(nat \<Rightarrow> chacha_word) \<Rightarrow> chacha \<Rightarrow> chacha_word mod_constants \<Rightarrow> chacha_word bit_span \<Rightarrow> nat \<Rightarrow> bool" where
  "loop_input g c K e j \<longleftrightarrow> chacha_ok c \<and> mod_sound K \<and> normal_type (mod_modulus K) = Normal \<and> mod_bit_size K + 32 \<le> 2 ^ 64 \<and> 1 < mod_int K
     \<and> bigint_ok e \<and> signedness e = Without_sign \<and> 0 < span_int e \<and> span_int e = (mod_int K - 1) div 2 ^ j \<and> j < 64"

abbreviation stream_at :: "chacha \<Rightarrow> chacha_word mod_constants \<Rightarrow> nat \<Rightarrow> (chacha, chacha_word) number_generator" where
  "stream_at c K i \<equiv> generator_at (chacha_call Consteval) 16 c (mod_limb_size K * i)"

lemma root_round_law:
  assumes "loop_input g c K e j" and "mod_dest K x"
  shows "if root_found c K (2 ^ j) i
    then \<exists>z. root_round (chacha_call Consteval) 16 g K (mod_max_unsigned g K) e (2 ^ j) (x, stream_at c K i) = Inl (Some z)
      \<and> mod_valid Consteval K z \<and> mod_val K z = root_at c K (2 ^ j) i
    else \<exists>y. root_round (chacha_call Consteval) 16 g K (mod_max_unsigned g K) e (2 ^ j) (x, stream_at c K i) = Inr (y, stream_at c K (Suc i)) \<and> mod_dest K y"
proof -
  have c: "chacha_ok c" and K: "mod_sound K" "normal_type (mod_modulus K) = Normal" "mod_bit_size K + 32 \<le> 2 ^ 64"
    and e: "bigint_ok e" "signedness e = Without_sign" "0 < span_int e" "j < 64" "1 < mod_int K" and ex: "span_int e = (mod_int K - 1) div int (2 ^ j)"
    using assms(1) by (simp_all add: loop_input_def)
  obtain y where y: "root_candidate (chacha_call Consteval) 16 K (mod_max_unsigned g K) x (stream_at c K i) = (y, stream_at c K (Suc i))"
      "mod_valid Consteval K y" "mod_val K y = root_draw c K i"
    using root_candidate_law [OF c K assms(2), of g i] by blast
  have r: "mod_val K y ^ nat (span_int e) mod mod_int K = root_at c K (2 ^ j) i" unfolding y(3) ex root_at_def ..
  show ?thesis
    using root_attempt_law [OF y(2) e, of g, unfolded r] mod_okD(1) [OF mod_validD(4) [OF y(2)]] y(1) unfolding root_found_def root_round_def by auto
qed

lemma root_loop_found:
  assumes "loop_input g c K e j"
  shows "mod_dest K x \<Longrightarrow> root_found c K (2 ^ j) (i + n) \<Longrightarrow> (\<And>l. l < n \<Longrightarrow> \<not> root_found c K (2 ^ j) (i + l)) \<Longrightarrow>
    \<exists>z. forever (root_round (chacha_call Consteval) 16 g K (mod_max_unsigned g K) e (2 ^ j)) (x, stream_at c K i) = Some (Some z)
      \<and> mod_valid Consteval K z \<and> mod_val K z = root_at c K (2 ^ j) (i + n)"
proof (induction n arbitrary: i x)
  case 0
  then show ?case using root_round_law [OF assms 0(1), of i] by (subst forever.simps) auto
next
  case (Suc n)
  have "\<not> root_found c K (2 ^ j) i" using Suc.prems(3) [of 0] by simp
  then obtain y where y: "root_round (chacha_call Consteval) 16 g K (mod_max_unsigned g K) e (2 ^ j) (x, stream_at c K i) = Inr (y, stream_at c K (Suc i))" "mod_dest K y"
    using root_round_law [OF assms Suc.prems(1), of i] by auto
  have "\<not> root_found c K (2 ^ j) (Suc i + l)" if "l < n" for l using Suc.prems(3) [of "Suc l"] that by simp
  moreover have "root_found c K (2 ^ j) (Suc i + n)" using Suc.prems(2) by simp
  ultimately show ?case using Suc.IH [OF y(2), of "Suc i"] y(1) by (subst forever.simps) simp
qed

text \<open>A body that always asks for another round is never left.\<close>

lemma forever_None:
  assumes "I s" and "\<And>s. I s \<Longrightarrow> \<exists>s'. body s = Inr s' \<and> I s'"
  shows "forever body s = None"
proof -
  have "I s \<longrightarrow> f = body \<longrightarrow> False" if "forever f s = Some r" for f s r
  proof (rule forever.raw_induct [where P = "\<lambda>f s r. I s \<longrightarrow> f = body \<longrightarrow> False", OF _ that], intro impI)
    fix loop f s r
    assume IH: "\<And>f s r. loop f s = Some r \<Longrightarrow> I s \<longrightarrow> f = body \<longrightarrow> False"
      and run: "(case f s of Inl r \<Rightarrow> Some r | Inr s' \<Rightarrow> loop f s') = Some r" and I: "I s" "f = body"
    obtain s' where "f s = Inr s'" "I s'" using assms(2) [OF I(1)] I(2) by blast
    with IH [of f s' r] run I(2) show False by simp
  qed
  then show ?thesis using assms(1) by (cases "forever body s") auto
qed

lemma root_loop_forever:
  assumes "loop_input g c K e j" and "\<And>i. \<not> root_found c K (2 ^ j) i" and "mod_dest K x"
  shows "forever (root_round (chacha_call Consteval) 16 g K (mod_max_unsigned g K) e (2 ^ j)) (x, stream_at c K i) = None"
proof (rule forever_None [where I = "\<lambda>(x, gen). mod_dest K x \<and> (\<exists>i. gen = stream_at c K i)"])
  fix s assume s: "case s of (x, gen) \<Rightarrow> mod_dest K x \<and> (\<exists>i. gen = stream_at c K i)"
  show "\<exists>s'. root_round (chacha_call Consteval) 16 g K (mod_max_unsigned g K) e (2 ^ j) s = Inr s'
      \<and> (case s' of (x, gen) \<Rightarrow> mod_dest K x \<and> (\<exists>i. gen = stream_at c K i))"
  proof (cases s)
    case (Pair x gen)
    then obtain i where i: "gen = stream_at c K i" "mod_dest K x" using s by auto
    obtain y where "root_round (chacha_call Consteval) 16 g K (mod_max_unsigned g K) e (2 ^ j) s = Inr (y, stream_at c K (Suc i))" "mod_dest K y"
      using root_round_law [OF assms(1) i(2), of i] assms(2) [of i] unfolding Pair i(1) by (simp only: if_False) blast
    then show ?thesis by blast
  qed
qed (use assms(3) in auto)

section \<open>The result\<close>

lemma degree_bits: "std_bit_width (2 ^ j) = Suc j"
  using std_bit_width_bounds [of "2 ^ j"] std_bit_width_le_iff [of "2 ^ j" "Suc j"] std_bit_width_le_iff [of "2 ^ j" j] by simp

lemma degree_object:
  assumes "j < 32"
  defines "d \<equiv> bit_array (std_bit_width (2 ^ j)) Without_sign Normal [of_nat (2 ^ j)] :: chacha_word bit_span"
  shows "bigint_ok d" "span_int d = 2 ^ j" "signedness d = Without_sign"
proof -
  have l: "limb_size_for TYPE(32) (Suc j) = 1" using assms(1) by (cases "j = 31") (simp_all add: limb_size_for_def div_ceil_cases)
  have "(2 :: nat) ^ j < 2 ^ 32" using assms(1) by (intro power_strict_increasing) simp_all
  then have "(2 :: int) ^ j < 2 ^ 32" by (metis of_nat_less_iff of_nat_numeral of_nat_power)
  then have "uint (of_nat (2 ^ j) :: 32 word) = 2 ^ j" by (subst unsigned_of_nat) (simp add: take_bit_nat_eq_self_iff assms(1))
  then have v: "limbs_int (data d) = 2 ^ j" by (simp add: d_def bit_array_def)
  then show d: "span_int d = 2 ^ j" by (simp add: span_int_def wrap_def d_def degree_bits bit_array_def take_bit_int_eq_self_iff)
  have "(2 :: int) ^ j < 2 ^ 32" by fact
  then show "bigint_ok d" using v d l by (simp add: bigint_ok_def span_shape_def span_normal_def) (simp add: d_def bit_array_def degree_bits limb_size_def)
  show "signedness d = Without_sign" by (simp add: d_def bit_array_def)
qed

lemma divide_result_exact:
  assumes l: "bigint_ok l" "is_unsigned (signedness l)" and r: "bigint_ok r" "is_unsigned (signedness r)" and "0 < span_int r"
  shows "\<exists>q m. bigint_divide_result g h l r = Some (q, m) \<and> bigint_ok q \<and> signedness q = Without_sign \<and> span_int q = span_int l div span_int r
    \<and> bigint_ok m \<and> signedness m = Without_sign \<and> span_int m = span_int l mod span_int (r :: 'a::len word bit_span)"
proof -
  let ?b = "uninit (bit_size l) Without_sign (normal_type l) g" and ?c = "uninit (bit_size r) Without_sign (normal_type l) h"
  note lr = bigint_range(1) [OF l] and rr = bigint_range(1) [OF r] and lc = bigint_ct [OF l] and rc = bigint_ct [OF r]
  have q: "0 \<le> span_int l div span_int r" "span_int l div span_int r < 2 ^ bit_size l"
    using lr assms(5) zdiv_mono2 [of "span_int l" 1 "span_int r"] by (simp_all add: pos_imp_zdiv_nonneg_iff)
  have m: "0 \<le> span_int l mod span_int r" "span_int l mod span_int r < 2 ^ bit_size r"
    using rr assms(5) pos_mod_bound [OF assms(5), of "span_int l"] by (simp, linarith)
  have "(2 :: int) ^ bit_size l \<le> 2 ^ (LENGTH('a) * limb_size_for TYPE('a) (bit_size l))"
    using limb_size_for_bits by (rule power_increasing) simp
  then have "span_int l div span_int r < 2 ^ (LENGTH('a) * limb_size_for TYPE('a) (bit_size l))" using q(2) by linarith
  then have "ct_divide ?b ?c (Other l) r = Some (store ?b (span_int l div span_int r), store ?c (span_int l mod span_int r))"
    using ct_divide_some [of ?b ?c "Other l" r] lc rc assms(5) m(2) by simp
  then show ?thesis
    using unsigned_store [OF q, of "normal_type l" g] unsigned_store [OF m, of "normal_type l" h]
    by (simp add: bigint_divide_result_def ints_defs)
qed

theorem root_of_unity_law:
  fixes g :: "nat \<Rightarrow> chacha_word"
  assumes c: "chacha_ok c" and K: "mod_sound K" "normal_type (mod_modulus K) = Normal" "mod_bit_size K + 32 \<le> 2 ^ 64" "1 < mod_int K" and j: "j < 32"
  defines "result \<equiv> root_of_unity (chacha_call Consteval) 16 g K (2 ^ j) (stream_at c K 0)"
  shows "\<not> 2 ^ j dvd mod_int K - 1 \<Longrightarrow> result = Some None"
    and "2 ^ j dvd mod_int K - 1 \<Longrightarrow> \<forall>i. \<not> root_found c K (2 ^ j) i \<Longrightarrow> result = None"
    and "2 ^ j dvd mod_int K - 1 \<Longrightarrow> root_found c K (2 ^ j) n \<Longrightarrow> \<forall>l < n. \<not> root_found c K (2 ^ j) l \<Longrightarrow>
      \<exists>z. result = Some (Some z) \<and> mod_valid Consteval K z \<and> mod_val K z = root_at c K (2 ^ j) n"
proof -
  note mx = mod_max_unsigned_law [OF K(1,2), of g] and d = degree_object [OF j]
  let ?d = "bit_array (std_bit_width (2 ^ j)) Without_sign Normal [of_nat (2 ^ j)] :: chacha_word bit_span"
  obtain e m where em: "bigint_divide_result g g (mod_max_unsigned g K) ?d = Some (e, m)" "bigint_ok e" "signedness e = Without_sign"
      "span_int e = (mod_int K - 1) div 2 ^ j" "bigint_ok m" "signedness m = Without_sign" "span_int m = (mod_int K - 1) mod 2 ^ j"
    using divide_result_exact [OF mx(1) _ d(1), of g g] mx d by (auto simp: is_unsigned_def)
  have run: "result = (if 2 ^ j dvd mod_int K - 1
      then forever (root_round (chacha_call Consteval) 16 g K (mod_max_unsigned g K) e (2 ^ j)) (mod_new g K, stream_at c K 0) else Some None)"
    using em(1) bigint_nonzero(2) [OF em(5,6)] em(7) unfolding result_def root_of_unity_def Let_def by (simp add: dvd_eq_mod_eq_0)
  have input: "loop_input g c K e j" if "2 ^ j dvd mod_int K - 1"
  proof -
    have "2 ^ j \<le> mod_int K - 1" by (rule zdvd_imp_le [OF that]) (use K(4) in simp)
    then have "0 < (mod_int K - 1) div 2 ^ j" by (simp add: pos_imp_zdiv_pos_iff)
    then show ?thesis using c K em j by (simp add: loop_input_def)
  qed
  show "\<not> 2 ^ j dvd mod_int K - 1 \<Longrightarrow> result = Some None" by (simp add: run)
  show "2 ^ j dvd mod_int K - 1 \<Longrightarrow> \<forall>i. \<not> root_found c K (2 ^ j) i \<Longrightarrow> result = None"
    using root_loop_forever [where i = 0, OF input _ mod_new_dest] by (simp add: run)
  show "2 ^ j dvd mod_int K - 1 \<Longrightarrow> root_found c K (2 ^ j) n \<Longrightarrow> \<forall>l < n. \<not> root_found c K (2 ^ j) l \<Longrightarrow>
      \<exists>z. result = Some (Some z) \<and> mod_valid Consteval K z \<and> mod_val K z = root_at c K (2 ^ j) n"
    using root_loop_found [OF input mod_new_dest, of 0 n] by (simp add: run)
qed

text \<open>Modulo a prime number, a root of the order \<open>2 * n\<close> is a root of \<open>X ^ n + 1\<close>.\<close>

lemma prime_root:
  assumes "\<And>a b. q dvd a * b \<Longrightarrow> q dvd a \<or> q dvd (b :: int)" and "primitive q (2 * n) r"
  shows "r ^ n mod q = (- 1) mod q"
proof -
  have r: "r ^ n mod q \<noteq> 1 mod q" "r ^ (2 * n) mod q = 1 mod q" using assms(2) by (simp_all add: primitive_def)
  have "(r ^ n - 1) * (r ^ n + 1) = r ^ (2 * n) - 1" unfolding power_even_eq
    by (simp add: power2_eq_square algebra_simps)
  then have "q dvd (r ^ n - 1) * (r ^ n + 1)" using r(2) by (simp only: mod_eq_dvd_iff)
  then have "q dvd r ^ n - - 1" using assms(1) r(1) by (auto simp: mod_eq_dvd_iff)
  then show ?thesis by (simp only: mod_eq_dvd_iff)
qed

lemma no_divisor_prime:
  assumes "1 < q" and "\<forall>d. 1 < d \<longrightarrow> d < q \<longrightarrow> \<not> d dvd q" and "q dvd a * (b :: int)"
  shows "q dvd a \<or> q dvd b"
proof -
  let ?d = "gcd q a"
  have "0 < ?d" "?d \<le> q" "?d dvd q" using assms(1) by (simp_all add: gcd_le1_int)
  then have "?d = 1 \<or> ?d = q" using assms(2) by (metis dual_order.order_iff_strict zless_imp_add1_zle add_0)
  then show ?thesis
  proof
    assume "?d = 1"
    then have "coprime q a" by (simp add: coprime_iff_gcd_eq_1)
    then show ?thesis using assms(3) by (simp add: coprime_dvd_mult_right_iff)
  next
    assume "?d = q"
    then show ?thesis using gcd_dvd2 [of q a] by simp
  qed
qed

section \<open>Properties\<close>

text \<open>C25: The search for a root of unity of the order \<open>2 ^ j\<close> modulo a prime \<open>q\<close>. The compiler rejects an order that does not divide \<open>q - 1\<close>. Otherwise
  the search runs forever exactly if no residue that the generator ever draws has a power of this order; if it ends, it returns the power
  of the first such draw, whose power \<open>2 ^ (j - 1)\<close> is \<open>- 1\<close>: a root of \<open>X ^ n + 1\<close> for vectors of half the order, as the transform needs.\<close>

theorem root_of_unity_correct:
  fixes g :: "nat \<Rightarrow> chacha_word"
  assumes "chacha_ok c" and "mod_sound K" and "normal_type (mod_modulus K) = Normal" and "mod_bit_size K + 32 \<le> 2 ^ 64"
    and "1 < mod_int K" and "\<forall>d. 1 < d \<longrightarrow> d < mod_int K \<longrightarrow> \<not> d dvd mod_int K" and "0 < j" and "j < 32"
  defines "result \<equiv> root_of_unity (chacha_call Consteval) 16 g K (2 ^ j) (generator_new (chacha_call Consteval) c)"
  shows "(\<not> 2 ^ j dvd mod_int K - 1 \<longrightarrow> result = Some None)
    \<and> (2 ^ j dvd mod_int K - 1 \<longrightarrow>
        (result = None \<longleftrightarrow> (\<forall>i. \<not> root_found c K (2 ^ j) i))
        \<and> (\<forall>r. result = Some r \<longrightarrow> (\<exists>z i. r = Some z \<and> mod_valid Consteval K z \<and> mod_val K z = root_at c K (2 ^ j) i
            \<and> root_found c K (2 ^ j) i \<and> (\<forall>l < i. \<not> root_found c K (2 ^ j) l)
            \<and> mod_val K z ^ 2 ^ (j - 1) mod mod_int K = (- 1) mod mod_int K)))"
proof -
  have start: "generator_new (chacha_call Consteval) c = stream_at c K 0" by (simp add: generator_at_def stream_engine_def)
  note law = root_of_unity_law [where g = g, OF assms(1-5,8), folded start, folded result_def]
  have two: "2 ^ j = 2 * (2 :: nat) ^ (j - 1)" using assms(7) by (cases j) simp_all
  have found: "\<exists>z i. result = Some (Some z) \<and> mod_valid Consteval K z \<and> mod_val K z = root_at c K (2 ^ j) i
      \<and> root_found c K (2 ^ j) i \<and> (\<forall>l < i. \<not> root_found c K (2 ^ j) l) \<and> mod_val K z ^ 2 ^ (j - 1) mod mod_int K = (- 1) mod mod_int K"
    if d: "2 ^ j dvd mod_int K - 1" and f: "\<exists>i. root_found c K (2 ^ j) i"
  proof -
    define i where "i = (LEAST i. root_found c K (2 ^ j) i)"
    have i: "root_found c K (2 ^ j) i" "\<forall>l < i. \<not> root_found c K (2 ^ j) l" unfolding i_def using f by (auto intro: LeastI dest: not_less_Least)
    obtain z where z: "result = Some (Some z)" "mod_valid Consteval K z" "mod_val K z = root_at c K (2 ^ j) i" using law(3) [OF d i] by blast
    have "primitive (mod_int K) (2 * 2 ^ (j - 1)) (mod_val K z)" using i(1) unfolding z(3) root_found_def two .
    from prime_root [OF no_divisor_prime [OF assms(5,6)] this] show ?thesis using z i by blast
  qed
  show ?thesis using law(1,2) found by (metis option.distinct(1) option.inject)
qed

lemma root_of_unity_correct_witness:
  "\<exists>K. mod_type (\<lambda>_. 0) (sample32 17) = Some K
    \<and> root_of_unity (chacha_call Consteval) 16 (\<lambda>_. 1) K 32 (generator_new (chacha_call Consteval) (chacha_compiletime 20 3 1)) = Some None
    \<and> (\<forall>r. root_of_unity (chacha_call Consteval) 16 (\<lambda>_. 1) K 8 (generator_new (chacha_call Consteval) (chacha_compiletime 20 3 1)) = Some r
        \<longrightarrow> (\<exists>z. r = Some z \<and> mod_val K z ^ 4 mod 17 = 16))"
proof -
  obtain K where K: "mod_type (\<lambda>_. 0) (sample32 17) = Some K" "mod_sound K" "mod_modulus K = sample32 17" "mod_int K = 17"
    "mod_bit_size K = 5" by (rule sample32_mod)
  have c: "chacha_ok (chacha_compiletime 20 3 1)" by (rule chacha_compiletime_ok) simp_all
  have h: "normal_type (mod_modulus K) = Normal" "mod_bit_size K + 32 \<le> 2 ^ 64" "1 < mod_int K" by (simp_all add: K(3-5))
  have "\<not> d dvd 17" if "1 < d" "d < 17" for d :: int
  proof -
    have "d \<in> set [2..16]" unfolding set_upto using that by (simp only: atLeastAtMost_iff) linarith
    moreover have "\<forall>d \<in> set [2..16]. \<not> d dvd (17 :: int)" by code_simp
    ultimately show ?thesis by blast
  qed
  then have p: "\<forall>d. 1 < d \<longrightarrow> d < mod_int K \<longrightarrow> \<not> d dvd mod_int K" by (simp add: K(4))
  note t = root_of_unity_correct [OF c K(2) h p, of _ "\<lambda>_. 1"]
  have "\<not> (2 :: int) ^ 5 dvd 17 - 1" "(2 :: int) ^ 3 dvd 17 - 1" by simp_all
  then show ?thesis using t [of 5] t [of 3] K(1) by (auto simp: K(4))
qed

end
