(* ===== verification/Ntt_Correct.thy ===== *)
theory Ntt_Correct
  imports Root_Of_Unity
begin

text \<open>
  The transforms of modular integers, put together as the expressions put them together: the constants that the compiler computes, the
  table of roots and the kernels. The properties are the values of the forward transform, the round trip, and the product of
  polynomials by the way of their values; and the search for the root that they use.
\<close>

section \<open>The transforms of a modular type\<close>

text \<open>The normalization is the inverse of the size of a vector.\<close>

definition ntt_normalization :: "(nat \<Rightarrow> chacha_word) \<Rightarrow> chacha_word mod_constants \<Rightarrow> nat \<Rightarrow> chacha_word bit_span option" where
  "ntt_normalization g K k = do {
     n \<leftarrow> mod_from_unsigned Consteval g K (mod_new g K) (bit_array 32 Without_sign Normal [of_nat (2 ^ k)]);
     mod_invert g K n }"

definition mod_ntt_forward :: "chacha_word eval \<Rightarrow> (nat \<Rightarrow> chacha_word) \<Rightarrow> chacha_word mod_constants \<Rightarrow> nat \<Rightarrow> nat \<Rightarrow> chacha_word bit_span
     \<Rightarrow> (nat \<Rightarrow> chacha_word bit_span) \<Rightarrow> (nat \<Rightarrow> chacha_word bit_span) \<Rightarrow> chacha_word bit_span program list list option" where
  "mod_ntt_forward E g K k es phi u inner = do {
     one \<leftarrow> mod_traits_one g K;
     normalization \<leftarrow> ntt_normalization g K k;
     ntt_forward (mod_ops E g K) k es phi one normalization u inner }"

definition mod_ntt_inverse :: "chacha_word eval \<Rightarrow> (nat \<Rightarrow> chacha_word) \<Rightarrow> chacha_word mod_constants \<Rightarrow> nat \<Rightarrow> nat \<Rightarrow> chacha_word bit_span
     \<Rightarrow> (nat \<Rightarrow> chacha_word bit_span) \<Rightarrow> (nat \<Rightarrow> chacha_word bit_span) \<Rightarrow> chacha_word bit_span program list list option" where
  "mod_ntt_inverse E g K k es phi u inner = do {
     root \<leftarrow> mod_invert g K phi;
     one \<leftarrow> mod_traits_one g K;
     normalization \<leftarrow> ntt_normalization g K k;
     ntt_inverse (mod_ops E g K) k es root one normalization u inner }"

section \<open>The constants\<close>

text \<open>A modular type and a root for vectors of \<open>2 ^ k\<close> elements.\<close>

definition ntt_type :: "chacha_word eval \<Rightarrow> chacha_word mod_constants \<Rightarrow> nat \<Rightarrow> chacha_word bit_span \<Rightarrow> bool" where
  "ntt_type E K k phi \<longleftrightarrow> mod_valid E K phi \<and> 1 < mod_int K \<and> 2 \<le> k \<and> k \<le> 31 \<and> mod_val K phi ^ 2 ^ k mod mod_int K = (- 1) mod mod_int K"

lemma ntt_typeD:
  assumes "ntt_type E K k phi"
  shows "mod_valid E K phi" "1 < mod_int K" "2 \<le> k" "k \<le> 31" "mod_val K phi ^ 2 ^ k mod mod_int K = (- 1) mod mod_int K"
    "sycl_ok E" "mod_sound K" "mod_bit_size K + LENGTH(32) \<le> 2 ^ 64" "mod_ok K phi"
  using assms mod_validD [of E K phi] by (simp_all add: ntt_type_def)

lemma mod_one_elem:
  assumes "ntt_type E K k phi"
  shows "\<exists>one. mod_traits_one g K = Some one \<and> mod_transform.elem E K one 1"
proof -
  note t = ntt_typeD [OF assms]
  obtain one where "mod_traits_one g K = Some one" "mod_ok K one" "mod_val K one = 1 mod mod_int K" using mod_traits_one_law [OF t(7,8)] by blast
  then show ?thesis using t by (auto simp: mod_transform.elem_def mod_valid_def)
qed

lemma size_object:
  assumes "k \<le> 31"
  defines "d \<equiv> bit_array 32 Without_sign Normal [of_nat (2 ^ k)] :: chacha_word bit_span"
  shows "bigint_ok d" "span_int d = 2 ^ k" "signedness d = Without_sign" "bit_size d = 32"
proof -
  have "uint (of_nat (2 ^ k) :: 32 word) = 2 ^ k" by (subst unsigned_of_nat) (use assms(1) in \<open>simp add: take_bit_nat_eq_self_iff\<close>)
  then show "bigint_ok d" "span_int d = 2 ^ k" "signedness d = Without_sign" "bit_size d = 32"
    using sample32_ok [of "of_nat (2 ^ k)"] by (simp_all add: d_def sample32_def)
qed

lemma ntt_normalization_elem:
  assumes "ntt_type E K k phi"
  shows "\<exists>c z. ntt_normalization g K k = Some z \<and> mod_transform.elem E K z c \<and> c * 2 ^ k mod mod_int K = 1 mod mod_int K"
proof -
  note t = ntt_typeD [OF assms]
  let ?d = "bit_array 32 Without_sign Normal [of_nat (2 ^ k)] :: chacha_word bit_span"
  note d = size_object [OF t(4)]
  have u: "is_unsigned (signedness ?d)" unfolding d(3) by (simp add: is_unsigned_def)
  have "0 < mod_bit_size K" using mod_soundD(4) [OF t(7)] t(2) by (cases "mod_bit_size K") simp_all
  then have "1 \<le> mod_limb_size K" using div_ceil_pos_iff [of 32 "mod_bit_size K"] by (simp add: mod_limb_size_def limb_size_for_def Suc_le_eq)
  then have "bit_size ?d \<le> mod_limb_size K * LENGTH(32)" unfolding d(4) by simp
  then obtain n where n: "mod_from_unsigned Consteval g K (mod_new g K) ?d = Some n" "mod_ok K n" "mod_val K n = 2 ^ k mod mod_int K"
    using mod_from_unsigned_law [OF sycl_ok_Consteval t(7) mod_new_dest d(1) u t(8), of g] d(2) by metis
  have "coprime ((2 :: int) ^ k) (mod_int K)" using mod_odd [OF t(7)] by simp
  then have "gcd (mod_val K n) (mod_int K) = 1" by (simp add: n(3) gcd_red_int [symmetric] gcd.commute)
  then obtain z where z: "mod_invert g K n = Some z" using mod_invert_law(1) [OF t(7) n(2) t(2), of g] by auto
  note inv = mod_invert_law(2) [OF t(7) n(2) t(2) z]
  have zv: "mod_valid E K z" using inv t by (simp add: mod_valid_def)
  have "mod_val K z * 2 ^ k mod mod_int K = 1"
    using inv by (simp add: n(3) mod_simps mult.commute)
  then show ?thesis
    using n(1) z mod_transform.elem_val [OF zv] t(2) by (auto simp: ntt_normalization_def intro!: exI [of _ "mod_val K z"])
qed

lemma coprime_root:
  assumes "x ^ n mod q = (- 1) mod (q :: int)" and "0 < n"
  shows "gcd x q = 1"
proof -
  have "gcd x q dvd x ^ n" using assms(2) by (simp add: dvd_power_le [where n = 1, simplified])
  moreover have "q dvd x ^ n - (- 1)" using assms(1) by (simp only: mod_eq_dvd_iff)
  then have "gcd x q dvd x ^ n - (- 1)" by (rule dvd_trans [OF gcd_dvd2])
  ultimately have "gcd x q dvd - 1" using dvd_diff [of "gcd x q" "x ^ n" "x ^ n - (- 1)"] by simp
  then show ?thesis by simp
qed

lemma inverse_root_elem:
  assumes "ntt_type E K k phi"
  shows "\<exists>root phi'. mod_invert g K phi = Some root \<and> mod_transform.elem E K root phi' \<and> mod_val K phi * phi' mod mod_int K = 1 mod mod_int K"
proof -
  note t = ntt_typeD [OF assms]
  have "gcd (mod_val K phi) (mod_int K) = 1" using coprime_root [OF t(5)] by simp
  then obtain r where r: "mod_invert g K phi = Some r" using mod_invert_law(1) [OF t(7,9,2), of g] by auto
  note inv = mod_invert_law(2) [OF t(7,9,2) r]
  have rv: "mod_valid E K r" using inv t by (simp add: mod_valid_def)
  show ?thesis using r inv mod_transform.elem_val [OF rv] t(2) by auto
qed

section \<open>The transforms\<close>

text \<open>The objects of one vector, and what a memory holds after a transform.\<close>

definition vectors_valid :: "chacha_word eval \<Rightarrow> chacha_word mod_constants \<Rightarrow> nat \<Rightarrow> nat \<Rightarrow> (nat \<Rightarrow> chacha_word bit_span) \<Rightarrow> bool" where
  "vectors_valid E K k es inner \<longleftrightarrow> (\<forall>x < 2 ^ k * es. mod_valid E K (inner x))"

definition vector :: "chacha_word mod_constants \<Rightarrow> nat \<Rightarrow> (nat \<Rightarrow> chacha_word bit_span) \<Rightarrow> nat \<Rightarrow> nat \<Rightarrow> int" where
  "vector K k inner i j = mod_val K (inner (j + i * 2 ^ k))"

definition transformed :: "nat \<Rightarrow> nat \<Rightarrow> 'e list \<Rightarrow> nat \<Rightarrow> 'e" where
  "transformed k es m x = m ! (2 ^ k * es + x)"

lemma inner_vectors:
  assumes "vectors_valid E K k es inner"
  shows "mod_transform.inner_holds E K k es inner (vector K k inner)"
  unfolding mod_transform.inner_holds_def vector_def
proof (intro allI impI)
  fix i p :: nat assume "i < es" "p < 2 ^ k"
  then have "p + i * 2 ^ k < 2 ^ k * es" by (rule tensor_address)
  then show "mod_transform.elem E K (inner (p + i * 2 ^ k)) (mod_val K (inner (p + i * 2 ^ k)))"
    using assms by (intro mod_transform.elem_val) (simp add: vectors_valid_def)
qed

lemma result_vectors:
  assumes "mod_transform.result_holds E K k es m f"
  shows "vectors_valid E K k es (transformed k es m)" and "i < es \<Longrightarrow> p < 2 ^ k \<Longrightarrow> vector K k (transformed k es m) i p = f i p mod mod_int K"
proof -
  show "i < es \<Longrightarrow> p < 2 ^ k \<Longrightarrow> vector K k (transformed k es m) i p = f i p mod mod_int K" for i p
    using assms by (simp add: mod_transform.result_holds_def mod_transform.elem_def vector_def transformed_def)
  show "vectors_valid E K k es (transformed k es m)"
    unfolding vectors_valid_def transformed_def
  proof (intro allI impI)
    fix x assume x: "x < 2 ^ k * es"
    have "x div 2 ^ k < es" "x mod 2 ^ k < 2 ^ k" using x by (simp_all add: less_mult_imp_div_less mult.commute)
    then have "mod_valid E K (m ! (2 ^ k * es + (x mod 2 ^ k + x div 2 ^ k * 2 ^ k)))"
      using assms by (simp add: mod_transform.result_holds_def mod_transform.elem_def)
    then show "mod_valid E K (m ! (2 ^ k * es + x))" by (simp only: mod_div_mult_eq)
  qed
qed

lemma inner_transformed:
  "mod_transform.result_holds E K k es m f \<Longrightarrow> mod_transform.inner_holds E K k es (transformed k es m) f"
  using mod_transform.inner_of_result [of E K k es m f] by (simp only: transformed_def [abs_def])

lemma vector_mod: "vectors_valid E K k es inner \<Longrightarrow> i < es \<Longrightarrow> p < 2 ^ k \<Longrightarrow> vector K k inner i p mod mod_int K = vector K k inner i p"
  using tensor_address(3) [of i es p "2 ^ k"] mod_ring.val_mod [of E K "inner (p + i * 2 ^ k)"] by (simp add: vectors_valid_def vector_def)

lemma mod_forward_law:
  assumes t: "ntt_type E K k phi" and "0 < es" and "vectors_valid E K k es inner" and "length m = 2 * (2 ^ k * es)"
  shows "\<exists>ks. mod_ntt_forward E g K k es phi u inner = Some ks
    \<and> queue_wp ks m (\<lambda>m'. mod_transform.result_holds E K k es m' (\<lambda>i. ntt_value k (mod_val K phi) (vector K k inner i)))"
proof -
  note d = ntt_typeD [OF t]
  obtain one where one: "mod_traits_one g K = Some one" "mod_transform.elem E K one 1" using mod_one_elem [OF t] by blast
  obtain c z where z: "ntt_normalization g K k = Some z" "mod_transform.elem E K z c" using ntt_normalization_elem [OF t] by blast
  show ?thesis
    using mod_transform.ntt_forward_law [OF assms(2) d(3,4) mod_transform.elem_val [OF d(1)] one(2) z(2) d(5) inner_vectors [OF assms(3)] assms(4), of g u] one(1) z(1)
    by (simp add: mod_ntt_forward_def)
qed

lemma mod_inverse_transform_law:
  assumes t: "ntt_type E K k phi" and "0 < es" and "mod_transform.inner_holds E K k es inner (\<lambda>i. ntt_value k (mod_val K phi) (a i))"
    and "length m = 2 * (2 ^ k * es)"
  shows "\<exists>ks. mod_ntt_inverse E g K k es phi u inner = Some ks \<and> queue_wp ks m (\<lambda>m'. mod_transform.result_holds E K k es m' a)"
proof -
  note d = ntt_typeD [OF t]
  obtain one where one: "mod_traits_one g K = Some one" "mod_transform.elem E K one 1" using mod_one_elem [OF t] by blast
  obtain c z where z: "ntt_normalization g K k = Some z" "mod_transform.elem E K z c" "c * 2 ^ k mod mod_int K = 1 mod mod_int K"
    using ntt_normalization_elem [OF t] by blast
  obtain root phi' where r: "mod_invert g K phi = Some root" "mod_transform.elem E K root phi'" "mod_val K phi * phi' mod mod_int K = 1 mod mod_int K"
    using inverse_root_elem [OF t] by blast
  show ?thesis
    using mod_transform.ntt_inverse_values [OF assms(2) d(3,4) r(2) one(2) z(2) d(5) r(3) z(3) assms(3,4), of g u] one(1) z(1) r(1)
    by (simp add: mod_ntt_inverse_def)
qed

text \<open>A type and a root for evaluation: vectors of 4 elements modulo 17 with the root 2, and a vector of the residues of \<open>1, 2, 3, 4\<close>.\<close>

lemma sample_vectors:
  obtains K phi a where "mod_type (\<lambda>_. 0) (sample32 17) = Some K" "mod_int K = 17" "ntt_type sycl_device K 2 phi" "mod_val K phi = 2"
    "vectors_valid sycl_device K 2 1 a" "\<And>x. x < 4 \<Longrightarrow> mod_val K (a x) = int x + 1"
proof -
  obtain K where K: "mod_type (\<lambda>_. 0) (sample32 17) = Some K" "mod_sound K" "mod_modulus K = sample32 17" "mod_int K = 17"
    "mod_bit_size K = 5" by (rule sample32_mod)
  define r where "r n = the (mod_from_unsigned sycl_device (\<lambda>_. 0) K (mod_new (\<lambda>_. 0) K) (sample32 n))" for n
  have l: "mod_limb_size K = 1" by (simp add: mod_limb_size_def K(5) limb_size_for_def div_ceil_def)
  have size: "mod_bit_size K + LENGTH(32) \<le> 2 ^ 64" using K(5) by simp
  have r: "mod_valid sycl_device K (r n)" "mod_val K (r n) = uint n mod 17" for n
  proof -
    have u: "is_unsigned (signedness (sample32 n))" by (simp add: is_unsigned_def)
    note law = mod_from_unsigned_law [OF sycl_ok_device K(2) mod_new_dest sample32_ok(1) u size, of "\<lambda>_. 0" "\<lambda>_. 0"]
    then show "mod_valid sycl_device K (r n)" "mod_val K (r n) = uint n mod 17"
      using K(2,4) size l by (auto simp: r_def mod_valid_def sycl_ok_device)
  qed
  have phi: "mod_val K (r 2) = 2" by (simp add: r)
  have "ntt_type sycl_device K 2 (r 2)" using r(1) K(4) phi by (simp add: ntt_type_def)
  moreover have "mod_val K (r (of_nat (x + 1))) = int x + 1" if "x < 4" for x
  proof -
    have "x + 1 < 2 ^ 32" using that by simp
    then have "uint (of_nat (x + 1) :: 32 word) = int x + 1" using take_bit_nat_eq_self [of "x + 1" 32] by (subst unsigned_of_nat) simp
    then show ?thesis using r(2) [of "of_nat (x + 1)"] that by simp
  qed
  ultimately show thesis using K phi r(1) by (intro that [of K "r 2" "\<lambda>x. r (of_nat (x + 1))"]) (simp_all add: vectors_valid_def)
qed

section \<open>Properties\<close>

text \<open>C23: The forward number theoretic transform of modular integers evaluates polynomials. For a modulus with a root \<open>phi\<close> of \<open>X ^ n + 1\<close>,
  vectors of \<open>n = 2 ^ k\<close> valid residues and any number of vectors, the compiler accepts the constants, and however the work items of each kernel
  are interleaved the kernels end without a fault: position \<open>p\<close> of each vector of the result is the value of the polynomial
  at the power of \<open>phi\<close> whose exponent is twice the reversed bits of \<open>p\<close>, plus 1.\<close>

theorem ntt_forward_correct:
  assumes "ntt_type E K k phi" and "0 < es" and "vectors_valid E K k es inner" and "length m = 2 * (2 ^ k * es)"
  shows "\<exists>ks. mod_ntt_forward E g K k es phi u inner = Some ks
    \<and> queue_wp ks m (\<lambda>m'. vectors_valid E K k es (transformed k es m')
        \<and> (\<forall>i < es. \<forall>p < 2 ^ k. vector K k (transformed k es m') i p
            = (\<Sum>j < 2 ^ k. vector K k inner i j * mod_val K phi ^ ((2 * brv k p + 1) * j)) mod mod_int K))"
proof -
  obtain ks where ks: "mod_ntt_forward E g K k es phi u inner = Some ks"
      "queue_wp ks m (\<lambda>m'. mod_transform.result_holds E K k es m' (\<lambda>i. ntt_value k (mod_val K phi) (vector K k inner i)))"
    using mod_forward_law [OF assms] by blast
  have "queue_wp ks m (\<lambda>m'. vectors_valid E K k es (transformed k es m')
        \<and> (\<forall>i < es. \<forall>p < 2 ^ k. vector K k (transformed k es m') i p = ntt_value k (mod_val K phi) (vector K k inner i) p mod mod_int K))"
    by (rule queue_wp_mono [OF ks(2)]) (simp add: result_vectors)
  then show ?thesis using ks(1) by (simp only: ntt_value_def) blast
qed

lemma ntt_forward_correct_witness:
  "\<exists>K phi a ks m'. mod_type (\<lambda>_. 0) (sample32 17) = Some K \<and> mod_val K phi = 2 \<and> (\<forall>x < 4. mod_val K (a x) = int x + 1)
    \<and> mod_ntt_forward sycl_device (\<lambda>_. 7) K 2 1 phi (\<lambda>_. phi) a = Some ks \<and> queue_run ks (replicate 8 phi) m'
    \<and> mod_val K (m' ! 4) = (1 + 2 * 2 + 3 * 4 + 4 * 8) mod 17"
proof -
  obtain K phi a where K: "mod_type (\<lambda>_. 0) (sample32 17) = Some K" "mod_int K = 17" "ntt_type sycl_device K 2 phi" "mod_val K phi = 2"
    "vectors_valid sycl_device K 2 1 a" "\<And>x. x < 4 \<Longrightarrow> mod_val K (a x) = int x + 1" by (rule sample_vectors) blast
  obtain ks where ks: "mod_ntt_forward sycl_device (\<lambda>_. 7) K 2 1 phi (\<lambda>_. phi) a = Some ks"
      "queue_wp ks (replicate 8 phi) (\<lambda>m'. vectors_valid sycl_device K 2 1 (transformed 2 1 m')
        \<and> (\<forall>i < 1. \<forall>p < 2 ^ 2. vector K 2 (transformed 2 1 m') i p
            = (\<Sum>j < 2 ^ 2. vector K 2 a i j * mod_val K phi ^ ((2 * brv 2 p + 1) * j)) mod mod_int K))"
    using ntt_forward_correct [OF K(3) _ K(5), of "replicate 8 phi" "\<lambda>_. 7" "\<lambda>_. phi"] by auto
  obtain m' where m': "queue_run ks (replicate 8 phi) m'"
      "vector K 2 (transformed 2 1 m') 0 0 = (\<Sum>j < 2 ^ 2. vector K 2 a 0 j * mod_val K phi ^ ((2 * brv 2 0 + 1) * j)) mod mod_int K"
    using queue_wp_ends [OF ks(2)] by auto
  have "(\<Sum>j < 2 ^ 2. vector K 2 a 0 j * mod_val K phi ^ ((2 * brv 2 0 + 1) * j)) = 1 + 2 * 2 + 3 * 4 + 4 * (8 :: int)"
    using K(4,6) by (simp add: vector_def numeral_eq_Suc)
  then have "mod_val K (m' ! 4) = (1 + 2 * 2 + 3 * 4 + 4 * 8) mod 17" using m'(2) by (simp add: vector_def transformed_def K(2))
  then show ?thesis using K(1,4,6) ks(1) m'(1) by blast
qed

text \<open>C24: The inverse transform of the result of the forward transform gives back every residue, from any memory for its scratch buffer and its
  result, and however the work items of each kernel are interleaved.\<close>

theorem ntt_roundtrip:
  assumes "ntt_type E K k phi" and "0 < es" and "vectors_valid E K k es inner" and "length m = 2 * (2 ^ k * es)" and "length m' = 2 * (2 ^ k * es)"
  shows "\<exists>ks. mod_ntt_forward E g K k es phi u inner = Some ks
    \<and> queue_wp ks m (\<lambda>m1. \<exists>ks'. mod_ntt_inverse E h K k es phi w (transformed k es m1) = Some ks'
        \<and> queue_wp ks' m' (\<lambda>m2. \<forall>i < es. \<forall>p < 2 ^ k. vector K k (transformed k es m2) i p = vector K k inner i p))"
proof -
  obtain ks where ks: "mod_ntt_forward E g K k es phi u inner = Some ks"
      "queue_wp ks m (\<lambda>m'. mod_transform.result_holds E K k es m' (\<lambda>i. ntt_value k (mod_val K phi) (vector K k inner i)))"
    using mod_forward_law [OF assms(1-4)] by blast
  have "\<exists>ks'. mod_ntt_inverse E h K k es phi w (transformed k es m1) = Some ks'
      \<and> queue_wp ks' m' (\<lambda>m2. \<forall>i < es. \<forall>p < 2 ^ k. vector K k (transformed k es m2) i p = vector K k inner i p)"
    if r: "mod_transform.result_holds E K k es m1 (\<lambda>i. ntt_value k (mod_val K phi) (vector K k inner i))" for m1
  proof -
    obtain ks' where ks': "mod_ntt_inverse E h K k es phi w (transformed k es m1) = Some ks'"
        "queue_wp ks' m' (\<lambda>m2. mod_transform.result_holds E K k es m2 (vector K k inner))"
      using mod_inverse_transform_law [OF assms(1,2) inner_transformed [OF r] assms(5)] by blast
    have "queue_wp ks' m' (\<lambda>m2. \<forall>i < es. \<forall>p < 2 ^ k. vector K k (transformed k es m2) i p = vector K k inner i p)"
      by (rule queue_wp_mono [OF ks'(2)]) (simp add: result_vectors(2) vector_mod [OF assms(3)])
    then show ?thesis using ks'(1) by blast
  qed
  from queue_wp_mono [OF ks(2) this] show ?thesis using ks(1) by (intro exI [of _ ks] conjI)
qed

lemma ntt_roundtrip_witness:
  "\<exists>K phi a ks ks' m1 m2. mod_type (\<lambda>_. 0) (sample32 17) = Some K \<and> mod_val K phi = 2 \<and> (\<forall>x < 4. mod_val K (a x) = int x + 1)
    \<and> mod_ntt_forward sycl_device (\<lambda>_. 7) K 2 1 phi (\<lambda>_. phi) a = Some ks \<and> queue_run ks (replicate 8 phi) m1
    \<and> mod_ntt_inverse sycl_device (\<lambda>_. 5) K 2 1 phi (\<lambda>_. phi) (transformed 2 1 m1) = Some ks' \<and> queue_run ks' (replicate 8 phi) m2
    \<and> mod_val K (m2 ! 6) = 3"
proof -
  obtain K phi a where K: "mod_type (\<lambda>_. 0) (sample32 17) = Some K" "mod_int K = 17" "ntt_type sycl_device K 2 phi" "mod_val K phi = 2"
    "vectors_valid sycl_device K 2 1 a" "\<And>x. x < 4 \<Longrightarrow> mod_val K (a x) = int x + 1" by (rule sample_vectors) blast
  have len: "length (replicate 8 phi) = 2 * (2 ^ 2 * 1)" by simp
  obtain ks where ks: "mod_ntt_forward sycl_device (\<lambda>_. 7) K 2 1 phi (\<lambda>_. phi) a = Some ks"
      "queue_wp ks (replicate 8 phi) (\<lambda>m1. \<exists>ks'. mod_ntt_inverse sycl_device (\<lambda>_. 5) K 2 1 phi (\<lambda>_. phi) (transformed 2 1 m1) = Some ks'
        \<and> queue_wp ks' (replicate 8 phi) (\<lambda>m2. \<forall>i < 1. \<forall>p < 2 ^ 2. vector K 2 (transformed 2 1 m2) i p = vector K 2 a i p))"
    using ntt_roundtrip [OF K(3) zero_less_one K(5) len len, of "\<lambda>_. 7" "\<lambda>_. phi" "\<lambda>_. 5" "\<lambda>_. phi"] by blast
  obtain m1 ks' where m1: "queue_run ks (replicate 8 phi) m1" "mod_ntt_inverse sycl_device (\<lambda>_. 5) K 2 1 phi (\<lambda>_. phi) (transformed 2 1 m1) = Some ks'"
      "queue_wp ks' (replicate 8 phi) (\<lambda>m2. \<forall>i < 1. \<forall>p < 2 ^ 2. vector K 2 (transformed 2 1 m2) i p = vector K 2 a i p)"
    using queue_wp_ends [OF ks(2)] by blast
  obtain m2 where m2: "queue_run ks' (replicate 8 phi) m2" "\<forall>i < 1. \<forall>p < 2 ^ 2. vector K 2 (transformed 2 1 m2) i p = vector K 2 a i p"
    using queue_wp_ends [OF m1(3)] by blast
  have "vector K 2 (transformed 2 1 m2) 0 2 = vector K 2 a 0 2" using m2(2) by simp
  then have "mod_val K (m2 ! 6) = 3" using K(6) [of 2] by (simp add: vector_def transformed_def)
  then show ?thesis using K(1,4,6) ks(1) m1(1,2) m2(1) by blast
qed

text \<open>C22: Products of polynomials: the inverse transform of the products of the values of two forward transforms has the coefficients of the
  product of the polynomials modulo \<open>X ^ n + 1\<close>. This composes the three transforms and the multiplication of modular integers.\<close>

theorem ntt_product_correct:
  assumes "ntt_type E K k phi" and "0 < es" and "vectors_valid E K k es a" and "vectors_valid E K k es b"
    and "length m = 2 * (2 ^ k * es)" and "length m' = 2 * (2 ^ k * es)" and "length m'' = 2 * (2 ^ k * es)"
  shows "\<exists>ka kb. mod_ntt_forward E g K k es phi u a = Some ka \<and> mod_ntt_forward E g K k es phi u b = Some kb
    \<and> queue_wp ka m (\<lambda>m1. queue_wp kb m' (\<lambda>m2.
        \<exists>kc. mod_ntt_inverse E h K k es phi w (\<lambda>x. mod_multiply E g K (transformed k es m1 x) (transformed k es m2 x)) = Some kc
          \<and> queue_wp kc m'' (\<lambda>m3. \<forall>i < es. \<forall>p < 2 ^ k. vector K k (transformed k es m3) i p
              = negacyclic (2 ^ k) (vector K k a i) (vector K k b i) p mod mod_int K)))"
proof -
  let ?phi = "mod_val K phi"
  note d = ntt_typeD [OF assms(1)]
  obtain ka where ka: "mod_ntt_forward E g K k es phi u a = Some ka"
      "queue_wp ka m (\<lambda>m'. mod_transform.result_holds E K k es m' (\<lambda>i. ntt_value k ?phi (vector K k a i)))"
    using mod_forward_law [OF assms(1-3,5)] by blast
  obtain kb where kb: "mod_ntt_forward E g K k es phi u b = Some kb"
      "queue_wp kb m' (\<lambda>m'. mod_transform.result_holds E K k es m' (\<lambda>i. ntt_value k ?phi (vector K k b i)))"
    using mod_forward_law [OF assms(1,2,4,6)] by blast
  let ?R = "\<lambda>m1 m2. \<exists>kc. mod_ntt_inverse E h K k es phi w (\<lambda>x. mod_multiply E g K (transformed k es m1 x) (transformed k es m2 x)) = Some kc
      \<and> queue_wp kc m'' (\<lambda>m3. \<forall>i < es. \<forall>p < 2 ^ k. vector K k (transformed k es m3) i p
          = negacyclic (2 ^ k) (vector K k a i) (vector K k b i) p mod mod_int K)"
  have "?R m1 m2" if r: "mod_transform.result_holds E K k es m1 (\<lambda>i. ntt_value k ?phi (vector K k a i))"
      "mod_transform.result_holds E K k es m2 (\<lambda>i. ntt_value k ?phi (vector K k b i))" for m1 m2
  proof -
    let ?inner = "\<lambda>x. mod_multiply E g K (transformed k es m1 x) (transformed k es m2 x)"
    have "mod_transform.inner_holds E K k es ?inner (\<lambda>i p. ntt_value k ?phi (vector K k a i) p * ntt_value k ?phi (vector K k b i) p)"
      using inner_transformed [OF r(1)] inner_transformed [OF r(2)] mod_transform.elem_mul [of E K _ _ _ _ g]
      by (simp add: mod_transform.inner_holds_def mod_ops_def)
    then have "mod_transform.inner_holds E K k es ?inner (\<lambda>i. ntt_value k ?phi (negacyclic (2 ^ k) (vector K k a i) (vector K k b i)))"
      by (rule mod_transform.inner_holds_mod) (rule ntt_value_product [OF d(5), symmetric])
    then obtain kc where kc: "mod_ntt_inverse E h K k es phi w ?inner = Some kc"
        "queue_wp kc m'' (\<lambda>m3. mod_transform.result_holds E K k es m3 (\<lambda>i. negacyclic (2 ^ k) (vector K k a i) (vector K k b i)))"
      using mod_inverse_transform_law [OF assms(1,2) _ assms(7), of ?inner "\<lambda>i. negacyclic (2 ^ k) (vector K k a i) (vector K k b i)" h w] by blast
    have "queue_wp kc m'' (\<lambda>m3. \<forall>i < es. \<forall>p < 2 ^ k. vector K k (transformed k es m3) i p
        = negacyclic (2 ^ k) (vector K k a i) (vector K k b i) p mod mod_int K)"
      by (rule queue_wp_mono [OF kc(2)]) (simp add: result_vectors(2))
    then show ?thesis using kc(1) by blast
  qed
  then have "queue_wp ka m (\<lambda>m1. queue_wp kb m' (?R m1))"
    by (intro queue_wp_mono [OF ka(2)] queue_wp_mono [OF kb(2)])
  then show ?thesis using ka(1) kb(1) by blast
qed

lemma ntt_product_correct_witness:
  "\<exists>K phi a ka kb kc m1 m2 m3. mod_type (\<lambda>_. 0) (sample32 17) = Some K \<and> mod_val K phi = 2 \<and> (\<forall>x < 4. mod_val K (a x) = int x + 1)
    \<and> mod_ntt_forward sycl_device (\<lambda>_. 7) K 2 1 phi (\<lambda>_. phi) a = Some ka \<and> queue_run ka (replicate 8 phi) m1
    \<and> mod_ntt_forward sycl_device (\<lambda>_. 7) K 2 1 phi (\<lambda>_. phi) a = Some kb \<and> queue_run kb (replicate 8 phi) m2
    \<and> mod_ntt_inverse sycl_device (\<lambda>_. 5) K 2 1 phi (\<lambda>_. phi)
        (\<lambda>x. mod_multiply sycl_device (\<lambda>_. 7) K (transformed 2 1 m1 x) (transformed 2 1 m2 x)) = Some kc \<and> queue_run kc (replicate 8 phi) m3
    \<and> mod_val K (m3 ! 4) = (1 * 1 - 2 * 4 - 3 * 3 - 4 * 2) mod 17"
proof -
  obtain K phi a where K: "mod_type (\<lambda>_. 0) (sample32 17) = Some K" "mod_int K = 17" "ntt_type sycl_device K 2 phi" "mod_val K phi = 2"
    "vectors_valid sycl_device K 2 1 a" "\<And>x. x < 4 \<Longrightarrow> mod_val K (a x) = int x + 1" by (rule sample_vectors) blast
  have len: "length (replicate 8 phi) = 2 * (2 ^ 2 * 1)" by simp
  let ?fwd = "mod_ntt_forward sycl_device (\<lambda>_. 7) K 2 1 phi (\<lambda>_. phi) a"
  let ?inv = "\<lambda>m1 m2. mod_ntt_inverse sycl_device (\<lambda>_. 5) K 2 1 phi (\<lambda>_. phi) (\<lambda>x. mod_multiply sycl_device (\<lambda>_. 7) K (transformed 2 1 m1 x) (transformed 2 1 m2 x))"
  let ?P = "\<lambda>m3. \<forall>i < 1. \<forall>p < 2 ^ 2. vector K 2 (transformed 2 1 m3) i p = negacyclic (2 ^ 2) (vector K 2 a i) (vector K 2 a i) p mod mod_int K"
  obtain ka kb where ks: "?fwd = Some ka" "?fwd = Some kb"
      "queue_wp ka (replicate 8 phi) (\<lambda>m1. queue_wp kb (replicate 8 phi) (\<lambda>m2. \<exists>kc. ?inv m1 m2 = Some kc \<and> queue_wp kc (replicate 8 phi) ?P))"
    using ntt_product_correct [OF K(3) zero_less_one K(5) K(5) len len len, of "\<lambda>_. 7" "\<lambda>_. phi" "\<lambda>_. 5" "\<lambda>_. phi"] by blast
  obtain m1 where m1: "queue_run ka (replicate 8 phi) m1" "queue_wp kb (replicate 8 phi) (\<lambda>m2. \<exists>kc. ?inv m1 m2 = Some kc \<and> queue_wp kc (replicate 8 phi) ?P)"
    using queue_wp_ends [OF ks(3)] by blast
  obtain m2 kc where m2: "queue_run kb (replicate 8 phi) m2" "?inv m1 m2 = Some kc" "queue_wp kc (replicate 8 phi) ?P" using queue_wp_ends [OF m1(2)] by blast
  obtain m3 where m3: "queue_run kc (replicate 8 phi) m3" "?P m3" using queue_wp_ends [OF m2(3)] by blast
  have "vector K 2 (transformed 2 1 m3) 0 0 = negacyclic (2 ^ 2) (vector K 2 a 0) (vector K 2 a 0) 0 mod 17" using m3(2) by (simp add: K(2))
  moreover have "negacyclic (2 ^ 2) (vector K 2 a 0) (vector K 2 a 0) 0 = 1 * 1 - 2 * 4 - 3 * 3 - 4 * (2 :: int)"
    using K(6) by (simp add: negacyclic_def vector_def numeral_eq_Suc)
  ultimately have "mod_val K (m3 ! 4) = (1 * 1 - 2 * 4 - 3 * 3 - 4 * 2) mod 17" by (simp add: vector_def transformed_def)
  then show ?thesis using K(1,4,6) ks(1,2) m1(1) m2(1,2) m3(1) by blast
qed

end
