(* ===== verification/Net_Message.thy ===== *)
theory Net_Message
  imports Prelude
begin

text \<open>
  The messages that hmpc parties exchange: \<^verbatim>\<open>src/hmpc-rs/src/net.rs\<close> and \<^verbatim>\<open>net/metadata.rs\<close>, the
  Rust half of the networking layer that \<^verbatim>\<open>hmpc/net/queue.hpp\<close> calls.

  A message is its metadata (kind, limb type, sender, receiver, identifier and size) and its data.
  On a stream it is written as a header of little endian integers, the data and, when signing is
  enabled, a signature of the header and of the hash of the data (\<open>write_to\<close>).  The reader checks
  version, features and session before it takes the header apart (\<open>build_from\<close>), and verifies the
  signature with the key of the party that claims to be the sender (\<open>read_from\<close>).

  The features \<^verbatim>\<open>sessions\<close> and \<^verbatim>\<open>signing\<close> are compile-time switches; here a party's configuration
  holds the session identifier and the signing key, or nothing when the feature is disabled.  The
  hash function (SHA-256), the signature scheme (Ed25519) and the streams (QUIC) are libraries: the
  first two are parameters, of a stream the reader gets the bytes that were written.
\<close>

unbundle bit_operations_syntax

section \<open>Bytes\<close>

type_synonym byte = "8 word"
type_synonym party_id = "16 word"
type_synonym message_datatype = "8 word"
type_synonym message_id = "64 word"
type_synonym message_size = "64 word"
type_synonym session_id = "128 word"

definition to_le_bytes :: "'a::len word \<Rightarrow> byte list" where
  "to_le_bytes w = map (\<lambda>i. ucast (drop_bit (8 * i) w)) [0..<LENGTH('a) div 8]"

fun from_le_bytes :: "byte list \<Rightarrow> 'a::len word" where
  "from_le_bytes [] = 0"
| "from_le_bytes (b # bs) = ucast b OR push_bit 8 (from_le_bytes bs)"

definition split_first_chunk :: "nat \<Rightarrow> byte list \<Rightarrow> (byte list \<times> byte list) option" where
  "split_first_chunk n bs = (if n \<le> length bs then Some (take n bs, drop n bs) else None)"

definition split_last_chunk :: "nat \<Rightarrow> byte list \<Rightarrow> (byte list \<times> byte list) option" where
  "split_last_chunk n bs =
     (if n \<le> length bs then Some (take (length bs - n) bs, drop (length bs - n) bs) else None)"

lemma length_to_le_bytes [simp]: "length (to_le_bytes (w :: 'a::len word)) = LENGTH('a) div 8"
  by (simp add: to_le_bytes_def)

lemma bit_from_le_bytes:
  "bit (from_le_bytes bs :: 'a::len word) n
     \<longleftrightarrow> n < LENGTH('a) \<and> n div 8 < length bs \<and> bit (bs ! (n div 8)) (n mod 8)"
proof (induction bs arbitrary: n)
  case (Cons b bs)
  show ?case
  proof (cases "n < 8")
    case True
    then show ?thesis by (auto simp: bit_simps)
  next
    case False
    then obtain m where m: "n = 8 + m" using le_Suc_ex by (metis not_less)
    have "\<not> bit b n" using False bit_imp_le_length [of b n] by auto
    moreover have "(8 + m) div 8 = Suc (m div 8)" by simp
    ultimately show ?thesis using Cons.IH [of m] by (auto simp: bit_simps m)
  qed
qed simp

lemma from_to_le_bytes [simp]:
  assumes "8 dvd LENGTH('a)"
  shows "from_le_bytes (to_le_bytes (w :: 'a::len word)) = w"
proof (rule bit_word_eqI)
  fix n assume n: "n < LENGTH('a)"
  have "n div 8 < LENGTH('a) div 8" using n assms by (metis less_mult_imp_div_less dvd_div_mult_self)
  moreover have "8 * (n div 8) + n mod 8 = n" by simp
  ultimately show "bit (from_le_bytes (to_le_bytes w) :: 'a word) n \<longleftrightarrow> bit w n"
    using n by (simp add: bit_from_le_bytes to_le_bytes_def bit_simps)
qed

lemma to_from_le_bytes [simp]:
  assumes "8 * length bs = LENGTH('a)"
  shows "to_le_bytes (from_le_bytes bs :: 'a::len word) = bs"
proof (rule nth_equalityI)
  have l: "LENGTH('a) div 8 = length bs" using assms by simp
  then show "length (to_le_bytes (from_le_bytes bs :: 'a word)) = length bs" by simp
  fix i assume "i < length (to_le_bytes (from_le_bytes bs :: 'a word))"
  then have i: "i < length bs" by (simp add: l)
  show "to_le_bytes (from_le_bytes bs :: 'a word) ! i = bs ! i"
  proof (rule bit_word_eqI)
    fix n assume n: "n < LENGTH(8)"
    then have "(8 * i + n) div 8 = i" "(8 * i + n) mod 8 = n" "8 * i + n < LENGTH('a)"
      using i assms by simp_all
    then show "bit (to_le_bytes (from_le_bytes bs :: 'a word) ! i) n \<longleftrightarrow> bit (bs ! i) n"
      using i n l by (simp add: to_le_bytes_def bit_simps bit_from_le_bytes)
  qed
qed

lemma from_le_bytes_eq_iff:
  assumes "8 * length bs = LENGTH('a)"
  shows "from_le_bytes bs = (w :: 'a::len word) \<longleftrightarrow> bs = to_le_bytes w"
proof
  assume "from_le_bytes bs = w"
  then show "bs = to_le_bytes w" using to_from_le_bytes [OF assms] by auto
next
  assume "bs = to_le_bytes w"
  then show "from_le_bytes bs = w" using assms by (metis dvd_triv_left from_to_le_bytes)
qed

lemma split_first_chunk_append:
  "length xs = n \<Longrightarrow> split_first_chunk n (xs @ ys) = Some (xs, ys)"
  by (simp add: split_first_chunk_def)

lemma split_last_chunk_append:
  "length ys = n \<Longrightarrow> split_last_chunk n (xs @ ys) = Some (xs, ys)"
  by (simp add: split_last_chunk_def)

section \<open>Kinds of messages\<close>

datatype message_kind =
    Send | Broadcast | Scatter | Gather | AllGather | AllToAll
  | ConsistencyCheckBroadcast | ConsistencyCheckAllGather

fun kind_code :: "message_kind \<Rightarrow> byte" where
  "kind_code Send = 1"
| "kind_code Broadcast = 2"
| "kind_code Scatter = 3"
| "kind_code Gather = 4"
| "kind_code AllGather = 5"
| "kind_code AllToAll = 6"
| "kind_code ConsistencyCheckBroadcast = 18"
| "kind_code ConsistencyCheckAllGather = 21"

definition kind_try_from :: "byte \<Rightarrow> message_kind option" where
  "kind_try_from x =
     (if x = 1 then Some Send
      else if x = 2 then Some Broadcast
      else if x = 3 then Some Scatter
      else if x = 4 then Some Gather
      else if x = 5 then Some AllGather
      else if x = 6 then Some AllToAll
      else if x = 18 then Some ConsistencyCheckBroadcast
      else if x = 21 then Some ConsistencyCheckAllGather
      else None)"

fun is_consistency_check :: "message_kind \<Rightarrow> bool" where
  "is_consistency_check ConsistencyCheckBroadcast = True"
| "is_consistency_check ConsistencyCheckAllGather = True"
| "is_consistency_check _ = False"

lemma kind_try_from_code [simp]: "kind_try_from (kind_code k) = Some k"
  by (cases k) (simp_all add: kind_try_from_def)

lemma kind_try_from_exact: "kind_try_from x = Some k \<longleftrightarrow> x = kind_code k"
  by (cases k) (auto simp: kind_try_from_def split: if_splits)

section \<open>Metadata and the format on a stream\<close>

record message =
  msg_kind :: message_kind
  msg_datatype :: message_datatype
  msg_sender :: party_id
  msg_receiver :: party_id
  msg_id :: message_id
  msg_size :: message_size

datatype server_error =
    Version_Mismatch
  | Feature_Mismatch
  | Finished_Early nat
  | Too_Long
  | From_U8 byte
  | Size_Mismatch message_size message_size
  | Session_Mismatch
  | Signature_Verification
  | Unknown_Sender

record net_config =
  cfg_session :: "session_id option"
  cfg_signing_key :: "(byte list \<Rightarrow> byte list) option"
  cfg_verification_keys :: "party_id \<Rightarrow> (byte list \<Rightarrow> byte list \<Rightarrow> bool) option"

definition MESSAGE_FORMAT_VERSION :: byte where "MESSAGE_FORMAT_VERSION = 0"

definition MESSAGE_SIZE_LIMIT :: nat where "MESSAGE_SIZE_LIMIT = 2 * 2 ^ 32"

definition SIGNATURE_SIZE :: nat where "SIGNATURE_SIZE = 64"

definition message_feature_flags :: "net_config \<Rightarrow> byte" where
  "message_feature_flags c =
     of_bool (cfg_session c \<noteq> None) OR push_bit 1 (of_bool (cfg_signing_key c \<noteq> None))"

definition session_bytes :: "net_config \<Rightarrow> byte list" where
  "session_bytes c = (case cfg_session c of None \<Rightarrow> [] | Some s \<Rightarrow> to_le_bytes s)"

definition header_bytes :: "net_config \<Rightarrow> message \<Rightarrow> byte list" where
  "header_bytes c m =
     to_le_bytes MESSAGE_FORMAT_VERSION @ to_le_bytes (message_feature_flags c)
     @ to_le_bytes (kind_code (msg_kind m)) @ to_le_bytes (msg_datatype m)
     @ to_le_bytes (msg_sender m) @ to_le_bytes (msg_receiver m) @ to_le_bytes (msg_id m)
     @ session_bytes c"

text \<open>\<open>data_as_slice\<close> reads as many bytes at the pointer as the metadata says the message has.\<close>

definition data_as_slice :: "message \<Rightarrow> byte list \<Rightarrow> byte list" where
  "data_as_slice m region = take (unat (msg_size m)) region"

definition write_to :: "(byte list \<Rightarrow> byte list) \<Rightarrow> net_config \<Rightarrow> message \<Rightarrow> byte list \<Rightarrow> byte list" where
  "write_to hash c m region =
     (let data = data_as_slice m region
      in header_bytes c m @ data
         @ (case cfg_signing_key c of
              None \<Rightarrow> []
            | Some sign \<Rightarrow> sign (header_bytes c m @ hash data)))"

text \<open>
  \<open>next_chunk\<close> is one \<^verbatim>\<open>split_first_chunk().ok_or(too_short(message))?\<close> of the reader: the error
  tells how many bytes were left.
\<close>

definition next_chunk ::
  "nat \<Rightarrow> byte list \<Rightarrow> (byte list \<Rightarrow> byte list \<Rightarrow> server_error + 'r) \<Rightarrow> server_error + 'r" where
  "next_chunk n bs continue =
     (case split_first_chunk n bs of
        None \<Rightarrow> Inl (Finished_Early (length bs))
      | Some (chunk, rest) \<Rightarrow> continue chunk rest)"

definition receive_message_new ::
  "message_kind \<Rightarrow> message_datatype \<Rightarrow> party_id \<Rightarrow> party_id \<Rightarrow> message_id \<Rightarrow> byte list
   \<Rightarrow> message \<times> byte list" where
  "receive_message_new kind datatype sender receiver ident data =
     (\<lparr>msg_kind = kind, msg_datatype = datatype, msg_sender = sender, msg_receiver = receiver,
       msg_id = ident, msg_size = of_nat (length data)\<rparr>, data)"

definition check_session ::
  "net_config \<Rightarrow> byte list \<Rightarrow> (byte list \<Rightarrow> server_error + 'r) \<Rightarrow> server_error + 'r" where
  "check_session c bs continue =
     (case cfg_session c of
        None \<Rightarrow> continue bs
      | Some session \<Rightarrow> next_chunk 16 bs (\<lambda>chunk rest.
          if from_le_bytes chunk \<noteq> session then Inl Session_Mismatch else continue rest))"

definition build_from :: "net_config \<Rightarrow> byte list \<Rightarrow> server_error + (message \<times> byte list)" where
  "build_from c bytes =
     next_chunk 1 bytes (\<lambda>version rest.
     if from_le_bytes version \<noteq> MESSAGE_FORMAT_VERSION then Inl Version_Mismatch else
     next_chunk 1 rest (\<lambda>flags rest.
     if from_le_bytes flags \<noteq> message_feature_flags c then Inl Feature_Mismatch else
     next_chunk 1 rest (\<lambda>code rest.
     case kind_try_from (from_le_bytes code) of None \<Rightarrow> Inl (From_U8 (from_le_bytes code))
     | Some kind \<Rightarrow>
     next_chunk 1 rest (\<lambda>datatype rest.
     next_chunk 2 rest (\<lambda>sender rest.
     next_chunk 2 rest (\<lambda>receiver rest.
     next_chunk 8 rest (\<lambda>ident rest.
     check_session c rest (\<lambda>data.
     Inr (receive_message_new kind (from_le_bytes datatype) (from_le_bytes sender)
       (from_le_bytes receiver) (from_le_bytes ident) data)))))))))"

definition verify_signature ::
  "(byte list \<Rightarrow> byte list) \<Rightarrow> net_config \<Rightarrow> message \<times> byte list \<Rightarrow> byte list
   \<Rightarrow> server_error + (message \<times> byte list)" where
  "verify_signature hash c received signature =
     (let (m, data) = received;
          sender = (if is_consistency_check (msg_kind m) then msg_receiver m else msg_sender m)
      in case cfg_verification_keys c sender of
           None \<Rightarrow> Inl Unknown_Sender
         | Some verify \<Rightarrow>
             if verify (header_bytes c m @ hash data) signature then Inr (m, data)
             else Inl Signature_Verification)"

definition read_from ::
  "(byte list \<Rightarrow> byte list) \<Rightarrow> net_config \<Rightarrow> byte list \<Rightarrow> server_error + (message \<times> byte list)" where
  "read_from hash c stream =
     (if length stream > MESSAGE_SIZE_LIMIT then Inl Too_Long
      else case cfg_signing_key c of
        None \<Rightarrow> build_from c stream
      | Some _ \<Rightarrow>
          (case split_last_chunk SIGNATURE_SIZE stream of
             None \<Rightarrow> Inl (Finished_Early (length stream))
           | Some (bytes, signature) \<Rightarrow>
               (case build_from c bytes of
                  Inl e \<Rightarrow> Inl e
                | Inr received \<Rightarrow> verify_signature hash c received signature)))"

section \<open>Reading is the inverse of writing\<close>

lemma next_chunk_Inr:
  "next_chunk n bs f = Inr r \<longleftrightarrow> (\<exists>chunk rest. bs = chunk @ rest \<and> length chunk = n \<and> f chunk rest = Inr r)"
proof
  assume "next_chunk n bs f = Inr r"
  then have "n \<le> length bs" "f (take n bs) (drop n bs) = Inr r"
    by (simp_all add: next_chunk_def split_first_chunk_def split: if_splits)
  then have "bs = take n bs @ drop n bs \<and> length (take n bs) = n \<and> f (take n bs) (drop n bs) = Inr r"
    by simp
  then show "\<exists>chunk rest. bs = chunk @ rest \<and> length chunk = n \<and> f chunk rest = Inr r" by blast
qed (auto simp: next_chunk_def split_first_chunk_append)

lemma next_chunk_append:
  "length chunk = n \<Longrightarrow> next_chunk n (chunk @ rest) f = f chunk rest"
  by (simp add: next_chunk_def split_first_chunk_append)

lemma le_bytes_128: "length bs = 16 \<Longrightarrow> 8 * length bs = LENGTH(128)"
  by simp

lemma check_session_Inr:
  "check_session c bs f = Inr r \<longleftrightarrow> (\<exists>rest. bs = session_bytes c @ rest \<and> f rest = Inr r)"
proof (cases "cfg_session c")
  case (Some s)
  have eq: "(if from_le_bytes chunk \<noteq> s then Inl Session_Mismatch else f rest) = Inr r
      \<longleftrightarrow> chunk = to_le_bytes s \<and> f rest = Inr r" if "length chunk = 16" for chunk rest
    using from_le_bytes_eq_iff [OF le_bytes_128 [OF that], of s] by auto
  have "check_session c bs f = Inr r
      \<longleftrightarrow> (\<exists>chunk rest. bs = chunk @ rest \<and> length chunk = 16
            \<and> (if from_le_bytes chunk \<noteq> s then Inl Session_Mismatch else f rest) = Inr r)"
    using Some by (simp only: check_session_def option.case next_chunk_Inr)
  also have "\<dots> \<longleftrightarrow> (\<exists>chunk rest. bs = chunk @ rest \<and> length chunk = 16 \<and> chunk = to_le_bytes s \<and> f rest = Inr r)"
    using eq by blast
  finally have "check_session c bs f = Inr r \<longleftrightarrow> \<dots>" .
  then show ?thesis using Some by (auto simp: session_bytes_def)
qed (simp add: check_session_def session_bytes_def)

lemma le_byte_eq:
  "length bs = 1 \<Longrightarrow> from_le_bytes bs = (w :: byte) \<longleftrightarrow> bs = to_le_bytes w"
  by (simp add: from_le_bytes_eq_iff)

lemma kind_case_Inr:
  assumes "length code = 1"
  shows "(case kind_try_from (from_le_bytes code) of None \<Rightarrow> Inl e | Some kind \<Rightarrow> f kind) = Inr r
     \<longleftrightarrow> (\<exists>kind. code = to_le_bytes (kind_code kind) \<and> f kind = Inr r)"
proof -
  have k: "kind_try_from (from_le_bytes code) = Some kind \<longleftrightarrow> code = to_le_bytes (kind_code kind)" for kind
    using le_byte_eq [OF assms] by (simp add: kind_try_from_exact)
  show ?thesis
  proof (cases "kind_try_from (from_le_bytes code)")
    case None
    then show ?thesis by (simp flip: k)
  next
    case (Some kind)
    then show ?thesis by (simp flip: k)
  qed
qed

lemma guard_Inr: "(if P then Inl e else x) = Inr r \<longleftrightarrow> \<not> P \<and> x = Inr r"
  by simp

lemma build_from_header: "build_from c (header_bytes c m @ d) = Inr (m\<lparr>msg_size := of_nat (length d)\<rparr>, d)"
proof -
  have s: "check_session c (session_bytes c @ d) f = f d" for f :: "byte list \<Rightarrow> server_error + (message \<times> byte list)"
    by (cases "cfg_session c") (simp_all add: check_session_def session_bytes_def next_chunk_append)
  show ?thesis
    by (simp add: build_from_def header_bytes_def next_chunk_append s receive_message_new_def)
qed

lemma build_from_sound:
  assumes "build_from c bytes = Inr (m, d)"
  shows "bytes = header_bytes c m @ d \<and> msg_size m = of_nat (length d)"
proof -
  obtain version r1 flags r2 code r3 dt r4 sender r5 receiver r6 ident r7 kind where
    b: "bytes = version @ r1" "length version = 1" "from_le_bytes version = MESSAGE_FORMAT_VERSION"
      "r1 = flags @ r2" "length flags = 1" "from_le_bytes flags = message_feature_flags c"
      "r2 = code @ r3" "length code = 1" "code = to_le_bytes (kind_code kind)"
      "r3 = dt @ r4" "length dt = 1" "r4 = sender @ r5" "length sender = 2"
      "r5 = receiver @ r6" "length receiver = 2" "r6 = ident @ r7" "length ident = 8"
      "r7 = session_bytes c @ d"
      "m = fst (receive_message_new kind (from_le_bytes dt) (from_le_bytes sender)
             (from_le_bytes receiver) (from_le_bytes ident) d)"
    using assms unfolding build_from_def next_chunk_Inr guard_Inr
    by (auto simp: kind_case_Inr next_chunk_Inr check_session_Inr receive_message_new_def)
  then show ?thesis
    by (simp add: header_bytes_def receive_message_new_def le_byte_eq)
qed

theorem build_from_exact:
  "build_from c bytes = Inr (m, d) \<longleftrightarrow> bytes = header_bytes c m @ d \<and> msg_size m = of_nat (length d)"
proof
  assume "bytes = header_bytes c m @ d \<and> msg_size m = of_nat (length d)"
  then show "build_from c bytes = Inr (m, d)" using build_from_header [of c m d] by simp
qed (rule build_from_sound)

section \<open>Reading a stream\<close>

text \<open>
  \<open>claimed_signer\<close> is the party whose key the reader verifies with, \<open>signed_by\<close> says that a
  signature is accepted for it.
\<close>

definition claimed_signer :: "message \<Rightarrow> party_id" where
  "claimed_signer m = (if is_consistency_check (msg_kind m) then msg_receiver m else msg_sender m)"

definition signed_by ::
  "(byte list \<Rightarrow> byte list) \<Rightarrow> net_config \<Rightarrow> message \<Rightarrow> byte list \<Rightarrow> byte list \<Rightarrow> bool" where
  "signed_by hash c m data signature =
     (case cfg_signing_key c of
        None \<Rightarrow> signature = []
      | Some _ \<Rightarrow> length signature = SIGNATURE_SIZE
          \<and> (case cfg_verification_keys c (claimed_signer m) of
               None \<Rightarrow> False
             | Some verify \<Rightarrow> verify (header_bytes c m @ hash data) signature))"

lemma verify_signature_Inr:
  "verify_signature hash c (m', d') signature = Inr (m, d)
     \<longleftrightarrow> m' = m \<and> d' = d
         \<and> (case cfg_verification_keys c (claimed_signer m) of
              None \<Rightarrow> False
            | Some verify \<Rightarrow> verify (header_bytes c m @ hash d) signature)"
  by (auto simp: verify_signature_def claimed_signer_def Let_def split: option.splits if_splits)

lemma split_last_chunk_Some:
  "split_last_chunk n bs = Some (xs, ys) \<longleftrightarrow> bs = xs @ ys \<and> length ys = n"
  by (auto simp: split_last_chunk_def)

lemma read_from_signed:
  assumes "cfg_signing_key c = Some key" "length stream \<le> MESSAGE_SIZE_LIMIT"
  shows "read_from hash c stream = Inr (m, d)
    \<longleftrightarrow> (\<exists>bytes signature. stream = bytes @ signature \<and> build_from c bytes = Inr (m, d)
          \<and> signed_by hash c m d signature)" (is "_ \<longleftrightarrow> ?right")
proof
  assume "read_from hash c stream = Inr (m, d)"
  then obtain bytes signature m' d' where
    "split_last_chunk SIGNATURE_SIZE stream = Some (bytes, signature)"
    "build_from c bytes = Inr (m', d')" "verify_signature hash c (m', d') signature = Inr (m, d)"
    using assms by (auto simp: read_from_def split: option.splits sum.splits)
  then show ?right
    using assms by (auto simp: split_last_chunk_Some verify_signature_Inr signed_by_def)
next
  assume ?right
  then obtain bytes signature where b: "stream = bytes @ signature" "build_from c bytes = Inr (m, d)"
    "signed_by hash c m d signature" by blast
  then have "split_last_chunk SIGNATURE_SIZE stream = Some (bytes, signature)"
    using assms by (simp add: split_last_chunk_Some signed_by_def)
  then show "read_from hash c stream = Inr (m, d)"
    using b assms by (simp add: read_from_def verify_signature_Inr signed_by_def)
qed

text \<open>
  A party accepts a stream as the message \<open>m\<close> with data \<open>d\<close> exactly when it is not too long and
  consists of the header of \<open>m\<close> as this party would write it, the data and a valid signature.
\<close>

lemma read_from_exact:
  "read_from hash c stream = Inr (m, d)
     \<longleftrightarrow> length stream \<le> MESSAGE_SIZE_LIMIT \<and> msg_size m = of_nat (length d)
         \<and> (\<exists>signature. stream = header_bytes c m @ d @ signature \<and> signed_by hash c m d signature)"
proof (cases "length stream \<le> MESSAGE_SIZE_LIMIT")
  case True
  then show ?thesis
  proof (cases "cfg_signing_key c")
    case None
    with True show ?thesis by (simp add: read_from_def signed_by_def build_from_exact conj_commute)
  next
    case (Some key)
    have "read_from hash c stream = Inr (m, d)
      \<longleftrightarrow> (\<exists>bytes signature. stream = bytes @ signature \<and> build_from c bytes = Inr (m, d)
          \<and> signed_by hash c m d signature)"
      by (rule read_from_signed [OF Some True])
    then show ?thesis using True by (auto simp: build_from_exact)
  qed
qed (simp add: read_from_def)

text \<open>
  \<open>trusts hash c c' m\<close>: the receiver's configuration \<open>c'\<close> belongs to the same build and session as
  the sender's \<open>c\<close>, and accepts every signature that the sender makes for messages in the name of
  its signer.
\<close>

definition trusts :: "net_config \<Rightarrow> net_config \<Rightarrow> party_id \<Rightarrow> bool" where
  "trusts c c' p \<longleftrightarrow>
     cfg_session c' = cfg_session c
     \<and> (cfg_signing_key c' = None \<longleftrightarrow> cfg_signing_key c = None)
     \<and> (\<forall>sign. cfg_signing_key c = Some sign \<longrightarrow>
          (\<exists>verify. cfg_verification_keys c' p = Some verify
             \<and> (\<forall>x. length (sign x) = SIGNATURE_SIZE \<and> verify x (sign x))))"

lemma header_bytes_trusts: "trusts c c' p \<Longrightarrow> header_bytes c' m = header_bytes c m"
  by (auto simp: trusts_def header_bytes_def session_bytes_def message_feature_flags_def)

lemma write_read_roundtrip:
  assumes "unat (msg_size m) \<le> length region"
    and "length (write_to hash c m region) \<le> MESSAGE_SIZE_LIMIT"
    and "trusts c c' (claimed_signer m)"
  shows "read_from hash c' (write_to hash c m region) = Inr (m, take (unat (msg_size m)) region)"
proof -
  let ?d = "data_as_slice m region"
  let ?sig = "case cfg_signing_key c of None \<Rightarrow> [] | Some sign \<Rightarrow> sign (header_bytes c m @ hash ?d)"
  have w: "write_to hash c m region = header_bytes c' m @ ?d @ ?sig"
    by (simp add: write_to_def Let_def header_bytes_trusts [OF assms(3)])
  have "signed_by hash c' m ?d ?sig"
    using assms(3) by (auto simp: signed_by_def trusts_def header_bytes_trusts [OF assms(3)] split: option.splits)
  moreover have "msg_size m = of_nat (length ?d)"
    using assms(1) by (simp add: data_as_slice_def min_def)
  ultimately have "read_from hash c' (write_to hash c m region) = Inr (m, ?d)"
    using assms(2) w unfolding read_from_exact by blast
  then show ?thesis by (simp add: data_as_slice_def)
qed

text \<open>C7:
  What a party writes, a party of the same session that knows its key reads back: the metadata
  unchanged and exactly the bytes of the region that the size in the metadata covers.  And nothing
  else is accepted: a party reads a message \<open>n\<close> with data \<open>d\<close> only from the stream that consists of
  the header of \<open>n\<close> as this party would write it (same version, features and session), the data,
  whose length is the size in the metadata, and, when signing is enabled, a signature of the header
  and of the hash of the data that the key of the claimed sender accepts; so from no other byte
  sequence, session or set of features, no truncated header and no unknown kind.
\<close>

theorem message_format_roundtrip:
  assumes "unat (msg_size m) \<le> length region"
    and "length (write_to hash c m region) \<le> MESSAGE_SIZE_LIMIT"
    and "trusts c c' (claimed_signer m)"
  shows "read_from hash c' (write_to hash c m region) = Inr (m, take (unat (msg_size m)) region)
    \<and> (read_from hash c' stream = Inr (n, d)
       \<longleftrightarrow> length stream \<le> MESSAGE_SIZE_LIMIT \<and> msg_size n = of_nat (length d)
         \<and> (\<exists>signature. stream = header_bytes c' n @ d @ signature \<and> signed_by hash c' n d signature))"
  using write_read_roundtrip [OF assms] read_from_exact by blast

text \<open>A configuration with a session and a toy signature scheme, for the examples.\<close>

definition example_sign :: "byte list \<Rightarrow> byte list" where
  "example_sign x = take 64 (x @ replicate 64 0)"

definition example_config :: net_config where
  "example_config = \<lparr>cfg_session = Some 7, cfg_signing_key = Some example_sign,
     cfg_verification_keys = (\<lambda>_. Some (\<lambda>x signature. signature = example_sign x))\<rparr>"

lemma length_example_sign [simp]: "length (example_sign x) = 64"
  by (simp add: example_sign_def min_def)

lemma example_trusts: "trusts example_config example_config p"
  by (simp add: trusts_def example_config_def SIGNATURE_SIZE_def)

definition example_message :: message where
  "example_message = \<lparr>msg_kind = AllGather, msg_datatype = 33, msg_sender = 1, msg_receiver = 2,
     msg_id = 5, msg_size = 3\<rparr>"

theorem message_format_roundtrip_witness:
  "read_from (\<lambda>x. x) example_config (write_to (\<lambda>x. x) example_config example_message [10, 11, 12, 13])
     = Inr (example_message, [10, 11, 12])
   \<and> read_from (\<lambda>x. x) example_config [1] \<noteq> Inr (example_message, [])"
proof
  have len: "length (write_to (\<lambda>x. x) example_config example_message [10, 11, 12, 13]) \<le> MESSAGE_SIZE_LIMIT"
    by (simp add: write_to_def Let_def header_bytes_def session_bytes_def example_config_def
        data_as_slice_def example_message_def MESSAGE_SIZE_LIMIT_def)
  note facts = message_format_roundtrip [OF _ len example_trusts, of "[1]" example_message "[]"]
  show "read_from (\<lambda>x. x) example_config (write_to (\<lambda>x. x) example_config example_message [10, 11, 12, 13])
     = Inr (example_message, [10, 11, 12])"
    using facts by (simp add: example_message_def)
  have "length (header_bytes example_config example_message @ [] @ signature) \<noteq> length [1 :: byte]" for signature
    by (simp add: header_bytes_def session_bytes_def example_config_def)
  then have "[1] \<noteq> header_bytes example_config example_message @ [] @ signature" for signature
    by metis
  then show "read_from (\<lambda>x. x) example_config [1] \<noteq> Inr (example_message, [])"
    using facts by (auto simp: example_message_def)
qed

end
