(* ===== verification/Structure.thy ===== *)
theory Structure
  imports Net_Message
begin

text \<open>
  Structures of tensors: \<^verbatim>\<open>hmpc/typing/structure.hpp\<close>, \<^verbatim>\<open>hmpc/iter/at_structure.hpp\<close> and
  \<^verbatim>\<open>hmpc/iter/collect_structure.hpp\<close>.

  The networking operations take tensors, numbers, and structures of these, nested to any depth.  A
  value is modelled by its fields: a \<open>Field\<close> has the number of bits of its limb type and its
  bytes, a \<open>Structure\<close> its elements (what \<^verbatim>\<open>get\<close> answers for each index).  \<open>at_elements\<close> and
  \<open>at_values\<close> are the two recursive templates \<^verbatim>\<open>at\<close>, which count through the elements to find the
  i-th field; where no overload accepts the index the program does not compile (\<open>None\<close>).  They are
  the same as indexing the list of the leaves.  The number of fields is a fold over the elements, which
  does not compile for a structure without elements or no values at all; the model counts 0 fields
  there, so that no index is accepted.
\<close>

datatype struct =
    Field nat "byte list"
  | Structure "struct list"

fun structure_fields :: "struct \<Rightarrow> nat" where
  "structure_fields (Field bits bytes) = 1"
| "structure_fields (Structure es) = sum_list (map structure_fields es)"

definition structure_fields_of :: "struct list \<Rightarrow> nat" where
  "structure_fields_of vs = sum_list (map structure_fields vs)"

text \<open>New values of the same shape: their bytes are indeterminate (\<open>fresh\<close>).\<close>

fun default_like :: "(nat \<Rightarrow> byte) \<Rightarrow> struct \<Rightarrow> struct" where
  "default_like fresh (Field bits bytes) = Field bits (map fresh [0..<length bytes])"
| "default_like fresh (Structure es) = Structure (map (default_like fresh) es)"

definition empty_default :: "(nat \<Rightarrow> byte) \<Rightarrow> nat \<Rightarrow> nat \<Rightarrow> struct" where
  "empty_default fresh bits n = Field bits (map fresh [0..<n])"

section \<open>Finding a field\<close>

fun at_elements :: "struct list \<Rightarrow> nat \<Rightarrow> struct option" where
  "at_elements [] i = None"
| "at_elements (Structure es # rest) i =
     (if structure_fields (Structure es) \<le> i then at_elements rest (i - structure_fields (Structure es))
      else at_elements es i)"
| "at_elements (Field bits bytes # rest) i =
     (if i = 0 then Some (Field bits bytes) else at_elements rest (i - 1))"

fun at_values :: "nat \<Rightarrow> struct list \<Rightarrow> struct option" where
  "at_values i [] = None"
| "at_values i (first # rest) =
     (if i < structure_fields first
      then (case first of
              Structure es \<Rightarrow> at_elements es i
            | Field bits bytes \<Rightarrow> (if i = 0 then Some first else None))
      else at_values (i - structure_fields first) rest)"

fun collect_option :: "'a option list \<Rightarrow> 'a list option" where
  "collect_option [] = Some []"
| "collect_option (None # xs) = None"
| "collect_option (Some x # xs) = map_option (Cons x) (collect_option xs)"

definition collect_values :: "(struct \<Rightarrow> 'r) \<Rightarrow> struct list \<Rightarrow> 'r list option" where
  "collect_values f vs =
     collect_option (map (\<lambda>i. map_option f (at_values i vs)) [0..<structure_fields_of vs])"

definition collect_enumerated :: "(nat \<Rightarrow> struct \<Rightarrow> 'r) \<Rightarrow> struct list \<Rightarrow> 'r list option" where
  "collect_enumerated f vs =
     collect_option (map (\<lambda>i. map_option (f i) (at_values i vs)) [0..<structure_fields_of vs])"

section \<open>The leaves\<close>

fun leaves :: "struct \<Rightarrow> struct list" where
  "leaves (Field bits bytes) = [Field bits bytes]"
| "leaves (Structure es) = concat (map leaves es)"

definition leaves_of :: "struct list \<Rightarrow> struct list" where
  "leaves_of vs = concat (map leaves vs)"

lemma leaves_of_simps [simp]:
  "leaves_of [] = []" "leaves_of (v # vs) = leaves v @ leaves_of vs"
  by (simp_all add: leaves_of_def)

lemma length_leaves [simp]: "length (leaves v) = structure_fields v"
proof (induction v)
  case (Structure es)
  then show ?case by (simp add: length_concat comp_def cong: map_cong)
qed simp

lemma length_leaves_of [simp]: "length (leaves_of vs) = structure_fields_of vs"
  by (simp add: leaves_of_def structure_fields_of_def length_concat comp_def)

lemma structure_fields_of_simps [simp]:
  "structure_fields_of [] = 0" "structure_fields_of (v # vs) = structure_fields v + structure_fields_of vs"
  by (simp_all add: structure_fields_of_def)

lemma structure_fields_Structure: "structure_fields (Structure es) = structure_fields_of es"
  by (simp add: structure_fields_of_def)

lemma leaves_Structure: "leaves (Structure es) = leaves_of es"
  by (simp add: leaves_of_def)

lemma at_elements_leaves:
  "at_elements es i = (if i < structure_fields_of es then Some (leaves_of es ! i) else None)"
proof (induction es i rule: at_elements.induct)
  case (2 es rest i)
  have "leaves (Structure es) = leaves_of es" by (simp add: leaves_of_def)
  then show ?case using 2 by (auto simp: nth_append structure_fields_Structure simp del: leaves.simps structure_fields.simps)
next
  case (3 bits bytes rest i)
  then show ?case by (cases i) auto
qed simp

lemma at_values_index:
  "at_values i vs = (if i < structure_fields_of vs then Some (leaves_of vs ! i) else None)"
proof (induction i vs rule: at_values.induct)
  case (2 i first rest)
  then show ?case
    by (cases first) (auto simp: nth_append at_elements_leaves structure_fields_Structure leaves_Structure
        simp del: structure_fields.simps(2) leaves.simps(2))
qed simp

lemma collect_option_Some: "collect_option (map Some xs) = Some xs"
  by (induction xs) simp_all

lemma collect_values_leaves: "collect_values f vs = Some (map f (leaves_of vs))"
proof -
  have "map (\<lambda>i. map_option f (at_values i vs)) [0..<structure_fields_of vs]
      = map Some (map (\<lambda>i. f (leaves_of vs ! i)) [0..<structure_fields_of vs])"
    by (simp add: at_values_index)
  also have "map (\<lambda>i. f (leaves_of vs ! i)) [0..<structure_fields_of vs] = map f (leaves_of vs)"
    by (rule nth_equalityI) simp_all
  finally show ?thesis by (simp only: collect_values_def collect_option_Some)
qed

lemma collect_enumerated_leaves:
  "collect_enumerated f vs = Some (map (\<lambda>i. f i (leaves_of vs ! i)) [0..<structure_fields_of vs])"
proof -
  have "map (\<lambda>i. map_option (f i) (at_values i vs)) [0..<structure_fields_of vs]
      = map Some (map (\<lambda>i. f i (leaves_of vs ! i)) [0..<structure_fields_of vs])"
    by (simp add: at_values_index)
  then show ?thesis by (simp only: collect_enumerated_def collect_option_Some)
qed

text \<open>C29:
  The field with index \<open>i\<close> that the recursive templates find in a list of nested structures is the
  \<open>i\<close>-th leaf of these structures from left to right, and the templates reject exactly the indices
  that are not smaller than the number of fields; so collecting over a list of structures applies the
  function to each leaf with its position, and always compiles.
\<close>

theorem structure_templates_index_leaves:
  "at_values i vs = (if i < structure_fields_of vs then Some (leaves_of vs ! i) else None)
   \<and> collect_enumerated f vs = Some (map (\<lambda>(i, v). f i v) (enumerate 0 (leaves_of vs)))"
proof -
  have "map (\<lambda>(i, v). f i v) (enumerate 0 (leaves_of vs))
      = map (\<lambda>i. f i (leaves_of vs ! i)) [0..<structure_fields_of vs]"
    by (rule nth_equalityI) (simp_all add: enumerate_eq_zip)
  then show ?thesis by (simp add: at_values_index collect_enumerated_leaves)
qed

lemma structure_fields_default_like [simp]: "structure_fields (default_like fresh v) = structure_fields v"
proof (induction v)
  case (Structure es)
  then show ?case by (simp add: comp_def cong: map_cong)
qed simp

lemma leaves_default_like: "leaves (default_like fresh v) = map (default_like fresh) (leaves v)"
proof (induction v)
  case (Structure es)
  then show ?case by (simp add: map_concat comp_def cong: map_cong)
qed simp

end
