(* ===== verification/Net_Buffer.thy ===== *)
theory Net_Buffer
  imports Net_Message "HOL-Library.Multiset"
begin

text \<open>
  The message buffer of a party: \<^verbatim>\<open>src/hmpc-rs/src/net/message_buffer.rs\<close>.

  A task of the party serves two kinds of commands in the order in which they come in: a request
  for the data of a message (\<open>Receive\<close>, with the channel on which the data is to be answered), and
  a message that arrived from the network (\<open>Received\<close>).  Whichever of the two comes first waits for
  the other one: data in \<open>message_buffer\<close>, answer channels in \<open>open_requests\<close>, both keyed by the
  whole metadata.  The type of the channels is left open.  A channel that is replaced by a second
  request for the same message is dropped, which its receiver sees as an error.
\<close>

datatype 'ch data_command =
    Receive message 'ch
  | Received message "byte list"

record 'ch buffer_state =
  message_buffer :: "message \<Rightarrow> byte list option"
  open_requests :: "message \<Rightarrow> 'ch option"

datatype 'ch answer =
    Answer 'ch "byte list"
  | Dropped 'ch

definition buffer_init :: "'ch buffer_state" where
  "buffer_init = \<lparr>message_buffer = Map.empty, open_requests = Map.empty\<rparr>"

fun buffer_step :: "'ch data_command \<Rightarrow> 'ch buffer_state \<Rightarrow> 'ch buffer_state \<times> 'ch answer list" where
  "buffer_step (Receive m ch) b =
     (case message_buffer b m of
        Some data \<Rightarrow> (b\<lparr>message_buffer := (message_buffer b)(m := None)\<rparr>, [Answer ch data])
      | None \<Rightarrow>
          (b\<lparr>open_requests := (open_requests b)(m \<mapsto> ch)\<rparr>,
           case open_requests b m of None \<Rightarrow> [] | Some old \<Rightarrow> [Dropped old]))"
| "buffer_step (Received m data) b =
     (case open_requests b m of
        Some ch \<Rightarrow> (b\<lparr>open_requests := (open_requests b)(m := None)\<rparr>, [Answer ch data])
      | None \<Rightarrow> (b\<lparr>message_buffer := (message_buffer b)(m \<mapsto> data)\<rparr>, []))"

fun buffer_run :: "'ch data_command list \<Rightarrow> 'ch buffer_state \<Rightarrow> 'ch buffer_state \<times> 'ch answer list" where
  "buffer_run [] b = (b, [])"
| "buffer_run (c # cs) b =
     (let (b', answers) = buffer_step c b; (b'', rest) = buffer_run cs b' in (b'', answers @ rest))"

section \<open>What the buffer promises\<close>

text \<open>
  The two views of a sequence of commands: who asked for which message, and what arrived.
\<close>

fun requests_of :: "'ch data_command list \<Rightarrow> (message \<times> 'ch) list" where
  "requests_of [] = []"
| "requests_of (Receive m ch # cs) = (m, ch) # requests_of cs"
| "requests_of (Received m d # cs) = requests_of cs"

fun arrivals_of :: "'ch data_command list \<Rightarrow> (message \<times> byte list) list" where
  "arrivals_of [] = []"
| "arrivals_of (Receive m ch # cs) = arrivals_of cs"
| "arrivals_of (Received m d # cs) = (m, d) # arrivals_of cs"

definition once :: "('a \<times> 'b) list \<Rightarrow> bool" where
  "once xs \<longleftrightarrow> distinct (map fst xs)"

text \<open>
  \<open>matched\<close> is the abstract contract: the answers pair each request with the arrival of the same
  message, and the state keeps what has no partner yet.
\<close>

definition matched ::
  "(message \<Rightarrow> 'ch option) \<Rightarrow> (message \<Rightarrow> byte list option) \<Rightarrow> 'ch buffer_state \<Rightarrow> bool" where
  "matched req arr b \<longleftrightarrow>
     message_buffer b = arr |` (- dom req) \<and> open_requests b = req |` (- dom arr)"

lemma matched_init: "matched Map.empty Map.empty buffer_init"
  by (simp add: matched_def buffer_init_def)

lemma buffer_step_Receive:
  assumes "matched req arr b" "m \<notin> dom req"
  shows "matched (req(m \<mapsto> ch)) arr (fst (buffer_step (Receive m ch) b))"
    and "snd (buffer_step (Receive m ch) b) = (case arr m of None \<Rightarrow> [] | Some d \<Rightarrow> [Answer ch d])"
proof -
  have b: "message_buffer b m = arr m" "open_requests b m = None"
    using assms by (auto simp: matched_def restrict_map_def dom_def)
  show "matched (req(m \<mapsto> ch)) arr (fst (buffer_step (Receive m ch) b))"
    using assms b by (cases "arr m") (auto simp: matched_def restrict_map_def fun_eq_iff)
  show "snd (buffer_step (Receive m ch) b) = (case arr m of None \<Rightarrow> [] | Some d \<Rightarrow> [Answer ch d])"
    using b by (simp split: option.splits)
qed

lemma buffer_step_Received:
  assumes "matched req arr b" "m \<notin> dom arr"
  shows "matched req (arr(m \<mapsto> d)) (fst (buffer_step (Received m d) b))"
    and "snd (buffer_step (Received m d) b) = (case req m of None \<Rightarrow> [] | Some ch \<Rightarrow> [Answer ch d])"
proof -
  have b: "open_requests b m = req m"
    using assms by (auto simp: matched_def restrict_map_def dom_def)
  show "matched req (arr(m \<mapsto> d)) (fst (buffer_step (Received m d) b))"
    using assms b by (cases "req m") (auto simp: matched_def restrict_map_def fun_eq_iff)
  show "snd (buffer_step (Received m d) b) = (case req m of None \<Rightarrow> [] | Some ch \<Rightarrow> [Answer ch d])"
    using b by (simp split: option.splits)
qed

lemma buffer_run_snoc:
  "buffer_run (cs @ [c]) b =
     (let (b', answers) = buffer_run cs b; (b'', new) = buffer_step c b' in (b'', answers @ new))"
  by (induction cs arbitrary: b) (simp_all add: Let_def split: prod.splits)

lemma fst_buffer_run_snoc: "fst (buffer_run (cs @ [c]) b) = fst (buffer_step c (fst (buffer_run cs b)))"
  by (simp add: buffer_run_snoc Let_def split: prod.splits)

lemma snd_buffer_run_snoc:
  "snd (buffer_run (cs @ [c]) b) = snd (buffer_run cs b) @ snd (buffer_step c (fst (buffer_run cs b)))"
  by (simp add: buffer_run_snoc Let_def split: prod.splits)

lemma requests_of_append [simp]: "requests_of (cs @ ds) = requests_of cs @ requests_of ds"
  by (induction cs rule: requests_of.induct) simp_all

lemma arrivals_of_append [simp]: "arrivals_of (cs @ ds) = arrivals_of cs @ arrivals_of ds"
  by (induction cs rule: arrivals_of.induct) simp_all

lemma once_snoc [simp]: "once (xs @ [(k, v)]) \<longleftrightarrow> once xs \<and> k \<notin> fst ` set xs"
  by (auto simp: once_def)

lemma map_of_snoc: "k \<notin> fst ` set xs \<Longrightarrow> map_of (xs @ [(k, v)]) = (map_of xs)(k \<mapsto> v)"
proof (rule ext)
  assume "k \<notin> fst ` set xs"
  then have "map_of xs k = None" by (simp add: map_of_eq_None_iff)
  then show "map_of (xs @ [(k, v)]) x = ((map_of xs)(k \<mapsto> v)) x" for x
    by (cases "x = k") (simp_all add: map_add_def split: option.splits)
qed

text \<open>The answers that a list of requests is due, given what has arrived.\<close>

definition due :: "(message \<Rightarrow> byte list option) \<Rightarrow> (message \<times> 'ch) list \<Rightarrow> 'ch answer list" where
  "due arr reqs =
     concat (map (\<lambda>(m, ch). case arr m of None \<Rightarrow> [] | Some d \<Rightarrow> [Answer ch d]) reqs)"

lemma due_Nil [simp]: "due arr [] = []"
  by (simp add: due_def)

lemma due_Cons [simp]:
  "due arr ((m, ch) # reqs) = (case arr m of None \<Rightarrow> [] | Some d \<Rightarrow> [Answer ch d]) @ due arr reqs"
  by (simp add: due_def)

lemma due_append [simp]: "due arr (xs @ ys) = due arr xs @ due arr ys"
  by (simp add: due_def)

lemma due_update_other: "m \<notin> fst ` set reqs \<Longrightarrow> due (arr(m \<mapsto> d)) reqs = due arr reqs"
  by (induction reqs) auto

lemma due_update:
  assumes "once reqs" "arr m = None"
  shows "mset (due (arr(m \<mapsto> d)) reqs)
    = mset (due arr reqs) + mset (case map_of reqs m of None \<Rightarrow> [] | Some ch \<Rightarrow> [Answer ch d])"
  using assms(1)
proof (induction reqs)
  case (Cons r reqs)
  obtain m' ch where r: "r = (m', ch)" by (cases r)
  have "once reqs" "m' \<notin> fst ` set reqs" using Cons.prems by (simp_all add: once_def r)
  then show ?case
  proof (cases "m' = m")
    case True
    then have "m \<notin> fst ` set reqs" using \<open>m' \<notin> fst ` set reqs\<close> by simp
    from due_update_other [OF this, of arr d] show ?thesis
      unfolding r True due_Cons assms(2) by simp
  next
    case False
    have "mset (due (arr(m \<mapsto> d)) reqs)
      = mset (due arr reqs) + mset (case map_of reqs m of None \<Rightarrow> [] | Some ch \<Rightarrow> [Answer ch d])"
      by (rule Cons.IH [OF \<open>once reqs\<close>])
    moreover have "map_of (r # reqs) m = map_of reqs m" "(arr(m \<mapsto> d)) m' = arr m'"
      using False by (simp_all add: r)
    ultimately show ?thesis unfolding r due_Cons mset_append by (simp only: ac_simps)
  qed
qed simp

text \<open>C3:
  Whatever the order in which a party's requests and the messages from the network come in, when
  each message is requested at most once and arrives at most once, every request whose message has
  arrived is answered exactly once and with the data of this message, no channel is dropped, and
  the buffer holds exactly the messages that nobody has asked for, and the requests whose message
  has not arrived.
\<close>

theorem buffer_run_correct:
  assumes "once (requests_of cs)" "once (arrivals_of cs)"
  shows "matched (map_of (requests_of cs)) (map_of (arrivals_of cs)) (fst (buffer_run cs buffer_init))
    \<and> mset (snd (buffer_run cs buffer_init)) = mset (due (map_of (arrivals_of cs)) (requests_of cs))"
  using assms
proof (induction cs rule: rev_induct)
  case Nil
  then show ?case by (simp add: matched_init)
next
  case (snoc c cs)
  show ?case
  proof (cases c)
    case (Receive m ch)
    then have m: "m \<notin> dom (map_of (requests_of cs))" "m \<notin> fst ` set (requests_of cs)"
      using snoc.prems by (auto simp: dom_map_of_conv_image_fst)
    have IH: "matched (map_of (requests_of cs)) (map_of (arrivals_of cs)) (fst (buffer_run cs buffer_init))"
      "mset (snd (buffer_run cs buffer_init)) = mset (due (map_of (arrivals_of cs)) (requests_of cs))"
      using snoc Receive by auto
    have r: "map_of (requests_of (cs @ [c])) = (map_of (requests_of cs))(m \<mapsto> ch)"
      "arrivals_of (cs @ [c]) = arrivals_of cs"
      using map_of_snoc [OF m(2), of ch] by (simp_all add: Receive del: map_of_append)
    show ?thesis
    proof
      show "matched (map_of (requests_of (cs @ [c]))) (map_of (arrivals_of (cs @ [c])))
          (fst (buffer_run (cs @ [c]) buffer_init))"
        unfolding r fst_buffer_run_snoc unfolding Receive by (rule buffer_step_Receive(1) [OF IH(1) m(1)])
      show "mset (snd (buffer_run (cs @ [c]) buffer_init))
          = mset (due (map_of (arrivals_of (cs @ [c]))) (requests_of (cs @ [c])))"
        unfolding r(2) snd_buffer_run_snoc unfolding Receive buffer_step_Receive(2) [OF IH(1) m(1)]
        by (simp add: IH(2))
    qed
  next
    case (Received m d)
    then have m: "m \<notin> dom (map_of (arrivals_of cs))" "m \<notin> fst ` set (arrivals_of cs)"
      using snoc.prems by (auto simp: dom_map_of_conv_image_fst)
    have IH: "matched (map_of (requests_of cs)) (map_of (arrivals_of cs)) (fst (buffer_run cs buffer_init))"
      "mset (snd (buffer_run cs buffer_init)) = mset (due (map_of (arrivals_of cs)) (requests_of cs))"
      using snoc Received by auto
    have "once (requests_of cs)" "map_of (arrivals_of cs) m = None"
      using snoc.prems Received m by (auto simp: map_of_eq_None_iff)
    note due = due_update [of "requests_of cs" "map_of (arrivals_of cs)" m d, OF this]
    have r: "map_of (arrivals_of (cs @ [c])) = (map_of (arrivals_of cs))(m \<mapsto> d)"
      "requests_of (cs @ [c]) = requests_of cs"
      using map_of_snoc [OF m(2), of d] by (simp_all add: Received del: map_of_append)
    show ?thesis
    proof
      show "matched (map_of (requests_of (cs @ [c]))) (map_of (arrivals_of (cs @ [c])))
          (fst (buffer_run (cs @ [c]) buffer_init))"
        unfolding r fst_buffer_run_snoc unfolding Received by (rule buffer_step_Received(1) [OF IH(1) m(1)])
      show "mset (snd (buffer_run (cs @ [c]) buffer_init))
          = mset (due (map_of (arrivals_of (cs @ [c]))) (requests_of (cs @ [c])))"
        unfolding r snd_buffer_run_snoc unfolding Received buffer_step_Received(2) [OF IH(1) m(1)] due
        by (simp add: IH(2))
    qed
  qed
qed

text \<open>One message arrives before it is asked for, one after it, and one request stays open.\<close>

theorem buffer_run_correct_witness:
  "snd (buffer_run [Received example_message [1, 2, 3], Receive (example_message\<lparr>msg_id := 6\<rparr>) (0 :: nat),
       Receive example_message 1, Received (example_message\<lparr>msg_id := 6\<rparr>) [4], Receive (example_message\<lparr>msg_id := 7\<rparr>) 2]
       buffer_init)
     = [Answer 1 [1, 2, 3], Answer 0 [4]]
   \<and> mset [Answer 1 [1, 2, 3], Answer (0 :: nat) [4]] = mset [Answer 0 [4], Answer 1 [1, 2, 3]]"
proof -
  let ?cs = "[Received example_message [1, 2, 3], Receive (example_message\<lparr>msg_id := 6\<rparr>) (0 :: nat),
    Receive example_message 1, Received (example_message\<lparr>msg_id := 6\<rparr>) [4], Receive (example_message\<lparr>msg_id := 7\<rparr>) 2]"
  have "once (requests_of ?cs)" "once (arrivals_of ?cs)"
    by (simp_all add: once_def example_message_def)
  from buffer_run_correct [OF this]
  have "mset (snd (buffer_run ?cs buffer_init)) = mset [Answer 0 [4], Answer 1 [1, 2, 3]]"
    by (simp add: example_message_def)
  moreover have "snd (buffer_run ?cs buffer_init) = [Answer 1 [1, 2, 3], Answer 0 [4]]"
    by (simp add: buffer_init_def example_message_def)
  ultimately show ?thesis by simp
qed

end
