(* ===== verification/Net_Queue.thy ===== *)
theory Net_Queue
  imports Net_Buffer
begin

text \<open>
  The queue of a party: \<^verbatim>\<open>src/hmpc-rs/src/net/queue.rs\<close>, with \<^verbatim>\<open>net/metadata.rs\<close> and \<^verbatim>\<open>vec.rs\<close>.

  A collective operation computes an identifier for each of its messages, turns its part of the
  operation into sends and receives, spawns them as tasks and waits for all of them.  The
  identifier is a prefix of a SHA-256 hash (the parameter \<open>sha\<close>) of the communicator and of the
  metadata plus a counter per hash, so that parties which call the same operations in the same
  order agree on it without talking to each other.

  An operation returns the new state of the queue and the tasks it spawns, in this order; nothing
  when one of its assertions fails (Rust panics).  Pointers to the data are opaque (\<open>'p\<close>).  Integer
  addition wraps, as it does in the release profile.  The feature \<^verbatim>\<open>statistics\<close> is enabled, the
  feature \<^verbatim>\<open>collective-consistency\<close> is not.
\<close>

section \<open>Communicators, metadata and two dimensional vectors\<close>

text \<open>A communicator is a \<^verbatim>\<open>BTreeSet<PartyID>\<close>, listed in its iteration order.\<close>

type_synonym communicator = "party_id list"

definition is_communicator :: "communicator \<Rightarrow> bool" where
  "is_communicator c \<longleftrightarrow> sorted c \<and> distinct c"

definition communicator_bytes :: "communicator \<Rightarrow> byte list" where
  "communicator_bytes c =
     to_le_bytes (of_nat (length c) :: 64 word) @ concat (map to_le_bytes c)"

record broadcast_metadata =
  broadcast_datatype :: message_datatype
  broadcast_sender :: party_id
  broadcast_size :: message_size

record gather_metadata =
  gather_datatype :: message_datatype
  gather_receiver :: party_id
  gather_size :: message_size

record all_gather_metadata =
  all_gather_datatype :: message_datatype
  all_gather_size :: message_size

record all_to_all_metadata =
  all_to_all_datatype :: message_datatype
  all_to_all_size :: message_size

text \<open>
  \<open>base_message\<close> is what the trait \<^verbatim>\<open>BaseMessageID\<close> and \<^verbatim>\<open>ToMessage\<close> give of a metadata record: its
  kind, limb type, hashed members and size.
\<close>

record base_message =
  base_kind :: message_kind
  base_datatype :: message_datatype
  base_members :: "byte list"
  base_size :: message_size

definition broadcast_base :: "broadcast_metadata \<Rightarrow> base_message" where
  "broadcast_base m = \<lparr>base_kind = Broadcast, base_datatype = broadcast_datatype m,
     base_members = to_le_bytes (broadcast_sender m), base_size = broadcast_size m\<rparr>"

definition gather_base :: "gather_metadata \<Rightarrow> base_message" where
  "gather_base m = \<lparr>base_kind = Gather, base_datatype = gather_datatype m,
     base_members = to_le_bytes (gather_receiver m), base_size = gather_size m\<rparr>"

definition all_gather_base :: "all_gather_metadata \<Rightarrow> base_message" where
  "all_gather_base m = \<lparr>base_kind = AllGather, base_datatype = all_gather_datatype m,
     base_members = [], base_size = all_gather_size m\<rparr>"

definition all_to_all_base :: "all_to_all_metadata \<Rightarrow> base_message" where
  "all_to_all_base m = \<lparr>base_kind = AllToAll, base_datatype = all_to_all_datatype m,
     base_members = [], base_size = all_to_all_size m\<rparr>"

definition message_hash ::
  "(byte list \<Rightarrow> byte list) \<Rightarrow> base_message \<Rightarrow> communicator \<Rightarrow> communicator \<Rightarrow> byte list" where
  "message_hash sha m senders receivers =
     sha (communicator_bytes senders
          @ to_le_bytes (kind_code (base_kind m)) @ to_le_bytes (base_datatype m) @ base_members m
          @ communicator_bytes receivers)"

definition to_message :: "base_message \<Rightarrow> party_id \<Rightarrow> party_id \<Rightarrow> message_id \<Rightarrow> message" where
  "to_message m sender receiver ident =
     \<lparr>msg_kind = base_kind m, msg_datatype = base_datatype m, msg_sender = sender,
      msg_receiver = receiver, msg_id = ident, msg_size = base_size m\<rparr>"

record 'a vec2d =
  vec_data :: "'a list"
  outer_extent :: nat
  inner_extent :: nat

definition vec2d_from_inner :: "'a list \<Rightarrow> 'a vec2d" where
  "vec2d_from_inner v = \<lparr>vec_data = v, outer_extent = 1, inner_extent = length v\<rparr>"

function chunks_exact :: "nat \<Rightarrow> 'a list \<Rightarrow> 'a list list" where
  "chunks_exact n xs = (if n = 0 \<or> length xs < n then [] else take n xs # chunks_exact n (drop n xs))"
  by auto
termination by (relation "measure (\<lambda>(n, xs). length xs)") auto

declare chunks_exact.simps [simp del]

text \<open>Iteration panics when the rows have no elements (\<^verbatim>\<open>chunks_exact(0)\<close>).\<close>

definition vec2d_rows :: "'a vec2d \<Rightarrow> 'a list list option" where
  "vec2d_rows v = (if inner_extent v = 0 then None else Some (chunks_exact (inner_extent v) (vec_data v)))"

section \<open>The state of a queue\<close>

record network_statistics =
  stat_sent :: message_size
  stat_received :: message_size
  stat_rounds :: message_size

type_synonym counter_key = "message_kind \<times> message_datatype \<times> byte list"

record queue_state =
  queue_id :: party_id
  counters :: "counter_key \<Rightarrow> message_id option"
  network_stats :: network_statistics

datatype 'p task =
    Send_Task message 'p
  | Receive_Task message 'p

definition net_queue_new :: "party_id \<Rightarrow> queue_state" where
  "net_queue_new i = \<lparr>queue_id = i, counters = Map.empty,
     network_stats = \<lparr>stat_sent = 0, stat_received = 0, stat_rounds = 0\<rparr>\<rparr>"

definition update_counter :: "counter_key \<Rightarrow> queue_state \<Rightarrow> message_id \<times> queue_state" where
  "update_counter key q =
     (let ident = from_le_bytes (take 8 (snd (snd key)));
          counter = (case counters q key of Some c \<Rightarrow> c + 1 | None \<Rightarrow> 1)
      in (ident + counter, q\<lparr>counters := (counters q)(key \<mapsto> counter)\<rparr>))"

definition counter_key_of ::
  "(byte list \<Rightarrow> byte list) \<Rightarrow> base_message \<Rightarrow> communicator \<Rightarrow> communicator \<Rightarrow> counter_key" where
  "counter_key_of sha m senders receivers =
     (base_kind m, base_datatype m, message_hash sha m senders receivers)"

definition extended_next_message_id ::
  "(byte list \<Rightarrow> byte list) \<Rightarrow> base_message \<Rightarrow> communicator \<Rightarrow> communicator \<Rightarrow> queue_state
   \<Rightarrow> message_id \<times> queue_state" where
  "extended_next_message_id sha m senders receivers =
     update_counter (counter_key_of sha m senders receivers)"

definition next_message_id ::
  "(byte list \<Rightarrow> byte list) \<Rightarrow> base_message \<Rightarrow> communicator \<Rightarrow> queue_state \<Rightarrow> message_id \<times> queue_state" where
  "next_message_id sha m communicator = extended_next_message_id sha m communicator communicator"

definition next_round :: "queue_state \<Rightarrow> queue_state" where
  "next_round q = q\<lparr>network_stats := (network_stats q)\<lparr>stat_rounds := stat_rounds (network_stats q) + 1\<rparr>\<rparr>"

type_synonym 'p spawning = "queue_state \<times> 'p task list"

definition send_on :: "message \<Rightarrow> 'p \<Rightarrow> 'p spawning \<Rightarrow> 'p spawning" where
  "send_on m data = (\<lambda>(q, tasks).
     (q\<lparr>network_stats := (network_stats q)\<lparr>stat_sent := stat_sent (network_stats q) + msg_size m\<rparr>\<rparr>,
      tasks @ [Send_Task m data]))"

definition receive_on :: "message \<Rightarrow> 'p \<Rightarrow> 'p spawning \<Rightarrow> 'p spawning" where
  "receive_on m data = (\<lambda>(q, tasks).
     (q\<lparr>network_stats := (network_stats q)\<lparr>stat_received := stat_received (network_stats q) + msg_size m\<rparr>\<rparr>,
      tasks @ [Receive_Task m data]))"

section \<open>Collective operations\<close>

definition broadcast_one ::
  "(byte list \<Rightarrow> byte list) \<Rightarrow> communicator \<Rightarrow> broadcast_metadata \<times> 'p \<Rightarrow> 'p spawning \<Rightarrow> 'p spawning" where
  "broadcast_one sha communicator = (\<lambda>(message, data) (q, tasks).
     let (ident, q') = next_message_id sha (broadcast_base message) communicator q
     in if broadcast_sender message = queue_id q
        then fold (\<lambda>receiver.
               send_on (to_message (broadcast_base message) (queue_id q) receiver ident) data)
             (filter (\<lambda>party. party \<noteq> queue_id q) communicator) (q', tasks)
        else receive_on (to_message (broadcast_base message) (broadcast_sender message) (queue_id q) ident)
             data (q', tasks))"

definition multi_broadcast ::
  "(byte list \<Rightarrow> byte list) \<Rightarrow> broadcast_metadata list \<Rightarrow> communicator \<Rightarrow> 'p list \<Rightarrow> queue_state
   \<Rightarrow> 'p spawning option" where
  "multi_broadcast sha messages communicator data q =
     (if length messages \<noteq> length data then None
      else Some (fold (broadcast_one sha communicator) (zip messages data) (next_round q, [])))"

definition gather_one ::
  "(byte list \<Rightarrow> byte list) \<Rightarrow> communicator \<Rightarrow> gather_metadata \<times> 'p list \<Rightarrow> 'p spawning
   \<Rightarrow> 'p spawning option" where
  "gather_one sha communicator = (\<lambda>(message, data) (q, tasks).
     let (ident, q') = next_message_id sha (gather_base message) communicator q
     in if gather_receiver message = queue_id q
        then if length communicator \<noteq> length data then None
             else Some (fold (\<lambda>(party, data).
                    receive_on (to_message (gather_base message) party (queue_id q) ident) data)
                  (filter (\<lambda>(party, _). party \<noteq> queue_id q) (zip communicator data)) (q', tasks))
        else if length data \<noteq> 1 then None
             else Some (send_on
                    (to_message (gather_base message) (queue_id q) (gather_receiver message) ident)
                    (data ! 0) (q', tasks)))"

fun fold_option :: "('x \<Rightarrow> 's \<Rightarrow> 's option) \<Rightarrow> 'x list \<Rightarrow> 's \<Rightarrow> 's option" where
  "fold_option f [] s = Some s"
| "fold_option f (x # xs) s = (case f x s of None \<Rightarrow> None | Some s' \<Rightarrow> fold_option f xs s')"

definition multi_gather ::
  "(byte list \<Rightarrow> byte list) \<Rightarrow> gather_metadata list \<Rightarrow> communicator \<Rightarrow> 'p vec2d \<Rightarrow> queue_state
   \<Rightarrow> 'p spawning option" where
  "multi_gather sha messages communicator data q =
     (if length messages \<noteq> outer_extent data then None
      else case vec2d_rows data of None \<Rightarrow> None
      | Some rows \<Rightarrow> fold_option (gather_one sha communicator) (zip messages rows) (next_round q, []))"

definition all_gather_one ::
  "(byte list \<Rightarrow> byte list) \<Rightarrow> communicator \<Rightarrow> communicator \<Rightarrow> all_gather_metadata \<times> 'p list
   \<Rightarrow> 'p spawning \<Rightarrow> 'p spawning" where
  "all_gather_one sha senders receivers = (\<lambda>(message, data) (q, tasks).
     let (ident, q') = extended_next_message_id sha (all_gather_base message) senders receivers q
     in fold (\<lambda>(sender, data) state.
          if sender = queue_id q
          then fold (\<lambda>receiver.
                 send_on (to_message (all_gather_base message) sender receiver ident) data)
               (filter (\<lambda>party. party \<noteq> queue_id q) receivers) state
          else receive_on (to_message (all_gather_base message) sender (queue_id q) ident) data state)
        (zip senders data) (q', tasks))"

definition extended_multi_all_gather ::
  "(byte list \<Rightarrow> byte list) \<Rightarrow> all_gather_metadata list \<Rightarrow> communicator \<Rightarrow> communicator \<Rightarrow> 'p vec2d
   \<Rightarrow> queue_state \<Rightarrow> 'p spawning option" where
  "extended_multi_all_gather sha messages senders receivers data q =
     (if length senders \<noteq> inner_extent data \<or> length messages \<noteq> outer_extent data
         \<or> \<not> set senders \<subseteq> set receivers \<or> queue_id q \<notin> set receivers then None
      else case vec2d_rows data of None \<Rightarrow> None
      | Some rows \<Rightarrow>
          Some (fold (all_gather_one sha senders receivers) (zip messages rows) (next_round q, [])))"

definition all_to_all_one ::
  "(byte list \<Rightarrow> byte list) \<Rightarrow> communicator \<Rightarrow> all_to_all_metadata \<times> 'p list \<times> 'p list
   \<Rightarrow> 'p spawning \<Rightarrow> 'p spawning" where
  "all_to_all_one sha communicator = (\<lambda>(message, send_data, receive_data) (q, tasks).
     let (ident, q') = next_message_id sha (all_to_all_base message) communicator q
     in fold (\<lambda>(party, send_data, receive_data) state.
          if party \<noteq> queue_id q
          then receive_on (to_message (all_to_all_base message) party (queue_id q) ident) receive_data
                 (send_on (to_message (all_to_all_base message) (queue_id q) party ident) send_data state)
          else state)
        (zip communicator (zip send_data receive_data)) (q', tasks))"

definition multi_all_to_all ::
  "(byte list \<Rightarrow> byte list) \<Rightarrow> all_to_all_metadata list \<Rightarrow> communicator \<Rightarrow> 'p vec2d \<Rightarrow> 'p vec2d
   \<Rightarrow> queue_state \<Rightarrow> 'p spawning option" where
  "multi_all_to_all sha messages communicator send_data receive_data q =
     (if length communicator \<noteq> inner_extent send_data \<or> length communicator \<noteq> inner_extent receive_data
         \<or> length messages \<noteq> outer_extent send_data \<or> length messages \<noteq> outer_extent receive_data
         \<or> queue_id q \<notin> set communicator then None
      else case (vec2d_rows send_data, vec2d_rows receive_data) of
        (Some send_rows, Some receive_rows) \<Rightarrow>
          Some (fold (all_to_all_one sha communicator) (zip messages (zip send_rows receive_rows))
            (next_round q, []))
      | _ \<Rightarrow> None)"

end
