(* ===== verification/Net_Ffi.thy ===== *)
theory Net_Ffi
  imports Net_Queue
begin

text \<open>
  The border between C++ and Rust: \<^verbatim>\<open>src/hmpc-rs/src/ffi/queue.rs\<close>, \<^verbatim>\<open>ffi/span.rs\<close>,
  \<^verbatim>\<open>ffi/errors.rs\<close>, and \<^verbatim>\<open>hmpc/net/ffi.hpp\<close>.

  Each foreign function checks its handle, its pointers and the sizes of its spans before it calls
  the operation of the queue, and answers an error code; \<open>throw_exception\<close> turns the code into a C++
  exception.  A span is its list of elements, a null pointer in a span is \<open>None\<close>.
\<close>

section \<open>Error codes\<close>

datatype send_receive_errc =
    Ok | Invalid_Handle | Invalid_Pointer | Invalid_Size | Invalid_Communicator | Invalid_Metadata
  | Errc_Version_Mismatch | Errc_Feature_Mismatch
  | Channel_Could_Not_Receive | Channel_Could_Not_Send
  | Connection_Version_Mismatch | Connection_Transport_Error | Connection_Closed | Connection_Reset
  | Connection_Timed_Out | Connection_Locally_Closed | Connections_Exhausted | Application_Closed
  | Stream_Finished_Early | Stream_Reset | Stream_Stopped | Stream_Closed
  | Stream_Illegal_Ordered_Read | Stream_Rejected | Stream_Too_Long
  | Invalid_Enum_Value | Errc_Size_Mismatch | Task_Cancelled | Task_Panicked | Multiple_Errors
  | Errc_Session_Mismatch | Errc_Signature_Verification | Errc_Unknown_Sender
  | Multiple_Checks | Multiple_Requests | Multiple_Messages | Unknown_Check
  | Inconsistent_Signature_Verification | Inconsistent_Collective_Communication

datatype std_errc =
    Wrong_Protocol_Type | Protocol_Error | Connection_Reset_By_Peer | Timed_Out | Message_Size
  | Connection_Refused | Operation_Not_Permitted | Broken_Promise

datatype cpp_exception =
    Logic_Error string
  | Invalid_Argument string
  | Domain_Error string
  | Runtime_Error string
  | System_Error std_errc string

fun throw_exception :: "send_receive_errc \<Rightarrow> cpp_exception" where
  "throw_exception Ok = Logic_Error ''Ok is not an error''"
| "throw_exception Invalid_Handle = Invalid_Argument ''handle''"
| "throw_exception Invalid_Pointer = Invalid_Argument ''pointer''"
| "throw_exception Invalid_Size = Invalid_Argument ''size''"
| "throw_exception Invalid_Communicator = Invalid_Argument ''communicator''"
| "throw_exception Invalid_Metadata = Invalid_Argument ''metadata''"
| "throw_exception Errc_Version_Mismatch = System_Error Wrong_Protocol_Type ''version mismatch''"
| "throw_exception Errc_Feature_Mismatch = System_Error Wrong_Protocol_Type ''feature mismatch''"
| "throw_exception Channel_Could_Not_Receive = System_Error Broken_Promise ''cannot receive on channel''"
| "throw_exception Channel_Could_Not_Send = System_Error Broken_Promise ''cannot send on channel''"
| "throw_exception Connection_Version_Mismatch =
     System_Error Wrong_Protocol_Type ''connection version mismatch''"
| "throw_exception Connection_Transport_Error = System_Error Protocol_Error ''transport error''"
| "throw_exception Connection_Closed = System_Error Connection_Reset_By_Peer ''connection closed''"
| "throw_exception Connection_Reset = System_Error Connection_Reset_By_Peer ''connection reset''"
| "throw_exception Connection_Timed_Out = System_Error Timed_Out ''connection timed out''"
| "throw_exception Connection_Locally_Closed =
     System_Error Connection_Reset_By_Peer ''connection locally closed''"
| "throw_exception Connections_Exhausted = Domain_Error ''connection identifiers''"
| "throw_exception Application_Closed = System_Error Connection_Reset_By_Peer ''application closed''"
| "throw_exception Stream_Finished_Early = System_Error Message_Size ''stream finished early''"
| "throw_exception Stream_Reset = System_Error Connection_Reset_By_Peer ''stream reset''"
| "throw_exception Stream_Stopped = System_Error Connection_Reset_By_Peer ''stream stopped''"
| "throw_exception Stream_Closed = System_Error Connection_Refused ''stream closed''"
| "throw_exception Stream_Illegal_Ordered_Read =
     System_Error Operation_Not_Permitted ''stream illegal ordered read''"
| "throw_exception Stream_Rejected = System_Error Connection_Refused ''stream rejected''"
| "throw_exception Stream_Too_Long = System_Error Message_Size ''stream too long''"
| "throw_exception Invalid_Enum_Value = Domain_Error ''enum''"
| "throw_exception Errc_Size_Mismatch = System_Error Message_Size ''size mismatch''"
| "throw_exception Task_Cancelled = System_Error Broken_Promise ''task cancelled''"
| "throw_exception Task_Panicked = System_Error Broken_Promise ''task panicked''"
| "throw_exception Multiple_Errors = Runtime_Error ''multiple errors''"
| "throw_exception Errc_Session_Mismatch = Runtime_Error ''session ID mismatch''"
| "throw_exception Errc_Signature_Verification = Runtime_Error ''signature verification failed''"
| "throw_exception Errc_Unknown_Sender = Runtime_Error ''unknown sender''"
| "throw_exception Multiple_Checks = Runtime_Error ''multiple checks''"
| "throw_exception Multiple_Requests = Runtime_Error ''multiple requests''"
| "throw_exception Multiple_Messages = Runtime_Error ''multiple messages''"
| "throw_exception Unknown_Check = Runtime_Error ''unknown check''"
| "throw_exception Inconsistent_Signature_Verification =
     Runtime_Error ''signature verification failed (consistency check)''"
| "throw_exception Inconsistent_Collective_Communication =
     Runtime_Error ''inconsistent collective communication''"

text \<open>The tag of a limb type: its number of bits, and the lowest bit for little endian machines.\<close>

definition message_datatype_of :: "bool \<Rightarrow> nat \<Rightarrow> message_datatype" where
  "message_datatype_of little_endian bits = of_bool little_endian OR of_nat bits"

section \<open>Spans\<close>

definition to_set :: "party_id list \<Rightarrow> communicator" where
  "to_set c = sort (remdups c)"

definition to_non_null_vec :: "'p option list \<Rightarrow> 'p list option" where
  "to_non_null_vec v = (if None \<in> set v then None else Some (map the v))"

definition to_non_null_vec2d :: "'p option vec2d \<Rightarrow> 'p vec2d option" where
  "to_non_null_vec2d v =
     (if inner_extent v = 0 \<or> outer_extent v = 0
      then Some \<lparr>vec_data = [], outer_extent = 0, inner_extent = 0\<rparr>
      else if None \<in> set (vec_data v) then None
      else Some \<lparr>vec_data = map the (vec_data v), outer_extent = outer_extent v,
                 inner_extent = inner_extent v\<rparr>)"

lemma to_set_communicator: "is_communicator c \<Longrightarrow> to_set c = c"
  by (simp add: to_set_def is_communicator_def sorted_sort_id distinct_remdups_id)

lemma to_non_null_vec_Some [simp]: "to_non_null_vec (map Some v) = Some v"
  by (simp add: to_non_null_vec_def image_iff comp_def)

section \<open>The foreign functions\<close>

datatype 'p ffi_result =
    Returns send_receive_errc
  | Panics
  | Spawns queue_state "'p task list"

datatype 'p ffi_call =
    Ffi_broadcast broadcast_metadata "party_id list" "'p option"
  | Ffi_multi_broadcast "broadcast_metadata list" "party_id list" "'p option list"
  | Ffi_gather gather_metadata "party_id list" "'p option list"
  | Ffi_multi_gather "gather_metadata list" "party_id list" "'p option vec2d"
  | Ffi_all_gather all_gather_metadata "party_id list" "'p option list"
  | Ffi_multi_all_gather "all_gather_metadata list" "party_id list" "'p option vec2d"
  | Ffi_extended_all_gather all_gather_metadata "party_id list" "party_id list" "'p option list"
  | Ffi_extended_multi_all_gather
      "all_gather_metadata list" "party_id list" "party_id list" "'p option vec2d"
  | Ffi_all_to_all all_to_all_metadata "party_id list" "'p option list" "'p option list"
  | Ffi_multi_all_to_all
      "all_to_all_metadata list" "party_id list" "'p option vec2d" "'p option vec2d"

definition blocking :: "'p spawning option \<Rightarrow> 'p ffi_result" where
  "blocking r = (case r of None \<Rightarrow> Panics | Some (q, tasks) \<Rightarrow> Spawns q tasks)"

definition with_pointer :: "'v option \<Rightarrow> ('v \<Rightarrow> 'p ffi_result) \<Rightarrow> 'p ffi_result" where
  "with_pointer p continue = (case p of None \<Rightarrow> Returns Invalid_Pointer | Some v \<Rightarrow> continue v)"

definition ffi_broadcast where
  "ffi_broadcast sha m communicator data q =
     with_pointer data (\<lambda>data. blocking (multi_broadcast sha [m] (to_set communicator) [data] q))"

definition ffi_multi_broadcast where
  "ffi_multi_broadcast sha ms communicator data q =
     with_pointer (to_non_null_vec data) (\<lambda>data.
       if length ms \<noteq> length data then Returns Invalid_Size
       else blocking (multi_broadcast sha ms (to_set communicator) data q))"

definition ffi_gather where
  "ffi_gather sha m communicator data q =
     with_pointer (to_non_null_vec data) (\<lambda>data.
       if queue_id q = gather_receiver m \<and> length (to_set communicator) \<noteq> length data
          \<or> queue_id q \<noteq> gather_receiver m \<and> length data \<noteq> 1 then Returns Invalid_Size
       else blocking (multi_gather sha [m] (to_set communicator) (vec2d_from_inner data) q))"

definition ffi_multi_gather where
  "ffi_multi_gather sha ms communicator data q =
     with_pointer (to_non_null_vec2d data) (\<lambda>data.
       let always = (\<forall>m\<in>set ms. gather_receiver m = queue_id q);
           never = (\<forall>m\<in>set ms. gather_receiver m \<noteq> queue_id q)
       in if length ms \<noteq> outer_extent data then Returns Invalid_Size
          else if \<not> (always \<or> never) then Returns Invalid_Metadata
          else if always \<and> inner_extent data \<noteq> length (to_set communicator)
            \<or> never \<and> inner_extent data \<noteq> 1 then Returns Invalid_Size
          else blocking (multi_gather sha ms (to_set communicator) data q))"

definition ffi_extended_all_gather where
  "ffi_extended_all_gather sha m senders receivers data q =
     with_pointer (to_non_null_vec data) (\<lambda>data.
       if length (to_set senders) \<noteq> length data then Returns Invalid_Size
       else if \<not> set senders \<subseteq> set receivers then Returns Invalid_Communicator
       else blocking (extended_multi_all_gather sha [m] (to_set senders) (to_set receivers)
              (vec2d_from_inner data) q))"

definition ffi_extended_multi_all_gather where
  "ffi_extended_multi_all_gather sha ms senders receivers data q =
     with_pointer (to_non_null_vec2d data) (\<lambda>data.
       if length (to_set senders) \<noteq> inner_extent data \<or> length ms \<noteq> outer_extent data
       then Returns Invalid_Size
       else if \<not> set senders \<subseteq> set receivers then Returns Invalid_Communicator
       else blocking (extended_multi_all_gather sha ms (to_set senders) (to_set receivers) data q))"

definition ffi_all_gather where
  "ffi_all_gather sha m communicator data q =
     with_pointer (to_non_null_vec data) (\<lambda>data.
       if length (to_set communicator) \<noteq> length data then Returns Invalid_Size
       else blocking (extended_multi_all_gather sha [m] (to_set communicator) (to_set communicator)
              (vec2d_from_inner data) q))"

definition ffi_multi_all_gather where
  "ffi_multi_all_gather sha ms communicator data q =
     with_pointer (to_non_null_vec2d data) (\<lambda>data.
       if length (to_set communicator) \<noteq> inner_extent data \<or> length ms \<noteq> outer_extent data
       then Returns Invalid_Size
       else blocking (extended_multi_all_gather sha ms (to_set communicator) (to_set communicator)
              data q))"

definition ffi_all_to_all where
  "ffi_all_to_all sha m communicator send_data receive_data q =
     with_pointer (to_non_null_vec send_data) (\<lambda>send_data.
     with_pointer (to_non_null_vec receive_data) (\<lambda>receive_data.
       if length (to_set communicator) \<noteq> length send_data
          \<or> length (to_set communicator) \<noteq> length receive_data then Returns Invalid_Size
       else blocking (multi_all_to_all sha [m] (to_set communicator)
              (vec2d_from_inner send_data) (vec2d_from_inner receive_data) q)))"

definition ffi_multi_all_to_all where
  "ffi_multi_all_to_all sha ms communicator send_data receive_data q =
     with_pointer (to_non_null_vec2d send_data) (\<lambda>send_data.
     with_pointer (to_non_null_vec2d receive_data) (\<lambda>receive_data.
       if length (to_set communicator) \<noteq> inner_extent send_data
          \<or> length (to_set communicator) \<noteq> inner_extent receive_data
          \<or> length ms \<noteq> outer_extent send_data \<or> length ms \<noteq> outer_extent receive_data
       then Returns Invalid_Size
       else blocking (multi_all_to_all sha ms (to_set communicator) send_data receive_data q)))"

text \<open>A call with its handle: the handle is null when the queue could not be initialised.\<close>

fun ffi_run :: "(byte list \<Rightarrow> byte list) \<Rightarrow> 'p ffi_call \<Rightarrow> queue_state option \<Rightarrow> 'p ffi_result" where
  "ffi_run sha c None = Returns Invalid_Handle"
| "ffi_run sha (Ffi_broadcast m c d) (Some q) = ffi_broadcast sha m c d q"
| "ffi_run sha (Ffi_multi_broadcast ms c d) (Some q) = ffi_multi_broadcast sha ms c d q"
| "ffi_run sha (Ffi_gather m c d) (Some q) = ffi_gather sha m c d q"
| "ffi_run sha (Ffi_multi_gather ms c d) (Some q) = ffi_multi_gather sha ms c d q"
| "ffi_run sha (Ffi_all_gather m c d) (Some q) = ffi_all_gather sha m c d q"
| "ffi_run sha (Ffi_multi_all_gather ms c d) (Some q) = ffi_multi_all_gather sha ms c d q"
| "ffi_run sha (Ffi_extended_all_gather m s r d) (Some q) = ffi_extended_all_gather sha m s r d q"
| "ffi_run sha (Ffi_extended_multi_all_gather ms s r d) (Some q) =
     ffi_extended_multi_all_gather sha ms s r d q"
| "ffi_run sha (Ffi_all_to_all m c d d') (Some q) = ffi_all_to_all sha m c d d' q"
| "ffi_run sha (Ffi_multi_all_to_all ms c d d') (Some q) = ffi_multi_all_to_all sha ms c d d' q"

end
