(* ===== verification/Net_Storage.thy ===== *)
theory Net_Storage
  imports Structure Net_Ffi
begin

text \<open>
  The storage of the results of networking operations: \<^verbatim>\<open>hmpc/net/structure.hpp\<close>,
  \<^verbatim>\<open>hmpc/net/communicator.hpp\<close> and \<^verbatim>\<open>hmpc/comp/mpc/share.hpp\<close>.

  A storage has one slot for each party of a communicator, and an operation may have several
  storages (a C++ tuple of arrays).  A cell is addressed by the number of the storage, the number of
  the field in the value of a slot, and the slot; its contents are the bytes of this field.  An
  accessor makes a cell accessible, for reading when the slot is the party's own.  A template that
  does not compile (a failed \<^verbatim>\<open>static_assert\<close> or constraint) gives \<open>None\<close>.
\<close>

datatype address =
    Send_Cell nat nat nat
  | Result_Cell nat nat nat

record accessor =
  accessor_cell :: address
  accessor_writes :: bool

datatype accessors =
    Single_Accessors "accessor list"
  | Multi_Accessors "accessor list list"

type_synonym storage = "struct list"

text \<open>
  An element is a plain value, or the share of a party among the owners of a shared value, a
  structure with one element.
\<close>

datatype element =
    Plain struct
  | Share struct party_id "party_id list"

fun element_struct :: "element \<Rightarrow> struct" where
  "element_struct (Plain v) = v"
| "element_struct (Share v i owners) = Structure [v]"

section \<open>Communicators\<close>

definition communicator_append :: "party_id list \<Rightarrow> party_id \<Rightarrow> party_id list" where
  "communicator_append c i = c @ [i]"

definition communicator_to_ffi :: "party_id list \<Rightarrow> communicator option" where
  "communicator_to_ffi c =
     (if sorted c \<and> (\<forall>i < length c - 1. c ! i \<noteq> c ! Suc i) then Some c else None)"

section \<open>Result storages\<close>

text \<open>
  A layout is the limb type and the number of bytes of the values to receive, or of the shares of
  the owners.  The indeterminate bytes of new values may differ from slot to slot.
\<close>

datatype layout =
    Values_Of nat nat
  | Shares_Of nat nat "party_id list"

fun make_empty_result_storage ::
  "(nat \<Rightarrow> nat \<Rightarrow> byte) \<Rightarrow> party_id list \<Rightarrow> layout \<Rightarrow> storage" where
  "make_empty_result_storage fresh c (Values_Of bits n) =
     map (\<lambda>i. empty_default (fresh i) bits n) [0..<length c]"
| "make_empty_result_storage fresh c (Shares_Of bits n owners) =
     map (\<lambda>i. Structure [empty_default (fresh i) bits n]) [0..<length owners]"

definition make_empty_multi_result_storage ::
  "(nat \<Rightarrow> nat \<Rightarrow> byte) \<Rightarrow> party_id list \<Rightarrow> layout list \<Rightarrow> storage list" where
  "make_empty_multi_result_storage fresh c ls = map (make_empty_result_storage fresh c) ls"

definition default_owner_with ::
  "(nat \<Rightarrow> nat \<Rightarrow> byte) \<Rightarrow> struct \<Rightarrow> party_id \<Rightarrow> party_id list \<Rightarrow> storage" where
  "default_owner_with fresh v i owners =
     map (\<lambda>j. Structure [if owners ! j = i then v else default_like (fresh j) v]) [0..<length owners]"

definition make_result_storage_with ::
  "(nat \<Rightarrow> nat \<Rightarrow> byte) \<Rightarrow> party_id \<Rightarrow> party_id list \<Rightarrow> element \<Rightarrow> storage option" where
  "make_result_storage_with fresh i c x =
     (if i \<notin> set c then None
      else Some (case x of
        Share v j owners \<Rightarrow> default_owner_with fresh v j owners
      | Plain v \<Rightarrow> map (\<lambda>j. if c ! j = i then v else default_like (fresh j) v) [0..<length c]))"

definition make_multi_result_storage_with ::
  "(nat \<Rightarrow> nat \<Rightarrow> byte) \<Rightarrow> party_id \<Rightarrow> party_id list \<Rightarrow> element list \<Rightarrow> storage list option" where
  "make_multi_result_storage_with fresh i c xs = collect_option (map (make_result_storage_with fresh i c) xs)"

section \<open>Accessors\<close>

definition make_accessor :: "party_id \<Rightarrow> party_id \<Rightarrow> address \<Rightarrow> accessor" where
  "make_accessor i j cell = \<lparr>accessor_cell = cell, accessor_writes = (i \<noteq> j)\<rparr>"

fun is_structure :: "struct \<Rightarrow> bool" where
  "is_structure (Structure es) = True"
| "is_structure (Field bits bytes) = False"

text \<open>\<open>cell\<close> gives the address of a field and a slot of the storage. The slot of a collective storage is reached through
  \<^verbatim>\<open>shares::get\<close>, which answers a share with a copy of the value. A copy of a tensor shares its buffer with the original, so
  the accessor of a tensor is an accessor of the slot. This model of the accessors is for shares of tensors: the span of a share of a number
  would point into the copy, which is gone when the accessor is used.\<close>

definition party_accessors ::
  "party_id \<Rightarrow> party_id list \<Rightarrow> (nat \<Rightarrow> address) \<Rightarrow> accessor list" where
  "party_accessors i c cell = map (\<lambda>k. make_accessor i (c ! k) (cell k)) [0..<length c]"

definition make_accessors ::
  "party_id \<Rightarrow> party_id list \<Rightarrow> (nat \<Rightarrow> nat \<Rightarrow> address) \<Rightarrow> storage \<Rightarrow> accessors option" where
  "make_accessors i c cell values =
     (if length values \<noteq> length c then None
      else Some (if is_structure (hd values)
        then Multi_Accessors (map (\<lambda>j. party_accessors i c (cell j)) [0..<structure_fields (hd values)])
        else Single_Accessors (party_accessors i c (cell 0))))"

text \<open>
  \<open>accessors_for_parties\<close> counts through the storages to the one that has the field \<open>j\<close>; \<open>t\<close> is the
  number of the current storage.
\<close>

fun accessors_for_parties ::
  "party_id \<Rightarrow> party_id list \<Rightarrow> (nat \<Rightarrow> nat \<Rightarrow> nat \<Rightarrow> address) \<Rightarrow> nat \<Rightarrow> nat \<Rightarrow> storage list
   \<Rightarrow> accessor list option" where
  "accessors_for_parties i c cell j t [] = None"
| "accessors_for_parties i c cell j t (st # rest) =
     (if is_structure (hd st)
      then if structure_fields (hd st) \<le> j
           then accessors_for_parties i c cell (j - structure_fields (hd st)) (Suc t) rest
           else Some (party_accessors i c (cell t j))
      else if j = 0
           then (case make_accessors i c (cell t) st of
                   Some (Single_Accessors as) \<Rightarrow> Some as
                 | _ \<Rightarrow> None)
           else accessors_for_parties i c cell (j - 1) (Suc t) rest)"

definition make_multi_accessors ::
  "party_id \<Rightarrow> party_id list \<Rightarrow> (nat \<Rightarrow> nat \<Rightarrow> nat \<Rightarrow> address) \<Rightarrow> storage list
   \<Rightarrow> accessor list list option" where
  "make_multi_accessors i c cell values =
     (if \<exists>st\<in>set values. is_structure (hd st)
      then collect_option (map (\<lambda>j. accessors_for_parties i c cell j 0 values)
             [0..<sum_list (map (\<lambda>st. structure_fields (hd st)) values)])
      else collect_option (map (\<lambda>t. case make_accessors i c (cell t) (values ! t) of
               Some (Single_Accessors as) \<Rightarrow> Some as
             | _ \<Rightarrow> None) [0..<length values]))"

section \<open>Data pointers\<close>

definition make_data_ptr :: "accessor \<Rightarrow> address option" where
  "make_data_ptr a = Some (accessor_cell a)"

definition make_data_ptrs :: "party_id list \<Rightarrow> accessor list \<Rightarrow> address option list option" where
  "make_data_ptrs c as = (if length as \<noteq> length c then None else Some (map make_data_ptr as))"

definition make_multi_data_ptrs ::
  "party_id list \<Rightarrow> accessor list list \<Rightarrow> address option list list option" where
  "make_multi_data_ptrs c as = collect_option (map (make_data_ptrs c) as)"

fun get_byte_size :: "struct \<Rightarrow> message_size" where
  "get_byte_size (Field bits bytes) = of_nat (length bytes)"

definition to_2d_ffi :: "'p list list \<Rightarrow> 'p vec2d" where
  "to_2d_ffi array = \<lparr>vec_data = concat array, outer_extent = length array,
     inner_extent = (case array of [] \<Rightarrow> 0 | row # _ \<Rightarrow> length row)\<rparr>"

definition to_outer_ffi :: "'p list \<Rightarrow> 'p vec2d" where
  "to_outer_ffi v = \<lparr>vec_data = v, outer_extent = length v, inner_extent = 1\<rparr>"

section \<open>The contents of the cells\<close>

definition cell_bytes :: "storage list \<Rightarrow> nat \<Rightarrow> nat \<Rightarrow> nat \<Rightarrow> byte list" where
  "cell_bytes sts t j k = (case leaves (sts ! t ! k) ! j of Field bits bytes \<Rightarrow> bytes | Structure es \<Rightarrow> [])"

fun set_fields :: "(nat \<Rightarrow> byte list) \<Rightarrow> struct \<Rightarrow> struct"
  and set_fields_list :: "(nat \<Rightarrow> byte list) \<Rightarrow> struct list \<Rightarrow> struct list" where
  "set_fields g (Field bits bytes) = Field bits (g 0)"
| "set_fields g (Structure es) = Structure (set_fields_list g es)"
| "set_fields_list g [] = []"
| "set_fields_list g (e # es) = set_fields g e # set_fields_list (\<lambda>j. g (j + structure_fields e)) es"

end
