(* ===== verification/Net_Operations.thy ===== *)
theory Net_Operations
  imports Net_Storage "HOL-Library.Monad_Syntax"
begin

text \<open>
  The operations of \<^verbatim>\<open>hmpc::net::queue\<close>: \<^verbatim>\<open>hmpc/net/queue.hpp\<close>.

  Every overload of \<^verbatim>\<open>broadcast\<close>, \<^verbatim>\<open>gather\<close>, \<^verbatim>\<open>all_gather\<close> and \<^verbatim>\<open>all_to_all\<close> describes its message,
  provides storage for its result, makes accessors and pointers, and makes one foreign call.  An
  overload is a function to a \<open>net_operation\<close>: the call, the values that are sent from and the
  storage of the result.  Constraints and static assertions of the templates are \<open>require\<close>s, so
  that a call that does not compile is \<open>None\<close>.  \<open>op_memory\<close> is what the pointers of the call point
  to, \<open>op_result\<close> is the returned value, given the memory when the foreign call has returned.
\<close>

record net_operation =
  op_call :: "address ffi_call option"
  op_send :: "storage list"
  op_storage :: "storage list"

definition require :: "bool \<Rightarrow> unit option" where
  "require b = (if b then Some () else None)"

fun op_memory :: "net_operation \<Rightarrow> address \<Rightarrow> byte list" where
  "op_memory op (Send_Cell t j k) = cell_bytes (op_send op) t j k"
| "op_memory op (Result_Cell t j k) = cell_bytes (op_storage op) t j k"

definition op_result :: "net_operation \<Rightarrow> (address \<Rightarrow> byte list) \<Rightarrow> storage list" where
  "op_result op M = map (\<lambda>t. map (\<lambda>k. set_fields (\<lambda>j. M (Result_Cell t j k)) (op_storage op ! t ! k))
     [0..<length (op_storage op ! t)]) [0..<length (op_storage op)]"

section \<open>Metadata\<close>

fun datatype_of :: "bool \<Rightarrow> struct \<Rightarrow> message_datatype" where
  "datatype_of le (Field bits bytes) = message_datatype_of le bits"

definition broadcast_of :: "bool \<Rightarrow> party_id \<Rightarrow> struct \<Rightarrow> broadcast_metadata" where
  "broadcast_of le sender v =
     \<lparr>broadcast_datatype = datatype_of le v, broadcast_sender = sender, broadcast_size = get_byte_size v\<rparr>"

definition gather_of :: "bool \<Rightarrow> party_id \<Rightarrow> struct \<Rightarrow> gather_metadata" where
  "gather_of le receiver v =
     \<lparr>gather_datatype = datatype_of le v, gather_receiver = receiver, gather_size = get_byte_size v\<rparr>"

definition all_gather_of :: "bool \<Rightarrow> struct \<Rightarrow> all_gather_metadata" where
  "all_gather_of le v = \<lparr>all_gather_datatype = datatype_of le v, all_gather_size = get_byte_size v\<rparr>"

definition all_to_all_of :: "bool \<Rightarrow> struct \<Rightarrow> all_to_all_metadata" where
  "all_to_all_of le v = \<lparr>all_to_all_datatype = datatype_of le v, all_to_all_size = get_byte_size v\<rparr>"

section \<open>Broadcast\<close>

definition broadcast_send ::
  "bool \<Rightarrow> party_id \<Rightarrow> party_id list \<Rightarrow> party_id \<Rightarrow> struct \<Rightarrow> net_operation option" where
  "broadcast_send le i communicator sender v = do {
     require (sender = i \<and> \<not> is_structure v);
     c \<leftarrow> communicator_to_ffi communicator;
     Some \<lparr>op_call = Some (Ffi_broadcast (broadcast_of le sender v) c
               (make_data_ptr (make_accessor i i (Send_Cell 0 0 0)))),
           op_send = [[v]], op_storage = []\<rparr>
   }"

definition broadcast_receive ::
  "bool \<Rightarrow> (nat \<Rightarrow> byte) \<Rightarrow> party_id \<Rightarrow> party_id list \<Rightarrow> party_id \<Rightarrow> nat \<times> nat \<Rightarrow> net_operation option" where
  "broadcast_receive le fresh i communicator sender layout = do {
     require (sender \<noteq> i \<and> i \<in> set communicator);
     let tensor = empty_default fresh (fst layout) (snd layout);
     c \<leftarrow> communicator_to_ffi communicator;
     Some \<lparr>op_call = Some (Ffi_broadcast (broadcast_of le sender tensor) c
               (make_data_ptr (make_accessor i sender (Result_Cell 0 0 0)))),
           op_send = [], op_storage = [[tensor]]\<rparr>
   }"

definition multi_broadcast_send ::
  "bool \<Rightarrow> party_id \<Rightarrow> party_id list \<Rightarrow> party_id list \<Rightarrow> struct list \<Rightarrow> net_operation option" where
  "multi_broadcast_send le i communicator senders tensors = do {
     require ((\<forall>s\<in>set senders. s = i) \<and> length senders = length tensors
       \<and> (\<forall>v\<in>set tensors. \<not> is_structure v));
     let metadata = map2 (broadcast_of le) senders tensors;
     let accessors = map (\<lambda>t. make_accessor i i (Send_Cell t 0 0)) [0..<length tensors];
     data \<leftarrow> make_data_ptrs senders accessors;
     c \<leftarrow> communicator_to_ffi communicator;
     Some \<lparr>op_call = Some (Ffi_multi_broadcast metadata c data),
           op_send = map (\<lambda>v. [v]) tensors, op_storage = []\<rparr>
   }"

definition multi_broadcast_receive ::
  "bool \<Rightarrow> (nat \<Rightarrow> nat \<Rightarrow> byte) \<Rightarrow> party_id \<Rightarrow> party_id list \<Rightarrow> party_id list \<Rightarrow> (nat \<times> nat) list
   \<Rightarrow> net_operation option" where
  "multi_broadcast_receive le fresh i communicator senders layouts = do {
     require ((\<forall>s\<in>set senders. s \<noteq> i) \<and> i \<in> set communicator \<and> length senders = length layouts);
     let tensors = map (\<lambda>k. empty_default (fresh k) (fst (layouts ! k)) (snd (layouts ! k)))
       [0..<length layouts];
     let metadata = map2 (broadcast_of le) senders tensors;
     accessors \<leftarrow> make_accessors i senders (Result_Cell 0) tensors;
     data \<leftarrow> (case accessors of Single_Accessors row \<Rightarrow> make_data_ptrs senders row
                | Multi_Accessors rows \<Rightarrow> None);
     c \<leftarrow> communicator_to_ffi communicator;
     Some \<lparr>op_call = Some (Ffi_multi_broadcast metadata c data),
           op_send = [], op_storage = [tensors]\<rparr>
   }"

section \<open>Gather\<close>

definition gather_receive_member ::
  "bool \<Rightarrow> (nat \<Rightarrow> nat \<Rightarrow> byte) \<Rightarrow> party_id \<Rightarrow> party_id list \<Rightarrow> party_id \<Rightarrow> struct \<Rightarrow> net_operation option" where
  "gather_receive_member le fresh i communicator receiver v = do {
     require (receiver = i \<and> i \<in> set communicator \<and> \<not> is_structure v);
     storage \<leftarrow> make_result_storage_with fresh i communicator (Plain v);
     accessors \<leftarrow> make_accessors i communicator (Result_Cell 0) storage;
     data \<leftarrow> (case accessors of Single_Accessors row \<Rightarrow> make_data_ptrs communicator row
                | Multi_Accessors rows \<Rightarrow> None);
     c \<leftarrow> communicator_to_ffi communicator;
     Some \<lparr>op_call = Some (Ffi_gather (gather_of le receiver v) c data),
           op_send = [], op_storage = [storage]\<rparr>
   }"

definition gather_receive_outside ::
  "bool \<Rightarrow> (nat \<Rightarrow> nat \<Rightarrow> byte) \<Rightarrow> party_id \<Rightarrow> party_id list \<Rightarrow> party_id \<Rightarrow> nat \<times> nat
   \<Rightarrow> net_operation option" where
  "gather_receive_outside le fresh i communicator receiver layout = do {
     require (receiver = i \<and> i \<notin> set communicator \<and> communicator \<noteq> []);
     let storage = make_empty_result_storage fresh communicator (Values_Of (fst layout) (snd layout));
     accessors \<leftarrow> make_accessors i communicator (Result_Cell 0) storage;
     data \<leftarrow> (case accessors of Single_Accessors row \<Rightarrow> make_data_ptrs communicator row
                | Multi_Accessors rows \<Rightarrow> None);
     c \<leftarrow> communicator_to_ffi communicator;
     Some \<lparr>op_call = Some (Ffi_gather (gather_of le receiver (hd storage)) c data),
           op_send = [], op_storage = [storage]\<rparr>
   }"

definition gather_send ::
  "bool \<Rightarrow> party_id \<Rightarrow> party_id list \<Rightarrow> party_id \<Rightarrow> struct \<Rightarrow> net_operation option" where
  "gather_send le i communicator receiver v = do {
     require (receiver \<noteq> i \<and> i \<in> set communicator \<and> \<not> is_structure v);
     c \<leftarrow> communicator_to_ffi communicator;
     Some \<lparr>op_call = Some (Ffi_gather (gather_of le receiver v) c
               [make_data_ptr (make_accessor i i (Send_Cell 0 0 0))]),
           op_send = [[v]], op_storage = []\<rparr>
   }"

text \<open>Each receiver as often as the value it receives has fields.\<close>

definition extended_receivers :: "party_id list \<Rightarrow> (nat \<Rightarrow> nat) \<Rightarrow> party_id list" where
  "extended_receivers receivers field_count =
     scan_range (length receivers) (\<lambda>k parties.
       scan_range (field_count k) (\<lambda>_ parties. communicator_append parties (receivers ! k)) parties) []"

definition multi_gather_receive ::
  "bool \<Rightarrow> (nat \<Rightarrow> nat \<Rightarrow> byte) \<Rightarrow> party_id \<Rightarrow> party_id list \<Rightarrow> party_id list \<Rightarrow> layout list
   \<Rightarrow> net_operation option" where
  "multi_gather_receive le fresh i communicator receivers layouts = do {
     require ((\<forall>r\<in>set receivers. r = i) \<and> i \<notin> set communicator \<and> communicator \<noteq> []
       \<and> length receivers = length layouts);
     let storages = make_empty_multi_result_storage fresh communicator layouts;
     let extended = extended_receivers receivers (\<lambda>k. structure_fields (hd (storages ! k)));
     metadata \<leftarrow> collect_enumerated (\<lambda>j. gather_of le (extended ! j)) (map hd storages);
     accessors \<leftarrow> make_multi_accessors i communicator Result_Cell storages;
     data \<leftarrow> make_multi_data_ptrs communicator accessors;
     c \<leftarrow> communicator_to_ffi communicator;
     Some \<lparr>op_call = Some (Ffi_multi_gather metadata c (to_2d_ffi data)),
           op_send = [], op_storage = storages\<rparr>
   }"

definition multi_gather_send ::
  "bool \<Rightarrow> party_id \<Rightarrow> party_id list \<Rightarrow> party_id list \<Rightarrow> struct list \<Rightarrow> net_operation option" where
  "multi_gather_send le i communicator receivers tensors = do {
     require ((\<forall>r\<in>set receivers. r \<noteq> i) \<and> i \<in> set communicator \<and> length receivers = length tensors);
     let extended = extended_receivers receivers (\<lambda>k. structure_fields (tensors ! k));
     metadata \<leftarrow> collect_enumerated (\<lambda>j. gather_of le (extended ! j)) tensors;
     accessors \<leftarrow> collect_enumerated (\<lambda>j v. make_accessor i i (Send_Cell 0 j 0)) tensors;
     data \<leftarrow> make_data_ptrs extended accessors;
     c \<leftarrow> communicator_to_ffi communicator;
     Some \<lparr>op_call = Some (Ffi_multi_gather metadata c (to_outer_ffi data)),
           op_send = [[Structure tensors]], op_storage = []\<rparr>
   }"

section \<open>All-gather\<close>

definition all_gather ::
  "bool \<Rightarrow> (nat \<Rightarrow> nat \<Rightarrow> byte) \<Rightarrow> party_id \<Rightarrow> party_id list \<Rightarrow> element \<Rightarrow> net_operation option" where
  "all_gather le fresh i communicator x = do {
     require (i \<in> set communicator);
     metadata \<leftarrow> collect_values (all_gather_of le) [element_struct x];
     storage \<leftarrow> make_result_storage_with fresh i communicator x;
     accessors \<leftarrow> make_accessors i communicator (Result_Cell 0) storage;
     c \<leftarrow> communicator_to_ffi communicator;
     case accessors of
       Multi_Accessors rows \<Rightarrow> do {
         data \<leftarrow> make_multi_data_ptrs communicator rows;
         Some \<lparr>op_call = Some (Ffi_multi_all_gather metadata c (to_2d_ffi data)),
               op_send = [], op_storage = [storage]\<rparr>
       }
     | Single_Accessors row \<Rightarrow> do {
         require (length metadata = 1);
         data \<leftarrow> make_data_ptrs communicator row;
         Some \<lparr>op_call = Some (Ffi_all_gather (metadata ! 0) c data),
               op_send = [], op_storage = [storage]\<rparr>
       }
   }"

definition multi_all_gather ::
  "bool \<Rightarrow> (nat \<Rightarrow> nat \<Rightarrow> byte) \<Rightarrow> party_id \<Rightarrow> party_id list \<Rightarrow> element list \<Rightarrow> net_operation option" where
  "multi_all_gather le fresh i communicator xs = do {
     require (i \<in> set communicator);
     metadata \<leftarrow> collect_values (all_gather_of le) (map element_struct xs);
     storages \<leftarrow> make_multi_result_storage_with fresh i communicator xs;
     accessors \<leftarrow> make_multi_accessors i communicator Result_Cell storages;
     data \<leftarrow> make_multi_data_ptrs communicator accessors;
     c \<leftarrow> communicator_to_ffi communicator;
     Some \<lparr>op_call = Some (Ffi_multi_all_gather metadata c (to_2d_ffi data)),
           op_send = [], op_storage = storages\<rparr>
   }"

definition extended_all_gather ::
  "bool \<Rightarrow> (nat \<Rightarrow> nat \<Rightarrow> byte) \<Rightarrow> party_id \<Rightarrow> party_id list \<Rightarrow> party_id list \<Rightarrow> element
   \<Rightarrow> net_operation option" where
  "extended_all_gather le fresh i senders receivers x = do {
     require (i \<in> set senders);
     metadata \<leftarrow> collect_values (all_gather_of le) [element_struct x];
     storage \<leftarrow> make_result_storage_with fresh i senders x;
     accessors \<leftarrow> make_accessors i senders (Result_Cell 0) storage;
     s \<leftarrow> communicator_to_ffi senders;
     r \<leftarrow> communicator_to_ffi receivers;
     case accessors of
       Multi_Accessors rows \<Rightarrow> do {
         data \<leftarrow> make_multi_data_ptrs senders rows;
         Some \<lparr>op_call = Some (Ffi_extended_multi_all_gather metadata s r (to_2d_ffi data)),
               op_send = [], op_storage = [storage]\<rparr>
       }
     | Single_Accessors row \<Rightarrow> do {
         require (length metadata = 1);
         data \<leftarrow> make_data_ptrs senders row;
         Some \<lparr>op_call = Some (Ffi_extended_all_gather (metadata ! 0) s r data),
               op_send = [], op_storage = [storage]\<rparr>
       }
   }"

definition extended_all_gather_receive ::
  "bool \<Rightarrow> (nat \<Rightarrow> nat \<Rightarrow> byte) \<Rightarrow> party_id \<Rightarrow> party_id list \<Rightarrow> party_id list \<Rightarrow> nat \<times> nat
   \<Rightarrow> net_operation option" where
  "extended_all_gather_receive le fresh i senders receivers layout = do {
     require (i \<notin> set senders \<and> senders \<noteq> []);
     let storage = make_empty_result_storage fresh senders (Values_Of (fst layout) (snd layout));
     accessors \<leftarrow> make_accessors i senders (Result_Cell 0) storage;
     data \<leftarrow> (case accessors of Single_Accessors row \<Rightarrow> make_data_ptrs senders row
                | Multi_Accessors rows \<Rightarrow> None);
     s \<leftarrow> communicator_to_ffi senders;
     r \<leftarrow> communicator_to_ffi receivers;
     Some \<lparr>op_call = Some (Ffi_extended_all_gather (all_gather_of le (hd storage)) s r data),
           op_send = [], op_storage = [storage]\<rparr>
   }"

definition extended_multi_all_gather_send ::
  "bool \<Rightarrow> (nat \<Rightarrow> nat \<Rightarrow> byte) \<Rightarrow> party_id \<Rightarrow> party_id list \<Rightarrow> party_id list \<Rightarrow> element list
   \<Rightarrow> net_operation option" where
  "extended_multi_all_gather_send le fresh i senders receivers xs = do {
     require (i \<in> set senders);
     metadata \<leftarrow> collect_values (all_gather_of le) (map element_struct xs);
     storages \<leftarrow> make_multi_result_storage_with fresh i senders xs;
     accessors \<leftarrow> make_multi_accessors i senders Result_Cell storages;
     data \<leftarrow> make_multi_data_ptrs senders accessors;
     s \<leftarrow> communicator_to_ffi senders;
     r \<leftarrow> communicator_to_ffi receivers;
     Some \<lparr>op_call = Some (Ffi_extended_multi_all_gather metadata s r (to_2d_ffi data)),
           op_send = [], op_storage = storages\<rparr>
   }"

definition extended_multi_all_gather_receive ::
  "bool \<Rightarrow> (nat \<Rightarrow> nat \<Rightarrow> byte) \<Rightarrow> party_id \<Rightarrow> party_id list \<Rightarrow> party_id list \<Rightarrow> layout list
   \<Rightarrow> net_operation option" where
  "extended_multi_all_gather_receive le fresh i senders receivers layouts = do {
     require (i \<notin> set senders \<and> senders \<noteq> []);
     let storages = make_empty_multi_result_storage fresh senders layouts;
     metadata \<leftarrow> collect_values (all_gather_of le) (map hd storages);
     accessors \<leftarrow> make_multi_accessors i senders Result_Cell storages;
     data \<leftarrow> make_multi_data_ptrs senders accessors;
     s \<leftarrow> communicator_to_ffi senders;
     r \<leftarrow> communicator_to_ffi receivers;
     Some \<lparr>op_call = Some (Ffi_extended_multi_all_gather metadata s r (to_2d_ffi data)),
           op_send = [], op_storage = storages\<rparr>
   }"

section \<open>All-to-all\<close>

definition index_of :: "party_id list \<Rightarrow> party_id \<Rightarrow> nat" where
  "index_of c i = length (takeWhile (\<lambda>j. j \<noteq> i) c)"

text \<open>The overload for one value does not call the queue unless the value is a structure.\<close>

definition all_to_all ::
  "bool \<Rightarrow> (nat \<Rightarrow> nat \<Rightarrow> byte) \<Rightarrow> party_id \<Rightarrow> party_id list \<Rightarrow> element list \<Rightarrow> net_operation option" where
  "all_to_all le fresh i communicator x = do {
     require (i \<in> set communicator \<and> length x = length communicator);
     storage \<leftarrow> make_result_storage_with fresh i communicator (x ! index_of communicator i);
     let send = map element_struct x;
     send_accessors \<leftarrow> make_accessors i (map (\<lambda>_. i) communicator) (Send_Cell 0) send;
     receive_accessors \<leftarrow> make_accessors i communicator (Result_Cell 0) storage;
     case send_accessors of
       Multi_Accessors send_rows \<Rightarrow> do {
         send_data \<leftarrow> make_multi_data_ptrs communicator send_rows;
         receive_data \<leftarrow> (case receive_accessors of
             Multi_Accessors rows \<Rightarrow> make_multi_data_ptrs communicator rows
           | Single_Accessors row \<Rightarrow> None);
         metadata \<leftarrow> collect_values (all_to_all_of le) [hd send];
         c \<leftarrow> communicator_to_ffi communicator;
         Some \<lparr>op_call = Some (Ffi_multi_all_to_all metadata c (to_2d_ffi send_data) (to_2d_ffi receive_data)),
               op_send = [send], op_storage = [storage]\<rparr>
       }
     | Single_Accessors _ \<Rightarrow>
         Some \<lparr>op_call = None, op_send = [send], op_storage = [storage]\<rparr>
   }"

text \<open>The overload for several arrays. A call with one array never gets here: overload resolution prefers \<open>all_to_all\<close> above.\<close>

definition multi_all_to_all_operation ::
  "bool \<Rightarrow> (nat \<Rightarrow> nat \<Rightarrow> byte) \<Rightarrow> party_id \<Rightarrow> party_id list \<Rightarrow> element list list \<Rightarrow> net_operation option" where
  "multi_all_to_all_operation le fresh i communicator xs = do {
     require (length xs \<noteq> 1 \<and> i \<in> set communicator \<and> (\<forall>x\<in>set xs. length x = length communicator));
     storages \<leftarrow> make_multi_result_storage_with fresh i communicator
       (map (\<lambda>x. x ! index_of communicator i) xs);
     metadata \<leftarrow> collect_values (all_to_all_of le) (map (\<lambda>x. element_struct (x ! 0)) xs);
     let send = map (map element_struct) xs;
     send_accessors \<leftarrow> make_multi_accessors i (map (\<lambda>_. i) communicator) Send_Cell send;
     receive_accessors \<leftarrow> make_multi_accessors i communicator Result_Cell storages;
     send_data \<leftarrow> make_multi_data_ptrs communicator send_accessors;
     receive_data \<leftarrow> make_multi_data_ptrs communicator receive_accessors;
     c \<leftarrow> communicator_to_ffi communicator;
     Some \<lparr>op_call = Some (Ffi_multi_all_to_all metadata c (to_2d_ffi send_data) (to_2d_ffi receive_data)),
           op_send = send, op_storage = storages\<rparr>
   }"

section \<open>The foreign call\<close>

datatype operation_outcome =
    Throws cpp_exception
  | Aborts
  | Communicates queue_state "address task list"
  | Returns_At_Once

text \<open>
  An operation throws when the foreign function answers an error code; otherwise it waits for the
  tasks that the call has spawned.
\<close>

definition run_operation ::
  "(byte list \<Rightarrow> byte list) \<Rightarrow> net_operation \<Rightarrow> queue_state option \<Rightarrow> operation_outcome" where
  "run_operation sha op queue =
     (case op_call op of
        None \<Rightarrow> Returns_At_Once
      | Some c \<Rightarrow>
          (case ffi_run sha c queue of
             Returns errc \<Rightarrow> (if errc \<noteq> Ok then Throws (throw_exception errc) else Returns_At_Once)
           | Panics \<Rightarrow> Aborts
           | Spawns q tasks \<Rightarrow> Communicates q tasks))"

end
