(* ===== verification/Net_Run.thy ===== *)
theory Net_Run
  imports Net_Queue
begin

text \<open>
  The run of a network of parties: \<^verbatim>\<open>net/queue.rs\<close> (\<^verbatim>\<open>send_message\<close>, \<^verbatim>\<open>receive_message\<close>,
  \<^verbatim>\<open>collect_tasks\<close>), \<^verbatim>\<open>net/client.rs\<close> and \<^verbatim>\<open>net/server.rs\<close> as a step relation.

  Every party runs a script of rounds.  A round is a local computation on the party's memory and a
  collective operation, of which the queue spawned the tasks; the next round begins when all of them
  have finished.  The tasks of all parties, the network and the message buffers run concurrently, so
  that any of these steps can come next:

    \<^item> \<open>Begin\<close>: a party without unfinished tasks begins its next round;
    \<^item> \<open>Run_send\<close>: a send reads the data in memory and writes its stream;
    \<^item> \<open>Run_receive\<close>: a receive hands its request to the message buffer and waits;
    \<^item> \<open>Deliver\<close>: some stream arrives, in any order, is read and handed to the message buffer;
    \<^item> \<open>Finish_receive\<close>: an answer of the buffer is checked and copied to memory.

  Streams neither get lost nor change on the way (QUIC is reliable), and connections do not fail.
  The answer channel of a receive is identified with the task, that is its message and pointer.
\<close>

type_synonym 'p data_memory = "'p \<Rightarrow> byte list"
type_synonym 'p channel = "message \<times> 'p"

record 'p party_state =
  party_memory :: "'p data_memory"
  party_round :: nat
  spawned :: "'p task multiset"
  awaiting :: "'p channel multiset"
  party_buffer :: "'p channel buffer_state"
  answered :: "('p channel \<times> byte list) multiset"
  party_errors :: "server_error list"

record 'p network =
  parties :: "party_id \<Rightarrow> 'p party_state"
  in_flight :: "(party_id \<times> byte list) multiset"

record 'p script =
  script_parties :: "party_id list"
  script_rounds :: nat
  script_hash :: "byte list \<Rightarrow> byte list"
  script_config :: "party_id \<Rightarrow> net_config"
  script_memory :: "party_id \<Rightarrow> 'p data_memory"
  script_compute :: "nat \<Rightarrow> party_id \<Rightarrow> 'p data_memory \<Rightarrow> 'p data_memory"
  script_tasks :: "nat \<Rightarrow> party_id \<Rightarrow> 'p task list"

section \<open>The steps\<close>

definition check_size :: "nat \<Rightarrow> message_size \<Rightarrow> server_error option" where
  "check_size x y = (if of_nat x = y then None else Some (Size_Mismatch (of_nat x) y))"

definition copy_data :: "'p \<Rightarrow> byte list \<Rightarrow> 'p data_memory \<Rightarrow> 'p data_memory" where
  "copy_data a data M = M(a := data @ drop (length data) (M a))"

text \<open>What the buffer answers reaches the waiting tasks; a dropped channel ends its task.\<close>

fun take_answer :: "'p channel answer \<Rightarrow> 'p party_state \<Rightarrow> 'p party_state" where
  "take_answer (Answer ch d) s = s\<lparr>answered := add_mset (ch, d) (answered s)\<rparr>"
| "take_answer (Dropped ch) s = s\<lparr>awaiting := awaiting s - {#ch#}\<rparr>"

definition buffer_command :: "'p channel data_command \<Rightarrow> 'p party_state \<Rightarrow> 'p party_state" where
  "buffer_command c s =
     (let (b, answers) = buffer_step c (party_buffer s)
      in fold take_answer answers (s\<lparr>party_buffer := b\<rparr>))"

definition begin_round :: "'p script \<Rightarrow> party_id \<Rightarrow> 'p party_state \<Rightarrow> 'p party_state" where
  "begin_round S p s =
     s\<lparr>party_memory := script_compute S (party_round s) p (party_memory s),
       spawned := mset (script_tasks S (party_round s) p),
       party_round := Suc (party_round s)\<rparr>"

definition run_send :: "message \<Rightarrow> 'p \<Rightarrow> 'p party_state \<Rightarrow> 'p party_state" where
  "run_send m a s = s\<lparr>spawned := spawned s - {#Send_Task m a#}\<rparr>"

definition run_receive :: "message \<Rightarrow> 'p \<Rightarrow> 'p party_state \<Rightarrow> 'p party_state" where
  "run_receive m a s =
     buffer_command (Receive m (m, a))
       (s\<lparr>spawned := spawned s - {#Receive_Task m a#}, awaiting := add_mset (m, a) (awaiting s)\<rparr>)"

text \<open>The server logs a stream it cannot read and goes on with the next one.\<close>

definition accept_stream :: "'p script \<Rightarrow> party_id \<Rightarrow> byte list \<Rightarrow> 'p party_state \<Rightarrow> 'p party_state" where
  "accept_stream S p bytes s =
     (case read_from (script_hash S) (script_config S p) bytes of
        Inl e \<Rightarrow> s\<lparr>party_errors := e # party_errors s\<rparr>
      | Inr (m, d) \<Rightarrow>
          if is_consistency_check (msg_kind m) then s else buffer_command (Received m d) s)"

definition finish_receive :: "message \<Rightarrow> 'p \<Rightarrow> byte list \<Rightarrow> 'p party_state \<Rightarrow> 'p party_state" where
  "finish_receive m a d s =
     (let s' = s\<lparr>awaiting := awaiting s - {#(m, a)#}, answered := answered s - {#((m, a), d)#}\<rparr>
      in case check_size (length d) (msg_size m) of
           Some e \<Rightarrow> s'\<lparr>party_errors := e # party_errors s\<rparr>
         | None \<Rightarrow> s'\<lparr>party_memory := copy_data a d (party_memory s)\<rparr>)"

definition set_party :: "party_id \<Rightarrow> 'p party_state \<Rightarrow> 'p network \<Rightarrow> 'p network" where
  "set_party p s N = N\<lparr>parties := (parties N)(p := s)\<rparr>"

definition all_finished :: "'p party_state \<Rightarrow> bool" where
  "all_finished s \<longleftrightarrow> spawned s = {#} \<and> awaiting s = {#}"

inductive net_step :: "'p script \<Rightarrow> 'p network \<Rightarrow> 'p network \<Rightarrow> bool" for S where
  Begin: "p \<in> set (script_parties S) \<Longrightarrow> party_round (parties N p) < script_rounds S
    \<Longrightarrow> all_finished (parties N p)
    \<Longrightarrow> net_step S N (set_party p (begin_round S p (parties N p)) N)"
| Run_send: "p \<in> set (script_parties S) \<Longrightarrow> Send_Task m a \<in># spawned (parties N p)
    \<Longrightarrow> net_step S N
      ((set_party p (run_send m a (parties N p)) N)\<lparr>in_flight := add_mset
         (msg_receiver m,
          write_to (script_hash S) (script_config S p) m (party_memory (parties N p) a)) (in_flight N)\<rparr>)"
| Run_receive: "p \<in> set (script_parties S) \<Longrightarrow> Receive_Task m a \<in># spawned (parties N p)
    \<Longrightarrow> net_step S N (set_party p (run_receive m a (parties N p)) N)"
| Deliver: "(p, bytes) \<in># in_flight N
    \<Longrightarrow> net_step S N
      ((set_party p (accept_stream S p bytes (parties N p)) N)\<lparr>in_flight := in_flight N - {#(p, bytes)#}\<rparr>)"
| Finish_receive: "p \<in> set (script_parties S) \<Longrightarrow> ((m, a), d) \<in># answered (parties N p)
    \<Longrightarrow> (m, a) \<in># awaiting (parties N p)
    \<Longrightarrow> net_step S N (set_party p (finish_receive m a d (parties N p)) N)"

inductive_cases net_stepE: "net_step S N N'"

definition net_init :: "'p script \<Rightarrow> 'p network" where
  "net_init S = \<lparr>parties = (\<lambda>p. \<lparr>party_memory = script_memory S p, party_round = 0, spawned = {#},
     awaiting = {#}, party_buffer = buffer_init, answered = {#}, party_errors = []\<rparr>), in_flight = {#}\<rparr>"

definition net_final :: "'p script \<Rightarrow> 'p network \<Rightarrow> bool" where
  "net_final S N \<longleftrightarrow> (\<forall>p\<in>set (script_parties S).
     party_round (parties N p) = script_rounds S \<and> all_finished (parties N p))"

section \<open>Every run ends\<close>

text \<open>
  The number of steps that are left at most: a spawned task has at most three of them before it (the
  send and its delivery, or the request and its end).
\<close>

definition party_rank :: "'p script \<Rightarrow> party_id \<Rightarrow> 'p party_state \<Rightarrow> nat" where
  "party_rank S p s =
     sum_list (map (\<lambda>k. Suc (3 * length (script_tasks S k p))) [party_round s..<script_rounds S])
     + 3 * size (spawned s) + size (awaiting s)"

definition net_rank :: "'p script \<Rightarrow> 'p network \<Rightarrow> nat" where
  "net_rank S N =
     sum_list (map (\<lambda>p. party_rank S p (parties N p)) (script_parties S)) + 2 * size (in_flight N)"

lemma take_answer_simps [simp]:
  "spawned (take_answer x s) = spawned s" "party_round (take_answer x s) = party_round s"
  "party_memory (take_answer x s) = party_memory s" "party_buffer (take_answer x s) = party_buffer s"
  by (cases x; simp)+

lemma take_answers_simps [simp]:
  "spawned (fold take_answer xs s) = spawned s" "party_round (fold take_answer xs s) = party_round s"
  "party_memory (fold take_answer xs s) = party_memory s" "party_buffer (fold take_answer xs s) = party_buffer s"
  by (induction xs arbitrary: s) simp_all

lemma buffer_command_simps [simp]:
  "spawned (buffer_command c s) = spawned s" "party_round (buffer_command c s) = party_round s"
  "party_memory (buffer_command c s) = party_memory s"
  by (simp_all add: buffer_command_def Let_def split: prod.splits)

lemma take_answers_awaiting: "size (awaiting (fold take_answer xs s)) \<le> size (awaiting s)"
proof (induction xs arbitrary: s)
  case (Cons x xs)
  have "size (awaiting (take_answer x s)) \<le> size (awaiting s)"
    by (cases x) (simp_all add: size_mset_mono)
  then show ?case using Cons [of "take_answer x s"] by simp
qed simp

lemma buffer_command_awaiting: "size (awaiting (buffer_command c s)) \<le> size (awaiting s)"
proof -
  obtain b xs where "buffer_step c (party_buffer s) = (b, xs)" by fastforce
  then show ?thesis using take_answers_awaiting [of xs "s\<lparr>party_buffer := b\<rparr>"]
    by (simp add: buffer_command_def)
qed

lemma party_ranks_update:
  assumes "distinct ps" "p \<in> set ps"
  shows "sum_list (map (\<lambda>q. party_rank S q ((f(p := s)) q)) ps) + party_rank S p (f p)
    = sum_list (map (\<lambda>q. party_rank S q (f q)) ps) + party_rank S p s"
  using assms
proof (induction ps)
  case (Cons q ps)
  have "sum_list (map (\<lambda>q. party_rank S q ((f(p := s)) q)) ps) = sum_list (map (\<lambda>q. party_rank S q (f q)) ps)"
    if "p \<notin> set ps"
    using that by (intro arg_cong [where f = sum_list] map_cong) auto
  then show ?case using Cons by (cases "q = p") auto
qed simp

lemma party_rank_rounds:
  assumes "party_round s < script_rounds S"
  shows "party_rank S p s = Suc (3 * length (script_tasks S (party_round s) p))
    + sum_list (map (\<lambda>k. Suc (3 * length (script_tasks S k p))) [Suc (party_round s)..<script_rounds S])
    + 3 * size (spawned s) + size (awaiting s)"
  using assms by (simp add: party_rank_def upt_conv_Cons)

lemma net_rank_set_party:
  assumes "distinct (script_parties S)" "p \<in> set (script_parties S)"
    "party_rank S p s + 2 * size F < party_rank S p (parties N p) + 2 * size (in_flight N)"
  shows "net_rank S ((set_party p s N)\<lparr>in_flight := F\<rparr>) < net_rank S N"
  using party_ranks_update [OF assms(1,2), of S "parties N" s] assms(3)
  by (simp add: net_rank_def set_party_def)

lemma net_rank_set_party':
  assumes "distinct (script_parties S)" "p \<in> set (script_parties S)"
    "party_rank S p s < party_rank S p (parties N p)"
  shows "net_rank S (set_party p s N) < net_rank S N"
  using net_rank_set_party [OF assms(1,2), of s "in_flight N" N] assms(3) by (simp add: set_party_def)

lemma size_spawned: "x \<in># A \<Longrightarrow> Suc (size (A - {#x#})) = size A"
  by (metis insert_DiffM size_add_mset)

lemma accept_stream_rank: "party_rank S q (accept_stream S p bytes s) \<le> party_rank S q s"
  using buffer_command_awaiting
  by (auto simp: accept_stream_def party_rank_def split: sum.splits)

theorem net_rank_decreases:
  assumes "net_step S N N'" "distinct (script_parties S)"
  shows "net_rank S N' < net_rank S N"
  using assms(1)
proof cases
  case (Begin p)
  have "party_rank S p (begin_round S p (parties N p)) < party_rank S p (parties N p)"
    using Begin(3,4) unfolding party_rank_rounds [OF Begin(3)]
    by (simp add: party_rank_def begin_round_def all_finished_def)
  then show ?thesis unfolding Begin(1) by (rule net_rank_set_party' [OF assms(2) Begin(2)])
next
  case (Run_send p m a)
  have "party_rank S p (run_send m a (parties N p)) + 3 = party_rank S p (parties N p)"
    using size_spawned [OF Run_send(3)] by (simp add: party_rank_def run_send_def)
  then show ?thesis unfolding Run_send(1) by (intro net_rank_set_party [OF assms(2) Run_send(2)]) simp
next
  case (Run_receive p m a)
  let ?s = "(parties N p)\<lparr>spawned := spawned (parties N p) - {#Receive_Task m a#},
    awaiting := add_mset (m, a) (awaiting (parties N p))\<rparr>"
  have "party_rank S p (run_receive m a (parties N p)) < party_rank S p (parties N p)"
    using size_spawned [OF Run_receive(3)] buffer_command_awaiting [of "Receive m (m, a)" ?s]
    by (simp add: party_rank_def run_receive_def)
  then show ?thesis unfolding Run_receive(1) by (rule net_rank_set_party' [OF assms(2) Run_receive(2)])
next
  case (Deliver p bytes)
  let ?s = "accept_stream S p bytes (parties N p)"
  have f: "Suc (size (in_flight N - {#(p, bytes)#})) = size (in_flight N)"
    by (rule size_spawned [OF Deliver(2)])
  show ?thesis
  proof (cases "p \<in> set (script_parties S)")
    case True
    have "party_rank S p ?s + 2 * size (in_flight N - {#(p, bytes)#})
        < party_rank S p (parties N p) + 2 * size (in_flight N)"
      using accept_stream_rank [of S p p bytes "parties N p"] f by linarith
    then show ?thesis unfolding Deliver(1) by (rule net_rank_set_party [OF assms(2) True])
  next
    case False
    then have "sum_list (map (\<lambda>q. party_rank S q (((parties N)(p := ?s)) q)) (script_parties S))
        = sum_list (map (\<lambda>q. party_rank S q (parties N q)) (script_parties S))"
      by (intro arg_cong [where f = sum_list] map_cong) auto
    then show ?thesis unfolding Deliver(1) using f by (simp add: net_rank_def set_party_def)
  qed
next
  case (Finish_receive p m a d)
  have "party_rank S p (finish_receive m a d (parties N p)) < party_rank S p (parties N p)"
    using size_spawned [OF Finish_receive(4)]
    by (simp add: party_rank_def finish_receive_def Let_def split: option.splits)
  then show ?thesis unfolding Finish_receive(1) by (rule net_rank_set_party' [OF assms(2) Finish_receive(2)])
qed

end
