(* ===== verification/Net_Refine.thy ===== *)
theory Net_Refine
  imports Net_Run
begin

text \<open>
  The abstract specification of a network run, and the refinement.

  A transfer is a message with the address of its data at the sender and the address of its
  destination at the receiver.  The specification executes the script one round after the other, in
  each round first the local computations of all parties and then all transfers of the round at
  once (\<open>spec_memory\<close>): there are no tasks, no streams and no buffers.

  A script follows a plan of transfers (\<open>plan_ok\<close>) when the tasks of each party in each round are
  exactly its ends of the transfers of this round, no two messages of the run have the same metadata,
  and the data of no transfer of a round is written by another one.  Then every run of the network
  goes on until all parties are done, it ends, and the memories at the end are those of the
  specification, whatever the interleaving of tasks and the order of delivery.
\<close>

record 'p transfer =
  t_msg :: message
  t_source :: 'p
  t_target :: 'p

abbreviation t_from :: "'p transfer \<Rightarrow> party_id" where "t_from t \<equiv> msg_sender (t_msg t)"
abbreviation t_to :: "'p transfer \<Rightarrow> party_id" where "t_to t \<equiv> msg_receiver (t_msg t)"

section \<open>The specification\<close>

definition carry :: "(party_id \<Rightarrow> 'p data_memory) \<Rightarrow> 'p transfer \<Rightarrow> 'p data_memory \<Rightarrow> 'p data_memory" where
  "carry M t = copy_data (t_target t) (data_as_slice (t_msg t) (M (t_from t) (t_source t)))"

definition atomic_collective ::
  "'p transfer list \<Rightarrow> (party_id \<Rightarrow> 'p data_memory) \<Rightarrow> party_id \<Rightarrow> 'p data_memory" where
  "atomic_collective ts M p = fold (carry M) (filter (\<lambda>t. t_to t = p) ts) (M p)"

primrec spec_memory ::
  "'p script \<Rightarrow> (nat \<Rightarrow> 'p transfer list) \<Rightarrow> nat \<Rightarrow> party_id \<Rightarrow> 'p data_memory" where
  "spec_memory S L 0 = script_memory S"
| "spec_memory S L (Suc k) =
     atomic_collective (L k) (\<lambda>p. script_compute S k p (spec_memory S L k p))"

definition begun_memory ::
  "'p script \<Rightarrow> (nat \<Rightarrow> 'p transfer list) \<Rightarrow> nat \<Rightarrow> party_id \<Rightarrow> 'p data_memory" where
  "begun_memory S L k p = script_compute S k p (spec_memory S L k p)"

definition base_memory ::
  "'p script \<Rightarrow> (nat \<Rightarrow> 'p transfer list) \<Rightarrow> nat \<Rightarrow> party_id \<Rightarrow> 'p data_memory" where
  "base_memory S L k p = (case k of 0 \<Rightarrow> script_memory S p | Suc j \<Rightarrow> begun_memory S L j p)"

section \<open>Scripts that follow a plan\<close>

definition transfer_stream :: "'p script \<Rightarrow> (nat \<Rightarrow> 'p transfer list) \<Rightarrow> nat \<Rightarrow> 'p transfer \<Rightarrow> byte list" where
  "transfer_stream S L k t =
     write_to (script_hash S) (script_config S (t_from t)) (t_msg t)
       (begun_memory S L k (t_from t) (t_source t))"

definition transfer_ok :: "'p script \<Rightarrow> (nat \<Rightarrow> 'p transfer list) \<Rightarrow> nat \<Rightarrow> 'p transfer \<Rightarrow> bool" where
  "transfer_ok S L k t \<longleftrightarrow>
     t_from t \<in> set (script_parties S) \<and> t_to t \<in> set (script_parties S)
     \<and> \<not> is_consistency_check (msg_kind (t_msg t))
     \<and> trusts (script_config S (t_from t)) (script_config S (t_to t)) (t_from t)
     \<and> unat (msg_size (t_msg t)) \<le> length (begun_memory S L k (t_from t) (t_source t))
     \<and> length (transfer_stream S L k t) \<le> MESSAGE_SIZE_LIMIT"

definition send_end :: "'p transfer \<Rightarrow> 'p task" where
  "send_end t = Send_Task (t_msg t) (t_source t)"

definition receive_end :: "'p transfer \<Rightarrow> 'p task" where
  "receive_end t = Receive_Task (t_msg t) (t_target t)"

definition party_tasks :: "'p transfer list \<Rightarrow> party_id \<Rightarrow> 'p task multiset" where
  "party_tasks ts p =
     image_mset send_end (mset (filter (\<lambda>t. t_from t = p) ts))
     + image_mset receive_end (mset (filter (\<lambda>t. t_to t = p) ts))"

definition no_races :: "'p transfer list \<Rightarrow> bool" where
  "no_races ts \<longleftrightarrow> (\<forall>t\<in>set ts. \<forall>t'\<in>set ts.
     (t \<noteq> t' \<and> t_to t = t_to t' \<longrightarrow> t_target t \<noteq> t_target t')
     \<and> (t_from t = t_to t' \<longrightarrow> t_source t \<noteq> t_target t'))"

definition plan_ok :: "'p script \<Rightarrow> (nat \<Rightarrow> 'p transfer list) \<Rightarrow> bool" where
  "plan_ok S L \<longleftrightarrow>
     distinct (script_parties S)
     \<and> distinct (map t_msg (concat (map L [0..<script_rounds S])))
     \<and> (\<forall>k < script_rounds S. no_races (L k)
          \<and> (\<forall>t\<in>set (L k). transfer_ok S L k t)
          \<and> (\<forall>p\<in>set (script_parties S). mset (script_tasks S k p) = party_tasks (L k) p))"

section \<open>The rounds of a plan\<close>

text \<open>In the proofs a transfer is paired with its round.\<close>

type_synonym 'p event = "nat \<times> 'p transfer"

abbreviation e_msg :: "'p event \<Rightarrow> message" where "e_msg x \<equiv> t_msg (snd x)"
abbreviation e_from :: "'p event \<Rightarrow> party_id" where "e_from x \<equiv> t_from (snd x)"
abbreviation e_to :: "'p event \<Rightarrow> party_id" where "e_to x \<equiv> t_to (snd x)"
abbreviation e_target :: "'p event \<Rightarrow> 'p" where "e_target x \<equiv> t_target (snd x)"

definition e_channel :: "'p event \<Rightarrow> 'p channel" where
  "e_channel x = (e_msg x, e_target x)"

definition e_data :: "'p script \<Rightarrow> (nat \<Rightarrow> 'p transfer list) \<Rightarrow> 'p event \<Rightarrow> byte list" where
  "e_data S L x =
     data_as_slice (e_msg x) (begun_memory S L (fst x) (e_from x) (t_source (snd x)))"

definition e_stream :: "'p script \<Rightarrow> (nat \<Rightarrow> 'p transfer list) \<Rightarrow> 'p event \<Rightarrow> party_id \<times> byte list" where
  "e_stream S L x = (e_to x, transfer_stream S L (fst x) (snd x))"

definition events :: "'p script \<Rightarrow> (nat \<Rightarrow> 'p transfer list) \<Rightarrow> 'p event set" where
  "events S L = (SIGMA k : {..<script_rounds S}. set (L k))"

lemma finite_events [simp]: "finite (events S L)"
  by (simp add: events_def)

lemma distinct_concat_inj:
  assumes "distinct (concat (map f ks))" "k \<in> set ks" "k' \<in> set ks" "m \<in> set (f k)" "m \<in> set (f k')"
  shows "k = k'"
  using assms by (induction ks) auto

lemma distinct_concat_part: "distinct (concat (map f ks)) \<Longrightarrow> k \<in> set ks \<Longrightarrow> distinct (f k)"
  by (induction ks) auto

lemma plan_distinct_msgs: "plan_ok S L \<Longrightarrow> k < script_rounds S \<Longrightarrow> distinct (map t_msg (L k))"
  using distinct_concat_part [of "\<lambda>k. map t_msg (L k)" "[0..<script_rounds S]" k]
  by (simp add: plan_ok_def map_concat comp_def)

lemma plan_distinct: "plan_ok S L \<Longrightarrow> k < script_rounds S \<Longrightarrow> distinct (L k)"
  using plan_distinct_msgs [of S L k] by (simp add: distinct_map)

lemma events_inj:
  assumes "plan_ok S L" "x \<in> events S L" "y \<in> events S L" "e_msg x = e_msg y"
  shows "x = y"
proof -
  have d: "distinct (concat (map (\<lambda>k. map t_msg (L k)) [0..<script_rounds S]))"
    using assms(1) by (simp add: plan_ok_def map_concat comp_def)
  have x: "fst x < script_rounds S" "snd x \<in> set (L (fst x))"
    and y: "fst y < script_rounds S" "snd y \<in> set (L (fst y))"
    using assms(2,3) by (auto simp: events_def)
  have k: "fst x = fst y"
    using x y assms(4) by (intro distinct_concat_inj [OF d, of _ _ "e_msg x"]) (auto intro: rev_image_eqI)
  have "distinct (map t_msg (L (fst x)))"
    by (rule plan_distinct_msgs [OF assms(1) x(1)])
  then have "inj_on t_msg (set (L (fst x)))" by (simp add: distinct_map)
  then have "snd x = snd y" using x y k assms(4) by (auto simp: inj_on_def)
  then show ?thesis using k by (simp add: prod_eq_iff)
qed

lemma event_ok: "plan_ok S L \<Longrightarrow> x \<in> events S L \<Longrightarrow> transfer_ok S L (fst x) (snd x)"
  by (auto simp: plan_ok_def events_def)

lemma event_targets:
  assumes "plan_ok S L" "x \<in> events S L" "y \<in> events S L" "fst x = fst y" "e_to x = e_to y" "x \<noteq> y"
  shows "e_target x \<noteq> e_target y"
  using assms by (auto simp: plan_ok_def events_def no_races_def prod_eq_iff)

lemma event_sources:
  assumes "plan_ok S L" "x \<in> events S L" "y \<in> events S L" "fst x = fst y" "e_from x = e_to y"
  shows "t_source (snd x) \<noteq> e_target y"
  using assms by (auto simp: plan_ok_def events_def no_races_def)

lemma length_e_data:
  assumes "plan_ok S L" "x \<in> events S L"
  shows "length (e_data S L x) = unat (msg_size (e_msg x))"
  using event_ok [OF assms] by (simp add: e_data_def data_as_slice_def transfer_ok_def)

lemma event_read:
  assumes "plan_ok S L" "x \<in> events S L"
  shows "read_from (script_hash S) (script_config S (e_to x)) (snd (e_stream S L x))
    = Inr (e_msg x, e_data S L x)"
  using event_ok [OF assms] write_read_roundtrip
  by (simp add: transfer_ok_def e_stream_def e_data_def transfer_stream_def claimed_signer_def data_as_slice_def)

section \<open>The specification address by address\<close>

lemma carry_other: "t_target t \<noteq> a \<Longrightarrow> carry M t mem a = mem a"
  by (simp add: carry_def copy_data_def)

lemma carries_other: "a \<notin> t_target ` set ts \<Longrightarrow> fold (carry M) ts mem a = mem a"
  by (induction ts arbitrary: mem) (auto simp: carry_other)

lemma carries_target:
  assumes "distinct (map t_target ts)" "t \<in> set ts"
  shows "fold (carry M) ts mem (t_target t) = carry M t mem (t_target t)"
  using assms
proof (induction ts arbitrary: mem)
  case (Cons u ts)
  show ?case
  proof (cases "t = u")
    case True
    then show ?thesis using Cons.prems by (simp add: carries_other)
  next
    case False
    then have "t_target u \<noteq> t_target t" "t \<in> set ts" using Cons.prems by auto
    then show ?thesis using Cons by (simp add: carry_def copy_data_def)
  qed
qed simp

end
