(* ===== verification/Net_Invariant.thy ===== *)
theory Net_Invariant
  imports Net_Refine
begin

text \<open>
  The invariant behind the refinement: how far the transfers of a plan have come determines the
  state of the network.

  Each transfer of a begun round is unsent, in flight or delivered at the one end, and unrequested,
  requested or completed at the other end.  The four sets of a \<open>progress\<close> say which of these steps
  have happened; \<open>net_inv\<close> gives the tasks, the waiting receives, the contents of the message
  buffers, the streams in flight and the memories as functions of these sets.  Every step of the
  network adds a transfer to one of the sets or begins a round.
\<close>

record 'p progress =
  sent :: "'p event set"
  delivered :: "'p event set"
  requested :: "'p event set"
  completed :: "'p event set"

section \<open>What a party sees of the progress\<close>

definition unsent ::
  "'p script \<Rightarrow> (nat \<Rightarrow> 'p transfer list) \<Rightarrow> 'p progress \<Rightarrow> party_id \<Rightarrow> nat \<Rightarrow> 'p event set" where
  "unsent S L P p k = {x \<in> events S L - sent P. e_from x = p \<and> fst x < k}"

definition unrequested ::
  "'p script \<Rightarrow> (nat \<Rightarrow> 'p transfer list) \<Rightarrow> 'p progress \<Rightarrow> party_id \<Rightarrow> nat \<Rightarrow> 'p event set" where
  "unrequested S L P p k = {x \<in> events S L - requested P. e_to x = p \<and> fst x < k}"

definition pending :: "'p progress \<Rightarrow> party_id \<Rightarrow> 'p event set" where
  "pending P p = {x \<in> requested P - completed P. e_to x = p}"

definition early :: "'p progress \<Rightarrow> party_id \<Rightarrow> 'p event set" where
  "early P p = {x \<in> delivered P - requested P. e_to x = p}"

definition opened :: "'p progress \<Rightarrow> party_id \<Rightarrow> 'p event set" where
  "opened P p = {x \<in> requested P - delivered P. e_to x = p}"

definition ready :: "'p progress \<Rightarrow> party_id \<Rightarrow> 'p event set" where
  "ready P p = {x \<in> delivered P \<inter> requested P - completed P. e_to x = p}"

definition written :: "'p progress \<Rightarrow> party_id \<Rightarrow> nat \<Rightarrow> 'p event set" where
  "written P p k = {x \<in> completed P. e_to x = p \<and> Suc (fst x) = k}"

lemmas views = unsent_def unrequested_def pending_def early_def opened_def ready_def written_def

definition buffer_inv :: "'p script \<Rightarrow> (nat \<Rightarrow> 'p transfer list) \<Rightarrow> 'p progress \<Rightarrow> party_id
    \<Rightarrow> 'p channel buffer_state \<Rightarrow> bool" where
  "buffer_inv S L P p b \<longleftrightarrow>
     (\<forall>m d. message_buffer b m = Some d \<longleftrightarrow> (\<exists>x\<in>early P p. e_msg x = m \<and> e_data S L x = d))
     \<and> (\<forall>m ch. open_requests b m = Some ch \<longleftrightarrow> (\<exists>x\<in>opened P p. e_msg x = m \<and> e_channel x = ch))"

definition memory_inv :: "'p script \<Rightarrow> (nat \<Rightarrow> 'p transfer list) \<Rightarrow> 'p progress \<Rightarrow> party_id \<Rightarrow> nat
    \<Rightarrow> 'p data_memory \<Rightarrow> bool" where
  "memory_inv S L P p k M \<longleftrightarrow>
     (\<forall>x\<in>written P p k. M (e_target x)
        = e_data S L x @ drop (length (e_data S L x)) (base_memory S L k p (e_target x)))
     \<and> (\<forall>a. (\<forall>x\<in>written P p k. e_target x \<noteq> a) \<longrightarrow> M a = base_memory S L k p a)"

definition party_inv :: "'p script \<Rightarrow> (nat \<Rightarrow> 'p transfer list) \<Rightarrow> 'p progress \<Rightarrow> party_id
    \<Rightarrow> 'p party_state \<Rightarrow> bool" where
  "party_inv S L P p s \<longleftrightarrow>
     party_round s \<le> script_rounds S
     \<and> spawned s = image_mset (\<lambda>x. send_end (snd x)) (mset_set (unsent S L P p (party_round s)))
         + image_mset (\<lambda>x. receive_end (snd x)) (mset_set (unrequested S L P p (party_round s)))
     \<and> awaiting s = image_mset e_channel (mset_set (pending P p))
     \<and> buffer_inv S L P p (party_buffer s)
     \<and> answered s = image_mset (\<lambda>x. (e_channel x, e_data S L x)) (mset_set (ready P p))
     \<and> memory_inv S L P p (party_round s) (party_memory s)
     \<and> party_errors s = []"

definition progress_ok ::
  "'p script \<Rightarrow> (nat \<Rightarrow> 'p transfer list) \<Rightarrow> 'p progress \<Rightarrow> (party_id \<Rightarrow> nat) \<Rightarrow> bool" where
  "progress_ok S L P K \<longleftrightarrow>
     sent P \<subseteq> events S L \<and> requested P \<subseteq> events S L \<and> delivered P \<subseteq> sent P
     \<and> completed P \<subseteq> delivered P \<inter> requested P
     \<and> (\<forall>x\<in>sent P. fst x < K (e_from x)) \<and> (\<forall>x\<in>requested P. fst x < K (e_to x))
     \<and> (\<forall>x\<in>events S L. (Suc (fst x) < K (e_from x) \<longrightarrow> x \<in> sent P)
          \<and> (Suc (fst x) < K (e_to x) \<longrightarrow> x \<in> completed P))"

definition net_inv ::
  "'p script \<Rightarrow> (nat \<Rightarrow> 'p transfer list) \<Rightarrow> 'p progress \<Rightarrow> 'p network \<Rightarrow> bool" where
  "net_inv S L P N \<longleftrightarrow>
     progress_ok S L P (\<lambda>p. party_round (parties N p))
     \<and> (\<forall>p. party_inv S L P p (parties N p))
     \<and> in_flight N = image_mset (e_stream S L) (mset_set (sent P - delivered P))"

definition progress_init :: "'p progress" where
  "progress_init = \<lparr>sent = {}, delivered = {}, requested = {}, completed = {}\<rparr>"

lemma net_inv_init: "net_inv S L progress_init (net_init S)"
  by (simp add: net_inv_def progress_ok_def progress_init_def net_init_def party_inv_def views
      buffer_inv_def memory_inv_def buffer_init_def base_memory_def)

section \<open>Multisets of tasks\<close>

lemma image_mset_set_remove:
  assumes "finite A" "x \<in> A"
  shows "image_mset f (mset_set A) = add_mset (f x) (image_mset f (mset_set (A - {x})))"
  using assms by (simp add: mset_set.remove)

lemma image_mset_set_insert:
  assumes "finite A" "x \<notin> A"
  shows "image_mset f (mset_set (insert x A)) = add_mset (f x) (image_mset f (mset_set A))"
  using assms by simp

lemma progress_finite:
  assumes "progress_ok S L P K"
  shows "finite (sent P)" "finite (delivered P)" "finite (requested P)" "finite (completed P)"
proof -
  show s: "finite (sent P)" "finite (requested P)"
    using assms by (auto simp: progress_ok_def intro: finite_subset [OF _ finite_events])
  then show d: "finite (delivered P)" using assms by (auto simp: progress_ok_def intro: finite_subset)
  then show "finite (completed P)" using assms by (auto simp: progress_ok_def intro: finite_subset)
qed

lemma finite_views:
  assumes "progress_ok S L P K"
  shows "finite (unsent S L P p k)" "finite (unrequested S L P p k)" "finite (pending P p)"
    "finite (early P p)" "finite (opened P p)" "finite (ready P p)" "finite (written P p k)"
  using progress_finite [OF assms]
  by (auto simp: views intro: finite_subset [OF _ finite_events])

definition same_view ::
  "'p script \<Rightarrow> (nat \<Rightarrow> 'p transfer list) \<Rightarrow> 'p progress \<Rightarrow> 'p progress \<Rightarrow> party_id \<Rightarrow> bool" where
  "same_view S L P P' q \<longleftrightarrow>
     unsent S L P' q = unsent S L P q \<and> unrequested S L P' q = unrequested S L P q
     \<and> pending P' q = pending P q \<and> early P' q = early P q \<and> opened P' q = opened P q
     \<and> ready P' q = ready P q \<and> written P' q = written P q"

lemma party_inv_same_view: "same_view S L P P' q \<Longrightarrow> party_inv S L P' q s = party_inv S L P q s"
  by (simp add: same_view_def party_inv_def buffer_inv_def memory_inv_def)

lemma parties_set_party [simp]:
  "parties (set_party p s N) = (parties N)(p := s)" "in_flight (set_party p s N) = in_flight N"
  by (simp_all add: set_party_def)

text \<open>
  A step of party \<open>p\<close> that adds a transfer to the progress: the other parties see the same.
\<close>

lemma net_inv_step:
  assumes inv: "net_inv S L P N"
    and ok: "progress_ok S L P' (\<lambda>q. party_round (((parties N)(p := s)) q))"
    and other: "\<And>q. q \<noteq> p \<Longrightarrow> same_view S L P P' q"
    and own: "party_inv S L P' p s"
    and F: "F = image_mset (e_stream S L) (mset_set (sent P' - delivered P'))"
  shows "net_inv S L P' ((set_party p s N)\<lparr>in_flight := F\<rparr>)"
proof -
  have "party_inv S L P' q (((parties N)(p := s)) q)" for q
  proof (cases "q = p")
    case False
    then show ?thesis using inv party_inv_same_view [OF other [OF False]] by (simp add: net_inv_def)
  qed (simp add: own)
  then show ?thesis using ok F by (simp add: net_inv_def)
qed

lemma net_inv_step_same_flight:
  assumes "net_inv S L P N" "progress_ok S L P' (\<lambda>q. party_round (((parties N)(p := s)) q))"
    "\<And>q. q \<noteq> p \<Longrightarrow> same_view S L P P' q" "party_inv S L P' p s"
    "sent P' = sent P" "delivered P' = delivered P"
  shows "net_inv S L P' (set_party p s N)"
proof -
  have "in_flight N = image_mset (e_stream S L) (mset_set (sent P' - delivered P'))"
    using assms(1,5,6) by (simp add: net_inv_def)
  from net_inv_step [OF assms(1-4) this] show ?thesis by (simp add: set_party_def)
qed

lemma net_invD:
  assumes "net_inv S L P N"
  shows "progress_ok S L P (\<lambda>p. party_round (parties N p))" "party_inv S L P p (parties N p)"
    "in_flight N = image_mset (e_stream S L) (mset_set (sent P - delivered P))"
  using assms by (simp_all add: net_inv_def)

section \<open>Sends\<close>

lemma spawned_send:
  assumes "party_inv S L P p s" "progress_ok S L P K" "Send_Task m a \<in># spawned s"
  obtains x where "x \<in> unsent S L P p (party_round s)" "m = e_msg x" "a = t_source (snd x)"
  using assms finite_views [OF assms(2)]
  by (auto simp: party_inv_def send_end_def receive_end_def)

lemma spawned_receive:
  assumes "party_inv S L P p s" "progress_ok S L P K" "Receive_Task m a \<in># spawned s"
  obtains x where "x \<in> unrequested S L P p (party_round s)" "m = e_msg x" "a = e_target x"
  using assms finite_views [OF assms(2)]
  by (auto simp: party_inv_def send_end_def receive_end_def)

text \<open>While a round has unfinished tasks, they belong to this round.\<close>

lemma current_round:
  assumes "progress_ok S L P K" "x \<in> events S L"
  shows "fst x < K (e_from x) \<Longrightarrow> x \<notin> sent P \<Longrightarrow> Suc (fst x) = K (e_from x)"
    and "fst x < K (e_to x) \<Longrightarrow> x \<notin> completed P \<Longrightarrow> Suc (fst x) = K (e_to x)"
  using assms by (auto simp: progress_ok_def Suc_lessI)

lemma memory_at_source:
  assumes plan: "plan_ok S L" and ok: "progress_ok S L P K" and mem: "memory_inv S L P p (K p) M"
    and x: "x \<in> unsent S L P p (K p)"
  shows "M (t_source (snd x)) = begun_memory S L (fst x) p (t_source (snd x))"
proof -
  have x': "x \<in> events S L" "x \<notin> sent P" "e_from x = p" "fst x < K p"
    using x by (auto simp: unsent_def)
  then have k: "K p = Suc (fst x)" using current_round(1) [OF ok, of x] by simp
  have "e_target y \<noteq> t_source (snd x)" if "y \<in> written P p (K p)" for y
  proof -
    have "y \<in> events S L" "e_to y = p" "fst y = fst x"
      using that ok k by (auto simp: written_def progress_ok_def)
    then show ?thesis using event_sources [OF plan x'(1), of y] x'(3) by simp
  qed
  then have "M (t_source (snd x)) = base_memory S L (K p) p (t_source (snd x))"
    using mem by (simp add: memory_inv_def)
  then show ?thesis by (simp add: base_memory_def k)
qed

lemma send_preserves:
  assumes plan: "plan_ok S L" and inv: "net_inv S L P N" and "Send_Task m a \<in># spawned (parties N p)"
  shows "\<exists>P'. net_inv S L P' ((set_party p (run_send m a (parties N p)) N)\<lparr>in_flight := add_mset
         (msg_receiver m,
          write_to (script_hash S) (script_config S p) m (party_memory (parties N p) a)) (in_flight N)\<rparr>)"
proof -
  note ok = net_invD(1) [OF inv] and own = net_invD(2) [OF inv, of p]
  obtain x where x: "x \<in> unsent S L P p (party_round (parties N p))" "m = e_msg x" "a = t_source (snd x)"
    by (rule spawned_send [OF own ok assms(3)])
  have x': "x \<in> events S L" "x \<notin> sent P" "e_from x = p" "fst x < party_round (parties N p)"
    using x(1) by (auto simp: unsent_def)
  have sub: "delivered P \<subseteq> sent P" using ok by (simp add: progress_ok_def)
  let ?P = "P\<lparr>sent := insert x (sent P)\<rparr>" and ?s = "run_send m a (parties N p)"
  have "net_inv S L ?P ((set_party p ?s N)\<lparr>in_flight := add_mset
         (msg_receiver m,
          write_to (script_hash S) (script_config S p) m (party_memory (parties N p) a)) (in_flight N)\<rparr>)"
  proof (rule net_inv_step [OF inv])
    show "progress_ok S L ?P (\<lambda>q. party_round (((parties N)(p := ?s)) q))"
      using ok x' by (auto simp: progress_ok_def run_send_def)
    show "same_view S L P ?P q" if "q \<noteq> p" for q
      using that x' sub by (auto simp: same_view_def views fun_eq_iff)
    have u: "unsent S L ?P p k = unsent S L P p k - {x}" for k
      by (auto simp: unsent_def)
    have v: "unrequested S L ?P p = unrequested S L P p" "pending ?P p = pending P p"
      "early ?P p = early P p" "opened ?P p = opened P p" "ready ?P p = ready P p"
      "written ?P p = written P p"
      by (simp_all add: views fun_eq_iff)
    have "send_end (snd x) = Send_Task m a" by (simp add: send_end_def x)
    then show "party_inv S L ?P p ?s"
      using own image_mset_set_remove [OF finite_views(1) [OF ok] x(1), of "\<lambda>x. send_end (snd x)"]
      by (simp add: party_inv_def run_send_def u v buffer_inv_def memory_inv_def)
    have "party_memory (parties N p) a = begun_memory S L (fst x) p a"
      using memory_at_source [OF plan ok _ x(1)] own x(3) by (simp add: party_inv_def)
    then have "e_stream S L x = (msg_receiver m,
        write_to (script_hash S) (script_config S p) m (party_memory (parties N p) a))"
      by (simp add: e_stream_def transfer_stream_def x'(3) x(2) flip: x(3))
    moreover have "insert x (sent P) - delivered P = insert x (sent P - delivered P)"
      using x'(2) sub by auto
    ultimately show "add_mset (msg_receiver m,
          write_to (script_hash S) (script_config S p) m (party_memory (parties N p) a)) (in_flight N)
        = image_mset (e_stream S L) (mset_set (sent ?P - delivered ?P))"
      using net_invD(3) [OF inv] x'(2) progress_finite(1) [OF ok] by simp
  qed
  then show ?thesis by blast
qed

section \<open>Receives and deliveries\<close>

lemma views_events:
  assumes "progress_ok S L P K"
  shows "early P p \<subseteq> events S L" "opened P p \<subseteq> events S L"
  using assms by (auto simp: progress_ok_def early_def opened_def)

lemma buffer_invD:
  assumes "buffer_inv S L P p b"
  shows "message_buffer b m = Some d \<longleftrightarrow> (\<exists>x\<in>early P p. e_msg x = m \<and> e_data S L x = d)"
    and "open_requests b m = Some ch \<longleftrightarrow> (\<exists>x\<in>opened P p. e_msg x = m \<and> e_channel x = ch)"
  using assms unfolding buffer_inv_def by blast+

text \<open>The buffer of a party, looked up at the metadata of a transfer to it.\<close>

lemma buffer_lookup:
  assumes plan: "plan_ok S L" and ok: "progress_ok S L P K" and b: "buffer_inv S L P p b"
    and x: "x \<in> events S L" "e_to x = p"
  shows "message_buffer b (e_msg x) = (if x \<in> early P p then Some (e_data S L x) else None)"
    and "open_requests b (e_msg x) = (if x \<in> opened P p then Some (e_channel x) else None)"
proof -
  have e: "y = x" if "y \<in> early P p \<union> opened P p" "e_msg y = e_msg x" for y
    using that views_events [OF ok, of p] events_inj [OF plan _ x(1)] by blast
  show "message_buffer b (e_msg x) = (if x \<in> early P p then Some (e_data S L x) else None)"
  proof (cases "message_buffer b (e_msg x)")
    case None
    then have "x \<notin> early P p" using buffer_invD(1) [OF b, of "e_msg x" "e_data S L x"] by auto
    then show ?thesis using None by simp
  next
    case (Some d)
    then obtain y where "y \<in> early P p" "e_msg y = e_msg x" "e_data S L y = d"
      using buffer_invD(1) [OF b] by blast
    then show ?thesis using e [of y] Some by auto
  qed
  show "open_requests b (e_msg x) = (if x \<in> opened P p then Some (e_channel x) else None)"
  proof (cases "open_requests b (e_msg x)")
    case None
    then have "x \<notin> opened P p" using buffer_invD(2) [OF b, of "e_msg x" "e_channel x"] by auto
    then show ?thesis using None by simp
  next
    case (Some d)
    then obtain y where "y \<in> opened P p" "e_msg y = e_msg x" "e_channel y = d"
      using buffer_invD(2) [OF b] by blast
    then show ?thesis using e [of y] Some by auto
  qed
qed

text \<open>Removing or adding one transfer in the buffer.\<close>

lemma buffer_inv_change:
  assumes plan: "plan_ok S L" and ok: "progress_ok S L P K" and b: "buffer_inv S L P p b"
    and x: "x \<in> events S L"
    and early: "early P' p - {x} = early P p - {x}" and opened: "opened P' p - {x} = opened P p - {x}"
    and mb: "message_buffer b' = (message_buffer b)(e_msg x := if x \<in> early P' p then Some (e_data S L x) else None)"
    and rq: "open_requests b' = (open_requests b)(e_msg x := if x \<in> opened P' p then Some (e_channel x) else None)"
  shows "buffer_inv S L P' p b'"
proof -
  have e: "y = x" if "y \<in> early P' p \<union> opened P' p \<union> early P p \<union> opened P p" "e_msg y = e_msg x" for y
  proof (cases "y = x")
    case False
    then have "y \<in> early P p \<union> opened P p" using that(1) early opened by blast
    then show ?thesis using that views_events [OF ok, of p] events_inj [OF plan _ x] by blast
  qed
  show ?thesis
    unfolding buffer_inv_def
  proof (intro conjI allI)
    fix m d
    show "message_buffer b' m = Some d \<longleftrightarrow> (\<exists>y\<in>early P' p. e_msg y = m \<and> e_data S L y = d)"
    proof (cases "m = e_msg x")
      case True
      then show ?thesis using e mb by auto
    next
      case False
      then have "(\<exists>y\<in>early P' p. e_msg y = m \<and> e_data S L y = d)
          \<longleftrightarrow> (\<exists>y\<in>early P p. e_msg y = m \<and> e_data S L y = d)"
        using early by blast
      then show ?thesis using False buffer_invD(1) [OF b] mb by simp
    qed
  next
    fix m ch
    show "open_requests b' m = Some ch \<longleftrightarrow> (\<exists>y\<in>opened P' p. e_msg y = m \<and> e_channel y = ch)"
    proof (cases "m = e_msg x")
      case True
      then show ?thesis using e rq by auto
    next
      case False
      then have "(\<exists>y\<in>opened P' p. e_msg y = m \<and> e_channel y = ch)
          \<longleftrightarrow> (\<exists>y\<in>opened P p. e_msg y = m \<and> e_channel y = ch)"
        using opened by blast
      then show ?thesis using False buffer_invD(2) [OF b] rq by simp
    qed
  qed
qed

lemma receive_preserves:
  assumes plan: "plan_ok S L" and inv: "net_inv S L P N" and "Receive_Task m a \<in># spawned (parties N p)"
  shows "\<exists>P'. net_inv S L P' (set_party p (run_receive m a (parties N p)) N)"
proof -
  let ?n = "parties N p"
  note ok = net_invD(1) [OF inv] and own = net_invD(2) [OF inv, of p]
  obtain x where x: "x \<in> unrequested S L P p (party_round ?n)" "m = e_msg x" "a = e_target x"
    by (rule spawned_receive [OF own ok assms(3)])
  have x': "x \<in> events S L" "x \<notin> requested P" "e_to x = p" "fst x < party_round ?n" "x \<notin> completed P"
    using x(1) ok by (auto simp: unrequested_def progress_ok_def)
  let ?P = "P\<lparr>requested := insert x (requested P)\<rparr>" and ?s = "run_receive m a ?n"
  have buf: "buffer_inv S L P p (party_buffer ?n)" using own by (simp add: party_inv_def)
  have lookup: "message_buffer (party_buffer ?n) m = (if x \<in> delivered P then Some (e_data S L x) else None)"
    "open_requests (party_buffer ?n) m = None"
    using buffer_lookup [OF plan ok buf x'(1,3)] x' by (auto simp: x(2) early_def opened_def)
  have ch: "(m, a) = e_channel x" by (simp add: e_channel_def x)
  define B where "B = (if x \<in> delivered P
    then (party_buffer ?n)\<lparr>message_buffer := (message_buffer (party_buffer ?n))(m := None)\<rparr>
    else (party_buffer ?n)\<lparr>open_requests := (open_requests (party_buffer ?n))(m \<mapsto> (m, a))\<rparr>)"
  have s: "?s = ?n\<lparr>spawned := spawned ?n - {#Receive_Task m a#}, awaiting := add_mset (m, a) (awaiting ?n),
      party_buffer := B,
      answered := (if x \<in> delivered P then {#(e_channel x, e_data S L x)#} else {#}) + answered ?n\<rparr>"
    using lookup ch by (simp add: run_receive_def buffer_command_def B_def)
  have "net_inv S L ?P (set_party p ?s N)"
  proof (rule net_inv_step_same_flight [OF inv])
    show "progress_ok S L ?P (\<lambda>q. party_round (((parties N)(p := ?s)) q))"
      using ok x' s by (auto simp: progress_ok_def)
    show "same_view S L P ?P q" if "q \<noteq> p" for q
      using that x' by (auto simp: same_view_def views fun_eq_iff)
    have u: "unrequested S L ?P p k = unrequested S L P p k - {x}" for k
      by (auto simp: unrequested_def)
    have v: "unsent S L ?P p = unsent S L P p" "written ?P p = written P p"
      by (simp_all add: views fun_eq_iff)
    have w: "pending ?P p = insert x (pending P p)" "x \<notin> pending P p"
      "ready ?P p = (if x \<in> delivered P then insert x (ready P p) else ready P p)" "x \<notin> ready P p"
      using x' by (auto simp: views)
    have "buffer_inv S L ?P p B"
      by (rule buffer_inv_change [OF plan ok buf x'(1)])
        (use x' lookup in \<open>auto simp: early_def opened_def B_def x(2,3) e_channel_def fun_eq_iff\<close>)
    moreover have "receive_end (snd x) = Receive_Task m a" by (simp add: receive_end_def x)
    ultimately show "party_inv S L ?P p ?s"
      using own image_mset_set_remove [OF finite_views(2) [OF ok] x(1), of "\<lambda>x. receive_end (snd x)"]
        finite_views [OF ok, of p] w ch
      by (simp add: party_inv_def s u v memory_inv_def)
  qed simp_all
  then show ?thesis by blast
qed

lemma deliver_preserves:
  assumes plan: "plan_ok S L" and inv: "net_inv S L P N" and "(p, bytes) \<in># in_flight N"
  shows "\<exists>P'. net_inv S L P' ((set_party p (accept_stream S p bytes (parties N p)) N)
    \<lparr>in_flight := in_flight N - {#(p, bytes)#}\<rparr>)"
proof -
  let ?n = "parties N p"
  note ok = net_invD(1) [OF inv] and own = net_invD(2) [OF inv, of p]
  have fin: "finite (sent P - delivered P)" using progress_finite [OF ok] by simp
  obtain x where x: "x \<in> sent P - delivered P" "e_stream S L x = (p, bytes)"
    using assms(3) net_invD(3) [OF inv] fin by auto
  have x': "x \<in> events S L" "x \<notin> delivered P" "x \<notin> completed P" "e_to x = p"
    using x ok by (auto simp: progress_ok_def e_stream_def)
  let ?P = "P\<lparr>delivered := insert x (delivered P)\<rparr>" and ?s = "accept_stream S p bytes ?n"
  have buf: "buffer_inv S L P p (party_buffer ?n)" using own by (simp add: party_inv_def)
  have lookup: "open_requests (party_buffer ?n) (e_msg x) = (if x \<in> requested P then Some (e_channel x) else None)"
    using buffer_lookup(2) [OF plan ok buf x'(1,4)] x' by (auto simp: opened_def)
  define B where "B = (if x \<in> requested P
    then (party_buffer ?n)\<lparr>open_requests := (open_requests (party_buffer ?n))(e_msg x := None)\<rparr>
    else (party_buffer ?n)\<lparr>message_buffer := (message_buffer (party_buffer ?n))(e_msg x \<mapsto> e_data S L x)\<rparr>)"
  have r: "read_from (script_hash S) (script_config S p) bytes = Inr (e_msg x, e_data S L x)"
    using event_read [OF plan x'(1)] x by (simp add: x'(4))
  have "\<not> is_consistency_check (msg_kind (e_msg x))"
    using event_ok [OF plan x'(1)] by (simp add: transfer_ok_def)
  then have s: "?s = ?n\<lparr>party_buffer := B,
      answered := (if x \<in> requested P then {#(e_channel x, e_data S L x)#} else {#}) + answered ?n\<rparr>"
    using r lookup by (simp add: accept_stream_def buffer_command_def B_def)
  have "net_inv S L ?P ((set_party p ?s N)\<lparr>in_flight := in_flight N - {#(p, bytes)#}\<rparr>)"
  proof (rule net_inv_step [OF inv])
    show "progress_ok S L ?P (\<lambda>q. party_round (((parties N)(p := ?s)) q))"
      using ok x x' s by (auto simp: progress_ok_def)
    show "same_view S L P ?P q" if "q \<noteq> p" for q
      using that x' by (auto simp: same_view_def views fun_eq_iff)
    have v: "unsent S L ?P p = unsent S L P p" "unrequested S L ?P p = unrequested S L P p"
      "pending ?P p = pending P p" "written ?P p = written P p"
      by (simp_all add: views fun_eq_iff)
    have w: "ready ?P p = (if x \<in> requested P then insert x (ready P p) else ready P p)" "x \<notin> ready P p"
      using x' by (auto simp: views)
    have "buffer_inv S L ?P p B"
      by (rule buffer_inv_change [OF plan ok buf x'(1)])
        (use x' lookup buffer_lookup(1) [OF plan ok buf x'(1,4)] in \<open>auto simp: early_def opened_def B_def fun_eq_iff\<close>)
    then show "party_inv S L ?P p ?s"
      using own finite_views [OF ok, of p] w by (simp add: party_inv_def s v memory_inv_def)
    have "sent P - insert x (delivered P) = sent P - delivered P - {x}" by auto
    then show "in_flight N - {#(p, bytes)#} = image_mset (e_stream S L) (mset_set (sent ?P - delivered ?P))"
      using net_invD(3) [OF inv] image_mset_set_remove [OF fin x(1), of "e_stream S L"] x(2) by simp
  qed
  then show ?thesis by blast
qed

lemma memory_inv_write:
  assumes plan: "plan_ok S L" and ok: "progress_ok S L P K" and mem: "memory_inv S L P p k M"
    and x: "x \<in> events S L" "x \<notin> completed P" "e_to x = p" "Suc (fst x) = k"
  shows "memory_inv S L (P\<lparr>completed := insert x (completed P)\<rparr>) p k
    (copy_data (e_target x) (e_data S L x) M)"
proof -
  have w: "written (P\<lparr>completed := insert x (completed P)\<rparr>) p k = insert x (written P p k)"
    using x by (auto simp: written_def)
  have other: "e_target y \<noteq> e_target x" if "y \<in> written P p k" for y
  proof -
    have "y \<in> events S L" "e_to y = p" "fst y = fst x" "y \<noteq> x"
      using that ok x unfolding written_def progress_ok_def by auto
    then show ?thesis using event_targets [OF plan _ x(1), of y] x(3) by simp
  qed
  then have "M (e_target x) = base_memory S L k p (e_target x)"
    using mem by (simp add: memory_inv_def)
  then show ?thesis
    using mem other by (auto simp: memory_inv_def w copy_data_def)
qed

lemma finish_preserves:
  assumes plan: "plan_ok S L" and inv: "net_inv S L P N" and "((m, a), d) \<in># answered (parties N p)"
  shows "\<exists>P'. net_inv S L P' (set_party p (finish_receive m a d (parties N p)) N)"
proof -
  let ?n = "parties N p"
  note ok = net_invD(1) [OF inv] and own = net_invD(2) [OF inv, of p]
  have "answered ?n = image_mset (\<lambda>x. (e_channel x, e_data S L x)) (mset_set (ready P p))"
    using own by (simp add: party_inv_def)
  then have "((m, a), d) \<in> (\<lambda>x. (e_channel x, e_data S L x)) ` ready P p"
    using assms(3) finite_views(6) [OF ok, of p] by simp
  then obtain x where x: "x \<in> ready P p" "e_channel x = (m, a)" "e_data S L x = d" by auto
  have x': "x \<in> events S L" "x \<in> requested P" "x \<in> delivered P" "x \<notin> completed P" "e_to x = p"
    "fst x < party_round ?n" "e_msg x = m" "e_target x = a"
    using x ok by (auto simp: ready_def progress_ok_def e_channel_def)
  have k: "Suc (fst x) = party_round ?n"
    using current_round(2) [OF ok x'(1)] x' by simp
  have "check_size (length d) (msg_size m) = None"
    using length_e_data [OF plan x'(1)] x(3) x'(7) by (simp add: check_size_def)
  then have s: "finish_receive m a d ?n = ?n\<lparr>awaiting := awaiting ?n - {#(m, a)#},
      answered := answered ?n - {#((m, a), d)#}, party_memory := copy_data a d (party_memory ?n)\<rparr>"
    by (simp add: finish_receive_def Let_def)
  let ?P = "P\<lparr>completed := insert x (completed P)\<rparr>" and ?s = "finish_receive m a d ?n"
  have "net_inv S L ?P (set_party p ?s N)"
  proof (rule net_inv_step_same_flight [OF inv])
    show "progress_ok S L ?P (\<lambda>q. party_round (((parties N)(p := ?s)) q))"
      using ok x' s by (auto simp: progress_ok_def)
    show "same_view S L P ?P q" if "q \<noteq> p" for q
      using that x' by (auto simp: same_view_def views fun_eq_iff)
    have v: "unsent S L ?P p = unsent S L P p" "unrequested S L ?P p = unrequested S L P p"
      "early ?P p = early P p" "opened ?P p = opened P p"
      by (simp_all add: views fun_eq_iff)
    have w: "pending ?P p = pending P p - {x}" "ready ?P p = ready P p - {x}" "x \<in> pending P p"
      using x' by (auto simp: views)
    have "memory_inv S L ?P p (party_round ?n) (copy_data a d (party_memory ?n))"
      using memory_inv_write [OF plan ok _ x'(1,4,5) k] own x(3) x'(8) by (auto simp: party_inv_def)
    then show "party_inv S L ?P p ?s"
      using own x(2,3)
        image_mset_set_remove [OF finite_views(3) [OF ok] w(3), of e_channel]
        image_mset_set_remove [OF finite_views(6) [OF ok] x(1), of "\<lambda>x. (e_channel x, e_data S L x)"]
      by (simp add: party_inv_def s v w(1,2) buffer_inv_def)
  qed simp_all
  then show ?thesis by blast
qed

section \<open>Rounds\<close>

text \<open>
  A party whose tasks have all finished has the memory that the specification gives it: all
  transfers of the rounds it has begun are behind it.
\<close>

lemma finished_party:
  assumes inv: "net_inv S L P N" and fin: "all_finished (parties N p)"
    and x: "x \<in> events S L"
  shows "e_from x = p \<Longrightarrow> fst x < party_round (parties N p) \<Longrightarrow> x \<in> sent P"
    and "e_to x = p \<Longrightarrow> fst x < party_round (parties N p) \<Longrightarrow> x \<in> completed P"
proof -
  note ok = net_invD(1) [OF inv] and own = net_invD(2) [OF inv, of p]
  have e: "unsent S L P p (party_round (parties N p)) = {}"
    "unrequested S L P p (party_round (parties N p)) = {}" "pending P p = {}"
    using own fin finite_views [OF ok, of p]
    by (simp_all add: party_inv_def all_finished_def mset_set_empty_iff)
  show "e_from x = p \<Longrightarrow> fst x < party_round (parties N p) \<Longrightarrow> x \<in> sent P"
    using e(1) x unfolding unsent_def by blast
  assume "e_to x = p" "fst x < party_round (parties N p)"
  then have "x \<in> requested P" using e(2) x unfolding unrequested_def by blast
  then show "x \<in> completed P" using e(3) \<open>e_to x = p\<close> unfolding pending_def by blast
qed

lemma atomic_collective_at:
  assumes "plan_ok S L" "j < script_rounds S"
  shows "x \<in> events S L \<Longrightarrow> fst x = j \<Longrightarrow> e_to x = p \<Longrightarrow>
      spec_memory S L (Suc j) p (e_target x)
        = e_data S L x @ drop (length (e_data S L x)) (begun_memory S L j p (e_target x))"
    and "(\<And>x. x \<in> events S L \<Longrightarrow> fst x = j \<Longrightarrow> e_to x = p \<Longrightarrow> e_target x \<noteq> a) \<Longrightarrow>
      spec_memory S L (Suc j) p a = begun_memory S L j p a"
proof -
  let ?ts = "filter (\<lambda>t. t_to t = p) (L j)"
  have "no_races (L j)" using assms by (simp add: plan_ok_def)
  have "inj_on t_target (set ?ts)"
  proof (rule inj_onI)
    fix t t' assume t: "t \<in> set ?ts" "t' \<in> set ?ts" "t_target t = t_target t'"
    then have "t \<in> set (L j)" "t' \<in> set (L j)" "t_to t = t_to t'" by auto
    with \<open>no_races (L j)\<close> t(3) show "t = t'" unfolding no_races_def by blast
  qed
  then have d: "distinct (map t_target ?ts)"
    using plan_distinct [OF assms] by (simp add: distinct_map)
  show "spec_memory S L (Suc j) p (e_target x)
      = e_data S L x @ drop (length (e_data S L x)) (begun_memory S L j p (e_target x))"
    if "x \<in> events S L" "fst x = j" "e_to x = p"
  proof -
    have "snd x \<in> set ?ts" using that by (auto simp: events_def)
    then show ?thesis using carries_target [OF d] that
      by (simp add: atomic_collective_def carry_def copy_data_def e_data_def begun_memory_def)
  qed
  assume no: "\<And>x. x \<in> events S L \<Longrightarrow> fst x = j \<Longrightarrow> e_to x = p \<Longrightarrow> e_target x \<noteq> a"
  have "a \<notin> t_target ` set ?ts"
  proof
    assume "a \<in> t_target ` set ?ts"
    then obtain t where "t \<in> set (L j)" "t_to t = p" "a = t_target t" by auto
    then show False using no [of "(j, t)"] assms(2) by (simp add: events_def)
  qed
  then show "spec_memory S L (Suc j) p a = begun_memory S L j p a"
    by (simp add: atomic_collective_def carries_other begun_memory_def)
qed

lemma finished_memory:
  assumes plan: "plan_ok S L" and inv: "net_inv S L P N" and fin: "all_finished (parties N p)"
  shows "party_memory (parties N p) = spec_memory S L (party_round (parties N p)) p"
proof -
  note ok = net_invD(1) [OF inv] and own = net_invD(2) [OF inv, of p]
  have mem: "memory_inv S L P p (party_round (parties N p)) (party_memory (parties N p))"
    and le: "party_round (parties N p) \<le> script_rounds S"
    using own by (simp_all add: party_inv_def)
  show ?thesis
  proof (cases "party_round (parties N p)")
    case 0
    then have "written P p (party_round (parties N p)) = {}" by (auto simp: written_def)
    then show ?thesis using mem 0 by (auto simp: memory_inv_def base_memory_def fun_eq_iff)
  next
    case (Suc j)
    have w: "written P p (Suc j) = {x \<in> events S L. fst x = j \<and> e_to x = p}"
      using finished_party(2) [OF inv fin] ok Suc by (auto simp: written_def progress_ok_def)
    show ?thesis
    proof (rule ext)
      fix a
      show "party_memory (parties N p) a = spec_memory S L (party_round (parties N p)) p a"
      proof (cases "\<exists>x\<in>written P p (Suc j). e_target x = a")
        case True
        then obtain x where x: "x \<in> events S L" "fst x = j" "e_to x = p" "e_target x = a" using w by auto
        then have "x \<in> written P p (Suc j)" by (simp add: w)
        then show ?thesis
          using mem atomic_collective_at(1) [OF plan _ x(1,2,3)] x(4) le Suc
          by (auto simp: memory_inv_def base_memory_def simp del: spec_memory.simps)
      next
        case False
        then have "spec_memory S L (Suc j) p a = begun_memory S L j p a"
          using le Suc by (intro atomic_collective_at(2) [OF plan]) (auto simp: w)
        then show ?thesis using mem False Suc
          by (auto simp: memory_inv_def base_memory_def simp del: spec_memory.simps)
      qed
    qed
  qed
qed

lemma begin_preserves:
  assumes plan: "plan_ok S L" and inv: "net_inv S L P N" and p: "p \<in> set (script_parties S)"
    and k: "party_round (parties N p) < script_rounds S" and fin: "all_finished (parties N p)"
  shows "net_inv S L P (set_party p (begin_round S p (parties N p)) N)"
proof -
  let ?k = "party_round (parties N p)" and ?s = "begin_round S p (parties N p)"
  note ok = net_invD(1) [OF inv] and own = net_invD(2) [OF inv, of p]
  have tasks: "mset (script_tasks S ?k p) = party_tasks (L ?k) p"
    using plan p k by (simp add: plan_ok_def)
  have pair: "mset_set {x \<in> events S L. fst x = ?k \<and> Q (snd x)}
      = image_mset (Pair ?k) (mset (filter Q (L ?k)))" for Q
  proof -
    have "{x \<in> events S L. fst x = ?k \<and> Q (snd x)} = Pair ?k ` set (filter Q (L ?k))"
      using k by (auto simp: events_def)
    moreover have "mset_set (Pair ?k ` set (filter Q (L ?k))) = image_mset (Pair ?k) (mset_set (set (filter Q (L ?k))))"
      by (rule image_mset_mset_set [symmetric]) (simp add: inj_on_def)
    moreover have "mset_set (set (filter Q (L ?k))) = mset (filter Q (L ?k))"
      using plan_distinct [OF plan k] by (intro mset_set_set) simp
    ultimately show ?thesis by simp
  qed
  have begun: "e_from x = p \<Longrightarrow> fst x < ?k" if "x \<in> sent P" for x
    using ok that by (auto simp: progress_ok_def)
  have begun': "e_to x = p \<Longrightarrow> fst x < ?k" if "x \<in> requested P" for x
    using ok that by (auto simp: progress_ok_def)
  have compl: "x \<in> requested P" if "x \<in> completed P" for x
    using ok that by (auto simp: progress_ok_def)
  have u: "unsent S L P p (Suc ?k) = {x \<in> events S L. fst x = ?k \<and> t_from (snd x) = p}"
    "unrequested S L P p (Suc ?k) = {x \<in> events S L. fst x = ?k \<and> t_to (snd x) = p}"
  proof -
    have "x \<in> unsent S L P p (Suc ?k) \<longleftrightarrow> x \<in> events S L \<and> fst x = ?k \<and> e_from x = p" for x
    proof (cases "x \<in> events S L \<and> e_from x = p")
      case True
      then have "x \<in> sent P \<longleftrightarrow> fst x < ?k"
        using finished_party(1) [OF inv fin, of x] begun [of x] by blast
      then show ?thesis using True by (auto simp: unsent_def)
    qed (auto simp: unsent_def)
    then show "unsent S L P p (Suc ?k) = {x \<in> events S L. fst x = ?k \<and> t_from (snd x) = p}" by blast
    have "x \<in> unrequested S L P p (Suc ?k) \<longleftrightarrow> x \<in> events S L \<and> fst x = ?k \<and> e_to x = p" for x
    proof (cases "x \<in> events S L \<and> e_to x = p")
      case True
      then have "x \<in> requested P \<longleftrightarrow> fst x < ?k"
        using finished_party(2) [OF inv fin, of x] begun' [of x] compl [of x] by blast
      then show ?thesis using True by (auto simp: unrequested_def)
    qed (auto simp: unrequested_def)
    then show "unrequested S L P p (Suc ?k) = {x \<in> events S L. fst x = ?k \<and> t_to (snd x) = p}" by blast
  qed
  have spawn: "mset (script_tasks S ?k p)
      = image_mset (\<lambda>x. send_end (snd x)) (mset_set (unsent S L P p (Suc ?k)))
        + image_mset (\<lambda>x. receive_end (snd x)) (mset_set (unrequested S L P p (Suc ?k)))"
    unfolding tasks u pair [of "\<lambda>t. t_from t = p"] pair [of "\<lambda>t. t_to t = p"]
    by (simp add: party_tasks_def multiset.map_comp comp_def)
  have "x \<notin> written P p (Suc ?k)" for x
    using begun' [of x] compl [of x] unfolding written_def by auto
  then have "written P p (Suc ?k) = {}" by blast
  then have mem: "memory_inv S L P p (Suc ?k) (script_compute S ?k p (party_memory (parties N p)))"
    using finished_memory [OF plan inv fin] by (simp add: memory_inv_def base_memory_def begun_memory_def)
  show ?thesis
  proof (rule net_inv_step_same_flight [OF inv])
    show "progress_ok S L P (\<lambda>q. party_round (((parties N)(p := ?s)) q))"
      using ok finished_party [OF inv fin]
      by (auto simp: progress_ok_def begin_round_def less_SucI)
    show "party_inv S L P p ?s"
      using own k spawn mem by (simp add: party_inv_def begin_round_def)
  qed (simp_all add: same_view_def)
qed

section \<open>No run gets stuck\<close>

lemma events_parties:
  assumes "plan_ok S L" "x \<in> events S L"
  shows "e_from x \<in> set (script_parties S)" "e_to x \<in> set (script_parties S)"
  using event_ok [OF assms] by (simp_all add: transfer_ok_def)

lemma spawned_can_step:
  assumes plan: "plan_ok S L" and inv: "net_inv S L P N" and "spawned (parties N p) \<noteq> {#}"
  shows "\<exists>N'. net_step S N N'"
proof -
  note ok = net_invD(1) [OF inv] and own = net_invD(2) [OF inv, of p]
  obtain t where t: "t \<in># spawned (parties N p)" using assms(3) by (meson multiset_nonemptyE)
  show ?thesis
  proof (cases t)
    case (Send_Task m a)
    with t have s: "Send_Task m a \<in># spawned (parties N p)" by simp
    obtain x where "x \<in> unsent S L P p (party_round (parties N p))"
      by (rule spawned_send [OF own ok s])
    then have "p \<in> set (script_parties S)" using events_parties(1) [OF plan, of x] by (auto simp: unsent_def)
    then show ?thesis using net_step.Run_send [OF _ s] by blast
  next
    case (Receive_Task m a)
    with t have s: "Receive_Task m a \<in># spawned (parties N p)" by simp
    obtain x where "x \<in> unrequested S L P p (party_round (parties N p))"
      by (rule spawned_receive [OF own ok s])
    then have "p \<in> set (script_parties S)" using events_parties(2) [OF plan, of x] by (auto simp: unrequested_def)
    then show ?thesis using net_step.Run_receive [OF _ s] by blast
  qed
qed

lemma in_flight_can_step:
  assumes inv: "net_inv S L P N" and "sent P \<noteq> delivered P"
  shows "\<exists>N'. net_step S N N'"
proof -
  note ok = net_invD(1) [OF inv]
  obtain x where "x \<in> sent P - delivered P"
    using assms(2) ok by (auto simp: progress_ok_def)
  then have "e_stream S L x \<in># in_flight N"
    using net_invD(3) [OF inv] progress_finite [OF ok] by simp
  then have "(fst (e_stream S L x), snd (e_stream S L x)) \<in># in_flight N" by simp
  then show ?thesis using net_step.Deliver by blast
qed

lemma ready_can_step:
  assumes plan: "plan_ok S L" and inv: "net_inv S L P N" and x: "x \<in> ready P p"
  shows "\<exists>N'. net_step S N N'"
proof -
  note ok = net_invD(1) [OF inv] and own = net_invD(2) [OF inv, of p]
  have "x \<in> events S L" "e_to x = p" "x \<in> pending P p"
    using x ok by (auto simp: views progress_ok_def)
  then have "p \<in> set (script_parties S)" "((e_msg x, e_target x), e_data S L x) \<in># answered (parties N p)"
    "(e_msg x, e_target x) \<in># awaiting (parties N p)"
    using events_parties(2) [OF plan, of x] own x finite_views [OF ok, of p]
    by (auto simp: party_inv_def e_channel_def)
  then show ?thesis by (intro exI) (rule net_step.Finish_receive)
qed

text \<open>
  When nothing is in flight and no task can run, all parties that are not done wait for a message
  that has not been sent.  The sender of the earliest of these messages has not begun its round, and
  cannot wait for an even earlier message; so it begins its next round.
\<close>

lemma net_progress:
  assumes plan: "plan_ok S L" and inv: "net_inv S L P N" and "\<not> net_final S N"
  shows "\<exists>N'. net_step S N N'"
proof (rule ccontr)
  assume stuck: "\<nexists>N'. net_step S N N'"
  note ok = net_invD(1) [OF inv] and own = net_invD(2) [OF inv]
  let ?k = "\<lambda>p. party_round (parties N p)"
  have none: "spawned (parties N p) = {#}" "ready P p = {}" "sent P = delivered P" for p
    using stuck spawned_can_step [OF plan inv] ready_can_step [OF plan inv] in_flight_can_step [OF inv]
    by blast+
  have awaits: "\<exists>x. x \<in> pending P p"
    if "p \<in> set (script_parties S)" "?k p < script_rounds S \<or> \<not> all_finished (parties N p)" for p
  proof -
    have "\<not> all_finished (parties N p)" using stuck net_step.Begin that by blast
    then have "awaiting (parties N p) \<noteq> {#}" using none(1) by (simp add: all_finished_def)
    moreover have "awaiting (parties N p) = image_mset e_channel (mset_set (pending P p))"
      using own [of p] by (simp add: party_inv_def)
    ultimately have "pending P p \<noteq> {}" by auto
    then show ?thesis by blast
  qed
  define W where "W = requested P - completed P"
  obtain p where "p \<in> set (script_parties S)" "?k p < script_rounds S \<or> \<not> all_finished (parties N p)"
    using assms(3) own by (auto simp: net_final_def party_inv_def order_less_le)
  then have "W \<noteq> {}" using awaits by (auto simp: W_def pending_def)
  then obtain w where "w \<in> W" by blast
  from ex_has_least_nat [of "\<lambda>x. x \<in> W", OF this, of fst]
  obtain x where x: "x \<in> W" "\<And>y. y \<in> W \<Longrightarrow> fst x \<le> fst y" by blast
  have x': "x \<in> events S L" "x \<notin> sent P"
    using x(1) ok none(2) [of "e_to x"] none(3) unfolding W_def ready_def progress_ok_def by blast+
  let ?q = "e_from x"
  have "unsent S L P ?q (?k ?q) = {}"
    using none(1) [of ?q] own [of ?q] finite_views(1) [OF ok] by (simp add: party_inv_def mset_set_empty_iff)
  then have "x \<notin> unsent S L P ?q (?k ?q)" by blast
  then have "?k ?q \<le> fst x" using x' by (simp add: unsent_def)
  moreover have "fst x < script_rounds S" using x'(1) by (auto simp: events_def)
  ultimately obtain y where y: "y \<in> pending P ?q"
    using awaits [OF events_parties(1) [OF plan x'(1)]] by auto
  then have "y \<in> W" "fst y < ?k ?q"
    using ok by (auto simp: W_def pending_def progress_ok_def)
  then show False using x(2) [of y] \<open>?k ?q \<le> fst x\<close> by simp
qed

section \<open>Every run ends as the specification says\<close>

lemma step_preserves:
  assumes plan: "plan_ok S L" and inv: "net_inv S L P N" and "net_step S N N'"
  shows "\<exists>P'. net_inv S L P' N'"
  using assms(3)
proof cases
  case (Begin p)
  then show ?thesis using begin_preserves [OF plan inv] by blast
next
  case (Run_send p m a)
  show ?thesis unfolding Run_send(1) by (rule send_preserves [OF plan inv Run_send(3)])
next
  case (Run_receive p m a)
  show ?thesis unfolding Run_receive(1) by (rule receive_preserves [OF plan inv Run_receive(3)])
next
  case (Deliver p bytes)
  show ?thesis unfolding Deliver(1) by (rule deliver_preserves [OF plan inv Deliver(2)])
next
  case (Finish_receive p m a d)
  show ?thesis unfolding Finish_receive(1) by (rule finish_preserves [OF plan inv Finish_receive(3)])
qed

lemma reachable_inv:
  assumes "plan_ok S L" "(net_step S)\<^sup>*\<^sup>* (net_init S) N"
  shows "\<exists>P. net_inv S L P N"
  using assms(2)
proof (induction rule: rtranclp_induct)
  case base
  then show ?case using net_inv_init by blast
next
  case (step N N')
  then show ?case using step_preserves [OF assms(1)] by blast
qed

lemma final_state:
  assumes plan: "plan_ok S L" and inv: "net_inv S L P N" and fin: "net_final S N"
  shows "in_flight N = {#}" "p \<in> set (script_parties S) \<Longrightarrow>
    party_memory (parties N p) = spec_memory S L (script_rounds S) p \<and> party_errors (parties N p) = []"
proof -
  note ok = net_invD(1) [OF inv]
  have "x \<in> completed P" if x: "x \<in> events S L" for x
    using finished_party(2) [OF inv _ x, of "e_to x"] fin events_parties(2) [OF plan x] x
    by (auto simp: net_final_def events_def)
  then have "sent P = delivered P" using ok unfolding progress_ok_def by blast
  then show "in_flight N = {#}" using net_invD(3) [OF inv] by simp
  assume "p \<in> set (script_parties S)"
  then have "party_round (parties N p) = script_rounds S" "all_finished (parties N p)"
    using fin by (simp_all add: net_final_def)
  then show "party_memory (parties N p) = spec_memory S L (script_rounds S) p \<and> party_errors (parties N p) = []"
    using finished_memory [OF plan inv, of p] net_invD(2) [OF inv, of p] by (simp add: party_inv_def)
qed

text \<open>C5:
  Refinement of the specification.  In every state that a network can reach from its start when its
  script follows a plan, however the tasks of the parties interleave and in whichever order the
  streams arrive: unless all parties are done, some step is possible (no deadlock); every step brings
  the end nearer (the rank decreases, so every run ends); and at the end the memory of each party is
  that of the specification, which executes the rounds one after the other with all transfers of a
  round at once, no party has met an error, and no stream is left in the network.
\<close>

theorem network_refines_specification:
  assumes "plan_ok S L" "(net_step S)\<^sup>*\<^sup>* (net_init S) N"
  shows "(net_final S N \<or> (\<exists>N'. net_step S N N'))
    \<and> (\<forall>N'. net_step S N N' \<longrightarrow> net_rank S N' < net_rank S N)
    \<and> (net_final S N \<longrightarrow> in_flight N = {#} \<and> (\<forall>p\<in>set (script_parties S).
          party_memory (parties N p) = spec_memory S L (script_rounds S) p \<and> party_errors (parties N p) = []))"
proof -
  obtain P where inv: "net_inv S L P N" using reachable_inv [OF assms] by blast
  have "distinct (script_parties S)" using assms(1) by (simp add: plan_ok_def)
  then show ?thesis
    using net_progress [OF assms(1) inv] net_rank_decreases final_state [OF assms(1) inv] by blast
qed

text \<open>Two parties and one round: party 1 changes its data and sends three bytes of it to party 2.\<close>

definition example_script :: "nat script" where
  "example_script = \<lparr>script_parties = [1, 2], script_rounds = 1, script_hash = (\<lambda>x. x),
     script_config = (\<lambda>_. example_config), script_memory = (\<lambda>p a. [ucast p, 5, 6, 7]),
     script_compute = (\<lambda>k p M. M(0 := map (\<lambda>b. b + 1) (M 0))),
     script_tasks = (\<lambda>k p. if p = 1 then [Send_Task example_message 0] else [Receive_Task example_message 1])\<rparr>"

definition example_transfer :: "nat transfer" where
  "example_transfer = \<lparr>t_msg = example_message, t_source = 0, t_target = 1\<rparr>"

lemma example_plan_ok: "plan_ok example_script (\<lambda>_. [example_transfer])"
proof -
  have "length (transfer_stream example_script (\<lambda>_. [example_transfer]) 0 example_transfer) \<le> MESSAGE_SIZE_LIMIT"
    by (simp add: transfer_stream_def write_to_def Let_def header_bytes_def session_bytes_def example_config_def
        data_as_slice_def example_message_def example_script_def example_transfer_def begun_memory_def
        MESSAGE_SIZE_LIMIT_def)
  then have "transfer_ok example_script (\<lambda>_. [example_transfer]) 0 example_transfer"
    using example_trusts by (simp add: transfer_ok_def begun_memory_def example_transfer_def example_script_def
        example_message_def)
  then show ?thesis
    by (auto simp: plan_ok_def no_races_def example_transfer_def party_tasks_def send_end_def receive_end_def
        example_script_def example_message_def)
qed

theorem network_refines_specification_witness:
  "plan_ok example_script (\<lambda>_. [example_transfer])
   \<and> (\<exists>N. net_step example_script (net_init example_script) N)
   \<and> spec_memory example_script (\<lambda>_. [example_transfer]) 1 2 1 = [2, 6, 7, 7]"
proof -
  have "\<not> net_final example_script (net_init example_script)"
    by (auto simp: net_final_def net_init_def example_script_def)
  then have "\<exists>N. net_step example_script (net_init example_script) N"
    using network_refines_specification [OF example_plan_ok rtranclp.rtrancl_refl] by blast
  moreover have "spec_memory example_script (\<lambda>_. [example_transfer]) 1 2 1 = [2, 6, 7, 7]"
    by (simp add: example_script_def atomic_collective_def example_transfer_def example_message_def carry_def
        copy_data_def data_as_slice_def)
  ultimately show ?thesis using example_plan_ok by blast
qed

end
