(* ===== verification/Net_Collective.thy ===== *)
theory Net_Collective
  imports Net_Invariant
begin

text \<open>
  The collective operations as plans of transfers.

  An operation handles its messages one after the other: it draws an identifier from the counters
  and spawns the party's ends of the exchange that the message stands for.  The locale
  \<open>message_loop\<close> states what the body of such a loop does for one message; the loops of broadcast,
  gather, all-gather and all-to-all are its interpretations.  When all parties of a communicator
  call the same operation with counters that agree on the keys of its messages, they draw the same
  identifiers, and the tasks they spawn are the two ends of the same transfers.
\<close>

section \<open>Identifiers\<close>

definition bump :: "(counter_key \<Rightarrow> message_id option) \<Rightarrow> counter_key \<Rightarrow> message_id" where
  "bump c key = (case c key of Some n \<Rightarrow> n + 1 | None \<Rightarrow> 1)"

definition key_prefix :: "counter_key \<Rightarrow> message_id" where
  "key_prefix key = from_le_bytes (take 8 (snd (snd key)))"

primrec draw_ids :: "counter_key list \<Rightarrow> (counter_key \<Rightarrow> message_id option) \<Rightarrow> message_id list" where
  "draw_ids [] c = []"
| "draw_ids (key # keys) c = (key_prefix key + bump c key) # draw_ids keys (c(key \<mapsto> bump c key))"

primrec draw_counters ::
  "counter_key list \<Rightarrow> (counter_key \<Rightarrow> message_id option) \<Rightarrow> counter_key \<Rightarrow> message_id option" where
  "draw_counters [] c = c"
| "draw_counters (key # keys) c = draw_counters keys (c(key \<mapsto> bump c key))"

lemma update_counter_bump:
  "update_counter key q = (key_prefix key + bump (counters q) key,
     q\<lparr>counters := (counters q)(key \<mapsto> bump (counters q) key)\<rparr>)"
  by (simp add: update_counter_def bump_def key_prefix_def Let_def)

lemma length_draw_ids [simp]: "length (draw_ids keys c) = length keys"
  by (induction keys arbitrary: c) simp_all

lemma draw_ids_cong: "(\<And>k. k \<in> set keys \<Longrightarrow> c k = c' k) \<Longrightarrow> draw_ids keys c = draw_ids keys c'"
proof (induction keys arbitrary: c c')
  case (Cons key keys)
  have "draw_ids keys (c(key \<mapsto> bump c key)) = draw_ids keys (c'(key \<mapsto> bump c' key))"
    by (rule Cons.IH) (use Cons.prems in \<open>auto simp: bump_def\<close>)
  then show ?case using Cons.prems by (simp add: bump_def)
qed simp

lemma draw_counters_cong:
  "(\<And>k. k \<in> set keys \<Longrightarrow> c k = c' k) \<Longrightarrow> k \<in> set keys \<Longrightarrow> draw_counters keys c k = draw_counters keys c' k"
proof (induction keys arbitrary: c c')
  case (Cons key keys)
  have other: "draw_counters keys d k = d k" if "k \<notin> set keys" for d
    using that by (induction keys arbitrary: d) simp_all
  show ?case
  proof (cases "k \<in> set keys")
    case True
    then show ?thesis using Cons.prems by (simp add: bump_def) (rule Cons.IH, auto)
  next
    case False
    then show ?thesis using Cons.prems other by (auto simp: bump_def)
  qed
qed simp

text \<open>The identifiers drawn for the same key are consecutive numbers, and so different.\<close>

lemma bump_upd: "bump (c(key \<mapsto> bump c key)) k = (if k = key then bump c key + 1 else bump c k)"
  by (simp add: bump_def)

lemma draw_ids_nth:
  "j < length keys \<Longrightarrow> draw_ids keys c ! j
     = key_prefix (keys ! j) + bump c (keys ! j) + of_nat (count_list (take j keys) (keys ! j))"
proof (induction keys arbitrary: c j)
  case (Cons key keys)
  show ?case
  proof (cases j)
    case (Suc i)
    then have "draw_ids keys (c(key \<mapsto> bump c key)) ! i
        = key_prefix (keys ! i) + bump (c(key \<mapsto> bump c key)) (keys ! i)
          + of_nat (count_list (take i keys) (keys ! i))"
      by (intro Cons.IH) (use Cons.prems Suc in simp)
    then show ?thesis using Suc by (simp add: bump_upd)
  qed simp
qed simp

lemma of_nat_64_inj: "(of_nat m :: 64 word) = of_nat n \<Longrightarrow> m < 2 ^ 64 \<Longrightarrow> n < 2 ^ 64 \<Longrightarrow> m = n"
  by (simp add: word_of_nat_eq_iff take_bit_nat_eq_self)

lemma draw_ids_distinct:
  assumes "i < j" "j < length keys" "keys ! i = keys ! j" "length keys \<le> 2 ^ 64"
  shows "draw_ids keys c ! i \<noteq> draw_ids keys c ! j"
proof
  let ?n = "\<lambda>j. count_list (take j keys) (keys ! j)"
  assume "draw_ids keys c ! i = draw_ids keys c ! j"
  then have "(of_nat (?n i) :: 64 word) = of_nat (?n j)"
    using assms by (simp add: draw_ids_nth)
  moreover have "?n i < 2 ^ 64" "?n j < 2 ^ 64"
    using count_le_length [of "take i keys" "keys ! i"] count_le_length [of "take j keys" "keys ! j"] assms by simp_all
  ultimately have "?n i = ?n j" by (rule of_nat_64_inj)
  moreover obtain rest where "take j keys = take i keys @ keys ! i # rest"
    using id_take_nth_drop [of i "take j keys"] assms(1,2) by force
  then have "count_list (take j keys) (keys ! j) > count_list (take i keys) (keys ! j)"
    using assms(3) by simp
  ultimately show False using assms(3) by simp
qed

section \<open>The loop over the messages of an operation\<close>

fun count_task :: "'p task \<Rightarrow> network_statistics \<Rightarrow> network_statistics" where
  "count_task (Send_Task m a) s = s\<lparr>stat_sent := stat_sent s + msg_size m\<rparr>"
| "count_task (Receive_Task m a) s = s\<lparr>stat_received := stat_received s + msg_size m\<rparr>"

text \<open>\<open>spawns q ts q' new\<close>: from \<open>q\<close> with the tasks \<open>ts\<close> on, \<open>new\<close> tasks are spawned and counted.\<close>

definition spawns :: "queue_state \<Rightarrow> queue_state \<Rightarrow> 'p task list \<Rightarrow> (counter_key \<Rightarrow> message_id option) \<Rightarrow> bool" where
  "spawns q q' new c \<longleftrightarrow>
     queue_id q' = queue_id q \<and> counters q' = c \<and> network_stats q' = fold count_task new (network_stats q)"

definition all_tasks ::
  "('x \<Rightarrow> message_id \<Rightarrow> 'p task list) \<Rightarrow> 'x list \<Rightarrow> message_id list \<Rightarrow> 'p task list" where
  "all_tasks tasks xs ids = concat (map2 tasks xs ids)"

locale message_loop =
  fixes one :: "'x \<Rightarrow> 'p spawning \<Rightarrow> 'p spawning option"
    and key :: "'x \<Rightarrow> counter_key"
    and ok :: "party_id \<Rightarrow> 'x \<Rightarrow> bool"
    and tasks :: "party_id \<Rightarrow> 'x \<Rightarrow> message_id \<Rightarrow> 'p task list"
  assumes one: "ok (queue_id q) x \<Longrightarrow>
    \<exists>q'. one x (q, ts) = Some (q', ts @ tasks (queue_id q) x (key_prefix (key x) + bump (counters q) (key x)))
      \<and> spawns q q' (tasks (queue_id q) x (key_prefix (key x) + bump (counters q) (key x)))
          ((counters q)(key x \<mapsto> bump (counters q) (key x)))"
begin

lemma loop:
  assumes "\<And>x. x \<in> set xs \<Longrightarrow> ok (queue_id q) x"
  shows "\<exists>q'. fold_option one xs (q, ts)
      = Some (q', ts @ all_tasks (tasks (queue_id q)) xs (draw_ids (map key xs) (counters q)))
    \<and> spawns q q' (all_tasks (tasks (queue_id q)) xs (draw_ids (map key xs) (counters q)))
        (draw_counters (map key xs) (counters q))"
  using assms
proof (induction xs arbitrary: q ts)
  case Nil
  then show ?case by (simp add: spawns_def all_tasks_def)
next
  case (Cons x xs)
  let ?c = "(counters q)(key x \<mapsto> bump (counters q) (key x))"
    and ?new = "tasks (queue_id q) x (key_prefix (key x) + bump (counters q) (key x))"
  obtain q1 where q1: "one x (q, ts) = Some (q1, ts @ ?new)" "spawns q q1 ?new ?c"
    using one [of q x ts] Cons.prems by auto
  have same: "queue_id q1 = queue_id q" "counters q1 = ?c" using q1(2) by (simp_all add: spawns_def)
  obtain q2 where q2: "fold_option one xs (q1, ts @ ?new)
      = Some (q2, (ts @ ?new) @ all_tasks (tasks (queue_id q1)) xs (draw_ids (map key xs) (counters q1)))"
    "spawns q1 q2 (all_tasks (tasks (queue_id q1)) xs (draw_ids (map key xs) (counters q1)))
        (draw_counters (map key xs) (counters q1))"
    using Cons.IH [of q1 "ts @ ?new"] Cons.prems same(1) by auto
  have all: "all_tasks (tasks (queue_id q)) (x # xs) (draw_ids (map key (x # xs)) (counters q))
      = ?new @ all_tasks (tasks (queue_id q)) xs (draw_ids (map key xs) ?c)"
    by (simp add: all_tasks_def)
  show ?case
    unfolding all using q1 q2 by (intro exI [of _ q2]) (simp add: spawns_def same)
qed

end

lemma fold_option_Some: "fold_option (\<lambda>x s. Some (f x s)) xs s = Some (fold f xs s)"
  by (induction xs arbitrary: s) simp_all

section \<open>The loops of the operations\<close>

fun spawn :: "'p task \<Rightarrow> 'p spawning \<Rightarrow> 'p spawning" where
  "spawn (Send_Task m a) s = send_on m a s"
| "spawn (Receive_Task m a) s = receive_on m a s"

lemma spawn_all:
  "fold spawn new (q, ts) = (q\<lparr>network_stats := fold count_task new (network_stats q)\<rparr>, ts @ new)"
proof (induction new arbitrary: q ts)
  case (Cons t new)
  have "spawn t (q, ts) = (q\<lparr>network_stats := count_task t (network_stats q)\<rparr>, ts @ [t])"
    by (cases t) (simp_all add: send_on_def receive_on_def)
  then show ?case using Cons by simp
qed simp

lemma spawn_all_spawns:
  "\<exists>q'. fold spawn new (q\<lparr>counters := c\<rparr>, ts) = (q', ts @ new) \<and> spawns q q' new c"
  by (simp add: spawn_all spawns_def)

lemma fold_spawn_concat: "fold (\<lambda>x. fold spawn (g x)) xs s = fold spawn (concat (map g xs)) s"
  by (induction xs arbitrary: s) simp_all

lemma fold_sends: "fold (\<lambda>x. send_on (f x) (g x)) xs s = fold spawn (map (\<lambda>x. Send_Task (f x) (g x)) xs) s"
  by (induction xs arbitrary: s) simp_all

lemma fold_receives:
  "fold (\<lambda>x. receive_on (f x) (g x)) xs s = fold spawn (map (\<lambda>x. Receive_Task (f x) (g x)) xs) s"
  by (induction xs arbitrary: s) simp_all

fun broadcast_tasks :: "communicator \<Rightarrow> party_id \<Rightarrow> broadcast_metadata \<times> 'p \<Rightarrow> message_id \<Rightarrow> 'p task list" where
  "broadcast_tasks communicator p (m, data) ident =
     (if broadcast_sender m = p
      then map (\<lambda>r. Send_Task (to_message (broadcast_base m) p r ident) data)
             (filter (\<lambda>r. r \<noteq> p) communicator)
      else [Receive_Task (to_message (broadcast_base m) (broadcast_sender m) p ident) data])"

fun gather_tasks :: "communicator \<Rightarrow> party_id \<Rightarrow> gather_metadata \<times> 'p list \<Rightarrow> message_id \<Rightarrow> 'p task list" where
  "gather_tasks communicator p (m, row) ident =
     (if gather_receiver m = p
      then map (\<lambda>(s, data). Receive_Task (to_message (gather_base m) s p ident) data)
             (filter (\<lambda>(s, _). s \<noteq> p) (zip communicator row))
      else [Send_Task (to_message (gather_base m) p (gather_receiver m) ident) (row ! 0)])"

fun all_gather_tasks ::
  "communicator \<Rightarrow> communicator \<Rightarrow> party_id \<Rightarrow> all_gather_metadata \<times> 'p list \<Rightarrow> message_id \<Rightarrow> 'p task list" where
  "all_gather_tasks senders receivers p (m, row) ident =
     concat (map (\<lambda>(s, data).
       if s = p
       then map (\<lambda>r. Send_Task (to_message (all_gather_base m) s r ident) data)
              (filter (\<lambda>r. r \<noteq> p) receivers)
       else [Receive_Task (to_message (all_gather_base m) s p ident) data]) (zip senders row))"

fun all_to_all_tasks ::
  "communicator \<Rightarrow> party_id \<Rightarrow> all_to_all_metadata \<times> 'p list \<times> 'p list \<Rightarrow> message_id \<Rightarrow> 'p task list" where
  "all_to_all_tasks communicator p (m, send_row, receive_row) ident =
     concat (map (\<lambda>(q, send_data, receive_data).
       if q \<noteq> p
       then [Send_Task (to_message (all_to_all_base m) p q ident) send_data,
             Receive_Task (to_message (all_to_all_base m) q p ident) receive_data]
       else []) (zip communicator (zip send_row receive_row)))"

interpretation broadcast_loop: message_loop
  "\<lambda>x s. Some (broadcast_one sha communicator x s)"
  "\<lambda>x. counter_key_of sha (broadcast_base (fst x)) communicator communicator"
  "\<lambda>_ _. True" "broadcast_tasks communicator"
  for sha communicator
proof unfold_locales
  fix q :: queue_state and x :: "broadcast_metadata \<times> 'p" and ts :: "'p task list"
  obtain m d where x: "x = (m, d)" by (cases x)
  let ?key = "counter_key_of sha (broadcast_base (fst x)) communicator communicator"
  let ?c = "(counters q)(?key \<mapsto> bump (counters q) ?key)"
  let ?new = "broadcast_tasks communicator (queue_id q) x (key_prefix ?key + bump (counters q) ?key)"
  have "broadcast_one sha communicator x (q, ts) = fold spawn ?new (q\<lparr>counters := ?c\<rparr>, ts)"
    by (simp add: x broadcast_one_def next_message_id_def extended_next_message_id_def
        update_counter_bump fold_sends Let_def split: prod.splits)
  then show "\<exists>q'. Some (broadcast_one sha communicator x (q, ts)) = Some (q', ts @ ?new) \<and> spawns q q' ?new ?c"
    using spawn_all_spawns [where new = ?new and q = q and c = ?c and ts = ts] by simp
qed

interpretation gather_loop: message_loop
  "gather_one sha communicator"
  "\<lambda>x. counter_key_of sha (gather_base (fst x)) communicator communicator"
  "\<lambda>p x. length (snd x) = (if gather_receiver (fst x) = p then length communicator else 1)"
  "gather_tasks communicator"
  for sha communicator
proof unfold_locales
  fix q :: queue_state and x :: "gather_metadata \<times> 'p list" and ts :: "'p task list"
  assume ok: "length (snd x) = (if gather_receiver (fst x) = queue_id q then length communicator else 1)"
  obtain m row where x: "x = (m, row)" by (cases x)
  let ?key = "counter_key_of sha (gather_base (fst x)) communicator communicator"
  let ?c = "(counters q)(?key \<mapsto> bump (counters q) ?key)"
  let ?new = "gather_tasks communicator (queue_id q) x (key_prefix ?key + bump (counters q) ?key)"
  have "gather_one sha communicator x (q, ts) = Some (fold spawn ?new (q\<lparr>counters := ?c\<rparr>, ts))"
    using ok by (simp add: x gather_one_def next_message_id_def extended_next_message_id_def
        update_counter_bump fold_receives Let_def case_prod_unfold)
  then show "\<exists>q'. gather_one sha communicator x (q, ts) = Some (q', ts @ ?new) \<and> spawns q q' ?new ?c"
    using spawn_all_spawns [where new = ?new and q = q and c = ?c and ts = ts] by simp
qed

interpretation all_gather_loop: message_loop
  "\<lambda>x s. Some (all_gather_one sha senders receivers x s)"
  "\<lambda>x. counter_key_of sha (all_gather_base (fst x)) senders receivers"
  "\<lambda>_ _. True" "all_gather_tasks senders receivers"
  for sha senders receivers
proof unfold_locales
  fix q :: queue_state and x :: "all_gather_metadata \<times> 'p list" and ts :: "'p task list"
  obtain m row where x: "x = (m, row)" by (cases x)
  let ?key = "counter_key_of sha (all_gather_base (fst x)) senders receivers"
  let ?c = "(counters q)(?key \<mapsto> bump (counters q) ?key)" and ?i = "key_prefix ?key + bump (counters q) ?key"
  let ?new = "all_gather_tasks senders receivers (queue_id q) x ?i"
  let ?part = "\<lambda>(s, data). if s = queue_id q
       then map (\<lambda>r. Send_Task (to_message (all_gather_base m) s r ?i) data)
              (filter (\<lambda>r. r \<noteq> queue_id q) receivers)
       else [Receive_Task (to_message (all_gather_base m) s (queue_id q) ?i) data]"
  have body: "(\<lambda>(s, data) state. if s = queue_id q
          then fold (\<lambda>r. send_on (to_message (all_gather_base m) s r ?i) data)
               (filter (\<lambda>party. party \<noteq> queue_id q) receivers) state
          else receive_on (to_message (all_gather_base m) s (queue_id q) ?i) data state)
      = (\<lambda>y. fold spawn (?part y))"
    by (simp add: fun_eq_iff fold_sends)
  have "all_gather_one sha senders receivers x (q, ts)
      = fold (\<lambda>y. fold spawn (?part y)) (zip senders row) (q\<lparr>counters := ?c\<rparr>, ts)"
    unfolding body [symmetric] unfolding x fst_conv
    by (simp add: all_gather_one_def extended_next_message_id_def update_counter_bump)
  then have "all_gather_one sha senders receivers x (q, ts) = fold spawn ?new (q\<lparr>counters := ?c\<rparr>, ts)"
    unfolding x fst_conv fold_spawn_concat all_gather_tasks.simps .
  then show "\<exists>q'. Some (all_gather_one sha senders receivers x (q, ts)) = Some (q', ts @ ?new) \<and> spawns q q' ?new ?c"
    using spawn_all_spawns [where new = ?new and q = q and c = ?c and ts = ts] by simp
qed

interpretation all_to_all_loop: message_loop
  "\<lambda>x s. Some (all_to_all_one sha communicator x s)"
  "\<lambda>x. counter_key_of sha (all_to_all_base (fst x)) communicator communicator"
  "\<lambda>_ _. True" "all_to_all_tasks communicator"
  for sha communicator
proof unfold_locales
  fix q :: queue_state and x :: "all_to_all_metadata \<times> 'p list \<times> 'p list" and ts :: "'p task list"
  obtain m send_row receive_row where x: "x = (m, send_row, receive_row)" by (cases x)
  let ?key = "counter_key_of sha (all_to_all_base (fst x)) communicator communicator"
  let ?c = "(counters q)(?key \<mapsto> bump (counters q) ?key)" and ?i = "key_prefix ?key + bump (counters q) ?key"
  let ?new = "all_to_all_tasks communicator (queue_id q) x ?i"
  let ?part = "\<lambda>(r, send_data, receive_data). if r \<noteq> queue_id q
       then [Send_Task (to_message (all_to_all_base m) (queue_id q) r ?i) send_data,
             Receive_Task (to_message (all_to_all_base m) r (queue_id q) ?i) receive_data]
       else []"
  have body: "(\<lambda>(r, send_data, receive_data) state. if r \<noteq> queue_id q
          then receive_on (to_message (all_to_all_base m) r (queue_id q) ?i) receive_data
                 (send_on (to_message (all_to_all_base m) (queue_id q) r ?i) send_data state)
          else state)
      = (\<lambda>y. fold spawn (?part y))"
    by (simp add: fun_eq_iff)
  have "all_to_all_one sha communicator x (q, ts)
      = fold (\<lambda>y. fold spawn (?part y)) (zip communicator (zip send_row receive_row)) (q\<lparr>counters := ?c\<rparr>, ts)"
    unfolding body [symmetric] unfolding x fst_conv
    by (simp add: all_to_all_one_def next_message_id_def extended_next_message_id_def update_counter_bump)
  then have "all_to_all_one sha communicator x (q, ts) = fold spawn ?new (q\<lparr>counters := ?c\<rparr>, ts)"
    unfolding x fst_conv fold_spawn_concat all_to_all_tasks.simps .
  then show "\<exists>q'. Some (all_to_all_one sha communicator x (q, ts)) = Some (q', ts @ ?new) \<and> spawns q q' ?new ?c"
    using spawn_all_spawns [where new = ?new and q = q and c = ?c and ts = ts] by simp
qed

end
