(* ===== verification/Net_Exchange.thy ===== *)
theory Net_Exchange
  imports Net_Collective
begin

text \<open>
  The two ends of a collective operation meet.

  A message of an operation stands for an exchange: pairs of a sender and a receiver with the
  addresses of the data at both.  Broadcasts are stars around their sender, gathers are stars around
  their receiver, an all-gather is a star for each sender and an all-to-all has a star for each party.
  The lemmas show that the tasks which the loops of \<open>Net_Collective\<close> spawn at a party are its ends
  of the transfers, that no two transfers of an operation have the same metadata, and what the
  memory is after all transfers.
\<close>

record 'p exchange =
  ex_base :: base_message
  ex_pairs :: "(party_id \<times> party_id \<times> 'p \<times> 'p) list"

fun pair_transfer :: "base_message \<Rightarrow> message_id \<Rightarrow> party_id \<times> party_id \<times> 'p \<times> 'p \<Rightarrow> 'p transfer" where
  "pair_transfer b ident (s, r, source, target) =
     \<lparr>t_msg = to_message b s r ident, t_source = source, t_target = target\<rparr>"

definition exchange_transfers :: "'p exchange \<Rightarrow> message_id \<Rightarrow> 'p transfer list" where
  "exchange_transfers e ident = map (pair_transfer (ex_base e) ident) (ex_pairs e)"

definition collective_plan :: "'p exchange list \<Rightarrow> message_id list \<Rightarrow> 'p transfer list" where
  "collective_plan es ids = concat (map2 exchange_transfers es ids)"

definition star ::
  "party_id \<Rightarrow> communicator \<Rightarrow> (party_id \<Rightarrow> 'p) \<Rightarrow> (party_id \<Rightarrow> 'p)
   \<Rightarrow> (party_id \<times> party_id \<times> 'p \<times> 'p) list" where
  "star s receivers source target =
     map (\<lambda>r. (s, r, source r, target r)) (filter (\<lambda>r. r \<noteq> s) receivers)"

definition costar ::
  "party_id \<Rightarrow> communicator \<Rightarrow> (party_id \<Rightarrow> 'p) \<Rightarrow> (party_id \<Rightarrow> 'p)
   \<Rightarrow> (party_id \<times> party_id \<times> 'p \<times> 'p) list" where
  "costar r senders source target =
     map (\<lambda>s. (s, r, source s, target s)) (filter (\<lambda>s. s \<noteq> r) senders)"

section \<open>The ends of a star\<close>

lemma to_message_simps [simp]:
  "msg_sender (to_message b s r i) = s" "msg_receiver (to_message b s r i) = r"
  "msg_id (to_message b s r i) = i" "msg_size (to_message b s r i) = base_size b"
  "msg_kind (to_message b s r i) = base_kind b" "msg_datatype (to_message b s r i) = base_datatype b"
  by (simp_all add: to_message_def)

lemma party_tasks_append: "party_tasks (ts @ ts') p = party_tasks ts p + party_tasks ts' p"
  by (simp add: party_tasks_def)

lemma party_tasks_concat: "party_tasks (concat tss) p = sum_list (map (\<lambda>ts. party_tasks ts p) tss)"
proof (induction tss)
  case Nil
  then show ?case by (simp add: party_tasks_def)
next
  case (Cons ts tss)
  then show ?case by (simp add: party_tasks_append)
qed

lemma filter_eq_single: "distinct xs \<Longrightarrow> p \<in> set xs \<Longrightarrow> filter (\<lambda>x. x = p) xs = [p]"
  by (induction xs) (auto simp: filter_empty_conv)

lemma star_tasks:
  assumes "distinct receivers" "p \<in> set receivers"
  shows "party_tasks (map (pair_transfer b ident) (star s receivers source target)) p
    = mset (if s = p
        then map (\<lambda>r. Send_Task (to_message b s r ident) (source r)) (filter (\<lambda>r. r \<noteq> p) receivers)
        else [Receive_Task (to_message b s p ident) (target p)])"
proof (cases "s = p")
  case True
  then show ?thesis
    by (simp add: party_tasks_def star_def comp_def filter_map send_end_def multiset.map_comp
        flip: mset_filter)
next
  case False
  have "filter (\<lambda>r. r = p \<and> r \<noteq> s) receivers = filter (\<lambda>r. r = p) receivers"
    by (rule filter_cong) (use False in auto)
  note this [unfolded filter_eq_single [OF assms]]
  then show ?thesis using False
    by (simp add: party_tasks_def star_def comp_def filter_map receive_end_def conj_commute flip: mset_filter)
qed

lemma costar_tasks:
  assumes "distinct senders" "p \<in> set senders"
  shows "party_tasks (map (pair_transfer b ident) (costar r senders source target)) p
    = mset (if r = p
        then map (\<lambda>s. Receive_Task (to_message b s r ident) (target s)) (filter (\<lambda>s. s \<noteq> p) senders)
        else [Send_Task (to_message b p r ident) (source p)])"
proof (cases "r = p")
  case True
  then show ?thesis
    by (simp add: party_tasks_def costar_def comp_def filter_map receive_end_def multiset.map_comp
        flip: mset_filter)
next
  case False
  have "filter (\<lambda>s. s = p \<and> s \<noteq> r) senders = filter (\<lambda>s. s = p) senders"
    by (rule filter_cong) (use False in auto)
  note this [unfolded filter_eq_single [OF assms]]
  then show ?thesis using False
    by (simp add: party_tasks_def costar_def comp_def filter_map send_end_def conj_commute flip: mset_filter)
qed

section \<open>The exchanges of the operations\<close>

text \<open>
  The pointers of an operation are given for each party: \<open>D p\<close> is the pointer, or the row of
  pointers, that party \<open>p\<close> hands to its queue for one message.
\<close>

definition lookup :: "communicator \<Rightarrow> 'p list \<Rightarrow> party_id \<Rightarrow> 'p" where
  "lookup communicator row p = the (map_of (zip communicator row) p)"

definition broadcast_exchange ::
  "communicator \<Rightarrow> broadcast_metadata \<Rightarrow> (party_id \<Rightarrow> 'p) \<Rightarrow> 'p exchange" where
  "broadcast_exchange communicator m D =
     \<lparr>ex_base = broadcast_base m,
      ex_pairs = star (broadcast_sender m) communicator (\<lambda>_. D (broadcast_sender m)) D\<rparr>"

definition gather_exchange ::
  "communicator \<Rightarrow> gather_metadata \<Rightarrow> (party_id \<Rightarrow> 'p list) \<Rightarrow> 'p exchange" where
  "gather_exchange communicator m D =
     \<lparr>ex_base = gather_base m,
      ex_pairs = costar (gather_receiver m) communicator (\<lambda>s. D s ! 0)
        (lookup communicator (D (gather_receiver m)))\<rparr>"

definition all_gather_exchange ::
  "communicator \<Rightarrow> communicator \<Rightarrow> all_gather_metadata \<Rightarrow> (party_id \<Rightarrow> 'p list) \<Rightarrow> 'p exchange" where
  "all_gather_exchange senders receivers m D =
     \<lparr>ex_base = all_gather_base m,
      ex_pairs = concat (map (\<lambda>j.
        star (senders ! j) receivers (\<lambda>_. D (senders ! j) ! j) (\<lambda>r. D r ! j)) [0..<length senders])\<rparr>"

definition all_to_all_exchange ::
  "communicator \<Rightarrow> all_to_all_metadata \<Rightarrow> (party_id \<Rightarrow> 'p list) \<Rightarrow> (party_id \<Rightarrow> 'p list) \<Rightarrow> 'p exchange" where
  "all_to_all_exchange communicator m A D =
     \<lparr>ex_base = all_to_all_base m,
      ex_pairs = concat (map (\<lambda>j.
        star (communicator ! j) communicator (lookup communicator (A (communicator ! j))) (\<lambda>r. D r ! j))
        [0..<length communicator])\<rparr>"

lemma broadcast_ends:
  assumes "distinct communicator" "p \<in> set communicator"
  shows "mset (broadcast_tasks communicator p (m, D p) ident)
    = party_tasks (exchange_transfers (broadcast_exchange communicator m D) ident) p"
  unfolding exchange_transfers_def broadcast_exchange_def exchange.select_convs star_tasks [OF assms]
  by simp

lemma lookup_zip:
  assumes "distinct c" "length row = length c"
  shows "map (\<lambda>s. f s (lookup c row s)) (filter P c) = map (\<lambda>(s, d). f s d) (filter (\<lambda>(s, _). P s) (zip c row))"
proof -
  have l: "lookup c row s = d" if "(s, d) \<in> set (zip c row)" for s d
    using that assms by (simp add: lookup_def map_of_eq_Some_iff)
  have c: "map fst (zip c row) = c" using assms(2) by simp
  have "map (\<lambda>s. f s (lookup c row s)) (filter P (map fst (zip c row)))
      = map (\<lambda>x. f (fst x) (lookup c row (fst x))) (filter (\<lambda>x. P (fst x)) (zip c row))"
    by (simp add: filter_map comp_def)
  also have "\<dots> = map (\<lambda>(s, d). f s d) (filter (\<lambda>(s, _). P s) (zip c row))"
    using l by (intro map_cong filter_cong) (auto simp: case_prod_unfold)
  finally show ?thesis unfolding c .
qed

lemma gather_ends:
  assumes "distinct communicator" "p \<in> set communicator"
    "length (D p) = (if gather_receiver m = p then length communicator else 1)"
  shows "mset (gather_tasks communicator p (m, D p) ident)
    = party_tasks (exchange_transfers (gather_exchange communicator m D) ident) p"
proof (cases "gather_receiver m = p")
  case True
  have "map (\<lambda>s. Receive_Task (to_message (gather_base m) s p ident) (lookup communicator (D p) s))
        (filter (\<lambda>s. s \<noteq> p) communicator)
      = map (\<lambda>(s, d). Receive_Task (to_message (gather_base m) s p ident) d)
        (filter (\<lambda>(s, _). s \<noteq> p) (zip communicator (D p)))"
    by (rule lookup_zip) (use assms True in auto)
  then show ?thesis
    unfolding exchange_transfers_def gather_exchange_def exchange.select_convs costar_tasks [OF assms(1,2)]
    by (simp add: True)
next
  case False
  then show ?thesis
    unfolding exchange_transfers_def gather_exchange_def exchange.select_convs costar_tasks [OF assms(1,2)]
    by simp
qed

lemma mset_concat: "mset (concat xss) = sum_list (map mset xss)"
  by (induction xss) simp_all

lemma zip_nth: "length row = length c \<Longrightarrow> zip c row = map (\<lambda>j. (c ! j, row ! j)) [0..<length c]"
  by (rule nth_equalityI) simp_all

lemma all_gather_ends:
  assumes "distinct receivers" "p \<in> set receivers" "length (D p) = length senders"
  shows "mset (all_gather_tasks senders receivers p (m, D p) ident)
    = party_tasks (exchange_transfers (all_gather_exchange senders receivers m D) ident) p"
  by (simp add: all_gather_exchange_def exchange_transfers_def map_concat party_tasks_concat comp_def
      star_tasks [OF assms(1,2)] mset_concat zip_nth [OF assms(3)])
    (intro arg_cong [where f = sum_list] map_cong refl, auto)

lemma map_lookup:
  assumes "distinct c" "length row = length c"
  shows "map (\<lambda>j. f (c ! j) (row ! j)) [0..<length c] = map (\<lambda>r. f r (lookup c row r)) c"
  using lookup_zip [OF assms, of f "\<lambda>_. True"] by (simp add: zip_nth [OF assms(2)] comp_def)

lemma lookup_nth: "distinct c \<Longrightarrow> length row = length c \<Longrightarrow> j < length c \<Longrightarrow> lookup c row (c ! j) = row ! j"
  using map_of_zip_nth [of c row j] by (simp add: lookup_def)

lemma sum_list_split_at:
  assumes "distinct c" "p \<in> set c"
  shows "sum_list (map (\<lambda>r. if r = p then Z else f r) c)
    = Z + sum_list (map (\<lambda>r. if r = p then 0 else f r) c :: 'b::comm_monoid_add list)"
  using assms
proof (induction c)
  case (Cons x c)
  show ?case
  proof (cases "x = p")
    case True
    then have "sum_list (map (\<lambda>r. if r = p then Z else f r) c) = sum_list (map (\<lambda>r. if r = p then 0 else f r) c)"
      using Cons.prems by (intro arg_cong [where f = sum_list] map_cong) auto
    then show ?thesis using True by simp
  next
    case False
    then show ?thesis using Cons by (simp add: ac_simps)
  qed
qed simp

lemma mset_map_filter:
  "mset (map f (filter (\<lambda>r. r \<noteq> p) c)) = sum_list (map (\<lambda>r. if r = p then {#} else {#f r#}) c)"
  by (induction c) simp_all

lemma all_to_all_ends:
  assumes "distinct communicator" "p \<in> set communicator"
    "length (A p) = length communicator" "length (D p) = length communicator"
  shows "mset (all_to_all_tasks communicator p (m, A p, D p) ident)
    = party_tasks (exchange_transfers (all_to_all_exchange communicator m A D) ident) p"
proof -
  let ?c = communicator and ?send = "\<lambda>r. Send_Task (to_message (all_to_all_base m) p r ident) (lookup communicator (A p) r)"
    and ?receive = "\<lambda>r. Receive_Task (to_message (all_to_all_base m) r p ident) (lookup communicator (D p) r)"
  have zip3: "zip ?c (zip (A p) (D p)) = map (\<lambda>j. (?c ! j, A p ! j, D p ! j)) [0..<length ?c]"
    using assms(3,4) by (intro nth_equalityI) simp_all
  have "mset (all_to_all_tasks ?c p (m, A p, D p) ident)
      = sum_list (map (\<lambda>j. if ?c ! j = p then {#} else {#?send (?c ! j)#} + {#?receive (?c ! j)#}) [0..<length ?c])"
    unfolding all_to_all_tasks.simps mset_concat zip3
    by (simp add: comp_def) (intro arg_cong [where f = sum_list] map_cong refl,
      use lookup_nth [OF assms(1,3)] lookup_nth [OF assms(1,4)] in auto)
  also have "\<dots> = sum_list (map (\<lambda>r. if r = p then {#} else {#?send r#} + {#?receive r#}) (map ((!) ?c) [0..<length ?c]))"
    by (simp only: map_map comp_def)
  also have "\<dots> = sum_list (map (\<lambda>r. (if r = p then {#} else {#?send r#}) + (if r = p then {#} else {#?receive r#})) ?c)"
    unfolding map_nth by (intro arg_cong [where f = sum_list] map_cong) auto
  also have "\<dots> = mset (map ?send (filter (\<lambda>r. r \<noteq> p) ?c)) + sum_list (map (\<lambda>r. if r = p then {#} else {#?receive r#}) ?c)"
    by (simp only: sum_list_addf mset_map_filter)
  also have "\<dots> = sum_list (map (\<lambda>r. if r = p then mset (map ?send (filter (\<lambda>r. r \<noteq> p) ?c)) else {#?receive r#}) ?c)"
    using sum_list_split_at [OF assms(1,2), of "mset (map ?send (filter (\<lambda>r. r \<noteq> p) ?c))" "\<lambda>r. {#?receive r#}"]
    by (simp only: zero_multiset_def [symmetric])
  also have "\<dots> = sum_list (map (\<lambda>j. if ?c ! j = p then mset (map ?send (filter (\<lambda>r. r \<noteq> p) ?c))
      else {#?receive (?c ! j)#}) [0..<length ?c])"
    by (subst (2) map_nth [symmetric]) (simp only: map_map comp_def)
  also have "\<dots> = party_tasks (exchange_transfers (all_to_all_exchange ?c m A D) ident) p"
    unfolding all_to_all_exchange_def exchange_transfers_def exchange.select_convs map_concat map_map comp_def
      party_tasks_concat star_tasks [OF assms(1,2)]
    by (intro arg_cong [where f = sum_list] map_cong refl) (use lookup_nth [OF assms(1,4)] in auto)
  finally show ?thesis .
qed

end
