(* ===== verification/Net_Plan.thy ===== *)
theory Net_Plan
  imports Net_Exchange
begin

text \<open>
  One collective operation as a network run.

  When all parties of a communicator call an operation, their tasks are the two ends of its
  exchanges.  Under conditions on the exchanges (no two messages with the same metadata, no two
  transfers to one address, no transfer from an address that another one writes) the run follows
  the plan of the exchanges, so it ends, and each target holds the data of its source.
\<close>

definition collective_script ::
  "communicator \<Rightarrow> (byte list \<Rightarrow> byte list) \<Rightarrow> (party_id \<Rightarrow> net_config) \<Rightarrow> (party_id \<Rightarrow> 'p data_memory)
   \<Rightarrow> (party_id \<Rightarrow> 'p task list) \<Rightarrow> 'p script" where
  "collective_script c hash config memory tasks =
     \<lparr>script_parties = c, script_rounds = 1, script_hash = hash, script_config = config,
      script_memory = memory, script_compute = (\<lambda>_ _ M. M), script_tasks = (\<lambda>_. tasks)\<rparr>"

lemma collective_script_simps [simp]:
  "script_parties (collective_script c hash config memory tasks) = c"
  "script_rounds (collective_script c hash config memory tasks) = 1"
  "script_hash (collective_script c hash config memory tasks) = hash"
  "script_config (collective_script c hash config memory tasks) = config"
  "script_memory (collective_script c hash config memory tasks) = memory"
  "script_compute (collective_script c hash config memory tasks) = (\<lambda>_ _ M. M)"
  "script_tasks (collective_script c hash config memory tasks) = (\<lambda>_. tasks)"
  by (simp_all add: collective_script_def)

text \<open>
  The pairs of the exchanges of a list, numbered: exchange \<open>g\<close> has the base message of \<open>es ! g\<close>.
\<close>

type_synonym 'p pair = "party_id \<times> party_id \<times> 'p \<times> 'p"

definition numbered_pairs :: "'p exchange list \<Rightarrow> (nat \<times> 'p pair) set" where
  "numbered_pairs es = (SIGMA g : {..<length es}. set (ex_pairs (es ! g)))"

definition pairs_ok :: "communicator \<Rightarrow> 'p exchange list \<Rightarrow> bool" where
  "pairs_ok c es \<longleftrightarrow>
     (\<forall>e\<in>set es. distinct (map (\<lambda>(s, r, _). (s, r)) (ex_pairs e)))
     \<and> (\<forall>(g, s, r, a, b)\<in>numbered_pairs es. s \<in> set c \<and> r \<in> set c
         \<and> (\<forall>(g', s', r', a', b')\<in>numbered_pairs es.
              (r = r' \<and> b = b' \<longrightarrow> g = g' \<and> s = s') \<and> (s = r' \<longrightarrow> a \<noteq> b')))"

definition messages_differ :: "'p exchange list \<Rightarrow> message_id list \<Rightarrow> bool" where
  "messages_differ es ids \<longleftrightarrow> (\<forall>h < length es. \<forall>g < h.
     ids ! g = ids ! h \<longrightarrow> base_datatype (ex_base (es ! g)) \<noteq> base_datatype (ex_base (es ! h)))"

text \<open>The data of a pair: there are as many bytes as the metadata says, and they fit a message.\<close>

definition pair_data_ok :: "(party_id \<Rightarrow> 'p data_memory) \<Rightarrow> base_message \<Rightarrow> 'p pair \<Rightarrow> bool" where
  "pair_data_ok memory b = (\<lambda>(s, r, source, target).
     \<not> is_consistency_check (base_kind b)
     \<and> base_size b = of_nat (length (memory s source))
     \<and> length (memory r target) = length (memory s source)
     \<and> 96 + length (memory s source) \<le> MESSAGE_SIZE_LIMIT)"

section \<open>The plan of the exchanges\<close>

lemma distinct_concat_map:
  assumes "distinct xs" "\<And>x. x \<in> set xs \<Longrightarrow> distinct (f x)"
    "\<And>x y. x \<in> set xs \<Longrightarrow> y \<in> set xs \<Longrightarrow> x \<noteq> y \<Longrightarrow> set (f x) \<inter> set (f y) = {}"
  shows "distinct (concat (map f xs))"
  using assms
proof (induction xs)
  case (Cons x xs)
  have "set (f x) \<inter> set (f y) = {}" if "y \<in> set xs" for y
    using Cons.prems(1) that by (intro Cons.prems(3)) auto
  then have "set (f x) \<inter> set (concat (map f xs)) = {}" by auto
  moreover have "distinct (concat (map f xs))" by (rule Cons.IH) (use Cons.prems in auto)
  moreover have "distinct (f x)" using Cons.prems(2) by simp
  ultimately show ?case by simp
qed simp

lemma collective_plan_nth:
  "length ids = length es \<Longrightarrow> collective_plan es ids
     = concat (map (\<lambda>g. exchange_transfers (es ! g) (ids ! g)) [0..<length es])"
  unfolding collective_plan_def by (rule arg_cong [where f = concat]) (rule nth_equalityI, simp_all)

lemma pair_transfer_msg:
  "t_msg (pair_transfer b ident x) = to_message b (fst x) (fst (snd x)) ident"
  by (cases x) simp

lemma in_collective_plan:
  assumes "length ids = length es"
  shows "t \<in> set (collective_plan es ids)
    \<longleftrightarrow> (\<exists>(g, x)\<in>numbered_pairs es. t = pair_transfer (ex_base (es ! g)) (ids ! g) x)"
proof -
  have "t \<in> set (concat (map (\<lambda>g. map (f g) (xs g)) [0..<n])) \<longleftrightarrow> (\<exists>(g, x)\<in>(SIGMA g : {..<n}. set (xs g)). t = f g x)"
    for t and f :: "nat \<Rightarrow> 'p pair \<Rightarrow> 'p transfer" and xs n
    by auto
  then show ?thesis
    unfolding collective_plan_nth [OF assms] numbered_pairs_def exchange_transfers_def .
qed

lemma to_message_inj:
  "to_message b s r i = to_message b' s' r' i' \<Longrightarrow> s = s' \<and> r = r' \<and> i = i' \<and> base_datatype b = base_datatype b'"
  by (simp add: to_message_def)

lemma distinct_plan_messages:
  assumes "length ids = length es" "messages_differ es ids" "pairs_ok c es"
  shows "distinct (map t_msg (collective_plan es ids))"
proof -
  let ?f = "\<lambda>g. map (\<lambda>(s, r, _). to_message (ex_base (es ! g)) s r (ids ! g)) (ex_pairs (es ! g))"
  have f: "map t_msg (exchange_transfers (es ! g) (ids ! g)) = ?f g" for g
    by (simp add: exchange_transfers_def comp_def case_prod_unfold pair_transfer_msg)
  have "distinct (concat (map ?f [0..<length es]))"
  proof (rule distinct_concat_map)
    fix g assume "g \<in> set [0..<length es]"
    then have "distinct (map (\<lambda>(s, r, _). (s, r)) (ex_pairs (es ! g)))"
      using assms(3) by (simp add: pairs_ok_def)
    moreover have "?f g = map (\<lambda>(s, r). to_message (ex_base (es ! g)) s r (ids ! g))
        (map (\<lambda>(s, r, _). (s, r)) (ex_pairs (es ! g)))"
      by (simp add: comp_def case_prod_unfold)
    moreover have "inj (\<lambda>(s, r). to_message (ex_base (es ! g)) s r (ids ! g))"
      by (auto simp: inj_def dest: to_message_inj)
    ultimately show "distinct (?f g)" by (simp only: distinct_map) (blast intro: inj_on_subset)
  next
    fix g h assume gh: "g \<in> set [0..<length es]" "h \<in> set [0..<length es]" "g \<noteq> h"
    have "\<not> (ids ! g = ids ! h \<and> base_datatype (ex_base (es ! g)) = base_datatype (ex_base (es ! h)))"
      using assms(2) [unfolded messages_differ_def, rule_format, of h g]
        assms(2) [unfolded messages_differ_def, rule_format, of g h] gh
      by (cases g h rule: linorder_cases) auto
    then show "set (?f g) \<inter> set (?f h) = {}" by (auto dest: to_message_inj)
  qed simp
  then show ?thesis
    unfolding collective_plan_nth [OF assms(1)] map_concat map_map comp_def f .
qed

lemma plan_no_races:
  assumes "length ids = length es" "pairs_ok c es"
  shows "no_races (collective_plan es ids)"
  unfolding no_races_def
proof (intro ballI conjI impI)
  fix t t' assume "t \<in> set (collective_plan es ids)" "t' \<in> set (collective_plan es ids)"
  then obtain g s r a b g' s' r' a' b' where
    x: "(g, s, r, a, b) \<in> numbered_pairs es" "t = pair_transfer (ex_base (es ! g)) (ids ! g) (s, r, a, b)"
    and y: "(g', s', r', a', b') \<in> numbered_pairs es" "t' = pair_transfer (ex_base (es ! g')) (ids ! g') (s', r', a', b')"
    unfolding in_collective_plan [OF assms(1)] by fast
  have ok: "r = r' \<and> b = b' \<longrightarrow> g = g' \<and> s = s'" "s = r' \<longrightarrow> a \<noteq> b'"
    using assms(2) x(1) y(1) unfolding pairs_ok_def by fast+
  show "t_source t \<noteq> t_target t'" if "t_from t = t_to t'" using that ok(2) x(2) y(2) by simp
  assume ne: "t \<noteq> t' \<and> t_to t = t_to t'"
  show "t_target t \<noteq> t_target t'"
  proof
    assume "t_target t = t_target t'"
    then have same: "r = r'" "b = b'" "g = g'" "s = s'" using ok(1) ne x(2) y(2) by auto
    have mem: "(s, r, a, b) \<in> set (ex_pairs (es ! g))" "(s, r, a', b) \<in> set (ex_pairs (es ! g))"
      using x(1) y(1) same by (auto simp: numbered_pairs_def)
    have "distinct (map (\<lambda>(s, r, _). (s, r)) (ex_pairs (es ! g)))"
      using assms(2) x(1) by (simp add: pairs_ok_def numbered_pairs_def)
    then have "inj_on (\<lambda>(s, r, _). (s, r)) (set (ex_pairs (es ! g)))" by (simp add: distinct_map)
    from inj_onD [OF this _ mem] have "a = a'" by simp
    then show False using ne x(2) y(2) same by simp
  qed
qed

section \<open>The run of the operation\<close>

lemma length_header: "length (header_bytes c m) \<le> 32"
  by (simp add: header_bytes_def session_bytes_def split: option.splits)

lemma length_write_to:
  assumes "trusts c c' p"
  shows "length (write_to hash c m region) \<le> 96 + length region"
proof -
  have "length (case cfg_signing_key c of None \<Rightarrow> [] | Some sign \<Rightarrow> sign (header_bytes c m @ hash (data_as_slice m region))) \<le> 64"
    using assms by (auto simp: trusts_def SIGNATURE_SIZE_def split: option.splits)
  moreover have "length (data_as_slice m region) \<le> length region" by (simp add: data_as_slice_def)
  ultimately show ?thesis
    unfolding write_to_def Let_def length_append using length_header [of c m] by linarith
qed

lemma unat_data_length: "x \<le> MESSAGE_SIZE_LIMIT \<Longrightarrow> unat (of_nat x :: message_size) = x"
  by (simp add: unat_of_nat MESSAGE_SIZE_LIMIT_def)

lemma collective_plan_ok:
  assumes c: "distinct c" and ids: "length ids = length es" "messages_differ es ids" and pairs: "pairs_ok c es"
    and data: "\<And>g x. (g, x) \<in> numbered_pairs es \<Longrightarrow> pair_data_ok memory (ex_base (es ! g)) x"
    and trust: "\<And>s r. s \<in> set c \<Longrightarrow> r \<in> set c \<Longrightarrow> trusts (config s) (config r) s"
    and tasks: "\<And>p. p \<in> set c \<Longrightarrow> mset (tasks p) = party_tasks (collective_plan es ids) p"
  shows "plan_ok (collective_script c hash config memory tasks) (\<lambda>_. collective_plan es ids)"
proof -
  let ?S = "collective_script c hash config memory tasks"
  have "transfer_ok ?S (\<lambda>_. collective_plan es ids) 0 t" if t: "t \<in> set (collective_plan es ids)" for t
  proof -
    obtain g s r a b where x: "(g, s, r, a, b) \<in> numbered_pairs es"
        "t = pair_transfer (ex_base (es ! g)) (ids ! g) (s, r, a, b)"
      using t unfolding in_collective_plan [OF ids(1)] by fast
    have sr: "s \<in> set c" "r \<in> set c" using pairs x(1) unfolding pairs_ok_def by fast+
    note d = data [OF x(1), unfolded pair_data_ok_def, simplified]
    have "length (write_to hash (config s) (t_msg t) (memory s a)) \<le> MESSAGE_SIZE_LIMIT"
      using length_write_to [OF trust [OF sr], of hash "t_msg t" "memory s a"] d by linarith
    then show ?thesis
      using sr trust [OF sr] d x(2) unat_data_length [of "length (memory s a)"]
      by (simp add: transfer_ok_def transfer_stream_def begun_memory_def)
  qed
  then show ?thesis
    using c distinct_plan_messages [OF ids pairs] plan_no_races [OF ids(1) pairs] tasks
    by (simp add: plan_ok_def)
qed

text \<open>What the run of a network is to achieve: it always ends, and then \<open>result\<close> holds.\<close>

definition every_run_ends_with :: "'p script \<Rightarrow> ((party_id \<Rightarrow> 'p data_memory) \<Rightarrow> bool) \<Rightarrow> bool" where
  "every_run_ends_with S result \<longleftrightarrow>
     (\<forall>N. (net_step S)\<^sup>*\<^sup>* (net_init S) N \<longrightarrow>
        (net_final S N \<or> (\<exists>N'. net_step S N N'))
        \<and> (\<forall>N'. net_step S N N' \<longrightarrow> net_rank S N' < net_rank S N)
        \<and> (net_final S N \<longrightarrow> (\<forall>p\<in>set (script_parties S). party_errors (parties N p) = [])
             \<and> result (\<lambda>p. party_memory (parties N p))))"

lemma every_run_ends_with_plan:
  assumes "plan_ok S L" "result (spec_memory S L (script_rounds S))"
    and local: "\<And>M M'. (\<And>p. p \<in> set (script_parties S) \<Longrightarrow> M p = M' p) \<Longrightarrow> result M \<Longrightarrow> result M'"
  shows "every_run_ends_with S result"
  unfolding every_run_ends_with_def
proof (intro allI impI)
  fix N assume N: "(net_step S)\<^sup>*\<^sup>* (net_init S) N"
  obtain P where inv: "net_inv S L P N" using reachable_inv [OF assms(1) N] by blast
  have "distinct (script_parties S)" using assms(1) by (simp add: plan_ok_def)
  moreover have "result (\<lambda>p. party_memory (parties N p))" if "net_final S N"
    by (rule local [OF _ assms(2)]) (simp add: final_state(2) [OF assms(1) inv that])
  ultimately show "(net_final S N \<or> (\<exists>N'. net_step S N N'))
        \<and> (\<forall>N'. net_step S N N' \<longrightarrow> net_rank S N' < net_rank S N)
        \<and> (net_final S N \<longrightarrow> (\<forall>p\<in>set (script_parties S). party_errors (parties N p) = [])
             \<and> result (\<lambda>p. party_memory (parties N p)))"
    using net_progress [OF assms(1) inv] net_rank_decreases final_state(2) [OF assms(1) inv] by blast
qed

lemma atomic_target:
  assumes "distinct ts" "no_races ts" "t \<in> set ts"
  shows "atomic_collective ts M (t_to t) (t_target t) = carry M t (M (t_to t)) (t_target t)"
proof -
  have "distinct (map t_target (filter (\<lambda>u. t_to u = t_to t) ts))"
    unfolding distinct_map
  proof (intro conjI inj_onI)
    fix x y assume "x \<in> set (filter (\<lambda>u. t_to u = t_to t) ts)" "y \<in> set (filter (\<lambda>u. t_to u = t_to t) ts)"
      "t_target x = t_target y"
    then have "x \<in> set ts" "y \<in> set ts" "t_to x = t_to y" "t_target x = t_target y" by simp_all
    then show "x = y" using assms(2) unfolding no_races_def by blast
  qed (use assms(1) in simp)
  then show ?thesis using assms(3) by (simp add: atomic_collective_def carries_target)
qed

text \<open>After the transfers of the exchanges each target has the data of its source.\<close>

definition exchanged ::
  "communicator \<Rightarrow> 'p exchange list \<Rightarrow> (party_id \<Rightarrow> 'p data_memory) \<Rightarrow> (party_id \<Rightarrow> 'p data_memory) \<Rightarrow> bool" where
  "exchanged c es memory M \<longleftrightarrow>
     (\<forall>(g, s, r, a, b)\<in>numbered_pairs es. M r b = memory s a)
     \<and> (\<forall>p\<in>set c. \<forall>x. (\<forall>(g, s, r, a, b)\<in>numbered_pairs es. r = p \<longrightarrow> b \<noteq> x) \<longrightarrow> M p x = memory p x)"

lemma collective_run:
  assumes c: "distinct c" and ids: "length ids = length es" "messages_differ es ids" and pairs: "pairs_ok c es"
    and data: "\<And>g x. (g, x) \<in> numbered_pairs es \<Longrightarrow> pair_data_ok memory (ex_base (es ! g)) x"
    and trust: "\<And>s r. s \<in> set c \<Longrightarrow> r \<in> set c \<Longrightarrow> trusts (config s) (config r) s"
    and tasks: "\<And>p. p \<in> set c \<Longrightarrow> mset (tasks p) = party_tasks (collective_plan es ids) p"
  shows "every_run_ends_with (collective_script c hash config memory tasks) (exchanged c es memory)"
proof (rule every_run_ends_with_plan [OF collective_plan_ok [OF assms]])
  let ?ts = "collective_plan es ids"
  let ?M = "atomic_collective ?ts memory"
  have spec: "spec_memory (collective_script c hash config memory tasks) (\<lambda>_. ?ts) 1 = ?M"
    by simp
  have d: "distinct ?ts" "no_races ?ts"
    using distinct_plan_messages [OF ids pairs] plan_no_races [OF ids(1) pairs] by (simp_all add: distinct_map)
  have "?M r b = memory s a" if x: "(g, s, r, a, b) \<in> numbered_pairs es" for g s r a b
  proof -
    let ?t = "pair_transfer (ex_base (es ! g)) (ids ! g) (s, r, a, b)"
    have "?t \<in> set ?ts" unfolding in_collective_plan [OF ids(1)] using x by fast
    from atomic_target [OF d this, of memory]
    show ?thesis using data [OF x] unat_data_length [of "length (memory s a)"]
      by (simp add: carry_def copy_data_def data_as_slice_def pair_data_ok_def)
  qed
  moreover have "?M p x = memory p x"
    if "\<forall>(g, s, r, a, b)\<in>numbered_pairs es. r = p \<longrightarrow> b \<noteq> x" for p x
  proof -
    have "x \<notin> t_target ` set (filter (\<lambda>t. t_to t = p) ?ts)"
      using that in_collective_plan [OF ids(1)] by fastforce
    then show ?thesis by (simp add: atomic_collective_def carries_other)
  qed
  ultimately show "exchanged c es memory (spec_memory (collective_script c hash config memory tasks) (\<lambda>_. ?ts)
      (script_rounds (collective_script c hash config memory tasks)))"
    unfolding collective_script_simps spec exchanged_def by blast
next
  fix M M' assume same: "\<And>p. p \<in> set (script_parties (collective_script c hash config memory tasks)) \<Longrightarrow> M p = M' p"
    and M: "exchanged c es memory M"
  have "M' r b = memory s a" if x: "(g, s, r, a, b) \<in> numbered_pairs es" for g s r a b
  proof -
    have "r \<in> set c" using pairs x unfolding pairs_ok_def by fast
    then have "M r = M' r" using same by simp
    moreover have "M r b = memory s a" using M x unfolding exchanged_def by fast
    ultimately show ?thesis by simp
  qed
  moreover have "M' p x = memory p x"
    if "p \<in> set c" "\<forall>(g, s, r, a, b)\<in>numbered_pairs es. r = p \<longrightarrow> b \<noteq> x" for p x
  proof -
    have "M p x = memory p x" using M that unfolding exchanged_def by blast
    then show ?thesis using same [of p] that(1) by simp
  qed
  ultimately show "exchanged c es memory M'" unfolding exchanged_def by blast
qed

end
