(* ===== verification/Net_Pointers.thy ===== *)
theory Net_Pointers
  imports Net_Operations Net_Plan
begin

text \<open>
  What the C++ side hands to the foreign functions, and what these make of it.

  The accessors and pointers of an operation are a row for each field of its values: field \<open>j\<close> of
  the storage \<open>t\<close> has the cells \<open>(t, j, k)\<close> for all slots \<open>k\<close>.  The foreign functions accept what the
  operations hand over, and spawn the tasks of the loops of \<open>Net_Collective\<close>.
\<close>

section \<open>The cells of an operation\<close>

primrec cells_from :: "nat \<Rightarrow> struct list \<Rightarrow> (nat \<times> nat) list" where
  "cells_from t [] = []"
| "cells_from t (v # vs) = map (Pair t) [0..<structure_fields v] @ cells_from (Suc t) vs"

definition cell_rows :: "(nat \<Rightarrow> nat \<Rightarrow> nat \<Rightarrow> address) \<Rightarrow> nat \<Rightarrow> struct list \<Rightarrow> address list list" where
  "cell_rows cell n vs = map (\<lambda>(t, j). map (cell t j) [0..<n]) (cells_from 0 vs)"

lemma length_cells_from [simp]: "length (cells_from t vs) = structure_fields_of vs"
  by (induction vs arbitrary: t) simp_all

lemma length_cell_rows [simp]: "length (cell_rows cell n vs) = structure_fields_of vs"
  by (simp add: cell_rows_def)

lemma cells_from_iff:
  "(t', j) \<in> set (cells_from t vs) \<longleftrightarrow> t \<le> t' \<and> t' < t + length vs \<and> j < structure_fields (vs ! (t' - t))"
proof (induction vs arbitrary: t)
  case (Cons v vs)
  show ?case
  proof (cases "t' = t")
    case True
    then show ?thesis using Cons.IH [of "Suc t"] by auto
  next
    case False
    have "t' - t = Suc (t' - Suc t)" if "Suc t \<le> t'" using that by simp
    then show ?thesis using Cons.IH [of "Suc t"] False by auto
  qed
qed simp

lemma distinct_cells_from: "distinct (cells_from t vs)"
  by (induction vs arbitrary: t) (auto simp: distinct_map inj_on_def cells_from_iff)

lemma leaves_of_cells: "leaves_of vs = map (\<lambda>(t', j). leaves (vs ! (t' - t)) ! j) (cells_from t vs)"
proof (induction vs arbitrary: t)
  case (Cons v vs)
  have "leaves v = map (\<lambda>j. leaves v ! j) [0..<structure_fields v]"
    by (rule nth_equalityI) simp_all
  moreover have "map (\<lambda>(t', j). leaves ((v # vs) ! (t' - t)) ! j) (cells_from (Suc t) vs) = leaves_of vs"
    unfolding Cons.IH [of "Suc t"]
  proof (rule map_cong [OF refl], clarify)
    fix t' j assume "(t', j) \<in> set (cells_from (Suc t) vs)"
    then have "Suc t \<le> t'" by (simp add: cells_from_iff)
    then have "t' - t = Suc (t' - Suc t)" by simp
    then show "leaves ((v # vs) ! (t' - t)) ! j = leaves (vs ! (t' - Suc t)) ! j" by simp
  qed
  ultimately show ?case by (simp add: comp_def)
qed simp

section \<open>Accessors and pointers\<close>

lemma length_party_accessors [simp]: "length (party_accessors i c cell) = length c"
  by (simp add: party_accessors_def)

lemma party_accessors_ptrs: "map make_data_ptr (party_accessors i c cell) = map Some (map cell [0..<length c])"
  by (simp add: party_accessors_def make_data_ptr_def make_accessor_def)

lemma structure_fields_Field: "\<not> is_structure v \<Longrightarrow> structure_fields v = 1"
  by (cases v) simp_all

lemma accessors_for_parties_cells:
  assumes "\<forall>st\<in>set sts. length st = length c" "j < structure_fields_of (map hd sts)"
  shows "accessors_for_parties i c cell j t sts
    = Some (case cells_from t (map hd sts) ! j of (t', j') \<Rightarrow> party_accessors i c (cell t' j'))"
  using assms
proof (induction sts arbitrary: j t)
  case (Cons st sts)
  show ?case
  proof (cases "is_structure (hd st)")
    case True
    then show ?thesis using Cons by (auto simp: nth_append)
  next
    case False
    then show ?thesis using Cons structure_fields_Field [OF False]
      by (auto simp: nth_append make_accessors_def)
  qed
qed simp

lemma cells_from_fields:
  "\<forall>v\<in>set vs. \<not> is_structure v \<Longrightarrow> cells_from t vs = map (\<lambda>t. (t, 0)) [t..<t + length vs]"
proof (induction vs arbitrary: t)
  case (Cons v vs)
  have "[t..<t + length (v # vs)] = t # [Suc t..<Suc t + length vs]"
    using upt_conv_Cons [of t "t + length (v # vs)"] by (simp del: upt_Suc)
  moreover have "cells_from (Suc t) vs = map (\<lambda>t. (t, 0)) [Suc t..<Suc t + length vs]"
    by (rule Cons.IH) (use Cons.prems in simp)
  ultimately show ?case using Cons.prems by (simp add: structure_fields_Field upt_rec [of 0 "Suc 0"] del: upt_Suc)
qed simp

lemma make_multi_accessors_cells:
  assumes "\<forall>st\<in>set sts. length st = length c"
  shows "make_multi_accessors i c cell sts
    = Some (map (\<lambda>(t, j). party_accessors i c (cell t j)) (cells_from 0 (map hd sts)))"
proof (cases "\<exists>st\<in>set sts. is_structure (hd st)")
  case True
  have n: "sum_list (map (\<lambda>st. structure_fields (hd st)) sts) = structure_fields_of (map hd sts)"
    by (simp add: structure_fields_of_def comp_def)
  have "map (\<lambda>j. accessors_for_parties i c cell j 0 sts) [0..<structure_fields_of (map hd sts)]
      = map Some (map (\<lambda>(t, j). party_accessors i c (cell t j)) (cells_from 0 (map hd sts)))"
    by (rule nth_equalityI) (simp_all add: accessors_for_parties_cells [OF assms] case_prod_unfold)
  then show ?thesis
    using True by (simp only: make_multi_accessors_def n collect_option_Some if_True)
next
  case False
  have "map (\<lambda>t. case make_accessors i c (cell t) (sts ! t) of
               Some (Single_Accessors as) \<Rightarrow> Some as | _ \<Rightarrow> None) [0..<length sts]
      = map Some (map (\<lambda>(t, j). party_accessors i c (cell t j)) (cells_from 0 (map hd sts)))"
    using False assms cells_from_fields [of "map hd sts" 0]
    by (intro nth_equalityI) (auto simp: make_accessors_def)
  then show ?thesis using False by (simp only: make_multi_accessors_def collect_option_Some if_False)
qed

lemma multi_pointers:
  assumes "\<forall>st\<in>set sts. length st = length c'" "length c = length c'"
  shows "Option.bind (make_multi_accessors i c' cell sts) (make_multi_data_ptrs c)
    = Some (map (map Some) (cell_rows cell (length c) (map hd sts)))"
proof -
  have "make_data_ptrs c (party_accessors i c' (cell t j)) = Some (map Some (map (cell t j) [0..<length c]))" for t j
    using assms(2) party_accessors_ptrs [of i c' "cell t j"] by (simp add: make_data_ptrs_def del: map_map)
  then have "map (make_data_ptrs c) (map (\<lambda>(t, j). party_accessors i c' (cell t j)) (cells_from 0 (map hd sts)))
      = map Some (map (map Some) (cell_rows cell (length c) (map hd sts)))"
    by (simp add: cell_rows_def case_prod_unfold)
  then show ?thesis
    by (simp only: make_multi_accessors_cells [OF assms(1)] bind.bind_lunit make_multi_data_ptrs_def collect_option_Some)
qed

section \<open>Two dimensional spans\<close>

lemma chunks_exact_concat:
  assumes "\<forall>row\<in>set rows. length row = n" "n \<noteq> 0"
  shows "chunks_exact n (concat rows) = rows"
  using assms(1)
proof (induction rows)
  case Nil
  then show ?case using assms(2) by (simp add: chunks_exact.simps [of n "[]"])
next
  case (Cons row rows)
  then show ?case using assms(2) by (simp add: chunks_exact.simps [of n "row @ concat rows"])
qed

lemma to_2d_ffi_rows:
  assumes "rows \<noteq> []" "\<forall>row\<in>set rows. length row = n" "n \<noteq> 0"
  shows "to_non_null_vec2d (to_2d_ffi (map (map Some) rows)) = Some (to_2d_ffi rows)"
    and "vec2d_rows (to_2d_ffi rows) = Some rows"
    and "inner_extent (to_2d_ffi rows) = n" "outer_extent (to_2d_ffi rows) = length rows"
proof -
  obtain row rest where rows: "rows = row # rest" using assms(1) by (cases rows) auto
  show n: "inner_extent (to_2d_ffi rows) = n" "outer_extent (to_2d_ffi rows) = length rows"
    using assms(2) by (simp_all add: to_2d_ffi_def rows)
  show "vec2d_rows (to_2d_ffi rows) = Some rows"
    using assms n chunks_exact_concat [OF assms(2,3)] by (simp add: vec2d_rows_def) (simp add: to_2d_ffi_def)
  have "concat (map (map Some) rows) = map Some (concat rows)" by (simp add: map_concat)
  then show "to_non_null_vec2d (to_2d_ffi (map (map Some) rows)) = Some (to_2d_ffi rows)"
    using assms by (auto simp: to_non_null_vec2d_def to_2d_ffi_def rows)
qed

section \<open>What the foreign functions spawn\<close>

definition all_gather_keys ::
  "(byte list \<Rightarrow> byte list) \<Rightarrow> communicator \<Rightarrow> all_gather_metadata list \<Rightarrow> counter_key list" where
  "all_gather_keys sha c ms = map (\<lambda>m. counter_key_of sha (all_gather_base m) c c) ms"

definition all_to_all_keys ::
  "(byte list \<Rightarrow> byte list) \<Rightarrow> communicator \<Rightarrow> all_to_all_metadata list \<Rightarrow> counter_key list" where
  "all_to_all_keys sha c ms = map (\<lambda>m. counter_key_of sha (all_to_all_base m) c c) ms"

lemma next_round_simps [simp]: "queue_id (next_round q) = queue_id q" "counters (next_round q) = counters q"
  by (simp_all add: next_round_def)

lemma all_gather_spawned:
  "\<exists>q'. fold (all_gather_one sha senders receivers) xs (next_round q, [])
      = (q', all_tasks (all_gather_tasks senders receivers (queue_id q)) xs
          (draw_ids (map (\<lambda>x. counter_key_of sha (all_gather_base (fst x)) senders receivers) xs) (counters q)))
    \<and> counters q' = draw_counters (map (\<lambda>x. counter_key_of sha (all_gather_base (fst x)) senders receivers) xs)
        (counters q)"
  using all_gather_loop.loop [where xs = xs and q = "next_round q" and sha = sha and senders = senders
      and receivers = receivers and ts = "[]"]
  by (auto simp: fold_option_Some spawns_def)

lemma all_to_all_spawned:
  "\<exists>q'. fold (all_to_all_one sha communicator) xs (next_round q, [])
      = (q', all_tasks (all_to_all_tasks communicator (queue_id q)) xs
          (draw_ids (map (\<lambda>x. counter_key_of sha (all_to_all_base (fst x)) communicator communicator) xs)
            (counters q)))
    \<and> counters q' = draw_counters
        (map (\<lambda>x. counter_key_of sha (all_to_all_base (fst x)) communicator communicator) xs) (counters q)"
  using all_to_all_loop.loop [where xs = xs and q = "next_round q" and sha = sha and communicator = communicator
      and ts = "[]"]
  by (auto simp: fold_option_Some spawns_def)

lemma map_zip_fst: "length xs = length ys \<Longrightarrow> map (\<lambda>x. f (fst x)) (zip xs ys) = map f xs"
  using map_map [of f fst "zip xs ys"] by (simp add: comp_def)

lemma ffi_all_gather_spawns:
  assumes "is_communicator c" "queue_id q \<in> set c"
    and rows: "rows \<noteq> []" "\<forall>row\<in>set rows. length row = length c" "length ms = length rows"
  shows "\<exists>q'. ffi_multi_all_gather sha ms c (to_2d_ffi (map (map Some) rows)) q
      = Spawns q' (all_tasks (all_gather_tasks c c (queue_id q)) (zip ms rows)
          (draw_ids (all_gather_keys sha c ms) (counters q)))
    \<and> counters q' = draw_counters (all_gather_keys sha c ms) (counters q)"
proof -
  have n: "length c \<noteq> 0" using assms(2) by auto
  note two = to_2d_ffi_rows [OF rows(1,2) n]
  have keys: "map (\<lambda>x. counter_key_of sha (all_gather_base (fst x)) c c) (zip ms rows) = all_gather_keys sha c ms"
    unfolding all_gather_keys_def by (rule map_zip_fst [OF rows(3)])
  show ?thesis
    using all_gather_spawned [of sha c c "zip ms rows" q] assms(2) two rows(3)
    unfolding keys
    by (auto simp: ffi_multi_all_gather_def with_pointer_def blocking_def extended_multi_all_gather_def
        to_set_communicator [OF assms(1)])
qed

lemma ffi_all_to_all_spawns:
  assumes "is_communicator c" "queue_id q \<in> set c"
    and rows: "rows \<noteq> []" "\<forall>row\<in>set rows. length row = length c" "length ms = length rows"
      "\<forall>row\<in>set send. length row = length c" "length send = length rows"
  shows "\<exists>q'. ffi_multi_all_to_all sha ms c (to_2d_ffi (map (map Some) send)) (to_2d_ffi (map (map Some) rows)) q
      = Spawns q' (all_tasks (all_to_all_tasks c (queue_id q)) (zip ms (zip send rows))
          (draw_ids (all_to_all_keys sha c ms) (counters q)))
    \<and> counters q' = draw_counters (all_to_all_keys sha c ms) (counters q)"
proof -
  have n: "length c \<noteq> 0" and send: "send \<noteq> []" using assms(2) rows(1,5) by auto
  note two = to_2d_ffi_rows [OF rows(1,2) n] to_2d_ffi_rows [OF send rows(4) n]
  have keys: "map (\<lambda>x. counter_key_of sha (all_to_all_base (fst x)) c c) (zip ms (zip send rows))
      = all_to_all_keys sha c ms"
    unfolding all_to_all_keys_def by (rule map_zip_fst) (use rows in simp)
  show ?thesis
    using all_to_all_spawned [of sha c "zip ms (zip send rows)" q] assms(2) two rows(3,5)
    unfolding keys
    by (auto simp: ffi_multi_all_to_all_def with_pointer_def blocking_def multi_all_to_all_def
        to_set_communicator [OF assms(1)])
qed

section \<open>The tasks of all messages of an operation\<close>

lemma party_tasks_plan:
  assumes "length xs = length ids"
    and "\<And>x ident. x \<in> set xs \<Longrightarrow> mset (tasks x ident) = party_tasks (exchange_transfers (ex x) ident) p"
  shows "mset (all_tasks tasks xs ids) = party_tasks (collective_plan (map ex xs) ids) p"
  using assms
proof (induction xs ids rule: list_induct2)
  case Nil
  then show ?case by (simp add: all_tasks_def collective_plan_def party_tasks_def)
next
  case (Cons x xs ident ids)
  then show ?case by (simp add: all_tasks_def collective_plan_def party_tasks_append)
qed

lemma same_key_ids_differ:
  assumes "length keys \<le> 2 ^ 64" "length keys = length es"
    "\<And>g h. g < length es \<Longrightarrow> h < length es \<Longrightarrow> base_datatype (ex_base (es ! g)) = base_datatype (ex_base (es ! h))
      \<Longrightarrow> keys ! g = keys ! h"
  shows "messages_differ es (draw_ids keys c)"
  unfolding messages_differ_def
proof (intro allI impI)
  fix h g assume gh: "h < length es" "g < h" "draw_ids keys c ! g = draw_ids keys c ! h"
  then show "base_datatype (ex_base (es ! g)) \<noteq> base_datatype (ex_base (es ! h))"
    using draw_ids_distinct [of g h keys c] assms(1,2) assms(3) [of g h] by auto
qed

end
