(* ===== verification/Net_Correct.thy ===== *)
theory Net_Correct
  imports Net_Pointers
begin

text \<open>
  The collective operations of \<^verbatim>\<open>hmpc::net::queue\<close> from the call in C++ to the returned values.

  All parties of a communicator call the same operation; their queues hand the pointers to the
  foreign functions, whose tasks run concurrently on the network.  Every run ends, and then each
  party returns the values of all parties: an all-gather their values, an all-to-all the values that
  they have for this party.
\<close>

section \<open>Shapes\<close>

text \<open>The shape of a value: its fields with their limb types and sizes.\<close>

definition shape_of :: "struct \<Rightarrow> struct" where
  "shape_of = default_like (\<lambda>_. 0)"

fun leaf_bytes :: "struct \<Rightarrow> byte list" where
  "leaf_bytes (Field bits bytes) = bytes"
| "leaf_bytes (Structure es) = []"

lemma shape_of_simps [simp]:
  "shape_of (Field bits bytes) = Field bits (replicate (length bytes) 0)"
  "shape_of (Structure es) = Structure (map shape_of es)"
  by (simp_all add: shape_of_def map_replicate_const)

lemma shape_default_like [simp]: "shape_of (default_like fresh v) = shape_of v"
  by (induction v) (simp_all add: comp_def)

lemma structure_fields_shape [simp]: "structure_fields (shape_of v) = structure_fields v"
  by (simp add: shape_of_def)

lemma is_structure_shape: "is_structure v \<longleftrightarrow> is_structure (shape_of v)"
  by (cases v) simp_all

lemma leaves_shape: "leaves (shape_of v) = map shape_of (leaves v)"
  by (simp add: shape_of_def leaves_default_like)

lemma leaves_are_fields: "x \<in> set (leaves v) \<Longrightarrow> \<not> is_structure x"
  by (induction v) auto

lemma leaves_of_shapes: "leaves_of (map shape_of vs) = map shape_of (leaves_of vs)"
  by (induction vs) (simp_all add: leaves_shape)

lemma length_leaf_bytes:
  "\<not> is_structure v \<Longrightarrow> shape_of v = shape_of w \<Longrightarrow> length (leaf_bytes w) = length (leaf_bytes v)"
  by (cases v; cases w) auto

lemma cells_from_cong: "map structure_fields vs = map structure_fields ws \<Longrightarrow> cells_from t vs = cells_from t ws"
proof (induction vs arbitrary: t ws)
  case (Cons v vs)
  then obtain w ws' where "ws = w # ws'" "structure_fields v = structure_fields w"
      "map structure_fields vs = map structure_fields ws'" by auto
  then show ?case using Cons.IH [of ws' "Suc t"] by simp
qed simp

lemma cells_from_shapes:
  assumes "map shape_of vs = shapes"
  shows "cells_from t vs = cells_from t shapes"
  unfolding assms [symmetric] by (rule cells_from_cong) simp

lemma cell_rows_shapes: "map shape_of vs = shapes \<Longrightarrow> cell_rows cell n vs = cell_rows cell n shapes"
  by (simp only: cell_rows_def cells_from_shapes [of vs shapes])

text \<open>A value of the same shape with the bytes of \<open>w\<close> in all of its fields is \<open>w\<close>.\<close>

lemma set_fields_leaves:
  "shape_of v = shape_of w \<Longrightarrow> \<forall>i < structure_fields w. g i = leaf_bytes (leaves w ! i) \<Longrightarrow> set_fields g v = w"
  "map shape_of vs = map shape_of ws \<Longrightarrow> \<forall>i < structure_fields_of ws. g i = leaf_bytes (leaves_of ws ! i)
    \<Longrightarrow> set_fields_list g vs = ws"
proof (induction g v and g vs arbitrary: w and ws rule: set_fields_set_fields_list.induct)
  case (1 g bits bytes)
  then show ?case by (cases w) simp_all
next
  case (2 g es)
  then show ?case by (cases w) (auto simp: structure_fields_Structure leaves_Structure
      simp del: structure_fields.simps(2) leaves.simps(2))
next
  case (4 g e es)
  from 4(3) obtain w ws' where ws: "ws = w # ws'" "shape_of e = shape_of w" "map shape_of es = map shape_of ws'" by auto
  have e: "structure_fields e = structure_fields w" by (metis structure_fields_shape ws(2))
  have "set_fields g e = w" using 4(4) by (intro 4(1) [OF ws(2)]) (auto simp: ws(1) nth_append)
  moreover have "set_fields_list (\<lambda>j. g (j + structure_fields e)) es = ws'"
    using 4(4) e by (intro 4(2) [OF ws(3)]) (auto simp: ws(1) nth_append)
  ultimately show ?case by (simp add: ws(1))
qed simp_all

section \<open>Storages\<close>

text \<open>A party passes plain values, or its own shares of values that the communicator's parties own.\<close>

fun element_ok :: "party_id \<Rightarrow> communicator \<Rightarrow> element \<Rightarrow> bool" where
  "element_ok p c (Plain v) = True"
| "element_ok p c (Share v i owners) = (i = p \<and> owners = c)"

definition own_storage :: "(nat \<Rightarrow> nat \<Rightarrow> byte) \<Rightarrow> party_id \<Rightarrow> party_id list \<Rightarrow> struct \<Rightarrow> storage" where
  "own_storage fresh p c v =
     map (\<lambda>k. if c ! k = p then v else default_like (fresh k) v) [0..<length c]"

lemma make_result_storage_own:
  assumes "p \<in> set c" "element_ok p c x"
  shows "make_result_storage_with fresh p c x = Some (own_storage fresh p c (element_struct x))"
  using assms by (cases x) (auto simp: make_result_storage_with_def own_storage_def default_owner_with_def)

lemma make_multi_result_storage_own:
  assumes "p \<in> set c" "\<forall>x\<in>set xs. element_ok p c x"
  shows "make_multi_result_storage_with fresh p c xs
    = Some (map (own_storage fresh p c) (map element_struct xs))"
proof -
  have "map (make_result_storage_with fresh p c) xs = map Some (map (own_storage fresh p c) (map element_struct xs))"
    using assms by (simp add: make_result_storage_own)
  then show ?thesis by (simp only: make_multi_result_storage_with_def collect_option_Some)
qed

lemma length_own_storage [simp]: "length (own_storage fresh p c v) = length c"
  by (simp add: own_storage_def)

lemma own_storage_shape: "k < length c \<Longrightarrow> shape_of (own_storage fresh p c v ! k) = shape_of v"
  by (simp add: own_storage_def)

lemma own_storage_hd: "c \<noteq> [] \<Longrightarrow> shape_of (hd (own_storage fresh p c v)) = shape_of v"
  by (simp add: own_storage_def hd_map)

lemma own_storage_own: "k < length c \<Longrightarrow> c ! k = p \<Longrightarrow> own_storage fresh p c v ! k = v"
  by (simp add: own_storage_def)

lemma communicator_to_ffi_Some: "is_communicator c \<Longrightarrow> communicator_to_ffi c = Some c"
  by (auto simp: communicator_to_ffi_def is_communicator_def nth_eq_iff_index_eq)

lemma storage_pointers:
  assumes "c \<noteq> []" "length c' = length c"
    and "shapes = map shape_of (map hd sts)" "\<forall>st\<in>set sts. length st = length c"
  shows "Option.bind (make_multi_accessors p c' cell sts) (\<lambda>as. Option.bind (make_multi_data_ptrs c as) f)
    = f (map (map Some) (cell_rows cell (length c) shapes))"
proof -
  have "cell_rows cell (length c) (map hd sts) = cell_rows cell (length c) shapes"
    by (rule cell_rows_shapes) (simp only: assms(3))
  then have "Option.bind (make_multi_accessors p c' cell sts) (make_multi_data_ptrs c)
      = Some (map (map Some) (cell_rows cell (length c) shapes))"
    using multi_pointers [of sts c' c p cell] assms(2,4) by metis
  then show ?thesis by (auto simp: bind_eq_Some_conv)
qed

lemma own_storages:
  assumes "c \<noteq> []" "map shape_of vs = shapes"
  shows "shapes = map shape_of (map hd (map (own_storage fresh p c) vs))"
    "\<forall>st\<in>set (map (own_storage fresh p c) vs). length st = length c"
  using assms by (auto simp: own_storage_hd)

section \<open>Exchanges between all parties\<close>

text \<open>
  In both operations each party sends for each field one message to each other party: field \<open>g\<close> of
  party \<open>c ! j\<close> goes from the address \<open>src g j r\<close> to \<open>dst g j\<close> at the party \<open>r\<close>.
\<close>

definition all_pairs ::
  "communicator \<Rightarrow> (nat \<Rightarrow> nat \<Rightarrow> party_id \<Rightarrow> 'p) \<Rightarrow> (nat \<Rightarrow> nat \<Rightarrow> 'p) \<Rightarrow> 'p exchange list \<Rightarrow> bool" where
  "all_pairs c src dst es \<longleftrightarrow> (\<forall>g < length es.
     ex_pairs (es ! g) = concat (map (\<lambda>j. star (c ! j) c (src g j) (\<lambda>_. dst g j)) [0..<length c]))"

lemma all_pairs_iff:
  assumes "all_pairs c src dst es"
  shows "(g, s, r, a, b) \<in> numbered_pairs es \<longleftrightarrow> g < length es
    \<and> (\<exists>j < length c. s = c ! j \<and> r \<in> set c \<and> r \<noteq> s \<and> a = src g j r \<and> b = dst g j)"
proof (cases "g < length es")
  case True
  then have "ex_pairs (es ! g) = concat (map (\<lambda>j. star (c ! j) c (src g j) (\<lambda>_. dst g j)) [0..<length c])"
    using assms by (simp add: all_pairs_def)
  moreover have "(s, r, a, b) \<in> set (star (c ! j) c (src g j) (\<lambda>_. dst g j))
      \<longleftrightarrow> s = c ! j \<and> r \<in> set c \<and> r \<noteq> s \<and> a = src g j r \<and> b = dst g j" for j
    by (auto simp: star_def)
  ultimately show ?thesis using True by (auto simp: numbered_pairs_def)
qed (simp add: numbered_pairs_def)

lemma distinct_star_pairs:
  assumes "distinct c"
  shows "distinct (map (\<lambda>(s, r, _). (s, r)) (concat (map (\<lambda>j. star (c ! j) c (f j) (h j)) [0..<length c])))"
proof -
  have "map (\<lambda>(s, r, _). (s, r)) (concat (map (\<lambda>j. star (c ! j) c (f j) (h j)) [0..<length c]))
      = concat (map (\<lambda>j. map (Pair (c ! j)) (filter (\<lambda>r. r \<noteq> c ! j) c)) [0..<length c])"
    by (simp add: map_concat comp_def star_def)
  moreover have "distinct (concat (map (\<lambda>j. map (Pair (c ! j)) (filter (\<lambda>r. r \<noteq> c ! j) c)) [0..<length c]))"
    by (rule distinct_concat_map) (use assms in \<open>auto simp: distinct_map inj_on_def nth_eq_iff_index_eq\<close>)
  ultimately show ?thesis by simp
qed

lemma all_pairs_ok:
  assumes c: "distinct c" and all: "all_pairs c src dst es"
    and dst: "\<And>g j g' j'. g < length es \<Longrightarrow> g' < length es \<Longrightarrow> j < length c \<Longrightarrow> j' < length c
      \<Longrightarrow> dst g j = dst g' j' \<Longrightarrow> g = g' \<and> j = j'"
    and src: "\<And>g j r g' j'. g < length es \<Longrightarrow> g' < length es \<Longrightarrow> j < length c \<Longrightarrow> j' < length c \<Longrightarrow> r \<in> set c
      \<Longrightarrow> src g j r = dst g' j' \<Longrightarrow> j = j'"
  shows "pairs_ok c es"
proof -
  have "distinct (map (\<lambda>(s, r, _). (s, r)) (ex_pairs e))" if "e \<in> set es" for e
    using that all distinct_star_pairs [OF c] by (auto simp: in_set_conv_nth all_pairs_def)
  moreover have "s \<in> set c \<and> r \<in> set c \<and> (r = r' \<and> b = b' \<longrightarrow> g = g' \<and> s = s') \<and> (s = r' \<longrightarrow> a \<noteq> b')"
    if "(g, s, r, a, b) \<in> numbered_pairs es" "(g', s', r', a', b') \<in> numbered_pairs es" for g s r a b g' s' r' a' b'
    using that dst src unfolding all_pairs_iff [OF all] by (metis nth_mem)
  ultimately show ?thesis unfolding pairs_ok_def by blast
qed

lemma exchanged_all_pairs:
  assumes c: "distinct c" and all: "all_pairs c src dst es"
    and dst: "\<And>g j g' j'. g < length es \<Longrightarrow> g' < length es \<Longrightarrow> j < length c \<Longrightarrow> j' < length c
      \<Longrightarrow> dst g j = dst g' j' \<Longrightarrow> g = g' \<and> j = j'"
    and "exchanged c es memory M" "r \<in> set c" "g < length es" "j < length c"
  shows "M r (dst g j) = (if r = c ! j then memory r (dst g j) else memory (c ! j) (src g j r))"
proof (cases "r = c ! j")
  case True
  have "\<forall>(g', s', r', a', b')\<in>numbered_pairs es. r' = r \<longrightarrow> b' \<noteq> dst g j"
    using dst [OF _ assms(6) _ assms(7)] True by (auto simp: all_pairs_iff [OF all])
  then show ?thesis using assms(4,5) True unfolding exchanged_def by simp
next
  case False
  then have "(g, c ! j, r, src g j r, dst g j) \<in> numbered_pairs es"
    using assms(5-7) unfolding all_pairs_iff [OF all] by blast
  then show ?thesis using assms(4) False unfolding exchanged_def by fastforce
qed

section \<open>The contents of the cells\<close>

definition cell_at :: "(nat \<Rightarrow> nat \<Rightarrow> nat \<Rightarrow> 'a) \<Rightarrow> struct list \<Rightarrow> nat \<Rightarrow> nat \<Rightarrow> 'a" where
  "cell_at cell shapes g k = (case cells_from 0 shapes ! g of (t, i) \<Rightarrow> cell t i k)"

definition column :: "nat \<Rightarrow> storage list \<Rightarrow> struct list" where
  "column k sts = map (\<lambda>st. st ! k) sts"

lemma cell_rows_nth:
  "g < structure_fields_of shapes \<Longrightarrow> k < n \<Longrightarrow> cell_rows cell n shapes ! g ! k = cell_at cell shapes g k"
  by (simp add: cell_rows_def cell_at_def case_prod_unfold)

lemma cell_bytes_leaf: "cell_bytes sts t i k = leaf_bytes (leaves (sts ! t ! k) ! i)"
  by (simp add: cell_bytes_def split: struct.split)

lemma cell_at_nth:
  assumes "g < structure_fields_of shapes"
  obtains t i where "cells_from 0 shapes ! g = (t, i)" "t < length shapes" "i < structure_fields (shapes ! t)"
proof -
  obtain t i where ti: "cells_from 0 shapes ! g = (t, i)" by fastforce
  then have "(t, i) \<in> set (cells_from 0 shapes)" using assms by (metis length_cells_from nth_mem)
  then have "t < length shapes" "i < structure_fields (shapes ! t)" by (simp_all add: cells_from_iff)
  then show thesis by (rule that [OF ti])
qed

lemma leaves_of_nth:
  assumes "map shape_of vs = shapes" "g < structure_fields_of shapes" "cells_from 0 shapes ! g = (t, i)"
  shows "leaves_of vs ! g = leaves (vs ! t) ! i"
  using assms(2,3) leaves_of_cells [of vs 0] by (simp add: cells_from_shapes [OF assms(1)])

lemma cell_value:
  assumes "map shape_of (column k sts) = shapes" "g < structure_fields_of shapes"
  shows "cell_at (cell_bytes sts) shapes g k = leaf_bytes (leaves_of (column k sts) ! g)"
proof -
  obtain t i where ti: "cells_from 0 shapes ! g = (t, i)" "t < length shapes"
    by (rule cell_at_nth [OF assms(2)])
  have "t < length sts" using ti(2) assms(1) by (auto simp: column_def)
  then show ?thesis
    unfolding leaves_of_nth [OF assms ti(1)] by (simp add: cell_at_def ti(1) cell_bytes_leaf column_def)
qed

lemma leaf_of_shape:
  assumes "map shape_of vs = shapes" "g < structure_fields_of shapes"
  shows "leaves_of shapes ! g = shape_of (leaves_of vs ! g)" "\<not> is_structure (leaves_of vs ! g)"
proof -
  have n: "structure_fields_of vs = structure_fields_of shapes"
    unfolding assms(1) [symmetric] structure_fields_of_def by (simp add: comp_def)
  show "leaves_of shapes ! g = shape_of (leaves_of vs ! g)"
    using assms(2) n unfolding assms(1) [symmetric] leaves_of_shapes by simp
  have "leaves_of vs ! g \<in> set (leaves_of vs)" using assms(2) n by simp
  then show "\<not> is_structure (leaves_of vs ! g)" by (auto simp: leaves_of_def dest: leaves_are_fields)
qed

lemma length_leaf:
  assumes "map shape_of vs = shapes" "g < structure_fields_of shapes"
  shows "length (leaf_bytes (leaves_of vs ! g)) = length (leaf_bytes (leaves_of shapes ! g))"
  using leaf_of_shape [OF assms] by (cases "leaves_of vs ! g") simp_all

lemma cell_length:
  assumes "map shape_of (column k sts) = shapes" "g < structure_fields_of shapes"
  shows "length (cell_at (cell_bytes sts) shapes g k) = length (leaf_bytes (leaves_of shapes ! g))"
  unfolding cell_value [OF assms] by (rule length_leaf [OF assms])

lemma cell_at_inj:
  assumes "g < structure_fields_of shapes" "g' < structure_fields_of shapes"
    "cell_at Result_Cell shapes g k = cell_at Result_Cell shapes g' k'"
  shows "g = g' \<and> k = k'"
proof -
  have "cells_from 0 shapes ! g = cells_from 0 shapes ! g'" "k = k'"
    using assms(3) by (simp_all add: cell_at_def split: prod.splits)
  then show ?thesis
    using nth_eq_iff_index_eq [OF distinct_cells_from, of g 0 shapes g'] assms(1,2) by simp
qed

text \<open>The returned values, when each slot has the bytes of the value that belongs there.\<close>

lemma op_result_values:
  assumes shape: "\<And>k. k < n \<Longrightarrow> map shape_of (column k (op_storage op)) = shapes"
    and len: "length (op_storage op) = length shapes" "\<forall>st\<in>set (op_storage op). length st = n"
    and W: "\<And>k. k < n \<Longrightarrow> map shape_of (W k) = shapes"
    and bytes: "\<And>k g. k < n \<Longrightarrow> g < structure_fields_of shapes
      \<Longrightarrow> M (cell_at Result_Cell shapes g k) = leaf_bytes (leaves_of (W k) ! g)"
  shows "op_result op M = map (\<lambda>t. map (\<lambda>k. W k ! t) [0..<n]) [0..<length shapes]"
proof -
  let ?sts = "op_storage op"
  have "set_fields (\<lambda>j. M (Result_Cell t j k)) (?sts ! t ! k) = W k ! t"
    if t: "t < length shapes" and k: "k < n" for t k
  proof (rule set_fields_leaves(1))
    have "map shape_of (column k ?sts) ! t = map shape_of (W k) ! t" using shape [OF k] W [OF k] by simp
    moreover have "length (W k) = length shapes" using W [OF k] by (metis length_map)
    ultimately show "shape_of (?sts ! t ! k) = shape_of (W k ! t)"
      using t len(1) by (simp add: column_def)
    have "shape_of (W k ! t) = shapes ! t" using t W [OF k] by (metis length_map nth_map)
    then have fields: "structure_fields (W k ! t) = structure_fields (shapes ! t)"
      by (metis structure_fields_shape)
    show "\<forall>i < structure_fields (W k ! t). M (Result_Cell t i k) = leaf_bytes (leaves (W k ! t) ! i)"
    proof (intro allI impI)
      fix i assume "i < structure_fields (W k ! t)"
      then have "(t, i) \<in> set (cells_from 0 shapes)" using t fields by (simp add: cells_from_iff)
      then obtain g where g: "g < structure_fields_of shapes" "cells_from 0 shapes ! g = (t, i)"
        by (metis in_set_conv_nth length_cells_from)
      then show "M (Result_Cell t i k) = leaf_bytes (leaves (W k ! t) ! i)"
        using bytes [OF k g(1)] leaves_of_nth [OF W [OF k] g] by (simp add: cell_at_def)
    qed
  qed
  then show ?thesis
    unfolding op_result_def using len by (auto intro!: map_cong)
qed

end
