(* ===== verification/Net_Results.thy ===== *)
theory Net_Results
  imports Net_Correct
begin

text \<open>
  All-gather and all-to-all from the call in C++ to the returned values, for all parties, all
  interleavings and all orders of delivery; and the overload of all-to-all that does not communicate.
\<close>

section \<open>The run of an operation\<close>

text \<open>
  All parties of a communicator call an operation: \<open>O p\<close> is what party \<open>p\<close> hands over and \<open>Q p\<close>
  its queue.
\<close>

fun spawned_tasks :: "operation_outcome \<Rightarrow> address task list" where
  "spawned_tasks (Communicates q tasks) = tasks"
| "spawned_tasks _ = []"

definition operation_script ::
  "(byte list \<Rightarrow> byte list) \<Rightarrow> (byte list \<Rightarrow> byte list) \<Rightarrow> (party_id \<Rightarrow> net_config) \<Rightarrow> communicator
   \<Rightarrow> (party_id \<Rightarrow> queue_state) \<Rightarrow> (party_id \<Rightarrow> net_operation) \<Rightarrow> address script" where
  "operation_script sha hash config c Q ops =
     collective_script c hash config (\<lambda>p. op_memory (ops p))
       (\<lambda>p. spawned_tasks (run_operation sha (ops p) (Some (Q p))))"

lemma every_run_ends_with_mono:
  "every_run_ends_with S R \<Longrightarrow> (\<And>M. R M \<Longrightarrow> R' M) \<Longrightarrow> every_run_ends_with S R'"
  unfolding every_run_ends_with_def by blast

text \<open>What all theorems below ask of the values, the configurations and the counters.\<close>

definition fits_messages :: "struct list \<Rightarrow> bool" where
  "fits_messages shapes \<longleftrightarrow> structure_fields_of shapes \<noteq> 0 \<and> structure_fields_of shapes \<le> 2 ^ 64
     \<and> (\<forall>v\<in>set (leaves_of shapes). 96 + length (leaf_bytes v) \<le> MESSAGE_SIZE_LIMIT)"

definition all_trust :: "(party_id \<Rightarrow> net_config) \<Rightarrow> communicator \<Rightarrow> bool" where
  "all_trust config c \<longleftrightarrow> (\<forall>s\<in>set c. \<forall>r\<in>set c. trusts (config s) (config r) s)"

definition counters_agree ::
  "(party_id \<Rightarrow> queue_state) \<Rightarrow> communicator \<Rightarrow> counter_key list \<Rightarrow> (counter_key \<Rightarrow> message_id option) \<Rightarrow> bool" where
  "counters_agree Q c keys C \<longleftrightarrow>
     (\<forall>p\<in>set c. queue_id (Q p) = p \<and> (\<forall>key\<in>set keys. counters (Q p) key = C key))"

lemma agreed_counters:
  assumes "counters_agree Q c keys C" "p \<in> set c"
  shows "queue_id (Q p) = p" "draw_ids keys (counters (Q p)) = draw_ids keys C"
    "key \<in> set keys \<Longrightarrow> draw_counters keys (counters (Q p)) key = draw_counters keys C key"
  using assms by (auto simp: counters_agree_def intro: draw_ids_cong draw_counters_cong)

lemma all_pairs_run:
  fixes memory :: "party_id \<Rightarrow> address \<Rightarrow> byte list"
  assumes c: "is_communicator c" and fits: "fits_messages shapes" and trust: "all_trust config c"
    and es: "length es = structure_fields_of shapes" "all_pairs c src (cell_at Result_Cell shapes) es"
    and src: "\<And>g j r g' j'. g < length es \<Longrightarrow> g' < length es \<Longrightarrow> r \<in> set c
      \<Longrightarrow> src g j r = cell_at Result_Cell shapes g' j' \<Longrightarrow> j = j'"
    and base: "\<And>g. g < length es \<Longrightarrow> base_size (ex_base (es ! g)) = of_nat (length (leaf_bytes (leaves_of shapes ! g)))
      \<and> \<not> is_consistency_check (base_kind (ex_base (es ! g)))"
    and memory: "\<And>p g j. p \<in> set c \<Longrightarrow> g < length es \<Longrightarrow> j < length c
      \<Longrightarrow> length (memory p (cell_at Result_Cell shapes g j)) = length (leaf_bytes (leaves_of shapes ! g))"
    and sources: "\<And>g j r. g < length es \<Longrightarrow> j < length c \<Longrightarrow> r \<in> set c
      \<Longrightarrow> length (memory (c ! j) (src g j r)) = length (leaf_bytes (leaves_of shapes ! g))"
    and ids: "length ids = length es" "messages_differ es ids"
    and tasks: "\<And>p. p \<in> set c \<Longrightarrow> mset (tasks p) = party_tasks (collective_plan es ids) p"
  shows "every_run_ends_with (collective_script c hash config memory tasks)
    (\<lambda>M. \<forall>r\<in>set c. \<forall>g < length es. \<forall>j < length c. M r (cell_at Result_Cell shapes g j)
       = (if r = c ! j then memory r (cell_at Result_Cell shapes g j) else memory (c ! j) (src g j r)))"
proof (rule every_run_ends_with_mono)
  have d: "distinct c" using c by (simp add: is_communicator_def)
  have inj: "g = g' \<and> j = j'" if "g < length es" "g' < length es"
      "cell_at Result_Cell shapes g j = cell_at Result_Cell shapes g' j'" for g g' j j'
    by (rule cell_at_inj) (use that es(1) in simp_all)
  show "exchanged c es memory M \<Longrightarrow> \<forall>r\<in>set c. \<forall>g < length es. \<forall>j < length c. M r (cell_at Result_Cell shapes g j)
       = (if r = c ! j then memory r (cell_at Result_Cell shapes g j) else memory (c ! j) (src g j r))" for M
    using exchanged_all_pairs [OF d es(2) inj] by blast
  show "every_run_ends_with (collective_script c hash config memory tasks) (exchanged c es memory)"
  proof (rule collective_run [OF d ids])
    show "pairs_ok c es" by (rule all_pairs_ok [OF d es(2) inj src])
    show "trusts (config s) (config r) s" if "s \<in> set c" "r \<in> set c" for s r
      using trust that by (simp add: all_trust_def)
    show "mset (tasks p) = party_tasks (collective_plan es ids) p" if "p \<in> set c" for p
      by (rule tasks [OF that])
    fix g x assume gx: "(g, x) \<in> numbered_pairs es"
    obtain s r a b where x: "x = (s, r, a, b)" by (cases x)
    from gx obtain j where j: "g < length es" "j < length c" "s = c ! j" "r \<in> set c" "a = src g j r"
        "b = cell_at Result_Cell shapes g j"
      unfolding x all_pairs_iff [OF es(2)] by blast
    have "leaves_of shapes ! g \<in> set (leaves_of shapes)" using j(1) es(1) by simp
    then have "96 + length (leaf_bytes (leaves_of shapes ! g)) \<le> MESSAGE_SIZE_LIMIT"
      using fits by (simp add: fits_messages_def)
    then show "pair_data_ok memory (ex_base (es ! g)) x"
      using base [OF j(1)] memory [OF j(4,1,2)] sources [OF j(1,2,4)] j by (simp add: pair_data_ok_def x)
  qed
qed

text \<open>
  \<open>W p k\<close> are the values that party \<open>c ! k\<close> has for \<open>p\<close>: they are in the cells that it sends to \<open>p\<close>,
  and \<open>p\<close> has its own in its result.
\<close>

lemma op_memory_cell:
  "op_memory op (cell_at Result_Cell shapes g k) = cell_at (cell_bytes (op_storage op)) shapes g k"
  "op_memory op (cell_at Send_Cell shapes g k) = cell_at (cell_bytes (op_send op)) shapes g k"
  by (simp_all add: cell_at_def split: prod.split)

lemma all_pairs_results:
  assumes c: "is_communicator c" and fits: "fits_messages shapes" and trust: "all_trust config c"
    and es: "length es = structure_fields_of shapes" "all_pairs c src (cell_at Result_Cell shapes) es"
    and src: "\<And>g j r g' j'. g < length es \<Longrightarrow> g' < length es \<Longrightarrow> r \<in> set c
      \<Longrightarrow> src g j r = cell_at Result_Cell shapes g' j' \<Longrightarrow> j = j'"
    and base: "\<And>g. g < length es \<Longrightarrow> base_size (ex_base (es ! g)) = of_nat (length (leaf_bytes (leaves_of shapes ! g)))
      \<and> \<not> is_consistency_check (base_kind (ex_base (es ! g)))"
    and ids: "length ids = length es" "messages_differ es ids"
    and tasks: "\<And>p. p \<in> set c \<Longrightarrow>
      mset (spawned_tasks (run_operation sha (Op p) (Some (Q p)))) = party_tasks (collective_plan es ids) p"
    and storage: "\<And>p. p \<in> set c \<Longrightarrow> length (op_storage (Op p)) = length shapes
      \<and> (\<forall>st\<in>set (op_storage (Op p)). length st = length c)"
    and columns: "\<And>p k. p \<in> set c \<Longrightarrow> k < length c \<Longrightarrow> map shape_of (column k (op_storage (Op p))) = shapes
      \<and> (c ! k = p \<longrightarrow> column k (op_storage (Op p)) = W p k)"
    and W: "\<And>p k. p \<in> set c \<Longrightarrow> k < length c \<Longrightarrow> map shape_of (W p k) = shapes"
    and sent: "\<And>g p k. g < length es \<Longrightarrow> p \<in> set c \<Longrightarrow> k < length c
      \<Longrightarrow> op_memory (Op (c ! k)) (src g k p) = leaf_bytes (leaves_of (W p k) ! g)"
  shows "every_run_ends_with (operation_script sha hash config c Q Op) (\<lambda>M. \<forall>p\<in>set c.
    op_result (Op p) (M p) = map (\<lambda>t. map (\<lambda>k. W p k ! t) [0..<length c]) [0..<length shapes])"
proof (rule every_run_ends_with_mono)
  let ?cell = "cell_at Result_Cell shapes"
  let ?R = "\<lambda>M. \<forall>r\<in>set c. \<forall>g < length es. \<forall>j < length c. M r (?cell g j)
    = (if r = c ! j then op_memory (Op r) (?cell g j) else op_memory (Op (c ! j)) (src g j r))"
  show "every_run_ends_with (operation_script sha hash config c Q Op) ?R"
    unfolding operation_script_def
  proof (rule all_pairs_run [OF c fits trust es src base _ _ ids tasks])
    show "length (op_memory (Op p) (?cell g j)) = length (leaf_bytes (leaves_of shapes ! g))"
      if "p \<in> set c" "g < length es" "j < length c" for p g j
      unfolding op_memory_cell by (rule cell_length) (use that columns es(1) in auto)
    show "length (op_memory (Op (c ! j)) (src g j r)) = length (leaf_bytes (leaves_of shapes ! g))"
      if "g < length es" "j < length c" "r \<in> set c" for g j r
      unfolding sent [OF that(1,3,2)] by (rule length_leaf [OF W [OF that(3,2)]]) (use that(1) es(1) in simp)
  qed
  show "\<forall>p\<in>set c. op_result (Op p) (M p) = map (\<lambda>t. map (\<lambda>k. W p k ! t) [0..<length c]) [0..<length shapes]"
    if M: "?R M" for M
  proof
    fix p assume p: "p \<in> set c"
    show "op_result (Op p) (M p) = map (\<lambda>t. map (\<lambda>k. W p k ! t) [0..<length c]) [0..<length shapes]"
    proof (rule op_result_values)
      fix k assume k: "k < length c"
      show "map shape_of (column k (op_storage (Op p))) = shapes" "map shape_of (W p k) = shapes"
        using columns [OF p k] W [OF p k] by blast+
      fix g assume g: "g < structure_fields_of shapes"
      have "op_memory (Op p) (?cell g k) = leaf_bytes (leaves_of (W p k) ! g)" if "p = c ! k"
        unfolding op_memory_cell using cell_value [of k "op_storage (Op p)" shapes g] columns [OF p k] g that by metis
      then show "M p (?cell g k) = leaf_bytes (leaves_of (W p k) ! g)"
        using M p k g sent [of g p k] es(1) by auto
    qed (use storage [OF p] in blast)+
  qed
qed

lemma in_party_order:
  assumes "\<And>s t. s \<in> set c \<Longrightarrow> t < n \<Longrightarrow> f s t = (h s :: 'b list) ! t"
  shows "map (\<lambda>t. map (\<lambda>k. h (c ! k) ! t) [0..<length c]) [0..<n] = map (\<lambda>t. map (\<lambda>s. f s t) c) [0..<n]"
proof (rule map_cong [OF refl])
  fix t assume "t \<in> set [0..<n]"
  then show "map (\<lambda>k. h (c ! k) ! t) [0..<length c] = map (\<lambda>s. f s t) c"
    using assms by (intro nth_equalityI) simp_all
qed

section \<open>All-gather\<close>

lemma all_gather_of_shape: "\<not> is_structure v \<Longrightarrow> all_gather_of le (shape_of v) = all_gather_of le v"
  by (cases v) (simp_all add: all_gather_of_def)

lemma all_gather_metadata:
  assumes "map shape_of vs = shapes"
  shows "map (all_gather_of le) (leaves_of vs) = map (all_gather_of le) (leaves_of shapes)"
  unfolding assms [symmetric] leaves_of_shapes map_map
  by (rule map_cong) (auto simp: leaves_of_def all_gather_of_shape dest: leaves_are_fields)

lemma multi_all_gather_call:
  assumes c: "is_communicator c" "p \<in> set c"
    and xs: "\<forall>x\<in>set xs. element_ok p c x" "map shape_of (map element_struct xs) = shapes"
  shows "multi_all_gather le fresh p c xs
    = Some \<lparr>op_call = Some (Ffi_multi_all_gather (map (all_gather_of le) (leaves_of shapes)) c
               (to_2d_ffi (map (map Some) (cell_rows Result_Cell (length c) shapes)))),
            op_send = [], op_storage = map (own_storage fresh p c) (map element_struct xs)\<rparr>"
proof -
  have n: "c \<noteq> []" using c(2) by auto
  note own = own_storages [OF n xs(2), of fresh p]
  show ?thesis
    using c(2)
    by (simp add: multi_all_gather_def require_def collect_values_leaves all_gather_metadata [OF xs(2)]
        make_multi_result_storage_own [OF c(2) xs(1)] storage_pointers [OF n refl own]
        communicator_to_ffi_Some [OF c(1)] del: map_map)
qed

text \<open>The exchanges of an all-gather: every party sends its fields from its own slots.\<close>

definition gathered_metadata :: "bool \<Rightarrow> struct list \<Rightarrow> all_gather_metadata list" where
  "gathered_metadata le shapes = map (all_gather_of le) (leaves_of shapes)"

definition all_gather_exchanges :: "bool \<Rightarrow> communicator \<Rightarrow> struct list \<Rightarrow> address exchange list" where
  "all_gather_exchanges le c shapes = map (\<lambda>(m, row). all_gather_exchange c c m (\<lambda>_. row))
     (zip (gathered_metadata le shapes) (cell_rows Result_Cell (length c) shapes))"

lemma length_gathered_metadata [simp]: "length (gathered_metadata le shapes) = structure_fields_of shapes"
  by (simp add: gathered_metadata_def)

lemma all_gather_exchanges_nth:
  "g < structure_fields_of shapes \<Longrightarrow> all_gather_exchanges le c shapes ! g
     = all_gather_exchange c c (gathered_metadata le shapes ! g) (\<lambda>_. cell_rows Result_Cell (length c) shapes ! g)"
  by (simp add: all_gather_exchanges_def)

lemma length_all_gather_exchanges [simp]: "length (all_gather_exchanges le c shapes) = structure_fields_of shapes"
  by (simp add: all_gather_exchanges_def)

lemma all_gather_exchanges_pairs:
  "all_pairs c (\<lambda>g j r. cell_at Result_Cell shapes g j) (cell_at Result_Cell shapes) (all_gather_exchanges le c shapes)"
  unfolding all_pairs_def
proof (intro allI impI)
  fix g assume "g < length (all_gather_exchanges le c shapes)"
  then have g: "g < structure_fields_of shapes" by simp
  have "map (\<lambda>j. star (c ! j) c (\<lambda>_. cell_rows Result_Cell (length c) shapes ! g ! j)
        (\<lambda>r. cell_rows Result_Cell (length c) shapes ! g ! j)) [0..<length c]
      = map (\<lambda>j. star (c ! j) c (\<lambda>_. cell_at Result_Cell shapes g j) (\<lambda>_. cell_at Result_Cell shapes g j))
        [0..<length c]"
    by (rule map_cong) (simp_all add: cell_rows_nth [OF g])
  then show "ex_pairs (all_gather_exchanges le c shapes ! g)
      = concat (map (\<lambda>j. star (c ! j) c (\<lambda>r. cell_at Result_Cell shapes g j) (\<lambda>_. cell_at Result_Cell shapes g j))
          [0..<length c])"
    unfolding all_gather_exchanges_nth [OF g] all_gather_exchange_def exchange.select_convs by (rule arg_cong)
qed

lemma rows_of_length: "row \<in> set (cell_rows cell n shapes) \<Longrightarrow> length row = n"
  by (auto simp: cell_rows_def)

lemma all_gather_outcome:
  assumes c: "is_communicator c" "p \<in> set c" and fits: "fits_messages shapes" and q: "queue_id q = p"
    and xs: "\<forall>x\<in>set xs. element_ok p c x" "map shape_of (map element_struct xs) = shapes"
  obtains q' op where "multi_all_gather le fresh p c xs = Some op"
    and "op_storage op = map (own_storage fresh p c) (map element_struct xs)"
    and "run_operation sha op (Some q) = Communicates q' (all_tasks (all_gather_tasks c c p)
      (zip (gathered_metadata le shapes) (cell_rows Result_Cell (length c) shapes))
      (draw_ids (all_gather_keys sha c (gathered_metadata le shapes)) (counters q)))"
    and "counters q' = draw_counters (all_gather_keys sha c (gathered_metadata le shapes)) (counters q)"
proof -
  have rows: "cell_rows Result_Cell (length c) shapes \<noteq> []"
    using fits length_cell_rows [of Result_Cell "length c" shapes] unfolding fits_messages_def
    by (metis list.size(3))
  have len: "length (gathered_metadata le shapes) = length (cell_rows Result_Cell (length c) shapes)" by simp
  let ?rows = "cell_rows Result_Cell (length c) shapes" and ?ms = "gathered_metadata le shapes"
  have rows_c: "\<forall>row\<in>set ?rows. length row = length c" using rows_of_length by blast
  have q_c: "queue_id q \<in> set c" using q c(2) by simp
  obtain q' where q': "ffi_multi_all_gather sha ?ms c (to_2d_ffi (map (map Some) ?rows)) q
      = Spawns q' (all_tasks (all_gather_tasks c c p) (zip ?ms ?rows) (draw_ids (all_gather_keys sha c ?ms) (counters q)))"
    "counters q' = draw_counters (all_gather_keys sha c ?ms) (counters q)"
    using ffi_all_gather_spawns [OF c(1) q_c rows rows_c len, of sha] q by auto
  show thesis
    by (rule that [OF multi_all_gather_call [OF c xs] _ _ q'(2)])
      (simp_all add: run_operation_def q'(1) gathered_metadata_def [symmetric] del: map_map)
qed

lemma base_gathered:
  assumes "g < structure_fields_of shapes"
  shows "ex_base (all_gather_exchanges le c shapes ! g) = all_gather_base (all_gather_of le (leaves_of shapes ! g))"
  using assms by (simp add: all_gather_exchanges_nth all_gather_exchange_def gathered_metadata_def)

lemma get_byte_size_leaf: "\<not> is_structure v \<Longrightarrow> get_byte_size v = of_nat (length (leaf_bytes v))"
  by (cases v) simp_all

lemma leaf_is_field: "g < structure_fields_of shapes \<Longrightarrow> \<not> is_structure (leaves_of shapes ! g)"
  by (rule leaf_of_shape(2) [of shapes "map shape_of shapes"]) (simp_all add: structure_fields_of_def comp_def)

lemma own_column:
  assumes "map shape_of vs = shapes" "k < length c"
  shows "map shape_of (column k (map (own_storage fresh p c) vs)) = shapes"
    and "c ! k = p \<Longrightarrow> column k (map (own_storage fresh p c) vs) = vs"
  using assms by (auto simp: column_def own_storage_shape own_storage_own intro: map_idI)

lemma all_gather_tasks_plan:
  assumes "is_communicator c" "p \<in> set c" "length ids = structure_fields_of shapes"
  shows "mset (all_tasks (all_gather_tasks c c p)
      (zip (gathered_metadata le shapes) (cell_rows Result_Cell (length c) shapes)) ids)
    = party_tasks (collective_plan (all_gather_exchanges le c shapes) ids) p"
  unfolding all_gather_exchanges_def
proof (rule party_tasks_plan)
  fix x ident assume x: "x \<in> set (zip (gathered_metadata le shapes) (cell_rows Result_Cell (length c) shapes))"
  obtain m row where mr: "x = (m, row)" by (cases x)
  then have "length row = length c" using x by (auto dest: set_zip_rightD rows_of_length)
  then show "mset (all_gather_tasks c c p x ident)
      = party_tasks (exchange_transfers ((\<lambda>(m, row). all_gather_exchange c c m (\<lambda>_. row)) x) ident) p"
    using all_gather_ends [of c p "\<lambda>_. row" c m ident] assms(1,2) unfolding mr by (simp add: is_communicator_def)
qed (use assms(3) in simp)

lemma all_gather_messages_differ:
  assumes "fits_messages shapes"
  shows "messages_differ (all_gather_exchanges le c shapes)
    (draw_ids (all_gather_keys sha c (gathered_metadata le shapes)) C)"
proof (rule same_key_ids_differ)
  let ?es = "all_gather_exchanges le c shapes" and ?keys = "all_gather_keys sha c (gathered_metadata le shapes)"
  fix g h assume "g < length ?es" "h < length ?es"
    "base_datatype (ex_base (?es ! g)) = base_datatype (ex_base (?es ! h))"
  then show "?keys ! g = ?keys ! h"
    by (simp add: base_gathered all_gather_keys_def gathered_metadata_def counter_key_of_def message_hash_def
        all_gather_base_def)
qed (use assms in \<open>simp_all add: fits_messages_def all_gather_keys_def\<close>)

text \<open>C4:
  All-gather, end to end.  When all parties of a communicator all-gather values of the same shapes,
  and their queues agree on the counters of the messages, then every call is accepted and spawns
  its tasks, the counters agree again afterwards, and every run of the network ends, however the
  tasks interleave and the messages arrive, with no error at any party; then the array that each
  party returns for a value holds the values of all parties, in the order of the communicator.
\<close>

theorem multi_all_gather_correct:
  assumes c: "is_communicator c" and fits: "fits_messages shapes" and trust: "all_trust config c"
    and X: "\<forall>p\<in>set c. (\<forall>x\<in>set (X p). element_ok p c x) \<and> map shape_of (map element_struct (X p)) = shapes"
    and ops: "\<forall>p\<in>set c. multi_all_gather le (fresh p) p c (X p) = Some (Op p)"
    and Q: "counters_agree Q c (all_gather_keys sha c (gathered_metadata le shapes)) C"
  shows "(\<forall>p\<in>set c. \<exists>q' tasks. run_operation sha (Op p) (Some (Q p)) = Communicates q' tasks
        \<and> (\<forall>key\<in>set (all_gather_keys sha c (gathered_metadata le shapes)).
             counters q' key = draw_counters (all_gather_keys sha c (gathered_metadata le shapes)) C key))
    \<and> every_run_ends_with (operation_script sha hash config c Q Op)
        (\<lambda>M. \<forall>p\<in>set c. op_result (Op p) (M p)
           = map (\<lambda>t. map (\<lambda>s. element_struct (X s ! t)) c) [0..<length shapes])"
proof
  let ?keys = "all_gather_keys sha c (gathered_metadata le shapes)"
  let ?ids = "draw_ids ?keys C" and ?es = "all_gather_exchanges le c shapes"
    and ?cell = "cell_at Result_Cell shapes" and ?V = "\<lambda>p. map element_struct (X p)"
  have out: "op_storage (Op p) = map (own_storage (fresh p) p c) (?V p)
      \<and> (\<exists>q'. run_operation sha (Op p) (Some (Q p)) = Communicates q' (all_tasks (all_gather_tasks c c p)
          (zip (gathered_metadata le shapes) (cell_rows Result_Cell (length c) shapes)) ?ids)
        \<and> counters q' = draw_counters ?keys (counters (Q p)))" if p: "p \<in> set c" for p
  proof -
    have x: "\<forall>x\<in>set (X p). element_ok p c x" "map shape_of (?V p) = shapes" using X p by blast+
    have op: "multi_all_gather le (fresh p) p c (X p) = Some (Op p)" using ops p by blast
    show ?thesis
      by (rule all_gather_outcome [OF c p fits agreed_counters(1) [OF Q p] x, of le "fresh p" sha]) (use op agreed_counters(2) [OF Q p] in auto)
  qed
  show "\<forall>p\<in>set c. \<exists>q' tasks. run_operation sha (Op p) (Some (Q p)) = Communicates q' tasks
      \<and> (\<forall>key\<in>set ?keys. counters q' key = draw_counters ?keys C key)"
  proof
    fix p assume p: "p \<in> set c"
    show "\<exists>q' tasks. run_operation sha (Op p) (Some (Q p)) = Communicates q' tasks
        \<and> (\<forall>key\<in>set ?keys. counters q' key = draw_counters ?keys C key)"
      using out [OF p] agreed_counters(3) [OF Q p] by auto
  qed
  have n: "length ?keys = structure_fields_of shapes" by (simp add: all_gather_keys_def)
  have "every_run_ends_with (operation_script sha hash config c Q Op) (\<lambda>M. \<forall>p\<in>set c.
    op_result (Op p) (M p) = map (\<lambda>t. map (\<lambda>k. ?V (c ! k) ! t) [0..<length c]) [0..<length shapes])"
  proof (rule all_pairs_results [OF c fits trust length_all_gather_exchanges all_gather_exchanges_pairs])
    show "messages_differ ?es ?ids" by (rule all_gather_messages_differ [OF fits])
    show "mset (spawned_tasks (run_operation sha (Op p) (Some (Q p)))) = party_tasks (collective_plan ?es ?ids) p"
      if "p \<in> set c" for p
      using out [OF that] all_gather_tasks_plan [OF c that] n by auto
    show "length (op_storage (Op p)) = length shapes \<and> (\<forall>st\<in>set (op_storage (Op p)). length st = length c)"
      if "p \<in> set c" for p
      using out [OF that] X that by (auto dest: arg_cong [where f = length])
    show columns: "map shape_of (column k (op_storage (Op p))) = shapes
        \<and> (c ! k = p \<longrightarrow> column k (op_storage (Op p)) = ?V (c ! k))" if "p \<in> set c" "k < length c" for p k
      using own_column [where vs = "?V p" and shapes = shapes and k = k and c = c and fresh = "fresh p" and p = p]
        out X that by (auto simp del: map_map)
    show "op_memory (Op (c ! k)) (?cell g k) = leaf_bytes (leaves_of (?V (c ! k)) ! g)"
      if "g < length ?es" "k < length c" for g k
      unfolding op_memory_cell
      using cell_value [of k "op_storage (Op (c ! k))" shapes g] columns [of "c ! k" k] that
      by (metis length_all_gather_exchanges nth_mem)
    show "map shape_of (?V (c ! k)) = shapes" if "k < length c" for k using X that by simp
    show "j = j'" if "g < length ?es" "g' < length ?es" "?cell g j = ?cell g' j'" for g j g' j'
      using cell_at_inj [of g shapes g' j j'] that by simp
  qed (simp_all add: n base_gathered all_gather_base_def all_gather_of_def get_byte_size_leaf leaf_is_field)
  moreover have "element_struct (X s ! t) = ?V s ! t" if "s \<in> set c" "t < length shapes" for s t
  proof -
    have "length (X s) = length shapes" using X that(1) by (metis length_map)
    then show ?thesis using that(2) by simp
  qed
  ultimately show "every_run_ends_with (operation_script sha hash config c Q Op) (\<lambda>M. \<forall>p\<in>set c.
      op_result (Op p) (M p) = map (\<lambda>t. map (\<lambda>s. element_struct (X s ! t)) c) [0..<length shapes])"
    by (simp only: in_party_order [of c "length shapes" "\<lambda>s t. element_struct (X s ! t)" ?V])
qed

section \<open>Examples\<close>

definition example_values :: "party_id \<Rightarrow> element list" where
  "example_values p = [Plain (Field 32 [ucast p, 7]), Share (Field 8 [ucast p]) p [1, 2]]"

definition example_gather :: "party_id \<Rightarrow> net_operation" where
  "example_gather p = the (multi_all_gather True (\<lambda>_ _. 0) p [1, 2] (example_values p))"

theorem multi_all_gather_correct_witness:
  "every_run_ends_with (operation_script (\<lambda>x. x) (\<lambda>x. x) (\<lambda>_. example_config) [1, 2] net_queue_new example_gather)
     (\<lambda>M. op_result (example_gather 1) (M 1)
            = [[Field 32 [1, 7], Field 32 [2, 7]], [Structure [Field 8 [1]], Structure [Field 8 [2]]]]
        \<and> op_result (example_gather 2) (M 2)
            = [[Field 32 [1, 7], Field 32 [2, 7]], [Structure [Field 8 [1]], Structure [Field 8 [2]]]])"
proof -
  let ?shapes = "[Field 32 [0, 0], Structure [Field 8 [0]]]" and ?c = "[1, 2] :: party_id list"
  have c: "is_communicator ?c" by (simp add: is_communicator_def)
  have fits: "fits_messages ?shapes" by (simp add: fits_messages_def MESSAGE_SIZE_LIMIT_def)
  have trust: "all_trust (\<lambda>_. example_config) ?c" by (simp add: all_trust_def example_trusts)
  have X: "\<forall>p\<in>set ?c. (\<forall>x\<in>set (example_values p). element_ok p ?c x)
      \<and> map shape_of (map element_struct (example_values p)) = ?shapes"
    by (simp add: example_values_def)
  then have ops: "\<forall>p\<in>set ?c. multi_all_gather True (\<lambda>_ _. 0) p ?c (example_values p) = Some (example_gather p)"
    using multi_all_gather_call [OF c] by (simp add: example_gather_def del: map_map)
  have Q: "counters_agree net_queue_new ?c (all_gather_keys (\<lambda>x. x) ?c (gathered_metadata True ?shapes)) Map.empty"
    by (simp add: counters_agree_def net_queue_new_def)
  show ?thesis
    by (rule every_run_ends_with_mono
        [OF conjunct2 [OF multi_all_gather_correct [where fresh = "\<lambda>_ _ _. 0", OF c fits trust X ops Q]]])
      (simp add: example_values_def upt_rec)
qed

end
