(* ===== verification/Net_All_To_All.thy ===== *)
theory Net_All_To_All
  imports Net_Results
begin

text \<open>
  All-to-all from the call in C++ to the returned values, and the overload for a single value, which
  does not communicate; the overload of all-gather for a single value is the variadic one.
\<close>

section \<open>All-to-all\<close>

definition exchanged_metadata :: "bool \<Rightarrow> struct list \<Rightarrow> all_to_all_metadata list" where
  "exchanged_metadata le shapes = map (all_to_all_of le) (leaves_of shapes)"

definition all_to_all_exchanges :: "bool \<Rightarrow> communicator \<Rightarrow> struct list \<Rightarrow> address exchange list" where
  "all_to_all_exchanges le c shapes =
     map (\<lambda>(m, send, row). all_to_all_exchange c m (\<lambda>_. send) (\<lambda>_. row))
       (zip (exchanged_metadata le shapes)
         (zip (cell_rows Send_Cell (length c) shapes) (cell_rows Result_Cell (length c) shapes)))"

text \<open>The values that a party has for the party \<open>s\<close>.\<close>

definition values_for :: "communicator \<Rightarrow> party_id \<Rightarrow> element list list \<Rightarrow> struct list" where
  "values_for c s xs = map (\<lambda>x. element_struct (x ! index_of c s)) xs"

definition elements_ok :: "party_id \<Rightarrow> communicator \<Rightarrow> struct list \<Rightarrow> element list list \<Rightarrow> bool" where
  "elements_ok p c shapes xs \<longleftrightarrow> length xs = length shapes
     \<and> (\<forall>t < length xs. length (xs ! t) = length c \<and> element_ok p c (xs ! t ! index_of c p)
          \<and> (\<forall>k < length c. shape_of (element_struct (xs ! t ! k)) = shapes ! t))"

lemma index_of_nth: "p \<in> set c \<Longrightarrow> index_of c p < length c \<and> c ! index_of c p = p"
  by (induction c) (auto simp: index_of_def)

lemma index_of_index:
  assumes "distinct c" "k < length c"
  shows "index_of c (c ! k) = k"
  using index_of_nth [of "c ! k" c] nth_eq_iff_index_eq [OF assms(1), of "index_of c (c ! k)" k] assms(2) by simp

lemma length_exchanged_metadata [simp]: "length (exchanged_metadata le shapes) = structure_fields_of shapes"
  by (simp add: exchanged_metadata_def)

lemma length_all_to_all_exchanges [simp]: "length (all_to_all_exchanges le c shapes) = structure_fields_of shapes"
  by (simp add: all_to_all_exchanges_def)

lemma all_to_all_exchanges_nth:
  "g < structure_fields_of shapes \<Longrightarrow> all_to_all_exchanges le c shapes ! g
     = all_to_all_exchange c (exchanged_metadata le shapes ! g)
         (\<lambda>_. cell_rows Send_Cell (length c) shapes ! g) (\<lambda>_. cell_rows Result_Cell (length c) shapes ! g)"
  by (simp add: all_to_all_exchanges_def)

lemma all_to_all_exchanges_pairs:
  "all_pairs c (\<lambda>g j. lookup c (cell_rows Send_Cell (length c) shapes ! g)) (cell_at Result_Cell shapes)
     (all_to_all_exchanges le c shapes)"
  unfolding all_pairs_def
proof (intro allI impI)
  let ?send = "cell_rows Send_Cell (length c) shapes"
  fix g assume "g < length (all_to_all_exchanges le c shapes)"
  then have g: "g < structure_fields_of shapes" by simp
  have "map (\<lambda>j. star (c ! j) c (lookup c (?send ! g)) (\<lambda>r. cell_rows Result_Cell (length c) shapes ! g ! j)) [0..<length c]
      = map (\<lambda>j. star (c ! j) c (lookup c (?send ! g)) (\<lambda>_. cell_at Result_Cell shapes g j)) [0..<length c]"
    by (rule map_cong) (simp_all add: cell_rows_nth [OF g])
  then show "ex_pairs (all_to_all_exchanges le c shapes ! g)
      = concat (map (\<lambda>j. star (c ! j) c (lookup c (?send ! g)) (\<lambda>_. cell_at Result_Cell shapes g j)) [0..<length c])"
    unfolding all_to_all_exchanges_nth [OF g] all_to_all_exchange_def exchange.select_convs by (rule arg_cong)
qed

lemma all_to_all_of_shape: "\<not> is_structure v \<Longrightarrow> all_to_all_of le (shape_of v) = all_to_all_of le v"
  by (cases v) (simp_all add: all_to_all_of_def)

lemma all_to_all_metadata:
  assumes "map shape_of vs = shapes"
  shows "map (all_to_all_of le) (leaves_of vs) = exchanged_metadata le shapes"
  unfolding exchanged_metadata_def assms [symmetric] leaves_of_shapes map_map
  by (rule map_cong) (auto simp: leaves_of_def all_to_all_of_shape dest: leaves_are_fields)

lemma elements_shape:
  assumes "elements_ok p c shapes xs" "k < length c"
  shows "map shape_of (map (\<lambda>x. element_struct (x ! k)) xs) = shapes"
  using assms by (intro nth_equalityI) (auto simp: elements_ok_def)

lemma elements_length: "elements_ok p c shapes xs \<Longrightarrow> x \<in> set xs \<Longrightarrow> length x = length c"
  by (auto simp: elements_ok_def in_set_conv_nth)

lemma multi_all_to_all_call:
  assumes c: "is_communicator c" "p \<in> set c" and xs: "elements_ok p c shapes xs" and several: "length xs \<noteq> 1"
  shows "multi_all_to_all_operation le fresh p c xs
    = Some \<lparr>op_call = Some (Ffi_multi_all_to_all (exchanged_metadata le shapes) c
               (to_2d_ffi (map (map Some) (cell_rows Send_Cell (length c) shapes)))
               (to_2d_ffi (map (map Some) (cell_rows Result_Cell (length c) shapes)))),
            op_send = map (map element_struct) xs,
            op_storage = map (own_storage fresh p c) (values_for c p xs)\<rparr>"
proof -
  have n: "c \<noteq> []" and k: "index_of c p < length c" "0 < length c" using c(2) index_of_nth [OF c(2)] by auto
  have ok: "\<forall>x\<in>set (map (\<lambda>x. x ! index_of c p) xs). element_ok p c x"
    using xs by (auto simp: elements_ok_def in_set_conv_nth)
  have own: "map element_struct (map (\<lambda>x. x ! index_of c p) xs) = values_for c p xs"
    by (simp add: values_for_def)
  have shape: "map shape_of (values_for c p xs) = shapes"
    using elements_shape [OF xs k(1)] by (simp only: values_for_def)
  have hd: "shapes = map shape_of (map hd (map (map element_struct) xs))"
  proof -
    have "hd (map element_struct x) = element_struct (x ! 0)" if "x \<in> set xs" for x
      using elements_length [OF xs that] k(2) by (cases x) auto
    then show ?thesis using elements_shape [OF xs k(2)] by auto
  qed
  have len: "\<forall>st\<in>set (map (map element_struct) xs). length st = length c"
    using elements_length [OF xs] by auto
  have meta: "collect_values (all_to_all_of le) (map (\<lambda>x. element_struct (x ! 0)) xs) = Some (exchanged_metadata le shapes)"
    using all_to_all_metadata [OF elements_shape [OF xs k(2)]] by (simp only: collect_values_leaves)
  have req: "require (length xs \<noteq> 1 \<and> p \<in> set c \<and> (\<forall>x\<in>set xs. length x = length c)) = Some ()"
    using c(2) elements_length [OF xs] several by (simp add: require_def)
  have own_shape: "shapes = map shape_of (map hd (map (own_storage fresh p c) (values_for c p xs)))"
    "\<forall>st\<in>set (map (own_storage fresh p c) (values_for c p xs)). length st = length c"
    using own_storages [OF n shape, of fresh p] by blast+
  have len': "length (map (\<lambda>_. p) c) = length c" by simp
  have send: "Option.bind (make_multi_accessors p (map (\<lambda>_. p) c) Send_Cell (map (map element_struct) xs))
      (make_multi_data_ptrs c) = Some (map (map Some) (cell_rows Send_Cell (length c) shapes))"
    using storage_pointers [OF n len' hd, of p Send_Cell Some] len by simp
  have receive: "Option.bind (make_multi_accessors p c Result_Cell (map (own_storage fresh p c) (values_for c p xs)))
      (make_multi_data_ptrs c) = Some (map (map Some) (cell_rows Result_Cell (length c) shapes))"
    using storage_pointers [OF n refl own_shape, of p Result_Cell Some] by simp
  obtain a b where ab: "make_multi_accessors p (map (\<lambda>_. p) c) Send_Cell (map (map element_struct) xs) = Some a"
      "make_multi_data_ptrs c a = Some (map (map Some) (cell_rows Send_Cell (length c) shapes))"
      "make_multi_accessors p c Result_Cell (map (own_storage fresh p c) (values_for c p xs)) = Some b"
      "make_multi_data_ptrs c b = Some (map (map Some) (cell_rows Result_Cell (length c) shapes))"
    using send receive by (auto simp: bind_eq_Some_conv)
  show ?thesis
    unfolding multi_all_to_all_operation_def req bind.bind_lunit Let_def
      make_multi_result_storage_own [OF c(2) ok, unfolded own] meta ab communicator_to_ffi_Some [OF c(1)] by simp
qed

lemma multi_all_to_all_several:
  "multi_all_to_all_operation le fresh p c xs = Some op \<Longrightarrow> length xs \<noteq> 1"
  by (auto simp: multi_all_to_all_operation_def require_def bind_eq_Some_conv split: if_splits)

lemma all_to_all_outcome:
  assumes c: "is_communicator c" "p \<in> set c" and fits: "fits_messages shapes" and q: "queue_id q = p"
    and xs: "elements_ok p c shapes xs" and several: "length xs \<noteq> 1"
  obtains q' op where "multi_all_to_all_operation le fresh p c xs = Some op"
    and "op_storage op = map (own_storage fresh p c) (values_for c p xs)"
    and "op_send op = map (map element_struct) xs"
    and "run_operation sha op (Some q) = Communicates q' (all_tasks (all_to_all_tasks c p)
      (zip (exchanged_metadata le shapes)
        (zip (cell_rows Send_Cell (length c) shapes) (cell_rows Result_Cell (length c) shapes)))
      (draw_ids (all_to_all_keys sha c (exchanged_metadata le shapes)) (counters q)))"
    and "counters q' = draw_counters (all_to_all_keys sha c (exchanged_metadata le shapes)) (counters q)"
proof -
  let ?rows = "cell_rows Result_Cell (length c) shapes" and ?send = "cell_rows Send_Cell (length c) shapes"
    and ?ms = "exchanged_metadata le shapes"
  have rows: "?rows \<noteq> []"
    using fits length_cell_rows [of Result_Cell "length c" shapes] unfolding fits_messages_def
    by (metis list.size(3))
  have len: "length ?ms = length ?rows" "length ?send = length ?rows" by simp_all
  have rows_c: "\<forall>row\<in>set ?rows. length row = length c" "\<forall>row\<in>set ?send. length row = length c"
    using rows_of_length by blast+
  have q_c: "queue_id q \<in> set c" using q c(2) by simp
  obtain q' where q': "ffi_multi_all_to_all sha ?ms c (to_2d_ffi (map (map Some) ?send))
        (to_2d_ffi (map (map Some) ?rows)) q
      = Spawns q' (all_tasks (all_to_all_tasks c p) (zip ?ms (zip ?send ?rows))
          (draw_ids (all_to_all_keys sha c ?ms) (counters q)))"
    "counters q' = draw_counters (all_to_all_keys sha c ?ms) (counters q)"
    using ffi_all_to_all_spawns [OF c(1) q_c rows rows_c(1) len(1) rows_c(2) len(2), of sha] q by auto
  show thesis
    by (rule that [OF multi_all_to_all_call [OF c xs several] _ _ _ q'(2)])
      (simp_all add: run_operation_def q'(1) del: map_map)
qed

lemma all_to_all_tasks_plan:
  assumes "is_communicator c" "p \<in> set c" "length ids = structure_fields_of shapes"
  shows "mset (all_tasks (all_to_all_tasks c p) (zip (exchanged_metadata le shapes)
      (zip (cell_rows Send_Cell (length c) shapes) (cell_rows Result_Cell (length c) shapes))) ids)
    = party_tasks (collective_plan (all_to_all_exchanges le c shapes) ids) p"
  unfolding all_to_all_exchanges_def
proof (rule party_tasks_plan)
  fix x ident assume x: "x \<in> set (zip (exchanged_metadata le shapes)
      (zip (cell_rows Send_Cell (length c) shapes) (cell_rows Result_Cell (length c) shapes)))"
  obtain m send row where mr: "x = (m, send, row)" by (cases x)
  have "(send, row) \<in> set (zip (cell_rows Send_Cell (length c) shapes) (cell_rows Result_Cell (length c) shapes))"
    using x unfolding mr by (rule set_zip_rightD)
  then have "send \<in> set (cell_rows Send_Cell (length c) shapes)" "row \<in> set (cell_rows Result_Cell (length c) shapes)"
    by (rule set_zip_leftD, rule set_zip_rightD)
  then have "length send = length c" "length row = length c" by (auto dest: rows_of_length)
  then show "mset (all_to_all_tasks c p x ident)
      = party_tasks (exchange_transfers ((\<lambda>(m, send, row). all_to_all_exchange c m (\<lambda>_. send) (\<lambda>_. row)) x) ident) p"
    using all_to_all_ends [of c p "\<lambda>_. send" "\<lambda>_. row" m ident] assms(1,2) unfolding mr
    by (simp add: is_communicator_def)
qed (use assms(3) in simp)

lemma base_exchanged:
  assumes "g < structure_fields_of shapes"
  shows "ex_base (all_to_all_exchanges le c shapes ! g) = all_to_all_base (all_to_all_of le (leaves_of shapes ! g))"
  using assms by (simp add: all_to_all_exchanges_nth all_to_all_exchange_def exchanged_metadata_def)

lemma all_to_all_messages_differ:
  assumes "fits_messages shapes"
  shows "messages_differ (all_to_all_exchanges le c shapes)
    (draw_ids (all_to_all_keys sha c (exchanged_metadata le shapes)) C)"
proof (rule same_key_ids_differ)
  let ?es = "all_to_all_exchanges le c shapes" and ?keys = "all_to_all_keys sha c (exchanged_metadata le shapes)"
  fix g h assume "g < length ?es" "h < length ?es"
    "base_datatype (ex_base (?es ! g)) = base_datatype (ex_base (?es ! h))"
  then show "?keys ! g = ?keys ! h"
    by (simp add: base_exchanged all_to_all_keys_def exchanged_metadata_def counter_key_of_def message_hash_def
        all_to_all_base_def)
qed (use assms in \<open>simp_all add: fits_messages_def all_to_all_keys_def\<close>)

lemma lookup_send:
  assumes "distinct c" "k < length c" "g < structure_fields_of shapes"
  shows "lookup c (cell_rows Send_Cell (length c) shapes ! g) (c ! k) = cell_at Send_Cell shapes g k"
proof -
  have "length (cell_rows Send_Cell (length c) shapes ! g) = length c"
    using assms(3) by (intro rows_of_length [of _ Send_Cell _ shapes]) simp
  then show ?thesis using lookup_nth [OF assms(1) _ assms(2)] cell_rows_nth [OF assms(3,2)] by metis
qed

text \<open>C6:
  All-to-all, end to end.  When each party of a communicator calls all-to-all with an array of values
  for every party, all of the same shapes, and the queues agree on the counters of the messages,
  then every call is accepted, the counters agree again afterwards, and every run of the network
  ends with no error at any party; then the array that party \<open>p\<close> returns holds in the slot of each
  party \<open>s\<close> the value that \<open>s\<close> passed for \<open>p\<close>: the arrays are transposed.
\<close>

theorem multi_all_to_all_correct:
  assumes c: "is_communicator c" and fits: "fits_messages shapes" and trust: "all_trust config c"
    and X: "\<forall>p\<in>set c. elements_ok p c shapes (X p)"
    and ops: "\<forall>p\<in>set c. multi_all_to_all_operation le (fresh p) p c (X p) = Some (Op p)"
    and Q: "counters_agree Q c (all_to_all_keys sha c (exchanged_metadata le shapes)) C"
  shows "(\<forall>p\<in>set c. \<exists>q' tasks. run_operation sha (Op p) (Some (Q p)) = Communicates q' tasks
        \<and> (\<forall>key\<in>set (all_to_all_keys sha c (exchanged_metadata le shapes)).
             counters q' key = draw_counters (all_to_all_keys sha c (exchanged_metadata le shapes)) C key))
    \<and> every_run_ends_with (operation_script sha hash config c Q Op)
        (\<lambda>M. \<forall>p\<in>set c. op_result (Op p) (M p)
           = map (\<lambda>t. map (\<lambda>s. element_struct (X s ! t ! index_of c p)) c) [0..<length shapes])"
proof
  let ?keys = "all_to_all_keys sha c (exchanged_metadata le shapes)"
  let ?ids = "draw_ids ?keys C" and ?es = "all_to_all_exchanges le c shapes"
    and ?send = "\<lambda>g. lookup c (cell_rows Send_Cell (length c) shapes ! g)" and ?W = "\<lambda>p k. values_for c p (X (c ! k))"
  have d: "distinct c" using c by (simp add: is_communicator_def)
  have out: "op_storage (Op p) = map (own_storage (fresh p) p c) (values_for c p (X p))
      \<and> op_send (Op p) = map (map element_struct) (X p)
      \<and> (\<exists>q'. run_operation sha (Op p) (Some (Q p)) = Communicates q' (all_tasks (all_to_all_tasks c p)
          (zip (exchanged_metadata le shapes)
            (zip (cell_rows Send_Cell (length c) shapes) (cell_rows Result_Cell (length c) shapes))) ?ids)
        \<and> counters q' = draw_counters ?keys (counters (Q p)))" if p: "p \<in> set c" for p
  proof -
    have x: "elements_ok p c shapes (X p)" using X p by blast
    have op: "multi_all_to_all_operation le (fresh p) p c (X p) = Some (Op p)" using ops p by blast
    show ?thesis
      by (rule all_to_all_outcome [OF c p fits agreed_counters(1) [OF Q p] x multi_all_to_all_several [OF op], of le "fresh p" sha]) (use op agreed_counters(2) [OF Q p] in auto)
  qed
  show "\<forall>p\<in>set c. \<exists>q' tasks. run_operation sha (Op p) (Some (Q p)) = Communicates q' tasks
      \<and> (\<forall>key\<in>set ?keys. counters q' key = draw_counters ?keys C key)"
  proof
    fix p assume p: "p \<in> set c"
    show "\<exists>q' tasks. run_operation sha (Op p) (Some (Q p)) = Communicates q' tasks
        \<and> (\<forall>key\<in>set ?keys. counters q' key = draw_counters ?keys C key)"
      using out [OF p] agreed_counters(3) [OF Q p] by auto
  qed
  have n: "length ?keys = structure_fields_of shapes" by (simp add: all_to_all_keys_def)
  have W: "map shape_of (?W p k) = shapes" if "p \<in> set c" "k < length c" for p k
    using elements_shape [of "c ! k" c shapes "X (c ! k)" "index_of c p"] X that index_of_nth
    by (simp only: values_for_def nth_mem)
  have "every_run_ends_with (operation_script sha hash config c Q Op) (\<lambda>M. \<forall>p\<in>set c.
    op_result (Op p) (M p) = map (\<lambda>t. map (\<lambda>k. ?W p k ! t) [0..<length c]) [0..<length shapes])"
  proof (rule all_pairs_results [OF c fits trust length_all_to_all_exchanges all_to_all_exchanges_pairs])
    show "messages_differ ?es ?ids" by (rule all_to_all_messages_differ [OF fits])
    show "mset (spawned_tasks (run_operation sha (Op p) (Some (Q p)))) = party_tasks (collective_plan ?es ?ids) p"
      if "p \<in> set c" for p
      using out [OF that] all_to_all_tasks_plan [OF c that] n by auto
    show "length (op_storage (Op p)) = length shapes \<and> (\<forall>st\<in>set (op_storage (Op p)). length st = length c)"
      if "p \<in> set c" for p
      using out [OF that] X that by (auto simp: values_for_def elements_ok_def)
    show "map shape_of (column k (op_storage (Op p))) = shapes
        \<and> (c ! k = p \<longrightarrow> column k (op_storage (Op p)) = ?W p k)" if "p \<in> set c" "k < length c" for p k
      using own_column [where vs = "values_for c p (X p)" and shapes = shapes and k = k and c = c
          and fresh = "fresh p" and p = p] W [of p "index_of c p"] index_of_nth [OF that(1)] out that
      by (auto simp del: map_map)
    show "map shape_of (?W p k) = shapes" if "p \<in> set c" "k < length c" for p k by (rule W [OF that])
    show "op_memory (Op (c ! k)) (?send g p) = leaf_bytes (leaves_of (?W p k) ! g)"
      if "g < length ?es" "p \<in> set c" "k < length c" for g p k
    proof -
      let ?j = "index_of c p"
      have j: "?j < length c" "c ! ?j = p" using index_of_nth [OF that(2)] by blast+
      have g: "g < structure_fields_of shapes" using that(1) by simp
      have k: "c ! k \<in> set c" using that(3) by simp
      have column: "column ?j (op_send (Op (c ! k))) = ?W p k"
        using out [OF k] elements_length [of "c ! k" c shapes "X (c ! k)"] X k j(1)
        by (auto simp: column_def values_for_def)
      have "?send g p = cell_at Send_Cell shapes g ?j" using lookup_send [OF d j(1) g] j(2) by simp
      then show ?thesis
        using cell_value [of ?j "op_send (Op (c ! k))" shapes g] W [OF that(2,3)] g column
        by (metis op_memory_cell(2))
    qed
    show "j = j'" if "g < length ?es" "g' < length ?es" "r \<in> set c" "?send g r = cell_at Result_Cell shapes g' j'"
      for g j r g' j'
      using lookup_send [OF d, of "index_of c r" g shapes] index_of_nth [OF that(3)] that
      by (simp add: cell_at_def split: prod.splits)
  qed (simp_all add: n base_exchanged all_to_all_base_def all_to_all_of_def get_byte_size_leaf leaf_is_field)
  moreover have "map (\<lambda>t. map (\<lambda>k. ?W p k ! t) [0..<length c]) [0..<length shapes]
      = map (\<lambda>t. map (\<lambda>s. element_struct (X s ! t ! index_of c p)) c) [0..<length shapes]" for p
    by (rule in_party_order [of c _ "\<lambda>s t. element_struct (X s ! t ! index_of c p)" "\<lambda>s. values_for c p (X s)"])
      (use X in \<open>simp add: values_for_def elements_ok_def\<close>)
  ultimately show "every_run_ends_with (operation_script sha hash config c Q Op) (\<lambda>M. \<forall>p\<in>set c.
      op_result (Op p) (M p) = map (\<lambda>t. map (\<lambda>s. element_struct (X s ! t ! index_of c p)) c) [0..<length shapes])"
    by simp
qed

section \<open>The overload for a single value\<close>

text \<open>C35:
  The overload of all-to-all for one array of values: when the values are tensors or numbers, not
  structures, it makes no foreign call, so it sends and receives nothing, returns without an error
  whatever the state of the queue, and the slots of the other parties keep the indeterminate bytes
  that the storage had when it was made.
\<close>

theorem all_to_all_never_communicates:
  assumes "i \<in> set c" "length x = length c" "\<forall>k < length c. x ! k = Plain (v k) \<and> \<not> is_structure (v k)"
  shows "\<exists>op. all_to_all le fresh i c x = Some op \<and> op_call op = None
    \<and> run_operation sha op q = Returns_At_Once
    \<and> op_storage op = [map (\<lambda>k. if c ! k = i then v (index_of c i) else default_like (fresh k) (v (index_of c i)))
        [0..<length c]]"
proof -
  let ?own = "index_of c i"
  have k: "?own < length c" "c ! ?own = i" using index_of_nth [OF assms(1)] by blast+
  then have n: "c \<noteq> []" "x \<noteq> []" "0 < length c" using assms(2) by auto
  let ?storage = "map (\<lambda>k. if c ! k = i then v ?own else default_like (fresh k) (v ?own)) [0..<length c]"
  have storage: "make_result_storage_with fresh i c (x ! ?own) = Some ?storage"
    using assms(1,3) k by (simp add: make_result_storage_with_def)
  have "\<not> is_structure (hd (map element_struct x))" using assms(3) n by (simp add: hd_map hd_conv_nth)
  then have send: "make_accessors i (map (\<lambda>_. i) c) (Send_Cell 0) (map element_struct x)
      = Some (Single_Accessors (party_accessors i (map (\<lambda>_. i) c) (Send_Cell 0 0)))"
    using assms(2) by (simp add: make_accessors_def)
  obtain as where receive: "make_accessors i c (Result_Cell 0) ?storage = Some as"
    by (simp add: make_accessors_def)
  show ?thesis
    unfolding all_to_all_def Let_def storage bind.bind_lunit send receive
    using assms(1,2) by (simp add: require_def run_operation_def)
qed

lemma ffi_all_gather_one_row:
  assumes "c \<noteq> []" "length row = length c" "is_communicator c"
  shows "ffi_run sha (Ffi_all_gather m c (map Some row)) q
    = ffi_run sha (Ffi_multi_all_gather [m] c (to_2d_ffi [map Some row])) q"
proof (cases q)
  case (Some q)
  have one: "to_non_null_vec2d (to_2d_ffi [map Some row]) = Some (to_2d_ffi [row])"
    "inner_extent (to_2d_ffi [row]) = length c" "outer_extent (to_2d_ffi [row]) = 1"
    using to_2d_ffi_rows [of "[row]" "length c"] assms(1,2) by simp_all
  have "to_2d_ffi [row] = vec2d_from_inner row"
    by (simp add: to_2d_ffi_def vec2d_from_inner_def)
  then show ?thesis
    using one assms by (simp add: Some ffi_all_gather_def ffi_multi_all_gather_def with_pointer_def to_set_communicator)
qed simp

text \<open>C30:
  The overload of all-gather for one value has its own foreign call for a value that is not a
  structure, but it does what the variadic overload does for this one value: the same storage,
  the same memory behind the pointers, and the same error, panic or tasks from the foreign call, for
  every state of the queue.
\<close>

theorem all_gather_is_multi_all_gather:
  assumes c: "is_communicator c" "i \<in> set c" and x: "element_ok i c x"
  shows "\<exists>op op'. all_gather le fresh i c x = Some op \<and> multi_all_gather le fresh i c [x] = Some op'
    \<and> op_storage op = op_storage op' \<and> op_memory op = op_memory op'
    \<and> (\<forall>sha q. run_operation sha op q = run_operation sha op' q)"
proof -
  let ?v = "element_struct x"
  let ?shapes = "[shape_of ?v]" and ?storage = "own_storage fresh i c ?v"
  have n: "c \<noteq> []" using c(2) by auto
  have multi: "multi_all_gather le fresh i c [x] = Some \<lparr>op_call = Some (Ffi_multi_all_gather
        (map (all_gather_of le) (leaves_of ?shapes)) c
        (to_2d_ffi (map (map Some) (cell_rows Result_Cell (length c) ?shapes)))),
      op_send = [], op_storage = [?storage]\<rparr>"
    using multi_all_gather_call [OF c, of "[x]" ?shapes le fresh] x by simp
  have storage: "make_result_storage_with fresh i c x = Some ?storage"
    by (rule make_result_storage_own [OF c(2) x])
  have meta: "collect_values (all_gather_of le) [?v] = Some (map (all_gather_of le) (leaves_of ?shapes))"
    using all_gather_metadata [of "[?v]" ?shapes le] by (simp add: collect_values_leaves)
  have hd: "shape_of (hd ?storage) = shape_of ?v" by (rule own_storage_hd [OF n])
  then have fields: "structure_fields (hd ?storage) = structure_fields ?v" by (metis structure_fields_shape)
  have ptrs: "make_data_ptrs c (party_accessors i c cell) = Some (map Some (map cell [0..<length c]))" for cell
    using party_accessors_ptrs [of i c cell] by (simp add: make_data_ptrs_def)
  have ops: "op_memory \<lparr>op_call = a, op_send = [], op_storage = sts\<rparr>
      = op_memory \<lparr>op_call = b, op_send = [], op_storage = sts\<rparr>" for a b sts
  proof
    show "op_memory \<lparr>op_call = a, op_send = [], op_storage = sts\<rparr> x
      = op_memory \<lparr>op_call = b, op_send = [], op_storage = sts\<rparr> x" for x by (cases x) simp_all
  qed
  have ok: "require (i \<in> set c) = Some ()" using c(2) by (simp add: require_def)
  show ?thesis
  proof (cases "is_structure ?v")
    case True
    let ?rows = "map (\<lambda>j. party_accessors i c (Result_Cell 0 j)) [0..<structure_fields ?v]"
    have "is_structure (hd ?storage)" using True hd is_structure_shape by metis
    then have accessors: "make_accessors i c (Result_Cell 0) ?storage = Some (Multi_Accessors ?rows)"
      by (simp add: make_accessors_def fields)
    have "map (make_data_ptrs c) ?rows = map Some (map (map Some) (cell_rows Result_Cell (length c) ?shapes))"
      using ptrs by (simp add: cell_rows_def comp_def)
    then have data: "make_multi_data_ptrs c ?rows = Some (map (map Some) (cell_rows Result_Cell (length c) ?shapes))"
      by (simp only: make_multi_data_ptrs_def collect_option_Some)
    show ?thesis
      unfolding multi
      by (simp add: all_gather_def ok meta storage accessors data communicator_to_ffi_Some [OF c(1)] del: map_map)
  next
    case False
    let ?row = "map (Result_Cell 0 0) [0..<length c]" and ?ms = "map (all_gather_of le) (leaves_of ?shapes)"
    have "\<not> is_structure (hd ?storage)" using False hd is_structure_shape by metis
    then have accessors: "make_accessors i c (Result_Cell 0) ?storage
        = Some (Single_Accessors (party_accessors i c (Result_Cell 0 0)))"
      by (simp add: make_accessors_def)
    have one: "length ?ms = 1" "cell_rows Result_Cell (length c) ?shapes = [?row]"
      using structure_fields_Field [OF False] by (simp_all add: cell_rows_def)
    have "xs = [xs ! 0]" if "length xs = 1" for xs :: "all_gather_metadata list"
      using that by (cases xs) auto
    then have ms: "?ms = [?ms ! 0]" using one(1) by blast
    have single: "all_gather le fresh i c x = Some \<lparr>op_call = Some (Ffi_all_gather (?ms ! 0) c (map Some ?row)),
        op_send = [], op_storage = [?storage]\<rparr>"
      using one(1) unfolding all_gather_def ok meta storage accessors communicator_to_ffi_Some [OF c(1)]
      by (simp add: accessors ptrs require_def del: map_map)
    have "ffi_run sha (Ffi_all_gather (?ms ! 0) c (map Some ?row)) q
        = ffi_run sha (Ffi_multi_all_gather ?ms c (to_2d_ffi (map (map Some) (cell_rows Result_Cell (length c) ?shapes)))) q"
      for sha q
      using ffi_all_gather_one_row [OF n _ c(1), of ?row sha "?ms ! 0" q] ms one(2)
      by (simp del: map_map leaves_of_simps)
    then show ?thesis
      unfolding multi single using ops by (simp add: run_operation_def del: map_map leaves_of_simps)
  qed
qed

section \<open>Examples\<close>

definition example_arrays :: "party_id \<Rightarrow> element list list" where
  "example_arrays p = [[Plain (Field 32 [ucast p, 1]), Plain (Field 32 [ucast p, 2])], [Plain (Field 8 [ucast p]), Plain (Field 8 [0])]]"

definition example_exchange :: "party_id \<Rightarrow> net_operation" where
  "example_exchange p = the (multi_all_to_all_operation True (\<lambda>_ _. 0) p [1, 2] (example_arrays p))"

theorem multi_all_to_all_correct_witness:
  "every_run_ends_with (operation_script (\<lambda>x. x) (\<lambda>x. x) (\<lambda>_. example_config) [1, 2] net_queue_new example_exchange)
     (\<lambda>M. op_result (example_exchange 1) (M 1) = [[Field 32 [1, 1], Field 32 [2, 1]], [Field 8 [1], Field 8 [2]]]
        \<and> op_result (example_exchange 2) (M 2) = [[Field 32 [1, 2], Field 32 [2, 2]], [Field 8 [0], Field 8 [0]]])"
proof -
  let ?shapes = "[Field 32 [0, 0], Field 8 [0]]" and ?c = "[1, 2] :: party_id list"
  have c: "is_communicator ?c" by (simp add: is_communicator_def)
  have fits: "fits_messages ?shapes" by (simp add: fits_messages_def MESSAGE_SIZE_LIMIT_def)
  have trust: "all_trust (\<lambda>_. example_config) ?c" by (simp add: all_trust_def example_trusts)
  have X: "\<forall>p\<in>set ?c. elements_ok p ?c ?shapes (example_arrays p)"
    by (auto simp: elements_ok_def example_arrays_def index_of_def less_Suc_eq)
  have ops: "\<forall>p\<in>set ?c. multi_all_to_all_operation True (\<lambda>_ _. 0) p ?c (example_arrays p) = Some (example_exchange p)"
  proof
    fix p assume p: "p \<in> set ?c"
    have "length (example_arrays p) \<noteq> 1" by (simp add: example_arrays_def)
    from multi_all_to_all_call [OF c p X [rule_format, OF p] this, of True "\<lambda>_ _. 0"]
    show "multi_all_to_all_operation True (\<lambda>_ _. 0) p ?c (example_arrays p) = Some (example_exchange p)"
      by (simp only: example_exchange_def option.sel)
  qed
  have Q: "counters_agree net_queue_new ?c (all_to_all_keys (\<lambda>x. x) ?c (exchanged_metadata True ?shapes)) Map.empty"
    by (simp add: counters_agree_def net_queue_new_def)
  show ?thesis
    by (rule every_run_ends_with_mono
        [OF conjunct2 [OF multi_all_to_all_correct [where fresh = "\<lambda>_ _ _. 0", OF c fits trust X ops Q]]])
      (simp add: example_arrays_def upt_rec index_of_def)
qed

theorem all_to_all_never_communicates_witness:
  "\<exists>op. all_to_all True (\<lambda>_ _. 0) 1 [1, 2] [Plain (Field 8 [3]), Plain (Field 8 [4])] = Some op
     \<and> run_operation (\<lambda>x. x) op None = Returns_At_Once \<and> op_storage op = [[Field 8 [3], Field 8 [0]]]"
  using all_to_all_never_communicates [of 1 "[1, 2]" "[Plain (Field 8 [3]), Plain (Field 8 [4])]"
      "\<lambda>k. Field 8 [of_nat k + 3]" True "\<lambda>_ _. 0" "\<lambda>x. x" None]
  by (auto simp: less_Suc_eq upt_rec index_of_def)

theorem all_gather_is_multi_all_gather_witness:
  "\<exists>op op'. all_gather True (\<lambda>_ _. 0) 1 [1, 2] (Plain (Field 8 [3])) = Some op
     \<and> multi_all_gather True (\<lambda>_ _. 0) 1 [1, 2] [Plain (Field 8 [3])] = Some op'
     \<and> op_storage op = op_storage op'
     \<and> run_operation (\<lambda>x. x) op (Some (net_queue_new 1)) = run_operation (\<lambda>x. x) op' (Some (net_queue_new 1))"
proof -
  have "is_communicator [1, 2]" by (simp add: is_communicator_def)
  from all_gather_is_multi_all_gather [OF this, of 1 "Plain (Field 8 [3])" True "\<lambda>_ _. 0"]
  show ?thesis by fastforce
qed

end
