(* ===== verification/Spec2Isabelle.thy ===== *)
theory Spec2Isabelle
  imports Expr_Cipher Ntt_Correct Net_All_To_All
begin

text \<open>
  A verification library for hmpc, a C++ library for multi-party computation on accelerators.

  The program. hmpc computes on integers of any bit size. An integer is an array of limbs (machine
  words of one type, \<^verbatim>\<open>core/uint.hpp\<close>), seen through a span that knows its size in bits, its
  signedness and whether the bits above its size are kept normal (\<^verbatim>\<open>core/bit_span.hpp\<close>,
  \<^verbatim>\<open>core/limb_span.hpp\<close>). The algorithms of \<^verbatim>\<open>core/num\<close> read and write limbs through spans in
  loops that are unrolled by templates (\<^verbatim>\<open>iter\<close>); each exists for the host and for a device, and most of
  them a second time for spans whose size is known to the compiler only (\<^verbatim>\<open>consteval\<close>), which
  prepare the constants of the modular integers of \<^verbatim>\<open>ints\<close>. On top of these lie the expression templates
  (\<^verbatim>\<open>expr\<close>), their evaluation in SYCL queues (\<^verbatim>\<open>comp\<close>), the network (\<^verbatim>\<open>net\<close>, on top of a Rust library), and
  random number generators and ciphers (\<^verbatim>\<open>random\<close>, \<^verbatim>\<open>crypto\<close>).

  The theories, in the order of the code's layers.
  \<^item> \<open>Prelude\<close>: words of any width, the value of a sequence of limbs, carry sequences, and the
    loops of \<^verbatim>\<open>iter\<close> with their induction principles.
  \<^item> \<open>Limb\<close>: the one-bit word with the arithmetic of \<^verbatim>\<open>uint<bool>\<close>, operands that are compile-time constants or
    run-time values (\<open>arg\<close>), and the three ways of evaluation (compile time, host, device). The
    OpenCL built-ins of a device are a parameter with the documented meaning as the hypothesis \<open>sycl_ok\<close>.
  \<^item> \<open>Core\<close>, \<open>Core_Mul\<close>, \<open>Core_Bits\<close>: the operations on limbs (\<^verbatim>\<open>core/*.hpp\<close>), with every
    shortcut for constants; \<open>dyn_\<close> lemmas give the value of each.
  \<^item> \<open>Span\<close>, \<open>Span_Write\<close>: spans and the read-only views, reading with extension by the sign, and writing.
    The locale \<open>limb_source\<close> is the interface between the views and the algorithms; it is
    interpreted on all views at once. \<open>store b x\<close> is the memory that holds \<open>x\<close> in the shape of \<open>b\<close>: every
    algorithm is shown to be a \<open>store\<close>.
  \<^item> \<open>Num_Arith\<close>, \<open>Num_Compare\<close>, \<open>Num_Shift\<close>, \<open>Num_Bits\<close>, \<open>Num_Multiply\<close>, \<open>Num_Montgomery\<close>: the run-time
    algorithms of \<^verbatim>\<open>core/num\<close>, with results in place where the integer classes work in place.
  \<^item> \<open>Compiletime\<close>, \<open>Ct_Divide\<close>: the compile-time spans and algorithms, in the option monad, where \<open>None\<close> is a
    failed \<^verbatim>\<open>HMPC_COMPILETIME_ASSERT\<close> or a call that does not return. Division is recursive in the code
    and a \<open>partial_function\<close> here, so its theorems state that it returns.
  \<^item> \<open>Ct_Gcd\<close>: the binary algorithm and the extended Euclidean algorithm of the compiler; the storages that the latter
    swaps are the record \<open>euclid\<close>.
  \<^item> \<open>Bigint\<close>: the integers of \<^verbatim>\<open>ints/bigint.hpp\<close> and \<^verbatim>\<open>ints/numeric.hpp\<close>. Objects are declared without initializer;
    what their memory holds is the parameter \<open>g\<close> of every operation, and \<open>bigint_ok\<close> is the invariant of the objects. The lemmas say
    for which operands each operator keeps the invariant and is exact, and what it gives for the others (operands of different signedness, the
    least signed integer, an integer without bits).
  \<^item> \<open>Interfaces\<close>: the locales \<open>modular\<close> (addition, subtraction and multiplication modulo a number) and
    \<open>modular_power\<close>, with the laws of a ring and binary exponentiation proved once.
  \<^item> \<open>Modint\<close>, \<open>Modint_Convert\<close>, \<open>Modint_Type\<close>, \<open>Modint_Power\<close>, \<open>Modint_Signed\<close>: the modular integers of
    \<^verbatim>\<open>ints/mod.hpp\<close> in Montgomery form. The static members are the record \<open>mod_constants\<close>, computed by \<open>mod_type\<close>; objects
    satisfy \<open>mod_ok\<close> and stand for the residue \<open>mod_val\<close>. The locales are interpreted on the operators and on the
    operators that assign.
  \<^item> \<open>Chacha\<close>: the stream cipher engine of \<^verbatim>\<open>crypto/chacha.hpp\<close>, on words of 32 bits, for every number of rounds and every split of
    the last four words into counter and nonce; the double round is shown to be injective and the counter to count.
  \<^item> \<open>Generator\<close>: the number generator of \<^verbatim>\<open>random/number_generator.hpp\<close> over any engine. The locale \<open>block_engine\<close> is
    what it needs of an engine; it is interpreted on the engine above. The generator refines a position in a stream of words.
  \<^item> \<open>Samplers\<close>: the samplers of \<^verbatim>\<open>random/uniform.hpp\<close> and \<^verbatim>\<open>random/binomial.hpp\<close>, and \<^verbatim>\<open>rational.hpp\<close>, with the integer of
    the result as a function of the words drawn.
  \<^item> \<open>Shape_Index\<close>: the shapes of tensors and the indices into them (\<^verbatim>\<open>shape.hpp\<close>, \<^verbatim>\<open>index.hpp\<close>). Extents, sizes and linear
    indices are words of 64 bits, which wrap around; the lemmas show the bound under which indices and numbers correspond one to one.
  \<^item> \<open>Cipher\<close>: the stream cipher of \<^verbatim>\<open>crypto/cipher.hpp\<close> and the converting spans through which it fills its mask.
  \<^item> \<open>Kernel\<close>: the parallel execution of work items as a step relation that interleaves their loads and stores. The locale
    \<open>race_free\<close> is the contract of kernels whose work items use disjoint memory; it is interpreted on kernels in which every address has
    an owner. Kernels on the same memory follow each other (\<open>queue_run\<close>), and \<open>queue_wp\<close> is what a list of kernels guarantees: no
    execution gets stuck, and each ends in a memory with a property.
  \<^item> \<open>Expr_Random\<close>, \<open>Expr_Cipher\<close>: the generators and ciphers of the elements of tensors (\<^verbatim>\<open>expr/random/number_generator.hpp\<close>,
    \<^verbatim>\<open>expr/crypto/cipher.hpp\<close>, and those of \<^verbatim>\<open>comp/queue.hpp\<close>), and the kernels that encrypt and decrypt tensors, on which
    \<open>race_free\<close> is interpreted. The inner expression is a function of the index.
  \<^item> \<open>Bit_Reverse\<close>: the reversal of bits of \<^verbatim>\<open>detail/utility.hpp\<close>, as a number (\<open>brv\<close>).
  \<^item> \<open>Ntt\<close>: the table of roots and the kernels of the number theoretic transform (\<^verbatim>\<open>expr/number_theoretic_transform.hpp\<close>), one definition
    per kernel, on one memory that holds the scratch buffer and the result; and the three forms of their effects.
  \<^item> \<open>Ntt_Math\<close>, \<open>Ntt_Transform\<close>: the stages on integers modulo a number, with what they compute; and that the kernels compute the stages,
    for every element type that provides the locale \<open>transform\<close>, an extension of \<open>modular\<close>.
  \<^item> \<open>Ntt_Mod\<close>, \<open>Root_Of_Unity\<close>, \<open>Ntt_Correct\<close>: the interpretation on modular integers, the constants of \<^verbatim>\<open>ints/integer_traits.hpp\<close>,
    the search of the compiler for a root of unity, which may not end and is a \<open>partial_function\<close>, and the transforms put together.

  \<^item> \<open>Structure\<close>: structures of tensors as trees of their fields, with the recursive templates that find a field
    (\<^verbatim>\<open>typing/structure.hpp\<close>, \<^verbatim>\<open>iter/at_structure.hpp\<close>, \<^verbatim>\<open>iter/collect_structure.hpp\<close>).
  \<^item> \<open>Net_Message\<close>, \<open>Net_Buffer\<close>, \<open>Net_Queue\<close>: the Rust half of the network (\<^verbatim>\<open>hmpc-rs/src/net\<close>): the format of messages on a
    stream, the message buffer of a party, and the state and operations of its queue. The hash \<open>sha\<close> and the signatures are
    parameters, and Rust panics are \<open>None\<close>. An operation returns the tasks that it spawns.
  \<^item> \<open>Net_Run\<close>: all parties, their tasks, buffers and the streams between them as a step relation, in which tasks interleave and streams
    arrive in any order; a rank that every step decreases.
  \<^item> \<open>Net_Refine\<close>, \<open>Net_Invariant\<close>: the specification of a run, which executes round after round with all transfers of a round at once, and
    the proof that a network whose scripts follow a plan of transfers refines it, has no deadlock and ends.
  \<^item> \<open>Net_Collective\<close>, \<open>Net_Exchange\<close>, \<open>Net_Plan\<close>: the loops of the collective operations. The locale \<open>message_loop\<close> is the contract of the
    body of a loop; it is interpreted on broadcast, gather, all-gather and all-to-all. The tasks of the parties are shown to be the two ends of the same
    transfers, and one operation to be a plan.
  \<^item> \<open>Net_Ffi\<close>, \<open>Net_Storage\<close>, \<open>Net_Operations\<close>: the foreign functions with their checks and error codes (\<^verbatim>\<open>hmpc-rs/src/ffi\<close>,
    \<^verbatim>\<open>net/ffi.hpp\<close>), the storages, accessors and pointers of results (\<^verbatim>\<open>net/structure.hpp\<close>), and all overloads of the operations of
    \<^verbatim>\<open>net/queue.hpp\<close>; a call that does not compile is \<open>None\<close>.
  \<^item> \<open>Net_Pointers\<close>, \<open>Net_Correct\<close>, \<open>Net_Results\<close>, \<open>Net_All_To_All\<close>: all-gather and all-to-all from the call in C++ at all parties to the
    returned values (\<open>every_run_ends_with\<close>), and the overload of all-to-all that does not communicate.

  The network is modelled with the features sessions, signing and statistics, without collective consistency. Streams are
  reliable, as the QUIC library promises, and connections do not fail. The fields of shares are tensors: an accessor of a share of a number
  would refer to a temporary copy. Structures have elements, since the code does not compile for empty ones.

  Bit sizes, numbers of limbs and numbers of work items are natural numbers: the first two are template arguments, and the kernels are
  launched with numbers of elements that exist in memory. Where an index is computed in 64 bits from values of run time (linear indices,
  the counters and nonces of generators) it is a word.

  Not modelled. The other expression templates, the submission of kernels to SYCL queues, the configuration and the consistency checks of the
  network, the libraries below it (QUIC, TLS, SHA-256, Ed25519, the scheduler of tasks), and the tests. The promotion of 8- and 16-bit limbs to \<^verbatim>\<open>int\<close> is
  read as arithmetic on the limb type.
\<close>

end
